(* ===== verification/Base.thy ===== *)
theory Base
  imports Main "HOL-Library.Word"
begin

text \<open>
  The prelude of the development: the machine types of \<^verbatim>\<open>include/oursql/common/types.h\<close>,
  the little-endian byte codecs every on-disk format of the repository is built from (written
  once here and instantiated by the row codec, the catalog, the write-ahead log, the slotted
  pages and the superblock), the result type of fallible operations, and the generic list
  facts that the components share.
\<close>

unbundle bit_operations_syntax

named_theorems codec_simps \<open>length and read-back facts about byte codecs\<close>
named_theorems inv_intros \<open>preservation facts of component invariants\<close>

subsection \<open>Machine types\<close>

type_synonym byte = "8 word"
type_synonym u16 = "16 word"
type_synonym u32 = "32 word"
type_synonym u64 = "64 word"
type_synonym i64 = "64 word"
type_synonym page_id_t = "32 word"
type_synonym slot_id_t = "32 word"
type_synonym txn_id_t = "64 word"
type_synonym lsn_t = "64 word"

text \<open>\<open>std::numeric_limits<page_id_t>::max()\<close> and its sibling for slots.\<close>

definition INVALID_PAGE_ID :: page_id_t where
  "INVALID_PAGE_ID = -1"

definition INVALID_SLOT_ID :: slot_id_t where
  "INVALID_SLOT_ID = -1"

record RID =
  rid_page_id :: page_id_t
  rid_slot_id :: slot_id_t

subsection \<open>Characters and bytes\<close>

text \<open>A C++ \<open>char\<close> of a \<open>std::string\<close> is one byte; \<^typ>\<open>char\<close> has the same 256 values.\<close>

definition byte_of_char :: "char \<Rightarrow> byte" where
  "byte_of_char c = word_of_nat (of_char c)"

definition char_of_byte :: "byte \<Rightarrow> char" where
  "char_of_byte b = char_of (unat b)"

lemma char_of_byte_of_char [simp]: "char_of_byte (byte_of_char c) = c"
  by (simp add: char_of_byte_def byte_of_char_def unat_of_nat take_bit_eq_mod [symmetric] take_bit_nat_eq_self)

lemma byte_of_char_of_byte [simp]: "byte_of_char (char_of_byte b) = b"
proof -
  have "unat b < 256" using unsigned_less [of b, where ?'a = nat] by simp
  then show ?thesis by (simp add: char_of_byte_def byte_of_char_def)
qed

lemma char_byte_comp [simp]: "char_of_byte \<circ> byte_of_char = id" "byte_of_char \<circ> char_of_byte = id"
  by (simp_all add: fun_eq_iff)

lemma map_char_of_byte_of_char [simp]: "map char_of_byte (map byte_of_char s) = s"
  by (induction s) simp_all

lemma map_byte_of_char_of_byte [simp]: "map byte_of_char (map char_of_byte s) = s"
  by (induction s) simp_all

subsection \<open>Little-endian codecs\<close>

text \<open>
  The specification side: \<open>le_bytes n w\<close> is the list of the \<open>n\<close> low bytes of \<open>w\<close>, lowest
  first, and \<open>le_word\<close> reads such a list back.
\<close>

fun le_word :: "byte list \<Rightarrow> 'a::len word" where
  "le_word [] = 0"
| "le_word (b # bs) = ucast b OR push_bit 8 (le_word bs)"

fun le_bytes :: "nat \<Rightarrow> 'a::len word \<Rightarrow> byte list" where
  "le_bytes 0 w = []"
| "le_bytes (Suc n) w = ucast w # le_bytes n (drop_bit 8 w)"

lemma length_le_bytes [simp, codec_simps]: "length (le_bytes n w) = n"
  by (induction n arbitrary: w) simp_all

lemma le_word_le_bytes: "le_word (le_bytes n w) = take_bit (8 * n) w"
proof (induction n arbitrary: w)
  case 0
  show ?case by simp
next
  case (Suc n)
  have "le_word (le_bytes (Suc n) w) = ucast (ucast w :: byte) OR push_bit 8 (take_bit (8 * n) (drop_bit 8 w))"
    by (simp add: Suc.IH)
  also have "\<dots> = take_bit (8 * Suc n) w"
    by (rule bit_word_eqI) (auto simp: bit_simps)
  finally show ?case .
qed

lemma le_word_le_bytes_u32 [simp, codec_simps]: "le_word (le_bytes 4 (w::u32)) = w"
  by (simp add: le_word_le_bytes take_bit_word_eq_self)

lemma le_word_le_bytes_u64 [simp, codec_simps]: "le_word (le_bytes 8 (w::u64)) = w"
  by (simp add: le_word_le_bytes take_bit_word_eq_self)

lemma le_word_le_bytes_u16 [simp, codec_simps]: "le_word (le_bytes 2 (w::u16)) = w"
  by (simp add: le_word_le_bytes take_bit_word_eq_self)

lemma le_bytes_le_word:
  assumes "8 * length bs \<le> LENGTH('a::len)"
  shows "le_bytes (length bs) (le_word bs :: 'a word) = bs"
  using assms
proof (induction bs)
  case Nil
  show ?case by simp
next
  case (Cons b bs)
  have n: "8 + 8 * length bs \<le> LENGTH('a)" using Cons.prems by simp
  have hd: "ucast (le_word (b # bs) :: 'a word) = b"
    using n by (intro bit_word_eqI) (auto simp: bit_simps)
  have "drop_bit 8 (le_word (b # bs) :: 'a word) = take_bit (LENGTH('a) - 8) (le_word bs)"
    using n by (intro bit_word_eqI) (auto simp: bit_simps dest: bit_imp_le_length)
  also have "le_bytes (length bs) \<dots> = le_bytes (length bs) (le_word bs :: 'a word)"
  proof -
    have *: "le_bytes k (take_bit m w) = le_bytes k w" if "8 * k \<le> m" for k m and w :: "'a word"
      using that
    proof (induction k arbitrary: m w)
      case 0
      show ?case by simp
    next
      case (Suc k)
      have "ucast (take_bit m w) = (ucast w :: byte)"
        using Suc.prems by (intro bit_word_eqI) (auto simp: bit_simps)
      moreover have "drop_bit 8 (take_bit m w) = take_bit (m - 8) (drop_bit 8 w)"
        by (simp add: drop_bit_take_bit)
      moreover have "le_bytes k (take_bit (m - 8) (drop_bit 8 w)) = le_bytes k (drop_bit 8 w)"
        using Suc.prems by (intro Suc.IH) simp
      ultimately show ?case by simp
    qed
    show ?thesis using n by (intro *) simp
  qed
  finally show ?case using Cons n hd by simp
qed


lemma le_word_append: "le_word (xs @ ys) = le_word xs OR push_bit (8 * length xs) (le_word ys)"
  by (induction xs) (simp_all add: push_bit_or or.assoc)

lemma le_bytes_append: "le_bytes (m + n) w = le_bytes m w @ le_bytes n (drop_bit (8 * m) w)"
  by (induction m arbitrary: w) (simp_all add: drop_bit_drop_bit add.commute)

lemma le_bytes_conv_map: "le_bytes n w = map (\<lambda>i. ucast (drop_bit (8 * i) w)) [0..<n]"
proof (induction n)
  case 0
  show ?case by simp
next
  case (Suc n)
  then show ?case using le_bytes_append [of n 1 w] by simp
qed

lemma ucast_and_FF [simp]: "(ucast (v AND 0xFF) :: byte) = ucast (v :: 'a::len word)"
proof -
  have "(0xFF :: 'a word) = mask 8" by (simp add: mask_eq_exp_minus_1)
  moreover have "(ucast (v AND mask 8) :: byte) = ucast v"
    by (rule bit_word_eqI) (simp only: bit_simps, auto dest: bit_imp_le_length)
  ultimately show ?thesis by (simp only:)
qed

lemma le_bytes_4: "le_bytes 4 v =
    [ucast v, ucast (drop_bit 8 v), ucast (drop_bit 16 v), ucast (drop_bit 24 v)]"
  by (simp add: le_bytes_conv_map upt_conv_Cons)

text \<open>
  The code side: the loops \<open>value |= byte << 8*i\<close> and \<open>data[offset+i] = value >> 8*i\<close> by
  which every module of the repository reads and writes integers.
\<close>

definition load_loop :: "nat \<Rightarrow> byte list \<Rightarrow> nat \<Rightarrow> 'a::len word" where
  "load_loop n data off = foldl (\<lambda>v i. v OR push_bit (8 * i) (ucast (data ! (off + i)))) 0 [0..<n]"

definition store_loop :: "nat \<Rightarrow> byte list \<Rightarrow> nat \<Rightarrow> 'a::len word \<Rightarrow> byte list" where
  "store_loop n data off w = foldl (\<lambda>d i. d[off + i := ucast (drop_bit (8 * i) w)]) data [0..<n]"

text \<open>Byte ranges of a buffer: \<open>memcpy\<close> out of it and into it.\<close>

definition get_bytes :: "nat \<Rightarrow> nat \<Rightarrow> byte list \<Rightarrow> byte list" where
  "get_bytes off n data = take n (drop off data)"

definition put_bytes :: "nat \<Rightarrow> byte list \<Rightarrow> byte list \<Rightarrow> byte list" where
  "put_bytes off bs data = take off data @ bs @ drop (off + length bs) data"

lemma length_get_bytes [codec_simps]: "off + n \<le> length data \<Longrightarrow> length (get_bytes off n data) = n"
  by (simp add: get_bytes_def)

lemma length_put_bytes [codec_simps]:
  "off + length bs \<le> length data \<Longrightarrow> length (put_bytes off bs data) = length data"
  by (simp add: put_bytes_def)

lemma get_put_same [codec_simps]:
  "off + length bs \<le> length data \<Longrightarrow> n = length bs \<Longrightarrow> get_bytes off n (put_bytes off bs data) = bs"
  by (simp add: get_bytes_def put_bytes_def)

lemma nth_put_bytes:
  "off + length bs \<le> length data \<Longrightarrow> i < length data \<Longrightarrow>
   put_bytes off bs data ! i = (if off \<le> i \<and> i < off + length bs then bs ! (i - off) else data ! i)"
  by (auto simp: put_bytes_def nth_append)

lemma get_put_disjoint [codec_simps]:
  assumes "off + length bs \<le> length data" and "p + n \<le> off \<or> off + length bs \<le> p"
    and "p + n \<le> length data"
  shows "get_bytes p n (put_bytes off bs data) = get_bytes p n data"
  using assms by (intro nth_equalityI) (auto simp: get_bytes_def nth_put_bytes length_put_bytes)

lemma get_bytes_le_bytes_word_eq:
  "get_bytes off n data = xs \<Longrightarrow> off + n \<le> length data \<Longrightarrow> length xs = n"
  by (auto simp: get_bytes_def)

lemma load_loop_eq:
  assumes "off + n \<le> length data"
  shows "load_loop n data off = (le_word (get_bytes off n data) :: 'a::len word)"
  using assms
proof (induction n)
  case 0
  show ?case by (simp add: load_loop_def get_bytes_def)
next
  case (Suc n)
  have "get_bytes off (Suc n) data = get_bytes off n data @ [data ! (off + n)]"
    using Suc.prems by (simp add: get_bytes_def take_Suc_conv_app_nth)
  moreover have "length (get_bytes off n data) = n"
    using Suc.prems by (simp add: codec_simps)
  moreover have "load_loop n data off = (le_word (get_bytes off n data) :: 'a word)"
    using Suc.prems by (intro Suc.IH) simp
  ultimately show ?case by (simp add: load_loop_def le_word_append)
qed

lemma store_loop_eq:
  assumes "off + n \<le> length data"
  shows "store_loop n data off w = put_bytes off (le_bytes n w) data"
  using assms
proof (induction n)
  case 0
  show ?case by (simp add: store_loop_def put_bytes_def)
next
  case (Suc n)
  have IH: "store_loop n data off w = put_bytes off (le_bytes n w) data"
    using Suc.prems by (intro Suc.IH) simp
  have "store_loop (Suc n) data off w
      = (put_bytes off (le_bytes n w) data)[off + n := ucast (drop_bit (8 * n) w)]"
    using IH by (simp add: store_loop_def)
  also have "\<dots> = put_bytes off (le_bytes (Suc n) w) data"
    using Suc.prems
    by (intro nth_equalityI)
      (auto simp: length_put_bytes nth_put_bytes nth_list_update le_bytes_conv_map nth_append)
  finally show ?case .
qed

lemma get_bytes_append_exact [codec_simps]:
  "off = length xs \<Longrightarrow> n = length ys \<Longrightarrow> get_bytes off n (xs @ ys @ zs) = ys"
  by (simp add: get_bytes_def)

lemma get_bytes_append_left [codec_simps]:
  "off + n \<le> length xs \<Longrightarrow> get_bytes off n (xs @ ys) = get_bytes off n xs"
  by (simp add: get_bytes_def)

lemma get_bytes_4:
  assumes "off + 4 \<le> length data"
  shows "get_bytes off 4 data = [data ! off, data ! (off + 1), data ! (off + 2), data ! (off + 3)]"
proof (rule nth_equalityI)
  show "length (get_bytes off 4 data) = length [data ! off, data ! (off + 1), data ! (off + 2), data ! (off + 3)]"
    using assms by (simp add: length_get_bytes)
  fix i assume "i < length (get_bytes off 4 data)"
  then have "i < 4" using assms by (simp add: length_get_bytes)
  then consider "i = 0" | "i = 1" | "i = 2" | "i = 3" by linarith
  then show "get_bytes off 4 data ! i
      = [data ! off, data ! (off + 1), data ! (off + 2), data ! (off + 3)] ! i"
    using assms by cases (simp_all add: get_bytes_def)
qed

lemma unat_word_of_nat_u32 [codec_simps]: "n < 2 ^ 32 \<Longrightarrow> unat (word_of_nat n :: u32) = n"
  by (simp add: unsigned_of_nat take_bit_nat_eq_self)

subsection \<open>Results\<close>

text \<open>
  \<^verbatim>\<open>Status\<close> and \<^verbatim>\<open>Result<T>\<close> carry an \<^verbatim>\<open>ErrorCode\<close> and a diagnostic message. The
  components keep the code and drop the message text (it never steers control flow): a
  \<^verbatim>\<open>Status\<close> is an \<open>ErrorCode\<close>, a \<^verbatim>\<open>Result<T>\<close> a sum. \<^verbatim>\<open>status.cpp\<close> itself, with
  its messages, is modelled in \<open>Common\<close>.
\<close>

datatype ErrorCode =
    Code_Ok
  | InvalidArgument
  | NotFound
  | NotImplemented
  | AlreadyExists
  | TypeMismatch
  | OutOfSpace
  | RecordTooLarge
  | IOError
  | InternalError

type_synonym 'a Result = "ErrorCode + 'a"

subsection \<open>Lists\<close>

lemma find_Some_iff_nth:
  "List.find P xs = Some x \<Longrightarrow> x \<in> set xs \<and> P x"
  by (auto simp: find_Some_iff)

lemma remove1_filter_distinct: "distinct xs \<Longrightarrow> remove1 x xs = filter (\<lambda>y. y \<noteq> x) xs"
  by (simp add: distinct_remove1_removeAll removeAll_filter_not_eq neq_commute)

lemma word_less_succ: "a \<noteq> -1 \<Longrightarrow> a < a + (1 :: 'a::len word)"
proof -
  assume "a \<noteq> -1"
  then have "1 + a \<noteq> 0" by (simp add: add_eq_0_iff add.commute)
  then have "unat (1 + a) = Suc (unat a)" by (rule unatSuc)
  then show ?thesis by (simp add: word_less_nat_alt add.commute)
qed

end
