(* ===== verification/Common.thy ===== *)
theory Common
  imports Base
begin

text \<open>
  \<^verbatim>\<open>include/oursql/common\<close> and \<^verbatim>\<open>src/common\<close>: the status type with its messages, SQL
  values, columns and schemas, and the status helpers of the execution layer. A SQL integer
  is a 64-bit word read as two's complement; a \<^verbatim>\<open>std::variant\<close> is a datatype whose
  wrong-alternative access (\<^verbatim>\<open>std::bad_variant_access\<close>) is \<^term>\<open>None\<close>.
\<close>

subsection \<open>Status (status.h, status.cpp)\<close>

record Status =
  status_code :: ErrorCode
  status_message :: string

definition Status_Ok :: Status where
  "Status_Ok = \<lparr>status_code = Code_Ok, status_message = []\<rparr>"

definition make_status :: "ErrorCode \<Rightarrow> string \<Rightarrow> Status" where
  "make_status code message = \<lparr>status_code = code, status_message = message\<rparr>"

definition Status_ok :: "Status \<Rightarrow> bool" where
  "Status_ok s \<longleftrightarrow> status_code s = Code_Ok"

fun code_name :: "ErrorCode \<Rightarrow> string" where
  "code_name Code_Ok = ''Ok''"
| "code_name InvalidArgument = ''InvalidArgument''"
| "code_name NotFound = ''NotFound''"
| "code_name NotImplemented = ''NotImplemented''"
| "code_name AlreadyExists = ''AlreadyExists''"
| "code_name TypeMismatch = ''TypeMismatch''"
| "code_name OutOfSpace = ''OutOfSpace''"
| "code_name RecordTooLarge = ''RecordTooLarge''"
| "code_name IOError = ''IOError''"
| "code_name InternalError = ''InternalError''"

definition Status_ToString :: "Status \<Rightarrow> string" where
  "Status_ToString s =
     (if status_code s = Code_Ok then ''Ok''
      else if status_message s = [] then code_name (status_code s)
      else code_name (status_code s) @ '': '' @ status_message s)"

text \<open>
  \<^verbatim>\<open>Result<T>\<close> with its two constructors; wrapping a successful \<^verbatim>\<open>Status\<close> without a
  value is turned into an \<^verbatim>\<open>InternalError\<close> (its fixed message is not modelled), and reading
  the value of a failed result throws (\<^term>\<open>None\<close>).
\<close>

record 'a ResultObj =
  result_status :: Status
  result_value :: "'a option"

definition Result_of_value :: "'a \<Rightarrow> 'a ResultObj" where
  "Result_of_value v = \<lparr>result_status = Status_Ok, result_value = Some v\<rparr>"

definition Result_of_status :: "string \<Rightarrow> Status \<Rightarrow> 'a ResultObj" where
  "Result_of_status wrapped_ok_message s =
     \<lparr>result_status = (if Status_ok s then make_status InternalError wrapped_ok_message else s),
      result_value = None\<rparr>"

definition Result_ok :: "'a ResultObj \<Rightarrow> bool" where
  "Result_ok r \<longleftrightarrow> Status_ok (result_status r)"

definition Result_value :: "'a ResultObj \<Rightarrow> 'a option" where
  "Result_value r = (if \<not> Result_ok r \<or> result_value r = None then None else result_value r)"

text \<open>The status helpers of \<^verbatim>\<open>database_engine.cpp\<close>; \<^verbatim>\<open>executor.cpp\<close> has the same \<^verbatim>\<open>Contextualize\<close>.\<close>

definition RebuildStatus :: "ErrorCode \<Rightarrow> string \<Rightarrow> Status" where
  "RebuildStatus code message =
     (case code of Code_Ok \<Rightarrow> make_status InternalError message | c \<Rightarrow> make_status c message)"

definition Contextualize :: "string \<Rightarrow> Status \<Rightarrow> Status" where
  "Contextualize layer s =
     (let message = layer @ '': '' @ status_message s
      in case status_code s of
           Code_Ok \<Rightarrow> make_status InternalError message
         | c \<Rightarrow> make_status c message)"

definition CombineFailure :: "Status \<Rightarrow> Status \<Rightarrow> Status" where
  "CombineFailure original rollback =
     RebuildStatus (status_code original)
       (status_message original @ ''; rollback also failed: '' @ status_message rollback)"

lemma RebuildStatus_not_ok: "\<not> Status_ok (RebuildStatus code msg)"
  by (cases code) (simp_all add: RebuildStatus_def Status_ok_def make_status_def)

lemma RebuildStatus_code:
  "code \<noteq> Code_Ok \<Longrightarrow> status_code (RebuildStatus code msg) = code"
  by (cases code) (simp_all add: RebuildStatus_def make_status_def)

text \<open>
  A result built by either constructor holds a value exactly when its status is ok, so
  \<^verbatim>\<open>value()\<close> never throws after a successful \<^verbatim>\<open>ok()\<close> test.
\<close>

definition result_wf :: "'a ResultObj \<Rightarrow> bool" where
  "result_wf r \<longleftrightarrow> (Result_ok r \<longleftrightarrow> result_value r \<noteq> None)"

lemma result_wf_constructors:
  "result_wf (Result_of_value v)" "result_wf (Result_of_status m s)"
  by (simp_all add: result_wf_def Result_ok_def Result_of_value_def Result_of_status_def
      Status_ok_def Status_Ok_def make_status_def)

lemma result_wf_value: "result_wf r \<Longrightarrow> Result_ok r \<longleftrightarrow> Result_value r \<noteq> None"
  by (auto simp: result_wf_def Result_value_def)

subsection \<open>Values (value.h, value.cpp, types.h)\<close>

datatype DataType = DT_Int | DT_Varchar | DT_Null

datatype Value = VNull | VInt i64 | VText string

fun Value_type :: "Value \<Rightarrow> DataType" where
  "Value_type VNull = DT_Null"
| "Value_type (VInt i) = DT_Int"
| "Value_type (VText s) = DT_Varchar"

definition IsInt :: "Value \<Rightarrow> bool" where
  "IsInt v \<longleftrightarrow> (case v of VInt _ \<Rightarrow> True | _ \<Rightarrow> False)"

definition IsVarchar :: "Value \<Rightarrow> bool" where
  "IsVarchar v \<longleftrightarrow> (case v of VText _ \<Rightarrow> True | _ \<Rightarrow> False)"

definition IsNull :: "Value \<Rightarrow> bool" where
  "IsNull v \<longleftrightarrow> (case v of VNull \<Rightarrow> True | _ \<Rightarrow> False)"

definition AsInt :: "Value \<Rightarrow> i64 option" where
  "AsInt v = (case v of VInt i \<Rightarrow> Some i | _ \<Rightarrow> None)"

definition AsVarchar :: "Value \<Rightarrow> string option" where
  "AsVarchar v = (case v of VText s \<Rightarrow> Some s | _ \<Rightarrow> None)"

text \<open>\<^verbatim>\<open>std::to_string(int64_t)\<close>: decimal, a leading minus for negative values.\<close>

fun nat_to_string :: "nat \<Rightarrow> string" where
  "nat_to_string n =
     (if n < 10 then [char_of (48 + n)] else nat_to_string (n div 10) @ [char_of (48 + n mod 10)])"

declare nat_to_string.simps [simp del]

definition int_to_string :: "int \<Rightarrow> string" where
  "int_to_string i = (if i < 0 then CHR ''-'' # nat_to_string (nat (- i)) else nat_to_string (nat i))"

fun Value_ToString :: "Value \<Rightarrow> string" where
  "Value_ToString VNull = ''NULL''"
| "Value_ToString (VInt i) = int_to_string (sint i)"
| "Value_ToString (VText s) = s"

lemma Value_type_iff:
  "IsNull v \<longleftrightarrow> Value_type v = DT_Null"
  "IsInt v \<longleftrightarrow> Value_type v = DT_Int"
  "IsVarchar v \<longleftrightarrow> Value_type v = DT_Varchar"
  by (cases v; simp add: IsNull_def IsInt_def IsVarchar_def)+

subsection \<open>Schemas (schema.h, schema.cpp)\<close>

record Column =
  col_name :: string
  col_type :: DataType
  col_length :: "nat option"
  nullable :: bool
  primary_key :: bool
  unique :: bool
  default_value :: "Value option"

text \<open>The \<^verbatim>\<open>Column\<close> constructor: a primary key is also unique.\<close>

definition make_Column ::
  "string \<Rightarrow> DataType \<Rightarrow> nat option \<Rightarrow> bool \<Rightarrow> bool \<Rightarrow> bool \<Rightarrow> Value option \<Rightarrow> Column" where
  "make_Column name type varchar_length is_nullable is_primary_key is_unique default_literal =
     \<lparr>col_name = name, col_type = type, col_length = varchar_length, nullable = is_nullable,
      primary_key = is_primary_key, unique = is_unique \<or> is_primary_key,
      default_value = default_literal\<rparr>"

type_synonym Schema = "Column list"
type_synonym Row = "Value list"

fun find_column_from :: "nat \<Rightarrow> Column list \<Rightarrow> string \<Rightarrow> nat Result" where
  "find_column_from i [] name = Inl NotFound"
| "find_column_from i (c # cs) name =
     (if col_name c = name then Inr i else find_column_from (Suc i) cs name)"

definition FindColumnIndex :: "Schema \<Rightarrow> string \<Rightarrow> nat Result" where
  "FindColumnIndex schema name = find_column_from 0 schema name"

definition FindColumn :: "Schema \<Rightarrow> string \<Rightarrow> Column Result" where
  "FindColumn schema name =
     (case FindColumnIndex schema name of Inl e \<Rightarrow> Inl e | Inr i \<Rightarrow> Inr (schema ! i))"

text \<open>\<^verbatim>\<open>Schema::At\<close> throws \<^verbatim>\<open>std::out_of_range\<close> (\<^term>\<open>None\<close>) past the end.\<close>

definition Schema_At :: "Schema \<Rightarrow> nat \<Rightarrow> Column option" where
  "Schema_At schema i = (if i \<ge> length schema then None else Some (schema ! i))"

lemma find_column_from_Inr:
  "find_column_from k cs name = Inr i \<longleftrightarrow>
     k \<le> i \<and> i < k + length cs \<and> col_name (cs ! (i - k)) = name
     \<and> (\<forall>j < i - k. col_name (cs ! j) \<noteq> name)"
proof (induction cs arbitrary: k)
  case Nil
  then show ?case by simp
next
  case (Cons c cs)
  show ?case
  proof (cases "col_name c = name")
    case True
    then show ?thesis by (cases "i = k") (auto simp: nth_Cons' intro: exI [of _ 0])
  next
    case False
    have "find_column_from (Suc k) cs name = Inr i \<longleftrightarrow>
        Suc k \<le> i \<and> i < Suc k + length cs \<and> col_name (cs ! (i - Suc k)) = name
        \<and> (\<forall>j < i - Suc k. col_name (cs ! j) \<noteq> name)"
      by (rule Cons.IH)
    with False show ?thesis
    proof (cases "k < i")
      case True
      then obtain d where "i = Suc (k + d)" using less_iff_Suc_add by blast
      with False \<open>find_column_from (Suc k) cs name = Inr i \<longleftrightarrow> _\<close> show ?thesis
        by (simp add: All_less_Suc2 Suc_diff_le)
    qed (auto simp: nth_Cons')
  qed
qed

end
