(* ===== verification/Codec.thy ===== *)
theory Codec
  imports Base
begin

text \<open>
  The interfaces of record formats: \<open>record_codec\<close> and \<open>canonical_codec\<close> state what a writer
  and a reader of a format promise each other. The row codec interprets the second, the log record
  codec the first (it ignores two padding bytes, so it is not canonical).
\<close>

subsection \<open>What a pair of encoder and decoder promises\<close>

locale record_codec =
  fixes enc :: "'a \<Rightarrow> byte list Result"
    and dec :: "byte list \<Rightarrow> 'a Result"
    and valid :: "'a \<Rightarrow> bool"
  assumes dec_enc: "valid x \<Longrightarrow> enc x = Inr b \<Longrightarrow> dec b = Inr x"
begin

lemma enc_inj: "valid x \<Longrightarrow> valid y \<Longrightarrow> enc x = Inr b \<Longrightarrow> enc y = Inr b \<Longrightarrow> x = y"
  using dec_enc [of x b] dec_enc [of y b] by simp

text \<open>Reading back a whole sequence of stored records.\<close>

lemma dec_enc_list:
  "\<forall>x \<in> set xs. valid x \<Longrightarrow> map enc xs = map Inr bs \<Longrightarrow> map dec bs = map Inr xs"
  by (induction xs arbitrary: bs) (auto simp: dec_enc)

end

locale canonical_codec = record_codec +
  assumes enc_dec: "valid x \<Longrightarrow> dec b = Inr x \<Longrightarrow> enc x = Inr b"
begin

lemma dec_iff_enc: "valid x \<Longrightarrow> dec b = Inr x \<longleftrightarrow> enc x = Inr b"
  using dec_enc enc_dec by blast

lemma dec_inj: "valid x \<Longrightarrow> dec b = Inr x \<Longrightarrow> dec b' = Inr x \<Longrightarrow> b = b'"
  using enc_dec [of x b] enc_dec [of x b'] by simp

end

end
