(* ===== verification/RowCodec.thy ===== *)
theory RowCodec
  imports Common Codec
begin

text \<open>
  \<^verbatim>\<open>src/storage/row_codec.cpp\<close>: the record format of table rows. It interprets
  \<open>canonical_codec\<close>: no two byte strings stand for one row.
\<close>

subsection \<open>The code\<close>

definition kRowMagic :: u32 where
  "kRowMagic = 0x31574F52"

definition kRowHeaderSize :: nat where
  "kRowHeaderSize = 8"

definition kFieldHeaderSize :: nat where
  "kFieldHeaderSize = 5"

definition AppendU32 :: "byte list \<Rightarrow> u32 \<Rightarrow> byte list" where
  "AppendU32 record value =
     record @ [ucast (value AND 0xFF), ucast (drop_bit 8 value AND 0xFF),
               ucast (drop_bit 16 value AND 0xFF), ucast (drop_bit 24 value AND 0xFF)]"

definition AppendU64 :: "byte list \<Rightarrow> u64 \<Rightarrow> byte list" where
  "AppendU64 record value =
     foldl (\<lambda>r i. r @ [ucast (drop_bit (i * 8) value AND 0xFF)]) record [0..<8]"

definition CanRead :: "byte list \<Rightarrow> nat \<Rightarrow> nat \<Rightarrow> bool" where
  "CanRead record off len \<longleftrightarrow> off \<le> length record \<and> len \<le> length record - off"

definition ReadU32 :: "byte list \<Rightarrow> nat \<Rightarrow> u32" where
  "ReadU32 record off =
     ucast (record ! off) OR push_bit 8 (ucast (record ! (off + 1)))
     OR push_bit 16 (ucast (record ! (off + 2))) OR push_bit 24 (ucast (record ! (off + 3)))"

definition ReadU64 :: "byte list \<Rightarrow> nat \<Rightarrow> u64" where
  "ReadU64 record off = load_loop 8 record off"

definition TypeTag :: "DataType \<Rightarrow> byte" where
  "TypeTag type = (if type = DT_Int then 1 else 2)"

text \<open>One iteration of the loop of \<^verbatim>\<open>RowCodec::Encode\<close>, the loop, and the function.\<close>

definition encode_field :: "Column \<Rightarrow> Value \<Rightarrow> byte list \<Rightarrow> byte list Result" where
  "encode_field column value record =
     (if IsNull value then
        if \<not> nullable column then Inl InvalidArgument
        else Inr (AppendU32 (record @ [0]) 0)
      else if Value_type value \<noteq> col_type column then Inl TypeMismatch
      else let record = record @ [TypeTag (col_type column)]
           in case value of
                VInt i \<Rightarrow> Inr (AppendU64 (AppendU32 record 8) i)
              | VText text \<Rightarrow>
                  if col_length column \<noteq> None \<and> length text > the (col_length column)
                  then Inl InvalidArgument
                  else if length text > 2 ^ 32 - 1 then Inl InvalidArgument
                  else Inr (AppendU32 record (word_of_nat (length text)) @ map byte_of_char text)
              | VNull \<Rightarrow> Inl InternalError)"

fun encode_fields :: "Column list \<Rightarrow> Value list \<Rightarrow> byte list \<Rightarrow> byte list Result" where
  "encode_fields (column # columns) (value # values) record =
     (case encode_field column value record of
        Inl e \<Rightarrow> Inl e
      | Inr record \<Rightarrow> encode_fields columns values record)"
| "encode_fields _ _ record = Inr record"

definition RowCodec_Encode :: "Schema \<Rightarrow> Row \<Rightarrow> byte list Result" where
  "RowCodec_Encode schema row =
     (if length row \<noteq> length schema then Inl InvalidArgument
      else encode_fields schema row
             (AppendU32 (AppendU32 [] kRowMagic) (word_of_nat (length schema))))"

text \<open>The same for \<^verbatim>\<open>RowCodec::Decode\<close>: an iteration yields the value and the next offset.\<close>

definition decode_field :: "Column \<Rightarrow> byte list \<Rightarrow> nat \<Rightarrow> (Value \<times> nat) Result" where
  "decode_field column record off =
     (if \<not> CanRead record off kFieldHeaderSize then Inl InvalidArgument
      else let type_tag = record ! off;
               len = unat (ReadU32 record (off + 1));
               off = off + kFieldHeaderSize
           in if type_tag = 0 then
                if len \<noteq> 0 \<or> \<not> nullable column then Inl InvalidArgument else Inr (VNull, off)
              else if type_tag \<noteq> TypeTag (col_type column) then Inl TypeMismatch
              else if col_type column = DT_Int then
                if len \<noteq> 8 \<or> \<not> CanRead record off len then Inl InvalidArgument
                else Inr (VInt (ReadU64 record off), off + len)
              else if \<not> CanRead record off len then Inl InvalidArgument
              else if col_length column \<noteq> None \<and> len > the (col_length column)
                then Inl InvalidArgument
              else Inr (VText (map char_of_byte (get_bytes off len record)), off + len))"

fun decode_fields :: "Column list \<Rightarrow> byte list \<Rightarrow> nat \<Rightarrow> (Value list \<times> nat) Result" where
  "decode_fields [] record off = Inr ([], off)"
| "decode_fields (column # columns) record off =
     (case decode_field column record off of
        Inl e \<Rightarrow> Inl e
      | Inr (v, off) \<Rightarrow>
          (case decode_fields columns record off of
             Inl e \<Rightarrow> Inl e
           | Inr (vs, off) \<Rightarrow> Inr (v # vs, off)))"

definition RowCodec_Decode :: "Schema \<Rightarrow> byte list \<Rightarrow> Row Result" where
  "RowCodec_Decode schema record =
     (if \<not> CanRead record 0 kRowHeaderSize then Inl InvalidArgument
      else if ReadU32 record 0 \<noteq> kRowMagic then Inl InvalidArgument
      else if unat (ReadU32 record 4) \<noteq> length schema then Inl InvalidArgument
      else case decode_fields schema record kRowHeaderSize of
             Inl e \<Rightarrow> Inl e
           | Inr (row, off) \<Rightarrow> if off \<noteq> length record then Inl InvalidArgument else Inr row)"

subsection \<open>Facts about the primitive readers and writers\<close>

lemma AppendU32_eq [codec_simps]: "AppendU32 r v = r @ le_bytes 4 v"
  by (simp add: AppendU32_def le_bytes_4)

lemma AppendU64_eq [codec_simps]: "AppendU64 r v = r @ le_bytes 8 v"
proof -
  have "foldl (\<lambda>r i. r @ [ucast (drop_bit (i * 8) v AND 0xFF)]) r [0..<n] = r @ le_bytes n v" for n
    by (induction n) (simp_all add: le_bytes_conv_map mult.commute)
  then show ?thesis by (simp add: AppendU64_def)
qed

lemma ReadU32_eq [codec_simps]:
  "off + 4 \<le> length r \<Longrightarrow> ReadU32 r off = le_word (get_bytes off 4 r)"
  by (simp add: get_bytes_4 ReadU32_def push_bit_or or.assoc)

lemma ReadU64_eq [codec_simps]:
  "off + 8 \<le> length r \<Longrightarrow> ReadU64 r off = le_word (get_bytes off 8 r)"
  by (simp add: ReadU64_def load_loop_eq)

lemma CanRead_iff [codec_simps]: "CanRead r off n \<longleftrightarrow> off + n \<le> length r"
  by (auto simp: CanRead_def)

subsection \<open>The format of one field\<close>

text \<open>
  \<open>field_ok\<close> is the condition under which a value may stand in a column, \<open>field_bytes\<close> its
  byte image: tag, 32-bit length, contents.
\<close>

definition field_ok :: "Column \<Rightarrow> Value \<Rightarrow> bool" where
  "field_ok c v \<longleftrightarrow>
     (case v of
        VNull \<Rightarrow> nullable c
      | VInt i \<Rightarrow> col_type c = DT_Int
      | VText t \<Rightarrow> col_type c = DT_Varchar \<and> length t < 2 ^ 32
                   \<and> (case col_length c of None \<Rightarrow> True | Some n \<Rightarrow> length t \<le> n))"

definition field_bytes :: "Value \<Rightarrow> byte list" where
  "field_bytes v =
     (case v of
        VNull \<Rightarrow> 0 # le_bytes 4 (0 :: u32)
      | VInt i \<Rightarrow> 1 # le_bytes 4 (8 :: u32) @ le_bytes 8 i
      | VText t \<Rightarrow> 2 # le_bytes 4 (word_of_nat (length t) :: u32) @ map byte_of_char t)"

lemma encode_field_Inr_iff:
  "encode_field c v r = Inr r' \<longleftrightarrow> field_ok c v \<and> r' = r @ field_bytes v"
proof (cases v)
  case VNull
  then show ?thesis
    by (auto simp: encode_field_def field_ok_def field_bytes_def IsNull_def AppendU32_eq)
next
  case (VInt i)
  then show ?thesis
    by (auto simp: encode_field_def field_ok_def field_bytes_def IsNull_def AppendU32_eq
        AppendU64_eq TypeTag_def)
next
  case (VText t)
  then show ?thesis
    by (auto simp: encode_field_def field_ok_def field_bytes_def IsNull_def AppendU32_eq
        TypeTag_def Let_def split: option.splits)
qed

lemma decode_field_bytes:
  assumes "field_ok c v"
  shows "decode_field c (pre @ field_bytes v @ post) (length pre)
      = Inr (v, length pre + length (field_bytes v))"
proof -
  have tag: "(pre @ field_bytes v @ post) ! length pre = hd (field_bytes v)"
    by (cases v) (simp_all add: field_bytes_def nth_append)
  show ?thesis
  proof (cases v)
    case VNull
    have "get_bytes (length pre + 1) 4 (pre @ field_bytes v @ post) = le_bytes 4 (0 :: u32)"
      by (simp add: get_bytes_def field_bytes_def VNull)
    then have "ReadU32 (pre @ field_bytes v @ post) (length pre + 1) = 0"
      by (simp add: ReadU32_eq field_bytes_def VNull)
    with VNull assms tag show ?thesis
      by (simp add: decode_field_def CanRead_iff kFieldHeaderSize_def field_ok_def field_bytes_def)
  next
    case (VInt i)
    have "get_bytes (length pre + 1) 4 (pre @ field_bytes v @ post) = le_bytes 4 (8 :: u32)"
      by (simp add: get_bytes_def field_bytes_def VInt)
    then have len: "ReadU32 (pre @ field_bytes v @ post) (length pre + 1) = 8"
      by (simp add: ReadU32_eq field_bytes_def VInt)
    have "get_bytes (length pre + 5) 8 (pre @ field_bytes v @ post) = le_bytes 8 i"
      by (simp add: get_bytes_def field_bytes_def VInt)
    then have "ReadU64 (pre @ field_bytes v @ post) (length pre + 5) = i"
      by (simp add: ReadU64_eq field_bytes_def VInt)
    with VInt assms tag len show ?thesis
      by (simp add: decode_field_def CanRead_iff kFieldHeaderSize_def field_ok_def
          field_bytes_def TypeTag_def)
  next
    case (VText t)
    let ?n = "word_of_nat (length t) :: u32"
    have small: "length t < 2 ^ 32" using assms VText by (simp add: field_ok_def)
    have "get_bytes (length pre + 1) 4 (pre @ field_bytes v @ post) = le_bytes 4 ?n"
      by (simp add: get_bytes_def field_bytes_def VText)
    then have "ReadU32 (pre @ field_bytes v @ post) (length pre + 1) = ?n"
      by (simp add: ReadU32_eq field_bytes_def VText)
    then have len: "unat (ReadU32 (pre @ field_bytes v @ post) (length pre + 1)) = length t"
      using small by (simp add: unat_word_of_nat_u32)
    have "get_bytes (length pre + 5) (length t) (pre @ field_bytes v @ post) = map byte_of_char t"
      by (simp add: get_bytes_def field_bytes_def VText)
    with VText assms tag len show ?thesis
      by (auto simp: decode_field_def CanRead_iff kFieldHeaderSize_def field_ok_def
          field_bytes_def TypeTag_def Let_def simp del: One_nat_def split: option.splits)
  qed
qed

text \<open>Conversely, what the decoder accepts is the image of an admissible value.\<close>

lemma field_bytes_header:
  assumes "off + 5 \<le> length r" and "r ! off = tag" and "ReadU32 r (off + 1) = n"
  shows "get_bytes off 5 r = tag # le_bytes 4 n"
proof -
  have "get_bytes off 5 r = r ! off # get_bytes (off + 1) 4 r"
    using assms(1) by (simp add: get_bytes_def Cons_nth_drop_Suc [symmetric] take_Cons numeral_eq_Suc)
  moreover have "get_bytes (off + 1) 4 r = le_bytes 4 n"
  proof -
    have "le_bytes 4 (le_word (get_bytes (off + 1) 4 r) :: u32) = get_bytes (off + 1) 4 r"
      using le_bytes_le_word [of "get_bytes (off + 1) 4 r", where ?'a = 32] assms(1)
      by (simp add: length_get_bytes)
    with assms show ?thesis by (simp add: ReadU32_eq)
  qed
  ultimately show ?thesis using assms(2) by simp
qed

lemma get_bytes_split:
  "off + m + n \<le> length r \<Longrightarrow> get_bytes off (m + n) r = get_bytes off m r @ get_bytes (off + m) n r"
  by (simp add: get_bytes_def take_add add.commute)

lemma decode_field_Inr:
  assumes dec: "decode_field c r off = Inr (v, off')" and ty: "col_type c \<noteq> DT_Null"
  shows "field_ok c v \<and> off' = off + length (field_bytes v) \<and> off' \<le> length r
    \<and> get_bytes off (length (field_bytes v)) r = field_bytes v"
proof -
  let ?n = "ReadU32 r (off + 1)"
  have room: "off + 5 \<le> length r"
    using dec by (auto simp: decode_field_def CanRead_iff kFieldHeaderSize_def split: if_splits)
  have hdr: "get_bytes off 5 r = r ! off # le_bytes 4 ?n"
    using room by (intro field_bytes_header) simp_all
  consider (null) "r ! off = 0" | (int) "r ! off \<noteq> 0" "col_type c = DT_Int"
    | (varchar) "r ! off \<noteq> 0" "col_type c = DT_Varchar"
    using ty by (cases "col_type c") auto
  then show ?thesis
  proof cases
    case null
    with dec room have "v = VNull" "off' = off + 5" "nullable c" "?n = 0"
      by (auto simp: decode_field_def CanRead_iff kFieldHeaderSize_def Let_def unat_eq_zero
          split: if_splits)
    with null hdr room show ?thesis by (simp add: field_ok_def field_bytes_def)
  next
    case int
    with dec room have v: "v = VInt (ReadU64 r (off + 5))" "off' = off + 13" "unat ?n = 8"
      "off + 13 \<le> length r" "r ! off = 1"
      by (auto simp: decode_field_def CanRead_iff kFieldHeaderSize_def Let_def TypeTag_def
          split: if_splits)
    have "?n = 8" using v(3) by (simp add: word_unat_eq_iff)
    moreover have "get_bytes (off + 5) 8 r = le_bytes 8 (ReadU64 r (off + 5))"
      using le_bytes_le_word [of "get_bytes (off + 5) 8 r", where ?'a = 64] v(4)
      by (simp add: ReadU64_eq length_get_bytes)
    moreover have "get_bytes off 13 r = get_bytes off 5 r @ get_bytes (off + 5) 8 r"
      using get_bytes_split [of off 5 8 r] v(4) by simp
    ultimately show ?thesis using v int(2) hdr by (simp add: field_ok_def field_bytes_def)
  next
    case varchar
    let ?t = "map char_of_byte (get_bytes (off + 5) (unat ?n) r)"
    from varchar dec room have v: "v = VText ?t" "off' = off + 5 + unat ?n"
      "off + 5 + unat ?n \<le> length r" "r ! off = 2"
      "case col_length c of None \<Rightarrow> True | Some m \<Rightarrow> unat ?n \<le> m"
      by (auto simp: decode_field_def CanRead_iff kFieldHeaderSize_def Let_def TypeTag_def
          split: if_splits option.splits)
    have len: "length ?t = unat ?n" using v(3) by (simp add: length_get_bytes)
    have "unat ?n < 2 ^ 32" using unsigned_less [of ?n, where ?'a = nat] by simp
    moreover have "get_bytes off (5 + unat ?n) r = get_bytes off 5 r @ get_bytes (off + 5) (unat ?n) r"
      using get_bytes_split [of off 5 "unat ?n" r] v(3) by simp
    ultimately show ?thesis using v varchar(2) hdr len
      by (simp add: field_ok_def field_bytes_def add.commute split: option.splits)
  qed
qed

subsection \<open>Whole records\<close>

definition row_ok :: "Schema \<Rightarrow> Row \<Rightarrow> bool" where
  "row_ok schema row \<longleftrightarrow> list_all2 field_ok schema row"

definition schema_ok :: "Schema \<Rightarrow> bool" where
  "schema_ok schema \<longleftrightarrow> length schema < 2 ^ 32 \<and> (\<forall>c \<in> set schema. col_type c \<noteq> DT_Null)"

definition row_bytes :: "Row \<Rightarrow> byte list" where
  "row_bytes row = le_bytes 4 kRowMagic @ le_bytes 4 (word_of_nat (length row) :: u32)
     @ concat (map field_bytes row)"

lemma encode_fields_Inr_iff:
  "length cs = length vs \<Longrightarrow>
   encode_fields cs vs r = Inr r' \<longleftrightarrow> list_all2 field_ok cs vs \<and> r' = r @ concat (map field_bytes vs)"
proof (induction cs vs arbitrary: r rule: list_induct2)
  case Nil
  then show ?case by auto
next
  case (Cons c cs v vs)
  show ?case
  proof (cases "encode_field c v r")
    case (Inl e)
    then have "\<not> field_ok c v" using encode_field_Inr_iff [of c v r "r @ field_bytes v"] by simp
    with Inl show ?thesis by simp
  next
    case (Inr r1)
    then have "field_ok c v \<and> r1 = r @ field_bytes v" by (simp add: encode_field_Inr_iff)
    with Inr Cons.IH show ?thesis by simp
  qed
qed

lemma Encode_Inr_iff:
  "RowCodec_Encode schema row = Inr b \<longleftrightarrow> row_ok schema row \<and> b = row_bytes row"
  by (auto simp: RowCodec_Encode_def row_ok_def row_bytes_def encode_fields_Inr_iff AppendU32_eq
      dest: list_all2_lengthD split: if_splits)

lemma decode_fields_bytes:
  "list_all2 field_ok cs vs \<Longrightarrow>
   decode_fields cs (pre @ concat (map field_bytes vs) @ post) (length pre)
     = Inr (vs, length pre + length (concat (map field_bytes vs)))"
proof (induction cs vs arbitrary: pre rule: list_all2_induct)
  case Nil
  then show ?case by simp
next
  case (Cons c cs v vs)
  have "decode_fields cs ((pre @ field_bytes v) @ concat (map field_bytes vs) @ post)
      (length (pre @ field_bytes v))
    = Inr (vs, length (pre @ field_bytes v) + length (concat (map field_bytes vs)))"
    by (rule Cons.IH)
  then show ?case
    using decode_field_bytes [OF Cons.hyps(1), of pre "concat (map field_bytes vs) @ post"]
    by (simp add: add.assoc)
qed

lemma decode_fields_Inr:
  "decode_fields cs r off = Inr (vs, off') \<Longrightarrow> \<forall>c \<in> set cs. col_type c \<noteq> DT_Null \<Longrightarrow>
   off \<le> length r \<Longrightarrow>
   list_all2 field_ok cs vs \<and> off' = off + length (concat (map field_bytes vs)) \<and> off' \<le> length r
   \<and> get_bytes off (length (concat (map field_bytes vs))) r = concat (map field_bytes vs)"
proof (induction cs arbitrary: off vs)
  case Nil
  then show ?case by (simp add: get_bytes_def)
next
  case (Cons c cs)
  from Cons.prems(1) obtain v o1 vs' where
    v: "decode_field c r off = Inr (v, o1)" and
    vs': "decode_fields cs r o1 = Inr (vs', off')" and vs: "vs = v # vs'"
    by (auto split: sum.splits prod.splits)
  have f: "field_ok c v \<and> o1 = off + length (field_bytes v) \<and> o1 \<le> length r
      \<and> get_bytes off (length (field_bytes v)) r = field_bytes v"
    using v Cons.prems(2) by (intro decode_field_Inr) auto
  have "list_all2 field_ok cs vs' \<and> off' = o1 + length (concat (map field_bytes vs')) \<and> off' \<le> length r
      \<and> get_bytes o1 (length (concat (map field_bytes vs'))) r = concat (map field_bytes vs')"
    using vs' Cons.prems(2) f by (intro Cons.IH) auto
  with f vs show ?case
    by (simp add: get_bytes_split)
qed

lemma Decode_row_bytes:
  assumes "schema_ok schema" and "row_ok schema row"
  shows "RowCodec_Decode schema (row_bytes row) = Inr row"
proof -
  let ?h = "le_bytes 4 kRowMagic @ le_bytes 4 (word_of_nat (length row) :: u32)"
  let ?b = "row_bytes row"
  have len: "length row = length schema" using assms(2) by (auto simp: row_ok_def dest: list_all2_lengthD)
  have b: "?b = ?h @ concat (map field_bytes row) @ []" by (simp add: row_bytes_def)
  have "ReadU32 ?b 0 = kRowMagic"
    by (simp add: row_bytes_def ReadU32_eq get_bytes_def)
  moreover have "ReadU32 ?b 4 = word_of_nat (length row)"
    by (simp add: row_bytes_def ReadU32_eq get_bytes_def)
  moreover have "decode_fields schema ?b 8 = Inr (row, length ?b)"
    using decode_fields_bytes [of schema row ?h "[]"] assms(2) by (simp add: b row_ok_def)
  moreover have "CanRead ?b 0 8" by (simp add: CanRead_iff row_bytes_def)
  ultimately show ?thesis
    using assms(1) len
    by (simp add: RowCodec_Decode_def kRowHeaderSize_def unat_word_of_nat_u32 schema_ok_def)
qed

lemma Decode_Inr:
  assumes "schema_ok schema" and "RowCodec_Decode schema b = Inr row"
  shows "row_ok schema row \<and> b = row_bytes row"
proof -
  from assms(2) have len: "8 \<le> length b" and m: "ReadU32 b 0 = kRowMagic"
    and n: "unat (ReadU32 b 4) = length schema"
    and d: "decode_fields schema b 8 = Inr (row, length b)"
    by (auto simp: RowCodec_Decode_def CanRead_iff kRowHeaderSize_def split: if_splits sum.splits)
  from d assms(1) len have r: "row_ok schema row"
      "get_bytes 8 (length b - 8) b = concat (map field_bytes row)"
    using decode_fields_Inr [OF d] by (auto simp: row_ok_def schema_ok_def)
  have "length row = length schema" using r(1) by (auto simp: row_ok_def dest: list_all2_lengthD)
  then have "ReadU32 b 4 = word_of_nat (length row)"
    using n [symmetric] by simp
  moreover have "get_bytes 0 4 b = le_bytes 4 (ReadU32 b 0)" "get_bytes 4 4 b = le_bytes 4 (ReadU32 b 4)"
    using len le_bytes_le_word [of "get_bytes 0 4 b", where ?'a = 32]
      le_bytes_le_word [of "get_bytes 4 4 b", where ?'a = 32]
    by (simp_all add: ReadU32_eq length_get_bytes)
  moreover have "b = get_bytes 0 4 b @ get_bytes 4 4 b @ get_bytes 8 (length b - 8) b"
    using len get_bytes_split [of 0 4 4 b] get_bytes_split [of 0 8 "length b - 8" b]
    by (simp add: get_bytes_def)
  ultimately have "b = row_bytes row" using r(2) m by (simp add: row_bytes_def)
  with r(1) show ?thesis by simp
qed

interpretation row_codec:
  canonical_codec "RowCodec_Encode schema" "RowCodec_Decode schema" "\<lambda>row. schema_ok schema"
  for schema
  by unfold_locales (auto simp: Encode_Inr_iff Decode_row_bytes dest: Decode_Inr)

subsection \<open>Properties\<close>

definition demo_schema :: Schema where
  "demo_schema = [make_Column ''id'' DT_Int None False True True None, make_Column ''name'' DT_Varchar (Some 8) True False False None]"

definition demo_row :: Row where
  "demo_row = [VInt 7, VText ''ann'']"

lemma demo_row_ok: "schema_ok demo_schema" "row_ok demo_schema demo_row"
  by (simp_all add: demo_schema_def demo_row_def schema_ok_def row_ok_def make_Column_def field_ok_def)

lemma demo_row_enc: "RowCodec_Encode demo_schema demo_row = Inr (row_bytes demo_row)"
  using demo_row_ok by (simp add: Encode_Inr_iff)

text \<open>C22: Decoding is a left inverse of encoding, and of nothing else: over a schema with no
  NULL-typed column, a byte string decodes to a row exactly when encoding that row yields that byte
  string. So no row is lost, and no two byte strings stand for one row.\<close>

theorem RowCodec_Decode_iff_Encode:
  assumes "schema_ok schema"
  shows "RowCodec_Decode schema bytes = Inr row \<longleftrightarrow> RowCodec_Encode schema row = Inr bytes"
  by (rule row_codec.dec_iff_enc[OF assms])

theorem RowCodec_Decode_iff_Encode_witness:
  "RowCodec_Decode demo_schema (row_bytes demo_row) = Inr demo_row"
  using RowCodec_Decode_iff_Encode[OF demo_row_ok(1), of "row_bytes demo_row" demo_row]
  by (simp add: demo_row_enc)

text \<open>Encoding succeeds exactly on the rows that fit the schema: as many values as columns, each
  of the type of its column or NULL in a nullable one, each text no longer than its column
  allows and than the 32-bit length field holds; the result is the header and the fields in
  order.\<close>

theorem RowCodec_Encode_exact:
  "RowCodec_Encode schema row = Inr bytes \<longleftrightarrow>
   list_all2 field_ok schema row \<and> bytes = row_bytes row"
  by (simp add: Encode_Inr_iff row_ok_def)

end
