(* ===== verification/LockTypes.thy ===== *)
theory LockTypes
  imports Base
begin

text \<open>
  \<^verbatim>\<open>include/oursql/transaction/lock_types.h\<close>: lock modes and lock identifiers, and the mode
  tables of \<^verbatim>\<open>lock_manager.cpp\<close> (conflicts, upgrades) with the contract the lock manager
  relies on, stated as the locale \<open>lock_modes\<close> and discharged for the multi-granularity table
  modes, for the S/X page and key modes, and for the two together.
\<close>

type_synonym table_id_t = u32
type_synonym index_id_t = u32

datatype LockResourceType = Res_Schema | Res_Table | Res_Page | Res_IndexKey

datatype TableLockMode = T_IS | T_IX | T_S | T_SIX | T_X

datatype LockMode = L_S | L_X

record LockId =
  lock_type :: LockResourceType
  lock_table_id :: table_id_t
  lock_page_id :: page_id_t
  lock_index_id :: index_id_t
  encoded_key :: string

text \<open>The default member initialisers of \<^verbatim>\<open>LockId\<close> and its four named constructors.\<close>

definition LockId_default :: LockId where
  "LockId_default = \<lparr>lock_type = Res_Page, lock_table_id = 0, lock_page_id = INVALID_PAGE_ID,
     lock_index_id = 0, encoded_key = []\<rparr>"

definition LockId_Schema :: LockId where
  "LockId_Schema = LockId_default\<lparr>lock_type := Res_Schema\<rparr>"

definition LockId_Table :: "table_id_t \<Rightarrow> LockId" where
  "LockId_Table tid = LockId_default\<lparr>lock_type := Res_Table, lock_table_id := tid\<rparr>"

definition LockId_Page :: "page_id_t \<Rightarrow> LockId" where
  "LockId_Page pid = LockId_default\<lparr>lock_type := Res_Page, lock_page_id := pid\<rparr>"

definition LockId_IndexKey :: "index_id_t \<Rightarrow> string \<Rightarrow> table_id_t \<Rightarrow> LockId" where
  "LockId_IndexKey iid key table = LockId_default\<lparr>lock_type := Res_IndexKey, lock_table_id := table,
     lock_index_id := iid, encoded_key := key\<rparr>"

definition IsTableResource :: "LockResourceType \<Rightarrow> bool" where
  "IsTableResource type \<longleftrightarrow> type = Res_Schema \<or> type = Res_Table"

subsection \<open>The mode tables of the lock manager\<close>

fun TableModesConflict :: "TableLockMode \<Rightarrow> TableLockMode \<Rightarrow> bool" where
  "TableModesConflict T_IS right = (right = T_X)"
| "TableModesConflict T_IX right = (right = T_S \<or> right = T_SIX \<or> right = T_X)"
| "TableModesConflict T_S right = (right = T_IX \<or> right = T_SIX \<or> right = T_X)"
| "TableModesConflict T_SIX right = (right \<noteq> T_IS)"
| "TableModesConflict T_X right = True"

definition LockModesConflict :: "LockMode \<Rightarrow> LockMode \<Rightarrow> bool" where
  "LockModesConflict left right \<longleftrightarrow> left = L_X \<or> right = L_X"

definition CanUpgrade_table :: "TableLockMode \<Rightarrow> TableLockMode \<Rightarrow> bool" where
  "CanUpgrade_table current requested =
     (if current = requested \<or> current = T_X then False
      else if requested = T_X then True
      else if current = T_IS \<and> (requested = T_IX \<or> requested = T_S \<or> requested = T_SIX) then True
      else if current = T_IX \<and> requested = T_SIX then True
      else if current = T_S \<and> requested = T_SIX then True
      else False)"

definition CanUpgrade_page :: "LockMode \<Rightarrow> LockMode \<Rightarrow> bool" where
  "CanUpgrade_page current requested \<longleftrightarrow> current = L_S \<and> requested = L_X"

text \<open>A request of either kind, and the conflict test of \<^verbatim>\<open>RequestConflicts\<close> on modes.\<close>

datatype AnyMode = TableMode TableLockMode | PageMode LockMode

fun any_conflict :: "AnyMode \<Rightarrow> AnyMode \<Rightarrow> bool" where
  "any_conflict (TableMode a) (TableMode b) = TableModesConflict a b"
| "any_conflict (PageMode a) (PageMode b) = LockModesConflict a b"
| "any_conflict _ _ = True"

fun any_upgrade :: "AnyMode \<Rightarrow> AnyMode \<Rightarrow> bool" where
  "any_upgrade (TableMode a) (TableMode b) = CanUpgrade_table a b"
| "any_upgrade (PageMode a) (PageMode b) = CanUpgrade_page a b"
| "any_upgrade _ _ = False"

subsection \<open>The contract of a mode table\<close>

text \<open>
  Conflicts are symmetric, an upgrade goes to a mode that conflicts with at least as much, and
  is never a no-op. Over any such table, a table of held locks stays free of conflicts when a
  mode is granted that conflicts with no mode recorded for another holder, even if the mode
  recorded is the one that holder is still upgrading to.
\<close>

locale lock_modes =
  fixes conflict :: "'m \<Rightarrow> 'm \<Rightarrow> bool"
    and can_upgrade :: "'m \<Rightarrow> 'm \<Rightarrow> bool"
  assumes conflict_sym: "conflict a b \<Longrightarrow> conflict b a"
    and upgrade_mono: "can_upgrade a b \<Longrightarrow> conflict a c \<Longrightarrow> conflict b c"
    and upgrade_irrefl: "\<not> can_upgrade a a"
    and upgrade_trans: "can_upgrade a b \<Longrightarrow> can_upgrade b c \<Longrightarrow> can_upgrade a c"
begin

definition covers :: "'m \<Rightarrow> 'm \<Rightarrow> bool" where
  "covers recorded held \<longleftrightarrow> recorded = held \<or> can_upgrade held recorded"

definition compatible :: "('t \<rightharpoonup> 'm) \<Rightarrow> bool" where
  "compatible h \<longleftrightarrow>
     (\<forall>t u m n. t \<noteq> u \<longrightarrow> h t = Some m \<longrightarrow> h u = Some n \<longrightarrow> \<not> conflict m n)"

lemma covers_no_conflict: "covers recorded held \<Longrightarrow> \<not> conflict m recorded \<Longrightarrow> \<not> conflict m held"
  unfolding covers_def using conflict_sym upgrade_mono by blast

lemma compatible_grant:
  assumes "compatible h" and "\<And>u n. u \<noteq> t \<Longrightarrow> h u = Some n \<Longrightarrow> \<not> conflict m n"
  shows "compatible (h(t \<mapsto> m))"
  unfolding compatible_def
proof (intro allI impI)
  fix u v a b
  assume "u \<noteq> v" and u: "(h(t \<mapsto> m)) u = Some a" and v: "(h(t \<mapsto> m)) v = Some b"
  consider "u = t" "v \<noteq> t" | "u \<noteq> t" "v = t" | "u \<noteq> t" "v \<noteq> t" using \<open>u \<noteq> v\<close> by blast
  then show "\<not> conflict a b"
  proof cases
    case 1
    with u v assms(2) show ?thesis by auto
  next
    case 2
    with u v assms(2) conflict_sym show ?thesis by (metis fun_upd_other fun_upd_same option.sel)
  next
    case 3
    with u v \<open>u \<noteq> v\<close> assms(1) show ?thesis by (auto simp: compatible_def)
  qed
qed

lemma compatible_release: "compatible h \<Longrightarrow> compatible (h(t := None))"
  by (auto simp: compatible_def)

lemma compatible_empty: "compatible Map.empty"
  by (simp add: compatible_def)

lemma upgrade_asym: "can_upgrade a b \<Longrightarrow> \<not> can_upgrade b a"
  using upgrade_irrefl upgrade_trans by blast

end

interpretation table_modes: lock_modes TableModesConflict CanUpgrade_table
proof unfold_locales
  fix a b c :: TableLockMode
  show "TableModesConflict a b \<Longrightarrow> TableModesConflict b a"
    by (cases a; cases b; simp)
  show "CanUpgrade_table a b \<Longrightarrow> TableModesConflict a c \<Longrightarrow> TableModesConflict b c"
    by (cases a; cases b; cases c; simp add: CanUpgrade_table_def)
  show "\<not> CanUpgrade_table a a" by (simp add: CanUpgrade_table_def)
  show "CanUpgrade_table a b \<Longrightarrow> CanUpgrade_table b c \<Longrightarrow> CanUpgrade_table a c"
    by (cases a; cases b; cases c; simp add: CanUpgrade_table_def)
qed

interpretation page_modes: lock_modes LockModesConflict CanUpgrade_page
  by unfold_locales (auto simp: LockModesConflict_def CanUpgrade_page_def)

interpretation any_modes: lock_modes any_conflict any_upgrade
proof unfold_locales
  fix a b c :: AnyMode
  show "any_conflict a b \<Longrightarrow> any_conflict b a"
    by (cases a; cases b; simp add: table_modes.conflict_sym page_modes.conflict_sym)
  show "any_upgrade a b \<Longrightarrow> any_conflict a c \<Longrightarrow> any_conflict b c"
    by (cases a; cases b; cases c;
        auto intro: table_modes.upgrade_mono page_modes.upgrade_mono)
  show "\<not> any_upgrade a a"
    by (cases a; simp add: table_modes.upgrade_irrefl page_modes.upgrade_irrefl)
  show "any_upgrade a b \<Longrightarrow> any_upgrade b c \<Longrightarrow> any_upgrade a c"
    by (cases a; cases b; cases c;
        auto intro: table_modes.upgrade_trans page_modes.upgrade_trans)
qed

end
