(* ===== verification/Transaction.thy ===== *)
theory Transaction
  imports LockTypes
begin

text \<open>
  \<^verbatim>\<open>include/oursql/transaction/transaction.h\<close> and \<^verbatim>\<open>src/transaction/transaction.cpp\<close>: the
  transaction object. Every method takes the object's mutex for its whole body, so each is one
  atomic function on the record. The granted locks are a set (\<^verbatim>\<open>std::unordered_set\<close>), and the
  number of active write guards is the 32-bit counter of the code.
\<close>

definition kInvalidTxnId :: txn_id_t where
  "kInvalidTxnId = 0"

definition kInvalidLsn :: lsn_t where
  "kInvalidLsn = 0"

datatype TransactionState =
  Active | Failed | Committing | CommitUncertain | Committed | Aborting | Aborted

record Transaction =
  txn_id :: txn_id_t
  txn_state :: TransactionState
  last_lsn :: lsn_t
  commit_lsn :: lsn_t
  explicit_txn :: bool
  active_write_guards :: u32
  allocated_pages :: "page_id_t list"
  deferred_free_pages :: "page_id_t list"
  granted_locks :: "LockId set"

definition make_Transaction :: "txn_id_t \<Rightarrow> bool \<Rightarrow> Transaction" where
  "make_Transaction txn explicit_transaction =
     \<lparr>txn_id = txn, txn_state = Active, last_lsn = kInvalidLsn, commit_lsn = kInvalidLsn,
      explicit_txn = explicit_transaction, active_write_guards = 0,
      allocated_pages = [], deferred_free_pages = [], granted_locks = {}\<rparr>"

definition IsUsableForWork :: "Transaction \<Rightarrow> bool" where
  "IsUsableForWork t \<longleftrightarrow> txn_state t = Active"

definition MarkFailed :: "Transaction \<Rightarrow> Transaction" where
  "MarkFailed t = (if txn_state t = Active then t\<lparr>txn_state := Failed\<rparr> else t)"

definition TrySetState :: "TransactionState \<Rightarrow> TransactionState \<Rightarrow> Transaction \<Rightarrow> Transaction \<times> bool" where
  "TrySetState expected desired t =
     (if txn_state t \<noteq> expected then (t, False) else (t\<lparr>txn_state := desired\<rparr>, True))"

definition SetState :: "TransactionState \<Rightarrow> Transaction \<Rightarrow> Transaction" where
  "SetState state t = t\<lparr>txn_state := state\<rparr>"

definition SetLastLsn :: "lsn_t \<Rightarrow> Transaction \<Rightarrow> Transaction" where
  "SetLastLsn lsn t = t\<lparr>last_lsn := lsn\<rparr>"

definition SetCommitLsn :: "lsn_t \<Rightarrow> Transaction \<Rightarrow> Transaction" where
  "SetCommitLsn lsn t = t\<lparr>commit_lsn := lsn\<rparr>"

definition HasDeferredFreePage :: "page_id_t \<Rightarrow> Transaction \<Rightarrow> bool" where
  "HasDeferredFreePage page t = list_ex (\<lambda>v. v = page) (deferred_free_pages t)"

definition AddAllocatedPage :: "page_id_t \<Rightarrow> Transaction \<Rightarrow> Transaction" where
  "AddAllocatedPage page t = t\<lparr>allocated_pages := allocated_pages t @ [page]\<rparr>"

definition AddDeferredFreePage :: "page_id_t \<Rightarrow> Transaction \<Rightarrow> Transaction" where
  "AddDeferredFreePage page t = t\<lparr>deferred_free_pages := deferred_free_pages t @ [page]\<rparr>"

definition AddGrantedLock :: "LockId \<Rightarrow> Transaction \<Rightarrow> Transaction" where
  "AddGrantedLock lock t = t\<lparr>granted_locks := insert lock (granted_locks t)\<rparr>"

definition RemoveGrantedLock :: "LockId \<Rightarrow> Transaction \<Rightarrow> Transaction" where
  "RemoveGrantedLock lock t = t\<lparr>granted_locks := granted_locks t - {lock}\<rparr>"

definition ClearGrantedLocks :: "Transaction \<Rightarrow> Transaction" where
  "ClearGrantedLocks t = t\<lparr>granted_locks := {}\<rparr>"

definition AddActiveWriteGuard :: "Transaction \<Rightarrow> Transaction" where
  "AddActiveWriteGuard t = t\<lparr>active_write_guards := active_write_guards t + 1\<rparr>"

definition ReleaseActiveWriteGuard :: "Transaction \<Rightarrow> Transaction" where
  "ReleaseActiveWriteGuard t =
     (if active_write_guards t \<noteq> 0 then t\<lparr>active_write_guards := active_write_guards t - 1\<rparr> else t)"

text \<open>Frame facts: what the lock bookkeeping leaves alone.\<close>

lemma lock_bookkeeping_frame [simp]:
  "txn_state (AddGrantedLock l t) = txn_state t" "txn_id (AddGrantedLock l t) = txn_id t"
  "txn_state (RemoveGrantedLock l t) = txn_state t" "txn_id (RemoveGrantedLock l t) = txn_id t"
  "txn_state (ClearGrantedLocks t) = txn_state t" "txn_id (ClearGrantedLocks t) = txn_id t"
  "txn_id (MarkFailed t) = txn_id t" "granted_locks (MarkFailed t) = granted_locks t"
  by (simp_all add: AddGrantedLock_def RemoveGrantedLock_def ClearGrantedLocks_def MarkFailed_def)

lemma MarkFailed_not_usable: "\<not> IsUsableForWork (MarkFailed t)"
  by (simp add: MarkFailed_def IsUsableForWork_def)

lemma guard_release_inverse:
  "active_write_guards t \<noteq> -1 \<Longrightarrow> ReleaseActiveWriteGuard (AddActiveWriteGuard t) = t"
proof -
  assume "active_write_guards t \<noteq> -1"
  then have "active_write_guards t + 1 \<noteq> 0" by (simp add: eq_neg_iff_add_eq_0)
  then show ?thesis by (simp add: ReleaseActiveWriteGuard_def AddActiveWriteGuard_def)
qed

end
