(* ===== verification/LockManager.thy ===== *)
theory LockManager
  imports Transaction "HOL-Library.AList"
begin

text \<open>
  \<^verbatim>\<open>src/transaction/lock_manager.cpp\<close>. The state is the table of request queues (the hash map
  \<^verbatim>\<open>queues_\<close>, an association list whose order stands for its iteration order), the registered
  transactions and the captured events; the transaction objects the code points to are a store
  from identifiers to records, so that a null pointer is \<open>None\<close>. The class runs every operation
  under one mutex and gives it up only inside \<^verbatim>\<open>cv.wait\<close>; a call that waits is therefore one
  critical section that ends in \<open>Waiting\<close>, and one more for every wake-up.
\<close>

subsection \<open>State\<close>

record LockRequest =
  req_txn :: txn_id_t
  table_mode :: bool
  table_lock_mode :: TableLockMode
  lock_mode :: LockMode
  granted :: bool
  upgrading :: bool
  cancelled :: bool

record LockEvent =
  ev_txn :: txn_id_t
  ev_action :: string
  ev_resource :: string
  ev_mode :: string
  ev_table_id :: table_id_t
  ev_page_id :: page_id_t
  ev_index_id :: index_id_t
  ev_encoded_key :: string

record LockManager =
  queues_map :: "(LockId \<times> LockRequest list) list"
  registered :: "txn_id_t list"
  txn_store :: "txn_id_t \<rightharpoonup> Transaction"
  capture_events :: bool
  captured_events :: "LockEvent list"

datatype lock_outcome = Returned ErrorCode | Waiting

subsection \<open>Names in events\<close>

fun ResourceName :: "LockResourceType \<Rightarrow> string" where
  "ResourceName Res_Schema = ''schema''"
| "ResourceName Res_Table = ''table''"
| "ResourceName Res_Page = ''page''"
| "ResourceName Res_IndexKey = ''index_key''"

fun TableModeName :: "TableLockMode \<Rightarrow> string" where
  "TableModeName T_IS = ''IS''"
| "TableModeName T_IX = ''IX''"
| "TableModeName T_S = ''S''"
| "TableModeName T_SIX = ''SIX''"
| "TableModeName T_X = ''X''"

definition LockModeName :: "LockMode \<Rightarrow> string" where
  "LockModeName mode = (if mode = L_X then ''X'' else ''S'')"

definition request_mode_name :: "LockRequest \<Rightarrow> string" where
  "request_mode_name r =
     (if table_mode r then TableModeName (table_lock_mode r) else LockModeName (lock_mode r))"

definition EmitEventUnlocked :: "string \<Rightarrow> LockId \<Rightarrow> string \<Rightarrow> txn_id_t \<Rightarrow> LockManager \<Rightarrow> LockManager" where
  "EmitEventUnlocked action l mode txn lm =
     (if \<not> capture_events lm then lm
      else lm\<lparr>captured_events := captured_events lm @
        [\<lparr>ev_txn = txn, ev_action = action, ev_resource = ResourceName (lock_type l), ev_mode = mode,
          ev_table_id = lock_table_id l, ev_page_id = lock_page_id l,
          ev_index_id = lock_index_id l, ev_encoded_key = encoded_key l\<rparr>]\<rparr>)"

definition BeginEventCapture :: "LockManager \<Rightarrow> LockManager" where
  "BeginEventCapture lm = lm\<lparr>capture_events := True, captured_events := []\<rparr>"

definition EndEventCapture :: "LockManager \<Rightarrow> LockManager \<times> LockEvent list" where
  "EndEventCapture lm = (lm\<lparr>capture_events := False, captured_events := []\<rparr>, captured_events lm)"

subsection \<open>Requests and queues\<close>

definition req_mode :: "LockRequest \<Rightarrow> AnyMode" where
  "req_mode r = (if table_mode r then TableMode (table_lock_mode r) else PageMode (lock_mode r))"

definition SameRequestedMode_table :: "LockRequest \<Rightarrow> TableLockMode \<Rightarrow> bool" where
  "SameRequestedMode_table r mode \<longleftrightarrow> table_mode r \<and> table_lock_mode r = mode"

definition SameRequestedMode_page :: "LockRequest \<Rightarrow> LockMode \<Rightarrow> bool" where
  "SameRequestedMode_page r mode \<longleftrightarrow> \<not> table_mode r \<and> lock_mode r = mode"

definition RequestConflicts :: "LockRequest \<Rightarrow> LockRequest \<Rightarrow> bool" where
  "RequestConflicts r other =
     (if table_mode r \<noteq> table_mode other then True
      else if table_mode r then TableModesConflict (table_lock_mode r) (table_lock_mode other)
      else LockModesConflict (lock_mode r) (lock_mode other))"

definition IsWaiting :: "LockRequest \<Rightarrow> bool" where
  "IsWaiting r \<longleftrightarrow> \<not> cancelled r \<and> (\<not> granted r \<or> upgrading r)"

text \<open>The first entry of a transaction (\<^verbatim>\<open>std::find_if\<close>), its update in place and its erasure:
  the code's list iterator is that entry, for a queue holds one entry per transaction.\<close>

definition find_request :: "txn_id_t \<Rightarrow> LockRequest list \<Rightarrow> LockRequest option" where
  "find_request t rs = find (\<lambda>e. req_txn e = t) rs"

fun update_request :: "txn_id_t \<Rightarrow> (LockRequest \<Rightarrow> LockRequest) \<Rightarrow> LockRequest list \<Rightarrow> LockRequest list" where
  "update_request t f [] = []"
| "update_request t f (r # rs) = (if req_txn r = t then f r # rs else r # update_request t f rs)"

fun erase_request :: "txn_id_t \<Rightarrow> LockRequest list \<Rightarrow> LockRequest list" where
  "erase_request t [] = []"
| "erase_request t (r # rs) = (if req_txn r = t then rs else r # erase_request t rs)"

definition before_request :: "txn_id_t \<Rightarrow> LockRequest list \<Rightarrow> LockRequest list" where
  "before_request t rs = takeWhile (\<lambda>e. req_txn e \<noteq> t) rs"

definition CanGrant :: "LockRequest list \<Rightarrow> LockRequest \<Rightarrow> bool" where
  "CanGrant rs r \<longleftrightarrow>
     \<not> list_ex IsWaiting (before_request (req_txn r) rs) \<and>
     \<not> list_ex (\<lambda>other. req_txn other \<noteq> req_txn r \<and> granted other \<and> RequestConflicts r other) rs"

definition queue_of :: "LockManager \<Rightarrow> LockId \<Rightarrow> LockRequest list" where
  "queue_of lm l = (case map_of (queues_map lm) l of None \<Rightarrow> [] | Some rs \<Rightarrow> rs)"

text \<open>Storing a queue back; an empty queue leaves the table (\<^verbatim>\<open>queues_.erase\<close>).\<close>

definition set_queue :: "LockId \<Rightarrow> LockRequest list \<Rightarrow> LockManager \<Rightarrow> LockManager" where
  "set_queue l rs lm = lm\<lparr>queues_map := AList.update l rs (queues_map lm)\<rparr>"

definition set_or_drop_queue :: "LockId \<Rightarrow> LockRequest list \<Rightarrow> LockManager \<Rightarrow> LockManager" where
  "set_or_drop_queue l rs lm =
     (if rs = [] then lm\<lparr>queues_map := AList.delete l (queues_map lm)\<rparr> else set_queue l rs lm)"

definition upd_txn :: "txn_id_t \<Rightarrow> (Transaction \<Rightarrow> Transaction) \<Rightarrow> LockManager \<Rightarrow> LockManager" where
  "upd_txn t f lm = lm\<lparr>txn_store := (txn_store lm)(t := map_option f (txn_store lm t))\<rparr>"

definition usable :: "LockManager \<Rightarrow> txn_id_t \<Rightarrow> bool" where
  "usable lm t \<longleftrightarrow> (case txn_store lm t of None \<Rightarrow> False | Some tx \<Rightarrow> IsUsableForWork tx)"

definition register_txn :: "txn_id_t \<Rightarrow> LockManager \<Rightarrow> LockManager" where
  "register_txn t lm = lm\<lparr>registered := List.insert t (registered lm)\<rparr>"

subsection \<open>Acquiring a lock\<close>

definition ValidateTransaction :: "LockManager \<Rightarrow> txn_id_t option \<Rightarrow> ErrorCode" where
  "ValidateTransaction lm tp =
     (case tp of None \<Rightarrow> InvalidArgument
      | Some t \<Rightarrow> if \<not> usable lm t then InvalidArgument else Code_Ok)"

text \<open>The body of the waiting loop, run once on entry and once after every wake-up.
  \<open>wait_recorded\<close> is the local flag of the call.\<close>

definition lock_loop_body :: "txn_id_t \<Rightarrow> LockId \<Rightarrow> string \<Rightarrow> bool \<Rightarrow> LockManager \<Rightarrow> LockManager \<times> lock_outcome" where
  "lock_loop_body t l mode_name wait_recorded lm =
     (let rs = queue_of lm l in
      case find_request t rs of
        None \<Rightarrow> (lm, Returned InternalError)
      | Some r \<Rightarrow>
          if cancelled r then
            (set_or_drop_queue l (erase_request t rs) lm, Returned InvalidArgument)
          else if \<not> usable lm t then
            (set_or_drop_queue l (erase_request t rs) lm, Returned InvalidArgument)
          else if CanGrant rs r then
            (EmitEventUnlocked ''GRANTED'' l mode_name t
               (upd_txn t (AddGrantedLock l)
                 (set_queue l (update_request t (\<lambda>r. r\<lparr>granted := True, upgrading := False\<rparr>) rs) lm)),
             Returned Code_Ok)
          else
            (if wait_recorded then lm else EmitEventUnlocked ''WAIT'' l mode_name t lm, Waiting))"

text \<open>The part of \<^verbatim>\<open>LockInternal\<close> under the mutex, up to the first wait. The transaction may
  have failed since it was validated, so the section is a step of its own.\<close>

definition table_section :: "txn_id_t \<Rightarrow> LockId \<Rightarrow> TableLockMode \<Rightarrow> LockManager \<Rightarrow> LockManager \<times> lock_outcome" where
  "table_section t l mode lm =
     (let lm1 = register_txn t lm;
          rs = queue_of lm1 l;
          lm2 = set_queue l rs lm1 in
      case find_request t rs of
        Some r \<Rightarrow>
          if granted r \<and> \<not> upgrading r \<and> SameRequestedMode_table r mode then
            (lm2, Returned Code_Ok)
          else if \<not> granted r \<and> \<not> upgrading r then (lm2, Returned AlreadyExists)
          else if upgrading r then (lm2, Returned AlreadyExists)
          else if \<not> CanUpgrade_table (table_lock_mode r) mode then
            (lm2, Returned InvalidArgument)
          else
            lock_loop_body t l (TableModeName mode) False
              (set_queue l (update_request t (\<lambda>r. r\<lparr>table_lock_mode := mode, upgrading := True\<rparr>) rs) lm2)
      | None \<Rightarrow>
          lock_loop_body t l (TableModeName mode) False
            (set_queue l (rs @ [\<lparr>req_txn = t, table_mode = True, table_lock_mode = mode,
               lock_mode = L_S, granted = False, upgrading = False, cancelled = False\<rparr>]) lm2))"

definition LockInternal_table :: "txn_id_t option \<Rightarrow> LockId \<Rightarrow> TableLockMode \<Rightarrow> LockManager \<Rightarrow> LockManager \<times> lock_outcome" where
  "LockInternal_table tp l mode lm =
     (case tp of None \<Rightarrow> (lm, Returned InvalidArgument) | Some t \<Rightarrow>
        if ValidateTransaction lm tp \<noteq> Code_Ok then (lm, Returned (ValidateTransaction lm tp))
        else if \<not> IsTableResource (lock_type l) then (lm, Returned InvalidArgument)
        else table_section t l mode lm)"

definition page_section :: "txn_id_t \<Rightarrow> LockId \<Rightarrow> LockMode \<Rightarrow> LockManager \<Rightarrow> LockManager \<times> lock_outcome" where
  "page_section t l mode lm =
     (let lm1 = register_txn t lm;
          rs = queue_of lm1 l;
          lm2 = set_queue l rs lm1 in
      case find_request t rs of
        Some r \<Rightarrow>
          if granted r \<and> \<not> upgrading r \<and> SameRequestedMode_page r mode then
            (lm2, Returned Code_Ok)
          else if \<not> granted r \<and> \<not> upgrading r then (lm2, Returned AlreadyExists)
          else if upgrading r then (lm2, Returned AlreadyExists)
          else if \<not> CanUpgrade_page (lock_mode r) mode then
            (lm2, Returned InvalidArgument)
          else
            lock_loop_body t l (LockModeName mode) False
              (set_queue l (update_request t (\<lambda>r. r\<lparr>lock_mode := mode, upgrading := True\<rparr>) rs) lm2)
      | None \<Rightarrow>
          lock_loop_body t l (LockModeName mode) False
            (set_queue l (rs @ [\<lparr>req_txn = t, table_mode = False, table_lock_mode = T_IS,
               lock_mode = mode, granted = False, upgrading = False, cancelled = False\<rparr>]) lm2))"

definition LockInternal_page :: "txn_id_t option \<Rightarrow> LockId \<Rightarrow> LockMode \<Rightarrow> LockManager \<Rightarrow> LockManager \<times> lock_outcome" where
  "LockInternal_page tp l mode lm =
     (case tp of None \<Rightarrow> (lm, Returned InvalidArgument) | Some t \<Rightarrow>
        if ValidateTransaction lm tp \<noteq> Code_Ok then (lm, Returned (ValidateTransaction lm tp))
        else if IsTableResource (lock_type l) then (lm, Returned InvalidArgument)
        else page_section t l mode lm)"

definition LockSchema :: "txn_id_t option \<Rightarrow> TableLockMode \<Rightarrow> LockManager \<Rightarrow> LockManager \<times> lock_outcome" where
  "LockSchema tp mode lm = LockInternal_table tp LockId_Schema mode lm"

definition LockTable :: "txn_id_t option \<Rightarrow> table_id_t \<Rightarrow> TableLockMode \<Rightarrow> LockManager \<Rightarrow> LockManager \<times> lock_outcome" where
  "LockTable tp table mode lm = LockInternal_table tp (LockId_Table table) mode lm"

definition LockPage :: "txn_id_t option \<Rightarrow> page_id_t \<Rightarrow> LockMode \<Rightarrow> LockManager \<Rightarrow> LockManager \<times> lock_outcome" where
  "LockPage tp page mode lm =
     (if page = INVALID_PAGE_ID \<or> page = 0 then (lm, Returned InvalidArgument)
      else LockInternal_page tp (LockId_Page page) mode lm)"

definition LockIndexKey :: "txn_id_t option \<Rightarrow> index_id_t \<Rightarrow> string \<Rightarrow> LockMode \<Rightarrow> table_id_t \<Rightarrow> LockManager \<Rightarrow> LockManager \<times> lock_outcome" where
  "LockIndexKey tp index key mode table lm =
     (if key = [] then (lm, Returned InvalidArgument)
      else LockInternal_page tp (LockId_IndexKey index key table) mode lm)"

subsection \<open>Releasing\<close>

definition cancel_request :: "LockRequest \<Rightarrow> LockRequest" where
  "cancel_request r = r\<lparr>cancelled := True, granted := False, upgrading := False\<rparr>"

definition Unlock :: "txn_id_t option \<Rightarrow> LockId \<Rightarrow> LockManager \<Rightarrow> LockManager \<times> ErrorCode" where
  "Unlock tp l lm =
     (case tp of None \<Rightarrow> (lm, InvalidArgument) | Some t \<Rightarrow>
        case map_of (queues_map lm) l of
          None \<Rightarrow> (lm, NotFound)
        | Some rs \<Rightarrow>
            (case find_request t rs of
               None \<Rightarrow> (lm, NotFound)
             | Some r \<Rightarrow>
                 if \<not> granted r \<or> upgrading r then
                   (upd_txn t (RemoveGrantedLock l)
                      (set_or_drop_queue l (update_request t cancel_request rs) lm), Code_Ok)
                 else
                   (upd_txn t (RemoveGrantedLock l)
                      (set_or_drop_queue l (erase_request t rs)
                        (EmitEventUnlocked ''RELEASE'' l (request_mode_name r) t lm)), Code_Ok)))"

text \<open>The inner loop of \<^verbatim>\<open>UnlockAll\<close> over one queue: the requests that stay, and the released
  ones in order.\<close>

fun release_in_queue :: "txn_id_t \<Rightarrow> LockRequest list \<Rightarrow> LockRequest list \<times> LockRequest list" where
  "release_in_queue t [] = ([], [])"
| "release_in_queue t (r # rs) =
     (let (kept, released) = release_in_queue t rs in
      if req_txn r = t then
        if \<not> granted r \<or> upgrading r then (cancel_request r # kept, released)
        else (kept, r # released)
      else (r # kept, released))"

fun release_queues :: "txn_id_t \<Rightarrow> (LockId \<times> LockRequest list) list \<Rightarrow> LockManager \<Rightarrow>
    (LockId \<times> LockRequest list) list \<times> LockManager" where
  "release_queues t [] lm = ([], lm)"
| "release_queues t ((l, rs) # qs) lm =
     (let (kept, released) = release_in_queue t rs;
          lm1 = foldl (\<lambda>s r. EmitEventUnlocked ''RELEASE'' l (request_mode_name r) t s) lm released;
          (qs', lm2) = release_queues t qs lm1 in
      (if kept = [] then qs' else (l, kept) # qs', lm2))"

definition UnlockAll :: "txn_id_t option \<Rightarrow> LockManager \<Rightarrow> LockManager \<times> ErrorCode" where
  "UnlockAll tp lm =
     (case tp of None \<Rightarrow> (lm, InvalidArgument) | Some t \<Rightarrow>
        (let (qs, lm1) = release_queues t (queues_map lm) lm in
         (upd_txn t ClearGrantedLocks
            (lm1\<lparr>queues_map := qs, registered := removeAll t (registered lm1)\<rparr>), Code_Ok)))"

subsection \<open>Diagnostics\<close>

definition GetGrantedLocks :: "txn_id_t \<Rightarrow> LockManager \<Rightarrow> LockId list" where
  "GetGrantedLocks t lm =
     concat (map (\<lambda>(l, rs). map (\<lambda>_. l) (filter (\<lambda>r. req_txn r = t \<and> granted r \<and> \<not> upgrading r) rs))
       (queues_map lm))"

definition GetWaitingRequestCount :: "LockManager \<Rightarrow> nat" where
  "GetWaitingRequestCount lm = sum_list (map (\<lambda>(l, rs). length (filter IsWaiting rs)) (queues_map lm))"

definition initial_lock_manager :: "(txn_id_t \<rightharpoonup> Transaction) \<Rightarrow> LockManager" where
  "initial_lock_manager store =
     \<lparr>queues_map = [], registered = [], txn_store = store, capture_events = False, captured_events = []\<rparr>"

end
