(* ===== verification/LockSafety.thy ===== *)
theory LockSafety
  imports LockManager
begin

text \<open>
  The lock manager against an abstract table of held locks. A history variable records what each
  transaction holds: the recorded mode of a granted request, and while an upgrade of it is
  pending (the code has already overwritten the recorded mode) the mode it had before. Queues
  first, one transition at a time; then the operations, each of which does one such transition
  per queue; then the reachable states.
\<close>

type_synonym held = "txn_id_t \<rightharpoonup> AnyMode"

subsection \<open>Looking up requests\<close>

lemma find_request_Nil [simp]: "find_request t [] = None"
  by (simp add: find_request_def)

lemma find_request_Cons [simp]:
  "find_request t (r # rs) = (if req_txn r = t then Some r else find_request t rs)"
  by (simp add: find_request_def)

lemma find_request_append [simp]:
  "find_request t (rs @ rs') = (case find_request t rs of Some r \<Rightarrow> Some r | None \<Rightarrow> find_request t rs')"
  by (induction rs) auto

lemma find_request_Some: "find_request t rs = Some r \<Longrightarrow> r \<in> set rs \<and> req_txn r = t"
  by (induction rs) (auto split: if_splits)

lemma find_request_None: "find_request t rs = None \<longleftrightarrow> t \<notin> req_txn ` set rs"
  by (induction rs) (auto split: if_splits)

lemma find_request_mem:
  "distinct (map req_txn rs) \<Longrightarrow> r \<in> set rs \<Longrightarrow> find_request (req_txn r) rs = Some r"
  by (induction rs) (auto simp: rev_image_eqI)

lemma find_request_update [simp]:
  assumes "\<And>r. req_txn (f r) = req_txn r"
  shows "find_request u (update_request t f rs) =
    (if u = t then map_option f (find_request t rs) else find_request u rs)"
  by (induction rs) (auto simp: assms)

lemma map_req_txn_update [simp]:
  "(\<And>r. req_txn (f r) = req_txn r) \<Longrightarrow> map req_txn (update_request t f rs) = map req_txn rs"
  by (induction rs) auto

lemma set_erase_subset: "set (erase_request t rs) \<subseteq> set rs"
  by (induction rs) auto

lemma distinct_erase: "distinct (map req_txn rs) \<Longrightarrow> distinct (map req_txn (erase_request t rs))"
  using set_erase_subset by (induction rs) (auto dest!: subsetD)

lemma find_request_erase:
  "distinct (map req_txn rs) \<Longrightarrow>
   find_request u (erase_request t rs) = (if u = t then None else find_request u rs)"
  by (induction rs) (auto simp: find_request_None)

definition release_one :: "LockRequest \<Rightarrow> LockRequest option" where
  "release_one r = (if \<not> granted r \<or> upgrading r then Some (cancel_request r) else None)"

lemma cancel_request_simps [simp]:
  "req_txn (cancel_request r) = req_txn r" "\<not> granted (cancel_request r)"
  "\<not> upgrading (cancel_request r)" "cancelled (cancel_request r)"
  "table_mode (cancel_request r) = table_mode r"
  by (simp_all add: cancel_request_def)

lemma kept_eq:
  "fst (release_in_queue t rs) =
   concat (map (\<lambda>r. if req_txn r = t then (case release_one r of Some x \<Rightarrow> [x] | None \<Rightarrow> []) else [r]) rs)"
  by (induction rs) (auto simp: release_one_def split: prod.splits)

lemma set_kept: "r \<in> set (fst (release_in_queue t rs)) \<Longrightarrow>
    (req_txn r \<noteq> t \<and> r \<in> set rs) \<or> (req_txn r = t \<and> (\<exists>r0 \<in> set rs. r = cancel_request r0 \<and> req_txn r0 = t))"
  by (auto simp: kept_eq release_one_def split: if_splits)

lemma distinct_kept:
  "distinct (map req_txn rs) \<Longrightarrow> distinct (map req_txn (fst (release_in_queue t rs)))"
proof (induction rs)
  case (Cons r rs)
  have "req_txn r \<notin> req_txn ` set (fst (release_in_queue t rs))"
  proof
    assume "req_txn r \<in> req_txn ` set (fst (release_in_queue t rs))"
    then obtain r' where "r' \<in> set (fst (release_in_queue t rs))" and r': "req_txn r = req_txn r'" by auto
    from set_kept[OF this(1)] obtain r0 where "r0 \<in> set rs" "req_txn r0 = req_txn r'" by auto
    with Cons.prems r' show False by (metis distinct.simps(2) imageI list.set_map list.simps(9))
  qed
  with Cons show ?case by (auto split: prod.splits)
qed simp

lemma find_request_kept:
  "distinct (map req_txn rs) \<Longrightarrow>
   find_request u (fst (release_in_queue t rs)) =
     (if u = t then Option.bind (find_request t rs) release_one else find_request u rs)"
proof (induction rs)
  case (Cons r rs)
  have "req_txn r = t \<Longrightarrow> find_request t rs = None"
    using Cons.prems by (simp add: find_request_None)
  with Cons show ?case by (cases "req_txn r = t") (auto simp: release_one_def split: prod.splits)
qed simp

lemma before_request_append: "find_request t rs \<noteq> None \<Longrightarrow> before_request t (rs @ xs) = before_request t rs"
  by (induction rs) (auto simp: before_request_def)

subsection \<open>The queue invariant and the transitions of a queue\<close>

text \<open>What the requests say is held, given what was held before.\<close>

definition track :: "LockRequest list \<Rightarrow> held \<Rightarrow> held" where
  "track rs h t =
     (case find_request t rs of None \<Rightarrow> None
      | Some r \<Rightarrow> if \<not> granted r then None else if upgrading r then h t else Some (req_mode r))"

definition request_ok :: "bool \<Rightarrow> LockRequest \<Rightarrow> bool" where
  "request_ok is_table r \<longleftrightarrow>
     table_mode r = is_table \<and> (cancelled r \<longrightarrow> \<not> granted r) \<and> (upgrading r \<longrightarrow> granted r)"

definition held_ok :: "LockRequest list \<Rightarrow> held \<Rightarrow> txn_id_t \<Rightarrow> bool" where
  "held_ok rs h t \<longleftrightarrow>
     (case find_request t rs of None \<Rightarrow> h t = None
      | Some r \<Rightarrow>
          if \<not> granted r then h t = None
          else if upgrading r then (\<exists>m. h t = Some m \<and> any_upgrade m (req_mode r))
          else h t = Some (req_mode r))"

definition queue_ok :: "bool \<Rightarrow> LockRequest list \<Rightarrow> held \<Rightarrow> bool" where
  "queue_ok is_table rs h \<longleftrightarrow>
     distinct (map req_txn rs) \<and> (\<forall>r \<in> set rs. request_ok is_table r) \<and>
     (\<forall>t. held_ok rs h t) \<and> any_modes.compatible h"

inductive arrive :: "bool \<Rightarrow> LockRequest list \<Rightarrow> LockRequest list \<Rightarrow> bool" for is_table where
  enqueue: "find_request (req_txn r) rs = None \<Longrightarrow> request_ok is_table r \<Longrightarrow> \<not> granted r \<Longrightarrow>
    arrive is_table rs (rs @ [r])"
| begin_upgrade: "find_request t rs = Some r \<Longrightarrow> granted r \<Longrightarrow> \<not> upgrading r \<Longrightarrow>
    any_upgrade (req_mode r) (req_mode (f r)) \<Longrightarrow>
    f = (\<lambda>r. r\<lparr>table_lock_mode := m, upgrading := True\<rparr>) \<or> f = (\<lambda>r. r\<lparr>lock_mode := m', upgrading := True\<rparr>) \<Longrightarrow>
    arrive is_table rs (update_request t f rs)"

abbreviation grant_request :: "LockRequest \<Rightarrow> LockRequest" where
  "grant_request r \<equiv> r\<lparr>granted := True, upgrading := False\<rparr>"

inductive settle :: "LockRequest list \<Rightarrow> LockRequest list \<Rightarrow> bool" where
  settle_refl: "settle rs rs"
| settle_grant: "find_request t rs = Some r \<Longrightarrow> \<not> cancelled r \<Longrightarrow> CanGrant rs r \<Longrightarrow>
    settle rs (update_request t grant_request rs)"
| settle_leave: "settle rs (erase_request t rs)"

inductive queue_step :: "bool \<Rightarrow> LockRequest list \<Rightarrow> LockRequest list \<Rightarrow> bool" for is_table where
  q_arrive: "arrive is_table rs rs1 \<Longrightarrow> settle rs1 rs2 \<Longrightarrow> queue_step is_table rs rs2"
| q_settle: "settle rs rs2 \<Longrightarrow> queue_step is_table rs rs2"
| q_cancel: "queue_step is_table rs (update_request t cancel_request rs)"
| q_release: "queue_step is_table rs (fst (release_in_queue t rs))"

lemma req_mode_grant [simp]: "req_mode (grant_request r) = req_mode r"
  by (simp add: req_mode_def)

lemma RequestConflicts_eq: "RequestConflicts r other = any_conflict (req_mode r) (req_mode other)"
  by (auto simp: RequestConflicts_def req_mode_def)

lemma request_ok_grant: "request_ok b r \<Longrightarrow> \<not> cancelled r \<Longrightarrow> request_ok b (grant_request r)"
  by (simp add: request_ok_def)

lemma request_ok_cancel: "request_ok b r \<Longrightarrow> request_ok b (cancel_request r)"
  by (simp add: request_ok_def)

lemma ball_update_request:
  assumes "\<forall>r \<in> set rs. P r" and "\<And>r. find_request t rs = Some r \<Longrightarrow> P r \<Longrightarrow> P (f r)"
  shows "\<forall>r \<in> set (update_request t f rs). P r"
  using assms
proof (induction rs)
  case (Cons x xs)
  show ?case
  proof (cases "req_txn x = t")
    case True
    with Cons.prems show ?thesis by simp
  next
    case False
    with Cons show ?thesis by auto
  qed
qed simp

lemma held_ok_cong:
  "find_request u rs' = find_request u rs \<Longrightarrow> h' u = h u \<Longrightarrow> held_ok rs' h' u = held_ok rs h u"
  by (simp add: held_ok_def split: option.split)

lemma held_ok_drop:
  assumes "held_ok rs h u" and "u \<noteq> t \<Longrightarrow> find_request u rs' = find_request u rs"
    and "find_request t rs' = None \<or> (\<exists>r. find_request t rs' = Some r \<and> \<not> granted r)"
  shows "held_ok rs' (h(t := None)) u"
proof (cases "u = t")
  case True
  with assms(3) show ?thesis by (auto simp: held_ok_def)
next
  case False
  with assms(1,2) show ?thesis by (simp add: held_ok_cong[of u rs' rs])
qed

lemma queue_okD:
  assumes "queue_ok b rs h"
  shows "distinct (map req_txn rs)" "\<forall>r \<in> set rs. request_ok b r" "held_ok rs h t" "any_modes.compatible h"
  using assms by (auto simp: queue_ok_def)

lemma queue_ok_empty: "queue_ok b [] Map.empty"
  by (simp add: queue_ok_def held_ok_def any_modes.compatible_empty)

lemma track_same: "queue_ok b rs h \<Longrightarrow> track rs h = h"
proof
  fix t
  assume "queue_ok b rs h"
  then have "held_ok rs h t" by (rule queue_okD)
  then show "track rs h t = h t"
    by (auto simp: track_def held_ok_def split: option.splits if_splits)
qed

text \<open>A transaction that holds a mode has a granted request whose recorded mode covers it.\<close>

lemma held_request:
  assumes "queue_ok b rs h" and "h u = Some n"
  obtains q where "find_request u rs = Some q" "granted q" "any_modes.covers (req_mode q) n"
proof -
  from assms have "held_ok rs h u" by (simp add: queue_ok_def)
  with assms(2) that show thesis
    by (auto simp: held_ok_def any_modes.covers_def split: option.splits if_splits)
qed

text \<open>Granting conflicts with nothing held: the recorded modes it is checked against cover the
  held ones.\<close>

lemma grant_compatible:
  assumes ok: "queue_ok b rs h" and f: "find_request t rs = Some r" and g: "CanGrant rs r"
  shows "any_modes.compatible (h(t \<mapsto> req_mode r))"
proof (rule any_modes.compatible_grant)
  show "any_modes.compatible h" by (rule queue_okD(4)[OF ok])
next
  fix u n
  assume "u \<noteq> t" and "h u = Some n"
  from held_request[OF ok \<open>h u = Some n\<close>] obtain other where
    other: "find_request u rs = Some other" "granted other" "any_modes.covers (req_mode other) n" .
  from find_request_Some[OF other(1)] find_request_Some[OF f] \<open>u \<noteq> t\<close> g other(2)
  have "\<not> RequestConflicts r other" by (auto simp: CanGrant_def list_ex_iff)
  with other(3) show "\<not> any_conflict (req_mode r) n"
    by (metis any_modes.covers_no_conflict RequestConflicts_eq)
qed

text \<open>Dropping entries of \<open>h\<close> keeps it free of conflicts.\<close>

lemma compatible_sub:
  "any_modes.compatible h \<Longrightarrow> (\<And>t. h' t = None \<or> h' t = h t) \<Longrightarrow> any_modes.compatible h'"
  unfolding any_modes.compatible_def by (metis option.distinct(1))

lemma arrive_ok:
  assumes ok: "queue_ok b rs h" and "arrive b rs rs1"
  shows "queue_ok b rs1 h"
  using assms(2)
proof cases
  case (enqueue r)
  have "held_ok (rs @ [r]) h t" for t
    using queue_okD(3)[OF ok, of t] enqueue
    by (auto simp: held_ok_def split: option.splits)
  with ok enqueue show ?thesis
    by (auto simp: queue_ok_def find_request_None)
next
  case (begin_upgrade t r f m m')
  have f: "req_txn (f r) = req_txn r" "granted (f r) = granted r" "upgrading (f r)"
    "table_mode (f r) = table_mode r" "cancelled (f r) = cancelled r" for r
    using begin_upgrade(6) by auto
  have "held_ok (update_request t f rs) h u" for u
    using queue_okD(3)[OF ok, of u] begin_upgrade(2-5)
    by (auto simp: held_ok_def f split: option.splits if_splits)
  moreover have "\<forall>r \<in> set (update_request t f rs). request_ok b r"
  proof (rule ball_update_request[OF queue_okD(2)[OF ok]])
    fix r' assume "find_request t rs = Some r'" "request_ok b r'"
    with begin_upgrade show "request_ok b (f r')" by (simp add: request_ok_def f)
  qed
  ultimately show ?thesis
    using ok begin_upgrade(1) by (simp add: queue_ok_def f)
qed

lemma settle_ok:
  assumes ok: "queue_ok b rs h" and "settle rs rs1"
  shows "queue_ok b rs1 (track rs1 h)"
  using assms(2)
proof cases
  case settle_refl
  with ok show ?thesis by (simp add: track_same[OF ok])
next
  case (settle_grant t r)
  let ?rs = "update_request t grant_request rs"
  have tr: "track ?rs h = h(t \<mapsto> req_mode r)"
  proof
    fix u show "track ?rs h u = (h(t \<mapsto> req_mode r)) u"
      using settle_grant(2) track_same[OF ok] by (auto simp: track_def fun_eq_iff)
  qed
  have "held_ok ?rs (h(t \<mapsto> req_mode r)) u" for u
    using queue_okD(3)[OF ok, of u] settle_grant(2) by (auto simp: held_ok_def split: option.splits)
  moreover have "\<forall>r \<in> set ?rs. request_ok b r"
    by (rule ball_update_request[OF queue_okD(2)[OF ok]])
      (use settle_grant in \<open>auto intro: request_ok_grant\<close>)
  ultimately show ?thesis
    using ok grant_compatible[OF ok settle_grant(2,4)] settle_grant(1)
    by (simp add: queue_ok_def tr)
next
  case (settle_leave t)
  let ?rs = "erase_request t rs"
  have fr: "find_request u ?rs = (if u = t then None else find_request u rs)" for u
    by (rule find_request_erase) (rule queue_okD[OF ok])
  have tr: "track ?rs h = h(t := None)"
  proof
    fix u show "track ?rs h u = (h(t := None)) u"
      using track_same[OF ok] by (auto simp: track_def fr fun_eq_iff)
  qed
  have "held_ok ?rs (h(t := None)) u" for u
    by (rule held_ok_drop[OF queue_okD(3)[OF ok]]) (simp_all add: fr)
  then show ?thesis
    using ok set_erase_subset[of t rs] settle_leave
    by (auto simp: queue_ok_def tr intro: distinct_erase any_modes.compatible_release)
qed

lemma track_drop:
  assumes ok: "queue_ok b rs h"
    and fr: "\<And>u. u \<noteq> t \<Longrightarrow> find_request u rs' = find_request u rs"
    and ft: "find_request t rs' = None \<or> (\<exists>r. find_request t rs' = Some r \<and> \<not> granted r)"
    and d: "distinct (map req_txn rs')" and r: "\<forall>r \<in> set rs'. request_ok b r"
  shows "queue_ok b rs' (track rs' h)"
proof -
  have tr: "track rs' h = h(t := None)"
  proof
    fix u show "track rs' h u = (h(t := None)) u"
      using track_same[OF ok] ft by (cases "u = t") (auto simp: track_def fr fun_eq_iff)
  qed
  have "held_ok rs' (h(t := None)) u" for u
    by (rule held_ok_drop[OF queue_okD(3)[OF ok]]) (use fr ft in auto)
  then show ?thesis
    using ok d r by (simp add: queue_ok_def tr any_modes.compatible_release)
qed

lemma cancel_ok: "queue_ok b rs h \<Longrightarrow> queue_ok b (update_request t cancel_request rs) (track (update_request t cancel_request rs) h)"
proof (rule track_drop[where t = t])
  assume ok: "queue_ok b rs h"
  show "\<forall>r \<in> set (update_request t cancel_request rs). request_ok b r"
    by (rule ball_update_request[OF queue_okD(2)[OF ok]]) (rule request_ok_cancel)
  show "find_request t (update_request t cancel_request rs) = None \<or>
    (\<exists>r. find_request t (update_request t cancel_request rs) = Some r \<and> \<not> granted r)"
    by (cases "find_request t rs") auto
qed (simp_all add: queue_okD(1))

lemma release_ok:
  assumes ok: "queue_ok b rs h"
  shows "queue_ok b (fst (release_in_queue t rs)) (track (fst (release_in_queue t rs)) h)"
proof (rule track_drop[OF ok, where t = t])
  note d = queue_okD(1)[OF ok]
  show "distinct (map req_txn (fst (release_in_queue t rs)))" by (rule distinct_kept[OF d])
  show "find_request t (fst (release_in_queue t rs)) = None \<or>
    (\<exists>r. find_request t (fst (release_in_queue t rs)) = Some r \<and> \<not> granted r)"
    by (cases "find_request t rs") (auto simp: find_request_kept[OF d] release_one_def)
  show "\<forall>r \<in> set (fst (release_in_queue t rs)). request_ok b r"
  proof
    fix r assume "r \<in> set (fst (release_in_queue t rs))"
    from set_kept[OF this] show "request_ok b r"
      using queue_okD(2)[OF ok] request_ok_cancel by blast
  qed
qed (simp add: find_request_kept queue_okD[OF ok])

theorem queue_step_ok: "queue_ok b rs h \<Longrightarrow> queue_step b rs rs' \<Longrightarrow> queue_ok b rs' (track rs' h)"
  by (erule queue_step.cases) (auto intro: settle_ok arrive_ok cancel_ok release_ok)

text \<open>The abstract table: one holder acquires a mode that conflicts with no other holder's (and
  is an upgrade of its own, if it had one), or gives its lock up.\<close>

definition held_step :: "txn_id_t \<Rightarrow> held \<Rightarrow> held \<Rightarrow> bool" where
  "held_step t h h' \<longleftrightarrow>
     h' = h \<or> h' = h(t := None) \<or>
     (\<exists>m. h' = h(t \<mapsto> m) \<and>
        (\<forall>u n. u \<noteq> t \<longrightarrow> h u = Some n \<longrightarrow> \<not> any_conflict m n) \<and>
        (\<forall>n. h t = Some n \<longrightarrow> any_modes.covers m n))"

lemma settle_held_step:
  assumes ok: "queue_ok b rs h" and "settle rs rs1"
  shows "\<exists>t. held_step t h (track rs1 h)"
  using assms(2)
proof cases
  case settle_refl
  then show ?thesis by (simp add: track_same[OF ok] held_step_def)
next
  case (settle_grant t r)
  have "track rs1 h = h(t \<mapsto> req_mode r)"
  proof
    fix u show "track rs1 h u = (h(t \<mapsto> req_mode r)) u"
      using settle_grant(1,2) track_same[OF ok] by (auto simp: track_def fun_eq_iff)
  qed
  moreover have "\<not> any_conflict (req_mode r) n" if "u \<noteq> t" "h u = Some n" for u n
    using grant_compatible[OF ok settle_grant(2,4)] that unfolding any_modes.compatible_def
    by (metis fun_upd_apply)
  moreover have "any_modes.covers (req_mode r) n" if "h t = Some n" for n
    using held_request[OF ok that] settle_grant(2) by (metis option.sel)
  ultimately show ?thesis unfolding held_step_def by blast
next
  case (settle_leave t)
  have "track rs1 h = h(t := None)"
  proof
    fix u show "track rs1 h u = (h(t := None)) u"
      using settle_leave track_same[OF ok] queue_okD(1)[OF ok]
      by (auto simp: track_def find_request_erase fun_eq_iff)
  qed
  then show ?thesis unfolding held_step_def by blast
qed

lemma drop_held_step:
  assumes ok: "queue_ok b rs h" and fr: "\<And>u. u \<noteq> t \<Longrightarrow> find_request u rs' = find_request u rs"
    and ft: "find_request t rs' = None \<or> (\<exists>r. find_request t rs' = Some r \<and> \<not> granted r)"
  shows "held_step t h (track rs' h)"
proof -
  have "track rs' h = h(t := None)"
  proof
    fix u show "track rs' h u = (h(t := None)) u"
      using track_same[OF ok] ft by (cases "u = t") (auto simp: track_def fr fun_eq_iff)
  qed
  then show ?thesis by (simp add: held_step_def)
qed

lemma release_gone:
  assumes "distinct (map req_txn rs)"
  shows "find_request t (fst (release_in_queue t rs)) = None \<or>
    (\<exists>r. find_request t (fst (release_in_queue t rs)) = Some r \<and> \<not> granted r \<and> cancelled r)"
  by (cases "find_request t rs") (auto simp: find_request_kept[OF assms] release_one_def)

lemma queue_step_held:
  assumes ok: "queue_ok b rs h" and "queue_step b rs rs'"
  shows "\<exists>t. held_step t h (track rs' h)"
  using assms(2)
proof cases
  case (q_arrive rs1)
  then show ?thesis using settle_held_step[OF arrive_ok[OF ok]] by blast
next
  case q_settle
  then show ?thesis using settle_held_step[OF ok] by blast
next
  case (q_cancel t)
  have "held_step t h (track rs' h)"
    by (rule drop_held_step[OF ok]) (cases "find_request t rs"; simp add: q_cancel)+
  then show ?thesis by blast
next
  case (q_release t)
  have "held_step t h (track rs' h)"
    using release_gone[OF queue_okD(1)[OF ok], of t]
    by (intro drop_held_step[OF ok]) (auto simp: q_release find_request_kept queue_okD[OF ok])
  then show ?thesis by blast
qed

subsection \<open>The operations on the table of queues\<close>

lemma queue_of_set_queue [simp]: "queue_of (set_queue l rs lm) l' = (if l' = l then rs else queue_of lm l')"
  by (simp add: queue_of_def set_queue_def update_conv')

lemma queue_of_set_or_drop [simp]:
  "queue_of (set_or_drop_queue l rs lm) l' = (if l' = l then rs else queue_of lm l')"
  by (simp add: queue_of_def set_or_drop_queue_def set_queue_def update_conv' delete_conv')

lemma queues_map_frame [simp]:
  "queues_map (EmitEventUnlocked a l m t lm) = queues_map lm"
  "queues_map (upd_txn t f lm) = queues_map lm"
  "queues_map (register_txn t lm) = queues_map lm"
  by (simp_all add: EmitEventUnlocked_def upd_txn_def register_txn_def)

lemma queue_of_frame [simp]:
  "queue_of (EmitEventUnlocked a l m t lm) = queue_of lm"
  "queue_of (upd_txn t f lm) = queue_of lm"
  "queue_of (register_txn t lm) = queue_of lm"
  by (simp_all add: queue_of_def fun_eq_iff)

definition keys_ok :: "LockManager \<Rightarrow> bool" where
  "keys_ok lm \<longleftrightarrow> distinct (map fst (queues_map lm))"

lemma keys_ok_intros [inv_intros]:
  "keys_ok lm \<Longrightarrow> keys_ok (set_queue l rs lm)"
  "keys_ok lm \<Longrightarrow> keys_ok (set_or_drop_queue l rs lm)"
  "keys_ok lm \<Longrightarrow> keys_ok (EmitEventUnlocked a l m t lm)"
  "keys_ok lm \<Longrightarrow> keys_ok (upd_txn t f lm)"
  "keys_ok lm \<Longrightarrow> keys_ok (register_txn t lm)"
  by (simp_all add: keys_ok_def set_queue_def set_or_drop_queue_def distinct_update distinct_delete)

definition is_table_lock :: "LockId \<Rightarrow> bool" where
  "is_table_lock l = IsTableResource (lock_type l)"

text \<open>Every step moves each queue by one transition.\<close>

definition steps_queues :: "LockManager \<Rightarrow> LockManager \<Rightarrow> bool" where
  "steps_queues lm lm' \<longleftrightarrow> (\<forall>l. queue_step (is_table_lock l) (queue_of lm l) (queue_of lm' l))"

lemma queue_step_refl: "queue_step b rs rs"
  by (intro q_settle settle_refl)

lemma loop_body_settles:
  "settle (queue_of lm l) (queue_of (fst (lock_loop_body t l nm wr lm)) l) \<and>
   (\<forall>l'. l' \<noteq> l \<longrightarrow> queue_of (fst (lock_loop_body t l nm wr lm)) l' = queue_of lm l')"
  by (auto simp: lock_loop_body_def Let_def intro: settle.intros split: option.splits)

lemma loop_body_queue_step:
  assumes "arrive (is_table_lock l) (queue_of lm l) (queue_of lm1 l) \<or> queue_of lm1 l = queue_of lm l"
    and "\<And>l'. l' \<noteq> l \<Longrightarrow> queue_of lm1 l' = queue_of lm l'"
  shows "steps_queues lm (fst (lock_loop_body t l nm wr lm1))"
  unfolding steps_queues_def
proof
  fix l'
  show "queue_step (is_table_lock l') (queue_of lm l') (queue_of (fst (lock_loop_body t l nm wr lm1)) l')"
    using assms loop_body_settles[of lm1 l t nm wr]
    by (cases "l' = l") (auto intro: q_arrive q_settle queue_step_refl)
qed

lemma CanUpgrade_any:
  "table_mode r \<Longrightarrow> CanUpgrade_table (table_lock_mode r) m \<Longrightarrow>
     any_upgrade (req_mode r) (req_mode (r\<lparr>table_lock_mode := m, upgrading := True\<rparr>))"
  "\<not> table_mode r \<Longrightarrow> CanUpgrade_page (lock_mode r) m' \<Longrightarrow>
     any_upgrade (req_mode r) (req_mode (r\<lparr>lock_mode := m', upgrading := True\<rparr>))"
  by (simp_all add: req_mode_def)

lemma no_move_steps: "steps_queues lm (set_queue l (queue_of lm l) (register_txn t lm))"
  by (simp add: steps_queues_def queue_step_refl)

lemma table_section_steps:
  assumes "is_table_lock l" and "\<forall>r \<in> set (queue_of lm l). request_ok True r"
  shows "steps_queues lm (fst (table_section t l mode lm))"
proof (cases "find_request t (queue_of lm l)")
    case None
    have "arrive True (queue_of lm l) (queue_of lm l @ [\<lparr>req_txn = t, table_mode = True,
        table_lock_mode = mode, lock_mode = L_S, granted = False, upgrading = False, cancelled = False\<rparr>])"
      by (rule enqueue) (simp_all add: None request_ok_def)
    with None assms show ?thesis
      by (simp add: table_section_def Let_def loop_body_queue_step)
  next
    case (Some r)
    then have "table_mode r" using assms(2) find_request_Some[OF Some] by (simp add: request_ok_def)
    have "arrive True (queue_of lm l)
        (update_request t (\<lambda>r. r\<lparr>table_lock_mode := mode, upgrading := True\<rparr>) (queue_of lm l))"
      if "granted r" "\<not> upgrading r" "CanUpgrade_table (table_lock_mode r) mode"
      by (rule begin_upgrade[where m = mode and f = "\<lambda>r. r\<lparr>table_lock_mode := mode, upgrading := True\<rparr>", OF Some that(1,2)])
        (use CanUpgrade_any(1)[OF \<open>table_mode r\<close> that(3)] in simp_all)
    with Some assms show ?thesis
      by (auto simp: table_section_def Let_def loop_body_queue_step no_move_steps)
qed

lemma page_section_steps:
  assumes "\<not> is_table_lock l" and "\<forall>r \<in> set (queue_of lm l). request_ok False r"
  shows "steps_queues lm (fst (page_section t l mode lm))"
proof (cases "find_request t (queue_of lm l)")
    case None
    have "arrive False (queue_of lm l) (queue_of lm l @ [\<lparr>req_txn = t, table_mode = False,
        table_lock_mode = T_IS, lock_mode = mode, granted = False, upgrading = False, cancelled = False\<rparr>])"
      by (rule enqueue) (simp_all add: None request_ok_def)
    with None assms show ?thesis
      by (simp add: page_section_def Let_def loop_body_queue_step)
  next
    case (Some r)
    then have "\<not> table_mode r" using assms(2) find_request_Some[OF Some] by (simp add: request_ok_def)
    have "arrive False (queue_of lm l)
        (update_request t (\<lambda>r. r\<lparr>lock_mode := mode, upgrading := True\<rparr>) (queue_of lm l))"
      if "granted r" "\<not> upgrading r" "CanUpgrade_page (lock_mode r) mode"
      by (rule begin_upgrade[where m' = mode and f = "\<lambda>r. r\<lparr>lock_mode := mode, upgrading := True\<rparr>", OF Some that(1,2)])
        (use CanUpgrade_any(2)[OF \<open>\<not> table_mode r\<close> that(3)] in simp_all)
    with Some assms show ?thesis
      by (auto simp: page_section_def Let_def loop_body_queue_step no_move_steps)
qed

lemma Unlock_steps: "steps_queues lm (fst (Unlock tp l lm))"
  unfolding steps_queues_def
proof
  fix l'
  show "queue_step (is_table_lock l') (queue_of lm l') (queue_of (fst (Unlock tp l lm)) l')"
  proof (cases "l' = l")
    case True
    have "queue_of lm l = rs" if "map_of (queues_map lm) l = Some rs" for rs
      using that by (simp add: queue_of_def)
    with True show ?thesis
      by (auto simp: Unlock_def queue_step_refl split: option.splits
          intro!: q_settle settle_leave q_cancel)
  qed (auto simp: Unlock_def queue_step_refl split: option.splits)
qed

lemma foldl_emit_queues [simp]:
  "queues_map (foldl (\<lambda>s r. EmitEventUnlocked a l (f r) t s) lm rs) = queues_map lm"
  "txn_store (foldl (\<lambda>s r. EmitEventUnlocked a l (f r) t s) lm rs) = txn_store lm"
  "registered (foldl (\<lambda>s r. EmitEventUnlocked a l (f r) t s) lm rs) = registered lm"
  by (induction rs arbitrary: lm) (simp_all add: EmitEventUnlocked_def)

lemma release_queues_Cons:
  "release_queues t ((l, rs) # qs) lm =
     (let lm1 = foldl (\<lambda>s r. EmitEventUnlocked ''RELEASE'' l (request_mode_name r) t s) lm
                  (snd (release_in_queue t rs)) in
      (if fst (release_in_queue t rs) = [] then fst (release_queues t qs lm1)
       else (l, fst (release_in_queue t rs)) # fst (release_queues t qs lm1),
       snd (release_queues t qs lm1)))"
  by (simp add: Let_def split: prod.split)

lemmas release_queues_simps = release_queues.simps(1) release_queues_Cons

declare release_queues.simps(2) [simp del]

lemma release_queues_frame:
  "txn_store (snd (release_queues t qs lm)) = txn_store lm"
  "registered (snd (release_queues t qs lm)) = registered lm"
  by (induction qs arbitrary: lm) (auto simp: release_queues_simps Let_def)

lemma release_queues_absent: "l \<notin> fst ` set qs \<Longrightarrow> l \<notin> fst ` set (fst (release_queues t qs lm))"
proof (induction qs arbitrary: lm)
  case (Cons q qs)
  obtain l' rs where "q = (l', rs)" by (cases q)
  with Cons show ?case by (simp add: release_queues_simps Let_def)
qed simp

lemma release_queues_distinct:
  "distinct (map fst qs) \<Longrightarrow> distinct (map fst (fst (release_queues t qs lm)))"
proof (induction qs arbitrary: lm)
  case (Cons q qs)
  obtain l rs where "q = (l, rs)" by (cases q)
  with Cons show ?case by (simp add: release_queues_simps Let_def release_queues_absent)
qed simp

lemma release_queues_lookup:
  "distinct (map fst qs) \<Longrightarrow>
   (case map_of (fst (release_queues t qs lm)) l of None \<Rightarrow> [] | Some rs \<Rightarrow> rs) =
   fst (release_in_queue t (case map_of qs l of None \<Rightarrow> [] | Some rs \<Rightarrow> rs))"
proof (induction qs arbitrary: lm)
  case (Cons q qs)
  obtain l' rs where q: "q = (l', rs)" by (cases q)
  have "map_of (fst (release_queues t qs lm)) l' = None" for lm
    using Cons.prems release_queues_absent[of l' qs] by (auto simp: q map_of_eq_None_iff)
  with Cons show ?case by (auto simp: q release_queues_simps Let_def)
qed simp

lemma UnlockAll_queue:
  "keys_ok lm \<Longrightarrow> queue_of (fst (UnlockAll (Some t) lm)) l = fst (release_in_queue t (queue_of lm l))"
  using release_queues_lookup[of "queues_map lm" t lm l]
  by (cases "release_queues t (queues_map lm) lm") (simp add: UnlockAll_def keys_ok_def queue_of_def)

lemma UnlockAll_steps: "keys_ok lm \<Longrightarrow> steps_queues lm (fst (UnlockAll tp lm))"
  by (cases tp) (auto simp: steps_queues_def UnlockAll_queue q_release,
      simp add: UnlockAll_def queue_step_refl)

lemma UnlockAll_keys [inv_intros]: "keys_ok lm \<Longrightarrow> keys_ok (fst (UnlockAll tp lm))"
proof (cases tp)
  case (Some t)
  assume "keys_ok lm"
  then show ?thesis
    using release_queues_distinct[of "queues_map lm" t lm] Some
    by (cases "release_queues t (queues_map lm) lm") (simp add: UnlockAll_def keys_ok_def)
qed (simp add: UnlockAll_def)

lemma keys_ok_ops [inv_intros]:
  "keys_ok lm \<Longrightarrow> keys_ok (fst (lock_loop_body t l nm wr lm))"
  "keys_ok lm \<Longrightarrow> keys_ok (fst (table_section t l tmode lm))"
  "keys_ok lm \<Longrightarrow> keys_ok (fst (page_section t l pmode lm))"
  "keys_ok lm \<Longrightarrow> keys_ok (fst (Unlock tp l lm))"
proof -
  have body: "keys_ok lm \<Longrightarrow> keys_ok (fst (lock_loop_body t l nm wr lm))" for lm t l nm wr
    by (auto simp: lock_loop_body_def Let_def intro: inv_intros split: option.split)
  then show "keys_ok lm \<Longrightarrow> keys_ok (fst (lock_loop_body t l nm wr lm))" .
  show "keys_ok lm \<Longrightarrow> keys_ok (fst (table_section t l tmode lm))"
    by (auto simp: table_section_def Let_def intro!: inv_intros body split: option.split)
  show "keys_ok lm \<Longrightarrow> keys_ok (fst (page_section t l pmode lm))"
    by (auto simp: page_section_def Let_def intro!: inv_intros body split: option.split)
  show "keys_ok lm \<Longrightarrow> keys_ok (fst (Unlock tp l lm))"
    by (auto simp: Unlock_def intro!: inv_intros split: option.split)
qed

end
