(* ===== verification/LockProtocol.thy ===== *)
theory LockProtocol
  imports LockSafety
begin

text \<open>
  The runs of the lock manager: any interleaving of the critical sections of its callers, of
  wake-ups of waiting calls (spurious ones included), and of changes that other components make
  to the transaction objects. The history of held modes is carried along.
\<close>

inductive lm_step :: "LockManager \<Rightarrow> LockManager \<Rightarrow> bool" where
  lm_table: "is_table_lock l \<Longrightarrow> lm_step lm (fst (table_section t l tmode lm))"
| lm_page: "\<not> is_table_lock l \<Longrightarrow> lm_step lm (fst (page_section t l pmode lm))"
| lm_wake: "find_request t (queue_of lm l) = Some r \<Longrightarrow> \<not> granted r \<or> upgrading r \<Longrightarrow>
    lm_step lm (fst (lock_loop_body t l (request_mode_name r) waited lm))"
| lm_unlock: "lm_step lm (fst (Unlock tp l lm))"
| lm_unlock_all: "lm_step lm (fst (UnlockAll tp lm))"
| lm_begin_capture: "lm_step lm (BeginEventCapture lm)"
| lm_end_capture: "lm_step lm (fst (EndEventCapture lm))"
| lm_transactions: "lm_step lm (lm\<lparr>txn_store := store\<rparr>)"

inductive_cases lm_stepE: "lm_step lm lm'"

inductive lm_reachable :: "LockManager \<Rightarrow> (LockId \<Rightarrow> held) \<Rightarrow> bool" where
  lm_init: "lm_reachable (initial_lock_manager store) (\<lambda>_. Map.empty)"
| lm_run: "lm_reachable lm h \<Longrightarrow> lm_step lm lm' \<Longrightarrow>
    lm_reachable lm' (\<lambda>l. track (queue_of lm' l) (h l))"

definition lm_ok :: "LockManager \<Rightarrow> (LockId \<Rightarrow> held) \<Rightarrow> bool" where
  "lm_ok lm h \<longleftrightarrow> keys_ok lm \<and> (\<forall>l. queue_ok (is_table_lock l) (queue_of lm l) (h l))"

lemma queue_of_only_map: "queues_map lm' = queues_map lm \<Longrightarrow> queue_of lm' l = queue_of lm l"
  by (simp add: queue_of_def)

lemma same_queues_steps:
  "queues_map lm' = queues_map lm \<Longrightarrow> steps_queues lm lm' \<and> (keys_ok lm \<longrightarrow> keys_ok lm')"
proof -
  assume q: "queues_map lm' = queues_map lm"
  show ?thesis using q
    by (simp add: steps_queues_def queue_of_only_map[OF q] queue_step_refl keys_ok_def)
qed

lemma lm_step_steps_queues:
  assumes ok: "lm_ok lm h" and "lm_step lm lm'"
  shows "steps_queues lm lm' \<and> keys_ok lm'"
proof -
  have k: "keys_ok lm" using ok unfolding lm_ok_def by blast
  have r: "\<forall>r \<in> set (queue_of lm l). request_ok (is_table_lock l) r" for l
    using ok unfolding lm_ok_def queue_ok_def by blast
  from assms(2) show ?thesis
  proof cases
    case (lm_table l t tmode)
    with r[of l] k show ?thesis by (simp add: table_section_steps keys_ok_ops)
  next
    case (lm_page l t pmode)
    with r[of l] k show ?thesis by (simp add: page_section_steps keys_ok_ops)
  next
    case (lm_wake t l r waited)
    with k show ?thesis by (simp add: loop_body_queue_step keys_ok_ops)
  next
    case lm_unlock
    with k show ?thesis by (simp add: Unlock_steps keys_ok_ops)
  next
    case lm_unlock_all
    with k show ?thesis by (simp add: UnlockAll_steps UnlockAll_keys)
  next
    case lm_begin_capture
    with k same_queues_steps[of "BeginEventCapture lm" lm] show ?thesis
      by (simp add: BeginEventCapture_def)
  next
    case lm_end_capture
    with k same_queues_steps[of "fst (EndEventCapture lm)" lm] show ?thesis
      by (simp add: EndEventCapture_def)
  next
    case (lm_transactions store)
    with k same_queues_steps[of "lm\<lparr>txn_store := store\<rparr>" lm] show ?thesis by simp
  qed
qed

lemma lm_init_ok: "lm_ok (initial_lock_manager store) (\<lambda>_. Map.empty)"
  by (simp add: lm_ok_def initial_lock_manager_def keys_ok_def queue_of_def queue_ok_empty)

lemma lm_step_ok:
  assumes "lm_ok lm h" and "lm_step lm lm'"
  shows "lm_ok lm' (\<lambda>l. track (queue_of lm' l) (h l))"
  using lm_step_steps_queues[OF assms] assms(1)
  by (auto simp: lm_ok_def steps_queues_def intro: queue_step_ok)

lemma lm_reachable_ok: "lm_reachable lm h \<Longrightarrow> lm_ok lm h"
  by (induction rule: lm_reachable.induct) (auto intro: lm_init_ok lm_step_ok)

lemma lm_reachableD:
  assumes "lm_reachable lm h"
  shows "keys_ok lm" "queue_ok (is_table_lock l) (queue_of lm l) (h l)" "distinct (map req_txn (queue_of lm l))"
  using lm_reachable_ok[OF assms] queue_okD(1) by (auto simp: lm_ok_def)

subsection \<open>Order in the queues\<close>

definition ahead :: "txn_id_t \<Rightarrow> txn_id_t \<Rightarrow> LockRequest list \<Rightarrow> bool" where
  "ahead u t rs \<longleftrightarrow> u \<in> req_txn ` set (before_request t rs)"

definition holds_in :: "txn_id_t \<Rightarrow> LockRequest list \<Rightarrow> bool" where
  "holds_in t rs \<longleftrightarrow> (\<exists>r. find_request t rs = Some r \<and> granted r \<and> \<not> upgrading r)"

definition waits_in :: "txn_id_t \<Rightarrow> LockRequest list \<Rightarrow> bool" where
  "waits_in t rs \<longleftrightarrow> (\<exists>r. find_request t rs = Some r \<and> IsWaiting r)"

lemma ahead_Cons: "ahead u t (r # rs) \<longleftrightarrow> req_txn r \<noteq> t \<and> (req_txn r = u \<or> ahead u t rs)"
  by (auto simp: ahead_def before_request_def)

lemma ahead_Nil [simp]: "\<not> ahead u t []"
  by (simp add: ahead_def before_request_def)

lemma ahead_present: "ahead u t rs \<Longrightarrow> u \<in> req_txn ` set rs"
  by (induction rs) (auto simp: ahead_Cons)

lemma ahead_append: "ahead u t rs \<Longrightarrow> ahead u t (rs @ xs)"
  by (induction rs) (auto simp: ahead_Cons)

lemma ahead_update: "(\<And>r. req_txn (f r) = req_txn r) \<Longrightarrow> ahead u t (update_request v f rs) = ahead u t rs"
  by (induction rs) (auto simp: ahead_Cons)

lemma ahead_erase:
  "distinct (map req_txn rs) \<Longrightarrow> ahead u t rs \<Longrightarrow> u \<noteq> v \<Longrightarrow> ahead u t (erase_request v rs)"
  by (induction rs) (auto simp: ahead_Cons)

lemma ahead_release:
  "distinct (map req_txn rs) \<Longrightarrow> ahead u t rs \<Longrightarrow> find_request u (fst (release_in_queue v rs)) \<noteq> None \<Longrightarrow>
   ahead u t (fst (release_in_queue v rs))"
proof (induction rs)
  case (Cons r rs)
  have "req_txn r \<noteq> u \<Longrightarrow> find_request u (fst (release_in_queue v (r # rs))) = find_request u (fst (release_in_queue v rs))"
    by (auto split: prod.split)
  moreover have "req_txn r = v \<Longrightarrow> find_request v (fst (release_in_queue v rs)) = None"
    using Cons.prems(1) find_request_None[of v rs] by (simp add: find_request_kept)
  ultimately show ?case using Cons
    by (cases "release_in_queue v rs") (auto simp: ahead_Cons find_request_kept split: if_splits)
qed simp

lemma ahead_blocks:
  assumes "ahead u t rs" "waits_in u rs" "distinct (map req_txn rs)" "req_txn r = t"
  shows "\<not> CanGrant rs r"
proof -
  from assms(1) obtain ru where ru: "ru \<in> set (before_request t rs)" "req_txn ru = u"
    by (auto simp: ahead_def)
  then have "ru \<in> set rs" unfolding before_request_def by (meson set_takeWhileD)
  from find_request_mem[OF assms(3) this] ru(2) assms(2) have "IsWaiting ru"
    by (simp add: waits_in_def)
  with ru assms(4) show ?thesis by (auto simp: CanGrant_def list_ex_iff)
qed

lemma settle_order:
  assumes "ahead u t rs" "find_request u rs' \<noteq> None" "settle rs rs'" "distinct (map req_txn rs)"
  shows "ahead u t rs'"
  using assms(3)
proof cases
  case (settle_leave v)
  have "u \<noteq> v" using settle_leave assms(2,4) by (auto simp: find_request_erase)
  with assms settle_leave show ?thesis by (simp add: ahead_erase)
qed (use assms in \<open>auto simp: ahead_update\<close>)

lemma arrive_order: "arrive b rs rs' \<Longrightarrow> ahead u t rs \<Longrightarrow> ahead u t rs'"
  by (induction rule: arrive.induct) (auto simp: ahead_append ahead_update)

lemma arrive_waits: "arrive b rs rs' \<Longrightarrow> waits_in u rs \<Longrightarrow> waits_in u rs'"
  by (induction rule: arrive.induct) (auto simp: waits_in_def IsWaiting_def)

lemma arrive_not_holds:
  assumes "arrive b rs rs'" and "find_request t rs \<noteq> None" and "\<not> holds_in t rs"
  shows "\<not> holds_in t rs'"
  using assms by (induction rule: arrive.induct) (auto simp: holds_in_def split: if_splits)

lemma settle_no_overtaking:
  assumes "ahead u t rs" "waits_in u rs" "\<not> holds_in t rs" "settle rs rs'" "distinct (map req_txn rs)"
  shows "\<not> holds_in t rs'"
  using assms(4)
proof cases
  case (settle_grant v r)
  then have "v \<noteq> t" using ahead_blocks[OF assms(1,2,5)] find_request_Some by blast
  with assms(3) settle_grant(1) show ?thesis by (simp add: holds_in_def)
next
  case (settle_leave v)
  with assms show ?thesis by (auto simp: holds_in_def find_request_erase)
qed (use assms in simp)

lemma queue_step_order:
  assumes ok: "queue_ok b rs h" and st: "queue_step b rs rs'" and a: "ahead u t rs"
    and u: "find_request u rs' \<noteq> None"
  shows "ahead u t rs'"
  using st
proof cases
  case (q_arrive rs1)
  then show ?thesis
    using settle_order[OF arrive_order[OF _ a] u] queue_okD(1)[OF arrive_ok[OF ok]] by blast
qed (use settle_order[OF a u] queue_okD(1)[OF ok] ahead_release a u in \<open>auto simp: ahead_update\<close>)

lemma queue_step_no_overtaking:
  assumes ok: "queue_ok b rs h" and st: "queue_step b rs rs'" and a: "ahead u t rs"
    and w: "waits_in u rs" and t: "find_request t rs \<noteq> None" "\<not> holds_in t rs"
  shows "\<not> holds_in t rs'"
  using st
proof cases
  case (q_arrive rs1)
  then show ?thesis
    using settle_no_overtaking[OF arrive_order[OF _ a] arrive_waits[OF _ w] arrive_not_holds[OF _ t]]
      queue_okD(1)[OF arrive_ok[OF ok]] by blast
next
  case q_settle
  then show ?thesis using settle_no_overtaking[OF a w t(2)] queue_okD(1)[OF ok] by blast
next
  case (q_cancel v)
  with t show ?thesis by (auto simp: holds_in_def)
next
  case (q_release v)
  with t show ?thesis
    by (auto simp: holds_in_def find_request_kept queue_okD[OF ok] release_one_def
        split: if_splits Option.bind_split)
qed

subsection \<open>Bookkeeping\<close>

lemma GetGrantedLocks_iff:
  assumes "keys_ok lm" and "distinct (map req_txn (queue_of lm l))"
  shows "l \<in> set (GetGrantedLocks t lm) \<longleftrightarrow> holds_in t (queue_of lm l)"
proof
  assume "l \<in> set (GetGrantedLocks t lm)"
  then obtain rs r where m: "(l, rs) \<in> set (queues_map lm)" and r: "r \<in> set rs" "req_txn r = t" "granted r" "\<not> upgrading r"
    by (auto simp: GetGrantedLocks_def)
  from m assms(1) have "queue_of lm l = rs" by (simp add: queue_of_def keys_ok_def)
  with r assms(2) show "holds_in t (queue_of lm l)"
    unfolding holds_in_def using find_request_mem by blast
next
  assume "holds_in t (queue_of lm l)"
  then obtain r where f: "find_request t (queue_of lm l) = Some r" and g: "granted r" "\<not> upgrading r"
    by (auto simp: holds_in_def)
  then have "queue_of lm l \<noteq> []" by auto
  then have "(l, queue_of lm l) \<in> set (queues_map lm)"
    by (auto simp: queue_of_def split: option.splits dest: map_of_SomeD)
  with find_request_Some[OF f] g show "l \<in> set (GetGrantedLocks t lm)"
    unfolding GetGrantedLocks_def by fastforce
qed

lemma holds_in_track: "holds_in t rs \<Longrightarrow> \<exists>r. find_request t rs = Some r \<and> track rs h t = Some (req_mode r)"
  by (auto simp: holds_in_def track_def)

lemma held_eq_track: "lm_reachable lm h \<Longrightarrow> track (queue_of lm l) (h l) = h l"
  by (rule track_same) (rule lm_reachableD)

lemma UnlockAll_code [simp]: "snd (UnlockAll (Some t) lm) = Code_Ok"
  by (simp add: UnlockAll_def split: prod.split)

lemma UnlockAll_txn:
  "txn_store (fst (UnlockAll (Some t) lm)) = (txn_store lm)(t := map_option ClearGrantedLocks (txn_store lm t))"
  using release_queues_frame(1)[of t "queues_map lm" lm]
  by (cases "release_queues t (queues_map lm) lm") (simp add: UnlockAll_def upd_txn_def)

lemma wake_gone:
  assumes "find_request t (queue_of lm l) = Some r" and "cancelled r \<or> \<not> usable lm t"
    and "distinct (map req_txn (queue_of lm l))"
  shows "snd (lock_loop_body t l nm w lm) = Returned InvalidArgument"
    and "find_request u (queue_of (fst (lock_loop_body t l nm w lm)) l) =
      (if u = t then None else find_request u (queue_of lm l))"
  using assms by (auto simp: lock_loop_body_def Let_def find_request_erase)

lemma wake_grants:
  assumes f: "find_request t (queue_of lm l) = Some r" and "\<not> cancelled r" "usable lm t"
    and "distinct (map req_txn (queue_of lm l))"
    and first: "\<And>u. ahead u t (queue_of lm l) \<Longrightarrow> \<not> waits_in u (queue_of lm l)"
    and free: "\<And>u q. u \<noteq> t \<Longrightarrow> find_request u (queue_of lm l) = Some q \<Longrightarrow> granted q \<Longrightarrow> \<not> RequestConflicts r q"
  shows "snd (lock_loop_body t l nm w lm) = Returned Code_Ok"
    and "holds_in t (queue_of (fst (lock_loop_body t l nm w lm)) l)"
proof -
  let ?rs = "queue_of lm l"
  have t: "req_txn r = t" using find_request_Some[OF f] by simp
  have "\<not> IsWaiting q" if "q \<in> set (before_request t ?rs)" for q
  proof -
    have "q \<in> set ?rs" using that unfolding before_request_def by (meson set_takeWhileD)
    then have "find_request (req_txn q) ?rs = Some q" by (rule find_request_mem[OF assms(4)])
    moreover have "ahead (req_txn q) t ?rs" using that by (simp add: ahead_def)
    ultimately show ?thesis using first by (auto simp: waits_in_def)
  qed
  moreover have "\<not> RequestConflicts r q" if "q \<in> set ?rs" "req_txn q \<noteq> t" "granted q" for q
    using free[OF that(2) find_request_mem[OF assms(4) that(1)] that(3)] .
  ultimately have "CanGrant ?rs r" by (auto simp: CanGrant_def list_ex_iff t)
  with assms(1-3) show "snd (lock_loop_body t l nm w lm) = Returned Code_Ok"
    "holds_in t (queue_of (fst (lock_loop_body t l nm w lm)) l)"
    by (simp_all add: lock_loop_body_def Let_def holds_in_def)
qed

subsection \<open>A run with several transactions, for the witnesses\<close>

definition demo_store :: "txn_id_t \<rightharpoonup> Transaction" where
  "demo_store = [1 \<mapsto> make_Transaction 1 True, 2 \<mapsto> make_Transaction 2 True, 3 \<mapsto> make_Transaction 3 True]"

definition demo0 :: LockManager where
  "demo0 = initial_lock_manager demo_store"

definition demo1 :: LockManager where
  "demo1 = fst (table_section 1 (LockId_Table 7) T_IX demo0)"

definition demo2 :: LockManager where
  "demo2 = fst (table_section 2 (LockId_Table 7) T_IS demo1)"

definition demo3 :: LockManager where
  "demo3 = fst (table_section 2 (LockId_Table 7) T_S demo2)"

definition demo4 :: LockManager where
  "demo4 = fst (table_section 3 (LockId_Table 7) T_IS demo3)"

lemmas lm_eval = table_section_def page_section_def lock_loop_body_def Let_def register_txn_def queue_of_def set_queue_def
  set_or_drop_queue_def initial_lock_manager_def find_request_def CanGrant_def before_request_def
  usable_def upd_txn_def EmitEventUnlocked_def make_Transaction_def IsUsableForWork_def
  AddGrantedLock_def RequestConflicts_def IsWaiting_def CanUpgrade_table_def CanUpgrade_page_def
  SameRequestedMode_table_def SameRequestedMode_page_def LockModesConflict_def
  LockId_Table_def LockId_Page_def LockId_default_def

lemma demo0_queue: "queue_of demo0 l = []"
  by (simp add: demo0_def initial_lock_manager_def queue_of_def)

abbreviation demo_req :: "txn_id_t \<Rightarrow> TableLockMode \<Rightarrow> bool \<Rightarrow> bool \<Rightarrow> LockRequest" where
  "demo_req t m g up \<equiv> \<lparr>req_txn = t, table_mode = True, table_lock_mode = m, lock_mode = L_S,
     granted = g, upgrading = up, cancelled = False\<rparr>"

lemma demo_queues:
  "queue_of demo1 (LockId_Table 7) = [demo_req 1 T_IX True False]"
  "queue_of demo2 (LockId_Table 7) = [demo_req 1 T_IX True False, demo_req 2 T_IS True False]"
  "queue_of demo3 (LockId_Table 7) = [demo_req 1 T_IX True False, demo_req 2 T_S True True]"
  "queue_of demo4 (LockId_Table 7) = [demo_req 1 T_IX True False, demo_req 2 T_S True True, demo_req 3 T_IS False False]"
  by (simp_all add: demo4_def demo3_def demo2_def demo1_def demo0_def demo_store_def lm_eval)

lemma demo_steps: "lm_step demo0 demo1" "lm_step demo1 demo2" "lm_step demo2 demo3" "lm_step demo3 demo4"
  unfolding demo1_def demo2_def demo3_def demo4_def
  by (simp_all add: lm_table is_table_lock_def LockId_Table_def LockId_default_def IsTableResource_def)

definition demo_held :: "LockManager list \<Rightarrow> LockId \<Rightarrow> held" where
  "demo_held lms l = foldl (\<lambda>h lm. track (queue_of lm l) h) Map.empty lms"

lemma demo_held_snoc: "demo_held (lms @ [lm]) = (\<lambda>l. track (queue_of lm l) (demo_held lms l))"
  by (simp add: demo_held_def fun_eq_iff)

lemma demo_reachable:
  "lm_reachable demo2 (demo_held [demo1, demo2])"
  "lm_reachable demo4 (demo_held [demo1, demo2, demo3, demo4])"
proof -
  have r0: "lm_reachable demo0 (demo_held [])"
    unfolding demo0_def demo_held_def by (simp add: lm_init)
  have step: "lm_reachable lm' (demo_held (lms @ [lm']))"
    if "lm_reachable lm (demo_held lms)" "lm_step lm lm'" for lm lm' lms
    using lm_run[OF that] by (simp add: demo_held_snoc)
  have r2: "lm_reachable demo2 (demo_held ([] @ [demo1] @ [demo2]))"
    using step[OF step[OF r0 demo_steps(1)] demo_steps(2)] by simp
  then show "lm_reachable demo2 (demo_held [demo1, demo2])" by simp
  from step[OF step[OF r2 demo_steps(3)] demo_steps(4)]
  show "lm_reachable demo4 (demo_held [demo1, demo2, demo3, demo4])" by simp
qed

lemma demo_held_values:
  "demo_held [demo1, demo2] (LockId_Table 7) = [1 \<mapsto> TableMode T_IX, 2 \<mapsto> TableMode T_IS]"
  "demo_held [demo1, demo2, demo3, demo4] (LockId_Table 7) = [1 \<mapsto> TableMode T_IX, 2 \<mapsto> TableMode T_IS]"
  by (auto simp: demo_held_def demo_queues track_def find_request_def req_mode_def fun_eq_iff)

subsection \<open>Properties\<close>

text \<open>C1: In every reachable state of the lock manager no two transactions hold conflicting
  modes on a resource, whatever the interleaving of requests, wake-ups, upgrades, unlocks and
  failures; a holder whose upgrade is pending counts with the mode it had.\<close>

theorem locks_never_conflict:
  assumes "lm_reachable lm h" and "t \<noteq> u" and "h l t = Some m" and "h l u = Some n"
  shows "\<not> any_conflict m n"
  using queue_okD(4)[OF lm_reachableD(2)[OF assms(1)]] assms(2-4)
  by (auto simp: any_modes.compatible_def)

theorem locks_never_conflict_witness:
  "demo_held [demo1, demo2, demo3, demo4] (LockId_Table 7) 2 = Some (TableMode T_IS) \<and>
   \<not> any_conflict (TableMode T_IX) (TableMode T_IS)"
  using locks_never_conflict[OF demo_reachable(2), of 1 2 "LockId_Table 7"] by (simp add: demo_held_values)

text \<open>C8: The lock manager refines a table of held locks: each of its steps changes the holders of
  any one resource by at most one transaction, which gives its lock up or acquires a mode that
  conflicts with no other holder and covers what it held.\<close>

theorem lock_manager_refines_held_table:
  assumes "lm_reachable lm h" and "lm_step lm lm'"
  shows "\<exists>t. held_step t (h l) (track (queue_of lm' l) (h l))"
proof -
  from lm_step_steps_queues[OF lm_reachable_ok[OF assms(1)] assms(2)]
  have "queue_step (is_table_lock l) (queue_of lm l) (queue_of lm' l)"
    by (simp add: steps_queues_def)
  then show ?thesis by (rule queue_step_held[OF lm_reachableD(2)[OF assms(1)]])
qed

theorem lock_manager_refines_held_table_witness:
  "\<exists>t. held_step t [1 \<mapsto> TableMode T_IX, 2 \<mapsto> TableMode T_IS] [1 \<mapsto> TableMode T_IX, 2 \<mapsto> TableMode T_IS]"
proof -
  have "track (queue_of demo3 (LockId_Table 7)) [1 \<mapsto> TableMode T_IX, 2 \<mapsto> TableMode T_IS] =
      [1 \<mapsto> TableMode T_IX, 2 \<mapsto> TableMode T_IS]"
    by (auto simp: demo_queues track_def find_request_def req_mode_def fun_eq_iff)
  then show ?thesis
    using lock_manager_refines_held_table[OF demo_reachable(1) demo_steps(3), of "LockId_Table 7"]
    by (simp add: demo_held_values)
qed

text \<open>C28: Queues are fair: while a transaction waits for a resource, no request behind it in the
  queue is granted by any step, and the order of the two requests does not change.\<close>

theorem lock_queue_fifo:
  assumes "lm_reachable lm h" and "lm_step lm lm'"
    and "ahead u t (queue_of lm l)" and "waits_in u (queue_of lm l)"
    and "find_request t (queue_of lm l) \<noteq> None" and "\<not> holds_in t (queue_of lm l)"
  shows "\<not> holds_in t (queue_of lm' l) \<and>
    (find_request u (queue_of lm' l) \<noteq> None \<longrightarrow> ahead u t (queue_of lm' l))"
proof -
  have st: "queue_step (is_table_lock l) (queue_of lm l) (queue_of lm' l)"
    using lm_step_steps_queues[OF lm_reachable_ok[OF assms(1)] assms(2)] by (simp add: steps_queues_def)
  show ?thesis
    using queue_step_no_overtaking[OF lm_reachableD(2)[OF assms(1)] st assms(3-6)]
      queue_step_order[OF lm_reachableD(2)[OF assms(1)] st assms(3)] by blast
qed

theorem lock_queue_fifo_witness:
  "\<not> holds_in 3 (queue_of (fst (lock_loop_body 3 (LockId_Table 7) ''IS'' True demo4)) (LockId_Table 7))"
proof -
  have f: "find_request 3 (queue_of demo4 (LockId_Table 7)) = Some (demo_req 3 T_IS False False)"
    by (simp add: demo_queues)
  have "lm_step demo4 (fst (lock_loop_body 3 (LockId_Table 7) ''IS'' True demo4))"
    using lm_wake[OF f, of True] by (simp add: request_mode_name_def)
  from lock_queue_fifo[OF demo_reachable(2) this, of 2 3 "LockId_Table 7"] show ?thesis
    by (simp add: demo_queues ahead_Cons waits_in_def IsWaiting_def holds_in_def)
qed

lemma UnlockAll_granted:
  assumes "lm_reachable lm h"
  shows "GetGrantedLocks t (fst (UnlockAll (Some t) lm)) = []"
proof -
  let ?lm = "fst (UnlockAll (Some t) lm)"
  have d: "distinct (map req_txn (queue_of lm l))" for l by (rule lm_reachableD(3)[OF assms])
  have q: "queue_of ?lm l = fst (release_in_queue t (queue_of lm l))" for l
    by (rule UnlockAll_queue[OF lm_reachableD(1)[OF assms]])
  have k: "keys_ok ?lm" by (rule UnlockAll_keys[OF lm_reachableD(1)[OF assms]])
  have "l \<notin> set (GetGrantedLocks t ?lm)" for l
    using GetGrantedLocks_iff[OF k, of l t] release_gone[OF d, of t l] distinct_kept[OF d, of t l]
    by (auto simp: holds_in_def q)
  then show ?thesis by (metis all_not_in_conv set_empty)
qed

text \<open>\<^verbatim>\<open>UnlockAll\<close> releases all locks of the transaction and only those: afterwards it holds
  nothing and each request it still has is a cancelled one, of a call that is waiting, its set
  of granted locks is empty, and the requests of other transactions are what they were.\<close>

theorem UnlockAll_releases_exactly:
  assumes "lm_reachable lm h" and "UnlockAll (Some t) lm = (lm', code)"
  shows "code = Code_Ok \<and> GetGrantedLocks t lm' = [] \<and>
    (\<forall>l r. find_request t (queue_of lm' l) = Some r \<longrightarrow> cancelled r) \<and>
    (\<forall>l u. u \<noteq> t \<longrightarrow> find_request u (queue_of lm' l) = find_request u (queue_of lm l)) \<and>
    (\<forall>tx. txn_store lm' t = Some tx \<longrightarrow> granted_locks tx = {})"
proof -
  have lm': "lm' = fst (UnlockAll (Some t) lm)" "code = snd (UnlockAll (Some t) lm)"
    using assms(2) by simp_all
  have d: "distinct (map req_txn (queue_of lm l))" for l by (rule lm_reachableD(3)[OF assms(1)])
  have q: "queue_of lm' l = fst (release_in_queue t (queue_of lm l))" for l
    unfolding lm' by (rule UnlockAll_queue[OF lm_reachableD(1)[OF assms(1)]])
  have "GetGrantedLocks t lm' = []" unfolding lm' by (rule UnlockAll_granted[OF assms(1)])
  moreover have "find_request t (queue_of lm' l) = Some r \<Longrightarrow> cancelled r" for l r
    using release_gone[OF d, of t l] by (auto simp: q)
  moreover have "u \<noteq> t \<Longrightarrow> find_request u (queue_of lm' l) = find_request u (queue_of lm l)" for u l
    by (simp add: q find_request_kept[OF d])
  moreover have "txn_store lm' t = Some tx \<Longrightarrow> granted_locks tx = {}" for tx
    by (auto simp: lm' UnlockAll_txn ClearGrantedLocks_def)
  ultimately show ?thesis by (simp add: lm'(2))
qed

theorem UnlockAll_releases_exactly_witness:
  "GetGrantedLocks 1 (fst (UnlockAll (Some 1) demo4)) = [] \<and>
   find_request 2 (queue_of (fst (UnlockAll (Some 1) demo4)) (LockId_Table 7)) = Some (demo_req 2 T_S True True)"
  using UnlockAll_releases_exactly[OF demo_reachable(2) prod.collapse[symmetric], of 1]
  by (simp add: demo_queues)

text \<open>A wake-up makes progress: a waiting request of a usable transaction that has no waiter
  ahead of it and conflicts with no granted request is granted, and the call returns success.\<close>

theorem wake_up_progress:
  assumes "lm_reachable lm h" and "find_request t (queue_of lm l) = Some r" and "IsWaiting r" and "usable lm t"
    and "\<And>u. ahead u t (queue_of lm l) \<Longrightarrow> \<not> waits_in u (queue_of lm l)"
    and "\<And>u q. u \<noteq> t \<Longrightarrow> find_request u (queue_of lm l) = Some q \<Longrightarrow> granted q \<Longrightarrow> \<not> RequestConflicts r q"
  shows "snd (lock_loop_body t l nm waited lm) = Returned Code_Ok \<and>
    holds_in t (queue_of (fst (lock_loop_body t l nm waited lm)) l)"
  using wake_grants[OF assms(2) _ assms(4) lm_reachableD(3)[OF assms(1)] assms(5,6)] assms(3)
  by (simp add: IsWaiting_def)

theorem wake_up_progress_witness:
  "snd (lock_loop_body 2 (LockId_Table 7) ''S'' True (fst (UnlockAll (Some 1) demo4))) = Returned Code_Ok"
proof -
  let ?lm = "fst (UnlockAll (Some 1) demo4)"
  have q: "queue_of ?lm (LockId_Table 7) = [demo_req 2 T_S True True, demo_req 3 T_IS False False]"
    by (simp add: UnlockAll_queue[OF lm_reachableD(1)[OF demo_reachable(2)]] demo_queues)
  have u: "usable ?lm 2"
    by (simp add: usable_def UnlockAll_txn demo4_def demo3_def demo2_def demo1_def demo0_def demo_store_def lm_eval)
  have r: "lm_reachable ?lm (\<lambda>l. track (queue_of ?lm l) (demo_held [demo1, demo2, demo3, demo4] l))"
    by (rule lm_run[OF demo_reachable(2) lm_unlock_all])
  have "snd (lock_loop_body 2 (LockId_Table 7) ''S'' True ?lm) = Returned Code_Ok \<and>
    holds_in 2 (queue_of (fst (lock_loop_body 2 (LockId_Table 7) ''S'' True ?lm)) (LockId_Table 7))"
    by (rule wake_up_progress[OF r, where r = "demo_req 2 T_S True True"])
      (auto simp: q u IsWaiting_def ahead_Cons split: if_splits)
  then show ?thesis by simp
qed

end
