(* ===== verification/Deadlock.thy ===== *)
theory Deadlock
  imports LockProtocol
begin

text \<open>
  Deadlock detection of \<^verbatim>\<open>lock_manager.cpp\<close>: the wait-for graph built from the queues, the
  three-colour depth-first search of \<^verbatim>\<open>FindDeadlockVictimUnlocked\<close> and \<^verbatim>\<open>DetectDeadlocks\<close>.
  The recursion of \<^verbatim>\<open>visit\<close> is written with fuel; the number of nodes is enough, and the
  completeness theorem covers it, since running out would look like finding no cycle. The entries
  that \<^verbatim>\<open>graph[node]\<close> inserts during the loop over the map are part of the model, with the rebuilding
  of the hash table as a parameter.
\<close>

type_synonym graph = "(txn_id_t \<times> txn_id_t list) list"

definition edges_of :: "graph \<Rightarrow> txn_id_t \<Rightarrow> txn_id_t list" where
  "edges_of g t = (case map_of g t of None \<Rightarrow> [] | Some es \<Rightarrow> es)"

text \<open>The inner loop over the queue for the waiting request \<open>r\<close> at position \<open>i\<close>, at entry \<open>j\<close>.\<close>

fun add_edges :: "LockRequest \<Rightarrow> nat \<Rightarrow> nat \<Rightarrow> LockRequest list \<Rightarrow> txn_id_t list \<Rightarrow> txn_id_t list" where
  "add_edges r i j [] es = es"
| "add_edges r i j (other # rest) es = add_edges r i (Suc j) rest
     (if j = i \<or> req_txn other = req_txn r then es
      else if granted other \<and> RequestConflicts r other then List.insert (req_txn other) es
      else if \<not> granted other \<and> RequestConflicts r other \<and> j < i then List.insert (req_txn other) es
      else es)"

fun queue_edges :: "LockManager \<Rightarrow> LockRequest list \<Rightarrow> nat \<Rightarrow> LockRequest list \<Rightarrow> graph \<Rightarrow> graph" where
  "queue_edges lm all i [] g = g"
| "queue_edges lm all i (r # rs) g = queue_edges lm all (Suc i) rs
     (if \<not> IsWaiting r \<or> \<not> usable lm (req_txn r) then g
      else AList.update (req_txn r) (add_edges r i 0 all (edges_of g (req_txn r))) g)"

definition wait_graph :: "LockManager \<Rightarrow> graph" where
  "wait_graph lm = foldl (\<lambda>g q. queue_edges lm (snd q) 0 (snd q) g) [] (queues_map lm)"

datatype dfs_result = Cycle txn_id_t | NoCycle | OutOfFuel | Invalidated

type_synonym dfs_state = "(txn_id_t \<Rightarrow> nat) \<times> txn_id_t list"

definition max_element :: "txn_id_t list \<Rightarrow> txn_id_t" where
  "max_element xs = fold max (tl xs) (hd xs)"

text \<open>
  The search reads the lists of successors with \<^verbatim>\<open>graph[node]\<close>, which enters a node that is no key
  yet with no successors. Beside the entries the state says whether such an insertion has rebuilt
  the hash table: that invalidates the iterator of the loop over the roots, and advancing it then
  is undefined behaviour (\<^verbatim>\<open>Invalidated\<close>; inside \<^verbatim>\<open>visit\<close> the loop runs over the inner set, which
  stays where it is). Which insertions rebuild the table is the library's choice: \<open>rehash n\<close> says
  that the one that brings the number of entries to \<open>n\<close> does.
\<close>

type_synonym node_map = "graph \<times> bool"

definition subscript :: "(nat \<Rightarrow> bool) \<Rightarrow> txn_id_t \<Rightarrow> node_map \<Rightarrow> node_map" where
  "subscript rehash node m =
     (if node \<in> set (map fst (fst m)) then m
      else (fst m @ [(node, [])], snd m \<or> rehash (Suc (length (fst m)))))"

fun visit :: "(nat \<Rightarrow> bool) \<Rightarrow> nat \<Rightarrow> node_map \<Rightarrow> txn_id_t \<Rightarrow> dfs_state \<Rightarrow> node_map \<times> dfs_state \<times> dfs_result"
and visit_edges :: "(nat \<Rightarrow> bool) \<Rightarrow> nat \<Rightarrow> node_map \<Rightarrow> txn_id_t list \<Rightarrow> dfs_state \<Rightarrow> node_map \<times> dfs_state \<times> dfs_result" where
  "visit rehash 0 m node s = (m, s, OutOfFuel)"
| "visit rehash (Suc k) m node (color, path) =
     (case visit_edges rehash k (subscript rehash node m) (edges_of (fst (subscript rehash node m)) node)
             (color(node := 1), path @ [node]) of
        (m', (color', path'), NoCycle) \<Rightarrow> (m', (color'(node := 2), butlast path'), NoCycle)
      | found \<Rightarrow> found)"
| "visit_edges rehash k m [] s = (m, s, NoCycle)"
| "visit_edges rehash k m (next # rest) (color, path) =
     (case (if color next = 0 then visit rehash k m next (color, path) else (m, (color, path), NoCycle)) of
        (m', (color', path'), NoCycle) \<Rightarrow>
          if color' next = 1
          then (m', (color', path'), Cycle (max_element (dropWhile (\<lambda>n. n \<noteq> next) path')))
          else visit_edges rehash k m' rest (color', path')
      | found \<Rightarrow> found)"

text \<open>The loop over the entries: those that \<^verbatim>\<open>visit\<close> inserts are black already, so it is of no
  account whether the loop meets them.\<close>

fun visit_roots :: "(nat \<Rightarrow> bool) \<Rightarrow> nat \<Rightarrow> node_map \<Rightarrow> txn_id_t list \<Rightarrow> dfs_state \<Rightarrow> dfs_result" where
  "visit_roots rehash k m [] s = NoCycle"
| "visit_roots rehash k m (node # rest) s =
     (if fst s node = 0 then
        (case visit rehash k m node s of
           (m', s', NoCycle) \<Rightarrow> if snd m' then Invalidated else visit_roots rehash k m' rest s'
         | (m', s', found) \<Rightarrow> found)
      else visit_roots rehash k m rest s)"

definition graph_nodes :: "graph \<Rightarrow> txn_id_t list" where
  "graph_nodes g = map fst g @ concat (map snd g)"

text \<open>\<open>None\<close>: undefined behaviour, as above.\<close>

definition FindDeadlockVictimUnlocked :: "(nat \<Rightarrow> bool) \<Rightarrow> LockManager \<Rightarrow> txn_id_t option option" where
  "FindDeadlockVictimUnlocked rehash lm =
     (let g = wait_graph lm in
      case visit_roots rehash (length (graph_nodes g)) (g, False) (map fst g) (\<lambda>_. 0, []) of
        Cycle v \<Rightarrow> Some (Some v) | Invalidated \<Rightarrow> None | _ \<Rightarrow> Some None)"

definition DetectDeadlocks :: "(nat \<Rightarrow> bool) \<Rightarrow> LockManager \<Rightarrow> (LockManager \<times> txn_id_t list) option" where
  "DetectDeadlocks rehash lm =
     (case FindDeadlockVictimUnlocked rehash lm of
        None \<Rightarrow> None
      | Some None \<Rightarrow> Some (lm, [])
      | Some (Some v) \<Rightarrow>
          if v \<in> set (registered lm) \<and> txn_store lm v \<noteq> None
          then Some (upd_txn v MarkFailed lm, [v]) else Some (lm, []))"

lemma DetectDeadlocks_step: "DetectDeadlocks rehash lm = Some (lm', vs) \<Longrightarrow> lm_step lm lm'"
proof -
  have "lm_step lm (upd_txn v MarkFailed lm)" for v
    unfolding upd_txn_def by (rule lm_transactions)
  moreover have "lm_step lm lm"
    using lm_transactions[of lm "txn_store lm"] by simp
  moreover assume "DetectDeadlocks rehash lm = Some (lm', vs)"
  ultimately show ?thesis by (auto simp: DetectDeadlocks_def split: option.splits if_splits)
qed

subsection \<open>What the graph says\<close>

definition blocks_at :: "LockRequest \<Rightarrow> nat \<Rightarrow> nat \<Rightarrow> LockRequest \<Rightarrow> bool" where
  "blocks_at r i j other \<longleftrightarrow>
     j \<noteq> i \<and> req_txn other \<noteq> req_txn r \<and> RequestConflicts r other \<and> (granted other \<or> j < i)"

lemma add_edges_iff:
  "u \<in> set (add_edges r i j rest es) \<longleftrightarrow>
   u \<in> set es \<or> (\<exists>k < length rest. blocks_at r i (j + k) (rest ! k) \<and> req_txn (rest ! k) = u)"
proof (induction rest arbitrary: j es)
  case (Cons other rest)
  have "(\<exists>k < length (other # rest). blocks_at r i (j + k) ((other # rest) ! k) \<and> req_txn ((other # rest) ! k) = u) \<longleftrightarrow>
    (blocks_at r i j other \<and> req_txn other = u) \<or>
    (\<exists>k < length rest. blocks_at r i (Suc j + k) (rest ! k) \<and> req_txn (rest ! k) = u)"
    by (simp add: Ex_less_Suc2)
  with Cons show ?case by (auto simp: blocks_at_def)
qed simp

definition waiting_at :: "LockManager \<Rightarrow> LockRequest list \<Rightarrow> nat \<Rightarrow> bool" where
  "waiting_at lm rs i \<longleftrightarrow> i < length rs \<and> IsWaiting (rs ! i) \<and> usable lm (req_txn (rs ! i))"

definition blocked_in :: "LockManager \<Rightarrow> LockRequest list \<Rightarrow> txn_id_t \<Rightarrow> txn_id_t \<Rightarrow> bool" where
  "blocked_in lm rs t u \<longleftrightarrow>
     (\<exists>i j. waiting_at lm rs i \<and> req_txn (rs ! i) = t \<and> j < length rs \<and>
        blocks_at (rs ! i) i j (rs ! j) \<and> req_txn (rs ! j) = u)"

definition waits_for :: "LockManager \<Rightarrow> (txn_id_t \<times> txn_id_t) set" where
  "waits_for lm = {(t, u). \<exists>q \<in> set (queues_map lm). blocked_in lm (snd q) t u}"

lemma edges_of_update: "edges_of (AList.update t es g) u = (if u = t then es else edges_of g u)"
  by (simp add: edges_of_def update_conv')

lemma queue_edges_iff:
  "u \<in> set (edges_of (queue_edges lm all i rest g) t) \<longleftrightarrow>
   u \<in> set (edges_of g t) \<or>
   (\<exists>k < length rest. req_txn (rest ! k) = t \<and> IsWaiting (rest ! k) \<and> usable lm t \<and>
      (\<exists>j < length all. blocks_at (rest ! k) (i + k) j (all ! j) \<and> req_txn (all ! j) = u))"
proof (induction rest arbitrary: i g)
  case (Cons r rest)
  have "(\<exists>k < length (r # rest). P k ((r # rest) ! k)) \<longleftrightarrow> P 0 r \<or> (\<exists>k < length rest. P (Suc k) (rest ! k))" for P
    by (simp add: Ex_less_Suc2)
  note split = this[of "\<lambda>k x. req_txn x = t \<and> IsWaiting x \<and> usable lm t \<and>
      (\<exists>j < length all. blocks_at x (i + k) j (all ! j) \<and> req_txn (all ! j) = u)"]
  show ?case
    unfolding split by (auto simp: Cons edges_of_update add_edges_iff)
qed simp

lemma wait_graph_fold:
  "u \<in> set (edges_of (foldl (\<lambda>g q. queue_edges lm (snd q) 0 (snd q) g) g qs) t) \<longleftrightarrow>
   u \<in> set (edges_of g t) \<or> (\<exists>q \<in> set qs. blocked_in lm (snd q) t u)"
proof (induction qs arbitrary: g)
  case (Cons q qs)
  have "u \<in> set (edges_of (queue_edges lm (snd q) 0 (snd q) g) t) \<longleftrightarrow>
      u \<in> set (edges_of g t) \<or> blocked_in lm (snd q) t u"
    by (auto simp: queue_edges_iff blocked_in_def waiting_at_def)
  then show ?case by (simp add: Cons disj_assoc)
qed simp

definition graph_rel :: "graph \<Rightarrow> (txn_id_t \<times> txn_id_t) set" where
  "graph_rel g = {(t, u). u \<in> set (edges_of g t)}"

lemma wait_graph_rel: "graph_rel (wait_graph lm) = waits_for lm"
  unfolding graph_rel_def waits_for_def wait_graph_def wait_graph_fold by (simp add: edges_of_def)

text \<open>Every edge is a real obstacle: the waiting request cannot be granted while it is there.\<close>

lemma blocked_not_grantable:
  assumes d: "distinct (map req_txn rs)" and ok: "\<forall>r \<in> set rs. request_ok b r"
    and b: "blocks_at (rs ! i) i j (rs ! j)" "i < length rs" "j < length rs"
    and nc: "\<not> cancelled (rs ! j)"
  shows "\<not> CanGrant rs (rs ! i)"
proof (cases "granted (rs ! j)")
  case True
  with b show ?thesis by (force simp: CanGrant_def list_ex_iff blocks_at_def)
next
  case False
  with b(1) have "j < i" by (simp add: blocks_at_def)
  have "rs ! j \<in> set (before_request (req_txn (rs ! i)) rs)"
  proof -
    have "takeWhile (\<lambda>e. req_txn e \<noteq> req_txn (rs ! i)) rs = take i rs"
    proof (rule takeWhile_eq_take_P_nth)
      fix k assume "k < i" "k < length rs"
      then show "req_txn (rs ! k) \<noteq> req_txn (rs ! i)"
        using d b(2) nth_eq_iff_index_eq[OF d, of k i] by simp
    qed simp
    with \<open>j < i\<close> b(2) show ?thesis
      by (auto simp: before_request_def in_set_conv_nth intro!: exI[of _ j])
  qed
  with False nc show ?thesis by (auto simp: CanGrant_def list_ex_iff IsWaiting_def)
qed

subsection \<open>The depth-first search\<close>

text \<open>
  The proofs go through the same search on a graph that stays as it is; the entries that the
  subscripts add have no successors, so the two agree (\<^verbatim>\<open>visit_search\<close> below).
\<close>

fun dfs_node :: "nat \<Rightarrow> graph \<Rightarrow> txn_id_t \<Rightarrow> dfs_state \<Rightarrow> dfs_state \<times> dfs_result"
and dfs_edges :: "nat \<Rightarrow> graph \<Rightarrow> txn_id_t list \<Rightarrow> dfs_state \<Rightarrow> dfs_state \<times> dfs_result" where
  "dfs_node 0 g node s = (s, OutOfFuel)"
| "dfs_node (Suc k) g node (color, path) =
     (case dfs_edges k g (edges_of g node) (color(node := 1), path @ [node]) of
        ((color', path'), NoCycle) \<Rightarrow> ((color'(node := 2), butlast path'), NoCycle)
      | found \<Rightarrow> found)"
| "dfs_edges k g [] s = (s, NoCycle)"
| "dfs_edges k g (next # rest) (color, path) =
     (case (if color next = 0 then dfs_node k g next (color, path) else ((color, path), NoCycle)) of
        ((color', path'), NoCycle) \<Rightarrow>
          if color' next = 1
          then ((color', path'), Cycle (max_element (dropWhile (\<lambda>n. n \<noteq> next) path')))
          else dfs_edges k g rest (color', path')
      | found \<Rightarrow> found)"

fun dfs_roots :: "nat \<Rightarrow> graph \<Rightarrow> txn_id_t list \<Rightarrow> dfs_state \<Rightarrow> dfs_result" where
  "dfs_roots k g [] s = NoCycle"
| "dfs_roots k g (node # rest) s =
     (if fst s node = 0 then
        (case dfs_node k g node s of (s', NoCycle) \<Rightarrow> dfs_roots k g rest s' | (s', found) \<Rightarrow> found)
      else dfs_roots k g rest s)"

abbreviation chain :: "graph \<Rightarrow> txn_id_t list \<Rightarrow> bool" where
  "chain g p \<equiv> successively (\<lambda>a b. (a, b) \<in> graph_rel g) p"

definition black_ok :: "graph \<Rightarrow> (txn_id_t \<Rightarrow> nat) \<Rightarrow> bool" where
  "black_ok g c \<longleftrightarrow>
     (\<forall>x. c x = 2 \<longrightarrow> (\<forall>y. (x, y) \<in> graph_rel g \<longrightarrow> c y = 2) \<and> (x, x) \<notin> (graph_rel g)\<^sup>+)"

definition dfs_ok :: "graph \<Rightarrow> dfs_state \<Rightarrow> bool" where
  "dfs_ok g s \<longleftrightarrow>
     distinct (snd s) \<and> chain g (snd s) \<and> (\<forall>x. fst s x = 1 \<longleftrightarrow> x \<in> set (snd s)) \<and>
     (\<forall>x. fst s x \<le> 2) \<and> black_ok g (fst s)"

definition cycle_in :: "graph \<Rightarrow> txn_id_t list \<Rightarrow> bool" where
  "cycle_in g p \<longleftrightarrow> p \<noteq> [] \<and> distinct p \<and> chain g p \<and> (last p, hd p) \<in> graph_rel g"

text \<open>The colours of \<open>s'\<close> extend those of \<open>s\<close>: the path is the same and black stays black.\<close>

definition grows :: "dfs_state \<Rightarrow> dfs_state \<Rightarrow> bool" where
  "grows s s' \<longleftrightarrow> snd s' = snd s \<and> (\<forall>x. fst s x \<noteq> 0 \<longrightarrow> fst s' x = fst s x)"

lemma grows_refl [simp]: "grows s s"
  by (simp add: grows_def)

lemma grows_trans: "grows s s' \<Longrightarrow> grows s' s'' \<Longrightarrow> grows s s''"
  by (auto simp: grows_def)

lemma max_element_Max: "xs \<noteq> [] \<Longrightarrow> max_element xs = Max (set xs)"
  by (cases xs) (simp_all only: max_element_def list.sel Max.set_eq_fold simp_thms)

lemma black_closed_trancl:
  assumes "black_ok g c" and "(x, y) \<in> (graph_rel g)\<^sup>+" and "c x = 2"
  shows "c y = 2"
  using assms(2,3,1) by (induction rule: trancl_induct) (auto simp: black_ok_def)

lemma black_ok_step:
  assumes "black_ok g c" and "c n \<noteq> 2" and "\<And>y. (n, y) \<in> graph_rel g \<Longrightarrow> c y = 2"
  shows "black_ok g (c(n := 2))"
proof -
  have "(n, n) \<notin> (graph_rel g)\<^sup>+"
  proof
    assume "(n, n) \<in> (graph_rel g)\<^sup>+"
    then obtain y where "(n, y) \<in> graph_rel g" "(y, n) \<in> (graph_rel g)\<^sup>*"
      by (meson tranclD)
    with assms show False
      using black_closed_trancl[OF assms(1), of y n] by (metis rtranclD)
  qed
  with assms show ?thesis by (auto simp: black_ok_def)
qed

lemma cycle_from_path:
  assumes "distinct p" "chain g p" "next \<in> set p" "(last p, next) \<in> graph_rel g"
  shows "cycle_in g (dropWhile (\<lambda>n. n \<noteq> next) p)"
proof -
  obtain xs ys where p: "p = xs @ next # ys" "next \<notin> set xs"
    using split_list_first[OF assms(3)] by blast
  then have "dropWhile (\<lambda>n. n \<noteq> next) p = next # ys" by (simp only: p(1), subst dropWhile_append2) auto
  with assms p show ?thesis by (simp add: cycle_in_def successively_append_iff)
qed

lemma finish_node:
  assumes ok: "dfs_ok g s2" and gr: "grows (color(node := 1), path @ [node]) s2"
    and b: "\<And>y. (node, y) \<in> graph_rel g \<Longrightarrow> fst s2 y = 2"
    and white: "color node = 0" "node \<notin> set path"
  shows "dfs_ok g ((fst s2)(node := 2), butlast (snd s2)) \<and> grows (color, path) ((fst s2)(node := 2), butlast (snd s2))"
proof -
  have s2: "fst s2 node = 1" "snd s2 = path @ [node]" using gr by (auto simp: grows_def)
  have "black_ok g ((fst s2)(node := 2))"
    using black_ok_step[of g "fst s2" node] ok b s2(1) by (simp add: dfs_ok_def)
  then have "dfs_ok g ((fst s2)(node := 2), butlast (snd s2))"
    using ok s2 white(2) by (auto simp: dfs_ok_def successively_append_iff)
  moreover have "fst s2 x = color x" if "x \<noteq> node" "color x \<noteq> 0" for x
    using gr that by (auto simp: grows_def split: if_splits)
  ultimately show ?thesis using s2(2) white(1) by (simp add: grows_def)
qed

lemma dfs_sound:
  shows "dfs_node k g node s = (s', r) \<Longrightarrow> dfs_ok g s \<Longrightarrow> fst s node = 0 \<Longrightarrow>
      (snd s \<noteq> [] \<longrightarrow> (last (snd s), node) \<in> graph_rel g) \<Longrightarrow>
      (r = NoCycle \<longrightarrow> dfs_ok g s' \<and> grows s s' \<and> fst s' node = 2) \<and>
      (\<forall>v. r = Cycle v \<longrightarrow> (\<exists>p. cycle_in g p \<and> v = Max (set p)))"
    and "dfs_edges k g es s = (s', r) \<Longrightarrow> dfs_ok g s \<Longrightarrow> snd s \<noteq> [] \<Longrightarrow>
      (\<And>m. m \<in> set es \<Longrightarrow> (last (snd s), m) \<in> graph_rel g) \<Longrightarrow>
      (r = NoCycle \<longrightarrow> dfs_ok g s' \<and> grows s s' \<and> (\<forall>m \<in> set es. fst s' m = 2)) \<and>
      (\<forall>v. r = Cycle v \<longrightarrow> (\<exists>p. cycle_in g p \<and> v = Max (set p)))"
proof (induction k g node s and k g es s arbitrary: s' r and s' r rule: dfs_node_dfs_edges.induct)
  case (2 k g node color path)
  let ?s1 = "(color(node := 1), path @ [node])"
  obtain s2 r2 where v: "dfs_edges k g (edges_of g node) ?s1 = (s2, r2)" by fastforce
  have "node \<notin> set path" using "2.prems"(2,3) unfolding dfs_ok_def by (metis fst_conv snd_conv zero_neq_one)
  have "dfs_ok g ?s1"
    using "2.prems" \<open>node \<notin> set path\<close>
    by (auto simp: dfs_ok_def black_ok_def successively_append_iff)
  note IH = "2.IH"[OF v this]
  have IH: "(r2 = NoCycle \<longrightarrow> dfs_ok g s2 \<and> grows ?s1 s2 \<and> (\<forall>m \<in> set (edges_of g node). fst s2 m = 2)) \<and>
      (\<forall>v. r2 = Cycle v \<longrightarrow> (\<exists>p. cycle_in g p \<and> v = Max (set p)))"
    by (rule IH) (simp_all add: graph_rel_def)
  show ?case
  proof (cases r2)
    case NoCycle
    with IH have "dfs_ok g s2" "grows ?s1 s2" "\<And>y. (node, y) \<in> graph_rel g \<Longrightarrow> fst s2 y = 2"
      by (auto simp: graph_rel_def)
    from finish_node[OF this] "2.prems"(1,3) \<open>node \<notin> set path\<close> v NoCycle
    show ?thesis by (cases s2) auto
  qed (use IH v "2.prems"(1) in auto)
next
  case (4 k g nxt rest color path)
  show ?case
  proof (cases "color nxt = 0")
    case False
    show ?thesis
    proof (cases "color nxt = 1")
      case True
      then have "nxt \<in> set path" using "4.prems"(2) by (simp add: dfs_ok_def)
      then have cyc: "cycle_in g (dropWhile (\<lambda>n. n \<noteq> nxt) path)"
        using "4.prems"(2,4) by (intro cycle_from_path) (auto simp: dfs_ok_def)
      then have "max_element (dropWhile (\<lambda>n. n \<noteq> nxt) path) = Max (set (dropWhile (\<lambda>n. n \<noteq> nxt) path))"
        by (intro max_element_Max) (simp add: cycle_in_def)
      with 4(3) True have "r = Cycle (Max (set (dropWhile (\<lambda>n. n \<noteq> nxt) path)))" by auto
      with cyc show ?thesis by blast
    next
      case other: False
      have two: "color nxt = 2"
        using "4.prems"(2) False other unfolding dfs_ok_def
        by (metis One_nat_def fst_conv le_SucE le_zero_eq numeral_2_eq_2)
      have rest: "dfs_edges k g rest (color, path) = (s', r)"
        using "4.prems"(1) False other by simp
      have "fst s' nxt = 2" if "grows (color, path) s'" using that two by (auto simp: grows_def)
      moreover have "(r = NoCycle \<longrightarrow> dfs_ok g s' \<and> grows (color, path) s' \<and> (\<forall>m \<in> set rest. fst s' m = 2)) \<and>
          (\<forall>v. r = Cycle v \<longrightarrow> (\<exists>p. cycle_in g p \<and> v = Max (set p)))"
        using False other "4.prems" by (intro "4.IH"(2)[OF _ _ _ _ rest]) auto
      ultimately show ?thesis by auto
    qed
  next
    case True
    obtain s1 r1 where v: "dfs_node k g nxt (color, path) = (s1, r1)" by fastforce
    have 1: "(r1 = NoCycle \<longrightarrow> dfs_ok g s1 \<and> grows (color, path) s1 \<and> fst s1 nxt = 2) \<and>
        (\<forall>v. r1 = Cycle v \<longrightarrow> (\<exists>p. cycle_in g p \<and> v = Max (set p)))"
      using "4.prems"(2-4) by (intro "4.IH"(1)[OF True v]) (auto simp: True)
    show ?thesis
    proof (cases r1)
      case NoCycle
      with 1 have s1: "dfs_ok g s1" "grows (color, path) s1" "fst s1 nxt = 2" by auto
      have rest: "dfs_edges k g rest s1 = (s', r)"
        using "4.prems"(1) True v NoCycle s1(3) by (cases s1) simp
      have "(r = NoCycle \<longrightarrow> dfs_ok g s' \<and> grows s1 s' \<and> (\<forall>m \<in> set rest. fst s' m = 2)) \<and>
          (\<forall>v. r = Cycle v \<longrightarrow> (\<exists>p. cycle_in g p \<and> v = Max (set p)))"
        using s1 NoCycle True v "4.prems"(3,4) rest
        by (intro "4.IH"(2)[of s1 r1 "fst s1" "snd s1", unfolded prod.collapse]) (auto simp: grows_def)
      moreover have "fst s' nxt = 2" if "grows s1 s'" using that s1(3) by (auto simp: grows_def)
      ultimately show ?thesis using s1(2) grows_trans by auto
    qed (use 1 v "4.prems"(1) True in auto)
  qed
qed auto

subsection \<open>Enough fuel\<close>

definition whites :: "txn_id_t set \<Rightarrow> (txn_id_t \<Rightarrow> nat) \<Rightarrow> nat" where
  "whites N c = card {x \<in> N. c x = 0}"

lemma whites_mono:
  "finite N \<Longrightarrow> (\<And>x. c x \<noteq> 0 \<Longrightarrow> c' x \<noteq> 0) \<Longrightarrow> whites N c' \<le> whites N c"
  unfolding whites_def by (rule card_mono) (auto dest: gr0_implies_Suc, metis neq0_conv)

lemma whites_gray:
  assumes "finite N" "n \<in> N" "c n = 0"
  shows "Suc (whites N (c(n := 1))) = whites N c"
proof -
  have "{x \<in> N. (c(n := 1)) x = 0} = {x \<in> N. c x = 0} - {n}" by auto
  moreover have "Suc (card ({x \<in> N. c x = 0} - {n})) = card {x \<in> N. c x = 0}"
    by (rule card_Suc_Diff1) (use assms in simp_all)
  ultimately show ?thesis by (simp only: whites_def)
qed

lemma dfs_fuel:
  assumes N: "finite N"
  shows "dfs_node k g node s = (s', r) \<Longrightarrow> graph_rel g \<subseteq> UNIV \<times> N \<Longrightarrow> node \<in> N \<Longrightarrow> fst s node = 0 \<Longrightarrow> whites N (fst s) \<le> k \<Longrightarrow>
      r \<notin> {OutOfFuel, Invalidated} \<and> (\<forall>x. fst s x \<noteq> 0 \<longrightarrow> fst s' x \<noteq> 0)"
    and "dfs_edges k g es s = (s', r) \<Longrightarrow> graph_rel g \<subseteq> UNIV \<times> N \<Longrightarrow> set es \<subseteq> N \<Longrightarrow> whites N (fst s) \<le> k \<Longrightarrow>
      r \<notin> {OutOfFuel, Invalidated} \<and> (\<forall>x. fst s x \<noteq> 0 \<longrightarrow> fst s' x \<noteq> 0)"
proof (induction k g node s and k g es s arbitrary: s' r and s' r rule: dfs_node_dfs_edges.induct)
  case (1 g node s)
  then have "whites N (fst s) \<noteq> 0" using N by (auto simp: whites_def)
  with 1 show ?case by simp
next
  case (2 k g node color path)
  let ?s1 = "(color(node := 1), path @ [node])"
  obtain s2 r2 where v: "dfs_edges k g (edges_of g node) ?s1 = (s2, r2)" by fastforce
  have IH: "r2 \<notin> {OutOfFuel, Invalidated} \<and> (\<forall>x. fst ?s1 x \<noteq> 0 \<longrightarrow> fst s2 x \<noteq> 0)"
  proof (rule "2.IH"[OF v])
    show "set (edges_of g node) \<subseteq> N" using "2.prems"(2) unfolding graph_rel_def by blast
    show "graph_rel g \<subseteq> UNIV \<times> N" by (rule "2.prems"(2))
    show "whites N (fst ?s1) \<le> k"
      using whites_gray[OF N "2.prems"(3), of color] "2.prems"(4,5) by simp
  qed
  then show ?case
    using v "2.prems"(1) by (cases r2; cases s2) (auto split: if_splits)
next
  case (4 k g nxt rest color path)
  obtain s1 r1 where v: "(if color nxt = 0 then dfs_node k g nxt (color, path) else ((color, path), NoCycle)) = (s1, r1)"
    by fastforce
  have 1: "r1 \<notin> {OutOfFuel, Invalidated} \<and> (\<forall>x. color x \<noteq> 0 \<longrightarrow> fst s1 x \<noteq> 0)"
  proof (cases "color nxt = 0")
    case True
    with v "4.prems"(2,3,4) show ?thesis
      using "4.IH"(1)[OF True, of s1 r1] by simp
  qed (use v in auto)
  show ?case
  proof (cases "r1 = NoCycle \<and> fst s1 nxt \<noteq> 1")
    case True
    have "whites N (fst s1) \<le> k"
      using whites_mono[OF N, of color "fst s1"] 1 "4.prems"(4) by auto
    moreover have "dfs_edges k g rest s1 = (s', r)"
      using "4.prems"(1) v True by (cases s1) simp
    ultimately have "r \<notin> {OutOfFuel, Invalidated} \<and> (\<forall>x. fst s1 x \<noteq> 0 \<longrightarrow> fst s' x \<noteq> 0)"
      using "4.IH"(2)[of s1 r1 "fst s1" "snd s1" s' r, unfolded prod.collapse] v True "4.prems"(2,3) by simp
    with 1 show ?thesis by simp
  next
    case False
    with "4.prems"(1) v 1 show ?thesis by (cases s1; cases r1) (auto split: if_splits)
  qed
qed auto

text \<open>The whole search: all roots end up black, or a cycle is found.\<close>

lemma dfs_roots_result:
  assumes N: "finite N" "\<And>a b. (a, b) \<in> graph_rel g \<Longrightarrow> b \<in> N"
  shows "dfs_ok g s \<Longrightarrow> snd s = [] \<Longrightarrow> set nodes \<subseteq> N \<Longrightarrow> whites N (fst s) \<le> k \<Longrightarrow>
    (\<exists>p. cycle_in g p \<and> dfs_roots k g nodes s = Cycle (Max (set p))) \<or>
    (dfs_roots k g nodes s = NoCycle \<and>
      (\<exists>s'. dfs_ok g s' \<and> snd s' = [] \<and> grows s s' \<and> (\<forall>n \<in> set nodes. fst s' n = 2)))"
proof (induction nodes arbitrary: s)
  case Nil
  then show ?case by (intro disjI2 conjI exI[of _ s]) simp_all
next
  case (Cons n nodes)
  have two: "fst s n = 2" if "fst s n \<noteq> 0"
  proof -
    from Cons.prems(1,2) have "fst s n \<noteq> 1" "fst s n \<le> 2" by (auto simp: dfs_ok_def)
    with that show ?thesis by linarith
  qed
  show ?case
  proof (cases "fst s n = 0")
    case False
    with Cons.IH[of s] Cons.prems two show ?thesis by (auto simp: grows_def)
  next
    case True
    obtain s1 r1 where v: "dfs_node k g n s = (s1, r1)" by fastforce
    have sound: "(r1 = NoCycle \<longrightarrow> dfs_ok g s1 \<and> grows s s1 \<and> fst s1 n = 2) \<and>
        (\<forall>v. r1 = Cycle v \<longrightarrow> (\<exists>p. cycle_in g p \<and> v = Max (set p)))"
      by (rule dfs_sound(1)[OF v Cons.prems(1) True]) (simp add: Cons.prems(2))
    have fuel: "r1 \<notin> {OutOfFuel, Invalidated} \<and> (\<forall>x. fst s x \<noteq> 0 \<longrightarrow> fst s1 x \<noteq> 0)"
      by (rule dfs_fuel(1)[OF N(1) v]) (use N(2) Cons.prems True in auto)
    show ?thesis
    proof (cases r1)
      case (Cycle x)
      with sound v True show ?thesis by auto
    next
      case NoCycle
      with sound have s1: "dfs_ok g s1" "grows s s1" "fst s1 n = 2" by auto
      have "whites N (fst s1) \<le> k"
        using whites_mono[OF N(1), of "fst s" "fst s1"] fuel Cons.prems(4) by auto
      with Cons.IH[OF s1(1)] s1(2) Cons.prems(2,3)
      have IH: "(\<exists>p. cycle_in g p \<and> dfs_roots k g nodes s1 = Cycle (Max (set p))) \<or>
        (dfs_roots k g nodes s1 = NoCycle \<and>
          (\<exists>s'. dfs_ok g s' \<and> snd s' = [] \<and> grows s1 s' \<and> (\<forall>n \<in> set nodes. fst s' n = 2)))"
        by (simp add: grows_def)
      have e: "dfs_roots k g (n # nodes) s = dfs_roots k g nodes s1"
        by (simp add: True v NoCycle)
      have "fst s' n = 2" if "grows s1 s'" for s' using that s1(3) by (auto simp: grows_def)
      with IH show ?thesis unfolding e using grows_trans[OF s1(2)] by auto
    qed (use fuel in simp_all)
  qed
qed

lemma graph_rel_nodes:
  assumes "(a, b) \<in> graph_rel g"
  shows "a \<in> set (map fst g)" "b \<in> set (graph_nodes g)"
proof -
  from assms obtain es where "map_of g a = Some es" "b \<in> set es"
    by (cases "map_of g a") (auto simp: graph_rel_def edges_of_def)
  then have "(a, es) \<in> set g" "b \<in> set es" by (auto dest: map_of_SomeD)
  then show "a \<in> set (map fst g)" "b \<in> set (graph_nodes g)"
    by (force simp: graph_nodes_def)+
qed

lemma cycle_in_trancl: "cycle_in g p \<Longrightarrow> (hd p, hd p) \<in> (graph_rel g)\<^sup>+"
proof -
  have walk: "chain g (x # xs) \<Longrightarrow> (x, last (x # xs)) \<in> (graph_rel g)\<^sup>*" for x xs
    by (induction xs arbitrary: x) (auto intro: converse_rtrancl_into_rtrancl)
  assume "cycle_in g p"
  then show ?thesis
    using walk[of "hd p" "tl p"] by (simp add: cycle_in_def) (meson rtrancl_into_trancl1)
qed

lemma search_result:
  fixes g
  defines "res \<equiv> dfs_roots (length (graph_nodes g)) g (map fst g) (\<lambda>_. 0, [])"
  shows "(\<exists>p. cycle_in g p \<and> res = Cycle (Max (set p))) \<or> (res = NoCycle \<and> acyclic (graph_rel g))"
proof -
  let ?s = "(\<lambda>_. 0, []) :: dfs_state"
  have ok: "dfs_ok g ?s" by (simp add: dfs_ok_def black_ok_def)
  have w: "whites (set (graph_nodes g)) (fst ?s) \<le> length (graph_nodes g)"
    by (simp add: whites_def card_length)
  have keys: "set (map fst g) \<subseteq> set (graph_nodes g)" by (auto simp: graph_nodes_def)
  have "acyclic (graph_rel g)" if "dfs_ok g s'" "\<forall>n \<in> set (map fst g). fst s' n = 2" for s'
  proof (rule acyclicI, intro allI notI)
    fix x assume x: "(x, x) \<in> (graph_rel g)\<^sup>+"
    then obtain y where "(x, y) \<in> graph_rel g" by (meson tranclD)
    then have "fst s' x = 2" using graph_rel_nodes(1) that(2) by blast
    with that(1) x show False by (auto simp: dfs_ok_def black_ok_def)
  qed
  moreover have "(\<exists>p. cycle_in g p \<and> res = Cycle (Max (set p))) \<or>
      (res = NoCycle \<and> (\<exists>s'. dfs_ok g s' \<and> snd s' = [] \<and> grows ?s s' \<and> (\<forall>n \<in> set (map fst g). fst s' n = 2)))"
    unfolding res_def
    by (rule dfs_roots_result[OF _ _ ok _ keys w]) (use graph_rel_nodes(2) in auto)
  ultimately show ?thesis by blast
qed

subsection \<open>The entries added by the search\<close>

text \<open>
  \<open>m\<close> is \<open>g\<close> with entries for further nodes of \<open>N\<close>, none of them with successors; its hash
  table has been rebuilt only if one of these insertions does so.
\<close>

definition extends :: "(nat \<Rightarrow> bool) \<Rightarrow> txn_id_t set \<Rightarrow> graph \<Rightarrow> node_map \<Rightarrow> bool" where
  "extends rehash N g m \<longleftrightarrow>
     (\<exists>xs. fst m = g @ map (\<lambda>t. (t, [])) xs) \<and> distinct (map fst (fst m)) \<and> set (map fst (fst m)) \<subseteq> N \<and>
     (snd m \<longrightarrow> (\<exists>n. length g < n \<and> n \<le> card N \<and> rehash n))"

lemma edges_of_append:
  assumes "\<And>es. (t, es) \<in> set g' \<Longrightarrow> es = []"
  shows "edges_of (g @ g') t = edges_of g t"
proof -
  have "map_of g' t = Some es \<Longrightarrow> es = []" for es using assms by (blast dest: map_of_SomeD)
  then show ?thesis by (simp add: edges_of_def map_add_def split: option.split)
qed

lemma edges_of_extends: "extends rehash N g m \<Longrightarrow> edges_of (fst m) t = edges_of g t"
  unfolding extends_def by (elim conjE exE) (simp only:, rule edges_of_append, auto)

lemma extends_subscript:
  assumes "extends rehash N g m" and "node \<in> N" and "finite N"
  shows "extends rehash N g (subscript rehash node m)"
proof (cases "node \<in> set (map fst (fst m))")
  case False
  from assms(1) obtain xs where xs: "fst m = g @ map (\<lambda>t. (t, [])) xs" by (auto simp: extends_def)
  have "distinct (map fst (fst m @ [(node, [])]))" "set (map fst (fst m @ [(node, [])])) \<subseteq> N"
    using assms(1,2) False by (auto simp: extends_def)
  then have "length (fst m @ [(node, [])]) \<le> card N"
    using assms(3) by (metis card_mono distinct_card length_map)
  then have "\<exists>n. length g < n \<and> n \<le> card N \<and> rehash n" if "rehash (Suc (length (fst m)))"
    using that by (intro exI[of _ "Suc (length (fst m))"]) (simp add: xs)
  moreover have "\<exists>ys. fst m @ [(node, [])] = g @ map (\<lambda>t. (t, [])) ys"
    by (rule exI[of _ "xs @ [node]"]) (simp add: xs)
  ultimately show ?thesis
    using assms(1,2) False by (auto simp: extends_def subscript_def)
qed (use assms(1) in \<open>simp add: subscript_def\<close>)

lemma visit_search:
  assumes N: "finite N" "graph_rel g \<subseteq> UNIV \<times> N"
  shows "dfs_node k g' node s = (s', r) \<Longrightarrow> g' = g \<Longrightarrow> node \<in> N \<Longrightarrow> extends rehash N g m \<Longrightarrow>
      \<exists>m'. visit rehash k m node s = (m', s', r) \<and> extends rehash N g m'"
    and "dfs_edges k g' es s = (s', r) \<Longrightarrow> g' = g \<Longrightarrow> set es \<subseteq> N \<Longrightarrow> extends rehash N g m \<Longrightarrow>
      \<exists>m'. visit_edges rehash k m es s = (m', s', r) \<and> extends rehash N g m'"
proof (induction k g' node s and k g' es s arbitrary: s' r m and s' r m rule: dfs_node_dfs_edges.induct)
  case (2 k g' node color path)
  let ?s1 = "(color(node := 1), path @ [node])"
  obtain s2 r2 where v: "dfs_edges k g (edges_of g node) ?s1 = (s2, r2)" by fastforce
  have e: "extends rehash N g (subscript rehash node m)"
    by (rule extends_subscript[OF "2.prems"(4,3) N(1)])
  have "set (edges_of g node) \<subseteq> N" using N(2) by (auto simp: graph_rel_def)
  with "2.IH" v "2.prems"(2) e obtain m' where
    "visit_edges rehash k (subscript rehash node m) (edges_of g node) ?s1 = (m', s2, r2)" "extends rehash N g m'"
    by blast
  with v "2.prems"(1,2) show ?case
    by (cases r2; cases s2; cases m') (auto simp: edges_of_extends[OF e])
next
  case (4 k g' nxt rest color path)
  let ?first = "if color nxt = 0 then dfs_node k g nxt (color, path) else ((color, path), NoCycle)"
  obtain s1 r1 where v: "?first = (s1, r1)" by fastforce
  have "\<exists>m1. (if color nxt = 0 then visit rehash k m nxt (color, path) else (m, (color, path), NoCycle)) = (m1, s1, r1) \<and>
      extends rehash N g m1"
    using v "4.IH"(1)[of s1 r1 m] "4.prems"(2-4) by (cases "color nxt = 0") auto
  then obtain m1 where m1: "extends rehash N g m1"
    "(if color nxt = 0 then visit rehash k m nxt (color, path) else (m, (color, path), NoCycle)) = (m1, s1, r1)" by blast
  show ?case
  proof (cases "r1 = NoCycle \<and> fst s1 nxt \<noteq> 1")
    case True
    then have "dfs_edges k g rest s1 = (s', r)"
      using "4.prems"(1,2) v by (cases s1) simp
    then have "\<exists>m'. visit_edges rehash k m1 rest s1 = (m', s', r) \<and> extends rehash N g m'"
      using "4.IH"(2)[of s1 r1 "fst s1" "snd s1" s' r m1, unfolded prod.collapse] True v[symmetric] m1(1) "4.prems"(2,3) by simp
    with True m1(2) show ?thesis by (cases s1) simp
  next
    case False
    with "4.prems"(1,2) v m1 show ?thesis by (cases s1; cases r1; cases m1) (auto split: if_splits)
  qed
qed auto

lemma visit_roots_search:
  assumes N: "finite N" "graph_rel g \<subseteq> UNIV \<times> N"
  shows "set nodes \<subseteq> N \<Longrightarrow> extends rehash N g m \<Longrightarrow>
    visit_roots rehash k m nodes s = dfs_roots k g nodes s \<or>
    visit_roots rehash k m nodes s = Invalidated \<and> (\<exists>n. length g < n \<and> n \<le> card N \<and> rehash n)"
proof (induction nodes arbitrary: m s)
  case (Cons n nodes)
  obtain s1 r1 where v: "dfs_node k g n s = (s1, r1)" by fastforce
  from visit_search(1)[OF N v refl _ Cons.prems(2)] Cons.prems(1) obtain m1 where
    m1: "visit rehash k m n s = (m1, s1, r1)" "extends rehash N g m1" by auto
  show ?case
  proof (cases "snd m1 \<and> fst s n = 0 \<and> r1 = NoCycle")
    case True
    with m1 show ?thesis by (auto simp: extends_def)
  next
    case False
    with Cons.IH[of m] Cons.IH[OF _ m1(2)] Cons.prems m1(1) v show ?thesis by (cases r1) auto
  qed
qed simp

lemma wait_graph_keys: "distinct (map fst (wait_graph lm))"
proof -
  have "distinct (map fst g) \<Longrightarrow> distinct (map fst (queue_edges lm all i rs g))" for all i rs g
    by (induction lm all i rs g rule: queue_edges.induct) (auto simp: distinct_update)
  then have fold: "distinct (map fst g) \<Longrightarrow>
      distinct (map fst (foldl (\<lambda>g q. queue_edges lm (snd q) 0 (snd q) g) g qs))" for g qs
    by (induction qs arbitrary: g) auto
  show ?thesis unfolding wait_graph_def by (rule fold) simp
qed

definition may_invalidate :: "(nat \<Rightarrow> bool) \<Rightarrow> LockManager \<Rightarrow> bool" where
  "may_invalidate rehash lm \<longleftrightarrow>
     (\<exists>n. length (wait_graph lm) < n \<and> n \<le> card (set (graph_nodes (wait_graph lm))) \<and> rehash n)"

lemma victim_cases:
  "(\<exists>p. cycle_in (wait_graph lm) p \<and> FindDeadlockVictimUnlocked rehash lm = Some (Some (Max (set p)))) \<or>
   (FindDeadlockVictimUnlocked rehash lm = Some None \<and> acyclic (waits_for lm)) \<or>
   (FindDeadlockVictimUnlocked rehash lm = None \<and> may_invalidate rehash lm)"
proof -
  let ?g = "wait_graph lm"
  let ?N = "set (graph_nodes ?g)"
  have keys: "set (map fst ?g) \<subseteq> ?N" by (auto simp: graph_nodes_def)
  then have "extends rehash ?N ?g (?g, False)" by (simp add: extends_def wait_graph_keys)
  then have "visit_roots rehash (length (graph_nodes ?g)) (?g, False) (map fst ?g) (\<lambda>_. 0, []) =
        dfs_roots (length (graph_nodes ?g)) ?g (map fst ?g) (\<lambda>_. 0, []) \<or>
      visit_roots rehash (length (graph_nodes ?g)) (?g, False) (map fst ?g) (\<lambda>_. 0, []) = Invalidated \<and>
        may_invalidate rehash lm"
    unfolding may_invalidate_def
    by (intro visit_roots_search[OF _ _ keys]) (use graph_rel_nodes(2)[of _ _ ?g] in auto)
  with search_result[of ?g] show ?thesis
    by (auto simp: FindDeadlockVictimUnlocked_def Let_def wait_graph_rel)
qed

subsection \<open>Waiting transactions are registered\<close>

definition reg_ok :: "LockManager \<Rightarrow> bool" where
  "reg_ok lm \<longleftrightarrow> (\<forall>l. \<forall>r \<in> set (queue_of lm l). IsWaiting r \<longrightarrow> req_txn r \<in> set (registered lm))"

lemma registered_frame [simp]:
  "registered (EmitEventUnlocked a l m t lm) = registered lm"
  "registered (upd_txn t f lm) = registered lm"
  "registered (set_queue l rs lm) = registered lm"
  "registered (set_or_drop_queue l rs lm) = registered lm"
  "set (registered (register_txn t lm)) = insert t (set (registered lm))"
  by (simp_all add: EmitEventUnlocked_def upd_txn_def set_queue_def set_or_drop_queue_def register_txn_def)

lemma set_update_request:
  "r \<in> set (update_request t f rs) \<Longrightarrow> r \<in> set rs \<or> (\<exists>r0 \<in> set rs. r = f r0 \<and> req_txn r0 = t)"
  by (induction rs) (auto split: if_splits)

lemma reg_ok_by:
  assumes "reg_ok lm" and "set (registered lm) \<subseteq> set (registered lm')"
    and "\<And>l r. r \<in> set (queue_of lm' l) \<Longrightarrow> IsWaiting r \<Longrightarrow>
      req_txn r \<in> set (registered lm') \<or> r \<in> set (queue_of lm l)"
  shows "reg_ok lm'"
  using assms unfolding reg_ok_def by blast

lemma loop_body_reg:
  assumes "reg_ok lm"
  shows "reg_ok (fst (lock_loop_body t l nm w lm))"
proof (rule reg_ok_by[OF assms])
  show "set (registered lm) \<subseteq> set (registered (fst (lock_loop_body t l nm w lm)))"
    by (auto simp: lock_loop_body_def Let_def split: option.split)
next
  fix l' r
  assume "r \<in> set (queue_of (fst (lock_loop_body t l nm w lm)) l')" "IsWaiting r"
  then show "req_txn r \<in> set (registered (fst (lock_loop_body t l nm w lm))) \<or> r \<in> set (queue_of lm l')"
    using set_erase_subset[of t "queue_of lm l"] set_update_request[of r t grant_request "queue_of lm l"]
    by (auto simp: lock_loop_body_def Let_def IsWaiting_def split: option.splits if_splits)
qed

lemma section_reg:
  assumes "reg_ok lm" and "t \<in> set (registered lm1)" "set (registered lm) \<subseteq> set (registered lm1)"
    and "\<And>l' r. r \<in> set (queue_of lm1 l') \<Longrightarrow> r \<in> set (queue_of lm l') \<or> req_txn r = t"
  shows "reg_ok lm1" and "reg_ok (fst (lock_loop_body t l nm w lm1))"
proof -
  show "reg_ok lm1" by (rule reg_ok_by[OF assms(1,3)]) (use assms(2,4) in blast)
  then show "reg_ok (fst (lock_loop_body t l nm w lm1))" by (rule loop_body_reg)
qed

lemma sections_reg:
  assumes "reg_ok lm"
  shows "reg_ok (fst (table_section t l tmode lm))" "reg_ok (fst (page_section t l pmode lm))"
proof -
  have upd: "r \<in> set rs \<or> req_txn r = t"
    if "r \<in> set (update_request t f rs)" "\<And>r. req_txn (f r) = req_txn r" for r f rs
    using set_update_request[OF that(1)] that(2) by auto
  show "reg_ok (fst (table_section t l tmode lm))"
    by (auto simp: table_section_def Let_def split: option.split
        intro!: section_reg[OF assms, where t = t] dest!: upd split: if_splits)
  show "reg_ok (fst (page_section t l pmode lm))"
    by (auto simp: page_section_def Let_def split: option.split
        intro!: section_reg[OF assms, where t = t] dest!: upd split: if_splits)
qed

lemma Unlock_reg: "reg_ok lm \<Longrightarrow> reg_ok (fst (Unlock tp l lm))"
proof (rule reg_ok_by, assumption)
  show "set (registered lm) \<subseteq> set (registered (fst (Unlock tp l lm)))"
    by (auto simp: Unlock_def split: option.split)
next
  fix l' r
  have q: "map_of (queues_map lm) l = Some rs \<Longrightarrow> queue_of lm l = rs" for rs
    by (simp add: queue_of_def)
  assume "r \<in> set (queue_of (fst (Unlock tp l lm)) l')" "IsWaiting r"
  then show "req_txn r \<in> set (registered (fst (Unlock tp l lm))) \<or> r \<in> set (queue_of lm l')"
    using set_erase_subset set_update_request[of r _ cancel_request]
    by (fastforce simp: Unlock_def IsWaiting_def q split: option.splits if_splits)
qed

lemma UnlockAll_reg: "reg_ok lm \<Longrightarrow> keys_ok lm \<Longrightarrow> reg_ok (fst (UnlockAll tp lm))"
proof (cases tp)
  case (Some t)
  assume r: "reg_ok lm" and k: "keys_ok lm"
  have "registered (fst (UnlockAll (Some t) lm)) = removeAll t (registered lm)"
    using release_queues_frame(2)[of t "queues_map lm" lm]
    by (cases "release_queues t (queues_map lm) lm") (simp add: UnlockAll_def upd_txn_def)
  then have reg: "set (registered (fst (UnlockAll tp lm))) = set (registered lm) - {t}"
    by (simp add: Some)
  have q: "queue_of (fst (UnlockAll tp lm)) l = fst (release_in_queue t (queue_of lm l))" for l
    unfolding Some by (rule UnlockAll_queue[OF k])
  show ?thesis
    unfolding reg_ok_def
  proof (intro allI ballI impI)
    fix l x assume x: "x \<in> set (queue_of (fst (UnlockAll tp lm)) l)" and w: "IsWaiting x"
    from w have "\<not> cancelled x" by (simp add: IsWaiting_def)
    from x have "x \<in> set (fst (release_in_queue t (queue_of lm l)))" by (simp only: q)
    from set_kept[OF this] have "req_txn x \<noteq> t \<and> x \<in> set (queue_of lm l)"
      using \<open>\<not> cancelled x\<close> by (metis cancel_request_simps(4))
    with r w show "req_txn x \<in> set (registered (fst (UnlockAll tp lm)))"
      unfolding reg reg_ok_def by blast
  qed
qed (simp add: UnlockAll_def)

lemma reg_ok_same:
  "queues_map lm' = queues_map lm \<Longrightarrow> registered lm' = registered lm \<Longrightarrow> reg_ok lm \<Longrightarrow> reg_ok lm'"
  unfolding reg_ok_def queue_of_def by simp

lemma lm_reachable_reg: "lm_reachable lm h \<Longrightarrow> reg_ok lm"
proof (induction rule: lm_reachable.induct)
  case (lm_init store)
  then show ?case by (simp add: reg_ok_def initial_lock_manager_def queue_of_def)
next
  case (lm_run lm h lm')
  from lm_run.hyps(2) lm_run.IH lm_reachableD(1)[OF lm_run.hyps(1)] show ?case
    by cases (auto intro: sections_reg loop_body_reg Unlock_reg UnlockAll_reg reg_ok_same[of _ lm]
        simp: BeginEventCapture_def EndEventCapture_def)
qed

subsection \<open>Detection on reachable states\<close>

lemma waits_for_waiting:
  assumes "lm_reachable lm h" and "(t, u) \<in> waits_for lm"
  obtains l r i j where "r = queue_of lm l ! i" "waiting_at lm (queue_of lm l) i" "req_txn r = t"
    "find_request t (queue_of lm l) = Some r" "j < length (queue_of lm l)"
    "blocks_at r i j (queue_of lm l ! j)" "req_txn (queue_of lm l ! j) = u"
proof -
  from assms(2) obtain q where q: "q \<in> set (queues_map lm)" "blocked_in lm (snd q) t u"
    by (auto simp: waits_for_def)
  have e: "queue_of lm (fst q) = snd q"
  proof -
    from q(1) lm_reachableD(1)[OF assms(1)] have "map_of (queues_map lm) (fst q) = Some (snd q)"
      by (simp add: keys_ok_def)
    then show ?thesis by (simp add: queue_of_def)
  qed
  from q(2) obtain i j where i: "waiting_at lm (snd q) i" "req_txn (snd q ! i) = t" "j < length (snd q)"
      "blocks_at (snd q ! i) i j (snd q ! j)" "req_txn (snd q ! j) = u"
    by (auto simp: blocked_in_def)
  have "find_request t (snd q) = Some (snd q ! i)"
    using find_request_mem[of "snd q" "snd q ! i"] lm_reachableD(3)[OF assms(1), of "fst q"] i(1,2)
    by (simp add: e waiting_at_def)
  with i that[of "snd q ! i" "fst q" i j] show thesis by (simp add: e)
qed

lemma waits_for_usable:
  assumes "lm_reachable lm h" and "(t, u) \<in> waits_for lm"
  shows "usable lm t" "t \<in> set (registered lm)" "txn_store lm t \<noteq> None"
proof -
  from waits_for_waiting[OF assms] obtain l r i where
    r: "r = queue_of lm l ! i" "waiting_at lm (queue_of lm l) i" "req_txn r = t" by metis
  then show "usable lm t" by (simp add: waiting_at_def)
  then show "txn_store lm t \<noteq> None" by (auto simp: usable_def split: option.splits)
  from r lm_reachable_reg[OF assms(1)] show "t \<in> set (registered lm)"
    unfolding waiting_at_def reg_ok_def using nth_mem by blast
qed

lemma cycle_in_edges:
  assumes "cycle_in g p" and "t \<in> set p"
  shows "\<exists>u. (t, u) \<in> graph_rel g \<and> u \<in> set p"
proof -
  from assms(2) obtain xs ys where p: "p = xs @ t # ys" by (meson split_list)
  show ?thesis
  proof (cases ys)
    case Nil
    with assms(1) p show ?thesis by (intro exI[of _ "hd p"]) (metis cycle_in_def hd_in_set last_snoc)
  next
    case (Cons y zs)
    with assms(1) p show ?thesis by (auto simp: cycle_in_def successively_append_iff)
  qed
qed

lemma DetectDeadlocks_victim:
  assumes "lm_reachable lm h" and "cycle_in (wait_graph lm) p"
    and "FindDeadlockVictimUnlocked rehash lm = Some (Some (Max (set p)))"
  shows "DetectDeadlocks rehash lm = Some (upd_txn (Max (set p)) MarkFailed lm, [Max (set p)])"
proof -
  have "Max (set p) \<in> set p" using assms(2) by (simp add: cycle_in_def)
  from cycle_in_edges[OF assms(2) this] waits_for_usable[OF assms(1)]
  show ?thesis by (auto simp: DetectDeadlocks_def assms(3) wait_graph_rel)
qed

lemma DetectDeadlocks_cases:
  assumes "lm_reachable lm h"
  obtains (victim) p where "cycle_in (wait_graph lm) p"
      "DetectDeadlocks rehash lm = Some (upd_txn (Max (set p)) MarkFailed lm, [Max (set p)])"
    | (nothing) "DetectDeadlocks rehash lm = Some (lm, [])" "acyclic (waits_for lm)"
    | (undefined_behaviour) "DetectDeadlocks rehash lm = None" "may_invalidate rehash lm"
  using victim_cases[of lm rehash] DetectDeadlocks_victim[OF assms]
  by (auto simp: DetectDeadlocks_def)

text \<open>C23: Deadlock detection reports nothing exactly when the wait-for relation between the
  transactions is acyclic: the search terminates within its fuel, misses no cycle of the graph, and
  reports no victim without one. One case is excepted, and described: the search enters the
  transactions that are waited for but do not wait themselves into the map it iterates over, and
  when the library rebuilds its table for one of them the loop goes on with an invalid iterator,
  which is undefined behaviour (\<open>None\<close>); then \<open>n\<close>, the number of entries at that insertion, is
  larger than the number of waiting transactions.\<close>

theorem DetectDeadlocks_complete:
  assumes "lm_reachable lm h"
  shows "case DetectDeadlocks rehash lm of
      Some (lm', victims) \<Rightarrow> victims = [] \<longleftrightarrow> acyclic (waits_for lm)
    | None \<Rightarrow> \<exists>n. length (wait_graph lm) < n \<and> n \<le> card (set (graph_nodes (wait_graph lm))) \<and> rehash n"
  using assms
proof (cases rule: DetectDeadlocks_cases[where rehash = rehash])
  case (victim p)
  from cycle_in_trancl[OF victim(1)] have "\<not> acyclic (waits_for lm)"
    unfolding wait_graph_rel by (auto simp: acyclic_def)
  with victim(2) show ?thesis by simp
qed (simp_all add: may_invalidate_def)

text \<open>C24: A reported victim is real: it is the largest identifier on a cycle of the wait-for
  relation, a list of distinct transactions each of which waits for the next and the last for the
  first, all of them active and each with a waiting request in the queue of some lock, which, unless
  a cancelled request still stands in that queue, cannot be granted in the current state. Detection
  marks that victim as failed and changes no other transaction and no queue.\<close>

theorem DetectDeadlocks_sound:
  assumes "lm_reachable lm h" and "DetectDeadlocks rehash lm = Some (lm', v # vs)"
  shows "vs = [] \<and> (\<forall>l. queue_of lm' l = queue_of lm l) \<and>
    txn_store lm' = (txn_store lm)(v := map_option MarkFailed (txn_store lm v)) \<and>
    (\<exists>p. p \<noteq> [] \<and> distinct p \<and> successively (\<lambda>t u. (t, u) \<in> waits_for lm) p \<and>
      (last p, hd p) \<in> waits_for lm \<and> v \<in> set p \<and> v = Max (set p) \<and>
      (\<forall>t \<in> set p. \<exists>l r. find_request t (queue_of lm l) = Some r \<and> IsWaiting r \<and> usable lm t \<and>
           ((\<forall>other \<in> set (queue_of lm l). \<not> cancelled other) \<longrightarrow> \<not> CanGrant (queue_of lm l) r)))"
  using assms(1)
proof (cases rule: DetectDeadlocks_cases[where rehash = rehash])
  case (victim p)
  have v: "v = Max (set p)" "vs = []" "lm' = upd_txn v MarkFailed lm"
    using victim(2) assms(2) by auto
  have stuck: "\<exists>l r. find_request t (queue_of lm l) = Some r \<and> IsWaiting r \<and> usable lm t \<and>
      ((\<forall>other \<in> set (queue_of lm l). \<not> cancelled other) \<longrightarrow> \<not> CanGrant (queue_of lm l) r)"
    if "(t, u) \<in> waits_for lm" for t u
    using waits_for_waiting[OF assms(1) that]
  proof (cases)
    case (1 l r i j)
    let ?rs = "queue_of lm l"
    have "queue_ok (is_table_lock l) ?rs (h l)" by (rule lm_reachableD(2)[OF assms(1)])
    then have "\<not> CanGrant ?rs r" if "\<forall>other \<in> set ?rs. \<not> cancelled other"
      using blocked_not_grantable[of ?rs "is_table_lock l" i j] 1 that
      by (auto simp: queue_ok_def waiting_at_def)
    with 1 show ?thesis by (auto simp: waiting_at_def)
  qed
  have "p \<noteq> []" "distinct p" "successively (\<lambda>t u. (t, u) \<in> waits_for lm) p" "(last p, hd p) \<in> waits_for lm"
    "Max (set p) \<in> set p"
    using victim(1) by (auto simp: cycle_in_def wait_graph_rel)
  moreover have "\<forall>t \<in> set p. \<exists>l r. find_request t (queue_of lm l) = Some r \<and> IsWaiting r \<and> usable lm t \<and>
      ((\<forall>other \<in> set (queue_of lm l). \<not> cancelled other) \<longrightarrow> \<not> CanGrant (queue_of lm l) r)"
    using cycle_in_edges[OF victim(1)] stuck unfolding wait_graph_rel by blast
  moreover have "txn_store lm' = (txn_store lm)(v := map_option MarkFailed (txn_store lm v))"
    by (simp add: v(3) upd_txn_def)
  moreover have "queue_of lm' l = queue_of lm l" for l by (simp add: v(3))
  ultimately show ?thesis using v(1,2) by blast
qed (use assms(2) in simp_all)

subsection \<open>Two runs\<close>

text \<open>A deadlock over two pages: 1 and 2 hold pages 5 and 6 and ask for each other's.\<close>

definition cross1 :: LockManager where
  "cross1 = fst (page_section 1 (LockId_Page 5) L_X demo0)"

definition cross2 :: LockManager where
  "cross2 = fst (page_section 2 (LockId_Page 6) L_X cross1)"

definition cross3 :: LockManager where
  "cross3 = fst (page_section 1 (LockId_Page 6) L_X cross2)"

definition cross4 :: LockManager where
  "cross4 = fst (page_section 2 (LockId_Page 5) L_X cross3)"

text \<open>Transaction 1 holds IX on a table, 2 queues for S behind it, 3 holds a page and queues for
  IS behind 2, and 1 asks for the page.\<close>

definition fifo1 :: LockManager where
  "fifo1 = fst (table_section 1 (LockId_Table 7) T_IX demo0)"

definition fifo2 :: LockManager where
  "fifo2 = fst (page_section 3 (LockId_Page 5) L_X fifo1)"

definition fifo3 :: LockManager where
  "fifo3 = fst (table_section 2 (LockId_Table 7) T_S fifo2)"

definition fifo4 :: LockManager where
  "fifo4 = fst (table_section 3 (LockId_Table 7) T_IS fifo3)"

definition fifo5 :: LockManager where
  "fifo5 = fst (page_section 1 (LockId_Page 5) L_S fifo4)"

lemmas run_defs = cross1_def cross2_def cross3_def cross4_def fifo1_def fifo2_def fifo3_def fifo4_def fifo5_def
  demo0_def demo_store_def

abbreviation page_req :: "txn_id_t \<Rightarrow> LockMode \<Rightarrow> bool \<Rightarrow> LockRequest" where
  "page_req t m g \<equiv> \<lparr>req_txn = t, table_mode = False, table_lock_mode = T_IS, lock_mode = m,
     granted = g, upgrading = False, cancelled = False\<rparr>"

lemma cross_queues:
  "queues_map cross4 = [(LockId_Page 5, [page_req 1 L_X True, page_req 2 L_X False]),
     (LockId_Page 6, [page_req 2 L_X True, page_req 1 L_X False])]"
  by (simp add: run_defs lm_eval)

lemma fifo_queues:
  "queues_map fifo5 = [(LockId_Table 7, [demo_req 1 T_IX True False, demo_req 2 T_S False False, demo_req 3 T_IS False False]),
     (LockId_Page 5, [page_req 3 L_X True, page_req 1 L_S False])]"
  by (simp add: run_defs lm_eval)

lemma cross_usable: "usable cross4 1" "usable cross4 2"
  by (simp_all add: run_defs lm_eval)

lemma fifo_usable: "usable fifo5 1" "usable fifo5 2" "usable fifo5 3"
  by (simp_all add: run_defs lm_eval)

lemma cross_victim: "FindDeadlockVictimUnlocked rehash cross4 = Some (Some 2)"
  by (simp add: subscript_def FindDeadlockVictimUnlocked_def wait_graph_def cross_queues cross_usable IsWaiting_def
      edges_of_def RequestConflicts_def LockModesConflict_def graph_nodes_def max_element_def)

lemma fifo_victim: "FindDeadlockVictimUnlocked rehash fifo5 = Some None"
  by (simp add: subscript_def FindDeadlockVictimUnlocked_def wait_graph_def fifo_queues fifo_usable IsWaiting_def
      edges_of_def RequestConflicts_def LockModesConflict_def graph_nodes_def max_element_def)

lemma cross_reachable: "\<exists>h. lm_reachable cross4 h"
proof -
  have p: "\<not> is_table_lock (LockId_Page n)" for n
    by (simp add: is_table_lock_def LockId_Page_def LockId_default_def IsTableResource_def)
  have "\<exists>h. lm_reachable demo0 h" unfolding demo0_def by (blast intro: lm_init)
  then have "\<exists>h. lm_reachable cross1 h" unfolding cross1_def by (blast intro: lm_run lm_page[OF p])
  then have "\<exists>h. lm_reachable cross2 h" unfolding cross2_def by (blast intro: lm_run lm_page[OF p])
  then have "\<exists>h. lm_reachable cross3 h" unfolding cross3_def by (blast intro: lm_run lm_page[OF p])
  then show ?thesis unfolding cross4_def by (blast intro: lm_run lm_page[OF p])
qed

lemma fifo_reachable: "\<exists>h. lm_reachable fifo5 h"
proof -
  have p: "\<not> is_table_lock (LockId_Page n)" "is_table_lock (LockId_Table m)" for n m
    by (simp_all add: is_table_lock_def LockId_Page_def LockId_Table_def LockId_default_def IsTableResource_def)
  have "\<exists>h. lm_reachable demo0 h" unfolding demo0_def by (blast intro: lm_init)
  then have "\<exists>h. lm_reachable fifo1 h" unfolding fifo1_def by (blast intro: lm_run lm_table[OF p(2)])
  then have "\<exists>h. lm_reachable fifo2 h" unfolding fifo2_def by (blast intro: lm_run lm_page[OF p(1)])
  then have "\<exists>h. lm_reachable fifo3 h" unfolding fifo3_def by (blast intro: lm_run lm_table[OF p(2)])
  then have "\<exists>h. lm_reachable fifo4 h" unfolding fifo4_def by (blast intro: lm_run lm_table[OF p(2)])
  then show ?thesis unfolding fifo5_def by (blast intro: lm_run lm_page[OF p(1)])
qed

lemma cross_detect: "DetectDeadlocks rehash cross4 = Some (upd_txn 2 MarkFailed cross4, [2])"
proof -
  have "2 \<in> set (registered cross4)" "txn_store cross4 2 \<noteq> None"
    by (simp_all add: run_defs lm_eval)
  then show ?thesis by (simp add: DetectDeadlocks_def cross_victim)
qed

text \<open>Without a cycle, 2 waits for 1, which does not wait: the search enters 1 into the map.\<close>

definition lone2 :: LockManager where
  "lone2 = fst (page_section 2 (LockId_Page 5) L_X cross1)"

lemma lone_detect: "DetectDeadlocks rehash lone2 = (if rehash 2 then None else Some (lone2, []))"
proof -
  have "queues_map lone2 = [(LockId_Page 5, [page_req 1 L_X True, page_req 2 L_X False])]"
    "usable lone2 1" "usable lone2 2"
    by (simp_all add: lone2_def run_defs lm_eval)
  then show ?thesis
    by (simp add: DetectDeadlocks_def subscript_def FindDeadlockVictimUnlocked_def wait_graph_def IsWaiting_def
      edges_of_def RequestConflicts_def LockModesConflict_def graph_nodes_def max_element_def numeral_2_eq_2)
qed

lemma lone_reachable: "\<exists>h. lm_reachable lone2 h"
proof -
  have p: "\<not> is_table_lock (LockId_Page n)" for n
    by (simp add: is_table_lock_def LockId_Page_def LockId_default_def IsTableResource_def)
  have "\<exists>h. lm_reachable demo0 h" unfolding demo0_def by (blast intro: lm_init)
  then have "\<exists>h. lm_reachable cross1 h" unfolding cross1_def by (blast intro: lm_run lm_page[OF p])
  then show ?thesis unfolding lone2_def by (blast intro: lm_run lm_page[OF p])
qed

theorem DetectDeadlocks_complete_witness:
  "\<not> acyclic (waits_for cross4) \<and> acyclic (waits_for lone2) \<and> DetectDeadlocks (\<lambda>n. n = 2) lone2 = None"
proof -
  obtain h h' where r: "lm_reachable cross4 h" "lm_reachable lone2 h'"
    using cross_reachable lone_reachable by blast
  from DetectDeadlocks_complete[OF r(1), of "\<lambda>_. True"] DetectDeadlocks_complete[OF r(2), of "\<lambda>_. False"]
  show ?thesis by (simp add: cross_detect lone_detect)
qed

theorem DetectDeadlocks_sound_witness:
  "\<exists>p. p \<noteq> [] \<and> distinct p \<and> successively (\<lambda>t u. (t, u) \<in> waits_for cross4) p \<and>
     (last p, hd p) \<in> waits_for cross4 \<and> (2::txn_id_t) = Max (set p) \<and>
     (\<forall>t \<in> set p. \<exists>l r. find_request t (queue_of cross4 l) = Some r \<and> IsWaiting r \<and> \<not> CanGrant (queue_of cross4 l) r)"
proof -
  obtain h where r: "lm_reachable cross4 h" using cross_reachable by blast
  have nc: "\<forall>x \<in> set (queue_of cross4 l). \<not> cancelled x" for l
    by (auto simp: queue_of_def cross_queues split: if_splits)
  obtain p where p: "p \<noteq> []" "distinct p" "successively (\<lambda>t u. (t, u) \<in> waits_for cross4) p" "(last p, hd p) \<in> waits_for cross4"
    "2 = Max (set p)" "\<forall>t \<in> set p. \<exists>l r. find_request t (queue_of cross4 l) = Some r \<and> IsWaiting r \<and> usable cross4 t \<and>
      ((\<forall>other \<in> set (queue_of cross4 l). \<not> cancelled other) \<longrightarrow> \<not> CanGrant (queue_of cross4 l) r)"
    using DetectDeadlocks_sound[OF r cross_detect[of "\<lambda>_. True"]] by (elim exE conjE) (rule that)
  have "\<forall>t \<in> set p. \<exists>l r. find_request t (queue_of cross4 l) = Some r \<and> IsWaiting r \<and> \<not> CanGrant (queue_of cross4 l) r"
    using p(6) nc by meson
  then show ?thesis using p(1-5) by blast
qed

text \<open>C30: The wait-for graph has no edge to an earlier waiter whose mode does not conflict, although
  such a waiter blocks the grant: there is a reachable state in which every transaction that is
  registered waits and no wake-up changes anything, and deadlock detection reports nothing, however
  the hash table of the search grows.\<close>

theorem DetectDeadlocks_misses_fifo_deadlock:
  "(\<exists>h. lm_reachable fifo5 h) \<and>
   lock_loop_body 1 (LockId_Page 5) ''S'' True fifo5 = (fifo5, Waiting) \<and>
   lock_loop_body 2 (LockId_Table 7) ''S'' True fifo5 = (fifo5, Waiting) \<and>
   lock_loop_body 3 (LockId_Table 7) ''IS'' True fifo5 = (fifo5, Waiting) \<and>
   usable fifo5 1 \<and> usable fifo5 2 \<and> usable fifo5 3 \<and> set (registered fifo5) = {1, 2, 3} \<and>
   (\<forall>rehash. DetectDeadlocks rehash fifo5 = Some (fifo5, []))"
proof -
  have q: "queue_of fifo5 (LockId_Page 5) = [page_req 3 L_X True, page_req 1 L_S False]"
    "queue_of fifo5 (LockId_Table 7) =
      [demo_req 1 T_IX True False, demo_req 2 T_S False False, demo_req 3 T_IS False False]"
    by (simp_all add: queue_of_def fifo_queues LockId_Page_def LockId_Table_def LockId_default_def)
  have "lock_loop_body 1 (LockId_Page 5) ''S'' True fifo5 = (fifo5, Waiting)"
    "lock_loop_body 2 (LockId_Table 7) ''S'' True fifo5 = (fifo5, Waiting)"
    "lock_loop_body 3 (LockId_Table 7) ''IS'' True fifo5 = (fifo5, Waiting)"
    by (simp_all add: lock_loop_body_def q fifo_usable Let_def CanGrant_def before_request_def
        IsWaiting_def RequestConflicts_def LockModesConflict_def)
  moreover have "set (registered fifo5) = {1, 2, 3}"
    by (auto simp: run_defs lm_eval)
  ultimately show ?thesis
    using fifo_reachable fifo_usable by (simp add: DetectDeadlocks_def fifo_victim)
qed

text \<open>Two holders of IX that both ask for SIX; 2 is the victim.\<close>

definition up1 :: LockManager where
  "up1 = fst (table_section 1 (LockId_Table 7) T_IX demo0)"

definition up2 :: LockManager where
  "up2 = fst (table_section 2 (LockId_Table 7) T_IX up1)"

definition up3 :: LockManager where
  "up3 = fst (table_section 1 (LockId_Table 7) T_SIX up2)"

definition up4 :: LockManager where
  "up4 = fst (table_section 2 (LockId_Table 7) T_SIX up3)"

definition up5 :: LockManager where
  "up5 = upd_txn 2 MarkFailed up4"

definition up6 :: LockManager where
  "up6 = fst (lock_loop_body 2 (LockId_Table 7) ''SIX'' True up5)"

lemmas up_defs = up1_def up2_def up3_def up4_def demo0_def demo_store_def

lemma up4_queues: "queues_map up4 = [(LockId_Table 7, [demo_req 1 T_SIX True True, demo_req 2 T_SIX True True])]"
  by (simp add: up_defs lm_eval)

lemma up4_usable: "usable up4 1" "usable up4 2" "2 \<in> set (registered up4)" "txn_store up4 2 \<noteq> None"
  by (simp_all add: up_defs lm_eval)

lemma up4_victim: "DetectDeadlocks rehash up4 = Some (up5, [2])"
proof -
  have "FindDeadlockVictimUnlocked rehash up4 = Some (Some 2)"
    by (simp add: subscript_def FindDeadlockVictimUnlocked_def wait_graph_def up4_queues up4_usable IsWaiting_def
        edges_of_def RequestConflicts_def graph_nodes_def max_element_def)
  with up4_usable show ?thesis by (simp add: DetectDeadlocks_def up5_def)
qed

lemma up5_state: "\<not> usable up5 2" "usable up5 1" "queue_of up5 (LockId_Table 7) = [demo_req 1 T_SIX True True, demo_req 2 T_SIX True True]"
proof -
  show "\<not> usable up5 2"
    using up4_usable MarkFailed_not_usable by (auto simp: usable_def up5_def upd_txn_def)
  show "usable up5 1" using up4_usable(1) by (simp add: usable_def up5_def upd_txn_def)
  show "queue_of up5 (LockId_Table 7) = [demo_req 1 T_SIX True True, demo_req 2 T_SIX True True]"
    by (simp add: up5_def queue_of_def up4_queues)
qed

lemma up6_state: "up6 = set_or_drop_queue (LockId_Table 7) [demo_req 1 T_SIX True True] up5"
  by (simp add: up6_def lock_loop_body_def up5_state Let_def)

text \<open>A deadlock victim whose upgrade is pending gives up, on waking, the mode it already held:
  its request is erased from the queue before its work is undone and while its own set of granted
  locks still lists it, so another transaction acquires a conflicting mode at once.\<close>

theorem upgrade_victim_loses_held_lock:
  "holds_in 2 (queue_of up3 (LockId_Table 7)) \<and> DetectDeadlocks rehash up4 = Some (up5, [2]) \<and>
   find_request 2 (queue_of up6 (LockId_Table 7)) = None \<and>
   map_option (\<lambda>tx. LockId_Table 7 \<in> granted_locks tx \<and> txn_state tx = Failed) (txn_store up6 2) = Some True \<and>
   snd (lock_loop_body 1 (LockId_Table 7) ''SIX'' True up6) = Returned Code_Ok \<and>
   TableModesConflict T_SIX T_IX"
proof -
  have "holds_in 2 (queue_of up3 (LockId_Table 7))"
    by (simp add: holds_in_def up_defs lm_eval)
  moreover have "map_option (\<lambda>tx. LockId_Table 7 \<in> granted_locks tx \<and> txn_state tx = Failed) (txn_store up5 2) = Some True"
    by (simp add: up5_def up_defs lm_eval MarkFailed_def)
  moreover have "usable up6 1"
    using up5_state(2) by (simp add: usable_def up6_state set_or_drop_queue_def set_queue_def)
  ultimately show ?thesis
    by (simp add: up4_victim up6_state lock_loop_body_def Let_def CanGrant_def before_request_def)
      (simp add: set_or_drop_queue_def set_queue_def)
qed

end
