(* ===== verification/PageBytes.thy ===== *)
theory PageBytes
  imports Base
begin

text \<open>
  Fixed-size pages as byte lists, and the little-endian 32-bit fields that \<^verbatim>\<open>storage.cpp\<close> and
  \<^verbatim>\<open>b_plus_tree_page.cpp\<close> keep in them: the two accessors as the code writes them, and the
  algebra of reading after writing that all page proofs use.
\<close>

definition page_size :: nat where
  "page_size = 4096"

definition LoadU32LittleEndian :: "byte list \<Rightarrow> nat \<Rightarrow> u32" where
  "LoadU32LittleEndian data off =
     ucast (data ! off) OR push_bit 8 (ucast (data ! (off + 1)))
       OR push_bit 16 (ucast (data ! (off + 2))) OR push_bit 24 (ucast (data ! (off + 3)))"

definition StoreU32LittleEndian :: "byte list \<Rightarrow> nat \<Rightarrow> u32 \<Rightarrow> byte list" where
  "StoreU32LittleEndian data off value =
     data[off := ucast (value AND 0xFF),
          off + 1 := ucast (drop_bit 8 value AND 0xFF),
          off + 2 := ucast (drop_bit 16 value AND 0xFF),
          off + 3 := ucast (drop_bit 24 value AND 0xFF)]"

lemma Load_eq: "off + 4 \<le> length data \<Longrightarrow> LoadU32LittleEndian data off = le_word (get_bytes off 4 data)"
  by (simp add: get_bytes_4 LoadU32LittleEndian_def or.assoc push_bit_or)

lemma Store_eq:
  assumes "off + 4 \<le> length data"
  shows "StoreU32LittleEndian data off v = put_bytes off (le_bytes 4 v) data"
proof -
  have "store_loop 4 data off v = StoreU32LittleEndian data off v"
    by (simp add: store_loop_def StoreU32LittleEndian_def upt_rec numeral_3_eq_3)
  then show ?thesis using store_loop_eq[OF assms] by metis
qed

lemma length_Store [simp]: "length (StoreU32LittleEndian data off v) = length data"
  by (simp add: StoreU32LittleEndian_def)

lemma Load_Store_same [simp]:
  "off + 4 \<le> length data \<Longrightarrow> LoadU32LittleEndian (StoreU32LittleEndian data off v) off = v"
  by (simp add: Load_eq Store_eq get_put_same length_put_bytes)

lemma get_bytes_Store_other:
  "off + 4 \<le> length data \<Longrightarrow> p + n \<le> off \<or> off + 4 \<le> p \<Longrightarrow> p + n \<le> length data \<Longrightarrow>
   get_bytes p n (StoreU32LittleEndian data off v) = get_bytes p n data"
  by (simp add: Store_eq get_put_disjoint)

lemma Load_Store_other:
  "off + 4 \<le> length data \<Longrightarrow> p + 4 \<le> length data \<Longrightarrow> p + 4 \<le> off \<or> off + 4 \<le> p \<Longrightarrow>
   LoadU32LittleEndian (StoreU32LittleEndian data off v) p = LoadU32LittleEndian data p"
  by (simp add: Load_eq get_bytes_Store_other)

lemma Load_put_other:
  "off + length bs \<le> length data \<Longrightarrow> p + 4 \<le> length data \<Longrightarrow> p + 4 \<le> off \<or> off + length bs \<le> p \<Longrightarrow>
   LoadU32LittleEndian (put_bytes off bs data) p = LoadU32LittleEndian data p"
  by (simp add: Load_eq get_put_disjoint length_put_bytes)

lemma put_bytes_Nil [simp]: "put_bytes off [] data = data"
  by (simp add: put_bytes_def)

lemma Load_replicate_zero: "off + 4 \<le> n \<Longrightarrow> LoadU32LittleEndian (replicate n 0) off = 0"
  by (simp add: LoadU32LittleEndian_def)

subsection \<open>Guards\<close>

text \<open>What the page operations see of a read or write guard: whether it still holds its latch, the
  page's bytes and the dirty flag.\<close>

record PageGuard =
  guard_valid :: bool
  guard_data :: "byte list"
  guard_dirty :: bool

definition MarkDirty :: "PageGuard \<Rightarrow> PageGuard \<times> ErrorCode" where
  "MarkDirty g = (if \<not> guard_valid g then (g, InvalidArgument) else (g\<lparr>guard_dirty := True\<rparr>, Code_Ok))"

end
