(* ===== verification/SlottedPage.thy ===== *)
theory SlottedPage
  imports PageBytes
begin

text \<open>
  \<^verbatim>\<open>SlottedPage\<close> of \<^verbatim>\<open>storage.cpp\<close>, at the level of the page's bytes: a 32-byte header, a
  directory of 12-byte slots (offset, length, state) growing up and records growing down. The
  abstract view of a page is the partial map from slot numbers to record bytes; validation is
  the invariant, and every operation refines its counterpart on that map.
\<close>

definition kPageType :: u32 where "kPageType = 1"
definition kHeaderSize :: nat where "kHeaderSize = 32"
definition kSlotSize :: nat where "kSlotSize = 12"
definition kMaxRecordSize :: nat where "kMaxRecordSize = page_size - kHeaderSize - kSlotSize"
definition kPageTypeOffset :: nat where "kPageTypeOffset = 0"
definition kSlotCountOffset :: nat where "kSlotCountOffset = 4"
definition kFreeStartOffset :: nat where "kFreeStartOffset = 8"
definition kFreeEndOffset :: nat where "kFreeEndOffset = 12"
definition kNextPageIdOffset :: nat where "kNextPageIdOffset = 16"
definition kReservedOffset :: nat where "kReservedOffset = 20"
definition kDeletedSlot :: u32 where "kDeletedSlot = 0"
definition kUsedSlot :: u32 where "kUsedSlot = 1"

lemmas page_consts = page_size_def kHeaderSize_def kSlotSize_def kPageTypeOffset_def kSlotCountOffset_def
  kFreeStartOffset_def kFreeEndOffset_def kNextPageIdOffset_def kReservedOffset_def

lemma page_size_bound: "n \<le> 4096 \<Longrightarrow> n \<le> page_size"
  by (simp add: page_size_def)

definition SlotOffset :: "nat \<Rightarrow> nat \<Rightarrow> nat" where
  "SlotOffset slot_id field_offset = kHeaderSize + slot_id * kSlotSize + field_offset"

definition SlotField :: "byte list \<Rightarrow> nat \<Rightarrow> nat \<Rightarrow> u32" where
  "SlotField data slot_id field_offset = LoadU32LittleEndian data (SlotOffset slot_id field_offset)"

definition SetSlotField :: "byte list \<Rightarrow> nat \<Rightarrow> nat \<Rightarrow> u32 \<Rightarrow> byte list" where
  "SetSlotField data slot_id field_offset value =
     StoreU32LittleEndian data (SlotOffset slot_id field_offset) value"

subsection \<open>Operations\<close>

text \<open>One round of the loop of \<^verbatim>\<open>ValidateBytes\<close> over the slots.\<close>

definition overlaps :: "byte list \<Rightarrow> nat \<Rightarrow> nat \<Rightarrow> bool" where
  "overlaps data slot prior =
     (let offset = SlotField data slot 0; length = SlotField data slot 4;
          prior_offset = SlotField data prior 0; prior_length = SlotField data prior 4;
          ends_before = unat offset \<ge> unat prior_offset + unat prior_length;
          prior_ends_before = unat prior_offset \<ge> unat offset + unat length
      in \<not> ends_before \<and> \<not> prior_ends_before)"

definition slot_valid :: "byte list \<Rightarrow> nat \<Rightarrow> bool" where
  "slot_valid data slot =
     (let offset = SlotField data slot 0; length = SlotField data slot 4; state = SlotField data slot 8;
          free_start = LoadU32LittleEndian data kFreeStartOffset;
          free_end = LoadU32LittleEndian data kFreeEndOffset
      in if state \<noteq> kDeletedSlot \<and> state \<noteq> kUsedSlot then False
         else if state = kDeletedSlot then \<not> (offset \<noteq> 0 \<or> length \<noteq> 0)
         else if offset < free_start \<or> offset < free_end \<or> unat offset > page_size
              \<or> unat offset + unat length > page_size then False
         else list_all (\<lambda>prior. SlotField data prior 8 \<noteq> kUsedSlot \<or> \<not> overlaps data slot prior) [0..<slot])"

definition ValidateBytes :: "byte list \<Rightarrow> ErrorCode" where
  "ValidateBytes data =
     (let slot_count = LoadU32LittleEndian data kSlotCountOffset;
          max_slots = (page_size - kHeaderSize) div kSlotSize;
          free_start = LoadU32LittleEndian data kFreeStartOffset;
          free_end = LoadU32LittleEndian data kFreeEndOffset
      in if LoadU32LittleEndian data kPageTypeOffset \<noteq> kPageType then InvalidArgument
         else if LoadU32LittleEndian data kReservedOffset \<noteq> 0 \<or> LoadU32LittleEndian data (kReservedOffset + 4) \<noteq> 0
                 \<or> LoadU32LittleEndian data (kReservedOffset + 8) \<noteq> 0 then InvalidArgument
         else if unat slot_count > max_slots then InvalidArgument
         else if unat free_start \<noteq> kHeaderSize + unat slot_count * kSlotSize \<or> free_start > free_end
                 \<or> unat free_end > page_size then InvalidArgument
         else if LoadU32LittleEndian data kNextPageIdOffset = 0 then InvalidArgument
         else if list_all (slot_valid data) [0..<unat slot_count] then Code_Ok else InvalidArgument)"

definition Initialize :: "PageGuard \<Rightarrow> page_id_t \<Rightarrow> PageGuard \<times> ErrorCode" where
  "Initialize page next_page_id =
     (if \<not> guard_valid page then (page, InvalidArgument)
      else if next_page_id = 0 then (page, InvalidArgument)
      else
        (let data = replicate page_size 0;
             data = StoreU32LittleEndian data kPageTypeOffset kPageType;
             data = StoreU32LittleEndian data kSlotCountOffset 0;
             data = StoreU32LittleEndian data kFreeStartOffset (word_of_nat kHeaderSize);
             data = StoreU32LittleEndian data kFreeEndOffset (word_of_nat page_size);
             data = StoreU32LittleEndian data kNextPageIdOffset next_page_id
         in MarkDirty (page\<lparr>guard_data := data\<rparr>)))"

definition Validate :: "PageGuard \<Rightarrow> ErrorCode" where
  "Validate page = (if \<not> guard_valid page then InvalidArgument else ValidateBytes (guard_data page))"

text \<open>The loop of \<^verbatim>\<open>Compact\<close>: the page being rewritten and \<^verbatim>\<open>new_free_end\<close>.\<close>

definition compact_slot :: "byte list \<Rightarrow> byte list \<times> u32 \<Rightarrow> nat \<Rightarrow> byte list \<times> u32" where
  "compact_slot old_data st slot_id =
     (let (data, new_free_end) = st in
      if SlotField old_data slot_id 8 \<noteq> kUsedSlot then
        (SetSlotField (SetSlotField (SetSlotField data slot_id 0 0) slot_id 4 0) slot_id 8 kDeletedSlot, new_free_end)
      else
        (let offset = SlotField old_data slot_id 0;
             length = SlotField old_data slot_id 4;
             new_free_end = new_free_end - length;
             data = (if length \<noteq> 0
                     then put_bytes (unat new_free_end) (get_bytes (unat offset) (unat length) old_data) data
                     else data);
             data = SetSlotField data slot_id 0 new_free_end;
             data = SetSlotField data slot_id 4 length;
             data = SetSlotField data slot_id 8 kUsedSlot
         in (data, new_free_end)))"

definition Compact :: "PageGuard \<Rightarrow> PageGuard \<times> ErrorCode" where
  "Compact page =
     (if \<not> guard_valid page then (page, InvalidArgument)
      else if ValidateBytes (guard_data page) \<noteq> Code_Ok then (page, ValidateBytes (guard_data page))
      else
        (let old_data = guard_data page;
             slot_count = LoadU32LittleEndian old_data kSlotCountOffset;
             free_start = LoadU32LittleEndian old_data kFreeStartOffset;
             (data, new_free_end) = foldl (compact_slot old_data) (old_data, word_of_nat page_size) [0..<unat slot_count];
             data = put_bytes (unat free_start) (replicate (unat new_free_end - unat free_start) 0) data;
             data = StoreU32LittleEndian data kFreeEndOffset new_free_end
         in MarkDirty (page\<lparr>guard_data := data\<rparr>)))"

definition active_bytes :: "byte list \<Rightarrow> nat \<Rightarrow> u64" where
  "active_bytes data slot_count =
     foldl (\<lambda>acc slot. if SlotField data slot 8 = kUsedSlot then acc + ucast (SlotField data slot 4) else acc)
       0 [0..<slot_count]"

definition has_contiguous_space :: "byte list \<Rightarrow> nat option \<Rightarrow> nat \<Rightarrow> bool" where
  "has_contiguous_space data reusable_slot record_size =
     (let slot_count = unat (LoadU32LittleEndian data kSlotCountOffset);
          free_end = unat (LoadU32LittleEndian data kFreeEndOffset);
          new_free_start = kHeaderSize + (slot_count + (if reusable_slot = None then 1 else 0)) * kSlotSize
      in new_free_start \<le> free_end \<and> record_size \<le> free_end - new_free_start)"

text \<open>The part of \<^verbatim>\<open>InsertRecord\<close> after the space is found; \<open>reusable_slot\<close> is \<open>None\<close> for
  \<^verbatim>\<open>INVALID_SLOT_ID\<close>.\<close>

definition place_record :: "nat option \<Rightarrow> byte list \<Rightarrow> PageGuard \<Rightarrow> PageGuard \<times> slot_id_t Result" where
  "place_record reusable_slot record page =
     (let data = guard_data page;
          slot_count = LoadU32LittleEndian data kSlotCountOffset;
          free_end = LoadU32LittleEndian data kFreeEndOffset;
          new_free_start = kHeaderSize + (unat slot_count + (if reusable_slot = None then 1 else 0)) * kSlotSize;
          new_free_end = free_end - word_of_nat (length record);
          data = (if record \<noteq> [] then put_bytes (unat new_free_end) record data else data);
          target_slot = (case reusable_slot of None \<Rightarrow> unat slot_count | Some s \<Rightarrow> s);
          data = SetSlotField data target_slot 0 new_free_end;
          data = SetSlotField data target_slot 4 (word_of_nat (length record));
          data = SetSlotField data target_slot 8 kUsedSlot;
          data = (if reusable_slot = None then StoreU32LittleEndian data kSlotCountOffset (slot_count + 1) else data);
          data = StoreU32LittleEndian data kFreeStartOffset (word_of_nat new_free_start);
          data = StoreU32LittleEndian data kFreeEndOffset new_free_end
      in case MarkDirty (page\<lparr>guard_data := data\<rparr>) of
           (page', status) \<Rightarrow>
             if status \<noteq> Code_Ok then (page', Inl status) else (page', Inr (word_of_nat target_slot)))"

definition InsertRecord :: "PageGuard \<Rightarrow> byte list \<Rightarrow> PageGuard \<times> slot_id_t Result" where
  "InsertRecord page record =
     (if \<not> guard_valid page then (page, Inl InvalidArgument)
      else if ValidateBytes (guard_data page) \<noteq> Code_Ok then (page, Inl (ValidateBytes (guard_data page)))
      else if length record > 2 ^ 32 - 1 then (page, Inl InvalidArgument)
      else if length record > kMaxRecordSize then (page, Inl RecordTooLarge)
      else
        (let data = guard_data page;
             slot_count = unat (LoadU32LittleEndian data kSlotCountOffset);
             max_slots = (page_size - kHeaderSize) div kSlotSize;
             reusable_slot = find (\<lambda>slot. SlotField data slot 8 = kDeletedSlot) [0..<slot_count];
             free_start = LoadU32LittleEndian data kFreeStartOffset;
             required = (word_of_nat (length record) + (if reusable_slot = None then word_of_nat kSlotSize else 0) :: u64);
             total_free = (word_of_nat page_size - ucast free_start - active_bytes data slot_count :: u64)
         in if required > total_free then (page, Inl OutOfSpace)
            else if reusable_slot = None \<and> slot_count \<ge> max_slots then (page, Inl OutOfSpace)
            else if has_contiguous_space data reusable_slot (length record) then place_record reusable_slot record page
            else
              (case Compact page of
                 (page', status) \<Rightarrow>
                   if status \<noteq> Code_Ok then (page', Inl status)
                   else if \<not> has_contiguous_space (guard_data page') reusable_slot (length record)
                   then (page', Inl OutOfSpace)
                   else place_record reusable_slot record page')))"

definition GetRecord :: "PageGuard \<Rightarrow> slot_id_t \<Rightarrow> byte list Result" where
  "GetRecord page slot_id =
     (if \<not> guard_valid page then Inl InvalidArgument
      else if ValidateBytes (guard_data page) \<noteq> Code_Ok then Inl (ValidateBytes (guard_data page))
      else
        (let data = guard_data page in
         if slot_id \<ge> LoadU32LittleEndian data kSlotCountOffset then Inl NotFound
         else if SlotField data (unat slot_id) 8 \<noteq> kUsedSlot then Inl NotFound
         else
           (let offset = SlotField data (unat slot_id) 0; length = SlotField data (unat slot_id) 4
            in Inr (get_bytes (unat offset) (unat length) data))))"

definition DeleteRecord :: "PageGuard \<Rightarrow> slot_id_t \<Rightarrow> PageGuard \<times> ErrorCode" where
  "DeleteRecord page slot_id =
     (if \<not> guard_valid page then (page, InvalidArgument)
      else if ValidateBytes (guard_data page) \<noteq> Code_Ok then (page, ValidateBytes (guard_data page))
      else
        (let data = guard_data page in
         if slot_id \<ge> LoadU32LittleEndian data kSlotCountOffset then (page, NotFound)
         else if SlotField data (unat slot_id) 8 \<noteq> kUsedSlot then (page, NotFound)
         else MarkDirty (page\<lparr>guard_data :=
                SetSlotField (SetSlotField (SetSlotField data (unat slot_id) 0 0) (unat slot_id) 4 0)
                  (unat slot_id) 8 kDeletedSlot\<rparr>)))"

definition SlotCount :: "PageGuard \<Rightarrow> u32 Result" where
  "SlotCount page =
     (if Validate page \<noteq> Code_Ok then Inl (Validate page)
      else Inr (LoadU32LittleEndian (guard_data page) kSlotCountOffset))"

definition NextPageId :: "PageGuard \<Rightarrow> page_id_t Result" where
  "NextPageId page =
     (if Validate page \<noteq> Code_Ok then Inl (Validate page)
      else Inr (LoadU32LittleEndian (guard_data page) kNextPageIdOffset))"

definition SetNextPageId :: "PageGuard \<Rightarrow> page_id_t \<Rightarrow> PageGuard \<times> ErrorCode" where
  "SetNextPageId page next_page_id =
     (if \<not> guard_valid page then (page, InvalidArgument)
      else if next_page_id = 0 then (page, InvalidArgument)
      else if ValidateBytes (guard_data page) \<noteq> Code_Ok then (page, ValidateBytes (guard_data page))
      else MarkDirty (page\<lparr>guard_data := StoreU32LittleEndian (guard_data page) kNextPageIdOffset next_page_id\<rparr>))"

subsection \<open>Fields of a page after a write\<close>

abbreviation page_ok :: "byte list \<Rightarrow> bool" where
  "page_ok d \<equiv> length d = page_size"

definition write_slot :: "byte list \<Rightarrow> nat \<Rightarrow> u32 \<Rightarrow> u32 \<Rightarrow> u32 \<Rightarrow> byte list" where
  "write_slot d s a b c = SetSlotField (SetSlotField (SetSlotField d s 0 a) s 4 b) s 8 c"

lemma length_SetSlotField [simp]: "length (SetSlotField d s f v) = length d"
  by (simp add: SetSlotField_def)

lemma length_write_slot [simp]: "length (write_slot d s a b c) = length d"
  by (simp add: write_slot_def)

lemma SlotOffset_bound: "s < 338 \<Longrightarrow> f \<le> 8 \<Longrightarrow> SlotOffset s f + 4 \<le> page_size"
  by (simp add: SlotOffset_def page_consts)

lemma SlotOffset_disjoint:
  assumes "f \<in> {0, 4, 8}" "f' \<in> {0, 4, 8}" "(s, f) \<noteq> (s', f')"
  shows "SlotOffset s f + 4 \<le> SlotOffset s' f' \<or> SlotOffset s' f' + 4 \<le> SlotOffset s f"
proof (cases "s = s'")
  case True
  with assms show ?thesis by (auto simp: SlotOffset_def)
next
  case False
  then have "s + 1 \<le> s' \<or> s' + 1 \<le> s" by linarith
  with assms(1,2) show ?thesis by (auto simp: SlotOffset_def page_consts)
qed

lemma SlotField_Set:
  assumes "page_ok d" "s < 338" "s' < 338" "f \<in> {0, 4, 8}" "f' \<in> {0, 4, 8}"
  shows "SlotField (SetSlotField d s f v) s' f' = (if s' = s \<and> f' = f then v else SlotField d s' f')"
  using assms SlotOffset_bound[of s f] SlotOffset_bound[of s' f'] SlotOffset_disjoint[of f' f s' s]
  by (auto simp: SlotField_def SetSlotField_def Load_Store_other)

lemma SlotField_write_slot:
  assumes "page_ok d" "s < 338" "s' < 338" "f \<in> {0, 4, 8}"
  shows "SlotField (write_slot d s a b c) s' f =
    (if s' = s then (if f = 0 then a else if f = 4 then b else c) else SlotField d s' f)"
  using assms by (auto simp: write_slot_def SlotField_Set)

lemma Load_header_write_slot:
  assumes "page_ok d" "s < 338" "off + 4 \<le> 32"
  shows "LoadU32LittleEndian (write_slot d s a b c) off = LoadU32LittleEndian d off"
  using assms SlotOffset_bound[of s]
  by (auto simp: write_slot_def SetSlotField_def Load_Store_other SlotOffset_def page_consts)

lemma get_bytes_write_slot:
  assumes "page_ok d" "s < n" "n \<le> 338" "32 + 12 * n \<le> p" "p + k \<le> page_size"
  shows "get_bytes p k (write_slot d s a b c) = get_bytes p k d"
  using assms SlotOffset_bound[of s]
  by (simp add: write_slot_def SetSlotField_def get_bytes_Store_other SlotOffset_def page_consts)

lemma SlotField_Store_header:
  assumes "page_ok d" "off + 4 \<le> 32" "s < 338" "f \<le> 8"
  shows "SlotField (StoreU32LittleEndian d off v) s f = SlotField d s f"
  using assms SlotOffset_bound[of s f]
  by (simp add: SlotField_def Load_Store_other SlotOffset_def page_consts)

lemma get_bytes_Store_header:
  "page_ok d \<Longrightarrow> off + 4 \<le> 32 \<Longrightarrow> 32 \<le> p \<Longrightarrow> p + k \<le> page_size \<Longrightarrow>
   get_bytes p k (StoreU32LittleEndian d off v) = get_bytes p k d"
  by (simp add: get_bytes_Store_other)

lemma Load_Store_header:
  "page_ok d \<Longrightarrow> off + 4 \<le> 32 \<Longrightarrow> off' + 4 \<le> 32 \<Longrightarrow> off' + 4 \<le> off \<or> off + 4 \<le> off' \<Longrightarrow>
   LoadU32LittleEndian (StoreU32LittleEndian d off v) off' = LoadU32LittleEndian d off'"
  by (rule Load_Store_other) (simp_all add: page_size_def)

lemma SlotField_put:
  assumes "page_ok d" "off + length bs \<le> page_size" "32 + 12 * n \<le> off" "s < n" "n \<le> 338" "f \<le> 8"
  shows "SlotField (put_bytes off bs d) s f = SlotField d s f"
  using assms SlotOffset_bound[of s f]
  by (simp add: SlotField_def Load_put_other SlotOffset_def page_consts)

lemma Load_header_put:
  "page_ok d \<Longrightarrow> off + length bs \<le> page_size \<Longrightarrow> 32 \<le> off \<Longrightarrow> off' + 4 \<le> 32 \<Longrightarrow>
   LoadU32LittleEndian (put_bytes off bs d) off' = LoadU32LittleEndian d off'"
  by (rule Load_put_other) simp_all

subsection \<open>Validity as a layout invariant\<close>

abbreviation "count d \<equiv> unat (LoadU32LittleEndian d kSlotCountOffset)"
abbreviation "free_lo d \<equiv> unat (LoadU32LittleEndian d kFreeStartOffset)"
abbreviation "free_hi d \<equiv> unat (LoadU32LittleEndian d kFreeEndOffset)"
abbreviation "slot_off d s \<equiv> unat (SlotField d s 0)"
abbreviation "slot_len d s \<equiv> unat (SlotField d s 4)"

definition used :: "byte list \<Rightarrow> nat \<Rightarrow> bool" where
  "used d s \<longleftrightarrow> s < count d \<and> SlotField d s 8 = kUsedSlot"

definition apart :: "byte list \<Rightarrow> nat \<Rightarrow> nat \<Rightarrow> bool" where
  "apart d s p \<longleftrightarrow> slot_off d p + slot_len d p \<le> slot_off d s \<or> slot_off d s + slot_len d s \<le> slot_off d p"

definition header_ok :: "byte list \<Rightarrow> bool" where
  "header_ok d \<longleftrightarrow> LoadU32LittleEndian d kPageTypeOffset = kPageType \<and>
     LoadU32LittleEndian d 20 = 0 \<and> LoadU32LittleEndian d 24 = 0 \<and> LoadU32LittleEndian d 28 = 0 \<and>
     LoadU32LittleEndian d kNextPageIdOffset \<noteq> 0"

definition slots_ok :: "byte list \<Rightarrow> bool" where
  "slots_ok d \<longleftrightarrow>
     (\<forall>s < count d. if SlotField d s 8 = kUsedSlot
        then free_hi d \<le> slot_off d s \<and> slot_off d s + slot_len d s \<le> 4096
        else SlotField d s 8 = kDeletedSlot \<and> SlotField d s 0 = 0 \<and> SlotField d s 4 = 0) \<and>
     (\<forall>s p. used d s \<longrightarrow> used d p \<longrightarrow> s \<noteq> p \<longrightarrow> apart d s p)"

definition layout_ok :: "byte list \<Rightarrow> bool" where
  "layout_ok d \<longleftrightarrow> header_ok d \<and> count d \<le> 338 \<and> free_lo d = 32 + 12 * count d \<and>
     free_lo d \<le> free_hi d \<and> free_hi d \<le> 4096 \<and> slots_ok d"

lemma used_not_deleted: "kUsedSlot \<noteq> kDeletedSlot"
  by (simp add: kUsedSlot_def kDeletedSlot_def)

lemma slot_valid_iff:
  assumes "free_lo d \<le> free_hi d" and "s < count d"
  shows "slot_valid d s \<longleftrightarrow>
    (if SlotField d s 8 = kUsedSlot
     then free_hi d \<le> slot_off d s \<and> slot_off d s + slot_len d s \<le> 4096 \<and>
       (\<forall>p < s. used d p \<longrightarrow> apart d s p)
     else SlotField d s 8 = kDeletedSlot \<and> SlotField d s 0 = 0 \<and> SlotField d s 4 = 0)"
proof -
  have "list_all (\<lambda>prior. SlotField d prior 8 \<noteq> kUsedSlot \<or> \<not> overlaps d s prior) [0..<s] \<longleftrightarrow>
    (\<forall>p < s. used d p \<longrightarrow> apart d s p)"
    using assms(2) by (auto simp: list_all_iff used_def apart_def overlaps_def Let_def)
  then show ?thesis
    using assms(1) used_not_deleted
    by (auto simp: slot_valid_def Let_def word_less_nat_alt page_size_def)
qed

lemma ValidateBytes_iff: "ValidateBytes d = Code_Ok \<longleftrightarrow> layout_ok d"
proof (cases "free_lo d \<le> free_hi d")
  case False
  then show ?thesis by (auto simp: ValidateBytes_def layout_ok_def Let_def word_le_nat_alt word_less_nat_alt)
next
  case True
  have "list_all (slot_valid d) [0..<count d] \<longleftrightarrow> slots_ok d"
  proof
    assume l: "list_all (slot_valid d) [0..<count d]"
    then have v: "slot_valid d s" if "s < count d" for s using that by (auto simp: list_all_iff)
    have "apart d s p" if "used d s" "used d p" "s \<noteq> p" for s p
    proof (cases "p < s")
      case True
      with that v[of s] slot_valid_iff[OF \<open>free_lo d \<le> free_hi d\<close>, of s] show ?thesis by (auto simp: used_def)
    next
      case False
      with that v[of p] slot_valid_iff[OF \<open>free_lo d \<le> free_hi d\<close>, of p] have "apart d p s" by (auto simp: used_def)
      then show ?thesis by (auto simp: apart_def)
    qed
    moreover have "if SlotField d s 8 = kUsedSlot
        then free_hi d \<le> slot_off d s \<and> slot_off d s + slot_len d s \<le> 4096
        else SlotField d s 8 = kDeletedSlot \<and> SlotField d s 0 = 0 \<and> SlotField d s 4 = 0" if "s < count d" for s
      using v[OF that] slot_valid_iff[OF True that] by (auto split: if_splits)
    ultimately show "slots_ok d" unfolding slots_ok_def by blast
  next
    assume ok: "slots_ok d"
    have "slot_valid d s" if s: "s < count d" for s
      unfolding slot_valid_iff[OF True s]
    proof (cases "SlotField d s 8 = kUsedSlot")
      case True
      with ok s have "free_hi d \<le> slot_off d s \<and> slot_off d s + slot_len d s \<le> 4096"
        "used d s" unfolding slots_ok_def used_def by auto
      moreover have "apart d s p" if "p < s" "used d p" for p
        using ok that \<open>used d s\<close> unfolding slots_ok_def by blast
      ultimately show "if SlotField d s 8 = kUsedSlot then free_hi d \<le> slot_off d s \<and>
          slot_off d s + slot_len d s \<le> 4096 \<and> (\<forall>p < s. used d p \<longrightarrow> apart d s p)
        else SlotField d s 8 = kDeletedSlot \<and> SlotField d s 0 = 0 \<and> SlotField d s 4 = 0"
        using True by simp
    next
      case False
      with ok s show "if SlotField d s 8 = kUsedSlot then free_hi d \<le> slot_off d s \<and>
          slot_off d s + slot_len d s \<le> 4096 \<and> (\<forall>p < s. used d p \<longrightarrow> apart d s p)
        else SlotField d s 8 = kDeletedSlot \<and> SlotField d s 0 = 0 \<and> SlotField d s 4 = 0"
        unfolding slots_ok_def by auto
    qed
    then show "list_all (slot_valid d) [0..<count d]" by (simp add: list_all_iff)
  qed
  moreover have "(page_size - kHeaderSize) div kSlotSize = 338" by (simp add: page_consts)
  ultimately show ?thesis
    using True by (auto simp: ValidateBytes_def layout_ok_def header_ok_def Let_def word_le_nat_alt word_less_nat_alt
        page_size_def kHeaderSize_def kSlotSize_def kReservedOffset_def mult.commute)
qed

subsection \<open>Space\<close>

lemma disjoint_intervals_sum:
  fixes f g :: "'a \<Rightarrow> nat"
  assumes "finite S" "\<And>s. s \<in> S \<Longrightarrow> lo \<le> f s \<and> f s + g s \<le> hi"
    and "\<And>s p. s \<in> S \<Longrightarrow> p \<in> S \<Longrightarrow> s \<noteq> p \<Longrightarrow> f p + g p \<le> f s \<or> f s + g s \<le> f p"
  shows "sum g S \<le> hi - lo"
proof -
  have "card (\<Union>s \<in> S. {f s..<f s + g s}) = (\<Sum>s \<in> S. card {f s..<f s + g s})"
  proof (rule card_UN_disjoint[OF assms(1)])
    show "\<forall>s \<in> S. \<forall>p \<in> S. s \<noteq> p \<longrightarrow> {f s..<f s + g s} \<inter> {f p..<f p + g p} = {}"
    proof (intro ballI impI)
      fix s p assume "s \<in> S" "p \<in> S" "s \<noteq> p"
      from assms(3)[OF this] show "{f s..<f s + g s} \<inter> {f p..<f p + g p} = {}" by auto
    qed
  qed simp
  also have "\<dots> = sum g S" by simp
  finally have "sum g S = card (\<Union>s \<in> S. {f s..<f s + g s})" by simp
  also have "\<dots> \<le> card {lo..<hi}"
  proof (rule card_mono)
    show "(\<Union>s \<in> S. {f s..<f s + g s}) \<subseteq> {lo..<hi}"
    proof
      fix x assume "x \<in> (\<Union>s \<in> S. {f s..<f s + g s})"
      then obtain s where "s \<in> S" "f s \<le> x" "x < f s + g s" by auto
      with assms(2)[of s] show "x \<in> {lo..<hi}" by auto
    qed
  qed simp
  finally show ?thesis by simp
qed

definition used_below :: "byte list \<Rightarrow> nat \<Rightarrow> nat" where
  "used_below d k = (\<Sum>s \<in> {s. s < k \<and> used d s}. slot_len d s)"

lemma used_below_0 [simp]: "used_below d 0 = 0"
  by (simp add: used_below_def)

lemma used_below_Suc: "used_below d (Suc k) = used_below d k + (if used d k then slot_len d k else 0)"
proof -
  have "{s. s < Suc k \<and> used d s} = {s. s < k \<and> used d s} \<union> (if used d k then {k} else {})"
    by (auto simp: less_Suc_eq)
  then show ?thesis by (simp add: used_below_def)
qed

lemma used_below_mono: "k \<le> n \<Longrightarrow> used_below d k \<le> used_below d n"
  unfolding used_below_def by (rule sum_mono2) auto

lemma layout_okD:
  assumes "layout_ok d"
  shows "count d \<le> 338" "free_lo d = 32 + 12 * count d" "free_lo d \<le> free_hi d" "free_hi d \<le> 4096"
    "used d s \<Longrightarrow> free_hi d \<le> slot_off d s \<and> slot_off d s + slot_len d s \<le> 4096"
    "used d s \<Longrightarrow> used d p \<Longrightarrow> s \<noteq> p \<Longrightarrow> apart d s p"
    "s < count d \<Longrightarrow> \<not> used d s \<Longrightarrow> SlotField d s 8 = kDeletedSlot \<and> SlotField d s 0 = 0 \<and> SlotField d s 4 = 0"
    "header_ok d"
  using assms unfolding layout_ok_def slots_ok_def used_def by (auto split: if_splits)

lemma used_below_bound: "layout_ok d \<Longrightarrow> used_below d k \<le> 4096 - free_hi d"
  unfolding used_below_def
  by (rule disjoint_intervals_sum[where f = "slot_off d"])
    (auto dest: layout_okD(5,6) simp: apart_def)

text \<open>The 64-bit sum of the code does not wrap.\<close>

lemma active_bytes_eq:
  assumes "layout_ok d" "k \<le> count d"
  shows "unat (active_bytes d k) = used_below d k"
  using assms(2)
proof (induction k)
  case 0
  then show ?case by (simp add: active_bytes_def)
next
  case (Suc k)
  have step: "active_bytes d (Suc k) =
      (if SlotField d k 8 = kUsedSlot then active_bytes d k + ucast (SlotField d k 4) else active_bytes d k)"
    by (simp add: active_bytes_def)
  have u: "used d k \<longleftrightarrow> SlotField d k 8 = kUsedSlot" using Suc.prems by (simp add: used_def)
  have "used_below d (Suc k) \<le> 4096" using used_below_bound[OF assms(1), of "Suc k"] by simp
  then have "used d k \<Longrightarrow> unat (active_bytes d k) + slot_len d k < 2 ^ 64"
    using Suc by (simp add: used_below_Suc)
  moreover have "unat (ucast (SlotField d k 4) :: u64) = slot_len d k"
    by (simp add: unsigned_ucast_eq take_bit_nat_eq_self unsigned_less[THEN less_trans])
  ultimately show ?case
    using Suc by (simp add: step u[symmetric] used_below_Suc unat_word_ariths)
qed

subsection \<open>The records of a page\<close>

definition page_records :: "byte list \<Rightarrow> nat \<rightharpoonup> byte list" where
  "page_records d s = (if used d s then Some (get_bytes (slot_off d s) (slot_len d s) d) else None)"

lemma page_records_None: "page_records d s = None \<longleftrightarrow> \<not> used d s"
  by (simp add: page_records_def)

lemma GetRecord_eq:
  assumes "guard_valid page" "layout_ok (guard_data page)"
  shows "GetRecord page slot = (case page_records (guard_data page) (unat slot) of None \<Rightarrow> Inl NotFound | Some r \<Rightarrow> Inr r)"
  using assms by (auto simp: GetRecord_def Let_def ValidateBytes_iff page_records_def used_def word_le_nat_alt)

subsection \<open>Deleting\<close>

lemma layout_ok_write_slot_deleted:
  assumes ok: "layout_ok d" and p: "page_ok d" and s: "s < count d"
  defines "d' \<equiv> write_slot d s 0 0 kDeletedSlot"
  shows "layout_ok d' \<and> page_records d' = (page_records d)(s := None) \<and> count d' = count d \<and>
    (\<forall>off. off + 4 \<le> 32 \<longrightarrow> LoadU32LittleEndian d' off = LoadU32LittleEndian d off)"
proof -
  note D = layout_okD[OF ok]
  have s338: "s < 338" using s D(1) by simp
  have h: "LoadU32LittleEndian d' off = LoadU32LittleEndian d off" if "off + 4 \<le> 32" for off
    unfolding d'_def by (rule Load_header_write_slot[OF p s338 that])
  have c: "count d' = count d" "free_lo d' = free_lo d" "free_hi d' = free_hi d" "header_ok d' = header_ok d"
    by (simp_all add: h page_consts header_ok_def)
  have f: "SlotField d' p f = (if p = s then (if f = 8 then kDeletedSlot else 0) else SlotField d p f)"
    if "p < count d" "f \<in> {0, 4, 8}" for p f
    unfolding d'_def using SlotField_write_slot[OF p s338, of p f] that D(1) by auto
  have u: "used d' p \<longleftrightarrow> used d p \<and> p \<noteq> s" for p
    using used_not_deleted by (auto simp: used_def c f split: if_splits)
  have fld: "SlotField d' p f = SlotField d p f" if "used d p" "p \<noteq> s" "f \<in> {0, 4, 8}" for p f
    using that by (simp add: f used_def)
  have g: "get_bytes o' n d' = get_bytes o' n d" if "free_hi d \<le> o'" "o' + n \<le> 4096" for o' n
    unfolding d'_def using get_bytes_write_slot[OF p s D(1)] that D(2,3) by (simp add: page_size_def)
  have "slots_ok d'"
    unfolding slots_ok_def
  proof (intro conjI allI impI)
    fix p assume "p < count d'"
    then show "if SlotField d' p 8 = kUsedSlot then free_hi d' \<le> slot_off d' p \<and> slot_off d' p + slot_len d' p \<le> 4096
        else SlotField d' p 8 = kDeletedSlot \<and> SlotField d' p 0 = 0 \<and> SlotField d' p 4 = 0"
      using D(5)[of p] D(7)[of p] used_not_deleted by (auto simp: c f used_def)
  next
    fix p q assume "used d' p" "used d' q" "p \<noteq> q"
    then show "apart d' p q" using D(6)[of p q] by (simp add: u apart_def fld)
  qed
  moreover have "page_records d' = (page_records d)(s := None)"
    using D(5) by (auto simp: page_records_def u fld g fun_eq_iff)
  ultimately show ?thesis using ok h by (auto simp: layout_ok_def c)
qed

subsection \<open>Placing a record\<close>

lemma unat_of_nat_page: "n \<le> 4096 \<Longrightarrow> unat (word_of_nat n :: u32) = n"
  by (rule unat_word_of_nat_u32) simp

definition new_count :: "byte list \<Rightarrow> nat option \<Rightarrow> nat" where
  "new_count d r = (if r = None then Suc (count d) else count d)"

definition target :: "byte list \<Rightarrow> nat option \<Rightarrow> nat" where
  "target d r = (case r of None \<Rightarrow> count d | Some s \<Rightarrow> s)"

definition can_place :: "byte list \<Rightarrow> nat option \<Rightarrow> nat \<Rightarrow> bool" where
  "can_place d r n \<longleftrightarrow> 32 + 12 * new_count d r \<le> free_hi d \<and> n \<le> free_hi d - (32 + 12 * new_count d r)"

lemma has_contiguous_space_iff: "has_contiguous_space d r n \<longleftrightarrow> can_place d r n"
  by (auto simp: has_contiguous_space_def can_place_def new_count_def Let_def kHeaderSize_def kSlotSize_def mult.commute)

lemma has_contiguous_space_fun: "has_contiguous_space = can_place"
  by (simp add: fun_eq_iff has_contiguous_space_iff)

definition free_target :: "byte list \<Rightarrow> nat option \<Rightarrow> bool" where
  "free_target d r \<longleftrightarrow> (case r of None \<Rightarrow> True | Some s \<Rightarrow> s < count d \<and> \<not> used d s)"

definition placed :: "byte list \<Rightarrow> nat option \<Rightarrow> byte list \<Rightarrow> byte list" where
  "placed d r rec =
     (let e = free_hi d - length rec;
          d1 = put_bytes e rec d;
          d2 = write_slot d1 (target d r) (word_of_nat e) (word_of_nat (length rec)) kUsedSlot;
          d3 = (if r = None then StoreU32LittleEndian d2 kSlotCountOffset (word_of_nat (new_count d r)) else d2);
          d4 = StoreU32LittleEndian d3 kFreeStartOffset (word_of_nat (32 + 12 * new_count d r))
      in StoreU32LittleEndian d4 kFreeEndOffset (word_of_nat e))"

lemma place_record_eq:
  assumes v: "guard_valid page" and d: "guard_data page = d" "layout_ok d"
    and c: "can_place d r (length rec)"
  shows "place_record r rec page =
    (page\<lparr>guard_data := placed d r rec, guard_dirty := True\<rparr>, Inr (word_of_nat (target d r)))"
proof -
  have "length rec \<le> free_hi d" "free_hi d \<le> 4096" using c layout_okD(4)[OF d(2)] by (auto simp: can_place_def)
  then have e: "LoadU32LittleEndian d kFreeEndOffset - word_of_nat (length rec) = word_of_nat (free_hi d - length rec)"
    by (simp add: of_nat_diff)
  have u: "unat (word_of_nat (free_hi d - length rec) :: u32) = free_hi d - length rec"
    using \<open>free_hi d \<le> 4096\<close> by (intro unat_of_nat_page) simp
  show ?thesis
    by (simp add: place_record_def placed_def Let_def d(1) e u MarkDirty_def v new_count_def target_def
        write_slot_def kHeaderSize_def kSlotSize_def mult.commute add.commute split: option.split)
qed

lemma placed_fields:
  assumes ok: "layout_ok d" and p: "page_ok d" and c: "can_place d r (length rec)"
    and r: "free_target d r"
  defines "d' \<equiv> placed d r rec"
  shows "page_ok d'" "count d' = new_count d r" "free_lo d' = 32 + 12 * new_count d r"
    "free_hi d' = free_hi d - length rec"
    "\<And>off. off = 0 \<or> off = 16 \<or> off = 20 \<or> off = 24 \<or> off = 28 \<Longrightarrow> LoadU32LittleEndian d' off = LoadU32LittleEndian d off"
    "\<And>s f. s < new_count d r \<Longrightarrow> f \<in> {0, 4, 8} \<Longrightarrow> SlotField d' s f =
       (if s = target d r then (if f = 0 then word_of_nat (free_hi d - length rec)
          else if f = 4 then word_of_nat (length rec) else kUsedSlot) else SlotField d s f)"
    "\<And>o' n. free_hi d \<le> o' \<Longrightarrow> o' + n \<le> 4096 \<Longrightarrow> get_bytes o' n d' = get_bytes o' n d"
    "get_bytes (free_hi d - length rec) (length rec) d' = rec"
    "new_count d r \<le> 338" "target d r < new_count d r"
proof -
  note D = layout_okD[OF ok]
  let ?e = "free_hi d - length rec"
  define d1 where "d1 = put_bytes ?e rec d"
  define d2 where "d2 = write_slot d1 (target d r) (word_of_nat ?e) (word_of_nat (length rec)) kUsedSlot"
  define d3 where "d3 = (if r = None then StoreU32LittleEndian d2 kSlotCountOffset (word_of_nat (new_count d r)) else d2)"
  define d4 where "d4 = StoreU32LittleEndian d3 kFreeStartOffset (word_of_nat (32 + 12 * new_count d r))"
  have d': "d' = StoreU32LittleEndian d4 kFreeEndOffset (word_of_nat ?e)"
    by (simp add: d'_def placed_def Let_def d1_def d2_def d3_def d4_def)
  have e: "32 + 12 * new_count d r \<le> ?e" "?e + length rec = free_hi d" "?e + length rec \<le> page_size" "?e \<le> 4096"
    using c D(4) by (auto simp: can_place_def page_size_def)
  then show nc: "new_count d r \<le> 338" using D(4) by simp
  show t: "target d r < new_count d r"
    using r by (cases r) (auto simp: free_target_def target_def new_count_def)
  then have t338: "target d r < 338" using nc by simp
  have p1: "page_ok d1" using e p by (simp add: d1_def length_put_bytes)
  have p2: "page_ok d2" using p1 by (simp add: d2_def)
  have p3: "page_ok d3" using p2 by (simp add: d3_def)
  have p4: "page_ok d4" using p3 by (simp add: d4_def)
  show "page_ok d'" using p4 by (simp add: d')
  have h1: "LoadU32LittleEndian d2 off = LoadU32LittleEndian d off" if "off + 4 \<le> 32" for off
    using Load_header_write_slot[OF p1 t338 that] Load_header_put[OF p e(3) _ that] e(1)
    by (simp add: d2_def d1_def)
  show "LoadU32LittleEndian d' off = LoadU32LittleEndian d off"
    if "off = 0 \<or> off = 16 \<or> off = 20 \<or> off = 24 \<or> off = 28" for off
    using that p2 p3 p4 h1[of off]
    by (auto simp: d' d4_def d3_def Load_Store_header kFreeEndOffset_def kFreeStartOffset_def kSlotCountOffset_def)
  have u: "unat (word_of_nat ?e :: u32) = ?e" "unat (word_of_nat (new_count d r) :: u32) = new_count d r"
    "unat (word_of_nat (32 + 12 * new_count d r) :: u32) = 32 + 12 * new_count d r"
    using e(1,4) nc by (intro unat_of_nat_page; simp)+
  show "free_hi d' = ?e" using p4 u by (simp add: d' kFreeEndOffset_def page_size_def)
  show "free_lo d' = 32 + 12 * new_count d r"
    using p3 p4 u by (simp add: d' d4_def Load_Store_header kFreeEndOffset_def kFreeStartOffset_def page_size_def)
  show "count d' = new_count d r"
  proof (cases "r = None")
    case True
    with p2 p3 p4 u show ?thesis
      by (simp add: d' d4_def d3_def Load_Store_header kFreeEndOffset_def kFreeStartOffset_def kSlotCountOffset_def page_size_def)
  next
    case False
    then obtain y where "r = Some y" by blast
    with p2 p3 p4 h1[of 4] show ?thesis
      by (simp add: d' d4_def d3_def Load_Store_header kFreeEndOffset_def kFreeStartOffset_def kSlotCountOffset_def new_count_def)
  qed
  show "SlotField d' s f = (if s = target d r then (if f = 0 then word_of_nat ?e
          else if f = 4 then word_of_nat (length rec) else kUsedSlot) else SlotField d s f)"
    if "s < new_count d r" "f \<in> {0, 4, 8}" for s f
  proof -
    have "SlotField d' s f = SlotField d2 s f"
      using that nc p2 p3 p4
      by (auto simp: d' d4_def d3_def SlotField_Store_header kFreeEndOffset_def kFreeStartOffset_def kSlotCountOffset_def)
    moreover have "SlotField d1 s f = SlotField d s f"
      unfolding d1_def using SlotField_put[OF p e(3,1) that(1) nc] that(2) by auto
    ultimately show ?thesis
      using SlotField_write_slot[OF p1 t338 _ that(2), of s] that(1) nc by (simp add: d2_def)
  qed
  have g: "get_bytes o' n d' = get_bytes o' n d1" if "32 + 12 * new_count d r \<le> o'" "o' + n \<le> 4096" for o' n
  proof -
    have "get_bytes o' n d2 = get_bytes o' n d1"
      unfolding d2_def using get_bytes_write_slot[OF p1 t nc that(1)] that(2) by (simp add: page_size_def)
    then show ?thesis
      using that p2 p3 p4
      by (simp add: d' d4_def d3_def get_bytes_Store_header kFreeEndOffset_def kFreeStartOffset_def kSlotCountOffset_def page_size_def)
  qed
  show "get_bytes o' n d' = get_bytes o' n d" if "free_hi d \<le> o'" "o' + n \<le> 4096" for o' n
    using g[of o' n] that e p by (simp add: d1_def get_put_disjoint page_size_def)
  show "get_bytes ?e (length rec) d' = rec"
    using g[of ?e "length rec"] e p by (simp add: d1_def get_put_same page_size_def)
qed

lemma placed_ok:
  assumes ok: "layout_ok d" and p: "page_ok d" and c: "can_place d r (length rec)"
    and r: "free_target d r"
  shows "layout_ok (placed d r rec)"
    "page_records (placed d r rec) = (page_records d)(target d r \<mapsto> rec)"
proof -
  let ?d = "placed d r rec"
  let ?e = "free_hi d - length rec"
  note D = layout_okD[OF ok]
  note F = placed_fields[OF ok p c r]
  have c': "32 + 12 * new_count d r \<le> ?e" "?e \<le> 4096" "?e + length rec = free_hi d"
    using c D(4) by (auto simp: can_place_def)
  have u: "unat (word_of_nat ?e :: u32) = ?e" "unat (word_of_nat (length rec) :: u32) = length rec"
    using c' D(4) by (intro unat_of_nat_page; simp)+
  have t: "\<not> used d (target d r)" using r by (cases r) (auto simp: free_target_def target_def used_def)
  have lt: "s < new_count d r \<longleftrightarrow> s < count d \<or> s = target d r" for s
    using r by (cases r) (auto simp: free_target_def target_def new_count_def)
  have us: "used ?d s \<longleftrightarrow> used d s \<or> s = target d r" for s
    using F(6)[of s 8] by (auto simp: used_def F(2) lt)
  have fld: "SlotField ?d s f = SlotField d s f" if "used d s" "f \<in> {0, 4, 8}" for s f
  proof -
    have "s \<noteq> target d r" "s < new_count d r" using that(1) t lt by (auto simp: used_def)
    with F(6)[OF this(2) that(2)] show ?thesis by simp
  qed
  have tgt: "slot_off ?d (target d r) = ?e" "slot_len ?d (target d r) = length rec"
    using F(6)[OF F(10), of 0] F(6)[OF F(10), of 4] u by simp_all
  have "slots_ok ?d"
    unfolding slots_ok_def
  proof (intro conjI allI impI)
    fix s assume s: "s < count ?d"
    show "if SlotField ?d s 8 = kUsedSlot then free_hi ?d \<le> slot_off ?d s \<and> slot_off ?d s + slot_len ?d s \<le> 4096
        else SlotField ?d s 8 = kDeletedSlot \<and> SlotField ?d s 0 = 0 \<and> SlotField ?d s 4 = 0"
    proof (cases "s = target d r")
      case True
      with c' D(4) F(6)[OF F(10), of 8] show ?thesis by (simp add: tgt F(4))
    next
      case False
      then have sc: "s < count d" using s lt by (simp add: F(2))
      have e: "SlotField ?d s f = SlotField d s f" if "f \<in> {0, 4, 8}" for f
        using F(6)[OF _ that, of s] s False by (simp add: F(2))
      show ?thesis using D(5)[of s] D(7)[OF sc] sc by (auto simp: e F(4) used_def)
    qed
  next
    fix s q assume sq: "used ?d s" "used ?d q" "s \<noteq> q"
    show "apart ?d s q"
      using sq D(5)[of s] D(5)[of q] D(6)[of s q] c'(3) tgt
      by (auto simp: us apart_def fld)
  qed
  moreover have "header_ok ?d" using D(8) F(5) by (simp add: header_ok_def kPageTypeOffset_def kNextPageIdOffset_def)
  ultimately show "layout_ok ?d" using c' D(4) by (simp add: layout_ok_def F)
  show "page_records ?d = (page_records d)(target d r \<mapsto> rec)"
  proof
    fix s
    show "page_records ?d s = ((page_records d)(target d r \<mapsto> rec)) s"
    proof (cases "s = target d r")
      case True
      then show ?thesis using us tgt F(8) by (simp add: page_records_def)
    next
      case False
      then show ?thesis using us D(5)[of s] by (auto simp: page_records_def fld F(7))
    qed
  qed
qed

subsection \<open>Compaction\<close>

definition new_pos :: "byte list \<Rightarrow> nat \<Rightarrow> nat" where
  "new_pos d k = 4096 - used_below d k"

lemma new_pos_props:
  assumes "layout_ok d"
  shows "free_hi d \<le> new_pos d k" "new_pos d k \<le> 4096" "32 + 12 * count d \<le> new_pos d k"
    "used d k \<Longrightarrow> new_pos d (Suc k) + slot_len d k = new_pos d k"
    "k \<le> n \<Longrightarrow> new_pos d n \<le> new_pos d k"
  using used_below_bound[OF assms, of k] used_below_bound[OF assms, of "Suc k"] layout_okD(2-4)[OF assms]
    used_below_mono[of k n d]
  by (auto simp: new_pos_def used_below_Suc)

definition compacting :: "byte list \<Rightarrow> nat \<Rightarrow> byte list \<Rightarrow> bool" where
  "compacting d k d' \<longleftrightarrow>
     page_ok d' \<and> (\<forall>off. off + 4 \<le> 32 \<longrightarrow> LoadU32LittleEndian d' off = LoadU32LittleEndian d off) \<and>
     (\<forall>s < k. \<forall>f \<in> {0, 4, 8}. SlotField d' s f =
        (if used d s then (if f = 0 then word_of_nat (new_pos d (Suc s)) else if f = 4 then SlotField d s 4 else kUsedSlot)
         else (if f = 8 then kDeletedSlot else 0))) \<and>
     (\<forall>s < k. used d s \<longrightarrow>
        get_bytes (new_pos d (Suc s)) (slot_len d s) d' = get_bytes (slot_off d s) (slot_len d s) d)"

lemma compact_slot_step:
  assumes ok: "layout_ok d" and p: "page_ok d" and k: "k < count d" and c: "compacting d k d'"
  shows "\<exists>d''. compact_slot d (d', word_of_nat (new_pos d k)) k = (d'', word_of_nat (new_pos d (Suc k))) \<and>
    compacting d (Suc k) d''"
proof -
  note D = layout_okD[OF ok] note N = new_pos_props[OF ok]
  have k338: "k < 338" using k D(1) by simp
  have p': "page_ok d'" using c by (simp add: compacting_def)
  show ?thesis
  proof (cases "used d k")
    case False
    then have e: "compact_slot d (d', word_of_nat (new_pos d k)) k = (write_slot d' k 0 0 kDeletedSlot, word_of_nat (new_pos d (Suc k)))"
      using k by (simp add: compact_slot_def write_slot_def used_def new_pos_def used_below_Suc)
    have "get_bytes q n (write_slot d' k 0 0 kDeletedSlot) = get_bytes q n d'" if "32 + 12 * count d \<le> q" "q + n \<le> 4096" for q n
      using get_bytes_write_slot[OF p' k D(1) that(1)] that(2) by (simp add: page_size_def)
    then have "get_bytes (new_pos d (Suc s)) (slot_len d s) (write_slot d' k 0 0 kDeletedSlot) =
        get_bytes (slot_off d s) (slot_len d s) d" if "s < k" "used d s" for s
      using c that N(3)[of "Suc s"] N(4)[OF that(2)] N(2)[of s] by (simp add: compacting_def)
    moreover have "SlotField (write_slot d' k 0 0 kDeletedSlot) s f =
        (if s = k then (if f = 8 then kDeletedSlot else 0) else SlotField d' s f)" if "s < Suc k" "f \<in> {0, 4, 8}" for s f
      using SlotField_write_slot[OF p' k338, of s f] that k338 by auto
    ultimately have "compacting d (Suc k) (write_slot d' k 0 0 kDeletedSlot)"
      using c False Load_header_write_slot[OF p' k338] p'
      by (auto simp: compacting_def less_Suc_eq)
    with e show ?thesis by blast
  next
    case True
    let ?q = "new_pos d (Suc k)" and ?n = "slot_len d k"
    let ?bs = "get_bytes (slot_off d k) ?n d"
    let ?d1 = "put_bytes ?q ?bs d'"
    let ?d2 = "write_slot ?d1 k (word_of_nat ?q) (SlotField d k 4) kUsedSlot"
    have qn: "?q + ?n = new_pos d k" "?q + ?n \<le> 4096" using N(4)[OF True] N(2)[of k] by simp_all
    then have "word_of_nat (new_pos d k) - SlotField d k 4 = (word_of_nat ?q :: u32)"
      by (simp add: qn(1)[symmetric])
    moreover have "unat (word_of_nat ?q :: u32) = ?q" using qn by (intro unat_of_nat_page) simp
    moreover have "SlotField d k 4 = 0 \<longrightarrow> ?bs = []" by (simp add: get_bytes_def)
    ultimately have e: "compact_slot d (d', word_of_nat (new_pos d k)) k = (?d2, word_of_nat ?q)"
      using True by (auto simp: compact_slot_def Let_def used_def write_slot_def)
    have lb: "length ?bs = ?n" using D(5)[OF True] p by (simp add: length_get_bytes page_size_def)
    have pb: "?q + length ?bs \<le> length d'" using qn p' by (simp add: lb page_size_def)
    have p1: "page_ok ?d1" using pb p' by (simp add: length_put_bytes)
    have g: "get_bytes q n ?d2 = get_bytes q n ?d1" if "32 + 12 * count d \<le> q" "q + n \<le> 4096" for q n
      using get_bytes_write_slot[OF p1 k D(1) that(1)] that(2) by (simp add: page_size_def)
    have old: "get_bytes (new_pos d (Suc s)) (slot_len d s) ?d2 = get_bytes (slot_off d s) (slot_len d s) d"
      if "s < k" "used d s" for s
    proof -
      have "?q + length ?bs \<le> new_pos d (Suc s)" using N(5)[of "Suc s" k] that(1) qn by (simp add: lb)
      then show ?thesis
        using c that N(3)[of "Suc s"] N(4)[OF that(2)] N(2)[of s] pb p'
        by (simp add: g compacting_def get_put_disjoint page_size_def)
    qed
    have new: "get_bytes ?q ?n ?d2 = ?bs"
      using g[OF N(3) qn(2)] pb by (simp add: get_put_same lb)
    have s1: "SlotField ?d1 s f = SlotField d' s f" if "s < Suc k" "f \<in> {0, 4, 8}" for s f
      using SlotField_put[OF p', where off = ?q and bs = ?bs and n = "count d" and s = s and f = f] pb p' that k D(1) N(3)[of "Suc k"] by auto
    have f2: "SlotField ?d2 s f = (if s = k then (if f = 0 then word_of_nat ?q else if f = 4 then SlotField d k 4 else kUsedSlot)
        else SlotField d' s f)" if "s < Suc k" "f \<in> {0, 4, 8}" for s f
      using SlotField_write_slot[OF p1 k338 _ that(2), of s] s1[OF that] that(1) k338 by auto
    have "LoadU32LittleEndian ?d2 off = LoadU32LittleEndian d off" if "off + 4 \<le> 32" for off
      using Load_header_write_slot[OF p1 k338 that] Load_header_put[OF p' _ _ that, of ?q ?bs] pb p' c that N(3)[of "Suc k"]
      by (simp add: compacting_def)
    then have "compacting d (Suc k) ?d2"
      using c p1 old new f2 True by (auto simp: compacting_def less_Suc_eq)
    with e show ?thesis by blast
  qed
qed

lemma compact_loop:
  assumes ok: "layout_ok d" and p: "page_ok d" and "k \<le> count d"
  shows "\<exists>d'. foldl (compact_slot d) (d, word_of_nat page_size) [0..<k] = (d', word_of_nat (new_pos d k)) \<and> compacting d k d'"
  using assms(3)
proof (induction k)
  case 0
  then show ?case using p by (auto simp: compacting_def new_pos_def page_size_def)
next
  case (Suc k)
  then obtain d' where "foldl (compact_slot d) (d, word_of_nat page_size) [0..<k] = (d', word_of_nat (new_pos d k))"
    "compacting d k d'" by auto
  with compact_slot_step[OF ok p _ this(2)] Suc.prems show ?case by auto
qed

lemma Compact_result:
  assumes v: "guard_valid page" and ok: "layout_ok (guard_data page)" and p: "page_ok (guard_data page)"
  defines "d \<equiv> guard_data page"
  obtains d' where "Compact page = (page\<lparr>guard_data := d', guard_dirty := True\<rparr>, Code_Ok)"
    "page_ok d'" "layout_ok d'" "page_records d' = page_records d" "count d' = count d"
    "LoadU32LittleEndian d' kNextPageIdOffset = LoadU32LittleEndian d kNextPageIdOffset"
    "free_hi d' = new_pos d (count d)" "\<And>s. used d' s = used d s"
proof -
  have ok: "layout_ok d" and p: "page_ok d" using assms by simp_all
  note D = layout_okD[OF ok] note N = new_pos_props[OF ok]
  let ?e = "new_pos d (count d)"
  from compact_loop[OF ok p order_refl] obtain d1 where
    d1: "foldl (compact_slot d) (d, word_of_nat page_size) [0..<count d] = (d1, word_of_nat ?e)"
    and c: "compacting d (count d) d1" by blast
  have ue: "unat (word_of_nat ?e :: u32) = ?e" using N(2) by (rule unat_of_nat_page)
  let ?z = "replicate (?e - free_lo d) (0::byte)"
  define d2 where "d2 = put_bytes (free_lo d) ?z d1"
  define d3 where "d3 = StoreU32LittleEndian d2 kFreeEndOffset (word_of_nat ?e)"
  have p1: "page_ok d1" using c by (simp add: compacting_def)
  have fl: "free_lo d \<le> ?e" using N(1)[of "count d"] D(3) by simp
  have zb: "free_lo d + length ?z \<le> page_size" using fl N(2)[of "count d"] by (simp add: page_size_def)
  have p2: "page_ok d2" using zb p1 by (simp add: d2_def length_put_bytes)
  have p3: "page_ok d3" using p2 by (simp add: d3_def)
  have eq: "Compact page = (page\<lparr>guard_data := d3, guard_dirty := True\<rparr>, Code_Ok)"
    using v ok d1 by (simp add: Compact_def Let_def ValidateBytes_iff d_def[symmetric] ue d2_def d3_def MarkDirty_def)
  have h2: "LoadU32LittleEndian d2 off = LoadU32LittleEndian d off" if "off + 4 \<le> 32" for off
    using Load_header_put[OF p1 zb _ that] c that D(2) by (simp add: d2_def compacting_def)
  have h3: "LoadU32LittleEndian d3 off = LoadU32LittleEndian d off" if "off + 4 \<le> 32" "off \<noteq> 12" "off + 4 \<le> 12 \<or> 16 \<le> off" for off
    using h2[OF that(1)] that p2 by (simp add: d3_def Load_Store_header kFreeEndOffset_def)
  have H: "count d3 = count d" "free_lo d3 = free_lo d" "header_ok d3 = header_ok d"
    "LoadU32LittleEndian d3 kNextPageIdOffset = LoadU32LittleEndian d kNextPageIdOffset"
    by (simp_all add: h3 kSlotCountOffset_def kFreeStartOffset_def header_ok_def kPageTypeOffset_def kNextPageIdOffset_def)
  have E: "free_hi d3 = ?e" using p2 ue by (simp add: d3_def kFreeEndOffset_def page_size_def)
  have S: "SlotField d3 s f = (if used d s then (if f = 0 then word_of_nat (new_pos d (Suc s)) else if f = 4 then SlotField d s 4 else kUsedSlot)
         else (if f = 8 then kDeletedSlot else 0))" if "s < count d" "f \<in> {0, 4, 8}" for s f
  proof -
    have "SlotField d3 s f = SlotField d1 s f"
      using SlotField_Store_header[OF p2, of kFreeEndOffset s f] SlotField_put[OF p1 zb _ that(1) D(1), of f] that D(1,2)
      by (auto simp: d3_def d2_def kFreeEndOffset_def)
    with c that show ?thesis unfolding compacting_def by auto
  qed
  have U: "used d3 s \<longleftrightarrow> used d s" for s
    using S[of s 8] used_not_deleted by (auto simp: used_def H split: if_splits)
  have O: "slot_off d3 s = new_pos d (Suc s)" "slot_len d3 s = slot_len d s" if "used d s" for s
  proof -
    have "s < count d" using that by (simp add: used_def)
    with S[OF this, of 0] S[OF this, of 4] that N(2)[of "Suc s"]
    show "slot_off d3 s = new_pos d (Suc s)" "slot_len d3 s = slot_len d s" by (simp_all add: unat_of_nat_page)
  qed
  have R: "get_bytes (new_pos d (Suc s)) (slot_len d s) d3 = get_bytes (slot_off d s) (slot_len d s) d" if "used d s" for s
  proof -
    have "s < count d" using that by (simp add: used_def)
    then have "?e \<le> new_pos d (Suc s)" by (intro N(5)) simp
    moreover have "new_pos d (Suc s) + slot_len d s \<le> 4096" using N(4)[OF that] N(2)[of s] by simp
    ultimately have "get_bytes (new_pos d (Suc s)) (slot_len d s) d3 = get_bytes (new_pos d (Suc s)) (slot_len d s) d1"
      using p1 p2 zb fl N(3)[of "count d"]
      by (simp add: d3_def d2_def get_bytes_Store_header kFreeEndOffset_def get_put_disjoint page_size_def)
    with c that \<open>s < count d\<close> show ?thesis by (simp add: compacting_def)
  qed
  have "apart d3 s q" if "used d s" "used d q" "s \<noteq> q" for s q
  proof -
    have "Suc s \<le> q \<or> Suc q \<le> s" using that(3) by linarith
    then show ?thesis
      using N(4)[OF that(1)] N(4)[OF that(2)] N(5)[of "Suc s" q] N(5)[of "Suc q" s]
      by (auto simp: apart_def O[OF that(1)] O[OF that(2)])
  qed
  moreover have "if SlotField d3 s 8 = kUsedSlot then free_hi d3 \<le> slot_off d3 s \<and> slot_off d3 s + slot_len d3 s \<le> 4096
      else SlotField d3 s 8 = kDeletedSlot \<and> SlotField d3 s 0 = 0 \<and> SlotField d3 s 4 = 0" if s: "s < count d" for s
  proof (cases "used d s")
    case True
    then show ?thesis
      using O[OF True] N(4)[OF True] N(2)[of s] N(5)[of "Suc s" "count d"] s S[OF s, of 8] by (simp add: E)
  next
    case False
    then show ?thesis using S[OF s] used_not_deleted by simp
  qed
  ultimately have "slots_ok d3" unfolding slots_ok_def by (simp add: H U)
  then have "layout_ok d3" using D fl N(2)[of "count d"] by (simp add: layout_ok_def H E)
  moreover have "page_records d3 = page_records d"
    by (auto simp: page_records_def U O R fun_eq_iff)
  ultimately show thesis using that[OF eq p3] H E U by blast
qed

subsection \<open>Inserting\<close>

definition guard_ok :: "PageGuard \<Rightarrow> bool" where
  "guard_ok page \<longleftrightarrow> guard_valid page \<and> page_ok (guard_data page) \<and> ValidateBytes (guard_data page) = Code_Ok"

lemma guard_okD:
  assumes "guard_ok page"
  shows "guard_valid page" "page_ok (guard_data page)" "layout_ok (guard_data page)"
  using assms by (simp_all add: guard_ok_def ValidateBytes_iff)

definition free_space :: "byte list \<Rightarrow> nat" where
  "free_space d = page_size - kHeaderSize - kSlotSize * count d - used_below d (count d)"

definition first_deleted :: "byte list \<Rightarrow> nat option" where
  "first_deleted d = find (\<lambda>slot. SlotField d slot 8 = kDeletedSlot) [0..<count d]"

definition space_needed :: "byte list \<Rightarrow> byte list \<Rightarrow> nat" where
  "space_needed d record = length record + (if first_deleted d = None then kSlotSize else 0)"

lemma first_deleted_free: "free_target d (first_deleted d)"
  using used_not_deleted
  by (auto simp: free_target_def first_deleted_def used_def find_Some_iff split: option.split)

lemma total_free_eq:
  assumes ok: "layout_ok d"
  shows "unat (word_of_nat page_size - ucast (LoadU32LittleEndian d kFreeStartOffset) - active_bytes d (count d) :: u64)
    = free_space d"
proof -
  note D = layout_okD[OF ok]
  have ub: "used_below d (count d) \<le> 4096 - free_lo d" using used_below_bound[OF ok, of "count d"] D(3) by simp
  let ?p = "word_of_nat page_size :: u64" and ?f = "ucast (LoadU32LittleEndian d kFreeStartOffset) :: u64"
  have p: "unat ?p = 4096" by (simp add: page_size_def)
  have f: "unat ?f = free_lo d"
    by (simp add: unsigned_ucast_eq take_bit_nat_eq_self unsigned_less[THEN less_trans])
  have "?f \<le> ?p" using D(3,4) by (simp add: word_le_nat_alt p f)
  then have pf: "unat (?p - ?f) = 4096 - free_lo d" by (simp only: unat_sub p f)
  have "active_bytes d (count d) \<le> ?p - ?f"
    using active_bytes_eq[OF ok order_refl] ub pf by (simp add: word_le_nat_alt)
  then have "unat (?p - ?f - active_bytes d (count d)) = 4096 - free_lo d - used_below d (count d)"
    by (simp only: unat_sub pf active_bytes_eq[OF ok order_refl])
  then show ?thesis using D(2) by (simp add: free_space_def page_size_def kHeaderSize_def kSlotSize_def)
qed

lemma required_eq:
  assumes "length record \<le> kMaxRecordSize"
  shows "unat (word_of_nat (length record) + (if r = None then word_of_nat kSlotSize else 0) :: u64)
    = length record + (if r = None then kSlotSize else 0)"
proof -
  have "unat (word_of_nat n :: u64) = n" if "n \<le> 4096" for n
    using that by (simp add: unsigned_of_nat take_bit_nat_eq_self)
  from this[of "length record"] this[of "length record + kSlotSize"] assms show ?thesis
    by (cases "r = None") (simp_all add: kMaxRecordSize_def page_consts)
qed

lemma InsertRecord_full:
  assumes g: "guard_ok page" and len: "length record \<le> kMaxRecordSize"
    and full: "space_needed (guard_data page) record > free_space (guard_data page)"
  shows "InsertRecord page record = (page, Inl OutOfSpace)"
proof -
  note G = guard_okD[OF g]
  have "length record \<le> 2 ^ 32 - 1" using len by (simp add: kMaxRecordSize_def page_consts)
  then show ?thesis
    using G len full ValidateBytes_iff[of "guard_data page"] required_eq[OF len, of "first_deleted (guard_data page)"]
      total_free_eq[OF G(3)]
    by (simp add: InsertRecord_def Let_def first_deleted_def[symmetric] space_needed_def word_less_nat_alt)
qed

lemma InsertRecord_fits:
  assumes g: "guard_ok page" and len: "length record \<le> kMaxRecordSize"
    and fits: "space_needed (guard_data page) record \<le> free_space (guard_data page)"
  shows "\<exists>page' s. InsertRecord page record = (page', Inr s) \<and> guard_ok page' \<and> guard_dirty page' \<and>
    page_records (guard_data page) (unat s) = None \<and>
    page_records (guard_data page') = (page_records (guard_data page))(unat s \<mapsto> record) \<and>
    LoadU32LittleEndian (guard_data page') kNextPageIdOffset = LoadU32LittleEndian (guard_data page) kNextPageIdOffset"
proof -
  note G = guard_okD[OF g]
  let ?d = "guard_data page" and ?r = "first_deleted (guard_data page)"
  note D = layout_okD[OF G(3)]
  note ft = first_deleted_free[of ?d]
  have l32: "length record \<le> 2 ^ 32 - 1" using len by (simp add: kMaxRecordSize_def page_consts)
  have room: "length record + 12 * new_count ?d ?r + 32 + used_below ?d (count ?d) \<le> 4096"
    using fits used_below_bound[OF G(3), of "count ?d"] D(2-4)
    by (auto simp: space_needed_def free_space_def new_count_def page_consts split: if_splits)
  then have slots: "\<not> (?r = None \<and> count ?d \<ge> (page_size - kHeaderSize) div kSlotSize)"
    by (auto simp: new_count_def page_consts)
  have step: "InsertRecord page record =
    (if can_place ?d ?r (length record) then place_record ?r record page
     else (case Compact page of (page', status) \<Rightarrow>
             if status \<noteq> Code_Ok then (page', Inl status)
             else if \<not> can_place (guard_data page') ?r (length record) then (page', Inl OutOfSpace)
             else place_record ?r record page'))"
    using G(1,3) len l32 fits required_eq[OF len, of ?r] total_free_eq[OF G(3)] ValidateBytes_iff[of ?d]
    unfolding InsertRecord_def Let_def first_deleted_def[symmetric] has_contiguous_space_fun
    by (simp add: space_needed_def word_less_nat_alt if_not_P[OF slots])
  have tu: "unat (word_of_nat (target ?d ?r) :: u32) = target ?d ?r"
    using ft D(1) by (intro unat_of_nat_page) (auto simp: target_def free_target_def split: option.splits)
  have none: "page_records ?d (target ?d ?r) = None"
    using ft by (auto simp: page_records_None target_def free_target_def used_def split: option.splits)
  show ?thesis
  proof (cases "can_place ?d ?r (length record)")
    case True
    note P = placed_fields[OF G(3,2) True ft] and O = placed_ok[OF G(3,2) True ft]
    show ?thesis
      using step True place_record_eq[OF G(1) refl G(3) True] O P(1,5) none tu G(1)
      by (auto simp: guard_ok_def ValidateBytes_iff kNextPageIdOffset_def)
  next
    case False
    from Compact_result[OF G(1,3,2)] obtain d' where
      c: "Compact page = (page\<lparr>guard_data := d', guard_dirty := True\<rparr>, Code_Ok)" "page_ok d'" "layout_ok d'"
        "page_records d' = page_records ?d" "count d' = count ?d"
        "LoadU32LittleEndian d' kNextPageIdOffset = LoadU32LittleEndian ?d kNextPageIdOffset"
        "free_hi d' = new_pos ?d (count ?d)" "\<And>s. used d' s = used ?d s" by blast
    let ?p = "page\<lparr>guard_data := d', guard_dirty := True\<rparr>"
    have nt: "new_count d' ?r = new_count ?d ?r" "target d' ?r = target ?d ?r" "free_target d' ?r"
      using ft by (simp_all add: new_count_def target_def free_target_def c(5,8) split: option.splits)
    have cp: "can_place d' ?r (length record)"
      unfolding can_place_def nt c(7) new_pos_def using room by (intro conjI; linarith)
    note P = placed_fields[OF c(3,2) cp nt(3)] and O = placed_ok[OF c(3,2) cp nt(3)]
    have "InsertRecord page record = place_record ?r record ?p"
      using step False c(1) cp by simp
    then show ?thesis
      using place_record_eq[of ?p d' ?r "record"] cp O P(1,5) none tu G(1) c
      by (auto simp: guard_ok_def ValidateBytes_iff kNextPageIdOffset_def nt(2))
  qed
qed

subsection \<open>A record store\<close>

text \<open>
  What the heap tables rely on: a page is a partial map from slots to records. An insertion picks
  a free slot, a failed one changes no record, a deletion removes exactly its slot, and reading
  returns the map's value. The client's law is about whole histories: the replies of a page
  agree with those of the abstract map that makes the same choices.
\<close>

datatype page_op = Ins "byte list" | Del nat

datatype page_reply = Inserted nat | Rejected | Deleted

fun abs_reply :: "page_op \<Rightarrow> page_reply \<Rightarrow> (nat \<rightharpoonup> byte list) \<Rightarrow> (nat \<rightharpoonup> byte list) option" where
  "abs_reply (Ins r) (Inserted s) m = (if m s = None then Some (m(s \<mapsto> r)) else None)"
| "abs_reply (Ins r) Rejected m = Some m"
| "abs_reply (Del s) Deleted m = (if m s = None then None else Some (m(s := None)))"
| "abs_reply (Del s) Rejected m = (if m s = None then Some m else None)"
| "abs_reply _ _ m = None"

fun abs_run :: "page_op list \<Rightarrow> page_reply list \<Rightarrow> (nat \<rightharpoonup> byte list) \<Rightarrow> (nat \<rightharpoonup> byte list) option" where
  "abs_run [] [] m = Some m"
| "abs_run (x # xs) (y # ys) m = Option.bind (abs_reply x y m) (abs_run xs ys)"
| "abs_run _ _ m = None"

locale record_store =
  fixes ins :: "'p \<Rightarrow> byte list \<Rightarrow> 'p \<times> nat option"
    and del :: "'p \<Rightarrow> nat \<Rightarrow> 'p \<times> bool"
    and get :: "'p \<Rightarrow> nat \<Rightarrow> byte list option"
    and valid :: "'p \<Rightarrow> bool"
  assumes ins_some: "valid p \<Longrightarrow> ins p r = (p', Some s) \<Longrightarrow> valid p' \<and> get p s = None \<and> get p' = (get p)(s \<mapsto> r)"
    and ins_none: "valid p \<Longrightarrow> ins p r = (p', None) \<Longrightarrow> p' = p"
    and del_true: "valid p \<Longrightarrow> del p s = (p', True) \<Longrightarrow> valid p' \<and> get p s \<noteq> None \<and> get p' = (get p)(s := None)"
    and del_false: "valid p \<Longrightarrow> del p s = (p', False) \<Longrightarrow> p' = p \<and> get p s = None"
begin

fun store_step :: "page_op \<Rightarrow> 'p \<Rightarrow> 'p \<times> page_reply" where
  "store_step (Ins r) p = (case ins p r of (p', None) \<Rightarrow> (p', Rejected) | (p', Some s) \<Rightarrow> (p', Inserted s))"
| "store_step (Del s) p = (case del p s of (p', b) \<Rightarrow> (p', if b then Deleted else Rejected))"

fun store_run :: "page_op list \<Rightarrow> 'p \<Rightarrow> 'p \<times> page_reply list" where
  "store_run [] p = (p, [])"
| "store_run (x # xs) p = (case store_step x p of (p1, y) \<Rightarrow> case store_run xs p1 of (p2, ys) \<Rightarrow> (p2, y # ys))"

lemma store_step_refines:
  assumes "valid p" "store_step x p = (p', y)"
  shows "valid p' \<and> abs_reply x y (get p) = Some (get p')"
proof (cases x)
  case (Ins r)
  with assms ins_some[of p r] ins_none[of p r] show ?thesis
    by (cases "ins p r") (auto split: option.splits)
next
  case (Del s)
  with assms del_true[of p s] del_false[of p s] show ?thesis
    by (cases "del p s") (auto split: if_splits)
qed

theorem store_run_refines:
  "valid p \<Longrightarrow> store_run xs p = (p', ys) \<Longrightarrow> valid p' \<and> abs_run xs ys (get p) = Some (get p')"
proof (induction xs arbitrary: p p' ys)
  case (Cons x xs)
  obtain p1 y where s: "store_step x p = (p1, y)" by fastforce
  obtain p2 zs where r: "store_run xs p1 = (p2, zs)" by fastforce
  from store_step_refines[OF Cons.prems(1) s] Cons.IH[OF _ r] Cons.prems(2) s r show ?case by auto
qed auto

end

text \<open>The page operations with their error codes collapsed; a slot number is read as the code's
  32-bit identifier.\<close>

definition page_ins :: "PageGuard \<Rightarrow> byte list \<Rightarrow> PageGuard \<times> nat option" where
  "page_ins p r = (case InsertRecord p r of (p', Inl e) \<Rightarrow> (p', None) | (p', Inr s) \<Rightarrow> (p', Some (unat s)))"

definition page_del :: "PageGuard \<Rightarrow> nat \<Rightarrow> PageGuard \<times> bool" where
  "page_del p s = (if s < 2 ^ 32 then (case DeleteRecord p (word_of_nat s) of (p', c) \<Rightarrow> (p', c = Code_Ok)) else (p, False))"

definition page_get :: "PageGuard \<Rightarrow> nat \<Rightarrow> byte list option" where
  "page_get p s = (if s < 2 ^ 32 then (case GetRecord p (word_of_nat s) of Inl e \<Rightarrow> None | Inr r \<Rightarrow> Some r) else None)"

lemma DeleteRecord_result:
  assumes g: "guard_ok page" and u: "used (guard_data page) (unat slot)"
  defines "d' \<equiv> write_slot (guard_data page) (unat slot) 0 0 kDeletedSlot"
  shows "DeleteRecord page slot = (page\<lparr>guard_data := d', guard_dirty := True\<rparr>, Code_Ok)"
    "guard_ok (page\<lparr>guard_data := d', guard_dirty := True\<rparr>)"
    "page_records d' = (page_records (guard_data page))(unat slot := None)"
    "LoadU32LittleEndian d' kNextPageIdOffset = LoadU32LittleEndian (guard_data page) kNextPageIdOffset"
proof -
  note G = guard_okD[OF g]
  have s: "unat slot < count (guard_data page)" using u by (simp add: used_def)
  note L = layout_ok_write_slot_deleted[OF G(3,2) s, folded d'_def]
  show "DeleteRecord page slot = (page\<lparr>guard_data := d', guard_dirty := True\<rparr>, Code_Ok)"
    using G s u by (simp add: DeleteRecord_def Let_def ValidateBytes_iff word_le_nat_alt used_def MarkDirty_def
        d'_def write_slot_def)
  show "guard_ok (page\<lparr>guard_data := d', guard_dirty := True\<rparr>)"
    using L G by (simp add: guard_ok_def ValidateBytes_iff) (simp add: d'_def)
  show "page_records d' = (page_records (guard_data page))(unat slot := None)" using L by simp
  show "LoadU32LittleEndian d' kNextPageIdOffset = LoadU32LittleEndian (guard_data page) kNextPageIdOffset"
    using L by (simp add: kNextPageIdOffset_def)
qed

lemma DeleteRecord_absent:
  "guard_ok page \<Longrightarrow> \<not> used (guard_data page) (unat slot) \<Longrightarrow> DeleteRecord page slot = (page, NotFound)"
  using guard_okD[of page] by (auto simp: DeleteRecord_def Let_def ValidateBytes_iff word_le_nat_alt used_def)

lemma used_small: "guard_ok p \<Longrightarrow> used (guard_data p) s \<Longrightarrow> s < 2 ^ 32"
  using layout_okD(1)[OF guard_okD(3)] by (fastforce simp: used_def)

lemma page_get_eq: "guard_ok p \<Longrightarrow> page_get p = page_records (guard_data p)"
proof
  fix s assume g: "guard_ok p"
  show "page_get p s = page_records (guard_data p) s"
  proof (cases "s < 2 ^ 32")
    case True
    then show ?thesis
      using GetRecord_eq[OF guard_okD(1,3)[OF g], of "word_of_nat s"]
      by (simp add: page_get_def unat_word_of_nat_u32 split: option.split)
  next
    case False
    with used_small[OF g, of s] have "\<not> used (guard_data p) s" by blast
    then show ?thesis using False by (simp add: page_get_def page_records_def)
  qed
qed

lemma InsertRecord_cases:
  assumes g: "guard_ok page"
  shows "InsertRecord page record =
      (page, Inl (if length record > 2 ^ 32 - 1 then InvalidArgument
         else if length record > kMaxRecordSize then RecordTooLarge else OutOfSpace)) \<or>
    (\<exists>page' s. InsertRecord page record = (page', Inr s) \<and> guard_ok page' \<and>
       page_records (guard_data page) (unat s) = None \<and>
       page_records (guard_data page') = (page_records (guard_data page))(unat s \<mapsto> record))"
proof (cases "length record > kMaxRecordSize")
  case True
  with g guard_okD[OF g] show ?thesis by (auto simp: InsertRecord_def guard_ok_def)
next
  case False
  then have "length record \<le> kMaxRecordSize" "\<not> length record > 2 ^ 32 - 1"
    by (simp_all add: kMaxRecordSize_def page_consts)
  with InsertRecord_full[OF g] InsertRecord_fits[OF g] show ?thesis
    by (cases "space_needed (guard_data page) record > free_space (guard_data page)") (simp, fastforce)
qed

interpretation page_store: record_store page_ins page_del page_get guard_ok
proof unfold_locales
  fix p p' r s
  assume g: "guard_ok p"
  show "page_ins p r = (p', Some s) \<Longrightarrow> guard_ok p' \<and> page_get p s = None \<and> page_get p' = (page_get p)(s \<mapsto> r)"
    using InsertRecord_cases[OF g, of r] g by (auto simp: page_ins_def page_get_eq split: prod.splits sum.splits)
  show "page_ins p r = (p', None) \<Longrightarrow> p' = p"
    using InsertRecord_cases[OF g, of r] by (auto simp: page_ins_def split: prod.splits sum.splits)
  have w: "unat (word_of_nat s :: u32) = s" if "s < 2 ^ 32" using that by (rule unat_word_of_nat_u32)
  show "page_del p s = (p', True) \<Longrightarrow> guard_ok p' \<and> page_get p s \<noteq> None \<and> page_get p' = (page_get p)(s := None)"
    using DeleteRecord_result[OF g, of "word_of_nat s"] DeleteRecord_absent[OF g, of "word_of_nat s"] w g
    by (cases "used (guard_data p) s") (auto simp: page_del_def page_get_eq page_records_None split: if_splits)
  show "page_del p s = (p', False) \<Longrightarrow> p' = p \<and> page_get p s = None"
    using DeleteRecord_result[OF g, of "word_of_nat s"] DeleteRecord_absent[OF g, of "word_of_nat s"] w g
      used_small[OF g, of s]
    by (cases "used (guard_data p) s") (auto simp: page_del_def page_get_eq page_records_None split: if_splits)
qed

subsection \<open>Properties\<close>

definition fresh_page :: PageGuard where
  "fresh_page = \<lparr>guard_valid = True, guard_data = replicate page_size 0, guard_dirty = False\<rparr>"

lemma Initialize_result:
  assumes "guard_valid page" and "next_page \<noteq> 0" and "Initialize page next_page = (page', code)"
  shows "code = Code_Ok \<and> guard_ok page' \<and> page_records (guard_data page') = Map.empty \<and>
    NextPageId page' = Inr next_page \<and> SlotCount page' = Inr 0"
proof -
  define d where "d = StoreU32LittleEndian (StoreU32LittleEndian (StoreU32LittleEndian (StoreU32LittleEndian
    (StoreU32LittleEndian (replicate page_size 0) kPageTypeOffset kPageType) kSlotCountOffset 0)
    kFreeStartOffset (word_of_nat kHeaderSize)) kFreeEndOffset (word_of_nat page_size)) kNextPageIdOffset next_page"
  have p': "page' = page\<lparr>guard_data := d, guard_dirty := True\<rparr>" "code = Code_Ok"
    using assms by (simp_all add: Initialize_def Let_def MarkDirty_def d_def)
  have l: "LoadU32LittleEndian d 0 = kPageType" "LoadU32LittleEndian d 4 = 0" "LoadU32LittleEndian d 8 = word_of_nat kHeaderSize"
    "LoadU32LittleEndian d 12 = word_of_nat page_size" "LoadU32LittleEndian d 16 = next_page"
    "LoadU32LittleEndian d 20 = 0" "LoadU32LittleEndian d 24 = 0" "LoadU32LittleEndian d 28 = 0"
    by (simp_all add: d_def Load_Store_other Load_replicate_zero page_consts(2-) page_size_bound)
  have p: "page_ok d" by (simp add: d_def)
  have "layout_ok d"
    using l assms(2) by (simp add: layout_ok_def header_ok_def slots_ok_def used_def page_consts)
  moreover have "\<not> used d s" for s using l by (simp add: used_def kSlotCountOffset_def)
  ultimately show ?thesis
    using p p' assms(1) l
    by (simp add: guard_ok_def ValidateBytes_iff page_records_def fun_eq_iff NextPageId_def SlotCount_def Validate_def
        kNextPageIdOffset_def kSlotCountOffset_def)
qed

lemma fresh_ok:
  "guard_ok (fst (Initialize fresh_page 9))" "page_records (guard_data (fst (Initialize fresh_page 9))) = Map.empty"
  "SlotCount (fst (Initialize fresh_page 9)) = Inr 0"
  using Initialize_result[of fresh_page 9, OF _ _ prod.collapse[symmetric]] by (simp_all add: fresh_page_def)

text \<open>Initialising a page makes it valid and empty, with the next page it was given.\<close>

theorem Initialize_empty:
  assumes "guard_valid page" and "next_page \<noteq> 0" and "Initialize page next_page = (page', code)"
  shows "code = Code_Ok \<and> guard_ok page' \<and> page_records (guard_data page') = Map.empty \<and>
    NextPageId page' = Inr next_page \<and> SlotCount page' = Inr 0"
  by (rule Initialize_result[OF assms])

theorem Initialize_empty_witness: "guard_ok (fst (Initialize fresh_page 9))"
  using Initialize_empty[of fresh_page 9, OF _ _ prod.collapse[symmetric]] by (simp add: fresh_page_def)

text \<open>An insertion of a record of admissible size succeeds exactly when the page has room for it
  and, if no deleted slot can be reused, for one more slot. It then stores the record under a slot
  that was free and changes no other record, compacting the page if it must. Otherwise the page is
  left as it was and the code is \<open>OutOfSpace\<close>.\<close>

theorem InsertRecord_exact:
  assumes "guard_ok page" and "length rec \<le> kMaxRecordSize"
  shows "if space_needed (guard_data page) rec \<le> free_space (guard_data page)
    then \<exists>page' s. InsertRecord page rec = (page', Inr s) \<and> guard_ok page' \<and> guard_dirty page' \<and>
      page_records (guard_data page) (unat s) = None \<and>
      page_records (guard_data page') = (page_records (guard_data page))(unat s \<mapsto> rec) \<and>
      NextPageId page' = NextPageId page
    else InsertRecord page rec = (page, Inl OutOfSpace)"
proof (cases "space_needed (guard_data page) rec \<le> free_space (guard_data page)")
  case True
  from InsertRecord_fits[OF assms True] assms(1) True show ?thesis
    by (auto simp: NextPageId_def Validate_def guard_ok_def)
next
  case False
  with InsertRecord_full[OF assms] show ?thesis by simp
qed

lemma fresh_space:
  assumes "guard_ok p" "page_records (guard_data p) = Map.empty" "SlotCount p = Inr 0"
  shows "free_space (guard_data p) = 4064" "first_deleted (guard_data p) = None"
proof -
  have c: "count (guard_data p) = 0"
    using assms(1,3) by (auto simp: SlotCount_def Validate_def guard_ok_def)
  show "free_space (guard_data p) = 4064"
    unfolding free_space_def c by (simp add: page_consts)
  show "first_deleted (guard_data p) = None"
    unfolding first_deleted_def c by simp
qed

theorem InsertRecord_exact_witness:
  "\<exists>page' s. InsertRecord (fst (Initialize fresh_page 9)) [1, 2, 3] = (page', Inr s) \<and>
     page_records (guard_data page') (unat s) = Some [1, 2, 3]"
proof -
  let ?p = "fst (Initialize fresh_page 9)"
  have i: "guard_ok ?p" "page_records (guard_data ?p) = Map.empty" "SlotCount ?p = Inr 0"
    by (simp_all add: fresh_ok)
  show ?thesis
    using InsertRecord_exact[OF i(1), of "[1, 2, 3]"] fresh_space[OF i]
    by (auto simp: space_needed_def kMaxRecordSize_def page_consts)
qed

text \<open>Compaction keeps the page valid, every record under its slot and the next page, and leaves
  all free space in one piece: the records end up packed at the end of the page.\<close>

theorem Compact_preserves:
  assumes "guard_ok page"
  shows "\<exists>page'. Compact page = (page', Code_Ok) \<and> guard_ok page' \<and>
    page_records (guard_data page') = page_records (guard_data page) \<and>
    NextPageId page' = NextPageId page \<and> SlotCount page' = SlotCount page \<and>
    free_hi (guard_data page') - free_lo (guard_data page') = free_space (guard_data page)"
proof -
  note G = guard_okD[OF assms]
  from Compact_result[OF G(1,3,2)] obtain d' where
    c: "Compact page = (page\<lparr>guard_data := d', guard_dirty := True\<rparr>, Code_Ok)" "page_ok d'" "layout_ok d'"
      "page_records d' = page_records (guard_data page)" "count d' = count (guard_data page)"
      "LoadU32LittleEndian d' kNextPageIdOffset = LoadU32LittleEndian (guard_data page) kNextPageIdOffset"
      "free_hi d' = new_pos (guard_data page) (count (guard_data page))" by blast
  have "free_hi d' - free_lo d' = free_space (guard_data page)"
    using layout_okD(2)[OF c(3)] c(5,7) by (simp add: new_pos_def free_space_def page_consts)
  moreover have "LoadU32LittleEndian d' kSlotCountOffset = LoadU32LittleEndian (guard_data page) kSlotCountOffset"
    using c(5) by (simp add: word_unat_eq_iff)
  ultimately show ?thesis
    using c G by (auto simp: guard_ok_def ValidateBytes_iff NextPageId_def SlotCount_def Validate_def)
qed

theorem Compact_preserves_witness:
  "\<exists>page'. Compact (fst (Initialize fresh_page 9)) = (page', Code_Ok) \<and> guard_ok page'"
proof -
  have "guard_ok (fst (Initialize fresh_page 9))"
    by (simp add: fresh_ok)
  from Compact_preserves[OF this] show ?thesis by blast
qed

text \<open>A history of insertions and deletions, with the page's replies.\<close>

fun page_step :: "page_op \<Rightarrow> PageGuard \<Rightarrow> PageGuard \<times> page_reply" where
  "page_step (Ins r) p = (case InsertRecord p r of (p', Inl e) \<Rightarrow> (p', Rejected) | (p', Inr s) \<Rightarrow> (p', Inserted (unat s)))"
| "page_step (Del s) p = (case page_del p s of (p', b) \<Rightarrow> (p', if b then Deleted else Rejected))"

fun page_run :: "page_op list \<Rightarrow> PageGuard \<Rightarrow> PageGuard \<times> page_reply list" where
  "page_run [] p = (p, [])"
| "page_run (x # xs) p = (case page_step x p of (p1, y) \<Rightarrow> case page_run xs p1 of (p2, ys) \<Rightarrow> (p2, y # ys))"

lemma page_step_store: "page_step x p = page_store.store_step x p"
  by (cases x) (auto simp: page_ins_def split: prod.split sum.split)

lemma page_run_store: "page_run xs p = page_store.store_run xs p"
  by (induction xs arbitrary: p) (simp_all add: page_step_store split: prod.split)

text \<open>C6: A page refines the partial map from slots to records over any history of insertions and
  deletions: it stays valid, its replies are replies of the map (a new slot was free, a rejected
  deletion had no record, a rejected insertion changed nothing), and what \<^verbatim>\<open>GetRecord\<close> then
  returns, for every slot, is what the map holds.\<close>

theorem page_history_refines_map:
  assumes "guard_ok p" and "page_run ops p = (p', replies)"
  shows "guard_ok p' \<and> (\<exists>m. abs_run ops replies (page_records (guard_data p)) = Some m \<and>
    (\<forall>s. GetRecord p' s = (case m (unat s) of None \<Rightarrow> Inl NotFound | Some r \<Rightarrow> Inr r)))"
proof -
  from page_store.store_run_refines[OF assms(1)] assms(2)
  have r: "guard_ok p'" "abs_run ops replies (page_get p) = Some (page_get p')"
    by (simp_all add: page_run_store)
  then show ?thesis
    using assms(1) GetRecord_eq[OF guard_okD(1,3)[OF r(1)]] by (simp add: page_get_eq)
qed

theorem page_history_refines_map_witness:
  "\<exists>p' replies m. page_run [Ins [1], Ins [2], Del 0] (fst (Initialize fresh_page 9)) = (p', replies) \<and>
     abs_run [Ins [1], Ins [2], Del 0] replies Map.empty = Some m"
proof -
  let ?p = "fst (Initialize fresh_page 9)"
  have i: "guard_ok ?p" "page_records (guard_data ?p) = Map.empty"
    by (simp_all add: fresh_ok)
  obtain p' replies where r: "page_run [Ins [1], Ins [2], Del 0] ?p = (p', replies)" by fastforce
  from page_history_refines_map[OF i(1) r] i(2) r show ?thesis by auto
qed

end
