(* ===== verification/Replacer.thy ===== *)
theory Replacer
  imports Base
begin

text \<open>
  The page-replacement policies of \<^verbatim>\<open>storage.cpp\<close>: FIFO, LRU and CLOCK. They implement one
  abstract interface (\<^verbatim>\<open>class Replacer\<close>); its contract is the locale \<open>replacer\<close>, about the set
  of evictable frames, and each policy is an interpretation of it. The 64-bit access counters
  are natural numbers here: they would wrap after \<open>2 ^ 64\<close> accesses.
\<close>

type_synonym frame_id_t = nat

subsection \<open>The contract\<close>

text \<open>One call of the interface, and what it does to the set of evictable frames.\<close>

datatype rep_op = Pin frame_id_t | Unpin frame_id_t | RecordAccess frame_id_t | Remove frame_id_t | Victim

datatype rep_reply = Status ErrorCode | Chosen frame_id_t

fun abs_candidates :: "nat \<Rightarrow> rep_op \<Rightarrow> rep_reply \<Rightarrow> nat set \<Rightarrow> nat set \<Rightarrow> bool" where
  "abs_candidates cap (Pin f) r c c' =
     (if f \<ge> cap then r = Status InvalidArgument \<and> c' = c else r = Status Code_Ok \<and> c' = c - {f})"
| "abs_candidates cap (Unpin f) r c c' =
     (if f \<ge> cap then r = Status InvalidArgument \<and> c' = c
      else if f \<in> c then r = Status AlreadyExists \<and> c' = c else r = Status Code_Ok \<and> c' = insert f c)"
| "abs_candidates cap (RecordAccess f) r c c' =
     (if f \<ge> cap then r = Status InvalidArgument \<and> c' = c else r = Status Code_Ok \<and> c' = c)"
| "abs_candidates cap (Remove f) r c c' =
     (if f \<ge> cap then r = Status InvalidArgument \<and> c' = c else r = Status Code_Ok \<and> c' = c - {f})"
| "abs_candidates cap Victim r c c' =
     (if c = {} then r = Status NotFound \<and> c' = c else \<exists>f \<in> c. r = Chosen f \<and> c' = c - {f})"

locale replacer =
  fixes step :: "rep_op \<Rightarrow> 's \<Rightarrow> 's \<times> rep_reply"
    and size_of :: "'s \<Rightarrow> nat"
    and evictable_in :: "'s \<Rightarrow> nat \<Rightarrow> bool"
    and inv :: "nat \<Rightarrow> 's \<Rightarrow> bool"
    and cand :: "'s \<Rightarrow> nat set"
  assumes step_refines: "inv cap s \<Longrightarrow> step x s = (s', r) \<Longrightarrow> inv cap s' \<and> abs_candidates cap x r (cand s) (cand s')"
    and cand_bound: "inv cap s \<Longrightarrow> cand s \<subseteq> {..<cap}"
    and size_cand: "inv cap s \<Longrightarrow> size_of s = card (cand s)"
    and evictable_cand: "inv cap s \<Longrightarrow> evictable_in s f \<longleftrightarrow> f \<in> cand s"
begin

fun run :: "rep_op list \<Rightarrow> 's \<Rightarrow> 's \<times> rep_reply list" where
  "run [] s = (s, [])"
| "run (x # xs) s = (case step x s of (s1, r) \<Rightarrow> case run xs s1 of (s2, rs) \<Rightarrow> (s2, r # rs))"

lemma run_inv: "inv cap s \<Longrightarrow> run xs s = (s', rs) \<Longrightarrow> inv cap s'"
proof (induction xs arbitrary: s s' rs)
  case (Cons x xs)
  obtain s1 r where 1: "step x s = (s1, r)" by fastforce
  with Cons.prems(2) have "run xs s1 = (s', tl rs)" by (auto split: prod.splits)
  with Cons.IH step_refines[OF Cons.prems(1) 1] show ?case by blast
qed simp

text \<open>A frame pinned since it was last unpinned is never chosen.\<close>

lemma pinned_not_chosen:
  assumes "inv cap s" "f \<notin> cand s" "Unpin f \<notin> set xs" "run xs s = (s', rs)"
  shows "Chosen f \<notin> set rs \<and> f \<notin> cand s'"
  using assms
proof (induction xs arbitrary: s s' rs)
  case (Cons x xs)
  obtain s1 r where 1: "step x s = (s1, r)" by fastforce
  obtain s2 rs2 where 2: "run xs s1 = (s2, rs2)" by fastforce
  note R = step_refines[OF Cons.prems(1) 1]
  have "f \<notin> cand s1 \<and> r \<noteq> Chosen f"
    using R Cons.prems(2,3) by (cases x) (auto split: if_splits)
  with Cons.IH[OF _ _ _ 2] R Cons.prems(3,4) 1 2 show ?case by auto
qed simp

lemma run_append: "run (xs @ ys) s = (case run xs s of (s1, rs) \<Rightarrow> case run ys s1 of (s2, rs') \<Rightarrow> (s2, rs @ rs'))"
  by (induction xs arbitrary: s) (simp_all split: prod.split)

lemma pin_then_not_chosen:
  assumes "inv cap s" "p = Pin f \<or> p = Remove f" "f < cap" "Unpin f \<notin> set ys"
    "run (xs @ [p]) s = (s1, rs)" "run ys s1 = (s2, rs')"
  shows "Chosen f \<notin> set rs'"
proof -
  obtain s0 r0 where 0: "run xs s = (s0, r0)" by fastforce
  obtain s1' r1 where 1: "step p s0 = (s1', r1)" by fastforce
  have "s1' = s1" using assms(5) 0 1 by (simp add: run_append)
  with step_refines[OF run_inv[OF assms(1) 0] 1] assms(2,3) have "inv cap s1" "f \<notin> cand s1" by auto
  from pinned_not_chosen[OF this assms(4,6)] show ?thesis by simp
qed

text \<open>Asking for victims until none is left yields each evictable frame exactly once.\<close>

lemma drain:
  assumes "inv cap s" "n = card (cand s)"
  shows "\<exists>s' fs. run (replicate n Victim) s = (s', map Chosen fs) \<and> distinct fs \<and> set fs = cand s \<and>
    cand s' = {} \<and> step Victim s' = (fst (step Victim s'), Status NotFound)"
  using assms
proof (induction n arbitrary: s)
  case 0
  then have "cand s = {}" using cand_bound finite_subset by fastforce
  moreover have "snd (step Victim s) = Status NotFound"
    using step_refines[OF 0(1), of Victim "fst (step Victim s)" "snd (step Victim s)"] calculation by simp
  ultimately show ?case by (auto simp: prod_eq_iff)
next
  case (Suc n)
  obtain s1 r where 1: "step Victim s = (s1, r)" by fastforce
  have "cand s \<noteq> {}" using Suc.prems(2) by auto
  with step_refines[OF Suc.prems(1) 1] obtain f where
    f: "inv cap s1" "f \<in> cand s" "r = Chosen f" "cand s1 = cand s - {f}" by auto
  have "finite (cand s)" using cand_bound[OF Suc.prems(1)] finite_subset by blast
  then have "n = card (cand s1)" using Suc.prems(2) f(2,4) by simp
  from Suc.IH[OF f(1) this] obtain s' fs where
    "run (replicate n Victim) s1 = (s', map Chosen fs)" "distinct fs" "set fs = cand s1" "cand s' = {}"
    "step Victim s' = (fst (step Victim s'), Status NotFound)" by blast
  with 1 f show ?case by (intro exI[of _ s'] exI[of _ "f # fs"]) auto
qed

end

subsection \<open>The ordered list of candidates\<close>

fun insert_by :: "(frame_id_t \<Rightarrow> nat) \<Rightarrow> frame_id_t \<Rightarrow> frame_id_t list \<Rightarrow> frame_id_t list" where
  "insert_by key f [] = [f]"
| "insert_by key f (g # order) = (if key g \<le> key f then g # insert_by key f order else f # g # order)"

definition lookup0 :: "(frame_id_t \<rightharpoonup> nat) \<Rightarrow> frame_id_t \<Rightarrow> nat" where
  "lookup0 m f = (case m f of None \<Rightarrow> 0 | Some n \<Rightarrow> n)"

lemma set_insert_by [simp]: "set (insert_by key f order) = insert f (set order)"
  by (induction order) auto

lemma distinct_insert_by [simp]: "distinct (insert_by key f order) \<longleftrightarrow> f \<notin> set order \<and> distinct order"
  by (induction order) auto

lemma length_insert_by [simp]: "length (insert_by key f order) = Suc (length order)"
  by (induction order) auto

lemma sorted_insert_by: "sorted (map key order) \<Longrightarrow> sorted (map key (insert_by key f order))"
  by (induction order) auto

lemma sorted_removeAll: "sorted (map key order) \<Longrightarrow> sorted (map key (removeAll f order))"
  by (induction order) auto

lemma map_cong_sorted: "(\<And>x. x \<in> set order \<Longrightarrow> key' x = key x) \<Longrightarrow> sorted (map key' order) = sorted (map key order)"
  by (metis map_cong)

lemma sorted_lookup_upd [simp]:
  "f \<notin> set order \<Longrightarrow> sorted (map (lookup0 (m(f := v))) order) = sorted (map (lookup0 m) order)"
  by (rule map_cong_sorted) (auto simp: lookup0_def)

subsection \<open>FIFO\<close>

record FIFOReplacer =
  fifo_capacity :: nat
  fifo_order :: "frame_id_t list"
  fifo_candidates :: "frame_id_t set"
  arrival_order :: "frame_id_t \<rightharpoonup> nat"
  next_arrival :: nat

definition FIFO_init :: "nat \<Rightarrow> FIFOReplacer" where
  "FIFO_init capacity = \<lparr>fifo_capacity = capacity, fifo_order = [], fifo_candidates = {},
     arrival_order = Map.empty, next_arrival = 0\<rparr>"

definition FIFO_Pin :: "frame_id_t \<Rightarrow> FIFOReplacer \<Rightarrow> FIFOReplacer \<times> ErrorCode" where
  "FIFO_Pin f s =
     (if f \<ge> fifo_capacity s then (s, InvalidArgument)
      else if f \<notin> fifo_candidates s then (s, Code_Ok)
      else (s\<lparr>fifo_candidates := fifo_candidates s - {f}, fifo_order := removeAll f (fifo_order s)\<rparr>, Code_Ok))"

definition note_arrival :: "frame_id_t \<Rightarrow> FIFOReplacer \<Rightarrow> FIFOReplacer" where
  "note_arrival f s =
     (if arrival_order s f = None
      then s\<lparr>arrival_order := (arrival_order s)(f \<mapsto> next_arrival s), next_arrival := next_arrival s + 1\<rparr> else s)"

definition FIFO_Unpin :: "frame_id_t \<Rightarrow> FIFOReplacer \<Rightarrow> FIFOReplacer \<times> ErrorCode" where
  "FIFO_Unpin f s =
     (if f \<ge> fifo_capacity s then (s, InvalidArgument)
      else if f \<in> fifo_candidates s then (s, AlreadyExists)
      else
        (let s1 = note_arrival f s in
         (s1\<lparr>fifo_candidates := insert f (fifo_candidates s1),
             fifo_order := insert_by (lookup0 (arrival_order s1)) f (fifo_order s1)\<rparr>, Code_Ok)))"

definition FIFO_RecordAccess :: "frame_id_t \<Rightarrow> FIFOReplacer \<Rightarrow> FIFOReplacer \<times> ErrorCode" where
  "FIFO_RecordAccess f s =
     (if f \<ge> fifo_capacity s then (s, InvalidArgument) else (note_arrival f s, Code_Ok))"

definition FIFO_Remove :: "frame_id_t \<Rightarrow> FIFOReplacer \<Rightarrow> FIFOReplacer \<times> ErrorCode" where
  "FIFO_Remove f s =
     (if f \<ge> fifo_capacity s then (s, InvalidArgument)
      else (s\<lparr>fifo_candidates := fifo_candidates s - {f}, fifo_order := removeAll f (fifo_order s),
              arrival_order := (arrival_order s)(f := None)\<rparr>, Code_Ok))"

definition FIFO_Victim :: "FIFOReplacer \<Rightarrow> FIFOReplacer \<times> frame_id_t Result" where
  "FIFO_Victim s =
     (case fifo_order s of [] \<Rightarrow> (s, Inl NotFound)
      | f # order \<Rightarrow> (s\<lparr>fifo_order := order, fifo_candidates := fifo_candidates s - {f}\<rparr>, Inr f))"

definition FIFO_Size :: "FIFOReplacer \<Rightarrow> nat" where
  "FIFO_Size s = length (fifo_order s)"

definition FIFO_IsEvictable :: "FIFOReplacer \<Rightarrow> frame_id_t \<Rightarrow> bool" where
  "FIFO_IsEvictable s f \<longleftrightarrow> f < fifo_capacity s \<and> f \<in> fifo_candidates s"

definition status_reply :: "'s \<times> ErrorCode \<Rightarrow> 's \<times> rep_reply" where
  "status_reply x = (fst x, Status (snd x))"

definition victim_reply :: "'s \<times> frame_id_t Result \<Rightarrow> 's \<times> rep_reply" where
  "victim_reply x = (fst x, case snd x of Inl e \<Rightarrow> Status e | Inr f \<Rightarrow> Chosen f)"

lemmas replies = status_reply_def victim_reply_def

fun fifo_step :: "rep_op \<Rightarrow> FIFOReplacer \<Rightarrow> FIFOReplacer \<times> rep_reply" where
  "fifo_step (Pin f) s = status_reply (FIFO_Pin f s)"
| "fifo_step (Unpin f) s = status_reply (FIFO_Unpin f s)"
| "fifo_step (RecordAccess f) s = status_reply (FIFO_RecordAccess f s)"
| "fifo_step (Remove f) s = status_reply (FIFO_Remove f s)"
| "fifo_step Victim s = victim_reply (FIFO_Victim s)"

definition fifo_inv :: "nat \<Rightarrow> FIFOReplacer \<Rightarrow> bool" where
  "fifo_inv cap s \<longleftrightarrow>
     fifo_capacity s = cap \<and> set (fifo_order s) = fifo_candidates s \<and> distinct (fifo_order s) \<and>
     fifo_candidates s \<subseteq> {..<cap} \<and> (\<forall>f \<in> fifo_candidates s. arrival_order s f \<noteq> None) \<and>
     (\<forall>f n. arrival_order s f = Some n \<longrightarrow> n < next_arrival s) \<and>
     sorted (map (lookup0 (arrival_order s)) (fifo_order s))"

lemma note_arrival_inv: "fifo_inv cap s \<Longrightarrow> fifo_inv cap (note_arrival f s)"
proof (cases "arrival_order s f")
  case None
  assume i: "fifo_inv cap s"
  with None have "f \<notin> set (fifo_order s)" by (auto simp: fifo_inv_def)
  then have "sorted (map (lookup0 ((arrival_order s)(f \<mapsto> next_arrival s))) (fifo_order s)) \<longleftrightarrow>
      sorted (map (lookup0 (arrival_order s)) (fifo_order s))"
    by (intro map_cong_sorted) (auto simp: lookup0_def)
  with i None show ?thesis by (auto simp: fifo_inv_def note_arrival_def less_Suc_eq)
qed (simp add: note_arrival_def)

lemma note_arrival_frame [simp]:
  "fifo_candidates (note_arrival f s) = fifo_candidates s" "fifo_order (note_arrival f s) = fifo_order s"
  "fifo_capacity (note_arrival f s) = fifo_capacity s" "\<exists>n. arrival_order (note_arrival f s) f = Some n"
  by (auto simp: note_arrival_def)

interpretation fifo: replacer fifo_step FIFO_Size FIFO_IsEvictable fifo_inv fifo_candidates
proof unfold_locales
  fix cap s x s' r f
  assume i: "fifo_inv cap s"
  show "fifo_candidates s \<subseteq> {..<cap}" using i by (simp add: fifo_inv_def)
  show "FIFO_Size s = card (fifo_candidates s)"
    using i by (metis FIFO_Size_def distinct_card fifo_inv_def)
  show "FIFO_IsEvictable s f \<longleftrightarrow> f \<in> fifo_candidates s" using i by (auto simp: FIFO_IsEvictable_def fifo_inv_def)
  show "fifo_step x s = (s', r) \<Longrightarrow> fifo_inv cap s' \<and> abs_candidates cap x r (fifo_candidates s) (fifo_candidates s')"
  proof (cases x)
    case (Unpin f)
    assume st: "fifo_step x s = (s', r)"
    note n = note_arrival_inv[OF i, of f]
    show ?thesis
    proof (cases "f < cap \<and> f \<notin> fifo_candidates s")
      case True
      let ?s1 = "note_arrival f s"
      have "fifo_inv cap (?s1\<lparr>fifo_candidates := insert f (fifo_candidates s),
             fifo_order := insert_by (lookup0 (arrival_order ?s1)) f (fifo_order s)\<rparr>)"
        using n True note_arrival_frame(4)[of f s] by (auto simp: fifo_inv_def sorted_insert_by)
      with st True Unpin i show ?thesis
        by (auto simp: FIFO_Unpin_def replies Let_def fifo_inv_def)
    qed (use st i Unpin in \<open>auto simp: FIFO_Unpin_def replies fifo_inv_def\<close>)
  next
    case (Remove f)
    assume "fifo_step x s = (s', r)"
    with i Remove show ?thesis
      by (auto simp: FIFO_Remove_def replies fifo_inv_def sorted_removeAll distinct_removeAll simp del: fun_upd_apply
          split: if_splits) (auto split: if_splits)
  next
    case Victim
    assume "fifo_step x s = (s', r)"
    with i Victim show ?thesis
      by (cases "fifo_order s") (auto simp: FIFO_Victim_def replies fifo_inv_def)
  qed (use i note_arrival_inv[OF i] in \<open>auto simp: FIFO_Pin_def FIFO_RecordAccess_def replies fifo_inv_def sorted_removeAll
      distinct_removeAll split: if_splits\<close>)
qed

subsection \<open>LRU\<close>

record LRUReplacer =
  lru_capacity :: nat
  lru_order :: "frame_id_t list"
  lru_candidates :: "frame_id_t set"
  last_used :: "frame_id_t \<rightharpoonup> nat"
  access_clock :: nat

definition LRU_init :: "nat \<Rightarrow> LRUReplacer" where
  "LRU_init capacity = \<lparr>lru_capacity = capacity, lru_order = [], lru_candidates = {},
     last_used = Map.empty, access_clock = 0\<rparr>"

definition touch :: "frame_id_t \<Rightarrow> LRUReplacer \<Rightarrow> LRUReplacer" where
  "touch f s = s\<lparr>last_used := (last_used s)(f \<mapsto> access_clock s + 1), access_clock := access_clock s + 1\<rparr>"

definition LRU_Pin :: "frame_id_t \<Rightarrow> LRUReplacer \<Rightarrow> LRUReplacer \<times> ErrorCode" where
  "LRU_Pin f s =
     (if f \<ge> lru_capacity s then (s, InvalidArgument)
      else if f \<notin> lru_candidates s then (touch f s, Code_Ok)
      else (touch f (s\<lparr>lru_candidates := lru_candidates s - {f}, lru_order := removeAll f (lru_order s)\<rparr>), Code_Ok))"

definition LRU_Unpin :: "frame_id_t \<Rightarrow> LRUReplacer \<Rightarrow> LRUReplacer \<times> ErrorCode" where
  "LRU_Unpin f s =
     (if f \<ge> lru_capacity s then (s, InvalidArgument)
      else if f \<in> lru_candidates s then (s, AlreadyExists)
      else
        (let s1 = (if last_used s f = None then touch f s else s) in
         (s1\<lparr>lru_candidates := insert f (lru_candidates s1),
             lru_order := insert_by (lookup0 (last_used s1)) f (lru_order s1)\<rparr>, Code_Ok)))"

definition LRU_RecordAccess :: "frame_id_t \<Rightarrow> LRUReplacer \<Rightarrow> LRUReplacer \<times> ErrorCode" where
  "LRU_RecordAccess f s =
     (if f \<ge> lru_capacity s then (s, InvalidArgument)
      else
        (let s1 = touch f s in
         if f \<in> lru_candidates s1 then
           (s1\<lparr>lru_order := insert_by (lookup0 (last_used s1)) f (removeAll f (lru_order s1)),
               lru_candidates := insert f (lru_candidates s1 - {f})\<rparr>, Code_Ok)
         else (s1, Code_Ok)))"

definition LRU_Remove :: "frame_id_t \<Rightarrow> LRUReplacer \<Rightarrow> LRUReplacer \<times> ErrorCode" where
  "LRU_Remove f s =
     (if f \<ge> lru_capacity s then (s, InvalidArgument)
      else (s\<lparr>lru_candidates := lru_candidates s - {f}, lru_order := removeAll f (lru_order s),
              last_used := (last_used s)(f := None)\<rparr>, Code_Ok))"

definition LRU_Victim :: "LRUReplacer \<Rightarrow> LRUReplacer \<times> frame_id_t Result" where
  "LRU_Victim s =
     (case lru_order s of [] \<Rightarrow> (s, Inl NotFound)
      | f # order \<Rightarrow> (s\<lparr>lru_order := order, lru_candidates := lru_candidates s - {f}\<rparr>, Inr f))"

definition LRU_Size :: "LRUReplacer \<Rightarrow> nat" where
  "LRU_Size s = length (lru_order s)"

definition LRU_IsEvictable :: "LRUReplacer \<Rightarrow> frame_id_t \<Rightarrow> bool" where
  "LRU_IsEvictable s f \<longleftrightarrow> f < lru_capacity s \<and> f \<in> lru_candidates s"

fun lru_step :: "rep_op \<Rightarrow> LRUReplacer \<Rightarrow> LRUReplacer \<times> rep_reply" where
  "lru_step (Pin f) s = status_reply (LRU_Pin f s)"
| "lru_step (Unpin f) s = status_reply (LRU_Unpin f s)"
| "lru_step (RecordAccess f) s = status_reply (LRU_RecordAccess f s)"
| "lru_step (Remove f) s = status_reply (LRU_Remove f s)"
| "lru_step Victim s = victim_reply (LRU_Victim s)"

definition lru_inv :: "nat \<Rightarrow> LRUReplacer \<Rightarrow> bool" where
  "lru_inv cap s \<longleftrightarrow>
     lru_capacity s = cap \<and> set (lru_order s) = lru_candidates s \<and> distinct (lru_order s) \<and>
     lru_candidates s \<subseteq> {..<cap} \<and> (\<forall>f \<in> lru_candidates s. last_used s f \<noteq> None) \<and>
     sorted (map (lookup0 (last_used s)) (lru_order s))"

lemma lru_eq_inv:
  assumes "lru_inv cap s" "f < cap"
  shows "f \<notin> lru_candidates s \<Longrightarrow> lru_inv cap (touch f s)"
    and "lru_inv cap (touch f (s\<lparr>lru_candidates := lru_candidates s - {f}, lru_order := removeAll f (lru_order s)\<rparr>))"
    and "lru_inv cap (s\<lparr>lru_candidates := lru_candidates s - {f}, lru_order := removeAll f (lru_order s),
              last_used := (last_used s)(f := None)\<rparr>)"
    and "f \<notin> lru_candidates s \<Longrightarrow> last_used s f \<noteq> None \<Longrightarrow>
      lru_inv cap (s\<lparr>lru_candidates := insert f (lru_candidates s),
             lru_order := insert_by (lookup0 (last_used s)) f (lru_order s)\<rparr>)"
  using assms by (auto simp: lru_inv_def touch_def sorted_removeAll distinct_removeAll sorted_insert_by)

lemma touch_frame [simp]:
  "lru_candidates (touch f s) = lru_candidates s" "lru_order (touch f s) = lru_order s"
  "lru_capacity (touch f s) = lru_capacity s" "last_used (touch f s) f = Some (access_clock s + 1)"
  by (simp_all add: touch_def)

lemma lru_access_inv:
  assumes "lru_inv cap s" "f \<in> lru_candidates s"
  shows "lru_inv cap ((touch f s)\<lparr>lru_order := insert_by (lookup0 (last_used (touch f s))) f (removeAll f (lru_order s)),
           lru_candidates := lru_candidates s\<rparr>)"
proof -
  let ?s = "touch f (s\<lparr>lru_candidates := lru_candidates s - {f}, lru_order := removeAll f (lru_order s)\<rparr>)"
  have f: "f < cap" using assms by (auto simp: lru_inv_def)
  from lru_eq_inv(4)[OF lru_eq_inv(2)[OF assms(1) f] f] assms(2) show ?thesis
    by (simp add: touch_def insert_absorb)
qed

interpretation lru: replacer lru_step LRU_Size LRU_IsEvictable lru_inv lru_candidates
proof unfold_locales
  fix cap s x s' r f
  assume i: "lru_inv cap s"
  show "lru_candidates s \<subseteq> {..<cap}" using i by (simp add: lru_inv_def)
  show "LRU_Size s = card (lru_candidates s)"
    using i by (metis LRU_Size_def distinct_card lru_inv_def)
  show "LRU_IsEvictable s f \<longleftrightarrow> f \<in> lru_candidates s" using i by (auto simp: LRU_IsEvictable_def lru_inv_def)
  have cap: "lru_capacity s = cap" using i by (simp add: lru_inv_def)
  note I = lru_eq_inv[OF i] lru_access_inv[OF i]
  show "lru_step x s = (s', r) \<Longrightarrow> lru_inv cap s' \<and> abs_candidates cap x r (lru_candidates s) (lru_candidates s')"
  proof (cases x)
    case (Pin f)
    assume "lru_step x s = (s', r)"
    with i Pin cap I(1,2)[of f] show ?thesis by (auto simp: LRU_Pin_def replies split: if_splits)
  next
    case (Unpin f)
    assume "lru_step x s = (s', r)"
    with i Unpin cap I(4)[of f] lru_eq_inv(4)[OF I(1), of f f]
    show ?thesis by (auto simp: LRU_Unpin_def replies Let_def split: if_splits)
  next
    case (RecordAccess f)
    assume "lru_step x s = (s', r)"
    with i RecordAccess cap I(1,5)[of f]
    show ?thesis by (auto simp: LRU_RecordAccess_def replies Let_def insert_absorb split: if_splits)
  next
    case (Remove f)
    assume "lru_step x s = (s', r)"
    with i Remove cap I(3)[of f] show ?thesis by (auto simp: LRU_Remove_def replies split: if_splits)
  next
    case Victim
    assume "lru_step x s = (s', r)"
    with i Victim show ?thesis
      by (cases "lru_order s") (auto simp: LRU_Victim_def replies lru_inv_def)
  qed
qed

subsection \<open>CLOCK\<close>

record ClockReplacer =
  clock_capacity :: nat
  active :: "bool list"
  evictable :: "bool list"
  reference_bits :: "bool list"
  hand :: nat
  evictable_count :: nat

definition CLOCK_init :: "nat \<Rightarrow> ClockReplacer" where
  "CLOCK_init capacity = \<lparr>clock_capacity = capacity, active = replicate capacity False,
     evictable = replicate capacity False, reference_bits = replicate capacity False, hand = 0, evictable_count = 0\<rparr>"

definition CLOCK_Pin :: "frame_id_t \<Rightarrow> ClockReplacer \<Rightarrow> ClockReplacer \<times> ErrorCode" where
  "CLOCK_Pin f s =
     (if f \<ge> clock_capacity s then (s, InvalidArgument)
      else
        (let s1 = s\<lparr>active := (active s)[f := True], reference_bits := (reference_bits s)[f := True]\<rparr> in
         (if evictable s1 ! f
          then s1\<lparr>evictable := (evictable s1)[f := False], evictable_count := evictable_count s1 - 1\<rparr> else s1,
          Code_Ok)))"

definition CLOCK_Unpin :: "frame_id_t \<Rightarrow> ClockReplacer \<Rightarrow> ClockReplacer \<times> ErrorCode" where
  "CLOCK_Unpin f s =
     (if f \<ge> clock_capacity s then (s, InvalidArgument)
      else
        (let s1 = s\<lparr>active := (active s)[f := True]\<rparr> in
         if evictable s1 ! f then (s1, AlreadyExists)
         else (s1\<lparr>evictable := (evictable s1)[f := True], reference_bits := (reference_bits s1)[f := True],
                 evictable_count := evictable_count s1 + 1\<rparr>, Code_Ok)))"

definition CLOCK_RecordAccess :: "frame_id_t \<Rightarrow> ClockReplacer \<Rightarrow> ClockReplacer \<times> ErrorCode" where
  "CLOCK_RecordAccess f s =
     (if f \<ge> clock_capacity s then (s, InvalidArgument)
      else (s\<lparr>active := (active s)[f := True], reference_bits := (reference_bits s)[f := True]\<rparr>, Code_Ok))"

definition CLOCK_Remove :: "frame_id_t \<Rightarrow> ClockReplacer \<Rightarrow> ClockReplacer \<times> ErrorCode" where
  "CLOCK_Remove f s =
     (if f \<ge> clock_capacity s then (s, InvalidArgument)
      else
        (let s1 = (if evictable s ! f
                   then s\<lparr>evictable := (evictable s)[f := False], evictable_count := evictable_count s - 1\<rparr> else s) in
         (s1\<lparr>active := (active s1)[f := False], reference_bits := (reference_bits s1)[f := False]\<rparr>, Code_Ok)))"

text \<open>The scan of \<^verbatim>\<open>Victim\<close>, for a number of remaining steps.\<close>

fun clock_scan :: "nat \<Rightarrow> ClockReplacer \<Rightarrow> ClockReplacer \<times> frame_id_t Result" where
  "clock_scan 0 s = (s, Inl NotFound)"
| "clock_scan (Suc n) s =
     (let f = hand s; s1 = s\<lparr>hand := (hand s + 1) mod clock_capacity s\<rparr> in
      if \<not> active s1 ! f \<or> \<not> evictable s1 ! f then clock_scan n s1
      else if reference_bits s1 ! f then clock_scan n (s1\<lparr>reference_bits := (reference_bits s1)[f := False]\<rparr>)
      else (s1\<lparr>evictable := (evictable s1)[f := False], evictable_count := evictable_count s1 - 1,
              active := (active s1)[f := False]\<rparr>, Inr f))"

definition CLOCK_Victim :: "ClockReplacer \<Rightarrow> ClockReplacer \<times> frame_id_t Result" where
  "CLOCK_Victim s =
     (if evictable_count s = 0 \<or> clock_capacity s = 0 then (s, Inl NotFound)
      else clock_scan (clock_capacity s * 2) s)"

definition CLOCK_Size :: "ClockReplacer \<Rightarrow> nat" where
  "CLOCK_Size s = evictable_count s"

definition CLOCK_IsEvictable :: "ClockReplacer \<Rightarrow> frame_id_t \<Rightarrow> bool" where
  "CLOCK_IsEvictable s f \<longleftrightarrow> f < clock_capacity s \<and> evictable s ! f"

fun clock_step :: "rep_op \<Rightarrow> ClockReplacer \<Rightarrow> ClockReplacer \<times> rep_reply" where
  "clock_step (Pin f) s = status_reply (CLOCK_Pin f s)"
| "clock_step (Unpin f) s = status_reply (CLOCK_Unpin f s)"
| "clock_step (RecordAccess f) s = status_reply (CLOCK_RecordAccess f s)"
| "clock_step (Remove f) s = status_reply (CLOCK_Remove f s)"
| "clock_step Victim s = victim_reply (CLOCK_Victim s)"

definition clock_candidates :: "ClockReplacer \<Rightarrow> frame_id_t set" where
  "clock_candidates s = {f. f < clock_capacity s \<and> evictable s ! f}"

definition clock_inv :: "nat \<Rightarrow> ClockReplacer \<Rightarrow> bool" where
  "clock_inv cap s \<longleftrightarrow>
     clock_capacity s = cap \<and> length (active s) = cap \<and> length (evictable s) = cap \<and>
     length (reference_bits s) = cap \<and> (cap = 0 \<or> hand s < cap) \<and>
     evictable_count s = card (clock_candidates s) \<and>
     (\<forall>f \<in> clock_candidates s. active s ! f)"

lemma finite_clock_candidates [simp]: "finite (clock_candidates s)"
  by (simp add: clock_candidates_def)

lemma clock_candidates_upd:
  "f < length (evictable s) \<Longrightarrow> length (evictable s) = clock_capacity s \<Longrightarrow>
   clock_candidates (s\<lparr>evictable := (evictable s)[f := b]\<rparr>) =
     (if b then insert f (clock_candidates s) else clock_candidates s - {f})"
  by (auto simp: clock_candidates_def nth_list_update)

lemma clock_candidates_frame [simp]:
  "clock_candidates (s\<lparr>active := a\<rparr>) = clock_candidates s"
  "clock_candidates (s\<lparr>reference_bits := b\<rparr>) = clock_candidates s"
  "clock_candidates (s\<lparr>hand := h\<rparr>) = clock_candidates s"
  "clock_candidates (s\<lparr>evictable_count := n\<rparr>) = clock_candidates s"
  by (simp_all add: clock_candidates_def)

lemma clock_inv_updates:
  assumes "clock_inv cap s"
  shows "f < cap \<Longrightarrow> clock_inv cap (s\<lparr>active := (active s)[f := True]\<rparr>)"
    and "clock_inv cap (s\<lparr>reference_bits := (reference_bits s)[f := b]\<rparr>)"
    and "cap \<noteq> 0 \<Longrightarrow> clock_inv cap (s\<lparr>hand := h mod cap\<rparr>)"
    and "f \<in> clock_candidates s \<Longrightarrow>
      clock_inv cap (s\<lparr>evictable := (evictable s)[f := False], evictable_count := evictable_count s - 1\<rparr>)"
    and "f < cap \<Longrightarrow> f \<notin> clock_candidates s \<Longrightarrow> active s ! f \<Longrightarrow>
      clock_inv cap (s\<lparr>evictable := (evictable s)[f := True], evictable_count := evictable_count s + 1\<rparr>)"
    and "f \<notin> clock_candidates s \<Longrightarrow> clock_inv cap (s\<lparr>active := (active s)[f := False]\<rparr>)"
proof -
  note c = assms[unfolded clock_inv_def]
  show "f < cap \<Longrightarrow> clock_inv cap (s\<lparr>active := (active s)[f := True]\<rparr>)"
    using c by (auto simp: clock_inv_def nth_list_update)
  show "clock_inv cap (s\<lparr>reference_bits := (reference_bits s)[f := b]\<rparr>)"
    using c by (simp add: clock_inv_def)
  show "cap \<noteq> 0 \<Longrightarrow> clock_inv cap (s\<lparr>hand := h mod cap\<rparr>)"
    using c by (simp add: clock_inv_def)
  show "clock_inv cap (s\<lparr>active := (active s)[f := False]\<rparr>)" if "f \<notin> clock_candidates s"
  proof -
    have "(active s)[f := False] ! g = active s ! g" if "g \<in> clock_candidates s" for g
      using that \<open>f \<notin> clock_candidates s\<close> by (metis nth_list_update_neq)
    with c show ?thesis by (simp add: clock_inv_def)
  qed
  show "clock_inv cap (s\<lparr>evictable := (evictable s)[f := False], evictable_count := evictable_count s - 1\<rparr>)"
    if "f \<in> clock_candidates s"
  proof -
    have "f < length (evictable s)" using that c by (simp add: clock_candidates_def)
    with that c show ?thesis by (simp add: clock_inv_def clock_candidates_upd card_Diff_singleton)
  qed
  show "clock_inv cap (s\<lparr>evictable := (evictable s)[f := True], evictable_count := evictable_count s + 1\<rparr>)"
    if "f < cap" "f \<notin> clock_candidates s" "active s ! f"
    using that c by (simp add: clock_inv_def clock_candidates_upd)
qed

text \<open>One round of the scan that does not choose the frame under the hand.\<close>

definition clock_pass :: "ClockReplacer \<Rightarrow> ClockReplacer" where
  "clock_pass s =
     (let s1 = s\<lparr>hand := (hand s + 1) mod clock_capacity s\<rparr> in
      if active s ! hand s \<and> evictable s ! hand s then s1\<lparr>reference_bits := (reference_bits s)[hand s := False]\<rparr> else s1)"

definition clock_chooses :: "ClockReplacer \<Rightarrow> frame_id_t \<Rightarrow> bool" where
  "clock_chooses s f \<longleftrightarrow> f \<in> clock_candidates s \<and> \<not> reference_bits s ! f"

lemma clock_scan_Suc:
  assumes "clock_inv cap s" "cap \<noteq> 0"
  shows "clock_scan (Suc n) s =
    (if clock_chooses s (hand s)
     then (s\<lparr>hand := (hand s + 1) mod cap, evictable := (evictable s)[hand s := False],
             evictable_count := evictable_count s - 1, active := (active s)[hand s := False]\<rparr>, Inr (hand s))
     else clock_scan n (clock_pass s))"
proof -
  have "hand s < cap" "clock_capacity s = cap" using assms by (auto simp: clock_inv_def)
  moreover have "evictable s ! hand s \<Longrightarrow> active s ! hand s"
    using assms calculation by (auto simp: clock_inv_def clock_candidates_def)
  ultimately show ?thesis
    by (auto simp: clock_chooses_def clock_pass_def Let_def clock_candidates_def)
qed

lemma clock_pass_inv:
  assumes "clock_inv cap s" "cap \<noteq> 0"
  shows "clock_inv cap (clock_pass s)" "clock_candidates (clock_pass s) = clock_candidates s"
    "hand (clock_pass s) = (hand s + 1) mod cap"
    "f \<noteq> hand s \<Longrightarrow> reference_bits (clock_pass s) ! f = reference_bits s ! f"
    "hand s \<in> clock_candidates s \<Longrightarrow> \<not> reference_bits (clock_pass s) ! hand s"
proof -
  have c: "clock_capacity s = cap" "hand s < cap" "length (reference_bits s) = cap"
    using assms by (auto simp: clock_inv_def)
  show "clock_inv cap (clock_pass s)"
    using clock_inv_updates(2)[OF clock_inv_updates(3)[OF assms, of "hand s + 1"], of "hand s" False]
      clock_inv_updates(3)[OF assms, of "hand s + 1"] c
    by (simp add: clock_pass_def Let_def)
  show "clock_candidates (clock_pass s) = clock_candidates s" "hand (clock_pass s) = (hand s + 1) mod cap"
    using c by (simp_all add: clock_pass_def Let_def)
  show "f \<noteq> hand s \<Longrightarrow> reference_bits (clock_pass s) ! f = reference_bits s ! f"
    by (simp add: clock_pass_def Let_def)
  show "hand s \<in> clock_candidates s \<Longrightarrow> \<not> reference_bits (clock_pass s) ! hand s"
    using c assms(1) by (auto simp: clock_pass_def Let_def clock_inv_def clock_candidates_def)
qed

definition ring :: "ClockReplacer \<Rightarrow> nat \<Rightarrow> nat \<Rightarrow> nat" where
  "ring s cap d = (hand s + d) mod cap"

lemma ring_pass:
  assumes "clock_inv cap s" "cap \<noteq> 0"
  shows "ring (clock_pass s) cap d = ring s cap (Suc d)" "ring s cap 0 = hand s"
  using assms clock_pass_inv(3)[OF assms]
  by (simp_all add: ring_def mod_simps clock_inv_def)

lemma ring_neq_hand:
  assumes "clock_inv cap s" "0 < d" "d < cap"
  shows "ring s cap d \<noteq> hand s"
proof -
  have "hand s < cap" using assms by (auto simp: clock_inv_def)
  with assms(2,3) show ?thesis by (cases "hand s + d < cap") (auto simp: ring_def mod_if)
qed

lemma least_below: "P n \<Longrightarrow> \<exists>e \<le> n. P e \<and> (\<forall>k < e. \<not> P (k::nat))"
  by (rule exI[of _ "LEAST k. P k"]) (auto intro: LeastI Least_le dest: not_less_Least)

lemma clock_scan_choose:
  assumes "clock_inv cap s" "cap \<noteq> 0" "clock_chooses s (hand s)"
  shows "\<exists>s'. clock_scan (Suc n) s = (s', Inr (hand s)) \<and> clock_inv cap s' \<and>
    clock_candidates s' = clock_candidates s - {hand s}"
proof -
  let ?f = "hand s"
  have c: "clock_capacity s = cap" "?f < cap" "length (evictable s) = cap" "?f \<in> clock_candidates s"
    using assms by (auto simp: clock_inv_def clock_chooses_def)
  let ?s1 = "s\<lparr>hand := (hand s + 1) mod cap\<rparr>"
  let ?s2 = "?s1\<lparr>evictable := (evictable s)[?f := False], evictable_count := evictable_count s - 1\<rparr>"
  have i1: "clock_inv cap ?s1" by (rule clock_inv_updates(3)[OF assms(1,2)])
  have i2: "clock_inv cap ?s2" using clock_inv_updates(4)[OF i1, of ?f] c(4) by simp
  have k: "clock_candidates ?s2 = clock_candidates s - {?f}"
    using clock_candidates_upd[of ?f s False] c by (simp add: clock_candidates_def)
  have "clock_inv cap (?s2\<lparr>active := (active s)[?f := False]\<rparr>)"
    using clock_inv_updates(6)[OF i2, of ?f] k by simp
  moreover have "clock_candidates (?s2\<lparr>active := (active s)[?f := False]\<rparr>) = clock_candidates s - {?f}"
    using k by simp
  ultimately show ?thesis
    using clock_scan_Suc[OF assms(1,2), of n] assms(3) by simp
qed

lemma clock_scan_first:
  assumes "cap \<noteq> 0" "clock_inv cap s" "d < cap" "clock_chooses s (ring s cap d)"
    "\<And>e. e < d \<Longrightarrow> \<not> clock_chooses s (ring s cap e)" "d < n"
  shows "\<exists>s'. clock_scan n s = (s', Inr (ring s cap d)) \<and> clock_inv cap s' \<and>
    clock_candidates s' = clock_candidates s - {ring s cap d}"
  using assms(2-)
proof (induction d arbitrary: s n)
  case 0
  from ring_pass(2)[OF 0(1) assms(1)] clock_scan_choose[OF 0(1) assms(1), of "n - 1"] 0 show ?case by simp
next
  case (Suc d)
  note i = Suc.prems(1) and P = clock_pass_inv[OF Suc.prems(1) assms(1)] and R = ring_pass[OF Suc.prems(1) assms(1)]
  have other: "clock_chooses (clock_pass s) (ring s cap e) = clock_chooses s (ring s cap e)" if "0 < e" "e < cap" for e
    using P(2,4) ring_neq_hand[OF i that] by (simp add: clock_chooses_def)
  have n: "\<not> clock_chooses s (hand s)" using Suc.prems(4)[of 0] R(2) by simp
  have "\<exists>s'. clock_scan (n - 1) (clock_pass s) = (s', Inr (ring (clock_pass s) cap d)) \<and> clock_inv cap s' \<and>
      clock_candidates s' = clock_candidates (clock_pass s) - {ring (clock_pass s) cap d}"
  proof (rule Suc.IH)
    show "clock_inv cap (clock_pass s)" "d < cap" "d < n - 1" using P(1) Suc.prems by simp_all
    show "clock_chooses (clock_pass s) (ring (clock_pass s) cap d)"
      using other[of "Suc d"] Suc.prems R(1) by simp
    show "\<not> clock_chooses (clock_pass s) (ring (clock_pass s) cap e)" if "e < d" for e
      using other[of "Suc e"] Suc.prems(2) Suc.prems(4)[of "Suc e"] that R(1) by simp
  qed
  then show ?case
    using clock_scan_Suc[OF i assms(1), of "n - 1"] n Suc.prems(5) R(1) P(2) by simp
qed

lemma clock_scan_finds:
  assumes "cap \<noteq> 0" "clock_inv cap s" "d < cap" "ring s cap d \<in> clock_candidates s" "d + cap < n"
  shows "\<exists>s' f. clock_scan n s = (s', Inr f) \<and> f \<in> clock_candidates s \<and> clock_inv cap s' \<and>
    clock_candidates s' = clock_candidates s - {f}"
  using assms(2-)
proof (induction d arbitrary: s n)
  case 0
  note P = clock_pass_inv[OF 0(1) assms(1)] and R = ring_pass[OF 0(1) assms(1)]
  show ?case
  proof (cases "clock_chooses s (hand s)")
    case True
    with clock_scan_choose[OF 0(1) assms(1) True, of "n - 1"] 0 R(2) show ?thesis by auto
  next
    case False
    have "hand s < cap" using 0(1) assms(1) by (auto simp: clock_inv_def)
    then have "ring (clock_pass s) cap (cap - 1) = hand s"
      using R(1)[of "cap - 1"] assms(1) by (simp add: ring_def)
    then have "clock_chooses (clock_pass s) (ring (clock_pass s) cap (cap - 1))"
      using P(2,5) 0(3) R(2) by (simp add: clock_chooses_def)
    then obtain e where e: "clock_chooses (clock_pass s) (ring (clock_pass s) cap e)" "e \<le> cap - 1"
      "\<And>k. k < e \<Longrightarrow> \<not> clock_chooses (clock_pass s) (ring (clock_pass s) cap k)"
      using least_below[of "\<lambda>k. clock_chooses (clock_pass s) (ring (clock_pass s) cap k)" "cap - 1"] by blast
    have "e < cap" "e < n - 1" using e(2) 0(4) assms(1) by auto
    from clock_scan_first[OF assms(1) P(1) this(1) e(1,3) this(2)]
    show ?thesis
      using clock_scan_Suc[OF 0(1) assms(1), of "n - 1"] False 0(4) e(1) P(2) by (auto simp: clock_chooses_def)
  qed
next
  case (Suc d)
  note i = Suc.prems(1) and P = clock_pass_inv[OF Suc.prems(1) assms(1)] and R = ring_pass[OF Suc.prems(1) assms(1)]
  show ?case
  proof (cases "clock_chooses s (hand s)")
    case True
    then have "hand s \<in> clock_candidates s" by (simp add: clock_chooses_def)
    with clock_scan_choose[OF i assms(1) True, of "n - 1"] Suc.prems(4) show ?thesis by auto
  next
    case False
    have "\<exists>s' f. clock_scan (n - 1) (clock_pass s) = (s', Inr f) \<and> f \<in> clock_candidates (clock_pass s) \<and> clock_inv cap s' \<and>
        clock_candidates s' = clock_candidates (clock_pass s) - {f}"
      by (rule Suc.IH) (use P R Suc.prems in auto)
    then show ?thesis
      using clock_scan_Suc[OF i assms(1), of "n - 1"] False Suc.prems(4) P(2) by auto
  qed
qed

lemma ring_covers:
  assumes "clock_inv cap s" "f < cap"
  shows "ring s cap ((f + cap - hand s) mod cap) = f"
proof -
  have "hand s < cap" using assms by (auto simp: clock_inv_def)
  then show ?thesis using assms(2) by (simp add: ring_def mod_simps)
qed

lemma clock_victim:
  assumes i: "clock_inv cap s"
  shows "if clock_candidates s = {} then CLOCK_Victim s = (s, Inl NotFound)
    else \<exists>s' f. CLOCK_Victim s = (s', Inr f) \<and> f \<in> clock_candidates s \<and> clock_inv cap s' \<and>
      clock_candidates s' = clock_candidates s - {f}"
proof (cases "clock_candidates s = {}")
  case True
  with i show ?thesis by (simp add: CLOCK_Victim_def clock_inv_def)
next
  case False
  then obtain f where f: "f \<in> clock_candidates s" by blast
  then have fc: "f < cap" using i by (simp add: clock_candidates_def clock_inv_def)
  then have "cap \<noteq> 0" by simp
  have "ring s cap ((f + cap - hand s) mod cap) \<in> clock_candidates s" using ring_covers[OF i fc] f by simp
  from clock_scan_finds[OF \<open>cap \<noteq> 0\<close> i _ this, of "cap * 2"] \<open>cap \<noteq> 0\<close> i False show ?thesis
    by (simp add: CLOCK_Victim_def clock_inv_def)
qed

interpretation clock: replacer clock_step CLOCK_Size CLOCK_IsEvictable clock_inv clock_candidates
proof unfold_locales
  fix cap s x s' r f
  assume i: "clock_inv cap s"
  have c: "clock_capacity s = cap" "length (evictable s) = cap" "length (active s) = cap"
    using i by (simp_all add: clock_inv_def)
  show "clock_candidates s \<subseteq> {..<cap}" using c by (auto simp: clock_candidates_def)
  show "CLOCK_Size s = card (clock_candidates s)" using i by (simp add: CLOCK_Size_def clock_inv_def)
  show "CLOCK_IsEvictable s f \<longleftrightarrow> f \<in> clock_candidates s" by (simp add: CLOCK_IsEvictable_def clock_candidates_def)
  have step: "clock_inv cap s' \<and> abs_candidates cap x r (clock_candidates s) (clock_candidates s')"
    if "x = Remove f" "f < cap" "s' = fst (CLOCK_Remove f s)" "r = Status Code_Ok" for f s' r
  proof -
    let ?s1 = "if evictable s ! f then s\<lparr>evictable := (evictable s)[f := False], evictable_count := evictable_count s - 1\<rparr> else s"
    have k: "clock_candidates ?s1 = clock_candidates s - {f}"
      using that(2) c clock_candidates_upd[of f s False] by (auto simp: clock_candidates_def)
    have 1: "clock_inv cap ?s1" using clock_inv_updates(4)[OF i, of f] that(2) c i by (simp add: clock_candidates_def)
    have "clock_inv cap (?s1\<lparr>active := (active ?s1)[f := False], reference_bits := (reference_bits ?s1)[f := False]\<rparr>)"
      using clock_inv_updates(2)[OF clock_inv_updates(6)[OF 1, of f], of f False] k by simp
    moreover have "clock_candidates (?s1\<lparr>active := (active ?s1)[f := False], reference_bits := (reference_bits ?s1)[f := False]\<rparr>)
        = clock_candidates s - {f}" using k by simp
    ultimately show ?thesis using that c by (simp add: CLOCK_Remove_def Let_def split: if_splits)
  qed
  show "clock_step x s = (s', r) \<Longrightarrow> clock_inv cap s' \<and> abs_candidates cap x r (clock_candidates s) (clock_candidates s')"
  proof (cases x)
    case (Pin f)
    assume st: "clock_step x s = (s', r)"
    show ?thesis
    proof (cases "f < cap")
      case True
      let ?s1 = "s\<lparr>active := (active s)[f := True], reference_bits := (reference_bits s)[f := True]\<rparr>"
      have 1: "clock_inv cap ?s1" "clock_candidates ?s1 = clock_candidates s"
        using clock_inv_updates(2)[OF clock_inv_updates(1)[OF i True], of f True] by simp_all
      show ?thesis
      proof (cases "evictable s ! f")
        case ev: True
        then have m: "f \<in> clock_candidates s" using True c by (simp add: clock_candidates_def)
        have k: "clock_candidates (?s1\<lparr>evictable := (evictable s)[f := False]\<rparr>) = clock_candidates s - {f}"
          using clock_candidates_upd[of f ?s1 False] True c 1(2) by simp
        have "clock_candidates (?s1\<lparr>evictable := (evictable s)[f := False], evictable_count := evictable_count s - 1\<rparr>)
            = clock_candidates s - {f}" using k by (simp only: clock_candidates_frame)
        with st Pin True ev c m clock_inv_updates(4)[OF 1(1), of f] 1(2) show ?thesis
          by (auto simp: CLOCK_Pin_def replies Let_def)
      next
        case False
        then have "f \<notin> clock_candidates s" by (simp add: clock_candidates_def)
        with st Pin True False c 1 show ?thesis by (auto simp: CLOCK_Pin_def replies Let_def)
      qed
    qed (use st Pin i c in \<open>auto simp: CLOCK_Pin_def replies\<close>)
  next
    case (Unpin f)
    assume st: "clock_step x s = (s', r)"
    show ?thesis
    proof (cases "f < cap")
      case True
      let ?s1 = "s\<lparr>active := (active s)[f := True]\<rparr>"
      have 1: "clock_inv cap ?s1" "clock_candidates ?s1 = clock_candidates s" "active ?s1 ! f"
        using clock_inv_updates(1)[OF i True] True c by simp_all
      show ?thesis
      proof (cases "evictable s ! f")
        case ev: True
        then have m: "f \<in> clock_candidates s" using True c by (simp add: clock_candidates_def)
        with st Unpin True ev c 1 show ?thesis by (auto simp: CLOCK_Unpin_def replies Let_def)
      next
        case False
        then have m: "f \<notin> clock_candidates s" by (simp add: clock_candidates_def)
        have k: "clock_candidates (?s1\<lparr>evictable := (evictable s)[f := True]\<rparr>) = insert f (clock_candidates s)"
          using clock_candidates_upd[of f ?s1 True] True c 1(2) by simp
        let ?s2 = "?s1\<lparr>evictable := (evictable s)[f := True], evictable_count := evictable_count s + 1\<rparr>"
        have 2: "clock_inv cap ?s2" using clock_inv_updates(5)[OF 1(1) True] m 1 by simp
        have 3: "clock_inv cap (?s2\<lparr>reference_bits := (reference_bits s)[f := True]\<rparr>)"
          using clock_inv_updates(2)[OF 2, of f True] by simp
        have e: "s' = ?s2\<lparr>reference_bits := (reference_bits s)[f := True]\<rparr>" "r = Status Code_Ok"
          using st Unpin True False c by (auto simp: CLOCK_Unpin_def replies Let_def)
        have "clock_candidates s' = insert f (clock_candidates s)"
          unfolding e(1) using k by (simp only: clock_candidates_frame)
        with 3 e m True Unpin show ?thesis by simp
      qed
    qed (use st Unpin i c in \<open>auto simp: CLOCK_Unpin_def replies\<close>)
  next
    case (RecordAccess f)
    assume st: "clock_step x s = (s', r)"
    with RecordAccess i c clock_inv_updates(2)[OF clock_inv_updates(1)[OF i], of f f True] show ?thesis
      by (auto simp: CLOCK_RecordAccess_def replies split: if_splits)
  next
    case (Remove f)
    assume st: "clock_step x s = (s', r)"
    show ?thesis
    proof (cases "f < cap")
      case True
      with st Remove c have "s' = fst (CLOCK_Remove f s)" "r = Status Code_Ok"
        by (auto simp: CLOCK_Remove_def replies Let_def)
      from step[OF Remove True this] show ?thesis .
    qed (use st Remove i c in \<open>auto simp: CLOCK_Remove_def replies\<close>)
  next
    case Victim
    assume st: "clock_step x s = (s', r)"
    show ?thesis
    proof (cases "clock_candidates s = {}")
      case True
      with clock_victim[OF i] have "CLOCK_Victim s = (s, Inl NotFound)" by simp
      with st Victim i True show ?thesis by (simp add: replies)
    next
      case False
      with clock_victim[OF i] obtain s1 f where
        "CLOCK_Victim s = (s1, Inr f)" "f \<in> clock_candidates s" "clock_inv cap s1"
        "clock_candidates s1 = clock_candidates s - {f}" by auto
      moreover from this(1) st Victim have "s' = s1" "r = Chosen f" by (simp_all add: replies)
      ultimately show ?thesis using False Victim by auto
    qed
  qed
qed

subsection \<open>Properties\<close>

lemma init_invs:
  "fifo_inv cap (FIFO_init cap)" "lru_inv cap (LRU_init cap)" "clock_inv cap (CLOCK_init cap)"
  "fifo_candidates (FIFO_init cap) = {}" "lru_candidates (LRU_init cap) = {}" "clock_candidates (CLOCK_init cap) = {}"
  by (auto simp: fifo_inv_def lru_inv_def clock_inv_def FIFO_init_def LRU_init_def CLOCK_init_def clock_candidates_def)

text \<open>Runs of the three policies.\<close>

fun fifo_run :: "rep_op list \<Rightarrow> FIFOReplacer \<Rightarrow> FIFOReplacer \<times> rep_reply list" where
  "fifo_run [] s = (s, [])"
| "fifo_run (x # xs) s = (case fifo_step x s of (s1, r) \<Rightarrow> case fifo_run xs s1 of (s2, rs) \<Rightarrow> (s2, r # rs))"

fun lru_run :: "rep_op list \<Rightarrow> LRUReplacer \<Rightarrow> LRUReplacer \<times> rep_reply list" where
  "lru_run [] s = (s, [])"
| "lru_run (x # xs) s = (case lru_step x s of (s1, r) \<Rightarrow> case lru_run xs s1 of (s2, rs) \<Rightarrow> (s2, r # rs))"

fun clock_run :: "rep_op list \<Rightarrow> ClockReplacer \<Rightarrow> ClockReplacer \<times> rep_reply list" where
  "clock_run [] s = (s, [])"
| "clock_run (x # xs) s = (case clock_step x s of (s1, r) \<Rightarrow> case clock_run xs s1 of (s2, rs) \<Rightarrow> (s2, r # rs))"

lemma runs_eq: "fifo_run xs s = fifo.run xs s" "lru_run xs t = lru.run xs t" "clock_run xs u = clock.run xs u"
  by (induction xs arbitrary: s t u) (simp_all split: prod.split)

text \<open>In every run of the LRU policy from its initial state, a victim request with a candidate left
  returns an evictable frame whose last access is no later than that of any other evictable frame,
  and the frame stops being evictable; with no candidate it reports \<open>NotFound\<close>.\<close>

theorem LRU_victim_least_recent:
  assumes "lru_run xs (LRU_init cap) = (s, rs)" and "LRU_Victim s = (s', res)"
  shows "if lru_candidates s = {} then res = Inl NotFound \<and> s' = s
    else \<exists>f \<in> lru_candidates s. res = Inr f \<and> lru_candidates s' = lru_candidates s - {f} \<and>
      (\<forall>g \<in> lru_candidates s. lookup0 (last_used s) f \<le> lookup0 (last_used s) g)"
proof -
  from lru.run_inv[OF init_invs(2)] assms(1) have "lru_inv cap s" by (simp add: runs_eq)
  then have "lru_candidates s = set (lru_order s)" "sorted (map (lookup0 (last_used s)) (lru_order s))"
    by (simp_all add: lru_inv_def)
  with assms(2) show ?thesis
    by (cases "lru_order s") (auto simp: LRU_Victim_def)
qed

theorem LRU_victim_least_recent_witness:
  "snd (LRU_Victim (fst (lru_run [RecordAccess 0, RecordAccess 1, Unpin 0, Unpin 1, RecordAccess 0] (LRU_init 2)))) = Inr 1"
proof -
  obtain s rs where r: "lru_run [RecordAccess 0, RecordAccess 1, Unpin 0, Unpin 1, RecordAccess 0] (LRU_init 2) = (s, rs)"
    by fastforce
  then have s: "lru_candidates s = {0, 1}" "lookup0 (last_used s) 0 = 3" "lookup0 (last_used s) 1 = 2"
    by (auto simp: LRU_init_def LRU_RecordAccess_def LRU_Unpin_def replies touch_def Let_def lookup0_def)
  obtain s' res where v: "LRU_Victim s = (s', res)" by fastforce
  from LRU_victim_least_recent[OF r v] s v show ?thesis unfolding r by auto
qed

text \<open>In every run of the FIFO policy, a victim request with a candidate left returns the evictable
  frame that arrived first.\<close>

theorem FIFO_victim_first_arrived:
  assumes "fifo_run xs (FIFO_init cap) = (s, rs)" and "FIFO_Victim s = (s', res)"
  shows "if fifo_candidates s = {} then res = Inl NotFound \<and> s' = s
    else \<exists>f \<in> fifo_candidates s. res = Inr f \<and> fifo_candidates s' = fifo_candidates s - {f} \<and>
      (\<forall>g \<in> fifo_candidates s. lookup0 (arrival_order s) f \<le> lookup0 (arrival_order s) g)"
proof -
  from fifo.run_inv[OF init_invs(1)] assms(1) have "fifo_inv cap s" by (simp add: runs_eq)
  then have "fifo_candidates s = set (fifo_order s)" "sorted (map (lookup0 (arrival_order s)) (fifo_order s))"
    by (simp_all add: fifo_inv_def)
  with assms(2) show ?thesis
    by (cases "fifo_order s") (auto simp: FIFO_Victim_def)
qed

theorem FIFO_victim_first_arrived_witness:
  "snd (FIFO_Victim (fst (fifo_run [RecordAccess 1, RecordAccess 0, Unpin 0, Unpin 1] (FIFO_init 2)))) = Inr 1"
proof -
  obtain s rs where r: "fifo_run [RecordAccess 1, RecordAccess 0, Unpin 0, Unpin 1] (FIFO_init 2) = (s, rs)"
    by fastforce
  then have s: "fifo_candidates s = {0, 1}" "lookup0 (arrival_order s) 0 = 1" "lookup0 (arrival_order s) 1 = 0"
    by (auto simp: FIFO_init_def FIFO_RecordAccess_def FIFO_Unpin_def note_arrival_def replies Let_def lookup0_def)
  obtain s' res where v: "FIFO_Victim s = (s', res)" by fastforce
  from FIFO_victim_first_arrived[OF r v] s v show ?thesis unfolding r by auto
qed

text \<open>The CLOCK scan is bounded and complete: in every run, asking for victims as often as there are
  evictable frames returns each of them exactly once (so the scan of twice the capacity never gives
  up while a candidate is left), and the next request reports \<open>NotFound\<close>.\<close>

theorem CLOCK_drains:
  assumes "clock_run xs (CLOCK_init cap) = (s, rs)"
  shows "\<exists>s' fs. clock_run (replicate (CLOCK_Size s) Victim) s = (s', map Chosen fs) \<and> distinct fs \<and>
    set fs = {f. CLOCK_IsEvictable s f} \<and> snd (CLOCK_Victim s') = Inl NotFound"
proof -
  from clock.run_inv[OF init_invs(3)] assms have i: "clock_inv cap s" by (simp add: runs_eq)
  have e: "{f. CLOCK_IsEvictable s f} = clock_candidates s" by (auto simp: CLOCK_IsEvictable_def clock_candidates_def)
  from clock.drain[OF i clock.size_cand[OF i]] obtain s' fs where
    d: "clock_run (replicate (CLOCK_Size s) Victim) s = (s', map Chosen fs)" "distinct fs" "set fs = clock_candidates s"
      "clock_candidates s' = {}"
    by (auto simp: runs_eq)
  have "clock_inv cap s'" using clock.run_inv[OF i] d(1) by (simp add: runs_eq)
  from clock_victim[OF this] d(4) have "snd (CLOCK_Victim s') = Inl NotFound" by simp
  with d e show ?thesis by blast
qed

theorem CLOCK_drains_witness:
  "\<exists>s' fs. clock_run (replicate 2 Victim) (fst (clock_run [Unpin 0, Unpin 2] (CLOCK_init 3))) = (s', map Chosen fs) \<and> set fs = {0, 2}"
proof -
  obtain s rs where r: "clock_run [Unpin 0, Unpin 2] (CLOCK_init 3) = (s, rs)" by fastforce
  have "evictable s = [True, False, True]" "clock_capacity s = 3" "CLOCK_Size s = 2"
    using r by (auto simp: CLOCK_init_def CLOCK_Unpin_def replies Let_def CLOCK_Size_def numeral_3_eq_3 numeral_2_eq_2)
  then have s: "CLOCK_Size s = 2" "{f. CLOCK_IsEvictable s f} = {0, 2}"
    by (auto simp: CLOCK_IsEvictable_def numeral_3_eq_3 less_Suc_eq)
  from CLOCK_drains[OF r] show ?thesis unfolding s r by auto
qed

text \<open>No policy ever chooses a pinned frame: once a frame is pinned or removed, no victim request
  returns it until it is unpinned again.\<close>

theorem pinned_frame_never_victim:
  assumes "Unpin f \<notin> set ys" and "p = Pin f \<or> p = Remove f" and "f < cap"
    and "fifo_run (xs @ [p]) (FIFO_init cap) = (s, rs)" and "fifo_run ys s = (s', rs')"
    and "lru_run (xs @ [p]) (LRU_init cap) = (t, ts)" and "lru_run ys t = (t', ts')"
    and "clock_run (xs @ [p]) (CLOCK_init cap) = (u, us)" and "clock_run ys u = (u', us')"
  shows "Chosen f \<notin> set rs' \<and> Chosen f \<notin> set ts' \<and> Chosen f \<notin> set us'"
  using fifo.pin_then_not_chosen[OF init_invs(1) assms(2,3,1)] lru.pin_then_not_chosen[OF init_invs(2) assms(2,3,1)]
    clock.pin_then_not_chosen[OF init_invs(3) assms(2,3,1)] assms(4-)
  by (simp add: runs_eq)

theorem pinned_frame_never_victim_witness:
  "\<exists>s rs u us. fifo_run ([Unpin 0, Unpin 1] @ [Pin 0]) (FIFO_init 2) = (s, rs) \<and>
     clock_run ([Unpin 0, Unpin 1] @ [Pin 0]) (CLOCK_init 2) = (u, us) \<and>
     Chosen 0 \<notin> set (snd (fifo_run [Victim, Victim] s)) \<and> Chosen 0 \<notin> set (snd (clock_run [Victim, Victim] u))"
proof -
  obtain s rs where s: "fifo_run ([Unpin 0, Unpin 1] @ [Pin 0]) (FIFO_init 2) = (s, rs)" by fastforce
  obtain t ts where t: "lru_run ([Unpin 0, Unpin 1] @ [Pin 0]) (LRU_init 2) = (t, ts)" by fastforce
  obtain u us where u: "clock_run ([Unpin 0, Unpin 1] @ [Pin 0]) (CLOCK_init 2) = (u, us)" by fastforce
  have "Chosen 0 \<notin> set (snd (fifo_run [Victim, Victim] s)) \<and> Chosen 0 \<notin> set (snd (lru_run [Victim, Victim] t)) \<and>
      Chosen 0 \<notin> set (snd (clock_run [Victim, Victim] u))"
    by (rule pinned_frame_never_victim[OF _ _ _ s prod.collapse[symmetric] t prod.collapse[symmetric] u prod.collapse[symmetric]])
      simp_all
  with s u show ?thesis by blast
qed

end
