(* ===== verification/Wal.thy ===== *)
theory Wal
  imports PageBytes Transaction Codec
begin

text \<open>
  \<^verbatim>\<open>src/storage/log_manager.cpp\<close>: the write-ahead log. Records are encoded with a 48-byte header
  and a CRC; the log file is a byte list of which a prefix is known to be flushed. Host file
  operations are taken to succeed, except for the flush failure that the code lets tests inject.
\<close>

subsection \<open>Integers in the log\<close>

definition kMagicOffset :: nat where "kMagicOffset = 0"
definition kVersionOffset :: nat where "kVersionOffset = 4"
definition kTypeOffset :: nat where "kTypeOffset = 6"
definition kTotalLengthOffset :: nat where "kTotalLengthOffset = 8"
definition kChecksumOffset :: nat where "kChecksumOffset = 12"
definition kLsnOffset :: nat where "kLsnOffset = 16"
definition kTxnIdOffset :: nat where "kTxnIdOffset = 24"
definition kPrevLsnOffset :: nat where "kPrevLsnOffset = 32"
definition kLogPageIdOffset :: nat where "kLogPageIdOffset = 40"
definition kPayloadLengthOffset :: nat where "kPayloadLengthOffset = 44"
definition kMagic :: u32 where "kMagic = 0x314C4157"
definition kVersion :: u16 where "kVersion = 1"
definition kLogHeaderSize :: nat where "kLogHeaderSize = 48"

lemmas log_offsets = kMagicOffset_def kVersionOffset_def kTypeOffset_def kTotalLengthOffset_def kChecksumOffset_def
  kLsnOffset_def kTxnIdOffset_def kPrevLsnOffset_def kLogPageIdOffset_def kPayloadLengthOffset_def kLogHeaderSize_def

definition StoreU16 :: "byte list \<Rightarrow> nat \<Rightarrow> u16 \<Rightarrow> byte list" where
  "StoreU16 data off value = data[off := ucast (value AND 0xFF), off + 1 := ucast (drop_bit 8 value AND 0xFF)]"

definition StoreU32 :: "byte list \<Rightarrow> nat \<Rightarrow> u32 \<Rightarrow> byte list" where
  "StoreU32 data off value = foldl (\<lambda>d i. d[off + i := ucast (drop_bit (8 * i) value AND 0xFF)]) data [0..<4]"

definition StoreU64 :: "byte list \<Rightarrow> nat \<Rightarrow> u64 \<Rightarrow> byte list" where
  "StoreU64 data off value = foldl (\<lambda>d i. d[off + i := ucast (drop_bit (8 * i) value AND 0xFF)]) data [0..<8]"

definition LoadU16 :: "byte list \<Rightarrow> nat \<Rightarrow> u16" where
  "LoadU16 data off = ucast (data ! off) OR push_bit 8 (ucast (data ! (off + 1)))"

definition LoadU32 :: "byte list \<Rightarrow> nat \<Rightarrow> u32" where
  "LoadU32 data off = foldl (\<lambda>v i. v OR push_bit (8 * i) (ucast (data ! (off + i)))) 0 [0..<4]"

definition LoadU64 :: "byte list \<Rightarrow> nat \<Rightarrow> u64" where
  "LoadU64 data off = foldl (\<lambda>v i. v OR push_bit (8 * i) (ucast (data ! (off + i)))) 0 [0..<8]"

fun crc_bits :: "nat \<Rightarrow> u32 \<Rightarrow> u32" where
  "crc_bits 0 crc = crc"
| "crc_bits (Suc n) crc =
     crc_bits n (if crc AND 1 \<noteq> 0 then drop_bit 1 crc XOR 0xEDB88320 else drop_bit 1 crc)"

definition Crc32 :: "byte list \<Rightarrow> nat \<Rightarrow> nat \<Rightarrow> nat \<Rightarrow> u32" where
  "Crc32 data len skipped_offset skipped_length =
     foldl (\<lambda>crc i. if i \<ge> skipped_offset \<and> i < skipped_offset + skipped_length then crc
                    else crc_bits 8 (crc XOR ucast (data ! i))) 0xFFFFFFFF [0..<len] XOR 0xFFFFFFFF"

subsection \<open>Records\<close>

datatype LogRecordType = L_Begin | L_PageUpdate | L_PageAllocate | L_PageFree | L_Commit | L_Abort
  | L_Checkpoint | L_Compensation

fun type_code :: "LogRecordType \<Rightarrow> u16" where
  "type_code L_Begin = 1"
| "type_code L_PageUpdate = 2"
| "type_code L_PageAllocate = 3"
| "type_code L_PageFree = 4"
| "type_code L_Commit = 5"
| "type_code L_Abort = 6"
| "type_code L_Checkpoint = 7"
| "type_code L_Compensation = 8"

definition type_of_code :: "u16 \<Rightarrow> LogRecordType" where
  "type_of_code raw =
     (if raw = 1 then L_Begin else if raw = 2 then L_PageUpdate else if raw = 3 then L_PageAllocate
      else if raw = 4 then L_PageFree else if raw = 5 then L_Commit else if raw = 6 then L_Abort
      else if raw = 7 then L_Checkpoint else L_Compensation)"

definition IsKnownType :: "u16 \<Rightarrow> bool" where
  "IsKnownType raw \<longleftrightarrow> raw \<ge> type_code L_Begin \<and> raw \<le> type_code L_Compensation"

record LogRecord =
  rec_type :: LogRecordType
  rec_lsn :: lsn_t
  rec_txn :: txn_id_t
  rec_prev :: lsn_t
  rec_page :: page_id_t
  undo_next_lsn :: lsn_t
  compensation_type :: LogRecordType
  before_image :: "byte list"
  after_image :: "byte list"

definition LogRecord_default :: LogRecord where
  "LogRecord_default = \<lparr>rec_type = L_Checkpoint, rec_lsn = kInvalidLsn, rec_txn = kInvalidTxnId, rec_prev = kInvalidLsn,
     rec_page = INVALID_PAGE_ID, undo_next_lsn = kInvalidLsn, compensation_type = L_Checkpoint,
     before_image = [], after_image = []\<rparr>"

text \<open>The checks at the head of \<^verbatim>\<open>Encode\<close>, in order.\<close>

definition encode_checks :: "LogRecord \<Rightarrow> ErrorCode" where
  "encode_checks r =
     (if \<not> IsKnownType (type_code (rec_type r)) then InvalidArgument
      else if rec_type r = L_PageUpdate \<and>
        (length (before_image r) \<noteq> page_size \<or> length (after_image r) \<noteq> page_size) then InvalidArgument
      else if rec_type r = L_Compensation \<and> before_image r \<noteq> [] then InvalidArgument
      else if rec_type r = L_Compensation \<and> after_image r \<noteq> [] \<and> length (after_image r) \<noteq> page_size
        then InvalidArgument
      else if rec_type r = L_Compensation \<and> compensation_type r \<noteq> L_PageUpdate \<and>
        compensation_type r \<noteq> L_PageAllocate \<and> compensation_type r \<noteq> L_PageFree then InvalidArgument
      else if rec_type r = L_Compensation \<and>
        ((compensation_type r = L_PageUpdate \<and> length (after_image r) \<noteq> page_size) \<or>
         (compensation_type r \<noteq> L_PageUpdate \<and> after_image r \<noteq> [])) then InvalidArgument
      else if rec_type r \<noteq> L_PageUpdate \<and> rec_type r \<noteq> L_Compensation \<and>
        (before_image r \<noteq> [] \<or> after_image r \<noteq> []) then InvalidArgument
      else Code_Ok)"

definition payload_of :: "LogRecord \<Rightarrow> byte list" where
  "payload_of r =
     (if rec_type r = L_Compensation
      then StoreU16 (StoreU64 (replicate 12 0) 0 (undo_next_lsn r)) 8 (type_code (compensation_type r)) else [])
     @ before_image r @ after_image r"

definition Encode :: "LogRecord \<Rightarrow> lsn_t \<Rightarrow> byte list Result" where
  "Encode r lsn =
     (if encode_checks r \<noteq> Code_Ok then Inl (encode_checks r)
      else
        (let payload = payload_of r in
         if length payload > 2 ^ 32 - 1 - kLogHeaderSize then Inl RecordTooLarge
         else
           (let total = kLogHeaderSize + length payload;
                bytes = replicate total 0;
                bytes = StoreU32 bytes kMagicOffset kMagic;
                bytes = StoreU16 bytes kVersionOffset kVersion;
                bytes = StoreU16 bytes kTypeOffset (type_code (rec_type r));
                bytes = StoreU32 bytes kTotalLengthOffset (word_of_nat total);
                bytes = StoreU32 bytes kChecksumOffset 0;
                bytes = StoreU64 bytes kLsnOffset lsn;
                bytes = StoreU64 bytes kTxnIdOffset (rec_txn r);
                bytes = StoreU64 bytes kPrevLsnOffset (rec_prev r);
                bytes = StoreU32 bytes kLogPageIdOffset (rec_page r);
                bytes = StoreU32 bytes kPayloadLengthOffset (word_of_nat (length payload));
                bytes = put_bytes kLogHeaderSize payload bytes
            in Inr (StoreU32 bytes kChecksumOffset (Crc32 bytes (length bytes) kChecksumOffset 4)))))"

definition Decode :: "byte list \<Rightarrow> LogRecord Result" where
  "Decode data =
     (if length data < kLogHeaderSize then Inl IOError
      else if LoadU32 data kMagicOffset \<noteq> kMagic \<or> LoadU16 data kVersionOffset \<noteq> kVersion then Inl IOError
      else
        (let type = LoadU16 data kTypeOffset;
             total = LoadU32 data kTotalLengthOffset;
             payload_length = LoadU32 data kPayloadLengthOffset
         in if \<not> IsKnownType type \<or> unat total < kLogHeaderSize \<or> unat total \<noteq> length data
               \<or> unat payload_length \<noteq> unat total - kLogHeaderSize then Inl IOError
            else if LoadU32 data kChecksumOffset \<noteq> Crc32 data (length data) kChecksumOffset 4 then Inl IOError
            else
              (let r = LogRecord_default\<lparr>rec_type := type_of_code type, rec_lsn := LoadU64 data kLsnOffset,
                     rec_txn := LoadU64 data kTxnIdOffset, rec_prev := LoadU64 data kPrevLsnOffset,
                     rec_page := LoadU32 data kLogPageIdOffset\<rparr>
               in if rec_type r = L_PageUpdate then
                    (if unat payload_length \<noteq> page_size * 2 then Inl IOError
                     else Inr (r\<lparr>before_image := get_bytes kLogHeaderSize page_size data,
                              after_image := drop (kLogHeaderSize + page_size) data\<rparr>))
                  else if rec_type r = L_Compensation then
                    (if unat payload_length \<noteq> 12 \<and> unat payload_length \<noteq> 12 + page_size then Inl IOError
                     else
                       (let undo = LoadU64 data kLogHeaderSize; ctype = LoadU16 data (kLogHeaderSize + 8) in
                        if ctype \<noteq> type_code L_PageUpdate \<and> ctype \<noteq> type_code L_PageAllocate
                           \<and> ctype \<noteq> type_code L_PageFree then Inl IOError
                        else
                          (let r = r\<lparr>undo_next_lsn := undo, compensation_type := type_of_code ctype\<rparr> in
                           if unat payload_length = 12 + page_size
                           then Inr (r\<lparr>after_image := drop (kLogHeaderSize + 12) data\<rparr>) else Inr r)))
                  else if unat payload_length \<noteq> 0 then Inl IOError
                  else Inr r)))"

subsection \<open>Reading after writing\<close>

lemma length_Stores [simp]:
  "length (StoreU16 d o16 v16) = length d" "length (StoreU32 d o32 v32) = length d" "length (StoreU64 d o64 v64) = length d"
proof -
  have "length (foldl (\<lambda>d i. d[off + i := f i]) d js) = length d" for f off and js :: "nat list"
    by (induction js arbitrary: d) simp_all
  then show "length (StoreU32 d o32 v32) = length d" "length (StoreU64 d o64 v64) = length d"
    by (simp_all add: StoreU32_def StoreU64_def)
qed (simp add: StoreU16_def)

lemma Stores_eq:
  "off + 2 \<le> length d \<Longrightarrow> StoreU16 d off v16 = put_bytes off (le_bytes 2 v16) d"
  "off + 4 \<le> length d \<Longrightarrow> StoreU32 d off v32 = put_bytes off (le_bytes 4 v32) d"
  "off + 8 \<le> length d \<Longrightarrow> StoreU64 d off v64 = put_bytes off (le_bytes 8 v64) d"
proof -
  show "off + 4 \<le> length d \<Longrightarrow> StoreU32 d off v32 = put_bytes off (le_bytes 4 v32) d"
    "off + 8 \<le> length d \<Longrightarrow> StoreU64 d off v64 = put_bytes off (le_bytes 8 v64) d"
    unfolding StoreU32_def StoreU64_def using store_loop_eq[of off 4 d v32] store_loop_eq[of off 8 d v64]
    by (simp_all only: ucast_and_FF store_loop_def)
  show "off + 2 \<le> length d \<Longrightarrow> StoreU16 d off v16 = put_bytes off (le_bytes 2 v16) d"
    using store_loop_eq[of off 2 d v16] by (simp add: StoreU16_def store_loop_def numeral_2_eq_2)
qed

lemma Loads_eq:
  "off + 2 \<le> length d \<Longrightarrow> LoadU16 d off = le_word (get_bytes off 2 d)"
  "off + 4 \<le> length d \<Longrightarrow> LoadU32 d off = le_word (get_bytes off 4 d)"
  "off + 8 \<le> length d \<Longrightarrow> LoadU64 d off = le_word (get_bytes off 8 d)"
proof -
  show "off + 4 \<le> length d \<Longrightarrow> LoadU32 d off = le_word (get_bytes off 4 d)"
    "off + 8 \<le> length d \<Longrightarrow> LoadU64 d off = le_word (get_bytes off 8 d)"
    unfolding LoadU32_def LoadU64_def
    using load_loop_eq[of off 4 d, where ?'a = 32] load_loop_eq[of off 8 d, where ?'a = 64]
    by (simp_all only: load_loop_def)
  show "off + 2 \<le> length d \<Longrightarrow> LoadU16 d off = le_word (get_bytes off 2 d)"
    using load_loop_eq[of off 2 d, where ?'a = 16] by (simp add: LoadU16_def load_loop_def numeral_2_eq_2)
qed

lemma get_Stores_other:
  "off + 2 \<le> length d \<Longrightarrow> p + n \<le> length d \<Longrightarrow> p + n \<le> off \<or> off + 2 \<le> p \<Longrightarrow> get_bytes p n (StoreU16 d off v16) = get_bytes p n d"
  "off + 4 \<le> length d \<Longrightarrow> p + n \<le> length d \<Longrightarrow> p + n \<le> off \<or> off + 4 \<le> p \<Longrightarrow> get_bytes p n (StoreU32 d off v32) = get_bytes p n d"
  "off + 8 \<le> length d \<Longrightarrow> p + n \<le> length d \<Longrightarrow> p + n \<le> off \<or> off + 8 \<le> p \<Longrightarrow> get_bytes p n (StoreU64 d off v64) = get_bytes p n d"
  by (simp_all add: Stores_eq get_put_disjoint)

lemma get_Stores_same:
  "off + 2 \<le> length d \<Longrightarrow> get_bytes off 2 (StoreU16 d off v16) = le_bytes 2 v16"
  "off + 4 \<le> length d \<Longrightarrow> get_bytes off 4 (StoreU32 d off v32) = le_bytes 4 v32"
  "off + 8 \<le> length d \<Longrightarrow> get_bytes off 8 (StoreU64 d off v64) = le_bytes 8 v64"
  by (simp_all add: Stores_eq get_put_same)

text \<open>The checksum does not see the bytes it is stored in.\<close>

lemma Crc32_Store: "Crc32 (StoreU32 d off v) n off 4 = Crc32 d n off 4"
proof -
  have other: "foldl (\<lambda>d i. d[off + i := f i]) d js ! i = d ! i" if "i \<notin> (+) off ` set js"
    for f i and js :: "nat list"
    using that by (induction js arbitrary: d) auto
  have eq: "StoreU32 d off v ! i = d ! i" if "\<not> (off \<le> i \<and> i < off + 4)" for i
    unfolding StoreU32_def using that by (intro other) auto
  have "foldl (\<lambda>crc i. if off \<le> i \<and> i < off + 4 then crc else crc_bits 8 (crc XOR ucast (StoreU32 d off v ! i))) c js =
    foldl (\<lambda>crc i. if off \<le> i \<and> i < off + 4 then crc else crc_bits 8 (crc XOR ucast (d ! i))) c js" for c and js :: "nat list"
    by (induction js arbitrary: c) (simp_all add: eq)
  then show ?thesis by (simp add: Crc32_def)
qed

subsection \<open>Round trip\<close>

definition normal_record :: "LogRecord \<Rightarrow> LogRecord" where
  "normal_record r = (if rec_type r = L_Compensation then r
     else r\<lparr>undo_next_lsn := kInvalidLsn, compensation_type := L_Checkpoint\<rparr>)"

definition record_valid :: "LogRecord \<Rightarrow> bool" where
  "record_valid r \<longleftrightarrow> encode_checks r = Code_Ok"

lemma IsKnown_type_code [simp]: "IsKnownType (type_code t)"
  by (cases t) (simp_all add: IsKnownType_def word_le_nat_alt)

lemma type_of_type_code [simp]: "type_of_code (type_code t) = t"
  by (cases t) (simp_all add: type_of_code_def)

lemma type_code_inj: "type_code t = type_code u \<longleftrightarrow> t = u"
  by (metis type_of_type_code)

lemma payload_length:
  assumes "record_valid r"
  shows "length (payload_of r) =
    (if rec_type r = L_PageUpdate then page_size * 2
     else if rec_type r = L_Compensation then (if compensation_type r = L_PageUpdate then 12 + page_size else 12) else 0)"
  using assms by (auto simp: record_valid_def encode_checks_def payload_of_def split: if_splits)

lemma payload_small: "record_valid r \<Longrightarrow> length (payload_of r) \<le> 8204"
  by (simp add: payload_length page_size_def)

definition header_of :: "LogRecord \<Rightarrow> lsn_t \<Rightarrow> nat \<Rightarrow> byte list" where
  "header_of r lsn n =
     (let bytes = replicate (48 + n) 0;
          bytes = StoreU32 bytes 0 kMagic;
          bytes = StoreU16 bytes 4 kVersion;
          bytes = StoreU16 bytes 6 (type_code (rec_type r));
          bytes = StoreU32 bytes 8 (word_of_nat (48 + n));
          bytes = StoreU32 bytes 12 0;
          bytes = StoreU64 bytes 16 lsn;
          bytes = StoreU64 bytes 24 (rec_txn r);
          bytes = StoreU64 bytes 32 (rec_prev r);
          bytes = StoreU32 bytes 40 (rec_page r)
      in StoreU32 bytes 44 (word_of_nat n))"

definition wire :: "LogRecord \<Rightarrow> lsn_t \<Rightarrow> byte list" where
  "wire r lsn =
     (let bytes = put_bytes 48 (payload_of r) (header_of r lsn (length (payload_of r)))
      in StoreU32 bytes 12 (Crc32 bytes (length bytes) 12 4))"

lemma Encode_eq:
  "Encode r lsn = (if record_valid r then Inr (wire r lsn) else Inl (encode_checks r))"
  using payload_small[of r]
  by (auto simp: Encode_def record_valid_def Let_def wire_def header_of_def log_offsets)

lemma length_header [simp]: "length (header_of r lsn n) = 48 + n"
  by (simp add: header_of_def Let_def)

lemma length_wire [simp]: "length (wire r lsn) = 48 + length (payload_of r)"
  by (simp add: wire_def Let_def length_put_bytes)

lemma header_fields:
  "get_bytes 0 4 (header_of r lsn n) = le_bytes 4 kMagic"
  "get_bytes 4 2 (header_of r lsn n) = le_bytes 2 kVersion"
  "get_bytes 6 2 (header_of r lsn n) = le_bytes 2 (type_code (rec_type r))"
  "get_bytes 8 4 (header_of r lsn n) = le_bytes 4 (word_of_nat (48 + n) :: u32)"
  "get_bytes 16 8 (header_of r lsn n) = le_bytes 8 lsn"
  "get_bytes 24 8 (header_of r lsn n) = le_bytes 8 (rec_txn r)"
  "get_bytes 32 8 (header_of r lsn n) = le_bytes 8 (rec_prev r)"
  "get_bytes 40 4 (header_of r lsn n) = le_bytes 4 (rec_page r)"
  "get_bytes 44 4 (header_of r lsn n) = le_bytes 4 (word_of_nat n :: u32)"
  unfolding header_of_def Let_def by (simp_all add: get_Stores_other get_Stores_same)

lemma wire_get:
  assumes "p + k \<le> 12 \<or> 16 \<le> p" "p + k \<le> 48"
  shows "get_bytes p k (wire r lsn) = get_bytes p k (header_of r lsn (length (payload_of r)))"
  using assms by (auto simp: wire_def Let_def get_Stores_other get_put_disjoint length_put_bytes)

lemma wire_payload: "get_bytes 48 (length (payload_of r)) (wire r lsn) = payload_of r"
  by (simp add: wire_def Let_def get_Stores_other get_put_same length_put_bytes)

lemma wire_loads:
  "LoadU32 (wire r lsn) 0 = kMagic" "LoadU16 (wire r lsn) 4 = kVersion" "LoadU16 (wire r lsn) 6 = type_code (rec_type r)"
  "LoadU32 (wire r lsn) 8 = word_of_nat (48 + length (payload_of r))"
  "LoadU64 (wire r lsn) 16 = lsn" "LoadU64 (wire r lsn) 24 = rec_txn r" "LoadU64 (wire r lsn) 32 = rec_prev r"
  "LoadU32 (wire r lsn) 40 = rec_page r" "LoadU32 (wire r lsn) 44 = word_of_nat (length (payload_of r))"
  by (simp_all add: Loads_eq wire_get header_fields)

lemma wire_crc: "LoadU32 (wire r lsn) 12 = Crc32 (wire r lsn) (length (wire r lsn)) 12 4"
  by (simp add: wire_def Let_def Crc32_Store length_put_bytes Loads_eq get_Stores_same)

lemma wire_comp_payload:
  assumes "rec_type r = L_Compensation" and v: "record_valid r"
  shows "LoadU64 (wire r lsn) 48 = undo_next_lsn r" "LoadU16 (wire r lsn) 56 = type_code (compensation_type r)"
    "drop 60 (wire r lsn) = after_image r"
proof -
  let ?h = "StoreU16 (StoreU64 (replicate 12 0) 0 (undo_next_lsn r)) 8 (type_code (compensation_type r))"
  have b: "before_image r = []"
    using assms by (auto simp: record_valid_def encode_checks_def split: if_splits)
  have p: "payload_of r = ?h @ after_image r" using assms b by (simp add: payload_of_def)
  have len: "length (wire r lsn) = 60 + length (after_image r)" by (simp add: p)
  have d: "drop 48 (wire r lsn) = payload_of r"
    using wire_payload[of r lsn] by (simp add: get_bytes_def)
  have g: "get_bytes (48 + i) n (wire r lsn) = get_bytes i n (payload_of r)" for i n
    using arg_cong[OF d, of "\<lambda>x. take n (drop i x)"] by (simp add: get_bytes_def add.commute)
  have "get_bytes 48 8 (wire r lsn) = le_bytes 8 (undo_next_lsn r)"
    using g[of 0 8] by (simp add: p get_bytes_append_left get_Stores_other get_Stores_same)
  then show "LoadU64 (wire r lsn) 48 = undo_next_lsn r" by (simp add: Loads_eq len del: length_wire)
  have "get_bytes 56 2 (wire r lsn) = le_bytes 2 (type_code (compensation_type r))"
    using g[of 8 2] by (simp add: p get_bytes_append_left get_Stores_same)
  then show "LoadU16 (wire r lsn) 56 = type_code (compensation_type r)" by (simp add: Loads_eq len del: length_wire)
  have "drop 60 (wire r lsn) = drop 12 (drop 48 (wire r lsn))" by simp
  then show "drop 60 (wire r lsn) = after_image r" by (simp add: d p)
qed

lemma wire_update_payload:
  assumes "rec_type r = L_PageUpdate" and v: "record_valid r"
  shows "get_bytes 48 page_size (wire r lsn) = before_image r" "drop (48 + page_size) (wire r lsn) = after_image r"
proof -
  have p: "payload_of r = before_image r @ after_image r" "length (before_image r) = page_size" "length (after_image r) = page_size"
    using assms by (auto simp: record_valid_def encode_checks_def payload_of_def split: if_splits)
  have d: "drop 48 (wire r lsn) = payload_of r"
    using wire_payload[of r lsn] by (simp add: get_bytes_def)
  show "get_bytes 48 page_size (wire r lsn) = before_image r" using d p by (simp add: get_bytes_def)
  have "drop (48 + page_size) (wire r lsn) = drop page_size (drop 48 (wire r lsn))" by (simp add: add.commute)
  then show "drop (48 + page_size) (wire r lsn) = after_image r" using d p by simp
qed

lemma compensation_cases:
  assumes "rec_type r = L_Compensation" "record_valid r"
  shows "before_image r = []"
    "compensation_type r = L_PageUpdate \<and> length (after_image r) = page_size \<or>
     compensation_type r \<in> {L_PageAllocate, L_PageFree} \<and> after_image r = []"
  using assms by (auto simp: record_valid_def encode_checks_def split: if_splits)

lemma other_cases:
  assumes "rec_type r \<noteq> L_Compensation" "rec_type r \<noteq> L_PageUpdate" "record_valid r"
  shows "before_image r = []" "after_image r = []"
  using assms by (auto simp: record_valid_def encode_checks_def split: if_splits)

lemma Decode_wire:
  assumes v: "record_valid r"
  shows "Decode (wire r lsn) = Inr (normal_record r\<lparr>rec_lsn := lsn\<rparr>)"
proof -
  have small: "length (payload_of r) \<le> 8204" using payload_small[OF v] .
  have w: "unat (LoadU32 (wire r lsn) 8) = 48 + length (payload_of r)"
    using small unfolding wire_loads by (intro unat_word_of_nat_u32) simp
  have u: "unat (LoadU32 (wire r lsn) 44) = length (payload_of r)"
    using small unfolding wire_loads by (intro unat_word_of_nat_u32) simp
  note loads = wire_loads(1-3,5-8)[where r = r and lsn = lsn]
  note dec = Decode_def Let_def log_offsets loads u w wire_crc[unfolded length_wire, where r = r and lsn = lsn]
  show ?thesis
  proof (cases "rec_type r = L_Compensation")
    case True
    have ps: "12 + page_size \<noteq> (12::nat)" by (simp add: page_size_def)
    note p = wire_comp_payload[OF True v, of lsn]
    from compensation_cases[OF True v] show ?thesis
    proof (elim disjE conjE)
      assume c: "before_image r = []" "compensation_type r = L_PageUpdate" "length (after_image r) = page_size"
      then have l: "length (payload_of r) = 12 + page_size" using True payload_length[OF v] by simp
      show ?thesis using c
        by (simp add: dec p l True normal_record_def LogRecord_default_def type_code_inj LogRecord.equality del: type_code.simps)
    next
      assume c: "before_image r = []" "compensation_type r \<in> {L_PageAllocate, L_PageFree}" "after_image r = []"
      then have l: "length (payload_of r) = 12" using True payload_length[OF v] by auto
      show ?thesis using c ps
        by (auto simp add: dec p l True normal_record_def LogRecord_default_def type_code_inj intro!: LogRecord.equality
            simp del: type_code.simps)
    qed
  next
    case False
    show ?thesis
    proof (cases "rec_type r = L_PageUpdate")
      case True
      have l: "length (payload_of r) = page_size * 2" using True payload_length[OF v] by simp
      note p = wire_update_payload[OF True v, of lsn]
      show ?thesis using p
        by (simp add: dec l True normal_record_def LogRecord_default_def LogRecord.equality del: type_code.simps)
    next
      case not_update: False
      have l: "length (payload_of r) = 0" using False not_update payload_length[OF v] by simp
      note c = other_cases[OF False not_update v]
      show ?thesis
        by (simp add: dec l c False not_update normal_record_def LogRecord_default_def LogRecord.equality del: type_code.simps)
    qed
  qed
qed

text \<open>The log record codec keeps the promise of a record format, for records whose unused fields
  have their defaults.\<close>

definition record_canonical :: "LogRecord \<Rightarrow> bool" where
  "record_canonical r \<longleftrightarrow> normal_record r = r"

interpretation log_codec: record_codec "\<lambda>r. Encode r (rec_lsn r)" Decode record_canonical
  by unfold_locales (auto simp: Encode_eq Decode_wire record_canonical_def split: if_splits)

lemma Encode_Inr: "Encode r lsn = Inr b \<longleftrightarrow> record_valid r \<and> b = wire r lsn"
  by (auto simp: Encode_eq)

subsection \<open>Property\<close>

definition demo_begin :: LogRecord where
  "demo_begin = LogRecord_default\<lparr>rec_type := L_Begin, rec_txn := 7\<rparr>"

lemma demo_begin_valid: "record_valid demo_begin"
  by (simp add: record_valid_def encode_checks_def demo_begin_def LogRecord_default_def del: type_code.simps)

text \<open>What the log encodes, it decodes: when a record passes the checks of the encoder, decoding the
  bytes written for it at a log sequence number yields the record again, with that number, and with the
  two fields that only compensation records use at their defaults in every other record. The checksum,
  length and type checks of the decoder never reject a record that was written.\<close>

theorem Log_Decode_Encode:
  assumes "Encode r lsn = Inr bytes"
  shows "Decode bytes = Inr (normal_record r\<lparr>rec_lsn := lsn\<rparr>)"
  using assms by (simp add: Encode_Inr Decode_wire)

lemma Log_Decode_Encode_witness:
  "\<exists>bytes. Encode demo_begin 5 = Inr bytes \<and> Decode bytes = Inr (normal_record demo_begin\<lparr>rec_lsn := 5\<rparr>)"
proof -
  have e: "Encode demo_begin 5 = Inr (wire demo_begin 5)" by (simp add: Encode_Inr demo_begin_valid)
  show ?thesis using e Log_Decode_Encode[OF e] by blast
qed

end
