(* ===== verification/LogFile.thy ===== *)
theory LogFile
  imports Wal
begin

text \<open>
  \<^verbatim>\<open>src/storage/log_manager.cpp\<close>: the log manager itself. The log is a byte list; a prefix of it
  has been handed to the host by \<^verbatim>\<open>fstream::flush\<close>, the rest sits in the stream buffer. Host calls
  succeed, except the flush, whose outcome is an argument. \<^verbatim>\<open>Flush\<close> releases the state mutex during
  the physical write, so it is cut into the critical sections between which other threads run.
\<close>

record LogManager =
  log_open :: bool
  fail_next_flush :: bool
  flush_in_progress :: bool
  flush_target_lsn :: lsn_t
  flush_generation :: u64
  last_flush_status :: ErrorCode
  append_lsn :: lsn_t
  durable_lsn :: lsn_t
  log_bytes :: "byte list"
  flushed_length :: nat

definition initial_log_manager :: LogManager where
  "initial_log_manager =
     \<lparr>log_open = False, fail_next_flush = False, flush_in_progress = False, flush_target_lsn = kInvalidLsn,
      flush_generation = 0, last_flush_status = Code_Ok, append_lsn = kInvalidLsn, durable_lsn = kInvalidLsn,
      log_bytes = [], flushed_length = 0\<rparr>"

definition EnsureOpenUnlocked :: "LogManager \<Rightarrow> ErrorCode" where
  "EnsureOpenUnlocked lm = (if \<not> log_open lm then InvalidArgument else Code_Ok)"

subsection \<open>Scanning\<close>

text \<open>What the scan remembers of the records already read: the last log sequence number, all of them, and
  the last one of each transaction.\<close>

record ScanState =
  previous_lsn :: lsn_t
  seen_lsns :: "lsn_t list"
  last_by_txn :: "txn_id_t \<rightharpoonup> lsn_t"

definition initial_scan :: ScanState where
  "initial_scan = \<lparr>previous_lsn = kInvalidLsn, seen_lsns = [], last_by_txn = Map.empty\<rparr>"

text \<open>The checks of the scan on one decoded record (\<open>None\<close>: the chain is invalid).\<close>

definition check_chain :: "ScanState \<Rightarrow> LogRecord \<Rightarrow> ScanState option" where
  "check_chain st r =
     (if rec_lsn r = kInvalidLsn \<or> rec_lsn r \<le> previous_lsn st \<or> rec_lsn r \<in> set (seen_lsns st) then None
      else
        (let seen = rec_lsn r # seen_lsns st in
         if rec_txn r = kInvalidTxnId then
           (if rec_prev r \<noteq> kInvalidLsn then None
            else Some \<lparr>previous_lsn = rec_lsn r, seen_lsns = seen, last_by_txn = last_by_txn st\<rparr>)
         else
           (let expected_prev = (case last_by_txn st (rec_txn r) of None \<Rightarrow> kInvalidLsn | Some l \<Rightarrow> l) in
            if rec_prev r \<noteq> expected_prev \<or> (rec_prev r \<noteq> kInvalidLsn \<and> rec_prev r \<notin> set seen) then None
            else Some \<lparr>previous_lsn = rec_lsn r, seen_lsns = seen,
                       last_by_txn = (last_by_txn st)(rec_txn r \<mapsto> rec_lsn r)\<rparr>)))"

text \<open>The loop of \<^verbatim>\<open>ScanUnlocked\<close>: the records read, and the offset at which it stopped.\<close>

function scan_loop :: "byte list \<Rightarrow> bool \<Rightarrow> nat \<Rightarrow> ScanState \<Rightarrow> LogRecord list \<Rightarrow> (LogRecord list \<times> nat) Result" where
  "scan_loop bytes repair_tail off st records =
     (if \<not> off < length bytes then Inr (records, off)
      else
        (let remaining = length bytes - off in
         if remaining < kLogHeaderSize then (if \<not> repair_tail then Inl IOError else Inr (records, off))
         else
           (let total = unat (LoadU32 (drop off bytes) kTotalLengthOffset) in
            if total < kLogHeaderSize \<or> total > remaining
            then (if \<not> repair_tail then Inl IOError else Inr (records, off))
            else
              (case Decode (get_bytes off total bytes) of
                 Inl err \<Rightarrow>
                   if off + total \<noteq> length bytes then Inl IOError
                   else if \<not> repair_tail then Inl err
                   else Inr (records, off)
               | Inr r \<Rightarrow>
                   (case check_chain st r of
                      None \<Rightarrow> Inl IOError
                    | Some st' \<Rightarrow> scan_loop bytes repair_tail (off + total) st' (records @ [r]))))))"
  by pat_completeness auto
termination
  by (relation "measure (\<lambda>(bytes, repair_tail, off, st, records). length bytes - off)")
    (auto simp: kLogHeaderSize_def)

declare scan_loop.simps [simp del]

text \<open>\<^verbatim>\<open>ScanUnlocked\<close>, with the file trimmed to the last good record when asked to.\<close>

definition ScanUnlocked :: "bool \<Rightarrow> LogManager \<Rightarrow> LogManager \<times> LogRecord list Result" where
  "ScanUnlocked repair_tail lm =
     (if EnsureOpenUnlocked lm \<noteq> Code_Ok then (lm, Inl (EnsureOpenUnlocked lm))
      else
        (case scan_loop (log_bytes lm) repair_tail 0 initial_scan [] of
           Inl err \<Rightarrow> (lm, Inl err)
         | Inr (records, off) \<Rightarrow>
             if repair_tail \<and> off < length (log_bytes lm)
             then (lm\<lparr>log_bytes := take off (log_bytes lm), flushed_length := off\<rparr>, Inr records)
             else (lm, Inr records)))"

definition Scan :: "LogManager \<Rightarrow> LogRecord list Result" where
  "Scan lm = snd (ScanUnlocked False lm)"

definition GetNextTransactionIdSeed :: "LogManager \<Rightarrow> txn_id_t Result" where
  "GetNextTransactionIdSeed lm =
     (case Scan lm of
        Inl err \<Rightarrow> Inl err
      | Inr records \<Rightarrow>
          (let max_txn_id = foldl (\<lambda>m r. max m (rec_txn r)) kInvalidTxnId records in
           if max_txn_id = -1 then Inl OutOfSpace else Inr (max_txn_id + 1)))"

subsection \<open>Lifecycle\<close>

text \<open>\<open>disk_file\<close> is what the host has under the log's path; a missing file is created empty. The code
  waits until no flush is in progress before it starts.\<close>

definition Open :: "byte list option \<Rightarrow> LogManager \<Rightarrow> LogManager \<times> ErrorCode" where
  "Open disk_file lm =
     (let bytes = (case disk_file of None \<Rightarrow> [] | Some b \<Rightarrow> b);
          lm = lm\<lparr>log_bytes := bytes, flushed_length := length bytes, log_open := True\<rparr>
      in case ScanUnlocked True lm of
           (lm, Inl err) \<Rightarrow> (lm\<lparr>log_open := False\<rparr>, err)
         | (lm, Inr records) \<Rightarrow>
             (let last = foldl (\<lambda>m r. max m (rec_lsn r)) kInvalidLsn records in
              (lm\<lparr>append_lsn := last, durable_lsn := last, flush_target_lsn := last, last_flush_status := Code_Ok\<rparr>,
               Code_Ok)))"

definition Append :: "LogRecord \<Rightarrow> LogManager \<Rightarrow> LogManager \<times> lsn_t Result" where
  "Append r lm =
     (if EnsureOpenUnlocked lm \<noteq> Code_Ok then (lm, Inl (EnsureOpenUnlocked lm))
      else
        (let lsn = append_lsn lm + 1 in
         case Encode r lsn of
           Inl err \<Rightarrow> (lm, Inl err)
         | Inr encoded \<Rightarrow> (lm\<lparr>log_bytes := log_bytes lm @ encoded, append_lsn := lsn\<rparr>, Inr lsn)))"

definition Truncate :: "LogManager \<Rightarrow> LogManager \<times> ErrorCode" where
  "Truncate lm =
     (if EnsureOpenUnlocked lm \<noteq> Code_Ok then (lm, EnsureOpenUnlocked lm)
      else (lm\<lparr>log_bytes := [], flushed_length := 0, append_lsn := kInvalidLsn, durable_lsn := kInvalidLsn,
               flush_target_lsn := kInvalidLsn, last_flush_status := Code_Ok\<rparr>, Code_Ok))"

subsection \<open>Flushing\<close>

text \<open>The first critical section of \<^verbatim>\<open>Flush\<close>: return at once, wait for the flush in progress (with the
  generation seen), or become the thread that flushes.\<close>

datatype FlushEntry = F_Return ErrorCode | F_Wait u64 | F_Lead

definition flush_enter :: "lsn_t \<Rightarrow> LogManager \<Rightarrow> LogManager \<times> FlushEntry" where
  "flush_enter target_lsn lm =
     (if EnsureOpenUnlocked lm \<noteq> Code_Ok then (lm, F_Return (EnsureOpenUnlocked lm))
      else if target_lsn > append_lsn lm then (lm, F_Return InvalidArgument)
      else if durable_lsn lm \<ge> target_lsn then (lm, F_Return Code_Ok)
      else
        (let lm = lm\<lparr>flush_target_lsn := max (flush_target_lsn lm) target_lsn\<rparr> in
         if flush_in_progress lm then (lm, F_Wait (flush_generation lm))
         else (lm\<lparr>flush_in_progress := True\<rparr>, F_Lead)))"

text \<open>When the waiting thread may go on, and what it returns then.\<close>

definition flush_wake :: "lsn_t \<Rightarrow> u64 \<Rightarrow> LogManager \<Rightarrow> ErrorCode option" where
  "flush_wake target_lsn generation lm =
     (if durable_lsn lm \<ge> target_lsn \<or> (\<not> flush_in_progress lm \<and> flush_generation lm \<noteq> generation)
      then Some (if durable_lsn lm \<ge> target_lsn then Code_Ok else last_flush_status lm)
      else None)"

text \<open>The flushing thread: it takes a batch, writes outside the state mutex, and publishes the outcome
  (\<open>None\<close>: a later target arrived in between, so it takes another batch).\<close>

definition flush_take :: "LogManager \<Rightarrow> LogManager \<times> lsn_t \<times> bool" where
  "flush_take lm = (lm\<lparr>fail_next_flush := False\<rparr>, flush_target_lsn lm, fail_next_flush lm)"

definition flush_io :: "bool \<Rightarrow> bool \<Rightarrow> LogManager \<Rightarrow> LogManager \<times> ErrorCode" where
  "flush_io inject_failure host_ok lm =
     (if inject_failure then (lm, IOError)
      else if \<not> host_ok then (lm, IOError)
      else (lm\<lparr>flushed_length := length (log_bytes lm)\<rparr>, Code_Ok))"

definition flush_publish :: "lsn_t \<Rightarrow> ErrorCode \<Rightarrow> LogManager \<Rightarrow> LogManager \<times> ErrorCode option" where
  "flush_publish batch_target status lm =
     (if status \<noteq> Code_Ok
      then (lm\<lparr>last_flush_status := status, flush_in_progress := False, flush_generation := flush_generation lm + 1\<rparr>,
            Some status)
      else
        (let lm = lm\<lparr>durable_lsn := max (durable_lsn lm) batch_target\<rparr> in
         if durable_lsn lm < flush_target_lsn lm then (lm, None)
         else (lm\<lparr>last_flush_status := Code_Ok, flush_in_progress := False,
                  flush_generation := flush_generation lm + 1\<rparr>, Some Code_Ok)))"

definition FailNextFlushForTesting :: "LogManager \<Rightarrow> LogManager" where
  "FailNextFlushForTesting lm = lm\<lparr>fail_next_flush := True\<rparr>"

text \<open>The whole call when no other thread runs in between; the fuel bounds the number of batches, and one
  is always enough.\<close>

fun flush_batches :: "nat \<Rightarrow> bool \<Rightarrow> LogManager \<Rightarrow> (LogManager \<times> ErrorCode) option" where
  "flush_batches 0 host_ok lm = None"
| "flush_batches (Suc n) host_ok lm =
     (case flush_take lm of (lm, batch_target, inject_failure) \<Rightarrow>
        (case flush_io inject_failure host_ok lm of (lm, status) \<Rightarrow>
           (case flush_publish batch_target status lm of
              (lm, Some result) \<Rightarrow> Some (lm, result)
            | (lm, None) \<Rightarrow> flush_batches n host_ok lm)))"

definition Flush :: "lsn_t \<Rightarrow> bool \<Rightarrow> LogManager \<Rightarrow> (LogManager \<times> ErrorCode) option" where
  "Flush target_lsn host_ok lm =
     (case flush_enter target_lsn lm of
        (lm, F_Return result) \<Rightarrow> Some (lm, result)
      | (lm, F_Wait generation) \<Rightarrow> None
      | (lm, F_Lead) \<Rightarrow> flush_batches 1 host_ok lm)"

definition CloseLog :: "bool \<Rightarrow> LogManager \<Rightarrow> (LogManager \<times> ErrorCode) option" where
  "CloseLog host_ok lm =
     (if \<not> log_open lm then Some (lm, Code_Ok)
      else
        (case Flush (append_lsn lm) host_ok lm of
           None \<Rightarrow> None
         | Some (lm, status) \<Rightarrow>
             if status \<noteq> Code_Ok then Some (lm, status)
             else if \<not> log_open lm then Some (lm, Code_Ok)
             else
               (let lm = lm\<lparr>flushed_length := length (log_bytes lm), log_open := False, flush_target_lsn := kInvalidLsn\<rparr>
                in Some (lm, Code_Ok))))"

subsection \<open>Well-formed logs\<close>

definition log_of :: "LogRecord list \<Rightarrow> byte list" where
  "log_of rs = concat (map (\<lambda>r. wire r (rec_lsn r)) rs)"

definition prev_of :: "txn_id_t \<Rightarrow> LogRecord list \<Rightarrow> lsn_t" where
  "prev_of txn earlier =
     (case filter (\<lambda>r. rec_txn r = txn) earlier of [] \<Rightarrow> kInvalidLsn | xs \<Rightarrow> rec_lsn (last xs))"

text \<open>\<open>r\<close> may follow the records \<open>earlier\<close>: its number is larger than theirs, and it points to the last
  record of its transaction.\<close>

definition follows :: "LogRecord list \<Rightarrow> LogRecord \<Rightarrow> bool" where
  "follows earlier r \<longleftrightarrow>
     rec_lsn r \<noteq> kInvalidLsn \<and> (\<forall>e \<in> set earlier. rec_lsn e < rec_lsn r) \<and>
     rec_prev r = (if rec_txn r = kInvalidTxnId then kInvalidLsn else prev_of (rec_txn r) earlier)"

fun chained_from :: "LogRecord list \<Rightarrow> LogRecord list \<Rightarrow> bool" where
  "chained_from earlier [] \<longleftrightarrow> True"
| "chained_from earlier (r # rs) \<longleftrightarrow> follows earlier r \<and> chained_from (earlier @ [r]) rs"

definition log_ok :: "LogRecord list \<Rightarrow> bool" where
  "log_ok rs \<longleftrightarrow> chained_from [] rs \<and> (\<forall>r \<in> set rs. record_valid r \<and> record_canonical r)"

lemma log_of_simps [simp]: "log_of [] = []" "log_of (r # rs) = wire r (rec_lsn r) @ log_of rs"
  "log_of (rs @ rs') = log_of rs @ log_of rs'"
  by (simp_all add: log_of_def)

lemma chained_from_append:
  "chained_from es (rs @ rs') \<longleftrightarrow> chained_from es rs \<and> chained_from (es @ rs) rs'"
  by (induction rs arbitrary: es) auto

lemma log_ok_append: "log_ok (rs @ rs') \<Longrightarrow> log_ok rs"
  by (simp add: log_ok_def chained_from_append)

lemma log_ok_take: "log_ok rs \<Longrightarrow> log_ok (take m rs)"
  by (metis append_take_drop_id log_ok_append)

lemma log_ok_snoc:
  "log_ok (rs @ [r]) \<longleftrightarrow> log_ok rs \<and> follows rs r \<and> record_valid r \<and> record_canonical r"
  by (auto simp: log_ok_def chained_from_append)

lemma chained_sorted: "chained_from es rs \<Longrightarrow> sorted_wrt (<) (map rec_lsn rs) \<and> (\<forall>e \<in> set es. \<forall>r \<in> set rs. rec_lsn e < rec_lsn r)"
proof (induction rs arbitrary: es)
  case (Cons r rs)
  then show ?case using Cons.IH[of "es @ [r]"] by (auto simp: follows_def)
qed simp

lemma log_ok_sorted: "log_ok rs \<Longrightarrow> sorted_wrt (<) (map rec_lsn rs)"
  using chained_sorted by (auto simp: log_ok_def)

subsection \<open>The scan of a well-formed log\<close>

definition scan_ok :: "ScanState \<Rightarrow> LogRecord list \<Rightarrow> bool" where
  "scan_ok st es \<longleftrightarrow>
     set (seen_lsns st) = rec_lsn ` set es \<and> previous_lsn st \<in> insert kInvalidLsn (rec_lsn ` set es) \<and>
     (\<forall>t. t \<noteq> kInvalidTxnId \<longrightarrow> (case last_by_txn st t of None \<Rightarrow> kInvalidLsn | Some l \<Rightarrow> l) = prev_of t es)"

lemma prev_of_snoc: "prev_of t (es @ [r]) = (if rec_txn r = t then rec_lsn r else prev_of t es)"
  by (cases "filter (\<lambda>r. rec_txn r = t) es") (auto simp: prev_of_def)

lemma prev_of_in: "prev_of t es \<noteq> kInvalidLsn \<Longrightarrow> prev_of t es \<in> rec_lsn ` set es"
proof -
  assume ne: "prev_of t es \<noteq> kInvalidLsn"
  obtain x xs where f: "filter (\<lambda>r. rec_txn r = t) es = x # xs"
    using ne by (cases "filter (\<lambda>r. rec_txn r = t) es") (auto simp: prev_of_def)
  have "last (x # xs) \<in> set (filter (\<lambda>r. rec_txn r = t) es)" by (simp only: f last_in_set list.simps(3) not_False_eq_True)
  then have "last (x # xs) \<in> set es" by simp
  then show ?thesis using f by (simp add: prev_of_def)
qed

lemma scan_ok_initial: "scan_ok initial_scan []"
  by (simp add: scan_ok_def initial_scan_def prev_of_def)

lemma check_chain_follows:
  assumes ok: "scan_ok st es" and f: "follows es r"
  obtains st' where "check_chain st r = Some st'" "scan_ok st' (es @ [r])"
proof -
  have p: "previous_lsn st < rec_lsn r"
  proof -
    have "previous_lsn st = kInvalidLsn \<or> previous_lsn st \<in> rec_lsn ` set es" using ok by (simp add: scan_ok_def)
    then show ?thesis
    proof
      assume "previous_lsn st = kInvalidLsn"
      then show ?thesis using f by (simp add: follows_def kInvalidLsn_def word_neq_0_conv)
    qed (use f in \<open>auto simp: follows_def\<close>)
  qed
  have n: "rec_lsn r \<noteq> kInvalidLsn" "rec_lsn r \<notin> set (seen_lsns st)"
    using ok f by (auto simp: scan_ok_def follows_def)
  have upd: "scan_ok st' (es @ [r])"
    if "seen_lsns st' = rec_lsn r # seen_lsns st" "previous_lsn st' = rec_lsn r"
      "\<And>t. t \<noteq> kInvalidTxnId \<Longrightarrow> last_by_txn st' t = (if t = rec_txn r then Some (rec_lsn r) else last_by_txn st t)" for st'
    using ok that by (auto simp: scan_ok_def prev_of_snoc)
  show ?thesis
  proof (cases "rec_txn r = kInvalidTxnId")
    case True
    show ?thesis
      using p n f True
      by (intro that[OF _ upd, of "\<lparr>previous_lsn = rec_lsn r, seen_lsns = rec_lsn r # seen_lsns st, last_by_txn = last_by_txn st\<rparr>"])
        (auto simp: check_chain_def follows_def)
  next
    case False
    have "(case last_by_txn st (rec_txn r) of None \<Rightarrow> kInvalidLsn | Some l \<Rightarrow> l) = prev_of (rec_txn r) es"
      using ok False by (simp add: scan_ok_def)
    moreover have "prev_of (rec_txn r) es = kInvalidLsn \<or> prev_of (rec_txn r) es \<in> set (seen_lsns st)"
      using ok prev_of_in[of "rec_txn r" es] by (auto simp: scan_ok_def)
    ultimately show ?thesis
      using p n f False
      by (intro that[OF _ upd, of "\<lparr>previous_lsn = rec_lsn r, seen_lsns = rec_lsn r # seen_lsns st,
          last_by_txn = (last_by_txn st)(rec_txn r \<mapsto> rec_lsn r)\<rparr>"])
        (auto simp: check_chain_def follows_def Let_def)
  qed
qed

lemma wire_total: "record_valid r \<Longrightarrow> unat (LoadU32 (wire r l) 8) = 48 + length (payload_of r)"
  using payload_small[of r] unfolding wire_loads by (intro unat_word_of_nat_u32) simp

lemma Load_prefix: "off + 4 \<le> k \<Longrightarrow> k \<le> length d \<Longrightarrow> LoadU32 (take k d) off = LoadU32 d off"
proof -
  assume *: "off + 4 \<le> k" "k \<le> length d"
  have "get_bytes off 4 (take k d @ drop k d) = get_bytes off 4 (take k d)"
    using * by (intro get_bytes_append_left) simp
  then show ?thesis using * by (simp add: Loads_eq)
qed

lemma Load_append: "off + 4 \<le> length d \<Longrightarrow> LoadU32 (d @ e) off = LoadU32 d off"
  using Load_prefix[of off "length d" "d @ e"] by simp

lemma scan_torn:
  assumes v: "record_valid r" and k: "k < length (wire r l)"
  shows "scan_loop (pre @ take k (wire r l)) repair (length pre) st acc =
    (if k = 0 \<or> repair then Inr (acc, length pre) else Inl IOError)"
proof -
  have "LoadU32 (take k (wire r l)) 8 = LoadU32 (wire r l) 8" if "48 \<le> k"
    using that k by (intro Load_prefix) auto
  then have "unat (LoadU32 (take k (wire r l)) 8) = length (wire r l)" if "48 \<le> k"
    using that wire_total[OF v] by simp
  then show ?thesis
    using k by (subst scan_loop.simps) (auto simp: Let_def log_offsets)
qed

text \<open>The scan passes over the good records at the front of a file, whatever follows them.\<close>

lemma scan_prefix:
  assumes "scan_ok st es" "chained_from es rs" "\<forall>r \<in> set rs. record_valid r \<and> record_canonical r"
  shows "\<exists>st'. scan_ok st' (es @ rs) \<and>
    scan_loop (pre @ log_of rs @ rest) repair (length pre) st acc =
    scan_loop (pre @ log_of rs @ rest) repair (length pre + length (log_of rs)) st' (acc @ rs)"
  using assms
proof (induction rs arbitrary: pre st es acc)
  case Nil
  then show ?case by auto
next
  case (Cons r rs)
  let ?w = "wire r (rec_lsn r)" and ?rest = "log_of rs @ rest"
  obtain st' where st': "check_chain st r = Some st'" "scan_ok st' (es @ [r])"
    using check_chain_follows[OF Cons.prems(1), of r] Cons.prems(2) by auto
  have v: "record_valid r" "normal_record r = r" using Cons.prems(3) by (auto simp: record_canonical_def)
  have tot: "unat (LoadU32 (?w @ ?rest) 8) = length ?w"
    using wire_total[OF v(1)] by (simp add: Load_append)
  have dec: "Decode ?w = Inr r" using Decode_wire[OF v(1), of "rec_lsn r"] v(2) by simp
  have step: "scan_loop (pre @ ?w @ ?rest) repair (length pre) st acc =
      scan_loop (pre @ ?w @ ?rest) repair (length pre + length ?w) st' (acc @ [r])"
    using tot dec st'(1)
    by (subst scan_loop.simps) (simp add: Let_def log_offsets get_bytes_def)
  have "chained_from (es @ [r]) rs" "\<forall>r \<in> set rs. record_valid r \<and> record_canonical r" using Cons.prems by auto
  from Cons.IH[OF st'(2) this, of "pre @ ?w" "acc @ [r]"] step show ?case by (simp add: add.assoc)
qed

lemma scan_loop_log:
  assumes "scan_ok st es" "chained_from es rs" "\<forall>r \<in> set rs. record_valid r \<and> record_canonical r"
    and "record_valid t" "k < length (wire t l)"
  shows "scan_loop (pre @ log_of rs @ take k (wire t l)) repair (length pre) st acc =
    (if k = 0 \<or> repair then Inr (acc @ rs, length pre + length (log_of rs)) else Inl IOError)"
proof -
  obtain st' where "scan_loop (pre @ log_of rs @ take k (wire t l)) repair (length pre) st acc =
    scan_loop (pre @ log_of rs @ take k (wire t l)) repair (length pre + length (log_of rs)) st' (acc @ rs)"
    using scan_prefix[OF assms(1-3)] by blast
  then show ?thesis using scan_torn[OF assms(4,5), of "pre @ log_of rs" repair st' "acc @ rs"] by simp
qed

subsection \<open>Cutting a log\<close>

text \<open>How many records of \<open>rs\<close> lie wholly within the first \<open>k\<close> bytes.\<close>

fun whole_records :: "nat \<Rightarrow> LogRecord list \<Rightarrow> nat" where
  "whole_records k [] = 0"
| "whole_records k (r # rs) =
     (if length (wire r (rec_lsn r)) \<le> k then Suc (whole_records (k - length (wire r (rec_lsn r))) rs) else 0)"

lemma whole_records_le: "whole_records k rs \<le> length rs"
  by (induction k rs rule: whole_records.induct) auto

lemma cut_log:
  assumes "k \<le> length (log_of rs)" "\<forall>r \<in> set rs. record_valid r"
  shows "\<exists>t j. take k (log_of rs) = log_of (take (whole_records k rs) rs) @ take j (wire t (rec_lsn t)) \<and>
    record_valid t \<and> j < length (wire t (rec_lsn t))"
  using assms
proof (induction rs arbitrary: k)
  case Nil
  show ?case using demo_begin_valid by (intro exI[of _ demo_begin] exI[of _ 0]) simp
next
  case (Cons r rs)
  let ?w = "wire r (rec_lsn r)"
  show ?case
  proof (cases "length ?w \<le> k")
    case True
    have "k - length ?w \<le> length (log_of rs)" "\<forall>r \<in> set rs. record_valid r" using Cons.prems True by auto
    from Cons.IH[OF this] obtain t j where t: "record_valid t" "j < length (wire t (rec_lsn t))"
      "take (k - length ?w) (log_of rs) = log_of (take (whole_records (k - length ?w) rs) rs) @ take j (wire t (rec_lsn t))"
      by blast
    have "take k (log_of (r # rs)) = ?w @ take (k - length ?w) (log_of rs)" using True by simp
    also have "\<dots> = log_of (take (whole_records k (r # rs)) (r # rs)) @ take j (wire t (rec_lsn t))"
      using True t(3) by simp
    finally show ?thesis using t by blast
  next
    case False
    then show ?thesis using Cons.prems by (intro exI[of _ r] exI[of _ k]) simp
  qed
qed

text \<open>A record whose end lies within the cut is one of the whole records.\<close>

lemma whole_records_ge: "n \<le> length rs \<Longrightarrow> length (log_of (take n rs)) \<le> k \<Longrightarrow> n \<le> whole_records k rs"
proof (induction k rs arbitrary: n rule: whole_records.induct)
  case (2 k r rs)
  then show ?case by (cases n) auto
qed simp

lemma scan_cut:
  assumes "log_ok rs" "k \<le> length (log_of rs)"
  shows "scan_loop (take k (log_of rs)) True 0 initial_scan [] =
    Inr (take (whole_records k rs) rs, length (log_of (take (whole_records k rs) rs)))"
proof -
  obtain t j where c: "take k (log_of rs) = log_of (take (whole_records k rs) rs) @ take j (wire t (rec_lsn t))"
    "record_valid t" "j < length (wire t (rec_lsn t))"
    using cut_log[OF assms(2)] assms(1) unfolding log_ok_def by blast
  have ok: "log_ok (take (whole_records k rs) rs)" using assms(1) by (rule log_ok_take)
  show ?thesis
    using scan_loop_log[OF scan_ok_initial _ _ c(2,3), of "take (whole_records k rs) rs" "[]" True "[]"] ok
    by (simp add: c(1) log_ok_def)
qed

lemma scan_whole:
  assumes "log_ok rs"
  shows "scan_loop (log_of rs) False 0 initial_scan [] = Inr (rs, length (log_of rs))"
  using scan_loop_log[OF scan_ok_initial _ _ demo_begin_valid, of rs 0 0 "[]" False "[]"] assms
  by (simp add: log_ok_def)

definition last_lsn_of :: "LogRecord list \<Rightarrow> lsn_t" where
  "last_lsn_of rs = (if rs = [] then kInvalidLsn else rec_lsn (last rs))"

lemma fold_max_last:
  assumes "sorted_wrt (<) (map rec_lsn rs)"
  shows "foldl (\<lambda>m r. max m (rec_lsn r)) kInvalidLsn rs = last_lsn_of rs"
  using assms
proof (induction rs rule: rev_induct)
  case (snoc r rs)
  have "last_lsn_of rs \<le> rec_lsn r"
    using snoc.prems last_in_set[of rs]
    by (auto simp: last_lsn_of_def kInvalidLsn_def sorted_wrt_append less_imp_le)
  then show ?case using snoc by (simp add: sorted_wrt_append last_lsn_of_def max_def split: if_splits)
qed (simp add: last_lsn_of_def)

text \<open>\<open>reopened rs lm\<close> is the log manager that has just opened a log of the records \<open>rs\<close>.\<close>

definition reopened :: "LogRecord list \<Rightarrow> LogManager \<Rightarrow> LogManager" where
  "reopened rs lm = lm\<lparr>log_bytes := log_of rs, flushed_length := length (log_of rs), log_open := True,
     append_lsn := last_lsn_of rs, durable_lsn := last_lsn_of rs, flush_target_lsn := last_lsn_of rs,
     last_flush_status := Code_Ok\<rparr>"

lemma Open_scanned:
  assumes ok: "log_ok rs" and scan: "scan_loop (log_of rs @ x) True 0 initial_scan [] = Inr (rs, length (log_of rs))"
  shows "Open (Some (log_of rs @ x)) lm = (reopened rs lm, Code_Ok)"
proof -
  have max: "foldl (\<lambda>m r. max m (rec_lsn r)) kInvalidLsn rs = last_lsn_of rs"
    using log_ok_sorted[OF ok] by (rule fold_max_last)
  define bytes where "bytes = log_of rs @ x"
  define lm0 where "lm0 = lm\<lparr>log_bytes := bytes, flushed_length := length bytes, log_open := True\<rparr>"
  have whole: "length bytes \<le> length (log_of rs) \<Longrightarrow> bytes = log_of rs"
    and trim: "take (length (log_of rs)) bytes = log_of rs" by (simp_all add: bytes_def)
  note scan' = scan[folded bytes_def]
  have "ScanUnlocked True lm0 = (lm0\<lparr>log_bytes := log_of rs, flushed_length := length (log_of rs)\<rparr>, Inr rs)"
  proof (cases "length (log_of rs) < length bytes")
    case True
    then show ?thesis
      using scan' trim unfolding ScanUnlocked_def EnsureOpenUnlocked_def lm0_def by simp
  next
    case False
    then show ?thesis
      using scan' whole unfolding ScanUnlocked_def EnsureOpenUnlocked_def lm0_def by simp
  qed
  then show ?thesis
    unfolding Open_def Let_def bytes_def[symmetric] option.case lm0_def[symmetric]
    by (simp add: max) (simp add: lm0_def reopened_def)
qed

text \<open>Opening a log that was cut anywhere: its whole records survive, the torn one is trimmed.\<close>

lemma Open_cut:
  assumes ok: "log_ok rs" and k: "k \<le> length (log_of rs)"
  shows "Open (Some (take k (log_of rs))) lm = (reopened (take (whole_records k rs) rs) lm, Code_Ok)"
proof -
  obtain t j where c: "take k (log_of rs) = log_of (take (whole_records k rs) rs) @ take j (wire t (rec_lsn t))"
    using cut_log[OF k] ok unfolding log_ok_def by blast
  show ?thesis
    using scan_cut[OF ok k] unfolding c by (intro Open_scanned log_ok_take ok)
qed

lemma whole_records_all: "whole_records (length (log_of rs)) rs = length rs"
  using whole_records_ge[of "length rs" rs "length (log_of rs)"] whole_records_le[of "length (log_of rs)" rs] by simp

lemma Open_log: "log_ok rs \<Longrightarrow> Open (Some (log_of rs)) lm = (reopened rs lm, Code_Ok)"
  using Open_cut[of rs "length (log_of rs)" lm] by (simp add: whole_records_all)

lemma Scan_log: "log_ok rs \<Longrightarrow> log_open lm \<Longrightarrow> log_bytes lm = log_of rs \<Longrightarrow> Scan lm = Inr rs"
  by (simp add: Scan_def ScanUnlocked_def EnsureOpenUnlocked_def scan_whole)

text \<open>A record whose length field was damaged looks like a torn tail, wherever it lies in the file.\<close>

lemma scan_bad_length:
  assumes "log_ok as" and v: "v < 48 \<or> unat v > 48 + length (payload_of r) + length rest"
  shows "scan_loop (log_of as @ StoreU32 (wire r l) 8 v @ rest) True 0 initial_scan [] = Inr (as, length (log_of as))"
proof -
  let ?x = "StoreU32 (wire r l) 8 v"
  obtain st' where s: "scan_loop (log_of as @ ?x @ rest) True 0 initial_scan [] =
      scan_loop (log_of as @ ?x @ rest) True (length (log_of as)) st' as"
    using scan_prefix[OF scan_ok_initial, of as "[]" "?x @ rest" True "[]"] assms(1) by (auto simp: log_ok_def)
  have "LoadU32 (?x @ rest) 8 = v" by (simp add: Load_append) (simp add: Loads_eq get_Stores_same)
  then show ?thesis
    unfolding s using v by (subst scan_loop.simps) (auto simp: Let_def log_offsets word_less_nat_alt)
qed

lemma Scan_reopened: "log_ok rs \<Longrightarrow> Scan (reopened rs lm) = Inr rs"
  by (rule Scan_log) (simp_all add: reopened_def)

lemma Open_bad_length:
  assumes "log_ok as" "v < 48 \<or> unat v > 48 + length (payload_of r) + length rest"
  shows "Open (Some (log_of as @ StoreU32 (wire r l) 8 v @ rest)) lm = (reopened as lm, Code_Ok)"
  using scan_bad_length[OF assms] by (intro Open_scanned assms)

subsection \<open>Appending to a well-formed log\<close>

text \<open>The log manager holds the records \<open>rs\<close>, and no flush is under way.\<close>

definition log_at :: "LogRecord list \<Rightarrow> LogManager \<Rightarrow> bool" where
  "log_at rs lm \<longleftrightarrow>
     log_ok rs \<and> log_open lm \<and> log_bytes lm = log_of rs \<and> append_lsn lm = last_lsn_of rs \<and> \<not> flush_in_progress lm"

lemma log_at_Scan: "log_at rs lm \<Longrightarrow> Scan lm = Inr rs"
  by (simp add: log_at_def Scan_log)

lemma le_last_lsn: "log_ok rs \<Longrightarrow> r \<in> set rs \<Longrightarrow> rec_lsn r \<le> last_lsn_of rs"
proof -
  assume ok: "log_ok rs" and r: "r \<in> set rs"
  obtain xs x where x: "rs = xs @ [x]" using r by (metis append_butlast_last_id empty_iff list.set(1))
  then show ?thesis using log_ok_sorted[OF ok] r by (auto simp: last_lsn_of_def sorted_wrt_append less_imp_le)
qed

lemma record_valid_lsn: "record_valid (r\<lparr>rec_lsn := l\<rparr>) = record_valid r"
proof -
  have "encode_checks (r\<lparr>rec_lsn := l\<rparr>) = encode_checks r" 
    by (cases r) (simp only: encode_checks_def LogRecord.update_convs LogRecord.select_convs)
  then show ?thesis by (simp add: record_valid_def)
qed

lemma Append_log:
  assumes at: "log_at rs lm" and valid: "record_valid r" "normal_record r = r"
    and room: "last_lsn_of rs \<noteq> -1"
    and prev: "rec_txn r \<noteq> kInvalidTxnId" "rec_prev r = prev_of (rec_txn r) rs"
  defines "lsn \<equiv> last_lsn_of rs + 1"
  shows "\<exists>lm'. Append r lm = (lm', Inr lsn) \<and> log_at (rs @ [r\<lparr>rec_lsn := lsn\<rparr>]) lm' \<and>
    fail_next_flush lm' = fail_next_flush lm \<and> durable_lsn lm' = durable_lsn lm"
proof -
  let ?r = "r\<lparr>rec_lsn := lsn\<rparr>"
  define lm' where "lm' = lm\<lparr>log_bytes := log_bytes lm @ wire r lsn, append_lsn := lsn\<rparr>"
  have ok: "log_ok rs" using at by (simp add: log_at_def)
  have app: "Append r lm = (lm', Inr lsn)"
    using at valid(1) by (simp add: Append_def EnsureOpenUnlocked_def log_at_def Let_def Encode_eq lm'_def lsn_def)
  have gt: "last_lsn_of rs < lsn" using room by (simp add: lsn_def word_less_succ)
  have "normal_record r = normal_record ?r\<lparr>rec_lsn := rec_lsn r\<rparr>" by (simp add: normal_record_def)
  then have n: "normal_record ?r = ?r" using valid(2) by (cases r) (auto simp: normal_record_def split: if_splits)
  have v: "record_valid ?r" using valid(1) by (simp add: record_valid_lsn)
  have w: "wire ?r lsn = wire r lsn" by (simp add: wire_def header_of_def payload_of_def)
  have "follows rs ?r"
    using gt le_less_trans[OF le_last_lsn[OF ok] gt] prev by (auto simp: follows_def kInvalidLsn_def)
  then have "log_ok (rs @ [?r])" using ok v n by (simp add: log_ok_snoc record_canonical_def)
  then have "log_at (rs @ [?r]) lm'"
    using at by (simp add: log_at_def lm'_def w) (simp add: last_lsn_of_def)
  then show ?thesis using app by (simp add: lm'_def)
qed

lemma Flush_log:
  assumes "log_at rs lm" "\<not> fail_next_flush lm" "target \<le> last_lsn_of rs"
  shows "\<exists>lm'. Flush target True lm = Some (lm', Code_Ok) \<and> log_at rs lm' \<and> target \<le> durable_lsn lm'"
  using assms
  by (auto simp: Flush_def flush_enter_def EnsureOpenUnlocked_def Let_def flush_take_def flush_io_def flush_publish_def
      le_max_iff_disj log_at_def split: if_splits)

end
