(* ===== verification/LogProtocol.thy ===== *)
theory LogProtocol
  imports LogFile
begin

text \<open>
  Threads appending to and flushing the log of \<open>LogFile\<close> between two lifecycle calls: each critical
  section of \<^verbatim>\<open>Append\<close> and \<^verbatim>\<open>Flush\<close> is one step, and the steps of different threads interleave
  freely. \<open>ws_records\<close> remembers, for the statements only, the records that were appended.
\<close>

datatype FlushThread =
    T_Idle
  | T_Waiting lsn_t u64
  | T_Leading lsn_t
  | T_Taken lsn_t lsn_t bool
  | T_Wrote lsn_t lsn_t ErrorCode
  | T_Returned lsn_t ErrorCode

record WalState =
  ws_log :: LogManager
  ws_thread :: "nat \<Rightarrow> FlushThread"
  ws_records :: "LogRecord list"

text \<open>The record a caller appends points to the last record of its transaction, and the 64-bit numbers
  are not exhausted: what the callers of \<^verbatim>\<open>Append\<close> owe it.\<close>

definition append_allowed :: "WalState \<Rightarrow> LogRecord \<Rightarrow> bool" where
  "append_allowed s r \<longleftrightarrow>
     append_lsn (ws_log s) \<noteq> -1 \<and>
     rec_prev r = (if rec_txn r = kInvalidTxnId then kInvalidLsn else prev_of (rec_txn r) (ws_records s))"

definition entered :: "lsn_t \<Rightarrow> FlushEntry \<Rightarrow> FlushThread" where
  "entered target e =
     (case e of F_Return c \<Rightarrow> T_Returned target c | F_Wait g \<Rightarrow> T_Waiting target g | F_Lead \<Rightarrow> T_Leading target)"

inductive wal_step :: "WalState \<Rightarrow> WalState \<Rightarrow> bool" where
  w_append: "append_allowed s r \<Longrightarrow> Append r (ws_log s) = (lm, Inr lsn) \<Longrightarrow>
    wal_step s (s\<lparr>ws_log := lm, ws_records := ws_records s @ [normal_record r\<lparr>rec_lsn := lsn\<rparr>]\<rparr>)"
| w_append_fail: "Append r (ws_log s) = (lm, Inl err) \<Longrightarrow> wal_step s (s\<lparr>ws_log := lm\<rparr>)"
| w_fail_next: "wal_step s (s\<lparr>ws_log := FailNextFlushForTesting (ws_log s)\<rparr>)"
| w_enter: "ws_thread s t \<in> {T_Idle} \<union> {T_Returned l c | l c. True} \<Longrightarrow> flush_enter target (ws_log s) = (lm, e) \<Longrightarrow>
    wal_step s (s\<lparr>ws_log := lm, ws_thread := (ws_thread s)(t := entered target e)\<rparr>)"
| w_wake: "ws_thread s t = T_Waiting target g \<Longrightarrow> flush_wake target g (ws_log s) = Some c \<Longrightarrow>
    wal_step s (s\<lparr>ws_thread := (ws_thread s)(t := T_Returned target c)\<rparr>)"
| w_take: "ws_thread s t = T_Leading target \<Longrightarrow> flush_take (ws_log s) = (lm, batch, inject) \<Longrightarrow>
    wal_step s (s\<lparr>ws_log := lm, ws_thread := (ws_thread s)(t := T_Taken target batch inject)\<rparr>)"
| w_io: "ws_thread s t = T_Taken target batch inject \<Longrightarrow> flush_io inject host_ok (ws_log s) = (lm, c) \<Longrightarrow>
    wal_step s (s\<lparr>ws_log := lm, ws_thread := (ws_thread s)(t := T_Wrote target batch c)\<rparr>)"
| w_publish: "ws_thread s t = T_Wrote target batch c \<Longrightarrow> flush_publish batch c (ws_log s) = (lm, Some res) \<Longrightarrow>
    wal_step s (s\<lparr>ws_log := lm, ws_thread := (ws_thread s)(t := T_Returned target res)\<rparr>)"
| w_again: "ws_thread s t = T_Wrote target batch c \<Longrightarrow> flush_publish batch c (ws_log s) = (lm, None) \<Longrightarrow>
    wal_step s (s\<lparr>ws_log := lm, ws_thread := (ws_thread s)(t := T_Leading target)\<rparr>)"

inductive wal_reachable :: "WalState \<Rightarrow> bool" where
  wr_open: "log_ok rs \<Longrightarrow> fst (Open (Some (log_of rs)) initial_log_manager) = lm \<Longrightarrow>
    wal_reachable \<lparr>ws_log = lm, ws_thread = (\<lambda>t. T_Idle), ws_records = rs\<rparr>"
| wr_step: "wal_reachable s \<Longrightarrow> wal_step s s' \<Longrightarrow> wal_reachable s'"

subsection \<open>The records up to a number\<close>

definition upto_lsn :: "lsn_t \<Rightarrow> LogRecord list \<Rightarrow> LogRecord list" where
  "upto_lsn l rs = filter (\<lambda>r. rec_lsn r \<le> l) rs"

lemma length_log_upto: "length (log_of (upto_lsn l rs)) \<le> length (log_of rs)"
  by (induction rs) (auto simp: upto_lsn_def)

lemma upto_take:
  assumes "sorted_wrt (<) (map rec_lsn rs)"
  shows "upto_lsn l rs = take (length (upto_lsn l rs)) rs"
  using assms
proof (induction rs)
  case (Cons r rs)
  show ?case
  proof (cases "rec_lsn r \<le> l")
    case False
    then have "upto_lsn l (r # rs) = []"
      using Cons.prems by (force simp: upto_lsn_def filter_empty_conv)
    then show ?thesis by simp
  qed (use Cons in \<open>simp add: upto_lsn_def\<close>)
qed (simp add: upto_lsn_def)

lemma upto_drop:
  assumes "sorted_wrt (<) (map rec_lsn rs)" "length (upto_lsn l rs) \<le> m"
  shows "upto_lsn l (drop m rs) = []"
  using assms
proof (induction rs arbitrary: m)
  case (Cons r rs)
  show ?case
  proof (cases "rec_lsn r \<le> l")
    case True
    then show ?thesis using Cons by (cases m) (auto simp: upto_lsn_def)
  next
    case False
    then have "\<forall>x \<in> set (r # rs). \<not> rec_lsn x \<le> l" using Cons.prems(1) by force
    then show ?thesis using in_set_dropD[of _ m "r # rs"] by (auto simp: upto_lsn_def filter_empty_conv)
  qed
qed (simp add: upto_lsn_def)

lemma upto_append: "rec_lsn r > l \<Longrightarrow> upto_lsn l (rs @ [r]) = upto_lsn l rs"
  by (simp add: upto_lsn_def)

lemma upto_max: "upto_lsn (max a b) rs = upto_lsn a rs \<or> upto_lsn (max a b) rs = upto_lsn b rs"
  by (simp add: max_def)

subsection \<open>The invariant\<close>

definition on_disk :: "WalState \<Rightarrow> lsn_t \<Rightarrow> bool" where
  "on_disk s l \<longleftrightarrow> length (log_of (upto_lsn l (ws_records s))) \<le> flushed_length (ws_log s)"

fun thread_inv :: "WalState \<Rightarrow> FlushThread \<Rightarrow> bool" where
  "thread_inv s T_Idle \<longleftrightarrow> True"
| "thread_inv s (T_Waiting target g) \<longleftrightarrow> target \<le> flush_target_lsn (ws_log s)"
| "thread_inv s (T_Leading target) \<longleftrightarrow> flush_in_progress (ws_log s) \<and> target \<le> flush_target_lsn (ws_log s)"
| "thread_inv s (T_Taken target batch inject) \<longleftrightarrow> flush_in_progress (ws_log s) \<and>
     target \<le> flush_target_lsn (ws_log s) \<and> batch \<le> flush_target_lsn (ws_log s)"
| "thread_inv s (T_Wrote target batch c) \<longleftrightarrow> flush_in_progress (ws_log s) \<and>
     target \<le> flush_target_lsn (ws_log s) \<and> batch \<le> flush_target_lsn (ws_log s) \<and> (c = Code_Ok \<longrightarrow> on_disk s batch)"
| "thread_inv s (T_Returned target c) \<longleftrightarrow> (c = Code_Ok \<longrightarrow> target \<le> durable_lsn (ws_log s))"

definition flushing :: "FlushThread \<Rightarrow> bool" where
  "flushing th \<longleftrightarrow> (case th of T_Leading _ \<Rightarrow> True | T_Taken _ _ _ \<Rightarrow> True | T_Wrote _ _ _ \<Rightarrow> True | _ \<Rightarrow> False)"

definition wal_inv :: "WalState \<Rightarrow> bool" where
  "wal_inv s \<longleftrightarrow>
     log_open (ws_log s) \<and> log_ok (ws_records s) \<and> log_bytes (ws_log s) = log_of (ws_records s) \<and>
     append_lsn (ws_log s) = last_lsn_of (ws_records s) \<and>
     flushed_length (ws_log s) \<le> length (log_bytes (ws_log s)) \<and>
     durable_lsn (ws_log s) \<le> flush_target_lsn (ws_log s) \<and>
     flush_target_lsn (ws_log s) \<le> append_lsn (ws_log s) \<and>
     on_disk s (durable_lsn (ws_log s)) \<and>
     (\<not> flush_in_progress (ws_log s) \<and> last_flush_status (ws_log s) = Code_Ok \<longrightarrow>
        flush_target_lsn (ws_log s) \<le> durable_lsn (ws_log s)) \<and>
     (\<forall>t. thread_inv s (ws_thread s t)) \<and>
     (\<forall>t u. flushing (ws_thread s t) \<longrightarrow> flushing (ws_thread s u) \<longrightarrow> t = u)"

lemma follows_append:
  assumes "wal_inv s" "append_allowed s r"
  shows "follows (ws_records s) (normal_record r\<lparr>rec_lsn := append_lsn (ws_log s) + 1\<rparr>)"
proof -
  let ?a = "append_lsn (ws_log s)"
  have a: "?a < ?a + 1" using assms(2)
    by (simp add: append_allowed_def word_less_succ)
  have "rec_lsn e \<le> ?a" if e: "e \<in> set (ws_records s)" for e
  proof -
    have srt: "sorted_wrt (<) (map rec_lsn (ws_records s))" "?a = last_lsn_of (ws_records s)"
      using assms(1) log_ok_sorted by (auto simp: wal_inv_def)
    obtain xs x where x: "ws_records s = xs @ [x]" using e by (metis append_butlast_last_id empty_iff list.set(1))
    then show ?thesis using srt e by (auto simp: last_lsn_of_def sorted_wrt_append less_imp_le)
  qed
  then show ?thesis
    using a assms(2) by (auto simp: follows_def append_allowed_def normal_record_def kInvalidLsn_def intro: le_less_trans[OF _ a])
qed

lemma thread_inv_mono:
  assumes "thread_inv s th" "flush_target_lsn (ws_log s) \<le> flush_target_lsn (ws_log s')"
    "durable_lsn (ws_log s) \<le> durable_lsn (ws_log s')"
    "flushing th \<Longrightarrow> flush_in_progress (ws_log s')"
    "\<And>l. l \<le> flush_target_lsn (ws_log s) \<Longrightarrow> on_disk s l \<Longrightarrow> on_disk s' l"
  shows "thread_inv s' th"
  using assms by (cases th) (auto simp: flushing_def)

lemma flushing_in_progress: "wal_inv s \<Longrightarrow> flushing (ws_thread s t) \<Longrightarrow> flush_in_progress (ws_log s)"
proof -
  assume "wal_inv s" and f: "flushing (ws_thread s t)"
  then have "thread_inv s (ws_thread s t)" by (simp add: wal_inv_def)
  then show ?thesis using f by (cases "ws_thread s t") (auto simp: flushing_def)
qed

lemma wal_inv_change:
  fixes s :: WalState and lm :: LogManager and th :: FlushThread and t :: nat
  defines "s' \<equiv> s\<lparr>ws_log := lm, ws_thread := (ws_thread s)(t := th)\<rparr>"
  assumes inv: "wal_inv s"
    and same: "log_open lm" "log_bytes lm = log_bytes (ws_log s)" "append_lsn lm = append_lsn (ws_log s)"
    and target: "flush_target_lsn (ws_log s) \<le> flush_target_lsn lm" "flush_target_lsn lm \<le> append_lsn lm"
    and durable: "durable_lsn (ws_log s) \<le> durable_lsn lm" "durable_lsn lm \<le> flush_target_lsn lm" "on_disk s' (durable_lsn lm)"
    and flushed: "flushed_length (ws_log s) \<le> flushed_length lm" "flushed_length lm \<le> length (log_bytes lm)"
    and idle: "\<not> flush_in_progress lm \<Longrightarrow> last_flush_status lm = Code_Ok \<Longrightarrow> flush_target_lsn lm \<le> durable_lsn lm"
    and progress: "flush_in_progress (ws_log s) \<Longrightarrow> flush_in_progress lm \<or> flushing (ws_thread s t)"
    and th: "thread_inv s' th" "flushing th \<Longrightarrow> flushing (ws_thread s t) \<or> \<not> flush_in_progress (ws_log s)"
  shows "wal_inv s'"
proof -
  have uniq: "flushing (ws_thread s u) \<Longrightarrow> flushing (ws_thread s v) \<Longrightarrow> u = v" for u v
    using inv by (simp add: wal_inv_def)
  have od: "on_disk s l \<Longrightarrow> on_disk s' l" for l
    using flushed by (simp add: on_disk_def s'_def)
  have threads: "thread_inv s' (ws_thread s' u)" for u
  proof (cases "u = t")
    case False
    have fp: "flush_in_progress lm" if "flushing (ws_thread s u)"
    proof -
      have "\<not> flushing (ws_thread s t)" using uniq[OF that, of t] False by blast
      then show ?thesis using progress flushing_in_progress[OF inv that] by blast
    qed
    have "thread_inv s (ws_thread s u)" using inv by (simp add: wal_inv_def)
    then have "thread_inv s' (ws_thread s u)"
    proof (rule thread_inv_mono)
      show "flushing (ws_thread s u) \<Longrightarrow> flush_in_progress (ws_log s')" using fp by (simp add: s'_def)
    qed (use target durable od in \<open>simp_all add: s'_def\<close>)
    then show ?thesis using False by (simp add: s'_def)
  qed (use th in \<open>simp add: s'_def\<close>)
  have one: "u = v" if "flushing (ws_thread s' u)" "flushing (ws_thread s' v)" for u v
  proof -
    have t: "flushing (ws_thread s t) \<or> (\<forall>w. \<not> flushing (ws_thread s w))" if "flushing th"
      using th(2)[OF that] flushing_in_progress[OF inv] by blast
    show ?thesis
      using that t uniq[of u v] uniq[of u t] uniq[of v t] by (cases "u = t"; cases "v = t") (auto simp: s'_def)
  qed
  have recs: "ws_records s' = ws_records s" "ws_log s' = lm" by (simp_all add: s'_def)
  show ?thesis
    unfolding wal_inv_def recs
  proof (intro conjI allI impI)
    show "log_ok (ws_records s)" "log_bytes lm = log_of (ws_records s)" "append_lsn lm = last_lsn_of (ws_records s)"
      using inv same by (simp_all add: wal_inv_def)
  qed (use same target durable flushed idle threads one in auto)
qed

lemma normal_valid: "record_valid (normal_record r\<lparr>rec_lsn := l\<rparr>) = record_valid r"
  unfolding record_valid_def encode_checks_def normal_record_def by (cases "rec_type r = L_Compensation") simp_all

lemma wal_inv_append:
  assumes inv: "wal_inv s" and allowed: "append_allowed s r" and app: "Append r (ws_log s) = (lm, Inr lsn)"
  shows "wal_inv (s\<lparr>ws_log := lm, ws_records := ws_records s @ [normal_record r\<lparr>rec_lsn := lsn\<rparr>]\<rparr>)"
proof -
  let ?r = "normal_record r\<lparr>rec_lsn := lsn\<rparr>"
  let ?s = "s\<lparr>ws_log := lm, ws_records := ws_records s @ [?r]\<rparr>"
  have a: "record_valid r" "lsn = append_lsn (ws_log s) + 1"
    "lm = ws_log s\<lparr>log_bytes := log_bytes (ws_log s) @ wire r lsn, append_lsn := lsn\<rparr>"
    using app by (auto simp: Append_def Let_def Encode_eq split: if_splits)
  have v: "record_valid ?r" using a(1) by (simp add: normal_valid)
  have w: "wire ?r lsn = wire r lsn"
    by (simp add: wire_def header_of_def payload_of_def normal_record_def)
  have c: "record_canonical ?r" by (simp add: record_canonical_def normal_record_def)
  have f: "follows (ws_records s) ?r" using follows_append[OF inv allowed] a(2) by simp
  have gt: "append_lsn (ws_log s) < lsn" using a(2) allowed by (simp add: append_allowed_def word_less_succ)
  then have le: "rec_lsn ?r > l" if "l \<le> append_lsn (ws_log s)" for l using that by simp
  have od: "on_disk s l \<Longrightarrow> on_disk ?s l" if "l \<le> append_lsn (ws_log s)" for l
    using le[OF that] a(3) by (simp add: on_disk_def upto_append)
  have "thread_inv s (ws_thread s t)" for t using inv by (simp add: wal_inv_def)
  then have "thread_inv ?s (ws_thread s t)" for t
  proof (rule thread_inv_mono)
    show "on_disk s l \<Longrightarrow> on_disk ?s l" if "l \<le> flush_target_lsn (ws_log s)" for l
      using od that inv order_trans unfolding wal_inv_def by blast
  qed (use a(3) flushing_in_progress[OF inv, of t] in simp_all)
  note thr = this
  have d: "on_disk ?s (durable_lsn (ws_log s))"
    using od inv by (auto simp: wal_inv_def)
  show ?thesis
    unfolding wal_inv_def
  proof (intro conjI allI impI)
    show "log_ok (ws_records ?s)" using inv v c f by (simp add: wal_inv_def log_ok_snoc)
    show "log_bytes (ws_log ?s) = log_of (ws_records ?s)" using inv a(3) w by (simp add: wal_inv_def)
    show "append_lsn (ws_log ?s) = last_lsn_of (ws_records ?s)" using a(3) by (simp add: last_lsn_of_def)
    show "t = u" if "flushing (ws_thread ?s t)" "flushing (ws_thread ?s u)" for t u
      using that inv by (simp add: wal_inv_def)
    show "flush_target_lsn (ws_log ?s) \<le> append_lsn (ws_log ?s)"
      using inv a(3) gt by (auto simp: wal_inv_def)
    have "flushed_length (ws_log s) \<le> length (log_bytes (ws_log s))" using inv unfolding wal_inv_def by blast
    then show "flushed_length (ws_log ?s) \<le> length (log_bytes (ws_log ?s))" by (subst a(3))+ simp
  qed (use inv a(3) d thr in \<open>simp_all add: wal_inv_def\<close>)
qed

lemma wal_inv_wake:
  assumes inv: "wal_inv s" and t: "ws_thread s t = T_Waiting target g" and w: "flush_wake target g (ws_log s) = Some c"
  shows "wal_inv (s\<lparr>ws_thread := (ws_thread s)(t := T_Returned target c)\<rparr>)"
proof -
  have "target \<le> flush_target_lsn (ws_log s)" using inv t unfolding wal_inv_def by (metis thread_inv.simps(2))
  then have "c = Code_Ok \<Longrightarrow> target \<le> durable_lsn (ws_log s)"
    using w inv by (auto simp: flush_wake_def wal_inv_def split: if_splits)
  then have "wal_inv (s\<lparr>ws_log := ws_log s, ws_thread := (ws_thread s)(t := T_Returned target c)\<rparr>)"
    using inv by (intro wal_inv_change) (auto simp: wal_inv_def on_disk_def flushing_def)
  then show ?thesis by simp
qed

lemma wal_inv_enter:
  assumes inv: "wal_inv s" and t: "ws_thread s t \<in> {T_Idle} \<union> {T_Returned l c | l c. True}"
    and e: "flush_enter target (ws_log s) = (lm, e)"
  shows "wal_inv (s\<lparr>ws_log := lm, ws_thread := (ws_thread s)(t := entered target e)\<rparr>)"
  using inv t e
  by (intro wal_inv_change)
    (auto simp: flush_enter_def Let_def EnsureOpenUnlocked_def entered_def wal_inv_def on_disk_def flushing_def max_def
      split: if_splits)

lemma wal_inv_take:
  assumes inv: "wal_inv s" and t: "ws_thread s t = T_Leading target" and e: "flush_take (ws_log s) = (lm, batch, inject)"
  shows "wal_inv (s\<lparr>ws_log := lm, ws_thread := (ws_thread s)(t := T_Taken target batch inject)\<rparr>)"
proof -
  have "thread_inv s (T_Leading target)" using inv t unfolding wal_inv_def by metis
  then show ?thesis
    using inv t e by (intro wal_inv_change) (auto simp: flush_take_def wal_inv_def on_disk_def flushing_def)
qed

lemma wal_inv_io:
  assumes inv: "wal_inv s" and t: "ws_thread s t = T_Taken target batch inject"
    and e: "flush_io inject host_ok (ws_log s) = (lm, c)"
  shows "wal_inv (s\<lparr>ws_log := lm, ws_thread := (ws_thread s)(t := T_Wrote target batch c)\<rparr>)"
proof -
  have "thread_inv s (T_Taken target batch inject)" using inv t unfolding wal_inv_def by metis
  then show ?thesis
    using inv t e length_log_upto[of _ "ws_records s"]
    by (intro wal_inv_change) (auto simp: flush_io_def wal_inv_def on_disk_def flushing_def split: if_splits)
qed

lemma wal_inv_publish:
  assumes inv: "wal_inv s" and t: "ws_thread s t = T_Wrote target batch c" and e: "flush_publish batch c (ws_log s) = (lm, res)"
  shows "wal_inv (s\<lparr>ws_log := lm, ws_thread := (ws_thread s)
    (t := case res of None \<Rightarrow> T_Leading target | Some c' \<Rightarrow> T_Returned target c')\<rparr>)"
proof -
  have th: "thread_inv s (T_Wrote target batch c)" using inv t unfolding wal_inv_def by metis
  have od: "c = Code_Ok \<Longrightarrow> on_disk s (max (durable_lsn (ws_log s)) batch)"
    using th inv upto_max[of "durable_lsn (ws_log s)" batch "ws_records s"] by (auto simp: on_disk_def wal_inv_def)
  show ?thesis
    using inv t e th od
    by (intro wal_inv_change) (auto simp: flush_publish_def Let_def wal_inv_def on_disk_def flushing_def split: if_splits)
qed

lemma wal_inv_reachable: "wal_reachable s \<Longrightarrow> wal_inv s"
proof (induction rule: wal_reachable.induct)
  case (wr_open rs lm)
  then have "lm = reopened rs initial_log_manager" by (simp add: Open_log)
  then show ?case
    using wr_open(1) length_log_upto
    by (simp add: wal_inv_def reopened_def on_disk_def flushing_def)
next
  case (wr_step s s')
  from wr_step(2,3) show ?case
  proof (cases rule: wal_step.cases)
    case (w_append_fail r lm err)
    then have "lm = ws_log s" by (auto simp: Append_def Let_def split: if_splits sum.splits)
    then show ?thesis using w_append_fail wr_step.IH by simp
  next
    case w_fail_next
    have "wal_inv (s\<lparr>ws_log := FailNextFlushForTesting (ws_log s), ws_thread := (ws_thread s)(0 := ws_thread s 0)\<rparr>)"
    proof (rule wal_inv_change)
      have "thread_inv s (ws_thread s 0)" using wr_step.IH by (simp add: wal_inv_def)
      then show "thread_inv (s\<lparr>ws_log := FailNextFlushForTesting (ws_log s), ws_thread := (ws_thread s)(0 := ws_thread s 0)\<rparr>) (ws_thread s 0)"
        using flushing_in_progress[OF wr_step.IH, of 0]
        by (rule_tac thread_inv_mono) (auto simp: FailNextFlushForTesting_def on_disk_def)
    qed (use wr_step.IH in \<open>auto simp: FailNextFlushForTesting_def wal_inv_def on_disk_def\<close>)
    then show ?thesis using w_fail_next by simp
  next
    case (w_publish t target batch c lm res)
    then show ?thesis using wal_inv_publish[OF wr_step.IH, of t target batch c lm "Some res"] by simp
  next
    case (w_again t target batch c lm)
    then show ?thesis using wal_inv_publish[OF wr_step.IH, of t target batch c lm None] by simp
  next
    case (w_take t target lm batch inject)
    then show ?thesis using wal_inv_take[OF wr_step.IH] by simp
  next
    case (w_io t target batch inject host_ok lm c)
    then show ?thesis using wal_inv_io[OF wr_step.IH w_io(2,3)] by simp
  qed (use wr_step.IH wal_inv_append wal_inv_enter wal_inv_wake in blast)+
qed

subsection \<open>Properties\<close>

definition demo_commit :: LogRecord where
  "demo_commit = LogRecord_default\<lparr>rec_type := L_Commit, rec_lsn := 2, rec_txn := 7, rec_prev := 1\<rparr>"

definition demo_log :: "LogRecord list" where
  "demo_log = [demo_begin\<lparr>rec_lsn := 1\<rparr>, demo_commit]"

lemma demo_log_ok: "log_ok demo_log"
  by (simp add: log_ok_def demo_log_def follows_def demo_begin_def demo_commit_def LogRecord_default_def record_valid_def
      encode_checks_def record_canonical_def normal_record_def prev_of_def kInvalidLsn_def kInvalidTxnId_def
      del: type_code.simps)

definition demo_state :: WalState where
  "demo_state = \<lparr>ws_log = reopened demo_log initial_log_manager, ws_thread = (\<lambda>t. T_Idle)(0 := T_Returned 2 Code_Ok),
     ws_records = demo_log\<rparr>"

lemma demo_state_reachable: "wal_reachable demo_state"
proof -
  let ?lm = "reopened demo_log initial_log_manager"
  have r: "wal_reachable \<lparr>ws_log = ?lm, ws_thread = (\<lambda>t. T_Idle), ws_records = demo_log\<rparr>" (is "wal_reachable ?s")
    using demo_log_ok by (intro wr_open) (simp_all add: Open_log)
  have e: "flush_enter 2 (ws_log ?s) = (?lm, F_Return Code_Ok)"
    by (simp add: flush_enter_def EnsureOpenUnlocked_def reopened_def last_lsn_of_def demo_log_def demo_commit_def)
  show ?thesis
    using wr_step[OF r w_enter[of ?s 0 2 ?lm, OF _ e]] by (simp add: demo_state_def entered_def)
qed

text \<open>C2: A flush that returns success makes its records survive a crash: in every interleaving of threads
  appending, flushing in shared batches, waiting for another thread's flush and suffering failed flushes,
  once a flush up to some log sequence number has returned Ok, cutting the log file at any byte at or after
  the part handed to the host leaves a file that opens without error, whose scan returns a prefix of the
  appended records, and this prefix contains every record up to that number.\<close>

theorem flushed_records_survive_crash:
  assumes "wal_reachable s" "ws_thread s t = T_Returned target Code_Ok"
    and "flushed_length (ws_log s) \<le> k" "k \<le> length (log_bytes (ws_log s))"
  shows "\<exists>lm m. Open (Some (take k (log_bytes (ws_log s)))) initial_log_manager = (lm, Code_Ok) \<and>
    Scan lm = Inr (take m (ws_records s)) \<and>
    upto_lsn target (ws_records s) = upto_lsn target (take m (ws_records s))"
proof -
  let ?rs = "ws_records s" and ?lm = "ws_log s"
  have inv: "wal_inv s" using assms(1) by (rule wal_inv_reachable)
  then have rs: "log_ok ?rs" "log_bytes ?lm = log_of ?rs" by (simp_all add: wal_inv_def)
  have "thread_inv s (ws_thread s t)" using inv by (simp add: wal_inv_def)
  then have d: "target \<le> durable_lsn ?lm" using assms(2) by simp
  let ?n = "length (upto_lsn (durable_lsn ?lm) ?rs)" and ?m = "whole_records k ?rs"
  have pre: "upto_lsn (durable_lsn ?lm) ?rs = take ?n ?rs" using log_ok_sorted[OF rs(1)] by (rule upto_take)
  have "length (log_of (take ?n ?rs)) \<le> k"
    using inv assms(3) pre by (simp add: wal_inv_def on_disk_def)
  then have nm: "?n \<le> ?m" by (intro whole_records_ge) (simp_all add: upto_lsn_def)
  have "upto_lsn (durable_lsn ?lm) (drop ?m ?rs) = []"
    using log_ok_sorted[OF rs(1)] nm by (rule upto_drop)
  then have "upto_lsn target (drop ?m ?rs) = []" using d by (auto simp: upto_lsn_def filter_empty_conv)
  moreover have "upto_lsn target ?rs = upto_lsn target (take ?m ?rs) @ upto_lsn target (drop ?m ?rs)"
    by (simp add: upto_lsn_def flip: filter_append)
  ultimately show ?thesis
    using Open_cut[OF rs(1), of k initial_log_manager] assms(4) rs(2) Scan_reopened[OF log_ok_take[OF rs(1)]]
    by (intro exI[of _ "reopened (take ?m ?rs) initial_log_manager"] exI[of _ ?m]) simp
qed

lemma flushed_records_survive_crash_witness:
  "\<exists>lm m. Open (Some (take (length (log_of demo_log)) (log_of demo_log))) initial_log_manager = (lm, Code_Ok) \<and>
    Scan lm = Inr (take m demo_log) \<and> upto_lsn 2 demo_log = upto_lsn 2 (take m demo_log)"
  using flushed_records_survive_crash[OF demo_state_reachable, of 0 2 "length (log_of demo_log)"]
  by (simp add: demo_state_def reopened_def)

text \<open>C26: What was appended is what a scan reads: in every reachable state of the log, the scan accepts the
  file and returns exactly the appended records, in order, with the numbers \<^verbatim>\<open>Append\<close> gave out; and the
  transaction id that start-up takes next is larger than every id in the log, unless the id space is
  exhausted.\<close>

theorem Scan_returns_appended:
  assumes "wal_reachable s"
  shows "Scan (ws_log s) = Inr (ws_records s) \<and>
    (case GetNextTransactionIdSeed (ws_log s) of
       Inl err \<Rightarrow> err = OutOfSpace \<and> (\<exists>r \<in> set (ws_records s). rec_txn r = -1)
     | Inr n \<Rightarrow> \<forall>r \<in> set (ws_records s). rec_txn r < n)"
proof -
  have inv: "wal_inv s" using assms by (rule wal_inv_reachable)
  then have scan: "Scan (ws_log s) = Inr (ws_records s)" by (intro Scan_log) (simp_all add: wal_inv_def)
  have fold: "foldl (\<lambda>m r. max m (rec_txn r)) a rs \<in> insert a (rec_txn ` set rs) \<and>
      (\<forall>x \<in> insert a (rec_txn ` set rs). x \<le> foldl (\<lambda>m r. max m (rec_txn r)) a rs)" for a rs
  proof (induction rs rule: rev_induct)
    case (snoc r rs)
    then show ?case by (auto simp: max_def)
  qed simp
  let ?m = "foldl (\<lambda>m r. max m (rec_txn r)) kInvalidTxnId (ws_records s)"
  have m: "?m \<in> insert kInvalidTxnId (rec_txn ` set (ws_records s))" "\<forall>r \<in> set (ws_records s). rec_txn r \<le> ?m"
    using fold[of kInvalidTxnId "ws_records s"] by blast+
  show ?thesis
    using scan m word_less_succ[of ?m]
    by (auto simp: GetNextTransactionIdSeed_def Let_def kInvalidTxnId_def intro: le_less_trans)
qed

lemma Scan_returns_appended_witness:
  "Scan (ws_log demo_state) = Inr (ws_records demo_state) \<and>
    (case GetNextTransactionIdSeed (ws_log demo_state) of
       Inl err \<Rightarrow> err = OutOfSpace \<and> (\<exists>r \<in> set (ws_records demo_state). rec_txn r = -1)
     | Inr n \<Rightarrow> \<forall>r \<in> set (ws_records demo_state). rec_txn r < n)"
  by (rule Scan_returns_appended[OF demo_state_reachable])

text \<open>C27: A torn tail is repaired, and only it: opening a well-formed log that was cut at any byte succeeds,
  keeps exactly the records that lie wholly before the cut, trims the file to them, and continues numbering
  after the last of them.\<close>

theorem Open_repairs_torn_tail:
  assumes "log_ok rs" "k \<le> length (log_of rs)"
  shows "\<exists>lm' m. Open (Some (take k (log_of rs))) lm = (lm', Code_Ok) \<and> m \<le> length rs \<and>
    length (log_of (take m rs)) \<le> k \<and> (m < length rs \<longrightarrow> k < length (log_of (take (Suc m) rs))) \<and>
    Scan lm' = Inr (take m rs) \<and> log_bytes lm' = log_of (take m rs) \<and>
    append_lsn lm' = last_lsn_of (take m rs) \<and> durable_lsn lm' = last_lsn_of (take m rs)"
proof -
  let ?m = "whole_records k rs"
  have "length (log_of (take ?m rs)) \<le> k"
    by (induction k rs rule: whole_records.induct) auto
  moreover have "?m < length rs \<longrightarrow> k < length (log_of (take (Suc ?m) rs))"
    using whole_records_ge[of "Suc ?m" rs k] by (metis Suc_leI Suc_n_not_le_n leI)
  ultimately show ?thesis
    using Open_cut[OF assms, of lm] Scan_reopened[OF log_ok_take[OF assms(1)]] whole_records_le[of k rs]
    by (intro exI[of _ "reopened (take ?m rs) lm"] exI[of _ ?m]) (simp add: reopened_def)
qed

lemma Open_repairs_torn_tail_witness:
  "\<exists>lm' m. Open (Some (take 50 (log_of demo_log))) initial_log_manager = (lm', Code_Ok) \<and> m \<le> length demo_log \<and>
    length (log_of (take m demo_log)) \<le> 50 \<and> (m < length demo_log \<longrightarrow> 50 < length (log_of (take (Suc m) demo_log))) \<and>
    Scan lm' = Inr (take m demo_log) \<and> log_bytes lm' = log_of (take m demo_log) \<and>
    append_lsn lm' = last_lsn_of (take m demo_log) \<and> durable_lsn lm' = last_lsn_of (take m demo_log)"
  by (rule Open_repairs_torn_tail[OF demo_log_ok]) (simp add: demo_log_def)

text \<open>C33: A damaged length field of a record anywhere in the log is taken for a torn tail when its value is one that no
  record at this place can have: below the 48 bytes of the header (\<^verbatim>\<open>kLogHeaderSize\<close>), or beyond the bytes that are left in
  the file. Then opening succeeds, and the damaged record and every intact record after it are cut off, although
  the code means to report damage before the tail. Other wrong lengths are not the subject here: the record is then decoded with
  the wrong length.\<close>

theorem Open_drops_records_after_bad_length:
  assumes "log_ok (earlier @ r # later)"
    and "v < 48 \<or> unat v > 48 + length (payload_of r) + length (log_of later)"
  shows "\<exists>lm'. Open (Some (log_of earlier @ StoreU32 (wire r (rec_lsn r)) kTotalLengthOffset v @ log_of later)) lm =
    (lm', Code_Ok) \<and> Scan lm' = Inr earlier \<and> log_bytes lm' = log_of earlier"
proof -
  have ok: "log_ok earlier" using assms(1) by (rule log_ok_append)
  show ?thesis
    using Open_bad_length[OF ok assms(2)] Scan_reopened[OF ok] by (simp add: kTotalLengthOffset_def reopened_def)
qed

lemma Open_drops_records_after_bad_length_witness:
  "\<exists>lm'. Open (Some (log_of [] @ StoreU32 (wire (demo_begin\<lparr>rec_lsn := 1\<rparr>) 1) kTotalLengthOffset 0 @ log_of [demo_commit]))
      initial_log_manager =
    (lm', Code_Ok) \<and> Scan lm' = Inr [] \<and> log_bytes lm' = log_of []"
  using Open_drops_records_after_bad_length[of "[]" "demo_begin\<lparr>rec_lsn := 1\<rparr>" "[demo_commit]" 0] demo_log_ok
  by (simp add: demo_log_def del: log_of_simps)

text \<open>A flush that no other thread disturbs returns after one batch, and tells the truth: it returns Ok
  exactly when the records were already durable or neither the injected failure nor the host prevented the
  write; then everything appended is on the host and the durable number covers the target; otherwise the
  durable number is unchanged.\<close>

theorem Flush_outcome:
  assumes "log_open lm" "\<not> flush_in_progress lm" "target \<le> append_lsn lm"
  shows "\<exists>lm' c. Flush target host_ok lm = Some (lm', c) \<and>
    (c = Code_Ok \<longleftrightarrow> target \<le> durable_lsn lm \<or> (\<not> fail_next_flush lm \<and> host_ok)) \<and>
    (c = Code_Ok \<longrightarrow> target \<le> durable_lsn lm') \<and>
    (c = Code_Ok \<and> durable_lsn lm < target \<longrightarrow> flushed_length lm' = length (log_bytes lm')) \<and>
    (c \<noteq> Code_Ok \<longrightarrow> durable_lsn lm' = durable_lsn lm) \<and> \<not> flush_in_progress lm' \<and>
    log_bytes lm' = log_bytes lm \<and> append_lsn lm' = append_lsn lm"
  using assms
  by (auto simp: Flush_def flush_enter_def EnsureOpenUnlocked_def Let_def flush_take_def flush_io_def flush_publish_def
      le_max_iff_disj split: if_splits)

lemma Flush_outcome_witness:
  "\<exists>lm' c. Flush 2 True (reopened demo_log initial_log_manager) = Some (lm', c) \<and>
    (c = Code_Ok \<longleftrightarrow> 2 \<le> durable_lsn (reopened demo_log initial_log_manager) \<or>
      (\<not> fail_next_flush (reopened demo_log initial_log_manager) \<and> True)) \<and>
    (c = Code_Ok \<longrightarrow> 2 \<le> durable_lsn lm') \<and>
    (c = Code_Ok \<and> durable_lsn (reopened demo_log initial_log_manager) < 2 \<longrightarrow> flushed_length lm' = length (log_bytes lm')) \<and>
    (c \<noteq> Code_Ok \<longrightarrow> durable_lsn lm' = durable_lsn (reopened demo_log initial_log_manager)) \<and> \<not> flush_in_progress lm' \<and>
    log_bytes lm' = log_bytes (reopened demo_log initial_log_manager) \<and>
    append_lsn lm' = append_lsn (reopened demo_log initial_log_manager)"
  by (rule Flush_outcome)
    (simp_all add: reopened_def initial_log_manager_def last_lsn_of_def demo_log_def demo_commit_def)

end
