(* ===== verification/Disk.thy ===== *)
theory Disk
  imports PageBytes
begin

text \<open>
  \<^verbatim>\<open>DiskManager\<close> of \<^verbatim>\<open>src/storage/storage.cpp\<close>: the database file as a byte list, the superblock in
  page 0, and the free list that runs through the freed pages. Every public method holds the mutex for
  its whole body, so each is one function. Host file calls succeed (a short file still gives a short read).
\<close>

subsection \<open>The superblock format\<close>

definition kSuperMagic :: "byte list" where
  "kSuperMagic = [0x4F, 0x55, 0x52, 0x53, 0x51, 0x4C, 0, 0]"

definition kSuperMagicOffset :: nat where "kSuperMagicOffset = 0"
definition kFormatVersionOffset :: nat where "kFormatVersionOffset = 8"
definition kPageSizeOffset :: nat where "kPageSizeOffset = 12"
definition kPageCountOffset :: nat where "kPageCountOffset = 16"
definition kFreeListHeadOffset :: nat where "kFreeListHeadOffset = 20"
definition kCatalogHeadOffset :: nat where "kCatalogHeadOffset = 24"
definition kFormatVersion :: u32 where "kFormatVersion = 1"

lemmas super_offsets = kSuperMagicOffset_def kFormatVersionOffset_def kPageSizeOffset_def kPageCountOffset_def
  kFreeListHeadOffset_def kCatalogHeadOffset_def

definition LoadU32FileLittleEndian :: "byte list \<Rightarrow> nat \<Rightarrow> u32" where
  "LoadU32FileLittleEndian data off =
     ucast (data ! off) OR push_bit 8 (ucast (data ! (off + 1)))
       OR push_bit 16 (ucast (data ! (off + 2))) OR push_bit 24 (ucast (data ! (off + 3)))"

definition StoreU32FileLittleEndian :: "byte list \<Rightarrow> nat \<Rightarrow> u32 \<Rightarrow> byte list" where
  "StoreU32FileLittleEndian data off value =
     data[off := ucast (value AND 0xFF),
          off + 1 := ucast (drop_bit 8 value AND 0xFF),
          off + 2 := ucast (drop_bit 16 value AND 0xFF),
          off + 3 := ucast (drop_bit 24 value AND 0xFF)]"

definition LoadPageId :: "byte list \<Rightarrow> nat \<Rightarrow> page_id_t" where
  "LoadPageId data off = LoadU32FileLittleEndian data off"

definition StorePageId :: "byte list \<Rightarrow> nat \<Rightarrow> page_id_t \<Rightarrow> byte list" where
  "StorePageId data off value = StoreU32FileLittleEndian data off value"

definition SameMagic :: "byte list \<Rightarrow> bool" where
  "SameMagic data \<longleftrightarrow> get_bytes kSuperMagicOffset (length kSuperMagic) data = kSuperMagic"

definition empty_page :: "byte list" where
  "empty_page = replicate page_size 0"

subsection \<open>The disk manager\<close>

record DiskManager =
  is_open :: bool
  page_count :: page_id_t
  free_list_head :: page_id_t
  catalog_head :: page_id_t
  free_pages :: "page_id_t set"
  read_count :: u64
  write_count :: u64
  disk_file :: "byte list"

definition initial_disk :: DiskManager where
  "initial_disk = \<lparr>is_open = False, page_count = 1, free_list_head = INVALID_PAGE_ID, catalog_head = INVALID_PAGE_ID,
     free_pages = {}, read_count = 0, write_count = 0, disk_file = []\<rparr>"

text \<open>Writing into a host file pads a gap before the offset with zeros.\<close>

definition host_write :: "nat \<Rightarrow> byte list \<Rightarrow> byte list \<Rightarrow> byte list" where
  "host_write off bs file =
     take off file @ replicate (off - length file) 0 @ bs @ drop (off + length bs) file"

definition page_offset :: "page_id_t \<Rightarrow> nat" where
  "page_offset page = unat page * page_size"

definition ReadPhysicalPageUnlocked :: "page_id_t \<Rightarrow> DiskManager \<Rightarrow> DiskManager \<times> byte list Result" where
  "ReadPhysicalPageUnlocked page dm =
     (if \<not> is_open dm then (dm, Inl InvalidArgument)
      else if page \<ge> page_count dm then (dm, Inl NotFound)
      else
        (let bytes = get_bytes (page_offset page) page_size (disk_file dm) in
         if length bytes \<noteq> page_size then (dm, Inl IOError)
         else (dm\<lparr>read_count := read_count dm + 1\<rparr>, Inr bytes)))"

definition WritePhysicalPageUnlocked :: "page_id_t \<Rightarrow> byte list \<Rightarrow> DiskManager \<Rightarrow> DiskManager \<times> ErrorCode" where
  "WritePhysicalPageUnlocked page bytes dm =
     (if \<not> is_open dm then (dm, InvalidArgument)
      else if page \<ge> page_count dm then (dm, NotFound)
      else (dm\<lparr>disk_file := host_write (page_offset page) bytes (disk_file dm), write_count := write_count dm + 1\<rparr>,
            Code_Ok))"

definition superblock :: "DiskManager \<Rightarrow> byte list" where
  "superblock dm =
     (let data = put_bytes kSuperMagicOffset kSuperMagic empty_page;
          data = StoreU32FileLittleEndian data kFormatVersionOffset kFormatVersion;
          data = StoreU32FileLittleEndian data kPageSizeOffset (word_of_nat page_size);
          data = StorePageId data kPageCountOffset (page_count dm);
          data = StorePageId data kFreeListHeadOffset (free_list_head dm)
      in StorePageId data kCatalogHeadOffset (catalog_head dm))"

definition PersistSuperblockUnlocked :: "DiskManager \<Rightarrow> DiskManager \<times> ErrorCode" where
  "PersistSuperblockUnlocked dm =
     (if \<not> is_open dm then (dm, InvalidArgument) else WritePhysicalPageUnlocked 0 (superblock dm) dm)"

definition EnsureFileSizeUnlocked :: "nat \<Rightarrow> DiskManager \<Rightarrow> DiskManager \<times> ErrorCode" where
  "EnsureFileSizeUnlocked count dm =
     (let desired_size = count * page_size in
      if length (disk_file dm) \<ge> desired_size then (dm, Code_Ok)
      else (dm\<lparr>disk_file := host_write (desired_size - 1) [0] (disk_file dm)\<rparr>, Code_Ok))"

subsection \<open>The free list\<close>

definition PopFreePageUnlocked :: "DiskManager \<Rightarrow> DiskManager \<times> page_id_t Result" where
  "PopFreePageUnlocked dm =
     (if free_list_head dm = INVALID_PAGE_ID then (dm, Inl NotFound)
      else if free_list_head dm \<notin> free_pages dm then (dm, Inl IOError)
      else
        (let page = free_list_head dm in
         case ReadPhysicalPageUnlocked page dm of
           (dm, Inl err) \<Rightarrow> (dm, Inl err)
         | (dm, Inr data) \<Rightarrow>
             (let next_free = LoadPageId data 0 in
              if next_free \<noteq> INVALID_PAGE_ID \<and> next_free \<ge> page_count dm then (dm, Inl IOError)
              else if next_free \<noteq> INVALID_PAGE_ID \<and> next_free = 0 then (dm, Inl IOError)
              else
                (let old_head = free_list_head dm; old_pages = free_pages dm in
                 case PersistSuperblockUnlocked (dm\<lparr>free_list_head := next_free\<rparr>) of
                   (dm, status) \<Rightarrow>
                     if status \<noteq> Code_Ok
                     then (dm\<lparr>free_list_head := old_head, free_pages := old_pages\<rparr>, Inl status)
                     else (dm\<lparr>free_pages := free_pages dm - {page}\<rparr>, Inr page)))))"

definition PushFreePageUnlocked :: "page_id_t \<Rightarrow> DiskManager \<Rightarrow> DiskManager \<times> ErrorCode" where
  "PushFreePageUnlocked page dm =
     (if \<not> is_open dm then (dm, InvalidArgument)
      else if page = 0 \<or> page = INVALID_PAGE_ID \<or> page \<ge> page_count dm then (dm, InvalidArgument)
      else if page \<in> free_pages dm then (dm, AlreadyExists)
      else
        (case WritePhysicalPageUnlocked page (StorePageId empty_page 0 (free_list_head dm)) dm of
           (dm, write_status) \<Rightarrow>
             if write_status \<noteq> Code_Ok then (dm, write_status)
             else
               (let old_head = free_list_head dm; old_pages = free_pages dm in
                case PersistSuperblockUnlocked (dm\<lparr>free_list_head := page\<rparr>) of
                  (dm, status) \<Rightarrow>
                    if status \<noteq> Code_Ok
                    then (dm\<lparr>free_list_head := old_head, free_pages := old_pages\<rparr>, status)
                    else (dm\<lparr>free_pages := insert page (free_pages dm)\<rparr>, Code_Ok))))"

lemma Read_free_pages: "ReadPhysicalPageUnlocked page dm = (dm', r) \<Longrightarrow> free_pages dm' = free_pages dm"
  by (auto simp: ReadPhysicalPageUnlocked_def Let_def split: if_splits)

text \<open>The walk of \<^verbatim>\<open>ValidateMetadataUnlocked\<close> along the free list: it ends because it meets every page
  at most once.\<close>

function validate_free_list :: "page_id_t \<Rightarrow> DiskManager \<Rightarrow> DiskManager \<times> ErrorCode" where
  "validate_free_list current dm =
     (if current = INVALID_PAGE_ID then (dm, Code_Ok)
      else if current = 0 \<or> current \<ge> page_count dm then (dm, IOError)
      else if current \<in> free_pages dm then (dm, IOError)
      else
        (let dm = dm\<lparr>free_pages := insert current (free_pages dm)\<rparr> in
         case ReadPhysicalPageUnlocked current dm of
           (dm, Inl err) \<Rightarrow> (dm, err)
         | (dm, Inr data) \<Rightarrow> validate_free_list (LoadPageId data 0) dm))"
  by pat_completeness auto

termination
proof (relation "measure (\<lambda>(current, dm). card (UNIV - free_pages dm))")
  fix current dm and xa x y b
  assume "\<not> (current :: page_id_t) \<in> free_pages dm" "xa = dm\<lparr>free_pages := insert current (free_pages dm)\<rparr>"
    and "(x, y) = ReadPhysicalPageUnlocked current xa" and "y = Inr b"
  moreover from this have "free_pages x = insert current (free_pages dm)"
    using Read_free_pages[of current xa x y] by simp
  moreover have "UNIV - insert current (free_pages dm) = (UNIV - free_pages dm) - {current}" by blast
  moreover have "card ((UNIV - free_pages dm) - {current}) < card (UNIV - free_pages dm)"
    if "current \<notin> free_pages dm" using that by (intro card_Diff1_less) auto
  ultimately show "((LoadPageId b 0, x), current, dm) \<in> measure (\<lambda>(current, dm). card (UNIV - free_pages dm))"
    by (simp only: in_measure prod.case) blast
qed simp

declare validate_free_list.simps [simp del]

definition ValidateMetadataUnlocked :: "DiskManager \<Rightarrow> DiskManager \<times> ErrorCode" where
  "ValidateMetadataUnlocked dm =
     (if free_list_head dm \<noteq> INVALID_PAGE_ID \<and> (free_list_head dm = 0 \<or> free_list_head dm \<ge> page_count dm)
      then (dm, IOError)
      else if catalog_head dm \<noteq> INVALID_PAGE_ID \<and> (catalog_head dm = 0 \<or> catalog_head dm \<ge> page_count dm)
      then (dm, IOError)
      else validate_free_list (free_list_head dm) (dm\<lparr>free_pages := {}\<rparr>))"

subsection \<open>Opening and closing\<close>

definition CloseUnlocked :: "DiskManager \<Rightarrow> DiskManager \<times> ErrorCode" where
  "CloseUnlocked dm =
     (if \<not> is_open dm then (dm, Code_Ok)
      else (dm\<lparr>is_open := False, page_count := 1, free_list_head := INVALID_PAGE_ID, catalog_head := INVALID_PAGE_ID,
               free_pages := {}\<rparr>, Code_Ok))"

definition OpenNewFileUnlocked :: "DiskManager \<Rightarrow> DiskManager \<times> ErrorCode" where
  "OpenNewFileUnlocked dm =
     (case PersistSuperblockUnlocked
        (dm\<lparr>disk_file := [], page_count := 1, free_list_head := INVALID_PAGE_ID, catalog_head := INVALID_PAGE_ID,
            free_pages := {}, is_open := True\<rparr>) of
        (dm, status) \<Rightarrow> if status \<noteq> Code_Ok then (fst (CloseUnlocked dm), status) else (dm, status))"

definition OpenExistingFileUnlocked :: "byte list \<Rightarrow> DiskManager \<Rightarrow> DiskManager \<times> ErrorCode" where
  "OpenExistingFileUnlocked file dm =
     (case ReadPhysicalPageUnlocked 0 (dm\<lparr>disk_file := file, is_open := True\<rparr>) of
        (dm, Inl err) \<Rightarrow> (fst (CloseUnlocked dm), err)
      | (dm, Inr sb) \<Rightarrow>
          if \<not> SameMagic sb then (fst (CloseUnlocked dm), InvalidArgument)
          else if LoadU32FileLittleEndian sb kFormatVersionOffset \<noteq> kFormatVersion
          then (fst (CloseUnlocked dm), NotImplemented)
          else if unat (LoadU32FileLittleEndian sb kPageSizeOffset) \<noteq> page_size
          then (fst (CloseUnlocked dm), InvalidArgument)
          else
            (let dm = dm\<lparr>page_count := LoadPageId sb kPageCountOffset, free_list_head := LoadPageId sb kFreeListHeadOffset,
                         catalog_head := LoadPageId sb kCatalogHeadOffset, free_pages := {}\<rparr>
             in if page_count dm = 0 then (fst (CloseUnlocked dm), InvalidArgument)
                else if length (disk_file dm) \<noteq> unat (page_count dm) * page_size
                then (fst (CloseUnlocked dm), IOError)
                else (case ValidateMetadataUnlocked dm of
                        (dm, status) \<Rightarrow>
                          if status \<noteq> Code_Ok then (fst (CloseUnlocked dm), status) else (dm, Code_Ok))))"

text \<open>\<open>file\<close> is what the host has under the path: \<open>None\<close> when the path does not exist.\<close>

definition OpenDisk :: "byte list option \<Rightarrow> DiskManager \<Rightarrow> DiskManager \<times> ErrorCode" where
  "OpenDisk file dm =
     (let (dm, close_status) = (if is_open dm then CloseUnlocked dm else (dm, Code_Ok)) in
      if close_status \<noteq> Code_Ok then (dm, close_status)
      else
        (case file of
           None \<Rightarrow> OpenNewFileUnlocked dm
         | Some bytes \<Rightarrow>
             if length bytes = 0 then OpenNewFileUnlocked dm
             else if length bytes mod page_size \<noteq> 0 then (dm, IOError)
             else OpenExistingFileUnlocked bytes dm))"

definition CloseDisk :: "DiskManager \<Rightarrow> DiskManager \<times> ErrorCode" where
  "CloseDisk dm = CloseUnlocked dm"

subsection \<open>The public operations\<close>

definition ReadPage :: "page_id_t \<Rightarrow> DiskManager \<Rightarrow> DiskManager \<times> byte list Result" where
  "ReadPage page dm = ReadPhysicalPageUnlocked page dm"

definition WritePage :: "page_id_t \<Rightarrow> byte list \<Rightarrow> DiskManager \<Rightarrow> DiskManager \<times> ErrorCode" where
  "WritePage page bytes dm = WritePhysicalPageUnlocked page bytes dm"

definition AllocatePage :: "DiskManager \<Rightarrow> DiskManager \<times> page_id_t Result" where
  "AllocatePage dm =
     (if \<not> is_open dm then (dm, Inl InvalidArgument)
      else if free_list_head dm \<noteq> INVALID_PAGE_ID then PopFreePageUnlocked dm
      else
        (let new_page_id = page_count dm; new_page_count = page_count dm + 1 in
         case EnsureFileSizeUnlocked (unat new_page_count) dm of
           (dm, extend_status) \<Rightarrow>
             if extend_status \<noteq> Code_Ok then (dm, Inl extend_status)
             else
               (let old_page_count = page_count dm in
                case PersistSuperblockUnlocked (dm\<lparr>page_count := new_page_count\<rparr>) of
                  (dm, persist_status) \<Rightarrow>
                    if persist_status \<noteq> Code_Ok then (dm\<lparr>page_count := old_page_count\<rparr>, Inl persist_status)
                    else (dm, Inr new_page_id))))"

definition DeallocatePage :: "page_id_t \<Rightarrow> DiskManager \<Rightarrow> DiskManager \<times> ErrorCode" where
  "DeallocatePage page dm = PushFreePageUnlocked page dm"

definition ResetIoStatistics :: "DiskManager \<Rightarrow> DiskManager" where
  "ResetIoStatistics dm = dm\<lparr>read_count := 0, write_count := 0\<rparr>"

definition SetCatalogHead :: "page_id_t \<Rightarrow> DiskManager \<Rightarrow> DiskManager \<times> ErrorCode" where
  "SetCatalogHead page dm =
     (if \<not> is_open dm then (dm, InvalidArgument)
      else if page \<noteq> INVALID_PAGE_ID \<and> (page = 0 \<or> page \<ge> page_count dm) then (dm, InvalidArgument)
      else
        (let old_catalog_head = catalog_head dm in
         case PersistSuperblockUnlocked (dm\<lparr>catalog_head := page\<rparr>) of
           (dm, persist_status) \<Rightarrow>
             if persist_status \<noteq> Code_Ok then (dm\<lparr>catalog_head := old_catalog_head\<rparr>, persist_status)
             else (dm, persist_status)))"

subsection \<open>Pages of the file\<close>

definition page_at :: "page_id_t \<Rightarrow> byte list \<Rightarrow> byte list" where
  "page_at p file = get_bytes (page_offset p) page_size file"

definition file_fits :: "DiskManager \<Rightarrow> bool" where
  "file_fits dm \<longleftrightarrow> is_open dm \<and> page_count dm \<noteq> 0 \<and> length (disk_file dm) = unat (page_count dm) * page_size"

lemma page_pos: "page_size > 0" by (simp add: page_size_def)

lemma page_fits: "p < n \<Longrightarrow> page_offset p + page_size \<le> unat n * page_size"
proof -
  assume "p < n"
  then have "Suc (unat p) \<le> unat n" by (simp add: word_less_nat_alt)
  then have "Suc (unat p) * page_size \<le> unat n * page_size" by (rule mult_le_mono1)
  then show ?thesis by (simp add: page_offset_def)
qed

lemma page_disjoint: "p \<noteq> q \<Longrightarrow> page_offset p + page_size \<le> page_offset q \<or> page_offset q + page_size \<le> page_offset p"
proof -
  assume "p \<noteq> q"
  then have "p < q \<or> q < p" by auto
  then have "Suc (unat p) \<le> unat q \<or> Suc (unat q) \<le> unat p" by (auto simp: word_less_nat_alt)
  then have "Suc (unat p) * page_size \<le> unat q * page_size \<or> Suc (unat q) * page_size \<le> unat p * page_size"
    by (metis mult_le_mono1)
  then show ?thesis by (simp add: page_offset_def add.commute)
qed

lemma host_write_inside: "off + length bs \<le> length f \<Longrightarrow> host_write off bs f = put_bytes off bs f"
  by (simp add: host_write_def put_bytes_def)

lemma Read_fits:
  "file_fits dm \<Longrightarrow> p < page_count dm \<Longrightarrow>
   ReadPhysicalPageUnlocked p dm = (dm\<lparr>read_count := read_count dm + 1\<rparr>, Inr (page_at p (disk_file dm)))"
  using page_fits[of p "page_count dm"]
  by (simp add: ReadPhysicalPageUnlocked_def file_fits_def Let_def length_get_bytes page_at_def not_le)

lemma length_page_at: "file_fits dm \<Longrightarrow> p < page_count dm \<Longrightarrow> length (page_at p (disk_file dm)) = page_size"
  using page_fits[of p "page_count dm"] by (simp add: file_fits_def page_at_def length_get_bytes)

definition put_page :: "page_id_t \<Rightarrow> byte list \<Rightarrow> DiskManager \<Rightarrow> DiskManager" where
  "put_page p bytes dm =
     dm\<lparr>disk_file := put_bytes (page_offset p) bytes (disk_file dm), write_count := write_count dm + 1\<rparr>"

lemma Write_fits:
  "file_fits dm \<Longrightarrow> p < page_count dm \<Longrightarrow> length bytes = page_size \<Longrightarrow>
   WritePhysicalPageUnlocked p bytes dm = (put_page p bytes dm, Code_Ok)"
  using page_fits[of p "page_count dm"]
  by (simp add: WritePhysicalPageUnlocked_def file_fits_def host_write_inside put_page_def not_le)

lemma put_page_fields [simp]:
  "is_open (put_page p b dm) = is_open dm" "page_count (put_page p b dm) = page_count dm"
  "free_list_head (put_page p b dm) = free_list_head dm" "catalog_head (put_page p b dm) = catalog_head dm"
  "free_pages (put_page p b dm) = free_pages dm"
  by (simp_all add: put_page_def)

lemma put_page_file:
  assumes "file_fits dm" "p < page_count dm" "length bytes = page_size"
  shows "length (disk_file (put_page p bytes dm)) = length (disk_file dm)"
    "q < page_count dm \<Longrightarrow> page_at q (disk_file (put_page p bytes dm)) = (if q = p then bytes else page_at q (disk_file dm))"
proof -
  have fit: "page_offset r + page_size \<le> length (disk_file dm)" if "r < page_count dm" for r
    using assms(1) page_fits[OF that] by (simp add: file_fits_def)
  show "length (disk_file (put_page p bytes dm)) = length (disk_file dm)"
    using fit[OF assms(2)] assms(3) by (simp add: put_page_def length_put_bytes)
  show "q < page_count dm \<Longrightarrow> page_at q (disk_file (put_page p bytes dm)) = (if q = p then bytes else page_at q (disk_file dm))"
    using fit[OF assms(2)] fit[of q] assms(3) page_disjoint[of q p]
    by (auto simp: put_page_def page_at_def get_put_same get_put_disjoint)
qed

lemma put_page_fits: "file_fits dm \<Longrightarrow> p < page_count dm \<Longrightarrow> length b = page_size \<Longrightarrow> file_fits (put_page p b dm)"
  using put_page_file(1)[of dm p b] by (simp add: file_fits_def)

subsection \<open>The superblock\<close>

lemma FileLittleEndian_eq:
  "LoadU32FileLittleEndian = LoadU32LittleEndian" "StoreU32FileLittleEndian = StoreU32LittleEndian"
  by (simp_all add: fun_eq_iff LoadU32FileLittleEndian_def LoadU32LittleEndian_def
      StoreU32FileLittleEndian_def StoreU32LittleEndian_def)

lemmas page_field_defs = LoadPageId_def StorePageId_def FileLittleEndian_eq

lemma length_empty_page [simp]: "length empty_page = page_size"
  by (simp add: empty_page_def)

lemma length_superblock [simp]: "length (superblock dm) = page_size"
  by (simp add: superblock_def Let_def page_field_defs length_put_bytes super_offsets kSuperMagic_def page_size_def)

lemma superblock_fields:
  "SameMagic (superblock dm)" "LoadU32FileLittleEndian (superblock dm) 8 = kFormatVersion"
  "LoadU32FileLittleEndian (superblock dm) 12 = word_of_nat page_size"
  "LoadPageId (superblock dm) 16 = page_count dm" "LoadPageId (superblock dm) 20 = free_list_head dm"
  "LoadPageId (superblock dm) 24 = catalog_head dm"
proof -
  let ?b = "put_bytes 0 kSuperMagic empty_page"
  have l: "length ?b = page_size" by (simp add: length_put_bytes kSuperMagic_def page_size_def)
  have ps: "28 \<le> page_size" by (simp add: page_size_def)
  note S = superblock_def Let_def page_field_defs super_offsets
  have m: "get_bytes 0 8 ?b = kSuperMagic" by (rule get_put_same) (simp_all add: kSuperMagic_def page_size_def)
  show "SameMagic (superblock dm)"
  proof -
    have "length kSuperMagic = 8" by (simp add: kSuperMagic_def)
    then show ?thesis using l ps m unfolding SameMagic_def S by (simp add: get_bytes_Store_other)
  qed
  show "LoadU32FileLittleEndian (superblock dm) 8 = kFormatVersion"
    "LoadU32FileLittleEndian (superblock dm) 12 = word_of_nat page_size"
    "LoadPageId (superblock dm) 16 = page_count dm" "LoadPageId (superblock dm) 20 = free_list_head dm"
    "LoadPageId (superblock dm) 24 = catalog_head dm"
    using l ps unfolding S by (simp_all add: Load_Store_other)
qed

lemma superblock_cong:
  "page_count dm = page_count dm' \<Longrightarrow> free_list_head dm = free_list_head dm' \<Longrightarrow> catalog_head dm = catalog_head dm' \<Longrightarrow>
   superblock dm = superblock dm'"
  by (simp add: superblock_def)

lemma Persist_fits:
  "file_fits dm \<Longrightarrow> PersistSuperblockUnlocked dm = (put_page 0 (superblock dm) dm, Code_Ok)"
  by (simp add: PersistSuperblockUnlocked_def Write_fits file_fits_def word_neq_0_conv)

subsection \<open>Valid disks\<close>

text \<open>The pages met along the free list from a page on.\<close>

fun free_chain :: "byte list \<Rightarrow> page_id_t \<Rightarrow> page_id_t list \<Rightarrow> bool" where
  "free_chain file head [] \<longleftrightarrow> head = INVALID_PAGE_ID"
| "free_chain file head (p # ps) \<longleftrightarrow> head = p \<and> free_chain file (LoadPageId (page_at p file) 0) ps"

definition disk_ok_with :: "page_id_t list \<Rightarrow> DiskManager \<Rightarrow> bool" where
  "disk_ok_with fs dm \<longleftrightarrow>
     file_fits dm \<and> page_at 0 (disk_file dm) = superblock dm \<and>
     free_chain (disk_file dm) (free_list_head dm) fs \<and> distinct fs \<and> set fs = free_pages dm \<and>
     (\<forall>p \<in> set fs. p \<noteq> 0 \<and> p < page_count dm) \<and>
     (catalog_head dm = INVALID_PAGE_ID \<or> catalog_head dm \<noteq> 0 \<and> catalog_head dm < page_count dm)"

definition disk_ok :: "DiskManager \<Rightarrow> bool" where
  "disk_ok dm \<longleftrightarrow> (\<exists>fs. disk_ok_with fs dm)"

lemma free_chain_cong:
  "(\<And>p. p \<in> set fs \<Longrightarrow> page_at p f = page_at p f') \<Longrightarrow> free_chain f h fs = free_chain f' h fs"
  by (induction fs arbitrary: h) auto

lemma not_invalid: "p < (n :: page_id_t) \<Longrightarrow> p \<noteq> INVALID_PAGE_ID"
  by (auto simp: INVALID_PAGE_ID_def)

definition disk_core :: "page_id_t list \<Rightarrow> DiskManager \<Rightarrow> bool" where
  "disk_core fs dm \<longleftrightarrow>
     file_fits dm \<and> free_chain (disk_file dm) (free_list_head dm) fs \<and> distinct fs \<and> set fs = free_pages dm \<and>
     (\<forall>p \<in> set fs. p \<noteq> 0 \<and> p < page_count dm) \<and>
     (catalog_head dm = INVALID_PAGE_ID \<or> catalog_head dm \<noteq> 0 \<and> catalog_head dm < page_count dm)"

lemma ok_core: "disk_ok_with fs dm \<longleftrightarrow> disk_core fs dm \<and> page_at 0 (disk_file dm) = superblock dm"
  by (auto simp: disk_ok_with_def disk_core_def)

text \<open>Writing a page that is neither the superblock nor free changes no metadata; writing the superblock
  turns sound metadata in memory into sound metadata on disk.\<close>

lemma put_page_core:
  assumes "disk_core fs dm" "p < page_count dm" "p \<notin> set fs" "length b = page_size"
  shows "disk_core fs (put_page p b dm)"
proof -
  have fits: "file_fits dm" using assms(1) by (simp add: disk_core_def)
  have "page_at q (disk_file (put_page p b dm)) = page_at q (disk_file dm)" if "q \<in> set fs" for q
    using put_page_file(2)[OF fits assms(2,4), of q] that assms by (auto simp: disk_core_def)
  then have "free_chain (disk_file (put_page p b dm)) h fs = free_chain (disk_file dm) h fs" for h
    by (rule free_chain_cong)
  then show ?thesis
    using assms put_page_fits[OF fits] by (simp add: disk_core_def)
qed

lemma superblock_put [simp]: "superblock (put_page p b dm) = superblock dm"
  by (rule superblock_cong) simp_all

lemma persist_core: "disk_core fs dm \<Longrightarrow> disk_ok_with fs (put_page 0 (superblock dm) dm)"
  using put_page_core[of fs dm 0 "superblock dm"] put_page_file(2)[of dm 0 "superblock dm" 0]
  by (auto simp: ok_core disk_core_def file_fits_def word_neq_0_conv)

lemma Write_ok:
  assumes "disk_ok_with fs dm" "p < page_count dm" "p \<noteq> 0" "p \<notin> set fs" "length b = page_size"
  shows "WritePage p b dm = (put_page p b dm, Code_Ok)" "disk_ok_with fs (put_page p b dm)"
proof -
  have fits: "file_fits dm" using assms by (simp add: disk_ok_with_def)
  show "WritePage p b dm = (put_page p b dm, Code_Ok)" using Write_fits[OF fits assms(2,5)] by (simp add: WritePage_def)
  show "disk_ok_with fs (put_page p b dm)"
    using put_page_core[of fs dm p b] put_page_file(2)[OF fits assms(2,5), of 0] assms fits
    by (simp add: ok_core file_fits_def word_neq_0_conv)
qed

lemma fits_cong: "is_open dm' = is_open dm \<Longrightarrow> page_count dm' = page_count dm \<Longrightarrow> disk_file dm' = disk_file dm \<Longrightarrow>
  file_fits dm' = file_fits dm"
  by (simp add: file_fits_def)

definition popped :: "page_id_t \<Rightarrow> DiskManager \<Rightarrow> DiskManager" where
  "popped p dm = dm\<lparr>read_count := read_count dm + 1, free_list_head := LoadPageId (page_at p (disk_file dm)) 0,
     free_pages := free_pages dm - {p}\<rparr>"

lemma Pop_ok:
  assumes "disk_ok_with (p # ps) dm"
  shows "PopFreePageUnlocked dm = (put_page 0 (superblock (popped p dm)) (popped p dm), Inr p)"
    "disk_ok_with ps (put_page 0 (superblock (popped p dm)) (popped p dm))"
proof -
  let ?next = "LoadPageId (page_at p (disk_file dm)) 0"
  define dm1 where "dm1 = dm\<lparr>read_count := read_count dm + 1, free_list_head := ?next\<rparr>"
  have ok: "file_fits dm" "p < page_count dm" "p \<noteq> 0" "free_list_head dm = p" "p \<in> free_pages dm"
    "free_chain (disk_file dm) ?next ps" "distinct ps" "p \<notin> set ps" "set ps = free_pages dm - {p}"
    "\<forall>q \<in> set ps. q \<noteq> 0 \<and> q < page_count dm"
    using assms(1) by (auto simp: disk_ok_with_def)
  have nx: "?next = INVALID_PAGE_ID \<or> ?next \<noteq> 0 \<and> ?next < page_count dm"
    using ok(6,10) by (cases ps) auto
  have fits1: "file_fits dm1" using ok(1) by (simp add: dm1_def file_fits_def)
  have sb: "superblock (popped p dm) = superblock dm1" by (rule superblock_cong) (simp_all add: popped_def dm1_def)
  define dmr where "dmr = dm\<lparr>read_count := read_count dm + 1\<rparr>"
  have r: "ReadPhysicalPageUnlocked p dm = (dmr, Inr (page_at p (disk_file dm)))"
    using Read_fits[OF ok(1,2)] by (simp add: dmr_def)
  have dmr: "page_count dmr = page_count dm" "free_pages dmr = free_pages dm" "dmr\<lparr>free_list_head := ?next\<rparr> = dm1"
    by (simp_all add: dmr_def dm1_def)
  have bad: "\<not> (?next \<noteq> INVALID_PAGE_ID \<and> ?next \<ge> page_count dm)" "\<not> (?next \<noteq> INVALID_PAGE_ID \<and> ?next = 0)"
    using nx by auto
  have p: "p \<noteq> INVALID_PAGE_ID" using ok(2) by (rule not_invalid)
  have "free_pages (put_page 0 (superblock dm1) dm1) = free_pages dm" by (simp add: dm1_def)
  then have "PopFreePageUnlocked dm = (put_page 0 (superblock dm1) dm1\<lparr>free_pages := free_pages dm - {p}\<rparr>, Inr p)"
    unfolding PopFreePageUnlocked_def Let_def ok(4) r using p ok(5) bad Persist_fits[OF fits1]
    by (simp only: prod.case sum.case dmr if_False not_True_eq_False not_False_eq_True refl)
  then show "PopFreePageUnlocked dm = (put_page 0 (superblock (popped p dm)) (popped p dm), Inr p)"
    unfolding sb by (simp add: dm1_def popped_def put_page_def)
  have "disk_core ps (popped p dm)"
    using assms(1) ok by (auto simp: disk_core_def popped_def file_fits_def disk_ok_with_def)
  then show "disk_ok_with ps (put_page 0 (superblock (popped p dm)) (popped p dm))"
    by (rule persist_core)
qed

definition pushed :: "page_id_t \<Rightarrow> DiskManager \<Rightarrow> DiskManager" where
  "pushed p dm = put_page p (StorePageId empty_page 0 (free_list_head dm)) dm
     \<lparr>free_list_head := p, free_pages := insert p (free_pages dm)\<rparr>"

lemma Push_ok:
  assumes "disk_ok_with fs dm" "p < page_count dm" "p \<noteq> 0" "p \<notin> set fs"
  shows "PushFreePageUnlocked p dm = (put_page 0 (superblock (pushed p dm)) (pushed p dm), Code_Ok)"
    "disk_ok_with (p # fs) (put_page 0 (superblock (pushed p dm)) (pushed p dm))"
proof -
  let ?b = "StorePageId empty_page 0 (free_list_head dm)"
  define dm0 where "dm0 = put_page p ?b dm"
  define dm1 where "dm1 = dm0\<lparr>free_list_head := p\<rparr>"
  have b: "length ?b = page_size" "LoadPageId ?b 0 = free_list_head dm"
    by (simp_all add: page_field_defs page_size_def)
  have ok: "file_fits dm" "set fs = free_pages dm" using assms(1) by (auto simp: disk_ok_with_def)
  have fits0: "file_fits dm0" using put_page_fits[OF ok(1) assms(2) b(1)] by (simp add: dm0_def)
  then have fits1: "file_fits dm1" by (simp add: dm1_def file_fits_def)
  have fields: "free_list_head dm0 = free_list_head dm" "free_pages dm0 = free_pages dm" "page_count dm0 = page_count dm"
    by (simp_all add: dm0_def)
  have sb: "superblock (pushed p dm) = superblock dm1" by (rule superblock_cong) (simp_all add: pushed_def dm1_def dm0_def)
  have w: "WritePhysicalPageUnlocked p ?b dm = (dm0, Code_Ok)" using Write_fits[OF ok(1) assms(2) b(1)] by (simp add: dm0_def)
  have "PushFreePageUnlocked p dm = (put_page 0 (superblock dm1) dm1\<lparr>free_pages := insert p (free_pages dm1)\<rparr>, Code_Ok)"
    using ok assms(2-4) not_invalid[OF assms(2)] Persist_fits[OF fits1] w
    by (simp add: PushFreePageUnlocked_def Let_def dm1_def[symmetric] file_fits_def not_le)
  then show "PushFreePageUnlocked p dm = (put_page 0 (superblock (pushed p dm)) (pushed p dm), Code_Ok)"
    unfolding sb by (simp add: dm1_def dm0_def pushed_def put_page_def)
  have core: "disk_core fs dm0"
    using assms put_page_core[OF _ assms(2,4) b(1)] by (simp add: ok_core dm0_def)
  have at: "page_at p (disk_file dm0) = ?b"
    using put_page_file(2)[OF ok(1) assms(2) b(1) assms(2)] by (simp add: dm0_def)
  have "disk_core (p # fs) (pushed p dm)"
    using core assms(2-4) b(2) at
    unfolding pushed_def dm0_def[symmetric] by (auto simp: disk_core_def file_fits_def fields)
  then show "disk_ok_with (p # fs) (put_page 0 (superblock (pushed p dm)) (pushed p dm))"
    by (rule persist_core)
qed

definition extended :: "DiskManager \<Rightarrow> DiskManager" where
  "extended dm = dm\<lparr>disk_file := disk_file dm @ replicate page_size 0, page_count := page_count dm + 1\<rparr>"

lemma page_at_append: "file_fits dm \<Longrightarrow> p < page_count dm \<Longrightarrow> page_at p (disk_file dm @ x) = page_at p (disk_file dm)"
  using page_fits[of p "page_count dm"] by (simp add: page_at_def file_fits_def get_bytes_append_left)

lemma Allocate_extend:
  assumes ok: "disk_ok_with [] dm" and "page_count dm \<noteq> -1"
  shows "AllocatePage dm = (put_page 0 (superblock (extended dm)) (extended dm), Inr (page_count dm))"
    "disk_ok_with [] (put_page 0 (superblock (extended dm)) (extended dm))"
proof -
  have fits: "file_fits dm" and head: "free_list_head dm = INVALID_PAGE_ID" using ok by (auto simp: disk_ok_with_def)
  have "1 + page_count dm \<noteq> 0" using assms(2) by (simp add: add_eq_0_iff)
  then have u: "unat (page_count dm + 1) = Suc (unat (page_count dm))" and n0: "page_count dm + 1 \<noteq> 0"
    using unatSuc[of "page_count dm"] by (simp_all add: add.commute)
  have fits': "file_fits (extended dm)" using fits u n0 by (simp add: file_fits_def extended_def)
  define L where "L = unat (page_count dm) * page_size"
  have len: "length (disk_file dm) = L" using fits by (simp add: file_fits_def L_def)
  have "replicate (page_size - 1) 0 @ [0] = (replicate page_size 0 :: byte list)"
    using page_pos by (simp add: replicate_append_same flip: replicate_Suc)
  then have "host_write (L + page_size - 1) [0] (disk_file dm) = disk_file dm @ replicate page_size 0"
    using page_pos by (simp add: host_write_def len)
  moreover have "Suc (unat (page_count dm)) * page_size = L + page_size" by (simp add: L_def)
  ultimately have e: "EnsureFileSizeUnlocked (unat (page_count dm + 1)) dm =
      (dm\<lparr>disk_file := disk_file dm @ replicate page_size 0\<rparr>, Code_Ok)"
    unfolding u EnsureFileSizeUnlocked_def Let_def using page_pos by (simp add: len add.commute)
  show "AllocatePage dm = (put_page 0 (superblock (extended dm)) (extended dm), Inr (page_count dm))"
    using e fits head Persist_fits[OF fits']
    by (simp add: AllocatePage_def Let_def file_fits_def) (simp add: extended_def)
  have "disk_core [] (extended dm)"
    using ok fits' head word_less_nat_alt[of "catalog_head dm" "page_count dm"] u
    by (auto simp: disk_core_def disk_ok_with_def extended_def word_less_nat_alt)
  then show "disk_ok_with [] (put_page 0 (superblock (extended dm)) (extended dm))" by (rule persist_core)
qed

lemma Allocate_pop: "disk_ok_with (p # ps) dm \<Longrightarrow> AllocatePage dm = PopFreePageUnlocked dm"
  using not_invalid[of p "page_count dm"] by (auto simp: AllocatePage_def disk_ok_with_def file_fits_def)

lemma Allocate_full:
  assumes "disk_ok_with [] dm" "page_count dm = -1"
  shows "AllocatePage dm = (dm, Inl NotFound)"
  using assms
  by (simp add: AllocatePage_def disk_ok_with_def file_fits_def Let_def EnsureFileSizeUnlocked_def
      PersistSuperblockUnlocked_def WritePhysicalPageUnlocked_def)

lemma SetCatalog_ok:
  assumes "disk_ok_with fs dm" "p = INVALID_PAGE_ID \<or> p \<noteq> 0 \<and> p < page_count dm"
  defines "dm1 \<equiv> dm\<lparr>catalog_head := p\<rparr>"
  shows "SetCatalogHead p dm = (put_page 0 (superblock dm1) dm1, Code_Ok)" "disk_ok_with fs (put_page 0 (superblock dm1) dm1)"
proof -
  have core: "disk_core fs dm1" using assms by (auto simp: disk_core_def dm1_def file_fits_def disk_ok_with_def)
  then have fits: "file_fits dm1" by (simp add: disk_core_def)
  show "SetCatalogHead p dm = (put_page 0 (superblock dm1) dm1, Code_Ok)"
    using assms(2) fits Persist_fits[OF fits]
    by (auto simp: SetCatalogHead_def Let_def dm1_def[symmetric] file_fits_def) (auto simp: dm1_def)
  show "disk_ok_with fs (put_page 0 (superblock dm1) dm1)" using core by (rule persist_core)
qed

subsection \<open>Opening what was written\<close>

lemma validate_chain:
  assumes "file_fits dm" "free_chain (disk_file dm) cur fs" "distinct fs" "\<forall>p \<in> set fs. p \<noteq> 0 \<and> p < page_count dm"
    "set fs \<inter> free_pages dm = {}"
  shows "validate_free_list cur dm =
    (dm\<lparr>free_pages := free_pages dm \<union> set fs, read_count := read_count dm + word_of_nat (length fs)\<rparr>, Code_Ok)"
  using assms
proof (induction fs arbitrary: cur dm)
  case Nil
  then show ?case by (simp add: validate_free_list.simps)
next
  case (Cons p fs)
  let ?dm = "dm\<lparr>free_pages := insert p (free_pages dm), read_count := read_count dm + 1\<rparr>"
  have p: "cur = p" "p \<noteq> 0" "p < page_count dm" "p \<notin> free_pages dm" "p \<noteq> INVALID_PAGE_ID"
    "\<not> page_count dm \<le> p"
    using Cons.prems not_invalid by auto
  have fits: "file_fits (dm\<lparr>free_pages := insert p (free_pages dm)\<rparr>)" using Cons.prems(1) by (simp add: file_fits_def)
  have "validate_free_list cur dm = validate_free_list (LoadPageId (page_at p (disk_file dm)) 0) ?dm"
    using p Read_fits[OF fits, of p] by (subst validate_free_list.simps) (simp add: Let_def)
  also have "\<dots> = (?dm\<lparr>free_pages := free_pages ?dm \<union> set fs, read_count := read_count ?dm + word_of_nat (length fs)\<rparr>, Code_Ok)"
    using Cons.prems by (intro Cons.IH) (auto simp: file_fits_def)
  finally show ?case by (simp add: add.assoc)
qed

lemma Open_ok:
  assumes "disk_ok_with fs dm" "is_open d \<or> page_count d = 1"
  shows "\<exists>d'. OpenDisk (Some (disk_file dm)) d = (d', Code_Ok) \<and> disk_ok_with fs d' \<and>
    page_count d' = page_count dm \<and> catalog_head d' = catalog_head dm \<and> disk_file d' = disk_file dm \<and>
    free_list_head d' = free_list_head dm \<and> free_pages d' = free_pages dm"
proof -
  have ok: "file_fits dm" "page_at 0 (disk_file dm) = superblock dm" "set fs = free_pages dm"
    using assms(1) by (auto simp: disk_ok_with_def)
  let ?f = "disk_file dm"
  have len: "length ?f = unat (page_count dm) * page_size" and pc: "page_count dm \<noteq> 0" using ok(1) by (auto simp: file_fits_def)
  have "0 < unat (page_count dm)" using pc by (simp add: unat_gt_0)
  then have ge: "length ?f \<ge> page_size" unfolding len by simp
  then have ne: "length ?f \<noteq> 0" using page_pos by linarith
  define d0 where "d0 = fst (if is_open d then CloseUnlocked d else (d, Code_Ok))"
  have d0: "(if is_open d then CloseUnlocked d else (d, Code_Ok)) = (d0, Code_Ok)" "page_count d0 = 1"
    using assms(2) by (auto simp: d0_def CloseUnlocked_def)
  let ?d1 = "d0\<lparr>disk_file := ?f, is_open := True\<rparr>"
  define d2 where "d2 = ?d1\<lparr>read_count := read_count d0 + 1, page_count := page_count dm, free_list_head := free_list_head dm,
    catalog_head := catalog_head dm, free_pages := {}\<rparr>"
  have r: "ReadPhysicalPageUnlocked 0 ?d1 = (?d1\<lparr>read_count := read_count d0 + 1\<rparr>, Inr (superblock dm))"
  proof -
    have "get_bytes (page_offset 0) page_size ?f = superblock dm" using ok(2) by (simp add: page_at_def)
    then show ?thesis by (simp add: ReadPhysicalPageUnlocked_def d0(2) Let_def)
  qed
  have ps: "unat (word_of_nat page_size :: u32) = page_size" by (simp add: unat_word_of_nat_u32 page_size_def)
  have fits2: "file_fits d2" using len pc by (simp add: file_fits_def d2_def)
  have v: "ValidateMetadataUnlocked d2 = (d2\<lparr>free_pages := set fs, read_count := read_count d2 + word_of_nat (length fs)\<rparr>, Code_Ok)"
  proof -
    have "validate_free_list (free_list_head d2) (d2\<lparr>free_pages := {}\<rparr>) =
        (d2\<lparr>free_pages := {}\<rparr>\<lparr>free_pages := free_pages (d2\<lparr>free_pages := {}\<rparr>) \<union> set fs,
           read_count := read_count (d2\<lparr>free_pages := {}\<rparr>) + word_of_nat (length fs)\<rparr>, Code_Ok)"
      using assms(1) fits2 by (intro validate_chain) (auto simp: disk_ok_with_def d2_def file_fits_def)
    moreover have "free_list_head dm = INVALID_PAGE_ID \<or> free_list_head dm \<noteq> 0 \<and> free_list_head dm < page_count dm"
      using assms(1) by (cases fs) (auto simp: disk_ok_with_def)
    ultimately show ?thesis
      using assms(1) by (auto simp: ValidateMetadataUnlocked_def disk_ok_with_def d2_def)
  qed
  let ?d3 = "d2\<lparr>free_pages := set fs, read_count := read_count d2 + word_of_nat (length fs)\<rparr>"
  have "OpenExistingFileUnlocked ?f d0 = (?d3, Code_Ok)"
    unfolding OpenExistingFileUnlocked_def r super_offsets
    using pc len v by (simp add: superblock_fields ps Let_def d2_def[symmetric]) (simp add: d2_def)
  then have "OpenDisk (Some ?f) d = (?d3, Code_Ok)"
    using ne unfolding OpenDisk_def d0 by (simp add: len)
  moreover have "disk_ok_with fs ?d3"
  proof -
    have "superblock ?d3 = superblock dm" by (rule superblock_cong) (simp_all add: d2_def)
    then show ?thesis using assms(1) fits2 by (auto simp: disk_ok_with_def d2_def file_fits_def)
  qed
  ultimately show ?thesis using ok(3) by (simp add: d2_def)
qed

subsection \<open>Histories of operations\<close>

text \<open>A client that writes and frees only pages it has allocated, together with what it expects to find in
  them; every operation may also fail, and the file may be closed and opened again at any time.\<close>

inductive disk_run :: "DiskManager \<Rightarrow> (page_id_t \<rightharpoonup> byte list) \<Rightarrow> bool" where
  dr_new: "OpenDisk None initial_disk = (dm, Code_Ok) \<Longrightarrow> disk_run dm Map.empty"
| dr_alloc: "disk_run dm m \<Longrightarrow> AllocatePage dm = (dm', Inr p) \<Longrightarrow> ReadPage p dm' = (dm'', Inr b) \<Longrightarrow>
    disk_run dm'' (m(p \<mapsto> b))"
| dr_alloc_fail: "disk_run dm m \<Longrightarrow> AllocatePage dm = (dm', Inl err) \<Longrightarrow> disk_run dm' m"
| dr_free: "disk_run dm m \<Longrightarrow> p \<in> dom m \<Longrightarrow> DeallocatePage p dm = (dm', Code_Ok) \<Longrightarrow> disk_run dm' (m(p := None))"
| dr_free_bad: "disk_run dm m \<Longrightarrow> p \<notin> dom m \<Longrightarrow> DeallocatePage p dm = (dm', c) \<Longrightarrow> disk_run dm' m"
| dr_write: "disk_run dm m \<Longrightarrow> p \<in> dom m \<Longrightarrow> length b = page_size \<Longrightarrow> WritePage p b dm = (dm', c) \<Longrightarrow>
    disk_run dm' (m(p \<mapsto> b))"
| dr_read: "disk_run dm m \<Longrightarrow> ReadPage p dm = (dm', r) \<Longrightarrow> disk_run dm' m"
| dr_catalog: "disk_run dm m \<Longrightarrow> SetCatalogHead p dm = (dm', c) \<Longrightarrow> disk_run dm' m"
| dr_stats: "disk_run dm m \<Longrightarrow> disk_run (ResetIoStatistics dm) m"
| dr_reopen: "disk_run dm m \<Longrightarrow> d = dm \<or> d = fst (CloseDisk dm) \<Longrightarrow> OpenDisk (Some (disk_file dm)) d = (dm', c) \<Longrightarrow>
    disk_run dm' m"

definition disk_sim :: "DiskManager \<Rightarrow> (page_id_t \<rightharpoonup> byte list) \<Rightarrow> page_id_t list \<Rightarrow> bool" where
  "disk_sim dm m fs \<longleftrightarrow> disk_ok_with fs dm \<and> dom m = {p. p \<noteq> 0 \<and> p < page_count dm \<and> p \<notin> set fs} \<and>
     (\<forall>p b. m p = Some b \<longrightarrow> page_at p (disk_file dm) = b)"

lemma put_page_at:
  "file_fits dm \<Longrightarrow> p < page_count dm \<Longrightarrow> length b = page_size \<Longrightarrow> q < page_count dm \<Longrightarrow> q \<noteq> p \<Longrightarrow>
   page_at q (disk_file (put_page p b dm)) = page_at q (disk_file dm)"
  by (simp add: put_page_file(2))

lemma persisted_at:
  "file_fits dm \<Longrightarrow> q < page_count dm \<Longrightarrow> q \<noteq> 0 \<Longrightarrow> page_at q (disk_file (put_page 0 (superblock dm) dm)) = page_at q (disk_file dm)"
  by (rule put_page_at) (auto simp: word_neq_0_conv)

lemma sim_fits: "disk_sim dm m fs \<Longrightarrow> file_fits dm"
  by (simp add: disk_sim_def disk_ok_with_def)

lemma succ_less_iff: "n \<noteq> -1 \<Longrightarrow> (q :: page_id_t) < n + 1 \<longleftrightarrow> q < n \<or> q = n"
proof -
  assume "n \<noteq> -1"
  then have "unat (n + 1) = Suc (unat n)" using unatSuc[of n] by (simp add: add_eq_0_iff add.commute)
  then show ?thesis by (simp add: word_less_nat_alt less_Suc_eq flip: word_unat_eq_iff)
qed

lemma extended_fits: "file_fits dm \<Longrightarrow> page_count dm \<noteq> -1 \<Longrightarrow> file_fits (extended dm)"
proof -
  assume "file_fits dm" "page_count dm \<noteq> -1"
  moreover from this have "1 + page_count dm \<noteq> 0" by (simp add: add_eq_0_iff)
  ultimately show ?thesis
    using unatSuc[of "page_count dm"] by (simp add: file_fits_def extended_def add.commute)
qed

lemma sim_persisted:
  assumes "file_fits dm" "disk_ok_with fs (put_page 0 (superblock dm) dm)"
    and "dom m = {p. p \<noteq> 0 \<and> p < page_count dm \<and> p \<notin> set fs}"
    and "\<And>p b. m p = Some b \<Longrightarrow> page_at p (disk_file dm) = b"
  shows "disk_sim (put_page 0 (superblock dm) dm) m fs"
proof -
  have "page_at p (disk_file (put_page 0 (superblock dm) dm)) = b" if "m p = Some b" for p b
  proof -
    have "p \<in> dom m" using that by blast
    then show ?thesis using assms(1,3) assms(4)[OF that] by (simp add: persisted_at)
  qed
  then show ?thesis using assms(2,3) by (simp add: disk_sim_def)
qed

text \<open>An allocation hands out a page the client does not hold, and leaves the others alone.\<close>

lemma sim_alloc:
  assumes sim: "disk_sim dm m fs" and a: "AllocatePage dm = (dm', Inr p)"
  shows "p \<notin> dom m \<and> p \<noteq> 0 \<and> p < page_count dm' \<and> (\<exists>fs'. disk_sim dm' (m(p \<mapsto> page_at p (disk_file dm'))) fs')"
proof -
  have fits: "file_fits dm" using sim by (rule sim_fits)
  have D: "dom m = {p. p \<noteq> 0 \<and> p < page_count dm \<and> p \<notin> set fs}" "\<And>q b. m q = Some b \<Longrightarrow> page_at q (disk_file dm) = b"
    using sim by (auto simp: disk_sim_def)
  show ?thesis
  proof (cases fs)
    case Nil
    have ok: "disk_ok_with [] dm" using sim Nil by (simp add: disk_sim_def)
    have nf: "page_count dm \<noteq> -1" using a Allocate_full[OF ok] by auto
    note e = Allocate_extend[OF ok nf] and less = succ_less_iff[OF nf]
    have pd: "p = page_count dm" "dm' = put_page 0 (superblock (extended dm)) (extended dm)" using e(1) a by simp_all
    have p0: "p \<noteq> 0" using fits pd(1) by (simp add: file_fits_def)
    have fx: "file_fits (extended dm)" using extended_fits[OF fits nf] .
    have xc: "page_count (extended dm) = page_count dm + 1" by (simp add: extended_def)
    have at: "page_at p (disk_file dm') = page_at p (disk_file (extended dm))"
      unfolding pd(2) using fx p0 pd(1) less by (intro persisted_at) (simp_all add: xc)
    have "disk_sim dm' (m(p \<mapsto> page_at p (disk_file dm'))) []"
      unfolding at unfolding pd(2) using fx e(2)
    proof (rule sim_persisted)
      show "dom (m(p \<mapsto> page_at p (disk_file (extended dm)))) = {p. p \<noteq> 0 \<and> p < page_count (extended dm) \<and> p \<notin> set []}"
        using D(1) p0 less pd(1) Nil by (auto simp: xc)
      show "page_at q (disk_file (extended dm)) = b" if "(m(p \<mapsto> page_at p (disk_file (extended dm)))) q = Some b" for q b
      proof (cases "q = p")
        case False
        then have "m q = Some b" using that by simp
        moreover from this have "q < page_count dm" using D(1) by blast
        ultimately show ?thesis using D(2) page_at_append[OF fits] by (simp add: extended_def)
      qed (use that in simp)
    qed
    then show ?thesis using p0 D(1) pd less by (auto simp: xc)
  next
    case (Cons q ps)
    have ok: "disk_ok_with (q # ps) dm" using sim Cons by (simp add: disk_sim_def)
    note e = Pop_ok[OF ok]
    let ?d = "popped q dm"
    have pd: "p = q" "dm' = put_page 0 (superblock ?d) ?d" using e(1) a Allocate_pop[OF ok] by auto
    have q: "q \<noteq> 0" "q < page_count dm" "q \<notin> set ps" using ok by (auto simp: disk_ok_with_def)
    have fx: "file_fits ?d" using fits by (simp add: popped_def file_fits_def)
    have pop: "page_count ?d = page_count dm" "disk_file ?d = disk_file dm" by (simp_all add: popped_def)
    have at: "page_at p (disk_file dm') = page_at p (disk_file ?d)"
      unfolding pd(2) using fx q pd(1) by (intro persisted_at) (simp_all add: pop)
    have "disk_sim dm' (m(p \<mapsto> page_at p (disk_file dm'))) ps"
      unfolding at unfolding pd(2) using fx e(2)
      by (rule sim_persisted) (use D q Cons pd(1) in \<open>auto simp: pop split: if_splits\<close>)
    then show ?thesis using q D(1) pd Cons by (auto simp: pop)
  qed
qed

lemma sim_alloc_fail:
  assumes sim: "disk_sim dm m fs" and a: "AllocatePage dm = (dm', Inl err)"
  shows "dm' = dm \<and> err = NotFound \<and> fs = [] \<and> page_count dm = -1"
proof (cases fs)
  case Nil
  then have ok: "disk_ok_with [] dm" using sim by (simp add: disk_sim_def)
  show ?thesis using a Allocate_full[OF ok] Allocate_extend(1)[OF ok] Nil by (cases "page_count dm = -1") auto
next
  case (Cons q ps)
  then have "disk_ok_with (q # ps) dm" using sim by (simp add: disk_sim_def)
  then show ?thesis using a Allocate_pop[of q ps dm] Pop_ok(1)[of q ps dm] by simp
qed

lemma sim_free:
  assumes sim: "disk_sim dm m fs" and p: "p \<in> dom m" and a: "DeallocatePage p dm = (dm', c)"
  shows "c = Code_Ok \<and> disk_sim dm' (m(p := None)) (p # fs)"
proof -
  have fits: "file_fits dm" using sim by (rule sim_fits)
  have D: "dom m = {p. p \<noteq> 0 \<and> p < page_count dm \<and> p \<notin> set fs}" "\<And>q b. m q = Some b \<Longrightarrow> page_at q (disk_file dm) = b"
    using sim by (auto simp: disk_sim_def)
  have q: "p < page_count dm" "p \<noteq> 0" "p \<notin> set fs" using p D(1) by auto
  have ok: "disk_ok_with fs dm" using sim by (simp add: disk_sim_def)
  note e = Push_ok[OF ok q]
  let ?b = "StorePageId empty_page 0 (free_list_head dm)" and ?d = "pushed p dm"
  have b: "length ?b = page_size" by (simp add: page_field_defs)
  have pu: "page_count ?d = page_count dm" "disk_file ?d = disk_file (put_page p ?b dm)" by (simp_all add: pushed_def)
  have fx: "file_fits ?d" using put_page_fits[OF fits q(1) b] by (simp add: pushed_def file_fits_def)
  have "disk_sim (put_page 0 (superblock ?d) ?d) (m(p := None)) (p # fs)"
    using fx e(2)
  proof (rule sim_persisted)
    show "page_at r (disk_file ?d) = d" if "(m(p := None)) r = Some d" for r d
    proof -
      have "r \<noteq> p" "m r = Some d" using that by (auto split: if_splits)
      moreover from this have "r < page_count dm" using D(1) by blast
      ultimately show ?thesis unfolding pu(2) using D(2) by (simp add: put_page_at[OF fits q(1) b])
    qed
  qed (use D q in \<open>auto simp: pu\<close>)
  then show ?thesis using a e(1) by (simp add: DeallocatePage_def)
qed

lemma Dealloc_bad:
  assumes "disk_sim dm m fs" "p \<notin> dom m" "DeallocatePage p dm = (dm', c)"
  shows "dm' = dm \<and> c \<noteq> Code_Ok"
  using assms by (auto simp: DeallocatePage_def PushFreePageUnlocked_def disk_sim_def disk_ok_with_def split: if_splits)

lemma sim_cong:
  assumes "disk_sim dm m fs" "is_open dm' = is_open dm" "page_count dm' = page_count dm" "disk_file dm' = disk_file dm"
    "free_list_head dm' = free_list_head dm" "catalog_head dm' = catalog_head dm" "free_pages dm' = free_pages dm"
  shows "disk_sim dm' m fs"
proof -
  have "superblock dm' = superblock dm" by (rule superblock_cong) (use assms in simp_all)
  then show ?thesis using assms by (auto simp: disk_sim_def disk_ok_with_def file_fits_def)
qed

lemma sim_read: "disk_sim dm m fs \<Longrightarrow> ReadPage p dm = (dm', r) \<Longrightarrow> disk_sim dm' m fs"
  by (erule sim_cong) (auto simp: ReadPage_def ReadPhysicalPageUnlocked_def Let_def split: if_splits)

lemma sim_write:
  assumes sim: "disk_sim dm m fs" and p: "p \<in> dom m" "length b = page_size"
  shows "WritePage p b dm = (put_page p b dm, Code_Ok) \<and> disk_sim (put_page p b dm) (m(p \<mapsto> b)) fs"
proof -
  have D: "dom m = {p. p \<noteq> 0 \<and> p < page_count dm \<and> p \<notin> set fs}" "\<And>q b. m q = Some b \<Longrightarrow> page_at q (disk_file dm) = b"
    "disk_ok_with fs dm" using sim by (auto simp: disk_sim_def)
  have q: "p < page_count dm" "p \<noteq> 0" "p \<notin> set fs" using p D(1) by auto
  note w = Write_ok[OF D(3) q p(2)]
  have "page_at r (disk_file (put_page p b dm)) = d" if "(m(p \<mapsto> b)) r = Some d" for r d
  proof -
    have "r = p \<and> d = b \<or> r \<noteq> p \<and> m r = Some d" using that by (auto split: if_splits)
    moreover have "m r = Some d \<Longrightarrow> r < page_count dm" using D(1) by blast
    ultimately show ?thesis using D(2) put_page_file(2)[OF sim_fits[OF sim] q(1) p(2)] q(1) by auto
  qed
  then show ?thesis using w D(1) q by (auto simp: disk_sim_def)
qed

lemma sim_catalog:
  assumes sim: "disk_sim dm m fs" and a: "SetCatalogHead p dm = (dm', c)"
  shows "disk_sim dm' m fs"
proof (cases "p = INVALID_PAGE_ID \<or> p \<noteq> 0 \<and> p < page_count dm")
  case True
  have ok: "disk_ok_with fs dm" using sim by (simp add: disk_sim_def)
  note e = SetCatalog_ok[OF ok True]
  have "disk_sim (put_page 0 (superblock (dm\<lparr>catalog_head := p\<rparr>)) (dm\<lparr>catalog_head := p\<rparr>)) m fs"
    using sim_fits[OF sim] e(2) sim by (intro sim_persisted) (auto simp: disk_sim_def file_fits_def)
  then show ?thesis using a e(1) by simp
next
  case False
  then have "dm' = dm" using a by (auto simp: SetCatalogHead_def split: if_splits)
  then show ?thesis using sim by simp
qed

lemma sim_new: "OpenDisk None initial_disk = (dm, c) \<Longrightarrow> c = Code_Ok \<and> disk_sim dm Map.empty []"
proof -
  assume o: "OpenDisk None initial_disk = (dm, c)"
  let ?d = "initial_disk\<lparr>is_open := True\<rparr>"
  have d: "dm = ?d\<lparr>disk_file := superblock ?d, write_count := 1\<rparr> \<and> c = Code_Ok"
    using o by (auto simp: OpenDisk_def initial_disk_def OpenNewFileUnlocked_def PersistSuperblockUnlocked_def
        WritePhysicalPageUnlocked_def page_offset_def host_write_def)
  have sb: "superblock dm = superblock ?d" by (rule superblock_cong) (use d in simp_all)
  have "p < page_count dm \<longleftrightarrow> p = 0" for p using d by (auto simp: initial_disk_def word_less_nat_alt unat_eq_zero)
  moreover have "get_bytes 0 page_size (superblock ?d) = superblock ?d" by (simp add: get_bytes_def)
  ultimately show ?thesis
    using d sb by (auto simp: disk_sim_def disk_ok_with_def file_fits_def page_at_def page_offset_def initial_disk_def)
qed

lemma sim_reopen:
  assumes sim: "disk_sim dm m fs" and d: "d = dm \<or> d = fst (CloseDisk dm)" and o: "OpenDisk (Some (disk_file dm)) d = (dm', c)"
  shows "c = Code_Ok \<and> disk_sim dm' m fs"
proof -
  have ok: "disk_ok_with fs dm" using sim by (simp add: disk_sim_def)
  have "is_open d \<or> page_count d = 1"
    using d sim_fits[OF sim] by (auto simp: file_fits_def CloseDisk_def CloseUnlocked_def)
  from Open_ok[OF ok this] show ?thesis using o sim by (auto simp: disk_sim_def)
qed

lemma disk_run_sim: "disk_run dm m \<Longrightarrow> \<exists>fs. disk_sim dm m fs"
proof (induction rule: disk_run.induct)
  case (dr_new dm)
  then show ?case using sim_new by blast
next
  case (dr_alloc dm m dm' p dm'' b)
  then obtain fs where sim: "disk_sim dm m fs" by blast
  from sim_alloc[OF sim dr_alloc(2)] obtain fs' where s: "p < page_count dm'" "disk_sim dm' (m(p \<mapsto> page_at p (disk_file dm'))) fs'"
    by blast
  have "page_at p (disk_file dm') = b"
    using dr_alloc(3) Read_fits[OF sim_fits[OF s(2)] s(1)] by (simp add: ReadPage_def)
  then show ?case using sim_read[OF s(2) dr_alloc(3)] by blast
next
  case (dr_alloc_fail dm m dm' err)
  then show ?case using sim_alloc_fail by blast
next
  case (dr_free dm m p dm')
  then show ?case using sim_free by blast
next
  case (dr_free_bad dm m p dm' c)
  then show ?case using Dealloc_bad by blast
next
  case (dr_write dm m p b dm' c)
  then obtain fs where "disk_sim dm m fs" by blast
  from sim_write[OF this dr_write(2,3)] have "disk_sim dm' (m(p \<mapsto> b)) fs" using dr_write(4) by simp
  then show ?case by blast
next
  case (dr_read dm m p dm' r)
  then show ?case using sim_read by blast
next
  case (dr_catalog dm m p dm' c)
  then show ?case using sim_catalog by blast
next
  case (dr_stats dm m)
  then obtain fs where "disk_sim dm m fs" by blast
  then have "disk_sim (ResetIoStatistics dm) m fs" by (rule sim_cong) (simp_all add: ResetIoStatistics_def)
  then show ?case by blast
next
  case (dr_reopen dm m d dm' c)
  then show ?case using sim_reopen by blast
qed

subsection \<open>Properties\<close>

definition demo_disk :: DiskManager where
  "demo_disk = fst (OpenDisk None initial_disk)"

definition demo_disk1 :: DiskManager where
  "demo_disk1 = fst (AllocatePage demo_disk)"

definition demo_pages :: "page_id_t \<rightharpoonup> byte list" where
  "demo_pages = Map.empty"

lemma demo_disk_run: "disk_run demo_disk demo_pages"
proof -
  have "snd (OpenDisk None initial_disk) = Code_Ok" using sim_new by (metis surjective_pairing)
  then show ?thesis unfolding demo_disk_def demo_pages_def by (intro dr_new) (simp add: prod_eq_iff)
qed

lemma demo_disk_sim: "disk_sim demo_disk Map.empty []" "page_count demo_disk = 1"
proof -
  have "\<exists>c. OpenDisk None initial_disk = (demo_disk, c)" by (metis demo_disk_def surjective_pairing)
  then show "disk_sim demo_disk Map.empty []" using sim_new by blast
  show "page_count demo_disk = 1"
    by (simp add: demo_disk_def OpenDisk_def initial_disk_def OpenNewFileUnlocked_def PersistSuperblockUnlocked_def
        WritePhysicalPageUnlocked_def)
qed

lemma demo_alloc: "AllocatePage demo_disk = (demo_disk1, Inr 1)"
  using Allocate_extend(1)[of demo_disk] demo_disk_sim by (simp add: disk_sim_def demo_disk1_def)

lemma demo_disk1_run:
  "\<exists>b. disk_run (fst (ReadPage 1 demo_disk1)) [1 \<mapsto> b] \<and> b = page_at 1 (disk_file demo_disk1)"
proof -
  obtain fs where "disk_sim demo_disk1 [1 \<mapsto> page_at 1 (disk_file demo_disk1)] fs" "1 < page_count demo_disk1"
    using sim_alloc[OF demo_disk_sim(1) demo_alloc] by auto
  then have "ReadPage 1 demo_disk1 = (fst (ReadPage 1 demo_disk1), Inr (page_at 1 (disk_file demo_disk1)))"
    using Read_fits[OF sim_fits] by (simp add: ReadPage_def)
  from dr_alloc[OF demo_disk_run demo_alloc this] show ?thesis by (auto simp: demo_pages_def)
qed

text \<open>C7: The disk manager is a store of pages: after any sequence of allocations, frees, writes to allocated
  pages, reads, catalog updates, failing calls, closes and reopens, reading an allocated page returns exactly
  the bytes last written to it; no free list or superblock update ever overwrites it.\<close>

theorem disk_reads_last_write:
  assumes "disk_run dm m" "m p = Some b"
  shows "snd (ReadPage p dm) = Inr b"
proof -
  obtain fs where sim: "disk_sim dm m fs" using disk_run_sim[OF assms(1)] by blast
  have "p \<in> dom m" using assms(2) by blast
  then have "p < page_count dm" "page_at p (disk_file dm) = b" using sim assms(2) by (auto simp: disk_sim_def)
  then show ?thesis using Read_fits[OF sim_fits[OF sim]] by (simp add: ReadPage_def)
qed

lemma disk_reads_last_write_witness:
  "snd (ReadPage 1 (fst (ReadPage 1 demo_disk1))) = Inr (page_at 1 (disk_file demo_disk1))"
proof -
  have "disk_run (fst (ReadPage 1 demo_disk1)) [1 \<mapsto> page_at 1 (disk_file demo_disk1)]" using demo_disk1_run by blast
  from disk_reads_last_write[OF this, of 1] show ?thesis by simp
qed

text \<open>Allocation never hands out a page that is in use, nor the superblock or the invalid number, and
  disturbs no page in use; it fails only when every page number there is has been allocated.\<close>

theorem AllocatePage_fresh:
  assumes "disk_run dm m"
  shows "case AllocatePage dm of
      (dm', Inr p) \<Rightarrow> p \<notin> dom m \<and> p \<noteq> 0 \<and> p \<noteq> INVALID_PAGE_ID \<and> (\<forall>q \<in> dom m. snd (ReadPage q dm') = Inr (the (m q)))
    | (dm', Inl err) \<Rightarrow> err = NotFound \<and> dm' = dm \<and> dom m = {p. p \<noteq> 0 \<and> p \<noteq> INVALID_PAGE_ID}"
proof -
  obtain fs where sim: "disk_sim dm m fs" using disk_run_sim[OF assms] by blast
  obtain dm' r where a: "AllocatePage dm = (dm', r)" by (cases "AllocatePage dm")
  show ?thesis
  proof (cases r)
    case (Inl err)
    have e: "dm' = dm \<and> err = NotFound \<and> fs = [] \<and> page_count dm = -1" using sim_alloc_fail[OF sim] a Inl by blast
    have "(p :: page_id_t) < -1 \<longleftrightarrow> p \<noteq> INVALID_PAGE_ID" for p
      by (simp add: INVALID_PAGE_ID_def word_order.not_eq_extremum)
    then show ?thesis using sim a Inl e by (simp add: disk_sim_def)
  next
    case (Inr p)
    from sim_alloc[OF sim a[unfolded Inr]] obtain fs' where p: "p \<notin> dom m" "p \<noteq> 0" "p < page_count dm'"
      and sim': "disk_sim dm' (m(p \<mapsto> page_at p (disk_file dm'))) fs'" by blast
    have "snd (ReadPage q dm') = Inr (the (m q))" if q: "q \<in> dom m" for q
    proof -
      have "q \<noteq> p" using q p(1) by blast
      then have "(m(p \<mapsto> page_at p (disk_file dm'))) q = Some (the (m q))" using q by auto
      then have "page_at q (disk_file dm') = the (m q)" "q < page_count dm'" using sim' by (auto simp: disk_sim_def)
      then show ?thesis using Read_fits[OF sim_fits[OF sim']] by (simp add: ReadPage_def)
    qed
    then show ?thesis using a Inr p not_invalid[OF p(3)] by simp
  qed
qed

lemma AllocatePage_fresh_witness:
  "case AllocatePage demo_disk of
      (dm', Inr p) \<Rightarrow> p \<notin> dom demo_pages \<and> p \<noteq> 0 \<and> p \<noteq> INVALID_PAGE_ID \<and>
        (\<forall>q \<in> dom demo_pages. snd (ReadPage q dm') = Inr (the (demo_pages q)))
    | (dm', Inl err) \<Rightarrow> err = NotFound \<and> dm' = demo_disk \<and> dom demo_pages = {p. p \<noteq> 0 \<and> p \<noteq> INVALID_PAGE_ID}"
  using AllocatePage_fresh[OF demo_disk_run] .

text \<open>C25: Closing and reopening loses nothing: from the bytes on the host alone, opening passes all the checks
  of the superblock, the file size and the free list, and restores the page count, the catalog head, the free
  list and every allocated page's contents.\<close>

theorem reopen_restores_disk:
  assumes "disk_run dm m"
  shows "\<exists>dm'. OpenDisk (Some (disk_file dm)) (fst (CloseDisk dm)) = (dm', Code_Ok) \<and>
    page_count dm' = page_count dm \<and> catalog_head dm' = catalog_head dm \<and> free_list_head dm' = free_list_head dm \<and>
    free_pages dm' = free_pages dm \<and> (\<forall>p \<in> dom m. snd (ReadPage p dm') = Inr (the (m p)))"
proof -
  obtain fs where sim: "disk_sim dm m fs" using disk_run_sim[OF assms] by blast
  have ok: "disk_ok_with fs dm" using sim by (simp add: disk_sim_def)
  have "is_open (fst (CloseDisk dm)) \<or> page_count (fst (CloseDisk dm)) = 1"
    using sim_fits[OF sim] by (simp add: file_fits_def CloseDisk_def CloseUnlocked_def)
  from Open_ok[OF ok this] obtain d' where d': "OpenDisk (Some (disk_file dm)) (fst (CloseDisk dm)) = (d', Code_Ok)"
    "disk_ok_with fs d'" "page_count d' = page_count dm" "catalog_head d' = catalog_head dm" "disk_file d' = disk_file dm"
    "free_list_head d' = free_list_head dm" "free_pages d' = free_pages dm" by blast
  have "snd (ReadPage p d') = Inr (the (m p))" if p: "p \<in> dom m" for p
  proof -
    obtain b where "m p = Some b" using p by blast
    moreover from this have "page_at p (disk_file d') = b" "p < page_count d'" using sim p d' by (auto simp: disk_sim_def)
    moreover have "file_fits d'" using d'(2) by (simp add: disk_ok_with_def)
    ultimately show ?thesis by (simp add: ReadPage_def Read_fits)
  qed
  then show ?thesis using d' by blast
qed

lemma reopen_restores_disk_witness:
  "\<exists>dm'. OpenDisk (Some (disk_file demo_disk)) (fst (CloseDisk demo_disk)) = (dm', Code_Ok) \<and>
    page_count dm' = page_count demo_disk \<and> catalog_head dm' = catalog_head demo_disk \<and>
    free_list_head dm' = free_list_head demo_disk \<and>
    free_pages dm' = free_pages demo_disk \<and> (\<forall>p \<in> dom demo_pages. snd (ReadPage p dm') = Inr (the (demo_pages p)))"
  using reopen_restores_disk[OF demo_disk_run] .

end
