(* ===== verification/Expression.thy ===== *)
theory Expression
  imports Common "HOL-Library.Signed_Division"
begin

text \<open>
  Compiled expressions (\<^verbatim>\<open>include/oursql/ast/statement.h\<close>), their evaluation
  (\<^verbatim>\<open>src/execution/executor.cpp\<close>) and their constant folding
  (\<^verbatim>\<open>src/optimizer/expression_optimizer.cpp\<close>). A null \<^verbatim>\<open>CompileExprPtr\<close> is a constructor of its own. The
  statement inside a subquery stays a type parameter, and the runner that executes it is an argument of the
  evaluation, as it is in the code. SQL integers are 64-bit words read as signed.
\<close>

definition int64_max :: int where "int64_max = 2 ^ 63 - 1"
definition int64_min :: int where "int64_min = - (2 ^ 63)"

subsection \<open>The expression tree\<close>

datatype CompileLiteralKind = LK_Int | LK_String | LK_Bool | LK_Null

datatype CompileSubqueryKind = SQ_Scalar | SQ_Exists | SQ_In

datatype CompileAggregateKind = Agg_Count | Agg_Sum | Agg_Avg | Agg_Max | Agg_Min

datatype 'q CompileExpr =
    E_nullptr
  | E_Column string string
  | E_Literal CompileLiteralKind i64 string
  | E_Binary string "'q CompileExpr" "'q CompileExpr"
  | E_Unary string "'q CompileExpr"
  | E_IsNull "'q CompileExpr" bool
  | E_Between "'q CompileExpr" "'q CompileExpr" "'q CompileExpr" bool
  | E_In "'q CompileExpr" "'q CompileExpr list" bool
  | E_Subquery CompileSubqueryKind "'q option" "'q CompileExpr" bool
  | E_Aggregate CompileAggregateKind bool "'q CompileExpr"

datatype PredicateKind = PK_Equal | PK_IsNull | PK_IsNotNull

record Predicate =
  pred_kind :: PredicateKind
  pred_column :: string
  pred_value :: Value

subsection \<open>Integer arithmetic\<close>

text \<open>Checked arithmetic: \<open>None\<close> when the result would not fit. The guards are those of the code, over
  the mathematical values of the operands; C++ division truncates toward zero.\<close>

definition add_overflows :: "int \<Rightarrow> int \<Rightarrow> bool" where
  "add_overflows lhs rhs \<longleftrightarrow> (rhs > 0 \<and> lhs > int64_max - rhs) \<or> (rhs < 0 \<and> lhs < int64_min - rhs)"

definition SafeAdd :: "i64 \<Rightarrow> i64 \<Rightarrow> i64 option" where
  "SafeAdd lhs rhs = (if add_overflows (sint lhs) (sint rhs) then None else Some (lhs + rhs))"

definition SafeSub :: "i64 \<Rightarrow> i64 \<Rightarrow> i64 option" where
  "SafeSub lhs rhs =
     (if (sint rhs > 0 \<and> sint lhs < int64_min + sint rhs) \<or> (sint rhs < 0 \<and> sint lhs > int64_max + sint rhs)
      then None else Some (lhs - rhs))"

definition SafeMul :: "i64 \<Rightarrow> i64 \<Rightarrow> i64 option" where
  "SafeMul lhs rhs =
     (let l = sint lhs; r = sint rhs in
      if l = 0 \<or> r = 0 then Some 0
      else if l = -1 \<and> r = int64_min then None
      else if r = -1 \<and> l = int64_min then None
      else if l > 0 \<and> r > 0 \<and> l > int64_max sdiv r then None
      else if l > 0 \<and> r < 0 \<and> r < int64_min sdiv l then None
      else if l < 0 \<and> r > 0 \<and> l < int64_min sdiv r then None
      else if l < 0 \<and> r < 0 \<and> l < int64_max sdiv r then None
      else Some (lhs * rhs))"

text \<open>The arithmetic of the evaluator, with its two error messages kept apart only by their shared code.\<close>

definition eval_arith :: "string \<Rightarrow> i64 \<Rightarrow> i64 \<Rightarrow> i64 option" where
  "eval_arith op lhs rhs =
     (let l = sint lhs; r = sint rhs in
      if op = ''+'' then
        (if \<not> ((r > 0 \<and> l > int64_max - r) \<or> (r < 0 \<and> l < int64_min - r)) then Some (lhs + rhs) else None)
      else if op = ''-'' then
        (if \<not> ((r > 0 \<and> l < int64_min + r) \<or> (r < 0 \<and> l > int64_max + r)) then Some (lhs - rhs) else None)
      else if op = ''*'' then
        (if l = 0 \<or> r = 0 then Some 0
         else if (l = -1 \<and> r = int64_min) \<or> (r = -1 \<and> l = int64_min) then None
         else if (l > 0 \<and> r > 0 \<longrightarrow> l \<le> int64_max sdiv r) \<and> (l > 0 \<and> r < 0 \<longrightarrow> r \<ge> int64_min sdiv l) \<and>
                 (l < 0 \<and> r > 0 \<longrightarrow> l \<ge> int64_min sdiv r) \<and> (l < 0 \<and> r < 0 \<longrightarrow> l \<ge> int64_max sdiv r)
         then Some (lhs * rhs) else None)
      else
        (if r \<noteq> 0 \<and> \<not> (l = int64_min \<and> r = -1) then Some (word_of_int (l sdiv r)) else None))"

subsection \<open>LIKE\<close>

text \<open>One row of the table of \<^verbatim>\<open>LikeMatches\<close>, and the whole computation.\<close>

definition like_row :: "string \<Rightarrow> bool list \<Rightarrow> char \<Rightarrow> bool list" where
  "like_row pattern previous c =
     foldl (\<lambda>current j.
         if pattern ! (j - 1) = CHR ''%'' then current[j := current ! (j - 1) \<or> previous ! j]
         else if pattern ! (j - 1) = CHR ''_'' \<or> pattern ! (j - 1) = c then current[j := previous ! (j - 1)]
         else current)
       (replicate (length pattern + 1) False) [1..<length pattern + 1]"

definition LikeMatches :: "string \<Rightarrow> string \<Rightarrow> bool" where
  "LikeMatches value pattern =
     (let previous = foldl (\<lambda>prev j. prev[j := prev ! (j - 1) \<and> pattern ! (j - 1) = CHR ''%''])
                       ((replicate (length pattern + 1) False)[0 := True]) [1..<length pattern + 1]
      in foldl (\<lambda>prev i. like_row pattern prev (value ! (i - 1))) previous [1..<length value + 1] ! length pattern)"

subsection \<open>Evaluation\<close>

datatype EvalKind = K_Null | K_Int | K_String | K_Bool

record EvalValue =
  ev_kind :: EvalKind
  ev_integer :: i64
  ev_text :: string
  ev_boolean :: bool

definition EvalNull :: EvalValue where
  "EvalNull = \<lparr>ev_kind = K_Null, ev_integer = 0, ev_text = '''', ev_boolean = False\<rparr>"

definition EvalInt :: "i64 \<Rightarrow> EvalValue" where
  "EvalInt i = \<lparr>ev_kind = K_Int, ev_integer = i, ev_text = '''', ev_boolean = False\<rparr>"

definition EvalString :: "string \<Rightarrow> EvalValue" where
  "EvalString s = \<lparr>ev_kind = K_String, ev_integer = 0, ev_text = s, ev_boolean = False\<rparr>"

definition EvalBool :: "bool \<Rightarrow> EvalValue" where
  "EvalBool b = \<lparr>ev_kind = K_Bool, ev_integer = 0, ev_text = '''', ev_boolean = b\<rparr>"

definition FromValue :: "Value \<Rightarrow> EvalValue" where
  "FromValue v = (case v of VNull \<Rightarrow> EvalNull | VInt i \<Rightarrow> EvalInt i | VText s \<Rightarrow> EvalString s)"

definition EvalIsNull :: "EvalValue \<Rightarrow> bool" where
  "EvalIsNull v \<longleftrightarrow> ev_kind v = K_Null"

text \<open>\<^verbatim>\<open>std::string\<close> compares its characters as unsigned bytes.\<close>

fun string_less :: "string \<Rightarrow> string \<Rightarrow> bool" where
  "string_less _ [] = False"
| "string_less [] (_ # _) = True"
| "string_less (a # as) (b # bs) =
     ((of_char a :: nat) < of_char b \<or> a = b \<and> string_less as bs)"

definition CompareEval :: "EvalValue \<Rightarrow> EvalValue \<Rightarrow> int Result" where
  "CompareEval left right =
     (if ev_kind left \<noteq> ev_kind right \<or> EvalIsNull left then Inl TypeMismatch
      else if ev_kind left = K_Int then
        Inr (if sint (ev_integer left) < sint (ev_integer right) then -1
             else if sint (ev_integer left) > sint (ev_integer right) then 1 else 0)
      else if ev_kind left = K_String then
        Inr (if string_less (ev_text left) (ev_text right) then -1
             else if string_less (ev_text right) (ev_text left) then 1 else 0)
      else if ev_kind left = K_Bool then
        Inr (if ev_boolean left = ev_boolean right then 0 else if ev_boolean left then 1 else -1)
      else Inr 0)"

text \<open>What the evaluation reads of the result of a subquery.\<close>

record ExecutionResult =
  column_names :: "string list"
  result_rows :: "Row list"

type_synonym 'q SubqueryRunner = "'q \<Rightarrow> ExecutionResult Result"

text \<open>The loop of IN over already evaluated options: \<open>saw_null\<close> so far.\<close>

fun eval_in :: "EvalValue \<Rightarrow> bool \<Rightarrow> bool \<Rightarrow> EvalValue Result list \<Rightarrow> EvalValue Result" where
  "eval_in operand negated saw_null [] = Inr (if saw_null then EvalNull else EvalBool negated)"
| "eval_in operand negated saw_null (option # options) =
     (case option of
        Inl err \<Rightarrow> Inl err
      | Inr v \<Rightarrow>
          if EvalIsNull v then eval_in operand negated True options
          else
            (case CompareEval operand v of
               Inl err \<Rightarrow> Inl err
             | Inr c \<Rightarrow> if c = 0 then Inr (EvalBool (\<not> negated)) else eval_in operand negated saw_null options))"

text \<open>The loops of COUNT and of the other aggregates over the evaluated argument.\<close>

fun eval_count :: "i64 \<Rightarrow> EvalValue Result list \<Rightarrow> EvalValue Result" where
  "eval_count count [] = Inr (EvalInt count)"
| "eval_count count (v # vs) =
     (case v of Inl err \<Rightarrow> Inl err
      | Inr w \<Rightarrow> eval_count (if EvalIsNull w then count else count + 1) vs)"

fun eval_aggregate :: "CompileAggregateKind \<Rightarrow> EvalValue option \<Rightarrow> i64 \<Rightarrow> EvalValue Result list \<Rightarrow> EvalValue Result" where
  "eval_aggregate kind accumulated count [] =
     (case accumulated of
        None \<Rightarrow> Inr EvalNull
      | Some a \<Rightarrow>
          Inr (if kind = Agg_Avg then a\<lparr>ev_integer := word_of_int (sint (ev_integer a) sdiv sint count)\<rparr> else a))"
| "eval_aggregate kind accumulated count (v # vs) =
     (case v of
        Inl err \<Rightarrow> Inl err
      | Inr w \<Rightarrow>
          if EvalIsNull w then eval_aggregate kind accumulated count vs
          else
            (case accumulated of
               None \<Rightarrow> eval_aggregate kind (Some w) (count + 1) vs
             | Some a \<Rightarrow>
                 if kind = Agg_Sum \<or> kind = Agg_Avg then
                   (if add_overflows (sint (ev_integer a)) (sint (ev_integer w)) then Inl InvalidArgument
                    else eval_aggregate kind (Some (a\<lparr>ev_integer := ev_integer a + ev_integer w\<rparr>)) (count + 1) vs)
                 else
                   (case CompareEval w a of
                      Inl err \<Rightarrow> Inl err
                    | Inr c \<Rightarrow>
                        eval_aggregate kind
                          (Some (if (kind = Agg_Min \<and> c < 0) \<or> (kind = Agg_Max \<and> c > 0) then w else a))
                          (count + 1) vs)))"

text \<open>The options an IN subquery yields, one per row; a row without columns is an error.\<close>

definition subquery_options :: "Row list \<Rightarrow> EvalValue Result list" where
  "subquery_options rows = map (\<lambda>r. if r = [] then Inl InvalidArgument else Inr (FromValue (hd r))) rows"

definition eval_subquery ::
  "CompileSubqueryKind \<Rightarrow> 'q option \<Rightarrow> bool \<Rightarrow> 'q SubqueryRunner option \<Rightarrow> EvalValue Result \<Rightarrow> EvalValue Result" where
  "eval_subquery kind query negated runner operand =
     (case (runner, query) of
        (Some run, Some q) \<Rightarrow>
          (case run q of
             Inl err \<Rightarrow> Inl err
           | Inr result \<Rightarrow>
               if kind = SQ_Exists then
                 (let exists = result_rows result \<noteq> [] in Inr (EvalBool (if negated then \<not> exists else exists)))
               else if length (column_names result) \<noteq> 1 then Inl InvalidArgument
               else if kind = SQ_Scalar then
                 (if length (result_rows result) > 1 then Inl InvalidArgument
                  else if result_rows result = [] then Inr EvalNull
                  else Inr (FromValue (hd (hd (result_rows result)))))
               else
                 (case operand of
                    Inl err \<Rightarrow> Inl err
                  | Inr v \<Rightarrow>
                      if EvalIsNull v then Inr EvalNull
                      else eval_in v negated False (subquery_options (result_rows result))))
      | _ \<Rightarrow> Inl InvalidArgument)"

definition eval_unary :: "string \<Rightarrow> EvalValue Result \<Rightarrow> EvalValue Result" where
  "eval_unary op operand =
     (case operand of
        Inl err \<Rightarrow> Inl err
      | Inr v \<Rightarrow>
          if EvalIsNull v then Inr v
          else if op = ''not'' \<and> ev_kind v = K_Bool then Inr (EvalBool (\<not> ev_boolean v))
          else if op = ''-'' \<and> ev_kind v = K_Int then
            (if sint (ev_integer v) = int64_min then Inl InvalidArgument else Inr (EvalInt (- ev_integer v)))
          else Inl TypeMismatch)"

definition eval_between :: "bool \<Rightarrow> EvalValue Result \<Rightarrow> EvalValue Result \<Rightarrow> EvalValue Result \<Rightarrow> EvalValue Result" where
  "eval_between negated operand lower upper =
     (case (operand, lower, upper) of
        (Inl err, _, _) \<Rightarrow> Inl err
      | (_, Inl err, _) \<Rightarrow> Inl err
      | (_, _, Inl err) \<Rightarrow> Inl err
      | (Inr v, Inr l, Inr u) \<Rightarrow>
          if EvalIsNull v \<or> EvalIsNull l \<or> EvalIsNull u then Inr EvalNull
          else
            (case (CompareEval v l, CompareEval v u) of
               (Inl err, _) \<Rightarrow> Inl err
             | (_, Inl err) \<Rightarrow> Inl err
             | (Inr low, Inr high) \<Rightarrow>
                 let result = low \<ge> 0 \<and> high \<le> 0 in Inr (EvalBool (if negated then \<not> result else result))))"

definition eval_binary :: "string \<Rightarrow> EvalValue Result \<Rightarrow> EvalValue Result \<Rightarrow> EvalValue Result" where
  "eval_binary op left right =
     (case left of
        Inl err \<Rightarrow> Inl err
      | Inr l \<Rightarrow>
          if op = ''and'' \<and> ev_kind l = K_Bool \<and> \<not> ev_boolean l then Inr (EvalBool False)
          else if op = ''or'' \<and> ev_kind l = K_Bool \<and> ev_boolean l then Inr (EvalBool True)
          else
            (case right of
               Inl err \<Rightarrow> Inl err
             | Inr r \<Rightarrow>
                 if op = ''and'' \<or> op = ''or'' then
                   (if op = ''and'' \<and> ev_kind r = K_Bool \<and> \<not> ev_boolean r then Inr (EvalBool False)
                    else if op = ''or'' \<and> ev_kind r = K_Bool \<and> ev_boolean r then Inr (EvalBool True)
                    else if EvalIsNull l \<or> EvalIsNull r then Inr EvalNull
                    else if ev_kind l \<noteq> K_Bool \<or> ev_kind r \<noteq> K_Bool then Inl TypeMismatch
                    else Inr (EvalBool (if op = ''and'' then ev_boolean l \<and> ev_boolean r else ev_boolean l \<or> ev_boolean r)))
                 else if EvalIsNull l \<or> EvalIsNull r then Inr EvalNull
                 else if op = ''like'' \<or> op = ''not like'' then
                   (let matches = LikeMatches (ev_text l) (ev_text r) in
                    Inr (EvalBool (if op = ''like'' then matches else \<not> matches)))
                 else if op = ''+'' \<or> op = ''-'' \<or> op = ''*'' \<or> op = ''/'' then
                   (case eval_arith op (ev_integer l) (ev_integer r) of
                      None \<Rightarrow> Inl InvalidArgument
                    | Some result \<Rightarrow> Inr (EvalInt result))
                 else
                   (case CompareEval l r of
                      Inl err \<Rightarrow> Inl err
                    | Inr c \<Rightarrow>
                        Inr (EvalBool
                          (if op = ''='' then c = 0
                           else if op = ''!='' \<or> op = ''<>'' then c \<noteq> 0
                           else if op = ''>'' then c > 0
                           else if op = ''>='' then c \<ge> 0
                           else if op = ''<'' then c < 0
                           else c \<le> 0)))))"

definition eval_literal :: "CompileLiteralKind \<Rightarrow> i64 \<Rightarrow> string \<Rightarrow> EvalValue" where
  "eval_literal kind integer text =
     (if kind = LK_Int then EvalInt integer
      else if kind = LK_String then EvalString text
      else if kind = LK_Bool then EvalBool (text = ''true'')
      else EvalNull)"

fun EvaluateExpression ::
  "'q CompileExpr \<Rightarrow> Row \<Rightarrow> Schema \<Rightarrow> Row list option \<Rightarrow> 'q SubqueryRunner option \<Rightarrow> EvalValue Result" where
  "EvaluateExpression E_nullptr row schema grp runner = Inl InvalidArgument"
| "EvaluateExpression (E_Column table_name name) row schema grp runner =
     (case FindColumnIndex schema name of
        Inl err \<Rightarrow> Inl err
      | Inr index \<Rightarrow> if index \<ge> length row then Inl InvalidArgument else Inr (FromValue (row ! index)))"
| "EvaluateExpression (E_Literal kind integer text) row schema grp runner = Inr (eval_literal kind integer text)"
| "EvaluateExpression (E_Unary op operand) row schema grp runner =
     eval_unary op (EvaluateExpression operand row schema grp runner)"
| "EvaluateExpression (E_IsNull operand negated) row schema grp runner =
     (case EvaluateExpression operand row schema grp runner of
        Inl err \<Rightarrow> Inl err
      | Inr v \<Rightarrow> let result = EvalIsNull v in Inr (EvalBool (if negated then \<not> result else result)))"
| "EvaluateExpression (E_Between operand lower upper negated) row schema grp runner =
     eval_between negated (EvaluateExpression operand row schema grp runner)
       (EvaluateExpression lower row schema grp runner) (EvaluateExpression upper row schema grp runner)"
| "EvaluateExpression (E_In operand options negated) row schema grp runner =
     (case EvaluateExpression operand row schema grp runner of
        Inl err \<Rightarrow> Inl err
      | Inr v \<Rightarrow>
          if EvalIsNull v then Inr EvalNull
          else eval_in v negated False (map (\<lambda>e. EvaluateExpression e row schema grp runner) options))"
| "EvaluateExpression (E_Aggregate kind star argument) row schema grp runner =
     (case grp of
        None \<Rightarrow> Inl InvalidArgument
      | Some rows \<Rightarrow>
          (let values = map (\<lambda>item. EvaluateExpression argument item schema None runner) rows in
           if kind = Agg_Count then
             (if star then Inr (EvalInt (word_of_nat (length rows))) else eval_count 0 values)
           else eval_aggregate kind None 0 values))"
| "EvaluateExpression (E_Subquery kind query operand negated) row schema grp runner =
     eval_subquery kind query negated runner (EvaluateExpression operand row schema grp runner)"
| "EvaluateExpression (E_Binary op left right) row schema grp runner =
     eval_binary op (EvaluateExpression left row schema grp runner) (EvaluateExpression right row schema grp runner)"

definition ToStorageValue :: "EvalValue \<Rightarrow> Value Result" where
  "ToStorageValue v =
     (if ev_kind v = K_Null then Inr VNull
      else if ev_kind v = K_Int then Inr (VInt (ev_integer v))
      else if ev_kind v = K_String then Inr (VText (ev_text v))
      else Inl TypeMismatch)"

end
