(* ===== verification/ExpressionFold.thy ===== *)
theory ExpressionFold
  imports Expression
begin

text \<open>
  \<^verbatim>\<open>src/optimizer/expression_optimizer.cpp\<close>: constant folding and predicate extraction, and the row test
  of \<^verbatim>\<open>FilterSource\<close> in \<^verbatim>\<open>executor.cpp\<close> that consumes their results.
\<close>

definition MakeInt :: "i64 \<Rightarrow> 'q CompileExpr" where
  "MakeInt value = E_Literal LK_Int value ''''"

definition MakeBool :: "bool \<Rightarrow> 'q CompileExpr" where
  "MakeBool value = E_Literal LK_Bool 0 (if value then ''true'' else ''false'')"

definition IsLit :: "CompileLiteralKind \<Rightarrow> 'q CompileExpr \<Rightarrow> bool" where
  "IsLit k e \<longleftrightarrow> (case e of E_Literal kind integer text \<Rightarrow> kind = k | _ \<Rightarrow> False)"

definition lit_integer :: "'q CompileExpr \<Rightarrow> i64" where
  "lit_integer e = (case e of E_Literal kind integer text \<Rightarrow> integer | _ \<Rightarrow> 0)"

definition lit_text :: "'q CompileExpr \<Rightarrow> string" where
  "lit_text e = (case e of E_Literal kind integer text \<Rightarrow> text | _ \<Rightarrow> '''')"

definition BoolValue :: "'q CompileExpr \<Rightarrow> bool" where
  "BoolValue e \<longleftrightarrow> lit_text e = ''true''"

definition SameLiteralKind :: "'q CompileExpr \<Rightarrow> 'q CompileExpr \<Rightarrow> bool" where
  "SameLiteralKind left right \<longleftrightarrow>
     (IsLit LK_Int left \<and> IsLit LK_Int right) \<or> (IsLit LK_String left \<and> IsLit LK_String right) \<or>
     (IsLit LK_Bool left \<and> IsLit LK_Bool right)"

definition CompareLiterals :: "'q CompileExpr \<Rightarrow> 'q CompileExpr \<Rightarrow> int" where
  "CompareLiterals left right =
     (if IsLit LK_Int left \<and> IsLit LK_Int right then
        (if sint (lit_integer left) < sint (lit_integer right) then -1
         else if sint (lit_integer left) > sint (lit_integer right) then 1 else 0)
      else if IsLit LK_String left \<and> IsLit LK_String right then
        (if string_less (lit_text left) (lit_text right) then -1
         else if string_less (lit_text right) (lit_text left) then 1 else 0)
      else
        (if BoolValue left = BoolValue right then 0 else if BoolValue left then 1 else -1))"

text \<open>Folding a binary node whose children are folded: the rules in order, and the node itself when none
  applies.\<close>

definition fold_comparison :: "string \<Rightarrow> int \<Rightarrow> 'q CompileExpr option" where
  "fold_comparison op c =
     (if op = ''='' then Some (MakeBool (c = 0))
      else if op = ''!='' \<or> op = ''<>'' then Some (MakeBool (c \<noteq> 0))
      else if op = ''>'' then Some (MakeBool (c > 0))
      else if op = ''>='' then Some (MakeBool (c \<ge> 0))
      else if op = ''<'' then Some (MakeBool (c < 0))
      else if op = ''<='' then Some (MakeBool (c \<le> 0))
      else None)"

definition fold_arith :: "string \<Rightarrow> i64 \<Rightarrow> i64 \<Rightarrow> i64 option" where
  "fold_arith op lhs rhs =
     (if op = ''+'' then SafeAdd lhs rhs
      else if op = ''-'' then SafeSub lhs rhs
      else if op = ''*'' then SafeMul lhs rhs
      else if op = ''/'' \<and> rhs \<noteq> 0 \<and> \<not> (sint lhs = int64_min \<and> sint rhs = -1)
      then Some (word_of_int (sint lhs sdiv sint rhs))
      else None)"

definition fold_binary :: "string \<Rightarrow> 'q CompileExpr \<Rightarrow> 'q CompileExpr \<Rightarrow> 'q CompileExpr" where
  "fold_binary op left right =
     (let arith = (if IsLit LK_Int left \<and> IsLit LK_Int right
                   then fold_arith op (lit_integer left) (lit_integer right) else None)
      in case arith of
           Some result \<Rightarrow> MakeInt result
         | None \<Rightarrow>
             if IsLit LK_Bool left \<and> IsLit LK_Bool right \<and> (op = ''and'' \<or> op = ''or'')
             then MakeBool (if op = ''and'' then BoolValue left \<and> BoolValue right else BoolValue left \<or> BoolValue right)
             else
               (let comparison = (if SameLiteralKind left right
                                  then fold_comparison op (CompareLiterals left right) else None)
                in case comparison of Some e \<Rightarrow> e | None \<Rightarrow> E_Binary op left right))"

definition fold_unary :: "string \<Rightarrow> 'q CompileExpr \<Rightarrow> 'q CompileExpr" where
  "fold_unary op operand =
     (if op = ''-'' \<and> IsLit LK_Int operand \<and> sint (lit_integer operand) \<noteq> int64_min
      then MakeInt (- lit_integer operand)
      else if op = ''not'' \<and> IsLit LK_Bool operand then MakeBool (\<not> BoolValue operand)
      else E_Unary op operand)"

definition fold_is_null :: "'q CompileExpr \<Rightarrow> bool \<Rightarrow> 'q CompileExpr" where
  "fold_is_null operand negated =
     (case operand of
        E_Literal kind integer text \<Rightarrow>
          (let result = kind = LK_Null in MakeBool (if negated then \<not> result else result))
      | _ \<Rightarrow> E_IsNull operand negated)"

definition fold_between :: "bool \<Rightarrow> 'q CompileExpr \<Rightarrow> 'q CompileExpr \<Rightarrow> 'q CompileExpr \<Rightarrow> 'q CompileExpr" where
  "fold_between negated operand lower upper =
     (if SameLiteralKind operand lower \<and> SameLiteralKind operand upper
      then
        (let in_range = CompareLiterals operand lower \<ge> 0 \<and> CompareLiterals operand upper \<le> 0
         in MakeBool (if negated then \<not> in_range else in_range))
      else E_Between operand lower upper negated)"

definition fold_in :: "bool \<Rightarrow> 'q CompileExpr \<Rightarrow> 'q CompileExpr list \<Rightarrow> 'q CompileExpr" where
  "fold_in negated operand options =
     (if list_all (SameLiteralKind operand) options \<and> options \<noteq> []
      then
        (let matched = list_ex (\<lambda>e. CompareLiterals operand e = 0) options
         in MakeBool (if negated then \<not> matched else matched))
      else E_In operand options negated)"

fun FoldCompileExpr :: "'q CompileExpr \<Rightarrow> 'q CompileExpr" where
  "FoldCompileExpr E_nullptr = E_nullptr"
| "FoldCompileExpr (E_Binary op left right) = fold_binary op (FoldCompileExpr left) (FoldCompileExpr right)"
| "FoldCompileExpr (E_Unary op operand) = fold_unary op (FoldCompileExpr operand)"
| "FoldCompileExpr (E_IsNull operand negated) = fold_is_null (FoldCompileExpr operand) negated"
| "FoldCompileExpr (E_Between operand lower upper negated) =
     fold_between negated (FoldCompileExpr operand) (FoldCompileExpr lower) (FoldCompileExpr upper)"
| "FoldCompileExpr (E_In operand options negated) =
     fold_in negated (FoldCompileExpr operand) (map FoldCompileExpr options)"
| "FoldCompileExpr (E_Aggregate kind star argument) =
     (if star \<or> argument = E_nullptr then E_Aggregate kind star argument
      else E_Aggregate kind False (FoldCompileExpr argument))"
| "FoldCompileExpr (E_Column table_name name) = E_Column table_name name"
| "FoldCompileExpr (E_Literal kind integer text) = E_Literal kind integer text"
| "FoldCompileExpr (E_Subquery kind query operand negated) = E_Subquery kind query operand negated"

subsection \<open>Predicates\<close>

definition ExtractLiteralValue :: "'q CompileExpr \<Rightarrow> Value option" where
  "ExtractLiteralValue e =
     (case e of
        E_Literal kind integer text \<Rightarrow>
          if kind = LK_Int then Some (VInt integer) else if kind = LK_String then Some (VText text) else None
      | _ \<Rightarrow> None)"

text \<open>The name of an unqualified column reference.\<close>

definition plain_column :: "'q CompileExpr \<Rightarrow> string option" where
  "plain_column e = (case e of E_Column table_name name \<Rightarrow> if table_name = [] then Some name else None | _ \<Rightarrow> None)"

definition equal_predicate :: "string \<Rightarrow> Value \<Rightarrow> Predicate" where
  "equal_predicate column literal = \<lparr>pred_kind = PK_Equal, pred_column = column, pred_value = literal\<rparr>"

definition ExtractPredicateFromCompileExpr :: "'q CompileExpr \<Rightarrow> Predicate option" where
  "ExtractPredicateFromCompileExpr e =
     (case e of
        E_IsNull operand negated \<Rightarrow>
          (case plain_column operand of
             Some column \<Rightarrow>
               Some \<lparr>pred_kind = if negated then PK_IsNotNull else PK_IsNull, pred_column = column, pred_value = VNull\<rparr>
           | None \<Rightarrow> None)
      | E_Binary op left right \<Rightarrow>
          if op \<noteq> ''='' then None
          else
            (case (plain_column left, ExtractLiteralValue right) of
               (Some column, Some v) \<Rightarrow> Some (equal_predicate column v)
             | _ \<Rightarrow>
                 (case (plain_column right, ExtractLiteralValue left) of
                    (Some column, Some v) \<Rightarrow> Some (equal_predicate column v)
                  | _ \<Rightarrow> None))
      | _ \<Rightarrow> None)"

text \<open>The test of \<^verbatim>\<open>FilterSource::Next\<close> on one row: by the expression when there is one, else by the
  predicate on the column the plan names.\<close>

definition filter_matches ::
  "nat \<Rightarrow> Predicate \<Rightarrow> 'q CompileExpr \<Rightarrow> Schema \<Rightarrow> 'q SubqueryRunner option \<Rightarrow> Row \<Rightarrow> bool Result" where
  "filter_matches column_index predicate expression schema runner row =
     (if length row \<noteq> length schema then Inl InvalidArgument
      else if expression \<noteq> E_nullptr then
        (case EvaluateExpression expression row schema None runner of
           Inl err \<Rightarrow> Inl err
         | Inr v \<Rightarrow> Inr (ev_kind v = K_Bool \<and> ev_boolean v))
      else
        (let value = row ! column_index in
         Inr (if pred_kind predicate = PK_IsNull then IsNull value
              else if pred_kind predicate = PK_IsNotNull then \<not> IsNull value
              else \<not> IsNull value \<and> Value_type value = Value_type (pred_value predicate) \<and> value = pred_value predicate)))"

text \<open>\<^verbatim>\<open>FilterSource::Next\<close> over what its child still has to deliver: the rows left, and the row found
  (\<open>Inr None\<close> at the end).\<close>

fun FilterSource_Next ::
  "nat \<Rightarrow> Predicate \<Rightarrow> 'q CompileExpr \<Rightarrow> Schema \<Rightarrow> 'q SubqueryRunner option \<Rightarrow> (RID \<times> Row) Result list \<Rightarrow>
   (RID \<times> Row) Result list \<times> (RID \<times> Row) option Result" where
  "FilterSource_Next column_index predicate expression schema runner [] = ([], Inr None)"
| "FilterSource_Next column_index predicate expression schema runner (input # child) =
     (case input of
        Inl err \<Rightarrow> (child, Inl err)
      | Inr entry \<Rightarrow>
          (case filter_matches column_index predicate expression schema runner (snd entry) of
             Inl err \<Rightarrow> (child, Inl err)
           | Inr matches \<Rightarrow>
               if matches then (child, Inr (Some entry))
               else FilterSource_Next column_index predicate expression schema runner child))"

subsection \<open>Folding preserves evaluation\<close>

lemma sint_zero_iff: "sint (w :: i64) = 0 \<longleftrightarrow> w = 0"
  by (metis signed_0 signed_word_eqI)

lemma SafeAdd_eq: "SafeAdd a b = eval_arith ''+'' a b"
  by (simp add: SafeAdd_def eval_arith_def add_overflows_def Let_def)

lemma SafeSub_eq: "SafeSub a b = eval_arith ''-'' a b"
  by (simp add: SafeSub_def eval_arith_def Let_def)

lemma SafeMul_eq: "SafeMul a b = eval_arith ''*'' a b"
  unfolding SafeMul_def eval_arith_def Let_def
  by (cases "sint a = 0 \<or> sint b = 0"; cases "sint a > 0"; cases "sint b > 0") (auto simp: not_less)

lemma fold_arith_eval: "fold_arith op a b = Some c \<Longrightarrow> op \<in> {''+'', ''-'', ''*'', ''/''} \<and> eval_arith op a b = Some c"
  by (auto simp: fold_arith_def SafeAdd_eq SafeSub_eq SafeMul_eq split: if_splits)
    (auto simp: eval_arith_def Let_def sint_zero_iff)

lemma IsLit_iff: "IsLit k e \<longleftrightarrow> (\<exists>i t. e = E_Literal k i t)"
  by (cases e) (auto simp: IsLit_def)

lemma eval_Make [simp]:
  "EvaluateExpression (MakeInt i) row schema grp runner = Inr (EvalInt i)"
  "EvaluateExpression (MakeBool b) row schema grp runner = Inr (EvalBool b)"
  by (simp_all add: MakeInt_def MakeBool_def eval_literal_def)

lemma eval_kinds [simp]:
  "ev_kind (EvalInt i) = K_Int" "ev_kind (EvalString s) = K_String" "ev_kind (EvalBool b) = K_Bool" "ev_kind EvalNull = K_Null"
  "ev_integer (EvalInt i) = i" "ev_text (EvalString s) = s" "ev_boolean (EvalBool b) = b"
  "EvalIsNull EvalNull" "\<not> EvalIsNull (EvalInt i)" "\<not> EvalIsNull (EvalString s)" "\<not> EvalIsNull (EvalBool b)"
  by (simp_all add: EvalInt_def EvalString_def EvalBool_def EvalNull_def EvalIsNull_def)

lemma eval_literals [simp]:
  "eval_literal LK_Int i t = EvalInt i" "eval_literal LK_String i t = EvalString t"
  "eval_literal LK_Bool i t = EvalBool (t = ''true'')" "eval_literal LK_Null i t = EvalNull"
  by (simp_all add: eval_literal_def)

lemma lit_simps [simp]: "lit_integer (E_Literal k i t) = i" "lit_text (E_Literal k i t) = t"
  "IsLit k (E_Literal k' i t) \<longleftrightarrow> k' = k"
  by (simp_all add: lit_integer_def lit_text_def IsLit_def)

text \<open>Two literals of one kind compare as their values do.\<close>

lemma SameLiteralKind_cases:
  assumes "SameLiteralKind a b"
  obtains k i t j u where "a = E_Literal k i t" "b = E_Literal k j u" "k \<noteq> LK_Null"
  using assms by (auto simp: SameLiteralKind_def IsLit_iff)

lemma same_kind_compare:
  assumes "SameLiteralKind a b"
  shows "\<exists>va vb. EvaluateExpression a row schema grp runner = Inr va \<and> EvaluateExpression b row schema grp runner = Inr vb \<and>
    \<not> EvalIsNull va \<and> \<not> EvalIsNull vb \<and> CompareEval va vb = Inr (CompareLiterals a b)"
  using assms
proof (rule SameLiteralKind_cases)
  fix k i t j u assume ab: "a = E_Literal k i t" "b = E_Literal k j u" "k \<noteq> LK_Null"
  then show ?thesis
    by (cases k) (simp_all add: CompareEval_def CompareLiterals_def BoolValue_def)
qed

lemma eval_binary_comparison:
  assumes "op \<in> {''='', ''!='', ''<>'', ''>'', ''>='', ''<'', ''<=''}"
    and "CompareEval va vb = Inr c" "\<not> EvalIsNull va" "\<not> EvalIsNull vb"
  shows "eval_binary op (Inr va) (Inr vb) = Inr (EvalBool
    (if op = ''='' then c = 0 else if op = ''!='' \<or> op = ''<>'' then c \<noteq> 0 else if op = ''>'' then c > 0
     else if op = ''>='' then c \<ge> 0 else if op = ''<'' then c < 0 else c \<le> 0))"
  using assms by (elim insertE emptyE) (simp_all add: eval_binary_def)

lemma fold_comparison_eval:
  assumes "fold_comparison op c = Some e" "CompareEval va vb = Inr c" "\<not> EvalIsNull va" "\<not> EvalIsNull vb"
  shows "EvaluateExpression e row schema grp runner = eval_binary op (Inr va) (Inr vb)"
proof -
  have op: "op \<in> {''='', ''!='', ''<>'', ''>'', ''>='', ''<'', ''<=''}"
    using assms(1) by (auto simp: fold_comparison_def split: if_splits)
  show ?thesis
    unfolding eval_binary_comparison[OF op assms(2-4)] using assms(1) op
    by (elim insertE emptyE) (auto simp: fold_comparison_def)
qed

lemma eval_binary_logic:
  "eval_binary ''and'' (Inr (EvalBool x)) (Inr (EvalBool y)) = Inr (EvalBool (x \<and> y))"
  "eval_binary ''or'' (Inr (EvalBool x)) (Inr (EvalBool y)) = Inr (EvalBool (x \<or> y))"
  by (cases x; cases y; simp add: eval_binary_def)+

lemma eval_binary_arith:
  "op \<in> {''+'', ''-'', ''*'', ''/''} \<Longrightarrow> eval_arith op i j = Some c \<Longrightarrow>
   eval_binary op (Inr (EvalInt i)) (Inr (EvalInt j)) = Inr (EvalInt c)"
  by (elim insertE emptyE) (simp_all add: eval_binary_def)

lemma eval_fold_binary:
  fixes a b :: "'q CompileExpr"
  shows "EvaluateExpression (fold_binary op a b) row schema grp runner =
   eval_binary op (EvaluateExpression a row schema grp runner) (EvaluateExpression b row schema grp runner)"
proof -
  consider (arith) i j c t u where "a = E_Literal LK_Int i t" "b = E_Literal LK_Int j u" "fold_arith op i j = Some c"
    | (noarith) "(if IsLit LK_Int a \<and> IsLit LK_Int b then fold_arith op (lit_integer a) (lit_integer b) else None) = None"
    by (cases "IsLit LK_Int a \<and> IsLit LK_Int b"; cases "fold_arith op (lit_integer a) (lit_integer b)") (auto simp: IsLit_iff)
  then show ?thesis
  proof cases
    case arith
    from fold_arith_eval[OF arith(3)] have "op \<in> {''+'', ''-'', ''*'', ''/''}" "eval_arith op i j = Some c" by auto
    then show ?thesis using arith by (simp add: fold_binary_def eval_binary_arith)
  next
    case noarith
    show ?thesis
    proof (cases "IsLit LK_Bool a \<and> IsLit LK_Bool b \<and> (op = ''and'' \<or> op = ''or'')")
      case True
      then obtain i t j u where ab: "a = E_Literal LK_Bool i t" "b = E_Literal LK_Bool j u" and op: "op = ''and'' \<or> op = ''or''"
        by (auto simp: IsLit_iff)
      from op show ?thesis
        by (elim disjE) (simp_all add: ab fold_binary_def BoolValue_def eval_binary_logic)
    next
      case False
      show ?thesis
      proof (cases "(if SameLiteralKind a b then fold_comparison op (CompareLiterals a b) else None) :: 'q CompileExpr option")
        case None
        then have "fold_binary op a b = E_Binary op a b" 
          unfolding fold_binary_def Let_def noarith option.case if_not_P[OF False] by simp
        then show ?thesis by simp
      next
        case (Some e)
        then have same: "SameLiteralKind a b" "fold_comparison op (CompareLiterals a b) = Some e" by (auto split: if_splits)
        then have f: "fold_binary op a b = e" using Some
          unfolding fold_binary_def Let_def noarith option.case if_not_P[OF False] by simp
        from same_kind_compare[OF same(1), of row schema grp runner] show ?thesis
          using fold_comparison_eval[OF same(2)] f by auto
      qed
    qed
  qed
qed

lemma eval_fold_unary:
  "EvaluateExpression (fold_unary op a) row schema grp runner = eval_unary op (EvaluateExpression a row schema grp runner)"
  by (auto simp: fold_unary_def IsLit_iff eval_unary_def BoolValue_def)

lemma eval_fold_is_null:
  "EvaluateExpression (fold_is_null a negated) row schema grp runner =
   EvaluateExpression (E_IsNull a negated) row schema grp runner"
proof (cases a)
  case (E_Literal k i t)
  then show ?thesis by (cases k) (simp_all add: fold_is_null_def)
qed (simp_all add: fold_is_null_def)

lemma eval_fold_between:
  "EvaluateExpression (fold_between negated a l u) row schema grp runner =
   eval_between negated (EvaluateExpression a row schema grp runner) (EvaluateExpression l row schema grp runner)
     (EvaluateExpression u row schema grp runner)"
proof (cases "SameLiteralKind a l \<and> SameLiteralKind a u")
  case True
  from same_kind_compare[of a l row schema grp runner] same_kind_compare[of a u row schema grp runner] True
  show ?thesis by (auto simp: fold_between_def eval_between_def Let_def)
next
  case False
  then show ?thesis by (simp only: fold_between_def if_False EvaluateExpression.simps)
qed

lemma eval_in_same_kind:
  assumes "list_all (SameLiteralKind a) options"
    and "EvaluateExpression a row schema grp runner = Inr va"
  shows "eval_in va negated False (map (\<lambda>e. EvaluateExpression e row schema grp runner) options) =
    Inr (EvalBool (if list_ex (\<lambda>e. CompareLiterals a e = 0) options then \<not> negated else negated))"
  using assms(1)
proof (induction options)
  case (Cons e options)
  obtain ve where "EvaluateExpression e row schema grp runner = Inr ve" "\<not> EvalIsNull ve" "CompareEval va ve = Inr (CompareLiterals a e)"
    using same_kind_compare[of a e row schema grp runner] Cons.prems assms(2) by auto
  then show ?case using Cons by auto
qed simp

lemma eval_fold_in:
  "EvaluateExpression (fold_in negated a options) row schema grp runner =
   EvaluateExpression (E_In a options negated) row schema grp runner"
proof (cases "list_all (SameLiteralKind a) options \<and> options \<noteq> []")
  case True
  then obtain e es where o: "options = e # es" by (cases options) auto
  then obtain va where va: "EvaluateExpression a row schema grp runner = Inr va" "\<not> EvalIsNull va"
    using same_kind_compare[of a e row schema grp runner] True by auto
  have "EvaluateExpression (E_In a options negated) row schema grp runner =
      Inr (EvalBool (if list_ex (\<lambda>e. CompareLiterals a e = 0) options then \<not> negated else negated))"
    using eval_in_same_kind[of a options row schema grp runner va negated] True va by simp
  then show ?thesis using True by (auto simp: fold_in_def)
qed (auto simp: fold_in_def)

lemma eval_fold:
  "EvaluateExpression (FoldCompileExpr e) row schema grp runner = EvaluateExpression e row schema grp runner"
proof (induction e arbitrary: row grp)
  case (E_In operand options negated)
  have m: "map (\<lambda>e. EvaluateExpression e row schema grp runner) (map FoldCompileExpr options) =
      map (\<lambda>e. EvaluateExpression e row schema grp runner) options"
    using E_In.IH(2) by simp
  show ?case
    unfolding FoldCompileExpr.simps eval_fold_in EvaluateExpression.simps m E_In.IH(1) ..
next
  case (E_IsNull operand negated)
  then show ?case by (simp add: eval_fold_is_null)
next
  case (E_Aggregate kind star argument)
  then show ?case by (cases grp; cases star; simp)
qed (simp_all add: eval_fold_binary eval_fold_unary eval_fold_between)

subsection \<open>Exact arithmetic\<close>

definition fits64 :: "int \<Rightarrow> bool" where
  "fits64 i \<longleftrightarrow> int64_min \<le> i \<and> i \<le> int64_max"

lemma sint_of_int: "fits64 i \<Longrightarrow> sint (word_of_int i :: i64) = i"
  by (simp add: fits64_def int64_min_def int64_max_def signed_of_int signed_take_bit_int_eq_self)

lemma sint_range: "fits64 (sint (w :: i64))"
  using sint_greater_eq[of w] sint_less[of w] by (simp add: fits64_def int64_min_def int64_max_def)

lemma word_arith_sint:
  "fits64 (sint a + sint b) \<Longrightarrow> sint ((a :: i64) + b) = sint a + sint b"
  "fits64 (sint a - sint b) \<Longrightarrow> sint (a - b) = sint a - sint b"
  "fits64 (sint a * sint b) \<Longrightarrow> sint (a * b) = sint a * sint b"
proof -
  have "a + b = word_of_int (sint a + sint b)" "a - b = word_of_int (sint a - sint b)" "a * b = word_of_int (sint a * sint b)"
    by simp_all
  then show "fits64 (sint a + sint b) \<Longrightarrow> sint (a + b) = sint a + sint b"
    "fits64 (sint a - sint b) \<Longrightarrow> sint (a - b) = sint a - sint b"
    "fits64 (sint a * sint b) \<Longrightarrow> sint (a * b) = sint a * sint b"
    by (metis sint_of_int)+
qed

lemma le_div_iff: "(0 :: int) < b \<Longrightarrow> a \<le> m div b \<longleftrightarrow> a * b \<le> m"
proof
  assume b: "0 < b" and "a \<le> m div b"
  then have "a * b \<le> (m div b) * b" by (intro mult_right_mono) auto
  also have "\<dots> \<le> m" using b pos_mod_sign[of b m] by (simp add: minus_mod_eq_div_mult [symmetric])
  finally show "a * b \<le> m" .
next
  assume b: "0 < b" and "a * b \<le> m"
  then have "(a * b) div b \<le> m div b" by (intro zdiv_mono1) auto
  then show "a \<le> m div b" using b by simp
qed

lemma mul_guards:
  assumes "l \<noteq> 0" "r \<noteq> 0" "fits64 l" "fits64 r"
  shows "\<not> ((l = -1 \<and> r = int64_min) \<or> (r = -1 \<and> l = int64_min)) \<and>
      (l > 0 \<and> r > 0 \<longrightarrow> l \<le> int64_max sdiv r) \<and> (l > 0 \<and> r < 0 \<longrightarrow> r \<ge> int64_min sdiv l) \<and>
      (l < 0 \<and> r > 0 \<longrightarrow> l \<ge> int64_min sdiv r) \<and> (l < 0 \<and> r < 0 \<longrightarrow> l \<ge> int64_max sdiv r)
    \<longleftrightarrow> fits64 (l * r)"
proof -
  let ?M = "2 ^ 63 :: int"
  have M: "0 < ?M" "int64_max = ?M - 1" "int64_min = - ?M" by (simp_all add: int64_max_def int64_min_def)
  consider "l > 0" "r > 0" | "l > 0" "r < 0" | "l < 0" "r > 0" | "l < 0" "r < 0" using assms by linarith
  then show ?thesis
  proof cases
    case 1
    then have "0 < l * r" by (rule mult_pos_pos)
    then have "- ?M \<le> l * r" by simp
    then show ?thesis using 1 le_div_iff[of r l "?M - 1"] by (auto simp: M fits64_def signed_divide_int_def)
  next
    case 2
    then have "l * r < 0" by (rule mult_pos_neg)
    moreover have "- r \<le> ?M div l \<longleftrightarrow> (- r) * l \<le> ?M" using 2 by (intro le_div_iff)
    ultimately show ?thesis using 2 by (auto simp: M fits64_def signed_divide_int_def algebra_simps)
  next
    case 3
    then have "l * r < 0" by (rule mult_neg_pos)
    moreover have "- l \<le> ?M div r \<longleftrightarrow> (- l) * r \<le> ?M" using 3 by (intro le_div_iff)
    ultimately show ?thesis using 3 by (auto simp: M fits64_def signed_divide_int_def algebra_simps)
  next
    case 4
    then have "0 < l * r" by (rule mult_neg_neg)
    moreover have "- l \<le> (?M - 1) div (- r) \<longleftrightarrow> (- l) * (- r) \<le> ?M - 1" using 4 by (intro le_div_iff) simp
    moreover have "l = -1 \<and> r = - ?M \<or> r = -1 \<and> l = - ?M \<Longrightarrow> \<not> l * r \<le> ?M - 1" by auto
    ultimately show ?thesis using 4 by (auto simp: M fits64_def signed_divide_int_def algebra_simps)
  qed
qed

lemma div_guards:
  assumes "r \<noteq> 0" "fits64 l" "fits64 r"
  shows "\<not> (l = int64_min \<and> r = -1) \<longleftrightarrow> fits64 (l sdiv r)"
proof -
  let ?M = "2 ^ 63 :: int"
  have M: "int64_max = ?M - 1" "int64_min = - ?M" by (simp_all add: int64_max_def int64_min_def)
  have b: "\<bar>l\<bar> \<le> ?M" using assms(2) by (auto simp: fits64_def M)
  have q: "0 \<le> \<bar>l\<bar> div \<bar>r\<bar>" "\<bar>l\<bar> div \<bar>r\<bar> \<le> \<bar>l\<bar>"
    using assms(1) zdiv_mono2[of "\<bar>l\<bar>" 1 "\<bar>r\<bar>"] by (simp_all add: pos_imp_zdiv_nonneg_iff)
  have eq: "\<bar>l\<bar> div \<bar>r\<bar> = ?M \<Longrightarrow> \<bar>l\<bar> = ?M \<and> \<bar>r\<bar> = 1"
  proof -
    assume e: "\<bar>l\<bar> div \<bar>r\<bar> = ?M"
    then have l: "\<bar>l\<bar> = ?M" using b q(2) by linarith
    show ?thesis
    proof (cases "\<bar>r\<bar> = 1")
      case False
      then have "1 < \<bar>r\<bar>" using assms(1) by linarith
      then have "?M div \<bar>r\<bar> < ?M" by (intro int_div_less_self) auto
      then show ?thesis using e l by simp
    qed (use l in simp)
  qed
  have "fits64 (l sdiv r) \<longleftrightarrow> \<not> (sgn l * sgn r = 1 \<and> \<bar>l\<bar> div \<bar>r\<bar> = ?M)"
    using q b assms(1) by (cases "l = 0"; cases "l > 0"; cases "r > 0") (auto simp: fits64_def M signed_divide_int_def)
  also have "\<dots> \<longleftrightarrow> \<not> (l = int64_min \<and> r = -1)"
    using eq assms by (auto simp: M fits64_def sgn_if split: if_splits)
  finally show ?thesis by simp
qed

text \<open>The mathematical result of an operator, where it has one.\<close>

definition math_op :: "string \<Rightarrow> int \<Rightarrow> int \<Rightarrow> int option" where
  "math_op op l r =
     (if op = ''+'' then Some (l + r) else if op = ''-'' then Some (l - r) else if op = ''*'' then Some (l * r)
      else if r = 0 then None else Some (l sdiv r))"

lemma eval_arith_exact:
  "eval_arith op a b =
    (case math_op op (sint a) (sint b) of
       None \<Rightarrow> None
     | Some i \<Rightarrow> if fits64 i then Some (word_of_int i) else None)"
proof -
  have add: "\<not> ((sint b > 0 \<and> sint a > int64_max - sint b) \<or> (sint b < 0 \<and> sint a < int64_min - sint b)) \<longleftrightarrow> fits64 (sint a + sint b)"
    and sub: "\<not> ((sint b > 0 \<and> sint a < int64_min + sint b) \<or> (sint b < 0 \<and> sint a > int64_max + sint b)) \<longleftrightarrow> fits64 (sint a - sint b)"
    using sint_range[of a] sint_range[of b] by (auto simp: fits64_def)
  have zero: "fits64 0" by (simp add: fits64_def int64_min_def int64_max_def)
  consider "op = ''+''" | "op = ''-''" | "op = ''*''" | "op \<notin> {''+'', ''-'', ''*''}" by blast
  then show ?thesis
  proof cases
    case 1 then show ?thesis using add by (simp add: eval_arith_def math_op_def)
  next
    case 2 then show ?thesis using sub by (simp add: eval_arith_def math_op_def)
  next
    case 3
    show ?thesis
    proof (cases "sint a = 0 \<or> sint b = 0")
      case True then show ?thesis using zero 3 by (auto simp: eval_arith_def math_op_def sint_zero_iff)
    next
      case False
      define X where "X \<longleftrightarrow> (sint a = -1 \<and> sint b = int64_min) \<or> (sint b = -1 \<and> sint a = int64_min)"
      define Y where "Y \<longleftrightarrow> (sint a > 0 \<and> sint b > 0 \<longrightarrow> sint a \<le> int64_max sdiv sint b) \<and>
        (sint a > 0 \<and> sint b < 0 \<longrightarrow> sint b \<ge> int64_min sdiv sint a) \<and>
        (sint a < 0 \<and> sint b > 0 \<longrightarrow> sint a \<ge> int64_min sdiv sint b) \<and>
        (sint a < 0 \<and> sint b < 0 \<longrightarrow> sint a \<ge> int64_max sdiv sint b)"
      have "\<not> X \<and> Y \<longleftrightarrow> fits64 (sint a * sint b)"
        unfolding X_def Y_def using mul_guards[OF _ _ sint_range[of a] sint_range[of b]] False by blast
      moreover have "eval_arith op a b = (if X then None else if Y then Some (a * b) else None)"
        unfolding 3 eval_arith_def Let_def X_def[symmetric] Y_def[symmetric] using False by simp
      ultimately show ?thesis using 3 by (auto simp: math_op_def)
    qed
  next
    case 4
    then have "eval_arith op a b =
        (if sint b \<noteq> 0 \<and> \<not> (sint a = int64_min \<and> sint b = -1) then Some (word_of_int (sint a sdiv sint b)) else None)"
      and "math_op op (sint a) (sint b) = (if sint b = 0 then None else Some (sint a sdiv sint b))"
      by (simp_all add: eval_arith_def math_op_def Let_def)
    then show ?thesis
      using div_guards[OF _ sint_range[of a] sint_range[of b]] by (cases "sint b = 0") (simp_all only: if_True if_False option.case simp_thms)
  qed
qed

subsection \<open>Extracted predicates\<close>

lemma string_less_irrefl [simp]: "\<not> string_less s s"
  by (induction s) auto

lemma string_less_total: "\<not> string_less s t \<Longrightarrow> \<not> string_less t s \<Longrightarrow> s = t"
proof (induction s t rule: string_less.induct)
  case (3 a as b bs)
  then have "(of_char a :: nat) \<le> of_char b" "(of_char b :: nat) \<le> of_char a" by (auto simp: not_less)
  then have "a = b" using of_char_eq_iff by (metis antisym)
  then show ?case using 3 by simp
next
  case (1 s)
  then show ?case by (cases s) auto
qed auto

lemma string_less_asym: "string_less s t \<Longrightarrow> \<not> string_less t s"
  by (induction s t rule: string_less.induct) auto

lemma compare_values_eq:
  assumes "Value_type v = Value_type w" "v \<noteq> VNull"
  shows "\<exists>c. CompareEval (FromValue v) (FromValue w) = Inr c \<and> CompareEval (FromValue w) (FromValue v) = Inr (- c) \<and> (c = 0 \<longleftrightarrow> v = w)"
proof (cases v)
  case (VInt i)
  then obtain j where w: "w = VInt j" using assms(1) by (cases w) auto
  have "i = j \<longleftrightarrow> sint i = sint j" by (auto intro: signed_word_eqI)
  then show ?thesis using VInt w by (auto simp: FromValue_def CompareEval_def)
next
  case (VText s)
  then obtain t where w: "w = VText t" using assms(1) by (cases w) auto
  then show ?thesis using VText string_less_total[of s t] string_less_total[of t s]
    string_less_asym by (auto simp: FromValue_def CompareEval_def)
qed (use assms in simp)

lemma ExtractLiteral_eval:
  "ExtractLiteralValue e = Some v \<Longrightarrow> EvaluateExpression e row schema grp runner = Inr (FromValue v) \<and> v \<noteq> VNull"
  by (cases e) (auto simp: ExtractLiteralValue_def FromValue_def split: if_splits)

lemma plain_column_eval:
  "plain_column e = Some name \<Longrightarrow> FindColumnIndex schema name = Inr i \<Longrightarrow> i < length row \<Longrightarrow>
   EvaluateExpression e row schema grp runner = Inr (FromValue (row ! i))"
  by (cases e) (auto simp: plain_column_def split: if_splits)

lemma FromValue_null: "EvalIsNull (FromValue v) \<longleftrightarrow> v = VNull"
  by (cases v) (simp_all add: FromValue_def)

lemma Value_type_null [simp]: "Value_type v = DT_Null \<longleftrightarrow> v = VNull" "DT_Null = Value_type v \<longleftrightarrow> v = VNull"
  by (cases v; simp)+

lemma filter_equal:
  assumes v: "v \<noteq> VNull" and t: "w = VNull \<or> Value_type w = Value_type v"
  shows "\<exists>b b'. eval_binary ''='' (Inr (FromValue w)) (Inr (FromValue v)) = Inr b \<and>
    eval_binary ''='' (Inr (FromValue v)) (Inr (FromValue w)) = Inr b' \<and>
    (ev_kind b = K_Bool \<and> ev_boolean b \<longleftrightarrow> w = v) \<and> (ev_kind b' = K_Bool \<and> ev_boolean b' \<longleftrightarrow> w = v)"
proof (cases "w = VNull")
  case True
  then show ?thesis using v by (simp add: eval_binary_def FromValue_null)
next
  case False
  obtain c where "CompareEval (FromValue w) (FromValue v) = Inr c" "CompareEval (FromValue v) (FromValue w) = Inr (- c)" "c = 0 \<longleftrightarrow> w = v"
    using compare_values_eq[of w v] False t by blast
  then show ?thesis using False v by (simp add: eval_binary_comparison FromValue_null)
qed

lemma extract_shape:
  assumes "ExtractPredicateFromCompileExpr e = Some p"
  obtains (null) operand negated where "e = E_IsNull operand negated" "plain_column operand = Some (pred_column p)"
      "pred_kind p = (if negated then PK_IsNotNull else PK_IsNull)"
    | (left) l r where "e = E_Binary ''='' l r" "plain_column l = Some (pred_column p)" "ExtractLiteralValue r = Some (pred_value p)"
      "pred_kind p = PK_Equal"
    | (right) l r where "e = E_Binary ''='' l r" "plain_column r = Some (pred_column p)" "ExtractLiteralValue l = Some (pred_value p)"
      "pred_kind p = PK_Equal"
  using assms that
  by (auto simp: ExtractPredicateFromCompileExpr_def equal_predicate_def split: CompileExpr.splits option.splits if_splits)

subsection \<open>Properties\<close>

text \<open>C14: Constant folding never changes what an expression means: for every expression tree, row, schema,
  group of an aggregate and subquery runner, the folded expression evaluates to the same value or the same
  error as the original, including null propagation, short-circuit logic, division by zero, overflow, type
  errors and aggregates.\<close>

theorem FoldCompileExpr_preserves_evaluation:
  "EvaluateExpression (FoldCompileExpr e) row schema grp runner = EvaluateExpression e row schema grp runner"
  by (rule eval_fold)

text \<open>Integer arithmetic is exact or an error: when both operands evaluate to 64-bit integers, the result
  of plus, minus, times and divide is the mathematical one (division truncating toward zero) if it fits in 64
  bits, and otherwise, or for a zero divisor, the evaluation fails; nothing ever wraps around.\<close>

theorem arithmetic_exact_or_error:
  assumes "op \<in> {''+'', ''-'', ''*'', ''/''}"
    and "EvaluateExpression l row schema grp runner = Inr (EvalInt a)"
    and "EvaluateExpression r row schema grp runner = Inr (EvalInt b)"
  shows "EvaluateExpression (E_Binary op l r) row schema grp runner =
    (case math_op op (sint a) (sint b) of
       Some i \<Rightarrow> if fits64 i then Inr (EvalInt (word_of_int i)) else Inl InvalidArgument
     | None \<Rightarrow> Inl InvalidArgument)"
proof -
  have "eval_binary op (Inr (EvalInt a)) (Inr (EvalInt b)) =
      (case eval_arith op a b of None \<Rightarrow> Inl InvalidArgument | Some c \<Rightarrow> Inr (EvalInt c))"
    using assms(1) by (elim insertE emptyE) (simp_all add: eval_binary_def)
  then show ?thesis using assms(2,3) eval_arith_exact[of op a b] by (simp split: option.splits)
qed

lemma arithmetic_exact_or_error_witness:
  "EvaluateExpression (E_Binary ''*'' (E_Literal LK_Int (- 3) []) (E_Literal LK_Int (2 ^ 62) [])) [] [] None None = Inl InvalidArgument"
proof -
  have "sint (- 3 :: i64) = - 3" "sint (2 ^ 62 :: i64) = 2 ^ 62" by simp_all
  then show ?thesis
    using arithmetic_exact_or_error[of "''*''" "E_Literal LK_Int (- 3) []" "[]" "[]" None None "- 3" "E_Literal LK_Int (2 ^ 62) []" "2 ^ 62"]
    by (simp add: math_op_def fits64_def int64_min_def int64_max_def)
qed

text \<open>A filter that tests an extracted predicate keeps the same rows as one that evaluates the
  expression: when the planner reduces a condition to a comparison of one column with a literal, or to a
  null test, and the column's value is null or of the literal's type, both ways to filter agree on every
  row, also when the value is null.\<close>

theorem extracted_predicate_agrees:
  fixes e :: "'q CompileExpr"
  assumes "ExtractPredicateFromCompileExpr e = Some p"
    and "FindColumnIndex schema (pred_column p) = Inr i" "length row = length schema"
    and "pred_kind p = PK_Equal \<Longrightarrow> row ! i = VNull \<or> Value_type (row ! i) = Value_type (pred_value p)"
  shows "filter_matches i p (E_nullptr :: 'q CompileExpr) schema runner row = filter_matches j q e schema runner row"
proof -
  have "i < length schema"
    using assms(2) by (auto simp: FindColumnIndex_def find_column_from_Inr)
  then have i: "i < length row" using assms(3) by simp
  from assms(1) show ?thesis
  proof (cases rule: extract_shape)
    case (null operand negated)
    have "EvaluateExpression operand row schema None runner = Inr (FromValue (row ! i))"
      using plain_column_eval[OF null(2) assms(2) i] .
    then show ?thesis
      using null assms(3) by (cases "row ! i") (auto simp: filter_matches_def FromValue_def IsNull_def)
  next
    case (left l r)
    have "EvaluateExpression l row schema None runner = Inr (FromValue (row ! i))"
      using plain_column_eval[OF left(2) assms(2) i] .
    moreover have "EvaluateExpression r row schema None runner = Inr (FromValue (pred_value p))" "pred_value p \<noteq> VNull"
      using ExtractLiteral_eval[OF left(3)] by blast+
    ultimately show ?thesis
      using filter_equal[of "pred_value p" "row ! i"] left assms(3,4)
      by (auto simp: filter_matches_def Value_type_iff)
  next
    case (right l r)
    have "EvaluateExpression r row schema None runner = Inr (FromValue (row ! i))"
      using plain_column_eval[OF right(2) assms(2) i] .
    moreover have "EvaluateExpression l row schema None runner = Inr (FromValue (pred_value p))" "pred_value p \<noteq> VNull"
      using ExtractLiteral_eval[OF right(3)] by blast+
    ultimately show ?thesis
      using filter_equal[of "pred_value p" "row ! i"] right assms(3,4)
      by (auto simp: filter_matches_def Value_type_iff)
  qed
qed

definition demo_condition :: "nat CompileExpr" where
  "demo_condition = E_Binary ''='' (E_Column [] ''id'') (E_Literal LK_Int 7 [])"

definition demo_columns :: Schema where
  "demo_columns = [make_Column ''id'' DT_Int None False True True None]"

lemma extracted_predicate_agrees_witness:
  "filter_matches 0 (equal_predicate ''id'' (VInt 7)) (E_nullptr :: nat CompileExpr) demo_columns None [VInt 7] =
   filter_matches 5 (equal_predicate ''x'' VNull) demo_condition demo_columns None [VInt 7]"
proof (rule extracted_predicate_agrees)
  show "ExtractPredicateFromCompileExpr demo_condition = Some (equal_predicate ''id'' (VInt 7))"
    by (simp add: demo_condition_def ExtractPredicateFromCompileExpr_def plain_column_def ExtractLiteralValue_def)
  show "FindColumnIndex demo_columns (pred_column (equal_predicate ''id'' (VInt 7))) = Inr 0"
    by (simp add: FindColumnIndex_def demo_columns_def make_Column_def equal_predicate_def)
qed (simp_all add: demo_columns_def equal_predicate_def)

end
