(* ===== verification/Like.thy ===== *)
theory Like
  imports Expression
begin

text \<open>
  What LIKE means, and that the two-row table of \<^verbatim>\<open>LikeMatches\<close> in \<^verbatim>\<open>executor.cpp\<close> computes it.
\<close>

text \<open>The percent sign stands for any string, the underscore for any character, every other character for
  itself.\<close>

fun like :: "string \<Rightarrow> string \<Rightarrow> bool" where
  "like [] value \<longleftrightarrow> value = []"
| "like (p # ps) value \<longleftrightarrow>
     (if p = CHR ''%'' then \<exists>w rest. value = w @ rest \<and> like ps rest
      else \<exists>c rest. value = c # rest \<and> (p = CHR ''_'' \<or> p = c) \<and> like ps rest)"

text \<open>The same, read from the end of the pattern.\<close>

lemma like_snoc:
  "like (ps @ [p]) v \<longleftrightarrow>
     (if p = CHR ''%'' then \<exists>w rest. v = w @ rest \<and> like ps w
      else \<exists>w c. v = w @ [c] \<and> (p = CHR ''_'' \<or> p = c) \<and> like ps w)"
proof (induction ps arbitrary: v)
  case Nil
  show ?case by auto
next
  case (Cons q ps)
  show ?case
  proof (cases "q = CHR ''%''")
    case q: True
    show ?thesis
    proof (cases "p = CHR ''%''")
      case True
      have "(\<exists>w rest. v = w @ rest \<and> (\<exists>w' rest'. rest = w' @ rest' \<and> like ps w')) \<longleftrightarrow>
          (\<exists>w rest. v = w @ rest \<and> (\<exists>w' rest'. w = w' @ rest' \<and> like ps rest'))"
        (is "?A \<longleftrightarrow> ?B")
      proof
        assume ?A
        then obtain w w' rest' where "v = (w @ w') @ rest'" "like ps w'" by auto
        then show ?B by blast
      next
        assume ?B
        then obtain w rest w' where "v = w' @ w @ rest" "like ps w" by auto
        then show ?A by blast
      qed
      then show ?thesis using q True Cons.IH by simp
    next
      case False
      have "(\<exists>w rest. v = w @ rest \<and> (\<exists>w' c. rest = w' @ [c] \<and> (p = CHR ''_'' \<or> p = c) \<and> like ps w')) \<longleftrightarrow>
          (\<exists>w c. v = w @ [c] \<and> (p = CHR ''_'' \<or> p = c) \<and> (\<exists>w' rest'. w = w' @ rest' \<and> like ps rest'))"
        (is "?A \<longleftrightarrow> ?B")
      proof
        assume ?A
        then obtain w w' c where "v = (w @ w') @ [c]" "p = CHR ''_'' \<or> p = c" "like ps w'" by auto
        then show ?B by blast
      next
        assume ?B
        then obtain w c w' where "v = w' @ w @ [c]" "p = CHR ''_'' \<or> p = c" "like ps w" by auto
        then show ?A by blast
      qed
      then show ?thesis using q False Cons.IH by simp
    qed
  next
    case q: False
    show ?thesis
    proof (cases "p = CHR ''%''")
      case True
      have "(\<exists>d rest. v = d # rest \<and> (q = CHR ''_'' \<or> q = d) \<and> (\<exists>w' rest'. rest = w' @ rest' \<and> like ps w')) \<longleftrightarrow>
          (\<exists>w rest. v = w @ rest \<and> (\<exists>d w'. w = d # w' \<and> (q = CHR ''_'' \<or> q = d) \<and> like ps w'))"
        (is "?A \<longleftrightarrow> ?B")
      proof
        assume ?A
        then obtain d w' rest' where "v = (d # w') @ rest'" "q = CHR ''_'' \<or> q = d" "like ps w'" by auto
        then show ?B by blast
      next
        assume ?B
        then obtain d w' rest where "v = d # (w' @ rest)" "q = CHR ''_'' \<or> q = d" "like ps w'" by auto
        then show ?A by blast
      qed
      then show ?thesis using q True Cons.IH by simp
    next
      case False
      have "(\<exists>d rest. v = d # rest \<and> (q = CHR ''_'' \<or> q = d) \<and>
            (\<exists>w' c. rest = w' @ [c] \<and> (p = CHR ''_'' \<or> p = c) \<and> like ps w')) \<longleftrightarrow>
          (\<exists>w c. v = w @ [c] \<and> (p = CHR ''_'' \<or> p = c) \<and> (\<exists>d w'. w = d # w' \<and> (q = CHR ''_'' \<or> q = d) \<and> like ps w'))"
        (is "?A \<longleftrightarrow> ?B")
      proof
        assume ?A
        then obtain d w' c where "v = (d # w') @ [c]" "q = CHR ''_'' \<or> q = d" "p = CHR ''_'' \<or> p = c" "like ps w'" by auto
        then show ?B by blast
      next
        assume ?B
        then obtain d w' c where "v = d # (w' @ [c])" "q = CHR ''_'' \<or> q = d" "p = CHR ''_'' \<or> p = c" "like ps w'" by auto
        then show ?A by blast
      qed
      then show ?thesis using q False Cons.IH by simp
    qed
  qed
qed

lemma like_take_Suc:
  assumes "j < length pattern"
  shows "like (take (Suc j) pattern) value \<longleftrightarrow>
     (if pattern ! j = CHR ''%'' then \<exists>w rest. value = w @ rest \<and> like (take j pattern) w
      else \<exists>w c. value = w @ [c] \<and> (pattern ! j = CHR ''_'' \<or> pattern ! j = c) \<and> like (take j pattern) w)"
  using assms by (simp only: take_Suc_conv_app_nth like_snoc)

text \<open>One more character of the value, one more of the pattern: the two recurrences of the table.\<close>

lemma like_table:
  assumes "j < length pattern"
  shows "like (take (Suc j) pattern) (v @ [c]) \<longleftrightarrow>
    (if pattern ! j = CHR ''%'' then like (take j pattern) (v @ [c]) \<or> like (take (Suc j) pattern) v
     else (pattern ! j = CHR ''_'' \<or> pattern ! j = c) \<and> like (take j pattern) v)"
proof (cases "pattern ! j = CHR ''%''")
  case True
  have "(\<exists>w rest. v @ [c] = w @ rest \<and> like (take j pattern) w) \<longleftrightarrow>
      like (take j pattern) (v @ [c]) \<or> (\<exists>w rest. v = w @ rest \<and> like (take j pattern) w)"
  proof
    assume "\<exists>w rest. v @ [c] = w @ rest \<and> like (take j pattern) w"
    then obtain w rest where w: "v @ [c] = w @ rest" "like (take j pattern) w" by blast
    then show "like (take j pattern) (v @ [c]) \<or> (\<exists>w rest. v = w @ rest \<and> like (take j pattern) w)"
    proof (cases rest rule: rev_cases)
      case (snoc rest' d)
      then have "v = w @ rest'" using w(1) by simp
      then show ?thesis using w(2) by blast
    qed simp
  next
    assume "like (take j pattern) (v @ [c]) \<or> (\<exists>w rest. v = w @ rest \<and> like (take j pattern) w)"
    then show "\<exists>w rest. v @ [c] = w @ rest \<and> like (take j pattern) w" by (metis append.assoc append_Nil2)
  qed
  then show ?thesis using True by (simp add: like_take_Suc[OF assms])
qed (simp add: like_take_Suc[OF assms])

lemma like_take_empty:
  assumes "j < length pattern"
  shows "like (take (Suc j) pattern) [] \<longleftrightarrow> like (take j pattern) [] \<and> pattern ! j = CHR ''%''"
  by (simp add: like_take_Suc[OF assms])

subsection \<open>The table\<close>

definition like_cells :: "string \<Rightarrow> string \<Rightarrow> bool list" where
  "like_cells pattern v = map (\<lambda>j. like (take j pattern) v) [0..<length pattern + 1]"

lemma like_cells_nth: "j \<le> length pattern \<Longrightarrow> like_cells pattern v ! j = like (take j pattern) v"
  by (simp add: like_cells_def del: upt_Suc)

lemma length_like_cells [simp]: "length (like_cells pattern v) = length pattern + 1"
  by (simp add: like_cells_def)

text \<open>A loop that fills cell after cell from its left neighbour.\<close>

lemma fill_cells:
  assumes "length cells = n + 1" "cells ! 0 = s 0"
    and "\<And>cur j. length cur = n + 1 \<Longrightarrow> 0 < j \<Longrightarrow> j \<le> n \<Longrightarrow> cur ! (j - 1) = s (j - 1) \<Longrightarrow> cur ! j = cells ! j \<Longrightarrow>
      f cur j = cur[j := s j]"
  shows "foldl f cells [1..<n + 1] = map s [0..<n + 1]"
proof -
  have "foldl f cells [1..<k + 1] = map s [0..<k + 1] @ drop (k + 1) cells" if "k \<le> n" for k
    using that
  proof (induction k)
    case 0
    then show ?case using assms(1,2) by (cases cells) simp_all
  next
    case (Suc k)
    let ?cur = "map s [0..<k + 1] @ drop (k + 1) cells"
    have IH: "foldl f cells [1..<k + 1] = ?cur" using Suc by simp
    have "?cur ! Suc k = cells ! Suc k" using Suc.prems assms(1) by (simp add: nth_append)
    moreover have "?cur ! (Suc k - 1) = s (Suc k - 1)" by (simp add: nth_append del: upt_Suc)
    ultimately have "f ?cur (Suc k) = ?cur[Suc k := s (Suc k)]" using Suc.prems assms(1) by (intro assms(3)) auto
    also have "\<dots> = map s [0..<Suc k + 1] @ drop (Suc k + 1) cells"
      using Suc.prems assms(1) by (simp add: list_update_append flip: Cons_nth_drop_Suc)
    finally show ?case using IH by simp
  qed
  from this[of n] show ?thesis using assms(1) by simp
qed

lemma like_row_cells: "like_row pattern (like_cells pattern v) c = like_cells pattern (v @ [c])"
proof -
  let ?n = "length pattern" and ?s = "\<lambda>j. like (take j pattern) (v @ [c])"
  show ?thesis
    unfolding like_row_def like_cells_def[of pattern "v @ [c]"]
  proof (rule fill_cells)
    fix cur :: "bool list" and j
    assume cur: "length cur = ?n + 1" and j: "0 < j" "j \<le> ?n" and left: "cur ! (j - 1) = ?s (j - 1)"
      and old: "cur ! j = replicate (?n + 1) False ! j"
    then obtain i where i: "j = Suc i" "i < ?n" by (cases j) auto
    have "cur ! j = False" using old j by (simp del: replicate_Suc)
    then have stay: "cur[j := False] = cur" by (metis list_update_id)
    show "(if pattern ! (j - 1) = CHR ''%'' then cur[j := cur ! (j - 1) \<or> like_cells pattern v ! j]
         else if pattern ! (j - 1) = CHR ''_'' \<or> pattern ! (j - 1) = c then cur[j := like_cells pattern v ! (j - 1)]
         else cur) = cur[j := ?s j]"
      using left like_table[OF i(2), of v c] stay i by (auto simp: like_cells_nth)
  qed simp_all
qed

lemma like_first_row:
  "foldl (\<lambda>prev j. prev[j := prev ! (j - 1) \<and> pattern ! (j - 1) = CHR ''%''])
     ((replicate (length pattern + 1) False)[0 := True]) [1..<length pattern + 1] = like_cells pattern []"
  unfolding like_cells_def
proof (rule fill_cells)
  fix cur :: "bool list" and j
  assume "0 < j" "j \<le> length pattern" "cur ! (j - 1) = like (take (j - 1) pattern) []"
  then show "cur[j := cur ! (j - 1) \<and> pattern ! (j - 1) = CHR ''%''] = cur[j := like (take j pattern) []]"
    using like_take_empty[of "j - 1" pattern] by simp
qed simp_all

lemma LikeMatches_like: "LikeMatches value pattern = like pattern value"
proof -
  have "foldl (\<lambda>prev i. like_row pattern prev (value ! (i - 1))) (like_cells pattern []) [1..<k + 1] =
      like_cells pattern (take k value)" if "k \<le> length value" for k
    using that
  proof (induction k)
    case (Suc k)
    then show ?case by (simp add: like_row_cells take_Suc_conv_app_nth)
  qed simp
  from this[of "length value"] show ?thesis
    by (simp add: LikeMatches_def Let_def like_first_row[simplified] like_cells_nth)
qed

text \<open>C29: LIKE is computed correctly: for every value and pattern the table of \<^verbatim>\<open>LikeMatches\<close> yields true exactly
  when the value can be cut into pieces that match the pattern, the percent sign matching any string, the
  underscore any one character, and every other character only itself.\<close>

theorem LikeMatches_correct: "LikeMatches v pattern = like pattern v"
  by (rule LikeMatches_like)

end
