(* ===== verification/Recovery.thy ===== *)
theory Recovery
  imports LogFile Disk "HOL-Library.AList"
begin

text \<open>
  \<^verbatim>\<open>src/recovery/recovery_manager.cpp\<close>: restart recovery. It scans the log, repeats the page images of
  committed transactions and the compensation records of unfinished ones in log order, undoes the
  unfinished ones from the largest log sequence number down, logging a compensation record before
  each undo, marks them aborted and flushes. The log manager and the disk manager are those of
  \<^verbatim>\<open>LogFile\<close> and \<^verbatim>\<open>Disk\<close> (the pointers to them are set). The hash sets of transactions are
  visited in the order in which the transactions appear in the log.
\<close>

subsection \<open>Page operations\<close>

definition WriteImage :: "page_id_t \<Rightarrow> byte list \<Rightarrow> DiskManager \<Rightarrow> DiskManager \<times> ErrorCode" where
  "WriteImage page img dm = (if length img \<noteq> page_size then (dm, InvalidArgument) else WritePage page img dm)"

definition DeallocateIdempotent :: "page_id_t \<Rightarrow> DiskManager \<Rightarrow> DiskManager \<times> ErrorCode" where
  "DeallocateIdempotent page dm =
     (case DeallocatePage page dm of (dm, status) \<Rightarrow> (dm, if status = AlreadyExists then Code_Ok else status))"

definition RedoCompensation :: "LogRecord \<Rightarrow> DiskManager \<Rightarrow> DiskManager \<times> ErrorCode" where
  "RedoCompensation r dm =
     (case compensation_type r of
        L_PageUpdate \<Rightarrow> WriteImage (rec_page r) (after_image r) dm
      | L_PageAllocate \<Rightarrow> DeallocateIdempotent (rec_page r) dm
      | L_PageFree \<Rightarrow> (dm, Code_Ok)
      | _ \<Rightarrow> (dm, InvalidArgument))"

subsection \<open>Analysis\<close>

record RecoveryTransaction =
  txn_last_lsn :: lsn_t
  terminal :: bool
  terminal_type :: LogRecordType
  terminal_lsn :: lsn_t

definition RecoveryTransaction_default :: RecoveryTransaction where
  "RecoveryTransaction_default =
     \<lparr>txn_last_lsn = kInvalidLsn, terminal = False, terminal_type = L_Checkpoint, terminal_lsn = kInvalidLsn\<rparr>"

type_synonym transactions = "(txn_id_t \<times> RecoveryTransaction) list"

definition note_record :: "transactions \<Rightarrow> LogRecord \<Rightarrow> transactions" where
  "note_record ts r =
     (if rec_txn r = kInvalidTxnId then ts
      else
        (let t = (case map_of ts (rec_txn r) of None \<Rightarrow> RecoveryTransaction_default | Some t \<Rightarrow> t);
             t = t\<lparr>txn_last_lsn := max (txn_last_lsn t) (rec_lsn r)\<rparr>;
             t = (if (rec_type r = L_Commit \<or> rec_type r = L_Abort) \<and> rec_lsn r \<ge> terminal_lsn t
                  then t\<lparr>terminal := True, terminal_type := rec_type r, terminal_lsn := rec_lsn r\<rparr> else t)
         in AList.update (rec_txn r) t ts))"

definition analyse :: "LogRecord list \<Rightarrow> transactions" where
  "analyse records = foldl note_record [] records"

definition records_by_lsn :: "LogRecord list \<Rightarrow> lsn_t \<Rightarrow> LogRecord option" where
  "records_by_lsn records lsn = find (\<lambda>r. rec_lsn r = lsn) records"

definition winners_of :: "transactions \<Rightarrow> txn_id_t list" where
  "winners_of ts = map fst (filter (\<lambda>(txn, t). terminal t \<and> terminal_type t = L_Commit) ts)"

definition losers_of :: "transactions \<Rightarrow> txn_id_t list" where
  "losers_of ts = map fst (filter (\<lambda>(txn, t). \<not> (terminal t \<and> terminal_type t = L_Commit) \<and> \<not> terminal t) ts)"

subsection \<open>Redo\<close>

definition redo_record :: "transactions \<Rightarrow> LogRecord \<Rightarrow> DiskManager \<Rightarrow> DiskManager \<times> ErrorCode" where
  "redo_record ts r dm =
     (let is_winner = rec_txn r \<in> set (winners_of ts); is_loser = rec_txn r \<in> set (losers_of ts) in
      if \<not> is_winner \<and> \<not> (is_loser \<and> rec_type r = L_Compensation) then (dm, Code_Ok)
      else if rec_type r = L_PageUpdate then WriteImage (rec_page r) (after_image r) dm
      else if rec_type r = L_PageFree then DeallocateIdempotent (rec_page r) dm
      else if rec_type r = L_Compensation then RedoCompensation r dm
      else (dm, Code_Ok))"

fun redo_loop :: "transactions \<Rightarrow> LogRecord list \<Rightarrow> DiskManager \<Rightarrow> DiskManager \<times> ErrorCode" where
  "redo_loop ts [] dm = (dm, Code_Ok)"
| "redo_loop ts (r # rs) dm =
     (case redo_record ts r dm of
        (dm, status) \<Rightarrow> if status \<noteq> Code_Ok then (dm, IOError) else redo_loop ts rs dm)"

subsection \<open>Undo\<close>

text \<open>The priority queue holds pairs of a log sequence number and a transaction, largest first.\<close>

definition pending_less :: "lsn_t \<times> txn_id_t \<Rightarrow> lsn_t \<times> txn_id_t \<Rightarrow> bool" where
  "pending_less x y \<longleftrightarrow> fst x < fst y \<or> fst x = fst y \<and> snd x < snd y"

definition pending_top :: "(lsn_t \<times> txn_id_t) list \<Rightarrow> lsn_t \<times> txn_id_t" where
  "pending_top xs = foldl (\<lambda>x y. if pending_less x y then y else x) (hd xs) (tl xs)"

record UndoState =
  pending :: "(lsn_t \<times> txn_id_t) list"
  next_lsn :: "txn_id_t \<rightharpoonup> lsn_t"
  txn_table :: transactions
  recovery_last_lsn :: lsn_t
  undo_log :: LogManager
  undo_disk :: DiskManager

definition last_lsn_in :: "transactions \<Rightarrow> txn_id_t \<Rightarrow> lsn_t" where
  "last_lsn_in ts txn = (case map_of ts txn of None \<Rightarrow> kInvalidLsn | Some t \<Rightarrow> txn_last_lsn t)"

definition undo_start :: "transactions \<Rightarrow> LogManager \<Rightarrow> DiskManager \<Rightarrow> UndoState" where
  "undo_start ts lm dm =
     \<lparr>pending = filter (\<lambda>(lsn, txn). lsn \<noteq> kInvalidLsn) (map (\<lambda>txn. (last_lsn_in ts txn, txn)) (losers_of ts)),
      next_lsn = map_of (map (\<lambda>txn. (txn, last_lsn_in ts txn)) (losers_of ts)),
      txn_table = ts, recovery_last_lsn = kInvalidLsn, undo_log = lm, undo_disk = dm\<rparr>"

text \<open>The compensation record for \<open>r\<close>.\<close>

definition compensation_for :: "txn_id_t \<Rightarrow> lsn_t \<Rightarrow> LogRecord \<Rightarrow> LogRecord" where
  "compensation_for txn prev r =
     (let c = LogRecord_default\<lparr>rec_type := L_Compensation, rec_txn := txn, rec_prev := prev, rec_page := rec_page r,
                undo_next_lsn := rec_prev r, compensation_type := rec_type r\<rparr>
      in if rec_type r = L_PageUpdate then c\<lparr>after_image := before_image r\<rparr> else c)"

text \<open>Logging and undoing one record; on an error the recovery stops with it.\<close>

definition log_compensation :: "txn_id_t \<Rightarrow> LogRecord \<Rightarrow> UndoState \<Rightarrow> UndoState \<times> ErrorCode" where
  "log_compensation txn r s =
     (case Append (compensation_for txn (last_lsn_in (txn_table s) txn) r) (undo_log s) of
        (lm, Inl err) \<Rightarrow> (s\<lparr>undo_log := lm\<rparr>, IOError)
      | (lm, Inr lsn) \<Rightarrow>
          (s\<lparr>undo_log := lm,
             txn_table := (case map_of (txn_table s) txn of None \<Rightarrow> txn_table s
                           | Some t \<Rightarrow> AList.update txn (t\<lparr>txn_last_lsn := lsn\<rparr>) (txn_table s)),
             recovery_last_lsn := max (recovery_last_lsn s) lsn\<rparr>, Code_Ok))"

definition undo_record :: "LogRecord \<Rightarrow> UndoState \<Rightarrow> UndoState \<times> ErrorCode" where
  "undo_record r s =
     (case (if rec_type r = L_PageUpdate then WriteImage (rec_page r) (before_image r) (undo_disk s)
            else if rec_type r = L_PageAllocate then DeallocateIdempotent (rec_page r) (undo_disk s)
            else (undo_disk s, Code_Ok)) of
        (dm, status) \<Rightarrow> (s\<lparr>undo_disk := dm\<rparr>, if status \<noteq> Code_Ok then IOError else Code_Ok))"

definition undo_follow :: "txn_id_t \<Rightarrow> lsn_t \<Rightarrow> UndoState \<Rightarrow> UndoState" where
  "undo_follow txn following s =
     (let s = s\<lparr>next_lsn := (next_lsn s)(txn \<mapsto> following)\<rparr> in
      if following \<noteq> kInvalidLsn then s\<lparr>pending := (following, txn) # pending s\<rparr> else s)"

definition undo_body :: "(lsn_t \<Rightarrow> LogRecord option) \<Rightarrow> UndoState \<Rightarrow> UndoState \<times> ErrorCode" where
  "undo_body by_lsn s =
     (let (current, txn) = pending_top (pending s);
          s = s\<lparr>pending := remove1 (current, txn) (pending s)\<rparr> in
      if next_lsn s txn \<noteq> Some current then (s, Code_Ok)
      else
        (case by_lsn current of
           None \<Rightarrow> (s, IOError)
         | Some r \<Rightarrow>
             if rec_txn r \<noteq> txn then (s, IOError)
             else if rec_type r = L_Compensation then (undo_follow txn (undo_next_lsn r) s, Code_Ok)
             else if rec_type r = L_PageUpdate \<or> rec_type r = L_PageAllocate \<or> rec_type r = L_PageFree then
               (case log_compensation txn r s of
                  (s, status) \<Rightarrow>
                    if status \<noteq> Code_Ok then (s, status)
                    else
                      (case undo_record r s of
                         (s, status) \<Rightarrow>
                           if status \<noteq> Code_Ok then (s, status)
                           else (undo_follow txn (rec_prev r) s, Code_Ok)))
             else (undo_follow txn (rec_prev r) s, Code_Ok)))"

text \<open>The loop ends only if the chains do: nothing in the code bounds \<^verbatim>\<open>undo_next_lsn\<close>.\<close>

partial_function (option) undo_loop ::
  "(lsn_t \<Rightarrow> LogRecord option) \<Rightarrow> UndoState \<Rightarrow> (UndoState \<times> ErrorCode) option" where
  "undo_loop by_lsn s =
     (if pending s = [] then Some (s, Code_Ok)
      else
        (case undo_body by_lsn s of
           (s, status) \<Rightarrow> if status \<noteq> Code_Ok then Some (s, status) else undo_loop by_lsn s))"

subsection \<open>The end of recovery\<close>

definition abort_record :: "txn_id_t \<Rightarrow> lsn_t \<Rightarrow> LogRecord" where
  "abort_record txn prev = LogRecord_default\<lparr>rec_type := L_Abort, rec_txn := txn, rec_prev := prev\<rparr>"

fun abort_losers :: "txn_id_t list \<Rightarrow> UndoState \<Rightarrow> UndoState \<times> ErrorCode" where
  "abort_losers [] s = (s, Code_Ok)"
| "abort_losers (txn # txns) s =
     (case Append (abort_record txn (last_lsn_in (txn_table s) txn)) (undo_log s) of
        (lm, Inl err) \<Rightarrow> (s\<lparr>undo_log := lm\<rparr>, IOError)
      | (lm, Inr lsn) \<Rightarrow>
          abort_losers txns (s\<lparr>undo_log := lm, recovery_last_lsn := max (recovery_last_lsn s) lsn\<rparr>))"

text \<open>\<open>host_ok\<close> is the outcome of the flush; \<open>None\<close>: the recovery does not return.\<close>

definition Recover :: "bool \<Rightarrow> LogManager \<Rightarrow> DiskManager \<Rightarrow> (LogManager \<times> DiskManager \<times> ErrorCode) option" where
  "Recover host_ok lm dm =
     (case Scan lm of
        Inl err \<Rightarrow> Some (lm, dm, IOError)
      | Inr records \<Rightarrow>
          (let ts = analyse records in
           case redo_loop ts records dm of
             (dm, status) \<Rightarrow>
               if status \<noteq> Code_Ok then Some (lm, dm, status)
               else
                 (case undo_loop (records_by_lsn records) (undo_start ts lm dm) of
                    None \<Rightarrow> None
                  | Some (s, status) \<Rightarrow>
                      if status \<noteq> Code_Ok then Some (undo_log s, undo_disk s, status)
                      else
                        (case abort_losers (losers_of ts) s of
                           (s, status) \<Rightarrow>
                             if status \<noteq> Code_Ok then Some (undo_log s, undo_disk s, status)
                             else
                               (case Flush (max (recovery_last_lsn s) (append_lsn (undo_log s))) host_ok (undo_log s) of
                                  None \<Rightarrow> None
                                | Some (lm, status) \<Rightarrow>
                                    Some (lm, undo_disk s, if status \<noteq> Code_Ok then IOError else Code_Ok))))))"


subsection \<open>What the analysis finds\<close>

definition ends_of :: "txn_id_t \<Rightarrow> LogRecord list \<Rightarrow> LogRecord list" where
  "ends_of t rs = filter (\<lambda>r. rec_txn r = t \<and> (rec_type r = L_Commit \<or> rec_type r = L_Abort)) rs"

text \<open>The last end of the transaction in the log is a commit; or it is in the log but has no end.\<close>

definition committed :: "LogRecord list \<Rightarrow> txn_id_t \<Rightarrow> bool" where
  "committed rs t \<longleftrightarrow> t \<noteq> kInvalidTxnId \<and> ends_of t rs \<noteq> [] \<and> rec_type (last (ends_of t rs)) = L_Commit"

definition unfinished :: "LogRecord list \<Rightarrow> txn_id_t \<Rightarrow> bool" where
  "unfinished rs t \<longleftrightarrow> t \<noteq> kInvalidTxnId \<and> (\<exists>r \<in> set rs. rec_txn r = t) \<and> ends_of t rs = []"

definition analysed :: "LogRecord list \<Rightarrow> txn_id_t \<Rightarrow> RecoveryTransaction" where
  "analysed rs t =
     \<lparr>txn_last_lsn = prev_of t rs, terminal = (ends_of t rs \<noteq> []),
      terminal_type = (if ends_of t rs = [] then L_Checkpoint else rec_type (last (ends_of t rs))),
      terminal_lsn = (if ends_of t rs = [] then kInvalidLsn else rec_lsn (last (ends_of t rs)))\<rparr>"

lemma analysed_absent: "\<forall>r \<in> set rs. rec_txn r \<noteq> t \<Longrightarrow> analysed rs t = RecoveryTransaction_default"
  by (auto simp: analysed_def RecoveryTransaction_default_def ends_of_def prev_of_def filter_empty_conv)

lemma prev_of_le: "log_ok rs \<Longrightarrow> prev_of t rs \<le> last_lsn_of rs"
  using prev_of_in[of t rs] le_last_lsn[of rs] by (cases "prev_of t rs = kInvalidLsn") (auto simp: kInvalidLsn_def)

lemma last_lsn_less: "log_ok (rs @ [r]) \<Longrightarrow> last_lsn_of rs < rec_lsn r"
  using last_in_set[of rs] by (auto simp: log_ok_snoc follows_def last_lsn_of_def kInvalidLsn_def word_neq_0_conv)

lemma analyse_map_of:
  assumes "log_ok rs" "t \<noteq> kInvalidTxnId"
  shows "map_of (analyse rs) t = (if \<exists>r \<in> set rs. rec_txn r = t then Some (analysed rs t) else None)"
  using assms(1)
proof (induction rs rule: rev_induct)
  case (snoc r rs)
  have ok: "log_ok rs" using snoc.prems by (rule log_ok_append)
  note IH = snoc.IH[OF ok]
  have lt: "last_lsn_of rs < rec_lsn r" using snoc.prems by (rule last_lsn_less)
  then have "prev_of t rs \<le> rec_lsn r" using prev_of_le[OF ok, of t] by (meson le_less_trans less_imp_le)
  then have p: "max (prev_of t rs) (rec_lsn r) = rec_lsn r" by (rule max_absorb2)
  have e: "ends_of t rs = [] \<or> rec_lsn (last (ends_of t rs)) \<le> rec_lsn r"
  proof (cases "ends_of t rs = []")
    case False
    then have "last (ends_of t rs) \<in> set rs" using last_in_set[of "ends_of t rs"] by (auto simp: ends_of_def)
    then show ?thesis using le_last_lsn[OF ok] lt by (meson le_less_trans less_imp_le)
  qed simp
  show ?case
  proof (cases "rec_txn r = t")
    case True
    let ?old = "case map_of (analyse rs) t of None \<Rightarrow> RecoveryTransaction_default | Some t \<Rightarrow> t"
    have o: "?old = analysed rs t" using IH analysed_absent[of rs t] by auto
    have "map_of (analyse (rs @ [r])) t = Some (analysed (rs @ [r]) t)"
      using True assms(2) e p by (auto simp: analyse_def[of "rs @ [r]"] note_record_def update_conv' analyse_def[symmetric] o Let_def)
        (auto simp: analysed_def ends_of_def prev_of_snoc kInvalidLsn_def)
    then show ?thesis using True by auto
  next
    case False
    then have "analysed (rs @ [r]) t = analysed rs t"
      by (simp add: analysed_def ends_of_def prev_of_snoc)
    then show ?thesis using False IH
      by (auto simp: analyse_def[of "rs @ [r]"] note_record_def update_conv' analyse_def[symmetric] Let_def)
  qed
qed (simp add: analyse_def)

lemma analyse_keys: "distinct (map fst (analyse rs)) \<and> kInvalidTxnId \<notin> fst ` set (analyse rs)"
proof (induction rs rule: rev_induct)
  case (snoc r rs)
  then show ?case
    by (auto simp: analyse_def[of "rs @ [r]"] note_record_def analyse_def[symmetric] Let_def distinct_update dom_update)
qed (simp add: analyse_def)

lemma analyse_sets:
  assumes "log_ok rs"
  shows "set (winners_of (analyse rs)) = {t. committed rs t}" "set (losers_of (analyse rs)) = {t. unfinished rs t}"
    "distinct (losers_of (analyse rs))" "\<And>t. t \<noteq> kInvalidTxnId \<Longrightarrow> last_lsn_in (analyse rs) t = prev_of t rs"
proof -
  have mem: "(t, x) \<in> set (analyse rs) \<longleftrightarrow> t \<noteq> kInvalidTxnId \<and> (\<exists>r \<in> set rs. rec_txn r = t) \<and> x = analysed rs t" for t x
    using analyse_keys[of rs] analyse_map_of[OF assms, of t] map_of_eq_Some_iff[of "analyse rs" t x]
    by (force split: if_splits)
  show "set (winners_of (analyse rs)) = {t. committed rs t}"
    by (auto simp: winners_of_def image_iff mem committed_def analysed_def) (auto simp: ends_of_def filter_empty_conv)
  show "set (losers_of (analyse rs)) = {t. unfinished rs t}"
    by (auto simp: losers_of_def image_iff mem unfinished_def analysed_def)
  show "distinct (losers_of (analyse rs))"
    using analyse_keys[of rs] by (auto simp: losers_of_def distinct_map inj_on_def)
  show "last_lsn_in (analyse rs) t = prev_of t rs" if "t \<noteq> kInvalidTxnId" for t
    using analyse_map_of[OF assms that] analysed_absent[of rs t]
    by (auto simp: last_lsn_in_def analysed_def RecoveryTransaction_default_def)
qed

end
