(* ===== verification/RecoverySafety.thy ===== *)
theory RecoverySafety
  imports Recovery SlottedPage
begin

text \<open>
  What recovery achieves. A log is recoverable when its unfinished transactions saved committed page
  contents and its compensation records undo changes from the last one backwards. On such a log the redo
  pass leaves every page that has nothing to undo with its committed contents, each undo step keeps that
  true, and every point at which recovery may stop leaves again a recoverable log and disk.
\<close>

subsection \<open>Logs that recovery can work with\<close>

definition undoable :: "LogRecord \<Rightarrow> bool" where
  "undoable r \<longleftrightarrow> rec_type r = L_PageUpdate \<or> rec_type r = L_PageAllocate \<or> rec_type r = L_PageFree"

definition is_clr :: "LogRecord \<Rightarrow> bool" where
  "is_clr r \<longleftrightarrow> rec_type r = L_Compensation"

definition clr_of :: "LogRecord \<Rightarrow> LogRecord \<Rightarrow> bool" where
  "clr_of u c \<longleftrightarrow> rec_page c = rec_page u \<and> undo_next_lsn c = rec_prev u \<and> compensation_type c = rec_type u \<and>
     (rec_type u = L_PageUpdate \<longrightarrow> after_image c = before_image u)"

text \<open>The compensation records of a transaction undo its changes from the last one backwards.\<close>

fun compensates :: "LogRecord list \<Rightarrow> LogRecord list \<Rightarrow> bool" where
  "compensates us [] \<longleftrightarrow> True"
| "compensates [] (c # cs) \<longleftrightarrow> False"
| "compensates (u # us) (c # cs) \<longleftrightarrow> clr_of u c \<and> compensates us cs"

definition of_txn :: "txn_id_t \<Rightarrow> LogRecord list \<Rightarrow> LogRecord list" where
  "of_txn t rs = filter (\<lambda>r. rec_txn r = t) rs"

definition changes_of :: "txn_id_t \<Rightarrow> LogRecord list \<Rightarrow> LogRecord list" where
  "changes_of t rs = filter undoable (of_txn t rs)"

definition clrs_of :: "txn_id_t \<Rightarrow> LogRecord list \<Rightarrow> LogRecord list" where
  "clrs_of t rs = filter is_clr (of_txn t rs)"

definition loser_ok :: "LogRecord list \<Rightarrow> txn_id_t \<Rightarrow> bool" where
  "loser_ok rs t \<longleftrightarrow>
     of_txn t rs = filter (\<lambda>r. \<not> is_clr r) (of_txn t rs) @ clrs_of t rs \<and>
     compensates (rev (changes_of t rs)) (clrs_of t rs)"

text \<open>The changes of \<open>t\<close> that are not compensated yet.\<close>

definition remaining :: "LogRecord list \<Rightarrow> txn_id_t \<Rightarrow> LogRecord list" where
  "remaining rs t = take (length (changes_of t rs) - length (clrs_of t rs)) (changes_of t rs)"

definition updates :: "page_id_t \<Rightarrow> LogRecord \<Rightarrow> bool" where
  "updates p r \<longleftrightarrow> rec_type r = L_PageUpdate \<and> rec_page r = p"

text \<open>The committed contents of a page: the last committed image in the log, else what it held before.\<close>

definition committed_page :: "LogRecord list \<Rightarrow> LogRecord list \<Rightarrow> (page_id_t \<Rightarrow> byte list) \<Rightarrow> page_id_t \<Rightarrow> byte list" where
  "committed_page rs part base p =
     (case filter (\<lambda>r. committed rs (rec_txn r) \<and> updates p r) part of [] \<Rightarrow> base p | xs \<Rightarrow> after_image (last xs))"

text \<open>The pages that recovery frees.\<close>

definition recovery_frees :: "LogRecord list \<Rightarrow> page_id_t \<Rightarrow> bool" where
  "recovery_frees rs p \<longleftrightarrow>
     (\<exists>r \<in> set rs. rec_page r = p \<and>
        (committed rs (rec_txn r) \<and> rec_type r = L_PageFree \<or>
         unfinished rs (rec_txn r) \<and> (rec_type r = L_PageAllocate \<or> is_clr r \<and> compensation_type r = L_PageAllocate)))"

text \<open>What the rest of the system sees to: records name data pages; an unfinished transaction has held
  the exclusive locks of its pages since it changed them, so that its first before image of a page is the
  committed contents and no committed change follows; only recovery writes compensation records.\<close>

definition log_recoverable :: "page_id_t \<Rightarrow> (page_id_t \<Rightarrow> byte list) \<Rightarrow> LogRecord list \<Rightarrow> bool" where
  "log_recoverable n base rs \<longleftrightarrow>
     (\<forall>r \<in> set rs. (undoable r \<or> is_clr r) \<longrightarrow> rec_page r \<noteq> 0 \<and> rec_page r < n) \<and>
     (\<forall>r \<in> set rs. is_clr r \<longrightarrow> \<not> committed rs (rec_txn r)) \<and>
     (\<forall>t. unfinished rs t \<longrightarrow> loser_ok rs t) \<and>
     (\<forall>pre r post. rs = pre @ r # post \<longrightarrow> unfinished rs (rec_txn r) \<longrightarrow> rec_type r = L_PageUpdate \<longrightarrow>
        (\<forall>e \<in> set pre. rec_txn e = rec_txn r \<longrightarrow> \<not> updates (rec_page r) e) \<longrightarrow>
        before_image r = committed_page rs pre base (rec_page r) \<and>
        (\<forall>e \<in> set post. committed rs (rec_txn e) \<longrightarrow> \<not> updates (rec_page r) e))"

definition touched :: "LogRecord list \<Rightarrow> page_id_t \<Rightarrow> bool" where
  "touched rs p \<longleftrightarrow> (\<exists>r \<in> set rs. updates p r \<and> (committed rs (rec_txn r) \<or> unfinished rs (rec_txn r)))"

text \<open>The disk may hold anything in the pages that committed or unfinished transactions changed, and in the
  pages \<open>F\<close>, among them those that recovery frees; it has the old contents elsewhere.\<close>

definition recoverable :: "page_id_t set \<Rightarrow> (page_id_t \<Rightarrow> byte list) \<Rightarrow> LogRecord list \<Rightarrow> DiskManager \<Rightarrow> bool" where
  "recoverable F base rs dm \<longleftrightarrow>
     log_recoverable (page_count dm) base rs \<and> file_fits dm \<and> (\<forall>p. recovery_frees rs p \<longrightarrow> p \<in> F) \<and>
     (\<forall>p. p \<noteq> 0 \<longrightarrow> p < page_count dm \<longrightarrow> p \<notin> F \<longrightarrow> \<not> touched rs p \<longrightarrow> page_at p (disk_file dm) = base p)"

subsection \<open>Single pages\<close>

text \<open>\<open>changes_only S dm dm'\<close>: only data pages in \<open>S\<close> have changed.\<close>

definition changes_only :: "page_id_t set \<Rightarrow> DiskManager \<Rightarrow> DiskManager \<Rightarrow> bool" where
  "changes_only S dm dm' \<longleftrightarrow>
     file_fits dm' \<and> page_count dm' = page_count dm \<and>
     (\<forall>q. q \<noteq> 0 \<longrightarrow> q < page_count dm \<longrightarrow> q \<notin> S \<longrightarrow> page_at q (disk_file dm') = page_at q (disk_file dm))"

lemma changes_onlyD:
  "changes_only S dm dm' \<Longrightarrow> file_fits dm'" "changes_only S dm dm' \<Longrightarrow> page_count dm' = page_count dm"
  "changes_only S dm dm' \<Longrightarrow> q \<noteq> 0 \<Longrightarrow> q < page_count dm \<Longrightarrow> q \<notin> S \<Longrightarrow> page_at q (disk_file dm') = page_at q (disk_file dm)"
  by (simp_all add: changes_only_def)

lemma changes_only_refl: "file_fits dm \<Longrightarrow> changes_only S dm dm"
  by (simp add: changes_only_def)

lemma changes_only_trans: "changes_only S a b \<Longrightarrow> changes_only S b c \<Longrightarrow> changes_only S a c"
  by (simp add: changes_only_def)

lemma WriteImage_fits:
  assumes "file_fits dm" "p < page_count dm" "length img = page_size"
  shows "\<exists>dm'. WriteImage p img dm = (dm', Code_Ok) \<and> changes_only {p} dm dm' \<and> page_at p (disk_file dm') = img \<and>
    free_pages dm' = free_pages dm"
  using assms put_page_fits[OF assms] put_page_file[OF assms]
  by (auto simp: WriteImage_def WritePage_def Write_fits changes_only_def)

lemma Dealloc_fits:
  assumes fits: "file_fits dm" and p: "p \<noteq> 0" "p < page_count dm"
  shows "\<exists>dm'. DeallocateIdempotent p dm = (dm', Code_Ok) \<and> changes_only {p} dm dm' \<and>
    free_pages dm' = insert p (free_pages dm)"
proof (cases "p \<in> free_pages dm")
  case True
  then have "DeallocateIdempotent p dm = (dm, Code_Ok)"
    using fits p not_invalid[OF p(2)]
    by (auto simp: DeallocateIdempotent_def DeallocatePage_def PushFreePageUnlocked_def file_fits_def)
  then show ?thesis using True fits by (auto simp: changes_only_refl)
next
  case False
  let ?b = "StorePageId empty_page 0 (free_list_head dm)"
  define dm0 where "dm0 = put_page p ?b dm"
  define dm1 where "dm1 = dm0\<lparr>free_list_head := p\<rparr>"
  have b: "length ?b = page_size" by (simp add: page_field_defs page_size_def)
  have fits0: "file_fits dm0" using put_page_fits[OF fits p(2) b] by (simp add: dm0_def)
  then have fits1: "file_fits dm1" by (simp add: dm1_def file_fits_def)
  have z: "0 < page_count dm" using fits by (simp add: file_fits_def word_neq_0_conv)
  have w: "WritePhysicalPageUnlocked p ?b dm = (dm0, Code_Ok)" using Write_fits[OF fits p(2) b] by (simp add: dm0_def)
  have n: "free_pages dm0 = free_pages dm" "page_count dm0 = page_count dm" "is_open dm" by (simp_all add: dm0_def) (use fits in \<open>simp add: file_fits_def\<close>)
  let ?dm' = "put_page 0 (superblock dm1) dm1\<lparr>free_pages := insert p (free_pages dm1)\<rparr>"
  have r: "DeallocateIdempotent p dm = (?dm', Code_Ok)"
    using False p n not_invalid[OF p(2)] Persist_fits[OF fits1] w
    by (simp add: DeallocateIdempotent_def DeallocatePage_def PushFreePageUnlocked_def Let_def dm1_def[symmetric] not_le)
  have "changes_only {p} dm ?dm'"
    unfolding changes_only_def
  proof (intro conjI allI impI)
    have "file_fits (put_page 0 (superblock dm1) dm1)" by (rule put_page_fits[OF fits1]) (simp_all add: dm1_def n z)
    then show "file_fits ?dm'" by (simp add: file_fits_def)
    fix q assume q: "q \<noteq> 0" "q < page_count dm" "q \<notin> {p}"
    have "page_at q (disk_file (put_page 0 (superblock dm1) dm1)) = page_at q (disk_file dm1)"
      using q by (intro persisted_at[OF fits1]) (simp_all add: dm1_def n)
    also have "\<dots> = page_at q (disk_file dm)"
      using q put_page_at[OF fits p(2) b, of q] by (simp add: dm1_def dm0_def)
    finally show "page_at q (disk_file ?dm') = page_at q (disk_file dm)" by simp
  qed (simp add: dm1_def n)
  then show ?thesis using r by (simp add: dm1_def n)
qed


subsection \<open>Redo\<close>

definition redone :: "LogRecord list \<Rightarrow> page_id_t \<Rightarrow> LogRecord \<Rightarrow> bool" where
  "redone rs p r \<longleftrightarrow>
     committed rs (rec_txn r) \<and> updates p r \<or>
     unfinished rs (rec_txn r) \<and> is_clr r \<and> compensation_type r = L_PageUpdate \<and> rec_page r = p"

lemma valid_images:
  assumes "record_valid r"
  shows "rec_type r = L_PageUpdate \<Longrightarrow> length (before_image r) = page_size \<and> length (after_image r) = page_size"
    "is_clr r \<Longrightarrow> compensation_type r \<in> {L_PageUpdate, L_PageAllocate, L_PageFree}"
    "is_clr r \<Longrightarrow> compensation_type r = L_PageUpdate \<Longrightarrow> length (after_image r) = page_size"
  using assms by (auto simp: record_valid_def encode_checks_def is_clr_def split: if_splits)

lemma redo_record_result:
  assumes ok: "log_ok rs" and rec: "log_recoverable n base rs" and r: "r \<in> set rs"
    and dm: "file_fits dm" "page_count dm = n"
  shows "\<exists>dm'. redo_record (analyse rs) r dm = (dm', Code_Ok) \<and> file_fits dm' \<and> page_count dm' = n \<and>
    (\<forall>p. p \<noteq> 0 \<longrightarrow> p < n \<longrightarrow> \<not> recovery_frees rs p \<longrightarrow>
       page_at p (disk_file dm') = (if redone rs p r then after_image r else page_at p (disk_file dm)))"
proof -
  let ?p = "rec_page r"
  have v: "record_valid r" using ok r by (simp add: log_ok_def)
  have pg: "?p \<noteq> 0" "?p < page_count dm" if "undoable r \<or> is_clr r" using that rec r dm(2) by (auto simp: log_recoverable_def)
  have nc: "\<not> committed rs (rec_txn r)" if "is_clr r" using that rec r by (auto simp: log_recoverable_def)
  have wr: "\<exists>dm'. WriteImage ?p (after_image r) dm = (dm', Code_Ok) \<and> file_fits dm' \<and> page_count dm' = n \<and>
      (\<forall>q. q \<noteq> 0 \<longrightarrow> q < n \<longrightarrow> page_at q (disk_file dm') = (if q = ?p then after_image r else page_at q (disk_file dm)))"
    if "undoable r \<or> is_clr r" "length (after_image r) = page_size"
    using WriteImage_fits[OF dm(1) pg(2)[OF that(1)] that(2)] dm(2) by (fastforce simp: changes_only_def)
  have de: "\<exists>dm'. DeallocateIdempotent ?p dm = (dm', Code_Ok) \<and> file_fits dm' \<and> page_count dm' = n \<and>
      (\<forall>q. q \<noteq> 0 \<longrightarrow> q < n \<longrightarrow> q \<noteq> ?p \<longrightarrow> page_at q (disk_file dm') = page_at q (disk_file dm))"
    if "undoable r \<or> is_clr r"
    using Dealloc_fits[OF dm(1) pg[OF that]] dm(2) by (fastforce simp: changes_only_def)
  note S = analyse_sets(1,2)[OF ok]
  have excl: "\<not> (committed rs t \<and> unfinished rs t)" for t by (auto simp: committed_def unfinished_def)
  consider (skip) "\<not> committed rs (rec_txn r)" "\<not> (unfinished rs (rec_txn r) \<and> is_clr r)"
    | (win) "committed rs (rec_txn r)"
    | (los) "unfinished rs (rec_txn r)" "is_clr r" by blast
  then show ?thesis
  proof cases
    case skip
    then show ?thesis using dm by (auto simp: redo_record_def S is_clr_def redone_def)
  next
    case win
    have cl: "\<not> is_clr r" using nc win by blast
    have un: "\<not> unfinished rs (rec_txn r)" using win excl by blast
    consider "rec_type r = L_PageUpdate" | "rec_type r = L_PageFree" | "rec_type r \<noteq> L_PageUpdate" "rec_type r \<noteq> L_PageFree"
      by blast
    then show ?thesis
    proof cases
      case 1
      then show ?thesis using wr[OF _ conjunct2[OF valid_images(1)[OF v 1]]] win un
        by (auto simp: redo_record_def S undoable_def redone_def updates_def)
    next
      case 2
      have "recovery_frees rs ?p" using 2 win r by (auto simp: recovery_frees_def)
      then show ?thesis using de 2 win un
        by (fastforce simp: redo_record_def S undoable_def redone_def updates_def)
    next
      case 3
      then show ?thesis using win cl un dm by (auto simp: redo_record_def S is_clr_def redone_def updates_def)
    qed
  next
    case los
    have nw: "\<not> committed rs (rec_txn r)" using los(1) excl by blast
    have rr: "redo_record (analyse rs) r dm = RedoCompensation r dm"
      using los nw by (simp add: redo_record_def S is_clr_def)
    consider "compensation_type r = L_PageUpdate" | "compensation_type r = L_PageAllocate" | "compensation_type r = L_PageFree"
      using valid_images(2)[OF v los(2)] by blast
    then show ?thesis
    proof cases
      case 1
      then show ?thesis using wr[OF _ valid_images(3)[OF v los(2) 1]] los nw
        unfolding rr by (auto simp: RedoCompensation_def redone_def)
    next
      case 2
      have "recovery_frees rs ?p" using 2 los r by (auto simp: recovery_frees_def)
      then show ?thesis using de 2 los nw unfolding rr by (fastforce simp: RedoCompensation_def redone_def)
    next
      case 3
      then show ?thesis using dm nw unfolding rr by (auto simp: RedoCompensation_def redone_def)
    qed
  qed
qed

lemma redo_loop_result:
  assumes ok: "log_ok rs" and rec: "log_recoverable n base rs"
  shows "set zs \<subseteq> set rs \<Longrightarrow> file_fits dm \<Longrightarrow> page_count dm = n \<Longrightarrow>
    \<exists>dm'. redo_loop (analyse rs) zs dm = (dm', Code_Ok) \<and> file_fits dm' \<and> page_count dm' = n \<and>
      (\<forall>p. p \<noteq> 0 \<longrightarrow> p < n \<longrightarrow> \<not> recovery_frees rs p \<longrightarrow>
         page_at p (disk_file dm') =
           (case filter (redone rs p) zs of [] \<Rightarrow> page_at p (disk_file dm) | xs \<Rightarrow> after_image (last xs)))"
proof (induction zs arbitrary: dm)
  case (Cons r zs)
  obtain dm1 where 1: "redo_record (analyse rs) r dm = (dm1, Code_Ok)" "file_fits dm1" "page_count dm1 = n"
    "\<And>p. p \<noteq> 0 \<Longrightarrow> p < n \<Longrightarrow> \<not> recovery_frees rs p \<Longrightarrow>
       page_at p (disk_file dm1) = (if redone rs p r then after_image r else page_at p (disk_file dm))"
    using redo_record_result[OF ok rec _ Cons.prems(2,3), of r] Cons.prems(1) by auto
  have "set zs \<subseteq> set rs" using Cons.prems(1) by simp
  from Cons.IH[OF this 1(2,3)] obtain dm2 where 2: "redo_loop (analyse rs) zs dm1 = (dm2, Code_Ok)" "file_fits dm2" "page_count dm2 = n"
    "\<And>p. p \<noteq> 0 \<Longrightarrow> p < n \<Longrightarrow> \<not> recovery_frees rs p \<Longrightarrow> page_at p (disk_file dm2) =
       (case filter (redone rs p) zs of [] \<Rightarrow> page_at p (disk_file dm1) | xs \<Rightarrow> after_image (last xs))" by blast
  have "page_at p (disk_file dm2) =
      (case filter (redone rs p) (r # zs) of [] \<Rightarrow> page_at p (disk_file dm) | xs \<Rightarrow> after_image (last xs))"
    if "p \<noteq> 0" "p < n" "\<not> recovery_frees rs p" for p
    using 1(4)[OF that] 2(4)[OF that] by (cases "filter (redone rs p) zs") auto
  then show ?case using 1(1) 2 by simp
qed simp


subsection \<open>The order of a transaction's records\<close>

lemma filter_split:
  "filter Q xs = as @ u # bs \<Longrightarrow> \<exists>pre post. xs = pre @ u # post \<and> filter Q pre = as \<and> filter Q post = bs"
proof (induction xs arbitrary: as)
  case (Cons x xs)
  show ?case
  proof (cases "Q x \<and> as = []")
    case True
    then show ?thesis using Cons.prems by (intro exI[of _ "[]"] exI[of _ xs]) simp
  next
    case False
    then have "filter Q xs = (if Q x then tl as else as) @ u # bs"
      using Cons.prems by (cases as) auto
    from Cons.IH[OF this] obtain pre post where "xs = pre @ u # post"
      "filter Q pre = (if Q x then tl as else as)" "filter Q post = bs" by blast
    then show ?thesis using Cons.prems False by (intro exI[of _ "x # pre"] exI[of _ post]) (cases as; auto)
  qed
qed simp

lemma last_filter_nth:
  "filter P xs \<noteq> [] \<Longrightarrow>
   \<exists>i < length xs. xs ! i = last (filter P xs) \<and> P (xs ! i) \<and> (\<forall>j. i < j \<longrightarrow> j < length xs \<longrightarrow> \<not> P (xs ! j))"
proof (induction xs rule: rev_induct)
  case (snoc x xs)
  show ?case
  proof (cases "P x")
    case True
    then show ?thesis by (intro exI[of _ "length xs"]) simp
  next
    case False
    then obtain i where "i < length xs" "xs ! i = last (filter P xs)" "P (xs ! i)"
      "\<forall>j. i < j \<longrightarrow> j < length xs \<longrightarrow> \<not> P (xs ! j)" using snoc by auto
    then show ?thesis using False by (intro exI[of _ i]) (auto simp: nth_append less_Suc_eq)
  qed
qed simp

lemma last_filter: "xs \<noteq> [] \<Longrightarrow> Q (last xs) \<Longrightarrow> last (filter Q xs) = last xs"
  by (induction xs rule: rev_induct) auto

lemma compensates_nth:
  "compensates us cs \<longleftrightarrow> length cs \<le> length us \<and> (\<forall>i < length cs. clr_of (us ! i) (cs ! i))"
proof (induction us cs rule: compensates.induct)
  case (3 u us c cs)
  then show ?case by (auto simp: nth_Cons' less_Suc_eq_0_disj split: if_splits)
qed simp_all

lemma of_txn_simps [simp]: "of_txn t [] = []" "of_txn t (xs @ ys) = of_txn t xs @ of_txn t ys"
  "of_txn t (r # rs) = (if rec_txn r = t then r # of_txn t rs else of_txn t rs)"
  by (simp_all add: of_txn_def)

lemma changes_simps [simp]: "changes_of t (xs @ ys) = changes_of t xs @ changes_of t ys"
  "clrs_of t (xs @ ys) = clrs_of t xs @ clrs_of t ys"
  "changes_of t (r # rs) = (if rec_txn r = t \<and> undoable r then r # changes_of t rs else changes_of t rs)"
  "clrs_of t (r # rs) = (if rec_txn r = t \<and> is_clr r then r # clrs_of t rs else clrs_of t rs)"
  "changes_of t [] = []" "clrs_of t [] = []"
  by (simp_all add: changes_of_def clrs_of_def)

lemma set_changes: "r \<in> set (changes_of t rs) \<longleftrightarrow> r \<in> set rs \<and> rec_txn r = t \<and> undoable r"
  "r \<in> set (clrs_of t rs) \<longleftrightarrow> r \<in> set rs \<and> rec_txn r = t \<and> is_clr r"
  by (auto simp: changes_of_def clrs_of_def of_txn_def)

lemma changes_split:
  assumes "changes_of t rs = as @ u # bs"
  shows "\<exists>pre post. rs = pre @ u # post \<and> changes_of t pre = as \<and> changes_of t post = bs"
proof -
  have c: "changes_of t xs = filter (\<lambda>r. rec_txn r = t \<and> undoable r) xs" for xs
    by (induction xs) auto
  show ?thesis using filter_split[of _ rs as u bs] assms unfolding c by blast
qed

lemma loser_order:
  assumes "loser_ok rs t" "rs = pre @ u # post" "rec_txn u = t" "\<not> is_clr u" "c \<in> set pre" "rec_txn c = t"
  shows "\<not> is_clr c"
proof -
  have "sorted_wrt (\<lambda>a b. is_clr a \<longrightarrow> is_clr b) (filter (\<lambda>r. \<not> is_clr r) xs @ filter is_clr ys)" for xs ys
  proof -
    have "sorted_wrt (\<lambda>a b. is_clr a \<longrightarrow> is_clr b) (filter (\<lambda>r. \<not> is_clr r) zs)"
      "sorted_wrt (\<lambda>a b. is_clr a \<longrightarrow> is_clr b) (filter is_clr zs)" for zs
      by (induction zs) auto
    then show ?thesis by (auto simp: sorted_wrt_append)
  qed
  then have "sorted_wrt (\<lambda>a b. is_clr a \<longrightarrow> is_clr b) (of_txn t rs)"
    using assms(1) unfolding loser_ok_def clrs_of_def by metis
  then show ?thesis using assms(2-) by (auto simp: sorted_wrt_append of_txn_def)
qed

lemma loser_clr_matches:
  assumes "loser_ok rs t" "i < length (clrs_of t rs)"
  shows "i < length (changes_of t rs)" "clr_of (rev (changes_of t rs) ! i) (clrs_of t rs ! i)"
  using assms by (auto simp: loser_ok_def compensates_nth)

lemma remaining_iff:
  assumes "loser_ok rs t" "j < length (changes_of t rs)" "length (clrs_of t rs) \<le> j"
  shows "rev (changes_of t rs) ! j \<in> set (remaining rs t)"
proof -
  let ?n = "length (changes_of t rs)" and ?k = "length (clrs_of t rs)"
  have "rev (changes_of t rs) ! j = changes_of t rs ! (?n - Suc j)" using assms(2) by (rule rev_nth)
  also have "\<dots> = take (?n - ?k) (changes_of t rs) ! (?n - Suc j)" using assms by simp
  also have "\<dots> \<in> set (take (?n - ?k) (changes_of t rs))" using assms by (intro nth_mem) simp
  finally show ?thesis by (simp add: remaining_def)
qed


subsection \<open>The pages after redo\<close>

text \<open>No unfinished transaction has a change of the page left to undo.\<close>

definition clean :: "LogRecord list \<Rightarrow> page_id_t \<Rightarrow> bool" where
  "clean rs p \<longleftrightarrow> (\<forall>t. unfinished rs t \<longrightarrow> (\<forall>r \<in> set (remaining rs t). \<not> updates p r))"

text \<open>The first change of a page by an unfinished transaction saved the committed contents.\<close>

lemma first_update_committed:
  assumes rec: "log_recoverable n base rs" and t: "unfinished rs t"
    and c: "changes_of t rs = as @ u # bs" and u: "updates p u" and first: "\<forall>e \<in> set as. \<not> updates p e"
  obtains pre post where "rs = pre @ u # post" "before_image u = committed_page rs rs base p"
    "\<forall>e \<in> set post. committed rs (rec_txn e) \<longrightarrow> \<not> updates p e" "changes_of t pre = as" "rec_txn u = t"
proof -
  obtain pre post where s: "rs = pre @ u # post" "changes_of t pre = as" using changes_split[OF c] by blast
  have ut: "rec_txn u = t" "undoable u" using c set_changes(1)[of u t rs] by auto
  have ex: "\<not> committed rs t" using t by (auto simp: committed_def unfinished_def)
  have none: "\<forall>e \<in> set pre. rec_txn e = t \<longrightarrow> \<not> updates p e"
    using first s(2) set_changes(1)[of _ t pre] by (force simp: undoable_def updates_def)
  have p: "rec_page u = p" "rec_type u = L_PageUpdate" using u by (simp_all add: updates_def)
  have "\<forall>e \<in> set pre. rec_txn e = rec_txn u \<longrightarrow> \<not> updates (rec_page u) e" using none by (simp add: p ut(1))
  moreover have "unfinished rs (rec_txn u)" using t by (simp add: ut(1))
  ultimately have "before_image u = committed_page rs pre base (rec_page u) \<and>
      (\<forall>e \<in> set post. committed rs (rec_txn e) \<longrightarrow> \<not> updates (rec_page u) e)"
    using rec s(1) p(2) unfolding log_recoverable_def by blast
  then have D: "before_image u = committed_page rs pre base p"
    "\<forall>e \<in> set post. committed rs (rec_txn e) \<longrightarrow> \<not> updates p e" by (simp_all add: p)
  have drop: "filter Q (pre @ u # post) = filter Q pre" if "\<not> Q u" "\<forall>e \<in> set post. \<not> Q e" for Q
    using that by (auto simp: filter_empty_conv)
  have "filter (\<lambda>r. committed rs (rec_txn r) \<and> updates p r) (pre @ u # post) =
      filter (\<lambda>r. committed rs (rec_txn r) \<and> updates p r) pre"
    using D(2) ex ut(1) by (intro drop) auto
  then have "committed_page rs rs base p = committed_page rs pre base p" by (simp add: committed_page_def s(1)[symmetric])
  then show thesis using that[OF s(1) _ D(2) s(2) ut(1)] D(1) by simp
qed

lemma last_clr_image:
  assumes rec: "log_recoverable n base rs" and t: "unfinished rs t" and cl: "clean rs p"
    and x: "filter (redone rs p) rs \<noteq> []" "x = last (filter (redone rs p) rs)" "rec_txn x = t"
  shows "after_image x = committed_page rs rs base p"
proof -
  let ?us = "rev (changes_of t rs)" and ?cs = "clrs_of t rs"
  have lok: "loser_ok rs t" using rec t by (simp add: log_recoverable_def)
  have xr: "redone rs p x" "x \<in> set rs" using x last_in_set[OF x(1)] by auto
  have ex: "\<not> committed rs t" using t by (auto simp: committed_def unfinished_def)
  then have xc: "is_clr x" using xr(1) x(3) by (simp add: redone_def)
  have "filter (redone rs p) ?cs = filter (\<lambda>r. rec_txn r = t \<and> is_clr r) (filter (redone rs p) rs)"
    by (simp add: clrs_of_def of_txn_def conj_ac filter_filter)
  moreover have "last \<dots> = last (filter (redone rs p) rs)" using x xc by (intro last_filter) auto
  ultimately have f: "last (filter (redone rs p) ?cs) = x" using x(2) by simp
  have "x \<in> set ?cs" using xr(2) x(3) xc by (simp add: set_changes)
  then have "filter (redone rs p) ?cs \<noteq> []" using xr(1) by (auto simp: filter_empty_conv)
  from last_filter_nth[OF this] f obtain i where i: "i < length ?cs" "?cs ! i = x"
    and after: "\<And>j. i < j \<Longrightarrow> j < length ?cs \<Longrightarrow> \<not> redone rs p (?cs ! j)" by auto
  note M = loser_clr_matches[OF lok]
  have clr: "clr_of (?us ! i) x" using M(2)[OF i(1)] i(2) by simp
  have up: "updates p (?us ! i)" using clr xr(1) ex x(3) by (auto simp: clr_of_def redone_def updates_def)
  have later: "\<not> updates p (?us ! j)" if j: "i < j" "j < length ?us" for j
  proof
    assume u: "updates p (?us ! j)"
    have "j < length ?cs"
    proof (rule ccontr)
      assume "\<not> j < length ?cs"
      then have "?us ! j \<in> set (remaining rs t)" using remaining_iff[OF lok] j by simp
      then show False using cl t u by (auto simp: clean_def)
    qed
    moreover from this have "redone rs p (?cs ! j)"
      using M(2)[of j] u t nth_mem[of j ?cs] set_changes(2)[of "?cs ! j" t rs]
      by (auto simp: clr_of_def redone_def updates_def)
    ultimately show False using after j(1) by blast
  qed
  have il: "i < length ?us" using M(1)[OF i(1)] by simp
  have "changes_of t rs = rev (drop (Suc i) ?us) @ ?us ! i # rev (take i ?us)"
    using id_take_nth_drop[OF il] by (metis rev_append rev_rev_ident rev.simps(2) append.assoc append_Cons append_Nil)
  moreover have "\<forall>e \<in> set (rev (drop (Suc i) ?us)). \<not> updates p e"
    using later by (auto simp: in_set_conv_nth simp del: rev_drop)
  ultimately obtain pre where "before_image (?us ! i) = committed_page rs rs base p"
    using first_update_committed[OF rec t _ up] by metis
  then show ?thesis using clr up by (simp add: clr_of_def updates_def)
qed

lemma redo_restores:
  assumes rec: "log_recoverable n base rs" and cl: "clean rs p"
    and untouched: "\<not> touched rs p \<Longrightarrow> old = base p"
  shows "(case filter (redone rs p) rs of [] \<Rightarrow> old | xs \<Rightarrow> after_image (last xs)) = committed_page rs rs base p"
proof (cases "\<exists>t. unfinished rs t \<and> (\<exists>u \<in> set rs. rec_txn u = t \<and> updates p u)")
  case False
  have "redone rs p r \<longleftrightarrow> committed rs (rec_txn r) \<and> updates p r" if r: "r \<in> set rs" for r
  proof -
    have "\<not> (unfinished rs (rec_txn r) \<and> is_clr r \<and> compensation_type r = L_PageUpdate \<and> rec_page r = p)"
    proof
      assume c: "unfinished rs (rec_txn r) \<and> is_clr r \<and> compensation_type r = L_PageUpdate \<and> rec_page r = p"
      let ?t = "rec_txn r"
      have lok: "loser_ok rs ?t" using rec c by (simp add: log_recoverable_def)
      have "r \<in> set (clrs_of ?t rs)" using r c by (simp add: set_changes)
      then obtain i where i: "i < length (clrs_of ?t rs)" "clrs_of ?t rs ! i = r" by (auto simp: in_set_conv_nth)
      let ?u = "rev (changes_of ?t rs) ! i"
      have "?u \<in> set (changes_of ?t rs)" using loser_clr_matches(1)[OF lok i(1)] by (metis length_rev nth_mem set_rev)
      then have "?u \<in> set rs" "rec_txn ?u = ?t" by (simp_all add: set_changes)
      moreover have "updates p ?u" using loser_clr_matches(2)[OF lok i(1)] i(2) c by (auto simp: clr_of_def updates_def)
      ultimately show False using False c by blast
    qed
    then show ?thesis by (auto simp: redone_def)
  qed
  then have f: "filter (redone rs p) rs = filter (\<lambda>r. committed rs (rec_txn r) \<and> updates p r) rs"
    by (intro filter_cong) auto
  show ?thesis
  proof (cases "filter (redone rs p) rs")
    case Nil
    then have "\<not> touched rs p" using False unfolding f by (auto simp: touched_def filter_empty_conv)
    then show ?thesis using Nil untouched unfolding f committed_page_def by simp
  next
    case (Cons y ys)
    then show ?thesis unfolding f committed_page_def by simp
  qed
next
  case True
  then obtain t u0 where t: "unfinished rs t" and u0: "u0 \<in> set rs" "rec_txn u0 = t" "updates p u0" by blast
  let ?us = "rev (changes_of t rs)" and ?cs = "clrs_of t rs"
  have lok: "loser_ok rs t" using rec t by (simp add: log_recoverable_def)
  have "u0 \<in> set (changes_of t rs)" using u0 by (simp add: set_changes undoable_def updates_def)
  then obtain as u bs where s: "changes_of t rs = as @ u # bs" "updates p u" "\<forall>e \<in> set as. \<not> updates p e"
    using split_list_first_prop[of "changes_of t rs" "updates p"] u0(3) by blast
  obtain pre post where D: "rs = pre @ u # post" "\<forall>e \<in> set post. committed rs (rec_txn e) \<longrightarrow> \<not> updates p e" "rec_txn u = t"
    using first_update_committed[OF rec t s(1,2,3)] by metis
  have unc: "\<not> is_clr u" using s(2) by (simp add: updates_def is_clr_def)
  define j where "j = length bs"
  have j: "j < length ?us" "?us ! j = u" using s(1) by (simp_all add: j_def nth_append)
  have "j < length ?cs"
  proof (rule ccontr)
    assume "\<not> j < length ?cs"
    then have "u \<in> set (remaining rs t)" using remaining_iff[OF lok, of j] j by simp
    then show False using cl t s(2) by (auto simp: clean_def)
  qed
  then have c: "?cs ! j \<in> set ?cs" "clr_of u (?cs ! j)" using loser_clr_matches(2)[OF lok, of j] j(2) by simp_all
  have cr: "redone rs p (?cs ! j)" using c s(2) t by (auto simp: set_changes redone_def clr_of_def updates_def)
  have cin: "?cs ! j \<in> set rs" "rec_txn (?cs ! j) = t" "is_clr (?cs ! j)" using c(1) by (simp_all add: set_changes)
  have "?cs ! j \<notin> set pre" using loser_order[OF lok D(1,3) unc] cin by blast
  moreover have "?cs ! j \<noteq> u" using unc cin(3) by auto
  ultimately have post: "?cs ! j \<in> set post" using cin(1) by (simp add: D(1))
  let ?f = "filter (redone rs p)"
  have ne: "?f post \<noteq> []" using post cr by (auto simp: filter_empty_conv)
  have l: "last (?f rs) = last (?f post)" by (subst D(1)) (simp add: ne)
  have nr: "?f rs \<noteq> []" by (subst D(1)) (simp add: ne)
  have "last (?f post) \<in> set post" "redone rs p (last (?f post))" using last_in_set[OF ne] by auto
  then have "unfinished rs (rec_txn (last (?f rs)))" using D(2) l by (auto simp: redone_def)
  from last_clr_image[OF rec this cl nr refl refl] nr show ?thesis by (cases "?f rs") auto
qed


subsection \<open>Extending the log\<close>

text \<open>Compensation records of unfinished transactions change no transaction's fate.\<close>

lemma clr_append_status:
  assumes "is_clr c"
  shows "committed (rs @ [c]) t = committed rs t"
    "unfinished rs (rec_txn c) \<Longrightarrow> unfinished (rs @ [c]) t = unfinished rs t"
  using assms by (auto simp: committed_def unfinished_def ends_of_def is_clr_def)

lemma clr_append_frees:
  assumes "is_clr c" "unfinished rs (rec_txn c)"
    and "compensation_type c = L_PageAllocate \<Longrightarrow> recovery_frees rs (rec_page c)"
  shows "recovery_frees (rs @ [c]) p = recovery_frees rs p"
proof -
  have "\<not> committed rs (rec_txn c)" "rec_type c \<noteq> L_PageAllocate"
    using assms(1,2) by (auto simp: committed_def unfinished_def is_clr_def)
  then show ?thesis using assms by (auto simp: recovery_frees_def clr_append_status)
qed

lemma clr_append_touched:
  assumes "is_clr c" "unfinished rs (rec_txn c)"
  shows "touched (rs @ [c]) p = touched rs p"
  using assms by (auto simp: touched_def clr_append_status updates_def is_clr_def)

lemma clr_append_committed_page:
  assumes "is_clr c"
  shows "committed_page (rs @ [c]) part base p = committed_page rs part base p"
    "committed_page (rs @ [c]) (part @ [c]) base p = committed_page rs part base p"
  using assms by (auto simp: committed_page_def clr_append_status updates_def is_clr_def)

lemma undoable_not_clr: "undoable r \<Longrightarrow> \<not> is_clr r"
  by (auto simp: undoable_def is_clr_def)

text \<open>The next record to compensate is the last remaining change.\<close>

lemma clr_append_loser:
  assumes lok: "loser_ok rs t" and rem: "remaining rs t = as @ [u]"
    and c: "is_clr c" "rec_txn c = t" "clr_of u c"
  shows "loser_ok (rs @ [c]) t" "remaining (rs @ [c]) t = as"
proof -
  let ?n = "length (changes_of t rs)" and ?k = "length (clrs_of t rs)"
  have nu: "\<not> undoable c" using c(1) undoable_not_clr by blast
  have lt: "?k < ?n" using rem by (auto simp: remaining_def intro: ccontr)
  have take: "take (?n - ?k) (changes_of t rs) = as @ [u]" using rem by (simp add: remaining_def)
  then have len: "?n - ?k = Suc (length as)" using lt by (metis length_append_singleton length_take min.absorb2 diff_le_self)
  have "changes_of t rs ! length as = take (?n - ?k) (changes_of t rs) ! length as" using len by simp
  also have "\<dots> = u" by (simp add: take)
  finally have at: "changes_of t rs ! length as = u" .
  have "?n - Suc ?k = length as" using len by simp
  then have u: "rev (changes_of t rs) ! ?k = u" using lt at by (simp add: rev_nth)
  have "compensates (rev (changes_of t rs)) (clrs_of t rs @ [c])"
    using lok lt u c(3) by (auto simp: loser_ok_def compensates_nth nth_append less_Suc_eq)
  then show "loser_ok (rs @ [c]) t" using lok c nu by (simp add: loser_ok_def)
  have "take (?n - Suc ?k) (changes_of t rs) = butlast (take (?n - ?k) (changes_of t rs))"
    using lt by (simp add: butlast_take)
  then show "remaining (rs @ [c]) t = as" using c nu take by (simp add: remaining_def)
qed

lemma append_other:
  assumes "rec_txn c \<noteq> t"
  shows "loser_ok (rs @ [c]) t = loser_ok rs t" "remaining (rs @ [c]) t = remaining rs t"
  using assms by (simp_all add: loser_ok_def remaining_def)

lemma clr_append_recoverable:
  assumes rec: "log_recoverable n base rs" and t: "unfinished rs t" and rem: "remaining rs t = as @ [u]"
    and c: "is_clr c" "rec_txn c = t" "clr_of u c"
  shows "log_recoverable n base (rs @ [c])"
  unfolding log_recoverable_def
proof (intro conjI allI ballI impI)
  have un: "unfinished rs (rec_txn c)" using t c(2) by simp
  note st = clr_append_status[OF c(1)] clr_append_status(2)[OF c(1) un]
  have R: "\<And>r. r \<in> set rs \<Longrightarrow> undoable r \<or> is_clr r \<Longrightarrow> rec_page r \<noteq> 0 \<and> rec_page r < n"
    "\<And>r. r \<in> set rs \<Longrightarrow> is_clr r \<Longrightarrow> \<not> committed rs (rec_txn r)"
    "\<And>t. unfinished rs t \<Longrightarrow> loser_ok rs t"
    using rec by (auto simp: log_recoverable_def)
  have "u \<in> set (remaining rs t)" by (simp add: rem)
  then have "u \<in> set (changes_of t rs)" unfolding remaining_def by (rule in_set_takeD)
  then have u: "u \<in> set rs" "undoable u" by (auto simp: set_changes)
  fix r assume r: "r \<in> set (rs @ [c])"
  show "rec_page r \<noteq> 0" "rec_page r < n" if "undoable r \<or> is_clr r"
    using that r R(1) u c(3) by (auto simp: clr_of_def)
  show "\<not> committed (rs @ [c]) (rec_txn r)" if "is_clr r"
  proof -
    have "\<not> committed rs (rec_txn c)" using un by (auto simp: committed_def unfinished_def)
    then show ?thesis using that r R(2) by (auto simp: st)
  qed
next
  have un: "unfinished rs (rec_txn c)" using t c(2) by simp
  fix t' assume "unfinished (rs @ [c]) t'"
  then have "unfinished rs t'" using clr_append_status(2)[OF c(1) un] by simp
  then have "loser_ok rs t'" using rec by (simp add: log_recoverable_def)
  then show "loser_ok (rs @ [c]) t'"
    using clr_append_loser(1)[OF _ rem c] append_other(1)[of c t'] c(2) by (cases "t' = t") auto
next
  have un: "unfinished rs (rec_txn c)" using t c(2) by simp
  note st = clr_append_status[OF c(1)] clr_append_status(2)[OF c(1) un]
  fix pre r post
  assume a: "rs @ [c] = pre @ r # post" "unfinished (rs @ [c]) (rec_txn r)" "rec_type r = L_PageUpdate"
    "\<forall>e \<in> set pre. rec_txn e = rec_txn r \<longrightarrow> \<not> updates (rec_page r) e"
  have rc: "r \<noteq> c" using a(3) c(1) by (auto simp: is_clr_def)
  then have "post \<noteq> []" using a(1) by auto
  then obtain post' where post: "post = post' @ [c]" "rs = pre @ r # post'"
    using a(1) by (cases post rule: rev_cases) auto
  have "before_image r = committed_page rs pre base (rec_page r) \<and>
      (\<forall>e \<in> set post'. committed rs (rec_txn e) \<longrightarrow> \<not> updates (rec_page r) e)"
    using rec post(2) a(2-4) st(3) unfolding log_recoverable_def by blast
  moreover have "\<not> committed rs (rec_txn c)" using un by (auto simp: committed_def unfinished_def)
  ultimately show "before_image r = committed_page (rs @ [c]) pre base (rec_page r)"
    "\<And>e. e \<in> set post \<Longrightarrow> committed (rs @ [c]) (rec_txn e) \<Longrightarrow> \<not> updates (rec_page r) e"
    using clr_append_committed_page(1)[OF c(1), of rs pre base "rec_page r"] by (auto simp: post(1) st)
qed


lemma clrs_append_status:
  assumes "\<forall>c \<in> set new. is_clr c \<and> unfinished rs (rec_txn c)"
  shows "committed (rs @ new) t = committed rs t" "unfinished (rs @ new) t = unfinished rs t"
proof -
  have "\<forall>t. committed (rs @ new) t = committed rs t \<and> unfinished (rs @ new) t = unfinished rs t"
    using assms
  proof (induction new rule: rev_induct)
    case (snoc c new)
    have IH: "committed (rs @ new) t = committed rs t" "unfinished (rs @ new) t = unfinished rs t" for t
      using snoc by simp_all
    then have "is_clr c" "unfinished (rs @ new) (rec_txn c)" using snoc.prems by simp_all
    from clr_append_status(1)[OF this(1), of "rs @ new"] clr_append_status(2)[OF this] show ?case by (simp add: IH)
  qed simp
  then show "committed (rs @ new) t = committed rs t" "unfinished (rs @ new) t = unfinished rs t" by blast+
qed

subsection \<open>Following the chains\<close>

definition next_undo :: "LogRecord \<Rightarrow> lsn_t" where
  "next_undo r = (if is_clr r then undo_next_lsn r else rec_prev r)"

fun is_chain :: "LogRecord list \<Rightarrow> txn_id_t \<Rightarrow> lsn_t \<Rightarrow> LogRecord list \<Rightarrow> bool" where
  "is_chain rs t l [] \<longleftrightarrow> l = kInvalidLsn"
| "is_chain rs t l (r # T) \<longleftrightarrow>
     r \<in> set rs \<and> rec_txn r = t \<and> rec_lsn r = l \<and> l \<noteq> kInvalidLsn \<and> is_chain rs t (next_undo r) T"

lemma by_lsn:
  assumes "log_ok rs" "r \<in> set rs"
  shows "records_by_lsn rs (rec_lsn r) = Some r"
proof -
  have "sorted_wrt (<) (map rec_lsn rs)" using assms(1) by (rule log_ok_sorted)
  then have "records_by_lsn rs (rec_lsn r) = Some r" using assms(2)
  proof (induction rs)
    case (Cons x rs)
    then show ?case by (cases "r = x") (auto simp: records_by_lsn_def)
  qed simp
  then show ?thesis .
qed

lemma chain_mono: "is_chain rs t l T \<Longrightarrow> set rs \<subseteq> set rs' \<Longrightarrow> is_chain rs' t l T"
  by (induction T arbitrary: l) auto

lemma follows_split: "log_ok (pre @ r # post) \<Longrightarrow> follows pre r"
  by (simp add: log_ok_def chained_from_append)

text \<open>Back from any point before the first compensation record.\<close>

lemma prev_chain:
  assumes "log_ok pre" "t \<noteq> kInvalidTxnId" "\<forall>r \<in> set pre. rec_txn r = t \<longrightarrow> \<not> is_clr r"
  shows "is_chain pre t (prev_of t pre) (rev (of_txn t pre))"
  using assms
proof (induction pre rule: rev_induct)
  case (snoc r pre)
  have IH: "is_chain (pre @ [r]) t (prev_of t pre) (rev (of_txn t pre))"
    using snoc log_ok_append chain_mono[of pre t _ _ "pre @ [r]"] by auto
  have f: "follows pre r" using snoc.prems(1) by (rule follows_split)
  show ?case
  proof (cases "rec_txn r = t")
    case True
    then show ?thesis using IH f snoc.prems(2,3) by (auto simp: prev_of_snoc follows_def next_undo_def)
  next
    case False
    then show ?thesis using IH by (simp add: prev_of_snoc)
  qed
qed (simp add: prev_of_def)

lemma prev_of_of_txn: "prev_of t rs = (if of_txn t rs = [] then kInvalidLsn else rec_lsn (last (of_txn t rs)))"
  by (simp add: prev_of_def of_txn_def split: list.split)

lemma filter_undoable_of_txn: "filter undoable (rev (of_txn t rs)) = rev (changes_of t rs)"
  by (simp add: changes_of_def rev_filter)

lemma chain_start:
  assumes ok: "log_ok rs" and lok: "loser_ok rs t" and t: "t \<noteq> kInvalidTxnId"
  shows "\<exists>T. is_chain rs t (prev_of t rs) T \<and> filter undoable T = rev (remaining rs t) \<and> length T \<le> length (of_txn t rs)"
proof (cases "clrs_of t rs = []")
  case True
  then have "\<forall>r \<in> set rs. rec_txn r = t \<longrightarrow> \<not> is_clr r" by (auto simp: clrs_of_def of_txn_def filter_empty_conv)
  from prev_chain[OF ok t this] show ?thesis
    using True by (intro exI[of _ "rev (of_txn t rs)"]) (simp add: filter_undoable_of_txn remaining_def)
next
  case False
  let ?n = "length (changes_of t rs)" and ?k = "length (clrs_of t rs)"
  let ?c = "last (clrs_of t rs)"
  have k: "?k - 1 < ?k" using False by (simp add: length_greater_0_conv)
  note M = loser_clr_matches[OF lok k]
  define u where "u = rev (changes_of t rs) ! (?k - 1)"
  have ui: "?n - ?k < ?n" "u = changes_of t rs ! (?n - ?k)"
    using M(1) k by (auto simp: u_def rev_nth)
  have c: "clr_of u ?c" using M(2) by (simp add: u_def last_conv_nth[OF False])
  have split: "changes_of t rs = take (?n - ?k) (changes_of t rs) @ u # drop (Suc (?n - ?k)) (changes_of t rs)"
    unfolding ui(2) by (rule id_take_nth_drop[OF ui(1)])
  from changes_split[OF this] obtain pre post where s: "rs = pre @ u # post" "changes_of t pre = take (?n - ?k) (changes_of t rs)"
    by blast
  have "u \<in> set (changes_of t rs)" using ui by simp
  then have ut: "rec_txn u = t" "undoable u" by (simp_all add: set_changes)
  have "\<forall>r \<in> set pre. rec_txn r = t \<longrightarrow> \<not> is_clr r"
    using loser_order[OF lok s(1) ut(1) undoable_not_clr[OF ut(2)]] by blast
  moreover have "log_ok pre" using ok s(1) log_ok_append by metis
  ultimately have "is_chain pre t (prev_of t pre) (rev (of_txn t pre))" by (intro prev_chain t)
  then have "is_chain rs t (prev_of t pre) (rev (of_txn t pre))" by (rule chain_mono) (auto simp: s(1))
  moreover have "undo_next_lsn ?c = prev_of t pre"
  proof -
    have "follows pre u" using ok unfolding s(1) by (rule follows_split)
    then have "rec_prev u = prev_of t pre" using ut(1) t by (simp add: follows_def)
    then show ?thesis using c by (simp add: clr_of_def)
  qed
  moreover have cin: "?c \<in> set rs" "rec_txn ?c = t" "is_clr ?c" using last_in_set[OF False] by (simp_all add: set_changes)
  moreover have "prev_of t rs = rec_lsn ?c"
  proof -
    have "of_txn t rs = filter (\<lambda>r. \<not> is_clr r) (of_txn t rs) @ clrs_of t rs" using lok by (simp add: loser_ok_def)
    then obtain xs where xs: "of_txn t rs = xs @ clrs_of t rs" by blast
    then have "last (of_txn t rs) = ?c" "of_txn t rs \<noteq> []" using False by simp_all
    then show ?thesis by (simp add: prev_of_of_txn)
  qed
  moreover have "rec_lsn ?c \<noteq> kInvalidLsn"
  proof -
    obtain as bs where "rs = as @ ?c # bs" using cin(1) by (meson split_list)
    then have "follows as ?c" using ok by (metis follows_split)
    then show ?thesis by (simp add: follows_def)
  qed
  ultimately have ch: "is_chain rs t (prev_of t rs) (?c # rev (of_txn t pre))" by (simp add: next_undo_def)
  have "\<not> undoable ?c" using cin(3) undoable_not_clr by blast
  moreover have "remaining rs t = changes_of t pre" using s(2) by (simp add: remaining_def)
  moreover have "length (?c # rev (of_txn t pre)) \<le> length (of_txn t rs)" by (subst s(1)) (simp add: ut(1))
  ultimately show ?thesis using ch by (intro exI[of _ "?c # rev (of_txn t pre)"]) (simp add: filter_undoable_of_txn)
qed


subsection \<open>The undo loop\<close>

text \<open>Where the loop is: \<open>T t\<close> are the records of \<open>t\<close> still to be visited, next one first.\<close>

definition undo_nav :: "LogRecord list \<Rightarrow> (txn_id_t \<Rightarrow> LogRecord list) \<Rightarrow> UndoState \<Rightarrow> bool" where
  "undo_nav rs T s \<longleftrightarrow>
     (\<forall>t. unfinished rs t \<longrightarrow> (\<exists>l. next_lsn s t = Some l \<and> is_chain rs t l (T t))) \<and> distinct (pending s) \<and>
     set (pending s) = {(l, t). unfinished rs t \<and> next_lsn s t = Some l \<and> l \<noteq> kInvalidLsn}"

text \<open>What has been logged (\<open>new\<close>) and done to the pages.\<close>

definition undo_core ::
  "(page_id_t \<Rightarrow> byte list) \<Rightarrow> LogRecord list \<Rightarrow> LogRecord list \<Rightarrow> UndoState \<Rightarrow> bool" where
  "undo_core base rs new s \<longleftrightarrow>
     log_at (rs @ new) (undo_log s) \<and> \<not> fail_next_flush (undo_log s) \<and>
     (\<forall>t. unfinished rs t \<longrightarrow> (\<exists>x. map_of (txn_table s) t = Some x \<and> txn_last_lsn x = prev_of t (rs @ new))) \<and>
     file_fits (undo_disk s) \<and>
     (\<forall>j. log_recoverable (page_count (undo_disk s)) base (rs @ take j new)) \<and>
     (\<forall>c \<in> set new. is_clr c \<and> unfinished rs (rec_txn c)) \<and>
     (\<forall>j p. recovery_frees (rs @ take j new) p = recovery_frees rs p \<and> touched (rs @ take j new) p = touched rs p \<and>
        committed_page (rs @ take j new) (rs @ take j new) base p = committed_page rs rs base p) \<and>
     recovery_last_lsn s \<le> last_lsn_of (rs @ new)"

text \<open>A page with nothing left to undo has its committed contents.\<close>

definition restored :: "page_id_t set \<Rightarrow> (page_id_t \<Rightarrow> byte list) \<Rightarrow> LogRecord list \<Rightarrow> LogRecord list \<Rightarrow> DiskManager \<Rightarrow> bool" where
  "restored F base rs new dm \<longleftrightarrow> (\<forall>p. recovery_frees rs p \<longrightarrow> p \<in> F) \<and>
     (\<forall>p. p \<noteq> 0 \<longrightarrow> p < page_count dm \<longrightarrow> p \<notin> F \<longrightarrow> clean (rs @ new) p \<longrightarrow>
        page_at p (disk_file dm) = committed_page rs rs base p)"

definition to_visit :: "LogRecord list \<Rightarrow> LogRecord list \<Rightarrow> (txn_id_t \<Rightarrow> LogRecord list) \<Rightarrow> bool" where
  "to_visit rs new T \<longleftrightarrow> (\<forall>t. unfinished rs t \<longrightarrow> filter undoable (T t) = rev (remaining (rs @ new) t))"

lemma pending_top_in: "xs \<noteq> [] \<Longrightarrow> pending_top xs \<in> set xs"
proof -
  have "foldl (\<lambda>x y. if pending_less x y then y else x) a ys \<in> insert a (set ys)" for a ys
    by (induction ys arbitrary: a) auto
  then show "xs \<noteq> [] \<Longrightarrow> pending_top xs \<in> set xs" by (cases xs) (auto simp: pending_top_def)
qed

lemma undo_nav_follow:
  assumes nav: "undo_nav rs T s" and t: "unfinished rs t" "next_lsn s t = Some l" and T: "T t = r # T1"
    and s': "pending s' = remove1 (l, t) (pending s)" "next_lsn s' = next_lsn s"
  shows "undo_nav rs (T(t := T1)) (undo_follow t (next_undo r) s')"
proof -
  have c: "is_chain rs t l (r # T1)" and d: "distinct (pending s)"
    and p: "set (pending s) = {(l, t). unfinished rs t \<and> next_lsn s t = Some l \<and> l \<noteq> kInvalidLsn}"
    using nav t T unfolding undo_nav_def by (metis option.inject)+
  have set: "set (pending s') = {(l', t'). unfinished rs t' \<and> next_lsn s t' = Some l' \<and> l' \<noteq> kInvalidLsn \<and> t' \<noteq> t}"
    using s'(1) d p t(2) by auto
  have nx: "\<exists>l'. ((next_lsn s)(t \<mapsto> next_undo r)) u = Some l' \<and> is_chain rs u l' ((T(t := T1)) u)" if "unfinished rs u" for u
    using nav that c by (cases "u = t") (auto simp: undo_nav_def)
  have d': "distinct (pending s')" using s'(1) d by simp
  show ?thesis
    using set nx d' t(1) s'(2) unfolding undo_nav_def undo_follow_def Let_def
    by (cases "next_undo r = kInvalidLsn") auto
qed

lemma undo_follow_frame [simp]:
  "undo_log (undo_follow t l s) = undo_log s" "undo_disk (undo_follow t l s) = undo_disk s"
  "txn_table (undo_follow t l s) = txn_table s" "recovery_last_lsn (undo_follow t l s) = recovery_last_lsn s"
  by (simp_all add: undo_follow_def Let_def)

lemma undo_core_frame:
  "undo_core base rs new s \<Longrightarrow> undo_log s' = undo_log s \<Longrightarrow> undo_disk s' = undo_disk s \<Longrightarrow>
   txn_table s' = txn_table s \<Longrightarrow> recovery_last_lsn s' = recovery_last_lsn s \<Longrightarrow> undo_core base rs new s'"
  by (simp add: undo_core_def)

lemma compensation_for_props:
  assumes "record_valid r" "undoable r"
  shows "record_valid (compensation_for t l r)" "is_clr (compensation_for t l r)" "clr_of r (compensation_for t l r)"
    "rec_txn (compensation_for t l r) = t" "rec_prev (compensation_for t l r) = l"
  using assms valid_images(1)[OF assms(1)]
  by (auto simp: record_valid_def encode_checks_def compensation_for_def LogRecord_default_def Let_def is_clr_def
      clr_of_def undoable_def IsKnown_type_code simp del: type_code.simps)

lemma undo_core_unfinished: "undo_core base rs new s \<Longrightarrow> unfinished (rs @ new) t = unfinished rs t"
  "undo_core base rs new s \<Longrightarrow> committed (rs @ new) t = committed rs t"
  using clrs_append_status[of new rs t] by (simp_all add: undo_core_def)

lemma log_compensation_step:
  assumes core: "undo_core base rs new s" and t: "unfinished rs t" and rem: "remaining (rs @ new) t = as @ [u]"
    and u: "record_valid u" "undoable u" and room: "last_lsn_of (rs @ new) \<noteq> -1"
  shows "\<exists>s' c. log_compensation t u s = (s', Code_Ok) \<and> undo_core base rs (new @ [c]) s' \<and> undo_disk s' = undo_disk s \<and>
    pending s' = pending s \<and> next_lsn s' = next_lsn s \<and> rec_txn c = t \<and> is_clr c \<and>
    remaining (rs @ new @ [c]) t = as \<and> last_lsn_of (rs @ new @ [c]) = last_lsn_of (rs @ new) + 1"
proof -
  let ?n = "page_count (undo_disk s)"
  have core': "log_at (rs @ new) (undo_log s)" "\<not> fail_next_flush (undo_log s)" "file_fits (undo_disk s)"
    "\<And>j. log_recoverable ?n base (rs @ take j new)" "\<forall>c \<in> set new. is_clr c \<and> unfinished rs (rec_txn c)"
    "\<And>j p. recovery_frees (rs @ take j new) p = recovery_frees rs p" "\<And>j p. touched (rs @ take j new) p = touched rs p"
    "\<And>j p. committed_page (rs @ take j new) (rs @ take j new) base p = committed_page rs rs base p"
    "recovery_last_lsn s \<le> last_lsn_of (rs @ new)"
    using core by (simp_all add: undo_core_def)
  have rec: "log_recoverable ?n base (rs @ new)" using core'(4)[of "length new"] by simp
  obtain x where x: "map_of (txn_table s) t = Some x" "txn_last_lsn x = prev_of t (rs @ new)"
    using core t unfolding undo_core_def by blast
  have tn: "t \<noteq> kInvalidTxnId" "unfinished (rs @ new) t"
    using t undo_core_unfinished(1)[OF core, of t] by (simp add: unfinished_def, simp)
  have lok: "loser_ok (rs @ new) t" using rec tn(2) by (simp add: log_recoverable_def)
  let ?prev = "prev_of t (rs @ new)" and ?lsn = "last_lsn_of (rs @ new) + 1"
  let ?r = "compensation_for t ?prev u"
  note P = compensation_for_props[OF u, of t ?prev]
  have n: "normal_record ?r = ?r" using P(2) by (simp add: normal_record_def is_clr_def)
  define c where "c = ?r\<lparr>rec_lsn := ?lsn\<rparr>"
  have c: "is_clr c" "rec_txn c = t" "clr_of u c" using P by (simp_all add: c_def is_clr_def clr_of_def)
  obtain lm where lm: "Append ?r (undo_log s) = (lm, Inr ?lsn)" "log_at ((rs @ new) @ [c]) lm" "\<not> fail_next_flush lm"
    using Append_log[OF core'(1) P(1) n room] tn(1) P(4,5) core'(2) unfolding c_def by metis
  define s' where "s' = s\<lparr>undo_log := lm, txn_table := AList.update t (x\<lparr>txn_last_lsn := ?lsn\<rparr>) (txn_table s),
    recovery_last_lsn := max (recovery_last_lsn s) ?lsn\<rparr>"
  have lc: "log_compensation t u s = (s', Code_Ok)"
    using x lm(1) by (simp add: log_compensation_def last_lsn_in_def s'_def)
  have last: "last_lsn_of (rs @ new @ [c]) = ?lsn" by (simp add: last_lsn_of_def c_def)
  have rem': "remaining (rs @ new @ [c]) t = as" using clr_append_loser(2)[OF lok rem c] by simp
  have un: "unfinished (rs @ new) (rec_txn c)" using tn(2) c(2) by simp
  have take: "take j (new @ [c]) = take j new \<or> take j (new @ [c]) = new @ [c]" for j
    by (cases "j \<le> length new") auto
  have rec': "log_recoverable ?n base (rs @ new @ [c])" using clr_append_recoverable[OF rec tn(2) rem c] by simp
  have uin: "u \<in> set (rs @ new)" "rec_txn u = t"
  proof -
    have "u \<in> set (remaining (rs @ new) t)" by (simp add: rem)
    then have "u \<in> set (changes_of t (rs @ new))" unfolding remaining_def by (rule in_set_takeD)
    then show "u \<in> set (rs @ new)" "rec_txn u = t" by (simp_all only: set_changes)
  qed
  have fr: "recovery_frees (rs @ new @ [c]) p = recovery_frees rs p" for p
  proof -
    have "recovery_frees (rs @ new) (rec_page c)" if "compensation_type c = L_PageAllocate"
      using that c(3) uin tn(2) by (auto simp: clr_of_def recovery_frees_def)
    from clr_append_frees[OF c(1) un this] core'(6)[of "length new" p] show ?thesis by simp
  qed
  have tc: "touched (rs @ new @ [c]) p = touched rs p" for p
    using clr_append_touched[OF c(1) un, of p] core'(7)[of "length new" p] by simp
  have cp: "committed_page (rs @ new @ [c]) (rs @ new @ [c]) base p = committed_page rs rs base p" for p
    using clr_append_committed_page(2)[OF c(1), of "rs @ new" "rs @ new" base p] core'(8)[of "length new" p] by simp
  have tab: "\<exists>x. map_of (txn_table s') t' = Some x \<and> txn_last_lsn x = prev_of t' (rs @ new @ [c])" if "unfinished rs t'" for t'
  proof (cases "t' = t")
    case True
    then show ?thesis using c(2) prev_of_snoc[of t "rs @ new" c] by (simp add: s'_def update_conv' c_def)
  next
    case False
    then show ?thesis
      using core that c(2) prev_of_snoc[of t' "rs @ new" c] by (auto simp: undo_core_def s'_def update_conv')
  qed
  have "recovery_last_lsn s' \<le> ?lsn"
    using core'(9) word_less_succ[OF room] by (auto simp: s'_def intro: order_trans less_imp_le)
  moreover have "log_recoverable ?n base (rs @ take j (new @ [c]))"
    "recovery_frees (rs @ take j (new @ [c])) p = recovery_frees rs p" "touched (rs @ take j (new @ [c])) p = touched rs p"
    "committed_page (rs @ take j (new @ [c])) (rs @ take j (new @ [c])) base p = committed_page rs rs base p" for j p
    using take[of j] core'(4,6-8) rec' fr tc cp by metis+
  moreover have "undo_log s' = lm" "undo_disk s' = undo_disk s" by (simp_all add: s'_def)
  ultimately have "undo_core base rs (new @ [c]) s'"
    unfolding undo_core_def using lm(2,3) core'(3,5) tab c(1,2) t last by simp
  then show ?thesis using lc rem' last c(1,2) by (intro exI[of _ s'] exI[of _ c]) (simp add: s'_def)
qed


lemma undo_record_result:
  assumes fits: "file_fits (undo_disk s)" and v: "record_valid r"
    and pg: "undoable r \<Longrightarrow> rec_page r \<noteq> 0 \<and> rec_page r < page_count (undo_disk s)"
  shows "\<exists>dm'. undo_record r s = (s\<lparr>undo_disk := dm'\<rparr>, Code_Ok) \<and> file_fits dm' \<and> page_count dm' = page_count (undo_disk s) \<and>
    (\<forall>p. p \<noteq> 0 \<longrightarrow> p < page_count dm' \<longrightarrow> \<not> (rec_type r = L_PageAllocate \<and> rec_page r = p) \<longrightarrow>
       page_at p (disk_file dm') = (if updates p r then before_image r else page_at p (disk_file (undo_disk s))))"
proof -
  consider "rec_type r = L_PageUpdate" | "rec_type r = L_PageAllocate" | "rec_type r \<noteq> L_PageUpdate" "rec_type r \<noteq> L_PageAllocate"
    by blast
  then show ?thesis
  proof cases
    case 1
    then have u: "undoable r" by (simp add: undoable_def)
    show ?thesis
      using WriteImage_fits[OF fits conjunct2[OF pg[OF u]] conjunct1[OF valid_images(1)[OF v 1]]] 1
      by (fastforce simp: undo_record_def changes_only_def updates_def)
  next
    case 2
    then have u: "undoable r" by (simp add: undoable_def)
    show ?thesis
      using Dealloc_fits[OF fits conjunct1[OF pg[OF u]] conjunct2[OF pg[OF u]]] 2
      by (fastforce simp: undo_record_def changes_only_def updates_def)
  next
    case 3
    then show ?thesis using fits by (intro exI[of _ "undo_disk s"]) (simp add: undo_record_def updates_def)
  qed
qed

text \<open>One change undone: the page regains its committed contents when it was the first change of the page.\<close>

lemma undo_change_step:
  assumes core: "undo_core base rs new s" and res: "restored F base rs new (undo_disk s)"
    and t: "unfinished rs t" and rem: "remaining (rs @ new) t = as @ [u]" and u: "record_valid u" "undoable u"
    and room: "last_lsn_of (rs @ new) \<noteq> -1"
  shows "\<exists>s1 s2 c. log_compensation t u s = (s1, Code_Ok) \<and> undo_record u s1 = (s2, Code_Ok) \<and>
    undo_core base rs (new @ [c]) s1 \<and> undo_disk s1 = undo_disk s \<and>
    undo_core base rs (new @ [c]) s2 \<and> restored F base rs (new @ [c]) (undo_disk s2) \<and>
    pending s2 = pending s \<and> next_lsn s2 = next_lsn s \<and> page_count (undo_disk s2) = page_count (undo_disk s) \<and>
    rec_txn c = t \<and> is_clr c \<and> remaining (rs @ new @ [c]) t = as \<and>
    last_lsn_of (rs @ new @ [c]) = last_lsn_of (rs @ new) + 1"
proof -
  obtain s1 c where 1: "log_compensation t u s = (s1, Code_Ok)" "undo_core base rs (new @ [c]) s1" "undo_disk s1 = undo_disk s"
    "pending s1 = pending s" "next_lsn s1 = next_lsn s" "rec_txn c = t" "is_clr c"
    "remaining (rs @ new @ [c]) t = as" "last_lsn_of (rs @ new @ [c]) = last_lsn_of (rs @ new) + 1"
    using log_compensation_step[OF core t rem u room] by blast
  let ?n = "page_count (undo_disk s)" and ?k = "length (changes_of t (rs @ new)) - length (clrs_of t (rs @ new))"
  have fits: "file_fits (undo_disk s)" and recj: "\<And>j. log_recoverable ?n base (rs @ take j new)"
    using core by (auto simp: undo_core_def)
  have rec: "log_recoverable ?n base (rs @ new)" using recj[of "length new"] by simp
  have ch: "changes_of t (rs @ new) = as @ u # drop ?k (changes_of t (rs @ new))"
  proof -
    have "changes_of t (rs @ new) = take ?k (changes_of t (rs @ new)) @ drop ?k (changes_of t (rs @ new))"
      by (rule append_take_drop_id[symmetric])
    also have "take ?k (changes_of t (rs @ new)) = as @ [u]" using rem by (simp only: remaining_def)
    finally show ?thesis by (simp only: append.assoc append_Cons append_Nil)
  qed
  then have "u \<in> set (changes_of t (rs @ new))" by (metis in_set_conv_decomp)
  then have uin: "u \<in> set (rs @ new)" "rec_txn u = t" by (simp_all only: set_changes)
  have urs: "u \<in> set rs"
    using uin(1) u(2) core undoable_not_clr by (auto simp: undo_core_def)
  have pg: "rec_page u \<noteq> 0 \<and> rec_page u < page_count (undo_disk s1)"
    using rec uin(1) u(2) unfolding log_recoverable_def 1(3) by blast
  obtain dm' where 2: "undo_record u s1 = (s1\<lparr>undo_disk := dm'\<rparr>, Code_Ok)" "file_fits dm'" "page_count dm' = ?n"
    "\<And>p. p \<noteq> 0 \<Longrightarrow> p < ?n \<Longrightarrow> \<not> (rec_type u = L_PageAllocate \<and> rec_page u = p) \<Longrightarrow>
       page_at p (disk_file dm') = (if updates p u then before_image u else page_at p (disk_file (undo_disk s)))"
    using undo_record_result[of s1 u] fits u(1) pg unfolding 1(3) by metis
  have un: "unfinished (rs @ new) x = unfinished rs x" for x by (rule undo_core_unfinished(1)[OF core])
  have un': "unfinished (rs @ new @ [c]) x = unfinished rs x" for x by (rule undo_core_unfinished(1)[OF 1(2)])
  have "restored F base rs (new @ [c]) dm'"
    unfolding restored_def
  proof (intro conjI allI impI)
    show "p \<in> F" if "recovery_frees rs p" for p using res that by (simp add: restored_def)
    fix p assume p: "p \<noteq> 0" "p < page_count dm'" "p \<notin> F" "clean (rs @ new @ [c]) p"
    have "\<not> recovery_frees rs p" using res p(3) by (auto simp: restored_def)
    then have na: "\<not> (rec_type u = L_PageAllocate \<and> rec_page u = p)"
      using urs t uin(2) by (auto simp: recovery_frees_def)
    have nas: "\<forall>e \<in> set as. \<not> updates p e" using p(4) t 1(8) un' by (auto simp: clean_def)
    have at: "page_at p (disk_file dm') = (if updates p u then before_image u else page_at p (disk_file (undo_disk s)))"
      using 2(3,4) p(1,2) na by simp
    show "page_at p (disk_file dm') = committed_page rs rs base p"
    proof (cases "updates p u")
      case True
      have "unfinished (rs @ new) t" using t un by simp
      then have "before_image u = committed_page (rs @ new) (rs @ new) base p"
        using first_update_committed[OF rec _ ch True nas] by metis
      also have "\<dots> = committed_page rs rs base p"
      proof -
        have "committed_page (rs @ take j new) (rs @ take j new) base p = committed_page rs rs base p" for j
          using core by (simp add: undo_core_def)
        from this[of "length new"] show ?thesis by simp
      qed
      finally show ?thesis using at True by simp
    next
      case False
      have "clean (rs @ new) p"
        unfolding clean_def
      proof (intro allI impI)
        fix x assume x: "unfinished (rs @ new) x"
        show "\<forall>r \<in> set (remaining (rs @ new) x). \<not> updates p r"
        proof (cases "x = t")
          case True
          then show ?thesis using rem nas False by auto
        next
          case xt: False
          then have "remaining (rs @ new @ [c]) x = remaining (rs @ new) x"
            using append_other(2)[of c x "rs @ new"] 1(6) by simp
          then show ?thesis using p(4) x un un' by (auto simp: clean_def)
        qed
      qed
      then show ?thesis using res p at False 2(3) by (simp add: restored_def)
    qed
  qed
  moreover have "undo_core base rs (new @ [c]) (s1\<lparr>undo_disk := dm'\<rparr>)"
    using 1(2,3) 2(2,3) by (simp add: undo_core_def)
  ultimately show ?thesis using 1 2(1,3) by (intro exI[of _ s1] exI[of _ "s1\<lparr>undo_disk := dm'\<rparr>"] exI[of _ c]) simp
qed


definition visits_left :: "LogRecord list \<Rightarrow> (txn_id_t \<Rightarrow> LogRecord list) \<Rightarrow> nat" where
  "visits_left rs T = (\<Sum>t | unfinished rs t. length (T t))"

lemma finite_unfinished: "finite {t. unfinished rs t}"
  by (rule finite_subset[of _ "rec_txn ` set rs"]) (auto simp: unfinished_def)

lemma visits_left_step:
  assumes "unfinished rs t" "T t = r # T1"
  shows "Suc (visits_left rs (T(t := T1))) = visits_left rs T"
proof -
  have "visits_left rs T' = length (T' t) + (\<Sum>u \<in> {u. unfinished rs u} - {t}. length (T' u))" for T'
    unfolding visits_left_def using sum.remove[OF finite_unfinished, of t rs "\<lambda>u. length (T' u)"] assms(1) by simp
  from this[of T] this[of "T(t := T1)"] show ?thesis by (simp add: assms(2))
qed

text \<open>The state of the loop, with room in the log for what is still to be written.\<close>

definition undo_inv ::
  "page_id_t set \<Rightarrow> (page_id_t \<Rightarrow> byte list) \<Rightarrow> LogRecord list \<Rightarrow> page_id_t \<Rightarrow> nat \<Rightarrow> LogRecord list \<Rightarrow> (txn_id_t \<Rightarrow> LogRecord list) \<Rightarrow> UndoState \<Rightarrow> bool" where
  "undo_inv F base rs n B new T s \<longleftrightarrow>
     undo_core base rs new s \<and> restored F base rs new (undo_disk s) \<and> undo_nav rs T s \<and> to_visit rs new T \<and>
     page_count (undo_disk s) = n \<and>
     unat (last_lsn_of (rs @ new)) + visits_left rs T + card {t. unfinished rs t} < B"

lemma room_for_one: "unat (l :: lsn_t) + Suc k < 2 ^ 64 \<Longrightarrow> l \<noteq> -1 \<and> unat (l + 1) = Suc (unat l)"
proof -
  assume a: "unat l + Suc k < 2 ^ 64"
  have "unat (- 1 :: lsn_t) = 2 ^ 64 - 1" by (simp add: unsigned_minus_1_eq_mask mask_eq_exp_minus_1)
  then have "l \<noteq> -1" using a by auto
  then show ?thesis using unatSuc[of l] by (simp add: add_eq_0_iff add.commute)
qed

lemma undo_head:
  assumes inv: "undo_inv F base rs n B new T s" and ok: "log_ok rs" and ne: "pending s \<noteq> []"
  obtains l t r T1 where "pending_top (pending s) = (l, t)" "unfinished rs t" "next_lsn s t = Some l"
    "T t = r # T1" "r \<in> set rs" "rec_txn r = t" "rec_lsn r = l" "records_by_lsn rs l = Some r"
proof -
  obtain l t where top: "pending_top (pending s) = (l, t)" by fastforce
  then have "(l, t) \<in> set (pending s)" using pending_top_in[OF ne] by simp
  then have t: "unfinished rs t" "next_lsn s t = Some l" "l \<noteq> kInvalidLsn"
    using inv by (auto simp: undo_inv_def undo_nav_def)
  then have ch: "is_chain rs t l (T t)" using inv unfolding undo_inv_def undo_nav_def by (metis option.inject)
  then obtain r T1 where "T t = r # T1" using t(3) by (cases "T t") auto
  then show thesis using that[OF top t(1,2)] ch by_lsn[OF ok] by auto
qed

lemma undo_follow_inv:
  assumes core: "undo_core base rs new' s1" and res: "restored F base rs new' (undo_disk s1)" and pc: "page_count (undo_disk s1) = n"
    and nav: "undo_nav rs T s" and tv: "to_visit rs new T"
    and t: "unfinished rs t" "next_lsn s t = Some l" and T: "T t = r # T1"
    and s1: "pending s1 = remove1 (l, t) (pending s)" "next_lsn s1 = next_lsn s"
    and rem: "\<And>x. x \<noteq> t \<Longrightarrow> remaining (rs @ new') x = remaining (rs @ new) x" "filter undoable T1 = rev (remaining (rs @ new') t)"
    and room: "unat (last_lsn_of (rs @ new')) \<le> Suc (unat (last_lsn_of (rs @ new)))"
      "unat (last_lsn_of (rs @ new)) + visits_left rs T + card {t. unfinished rs t} < B"
  shows "undo_inv F base rs n B new' (T(t := T1)) (undo_follow t (next_undo r) s1)"
proof -
  have "undo_core base rs new' (undo_follow t (next_undo r) s1)" using core by (rule undo_core_frame) simp_all
  moreover have "undo_nav rs (T(t := T1)) (undo_follow t (next_undo r) s1)" by (rule undo_nav_follow[OF nav t T s1])
  moreover have "to_visit rs new' (T(t := T1))" using tv rem by (auto simp: to_visit_def)
  moreover have "unat (last_lsn_of (rs @ new')) + visits_left rs (T(t := T1)) + card {t. unfinished rs t} < B"
    using room visits_left_step[where T = T and t = t and r = r, OF t(1) T] by linarith
  ultimately show ?thesis using res pc by (simp add: undo_inv_def)
qed

lemma undo_body_step:
  assumes inv: "undo_inv F base rs n B new T s" and B: "B \<le> 2 ^ 64" and ok: "log_ok rs" and ne: "pending s \<noteq> []"
  shows "\<exists>s' new' T'. undo_body (records_by_lsn rs) s = (s', Code_Ok) \<and> undo_inv F base rs n B new' T' s' \<and>
    visits_left rs T' < visits_left rs T"
proof -
  obtain l t r T1 where h: "pending_top (pending s) = (l, t)" "unfinished rs t" "next_lsn s t = Some l"
    "T t = r # T1" "r \<in> set rs" "rec_txn r = t" "rec_lsn r = l" "records_by_lsn rs l = Some r"
    using undo_head[OF inv ok ne] by metis
  have I: "undo_core base rs new s" "restored F base rs new (undo_disk s)" "undo_nav rs T s" "to_visit rs new T"
    "page_count (undo_disk s) = n" "unat (last_lsn_of (rs @ new)) + visits_left rs T + card {t. unfinished rs t} < B"
    using inv by (simp_all add: undo_inv_def)
  have fT: "filter undoable (r # T1) = rev (remaining (rs @ new) t)"
  proof -
    have "filter undoable (T t) = rev (remaining (rs @ new) t)" using I(4) h(2) unfolding to_visit_def by blast
    then show ?thesis by (simp only: h(4))
  qed
  have lt: "visits_left rs (T(t := T1)) < visits_left rs T" using visits_left_step[where r = r and T = T and t = t, OF h(2,4)] by linarith
  define s0 where "s0 = s\<lparr>pending := remove1 (l, t) (pending s)\<rparr>"
  have s0: "next_lsn s0 = next_lsn s" "pending s0 = remove1 (l, t) (pending s)" "undo_disk s0 = undo_disk s"
    "undo_log s0 = undo_log s" "txn_table s0 = txn_table s" "recovery_last_lsn s0 = recovery_last_lsn s"
    by (simp_all add: s0_def)
  have core0: "undo_core base rs new s0" using I(1) by (rule undo_core_frame) (simp_all add: s0)
  show ?thesis
  proof (cases "undoable r")
    case False
    have b: "undo_body (records_by_lsn rs) s = (undo_follow t (next_undo r) s0, Code_Ok)"
      using h False unfolding undo_body_def
      by (auto simp: Let_def s0_def[symmetric] s0(1) next_undo_def is_clr_def undoable_def)
    have "undo_inv F base rs n B new (T(t := T1)) (undo_follow t (next_undo r) s0)"
      using I h fT False by (intro undo_follow_inv[OF core0 _ _ I(3,4) h(2,3,4)]) (simp_all add: s0)
    then show ?thesis using b lt by blast
  next
    case True
    have v: "record_valid r" using ok h(5) by (simp add: log_ok_def)
    have rem: "remaining (rs @ new) t = rev (filter undoable T1) @ [r]" 
    proof -
      have "rev (remaining (rs @ new) t) = r # filter undoable T1" using fT True by simp
      then show ?thesis by (metis rev.simps(2) rev_rev_ident)
    qed
    have vl: "visits_left rs T = Suc (visits_left rs (T(t := T1)))" using visits_left_step[where r = r and T = T and t = t, OF h(2,4)] by simp
    have room: "last_lsn_of (rs @ new) \<noteq> -1" "unat (last_lsn_of (rs @ new) + 1) = Suc (unat (last_lsn_of (rs @ new)))"
      using room_for_one[of "last_lsn_of (rs @ new)" "visits_left rs (T(t := T1))"] I(6) B vl by auto
    have res0: "restored F base rs new (undo_disk s0)" using I(2) by (simp add: s0)
    obtain s1 s2 c where u: "log_compensation t r s0 = (s1, Code_Ok)" "undo_record r s1 = (s2, Code_Ok)"
      "undo_core base rs (new @ [c]) s2" "restored F base rs (new @ [c]) (undo_disk s2)"
      "pending s2 = pending s0" "next_lsn s2 = next_lsn s0" "page_count (undo_disk s2) = page_count (undo_disk s0)"
      "rec_txn c = t" "is_clr c" "remaining (rs @ new @ [c]) t = rev (filter undoable T1)"
      "last_lsn_of (rs @ new @ [c]) = last_lsn_of (rs @ new) + 1"
      using undo_change_step[OF core0 res0 h(2) rem v True room(1)] by metis
    have b: "undo_body (records_by_lsn rs) s = (undo_follow t (next_undo r) s2, Code_Ok)"
      using h True u(1,2) undoable_not_clr[OF True] unfolding undo_body_def
      by (auto simp: Let_def s0_def[symmetric] s0(1) next_undo_def is_clr_def undoable_def)
    have other: "remaining (rs @ (new @ [c])) x = remaining (rs @ new) x" if "x \<noteq> t" for x
      using append_other(2)[of c x "rs @ new"] u(8) that by simp
    have "undo_inv F base rs n B (new @ [c]) (T(t := T1)) (undo_follow t (next_undo r) s2)"
      using I(5,6) u(5-7,10,11) room(2)
      by (intro undo_follow_inv[OF u(3,4) _ I(3,4) h(2,3,4) _ _ other]) (simp_all add: s0)
    then show ?thesis using b lt by blast
  qed
qed

lemma undo_loop_result:
  assumes "undo_inv F base rs n B new T s" "log_ok rs" and B: "B \<le> 2 ^ 64"
  shows "\<exists>s' new' T'. undo_loop (records_by_lsn rs) s = Some (s', Code_Ok) \<and> undo_inv F base rs n B new' T' s' \<and> pending s' = []"
  using assms(1,2)
proof (induction "visits_left rs T" arbitrary: new T s rule: less_induct)
  case less
  show ?case
  proof (cases "pending s = []")
    case True
    then show ?thesis using less.prems(1) by (subst undo_loop.simps) auto
  next
    case False
    from undo_body_step[OF less.prems(1) B less.prems(2) False] obtain s1 new1 T1 where b: "undo_body (records_by_lsn rs) s = (s1, Code_Ok)"
      "undo_inv F base rs n B new1 T1 s1" "visits_left rs T1 < visits_left rs T" by blast
    from less.hyps[OF b(3,2) less.prems(2)] show ?thesis
      using False b(1) by (subst undo_loop.simps) simp
  qed
qed

subsection \<open>The whole recovery\<close>

lemma sum_of_txn:
  assumes "finite A"
  shows "(\<Sum>t \<in> A. length (of_txn t rs)) \<le> length rs"
proof (induction rs)
  case (Cons r rs)
  have "(\<Sum>t \<in> A. length (of_txn t (r # rs))) = (\<Sum>t \<in> A. (if rec_txn r = t then 1 else 0) + length (of_txn t rs))"
    by (rule sum.cong) auto
  also have "\<dots> = (\<Sum>t \<in> A. if rec_txn r = t then 1 else 0) + (\<Sum>t \<in> A. length (of_txn t rs))" by (rule sum.distrib)
  also have "(\<Sum>t \<in> A. if rec_txn r = t then 1 else 0 :: nat) \<le> 1" using assms by simp
  finally show ?case using Cons by simp
qed simp

lemma card_unfinished: "card {t. unfinished rs t} \<le> length rs"
proof -
  have "card {t. unfinished rs t} \<le> card (rec_txn ` set rs)" by (rule card_mono) (auto simp: unfinished_def)
  also have "\<dots> \<le> card (set rs)" by (rule card_image_le) simp
  also have "\<dots> \<le> length rs" by (rule card_length)
  finally show ?thesis .
qed

lemma length_le_last: "log_ok rs \<Longrightarrow> length rs \<le> unat (last_lsn_of rs)"
proof (induction rs rule: rev_induct)
  case (snoc r rs)
  then have "length rs \<le> unat (last_lsn_of rs)" "last_lsn_of rs < rec_lsn r"
    using log_ok_append last_lsn_less by blast+
  then have "Suc (length rs) \<le> unat (rec_lsn r)" unfolding word_less_nat_alt by linarith
  then show ?case by (simp add: last_lsn_of_def)
qed simp

lemma map_of_losers: "distinct xs \<Longrightarrow> map_of (map (\<lambda>t. (t, f t)) xs) t = (if t \<in> set xs then Some (f t) else None)"
  by (induction xs) auto

lemma undo_start_inv:
  assumes at: "log_at rs lm" "\<not> fail_next_flush lm" and rec: "log_recoverable n base rs"
    and dm: "file_fits dm" "page_count dm = n" and res: "restored F base rs [] dm"
  shows "\<exists>T. undo_inv F base rs n (unat (last_lsn_of rs) + 2 * length rs + 1) [] T (undo_start (analyse rs) lm dm)"
proof -
  let ?s = "undo_start (analyse rs) lm dm"
  have ok: "log_ok rs" using at by (simp add: log_at_def)
  note A = analyse_sets[OF ok]
  have "\<forall>t. \<exists>T. unfinished rs t \<longrightarrow> is_chain rs t (prev_of t rs) T \<and> filter undoable T = rev (remaining rs t) \<and>
      length T \<le> length (of_txn t rs)"
    using chain_start[OF ok] rec by (auto simp: log_recoverable_def unfinished_def)
  then obtain T where T: "\<And>t. unfinished rs t \<Longrightarrow> is_chain rs t (prev_of t rs) (T t) \<and>
      filter undoable (T t) = rev (remaining rs t) \<and> length (T t) \<le> length (of_txn t rs)" by metis
  have ll: "last_lsn_in (analyse rs) t = prev_of t rs" if "unfinished rs t" for t
    using A(4)[of t] that by (simp add: unfinished_def)
  have nx: "next_lsn ?s t = (if unfinished rs t then Some (prev_of t rs) else None)" for t
    using map_of_losers[OF A(3), of "last_lsn_in (analyse rs)" t] A(2) ll by (simp add: undo_start_def)
  have "distinct (pending ?s)"
    using A(3) by (simp add: undo_start_def distinct_map inj_on_def)
  moreover have "set (pending ?s) = {(l, t). unfinished rs t \<and> next_lsn ?s t = Some l \<and> l \<noteq> kInvalidLsn}"
    unfolding nx by (auto simp: undo_start_def A(2) image_iff ll)
  ultimately have nav: "undo_nav rs T ?s" using T by (auto simp: undo_nav_def nx)
  have "\<exists>x. map_of (analyse rs) t = Some x \<and> txn_last_lsn x = prev_of t rs" if "unfinished rs t" for t
    using analyse_map_of[OF ok, of t] that by (auto simp: unfinished_def analysed_def)
  then have core: "undo_core base rs [] ?s"
    using at rec dm by (simp add: undo_core_def undo_start_def kInvalidLsn_def)
  have "visits_left rs T \<le> (\<Sum>t | unfinished rs t. length (of_txn t rs))"
    unfolding visits_left_def using T by (intro sum_mono) simp
  also have "\<dots> \<le> length rs" by (rule sum_of_txn[OF finite_unfinished])
  finally have "unat (last_lsn_of rs) + visits_left rs T + card {t. unfinished rs t} < unat (last_lsn_of rs) + 2 * length rs + 1"
    using card_unfinished[of rs] by linarith
  then show ?thesis
    using core nav T res dm by (intro exI[of _ T]) (simp add: undo_inv_def to_visit_def undo_start_def)
qed

lemma undo_done:
  assumes inv: "undo_inv F base rs n B new T s" and "pending s = []"
  shows "clean (rs @ new) p"
proof -
  have "remaining (rs @ new) t = []" if t: "unfinished rs t" for t
  proof -
    obtain l where l: "next_lsn s t = Some l" "is_chain rs t l (T t)" using inv t by (auto simp: undo_inv_def undo_nav_def)
    have "l = kInvalidLsn" using inv assms(2) l(1) t by (auto simp: undo_inv_def undo_nav_def)
    then have "T t = []" using l(2) by (cases "T t") auto
    then show ?thesis using inv t by (auto simp: undo_inv_def to_visit_def)
  qed
  moreover have "unfinished (rs @ new) t = unfinished rs t" for t
    using inv undo_core_unfinished(1) by (auto simp: undo_inv_def)
  ultimately show ?thesis by (simp add: clean_def)
qed

lemma abort_record_props:
  "record_valid (abort_record t l)" "normal_record (abort_record t l) = abort_record t l"
  "rec_txn (abort_record t l) = t" "rec_prev (abort_record t l) = l" "rec_type (abort_record t l) = L_Abort"
  by (simp_all add: record_valid_def encode_checks_def abort_record_def LogRecord_default_def normal_record_def
      del: type_code.simps)

lemma abort_losers_result:
  assumes "log_at zs (undo_log s)" "\<not> fail_next_flush (undo_log s)" "recovery_last_lsn s \<le> last_lsn_of zs"
    and "distinct ts" "\<forall>t \<in> set ts. t \<noteq> kInvalidTxnId \<and> last_lsn_in (txn_table s) t = prev_of t zs"
    and "unat (last_lsn_of zs) + length ts < 2 ^ 64"
  shows "\<exists>s' as. abort_losers ts s = (s', Code_Ok) \<and> log_at (zs @ as) (undo_log s') \<and> undo_disk s' = undo_disk s \<and>
    \<not> fail_next_flush (undo_log s') \<and> recovery_last_lsn s' \<le> last_lsn_of (zs @ as) \<and>
    map rec_txn as = ts \<and> (\<forall>a \<in> set as. rec_type a = L_Abort) \<and>
    unat (last_lsn_of (zs @ as)) = unat (last_lsn_of zs) + length ts"
  using assms
proof (induction ts arbitrary: zs s)
  case Nil
  then show ?case by (intro exI[of _ s] exI[of _ "[]"]) simp
next
  case (Cons t ts)
  have t: "t \<noteq> kInvalidTxnId" "last_lsn_in (txn_table s) t = prev_of t zs" using Cons.prems(5) by auto
  have room: "last_lsn_of zs \<noteq> -1" "unat (last_lsn_of zs + 1) = Suc (unat (last_lsn_of zs))"
    using room_for_one[of "last_lsn_of zs" "length ts"] Cons.prems(6) by auto
  let ?r = "abort_record t (prev_of t zs)" and ?lsn = "last_lsn_of zs + 1"
  obtain lm where lm: "Append ?r (undo_log s) = (lm, Inr ?lsn)" "log_at (zs @ [?r\<lparr>rec_lsn := ?lsn\<rparr>]) lm" "\<not> fail_next_flush lm"
    using Append_log[OF Cons.prems(1) abort_record_props(1,2) room(1)] t(1) Cons.prems(2)
    by (metis abort_record_props(3,4))
  define a where "a = ?r\<lparr>rec_lsn := ?lsn\<rparr>"
  define s1 where "s1 = s\<lparr>undo_log := lm, recovery_last_lsn := max (recovery_last_lsn s) ?lsn\<rparr>"
  have a: "rec_txn a = t" "rec_type a = L_Abort" "last_lsn_of (zs @ [a]) = ?lsn"
    by (simp_all add: a_def abort_record_props last_lsn_of_def)
  have st: "abort_losers (t # ts) s = abort_losers ts s1" using lm(1) t(2) by (simp add: s1_def)
  have "log_at (zs @ [a]) (undo_log s1)" "\<not> fail_next_flush (undo_log s1)" using lm by (simp_all add: s1_def a_def)
  moreover have "recovery_last_lsn s1 \<le> last_lsn_of (zs @ [a])"
    using Cons.prems(3) word_less_succ[OF room(1)] by (auto simp: s1_def a(3) intro: order_trans less_imp_le)
  moreover have "\<forall>u \<in> set ts. u \<noteq> kInvalidTxnId \<and> last_lsn_in (txn_table s1) u = prev_of u (zs @ [a])"
    using Cons.prems(4,5) a(1) by (auto simp: s1_def prev_of_snoc)
  moreover have "distinct ts" "unat (last_lsn_of (zs @ [a])) + length ts < 2 ^ 64"
    using Cons.prems(4,6) room(2) a(3) by simp_all
  ultimately obtain s' as where "abort_losers ts s1 = (s', Code_Ok)" "log_at ((zs @ [a]) @ as) (undo_log s')"
    "undo_disk s' = undo_disk s1" "\<not> fail_next_flush (undo_log s')" "recovery_last_lsn s' \<le> last_lsn_of ((zs @ [a]) @ as)"
    "map rec_txn as = ts" "\<forall>x \<in> set as. rec_type x = L_Abort"
    "unat (last_lsn_of ((zs @ [a]) @ as)) = unat (last_lsn_of (zs @ [a])) + length ts"
    using Cons.IH[of "zs @ [a]" s1] by blast
  then show ?case using a st room(2) by (intro exI[of _ s'] exI[of _ "a # as"]) (simp add: s1_def)
qed


lemma redo_restored:
  assumes ok: "log_ok rs" and rec: "recoverable F base rs dm"
  obtains dm1 where "redo_loop (analyse rs) rs dm = (dm1, Code_Ok)" "file_fits dm1" "page_count dm1 = page_count dm"
    "restored F base rs [] dm1"
proof -
  have R: "log_recoverable (page_count dm) base rs" "file_fits dm"
    "\<And>p. recovery_frees rs p \<Longrightarrow> p \<in> F"
    "\<And>p. p \<noteq> 0 \<Longrightarrow> p < page_count dm \<Longrightarrow> p \<notin> F \<Longrightarrow> \<not> touched rs p \<Longrightarrow> page_at p (disk_file dm) = base p"
    using rec by (auto simp: recoverable_def)
  obtain dm1 where 1: "redo_loop (analyse rs) rs dm = (dm1, Code_Ok)" "file_fits dm1" "page_count dm1 = page_count dm"
    "\<And>p. p \<noteq> 0 \<Longrightarrow> p < page_count dm \<Longrightarrow> \<not> recovery_frees rs p \<Longrightarrow> page_at p (disk_file dm1) =
       (case filter (redone rs p) rs of [] \<Rightarrow> page_at p (disk_file dm) | xs \<Rightarrow> after_image (last xs))"
    using redo_loop_result[OF ok R(1) subset_refl R(2) refl] by blast
  have "page_at p (disk_file dm1) = committed_page rs rs base p"
    if p: "p \<noteq> 0" "p < page_count dm" "p \<notin> F" "clean rs p" for p
  proof -
    have "\<not> recovery_frees rs p" using R(3) p(3) by blast
    then show ?thesis
      using redo_restores[OF R(1) p(4), of "page_at p (disk_file dm)"] R(4)[OF p(1-3)] 1(4)[OF p(1,2)] by simp
  qed
  then have "restored F base rs [] dm1" using R(3) by (simp add: restored_def 1(3))
  then show thesis using that 1(1-3) by blast
qed

lemma undo_phase:
  assumes at: "log_at rs lm" "\<not> fail_next_flush lm" and rec: "recoverable F base rs dm" and lsn: "unat (last_lsn_of rs) < 2 ^ 60"
    and redo: "redo_loop (analyse rs) rs dm = (dm1, Code_Ok)"
  obtains T where "undo_inv F base rs (page_count dm) (unat (last_lsn_of rs) + 2 * length rs + 1) [] T (undo_start (analyse rs) lm dm1)"
    "unat (last_lsn_of rs) + 2 * length rs + 1 \<le> 2 ^ 62"
proof -
  have ok: "log_ok rs" using at by (simp add: log_at_def)
  obtain d where d: "redo_loop (analyse rs) rs dm = (d, Code_Ok)" "file_fits d" "page_count d = page_count dm" "restored F base rs [] d"
    using redo_restored[OF ok rec] .
  have lr: "log_recoverable (page_count dm) base rs" using rec by (simp add: recoverable_def)
  show thesis
    using undo_start_inv[OF at lr d(2-4)] length_le_last[OF ok] lsn redo d(1) that by fastforce
qed

lemma Recover_result:
  assumes at: "log_at rs lm" "\<not> fail_next_flush lm" and rec: "recoverable F base rs dm" and lsn: "unat (last_lsn_of rs) < 2 ^ 60"
  shows "\<exists>lm' dm' zs. Recover True lm dm = Some (lm', dm', Code_Ok) \<and> log_at zs lm' \<and> last_lsn_of zs \<le> durable_lsn lm' \<and>
    (\<forall>t. \<not> unfinished zs t) \<and> (\<forall>t. committed zs t = committed rs t) \<and>
    (\<forall>p. p \<noteq> 0 \<longrightarrow> p < page_count dm \<longrightarrow> p \<notin> F \<longrightarrow> page_at p (disk_file dm') = committed_page rs rs base p)"
proof -
  have ok: "log_ok rs" using at by (simp add: log_at_def)
  note A = analyse_sets[OF ok]
  obtain dm1 where 1: "redo_loop (analyse rs) rs dm = (dm1, Code_Ok)" using redo_restored[OF ok rec] .
  let ?B = "unat (last_lsn_of rs) + 2 * length rs + 1"
  obtain T where T: "undo_inv F base rs (page_count dm) ?B [] T (undo_start (analyse rs) lm dm1)" and B: "?B \<le> 2 ^ 62"
    using undo_phase[OF at rec lsn 1] .
  have B': "?B \<le> 2 ^ 64" using B by simp
  obtain s new T' where s: "undo_loop (records_by_lsn rs) (undo_start (analyse rs) lm dm1) = Some (s, Code_Ok)"
    "undo_inv F base rs (page_count dm) ?B new T' s" "pending s = []"
    using undo_loop_result[OF T ok B'] by blast
  have core: "undo_core base rs new s" and res: "restored F base rs new (undo_disk s)" and pc: "page_count (undo_disk s) = page_count dm"
    and room: "unat (last_lsn_of (rs @ new)) + visits_left rs T' + card {t. unfinished rs t} < ?B"
    using s(2) by (auto simp: undo_inv_def)
  have pages: "page_at p (disk_file (undo_disk s)) = committed_page rs rs base p"
    if "p \<noteq> 0" "p < page_count dm" "p \<notin> F" for p
    using res that undo_done[OF s(2,3), of p] pc by (simp add: restored_def)
  have C: "log_at (rs @ new) (undo_log s)" "\<not> fail_next_flush (undo_log s)" "recovery_last_lsn s \<le> last_lsn_of (rs @ new)"
    using core by (auto simp: undo_core_def)
  have ll: "t \<noteq> kInvalidTxnId \<and> last_lsn_in (txn_table s) t = prev_of t (rs @ new)" if "t \<in> set (losers_of (analyse rs))" for t
  proof -
    have "unfinished rs t" using that A(2) by simp
    then obtain x where "map_of (txn_table s) t = Some x" "txn_last_lsn x = prev_of t (rs @ new)"
      using core unfolding undo_core_def by blast
    then show ?thesis using \<open>unfinished rs t\<close> by (simp add: last_lsn_in_def unfinished_def)
  qed
  have "length (losers_of (analyse rs)) = card {t. unfinished rs t}" using distinct_card[OF A(3)] A(2) by simp
  then have "unat (last_lsn_of (rs @ new)) + length (losers_of (analyse rs)) < 2 ^ 64" using room B' by simp
  from abort_losers_result[OF C A(3) _ this] ll obtain s' as where a: "abort_losers (losers_of (analyse rs)) s = (s', Code_Ok)"
    "log_at ((rs @ new) @ as) (undo_log s')" "undo_disk s' = undo_disk s" "\<not> fail_next_flush (undo_log s')"
    "recovery_last_lsn s' \<le> last_lsn_of ((rs @ new) @ as)" "map rec_txn as = losers_of (analyse rs)"
    "\<forall>x \<in> set as. rec_type x = L_Abort" by blast
  let ?zs = "(rs @ new) @ as"
  have target: "max (recovery_last_lsn s') (append_lsn (undo_log s')) = last_lsn_of ?zs"
    using a(2,5) by (simp add: log_at_def max_absorb2)
  obtain lm' where f: "Flush (last_lsn_of ?zs) True (undo_log s') = Some (lm', Code_Ok)" "log_at ?zs lm'" "last_lsn_of ?zs \<le> durable_lsn lm'"
    using Flush_log[OF a(2,4) order_refl] by blast
  have R: "Recover True lm dm = Some (lm', undo_disk s, Code_Ok)"
    unfolding Recover_def log_at_Scan[OF at(1)] using 1 s(1) a(1,3) f(1) target by (simp add: Let_def)
  have end_as: "ends_of t ?zs \<noteq> []" if "unfinished rs t" for t
  proof -
    have "t \<in> set (map rec_txn as)" using that A(2) a(6) by simp
    then show ?thesis using a(7) by (auto simp: ends_of_def filter_empty_conv)
  qed
  have tas: "unfinished rs (rec_txn x)" if "x \<in> set as" for x
    using that A(2) a(6) by (metis (mono_tags, lifting) image_eqI list.set_map mem_Collect_eq)
  have nf: "\<not> unfinished ?zs t" for t
  proof
    assume u: "unfinished ?zs t"
    then have "\<not> unfinished rs t" using end_as by (auto simp: unfinished_def)
    moreover have "unfinished (rs @ new) t"
      using u tas calculation by (auto simp: unfinished_def ends_of_def)
    ultimately show False using undo_core_unfinished(1)[OF core] by simp
  qed
  have cm: "committed ?zs t = committed rs t" for t
  proof (cases "unfinished rs t")
    case True
    have "ends_of t (rs @ new) = []" using True undo_core_unfinished(1)[OF core, of t] by (auto simp: unfinished_def)
    then have "\<not> committed ?zs t"
      using a(7) last_in_set[of "ends_of t as"] by (auto simp: committed_def ends_of_def)
    then show ?thesis using True by (auto simp: committed_def unfinished_def)
  next
    case False
    then have "ends_of t as = []" using tas by (auto simp: ends_of_def filter_empty_conv)
    then have "committed ?zs t = committed (rs @ new) t" by (simp add: committed_def ends_of_def)
    then show ?thesis using undo_core_unfinished(2)[OF core] by simp
  qed
  show ?thesis using R f(2,3) nf cm pages by blast
qed


subsection \<open>Crashes during recovery\<close>

text \<open>The states the undo loop passes through, and the points at which the machine may stop: after any
  number of redo steps, between two undo steps, between the logging of a compensation record and its
  page write, and after any number of abort records. A single page write is atomic here.\<close>

inductive undo_reaches :: "(lsn_t \<Rightarrow> LogRecord option) \<Rightarrow> UndoState \<Rightarrow> UndoState \<Rightarrow> bool" for by_lsn s0 where
  ur_start: "undo_reaches by_lsn s0 s0"
| ur_body: "undo_reaches by_lsn s0 s \<Longrightarrow> pending s \<noteq> [] \<Longrightarrow> undo_body by_lsn s = (s', Code_Ok) \<Longrightarrow> undo_reaches by_lsn s0 s'"

inductive recovery_crash ::
  "LogRecord list \<Rightarrow> LogManager \<Rightarrow> DiskManager \<Rightarrow> LogManager \<Rightarrow> DiskManager \<Rightarrow> bool" for rs lm dm where
  rc_redo: "redo_loop (analyse rs) (take k rs) dm = (dm', c) \<Longrightarrow> recovery_crash rs lm dm lm dm'"
| rc_undo: "redo_loop (analyse rs) rs dm = (dm1, Code_Ok) \<Longrightarrow>
    undo_reaches (records_by_lsn rs) (undo_start (analyse rs) lm dm1) s \<Longrightarrow>
    recovery_crash rs lm dm (undo_log s) (undo_disk s)"
| rc_logged: "redo_loop (analyse rs) rs dm = (dm1, Code_Ok) \<Longrightarrow>
    undo_reaches (records_by_lsn rs) (undo_start (analyse rs) lm dm1) s \<Longrightarrow> pending s \<noteq> [] \<Longrightarrow>
    pending_top (pending s) = (l, t) \<Longrightarrow> records_by_lsn rs l = Some r \<Longrightarrow> undoable r \<Longrightarrow>
    log_compensation t r s = (s1, c) \<Longrightarrow> recovery_crash rs lm dm (undo_log s1) (undo_disk s1)"
| rc_abort: "redo_loop (analyse rs) rs dm = (dm1, Code_Ok) \<Longrightarrow>
    undo_reaches (records_by_lsn rs) (undo_start (analyse rs) lm dm1) s \<Longrightarrow> pending s = [] \<Longrightarrow>
    abort_losers (take k (losers_of (analyse rs))) s = (s1, c) \<Longrightarrow> recovery_crash rs lm dm (undo_log s1) (undo_disk s1)"

text \<open>\<open>ext\<close> is what the recovery has appended; any part of it may survive.\<close>

definition restartable ::
  "page_id_t set \<Rightarrow> (page_id_t \<Rightarrow> byte list) \<Rightarrow> LogRecord list \<Rightarrow> LogRecord list \<Rightarrow> DiskManager \<Rightarrow> bool" where
  "restartable F base rs ext dm \<longleftrightarrow>
     (\<forall>j. recoverable F base (rs @ take j ext) dm \<and>
        (\<forall>p. committed_page (rs @ take j ext) (rs @ take j ext) base p = committed_page rs rs base p))"

lemma redone_touched:
  assumes "log_recoverable n base rs" "r \<in> set rs" "redone rs p r"
  shows "touched rs p"
proof (cases "committed rs (rec_txn r) \<and> updates p r")
  case True
  then show ?thesis using assms(2) by (auto simp: touched_def)
next
  case False
  let ?t = "rec_txn r"
  have c: "unfinished rs ?t" "is_clr r" "compensation_type r = L_PageUpdate" "rec_page r = p"
    using False assms(3) by (auto simp: redone_def)
  have lok: "loser_ok rs ?t" using assms(1) c(1) by (simp add: log_recoverable_def)
  have "r \<in> set (clrs_of ?t rs)" using assms(2) c by (simp add: set_changes)
  then obtain i where i: "i < length (clrs_of ?t rs)" "clrs_of ?t rs ! i = r" by (auto simp: in_set_conv_nth)
  let ?u = "rev (changes_of ?t rs) ! i"
  have "?u \<in> set (changes_of ?t rs)" using loser_clr_matches(1)[OF lok i(1)] by (metis length_rev nth_mem set_rev)
  then have "?u \<in> set rs" "rec_txn ?u = ?t" by (simp_all add: set_changes)
  moreover have "updates p ?u" using loser_clr_matches(2)[OF lok i(1)] i(2) c by (auto simp: clr_of_def updates_def)
  ultimately show ?thesis using c(1) unfolding touched_def by metis
qed

lemma untouched_base: "\<not> touched rs p \<Longrightarrow> committed_page rs rs base p = base p"
proof -
  assume "\<not> touched rs p"
  then have "filter (\<lambda>r. committed rs (rec_txn r) \<and> updates p r) rs = []" by (auto simp: touched_def filter_empty_conv)
  then show ?thesis by (simp only: committed_page_def list.case)
qed

lemma core_restartable:
  assumes core: "undo_core base rs new s" and F: "\<And>p. recovery_frees rs p \<Longrightarrow> p \<in> F"
    and base: "\<And>p. p \<noteq> 0 \<Longrightarrow> p < page_count (undo_disk s) \<Longrightarrow> p \<notin> F \<Longrightarrow> \<not> touched rs p \<Longrightarrow>
      page_at p (disk_file (undo_disk s)) = base p"
  shows "restartable F base rs new (undo_disk s)"
  using core F base by (simp add: restartable_def recoverable_def undo_core_def)

lemma untouched_clean:
  assumes core: "undo_core base rs new s" and p: "\<not> touched rs p"
  shows "clean (rs @ new) p"
  unfolding clean_def
proof (intro allI impI ballI)
  fix t r assume t: "unfinished (rs @ new) t" and r: "r \<in> set (remaining (rs @ new) t)"
  have "r \<in> set (changes_of t (rs @ new))" using r unfolding remaining_def by (rule in_set_takeD)
  then have m: "r \<in> set (rs @ new)" "rec_txn r = t" "undoable r" by (simp_all only: set_changes)
  then have "r \<in> set rs" using core undoable_not_clr by (auto simp: undo_core_def)
  then show "\<not> updates p r" using p m(2) t undo_core_unfinished(1)[OF core] by (auto simp: touched_def)
qed

lemma restored_base:
  assumes "undo_core base rs new s" "restored F base rs new dm" "p \<noteq> 0" "p < page_count dm" "p \<notin> F" "\<not> touched rs p"
  shows "page_at p (disk_file dm) = base p"
  using assms untouched_clean[OF assms(1,6)] untouched_base[OF assms(6), of base] by (simp add: restored_def)

lemma undo_reaches_inv:
  assumes "undo_reaches (records_by_lsn rs) s0 s" "undo_inv F base rs n B [] T s0" "log_ok rs" "B \<le> 2 ^ 64"
  shows "\<exists>new T'. undo_inv F base rs n B new T' s"
  using assms
proof (induction rule: undo_reaches.induct)
  case (ur_body s s')
  then obtain new T' where i: "undo_inv F base rs n B new T' s" by blast
  from undo_body_step[OF i ur_body.prems(3,2) ur_body.hyps(2)] show ?case using ur_body.hyps(3) by auto
qed blast

text \<open>An abort record for a transaction that has nothing left to undo.\<close>

lemma abort_append:
  assumes a: "rec_type a = L_Abort" and t: "unfinished zs (rec_txn a)" and rec: "log_recoverable n base zs"
  shows "committed (zs @ [a]) x = committed zs x" "unfinished (zs @ [a]) x \<longleftrightarrow> unfinished zs x \<and> x \<noteq> rec_txn a"
    "log_recoverable n base (zs @ [a])"
    "committed_page (zs @ [a]) (zs @ [a]) base p = committed_page zs zs base p"
    "recovery_frees (zs @ [a]) p \<Longrightarrow> recovery_frees zs p"
proof -
  show cm: "committed (zs @ [a]) x = committed zs x" for x
    using a t by (auto simp: committed_def unfinished_def ends_of_def)
  show un: "unfinished (zs @ [a]) x \<longleftrightarrow> unfinished zs x \<and> x \<noteq> rec_txn a" for x
    using a t by (auto simp: unfinished_def ends_of_def)
  have nu: "\<not> undoable a" "\<not> is_clr a" "\<not> updates q a" for q using a by (simp_all add: undoable_def is_clr_def updates_def)
  have cp: "committed_page (zs @ [a]) part base q = committed_page zs part base q" for part q
    by (simp add: committed_page_def cm)
  show "committed_page (zs @ [a]) (zs @ [a]) base p = committed_page zs zs base p"
    by (simp add: committed_page_def cm nu)
  show "recovery_frees zs p" if "recovery_frees (zs @ [a]) p"
    using that a by (auto simp: recovery_frees_def cm un is_clr_def)
  show "log_recoverable n base (zs @ [a])"
    unfolding log_recoverable_def
  proof (intro conjI allI ballI impI)
    fix r assume "r \<in> set (zs @ [a])" "undoable r \<or> is_clr r"
    then have "r \<in> set zs" "undoable r \<or> is_clr r" using nu by auto
    then show "rec_page r \<noteq> 0" "rec_page r < n" using rec by (auto simp: log_recoverable_def)
  next
    fix r assume "r \<in> set (zs @ [a])" "is_clr r"
    then show "\<not> committed (zs @ [a]) (rec_txn r)" using nu rec by (auto simp: log_recoverable_def cm)
  next
    fix x assume "unfinished (zs @ [a]) x"
    then have "unfinished zs x" "rec_txn a \<noteq> x" by (auto simp: un)
    then show "loser_ok (zs @ [a]) x" using rec append_other(1)[of a x zs] by (auto simp: log_recoverable_def)
  next
    fix pre r post
    assume h: "zs @ [a] = pre @ r # post" "unfinished (zs @ [a]) (rec_txn r)" "rec_type r = L_PageUpdate"
      "\<forall>e \<in> set pre. rec_txn e = rec_txn r \<longrightarrow> \<not> updates (rec_page r) e"
    have "r \<noteq> a" using h(3) a by auto
    then obtain post' where post: "post = post' @ [a]" "zs = pre @ r # post'"
      using h(1) by (cases post rule: rev_cases) auto
    have "before_image r = committed_page zs pre base (rec_page r) \<and>
        (\<forall>e \<in> set post'. committed zs (rec_txn e) \<longrightarrow> \<not> updates (rec_page r) e)"
      using rec post(2) h(2-4) un unfolding log_recoverable_def by blast
    then show "before_image r = committed_page (zs @ [a]) pre base (rec_page r)"
      "\<And>e. e \<in> set post \<Longrightarrow> committed (zs @ [a]) (rec_txn e) \<Longrightarrow> \<not> updates (rec_page r) e"
      using nu by (auto simp: post(1) cp cm)
  qed
qed

lemma aborts_recoverable:
  assumes rec: "recoverable F base zs dm" and "\<forall>a \<in> set as. rec_type a = L_Abort \<and> unfinished zs (rec_txn a)"
    and "distinct (map rec_txn as)"
    and fin: "\<And>p. p \<noteq> 0 \<Longrightarrow> p < page_count dm \<Longrightarrow> p \<notin> F \<Longrightarrow> page_at p (disk_file dm) = committed_page zs zs base p"
  shows "recoverable F base (zs @ as) dm" "committed_page (zs @ as) (zs @ as) base p = committed_page zs zs base p"
proof -
  have A: "log_recoverable (page_count dm) base (zs @ as) \<and>
    (\<forall>p. committed_page (zs @ as) (zs @ as) base p = committed_page zs zs base p) \<and>
    (\<forall>p. recovery_frees (zs @ as) p \<longrightarrow> recovery_frees zs p) \<and>
    (\<forall>x. unfinished (zs @ as) x \<longleftrightarrow> unfinished zs x \<and> x \<notin> rec_txn ` set as)"
    using assms(2,3)
  proof (induction as rule: rev_induct)
    case Nil
    then show ?case using rec by (simp add: recoverable_def)
  next
    case (snoc a as)
    have IH: "log_recoverable (page_count dm) base (zs @ as)"
      "\<And>p. committed_page (zs @ as) (zs @ as) base p = committed_page zs zs base p"
      "\<And>p. recovery_frees (zs @ as) p \<Longrightarrow> recovery_frees zs p"
      "\<And>x. unfinished (zs @ as) x \<longleftrightarrow> unfinished zs x \<and> x \<notin> rec_txn ` set as"
      using snoc by auto
    have a: "rec_type a = L_Abort" "unfinished (zs @ as) (rec_txn a)" using snoc.prems IH(4) by auto
    note B = abort_append[OF a IH(1)]
    show ?case using B(2-5) IH(2-4) by auto
  qed
  then show "committed_page (zs @ as) (zs @ as) base p = committed_page zs zs base p" by blast
  have "page_at p (disk_file dm) = base p"
    if "p \<noteq> 0" "p < page_count dm" "p \<notin> F" "\<not> touched (zs @ as) p" for p
    using fin[OF that(1-3)] A untouched_base[OF that(4), of base] by simp
  then show "recoverable F base (zs @ as) dm" using A rec by (auto simp: recoverable_def)
qed

lemma crash_restartable:
  assumes at: "log_at rs lm" "\<not> fail_next_flush lm" and rec: "recoverable F base rs dm" and lsn: "unat (last_lsn_of rs) < 2 ^ 58"
    and crash: "recovery_crash rs lm dm lm' dm'"
  shows "\<exists>ext. log_bytes lm' = log_of (rs @ ext) \<and> log_ok (rs @ ext) \<and> unat (last_lsn_of (rs @ ext)) < 2 ^ 60 \<and>
    restartable F base rs ext dm' \<and> page_count dm' = page_count dm"
proof -
  have ok: "log_ok rs" using at by (simp add: log_at_def)
  have lr: "log_recoverable (page_count dm) base rs" and fits: "file_fits dm"
    and F: "\<And>p. recovery_frees rs p \<Longrightarrow> p \<in> F"
    and unt: "\<And>p. p \<noteq> 0 \<Longrightarrow> p < page_count dm \<Longrightarrow> p \<notin> F \<Longrightarrow> \<not> touched rs p \<Longrightarrow> page_at p (disk_file dm) = base p"
    using rec by (auto simp: recoverable_def)
  note A = analyse_sets[OF ok]
  define B where "B = unat (last_lsn_of rs) + 2 * length rs + 1"
  have B: "B \<le> 2 ^ 60" "B \<le> 2 ^ 64" using length_le_last[OF ok] lsn by (simp_all add: B_def)
  have lsn': "unat (last_lsn_of rs) < 2 ^ 60" using lsn by simp
  have inv: "\<exists>new T. undo_inv F base rs (page_count dm) B new T s"
    if redo: "redo_loop (analyse rs) rs dm = (dm1, Code_Ok)"
      and reach: "undo_reaches (records_by_lsn rs) (undo_start (analyse rs) lm dm1) s" for dm1 s
  proof -
    obtain T where T: "undo_inv F base rs (page_count dm) B [] T (undo_start (analyse rs) lm dm1)"
      using undo_phase[OF at rec lsn' redo] unfolding B_def by blast
    from undo_reaches_inv[OF reach T ok B(2)] show ?thesis .
  qed
  have core_case: "\<exists>ext. log_bytes (undo_log s) = log_of (rs @ ext) \<and> log_ok (rs @ ext) \<and>
      unat (last_lsn_of (rs @ ext)) < 2 ^ 60 \<and> restartable F base rs ext (undo_disk s) \<and> page_count (undo_disk s) = page_count dm"
    if core: "undo_core base rs new s" and l: "unat (last_lsn_of (rs @ new)) < B" and pc: "page_count (undo_disk s) = page_count dm"
      and b: "\<And>p. p \<noteq> 0 \<Longrightarrow> p < page_count (undo_disk s) \<Longrightarrow> p \<notin> F \<Longrightarrow> \<not> touched rs p \<Longrightarrow>
        page_at p (disk_file (undo_disk s)) = base p" for new s
  proof -
    have "log_at (rs @ new) (undo_log s)" using core by (simp add: undo_core_def)
    moreover have "restartable F base rs new (undo_disk s)" using core_restartable[OF core F b] by blast
    ultimately show ?thesis using l B(1) pc by (intro exI[of _ new]) (simp add: log_at_def)
  qed
  from crash show ?thesis
  proof cases
    case (rc_redo k c)
    have "set (take k rs) \<subseteq> set rs" by (rule set_take_subset)
    from redo_loop_result[OF ok lr this fits refl] obtain d where d: "redo_loop (analyse rs) (take k rs) dm = (d, Code_Ok)"
      "file_fits d" "page_count d = page_count dm"
      "\<And>p. p \<noteq> 0 \<Longrightarrow> p < page_count dm \<Longrightarrow> \<not> recovery_frees rs p \<Longrightarrow> page_at p (disk_file d) =
         (case filter (redone rs p) (take k rs) of [] \<Rightarrow> page_at p (disk_file dm) | xs \<Rightarrow> after_image (last xs))" by blast
    have "page_at p (disk_file d) = base p" if p: "p \<noteq> 0" "p < page_count d" "p \<notin> F" "\<not> touched rs p" for p
    proof -
      have "filter (redone rs p) (take k rs) = []"
        using redone_touched[OF lr] p(4) set_take_subset[of k rs] by (auto simp: filter_empty_conv)
      moreover have "\<not> recovery_frees rs p" using F p(3) by blast
      ultimately show ?thesis using d(3) d(4)[of p] p unt[of p] by simp
    qed
    then have "restartable F base rs [] dm'"
      using rc_redo(2) d(1-3) lr F by (simp add: restartable_def recoverable_def)
    then show ?thesis
      using rc_redo d(1,3) at lsn' by (intro exI[of _ "[]"]) (simp add: log_at_def)
  next
    case (rc_undo dm1 s)
    obtain new T where i: "undo_inv F base rs (page_count dm) B new T s" using inv rc_undo by blast
    have core: "undo_core base rs new s" and res: "restored F base rs new (undo_disk s)"
      and pc: "page_count (undo_disk s) = page_count dm" and l: "unat (last_lsn_of (rs @ new)) < B"
      using i by (auto simp: undo_inv_def)
    show ?thesis unfolding rc_undo using core_case[OF core l pc] restored_base[OF core res] by blast
  next
    case (rc_logged dm1 s l t r s1 c)
    obtain new T where i: "undo_inv F base rs (page_count dm) B new T s" using inv rc_logged by blast
    have core: "undo_core base rs new s" and res: "restored F base rs new (undo_disk s)" and tv: "to_visit rs new T"
      and pc: "page_count (undo_disk s) = page_count dm"
      and room: "unat (last_lsn_of (rs @ new)) + visits_left rs T + card {t. unfinished rs t} < B"
      using i by (auto simp: undo_inv_def)
    obtain T1 where h: "unfinished rs t" "T t = r # T1" "r \<in> set rs"
      using undo_head[OF i ok rc_logged(5)] rc_logged(6,7) by (metis option.inject prod.inject)
    have "filter undoable (T t) = rev (remaining (rs @ new) t)" using tv h(1) by (simp only: to_visit_def)
    then have "rev (remaining (rs @ new) t) = r # filter undoable T1" using h(2) rc_logged(8) by simp
    then have rem: "remaining (rs @ new) t = rev (filter undoable T1) @ [r]" by (metis rev.simps(2) rev_rev_ident)
    have v: "record_valid r" using ok h(3) by (simp add: log_ok_def)
    have vl: "visits_left rs T > 0" using visits_left_step[where T = T and t = t and r = r, OF h(1,2)] by linarith
    have nl: "last_lsn_of (rs @ new) \<noteq> -1" "unat (last_lsn_of (rs @ new) + 1) = Suc (unat (last_lsn_of (rs @ new)))"
      using room_for_one[of "last_lsn_of (rs @ new)" 0] room B(2) vl by auto
    from log_compensation_step[OF core h(1) rem v rc_logged(8) nl(1)] obtain c' where s1:
      "undo_core base rs (new @ [c']) s1" "undo_disk s1 = undo_disk s"
      "last_lsn_of (rs @ new @ [c']) = last_lsn_of (rs @ new) + 1" using rc_logged(9) by auto
    have l: "unat (last_lsn_of (rs @ new @ [c'])) < B" unfolding s1(3) nl(2) using room vl by linarith
    show ?thesis
      unfolding rc_logged(1,2) using core_case[OF s1(1) l] restored_base[OF core res] pc s1(2) by simp
  next
    case (rc_abort dm1 s k s1 c)
    obtain new T where i: "undo_inv F base rs (page_count dm) B new T s" using inv rc_abort by blast
    have core: "undo_core base rs new s" and res: "restored F base rs new (undo_disk s)"
      and pc: "page_count (undo_disk s) = page_count dm"
      and room: "unat (last_lsn_of (rs @ new)) + visits_left rs T + card {t. unfinished rs t} < B"
      using i by (auto simp: undo_inv_def)
    let ?zs = "rs @ new" and ?ts = "take k (losers_of (analyse rs))"
    have C: "log_at ?zs (undo_log s)" "\<not> fail_next_flush (undo_log s)" "recovery_last_lsn s \<le> last_lsn_of ?zs"
      using core by (auto simp: undo_core_def)
    have tsub: "set ?ts \<subseteq> {t. unfinished rs t}" using set_take_subset[of k "losers_of (analyse rs)"] A(2) by blast
    have ll: "\<forall>t \<in> set ?ts. t \<noteq> kInvalidTxnId \<and> last_lsn_in (txn_table s) t = prev_of t ?zs"
    proof
      fix t assume "t \<in> set ?ts"
      then have u: "unfinished rs t" using tsub by blast
      then obtain x where "map_of (txn_table s) t = Some x" "txn_last_lsn x = prev_of t ?zs"
        using core unfolding undo_core_def by blast
      then show "t \<noteq> kInvalidTxnId \<and> last_lsn_in (txn_table s) t = prev_of t ?zs" using u by (simp add: last_lsn_in_def unfinished_def)
    qed
    have dts: "distinct ?ts" using A(3) by simp
    have "length ?ts \<le> card {t. unfinished rs t}" using distinct_card[OF A(3)] A(2) by simp
    then have lb: "unat (last_lsn_of ?zs) + length ?ts < B" using room by linarith
    then have "unat (last_lsn_of ?zs) + length ?ts < 2 ^ 64" using B(2) by linarith
    from abort_losers_result[OF C dts ll this] obtain as where a: "log_at (?zs @ as) (undo_log s1)" "undo_disk s1 = undo_disk s"
      "map rec_txn as = ?ts" "\<forall>x \<in> set as. rec_type x = L_Abort"
      "unat (last_lsn_of (?zs @ as)) = unat (last_lsn_of ?zs) + length ?ts" using rc_abort(6) by auto
    have un: "unfinished ?zs t = unfinished rs t" for t by (rule undo_core_unfinished(1)[OF core])
    have cr: "restartable F base rs new (undo_disk s)" using core_restartable[OF core F] restored_base[OF core res] by blast
    have zs: "recoverable F base ?zs (undo_disk s)" "\<And>p. committed_page ?zs ?zs base p = committed_page rs rs base p"
      using cr unfolding restartable_def by (metis append_Nil2 take_all_iff le_refl)+
    have fin: "page_at p (disk_file (undo_disk s)) = committed_page ?zs ?zs base p"
      if "p \<noteq> 0" "p < page_count (undo_disk s)" "p \<notin> F" for p
      using res that undo_done[OF i rc_abort(5), of p] zs(2) by (simp add: restored_def)
    have at': "\<forall>x \<in> set (take j as). rec_type x = L_Abort \<and> unfinished ?zs (rec_txn x)" for j
    proof
      fix x assume "x \<in> set (take j as)"
      then have x: "x \<in> set as" by (rule in_set_takeD)
      then have "rec_txn x \<in> set ?ts" using a(3) by (metis image_eqI list.set_map)
      then show "rec_type x = L_Abort \<and> unfinished ?zs (rec_txn x)" using x a(4) tsub un by blast
    qed
    have dj: "distinct (map rec_txn (take j as))" for j using dts a(3) by (metis distinct_take take_map)
    note R = aborts_recoverable[OF zs(1) at' dj fin]
    have "restartable F base rs (new @ as) (undo_disk s)"
      unfolding restartable_def
    proof
      fix j
      show "recoverable F base (rs @ take j (new @ as)) (undo_disk s) \<and>
          (\<forall>p. committed_page (rs @ take j (new @ as)) (rs @ take j (new @ as)) base p = committed_page rs rs base p)"
      proof (cases "j \<le> length new")
        case True
        then show ?thesis using cr by (simp add: restartable_def)
      next
        case False
        then have "rs @ take j (new @ as) = ?zs @ take (j - length new) as" by simp
        then show ?thesis using R[of "j - length new"] zs(2) by simp
      qed
    qed
    moreover have "log_bytes (undo_log s1) = log_of (rs @ new @ as)" "log_ok (rs @ new @ as)"
      using a(1) by (simp_all add: log_at_def)
    moreover have "unat (last_lsn_of (rs @ new @ as)) < 2 ^ 60" using a(5) lb B(1) by simp
    ultimately show ?thesis unfolding rc_abort(1,2) a(2) using pc by (intro exI[of _ "new @ as"]) blast
  qed
qed

subsection \<open>Properties\<close>

text \<open>A crash after the first change of a transaction: page 1 was all zeros.\<close>

definition demo_update :: "page_id_t \<Rightarrow> byte \<Rightarrow> byte \<Rightarrow> LogRecord" where
  "demo_update p a b = LogRecord_default\<lparr>rec_type := L_PageUpdate, rec_txn := 1, rec_lsn := 2, rec_prev := 1, rec_page := p,
     before_image := replicate page_size a, after_image := replicate page_size b\<rparr>"

definition demo_records :: "LogRecord list" where
  "demo_records = [LogRecord_default\<lparr>rec_type := L_Begin, rec_txn := 1, rec_lsn := 1\<rparr>, demo_update 1 0 255]"

definition demo_wal :: LogManager where
  "demo_wal = reopened demo_records initial_log_manager"

lemma demo_records_ok: "log_ok demo_records"
  by (simp add: log_ok_def demo_records_def demo_update_def follows_def LogRecord_default_def record_valid_def
      encode_checks_def record_canonical_def normal_record_def prev_of_def kInvalidLsn_def kInvalidTxnId_def
      del: type_code.simps)

lemma demo_wal_at: "log_at demo_records demo_wal" "\<not> fail_next_flush demo_wal" "unat (last_lsn_of demo_records) = 2"
  by (simp_all add: demo_wal_def reopened_def log_at_def demo_records_ok initial_log_manager_def)
    (simp add: last_lsn_of_def demo_records_def demo_update_def)

lemma demo_status: "unfinished demo_records t \<longleftrightarrow> t = 1" "\<not> committed demo_records t"
  by (auto simp: unfinished_def committed_def ends_of_def demo_records_def demo_update_def LogRecord_default_def kInvalidTxnId_def)

lemma demo_disk1_fits: "file_fits demo_disk1" "page_count demo_disk1 = 2" "disk_ok_with [] demo_disk1"
proof -
  have d: "disk_ok_with [] demo_disk" "page_count demo_disk = 1" using demo_disk_sim by (simp_all add: disk_sim_def)
  have e: "demo_disk1 = put_page 0 (superblock (extended demo_disk)) (extended demo_disk)"
    using Allocate_extend(1)[OF d(1)] d(2) by (simp add: demo_disk1_def)
  show "page_count demo_disk1 = 2" unfolding e put_page_fields using d(2) by (simp add: extended_def)
  show "disk_ok_with [] demo_disk1" unfolding e using Allocate_extend(2)[OF d(1)] d(2) by simp
  then show "file_fits demo_disk1" by (simp add: disk_ok_with_def)
qed

lemma demo_recoverable: "recoverable {} (\<lambda>p. replicate page_size 0) demo_records demo_disk1"
proof -
  let ?b = "LogRecord_default\<lparr>rec_type := L_Begin, rec_txn := 1, rec_lsn := 1\<rparr>" and ?u = "demo_update 1 0 255"
  have u: "rec_type ?u = L_PageUpdate" "rec_page ?u = 1" "rec_txn ?u = 1" "before_image ?u = replicate page_size 0"
    by (simp_all add: demo_update_def)
  have b: "rec_type ?b = L_Begin" "rec_txn ?b = 1" by simp_all
  have frees: "\<not> recovery_frees demo_records p" for p
    by (auto simp: recovery_frees_def demo_status) (auto simp: demo_records_def u is_clr_def)
  have lok: "loser_ok demo_records 1"
    by (simp add: loser_ok_def demo_records_def u is_clr_def)
  have p1: "p = 1" if "p \<noteq> 0" "p < 2" for p :: page_id_t
  proof -
    have "unat p < 2" "unat p \<noteq> 0" using that by (simp_all add: word_less_nat_alt unat_eq_0)
    then have "unat p = 1" by linarith
    then show ?thesis by (simp add: word_unat_eq_iff)
  qed
  have t: "touched demo_records p" if "p \<noteq> 0" "p < 2" for p
    using p1[OF that] by (auto simp: touched_def demo_status) (auto simp: demo_records_def u updates_def)
  have split: "before_image r = committed_page demo_records pre (\<lambda>p. replicate page_size 0) (rec_page r) \<and>
      (\<forall>e \<in> set post. committed demo_records (rec_txn e) \<longrightarrow> \<not> updates (rec_page r) e)"
    if "demo_records = pre @ r # post" "rec_type r = L_PageUpdate" for pre r post
  proof -
    have "r \<in> set (pre @ r # post)" by simp
    then have "r \<in> set demo_records" by (simp only: that(1))
    then have "r = ?u" using that(2) by (auto simp: demo_records_def b)
    then show ?thesis by (simp add: committed_page_def demo_status u)
  qed
  have "log_recoverable 2 (\<lambda>p. replicate page_size 0) demo_records"
    unfolding log_recoverable_def using lok split
    by (auto simp: demo_status) (auto simp: demo_records_def undoable_def is_clr_def u)
  then show ?thesis using frees t demo_disk1_fits by (simp add: recoverable_def)
qed

text \<open>C9: Recovery restores the committed state: on a well-formed log whose unfinished transactions have held
  their page locks, and whatever mixture of old and new images the crash left on disk, it terminates
  with success; every page it does not free then holds the last committed image in the log, or its old
  contents if there is none; no transaction is left unfinished in the log, which is durable, and the
  committed transactions are the same.\<close>

theorem Recover_restores_committed:
  assumes "log_at rs lm" and "\<not> fail_next_flush lm" and "recoverable F base rs dm" and "unat (last_lsn_of rs) < 2 ^ 60"
  shows "\<exists>lm' dm' zs. Recover True lm dm = Some (lm', dm', Code_Ok) \<and> log_at zs lm' \<and> last_lsn_of zs \<le> durable_lsn lm' \<and>
    (\<forall>t. \<not> unfinished zs t) \<and> (\<forall>t. committed zs t = committed rs t) \<and>
    (\<forall>p. p \<noteq> 0 \<longrightarrow> p < page_count dm \<longrightarrow> p \<notin> F \<longrightarrow> page_at p (disk_file dm') = committed_page rs rs base p)"
  using assms by (rule Recover_result)

theorem Recover_restores_committed_witness:
  "\<exists>lm' dm'. Recover True demo_wal demo_disk1 = Some (lm', dm', Code_Ok) \<and>
     page_at 1 (disk_file dm') = replicate page_size 0"
proof -
  have "unat (last_lsn_of demo_records) < 2 ^ 60" by (simp add: demo_wal_at(3))
  from Recover_restores_committed[OF demo_wal_at(1,2) demo_recoverable this] show ?thesis
    by (auto simp: demo_disk1_fits committed_page_def demo_status)
qed

text \<open>C13: Recovery can itself crash anywhere: when it stops after any number of redo steps, undo steps or
  abort records, or between a compensation record and its page write, and any part of what it logged
  survives, then opening the log succeeds and a new recovery on the disk as it was left terminates with success
  and yields the same committed contents.\<close>

theorem recovery_restarts:
  assumes "log_at rs lm" and "\<not> fail_next_flush lm" and "recoverable F base rs dm" and "unat (last_lsn_of rs) < 2 ^ 58"
    and "recovery_crash rs lm dm lm' dm'" and "length (log_bytes lm) \<le> k" and "k \<le> length (log_bytes lm')"
    and "Open (Some (take k (log_bytes lm'))) lm0 = (lm1, c)" and "\<not> flush_in_progress lm0" and "\<not> fail_next_flush lm0"
    and "file_fits dm1" and "page_count dm1 = page_count dm" and "disk_file dm1 = disk_file dm'"
  shows "c = Code_Ok \<and> (\<exists>lm2 dm2. Recover True lm1 dm1 = Some (lm2, dm2, Code_Ok) \<and>
    (\<forall>p. p \<noteq> 0 \<longrightarrow> p < page_count dm \<longrightarrow> p \<notin> F \<longrightarrow> page_at p (disk_file dm2) = committed_page rs rs base p))"
proof -
  obtain ext where e: "log_bytes lm' = log_of (rs @ ext)" "log_ok (rs @ ext)" "unat (last_lsn_of (rs @ ext)) < 2 ^ 60"
    "restartable F base rs ext dm'" "page_count dm' = page_count dm"
    using crash_restartable[OF assms(1-5)] by blast
  let ?m = "whole_records k (rs @ ext)"
  have kl: "k \<le> length (log_of (rs @ ext))" using assms(7) e(1) by simp
  have "length (log_of (take (length rs) (rs @ ext))) \<le> k" using assms(1,6) by (simp add: log_at_def)
  then have m: "length rs \<le> ?m" using whole_records_ge[of "length rs" "rs @ ext" k] by simp
  define zs where "zs = rs @ take (?m - length rs) ext"
  have zs: "take ?m (rs @ ext) = zs" using m by (simp add: zs_def)
  have op: "lm1 = reopened zs lm0" "c = Code_Ok"
    using Open_cut[OF e(2) kl, of lm0] assms(8) unfolding e(1)[symmetric] zs by simp_all
  have ok: "log_ok zs" using log_ok_take[OF e(2), of ?m] unfolding zs .
  have at: "log_at zs lm1" "\<not> fail_next_flush lm1" using ok assms(9,10) by (simp_all add: op(1) reopened_def log_at_def)
  have "last_lsn_of zs \<le> last_lsn_of (rs @ ext)"
  proof (cases "zs = []")
    case False
    then have "last zs \<in> set (rs @ ext)" using last_in_set[OF False] zs by (metis in_set_takeD)
    then show ?thesis using le_last_lsn[OF e(2)] False by (simp add: last_lsn_of_def)
  qed (simp add: last_lsn_of_def kInvalidLsn_def)
  then have lsn: "unat (last_lsn_of zs) < 2 ^ 60" using e(3) by (simp add: word_le_nat_alt)
  have R: "recoverable F base zs dm'" "\<And>p. committed_page zs zs base p = committed_page rs rs base p"
    using e(4) unfolding restartable_def zs_def by blast+
  have "recoverable F base zs dm1" using R(1) assms(11-13) e(5) by (simp add: recoverable_def)
  from Recover_result[OF at this lsn] R(2) op(2) assms(12) show ?thesis by fastforce
qed

theorem recovery_restarts_witness:
  "\<exists>lm2 dm2. Recover True demo_wal demo_disk1 = Some (lm2, dm2, Code_Ok) \<and>
     page_at 1 (disk_file dm2) = replicate page_size 0"
proof -
  have l: "unat (last_lsn_of demo_records) < 2 ^ 58" by (simp add: demo_wal_at(3))
  have c: "recovery_crash demo_records demo_wal demo_disk1 demo_wal demo_disk1"
    by (rule rc_redo[of demo_records 0 demo_disk1 demo_disk1 Code_Ok]) simp
  have b: "log_bytes demo_wal = log_of demo_records" using demo_wal_at(1) by (simp add: log_at_def)
  have o: "Open (Some (take (length (log_bytes demo_wal)) (log_bytes demo_wal))) initial_log_manager = (demo_wal, Code_Ok)"
    unfolding b take_all_iff[THEN iffD2, OF order_refl] using Open_log[OF demo_records_ok] by (simp add: demo_wal_def)
  have i: "\<not> flush_in_progress initial_log_manager" "\<not> fail_next_flush initial_log_manager"
    by (simp_all add: initial_log_manager_def)
  from recovery_restarts[OF demo_wal_at(1,2) demo_recoverable l c order_refl order_refl o i demo_disk1_fits(1) refl refl]
  show ?thesis by (auto simp: demo_disk1_fits committed_page_def demo_status)
qed


text \<open>The log of a transaction that drops a page, and of a later one that gets the page anew, fills it and
  commits.\<close>

definition reuse_log :: "byte list \<Rightarrow> LogRecord list" where
  "reuse_log img =
     (let r = LogRecord_default in
      [r\<lparr>rec_type := L_Begin, rec_txn := 1, rec_lsn := 1\<rparr>,
       r\<lparr>rec_type := L_PageFree, rec_txn := 1, rec_lsn := 2, rec_prev := 1, rec_page := 1\<rparr>,
       r\<lparr>rec_type := L_Commit, rec_txn := 1, rec_lsn := 3, rec_prev := 2\<rparr>,
       r\<lparr>rec_type := L_Begin, rec_txn := 2, rec_lsn := 4\<rparr>,
       r\<lparr>rec_type := L_PageAllocate, rec_txn := 2, rec_lsn := 5, rec_prev := 4, rec_page := 1\<rparr>,
       r\<lparr>rec_type := L_PageUpdate, rec_txn := 2, rec_lsn := 6, rec_prev := 5, rec_page := 1,
         before_image := empty_page, after_image := img\<rparr>,
       r\<lparr>rec_type := L_Commit, rec_txn := 2, rec_lsn := 7, rec_prev := 6\<rparr>])"

lemma reuse_log_ok:
  assumes "length img = page_size"
  shows "log_ok (reuse_log img)"
proof -
  have v: "\<forall>r \<in> set (reuse_log img). record_valid r \<and> record_canonical r"
    using assms by (simp add: reuse_log_def Let_def LogRecord_default_def record_valid_def encode_checks_def
        record_canonical_def normal_record_def del: type_code.simps)
  have "chained_from [] (reuse_log img)"
    by (simp add: reuse_log_def Let_def follows_def LogRecord_default_def prev_of_def kInvalidLsn_def kInvalidTxnId_def)
  then show ?thesis using v by (simp add: log_ok_def)
qed

lemma reuse_log_status: "committed (reuse_log img) t \<longleftrightarrow> t = 1 \<or> t = 2" "\<not> unfinished (reuse_log img) t"
  by (auto simp: committed_def unfinished_def ends_of_def reuse_log_def Let_def LogRecord_default_def kInvalidTxnId_def)

lemma reuse_redo:
  assumes img: "length img = page_size" and d: "disk_ok_with fs dm" "1 < page_count dm" "1 \<notin> set fs"
  shows "\<exists>dm'. redo_loop (analyse (reuse_log img)) (reuse_log img) dm = (dm', Code_Ok) \<and> file_fits dm' \<and>
    page_count dm' = page_count dm \<and> page_at 1 (disk_file dm') = img \<and> 1 \<in> free_pages dm' \<and> free_list_head dm' = 1"
proof -
  note A = analyse_sets(1)[OF reuse_log_ok[OF img]]
  define dm1 where "dm1 = put_page 0 (superblock (pushed 1 dm)) (pushed 1 dm)"
  have p: "PushFreePageUnlocked 1 dm = (dm1, Code_Ok)" "disk_ok_with (1 # fs) dm1"
    using Push_ok[OF d(1,2) _ d(3)] by (simp_all add: dm1_def)
  have pc: "page_count dm1 = page_count dm" by (simp add: dm1_def pushed_def)
  have f1: "file_fits dm1" "1 < page_count dm1" "page_count dm1 = page_count dm" "1 \<in> free_pages dm1" "free_list_head dm1 = 1"
    using p(2) d(2) by (auto simp: disk_ok_with_def pc)
  have w: "WriteImage 1 img dm1 = (put_page 1 img dm1, Code_Ok)"
    using Write_fits[OF f1(1,2) img] img by (simp add: WriteImage_def WritePage_def)
  have win: "set (winners_of (analyse (reuse_log img))) = {1, 2}"
    unfolding A(1) reuse_log_status(1) by auto
  have "redo_loop ts (reuse_log img) dm = (put_page 1 img dm1, Code_Ok)" if "set (winners_of ts) = {1, 2}" for ts
    using p(1) w that
    by (simp add: reuse_log_def Let_def LogRecord_default_def redo_record_def DeallocateIdempotent_def DeallocatePage_def)
  from this[OF win]
  show ?thesis
    using put_page_fits[OF f1(1,2) img] put_page_file(2)[OF f1(1,2) img f1(2)] f1(3-5) by simp
qed

text \<open>C32: Recovery can free a page in use: when a committed transaction dropped a page and a later committed one
  was given the page and filled it, recovery succeeds, and the page holds its committed contents but is also at
  the head of the free list; the next allocation hands the same page out again. The cause: the free is
  redone although the page was allocated again, and allocations are not redone.\<close>

theorem Recover_frees_live_page:
  assumes "length img = page_size" and "ValidateBytes img = Code_Ok"
    and "disk_ok_with fs dm" and "1 < page_count dm" and "1 \<notin> free_pages dm"
  shows "\<exists>lm' dm' dm''. Recover True (reopened (reuse_log img) initial_log_manager) dm = Some (lm', dm', Code_Ok) \<and>
    page_at 1 (disk_file dm') = img \<and> 1 \<in> free_pages dm' \<and> AllocatePage dm' = (dm'', Inr 1)"
proof -
  let ?lm = "reopened (reuse_log img) initial_log_manager" and ?ts = "analyse (reuse_log img)"
  have ok: "log_ok (reuse_log img)" using assms(1) by (rule reuse_log_ok)
  have at: "log_at (reuse_log img) ?lm" "\<not> fail_next_flush ?lm"
    by (simp_all add: reopened_def log_at_def ok initial_log_manager_def)
  have "1 \<notin> set fs" using assms(3,5) by (simp add: disk_ok_with_def)
  then obtain dm' where d: "redo_loop ?ts (reuse_log img) dm = (dm', Code_Ok)" "file_fits dm'"
    "page_count dm' = page_count dm" "page_at 1 (disk_file dm') = img" "1 \<in> free_pages dm'" "free_list_head dm' = 1"
    using reuse_redo[OF assms(1,3,4)] by blast
  have nl: "losers_of ?ts = []" using analyse_sets(2)[OF ok] reuse_log_status(2) by simp
  have u: "undo_loop by_lsn (undo_start ?ts ?lm dm') = Some (undo_start ?ts ?lm dm', Code_Ok)" for by_lsn
    by (subst undo_loop.simps) (simp add: undo_start_def nl)
  have "max (recovery_last_lsn (undo_start ?ts ?lm dm')) (append_lsn ?lm) = last_lsn_of (reuse_log img)"
    by (simp add: undo_start_def reopened_def kInvalidLsn_def)
  moreover obtain lm' where "Flush (last_lsn_of (reuse_log img)) True ?lm = Some (lm', Code_Ok)"
    using Flush_log[OF at order_refl] by blast
  moreover have "undo_log (undo_start ?ts ?lm dm') = ?lm" "undo_disk (undo_start ?ts ?lm dm') = dm'"
    by (simp_all add: undo_start_def)
  ultimately have R: "Recover True ?lm dm = Some (lm', dm', Code_Ok)"
    unfolding Recover_def log_at_Scan[OF at(1)] using d(1) u nl by (simp add: Let_def)
  have n: "LoadPageId img 0 = 1"
    using assms(2) by (simp add: ValidateBytes_def page_field_defs page_consts kPageType_def Let_def split: if_splits)
  define dr where "dr = dm'\<lparr>read_count := read_count dm' + 1\<rparr>"
  have r: "ReadPhysicalPageUnlocked 1 dm' = (dr, Inr img)"
    using Read_fits[OF d(2), of 1] d(3,4) assms(4) by (simp add: dr_def)
  have fr: "file_fits (dr\<lparr>free_list_head := 1\<rparr>)" using d(2) by (simp add: dr_def file_fits_def)
  have "AllocatePage dm' = PopFreePageUnlocked dm'"
    using d(2,6) by (simp add: AllocatePage_def file_fits_def INVALID_PAGE_ID_def)
  moreover have "\<exists>dm''. PopFreePageUnlocked dm' = (dm'', Inr 1)"
    using r n d(3,5,6) assms(4) Persist_fits[OF fr]
    by (simp add: PopFreePageUnlocked_def Let_def INVALID_PAGE_ID_def dr_def)
  ultimately show ?thesis using R d(4,5) by metis
qed

theorem Recover_frees_live_page_witness:
  "\<exists>lm' dm' dm''. Recover True (reopened (reuse_log (guard_data (fst (Initialize fresh_page 9)))) initial_log_manager) demo_disk1 =
     Some (lm', dm', Code_Ok) \<and> 1 \<in> free_pages dm' \<and> AllocatePage dm' = (dm'', Inr 1)"
proof -
  have g: "length (guard_data (fst (Initialize fresh_page 9))) = page_size"
    "ValidateBytes (guard_data (fst (Initialize fresh_page 9))) = Code_Ok"
    using fresh_ok(1) by (simp_all add: guard_ok_def)
  have "1 \<notin> free_pages demo_disk1" using demo_disk1_fits(3) by (simp add: disk_ok_with_def)
  from Recover_frees_live_page[OF g demo_disk1_fits(3) _ this] demo_disk1_fits(2) show ?thesis by auto
qed

end
