(* ===== verification/BufferPool.thy ===== *)
theory BufferPool
  imports LockManager LogFile Disk Replacer
begin

text \<open>
  \<^verbatim>\<open>BufferPoolManager\<close> and the page guards of \<^verbatim>\<open>src/storage/storage.cpp\<close>. The pool owns the frames; the
  disk, log and lock managers it points to are those of \<^verbatim>\<open>Disk\<close>, \<^verbatim>\<open>LogFile\<close> and \<^verbatim>\<open>LockManager\<close>, and the
  transactions are those of the lock manager's store. An operation that gives up the pool's mutex for
  input and output is cut into its sections, which \<^verbatim>\<open>PoolProtocol\<close> interleaves, and composed again into the whole
  call as it runs when no other thread interferes. Pin counts and waiter counts are natural numbers.
\<close>

subsection \<open>State\<close>

datatype FlushPolicy = WriteBack | WriteThrough

datatype FrameState = FS_Empty | FS_Loading | FS_Valid | FS_Flushing | FS_Evicting | FS_DeletePending

text \<open>The replacement policy behind the abstract class.\<close>

datatype AnyReplacer = R_FIFO FIFOReplacer | R_LRU LRUReplacer | R_CLOCK ClockReplacer

datatype ReplacementPolicy = P_FIFO | P_LRU | P_CLOCK

fun make_replacer :: "ReplacementPolicy \<Rightarrow> nat \<Rightarrow> AnyReplacer" where
  "make_replacer P_FIFO n = R_FIFO (FIFO_init n)"
| "make_replacer P_LRU n = R_LRU (LRU_init n)"
| "make_replacer P_CLOCK n = R_CLOCK (CLOCK_init n)"

fun any_step :: "rep_op \<Rightarrow> AnyReplacer \<Rightarrow> AnyReplacer \<times> rep_reply" where
  "any_step x (R_FIFO s) = apfst R_FIFO (fifo_step x s)"
| "any_step x (R_LRU s) = apfst R_LRU (lru_step x s)"
| "any_step x (R_CLOCK s) = apfst R_CLOCK (clock_step x s)"

fun any_evictable :: "AnyReplacer \<Rightarrow> frame_id_t \<Rightarrow> bool" where
  "any_evictable (R_FIFO s) f = FIFO_IsEvictable s f"
| "any_evictable (R_LRU s) f = LRU_IsEvictable s f"
| "any_evictable (R_CLOCK s) f = CLOCK_IsEvictable s f"

record Frame =
  frame_page :: "byte list"
  frame_page_id :: page_id_t
  pin_count :: nat
  is_dirty :: bool
  page_lsn :: lsn_t
  frame_state :: FrameState

definition empty_frame :: Frame where
  "empty_frame = \<lparr>frame_page = empty_page, frame_page_id = INVALID_PAGE_ID, pin_count = 0, is_dirty = False,
     page_lsn = kInvalidLsn, frame_state = FS_Empty\<rparr>"

record BufferPoolManager =
  pool_size :: nat
  disk_manager :: DiskManager
  log_manager :: LogManager
  lock_manager :: LockManager
  log_manager_bound :: bool
  lock_manager_bound :: bool
  flush_policy :: FlushPolicy
  init_status :: ErrorCode
  frames :: "Frame list"
  free_frames :: "frame_id_t list"
  free_frame_set :: "frame_id_t set"
  page_table :: "page_id_t \<rightharpoonup> frame_id_t"
  load_failures :: "page_id_t \<rightharpoonup> ErrorCode"
  loading_waiters :: "page_id_t \<rightharpoonup> nat"
  delete_pending_pages :: "page_id_t set"
  pool_replacer :: AnyReplacer
  access_count :: u64
  hit_count :: u64
  miss_count :: u64
  eviction_count :: u64
  eviction_log :: "page_id_t list"
  pool_closed :: bool

text \<open>A constructed pool; the log and lock managers it may be bound to later are given here.\<close>

definition make_BufferPool ::
  "nat \<Rightarrow> ReplacementPolicy \<Rightarrow> FlushPolicy \<Rightarrow> DiskManager \<Rightarrow> LogManager \<Rightarrow> LockManager \<Rightarrow> BufferPoolManager" where
  "make_BufferPool n policy flush dm lm locks =
     \<lparr>pool_size = n, disk_manager = dm, log_manager = lm, lock_manager = locks, log_manager_bound = False,
      lock_manager_bound = False, flush_policy = flush, init_status = (if n = 0 then InvalidArgument else Code_Ok),
      frames = replicate n empty_frame, free_frames = [0..<n], free_frame_set = {..<n}, page_table = Map.empty,
      load_failures = Map.empty, loading_waiters = Map.empty, delete_pending_pages = {},
      pool_replacer = make_replacer policy n, access_count = 0, hit_count = 0, miss_count = 0, eviction_count = 0,
      eviction_log = [], pool_closed = False\<rparr>"

text \<open>Binding a manager (\<open>None\<close>: a null pointer); \<open>same\<close> tells whether it is the manager bound before.\<close>

definition SetLogManager :: "LogManager option \<Rightarrow> bool \<Rightarrow> BufferPoolManager \<Rightarrow> BufferPoolManager \<times> ErrorCode" where
  "SetLogManager manager same bp =
     (case manager of
        None \<Rightarrow> (bp, InvalidArgument)
      | Some lm \<Rightarrow>
          if log_manager_bound bp \<and> \<not> same then (bp, InvalidArgument)
          else (bp\<lparr>log_manager := (if log_manager_bound bp then log_manager bp else lm), log_manager_bound := True\<rparr>, Code_Ok))"

definition SetLockManager :: "LockManager option \<Rightarrow> bool \<Rightarrow> BufferPoolManager \<Rightarrow> BufferPoolManager \<times> ErrorCode" where
  "SetLockManager manager same bp =
     (case manager of
        None \<Rightarrow> (bp, InvalidArgument)
      | Some lm \<Rightarrow>
          if lock_manager_bound bp \<and> \<not> same then (bp, InvalidArgument)
          else (bp\<lparr>lock_manager := (if lock_manager_bound bp then lock_manager bp else lm), lock_manager_bound := True\<rparr>,
                Code_Ok))"

subsection \<open>Frames, transactions and the replacer\<close>

definition frame_at :: "BufferPoolManager \<Rightarrow> frame_id_t \<Rightarrow> Frame" where
  "frame_at bp f = frames bp ! f"

definition upd_frame :: "frame_id_t \<Rightarrow> (Frame \<Rightarrow> Frame) \<Rightarrow> BufferPoolManager \<Rightarrow> BufferPoolManager" where
  "upd_frame f g bp = bp\<lparr>frames := (frames bp)[f := g (frames bp ! f)]\<rparr>"

definition call_replacer :: "rep_op \<Rightarrow> BufferPoolManager \<Rightarrow> BufferPoolManager \<times> ErrorCode" where
  "call_replacer x bp =
     (case any_step x (pool_replacer bp) of
        (r, Status code) \<Rightarrow> (bp\<lparr>pool_replacer := r\<rparr>, code)
      | (r, Chosen f) \<Rightarrow> (bp\<lparr>pool_replacer := r\<rparr>, Code_Ok))"

definition call_victim :: "BufferPoolManager \<Rightarrow> BufferPoolManager \<times> frame_id_t Result" where
  "call_victim bp =
     (case any_step Victim (pool_replacer bp) of
        (r, Status code) \<Rightarrow> (bp\<lparr>pool_replacer := r\<rparr>, Inl code)
      | (r, Chosen f) \<Rightarrow> (bp\<lparr>pool_replacer := r\<rparr>, Inr f))"

definition txn_usable :: "txn_id_t \<Rightarrow> BufferPoolManager \<Rightarrow> bool" where
  "txn_usable t bp = usable (lock_manager bp) t"

definition upd_pool_txn :: "txn_id_t \<Rightarrow> (Transaction \<Rightarrow> Transaction) \<Rightarrow> BufferPoolManager \<Rightarrow> BufferPoolManager" where
  "upd_pool_txn t g bp = bp\<lparr>lock_manager := upd_txn t g (lock_manager bp)\<rparr>"

text \<open>The last log sequence number of a transaction object.\<close>

definition txn_chain :: "txn_id_t \<Rightarrow> BufferPoolManager \<Rightarrow> lsn_t" where
  "txn_chain t bp = (case txn_store (lock_manager bp) t of None \<Rightarrow> kInvalidLsn | Some x \<Rightarrow> last_lsn x)"

text \<open>Appending a record to the log and to the chain of its transaction, under the transaction's mutex.\<close>

definition append_for :: "txn_id_t \<Rightarrow> LogRecord \<Rightarrow> BufferPoolManager \<Rightarrow> BufferPoolManager \<times> lsn_t Result" where
  "append_for t r bp =
     (case Append (r\<lparr>rec_txn := t, rec_prev := txn_chain t bp\<rparr>) (log_manager bp) of
        (lm, Inl err) \<Rightarrow> (bp\<lparr>log_manager := lm\<rparr>, Inl err)
      | (lm, Inr lsn) \<Rightarrow> (upd_pool_txn t (SetLastLsn lsn) (bp\<lparr>log_manager := lm\<rparr>), Inr lsn))"

subsection \<open>Locks and logging\<close>

definition AcquirePageLock ::
  "page_id_t \<Rightarrow> txn_id_t option \<Rightarrow> LockMode \<Rightarrow> BufferPoolManager \<Rightarrow> BufferPoolManager \<times> lock_outcome" where
  "AcquirePageLock page tp mode bp =
     (case tp of
        None \<Rightarrow> (bp, Returned Code_Ok)
      | Some t \<Rightarrow>
          if \<not> txn_usable t bp then (bp, Returned InvalidArgument)
          else if \<not> lock_manager_bound bp then (bp, Returned Code_Ok)
          else (case LockPage tp page mode (lock_manager bp) of
                  (lm, outcome) \<Rightarrow> (bp\<lparr>lock_manager := lm\<rparr>, outcome)))"

definition frame_matches :: "frame_id_t \<Rightarrow> page_id_t \<Rightarrow> BufferPoolManager \<Rightarrow> bool" where
  "frame_matches f page bp \<longleftrightarrow> f < length (frames bp) \<and> frame_page_id (frame_at bp f) = page"

definition restore_before_image ::
  "frame_id_t \<Rightarrow> page_id_t \<Rightarrow> byte list \<Rightarrow> BufferPoolManager \<Rightarrow> BufferPoolManager \<times> bool" where
  "restore_before_image f page before bp =
     (if \<not> frame_matches f page bp then (bp, False)
      else (upd_frame f (\<lambda>fr. fr\<lparr>frame_page := before\<rparr>) bp, True))"

definition update_record :: "page_id_t \<Rightarrow> byte list \<Rightarrow> byte list \<Rightarrow> LogRecord" where
  "update_record page before after =
     LogRecord_default\<lparr>rec_type := L_PageUpdate, rec_page := page, before_image := before, after_image := after\<rparr>"

text \<open>Logging the change a write guard made; when that fails, the page is put back.\<close>

definition RecordGuardUpdate ::
  "frame_id_t \<Rightarrow> page_id_t \<Rightarrow> txn_id_t option \<Rightarrow> bool \<Rightarrow> byte list \<Rightarrow> BufferPoolManager \<Rightarrow> BufferPoolManager \<times> ErrorCode" where
  "RecordGuardUpdate f page tp dirty before bp =
     (case tp of
        None \<Rightarrow> (bp, Code_Ok)
      | Some t \<Rightarrow>
          if \<not> dirty then (bp, Code_Ok)
          else if \<not> log_manager_bound bp then
            (case restore_before_image f page before bp of
               (bp, restored) \<Rightarrow> (upd_pool_txn t MarkFailed bp, if \<not> restored then InternalError else InvalidArgument))
          else if \<not> frame_matches f page bp then (upd_pool_txn t MarkFailed bp, InternalError)
          else
            (case append_for t (update_record page before (frame_page (frame_at bp f))) bp of
               (bp, Inl err) \<Rightarrow>
                 (case restore_before_image f page before bp of
                    (bp, restored) \<Rightarrow> (upd_pool_txn t MarkFailed bp, if \<not> restored then InternalError else IOError))
             | (bp, Inr lsn) \<Rightarrow>
                 if frame_matches f page bp then (upd_frame f (\<lambda>fr. fr\<lparr>page_lsn := lsn\<rparr>) bp, Code_Ok)
                 else (case restore_before_image f page before bp of
                         (bp, restored) \<Rightarrow> (upd_pool_txn t MarkFailed bp, InternalError))))"

text \<open>Write-ahead logging: the log is flushed up to the page's number before the page is written. As in
  \<open>Flush\<close>, \<open>host_ok\<close> is the outcome of the host's flush and \<open>None\<close> means that the call waits.\<close>

definition FlushFrameToDisk ::
  "bool \<Rightarrow> page_id_t \<Rightarrow> byte list \<Rightarrow> lsn_t \<Rightarrow> BufferPoolManager \<Rightarrow> (BufferPoolManager \<times> ErrorCode) option" where
  "FlushFrameToDisk host_ok page bytes lsn bp =
     (let write = (\<lambda>bp. case WritePage page bytes (disk_manager bp) of
                          (dm, status) \<Rightarrow> Some (bp\<lparr>disk_manager := dm\<rparr>, status)) in
      if log_manager_bound bp \<and> lsn \<noteq> kInvalidLsn then
        (case Flush lsn host_ok (log_manager bp) of
           None \<Rightarrow> None
         | Some (lm, wal_status) \<Rightarrow>
             if wal_status \<noteq> Code_Ok then Some (bp\<lparr>log_manager := lm\<rparr>, IOError)
             else write (bp\<lparr>log_manager := lm\<rparr>))
      else write bp)"

definition page_record :: "LogRecordType \<Rightarrow> page_id_t \<Rightarrow> LogRecord" where
  "page_record type page = LogRecord_default\<lparr>rec_type := type, rec_page := page\<rparr>"

definition AppendPageFreeLog :: "page_id_t \<Rightarrow> txn_id_t option \<Rightarrow> BufferPoolManager \<Rightarrow> BufferPoolManager \<times> ErrorCode" where
  "AppendPageFreeLog page tp bp =
     (case tp of
        None \<Rightarrow> (bp, InvalidArgument)
      | Some t \<Rightarrow>
          if \<not> log_manager_bound bp then (bp, InvalidArgument)
          else if \<not> txn_usable t bp then (bp, InvalidArgument)
          else if (case txn_store (lock_manager bp) t of None \<Rightarrow> False | Some x \<Rightarrow> HasDeferredFreePage page x)
          then (bp, AlreadyExists)
          else
            (case append_for t (page_record L_PageFree page) bp of
               (bp, Inl err) \<Rightarrow> (upd_pool_txn t MarkFailed bp, err)
             | (bp, Inr lsn) \<Rightarrow> (upd_pool_txn t (AddDeferredFreePage page) bp, Code_Ok)))"

subsection \<open>Choosing frames\<close>

definition EnsureReadyUnlocked :: "BufferPoolManager \<Rightarrow> ErrorCode" where
  "EnsureReadyUnlocked bp =
     (if init_status bp \<noteq> Code_Ok then init_status bp else if pool_closed bp then InvalidArgument else Code_Ok)"

definition ValidateDataPageId :: "page_id_t \<Rightarrow> ErrorCode" where
  "ValidateDataPageId page = (if page = INVALID_PAGE_ID \<or> page = 0 then InvalidArgument else Code_Ok)"

record FrameSelection =
  sel_frame :: frame_id_t
  from_free_list :: bool

definition SelectFrameUnlocked :: "BufferPoolManager \<Rightarrow> BufferPoolManager \<times> FrameSelection Result" where
  "SelectFrameUnlocked bp =
     (case free_frames bp of
        f # rest \<Rightarrow>
          (let bp = bp\<lparr>free_frames := rest, free_frame_set := free_frame_set bp - {f}\<rparr> in
           if f \<ge> length (frames bp) \<or> frame_page_id (frame_at bp f) \<noteq> INVALID_PAGE_ID then (bp, Inl InternalError)
           else (upd_frame f (\<lambda>fr. fr\<lparr>frame_state := FS_Loading\<rparr>) bp, Inr \<lparr>sel_frame = f, from_free_list = True\<rparr>))
      | [] \<Rightarrow>
          (case call_victim bp of
             (bp, Inl err) \<Rightarrow> (bp, Inl NotFound)
           | (bp, Inr f) \<Rightarrow>
               if pin_count (frame_at bp f) \<noteq> 0 \<or> frame_page_id (frame_at bp f) = INVALID_PAGE_ID \<or>
                  frame_state (frame_at bp f) \<noteq> FS_Valid
               then (bp, Inl InternalError)
               else (upd_frame f (\<lambda>fr. fr\<lparr>frame_state := FS_Evicting, pin_count := pin_count fr + 1\<rparr>) bp,
                     Inr \<lparr>sel_frame = f, from_free_list = False\<rparr>)))"

definition ReturnFreeFrameUnlocked :: "frame_id_t \<Rightarrow> BufferPoolManager \<Rightarrow> BufferPoolManager \<times> ErrorCode" where
  "ReturnFreeFrameUnlocked f bp =
     (if f \<ge> length (frames bp) then (bp, InvalidArgument)
      else if frame_page_id (frame_at bp f) \<noteq> INVALID_PAGE_ID \<or> pin_count (frame_at bp f) \<noteq> 0 then (bp, InternalError)
      else if f \<in> free_frame_set bp then (bp, InternalError)
      else (bp\<lparr>free_frame_set := insert f (free_frame_set bp), free_frames := free_frames bp @ [f]\<rparr>, Code_Ok))"

text \<open>Not called anywhere in the repository.\<close>

definition RestoreSelectionUnlocked :: "FrameSelection \<Rightarrow> BufferPoolManager \<Rightarrow> BufferPoolManager" where
  "RestoreSelectionUnlocked sel bp =
     (let f = sel_frame sel in
      if from_free_list sel then
        (let bp = (if f < length (frames bp) then upd_frame f (\<lambda>fr. fr\<lparr>frame_state := FS_Empty\<rparr>) bp else bp)
         in fst (ReturnFreeFrameUnlocked f bp))
      else
        (let bp = (if f < length (frames bp) \<and> frame_page_id (frame_at bp f) \<noteq> INVALID_PAGE_ID \<and> pin_count (frame_at bp f) = 0
                   then fst (call_replacer (Unpin f) bp) else bp)
         in if f < length (frames bp) \<and> frame_state (frame_at bp f) = FS_Evicting
            then fst (call_replacer (Unpin f)
                   (upd_frame f (\<lambda>fr. fr\<lparr>frame_state := FS_Valid, pin_count := pin_count fr - 1\<rparr>) bp))
            else bp))"

subsection \<open>Giving a page back\<close>

text \<open>The common part of \<^verbatim>\<open>ReleaseGuard\<close> and \<^verbatim>\<open>UnpinPage\<close> up to the point where the mutex is released, for
  writing the page through (\<open>RE_Flush\<close>) or for good.\<close>

datatype ReleaseEntry = RE_Return ErrorCode | RE_Flush

definition release_frame :: "frame_id_t \<Rightarrow> bool \<Rightarrow> BufferPoolManager \<Rightarrow> BufferPoolManager \<times> ReleaseEntry" where
  "release_frame f dirty bp =
     (let bp = upd_frame f (\<lambda>fr. fr\<lparr>is_dirty := is_dirty fr \<or> dirty\<rparr>) bp; fr = frame_at bp f in
      if frame_state fr = FS_Valid \<and> flush_policy bp = WriteThrough \<and> is_dirty fr \<and> pin_count fr = 1
      then (upd_frame f (\<lambda>fr. fr\<lparr>frame_state := FS_Flushing\<rparr>) bp, RE_Flush)
      else
        (let bp = upd_frame f (\<lambda>fr. fr\<lparr>pin_count := pin_count fr - 1\<rparr>) bp; fr = frame_at bp f in
         if pin_count fr = 0 \<and> frame_state fr \<noteq> FS_DeletePending then
           (case call_replacer (Unpin f) bp of (bp, status) \<Rightarrow> (bp, RE_Return status))
         else (bp, RE_Return Code_Ok)))"

definition release_enter :: "frame_id_t \<Rightarrow> page_id_t \<Rightarrow> bool \<Rightarrow> BufferPoolManager \<Rightarrow> BufferPoolManager \<times> ReleaseEntry" where
  "release_enter f page dirty bp =
     (if \<not> frame_matches f page bp then (bp, RE_Return InternalError)
      else if pin_count (frame_at bp f) = 0 then (bp, RE_Return InvalidArgument)
      else release_frame f dirty bp)"

text \<open>Writing a frame out, outside the mutex, and taking note of the outcome.\<close>

definition write_frame :: "bool \<Rightarrow> frame_id_t \<Rightarrow> page_id_t \<Rightarrow> BufferPoolManager \<Rightarrow> (BufferPoolManager \<times> ErrorCode) option" where
  "write_frame host_ok f page bp =
     FlushFrameToDisk host_ok page (frame_page (frame_at bp f)) (page_lsn (frame_at bp f)) bp"

definition flush_finish :: "frame_id_t \<Rightarrow> ErrorCode \<Rightarrow> BufferPoolManager \<Rightarrow> BufferPoolManager" where
  "flush_finish f status bp =
     (let bp = (if status = Code_Ok then upd_frame f (\<lambda>fr. fr\<lparr>is_dirty := False, page_lsn := kInvalidLsn\<rparr>) bp else bp);
          bp = upd_frame f (\<lambda>fr. fr\<lparr>frame_state := FS_Valid, pin_count := pin_count fr - 1\<rparr>) bp
      in if pin_count (frame_at bp f) = 0 then fst (call_replacer (Unpin f) bp) else bp)"

definition release_rest ::
  "bool \<Rightarrow> frame_id_t \<Rightarrow> page_id_t \<Rightarrow> BufferPoolManager \<times> ReleaseEntry \<Rightarrow> (BufferPoolManager \<times> ErrorCode) option" where
  "release_rest host_ok f page entry =
     (case entry of
        (bp, RE_Return status) \<Rightarrow> Some (bp, status)
      | (bp, RE_Flush) \<Rightarrow>
          (case write_frame host_ok f page bp of
             None \<Rightarrow> None
           | Some (bp, status) \<Rightarrow> Some (flush_finish f status bp, status)))"

definition ReleaseGuard ::
  "bool \<Rightarrow> frame_id_t \<Rightarrow> page_id_t \<Rightarrow> bool \<Rightarrow> BufferPoolManager \<Rightarrow> (BufferPoolManager \<times> ErrorCode) option" where
  "ReleaseGuard host_ok f page dirty bp = release_rest host_ok f page (release_enter f page dirty bp)"

definition UnpinPage :: "bool \<Rightarrow> page_id_t \<Rightarrow> bool \<Rightarrow> BufferPoolManager \<Rightarrow> (BufferPoolManager \<times> ErrorCode) option" where
  "UnpinPage host_ok page dirty bp =
     (if EnsureReadyUnlocked bp \<noteq> Code_Ok then Some (bp, EnsureReadyUnlocked bp)
      else
        (case page_table bp page of
           None \<Rightarrow> Some (bp, NotFound)
         | Some f \<Rightarrow>
             if pin_count (frame_at bp f) = 0 then Some (bp, InvalidArgument)
             else release_rest host_ok f page (release_frame f dirty bp)))"

subsection \<open>Page guards\<close>

text \<open>A write guard that owns the frame's exclusive latch; \<open>wg_before\<close> is the before image a transaction keeps.\<close>

record WritePageGuard =
  wg_frame :: frame_id_t
  wg_page_id :: page_id_t
  wg_dirty :: bool
  wg_txn :: "txn_id_t option"
  wg_before :: "byte list option"

definition make_WritePageGuard ::
  "frame_id_t \<Rightarrow> page_id_t \<Rightarrow> txn_id_t option \<Rightarrow> BufferPoolManager \<Rightarrow> BufferPoolManager \<times> WritePageGuard" where
  "make_WritePageGuard f page tp bp =
     (let g = \<lparr>wg_frame = f, wg_page_id = page, wg_dirty = False, wg_txn = tp, wg_before = None\<rparr> in
      case tp of
        None \<Rightarrow> (bp, g)
      | Some t \<Rightarrow> (upd_pool_txn t AddActiveWriteGuard bp, g\<lparr>wg_before := Some (frame_page (frame_at bp f))\<rparr>))"

text \<open>Dropping a guard: a read guard, and a write guard with its log record.\<close>

definition ReadGuard_Reset :: "bool \<Rightarrow> frame_id_t \<Rightarrow> page_id_t \<Rightarrow> BufferPoolManager \<Rightarrow> BufferPoolManager option" where
  "ReadGuard_Reset host_ok f page bp = map_option fst (ReleaseGuard host_ok f page False bp)"

definition guard_log :: "WritePageGuard \<Rightarrow> BufferPoolManager \<Rightarrow> BufferPoolManager \<times> WritePageGuard \<times> ErrorCode" where
  "guard_log g bp =
     (case (wg_txn g, wg_before g) of
        (Some t, Some before) \<Rightarrow>
          if wg_dirty g then
            (case RecordGuardUpdate (wg_frame g) (wg_page_id g) (Some t) True before bp of
               (bp, log_status) \<Rightarrow> (bp, if log_status \<noteq> Code_Ok then g\<lparr>wg_dirty := False\<rparr> else g, log_status))
          else (bp, g, Code_Ok)
      | _ \<Rightarrow> (bp, g, Code_Ok))"

definition guard_unregister :: "WritePageGuard \<Rightarrow> ErrorCode \<Rightarrow> BufferPoolManager \<Rightarrow> BufferPoolManager" where
  "guard_unregister g status bp =
     (case wg_txn g of
        None \<Rightarrow> bp
      | Some t \<Rightarrow> upd_pool_txn t ReleaseActiveWriteGuard (if status \<noteq> Code_Ok then upd_pool_txn t MarkFailed bp else bp))"

definition WriteGuard_Reset :: "bool \<Rightarrow> WritePageGuard \<Rightarrow> BufferPoolManager \<Rightarrow> (BufferPoolManager \<times> ErrorCode) option" where
  "WriteGuard_Reset host_ok g bp =
     (case guard_log g bp of
        (bp, g, log_status) \<Rightarrow>
          (case ReleaseGuard host_ok (wg_frame g) (wg_page_id g) (wg_dirty g) bp of
             None \<Rightarrow> None
           | Some (bp, status) \<Rightarrow>
               Some (guard_unregister g status bp, if log_status \<noteq> Code_Ok then log_status else status)))"

subsection \<open>Fetching\<close>

text \<open>One turn of the loop under the mutex: an error, a hit (the frame is pinned), a frame in transition to wait
  for, or a frame chosen to load the page into, with the page it held before.\<close>

datatype FetchEntry =
  FE_Error ErrorCode | FE_Hit frame_id_t | FE_Wait | FE_Load FrameSelection page_id_t

definition fetch_hit :: "frame_id_t \<Rightarrow> BufferPoolManager \<Rightarrow> BufferPoolManager \<times> FetchEntry" where
  "fetch_hit f bp =
     (case call_replacer (Pin f) bp of
        (bp, pin_status) \<Rightarrow>
          if pin_status \<noteq> Code_Ok then (bp, FE_Error pin_status)
          else
            (case call_replacer (RecordAccess f) (upd_frame f (\<lambda>fr. fr\<lparr>pin_count := pin_count fr + 1\<rparr>) bp) of
               (bp, access_status) \<Rightarrow>
                 if access_status \<noteq> Code_Ok
                 then (fst (call_replacer (Unpin f) (upd_frame f (\<lambda>fr. fr\<lparr>pin_count := pin_count fr - 1\<rparr>) bp)),
                       FE_Error access_status)
                 else (bp\<lparr>hit_count := hit_count bp + 1\<rparr>, FE_Hit f)))"

definition fetch_miss :: "page_id_t \<Rightarrow> BufferPoolManager \<Rightarrow> BufferPoolManager \<times> FetchEntry" where
  "fetch_miss page bp =
     (case SelectFrameUnlocked (bp\<lparr>miss_count := miss_count bp + 1\<rparr>) of
        (bp, Inl err) \<Rightarrow> (bp, FE_Error err)
      | (bp, Inr sel) \<Rightarrow>
          (let f = sel_frame sel; old_page = frame_page_id (frame_at bp f);
               bp = (if from_free_list sel then upd_frame f (\<lambda>fr. fr\<lparr>frame_page_id := page, pin_count := 1\<rparr>) bp else bp)
           in (bp\<lparr>page_table := (page_table bp)(page \<mapsto> f)\<rparr>, FE_Load sel old_page)))"

definition fetch_loop :: "page_id_t \<Rightarrow> BufferPoolManager \<Rightarrow> BufferPoolManager \<times> FetchEntry" where
  "fetch_loop page bp =
     (if page \<in> delete_pending_pages bp then (bp, FE_Error NotFound)
      else
        (case page_table bp page of
           Some f \<Rightarrow>
             if frame_state (frame_at bp f) = FS_Valid then fetch_hit f bp
             else if frame_state (frame_at bp f) = FS_DeletePending then (bp, FE_Error NotFound)
             else
               (bp\<lparr>loading_waiters := (loading_waiters bp)
                    (page \<mapsto> (case loading_waiters bp page of None \<Rightarrow> 0 | Some n \<Rightarrow> n) + 1)\<rparr>, FE_Wait)
         | None \<Rightarrow>
             (case load_failures bp page of
                Some status \<Rightarrow>
                  (if loading_waiters bp page = None then bp\<lparr>load_failures := (load_failures bp)(page := None)\<rparr> else bp,
                   FE_Error status)
              | None \<Rightarrow> fetch_miss page bp)))"

text \<open>The checks before the loop. \<open>tp\<close> is the transaction of a write access.\<close>

definition fetch_enter :: "page_id_t \<Rightarrow> txn_id_t option \<Rightarrow> BufferPoolManager \<Rightarrow> BufferPoolManager \<times> FetchEntry" where
  "fetch_enter page tp bp =
     (if EnsureReadyUnlocked bp \<noteq> Code_Ok then (bp, FE_Error (EnsureReadyUnlocked bp))
      else if (case tp of None \<Rightarrow> False | Some t \<Rightarrow> \<not> txn_usable t bp) then (bp, FE_Error InvalidArgument)
      else if ValidateDataPageId page \<noteq> Code_Ok then (bp, FE_Error (ValidateDataPageId page))
      else fetch_loop page (bp\<lparr>access_count := access_count bp + 1\<rparr>))"

text \<open>When a waiting fetch may go on, and how: it takes over the failure of the load it waited for, or starts
  another turn of the loop.\<close>

definition fetch_wakes :: "page_id_t \<Rightarrow> BufferPoolManager \<Rightarrow> bool" where
  "fetch_wakes page bp \<longleftrightarrow>
     (case page_table bp page of None \<Rightarrow> True
      | Some f \<Rightarrow> frame_state (frame_at bp f) = FS_Valid \<or> frame_state (frame_at bp f) = FS_DeletePending)"

definition fetch_wake :: "page_id_t \<Rightarrow> BufferPoolManager \<Rightarrow> BufferPoolManager \<times> FetchEntry" where
  "fetch_wake page bp =
     (case load_failures bp page of
        Some status \<Rightarrow>
          (case loading_waiters bp page of
             None \<Rightarrow> (bp, FE_Error status)
           | Some n \<Rightarrow>
               if n = 1
               then (bp\<lparr>loading_waiters := (loading_waiters bp)(page := None),
                        load_failures := (load_failures bp)(page := None)\<rparr>, FE_Error status)
               else (bp\<lparr>loading_waiters := (loading_waiters bp)(page \<mapsto> n - 1)\<rparr>, FE_Error status))
      | None \<Rightarrow>
          fetch_loop page
            (case loading_waiters bp page of
               None \<Rightarrow> bp
             | Some n \<Rightarrow> if n \<noteq> 0 then bp\<lparr>loading_waiters := (loading_waiters bp)(page \<mapsto> n - 1)\<rparr> else bp))"

text \<open>Outside the mutex, under the frame's latch: the old page is written out if it is dirty, and the new one
  read.\<close>

definition evict_io ::
  "bool \<Rightarrow> FrameSelection \<Rightarrow> page_id_t \<Rightarrow> BufferPoolManager \<Rightarrow> (BufferPoolManager \<times> ErrorCode) option" where
  "evict_io host_ok sel old_page bp =
     (let f = sel_frame sel in
      if \<not> from_free_list sel \<and> is_dirty (frame_at bp f) then
        (case write_frame host_ok f old_page bp of
           None \<Rightarrow> None
         | Some (bp, write_status) \<Rightarrow>
             Some (if write_status = Code_Ok then upd_frame f (\<lambda>fr. fr\<lparr>page_lsn := kInvalidLsn\<rparr>) bp else bp, write_status))
      else Some (bp, Code_Ok))"

definition load_io ::
  "FrameSelection \<Rightarrow> page_id_t \<Rightarrow> BufferPoolManager \<times> ErrorCode \<Rightarrow> BufferPoolManager \<times> ErrorCode" where
  "load_io sel page written =
     (case written of
        (bp, write_status) \<Rightarrow>
          (let f = sel_frame sel;
               clear = (\<lambda>bp. if from_free_list sel then upd_frame f (\<lambda>fr. fr\<lparr>frame_page := empty_page\<rparr>) bp else bp) in
           if write_status \<noteq> Code_Ok then (clear bp, write_status)
           else
             (case ReadPage page (disk_manager bp) of
                (dm, Inl err) \<Rightarrow> (clear (bp\<lparr>disk_manager := dm\<rparr>), err)
              | (dm, Inr bytes) \<Rightarrow>
                  (upd_frame f (\<lambda>fr. fr\<lparr>frame_page := bytes\<rparr>) (bp\<lparr>disk_manager := dm\<rparr>), Code_Ok))))"

definition fetch_io ::
  "bool \<Rightarrow> page_id_t \<Rightarrow> FrameSelection \<Rightarrow> page_id_t \<Rightarrow> BufferPoolManager \<Rightarrow> (BufferPoolManager \<times> ErrorCode) option" where
  "fetch_io host_ok page sel old_page bp = map_option (load_io sel page) (evict_io host_ok sel old_page bp)"

text \<open>Back under the mutex: the page enters the frame, or the frame goes back to what it was.\<close>

definition release_selection :: "FrameSelection \<Rightarrow> BufferPoolManager \<Rightarrow> BufferPoolManager" where
  "release_selection sel bp =
     (let f = sel_frame sel in
      if from_free_list sel
      then fst (ReturnFreeFrameUnlocked f
             (upd_frame f (\<lambda>fr. fr\<lparr>frame_page_id := INVALID_PAGE_ID, pin_count := 0, is_dirty := False,
                frame_state := FS_Empty\<rparr>) bp))
      else fst (call_replacer (Unpin f) (upd_frame f (\<lambda>fr. fr\<lparr>pin_count := 0, frame_state := FS_Valid\<rparr>) bp)))"

definition note_eviction :: "page_id_t \<Rightarrow> BufferPoolManager \<Rightarrow> BufferPoolManager" where
  "note_eviction old_page bp =
     bp\<lparr>eviction_count := eviction_count bp + 1,
        eviction_log := (if length (eviction_log bp) \<ge> 1024 then tl (eviction_log bp) else eviction_log bp) @ [old_page]\<rparr>"

definition install_page :: "frame_id_t \<Rightarrow> page_id_t \<Rightarrow> BufferPoolManager \<Rightarrow> BufferPoolManager" where
  "install_page f page bp =
     upd_frame f (\<lambda>fr. fr\<lparr>frame_page_id := page, pin_count := 1, is_dirty := False, page_lsn := kInvalidLsn,
       frame_state := FS_Valid\<rparr>) bp"

definition enter_replacer :: "frame_id_t \<Rightarrow> BufferPoolManager \<Rightarrow> BufferPoolManager" where
  "enter_replacer f bp = fst (call_replacer (RecordAccess f) (fst (call_replacer (Remove f) bp)))"

definition fetch_finish ::
  "page_id_t \<Rightarrow> FrameSelection \<Rightarrow> page_id_t \<Rightarrow> ErrorCode \<Rightarrow> BufferPoolManager \<Rightarrow> BufferPoolManager" where
  "fetch_finish page sel old_page status bp =
     (let f = sel_frame sel in
      if status \<noteq> Code_Ok then
        (let bp = bp\<lparr>page_table := (page_table bp)(page := None)\<rparr>;
             bp = (if from_free_list sel then upd_frame f (\<lambda>fr. fr\<lparr>frame_page := empty_page\<rparr>) bp else bp);
             bp = release_selection sel bp
         in bp\<lparr>load_failures := (load_failures bp)(page \<mapsto> status)\<rparr>)
      else
        (let bp = (if from_free_list sel then bp
                   else (let bp = bp\<lparr>page_table := (page_table bp)(old_page := None)\<rparr>
                         in if old_page \<noteq> INVALID_PAGE_ID then note_eviction old_page bp else bp))
         in enter_replacer f (install_page f page bp)))"

text \<open>The whole call, run without interference. \<open>FR_Blocked\<close>: it waits for another thread.\<close>

datatype 'a FetchResult = FR_Error ErrorCode | FR_Guard 'a | FR_Blocked

definition fetch_rest ::
  "bool \<Rightarrow> page_id_t \<Rightarrow> BufferPoolManager \<times> FetchEntry \<Rightarrow> (BufferPoolManager \<times> frame_id_t FetchResult) option" where
  "fetch_rest host_ok page entry =
     (case entry of
        (bp, FE_Error err) \<Rightarrow> Some (bp, FR_Error err)
      | (bp, FE_Hit f) \<Rightarrow> Some (bp, FR_Guard f)
      | (bp, FE_Wait) \<Rightarrow> Some (bp, FR_Blocked)
      | (bp, FE_Load sel old_page) \<Rightarrow>
          (case fetch_io host_ok page sel old_page bp of
             None \<Rightarrow> None
           | Some (bp, status) \<Rightarrow>
               Some (fetch_finish page sel old_page status bp,
                     if status \<noteq> Code_Ok then FR_Error status else FR_Guard (sel_frame sel))))"

definition FetchPage :: "bool \<Rightarrow> page_id_t \<Rightarrow> BufferPoolManager \<Rightarrow> (BufferPoolManager \<times> frame_id_t FetchResult) option" where
  "FetchPage host_ok page bp = fetch_rest host_ok page (fetch_enter page None bp)"

definition FetchPage_txn ::
  "bool \<Rightarrow> page_id_t \<Rightarrow> txn_id_t option \<Rightarrow> BufferPoolManager \<Rightarrow> (BufferPoolManager \<times> frame_id_t FetchResult) option" where
  "FetchPage_txn host_ok page tp bp =
     (case AcquirePageLock page tp L_S bp of
        (bp, Waiting) \<Rightarrow> Some (bp, FR_Blocked)
      | (bp, Returned lock_status) \<Rightarrow>
          if lock_status \<noteq> Code_Ok then Some (bp, FR_Error lock_status) else FetchPage host_ok page bp)"

definition guarded ::
  "page_id_t \<Rightarrow> txn_id_t option \<Rightarrow> BufferPoolManager \<times> frame_id_t FetchResult \<Rightarrow> BufferPoolManager \<times> WritePageGuard FetchResult" where
  "guarded page tp res =
     (case res of
        (bp, FR_Error err) \<Rightarrow> (bp, FR_Error err)
      | (bp, FR_Blocked) \<Rightarrow> (bp, FR_Blocked)
      | (bp, FR_Guard f) \<Rightarrow> (case make_WritePageGuard f page tp bp of (bp, g) \<Rightarrow> (bp, FR_Guard g)))"

definition FetchPageWrite ::
  "bool \<Rightarrow> page_id_t \<Rightarrow> txn_id_t option \<Rightarrow> BufferPoolManager \<Rightarrow> (BufferPoolManager \<times> WritePageGuard FetchResult) option" where
  "FetchPageWrite host_ok page tp bp =
     (case AcquirePageLock page tp L_X bp of
        (bp, Waiting) \<Rightarrow> Some (bp, FR_Blocked)
      | (bp, Returned lock_status) \<Rightarrow>
          if lock_status \<noteq> Code_Ok then Some (bp, FR_Error lock_status)
          else map_option (guarded page tp) (fetch_rest host_ok page (fetch_enter page tp bp)))"

subsection \<open>New pages\<close>

definition new_enter :: "txn_id_t option \<Rightarrow> BufferPoolManager \<Rightarrow> BufferPoolManager \<times> (FrameSelection \<times> page_id_t) Result" where
  "new_enter tp bp =
     (if EnsureReadyUnlocked bp \<noteq> Code_Ok then (bp, Inl (EnsureReadyUnlocked bp))
      else if (case tp of None \<Rightarrow> False | Some t \<Rightarrow> \<not> txn_usable t bp) then (bp, Inl InvalidArgument)
      else
        (case SelectFrameUnlocked bp of
           (bp, Inl err) \<Rightarrow> (bp, Inl err)
         | (bp, Inr sel) \<Rightarrow>
             (let f = sel_frame sel; old_page = frame_page_id (frame_at bp f) in
              (if from_free_list sel then upd_frame f (\<lambda>fr. fr\<lparr>pin_count := 1\<rparr>) bp else bp, Inr (sel, old_page)))))"

definition new_allocate :: "FrameSelection \<Rightarrow> BufferPoolManager \<times> ErrorCode \<Rightarrow> BufferPoolManager \<times> page_id_t Result" where
  "new_allocate sel written =
     (case written of
        (bp, write_status) \<Rightarrow>
          (let (bp, allocated) =
             (if write_status \<noteq> Code_Ok then (bp, Inl write_status)
              else (case AllocatePage (disk_manager bp) of (dm, r) \<Rightarrow> (bp\<lparr>disk_manager := dm\<rparr>, r))) in
           case allocated of
             Inl err \<Rightarrow>
               (if from_free_list sel then upd_frame (sel_frame sel) (\<lambda>fr. fr\<lparr>frame_page := empty_page\<rparr>) bp else bp, Inl err)
           | Inr page \<Rightarrow> (bp, Inr page)))"

definition drop_allocated :: "page_id_t \<Rightarrow> txn_id_t \<Rightarrow> ErrorCode \<Rightarrow> BufferPoolManager \<Rightarrow> BufferPoolManager \<times> page_id_t Result" where
  "drop_allocated page t err bp =
     (case DeallocatePage page (disk_manager bp) of
        (dm, release_status) \<Rightarrow>
          (upd_pool_txn t MarkFailed (bp\<lparr>disk_manager := dm\<rparr>), Inl (if release_status = Code_Ok then err else IOError)))"

text \<open>The exclusive lock on the new page (\<open>None\<close>: the call waits for it), and its log record.\<close>

definition new_lock ::
  "txn_id_t option \<Rightarrow> BufferPoolManager \<times> page_id_t Result \<Rightarrow> BufferPoolManager \<times> page_id_t Result option" where
  "new_lock tp res =
     (case (tp, res) of
        (Some t, (bp, Inr page)) \<Rightarrow>
          (case AcquirePageLock page tp L_X bp of
             (bp, Waiting) \<Rightarrow> (bp, None)
           | (bp, Returned page_lock) \<Rightarrow>
               if page_lock \<noteq> Code_Ok then apsnd Some (drop_allocated page t page_lock bp) else (bp, Some (Inr page)))
      | (_, (bp, r)) \<Rightarrow> (bp, Some r))"

definition new_log :: "txn_id_t option \<Rightarrow> BufferPoolManager \<times> page_id_t Result \<Rightarrow> BufferPoolManager \<times> page_id_t Result" where
  "new_log tp res =
     (case (tp, res) of
        (Some t, (bp, Inr page)) \<Rightarrow>
          if \<not> log_manager_bound bp then
            (case DeallocatePage page (disk_manager bp) of
               (dm, _) \<Rightarrow> (upd_pool_txn t MarkFailed (bp\<lparr>disk_manager := dm\<rparr>), Inl InvalidArgument))
          else
            (case append_for t (page_record L_PageAllocate page) bp of
               (bp, Inl err) \<Rightarrow> drop_allocated page t err bp
             | (bp, Inr lsn) \<Rightarrow> (upd_pool_txn t (AddAllocatedPage page) bp, Inr page))
      | _ \<Rightarrow> res)"

definition new_finish ::
  "FrameSelection \<Rightarrow> page_id_t \<Rightarrow> page_id_t Result \<Rightarrow> BufferPoolManager \<Rightarrow> BufferPoolManager" where
  "new_finish sel old_page allocated bp =
     (let f = sel_frame sel in
      case allocated of
        Inl err \<Rightarrow> release_selection sel bp
      | Inr page \<Rightarrow>
          (let bp = upd_frame f (\<lambda>fr. fr\<lparr>frame_page := empty_page\<rparr>) bp;
               bp = (if from_free_list sel then bp
                     else note_eviction old_page (bp\<lparr>page_table := (page_table bp)(old_page := None)\<rparr>));
               bp = install_page f page bp
           in enter_replacer f (bp\<lparr>page_table := (page_table bp)(page \<mapsto> f)\<rparr>)))"

definition NewPage :: "bool \<Rightarrow> txn_id_t option \<Rightarrow> BufferPoolManager \<Rightarrow> (BufferPoolManager \<times> WritePageGuard FetchResult) option" where
  "NewPage host_ok tp bp =
     (case new_enter tp bp of
        (bp, Inl err) \<Rightarrow> Some (bp, FR_Error err)
      | (bp, Inr (sel, old_page)) \<Rightarrow>
          (case evict_io host_ok sel old_page bp of
             None \<Rightarrow> None
           | Some written \<Rightarrow>
               (case new_lock tp (new_allocate sel written) of
                  (bp, None) \<Rightarrow> Some (bp, FR_Blocked)
                | (bp, Some r) \<Rightarrow>
                    (case new_log tp (bp, r) of
                       (bp, Inl err) \<Rightarrow> Some (new_finish sel old_page (Inl err) bp, FR_Error err)
                     | (bp, Inr page) \<Rightarrow>
                         (case make_WritePageGuard (sel_frame sel) page tp (new_finish sel old_page (Inr page) bp) of
                            (bp, g) \<Rightarrow> Some (bp, FR_Guard g))))))"

subsection \<open>Writing pages out\<close>

text \<open>The start of \<^verbatim>\<open>FlushPage\<close>: done, waiting for the frame to settle, waiting for the other pins to go, or ready
  to write. A call that waits keeps the frame it found first.\<close>

datatype FlushPageEntry = PE_Return ErrorCode | PE_Wait frame_id_t | PE_Drain frame_id_t | PE_Write frame_id_t

definition page_flush_valid :: "frame_id_t \<Rightarrow> BufferPoolManager \<Rightarrow> BufferPoolManager \<times> FlushPageEntry" where
  "page_flush_valid f bp =
     (case (if pin_count (frame_at bp f) = 0 then call_replacer (Pin f) bp else (bp, Code_Ok)) of
        (bp, pin_status) \<Rightarrow>
          if pin_status \<noteq> Code_Ok then (bp, PE_Return pin_status)
          else
            (let bp = upd_frame f (\<lambda>fr. fr\<lparr>frame_state := FS_Flushing, pin_count := pin_count fr + 1\<rparr>) bp;
                 fr = frame_at bp f in
             if \<not> is_dirty fr \<and> pin_count fr > 1
             then (upd_frame f (\<lambda>fr. fr\<lparr>frame_state := FS_Valid, pin_count := pin_count fr - 1\<rparr>) bp, PE_Return Code_Ok)
             else if pin_count fr = 1 then (bp, PE_Write f)
             else (bp, PE_Drain f)))"

definition page_flush_enter :: "page_id_t \<Rightarrow> BufferPoolManager \<Rightarrow> BufferPoolManager \<times> FlushPageEntry" where
  "page_flush_enter page bp =
     (if EnsureReadyUnlocked bp \<noteq> Code_Ok then (bp, PE_Return (EnsureReadyUnlocked bp))
      else
        (case page_table bp page of
           None \<Rightarrow> (bp, PE_Return NotFound)
         | Some f \<Rightarrow>
             if frame_state (frame_at bp f) = FS_DeletePending then (bp, PE_Return NotFound)
             else if frame_state (frame_at bp f) \<noteq> FS_Valid then (bp, PE_Wait f)
             else page_flush_valid f bp))"

text \<open>When the first wait ends, and how the call goes on then.\<close>

definition page_flush_wakes :: "frame_id_t \<Rightarrow> page_id_t \<Rightarrow> BufferPoolManager \<Rightarrow> bool" where
  "page_flush_wakes f page bp \<longleftrightarrow>
     page_table bp page = None \<or> frame_state (frame_at bp f) = FS_Valid \<or> frame_state (frame_at bp f) = FS_DeletePending"

definition page_flush_woken :: "frame_id_t \<Rightarrow> page_id_t \<Rightarrow> BufferPoolManager \<Rightarrow> BufferPoolManager \<times> FlushPageEntry" where
  "page_flush_woken f page bp =
     (if page_table bp page = None then (bp, PE_Return NotFound)
      else if frame_state (frame_at bp f) = FS_DeletePending then (bp, PE_Return NotFound)
      else if frame_state (frame_at bp f) \<noteq> FS_Valid then (bp, PE_Wait f)
      else page_flush_valid f bp)"

text \<open>The end of the second wait.\<close>

definition page_flush_drained :: "frame_id_t \<Rightarrow> BufferPoolManager \<Rightarrow> FlushPageEntry option" where
  "page_flush_drained f bp =
     (if frame_state (frame_at bp f) \<noteq> FS_Flushing then Some (PE_Return InvalidArgument)
      else if pin_count (frame_at bp f) = 1 then Some (PE_Write f)
      else None)"

definition page_flush_io :: "bool \<Rightarrow> frame_id_t \<Rightarrow> page_id_t \<Rightarrow> BufferPoolManager \<Rightarrow> (BufferPoolManager \<times> ErrorCode) option" where
  "page_flush_io host_ok f page bp =
     (if is_dirty (frame_at bp f) then write_frame host_ok f page bp else Some (bp, Code_Ok))"

text \<open>\<^verbatim>\<open>FlushPage\<close> without interference; \<open>None\<close> also when it waits for another thread.\<close>

definition FlushPage :: "bool \<Rightarrow> page_id_t \<Rightarrow> BufferPoolManager \<Rightarrow> (BufferPoolManager \<times> ErrorCode) option" where
  "FlushPage host_ok page bp =
     (case page_flush_enter page bp of
        (bp, PE_Return status) \<Rightarrow> Some (bp, status)
      | (bp, PE_Wait f) \<Rightarrow> None
      | (bp, PE_Drain f) \<Rightarrow> None
      | (bp, PE_Write f) \<Rightarrow>
          (case page_flush_io host_ok f page bp of
             None \<Rightarrow> None
           | Some (bp, status) \<Rightarrow> Some (flush_finish f status bp, status)))"

fun flush_pages :: "bool \<Rightarrow> page_id_t list \<Rightarrow> BufferPoolManager \<Rightarrow> (BufferPoolManager \<times> ErrorCode) option" where
  "flush_pages host_ok [] bp = Some (bp, Code_Ok)"
| "flush_pages host_ok (page # pages) bp =
     (case FlushPage host_ok page bp of
        None \<Rightarrow> None
      | Some (bp, status) \<Rightarrow>
          if status \<noteq> Code_Ok \<and> status \<noteq> NotFound then Some (bp, status) else flush_pages host_ok pages bp)"

definition FlushAllPages :: "bool \<Rightarrow> BufferPoolManager \<Rightarrow> (BufferPoolManager \<times> ErrorCode) option" where
  "FlushAllPages host_ok bp =
     (if EnsureReadyUnlocked bp \<noteq> Code_Ok then Some (bp, EnsureReadyUnlocked bp)
      else flush_pages host_ok
        (map frame_page_id (filter (\<lambda>fr. frame_page_id fr \<noteq> INVALID_PAGE_ID \<and> frame_state fr \<noteq> FS_Empty) (frames bp))) bp)"

definition ClosePool :: "bool \<Rightarrow> BufferPoolManager \<Rightarrow> (BufferPoolManager \<times> ErrorCode) option" where
  "ClosePool host_ok bp =
     (if pool_closed bp then Some (bp, Code_Ok)
      else
        (case FlushAllPages host_ok bp of
           None \<Rightarrow> None
         | Some (bp, flush_status) \<Rightarrow>
             if flush_status \<noteq> Code_Ok then Some (bp, flush_status)
             else if delete_pending_pages bp \<noteq> {} then Some (bp, InvalidArgument)
             else Some (bp\<lparr>pool_closed := True\<rparr>, Code_Ok)))"

subsection \<open>Deleting pages\<close>

definition BeginPageDeletion_pins :: "page_id_t \<Rightarrow> nat \<Rightarrow> BufferPoolManager \<Rightarrow> BufferPoolManager \<times> ErrorCode" where
  "BeginPageDeletion_pins page expected_pins bp =
     (if EnsureReadyUnlocked bp \<noteq> Code_Ok then (bp, EnsureReadyUnlocked bp)
      else if ValidateDataPageId page \<noteq> Code_Ok then (bp, ValidateDataPageId page)
      else if page \<in> delete_pending_pages bp then (bp, AlreadyExists)
      else
        (let reserved = bp\<lparr>delete_pending_pages := insert page (delete_pending_pages bp)\<rparr> in
         case page_table bp page of
           None \<Rightarrow> (reserved, Code_Ok)
         | Some f \<Rightarrow>
             if frame_state (frame_at bp f) \<noteq> FS_Valid \<or> pin_count (frame_at bp f) \<noteq> expected_pins then (bp, InvalidArgument)
             else
               (case call_replacer (Pin f) bp of
                  (bp, pin_status) \<Rightarrow>
                    if pin_status \<noteq> Code_Ok then (bp, pin_status)
                    else
                      (upd_frame f (\<lambda>fr. fr\<lparr>frame_state := FS_DeletePending\<rparr>)
                         (bp\<lparr>delete_pending_pages := insert page (delete_pending_pages bp)\<rparr>), Code_Ok))))"

definition BeginPageDeletion :: "page_id_t \<Rightarrow> BufferPoolManager \<Rightarrow> BufferPoolManager \<times> ErrorCode" where
  "BeginPageDeletion page bp = BeginPageDeletion_pins page 0 bp"

definition CancelPageDeletion :: "page_id_t \<Rightarrow> BufferPoolManager \<Rightarrow> BufferPoolManager \<times> ErrorCode" where
  "CancelPageDeletion page bp =
     (if page \<notin> delete_pending_pages bp then (bp, NotFound)
      else
        (let erase = (\<lambda>bp. bp\<lparr>delete_pending_pages := delete_pending_pages bp - {page}\<rparr>) in
         case page_table bp page of
           None \<Rightarrow> (erase bp, Code_Ok)
         | Some f \<Rightarrow>
             if frame_state (frame_at bp f) \<noteq> FS_DeletePending \<or> pin_count (frame_at bp f) \<noteq> 0 then (bp, InvalidArgument)
             else
               (erase (fst (call_replacer (Unpin f) (upd_frame f (\<lambda>fr. fr\<lparr>frame_state := FS_Valid\<rparr>) bp))), Code_Ok)))"

text \<open>\<^verbatim>\<open>FinalizePageDeletion\<close>: an error, a page that no frame holds, or a frame to write out; then the input and
  output without the mutex, and the end.\<close>

datatype FinalizeEntry = FN_Return ErrorCode | FN_Absent | FN_Frame frame_id_t

definition finalize_enter :: "page_id_t \<Rightarrow> BufferPoolManager \<Rightarrow> BufferPoolManager \<times> FinalizeEntry" where
  "finalize_enter page bp =
     (if EnsureReadyUnlocked bp \<noteq> Code_Ok then (bp, FN_Return (EnsureReadyUnlocked bp))
      else if page \<notin> delete_pending_pages bp then (bp, FN_Return NotFound)
      else
        (case page_table bp page of
           None \<Rightarrow> (bp, FN_Absent)
         | Some f \<Rightarrow>
             if frame_state (frame_at bp f) \<noteq> FS_DeletePending \<or> pin_count (frame_at bp f) \<noteq> 0
             then (bp, FN_Return InvalidArgument)
             else (upd_frame f (\<lambda>fr. fr\<lparr>pin_count := 1\<rparr>) bp, FN_Frame f)))"

definition finalize_absent :: "page_id_t \<Rightarrow> BufferPoolManager \<Rightarrow> BufferPoolManager \<times> ErrorCode" where
  "finalize_absent page bp =
     (case DeallocatePage page (disk_manager bp) of
        (dm, status) \<Rightarrow>
          (let bp = bp\<lparr>disk_manager := dm\<rparr> in
           if status = Code_Ok \<or> status = AlreadyExists
           then (bp\<lparr>delete_pending_pages := delete_pending_pages bp - {page}\<rparr>, Code_Ok)
           else (bp, status)))"

definition finalize_io :: "bool \<Rightarrow> frame_id_t \<Rightarrow> page_id_t \<Rightarrow> BufferPoolManager \<Rightarrow> (BufferPoolManager \<times> ErrorCode) option" where
  "finalize_io host_ok f page bp =
     (case (if is_dirty (frame_at bp f) then write_frame host_ok f page bp else Some (bp, Code_Ok)) of
        None \<Rightarrow> None
      | Some (bp, write_status) \<Rightarrow>
          (case (if write_status \<noteq> Code_Ok then (disk_manager bp, write_status)
                 else DeallocatePage page (disk_manager bp)) of
             (dm, status) \<Rightarrow>
               (let bp = bp\<lparr>disk_manager := dm\<rparr>; delete_status = (if status = AlreadyExists then Code_Ok else status) in
                Some (if delete_status = Code_Ok then upd_frame f (\<lambda>fr. fr\<lparr>frame_page := empty_page\<rparr>) bp else bp,
                      delete_status))))"

definition finalize_finish :: "frame_id_t \<Rightarrow> page_id_t \<Rightarrow> ErrorCode \<Rightarrow> BufferPoolManager \<Rightarrow> BufferPoolManager \<times> ErrorCode" where
  "finalize_finish f page delete_status bp =
     (if delete_status \<noteq> Code_Ok
      then (upd_frame f (\<lambda>fr. fr\<lparr>pin_count := 0, frame_state := FS_DeletePending\<rparr>) bp, delete_status)
      else
        (let bp = bp\<lparr>page_table := (page_table bp)(page := None)\<rparr>;
             bp = upd_frame f (\<lambda>fr. fr\<lparr>frame_page_id := INVALID_PAGE_ID, pin_count := 0, is_dirty := False,
                    frame_state := FS_Empty\<rparr>) bp;
             bp = bp\<lparr>delete_pending_pages := delete_pending_pages bp - {page}\<rparr>
         in ReturnFreeFrameUnlocked f (fst (call_replacer (Remove f) bp))))"

definition FinalizePageDeletion :: "bool \<Rightarrow> page_id_t \<Rightarrow> BufferPoolManager \<Rightarrow> (BufferPoolManager \<times> ErrorCode) option" where
  "FinalizePageDeletion host_ok page bp =
     (case finalize_enter page bp of
        (bp, FN_Return status) \<Rightarrow> Some (bp, status)
      | (bp, FN_Absent) \<Rightarrow> Some (finalize_absent page bp)
      | (bp, FN_Frame f) \<Rightarrow>
          (case finalize_io host_ok f page bp of
             None \<Rightarrow> None
           | Some (bp, delete_status) \<Rightarrow> Some (finalize_finish f page delete_status bp)))"

definition DeletePage :: "bool \<Rightarrow> page_id_t \<Rightarrow> BufferPoolManager \<Rightarrow> (BufferPoolManager \<times> ErrorCode) option" where
  "DeletePage host_ok page bp =
     (case BeginPageDeletion page bp of
        (bp, begin_status) \<Rightarrow>
          if begin_status \<noteq> Code_Ok then Some (bp, begin_status) else FinalizePageDeletion host_ok page bp)"

definition DeletePage_txn ::
  "bool \<Rightarrow> page_id_t \<Rightarrow> txn_id_t option \<Rightarrow> BufferPoolManager \<Rightarrow> (BufferPoolManager \<times> lock_outcome) option" where
  "DeletePage_txn host_ok page tp bp =
     (if tp = None then map_option (apsnd Returned) (DeletePage host_ok page bp)
      else
        (case AcquirePageLock page tp L_X bp of
           (bp, Waiting) \<Rightarrow> Some (bp, Waiting)
         | (bp, Returned lock_status) \<Rightarrow>
             if lock_status \<noteq> Code_Ok then Some (bp, Returned lock_status)
             else if page \<in> delete_pending_pages bp then Some (apsnd Returned (AppendPageFreeLog page tp bp))
             else
               (case BeginPageDeletion page bp of
                  (bp, begin_status) \<Rightarrow>
                    if begin_status \<noteq> Code_Ok then Some (bp, Returned begin_status)
                    else
                      (case AppendPageFreeLog page tp bp of
                         (bp, log_status) \<Rightarrow>
                           if log_status \<noteq> Code_Ok
                           then Some (fst (CancelPageDeletion page bp), Returned log_status)
                           else Some (bp, Returned Code_Ok)))))"

text \<open>\<^verbatim>\<open>DeletePages\<close>: all pages are reserved first, and the reservations cancelled when one fails.\<close>

fun check_pages :: "page_id_t list \<Rightarrow> page_id_t set \<Rightarrow> ErrorCode" where
  "check_pages [] seen = Code_Ok"
| "check_pages (page # pages) seen =
     (if ValidateDataPageId page \<noteq> Code_Ok then ValidateDataPageId page
      else if page \<in> seen then InvalidArgument
      else check_pages pages (insert page seen))"

definition cancel_pages :: "page_id_t list \<Rightarrow> BufferPoolManager \<Rightarrow> BufferPoolManager" where
  "cancel_pages pages bp = foldl (\<lambda>bp page. fst (CancelPageDeletion page bp)) bp pages"

fun reserve_pages :: "page_id_t list \<Rightarrow> page_id_t list \<Rightarrow> BufferPoolManager \<Rightarrow> BufferPoolManager \<times> ErrorCode" where
  "reserve_pages reserved [] bp = (bp, Code_Ok)"
| "reserve_pages reserved (page # pages) bp =
     (case BeginPageDeletion page bp of
        (bp, status) \<Rightarrow>
          if status \<noteq> Code_Ok then (cancel_pages reserved bp, status) else reserve_pages (reserved @ [page]) pages bp)"

fun finalize_pages :: "bool \<Rightarrow> page_id_t list \<Rightarrow> BufferPoolManager \<Rightarrow> (BufferPoolManager \<times> ErrorCode) option" where
  "finalize_pages host_ok [] bp = Some (bp, Code_Ok)"
| "finalize_pages host_ok (page # pages) bp =
     (case FinalizePageDeletion host_ok page bp of
        None \<Rightarrow> None
      | Some (bp, status) \<Rightarrow>
          if status \<noteq> Code_Ok then Some (cancel_pages pages bp, status) else finalize_pages host_ok pages bp)"

definition DeletePages :: "bool \<Rightarrow> page_id_t list \<Rightarrow> BufferPoolManager \<Rightarrow> (BufferPoolManager \<times> ErrorCode) option" where
  "DeletePages host_ok pages bp =
     (if check_pages pages {} \<noteq> Code_Ok then Some (bp, check_pages pages {})
      else
        (case reserve_pages [] pages bp of
           (bp, status) \<Rightarrow> if status \<noteq> Code_Ok then Some (bp, status) else finalize_pages host_ok pages bp))"

fun delete_each ::
  "bool \<Rightarrow> page_id_t list \<Rightarrow> txn_id_t \<Rightarrow> BufferPoolManager \<Rightarrow> (BufferPoolManager \<times> lock_outcome) option" where
  "delete_each host_ok [] t bp = Some (bp, Returned Code_Ok)"
| "delete_each host_ok (page # pages) t bp =
     (case DeletePage_txn host_ok page (Some t) bp of
        None \<Rightarrow> None
      | Some (bp, Waiting) \<Rightarrow> Some (bp, Waiting)
      | Some (bp, Returned status) \<Rightarrow>
          if status \<noteq> Code_Ok then Some (upd_pool_txn t MarkFailed bp, Returned status)
          else delete_each host_ok pages t bp)"

definition DeletePages_txn ::
  "bool \<Rightarrow> page_id_t list \<Rightarrow> txn_id_t option \<Rightarrow> BufferPoolManager \<Rightarrow> (BufferPoolManager \<times> lock_outcome) option" where
  "DeletePages_txn host_ok pages tp bp =
     (case tp of
        None \<Rightarrow> map_option (apsnd Returned) (DeletePages host_ok pages bp)
      | Some t \<Rightarrow>
          if \<not> distinct pages then Some (upd_pool_txn t MarkFailed bp, Returned InvalidArgument)
          else delete_each host_ok pages t bp)"

subsection \<open>Restoring a page image\<close>

datatype RestoreEntry = RS_Return ErrorCode | RS_Disk | RS_Frame frame_id_t

definition restore_enter :: "page_id_t \<Rightarrow> bool \<Rightarrow> BufferPoolManager \<Rightarrow> BufferPoolManager \<times> RestoreEntry" where
  "restore_enter page write_disk bp =
     (if page = INVALID_PAGE_ID \<or> page = 0 then (bp, RS_Return InvalidArgument)
      else if EnsureReadyUnlocked bp \<noteq> Code_Ok then (bp, RS_Return (EnsureReadyUnlocked bp))
      else
        (case page_table bp page of
           None \<Rightarrow> (bp, if write_disk then RS_Disk else RS_Return Code_Ok)
         | Some f \<Rightarrow>
             if frame_state (frame_at bp f) \<noteq> FS_Valid \<or> pin_count (frame_at bp f) \<noteq> 0 then (bp, RS_Return InvalidArgument)
             else
               (case call_replacer (Pin f) bp of
                  (bp, pin_status) \<Rightarrow>
                    if pin_status \<noteq> Code_Ok then (bp, RS_Return pin_status)
                    else (upd_frame f (\<lambda>fr. fr\<lparr>pin_count := 1\<rparr>) bp, RS_Frame f))))"

definition restore_io ::
  "frame_id_t \<Rightarrow> page_id_t \<Rightarrow> byte list \<Rightarrow> bool \<Rightarrow> BufferPoolManager \<Rightarrow> BufferPoolManager \<times> ErrorCode" where
  "restore_io f page bytes write_disk bp =
     (case (if write_disk then WritePage page bytes (disk_manager bp) else (disk_manager bp, Code_Ok)) of
        (dm, status) \<Rightarrow>
          (let bp = bp\<lparr>disk_manager := dm\<rparr> in
           (if status = Code_Ok then upd_frame f (\<lambda>fr. fr\<lparr>frame_page := bytes\<rparr>) bp else bp, status)))"

definition restore_finish :: "frame_id_t \<Rightarrow> ErrorCode \<Rightarrow> BufferPoolManager \<Rightarrow> BufferPoolManager" where
  "restore_finish f status bp =
     (let bp = (if status = Code_Ok then upd_frame f (\<lambda>fr. fr\<lparr>is_dirty := False, page_lsn := kInvalidLsn\<rparr>) bp else bp)
      in fst (call_replacer (Unpin f) (upd_frame f (\<lambda>fr. fr\<lparr>pin_count := 0\<rparr>) bp)))"

definition RestorePage :: "page_id_t \<Rightarrow> byte list \<Rightarrow> bool \<Rightarrow> BufferPoolManager \<Rightarrow> BufferPoolManager \<times> ErrorCode" where
  "RestorePage page bytes write_disk bp =
     (case restore_enter page write_disk bp of
        (bp, RS_Return status) \<Rightarrow> (bp, status)
      | (bp, RS_Disk) \<Rightarrow>
          (case WritePage page bytes (disk_manager bp) of (dm, status) \<Rightarrow> (bp\<lparr>disk_manager := dm\<rparr>, status))
      | (bp, RS_Frame f) \<Rightarrow>
          (case restore_io f page bytes write_disk bp of (bp, status) \<Rightarrow> (restore_finish f status bp, status)))"

subsection \<open>Statistics and diagnostics\<close>

definition ResetStatistics :: "BufferPoolManager \<Rightarrow> BufferPoolManager" where
  "ResetStatistics bp =
     bp\<lparr>access_count := 0, hit_count := 0, miss_count := 0, eviction_count := 0, eviction_log := []\<rparr>"

record FrameSnapshot =
  snap_frame :: frame_id_t
  snap_page :: "page_id_t option"
  snap_pins :: nat
  snap_dirty :: bool
  snap_evictable :: bool
  snap_state :: FrameState

definition GetFrameSnapshots :: "BufferPoolManager \<Rightarrow> FrameSnapshot list" where
  "GetFrameSnapshots bp =
     map (\<lambda>f. let fr = frame_at bp f in
            \<lparr>snap_frame = f, snap_page = (if frame_page_id fr \<noteq> INVALID_PAGE_ID then Some (frame_page_id fr) else None),
             snap_pins = pin_count fr, snap_dirty = is_dirty fr,
             snap_evictable = (frame_page_id fr \<noteq> INVALID_PAGE_ID \<and> pin_count fr = 0 \<and> any_evictable (pool_replacer bp) f),
             snap_state = frame_state fr\<rparr>)
       [0..<length (frames bp)]"

end
