(* ===== verification/PageStore.thy ===== *)
theory PageStore
  imports Disk
begin

text \<open>
  What the buffer pool relies on in the disk manager, stated as an interface: a store of pages, of which some
  are allocated. The disk manager of \<^verbatim>\<open>Disk\<close> provides it on every consistent disk.
\<close>

locale page_store =
  fixes ok :: "'d \<Rightarrow> bool"
    and pages :: "'d \<Rightarrow> page_id_t set"
    and content :: "'d \<Rightarrow> page_id_t \<Rightarrow> byte list"
    and rd :: "page_id_t \<Rightarrow> 'd \<Rightarrow> 'd \<times> byte list Result"
    and wr :: "page_id_t \<Rightarrow> byte list \<Rightarrow> 'd \<Rightarrow> 'd \<times> ErrorCode"
    and al :: "'d \<Rightarrow> 'd \<times> page_id_t Result"
    and fr :: "page_id_t \<Rightarrow> 'd \<Rightarrow> 'd \<times> ErrorCode"
  assumes valid: "ok d \<Longrightarrow> p \<in> pages d \<Longrightarrow> p \<noteq> 0 \<and> p \<noteq> INVALID_PAGE_ID \<and> length (content d p) = page_size"
    and rd_same: "ok d \<Longrightarrow> rd p d = (d', r) \<Longrightarrow> ok d' \<and> pages d' = pages d \<and> content d' = content d"
    and rd_page: "ok d \<Longrightarrow> p \<in> pages d \<Longrightarrow> \<exists>d'. rd p d = (d', Inr (content d p))"
    and wr_page: "ok d \<Longrightarrow> p \<in> pages d \<Longrightarrow> length b = page_size \<Longrightarrow>
      \<exists>d'. wr p b d = (d', Code_Ok) \<and> ok d' \<and> pages d' = pages d \<and>
        content d' p = b \<and> (\<forall>q \<in> pages d. q \<noteq> p \<longrightarrow> content d' q = content d q)"
    and al_page: "ok d \<Longrightarrow> al d = (d', Inr p) \<Longrightarrow>
      ok d' \<and> p \<notin> pages d \<and> pages d' = insert p (pages d) \<and> (\<forall>q \<in> pages d. content d' q = content d q)"
    and al_fail: "ok d \<Longrightarrow> al d = (d', Inl e) \<Longrightarrow> ok d' \<and> pages d' = pages d \<and> content d' = content d"
    and fr_page: "ok d \<Longrightarrow> p \<in> pages d \<Longrightarrow>
      \<exists>d'. fr p d = (d', Code_Ok) \<and> ok d' \<and> pages d' = pages d - {p} \<and> (\<forall>q \<in> pages d - {p}. content d' q = content d q)"
    and fr_fail: "ok d \<Longrightarrow> p \<notin> pages d \<Longrightarrow> fr p d = (d', c) \<Longrightarrow> d' = d \<and> c \<noteq> Code_Ok"
begin

lemma al_new: "ok d \<Longrightarrow> al d = (d', Inr p) \<Longrightarrow> p \<noteq> 0 \<and> p \<noteq> INVALID_PAGE_ID"
  using al_page valid by blast

lemma fr_cases:
  assumes "ok d" "fr p d = (d', c)"
  obtains "p \<in> pages d" "c = Code_Ok" "ok d'" "pages d' = pages d - {p}" "\<forall>q \<in> pages d - {p}. content d' q = content d q"
    | "p \<notin> pages d" "c \<noteq> Code_Ok" "d' = d"
  using fr_page[OF assms(1)] fr_fail[OF assms(1) _ assms(2)] assms(2) by (metis Pair_inject)

end

definition allocated :: "DiskManager \<Rightarrow> page_id_t set" where
  "allocated dm = {p. p \<noteq> 0 \<and> p < page_count dm \<and> p \<notin> free_pages dm}"

definition disk_page :: "DiskManager \<Rightarrow> page_id_t \<Rightarrow> byte list" where
  "disk_page dm p = page_at p (disk_file dm)"

definition disk_contents :: "DiskManager \<Rightarrow> page_id_t \<rightharpoonup> byte list" where
  "disk_contents dm p = (if p \<in> allocated dm then Some (disk_page dm p) else None)"

lemma sim_contents: "disk_ok dm \<Longrightarrow> \<exists>fs. disk_sim dm (disk_contents dm) fs"
proof -
  assume "disk_ok dm"
  then obtain fs where "disk_ok_with fs dm" by (auto simp: disk_ok_def)
  then have "disk_sim dm (disk_contents dm) fs"
    by (auto simp: disk_sim_def disk_contents_def allocated_def disk_page_def disk_ok_with_def split: if_splits)
  then show ?thesis by blast
qed

lemma sim_allocated:
  assumes "disk_sim dm m fs"
  shows "disk_ok dm \<and> allocated dm = dom m \<and> (\<forall>p \<in> dom m. disk_page dm p = the (m p))"
proof -
  have s: "disk_ok_with fs dm" "dom m = {p. p \<noteq> 0 \<and> p < page_count dm \<and> p \<notin> set fs}"
    "\<And>p b. m p = Some b \<Longrightarrow> page_at p (disk_file dm) = b"
    using assms by (auto simp: disk_sim_def)
  then have "set fs = free_pages dm" by (simp add: disk_ok_with_def)
  moreover have "disk_page dm p = the (m p)" if "p \<in> dom m" for p
    using that s(3) by (auto simp: disk_page_def)
  ultimately show ?thesis using s(1,2) by (auto simp: disk_ok_def allocated_def)
qed

lemma contents_dom [simp]: "dom (disk_contents dm) = allocated dm" "p \<in> allocated dm \<Longrightarrow> disk_contents dm p = Some (disk_page dm p)"
  by (auto simp: disk_contents_def dom_def)

interpretation disk: page_store disk_ok allocated disk_page ReadPage WritePage AllocatePage DeallocatePage
proof unfold_locales
  fix d d' :: DiskManager and p q :: page_id_t and b and r :: "byte list Result" and e c
  assume ok: "disk_ok d"
  then obtain fs where sim: "disk_sim d (disk_contents d) fs" using sim_contents by blast
  have fits: "file_fits d" using sim by (rule sim_fits)
  show "p \<in> allocated d \<Longrightarrow> p \<noteq> 0 \<and> p \<noteq> INVALID_PAGE_ID \<and> length (disk_page d p) = page_size"
    using not_invalid length_page_at[OF fits] by (auto simp: allocated_def disk_page_def)
  show "disk_ok d' \<and> allocated d' = allocated d \<and> disk_page d' = disk_page d" if "ReadPage p d = (d', r)"
  proof -
    have "disk_file d' = disk_file d"
      using that by (auto simp: ReadPage_def ReadPhysicalPageUnlocked_def Let_def split: if_splits)
    then show ?thesis using sim_allocated[OF sim_read[OF sim that]] by (auto simp: disk_page_def)
  qed
  show "p \<in> allocated d \<Longrightarrow> \<exists>d'. ReadPage p d = (d', Inr (disk_page d p))"
    using Read_fits[OF fits, of p] by (auto simp: ReadPage_def allocated_def disk_page_def)
  show "\<exists>d'. WritePage p b d = (d', Code_Ok) \<and> disk_ok d' \<and> allocated d' = allocated d \<and> disk_page d' p = b \<and>
      (\<forall>q \<in> allocated d. q \<noteq> p \<longrightarrow> disk_page d' q = disk_page d q)" if "p \<in> allocated d" "length b = page_size"
    using sim_write[OF sim, of p b] sim_allocated[of "fst (WritePage p b d)" "(disk_contents d)(p \<mapsto> b)" fs] that
    by (cases "WritePage p b d") (auto simp: insert_absorb)
  show "disk_ok d' \<and> p \<notin> allocated d \<and> allocated d' = insert p (allocated d) \<and>
      (\<forall>q \<in> allocated d. disk_page d' q = disk_page d q)" if al: "AllocatePage d = (d', Inr p)"
  proof -
    obtain fs' where "disk_sim d' ((disk_contents d)(p \<mapsto> page_at p (disk_file d'))) fs'" and n: "p \<notin> allocated d"
      using sim_alloc[OF sim al] by auto
    from sim_allocated[OF this(1)] n show ?thesis by auto
  qed
  show "disk_ok d' \<and> allocated d' = allocated d \<and> disk_page d' = disk_page d" if "AllocatePage d = (d', Inl e)"
    using sim_alloc_fail[OF sim that] ok by simp
  show "\<exists>d'. DeallocatePage p d = (d', Code_Ok) \<and> disk_ok d' \<and> allocated d' = allocated d - {p} \<and>
      (\<forall>q \<in> allocated d - {p}. disk_page d' q = disk_page d q)" if "p \<in> allocated d"
    using sim_free[OF sim, of p] sim_allocated[of "fst (DeallocatePage p d)" "(disk_contents d)(p := None)" "p # fs"] that
    by (cases "DeallocatePage p d") auto
  show "p \<notin> allocated d \<Longrightarrow> DeallocatePage p d = (d', c) \<Longrightarrow> d' = d \<and> c \<noteq> Code_Ok"
    using Dealloc_bad[OF sim] by simp
qed

end
