(* ===== verification/PoolProtocol.thy ===== *)
theory PoolProtocol
  imports BufferPool PageStore
begin

text \<open>
  The buffer pool under concurrency. Calls are cut at the points where they release the pool's mutex or wait for a
  latch, and the pieces of different calls interleave freely. What the calls keep on their stacks in
  between is a job per frame (a load, an eviction, a flush under way) and a list of holders per frame (pinned
  and waiting for the latch, reading, writing, or done with the latch but still pinning).
\<close>

subsection \<open>The replacer behind the pool\<close>

fun any_size :: "AnyReplacer \<Rightarrow> nat" where
  "any_size (R_FIFO s) = FIFO_Size s"
| "any_size (R_LRU s) = LRU_Size s"
| "any_size (R_CLOCK s) = CLOCK_Size s"

fun any_inv :: "nat \<Rightarrow> AnyReplacer \<Rightarrow> bool" where
  "any_inv cap (R_FIFO s) = fifo_inv cap s"
| "any_inv cap (R_LRU s) = lru_inv cap s"
| "any_inv cap (R_CLOCK s) = clock_inv cap s"

fun any_candidates :: "AnyReplacer \<Rightarrow> frame_id_t set" where
  "any_candidates (R_FIFO s) = fifo_candidates s"
| "any_candidates (R_LRU s) = lru_candidates s"
| "any_candidates (R_CLOCK s) = clock_candidates s"

interpretation pool_rep: replacer any_step any_size any_evictable any_inv any_candidates
proof unfold_locales
  fix cap s x s' r f
  assume i: "any_inv cap s"
  show "any_candidates s \<subseteq> {..<cap}"
    using i fifo.cand_bound lru.cand_bound clock.cand_bound by (cases s) auto
  show "any_size s = card (any_candidates s)"
    using i fifo.size_cand lru.size_cand clock.size_cand by (cases s) auto
  show "any_evictable s f \<longleftrightarrow> f \<in> any_candidates s"
    using i fifo.evictable_cand lru.evictable_cand clock.evictable_cand by (cases s) auto
  assume st: "any_step x s = (s', r)"
  show "any_inv cap s' \<and> abs_candidates cap x r (any_candidates s) (any_candidates s')"
  proof (cases s)
    case (R_FIFO t)
    obtain t' where t: "fifo_step x t = (t', r)" "s' = R_FIFO t'" using st R_FIFO by (cases "fifo_step x t") auto
    from fifo.step_refines[OF _ t(1)] i R_FIFO t(2) show ?thesis by simp
  next
    case (R_LRU t)
    obtain t' where t: "lru_step x t = (t', r)" "s' = R_LRU t'" using st R_LRU by (cases "lru_step x t") auto
    from lru.step_refines[OF _ t(1)] i R_LRU t(2) show ?thesis by simp
  next
    case (R_CLOCK t)
    obtain t' where t: "clock_step x t = (t', r)" "s' = R_CLOCK t'" using st R_CLOCK by (cases "clock_step x t") auto
    from clock.step_refines[OF _ t(1)] i R_CLOCK t(2) show ?thesis by simp
  qed
qed

subsection \<open>Jobs and holders\<close>

text \<open>The stages of \<^verbatim>\<open>NewPage\<close> after a frame was chosen.\<close>

datatype new_stage =
  N_Start | N_Evicted ErrorCode | N_Allocated "page_id_t Result" | N_LockWait page_id_t
  | N_Locked "page_id_t Result" | N_Logged "page_id_t Result"

datatype job =
  JLoad page_id_t FrameSelection page_id_t
  | JLoaded page_id_t FrameSelection page_id_t ErrorCode
  | JNew "txn_id_t option" FrameSelection page_id_t new_stage
  | JThrough page_id_t | JDrain page_id_t | JWrite page_id_t | JFlushed page_id_t ErrorCode

text \<open>A holder has one pin. A writer carries the contents the page had when it got the latch.\<close>

datatype hold =
  H_Wait page_id_t | H_Read page_id_t | H_Write WritePageGuard "byte list option" | H_Done page_id_t bool

text \<open>\<open>ps_map\<close> is the abstract state: what each page holds, as far as it was ever defined. \<open>ps_log\<close> lists the
  logged images (page, log sequence number, contents) since a page was allocated or restored, and \<open>ps_base\<close> the
  contents before the first of them.\<close>

record pool_state =
  ps_pool :: BufferPoolManager
  ps_job :: "frame_id_t \<rightharpoonup> job"
  ps_hold :: "frame_id_t \<Rightarrow> hold list"
  ps_map :: "page_id_t \<rightharpoonup> byte list"
  ps_log :: "(page_id_t \<times> lsn_t \<times> byte list) list"
  ps_base :: "page_id_t \<rightharpoonup> byte list"

fun stage_page :: "new_stage \<Rightarrow> page_id_t option" where
  "stage_page (N_Allocated (Inr p)) = Some p"
| "stage_page (N_LockWait p) = Some p"
| "stage_page (N_Locked (Inr p)) = Some p"
| "stage_page (N_Logged (Inr p)) = Some p"
| "stage_page _ = None"

text \<open>The page a job is allocating, and the page it is loading.\<close>

fun new_page :: "job option \<Rightarrow> page_id_t option" where
  "new_page (Some (JNew tp sel old st)) = stage_page st"
| "new_page _ = None"

fun loading_page :: "job option \<Rightarrow> page_id_t option" where
  "loading_page (Some (JLoad p sel old)) = Some p"
| "loading_page (Some (JLoaded p sel old st)) = Some p"
| "loading_page _ = None"

text \<open>The client knows a page when it is allocated and no call is still about to hand it out.\<close>

definition known_page :: "pool_state \<Rightarrow> page_id_t \<Rightarrow> bool" where
  "known_page s p \<longleftrightarrow> p \<in> allocated (disk_manager (ps_pool s)) \<and> (\<forall>f. new_page (ps_job s f) \<noteq> Some p)"

definition set_pool :: "BufferPoolManager \<Rightarrow> pool_state \<Rightarrow> pool_state" where
  "set_pool bp s = s\<lparr>ps_pool := bp\<rparr>"

definition set_job :: "frame_id_t \<Rightarrow> job option \<Rightarrow> pool_state \<Rightarrow> pool_state" where
  "set_job f j s = s\<lparr>ps_job := (ps_job s)(f := j)\<rparr>"

definition set_hold :: "frame_id_t \<Rightarrow> hold list \<Rightarrow> pool_state \<Rightarrow> pool_state" where
  "set_hold f hs s = s\<lparr>ps_hold := (ps_hold s)(f := hs)\<rparr>"

definition add_hold :: "frame_id_t \<Rightarrow> hold \<Rightarrow> pool_state \<Rightarrow> pool_state" where
  "add_hold f h s = set_hold f (h # ps_hold s f) s"

text \<open>The page \<open>p\<close> was set back to \<open>b\<close>: that is its contents and its base from now on.\<close>

definition restored :: "page_id_t \<Rightarrow> byte list \<Rightarrow> BufferPoolManager \<Rightarrow> pool_state \<Rightarrow> pool_state" where
  "restored p b bp s = (set_pool bp s)\<lparr>ps_map := (ps_map s)(p \<mapsto> b), ps_base := (ps_base s)(p \<mapsto> b),
     ps_log := filter (\<lambda>(q, l, c). q \<noteq> p) (ps_log s)\<rparr>"

fun is_write :: "hold \<Rightarrow> bool" where "is_write (H_Write g x) = True" | "is_write _ = False"
fun is_read :: "hold \<Rightarrow> bool" where "is_read (H_Read p) = True" | "is_read _ = False"

text \<open>One critical section of a fetch: a new call, or one that was woken up.\<close>

definition fetch_turn :: "page_id_t \<Rightarrow> BufferPoolManager \<Rightarrow> BufferPoolManager \<times> FetchEntry \<Rightarrow> bool" where
  "fetch_turn p bp res \<longleftrightarrow>
     (\<exists>tp. fetch_enter p tp bp = res) \<or> fetch_wakes p bp \<and> fetch_wake p bp = res"

text \<open>
  One critical section at the start of a flush: a new call, or one that waited for frame \<open>f\<close> and was
  woken up. A woken call goes on with \<open>f\<close> when the frame is valid, whatever page it holds by then; the
  steps below have it only while \<open>f\<close> still holds the page (\<^verbatim>\<open>PoolRaces\<close> shows what happens otherwise).
\<close>

definition flush_turn :: "page_id_t \<Rightarrow> BufferPoolManager \<Rightarrow> BufferPoolManager \<times> FlushPageEntry \<Rightarrow> bool" where
  "flush_turn p bp res \<longleftrightarrow>
     page_flush_enter p bp = res \<or>
     (\<exists>f. page_flush_wakes f p bp \<and> page_flush_woken f p bp = res \<and>
        (frame_state (frame_at bp f) = FS_Valid \<longrightarrow> page_table bp p \<in> {None, Some f}))"

subsection \<open>The steps\<close>

text \<open>
  In \<open>strict\<close> runs every writer is a transaction, and the 64-bit log sequence number does not wrap
  around. The client fetches, deletes and restores only pages it knows, and marks a page dirty when it
  writes to it. Three operations are restricted: \<^verbatim>\<open>FinalizePageDeletion\<close> and \<^verbatim>\<open>RestorePage\<close>, which
  release the pool's mutex during their input and output, run to their end before another call touches
  the pool, and a \<^verbatim>\<open>FlushPage\<close> that had to wait goes on only while its frame holds its page.
  \<^verbatim>\<open>PoolRaces\<close> shows what happens otherwise.
\<close>

inductive pool_step :: "bool \<Rightarrow> pool_state \<Rightarrow> pool_state \<Rightarrow> bool" for strict where
  s_fetch_error: "fetch_turn p (ps_pool s) (bp, FE_Error e) \<Longrightarrow> pool_step strict s (set_pool bp s)"
| s_fetch_wait: "fetch_turn p (ps_pool s) (bp, FE_Wait) \<Longrightarrow> pool_step strict s (set_pool bp s)"
| s_fetch_hit: "fetch_turn p (ps_pool s) (bp, FE_Hit f) \<Longrightarrow> pool_step strict s (add_hold f (H_Wait p) (set_pool bp s))"
| s_fetch_load: "known_page s p \<Longrightarrow> fetch_turn p (ps_pool s) (bp, FE_Load sel old) \<Longrightarrow>
    pool_step strict s (set_job (sel_frame sel) (Some (JLoad p sel old)) (set_pool bp s))"
| s_load_io: "ps_job s f = Some (JLoad p sel old) \<Longrightarrow> fetch_io h p sel old (ps_pool s) = Some (bp, c) \<Longrightarrow>
    pool_step strict s (set_job f (Some (JLoaded p sel old c)) (set_pool bp s))"
| s_load_failed: "ps_job s f = Some (JLoaded p sel old c) \<Longrightarrow> c \<noteq> Code_Ok \<Longrightarrow>
    pool_step strict s (set_job f None (set_pool (fetch_finish p sel old c (ps_pool s)) s))"
| s_load_done: "ps_job s f = Some (JLoaded p sel old Code_Ok) \<Longrightarrow>
    pool_step strict s (add_hold f (H_Wait p) (set_job f None (set_pool (fetch_finish p sel old Code_Ok (ps_pool s)) s)))"
| s_new_error: "new_enter tp (ps_pool s) = (bp, Inl e) \<Longrightarrow> pool_step strict s (set_pool bp s)"
| s_new: "new_enter tp (ps_pool s) = (bp, Inr (sel, old)) \<Longrightarrow>
    pool_step strict s (set_job (sel_frame sel) (Some (JNew tp sel old N_Start)) (set_pool bp s))"
| s_new_evict: "ps_job s f = Some (JNew tp sel old N_Start) \<Longrightarrow> evict_io h sel old (ps_pool s) = Some (bp, c) \<Longrightarrow>
    pool_step strict s (set_job f (Some (JNew tp sel old (N_Evicted c))) (set_pool bp s))"
| s_new_allocate: "ps_job s f = Some (JNew tp sel old (N_Evicted c)) \<Longrightarrow> new_allocate sel (ps_pool s, c) = (bp, r) \<Longrightarrow>
    pool_step strict s ((set_job f (Some (JNew tp sel old (N_Allocated r))) (set_pool bp s))
      \<lparr>ps_base := (case r of Inl e \<Rightarrow> ps_base s | Inr p \<Rightarrow> (ps_base s)(p \<mapsto> disk_page (disk_manager bp) p))\<rparr>)"
| s_new_lock: "ps_job s f = Some (JNew tp sel old (N_Allocated r)) \<Longrightarrow> new_lock tp (ps_pool s, r) = (bp, Some r') \<Longrightarrow>
    pool_step strict s (set_job f (Some (JNew tp sel old (N_Locked r'))) (set_pool bp s))"
| s_new_wait: "ps_job s f = Some (JNew tp sel old (N_Allocated (Inr p))) \<Longrightarrow> new_lock tp (ps_pool s, Inr p) = (bp, None) \<Longrightarrow>
    pool_step strict s (set_job f (Some (JNew tp sel old (N_LockWait p))) (set_pool bp s))"
| s_new_granted: "ps_job s f = Some (JNew tp sel old (N_LockWait p)) \<Longrightarrow>
    pool_step strict s (set_job f (Some (JNew tp sel old (N_Locked (Inr p)))) s)"
| s_new_refused: "ps_job s f = Some (JNew (Some t) sel old (N_LockWait p)) \<Longrightarrow> drop_allocated p t c (ps_pool s) = (bp, r) \<Longrightarrow>
    pool_step strict s (set_job f (Some (JNew (Some t) sel old (N_Locked r))) (set_pool bp s))"
| s_new_log: "ps_job s f = Some (JNew tp sel old (N_Locked r)) \<Longrightarrow> new_log tp (ps_pool s, r) = (bp, r') \<Longrightarrow>
    pool_step strict s (set_job f (Some (JNew tp sel old (N_Logged r'))) (set_pool bp s))"
| s_new_failed: "ps_job s f = Some (JNew tp sel old (N_Logged (Inl e))) \<Longrightarrow>
    pool_step strict s (set_job f None (set_pool (new_finish sel old (Inl e) (ps_pool s)) s))"
| s_new_done: "ps_job s f = Some (JNew tp sel old (N_Logged (Inr p))) \<Longrightarrow>
    pool_step strict s (add_hold f (H_Wait p) (set_job f None (set_pool (new_finish sel old (Inr p) (ps_pool s)) s)))"
| s_latch_read: "ps_hold s f = xs @ H_Wait p # ys \<Longrightarrow> \<not> list_ex is_write (xs @ ys) \<Longrightarrow>
    pool_step strict s (set_hold f (xs @ H_Read p # ys) s)"
| s_latch_write: "ps_hold s f = xs @ H_Wait p # ys \<Longrightarrow> \<not> list_ex is_write (xs @ ys) \<Longrightarrow> \<not> list_ex is_read (xs @ ys) \<Longrightarrow>
    (strict \<longrightarrow> tp \<noteq> None) \<Longrightarrow> make_WritePageGuard f p tp (ps_pool s) = (bp, g) \<Longrightarrow>
    pool_step strict s (set_hold f (xs @ H_Write g (ps_map s p) # ys) (set_pool bp s))"
| s_write: "ps_hold s f = xs @ H_Write g x # ys \<Longrightarrow> length bytes = page_size \<Longrightarrow>
    pool_step strict s ((set_hold f (xs @ H_Write (g\<lparr>wg_dirty := True\<rparr>) x # ys)
      (set_pool (upd_frame f (\<lambda>fr. fr\<lparr>frame_page := bytes\<rparr>) (ps_pool s)) s))
      \<lparr>ps_map := (ps_map s)(wg_page_id g \<mapsto> bytes)\<rparr>)"
| s_read_drop: "ps_hold s f = xs @ H_Read p # ys \<Longrightarrow> pool_step strict s (set_hold f (xs @ H_Done p False # ys) s)"
| s_write_drop: "ps_hold s f = xs @ H_Write g x # ys \<Longrightarrow> guard_log g (ps_pool s) = (bp, g', c) \<Longrightarrow>
    (strict \<longrightarrow> append_lsn (log_manager (ps_pool s)) + 1 \<noteq> kInvalidLsn) \<Longrightarrow>
    pool_step strict s ((set_hold f (xs @ H_Done (wg_page_id g) (wg_dirty g') # ys) (set_pool bp s))
      \<lparr>ps_map := (if c = Code_Ok then ps_map s else (ps_map s)(wg_page_id g := x)),
       ps_log := (if c = Code_Ok \<and> wg_txn g \<noteq> None \<and> wg_dirty g
         then ps_log s @ [(wg_page_id g, page_lsn (frame_at bp f), frame_page (frame_at bp f))] else ps_log s)\<rparr>)"
| s_release: "ps_hold s f = xs @ H_Done p d # ys \<Longrightarrow> release_enter f p d (ps_pool s) = (bp, RE_Return c) \<Longrightarrow>
    pool_step strict s (set_hold f (xs @ ys) (set_pool bp s))"
| s_release_through: "ps_hold s f = xs @ H_Done p d # ys \<Longrightarrow> release_enter f p d (ps_pool s) = (bp, RE_Flush) \<Longrightarrow>
    pool_step strict s (set_job f (Some (JThrough p)) (set_hold f (xs @ ys) (set_pool bp s)))"
| s_through_io: "ps_job s f = Some (JThrough p) \<Longrightarrow> write_frame h f p (ps_pool s) = Some (bp, c) \<Longrightarrow>
    pool_step strict s (set_job f (Some (JFlushed p c)) (set_pool bp s))"
| s_flush_return: "flush_turn p (ps_pool s) (bp, PE_Return c) \<Longrightarrow> pool_step strict s (set_pool bp s)"
| s_flush_write: "flush_turn p (ps_pool s) (bp, PE_Write f) \<Longrightarrow>
    pool_step strict s (set_job f (Some (JWrite p)) (set_pool bp s))"
| s_flush_drain: "flush_turn p (ps_pool s) (bp, PE_Drain f) \<Longrightarrow>
    pool_step strict s (set_job f (Some (JDrain p)) (set_pool bp s))"
| s_drained: "ps_job s f = Some (JDrain p) \<Longrightarrow> page_flush_drained f (ps_pool s) = Some (PE_Write f) \<Longrightarrow>
    pool_step strict s (set_job f (Some (JWrite p)) s)"
| s_write_io: "ps_job s f = Some (JWrite p) \<Longrightarrow> page_flush_io h f p (ps_pool s) = Some (bp, c) \<Longrightarrow>
    pool_step strict s (set_job f (Some (JFlushed p c)) (set_pool bp s))"
| s_flushed: "ps_job s f = Some (JFlushed p c) \<Longrightarrow>
    pool_step strict s (set_job f None (set_pool (flush_finish f c (ps_pool s)) s))"
| s_begin_delete: "known_page s p \<Longrightarrow> BeginPageDeletion_pins p n (ps_pool s) = (bp, c) \<Longrightarrow> pool_step strict s (set_pool bp s)"
| s_cancel_delete: "CancelPageDeletion p (ps_pool s) = (bp, c) \<Longrightarrow> pool_step strict s (set_pool bp s)"
| s_finalize: "FinalizePageDeletion h p (ps_pool s) = Some (bp, Code_Ok) \<Longrightarrow>
    pool_step strict s ((set_pool bp s)\<lparr>ps_map := (ps_map s)(p := None), ps_base := (ps_base s)(p := None),
      ps_log := filter (\<lambda>(q, l, c). q \<noteq> p) (ps_log s)\<rparr>)"
| s_finalize_failed: "FinalizePageDeletion h p (ps_pool s) = Some (bp, c) \<Longrightarrow> c \<noteq> Code_Ok \<Longrightarrow> pool_step strict s (set_pool bp s)"
| s_restore: "known_page s p \<Longrightarrow> length b = page_size \<Longrightarrow> RestorePage p b True (ps_pool s) = (bp, Code_Ok) \<Longrightarrow>
    pool_step strict s (restored p b bp s)"
| s_restore_failed: "known_page s p \<Longrightarrow> length b = page_size \<Longrightarrow> RestorePage p b True (ps_pool s) = (bp, c) \<Longrightarrow> c \<noteq> Code_Ok \<Longrightarrow>
    pool_step strict s (set_pool bp s)"
| s_locks: "pool_step strict s (set_pool ((ps_pool s)\<lparr>lock_manager := lm\<rparr>) s)"
| s_append: "Append r (log_manager (ps_pool s)) = (lm, res) \<Longrightarrow> pool_step strict s (set_pool ((ps_pool s)\<lparr>log_manager := lm\<rparr>) s)"
| s_flush_log: "Flush l h (log_manager (ps_pool s)) = Some (lm, c) \<Longrightarrow>
    pool_step strict s (set_pool ((ps_pool s)\<lparr>log_manager := lm\<rparr>) s)"

text \<open>The start: an empty pool over a consistent disk; and what can be reached from it.\<close>

definition pool_start :: "BufferPoolManager \<Rightarrow> pool_state" where
  "pool_start bp = \<lparr>ps_pool = bp, ps_job = Map.empty, ps_hold = (\<lambda>f. []), ps_map = disk_contents (disk_manager bp),
     ps_log = [], ps_base = disk_contents (disk_manager bp)\<rparr>"

definition fresh_pool :: "BufferPoolManager \<Rightarrow> bool" where
  "fresh_pool bp \<longleftrightarrow>
     (\<exists>n policy flush dm lm locks b b'. n \<noteq> 0 \<and> disk_ok dm \<and>
        bp = (make_BufferPool n policy flush dm lm locks)\<lparr>log_manager_bound := b, lock_manager_bound := b'\<rparr>)"

inductive pool_run :: "bool \<Rightarrow> BufferPoolManager \<Rightarrow> pool_state \<Rightarrow> bool" for strict bp where
  run_start: "fresh_pool bp \<Longrightarrow> pool_run strict bp (pool_start bp)"
| run_step: "pool_run strict bp s \<Longrightarrow> pool_step strict s s' \<Longrightarrow> pool_run strict bp s'"

end
