(* ===== verification/PoolInvariant.thy ===== *)
theory PoolInvariant
  imports PoolProtocol
begin

text \<open>
  The invariant of the buffer pool under concurrency, and the lemmas by which a step that touches one frame
  keeps it.
\<close>

subsection \<open>The invariant\<close>

abbreviation fr_at :: "pool_state \<Rightarrow> frame_id_t \<Rightarrow> Frame" where
  "fr_at s f \<equiv> frame_at (ps_pool s) f"

abbreviation st_at :: "pool_state \<Rightarrow> frame_id_t \<Rightarrow> FrameState" where
  "st_at s f \<equiv> frame_state (fr_at s f)"

abbreviation pg_at :: "pool_state \<Rightarrow> frame_id_t \<Rightarrow> page_id_t" where
  "pg_at s f \<equiv> frame_page_id (fr_at s f)"

abbreviation n_of :: "pool_state \<Rightarrow> nat" where
  "n_of s \<equiv> pool_size (ps_pool s)"

abbreviation dk :: "pool_state \<Rightarrow> DiskManager" where
  "dk s \<equiv> disk_manager (ps_pool s)"

abbreviation al_of :: "pool_state \<Rightarrow> page_id_t set" where
  "al_of s \<equiv> allocated (dk s)"

abbreviation dp :: "pool_state \<Rightarrow> page_id_t \<Rightarrow> byte list" where
  "dp s p \<equiv> disk_page (dk s) p"

text \<open>A frame that has a page, the pages a frame stands for in the page table, and the page whose bytes are in it.\<close>

definition occupied :: "pool_state \<Rightarrow> frame_id_t \<Rightarrow> bool" where
  "occupied s f \<longleftrightarrow> f < n_of s \<and> st_at s f \<in> {FS_Valid, FS_Flushing, FS_Evicting, FS_DeletePending}"

definition owns :: "pool_state \<Rightarrow> frame_id_t \<Rightarrow> page_id_t \<Rightarrow> bool" where
  "owns s f p \<longleftrightarrow> occupied s f \<and> pg_at s f = p \<or> loading_page (ps_job s f) = Some p"

definition loaded :: "job option \<Rightarrow> bool" where
  "loaded j \<longleftrightarrow> (\<exists>p sel old. j = Some (JLoaded p sel old Code_Ok))"

definition contains :: "pool_state \<Rightarrow> frame_id_t \<Rightarrow> page_id_t \<Rightarrow> bool" where
  "contains s f p \<longleftrightarrow> occupied s f \<and> pg_at s f = p \<and> \<not> loaded (ps_job s f)"

definition in_pool :: "pool_state \<Rightarrow> page_id_t \<Rightarrow> bool" where
  "in_pool s p \<longleftrightarrow> (\<exists>f. contains s f p)"

text \<open>The jobs that have written the old contents of the frame to the disk.\<close>

fun stage_written :: "new_stage \<Rightarrow> bool" where
  "stage_written (N_Evicted c) = (c = Code_Ok)"
| "stage_written (N_Allocated (Inr p)) = True"
| "stage_written (N_LockWait p) = True"
| "stage_written (N_Locked (Inr p)) = True"
| "stage_written (N_Logged (Inr p)) = True"
| "stage_written _ = False"

fun written :: "job option \<Rightarrow> bool" where
  "written (Some (JLoaded p sel old c)) = (c = Code_Ok)"
| "written (Some (JNew tp sel old st)) = stage_written st"
| "written (Some (JFlushed p c)) = (c = Code_Ok)"
| "written _ = False"

fun dirty_hold :: "hold \<Rightarrow> bool" where
  "dirty_hold (H_Write g x) = wg_dirty g"
| "dirty_hold (H_Done p d) = d"
| "dirty_hold _ = False"

fun hold_page :: "hold \<Rightarrow> page_id_t" where
  "hold_page (H_Wait p) = p" | "hold_page (H_Read p) = p"
| "hold_page (H_Write g x) = wg_page_id g" | "hold_page (H_Done p d) = p"

fun hold_ok :: "frame_id_t \<Rightarrow> hold \<Rightarrow> bool" where
  "hold_ok f (H_Write g x) \<longleftrightarrow> wg_frame g = f \<and> (wg_txn g = None \<longleftrightarrow> wg_before g = None) \<and>
     (\<forall>b. wg_before g = Some b \<longrightarrow> length b = page_size \<and> (\<forall>c. x = Some c \<longrightarrow> b = c)) \<and>
     (\<forall>c. x = Some c \<longrightarrow> length c = page_size)"
| "hold_ok f _ \<longleftrightarrow> True"

text \<open>What each job says of its frame.\<close>

definition chosen_ok :: "frame_id_t \<Rightarrow> FrameSelection \<Rightarrow> page_id_t \<Rightarrow> page_id_t \<Rightarrow> Frame \<Rightarrow> bool" where
  "chosen_ok f sel p old fr \<longleftrightarrow> sel_frame sel = f \<and>
     (if from_free_list sel then frame_state fr = FS_Loading \<and> frame_page_id fr = p
      else frame_state fr = FS_Evicting \<and> frame_page_id fr = old \<and> old \<noteq> p)"

fun job_ok :: "frame_id_t \<Rightarrow> Frame \<Rightarrow> hold list \<Rightarrow> job option \<Rightarrow> bool" where
  "job_ok f fr hs None \<longleftrightarrow> frame_state fr \<in> {FS_Empty, FS_Valid, FS_DeletePending}"
| "job_ok f fr hs (Some (JLoad p sel old)) \<longleftrightarrow> chosen_ok f sel p old fr"
| "job_ok f fr hs (Some (JLoaded p sel old c)) \<longleftrightarrow> chosen_ok f sel p old fr"
| "job_ok f fr hs (Some (JNew tp sel old st)) \<longleftrightarrow> chosen_ok f sel INVALID_PAGE_ID old fr \<and> (tp = None \<longrightarrow> (\<forall>p. st \<noteq> N_LockWait p))"
| "job_ok f fr hs (Some (JDrain p)) \<longleftrightarrow> frame_state fr = FS_Flushing \<and> frame_page_id fr = p"
| "job_ok f fr hs (Some (JThrough p)) \<longleftrightarrow> frame_state fr = FS_Flushing \<and> frame_page_id fr = p \<and> hs = []"
| "job_ok f fr hs (Some (JWrite p)) \<longleftrightarrow> frame_state fr = FS_Flushing \<and> frame_page_id fr = p \<and> hs = []"
| "job_ok f fr hs (Some (JFlushed p c)) \<longleftrightarrow> frame_state fr = FS_Flushing \<and> frame_page_id fr = p \<and> hs = []"

text \<open>Pins are counted right.\<close>

fun pins_ok :: "Frame \<Rightarrow> hold list \<Rightarrow> FrameState \<Rightarrow> bool" where
  "pins_ok fr hs FS_Empty \<longleftrightarrow> frame_page_id fr = INVALID_PAGE_ID \<and> pin_count fr = 0 \<and> \<not> is_dirty fr \<and> hs = []"
| "pins_ok fr hs FS_Loading \<longleftrightarrow> pin_count fr = 1 \<and> \<not> is_dirty fr \<and> hs = []"
| "pins_ok fr hs FS_Valid \<longleftrightarrow> pin_count fr = length hs"
| "pins_ok fr hs FS_DeletePending \<longleftrightarrow> pin_count fr = length hs"
| "pins_ok fr hs FS_Evicting \<longleftrightarrow> pin_count fr = 1 \<and> hs = []"
| "pins_ok fr hs FS_Flushing \<longleftrightarrow> pin_count fr = length hs + 1"

text \<open>The bytes in the frame are those of its page; they are also on disk when nothing says that they are dirty.\<close>

definition bytes_ok :: "Frame \<Rightarrow> hold list \<Rightarrow> job option \<Rightarrow> (page_id_t \<rightharpoonup> byte list) \<Rightarrow> (page_id_t \<Rightarrow> byte list) \<Rightarrow> bool" where
  "bytes_ok fr hs j m d \<longleftrightarrow> length (frame_page fr) = page_size \<and>
     (frame_state fr \<in> {FS_Valid, FS_Flushing, FS_Evicting, FS_DeletePending} \<longrightarrow>
        (\<forall>c. m (frame_page_id fr) = Some c \<longrightarrow>
           (\<not> loaded j \<longrightarrow> frame_page fr = c) \<and>
           (\<not> is_dirty fr \<and> \<not> list_ex dirty_hold hs \<or> written j \<longrightarrow> d (frame_page_id fr) = c))) \<and>
     (\<forall>p sel old. j = Some (JLoaded p sel old Code_Ok) \<longrightarrow> frame_page fr = d p)"

text \<open>A writer is alone with the page, and what it found is what the disk has unless the frame was dirty before.\<close>

definition writers_ok :: "bool \<Rightarrow> hold list \<Rightarrow> byte list \<Rightarrow> bool" where
  "writers_ok dirty hs b \<longleftrightarrow>
     (\<forall>xs g x ys. hs = xs @ H_Write g x # ys \<longrightarrow> \<not> list_ex is_write (xs @ ys) \<and> \<not> list_ex is_read (xs @ ys) \<and>
        (\<forall>c. x = Some c \<and> \<not> dirty \<and> \<not> list_ex dirty_hold (xs @ ys) \<longrightarrow> b = c))"

definition frame_inv :: "pool_state \<Rightarrow> frame_id_t \<Rightarrow> bool" where
  "frame_inv s f \<longleftrightarrow>
     (let fr = fr_at s f; hs = ps_hold s f; j = ps_job s f in
      job_ok f fr hs j \<and> pins_ok fr hs (frame_state fr) \<and> (\<forall>h \<in> set hs. hold_page h = frame_page_id fr \<and> hold_ok f h) \<and>
      bytes_ok fr hs j (ps_map s) (dp s) \<and> writers_ok (is_dirty fr) hs (dp s (frame_page_id fr)) \<and>
      (frame_state fr = FS_DeletePending \<longrightarrow> frame_page_id fr \<in> delete_pending_pages (ps_pool s)))"

definition free_inv :: "pool_state \<Rightarrow> bool" where
  "free_inv s \<longleftrightarrow> distinct (free_frames (ps_pool s)) \<and> set (free_frames (ps_pool s)) = free_frame_set (ps_pool s) \<and>
     free_frame_set (ps_pool s) = {f. f < n_of s \<and> st_at s f = FS_Empty}"

definition rep_inv :: "pool_state \<Rightarrow> bool" where
  "rep_inv s \<longleftrightarrow> any_inv (n_of s) (pool_replacer (ps_pool s)) \<and>
     any_candidates (pool_replacer (ps_pool s)) = {f. f < n_of s \<and> st_at s f = FS_Valid \<and> pin_count (fr_at s f) = 0}"

definition map_inv :: "pool_state \<Rightarrow> bool" where
  "map_inv s \<longleftrightarrow> (\<forall>p c. ps_map s p = Some c \<longrightarrow>
     p \<in> al_of s \<and> length c = page_size \<and> (\<not> in_pool s p \<longrightarrow> dp s p = c))"

definition new_inv :: "pool_state \<Rightarrow> bool" where
  "new_inv s \<longleftrightarrow> (\<forall>f p. new_page (ps_job s f) = Some p \<longrightarrow>
     p \<in> al_of s \<and> page_table (ps_pool s) p = None \<and> ps_map s p = None \<and> p \<notin> delete_pending_pages (ps_pool s) \<and>
     (\<forall>g. new_page (ps_job s g) = Some p \<longrightarrow> g = f))"

definition pool_inv :: "pool_state \<Rightarrow> bool" where
  "pool_inv s \<longleftrightarrow>
     n_of s \<noteq> 0 \<and> disk_ok (dk s) \<and> length (frames (ps_pool s)) = n_of s \<and>
     (\<forall>f \<ge> n_of s. ps_job s f = None \<and> ps_hold s f = []) \<and>
     (\<forall>f < n_of s. frame_inv s f) \<and>
     (\<forall>p f. page_table (ps_pool s) p = Some f \<longleftrightarrow> owns s f p) \<and>
     (\<forall>p f. page_table (ps_pool s) p = Some f \<longrightarrow> p \<in> al_of s) \<and>
     delete_pending_pages (ps_pool s) \<subseteq> al_of s \<and>
     free_inv s \<and> rep_inv s \<and> map_inv s \<and> new_inv s"

subsection \<open>Steps that touch one frame\<close>

lemma writers_ok_Nil [simp]: "writers_ok d [] b"
  by (simp add: writers_ok_def)

lemma writers_ok_wait [simp]: "writers_ok d (H_Wait p # hs) b \<longleftrightarrow> writers_ok d hs b"
proof
  show "writers_ok d hs b" if "writers_ok d (H_Wait p # hs) b"
    unfolding writers_ok_def
  proof (intro allI impI)
    fix xs g x ys assume "hs = xs @ H_Write g x # ys"
    then show "\<not> list_ex is_write (xs @ ys) \<and> \<not> list_ex is_read (xs @ ys) \<and>
        (\<forall>c. x = Some c \<and> \<not> d \<and> \<not> list_ex dirty_hold (xs @ ys) \<longrightarrow> b = c)"
      using that[unfolded writers_ok_def, rule_format, of "H_Wait p # xs" g x ys] by simp
  qed
next
  show "writers_ok d (H_Wait p # hs) b" if "writers_ok d hs b"
    unfolding writers_ok_def
  proof (intro allI impI)
    fix xs g x ys assume a: "H_Wait p # hs = xs @ H_Write g x # ys"
    then obtain zs where "xs = H_Wait p # zs" "hs = zs @ H_Write g x # ys" by (cases xs) auto
    then show "\<not> list_ex is_write (xs @ ys) \<and> \<not> list_ex is_read (xs @ ys) \<and>
        (\<forall>c. x = Some c \<and> \<not> d \<and> \<not> list_ex dirty_hold (xs @ ys) \<longrightarrow> b = c)"
      using that[unfolded writers_ok_def, rule_format, of zs g x ys] by simp
  qed
qed

lemma owns_occupied: "occupied s f \<Longrightarrow> owns s f (pg_at s f)"
  by (simp add: owns_def)

lemma contains_owns: "contains s f p \<Longrightarrow> owns s f p"
  by (simp add: contains_def owns_def)

lemma pool_invD:
  assumes "pool_inv s"
  shows "disk_ok (dk s)" "length (frames (ps_pool s)) = n_of s" "f \<ge> n_of s \<Longrightarrow> ps_job s f = None"
    "f \<ge> n_of s \<Longrightarrow> ps_hold s f = []" "f < n_of s \<Longrightarrow> frame_inv s f"
    "page_table (ps_pool s) p = Some f \<longleftrightarrow> owns s f p" "page_table (ps_pool s) p = Some f \<Longrightarrow> p \<in> al_of s"
    "delete_pending_pages (ps_pool s) \<subseteq> al_of s" "free_inv s" "rep_inv s" "map_inv s" "new_inv s" "0 < n_of s"
  using assms unfolding pool_inv_def by (auto, blast)

lemma owns_less: "pool_inv s \<Longrightarrow> owns s f p \<Longrightarrow> f < n_of s"
  using pool_invD(3)[of s f] by (cases "f < n_of s") (auto simp: owns_def occupied_def)

lemma owns_unique: "pool_inv s \<Longrightarrow> owns s f p \<Longrightarrow> owns s g p \<Longrightarrow> g = f"
  using pool_invD(6)[of s p f] pool_invD(6)[of s p g] by simp

lemma same_frame:
  assumes "frame_at bp' g = frame_at bp g" "ps_job s' g = ps_job s g" "n_of s' = n_of s" "ps_pool s' = bp'" "ps_pool s = bp"
  shows "owns s' g p = owns s g p" "contains s' g p = contains s g p"
  using assms by (simp_all add: owns_def occupied_def contains_def)

lemma frame_inv_cong:
  assumes "fr_at s' g = fr_at s g" "ps_job s' g = ps_job s g" "ps_hold s' g = ps_hold s g" "g < n_of s"
    and "\<And>p. owns s g p \<Longrightarrow> (ps_map s' p = ps_map s p \<or> ps_map s' p = None) \<and> dp s' p = dp s p \<and>
      (p \<in> delete_pending_pages (ps_pool s) \<longrightarrow> p \<in> delete_pending_pages (ps_pool s'))"
    and inv: "frame_inv s g"
  shows "frame_inv s' g"
proof -
  let ?fr = "fr_at s g" and ?j = "ps_job s g" and ?hs = "ps_hold s g"
  have b: "bytes_ok ?fr ?hs ?j (ps_map s') (dp s')"
    unfolding bytes_ok_def
  proof (intro conjI impI allI)
    show "length (frame_page ?fr) = page_size" using inv by (simp add: frame_inv_def Let_def bytes_ok_def)
    fix c assume st: "frame_state ?fr \<in> {FS_Valid, FS_Flushing, FS_Evicting, FS_DeletePending}"
      and c: "ps_map s' (frame_page_id ?fr) = Some c"
    then have o: "owns s g (frame_page_id ?fr)" using assms(4) by (simp add: owns_def occupied_def)
    have m: "ps_map s (frame_page_id ?fr) = Some c" "dp s' (frame_page_id ?fr) = dp s (frame_page_id ?fr)"
      using assms(5)[OF o] c by auto
    show "frame_page ?fr = c" if "\<not> loaded ?j"
      using inv st m that unfolding frame_inv_def Let_def bytes_ok_def by blast
    show "dp s' (frame_page_id ?fr) = c" if "\<not> is_dirty ?fr \<and> \<not> list_ex dirty_hold ?hs \<or> written ?j"
      using inv st m(1) that unfolding m(2) frame_inv_def Let_def bytes_ok_def by blast
  next
    fix p sel old assume j: "?j = Some (JLoaded p sel old Code_Ok)"
    then have "owns s g p" by (simp add: owns_def)
    then show "frame_page ?fr = dp s' p" using assms(5) inv j unfolding frame_inv_def Let_def bytes_ok_def by metis
  qed
  have "frame_state ?fr = FS_DeletePending \<Longrightarrow> frame_page_id ?fr \<in> delete_pending_pages (ps_pool s')"
    using inv assms(4) assms(5)[of "frame_page_id ?fr"] by (auto simp: frame_inv_def Let_def owns_def occupied_def)
  moreover have "writers_ok (is_dirty ?fr) ?hs (dp s' (frame_page_id ?fr))"
  proof (cases ?hs)
    case (Cons h hs)
    have "pins_ok ?fr ?hs (frame_state ?fr)" using inv by (simp add: frame_inv_def Let_def)
    then have "owns s g (frame_page_id ?fr)" using assms(4) Cons by (cases "frame_state ?fr") (auto simp: owns_def occupied_def)
    then have "dp s' (frame_page_id ?fr) = dp s (frame_page_id ?fr)" using assms(5) by blast
    then show ?thesis using inv by (simp add: frame_inv_def Let_def)
  qed simp
  ultimately show ?thesis using inv b by (simp add: frame_inv_def Let_def assms(1-3))
qed

lemma pool_inv_update:
  assumes inv: "pool_inv s" and f: "f < n_of s" and n: "n_of s' = n_of s" "length (frames (ps_pool s')) = n_of s"
    and others: "\<And>g. g \<noteq> f \<Longrightarrow> fr_at s' g = fr_at s g \<and> ps_job s' g = ps_job s g \<and> ps_hold s' g = ps_hold s g"
    and table: "\<And>p. page_table (ps_pool s') p =
      (if owns s' f p then Some f else if page_table (ps_pool s) p = Some f then None else page_table (ps_pool s) p)"
    and fresh: "\<And>p. owns s' f p \<Longrightarrow> (page_table (ps_pool s) p = None \<or> page_table (ps_pool s) p = Some f) \<and> p \<in> al_of s' \<and>
      (\<forall>g. g \<noteq> f \<longrightarrow> new_page (ps_job s g) \<noteq> Some p)"
    and disk: "disk_ok (dk s')"
    and shrink: "\<And>p. p \<in> al_of s \<Longrightarrow> p \<notin> al_of s' \<Longrightarrow> (page_table (ps_pool s) p = None \<or> page_table (ps_pool s) p = Some f) \<and>
      ps_map s' p = None \<and> p \<notin> delete_pending_pages (ps_pool s') \<and> (\<forall>g. g \<noteq> f \<longrightarrow> new_page (ps_job s g) \<noteq> Some p)"
    and pend: "\<And>p. p \<in> delete_pending_pages (ps_pool s') \<Longrightarrow> p \<in> al_of s' \<and> (\<forall>g. g \<noteq> f \<longrightarrow> new_page (ps_job s g) \<noteq> Some p)"
      "\<And>p g. p \<in> delete_pending_pages (ps_pool s) \<Longrightarrow> page_table (ps_pool s) p = Some g \<Longrightarrow> g \<noteq> f \<Longrightarrow>
        p \<in> delete_pending_pages (ps_pool s')"
    and away: "\<And>p. p \<in> al_of s \<Longrightarrow> page_table (ps_pool s) p \<noteq> Some f \<Longrightarrow> \<not> owns s' f p \<Longrightarrow>
      ps_map s' p = ps_map s p \<and> dp s' p = dp s p \<or> page_table (ps_pool s) p = None \<and> ps_map s' p = None"
    and here: "frame_inv s' f"
    and maps: "\<And>p c. page_table (ps_pool s) p = Some f \<or> owns s' f p \<or> p \<notin> al_of s \<Longrightarrow> ps_map s' p = Some c \<Longrightarrow>
      p \<in> al_of s' \<and> length c = page_size \<and> (contains s' f p \<or> dp s' p = c)"
    and new: "\<And>p. new_page (ps_job s' f) = Some p \<Longrightarrow> p \<in> al_of s' \<and> page_table (ps_pool s') p = None \<and> ps_map s' p = None \<and>
      p \<notin> delete_pending_pages (ps_pool s') \<and> (\<forall>g. g \<noteq> f \<longrightarrow> new_page (ps_job s g) \<noteq> Some p)"
    and fr: "free_inv s'" and rep: "rep_inv s'"
  shows "pool_inv s'"
proof -
  note I = pool_invD[OF inv]
  have og: "owns s' g p = owns s g p" "contains s' g p = contains s g p" if "g \<noteq> f" for g p
    using others[OF that] n by (simp_all add: owns_def occupied_def contains_def)
  have own: "page_table (ps_pool s') p = Some g \<longleftrightarrow> owns s' g p" for p g
  proof (cases "g = f")
    case True
    then show ?thesis using table[of p] by auto
  next
    case False
    have "owns s' f p \<Longrightarrow> \<not> owns s g p" using fresh[of p] I(6)[of p g] False by auto
    then show ?thesis using table[of p] I(6)[of p g] I(6)[of p f] og(1)[OF False] False by auto
  qed
  have inv_g: "frame_inv s' g" if "g < n_of s" for g
  proof (cases "g = f")
    case False
    show ?thesis
    proof (rule frame_inv_cong[of s' g s])
      fix p assume o: "owns s g p"
      then have t: "page_table (ps_pool s) p = Some g" using I(6) by simp
      have al: "p \<in> al_of s" using I(7)[OF t] .
      have "\<not> owns s' f p" using fresh[of p] t False by auto
      with away[OF al] t False pend(2)[of p g]
      show "(ps_map s' p = ps_map s p \<or> ps_map s' p = None) \<and> dp s' p = dp s p \<and>
          (p \<in> delete_pending_pages (ps_pool s) \<longrightarrow> p \<in> delete_pending_pages (ps_pool s'))" by auto
    qed (use others[OF False] that I(5) in auto)
  qed (use here in simp)
  have al_t: "p \<in> al_of s'" if "page_table (ps_pool s') p = Some g" for p g
  proof (cases "owns s' f p")
    case False
    then have "page_table (ps_pool s) p = Some g" "g \<noteq> f" using that table[of p] by (auto split: if_splits)
    then show ?thesis using I(7) shrink[of p] by auto
  qed (use fresh in auto)
  have mp: "map_inv s'"
    unfolding map_inv_def
  proof (intro allI impI)
    fix p c assume c: "ps_map s' p = Some c"
    show "p \<in> al_of s' \<and> length c = page_size \<and> (\<not> in_pool s' p \<longrightarrow> dp s' p = c)"
    proof (cases "page_table (ps_pool s) p = Some f \<or> owns s' f p \<or> p \<notin> al_of s")
      case True
      then show ?thesis using maps[OF _ c] by (auto simp: in_pool_def)
    next
      case False
      then have a: "ps_map s p = Some c" "dp s' p = dp s p" using away[of p] c by auto
      have "p \<in> al_of s'" using False shrink[of p] c by auto
      moreover have "in_pool s' p" if "in_pool s p"
      proof -
        obtain g where g: "contains s g p" using \<open>in_pool s p\<close> by (auto simp: in_pool_def)
        then have "g \<noteq> f" using False I(6)[of p f] contains_owns by auto
        then show ?thesis using g og(2) by (auto simp: in_pool_def)
      qed
      ultimately show ?thesis using a I(11) by (auto simp: map_inv_def)
    qed
  qed
  have nw: "new_inv s'"
    unfolding new_inv_def
  proof (intro allI impI)
    fix g p assume g: "new_page (ps_job s' g) = Some p"
    show "p \<in> al_of s' \<and> page_table (ps_pool s') p = None \<and> ps_map s' p = None \<and> p \<notin> delete_pending_pages (ps_pool s') \<and>
        (\<forall>h. new_page (ps_job s' h) = Some p \<longrightarrow> h = g)"
    proof (cases "g = f")
      case True
      then show ?thesis using new[of p] g others by metis
    next
      case False
      then have old: "new_page (ps_job s g) = Some p" using g others by simp
      then have N: "p \<in> al_of s" "page_table (ps_pool s) p = None" "ps_map s p = None"
        "\<And>h. new_page (ps_job s h) = Some p \<Longrightarrow> h = g"
        using I(12) unfolding new_inv_def by blast+
      have no: "\<not> owns s' f p" using fresh[of p] old False by auto
      have "p \<in> al_of s'" using shrink[OF N(1)] old False by auto
      moreover have "page_table (ps_pool s') p = None" using table[of p] no N(2) by simp
      moreover have "ps_map s' p = None" using away[OF N(1)] N(2,3) no by auto
      moreover have "p \<notin> delete_pending_pages (ps_pool s')" using pend(1)[of p] old False by auto
      moreover have "h = g" if "new_page (ps_job s' h) = Some p" for h
      proof (cases "h = f")
        case True
        then show ?thesis using new[of p] that old False by auto
      qed (use that others N(4) in auto)
      ultimately show ?thesis by blast
    qed
  qed
  have dl: "delete_pending_pages (ps_pool s') \<subseteq> al_of s'" using pend(1) by blast
  have out: "ps_job s' g = None \<and> ps_hold s' g = []" if "g \<ge> n_of s'" for g
    using that others[of g] I(3,4)[of g] f n by (cases "g = f") auto
  show ?thesis
    unfolding pool_inv_def using disk n f out inv_g own al_t dl fr rep mp nw by simp
qed

subsection \<open>Calls of the replacer\<close>

definition rep_ok :: "nat \<Rightarrow> frame_id_t set \<Rightarrow> AnyReplacer \<Rightarrow> bool" where
  "rep_ok n C r \<longleftrightarrow> any_inv n r \<and> any_candidates r = C"

lemma call_status:
  assumes "rep_ok n C (pool_replacer bp)" "\<And>r C'. abs_candidates n x r C C' \<Longrightarrow> \<exists>c. r = Status c \<and> Q c C'"
  shows "\<exists>r c C'. call_replacer x bp = (bp\<lparr>pool_replacer := r\<rparr>, c) \<and> rep_ok n C' r \<and> Q c C'"
proof -
  obtain r y where e: "any_step x (pool_replacer bp) = (r, y)" by fastforce
  from pool_rep.step_refines[OF _ e, of n] assms(1) have R: "any_inv n r" "abs_candidates n x y C (any_candidates r)"
    by (auto simp: rep_ok_def)
  from assms(2)[OF R(2)] obtain c where "y = Status c" "Q c (any_candidates r)" by blast
  with e R(1) show ?thesis by (auto simp: call_replacer_def rep_ok_def)
qed

lemma call_pin:
  assumes "rep_ok n C (pool_replacer bp)" "f < n"
  shows "\<exists>r. call_replacer (Pin f) bp = (bp\<lparr>pool_replacer := r\<rparr>, Code_Ok) \<and> rep_ok n (C - {f}) r"
  using call_status[OF assms(1), where x = "Pin f" and Q = "\<lambda>c C'. c = Code_Ok \<and> C' = C - {f}"] assms(2) by auto

lemma call_remove:
  assumes "rep_ok n C (pool_replacer bp)" "f < n"
  shows "\<exists>r. call_replacer (Remove f) bp = (bp\<lparr>pool_replacer := r\<rparr>, Code_Ok) \<and> rep_ok n (C - {f}) r"
  using call_status[OF assms(1), where x = "Remove f" and Q = "\<lambda>c C'. c = Code_Ok \<and> C' = C - {f}"] assms(2) by auto

lemma call_access:
  assumes "rep_ok n C (pool_replacer bp)" "f < n"
  shows "\<exists>r. call_replacer (RecordAccess f) bp = (bp\<lparr>pool_replacer := r\<rparr>, Code_Ok) \<and> rep_ok n C r"
  using call_status[OF assms(1), where x = "RecordAccess f" and Q = "\<lambda>c C'. c = Code_Ok \<and> C' = C"] assms(2) by auto

lemma call_unpin:
  assumes "rep_ok n C (pool_replacer bp)" "f < n" "f \<notin> C"
  shows "\<exists>r. call_replacer (Unpin f) bp = (bp\<lparr>pool_replacer := r\<rparr>, Code_Ok) \<and> rep_ok n (insert f C) r"
  using call_status[OF assms(1), where x = "Unpin f" and Q = "\<lambda>c C'. c = Code_Ok \<and> C' = insert f C"] assms(2,3) by auto

lemma victim_called:
  assumes "rep_ok n C (pool_replacer bp)"
  shows "\<exists>r. rep_ok n C r \<and> C = {} \<and> call_victim bp = (bp\<lparr>pool_replacer := r\<rparr>, Inl NotFound) \<or>
    (\<exists>f \<in> C. rep_ok n (C - {f}) r \<and> call_victim bp = (bp\<lparr>pool_replacer := r\<rparr>, Inr f))"
proof -
  obtain r y where e: "any_step Victim (pool_replacer bp) = (r, y)" by fastforce
  from pool_rep.step_refines[OF _ e, of n] assms
  have R: "any_inv n r" "abs_candidates n Victim y C (any_candidates r)" by (simp_all only: rep_ok_def)
  show ?thesis
  proof (cases "C = {}")
    case True
    then have "y = Status NotFound" "any_candidates r = {}" using R(2) by simp_all
    then show ?thesis using e True R(1) by (auto simp: call_victim_def rep_ok_def)
  next
    case False
    then obtain f where "f \<in> C" "y = Chosen f" "any_candidates r = C - {f}" using R(2) by auto
    then show ?thesis using e R(1) by (auto simp: call_victim_def rep_ok_def)
  qed
qed

definition idle :: "pool_state \<Rightarrow> frame_id_t set" where
  "idle s = {f. f < n_of s \<and> st_at s f = FS_Valid \<and> pin_count (fr_at s f) = 0}"

lemma rep_inv_idle: "rep_inv s \<longleftrightarrow> rep_ok (n_of s) (idle s) (pool_replacer (ps_pool s))"
  by (simp add: rep_inv_def rep_ok_def idle_def)

lemma idle_update:
  assumes "n_of s' = n_of s" "\<And>g. g \<noteq> f \<Longrightarrow> fr_at s' g = fr_at s g" "f < n_of s"
  shows "idle s' = (if st_at s' f = FS_Valid \<and> pin_count (fr_at s' f) = 0 then insert f (idle s) else idle s - {f})"
proof (rule set_eqI)
  fix g
  show "g \<in> idle s' \<longleftrightarrow> g \<in> (if st_at s' f = FS_Valid \<and> pin_count (fr_at s' f) = 0 then insert f (idle s) else idle s - {f})"
    using assms(1,3) assms(2)[of g] by (cases "g = f") (auto simp: idle_def)
qed

lemma free_same:
  assumes "free_inv s" "n_of s' = n_of s" "\<And>g. g \<noteq> f \<Longrightarrow> fr_at s' g = fr_at s g" "st_at s' f = FS_Empty \<longleftrightarrow> st_at s f = FS_Empty"
    "free_frames (ps_pool s') = free_frames (ps_pool s)" "free_frame_set (ps_pool s') = free_frame_set (ps_pool s)"
  shows "free_inv s'"
proof -
  have "st_at s' g = FS_Empty \<longleftrightarrow> st_at s g = FS_Empty" for g using assms(3)[of g] assms(4) by (cases "g = f") auto
  then show ?thesis using assms by (simp add: free_inv_def)
qed

text \<open>A step that leaves the frames, the page table, the free list, the reserved pages and the page contents alone.\<close>

definition core_same :: "BufferPoolManager \<Rightarrow> BufferPoolManager \<Rightarrow> bool" where
  "core_same bp bp' \<longleftrightarrow> pool_size bp' = pool_size bp \<and> frames bp' = frames bp \<and> free_frames bp' = free_frames bp \<and>
     free_frame_set bp' = free_frame_set bp \<and> page_table bp' = page_table bp \<and>
     delete_pending_pages bp' = delete_pending_pages bp \<and> disk_manager bp' = disk_manager bp \<and>
     (\<forall>C. rep_ok (pool_size bp) C (pool_replacer bp) \<longrightarrow> rep_ok (pool_size bp) C (pool_replacer bp'))"

lemma core_same_refl [simp]: "core_same bp bp"
  by (simp add: core_same_def)

lemma core_same_trans: "core_same bp bp' \<Longrightarrow> core_same bp' bp'' \<Longrightarrow> core_same bp bp''"
  by (simp add: core_same_def)

lemma core_same_fields [simp]:
  "core_same bp (bp\<lparr>lock_manager := lm\<rparr>)" "core_same bp (bp\<lparr>log_manager := wal\<rparr>)" "core_same bp (bp\<lparr>access_count := n\<rparr>)"
  "core_same bp (bp\<lparr>load_failures := lf\<rparr>)" "core_same bp (bp\<lparr>loading_waiters := lw\<rparr>)"
  "core_same bp (bp\<lparr>loading_waiters := lw, load_failures := lf\<rparr>)"
  "core_same bp (bp\<lparr>hit_count := n\<rparr>)" "core_same bp (bp\<lparr>miss_count := n\<rparr>)" "core_same bp (upd_pool_txn t g bp)"
  by (simp_all add: core_same_def upd_pool_txn_def)

lemma pool_inv_core:
  assumes inv: "pool_inv s" and core: "core_same (ps_pool s) (ps_pool s')"
    and same: "ps_job s' = ps_job s" "ps_hold s' = ps_hold s" "ps_map s' = ps_map s"
  shows "pool_inv s'"
proof -
  have c: "pool_size (ps_pool s') = pool_size (ps_pool s)" "frames (ps_pool s') = frames (ps_pool s)"
    "free_frames (ps_pool s') = free_frames (ps_pool s)" "free_frame_set (ps_pool s') = free_frame_set (ps_pool s)"
    "page_table (ps_pool s') = page_table (ps_pool s)" "delete_pending_pages (ps_pool s') = delete_pending_pages (ps_pool s)"
    "disk_manager (ps_pool s') = disk_manager (ps_pool s)"
    "rep_ok (n_of s) C (pool_replacer (ps_pool s)) \<Longrightarrow> rep_ok (n_of s) C (pool_replacer (ps_pool s'))" for C
    using core by (simp_all add: core_same_def)
  have f: "frame_at (ps_pool s') = frame_at (ps_pool s)" by (simp add: frame_at_def c fun_eq_iff)
  have o: "owns s' = owns s" "in_pool s' = in_pool s"
    by (simp_all add: owns_def occupied_def in_pool_def contains_def f c same fun_eq_iff)
  have i: "frame_inv s' = frame_inv s" "idle s' = idle s"
    by (simp_all add: frame_inv_def Let_def f c same fun_eq_iff idle_def)
  have r: "rep_inv s'" using pool_invD(10)[OF inv] c(8) by (simp add: rep_inv_idle i c)
  show ?thesis
    using inv r
    unfolding pool_inv_def free_inv_def map_inv_def new_inv_def by (simp add: f c same o i)
qed

text \<open>A step that changes a frame, its job and its holders, but not which pages the frame stands for.\<close>

lemma pool_inv_local:
  assumes inv: "pool_inv s" and f: "f < n_of s" and n: "n_of s' = n_of s" "length (frames (ps_pool s')) = n_of s"
    and others: "\<And>g. g \<noteq> f \<Longrightarrow> fr_at s' g = fr_at s g \<and> ps_job s' g = ps_job s g \<and> ps_hold s' g = ps_hold s g"
    and same: "page_table (ps_pool s') = page_table (ps_pool s)" "free_frames (ps_pool s') = free_frames (ps_pool s)"
      "free_frame_set (ps_pool s') = free_frame_set (ps_pool s)"
      "delete_pending_pages (ps_pool s') = delete_pending_pages (ps_pool s)"
    and owns: "\<And>p. owns s' f p = owns s f p" "st_at s' f = FS_Empty \<longleftrightarrow> st_at s f = FS_Empty"
      "new_page (ps_job s' f) = new_page (ps_job s f)"
    and disk: "disk_ok (dk s')" "al_of s' = al_of s" "\<And>p. p \<in> al_of s \<Longrightarrow> \<not> owns s f p \<Longrightarrow> dp s' p = dp s p"
    and map: "\<And>p. \<not> owns s f p \<Longrightarrow> ps_map s' p = ps_map s p"
      "\<And>p c. owns s f p \<Longrightarrow> ps_map s' p = Some c \<Longrightarrow> length c = page_size \<and> (contains s' f p \<or> dp s' p = c)"
    and here: "frame_inv s' f" and rep: "rep_inv s'"
  shows "pool_inv s'"
proof (rule pool_inv_update[OF inv f n others])
  note I = pool_invD[OF inv]
  have N: "p \<in> al_of s \<and> page_table (ps_pool s) p = None \<and> ps_map s p = None \<and> p \<notin> delete_pending_pages (ps_pool s) \<and>
      (\<forall>h. new_page (ps_job s h) = Some p \<longrightarrow> h = g)" if "new_page (ps_job s g) = Some p" for g p
    using I(12) that unfolding new_inv_def by blast
  show "page_table (ps_pool s') p =
      (if owns s' f p then Some f else if page_table (ps_pool s) p = Some f then None else page_table (ps_pool s) p)" for p
    using I(6)[of p f] same(1) owns(1)[of p] by auto
  show "(page_table (ps_pool s) p = None \<or> page_table (ps_pool s) p = Some f) \<and> p \<in> al_of s' \<and>
      (\<forall>g. g \<noteq> f \<longrightarrow> new_page (ps_job s g) \<noteq> Some p)" if "owns s' f p" for p
  proof -
    have t: "page_table (ps_pool s) p = Some f" using I(6)[of p f] owns(1)[of p] that by simp
    then show ?thesis using I(7)[OF t] disk(2) N[of _ p] by auto
  qed
  show "disk_ok (dk s')" by (rule disk(1))
  show "p \<in> al_of s' \<and> (\<forall>g. g \<noteq> f \<longrightarrow> new_page (ps_job s g) \<noteq> Some p)" if "p \<in> delete_pending_pages (ps_pool s')" for p
    using that same(4) disk(2) subsetD[OF I(8), of p] N[of _ p] by metis
  show "frame_inv s' f" by (rule here)
  show "p \<in> al_of s' \<and> length c = page_size \<and> (contains s' f p \<or> dp s' p = c)"
    if "page_table (ps_pool s) p = Some f \<or> owns s' f p \<or> p \<notin> al_of s" and c: "ps_map s' p = Some c" for p c
  proof (cases "owns s f p")
    case True
    then show ?thesis using map(2)[OF True c] I(6)[of p f] I(7)[of p f] disk(2) by simp
  next
    case False
    then have "p \<notin> al_of s" using that(1) I(6)[of p f] owns(1)[of p] by simp
    then show ?thesis using c map(1)[OF False] I(11) by (auto simp: map_inv_def)
  qed
  show "p \<in> al_of s' \<and> page_table (ps_pool s') p = None \<and> ps_map s' p = None \<and>
      p \<notin> delete_pending_pages (ps_pool s') \<and> (\<forall>g. g \<noteq> f \<longrightarrow> new_page (ps_job s g) \<noteq> Some p)"
    if "new_page (ps_job s' f) = Some p" for p
  proof -
    have o: "new_page (ps_job s f) = Some p" using that owns(3) by simp
    have "\<not> owns s f p" using N[OF o] I(6)[of p f] by simp
    then show ?thesis using N[OF o] same disk(2) map(1)[of p] by auto
  qed
  show "free_inv s'" using I(9) n(1) owns(2) same others by (intro free_same[of s s' f]) auto
  show "rep_inv s'" by (rule rep)
  show "ps_map s' p = ps_map s p \<and> dp s' p = dp s p \<or> page_table (ps_pool s) p = None \<and> ps_map s' p = None"
    if "p \<in> al_of s" "page_table (ps_pool s) p \<noteq> Some f" "\<not> owns s' f p" for p
    using that owns(1)[of p] map(1)[of p] disk(3)[of p] by simp
  show "(page_table (ps_pool s) p = None \<or> page_table (ps_pool s) p = Some f) \<and> ps_map s' p = None \<and>
      p \<notin> delete_pending_pages (ps_pool s') \<and> (\<forall>g. g \<noteq> f \<longrightarrow> new_page (ps_job s g) \<noteq> Some p)"
    if "p \<in> al_of s" "p \<notin> al_of s'" for p
    using that disk(2) by simp
  show "p \<in> delete_pending_pages (ps_pool s')" if "p \<in> delete_pending_pages (ps_pool s)" for p
    using that same(4) by simp
qed

subsection \<open>Reading frames\<close>

lemma loaded_simps [simp]:
  "\<not> loaded None" "loaded (Some (JLoaded p sel old c)) \<longleftrightarrow> c = Code_Ok" "\<not> loaded (Some (JLoad p sel old))"
  "\<not> loaded (Some (JNew tp sel old st))" "\<not> loaded (Some (JThrough p))" "\<not> loaded (Some (JDrain p))"
  "\<not> loaded (Some (JWrite p))" "\<not> loaded (Some (JFlushed p c))"
  by (simp_all add: loaded_def)

lemma upd_frame_fields [simp]:
  "pool_size (upd_frame f g bp) = pool_size bp" "disk_manager (upd_frame f g bp) = disk_manager bp"
  "log_manager (upd_frame f g bp) = log_manager bp" "lock_manager (upd_frame f g bp) = lock_manager bp"
  "log_manager_bound (upd_frame f g bp) = log_manager_bound bp"
  "flush_policy (upd_frame f g bp) = flush_policy bp" "free_frames (upd_frame f g bp) = free_frames bp"
  "free_frame_set (upd_frame f g bp) = free_frame_set bp" "page_table (upd_frame f g bp) = page_table bp"
  "delete_pending_pages (upd_frame f g bp) = delete_pending_pages bp" "pool_replacer (upd_frame f g bp) = pool_replacer bp"
  "load_failures (upd_frame f g bp) = load_failures bp" "loading_waiters (upd_frame f g bp) = loading_waiters bp"
  "length (frames (upd_frame f g bp)) = length (frames bp)" "hit_count (upd_frame f g bp) = hit_count bp"
  "eviction_count (upd_frame f g bp) = eviction_count bp" "eviction_log (upd_frame f g bp) = eviction_log bp"
  by (simp_all add: upd_frame_def)

lemma frame_at_upd [simp]:
  "f < length (frames bp) \<Longrightarrow> frame_at (upd_frame f g bp) f = g (frame_at bp f)"
  "h \<noteq> f \<Longrightarrow> frame_at (upd_frame f g bp) h = frame_at bp h"
  by (simp_all add: upd_frame_def frame_at_def)

lemma frame_at_fields [simp]:
  "frame_at (bp\<lparr>pool_replacer := r\<rparr>) f = frame_at bp f" "frame_at (bp\<lparr>page_table := tab\<rparr>) f = frame_at bp f"
  "frame_at (bp\<lparr>disk_manager := dm\<rparr>) f = frame_at bp f" "frame_at (bp\<lparr>log_manager := lm\<rparr>) f = frame_at bp f"
  "frame_at (bp\<lparr>lock_manager := locks\<rparr>) f = frame_at bp f" "frame_at (bp\<lparr>hit_count := n\<rparr>) f = frame_at bp f"
  "frame_at (bp\<lparr>miss_count := n\<rparr>) f = frame_at bp f" "frame_at (bp\<lparr>access_count := n\<rparr>) f = frame_at bp f"
  "frame_at (bp\<lparr>load_failures := lf\<rparr>) f = frame_at bp f" "frame_at (bp\<lparr>loading_waiters := lw\<rparr>) f = frame_at bp f"
  "frame_at (bp\<lparr>free_frames := ff, free_frame_set := fs\<rparr>) f = frame_at bp f"
  "frame_at (bp\<lparr>free_frame_set := fs, free_frames := ff\<rparr>) f = frame_at bp f"
  "frame_at (bp\<lparr>delete_pending_pages := d\<rparr>) f = frame_at bp f"
  "frame_at (upd_pool_txn t g bp) f = frame_at bp f" "frame_at (note_eviction old bp) f = frame_at bp f"
  by (simp_all add: frame_at_def upd_pool_txn_def note_eviction_def)

lemma state_fields [simp]:
  "ps_pool (set_pool bp s) = bp" "ps_job (set_pool bp s) = ps_job s" "ps_hold (set_pool bp s) = ps_hold s"
  "ps_map (set_pool bp s) = ps_map s" "ps_log (set_pool bp s) = ps_log s" "ps_base (set_pool bp s) = ps_base s"
  "ps_pool (set_job f j s) = ps_pool s" "ps_job (set_job f j s) = (ps_job s)(f := j)" "ps_hold (set_job f j s) = ps_hold s"
  "ps_map (set_job f j s) = ps_map s" "ps_log (set_job f j s) = ps_log s" "ps_base (set_job f j s) = ps_base s"
  "ps_pool (set_hold f hs s) = ps_pool s" "ps_job (set_hold f hs s) = ps_job s"
  "ps_hold (set_hold f hs s) = (ps_hold s)(f := hs)" "ps_map (set_hold f hs s) = ps_map s"
  "ps_log (set_hold f hs s) = ps_log s" "ps_base (set_hold f hs s) = ps_base s"
  "ps_pool (add_hold f h s) = ps_pool s" "ps_job (add_hold f h s) = ps_job s"
  "ps_hold (add_hold f h s) = (ps_hold s)(f := h # ps_hold s f)" "ps_map (add_hold f h s) = ps_map s"
  "ps_log (add_hold f h s) = ps_log s" "ps_base (add_hold f h s) = ps_base s"
  by (simp_all add: set_pool_def set_job_def set_hold_def add_hold_def)

lemma core_sameD:
  assumes "core_same bp bp'"
  shows "pool_size bp' = pool_size bp" "frames bp' = frames bp" "free_frames bp' = free_frames bp"
    "free_frame_set bp' = free_frame_set bp" "page_table bp' = page_table bp"
    "delete_pending_pages bp' = delete_pending_pages bp" "disk_manager bp' = disk_manager bp"
    "frame_at bp' = frame_at bp" "rep_ok (pool_size bp) C (pool_replacer bp) \<Longrightarrow> rep_ok (pool_size bp) C (pool_replacer bp')"
  using assms by (auto simp: core_same_def frame_at_def fun_eq_iff)

text \<open>What the invariant says of a frame in each state.\<close>

lemma owns_facts:
  assumes "pool_inv s" "owns s f p"
  shows "f < n_of s" "page_table (ps_pool s) p = Some f" "p \<in> al_of s" "p \<noteq> INVALID_PAGE_ID" "p \<noteq> 0"
    "\<And>g. owns s g p \<Longrightarrow> g = f" "\<And>g. new_page (ps_job s g) \<noteq> Some p"
proof -
  show "f < n_of s" using owns_less[OF assms] .
  show t: "page_table (ps_pool s) p = Some f" using pool_invD(6)[OF assms(1)] assms(2) by simp
  show al: "p \<in> al_of s" using pool_invD(7)[OF assms(1) t] .
  show "p \<noteq> INVALID_PAGE_ID" "p \<noteq> 0" using disk.valid[OF pool_invD(1)[OF assms(1)] al] by auto
  show "g = f" if "owns s g p" for g using owns_unique[OF assms that] .
  show "new_page (ps_job s g) \<noteq> Some p" for g using pool_invD(12)[OF assms(1)] t by (auto simp: new_inv_def)
qed

lemma table_state:
  assumes inv: "pool_inv s" and t: "page_table (ps_pool s) p = Some f" and st: "st_at s f \<in> {FS_Valid, FS_Flushing, FS_DeletePending}"
  shows "pg_at s f = p" "f < n_of s" "contains s f p" "owns s f p"
proof -
  have o: "owns s f p" using pool_invD(6)[OF inv] t by simp
  then show f: "f < n_of s" "owns s f p" using owns_less[OF inv] by auto
  have "job_ok f (fr_at s f) (ps_hold s f) (ps_job s f)" using pool_invD(5)[OF inv f(1)] by (simp add: frame_inv_def Let_def)
  then have "loading_page (ps_job s f) = None \<and> \<not> loaded (ps_job s f)"
    using st by (cases "(f, fr_at s f, ps_hold s f, ps_job s f)" rule: job_ok.cases)
      (auto simp: chosen_ok_def loaded_def split: if_splits)
  then show "pg_at s f = p" "contains s f p" using o st f by (auto simp: owns_def contains_def occupied_def)
qed

lemma state_owns: "f < n_of s \<Longrightarrow> st_at s f \<in> {FS_Valid, FS_Flushing, FS_Evicting, FS_DeletePending} \<Longrightarrow> owns s f (pg_at s f)"
  by (simp add: owns_def occupied_def)

lemma frame_invD:
  assumes "pool_inv s" "f < n_of s"
  shows "job_ok f (fr_at s f) (ps_hold s f) (ps_job s f)" "pins_ok (fr_at s f) (ps_hold s f) (st_at s f)"
    "h \<in> set (ps_hold s f) \<Longrightarrow> hold_page h = pg_at s f" "h \<in> set (ps_hold s f) \<Longrightarrow> hold_ok f h"
    "bytes_ok (fr_at s f) (ps_hold s f) (ps_job s f) (ps_map s) (dp s)"
    "st_at s f = FS_DeletePending \<Longrightarrow> pg_at s f \<in> delete_pending_pages (ps_pool s)"
    "writers_ok (is_dirty (fr_at s f)) (ps_hold s f) (dp s (pg_at s f))"
  using pool_invD(5)[OF assms] by (auto simp: frame_inv_def Let_def)

lemma job_settled: "job_ok f fr hs j \<Longrightarrow> frame_state fr \<in> {FS_Empty, FS_Valid, FS_DeletePending} \<Longrightarrow> j = None"
  by (cases "(f, fr, hs, j)" rule: job_ok.cases) (auto simp: chosen_ok_def split: if_splits)

lemma hold_in_use:
  assumes inv: "pool_inv s" and h: "h \<in> set (ps_hold s f)"
  shows "f < n_of s" "st_at s f \<in> {FS_Valid, FS_DeletePending, FS_Flushing}" "pin_count (fr_at s f) > 0" "hold_page h = pg_at s f"
    "contains s f (pg_at s f)" "owns s f (pg_at s f)" "f \<notin> idle s"
proof -
  show f: "f < n_of s" using pool_invD(4)[OF inv, of f] h by (cases "f < n_of s") auto
  note D = frame_invD[OF inv f]
  show st: "st_at s f \<in> {FS_Valid, FS_DeletePending, FS_Flushing}" using D(2) h by (cases "st_at s f") auto
  show p: "pin_count (fr_at s f) > 0" using D(2) h st by (cases "ps_hold s f") auto
  show "hold_page h = pg_at s f" using D(3) h by blast
  show o: "owns s f (pg_at s f)" using st f by (auto simp: owns_def occupied_def)
  then show "contains s f (pg_at s f)" using table_state(3)[OF inv, of "pg_at s f" f] st pool_invD(6)[OF inv, of "pg_at s f" f] by auto
  show "f \<notin> idle s" using p by (simp add: idle_def)
qed

text \<open>A step that gives a frame other pages but leaves the disk and the contents of the pages alone.\<close>

lemma map_disk:
  assumes inv: "pool_inv s" and m: "ps_map s p = Some c" and p: "page_table (ps_pool s) p = None \<or> owns s f p \<and> \<not> contains s f p"
  shows "dp s p = c"
proof -
  have "\<not> contains s g p" for g
  proof
    assume g: "contains s g p"
    then have "page_table (ps_pool s) p = Some g" using contains_owns pool_invD(6)[OF inv] by blast
    then show False using p g owns_facts(2)[OF inv, of f p] by auto
  qed
  then show ?thesis using pool_invD(11)[OF inv] m by (auto simp: map_inv_def in_pool_def)
qed

lemma pool_inv_table:
  assumes inv: "pool_inv s" and f: "f < n_of s" and n: "n_of s' = n_of s" "length (frames (ps_pool s')) = n_of s"
    and others: "\<And>g. g \<noteq> f \<Longrightarrow> fr_at s' g = fr_at s g \<and> ps_job s' g = ps_job s g \<and> ps_hold s' g = ps_hold s g"
    and table: "\<And>p. page_table (ps_pool s') p =
      (if owns s' f p then Some f else if page_table (ps_pool s) p = Some f then None else page_table (ps_pool s) p)"
    and same: "dk s' = dk s" "ps_map s' = ps_map s" "delete_pending_pages (ps_pool s') = delete_pending_pages (ps_pool s)"
    and new: "new_page (ps_job s' f) = None"
    and fresh: "\<And>p. owns s' f p \<Longrightarrow> owns s f p \<or> page_table (ps_pool s) p = None \<and> p \<in> al_of s \<and> (\<forall>g. g \<noteq> f \<longrightarrow> new_page (ps_job s g) \<noteq> Some p)"
    and maps: "\<And>p c. owns s f p \<or> owns s' f p \<Longrightarrow> ps_map s p = Some c \<Longrightarrow> contains s' f p \<or> dp s p = c"
    and here: "frame_inv s' f" and fr: "free_inv s'" and rep: "rep_inv s'"
  shows "pool_inv s'"
proof (rule pool_inv_update[OF inv f n others table])
  note I = pool_invD[OF inv]
  have N: "new_page (ps_job s g) = Some p \<Longrightarrow> page_table (ps_pool s) p = None \<and> p \<notin> delete_pending_pages (ps_pool s)" for g p
    using I(12) by (auto simp: new_inv_def)
  show "(page_table (ps_pool s) p = None \<or> page_table (ps_pool s) p = Some f) \<and> p \<in> al_of s' \<and>
      (\<forall>g. g \<noteq> f \<longrightarrow> new_page (ps_job s g) \<noteq> Some p)" if "owns s' f p" for p
    using fresh[OF that] owns_facts(2,3,7)[OF inv, of f p] same(1) by auto
  show "disk_ok (dk s')" using I(1) same(1) by simp
  show "frame_inv s' f" "free_inv s'" "rep_inv s'" by (rule here fr rep)+
  show "(page_table (ps_pool s) p = None \<or> page_table (ps_pool s) p = Some f) \<and> ps_map s' p = None \<and>
      p \<notin> delete_pending_pages (ps_pool s') \<and> (\<forall>g. g \<noteq> f \<longrightarrow> new_page (ps_job s g) \<noteq> Some p)"
    if "p \<in> al_of s" "p \<notin> al_of s'" for p using that same(1) by simp
  show "p \<in> al_of s' \<and> (\<forall>g. g \<noteq> f \<longrightarrow> new_page (ps_job s g) \<noteq> Some p)" if "p \<in> delete_pending_pages (ps_pool s')" for p
    using that same I(8) N[of _ p] by auto
  show "p \<in> delete_pending_pages (ps_pool s')" if "p \<in> delete_pending_pages (ps_pool s)" for p using that same(3) by simp
  show "ps_map s' p = ps_map s p \<and> dp s' p = dp s p \<or> page_table (ps_pool s) p = None \<and> ps_map s' p = None" for p
    using same by simp
  show "p \<in> al_of s' \<and> length c = page_size \<and> (contains s' f p \<or> dp s' p = c)"
    if "page_table (ps_pool s) p = Some f \<or> owns s' f p \<or> p \<notin> al_of s" "ps_map s' p = Some c" for p c
  proof -
    have "p \<in> al_of s \<and> length c = page_size" using that(2) same(2) I(11) by (auto simp: map_inv_def)
    then show ?thesis using that maps[of p c] same I(6)[of p f] by auto
  qed
  show "p \<in> al_of s' \<and> page_table (ps_pool s') p = None \<and> ps_map s' p = None \<and>
      p \<notin> delete_pending_pages (ps_pool s') \<and> (\<forall>g. g \<noteq> f \<longrightarrow> new_page (ps_job s g) \<noteq> Some p)"
    if "new_page (ps_job s' f) = Some p" for p using that new by simp
qed

end
