(* ===== verification/PoolSteps.thy ===== *)
theory PoolSteps
  imports PoolInvariant
begin

text \<open>
  Every step of the buffer pool keeps the invariant: fetches, page writes, new pages, guards, flushes
  and deletions, in any interleaving.
\<close>

subsection \<open>Fetching\<close>

lemma fetch_turn_loop:
  assumes "fetch_turn p bp (bp', r)"
  shows "core_same bp bp' \<and> (\<exists>e. r = FE_Error e) \<or> (\<exists>bp0. core_same bp bp0 \<and> fetch_loop p bp0 = (bp', r))"
proof -
  consider tp where "fetch_enter p tp bp = (bp', r)" | "fetch_wake p bp = (bp', r)"
    using assms by (auto simp: fetch_turn_def)
  then show ?thesis
  proof cases
    case 1
    then show ?thesis using core_same_fields(3)[of bp] by (auto simp: fetch_enter_def split: if_splits)
  next
    case 2
    show ?thesis
    proof (cases "load_failures bp p")
      case None
      then show ?thesis using 2 core_same_fields(5)[of bp] core_same_refl[of bp]
        by (auto simp: fetch_wake_def split: option.splits if_splits)
    next
      case (Some e)
      then show ?thesis using 2 by (auto simp: fetch_wake_def split: option.splits if_splits)
    qed
  qed
qed

lemma pool_inv_hit:
  assumes inv: "pool_inv s" and t: "page_table (ps_pool s) p = Some f" and st: "st_at s f = FS_Valid"
    and hit: "fetch_hit f (ps_pool s) = (bp, r)"
  shows "r = FE_Hit f \<and> pool_inv (add_hold f (H_Wait p) (set_pool bp s))"
proof -
  let ?n = "n_of s"
  have T: "pg_at s f = p" "f < ?n" "owns s f p" "contains s f p" using table_state[OF inv t] st by auto
  note D = frame_invD[OF inv T(2)]
  have L: "length (frames (ps_pool s)) = ?n" using pool_invD(2)[OF inv] .
  have R: "rep_ok ?n (idle s) (pool_replacer (ps_pool s))" using pool_invD(10)[OF inv] by (simp add: rep_inv_idle)
  obtain r1 where r1: "call_replacer (Pin f) (ps_pool s) = (ps_pool s\<lparr>pool_replacer := r1\<rparr>, Code_Ok)" "rep_ok ?n (idle s - {f}) r1"
    using call_pin[OF R T(2)] by blast
  let ?b1 = "upd_frame f (\<lambda>fr. fr\<lparr>pin_count := pin_count fr + 1\<rparr>) (ps_pool s\<lparr>pool_replacer := r1\<rparr>)"
  have "rep_ok ?n (idle s - {f}) (pool_replacer ?b1)" using r1(2) by simp
  then obtain r2 where r2: "call_replacer (RecordAccess f) ?b1 = (?b1\<lparr>pool_replacer := r2\<rparr>, Code_Ok)" "rep_ok ?n (idle s - {f}) r2"
    using call_access[OF _ T(2)] by blast
  have e: "r = FE_Hit f" "bp = ?b1\<lparr>pool_replacer := r2, hit_count := hit_count (ps_pool s) + 1\<rparr>"
    using hit r1(1) r2(1) by (auto simp: fetch_hit_def)
  let ?s = "add_hold f (H_Wait p) (set_pool bp s)"
  have J: "ps_job s f = None" using job_settled[OF D(1)] st by simp
  have "pool_inv ?s"
  proof (rule pool_inv_local[OF inv T(2)])
    show "rep_inv ?s" using r2(2) idle_update[of ?s s f] T(2) L by (simp add: rep_inv_idle e)
    show "frame_inv ?s f"
      using D T J L st by (auto simp: frame_inv_def Let_def e bytes_ok_def)
    show "ps_map ?s q = Some c \<Longrightarrow> length c = page_size \<and> (contains ?s f q \<or> dp ?s q = c)" if "owns s f q" for q c
      using that J pool_invD(11)[OF inv] st T(2) L
      by (auto simp: map_inv_def e owns_def contains_def occupied_def)
  qed (use T L st pool_invD(1)[OF inv] J in \<open>auto simp: e owns_def occupied_def\<close>)
  with e show ?thesis by simp
qed

lemma selection_cases:
  assumes inv: "pool_inv s" and sel: "SelectFrameUnlocked bp0 = (bp, r)" and c: "core_same (ps_pool s) bp0"
  shows "(\<exists>e. r = Inl e) \<and> core_same (ps_pool s) bp \<or>
    (\<exists>f rest. r = Inr \<lparr>sel_frame = f, from_free_list = True\<rparr> \<and> f < n_of s \<and> st_at s f = FS_Empty \<and> free_frames (ps_pool s) = f # rest \<and>
      bp = upd_frame f (\<lambda>fr. fr\<lparr>frame_state := FS_Loading\<rparr>)
        (bp0\<lparr>free_frames := rest, free_frame_set := free_frame_set (ps_pool s) - {f}\<rparr>)) \<or>
    (\<exists>f pr. r = Inr \<lparr>sel_frame = f, from_free_list = False\<rparr> \<and> f \<in> idle s \<and> rep_ok (n_of s) (idle s - {f}) pr \<and>
      bp = upd_frame f (\<lambda>fr. fr\<lparr>frame_state := FS_Evicting, pin_count := pin_count fr + 1\<rparr>) (bp0\<lparr>pool_replacer := pr\<rparr>))"
proof (cases "free_frames (ps_pool s)")
  case (Cons f rest)
  note D = core_sameD[OF c]
  have "f \<in> free_frame_set (ps_pool s)" using pool_invD(9)[OF inv] Cons by (auto simp: free_inv_def)
  then have f: "f < n_of s" "st_at s f = FS_Empty" using pool_invD(9)[OF inv] by (auto simp: free_inv_def)
  have "pg_at s f = INVALID_PAGE_ID" using frame_invD(2)[OF inv f(1)] f(2) by simp
  then show ?thesis
    using sel f Cons D pool_invD(2)[OF inv] by (auto simp: SelectFrameUnlocked_def Let_def frame_at_def)
next
  case Nil
  note D = core_sameD[OF c]
  have "rep_ok (n_of s) (idle s) (pool_replacer bp0)" using pool_invD(10)[OF inv] D(9) by (simp add: rep_inv_idle)
  then consider pr where "rep_ok (n_of s) (idle s) pr" "idle s = {}" "call_victim bp0 = (bp0\<lparr>pool_replacer := pr\<rparr>, Inl NotFound)"
    | pr f where "f \<in> idle s" "rep_ok (n_of s) (idle s - {f}) pr" "call_victim bp0 = (bp0\<lparr>pool_replacer := pr\<rparr>, Inr f)"
    using victim_called[of "n_of s" "idle s" bp0] by blast
  then show ?thesis
  proof cases
    case 1
    have "core_same (ps_pool s) (bp0\<lparr>pool_replacer := pr\<rparr>)"
      using c 1(1) pool_invD(10)[OF inv] by (auto simp: core_same_def rep_inv_idle rep_ok_def)
    with 1 sel Nil D(3) show ?thesis by (auto simp: SelectFrameUnlocked_def)
  next
    case 2
    have f: "f < n_of s" "st_at s f = FS_Valid" "pin_count (fr_at s f) = 0" using 2(1) by (auto simp: idle_def)
    have "pg_at s f \<noteq> INVALID_PAGE_ID" using owns_facts(4)[OF inv state_owns[OF f(1)]] f(2) by simp
    with f 2 sel Nil D(3,8) show ?thesis by (auto simp: SelectFrameUnlocked_def)
  qed
qed

lemma free_take:
  assumes "free_inv s" "n_of s' = n_of s" "\<And>g. g \<noteq> f \<Longrightarrow> fr_at s' g = fr_at s g" "st_at s' f \<noteq> FS_Empty"
    "free_frames (ps_pool s) = f # free_frames (ps_pool s')" "free_frame_set (ps_pool s') = free_frame_set (ps_pool s) - {f}"
  shows "free_inv s'"
proof -
  have "{g. g < n_of s' \<and> st_at s' g = FS_Empty} = {g. g < n_of s \<and> st_at s g = FS_Empty} - {f}"
    using assms(2,4) assms(3) by fastforce
  then show ?thesis using assms(1,5,6) by (auto simp: free_inv_def)
qed

lemma free_give:
  assumes "free_inv s" "n_of s' = n_of s" "\<And>g. g \<noteq> f \<Longrightarrow> fr_at s' g = fr_at s g" "st_at s f \<noteq> FS_Empty" "st_at s' f = FS_Empty"
    "f < n_of s" "free_frames (ps_pool s') = free_frames (ps_pool s) @ [f]" "free_frame_set (ps_pool s') = insert f (free_frame_set (ps_pool s))"
  shows "free_inv s'"
proof -
  have "{g. g < n_of s' \<and> st_at s' g = FS_Empty} = insert f {g. g < n_of s \<and> st_at s g = FS_Empty}"
    using assms(2,5,6) assms(3) by fastforce
  then show ?thesis using assms(1,4,7,8) by (auto simp: free_inv_def)
qed

lemma pool_inv_load_free:
  assumes inv: "pool_inv s" and k: "p \<in> al_of s" "\<And>g. new_page (ps_job s g) \<noteq> Some p" and t: "page_table (ps_pool s) p = None"
    and f: "f < n_of s" "st_at s f = FS_Empty" "free_frames (ps_pool s) = f # rest"
    and core: "core_same (ps_pool s) bp0"
    and bp: "bp = (upd_frame f (\<lambda>fr. fr\<lparr>frame_state := FS_Loading, frame_page_id := p, pin_count := 1\<rparr>)
        (bp0\<lparr>free_frames := rest, free_frame_set := free_frame_set (ps_pool s) - {f}\<rparr>))\<lparr>page_table := (page_table (ps_pool s))(p \<mapsto> f)\<rparr>"
    and sel: "sel_frame sel = f" "from_free_list sel"
  shows "pool_inv (set_job f (Some (JLoad p sel old)) (set_pool bp s))" (is "pool_inv ?s")
proof (rule pool_inv_table[OF inv f(1)])
  note C = core_sameD[OF core] and I = pool_invD[OF inv] and D = frame_invD[OF inv f(1)]
  have L: "length (frames bp0) = n_of s" using C(2) I(2) by simp
  have J: "ps_job s f = None" using job_settled[OF D(1)] f(2) by simp
  have O: "owns s f q \<longleftrightarrow> False" for q using f(2) J by (simp add: owns_def occupied_def)
  have O': "owns ?s f q \<longleftrightarrow> q = p" for q using L f(1) by (auto simp: owns_def occupied_def bp)
  have st: "fr_at ?s f = (fr_at s f)\<lparr>frame_state := FS_Loading, frame_page_id := p, pin_count := 1\<rparr>" using L f(1) C(8) by (simp add: bp)
  show "frame_inv ?s f"
    unfolding frame_inv_def Let_def st using D f(2) sel L f(1) by (auto simp: chosen_ok_def bytes_ok_def)
  show "owns ?s f q \<Longrightarrow> owns s f q \<or> page_table (ps_pool s) q = None \<and> q \<in> al_of s \<and> (\<forall>g. g \<noteq> f \<longrightarrow> new_page (ps_job s g) \<noteq> Some q)" for q
    using O' t k by simp
  show "contains ?s f q \<or> dp s q = c" if "owns s f q \<or> owns ?s f q" "ps_map s q = Some c" for q c
    using that O O' map_disk[OF inv that(2)] t by auto
  show "free_inv ?s" using free_take[OF I(9), of ?s f] f(3) C L f(1) by (simp add: bp)
  show "rep_inv ?s"
  proof -
    have "idle ?s = idle s" using idle_update[of ?s s f] f(1,2) L C by (auto simp: bp idle_def)
    then show ?thesis using I(10) C by (simp add: rep_inv_idle bp)
  qed
  show "page_table (ps_pool ?s) q =
      (if owns ?s f q then Some f else if page_table (ps_pool s) q = Some f then None else page_table (ps_pool s) q)" for q
    using O O' I(6)[of q f] by (simp add: bp)
qed (use core_sameD[OF core] pool_invD(2)[OF inv] f(1) in \<open>simp_all add: bp\<close>)

lemma pool_inv_load_victim:
  assumes inv: "pool_inv s" and k: "p \<in> al_of s" "\<And>g. new_page (ps_job s g) \<noteq> Some p" and t: "page_table (ps_pool s) p = None"
    and f: "f \<in> idle s" and core: "core_same (ps_pool s) bp0" and pr: "rep_ok (n_of s) (idle s - {f}) pr"
    and bp: "bp = (upd_frame f (\<lambda>fr. fr\<lparr>frame_state := FS_Evicting, pin_count := pin_count fr + 1\<rparr>) (bp0\<lparr>pool_replacer := pr\<rparr>))
        \<lparr>page_table := (page_table (ps_pool s))(p \<mapsto> f)\<rparr>"
    and sel: "sel_frame sel = f" "\<not> from_free_list sel"
  shows "pool_inv (set_job f (Some (JLoad p sel (pg_at s f))) (set_pool bp s))" (is "pool_inv ?s")
proof -
  have F: "f < n_of s" "st_at s f = FS_Valid" "pin_count (fr_at s f) = 0" using f by (auto simp: idle_def)
  show ?thesis
  proof (rule pool_inv_table[OF inv F(1)])
    note C = core_sameD[OF core] and I = pool_invD[OF inv] and D = frame_invD[OF inv F(1)]
    have L: "length (frames bp0) = n_of s" using C(2) I(2) by simp
    have J: "ps_job s f = None" using job_settled[OF D(1)] F(2) by simp
    have O: "owns s f q \<longleftrightarrow> q = pg_at s f" for q using F J by (auto simp: owns_def occupied_def)
    have O': "owns ?s f q \<longleftrightarrow> q = p \<or> q = pg_at s f" for q using L F(1) C(1,8) by (auto simp: owns_def occupied_def bp)
    have st: "fr_at ?s f = (fr_at s f)\<lparr>frame_state := FS_Evicting, pin_count := pin_count (fr_at s f) + 1\<rparr>"
      using L F(1) C(8) by (simp add: bp)
    show "frame_inv ?s f"
      unfolding frame_inv_def Let_def st using D F sel L J C(7) O I(6)[of p f] t by (auto simp: chosen_ok_def bytes_ok_def bp)
    show "owns ?s f q \<Longrightarrow> owns s f q \<or> page_table (ps_pool s) q = None \<and> q \<in> al_of s \<and> (\<forall>g. g \<noteq> f \<longrightarrow> new_page (ps_job s g) \<noteq> Some q)" for q
      using O O' t k by auto
    show "contains ?s f q \<or> dp s q = c" if "owns s f q \<or> owns ?s f q" "ps_map s q = Some c" for q c
      using that O O' map_disk[OF inv that(2)] t L F(1) C(1,8) by (auto simp: contains_def occupied_def bp)
    show "free_inv ?s" using free_same[OF I(9), of ?s f] F(1,2) C L by (simp add: bp)
    show "rep_inv ?s"
      using idle_update[of ?s s f] F(1) L C pr by (simp add: rep_inv_idle bp)
    show "page_table (ps_pool ?s) q =
        (if owns ?s f q then Some f else if page_table (ps_pool s) q = Some f then None else page_table (ps_pool s) q)" for q
      using O' I(6)[of q f] O by (auto simp: bp)
  qed (use core_sameD[OF core] pool_invD(2)[OF inv] F(1) in \<open>simp_all add: bp\<close>)
qed

lemma set_pool_twice [simp]: "set_pool bp' (set_pool bp s) = set_pool bp' s" "set_pool (ps_pool s) s = s"
  by (simp_all add: set_pool_def)

lemma known_pageD: "known_page s p \<Longrightarrow> p \<in> al_of s \<and> (\<forall>g. new_page (ps_job s g) \<noteq> Some p)"
  by (simp add: known_page_def)

text \<open>What one turn of a fetch does.\<close>

definition fetched :: "pool_state \<Rightarrow> page_id_t \<Rightarrow> BufferPoolManager \<Rightarrow> FetchEntry \<Rightarrow> bool" where
  "fetched s p bp r \<longleftrightarrow>
     (case r of
        FE_Error e \<Rightarrow> pool_inv (set_pool bp s)
      | FE_Wait \<Rightarrow> pool_inv (set_pool bp s)
      | FE_Hit f \<Rightarrow> pool_inv (add_hold f (H_Wait p) (set_pool bp s))
      | FE_Load sel old \<Rightarrow> known_page s p \<longrightarrow> pool_inv (set_job (sel_frame sel) (Some (JLoad p sel old)) (set_pool bp s)))"

lemma pool_inv_set: "pool_inv s \<Longrightarrow> core_same (ps_pool s) bp \<Longrightarrow> pool_inv (set_pool bp s)"
  by (rule pool_inv_core) auto

lemma fetch_miss_fetched:
  assumes inv: "pool_inv s" and t: "page_table (ps_pool s) p = None" and miss: "fetch_miss p (ps_pool s) = (bp, r)"
  shows "fetched s p bp r"
proof -
  let ?b = "ps_pool s\<lparr>miss_count := miss_count (ps_pool s) + 1\<rparr>"
  obtain b2 x where sel: "SelectFrameUnlocked ?b = (b2, x)" by fastforce
  have c: "core_same (ps_pool s) ?b" by simp
  from selection_cases[OF inv sel c] consider e where "x = Inl e" "core_same (ps_pool s) b2"
    | f rest where "x = Inr \<lparr>sel_frame = f, from_free_list = True\<rparr>" "f < n_of s" "st_at s f = FS_Empty" "free_frames (ps_pool s) = f # rest"
        "b2 = upd_frame f (\<lambda>fr. fr\<lparr>frame_state := FS_Loading\<rparr>) (?b\<lparr>free_frames := rest, free_frame_set := free_frame_set (ps_pool s) - {f}\<rparr>)"
    | f pr where "x = Inr \<lparr>sel_frame = f, from_free_list = False\<rparr>" "f \<in> idle s" "rep_ok (n_of s) (idle s - {f}) pr"
        "b2 = upd_frame f (\<lambda>fr. fr\<lparr>frame_state := FS_Evicting, pin_count := pin_count fr + 1\<rparr>) (?b\<lparr>pool_replacer := pr\<rparr>)"
    by blast
  then show ?thesis
  proof cases
    case 1
    then show ?thesis using miss sel pool_inv_set[OF inv] by (auto simp: fetch_miss_def fetched_def)
  next
    case (2 f rest)
    have L: "f < length (frames (ps_pool s))" using 2(2) pool_invD(2)[OF inv] by simp
    have bp: "bp = (upd_frame f (\<lambda>fr. fr\<lparr>frame_state := FS_Loading, frame_page_id := p, pin_count := 1\<rparr>)
        (?b\<lparr>free_frames := rest, free_frame_set := free_frame_set (ps_pool s) - {f}\<rparr>))\<lparr>page_table := (page_table (ps_pool s))(p \<mapsto> f)\<rparr>"
      and r: "\<exists>old. r = FE_Load \<lparr>sel_frame = f, from_free_list = True\<rparr> old"
      using miss sel 2(1,5) L by (auto simp: fetch_miss_def Let_def upd_frame_def)
    then show ?thesis
      using pool_inv_load_free[OF inv _ _ t 2(2-4) c bp] known_pageD[of s p] by (auto simp: fetched_def)
  next
    case (3 f pr)
    have L: "f < length (frames (ps_pool s))" using 3(2) pool_invD(2)[OF inv] by (simp add: idle_def)
    have bp: "bp = (upd_frame f (\<lambda>fr. fr\<lparr>frame_state := FS_Evicting, pin_count := pin_count fr + 1\<rparr>) (?b\<lparr>pool_replacer := pr\<rparr>))
        \<lparr>page_table := (page_table (ps_pool s))(p \<mapsto> f)\<rparr>"
      and r: "r = FE_Load \<lparr>sel_frame = f, from_free_list = False\<rparr> (pg_at s f)"
      using miss sel 3(1,4) L by (auto simp: fetch_miss_def Let_def)
    show ?thesis
      using pool_inv_load_victim[OF inv _ _ t 3(2) c 3(3) bp] known_pageD[of s p] by (auto simp: fetched_def r)
  qed
qed

lemma fetch_turn_fetched:
  assumes inv: "pool_inv s" and turn: "fetch_turn p (ps_pool s) (bp, r)"
  shows "fetched s p bp r"
  using fetch_turn_loop[OF turn]
proof (elim disjE conjE exE)
  fix e assume "core_same (ps_pool s) bp" "r = FE_Error e"
  then show ?thesis using pool_inv_set[OF inv] by (simp add: fetched_def)
next
  fix b0 assume c: "core_same (ps_pool s) b0" and l: "fetch_loop p b0 = (bp, r)"
  have inv0: "pool_inv (set_pool b0 s)" using pool_inv_set[OF inv c] .
  have lift: "fetched (set_pool b0 s) p bp r \<Longrightarrow> fetched s p bp r"
    using core_sameD(7)[OF c] by (cases r) (auto simp: fetched_def known_page_def set_pool_def add_hold_def set_hold_def set_job_def)
  have core: "\<And>b. core_same b0 b \<Longrightarrow> pool_inv (set_pool b s)" using pool_inv_set[OF inv0] by simp
  show ?thesis
  proof (cases "p \<in> delete_pending_pages b0")
    case True
    then show ?thesis using l core by (auto simp: fetch_loop_def fetched_def)
  next
    case no: False
    show ?thesis
    proof (cases "page_table b0 p")
      case (Some f)
      show ?thesis
      proof (cases "frame_state (frame_at b0 f) = FS_Valid")
        case True
        then have "fetch_hit f b0 = (bp, r)" using l no Some by (simp add: fetch_loop_def)
        then show ?thesis using pool_inv_hit[OF inv0, of p f bp r] Some True lift by (auto simp: fetched_def)
      next
        case False
        then show ?thesis using l no Some core by (auto simp: fetch_loop_def fetched_def split: if_splits)
      qed
    next
      case None
      show ?thesis
      proof (cases "load_failures b0 p")
        case (Some e)
        then show ?thesis using l no None core by (auto simp: fetch_loop_def fetched_def)
      next
        case n2: None
        then have "fetch_miss p b0 = (bp, r)" using l no None by (simp add: fetch_loop_def)
        then show ?thesis using fetch_miss_fetched[OF inv0, of p bp r] None lift by simp
      qed
    qed
  qed
qed

subsection \<open>Writing and reading pages\<close>

lemma upd_frame_same: "g (frame_at bp f) = frame_at bp f \<Longrightarrow> upd_frame f g bp = bp"
  by (simp add: upd_frame_def frame_at_def)

lemma write_frame_cases:
  assumes inv: "pool_inv s" and f: "f < n_of s" and q: "q \<in> al_of s" and w: "write_frame h f q (ps_pool s) = Some (bp, c)"
  shows "\<exists>lm dm. bp = ps_pool s\<lparr>log_manager := lm, disk_manager := dm\<rparr> \<and> disk_ok dm \<and> allocated dm = al_of s \<and>
    (\<forall>p \<in> al_of s. p \<noteq> q \<longrightarrow> disk_page dm p = dp s p) \<and>
    (if c = Code_Ok then disk_page dm q = frame_page (fr_at s f) else dm = dk s)"
proof -
  have len: "length (frame_page (fr_at s f)) = page_size" using frame_invD(5)[OF inv f] by (simp add: bytes_ok_def)
  from disk.wr_page[OF pool_invD(1)[OF inv] q len] obtain dm where
    dm: "WritePage q (frame_page (fr_at s f)) (dk s) = (dm, Code_Ok)" "disk_ok dm" "allocated dm = al_of s"
      "disk_page dm q = frame_page (fr_at s f)" "\<forall>p \<in> al_of s. p \<noteq> q \<longrightarrow> disk_page dm p = dp s p" by blast
  have "\<exists>lm. bp = ps_pool s\<lparr>log_manager := lm, disk_manager := (if c = Code_Ok then dm else dk s)\<rparr>"
  proof (cases "log_manager_bound (ps_pool s) \<and> page_lsn (fr_at s f) \<noteq> kInvalidLsn")
    case True
    then show ?thesis using w dm(1) unfolding write_frame_def FlushFrameToDisk_def Let_def
      by (auto split: if_splits option.splits prod.splits)
  next
    case False
    then show ?thesis using w dm(1) unfolding write_frame_def FlushFrameToDisk_def Let_def
      by (intro exI[of _ "log_manager (ps_pool s)"]) auto
  qed
  then show ?thesis using dm pool_invD(1)[OF inv] by (cases "c = Code_Ok") auto
qed

lemma evict_io_cases:
  assumes inv: "pool_inv s" and f: "f < n_of s" "sel_frame sel = f"
    and old: "\<not> from_free_list sel \<Longrightarrow> old \<in> al_of s" and e: "evict_io h sel old (ps_pool s) = Some (bp, c)"
  shows "\<exists>lm dm l. bp = upd_frame f (\<lambda>fr. fr\<lparr>page_lsn := l\<rparr>) (ps_pool s\<lparr>log_manager := lm, disk_manager := dm\<rparr>) \<and> disk_ok dm \<and>
    allocated dm = al_of s \<and> (\<forall>p \<in> al_of s. p \<noteq> old \<or> from_free_list sel \<or> \<not> is_dirty (fr_at s f) \<longrightarrow> disk_page dm p = dp s p) \<and>
    (from_free_list sel \<longrightarrow> c = Code_Ok) \<and>
    (c = Code_Ok \<and> \<not> from_free_list sel \<and> is_dirty (fr_at s f) \<longrightarrow> disk_page dm old = frame_page (fr_at s f)) \<and> (c \<noteq> Code_Ok \<longrightarrow> dm = dk s)"
proof (cases "\<not> from_free_list sel \<and> is_dirty (fr_at s f)")
  case True
  obtain b0 where w: "write_frame h f old (ps_pool s) = Some (b0, c)"
    "bp = (if c = Code_Ok then upd_frame f (\<lambda>fr. fr\<lparr>page_lsn := kInvalidLsn\<rparr>) b0 else b0)"
    using e True f(2) by (auto simp: evict_io_def Let_def split: option.splits)
  from write_frame_cases[OF inv f(1) _ w(1)] old True obtain lm dm where
    b0: "b0 = ps_pool s\<lparr>log_manager := lm, disk_manager := dm\<rparr>" "disk_ok dm" "allocated dm = al_of s"
      "\<forall>p \<in> al_of s. p \<noteq> old \<longrightarrow> disk_page dm p = dp s p"
      "if c = Code_Ok then disk_page dm old = frame_page (fr_at s f) else dm = dk s" by blast
  have "upd_frame f (\<lambda>fr. fr\<lparr>page_lsn := page_lsn (fr_at s f)\<rparr>) b0 = b0" by (rule upd_frame_same) (simp add: b0 frame_at_def)
  then have "bp = upd_frame f (\<lambda>fr. fr\<lparr>page_lsn := if c = Code_Ok then kInvalidLsn else page_lsn (fr_at s f)\<rparr>) b0"
    using w(2) by simp
  then show ?thesis using b0 True by (auto split: if_splits)
next
  case False
  have "bp = ps_pool s" "c = Code_Ok" using e False f(2) by (auto simp: evict_io_def Let_def)
  moreover have "upd_frame f (\<lambda>fr. fr\<lparr>page_lsn := page_lsn (fr_at s f)\<rparr>) (ps_pool s) = ps_pool s" by (rule upd_frame_same) simp
  ultimately show ?thesis
    using False pool_invD(1)[OF inv]
    by (intro exI[of _ "log_manager (ps_pool s)"] exI[of _ "dk s"] exI[of _ "page_lsn (fr_at s f)"]) auto
qed

lemma job_frame: "pool_inv s \<Longrightarrow> ps_job s f = Some j \<Longrightarrow> f < n_of s"
  using pool_invD(3)[of s f] by (cases "f < n_of s") auto

text \<open>A frame a call has chosen: it stands for its old page, if it had one, and for the page to load, if there is one.\<close>

lemma chosen_facts:
  assumes inv: "pool_inv s" and f: "f < n_of s" and ch: "chosen_ok f sel p old (fr_at s f)"
  shows "ps_hold s f = []" "pin_count (fr_at s f) = 1" "sel_frame sel = f" "f \<notin> idle s" "st_at s f \<noteq> FS_Empty"
    "from_free_list sel \<Longrightarrow> \<not> is_dirty (fr_at s f)" "from_free_list sel \<Longrightarrow> \<not> occupied s f"
    "\<not> from_free_list sel \<Longrightarrow> occupied s f \<and> pg_at s f = old \<and> owns s f old \<and> old \<in> al_of s"
  using ch frame_invD(2)[OF inv f] owns_facts(3)[OF inv, of f old] f
  by (auto simp: chosen_ok_def idle_def occupied_def owns_def split: if_splits)

lemma job_is: "pool_inv s \<Longrightarrow> ps_job s f = Some j \<Longrightarrow> job_ok f (fr_at s f) (ps_hold s f) (Some j)"
  using frame_invD(1)[of s f] job_frame[of s f j] by simp

lemma pool_inv_load_io:
  assumes inv: "pool_inv s" and j: "ps_job s f = Some (JLoad p sel old)" and io: "fetch_io h p sel old (ps_pool s) = Some (bp, c)"
  shows "pool_inv (set_job f (Some (JLoaded p sel old c)) (set_pool bp s))" (is "pool_inv ?s")
proof -
  have f: "f < n_of s" using job_frame[OF inv j] .
  have ch: "chosen_ok f sel p old (fr_at s f)" using job_is[OF inv j] by simp
  note C = chosen_facts[OF inv f ch] and I = pool_invD[OF inv] and D = frame_invD[OF inv f]
  have op: "owns s f p" using j by (simp add: owns_def)
  have al: "p \<in> al_of s" using owns_facts(3)[OF inv op] .
  obtain b0 c0 where e: "evict_io h sel old (ps_pool s) = Some (b0, c0)" "load_io sel p (b0, c0) = (bp, c)"
    using io by (auto simp: fetch_io_def)
  from evict_io_cases[OF inv f C(3) _ e(1)] C(8) obtain lm dm l where
    b0: "b0 = upd_frame f (\<lambda>fr. fr\<lparr>page_lsn := l\<rparr>) (ps_pool s\<lparr>log_manager := lm, disk_manager := dm\<rparr>)" and d: "disk_ok dm" "allocated dm = al_of s"
    and E: "\<forall>q \<in> al_of s. q \<noteq> old \<or> from_free_list sel \<or> \<not> is_dirty (fr_at s f) \<longrightarrow> disk_page dm q = dp s q"
      "from_free_list sel \<longrightarrow> c0 = Code_Ok"
      "c0 = Code_Ok \<and> \<not> from_free_list sel \<and> is_dirty (fr_at s f) \<longrightarrow> disk_page dm old = frame_page (fr_at s f)" "c0 \<noteq> Code_Ok \<longrightarrow> dm = dk s"
    by blast
  have po: "from_free_list sel \<or> old \<noteq> p" using ch by (auto simp: chosen_ok_def)
  then have dp: "disk_page dm p = dp s p" using E(1) al by auto
  obtain dm' where rd: "ReadPage p dm = (dm', Inr (disk_page dm p))" using disk.rd_page[OF d(1)] al d(2) by blast
  have dm': "disk_ok dm'" "allocated dm' = al_of s" "disk_page dm' = disk_page dm" using disk.rd_same[OF d(1) rd] d(2) by auto
  have L: "length (frames (ps_pool s)) = n_of s" using I(2) .
  have bp: "c = c0 \<and> bp = (if c0 = Code_Ok then upd_frame f (\<lambda>fr. fr\<lparr>frame_page := disk_page dm p\<rparr>) (b0\<lparr>disk_manager := dm'\<rparr>) else b0)"
    using e(2) rd C(3) E(2) by (auto simp: load_io_def Let_def b0 split: if_splits)
  have st: "fr_at ?s f = (if c = Code_Ok then (fr_at s f)\<lparr>page_lsn := l, frame_page := disk_page dm p\<rparr> else (fr_at s f)\<lparr>page_lsn := l\<rparr>)"
    using bp L f by (auto simp: b0)
  have len: "length (disk_page dm p) = page_size" using disk.valid[OF d(1), of p] al d(2) by simp
  have dk: "dp ?s = disk_page dm" using bp dm'(3) by (auto simp: b0)
  have oldc: "disk_page dm old = x" if "c = Code_Ok" "\<not> from_free_list sel" "ps_map s old = Some x" for x
  proof (cases "is_dirty (fr_at s f)")
    case True
    then have "disk_page dm old = frame_page (fr_at s f)" using E(3) that bp by auto
    also have "\<dots> = x" using D(5) that C(8) j by (auto simp: bytes_ok_def occupied_def)
    finally show ?thesis .
  next
    case False
    then show ?thesis using D(5) that C(1,8) E(1) by (auto simp: bytes_ok_def occupied_def)
  qed
  have own: "owns ?s f q = owns s f q" for q
    using j bp L f by (auto simp: owns_def occupied_def b0)
  show ?thesis
  proof (rule pool_inv_local[OF inv f])
    show "disk_ok (dk ?s)" "al_of ?s = al_of s" using bp dm' d by (auto simp: b0)
    show "dp ?s q = dp s q" if "q \<in> al_of s" "\<not> owns s f q" for q using E(1) that C(8) dk by auto
    show "owns ?s f q = owns s f q" for q by (rule own)
    show "frame_inv ?s f"
      using D ch C bp st len dp dk oldc E(2,4) L f j
      by (auto simp: frame_inv_def Let_def bytes_ok_def b0 chosen_ok_def occupied_def split: if_splits)
    show "rep_inv ?s" using I(10) idle_update[of ?s s f] f L C(4) bp C(2) by (auto simp: rep_inv_idle b0)
    show "length x = page_size \<and> (contains ?s f q \<or> dp ?s q = x)" if q: "owns s f q" and x: "ps_map ?s q = Some x" for q x
    proof -
      have x': "ps_map s q = Some x" using x by simp
      have len: "length x = page_size" using I(11) x' by (auto simp: map_inv_def)
      show ?thesis
      proof (cases "q = p")
        case True
        have "\<not> contains s f p" using C(7,8) po by (auto simp: contains_def)
        then show ?thesis using map_disk[OF inv x'] True op dk dp len by auto
      next
        case False
        then have o: "\<not> from_free_list sel" "q = old" using q C(7,8) j by (auto simp: owns_def)
        show ?thesis
        proof (cases "c = Code_Ok")
          case True
          then show ?thesis using oldc[OF True o(1)] x' o(2) dk len by simp
        next
          case False
          then have "contains ?s f q" using o C(8) bp L f by (auto simp: contains_def occupied_def b0)
          then show ?thesis using len by simp
        qed
      qed
    qed
  qed (use bp L f j in \<open>auto simp: b0\<close>)
qed

lemma return_free:
  assumes "f < length (frames bp)" "frame_page_id (frame_at bp f) = INVALID_PAGE_ID" "pin_count (frame_at bp f) = 0" "f \<notin> free_frame_set bp"
  shows "ReturnFreeFrameUnlocked f bp = (bp\<lparr>free_frame_set := insert f (free_frame_set bp), free_frames := free_frames bp @ [f]\<rparr>, Code_Ok)"
  using assms by (simp add: ReturnFreeFrameUnlocked_def)

lemma swap_job_pool: "set_pool bp (set_job f j s) = set_job f j (set_pool bp s)"
  by (simp add: set_pool_def set_job_def)

lemma frame_state_occ: "f < n_of s \<Longrightarrow> occupied s f \<longleftrightarrow> st_at s f \<in> {FS_Valid, FS_Flushing, FS_Evicting, FS_DeletePending}"
  by (simp add: occupied_def)

text \<open>A chosen frame is given back.\<close>

lemma pool_inv_give_back:
  assumes inv: "pool_inv s" and j: "ps_job s f = Some jb" and ch: "chosen_ok f sel p old (fr_at s f)"
    and jb: "\<not> loaded (Some jb)" "new_page (Some jb) = None" "loading_page (Some jb) = Some p \<or> loading_page (Some jb) = None"
    and bp0: "pool_size bp0 = n_of s" "length (frames bp0) = n_of s" "\<And>g. g \<noteq> f \<Longrightarrow> frame_at bp0 g = fr_at s g"
      "frame_at bp0 f = (fr_at s f)\<lparr>frame_page := b\<rparr>" "length b = page_size" "\<not> from_free_list sel \<Longrightarrow> b = frame_page (fr_at s f)"
      "free_frames bp0 = free_frames (ps_pool s)" "free_frame_set bp0 = free_frame_set (ps_pool s)" "disk_manager bp0 = dk s"
      "pool_replacer bp0 = pool_replacer (ps_pool s)" "delete_pending_pages bp0 = delete_pending_pages (ps_pool s)"
      "\<And>q. page_table bp0 q = (if loading_page (Some jb) = Some q then None else page_table (ps_pool s) q)"
  shows "pool_inv (set_job f None (set_pool (release_selection sel bp0) s))" (is "pool_inv ?s")
proof -
  have f: "f < n_of s" using job_frame[OF inv j] .
  note C = chosen_facts[OF inv f ch] and I = pool_invD[OF inv] and D = frame_invD[OF inv f]
  have ff: "f \<notin> free_frame_set (ps_pool s)" using I(9) C(5) by (auto simp: free_inv_def)
  have po: "from_free_list sel \<or> old \<noteq> p" using ch by (auto simp: chosen_ok_def)
  have R: "rep_ok (n_of s) (idle s) (pool_replacer (ps_pool s))" using I(10) by (simp add: rep_inv_idle)
  have no: "contains s f q \<Longrightarrow> \<not> from_free_list sel \<and> q = old" for q using C(7,8) by (auto simp: contains_def)
  have oq: "owns s f q \<longleftrightarrow> (\<not> from_free_list sel \<and> q = old) \<or> loading_page (Some jb) = Some q" for q
    using C(7,8) j by (auto simp: owns_def)
  show ?thesis
  proof (cases "from_free_list sel")
    case True
    let ?fr = "(fr_at s f)\<lparr>frame_page := b, frame_page_id := INVALID_PAGE_ID, pin_count := 0, is_dirty := False, frame_state := FS_Empty\<rparr>"
    let ?b = "upd_frame f (\<lambda>fr. fr\<lparr>frame_page_id := INVALID_PAGE_ID, pin_count := 0, is_dirty := False, frame_state := FS_Empty\<rparr>) bp0"
    have e: "release_selection sel bp0 = ?b\<lparr>free_frame_set := insert f (free_frame_set (ps_pool s)), free_frames := free_frames (ps_pool s) @ [f]\<rparr>"
      using return_free[of f ?b] True C(3) bp0(2,7,8) f ff by (simp add: release_selection_def Let_def)
    have st: "fr_at ?s f = ?fr" using bp0(2,4) f by (simp add: e)
    have O': "\<not> owns ?s f q" for q unfolding owns_def occupied_def st by simp
    show ?thesis
    proof (rule pool_inv_table[OF inv f])
      show "frame_inv ?s f" unfolding frame_inv_def Let_def st using C(1) bp0(5) by (simp add: bytes_ok_def)
      show "free_inv ?s" using free_give[OF I(9), of ?s f] f C(5) bp0 st by (simp add: e)
      show "rep_inv ?s"
        using idle_update[of ?s s f] f C(4) R bp0 st by (simp add: rep_inv_idle e)
      show "contains ?s f q \<or> dp s q = c" if "owns s f q \<or> owns ?s f q" "ps_map s q = Some c" for q c
        using that O' no True map_disk[OF inv that(2)] by auto
      show "page_table (ps_pool ?s) q =
          (if owns ?s f q then Some f else if page_table (ps_pool s) q = Some f then None else page_table (ps_pool s) q)" for q
        using O' oq[of q] True I(6)[of q f] bp0(12)[of q] by (simp add: e)
    qed (use O' bp0 f in \<open>auto simp: e\<close>)
  next
    case False
    let ?b = "upd_frame f (\<lambda>fr. fr\<lparr>pin_count := 0, frame_state := FS_Valid\<rparr>) bp0"
    obtain r where r: "call_replacer (Unpin f) ?b = (?b\<lparr>pool_replacer := r\<rparr>, Code_Ok)" "rep_ok (n_of s) (insert f (idle s)) r"
      using call_unpin[of "n_of s" "idle s" ?b f] R bp0(10) f C(4) by auto
    have e: "release_selection sel bp0 = ?b\<lparr>pool_replacer := r\<rparr>" using False C(3) r(1) by (simp add: release_selection_def Let_def)
    have st: "fr_at ?s f = (fr_at s f)\<lparr>pin_count := 0, frame_state := FS_Valid\<rparr>" using bp0(2,4,6) f False by (simp add: e)
    have sv: "st_at ?s f = FS_Valid" "pg_at ?s f = old" "n_of ?s = n_of s" "ps_job ?s f = None"
      using C(8)[OF False] bp0(1) unfolding st by (simp_all add: e)
    have O': "owns ?s f q \<longleftrightarrow> q = old" "contains ?s f q \<longleftrightarrow> q = old" for q
      unfolding owns_def contains_def occupied_def sv using f by auto
    show ?thesis
    proof (rule pool_inv_table[OF inv f])
      show "frame_inv ?s f"
        unfolding frame_inv_def Let_def st using C(1) C(8)[OF False] D(5) j jb(1) bp0(9) f
        by (auto simp: bytes_ok_def occupied_def e)
      show "free_inv ?s" using free_same[OF I(9), of ?s f] C(5) bp0 st by (simp add: e)
      show "rep_inv ?s"
        using idle_update[of ?s s f] f C(4) r(2) bp0 st by (simp add: rep_inv_idle e)
      show "contains ?s f q \<or> dp s q = c" if "owns s f q \<or> owns ?s f q" "ps_map s q = Some c" for q c
        using that oq[of q] O' no[of q] map_disk[OF inv that(2)] po jb(3) C(8)[OF False] by (auto simp: contains_def)
      show "page_table (ps_pool ?s) q =
          (if owns ?s f q then Some f else if page_table (ps_pool s) q = Some f then None else page_table (ps_pool s) q)" for q
        using O' oq[of q] False I(6)[of q f] bp0(12)[of q] po jb(3) by (auto simp: e)
      show "owns ?s f q \<Longrightarrow> owns s f q \<or> page_table (ps_pool s) q = None \<and> q \<in> al_of s \<and> (\<forall>g. g \<noteq> f \<longrightarrow> new_page (ps_job s g) \<noteq> Some q)" for q
        using O' oq[of q] False by simp
    qed (use bp0 f in \<open>auto simp: e\<close>)
  qed
qed

lemma empty_page_length [simp]: "length empty_page = page_size"
  by (simp add: empty_page_def)

lemma pool_inv_load_failed:
  assumes inv: "pool_inv s" and j: "ps_job s f = Some (JLoaded p sel old c)" and c: "c \<noteq> Code_Ok"
  shows "pool_inv (set_job f None (set_pool (fetch_finish p sel old c (ps_pool s)) s))"
proof -
  have f: "f < n_of s" using job_frame[OF inv j] .
  have ch: "chosen_ok f sel p old (fr_at s f)" using job_is[OF inv j] by simp
  note C = chosen_facts[OF inv f ch] and I = pool_invD[OF inv] and D = frame_invD[OF inv f]
  let ?b1 = "ps_pool s\<lparr>page_table := (page_table (ps_pool s))(p := None)\<rparr>"
  let ?b2 = "if from_free_list sel then upd_frame f (\<lambda>fr. fr\<lparr>frame_page := empty_page\<rparr>) ?b1 else ?b1"
  have "pool_inv (set_job f None (set_pool (release_selection sel ?b2) s))"
    using f I(2) D(5) c
    by (intro pool_inv_give_back[OF inv j ch, where b = "if from_free_list sel then empty_page else frame_page (fr_at s f)"])
      (auto simp: bytes_ok_def)
  from pool_inv_set[OF this, of "(release_selection sel ?b2)\<lparr>load_failures := (load_failures (release_selection sel ?b2))(p \<mapsto> c)\<rparr>"]
  show ?thesis using c C(3) by (simp add: fetch_finish_def Let_def swap_job_pool)
qed

lemma enter_replacer_eq:
  assumes "rep_ok n C (pool_replacer bp)" "f < n" "f \<notin> C"
  shows "\<exists>r. enter_replacer f bp = bp\<lparr>pool_replacer := r\<rparr> \<and> rep_ok n C r"
proof -
  obtain r1 where r1: "call_replacer (Remove f) bp = (bp\<lparr>pool_replacer := r1\<rparr>, Code_Ok)" "rep_ok n C r1"
    using call_remove[OF assms(1,2)] assms(3) by auto
  then obtain r2 where "call_replacer (RecordAccess f) (bp\<lparr>pool_replacer := r1\<rparr>) = (bp\<lparr>pool_replacer := r1, pool_replacer := r2\<rparr>, Code_Ok)" "rep_ok n C r2"
    using call_access[of n C "bp\<lparr>pool_replacer := r1\<rparr>" f] assms(2) by auto
  with r1 show ?thesis by (intro exI[of _ r2]) (simp add: enter_replacer_def)
qed

lemma note_eviction_fields [simp]:
  "pool_size (note_eviction q bp) = pool_size bp" "frames (note_eviction q bp) = frames bp" "disk_manager (note_eviction q bp) = disk_manager bp"
  "free_frames (note_eviction q bp) = free_frames bp" "free_frame_set (note_eviction q bp) = free_frame_set bp"
  "page_table (note_eviction q bp) = page_table bp" "delete_pending_pages (note_eviction q bp) = delete_pending_pages bp"
  "pool_replacer (note_eviction q bp) = pool_replacer bp" "log_manager (note_eviction q bp) = log_manager bp"
  by (simp_all add: note_eviction_def)

lemma pool_inv_load_done:
  assumes inv: "pool_inv s" and j: "ps_job s f = Some (JLoaded p sel old Code_Ok)"
  shows "pool_inv (add_hold f (H_Wait p) (set_job f None (set_pool (fetch_finish p sel old Code_Ok (ps_pool s)) s)))" (is "pool_inv ?s")
proof -
  have f: "f < n_of s" using job_frame[OF inv j] .
  have ch: "chosen_ok f sel p old (fr_at s f)" using job_is[OF inv j] by simp
  note C = chosen_facts[OF inv f ch] and I = pool_invD[OF inv] and D = frame_invD[OF inv f]
  have po: "from_free_list sel \<or> old \<noteq> p" using ch by (auto simp: chosen_ok_def)
  define b1 where "b1 = (if from_free_list sel then ps_pool s
    else (let bp = ps_pool s\<lparr>page_table := (page_table (ps_pool s))(old := None)\<rparr> in if old \<noteq> INVALID_PAGE_ID then note_eviction old bp else bp))"
  have B: "pool_size b1 = n_of s" "frames b1 = frames (ps_pool s)" "disk_manager b1 = dk s" "free_frames b1 = free_frames (ps_pool s)"
    "free_frame_set b1 = free_frame_set (ps_pool s)" "delete_pending_pages b1 = delete_pending_pages (ps_pool s)"
    "pool_replacer b1 = pool_replacer (ps_pool s)" "frame_at b1 = frame_at (ps_pool s)"
    "page_table b1 q = (if \<not> from_free_list sel \<and> q = old then None else page_table (ps_pool s) q)" for q
    by (auto simp: b1_def Let_def frame_at_def)
  have R: "rep_ok (n_of s) (idle s) (pool_replacer (install_page f p b1))" using I(10) B by (simp add: rep_inv_idle install_page_def)
  obtain r where r: "enter_replacer f (install_page f p b1) = (install_page f p b1)\<lparr>pool_replacer := r\<rparr>" "rep_ok (n_of s) (idle s) r"
    using enter_replacer_eq[OF R f C(4)] by blast
  have e: "fetch_finish p sel old Code_Ok (ps_pool s) = (install_page f p b1)\<lparr>pool_replacer := r\<rparr>"
    using r(1) C(3) by (simp add: fetch_finish_def Let_def b1_def)
  have st: "fr_at ?s f = (fr_at s f)\<lparr>frame_page_id := p, pin_count := 1, is_dirty := False, page_lsn := kInvalidLsn, frame_state := FS_Valid\<rparr>"
    using f I(2) B by (simp add: e install_page_def)
  have sv: "st_at ?s f = FS_Valid" "pg_at ?s f = p" "n_of ?s = n_of s" "ps_job ?s f = None"
    unfolding st by (simp_all add: e install_page_def B)
  have O': "owns ?s f q \<longleftrightarrow> q = p" "contains ?s f q \<longleftrightarrow> q = p" for q
    unfolding owns_def contains_def occupied_def sv using f by auto
  have oq: "owns s f q \<longleftrightarrow> (\<not> from_free_list sel \<and> q = old) \<or> q = p" for q using C(7,8) j by (auto simp: owns_def)
  have nc: "\<not> contains s f q" for q using j by (simp add: contains_def)
  have bytes: "frame_page (fr_at s f) = dp s p" using D(5) j by (simp add: bytes_ok_def)
  show ?thesis
  proof (rule pool_inv_table[OF inv f])
    show "frame_inv ?s f"
      unfolding frame_inv_def Let_def st using C(1) D(5) bytes map_disk[OF inv, of p] oq[of p] nc
      by (auto simp: bytes_ok_def e install_page_def B)
    show "free_inv ?s" using free_same[OF I(9), of ?s f] C(5) B st f by (simp add: e install_page_def)
    show "rep_inv ?s" using idle_update[of ?s s f] f C(4) r(2) B st by (simp add: rep_inv_idle e install_page_def)
    show "contains ?s f q \<or> dp s q = c" if "owns s f q \<or> owns ?s f q" "ps_map s q = Some c" for q c
      using that oq[of q] O'[of q] nc map_disk[OF inv that(2)] by auto
    show "page_table (ps_pool ?s) q =
        (if owns ?s f q then Some f else if page_table (ps_pool s) q = Some f then None else page_table (ps_pool s) q)" for q
      using O'(1)[of q] oq[of q] I(6)[of q f] po by (auto simp: e install_page_def B)
    show "owns ?s f q \<Longrightarrow> owns s f q \<or> page_table (ps_pool s) q = None \<and> q \<in> al_of s \<and> (\<forall>g. g \<noteq> f \<longrightarrow> new_page (ps_job s g) \<noteq> Some q)" for q
      using O' oq[of q] by simp
  qed (use B f I(2) in \<open>auto simp: e install_page_def\<close>)
qed

subsection \<open>New pages\<close>

text \<open>A stage that changes nothing but locks, log and statistics.\<close>

lemma pool_inv_new_stage:
  assumes inv: "pool_inv s" and j: "ps_job s f = Some (JNew tp sel old st)" and bp: "core_same (ps_pool s) bp"
    and st: "stage_page st' = stage_page st" "stage_written st' \<longrightarrow> stage_written st" "tp = None \<longrightarrow> (\<forall>p. st' \<noteq> N_LockWait p)"
  shows "pool_inv (set_job f (Some (JNew tp sel old st')) (set_pool bp s))"
proof -
  have f: "f < n_of s" using job_frame[OF inv j] .
  have ch: "chosen_ok f sel INVALID_PAGE_ID old (fr_at s f)" using job_is[OF inv j] by simp
  note C = chosen_facts[OF inv f ch] and I = pool_invD[OF inv] and D = frame_invD[OF inv f]
  let ?s = "set_job f (Some (JNew tp sel old st')) s"
  have nl: "\<not> loaded (ps_job s f)" using j by simp
  have "pool_inv ?s"
  proof (rule pool_inv_local[OF inv f])
    show "frame_inv ?s f" using D ch j st by (auto simp: frame_inv_def Let_def bytes_ok_def)
    show "rep_inv ?s" using I(10) by (simp add: rep_inv_def)
    show "length x = page_size \<and> (contains ?s f q \<or> dp ?s q = x)" if "owns s f q" "ps_map ?s q = Some x" for q x
      using that I(11) j by (auto simp: map_inv_def contains_def owns_def occupied_def)
  qed (use I(1,2) j st in \<open>auto simp: owns_def occupied_def\<close>)
  from pool_inv_set[OF this, of bp] bp show ?thesis by (simp add: swap_job_pool)
qed

text \<open>The allocated page is given back to the disk.\<close>

lemma pool_inv_new_drop:
  assumes inv: "pool_inv s" and j: "ps_job s f = Some (JNew tp sel old st)" and p: "stage_page st = Some p"
    and d: "DeallocatePage p (dk s) = (dm, c)" and bp: "core_same (ps_pool s\<lparr>disk_manager := dm\<rparr>) bp"
    and st': "stage_page st' = None" "\<not> stage_written st'"
  shows "c = Code_Ok \<and> pool_inv (set_job f (Some (JNew tp sel old st')) (set_pool bp s))"
proof -
  have f: "f < n_of s" using job_frame[OF inv j] .
  have ch: "chosen_ok f sel INVALID_PAGE_ID old (fr_at s f)" using job_is[OF inv j] by simp
  note C = chosen_facts[OF inv f ch] and I = pool_invD[OF inv] and D = frame_invD[OF inv f]
  have np: "new_page (ps_job s f) = Some p" using j p by simp
  have N: "p \<in> al_of s" "page_table (ps_pool s) p = None" "ps_map s p = None" "p \<notin> delete_pending_pages (ps_pool s)"
    "\<And>g. new_page (ps_job s g) = Some p \<Longrightarrow> g = f" using I(12) np unfolding new_inv_def by blast+
  have N': "new_page (ps_job s g) = Some q \<Longrightarrow> page_table (ps_pool s) q = None \<and> q \<notin> delete_pending_pages (ps_pool s)" for g q
    using I(12) by (auto simp: new_inv_def)
  have D1: "c = Code_Ok" "disk_ok dm" "allocated dm = al_of s - {p}" "\<forall>q \<in> al_of s - {p}. disk_page dm q = dp s q"
    using disk.fr_page[OF I(1) N(1)] d by auto
  let ?b = "ps_pool s\<lparr>disk_manager := dm\<rparr>"
  let ?s = "set_job f (Some (JNew tp sel old st')) (set_pool ?b s)"
  have same: "fr_at ?s = fr_at s" by (simp add: frame_at_def fun_eq_iff)
  have oc: "owns ?s f q = owns s f q" "contains ?s f q = contains s f q" for q
    using j by (simp_all add: owns_def contains_def occupied_def)
  have oc': "owns s f q \<Longrightarrow> contains s f q" for q using j by (simp add: owns_def contains_def)
  have qp: "owns s f q \<Longrightarrow> q \<noteq> p" for q using N(2) I(6)[of q f] by auto
  have "pool_inv ?s"
  proof (rule pool_inv_update[OF inv f])
    show "page_table (ps_pool ?s) q =
        (if owns ?s f q then Some f else if page_table (ps_pool s) q = Some f then None else page_table (ps_pool s) q)" for q
      using oc(1)[of q] I(6)[of q f] by auto
    show "(page_table (ps_pool s) q = None \<or> page_table (ps_pool s) q = Some f) \<and> q \<in> al_of ?s \<and>
        (\<forall>g. g \<noteq> f \<longrightarrow> new_page (ps_job s g) \<noteq> Some q)" if "owns ?s f q" for q
    proof -
      have o: "owns s f q" using that oc(1) by blast
      show ?thesis using owns_facts(2,3)[OF inv o] owns_facts(7)[OF inv o] qp[OF o] D1(3) by simp
    qed
    show "(page_table (ps_pool s) q = None \<or> page_table (ps_pool s) q = Some f) \<and> ps_map ?s q = None \<and>
        q \<notin> delete_pending_pages (ps_pool ?s) \<and> (\<forall>g. g \<noteq> f \<longrightarrow> new_page (ps_job s g) \<noteq> Some q)"
      if "q \<in> al_of s" "q \<notin> al_of ?s" for q using that D1(3) N by auto
    show "q \<in> al_of ?s \<and> (\<forall>g. g \<noteq> f \<longrightarrow> new_page (ps_job s g) \<noteq> Some q)" if "q \<in> delete_pending_pages (ps_pool ?s)" for q
      using that I(8) D1(3) N(4) N'[of _ q] by auto
    show "ps_map ?s q = ps_map s q \<and> dp ?s q = dp s q \<or> page_table (ps_pool s) q = None \<and> ps_map ?s q = None" if "q \<in> al_of s" for q
      using that D1(4) N(2,3) by auto
    have "disk_page dm old = dp s old" if "\<not> from_free_list sel" using C(8)[OF that] qp D1(4) by auto
    then show "frame_inv ?s f"
      using D ch j st' C(7,8) by (auto simp: frame_inv_def Let_def bytes_ok_def occupied_def chosen_ok_def split: if_splits)
    show "q \<in> al_of ?s \<and> length x = page_size \<and> (contains ?s f q \<or> dp ?s q = x)"
      if "page_table (ps_pool s) q = Some f \<or> owns ?s f q \<or> q \<notin> al_of s" "ps_map ?s q = Some x" for q x
    proof -
      have m: "q \<in> al_of s" "length x = page_size" using that(2) I(11) by (auto simp: map_inv_def)
      then have "owns s f q" using that(1) oc(1)[of q] I(6)[of q f] by auto
      then show ?thesis using m oc(2)[of q] oc'[of q] qp[of q] D1(3) by auto
    qed
    show "free_inv ?s" using free_same[OF I(9), of ?s f] by simp
    show "rep_inv ?s" using I(10) by (simp add: rep_inv_def)
  qed (use I(2) D1 st' j in auto)
  from pool_inv_set[OF this, of bp] bp D1(1) show ?thesis by (simp add: swap_job_pool)
qed

lemma pool_inv_new_evict:
  assumes inv: "pool_inv s" and j: "ps_job s f = Some (JNew tp sel old N_Start)" and e: "evict_io h sel old (ps_pool s) = Some (bp, c)"
  shows "pool_inv (set_job f (Some (JNew tp sel old (N_Evicted c))) (set_pool bp s))" (is "pool_inv ?s")
proof -
  have f: "f < n_of s" using job_frame[OF inv j] .
  have ch: "chosen_ok f sel INVALID_PAGE_ID old (fr_at s f)" using job_is[OF inv j] by simp
  note C = chosen_facts[OF inv f ch] and I = pool_invD[OF inv] and D = frame_invD[OF inv f]
  from evict_io_cases[OF inv f C(3) _ e] C(8) obtain lm dm l where
    bp: "bp = upd_frame f (\<lambda>fr. fr\<lparr>page_lsn := l\<rparr>) (ps_pool s\<lparr>log_manager := lm, disk_manager := dm\<rparr>)" and d: "disk_ok dm" "allocated dm = al_of s"
    and E: "\<forall>q \<in> al_of s. q \<noteq> old \<or> from_free_list sel \<or> \<not> is_dirty (fr_at s f) \<longrightarrow> disk_page dm q = dp s q"
      "c = Code_Ok \<and> \<not> from_free_list sel \<and> is_dirty (fr_at s f) \<longrightarrow> disk_page dm old = frame_page (fr_at s f)" "c \<noteq> Code_Ok \<longrightarrow> dm = dk s"
    by blast
  have L: "length (frames (ps_pool s)) = n_of s" using I(2) .
  have st: "fr_at ?s f = (fr_at s f)\<lparr>page_lsn := l\<rparr>" using L f by (simp add: bp)
  have oc: "owns ?s f q = owns s f q" "contains ?s f q = contains s f q" for q
    using j L f by (simp_all add: owns_def contains_def occupied_def bp)
  have oc': "owns s f q \<Longrightarrow> contains s f q" for q using j by (simp add: owns_def contains_def)
  have oldc: "disk_page dm old = x" if "c = Code_Ok" "\<not> from_free_list sel" "ps_map s old = Some x" for x
  proof (cases "is_dirty (fr_at s f)")
    case True
    then have "disk_page dm old = frame_page (fr_at s f)" using E(2) that by auto
    also have "\<dots> = x" using D(5) that C(8) j by (auto simp: bytes_ok_def occupied_def)
    finally show ?thesis .
  next
    case False
    then show ?thesis using D(5) that C(1,8) E(1) by (auto simp: bytes_ok_def occupied_def)
  qed
  show ?thesis
  proof (rule pool_inv_local[OF inv f])
    show "frame_inv ?s f"
      unfolding frame_inv_def Let_def st using D(2,5,6) ch C(1,8) oldc E j L f
      by (auto simp: bytes_ok_def chosen_ok_def bp split: if_splits)
    show "dp ?s q = dp s q" if "q \<in> al_of s" "\<not> owns s f q" for q using E(1) that C(8) by (auto simp: bp)
    show "rep_inv ?s" using I(10) idle_update[of ?s s f] f L C(4) C(2) by (simp add: rep_inv_idle bp)
    show "length x = page_size \<and> (contains ?s f q \<or> dp ?s q = x)" if "owns s f q" "ps_map ?s q = Some x" for q x
      using that I(11) oc'[of q] oc(2)[of q] by (auto simp: map_inv_def)
  qed (use d L f j oc in \<open>simp_all add: bp\<close>)
qed

lemma pool_inv_new_allocate:
  assumes inv: "pool_inv s" and j: "ps_job s f = Some (JNew tp sel old (N_Evicted c))" and a: "new_allocate sel (ps_pool s, c) = (bp, r)"
  shows "pool_inv (set_job f (Some (JNew tp sel old (N_Allocated r))) (set_pool bp s))" (is "pool_inv ?s")
proof -
  have f: "f < n_of s" using job_frame[OF inv j] .
  have ch: "chosen_ok f sel INVALID_PAGE_ID old (fr_at s f)" using job_is[OF inv j] by simp
  note C = chosen_facts[OF inv f ch] and I = pool_invD[OF inv] and D = frame_invD[OF inv f]
  have L: "length (frames (ps_pool s)) = n_of s" using I(2) .
  have N': "new_page (ps_job s g) = Some q \<Longrightarrow> q \<in> al_of s" for g q using I(12) by (auto simp: new_inv_def)
  have oc': "owns s f q \<Longrightarrow> contains s f q" for q using j by (simp add: owns_def contains_def)
  show ?thesis
  proof (cases r)
    case (Inl err)
    obtain dm where dm: "disk_ok dm" "allocated dm = al_of s" "disk_page dm = dp s"
      "bp = (if from_free_list sel then upd_frame f (\<lambda>fr. fr\<lparr>frame_page := empty_page\<rparr>) (ps_pool s\<lparr>disk_manager := dm\<rparr>) else ps_pool s\<lparr>disk_manager := dm\<rparr>)"
    proof (cases "c = Code_Ok")
      case True
      obtain dm r' where al: "AllocatePage (dk s) = (dm, r')" by fastforce
      with a True Inl have "r' = Inl err" by (auto simp: new_allocate_def Let_def split: sum.splits)
      with al a True Inl disk.al_fail[OF I(1), of dm err] that[of dm] C(3) show ?thesis
        by (auto simp: new_allocate_def Let_def)
    next
      case False
      then show ?thesis using a that[of "dk s"] I(1) C(3) by (auto simp: new_allocate_def Let_def)
    qed
    have st: "fr_at ?s f = (if from_free_list sel then (fr_at s f)\<lparr>frame_page := empty_page\<rparr> else fr_at s f)" using L f by (simp add: dm(4))
    have oc: "owns ?s f q = owns s f q" "contains ?s f q = contains s f q" for q
      using j L f by (simp_all add: owns_def contains_def occupied_def dm(4))
    show ?thesis
    proof (rule pool_inv_local[OF inv f])
      show "frame_inv ?s f"
        unfolding frame_inv_def Let_def st using D(2,5,6) ch C(1) j L f dm(3) Inl
        by (auto simp: bytes_ok_def chosen_ok_def dm(4) split: if_splits)
      show "rep_inv ?s" using I(10) idle_update[of ?s s f] f L C(4) C(2) st by (simp add: rep_inv_idle dm(4))
      show "length x = page_size \<and> (contains ?s f q \<or> dp ?s q = x)" if "owns s f q" "ps_map ?s q = Some x" for q x
        using that I(11) oc'[of q] oc(2)[of q] by (auto simp: map_inv_def)
    qed (use dm(1-3) Inl L f j oc in \<open>simp_all add: dm(4)\<close>)
  next
    case (Inr p)
    obtain dm where al: "AllocatePage (dk s) = (dm, Inr p)" and bp: "bp = ps_pool s\<lparr>disk_manager := dm\<rparr>" and c: "c = Code_Ok"
      using a Inr by (auto simp: new_allocate_def Let_def split: if_splits prod.splits sum.splits)
    have A: "disk_ok dm" "p \<notin> al_of s" "allocated dm = insert p (al_of s)" "\<forall>q \<in> al_of s. disk_page dm q = dp s q"
      using disk.al_page[OF I(1) al] by auto
    have N: "page_table (ps_pool s) p = None" "ps_map s p = None" "p \<notin> delete_pending_pages (ps_pool s)"
      using A(2) I(7)[of p] I(8) I(11) by (cases "page_table (ps_pool s) p", auto simp: map_inv_def)
        (cases "ps_map s p", auto)
    have same: "fr_at ?s = fr_at s" by (simp add: frame_at_def fun_eq_iff bp)
    have oc: "owns ?s f q = owns s f q" "contains ?s f q = contains s f q" for q
      using j by (simp_all add: owns_def contains_def occupied_def bp)
    have al_o: "owns s f q \<Longrightarrow> q \<in> al_of s" for q using owns_facts(3)[OF inv] by blast
    show ?thesis
    proof (rule pool_inv_update[OF inv f])
      show "page_table (ps_pool ?s) q =
          (if owns ?s f q then Some f else if page_table (ps_pool s) q = Some f then None else page_table (ps_pool s) q)" for q
        using oc(1)[of q] I(6)[of q f] by (auto simp: bp)
      show "(page_table (ps_pool s) q = None \<or> page_table (ps_pool s) q = Some f) \<and> q \<in> al_of ?s \<and>
          (\<forall>g. g \<noteq> f \<longrightarrow> new_page (ps_job s g) \<noteq> Some q)" if "owns ?s f q" for q
      proof -
        have o: "owns s f q" using that oc(1) by blast
        show ?thesis using owns_facts(2,3)[OF inv o] owns_facts(7)[OF inv o] A(3) by (simp add: bp)
      qed
      show "q \<in> al_of ?s \<and> (\<forall>g. g \<noteq> f \<longrightarrow> new_page (ps_job s g) \<noteq> Some q)" if "q \<in> delete_pending_pages (ps_pool ?s)" for q
        using that I(8) A(3) I(12) by (auto simp: new_inv_def bp)
      show "ps_map ?s q = ps_map s q \<and> dp ?s q = dp s q \<or> page_table (ps_pool s) q = None \<and> ps_map ?s q = None" if "q \<in> al_of s" for q
        using that A(4) by (simp add: bp)
      have dold: "disk_page dm old = dp s old" if "\<not> from_free_list sel" using C(8)[OF that] A(4) by auto
      have "bytes_ok (fr_at s f) (ps_hold s f) (ps_job ?s f) (ps_map s) (disk_page dm)"
        using D(5) ch j dold c by (auto simp: bytes_ok_def chosen_ok_def split: if_splits)
      then show "frame_inv ?s f"
        using D(2,6) C(1) ch unfolding frame_inv_def Let_def same by (simp add: bp Inr)
      show "q \<in> al_of ?s \<and> length x = page_size \<and> (contains ?s f q \<or> dp ?s q = x)"
        if "page_table (ps_pool s) q = Some f \<or> owns ?s f q \<or> q \<notin> al_of s" "ps_map ?s q = Some x" for q x
      proof -
        have m: "q \<in> al_of s" "length x = page_size" using that(2) I(11) by (auto simp: map_inv_def)
        then have "owns s f q" using that(1) oc(1)[of q] I(6)[of q f] by auto
        then show ?thesis using m oc(2)[of q] oc'[of q] A(3) by (simp add: bp)
      qed
      show "q \<in> al_of ?s \<and> page_table (ps_pool ?s) q = None \<and> ps_map ?s q = None \<and> q \<notin> delete_pending_pages (ps_pool ?s) \<and>
          (\<forall>g. g \<noteq> f \<longrightarrow> new_page (ps_job s g) \<noteq> Some q)" if "new_page (ps_job ?s f) = Some q" for q
        using that A(2,3) N N'[of _ q] by (auto simp: Inr bp)
      show "free_inv ?s" using free_same[OF I(9), of ?s f] by (simp add: bp)
      show "rep_inv ?s" using I(10) same by (simp add: rep_inv_def bp)
    qed (use I(2) A(1,3) j in \<open>auto simp: bp\<close>)
  qed
qed

lemma acquire_lock: "AcquirePageLock page tp mode bp = (bp', res) \<Longrightarrow> \<exists>lm. bp' = bp\<lparr>lock_manager := lm\<rparr>"
  by (auto simp: AcquirePageLock_def split: option.splits if_splits prod.splits intro: exI[of _ "lock_manager bp"])

lemma append_core: "append_for t r bp = (bp', res) \<Longrightarrow> \<exists>lm locks. bp' = bp\<lparr>log_manager := lm, lock_manager := locks\<rparr>"
proof -
  assume a: "append_for t r bp = (bp', res)"
  obtain lm x where x: "Append (r\<lparr>rec_txn := t, rec_prev := txn_chain t bp\<rparr>) (log_manager bp) = (lm, x)" by fastforce
  have "bp\<lparr>log_manager := lm\<rparr> = bp\<lparr>log_manager := lm, lock_manager := lock_manager bp\<rparr>" by simp
  with a x show ?thesis by (cases x) (auto simp: append_for_def upd_pool_txn_def)
qed

lemma core_same_two [simp]: "core_same bp (bp\<lparr>log_manager := lm, lock_manager := locks\<rparr>)"
  by (simp add: core_same_def)

lemma drop_core:
  assumes "drop_allocated p t c (bp\<lparr>log_manager := lm, lock_manager := locks\<rparr>) = (bp', r)"
  shows "\<exists>dm c'. DeallocatePage p (disk_manager bp) = (dm, c') \<and> core_same (bp\<lparr>disk_manager := dm\<rparr>) bp' \<and> (\<exists>e. r = Inl e)"
  using assms by (auto simp: drop_allocated_def core_same_def upd_pool_txn_def split: prod.splits)

lemma stage_written_drop [simp]: "\<not> stage_written (N_Locked (Inl e))" "\<not> stage_written (N_Logged (Inl e))" "\<not> stage_written (N_Allocated (Inl e))"
  "stage_page (N_Locked (Inl e)) = None" "stage_page (N_Logged (Inl e)) = None" "stage_page (N_Allocated (Inl e)) = None"
  by simp_all

lemma pool_inv_new_lock:
  assumes inv: "pool_inv s" and j: "ps_job s f = Some (JNew tp sel old (N_Allocated r))" and l: "new_lock tp (ps_pool s, r) = (bp, x)"
  shows "case x of
      None \<Rightarrow> (\<forall>p. r = Inr p \<longrightarrow> pool_inv (set_job f (Some (JNew tp sel old (N_LockWait p))) (set_pool bp s)))
    | Some r' \<Rightarrow> pool_inv (set_job f (Some (JNew tp sel old (N_Locked r'))) (set_pool bp s))"
proof (cases "\<exists>t p. tp = Some t \<and> r = Inr p")
  case False
  then have "x = Some r" "bp = ps_pool s" using l by (auto simp: new_lock_def split: option.splits sum.splits)
  moreover have "stage_page (N_Locked r) = stage_page (N_Allocated r)" "stage_written (N_Locked r) = stage_written (N_Allocated r)"
    by (cases r; simp)+
  ultimately show ?thesis using pool_inv_new_stage[OF inv j, of "ps_pool s" "N_Locked r"] by simp
next
  case True
  then obtain t p where t: "tp = Some t" "r = Inr p" by blast
  obtain b o' where a: "AcquirePageLock p tp L_X (ps_pool s) = (b, o')" by fastforce
  obtain lm where b: "b = ps_pool s\<lparr>lock_manager := lm\<rparr>" using acquire_lock[OF a] by blast
  show ?thesis
  proof (cases o')
    case Waiting
    then have "x = None" "bp = b" using l a t by (auto simp: new_lock_def)
    then show ?thesis using pool_inv_new_stage[OF inv j, of b "N_LockWait p"] t b by simp
  next
    case (Returned c)
    show ?thesis
    proof (cases "c = Code_Ok")
      case True
      then have "x = Some (Inr p)" "bp = b" using l a t Returned by (auto simp: new_lock_def)
      then show ?thesis using pool_inv_new_stage[OF inv j, of b "N_Locked (Inr p)"] t b by simp
    next
      case False
      then obtain r' where d: "drop_allocated p t c b = (bp, r')" "x = Some r'" using l a t Returned by (cases "drop_allocated p t c b") (auto simp: new_lock_def)
      have "b = ps_pool s\<lparr>log_manager := log_manager (ps_pool s), lock_manager := lm\<rparr>" using b by simp
      with d(1) drop_core[where bp = "ps_pool s"] obtain dm c' e where
        "DeallocatePage p (dk s) = (dm, c')" "core_same (ps_pool s\<lparr>disk_manager := dm\<rparr>) bp" "r' = Inl e" by blast
      then show ?thesis using pool_inv_new_drop[OF inv j, of p dm c' bp "N_Locked (Inl e)"] d(2) t by simp
    qed
  qed
qed

lemma pool_inv_new_refused:
  assumes inv: "pool_inv s" and j: "ps_job s f = Some (JNew (Some t) sel old (N_LockWait p))" and d: "drop_allocated p t c (ps_pool s) = (bp, r)"
  shows "pool_inv (set_job f (Some (JNew (Some t) sel old (N_Locked r))) (set_pool bp s))"
proof -
  have "ps_pool s = ps_pool s\<lparr>log_manager := log_manager (ps_pool s), lock_manager := lock_manager (ps_pool s)\<rparr>" by simp
  with d drop_core[where bp = "ps_pool s"] obtain dm c' e where
    "DeallocatePage p (dk s) = (dm, c')" "core_same (ps_pool s\<lparr>disk_manager := dm\<rparr>) bp" "r = Inl e" by metis
  then show ?thesis using pool_inv_new_drop[OF inv j, of p dm c' bp "N_Locked (Inl e)"] by simp
qed

lemma pool_inv_new_log:
  assumes inv: "pool_inv s" and j: "ps_job s f = Some (JNew tp sel old (N_Locked r))" and l: "new_log tp (ps_pool s, r) = (bp, r')"
  shows "pool_inv (set_job f (Some (JNew tp sel old (N_Logged r'))) (set_pool bp s))"
proof (cases "\<exists>t p. tp = Some t \<and> r = Inr p")
  case False
  then have "r' = r" "bp = ps_pool s" using l by (auto simp: new_log_def split: option.splits sum.splits)
  moreover have "stage_page (N_Logged r) = stage_page (N_Locked r)" "stage_written (N_Logged r) = stage_written (N_Locked r)"
    by (cases r; simp)+
  ultimately show ?thesis using pool_inv_new_stage[OF inv j, of "ps_pool s" "N_Logged r"] by simp
next
  case True
  then obtain t p where t: "tp = Some t" "r = Inr p" by blast
  show ?thesis
  proof (cases "log_manager_bound (ps_pool s)")
    case False
    obtain dm c' where d: "DeallocatePage p (dk s) = (dm, c')" by fastforce
    then have "bp = upd_pool_txn t MarkFailed (ps_pool s\<lparr>disk_manager := dm\<rparr>)" "r' = Inl InvalidArgument"
      using l t False by (auto simp: new_log_def)
    then show ?thesis using pool_inv_new_drop[OF inv j, of p dm c' bp "N_Logged r'"] d t by simp
  next
    case True
    obtain b x where a: "append_for t (page_record L_PageAllocate p) (ps_pool s) = (b, x)" by fastforce
    obtain lm locks where b: "b = ps_pool s\<lparr>log_manager := lm, lock_manager := locks\<rparr>" using append_core[OF a] by blast
    show ?thesis
    proof (cases x)
      case (Inl err)
      then have d: "drop_allocated p t err b = (bp, r')" using l t True a by (simp add: new_log_def)
      from drop_core[OF d[unfolded b]] obtain dm c' e where
        "DeallocatePage p (dk s) = (dm, c')" "core_same (ps_pool s\<lparr>disk_manager := dm\<rparr>) bp" "r' = Inl e" by blast
      then show ?thesis using pool_inv_new_drop[OF inv j, of p dm c' bp "N_Logged (Inl e)"] t by simp
    next
      case (Inr lsn)
      then have "bp = upd_pool_txn t (AddAllocatedPage p) b" "r' = Inr p" using l t True a by (auto simp: new_log_def)
      moreover have "core_same (ps_pool s) b" using b by simp
      ultimately show ?thesis
        using pool_inv_new_stage[OF inv j, of bp "N_Logged (Inr p)"] core_same_trans[OF _ core_same_fields(9)] t by simp
    qed
  qed
qed

lemma pool_inv_new_start:
  assumes inv: "pool_inv s" and e: "new_enter tp (ps_pool s) = (bp, r)"
  shows "case r of Inl e \<Rightarrow> pool_inv (set_pool bp s)
    | Inr (sel, old) \<Rightarrow> pool_inv (set_job (sel_frame sel) (Some (JNew tp sel old N_Start)) (set_pool bp s))"
proof -
  consider (err) "bp = ps_pool s" "\<exists>e. r = Inl e" | (sel) b x where "SelectFrameUnlocked (ps_pool s) = (b, x)"
      "(bp, r) = (case x of Inl err \<Rightarrow> (b, Inl err) | Inr sel \<Rightarrow>
         (if from_free_list sel then upd_frame (sel_frame sel) (\<lambda>fr. fr\<lparr>pin_count := 1\<rparr>) b else b,
          Inr (sel, frame_page_id (frame_at b (sel_frame sel)))))"
    using e by (cases "SelectFrameUnlocked (ps_pool s)") (auto simp: new_enter_def Let_def split: if_splits sum.splits)
  then show ?thesis
  proof cases
    case err
    then show ?thesis using inv by auto
  next
    case (sel b x)
    note I = pool_invD[OF inv]
    have L: "length (frames (ps_pool s)) = n_of s" using I(2) .
    from selection_cases[OF inv sel(1) core_same_refl] consider err where "x = Inl err" "core_same (ps_pool s) b"
      | f rest where "x = Inr \<lparr>sel_frame = f, from_free_list = True\<rparr>" "f < n_of s" "st_at s f = FS_Empty" "free_frames (ps_pool s) = f # rest"
          "b = upd_frame f (\<lambda>fr. fr\<lparr>frame_state := FS_Loading\<rparr>)
            (ps_pool s\<lparr>free_frames := rest, free_frame_set := free_frame_set (ps_pool s) - {f}\<rparr>)"
      | f pr where "x = Inr \<lparr>sel_frame = f, from_free_list = False\<rparr>" "f \<in> idle s" "rep_ok (n_of s) (idle s - {f}) pr"
          "b = upd_frame f (\<lambda>fr. fr\<lparr>frame_state := FS_Evicting, pin_count := pin_count fr + 1\<rparr>) (ps_pool s\<lparr>pool_replacer := pr\<rparr>)"
      by blast
    then show ?thesis
    proof cases
      case 1
      then show ?thesis using sel(2) pool_inv_set[OF inv] by auto
    next
      case (2 f rest)
      let ?sel = "\<lparr>sel_frame = f, from_free_list = True\<rparr>"
      note D = frame_invD[OF inv 2(2)]
      have bp: "bp = upd_frame f (\<lambda>fr. fr\<lparr>pin_count := 1\<rparr>) b" and r: "r = Inr (?sel, pg_at s f)"
        using sel(2) 2(1,5) L 2(2) by auto
      let ?s = "set_job f (Some (JNew tp ?sel (pg_at s f) N_Start)) (set_pool bp s)"
      have st: "fr_at ?s f = (fr_at s f)\<lparr>frame_state := FS_Loading, pin_count := 1\<rparr>" using L 2(2) by (simp add: bp 2(5))
      have J: "ps_job s f = None" using job_settled[OF D(1)] 2(3) by simp
      have O: "\<not> owns s f q" "\<not> owns ?s f q" for q using 2 J L by (auto simp: owns_def occupied_def bp)
      have "pool_inv ?s"
      proof (rule pool_inv_table[OF inv 2(2)])
        show "frame_inv ?s f" unfolding frame_inv_def Let_def st using D 2(3) L by (auto simp: chosen_ok_def bytes_ok_def)
        show "free_inv ?s" using free_take[OF I(9), of ?s f] 2(2,4) L by (simp add: bp 2(5))
        show "rep_inv ?s"
        proof -
          have "idle ?s = idle s" using idle_update[of ?s s f] 2(2,3) L by (auto simp: bp 2(5) idle_def)
          then show ?thesis using I(10) by (simp add: rep_inv_idle bp 2(5))
        qed
        show "page_table (ps_pool ?s) q =
            (if owns ?s f q then Some f else if page_table (ps_pool s) q = Some f then None else page_table (ps_pool s) q)" for q
          using O I(6)[of q f] by (simp add: bp 2(5))
      qed (use O L 2(2) in \<open>simp_all add: bp 2(5)\<close>)
      then show ?thesis by (simp add: r)
    next
      case (3 f pr)
      let ?sel = "\<lparr>sel_frame = f, from_free_list = False\<rparr>"
      have F: "f < n_of s" "st_at s f = FS_Valid" "pin_count (fr_at s f) = 0" using 3(2) by (auto simp: idle_def)
      note D = frame_invD[OF inv F(1)]
      have bp: "bp = b" and r: "r = Inr (?sel, pg_at s f)"
        using sel(2) 3(1,4) L F(1) by auto
      let ?s = "set_job f (Some (JNew tp ?sel (pg_at s f) N_Start)) (set_pool bp s)"
      have st: "fr_at ?s f = (fr_at s f)\<lparr>frame_state := FS_Evicting, pin_count := pin_count (fr_at s f) + 1\<rparr>" using L F(1) by (simp add: bp 3(4))
      have J: "ps_job s f = None" using job_settled[OF D(1)] F(2) by simp
      have O: "owns s f q \<longleftrightarrow> q = pg_at s f" "owns ?s f q \<longleftrightarrow> q = pg_at s f" "contains ?s f q \<longleftrightarrow> q = pg_at s f" for q
        using F J L by (auto simp: owns_def occupied_def contains_def bp 3(4))
      have ni: "pg_at s f \<noteq> INVALID_PAGE_ID" using owns_facts(4)[OF inv, of f "pg_at s f"] O by simp
      have "pool_inv ?s"
      proof (rule pool_inv_table[OF inv F(1)])
        show "frame_inv ?s f" unfolding frame_inv_def Let_def st using D F L J ni by (auto simp: chosen_ok_def bytes_ok_def bp 3(4))
        show "free_inv ?s" using free_same[OF I(9), of ?s f] F L by (simp add: bp 3(4))
        show "rep_inv ?s" using idle_update[of ?s s f] F(1) L 3(3) by (simp add: rep_inv_idle bp 3(4))
        show "page_table (ps_pool ?s) q =
            (if owns ?s f q then Some f else if page_table (ps_pool s) q = Some f then None else page_table (ps_pool s) q)" for q
          using O[of q] I(6)[of q f] by (auto simp: bp 3(4))
        show "contains ?s f q \<or> dp s q = c" if "owns s f q \<or> owns ?s f q" for q c
          using that O[of q] by blast
        show "owns ?s f q \<Longrightarrow> owns s f q \<or> page_table (ps_pool s) q = None \<and> q \<in> al_of s \<and> (\<forall>g. g \<noteq> f \<longrightarrow> new_page (ps_job s g) \<noteq> Some q)" for q
          using O[of q] by blast
      qed (use L F(1) in \<open>simp_all add: bp 3(4)\<close>)
      then show ?thesis by (simp add: r)
    qed
  qed
qed

lemma pool_inv_new_failed:
  assumes inv: "pool_inv s" and j: "ps_job s f = Some (JNew tp sel old (N_Logged (Inl e)))"
  shows "pool_inv (set_job f None (set_pool (new_finish sel old (Inl e) (ps_pool s)) s))"
proof -
  have f: "f < n_of s" using job_frame[OF inv j] .
  have ch: "chosen_ok f sel INVALID_PAGE_ID old (fr_at s f)" using job_is[OF inv j] by simp
  note I = pool_invD[OF inv] and D = frame_invD[OF inv f]
  show ?thesis
    unfolding new_finish_def Let_def sum.case using I(2) D(5)
    by (intro pool_inv_give_back[OF inv j ch, where b = "frame_page (fr_at s f)"]) (auto simp: bytes_ok_def)
qed

lemma pool_inv_new_done:
  assumes inv: "pool_inv s" and j: "ps_job s f = Some (JNew tp sel old (N_Logged (Inr p)))"
  shows "pool_inv (add_hold f (H_Wait p) (set_job f None (set_pool (new_finish sel old (Inr p) (ps_pool s)) s)))" (is "pool_inv ?s")
proof -
  have f: "f < n_of s" using job_frame[OF inv j] .
  have ch: "chosen_ok f sel INVALID_PAGE_ID old (fr_at s f)" using job_is[OF inv j] by simp
  note C = chosen_facts[OF inv f ch] and I = pool_invD[OF inv] and D = frame_invD[OF inv f]
  have np: "new_page (ps_job s f) = Some p" using j by simp
  have N: "p \<in> al_of s" "page_table (ps_pool s) p = None" "ps_map s p = None" "p \<notin> delete_pending_pages (ps_pool s)"
    "\<And>g. new_page (ps_job s g) = Some p \<Longrightarrow> g = f" using I(12) np unfolding new_inv_def by blast+
  have po: "from_free_list sel \<or> old \<noteq> p" using C(8) N(2) owns_facts(2)[OF inv, of f old] by auto
  define b1 where "b1 = (let bp = upd_frame f (\<lambda>fr. fr\<lparr>frame_page := empty_page\<rparr>) (ps_pool s) in
    if from_free_list sel then bp else note_eviction old (bp\<lparr>page_table := (page_table bp)(old := None)\<rparr>))"
  have B: "pool_size b1 = n_of s" "length (frames b1) = n_of s" "disk_manager b1 = dk s" "free_frames b1 = free_frames (ps_pool s)"
    "free_frame_set b1 = free_frame_set (ps_pool s)" "delete_pending_pages b1 = delete_pending_pages (ps_pool s)"
    "pool_replacer b1 = pool_replacer (ps_pool s)" "frame_at b1 f = (fr_at s f)\<lparr>frame_page := empty_page\<rparr>"
    "g \<noteq> f \<Longrightarrow> frame_at b1 g = fr_at s g"
    "page_table b1 q = (if \<not> from_free_list sel \<and> q = old then None else page_table (ps_pool s) q)" for q g
    using f I(2) by (auto simp: b1_def Let_def)
  let ?b2 = "install_page f p b1" let ?b3 = "?b2\<lparr>page_table := (page_table ?b2)(p \<mapsto> f)\<rparr>"
  have R: "rep_ok (n_of s) (idle s) (pool_replacer ?b3)" using I(10) B by (simp add: rep_inv_idle install_page_def)
  obtain r where r: "enter_replacer f ?b3 = ?b3\<lparr>pool_replacer := r\<rparr>" "rep_ok (n_of s) (idle s) r"
    using enter_replacer_eq[OF R f C(4)] by blast
  have e: "new_finish sel old (Inr p) (ps_pool s) = ?b3\<lparr>pool_replacer := r\<rparr>"
    using r(1) C(3) by (simp add: new_finish_def Let_def b1_def)
  have st: "fr_at ?s f = (fr_at s f)\<lparr>frame_page := empty_page, frame_page_id := p, pin_count := 1, is_dirty := False,
      page_lsn := kInvalidLsn, frame_state := FS_Valid\<rparr>"
    using f B by (simp add: e install_page_def)
  have sv: "st_at ?s f = FS_Valid" "pg_at ?s f = p" "n_of ?s = n_of s" "ps_job ?s f = None"
    unfolding st by (simp_all add: e install_page_def B)
  have O': "owns ?s f q \<longleftrightarrow> q = p" "contains ?s f q \<longleftrightarrow> q = p" for q
    unfolding owns_def contains_def occupied_def sv using f by auto
  have oq: "owns s f q \<longleftrightarrow> (\<not> from_free_list sel \<and> q = old)" for q using C(7,8) j by (auto simp: owns_def)
  have oldc: "dp s old = c" if "\<not> from_free_list sel" "ps_map s old = Some c" for c
    using D(5) C(8) that j by (auto simp: bytes_ok_def occupied_def)
  show ?thesis
  proof (rule pool_inv_table[OF inv f])
    show "frame_inv ?s f" unfolding frame_inv_def Let_def st using C(1) N(3) by (simp add: bytes_ok_def)
    show "free_inv ?s" using free_same[OF I(9), of ?s f] C(5) B st f by (simp add: e install_page_def)
    show "rep_inv ?s" using idle_update[of ?s s f] f C(4) r(2) B st by (simp add: rep_inv_idle e install_page_def)
    show "contains ?s f q \<or> dp s q = c" if "owns s f q \<or> owns ?s f q" "ps_map s q = Some c" for q c
      using that oq[of q] O'[of q] oldc by auto
    show "page_table (ps_pool ?s) q =
        (if owns ?s f q then Some f else if page_table (ps_pool s) q = Some f then None else page_table (ps_pool s) q)" for q
      using O'(1)[of q] oq[of q] I(6)[of q f] po by (auto simp: e install_page_def B)
    show "owns ?s f q \<Longrightarrow> owns s f q \<or> page_table (ps_pool s) q = None \<and> q \<in> al_of s \<and> (\<forall>g. g \<noteq> f \<longrightarrow> new_page (ps_job s g) \<noteq> Some q)" for q
      using O'(1)[of q] N by auto
  qed (use B f in \<open>auto simp: e install_page_def\<close>)
qed

subsection \<open>Holders\<close>

lemma split_twice:
  assumes "xs @ h' # ys = us @ H_Write g x # vs" "\<not> is_write h'"
  obtains us' vs' where "xs @ h # ys = us' @ H_Write g x # vs'"
    "\<And>Q. Q h' = Q h \<Longrightarrow> list_ex Q (us' @ vs') = list_ex Q (us @ vs)" "\<And>Q. \<not> Q h' \<Longrightarrow> list_ex Q (us @ vs) \<Longrightarrow> list_ex Q (us' @ vs')"
proof -
  from assms consider zs where "us = xs @ h' # zs" "ys = zs @ H_Write g x # vs"
    | zs where "xs = us @ H_Write g x # zs" "vs = zs @ h' # ys"
    by (auto simp: append_eq_append_conv2 Cons_eq_append_conv append_eq_Cons_conv)
  then show ?thesis
  proof cases
    case (1 zs)
    then show ?thesis using that[of "xs @ h # zs" vs] by auto
  next
    case (2 zs)
    then show ?thesis using that[of us "zs @ h # ys"] by auto
  qed
qed

lemma writers_ok_other:
  assumes "writers_ok d (xs @ h # ys) b" "\<not> is_write h'" "\<not> is_read h'" "dirty_hold h' = dirty_hold h"
  shows "writers_ok d (xs @ h' # ys) b"
  unfolding writers_ok_def
proof (intro allI impI)
  fix us g x vs assume a: "xs @ h' # ys = us @ H_Write g x # vs"
  obtain us' vs' where s: "xs @ h # ys = us' @ H_Write g x # vs'"
    "\<And>Q. Q h' = Q h \<Longrightarrow> list_ex Q (us' @ vs') = list_ex Q (us @ vs)" "\<And>Q. \<not> Q h' \<Longrightarrow> list_ex Q (us @ vs) \<Longrightarrow> list_ex Q (us' @ vs')"
    using split_twice[OF a assms(2)] by metis
  show "\<not> list_ex is_write (us @ vs) \<and> \<not> list_ex is_read (us @ vs) \<and>
      (\<forall>c. x = Some c \<and> \<not> d \<and> \<not> list_ex dirty_hold (us @ vs) \<longrightarrow> b = c)"
    using assms(1)[unfolded writers_ok_def, rule_format, OF s(1)] s(2)[of dirty_hold] s(3)[of is_write] s(3)[of is_read] assms(2-4) by blast
qed

lemma writers_ok_none: "\<not> list_ex is_write hs \<Longrightarrow> writers_ok d hs b"
  by (auto simp: writers_ok_def)

lemma one_writer:
  assumes "\<not> list_ex is_write (xs @ ys)" "xs @ H_Write g x # ys = us @ H_Write g' x' # vs"
  shows "us = xs \<and> vs = ys \<and> g' = g \<and> x' = x"
  using assms by (auto simp: append_eq_append_conv2 Cons_eq_append_conv append_eq_Cons_conv)

lemma writers_ok_one:
  assumes "\<not> list_ex is_write (xs @ ys)" "\<not> list_ex is_read (xs @ ys)"
    "\<And>c. x = Some c \<Longrightarrow> \<not> d \<Longrightarrow> \<not> list_ex dirty_hold (xs @ ys) \<Longrightarrow> b = c"
  shows "writers_ok d (xs @ H_Write g x # ys) b"
  unfolding writers_ok_def
proof (intro allI impI)
  fix us g' x' vs assume "xs @ H_Write g x # ys = us @ H_Write g' x' # vs"
  from one_writer[OF assms(1) this] show "\<not> list_ex is_write (us @ vs) \<and> \<not> list_ex is_read (us @ vs) \<and>
      (\<forall>c. x' = Some c \<and> \<not> d \<and> \<not> list_ex dirty_hold (us @ vs) \<longrightarrow> b = c)" using assms by auto
qed

lemma writers_okD:
  assumes "writers_ok d (xs @ H_Write g x # ys) b"
  shows "\<not> list_ex is_write (xs @ ys)" "\<not> list_ex is_read (xs @ ys)"
    "x = Some c \<Longrightarrow> \<not> d \<Longrightarrow> \<not> list_ex dirty_hold (xs @ ys) \<Longrightarrow> b = c"
  using assms unfolding writers_ok_def by blast+

lemma job_held:
  assumes "job_ok f fr hs j" "hs \<noteq> []" "frame_state fr \<in> {FS_Valid, FS_DeletePending, FS_Flushing}"
  shows "j = None \<or> j = Some (JDrain (frame_page_id fr)) \<and> frame_state fr = FS_Flushing"
  using assms by (cases "(f, fr, hs, j)" rule: job_ok.cases) (auto simp: chosen_ok_def split: if_splits)

text \<open>A holder goes on, and perhaps changes the page.\<close>

lemma pool_inv_hold:
  assumes inv: "pool_inv s" and h: "ps_hold s f = xs @ h # ys" and h': "hold_page h' = hold_page h" "hold_ok f h'"
    and core: "core_same (upd_frame f (\<lambda>fr. fr\<lparr>frame_page := b, page_lsn := l\<rparr>) (ps_pool s)) (ps_pool s')" and b: "length b = page_size"
    and same: "ps_job s' = ps_job s" "ps_hold s' = (ps_hold s)(f := xs @ h' # ys)" "\<And>q. q \<noteq> pg_at s f \<Longrightarrow> ps_map s' q = ps_map s q"
    and here: "\<And>c. ps_map s' (pg_at s f) = Some c \<Longrightarrow> b = c \<and>
      (\<not> is_dirty (fr_at s f) \<and> \<not> list_ex dirty_hold (xs @ h' # ys) \<longrightarrow> dp s (pg_at s f) = c)"
    and wr: "writers_ok (is_dirty (fr_at s f)) (xs @ h' # ys) (dp s (pg_at s f))"
  shows "pool_inv s'"
proof -
  have hm: "h \<in> set (ps_hold s f)" using h by simp
  note H = hold_in_use[OF inv hm]
  note I = pool_invD[OF inv] and D = frame_invD[OF inv H(1)]
  have L: "length (frames (ps_pool s)) = n_of s" using I(2) .
  let ?b = "upd_frame f (\<lambda>fr. fr\<lparr>frame_page := b, page_lsn := l\<rparr>) (ps_pool s)"
  let ?s = "s'\<lparr>ps_pool := ?b\<rparr>"
  have st: "fr_at ?s f = (fr_at s f)\<lparr>frame_page := b, page_lsn := l\<rparr>" using L H(1) by simp
  have J: "ps_job s f = None \<or> ps_job s f = Some (JDrain (pg_at s f)) \<and> st_at s f = FS_Flushing"
    using job_held[OF D(1)] h H(2) by auto
  then have nj: "\<not> loaded (ps_job s f)" "\<not> written (ps_job s f)" "loading_page (ps_job s f) = None" by auto
  have oc: "owns ?s f q = owns s f q" "contains ?s f q = contains s f q" for q
    using L H(1) same(1) by (simp_all add: owns_def contains_def occupied_def)
  have "pool_inv ?s"
  proof (rule pool_inv_local[OF inv H(1)])
    have "job_ok f (fr_at ?s f) (xs @ h' # ys) (ps_job s f)" using J D(1) unfolding st by auto
    moreover have "pins_ok (fr_at ?s f) (xs @ h' # ys) (st_at s f)" using D(2) h unfolding st by (cases "st_at s f") auto
    moreover have "\<forall>k \<in> set (xs @ h' # ys). hold_page k = pg_at s f \<and> hold_ok f k" using D(3,4) h h' H(4) by auto
    moreover have "bytes_ok (fr_at ?s f) (xs @ h' # ys) (ps_job s f) (ps_map s') (dp s)" unfolding st using b here nj
      by (auto simp: bytes_ok_def)
    ultimately show "frame_inv ?s f" unfolding frame_inv_def Let_def st using same D(6) wr by simp
    show "rep_inv ?s" using I(10) idle_update[of ?s s f] L H(1,7) D(2) H(3) by (simp add: rep_inv_idle)
    show "length c = page_size \<and> (contains ?s f q \<or> dp ?s q = c)" if q: "owns s f q" and c: "ps_map ?s q = Some c" for q c
    proof -
      have "q = pg_at s f" using q nj(3) by (auto simp: owns_def)
      then show ?thesis using here[of c] c b oc(2)[of q] H(5) by simp
    qed
    show "ps_map ?s q = ps_map s q" if "\<not> owns s f q" for q using that same(3)[of q] H(6) by auto
  qed (use I(1) same(1,2) oc L H(1) in simp_all)
  then show ?thesis by (rule pool_inv_core) (use core in simp_all)
qed

text \<open>What a held page says of the map.\<close>

lemma held_map:
  assumes inv: "pool_inv s" and h: "h \<in> set (ps_hold s f)" and m: "ps_map s (pg_at s f) = Some c"
  shows "frame_page (fr_at s f) = c" "\<not> is_dirty (fr_at s f) \<and> \<not> list_ex dirty_hold (ps_hold s f) \<Longrightarrow> dp s (pg_at s f) = c"
proof -
  note H = hold_in_use[OF inv h]
  have "st_at s f \<in> {FS_Valid, FS_Flushing, FS_Evicting, FS_DeletePending}" using H(2) by auto
  moreover have "\<not> loaded (ps_job s f)" using H(5) by (simp add: contains_def)
  ultimately show "frame_page (fr_at s f) = c" "\<not> is_dirty (fr_at s f) \<and> \<not> list_ex dirty_hold (ps_hold s f) \<Longrightarrow> dp s (pg_at s f) = c"
    using frame_invD(5)[OF inv H(1)] m by (simp_all add: bytes_ok_def)
qed

lemma same_frame_upd [simp]: "upd_frame f (\<lambda>fr. fr\<lparr>frame_page := frame_page (frame_at bp f), page_lsn := page_lsn (frame_at bp f)\<rparr>) bp = bp"
  by (rule upd_frame_same) simp

lemma page_length: "pool_inv s \<Longrightarrow> f < n_of s \<Longrightarrow> length (frame_page (fr_at s f)) = page_size"
  using frame_invD(5)[of s f] by (simp add: bytes_ok_def)

text \<open>A holder that leaves the page alone.\<close>

lemma pool_inv_hold_same:
  assumes inv: "pool_inv s" and h: "ps_hold s f = xs @ h # ys" and h': "hold_page h' = hold_page h" "hold_ok f h'"
    and core: "core_same (ps_pool s) bp" and d: "dirty_hold h' = dirty_hold h"
    and wr: "writers_ok (is_dirty (fr_at s f)) (xs @ h' # ys) (dp s (pg_at s f))"
  shows "pool_inv (set_hold f (xs @ h' # ys) (set_pool bp s))"
proof -
  have hm: "h \<in> set (ps_hold s f)" using h by simp
  note H = hold_in_use[OF inv hm] and M = held_map[OF inv hm]
  show ?thesis
    by (rule pool_inv_hold[OF inv h h', where b = "frame_page (fr_at s f)" and l = "page_lsn (fr_at s f)"])
      (use core d wr h M page_length[OF inv H(1)] in auto)
qed

lemma pool_inv_latch_read:
  assumes inv: "pool_inv s" and h: "ps_hold s f = xs @ H_Wait p # ys" and nw: "\<not> list_ex is_write (xs @ ys)"
  shows "pool_inv (set_hold f (xs @ H_Read p # ys) s)"
  using pool_inv_hold_same[OF inv h, of "H_Read p" "ps_pool s"] writers_ok_none[of "xs @ H_Read p # ys"] nw by simp

lemma pool_inv_read_drop:
  assumes inv: "pool_inv s" and h: "ps_hold s f = xs @ H_Read p # ys"
  shows "pool_inv (set_hold f (xs @ H_Done p False # ys) s)"
  using pool_inv_hold_same[OF inv h, of "H_Done p False" "ps_pool s"] writers_ok_other[of _ xs "H_Read p" ys _ "H_Done p False"]
    frame_invD(7)[OF inv hold_in_use(1)[OF inv, of "H_Read p" f]] h by simp

lemma pool_inv_latch_write:
  assumes inv: "pool_inv s" and h: "ps_hold s f = xs @ H_Wait p # ys" and nw: "\<not> list_ex is_write (xs @ ys)" "\<not> list_ex is_read (xs @ ys)"
    and g: "make_WritePageGuard f p tp (ps_pool s) = (bp, g)"
  shows "pool_inv (set_hold f (xs @ H_Write g (ps_map s p) # ys) (set_pool bp s))"
proof -
  have hm: "H_Wait p \<in> set (ps_hold s f)" using h by simp
  note H = hold_in_use[OF inv hm] and M = held_map[OF inv hm]
  have p: "pg_at s f = p" using H(4) by simp
  have G: "core_same (ps_pool s) bp" "wg_frame g = f" "wg_page_id g = p" "\<not> wg_dirty g" "wg_txn g = None \<longleftrightarrow> wg_before g = None"
    "\<And>b. wg_before g = Some b \<Longrightarrow> b = frame_page (fr_at s f)"
    using g by (auto simp: make_WritePageGuard_def Let_def split: option.splits)
  have len: "length (frame_page (fr_at s f)) = page_size" using page_length[OF inv H(1)] .
  have mlen: "ps_map s p = Some c \<Longrightarrow> length c = page_size" for c using pool_invD(11)[OF inv] by (auto simp: map_inv_def)
  show ?thesis
  proof (rule pool_inv_hold_same[OF inv h])
    show "hold_ok f (H_Write g (ps_map s p))" using G len mlen M(1) p by auto
    show "writers_ok (is_dirty (fr_at s f)) (xs @ H_Write g (ps_map s p) # ys) (dp s (pg_at s f))"
      using writers_ok_one[OF nw] M(2) p h by simp
  qed (use G in auto)
qed

lemma pool_inv_write:
  assumes inv: "pool_inv s" and h: "ps_hold s f = xs @ H_Write g x # ys" and len: "length bytes = page_size"
  shows "pool_inv ((set_hold f (xs @ H_Write (g\<lparr>wg_dirty := True\<rparr>) x # ys)
      (set_pool (upd_frame f (\<lambda>fr. fr\<lparr>frame_page := bytes\<rparr>) (ps_pool s)) s))\<lparr>ps_map := (ps_map s)(wg_page_id g \<mapsto> bytes)\<rparr>)"
proof -
  have hm: "H_Write g x \<in> set (ps_hold s f)" using h by simp
  note H = hold_in_use[OF inv hm] and D = frame_invD[OF inv H(1)]
  have p: "pg_at s f = wg_page_id g" using H(4) by simp
  have e: "upd_frame f (\<lambda>fr. fr\<lparr>frame_page := bytes, page_lsn := page_lsn (fr_at s f)\<rparr>) (ps_pool s) =
      upd_frame f (\<lambda>fr. fr\<lparr>frame_page := bytes\<rparr>) (ps_pool s)" by (simp add: upd_frame_def frame_at_def)
  show ?thesis
  proof (rule pool_inv_hold[OF inv h, where b = bytes and l = "page_lsn (fr_at s f)"])
    show "hold_ok f (H_Write (g\<lparr>wg_dirty := True\<rparr>) x)" using D(4)[OF hm] by simp
    show "writers_ok (is_dirty (fr_at s f)) (xs @ H_Write (g\<lparr>wg_dirty := True\<rparr>) x # ys) (dp s (pg_at s f))"
      using writers_okD[of _ xs g x ys] D(7) h by (intro writers_ok_one) auto
  qed (use len p e in auto)
qed

text \<open>The outcome of logging a change.\<close>

lemma guard_log_cases:
  assumes inv: "pool_inv s" and h: "H_Write g x \<in> set (ps_hold s f)" and l: "guard_log g (ps_pool s) = (bp, g', c)"
  shows "bp = ps_pool s \<and> g' = g \<and> c = Code_Ok \<and> (wg_txn g = None \<or> \<not> wg_dirty g) \<or>
    (\<exists>t b lm lsn. wg_txn g = Some t \<and> wg_dirty g \<and> wg_before g = Some b \<and> c = Code_Ok \<and> g' = g \<and> log_manager_bound (ps_pool s) \<and>
      Append (update_record (wg_page_id g) b (frame_page (fr_at s f))\<lparr>rec_txn := t, rec_prev := txn_chain t (ps_pool s)\<rparr>)
        (log_manager (ps_pool s)) = (lm, Inr lsn) \<and> log_manager bp = lm \<and>
      core_same (upd_frame f (\<lambda>fr. fr\<lparr>page_lsn := lsn\<rparr>) (ps_pool s)) bp) \<or>
    (\<exists>t b. wg_txn g = Some t \<and> wg_dirty g \<and> wg_before g = Some b \<and> c \<noteq> Code_Ok \<and> g' = g\<lparr>wg_dirty := False\<rparr> \<and>
      core_same (upd_frame f (\<lambda>fr. fr\<lparr>frame_page := b\<rparr>) (ps_pool s)) bp)"
proof -
  note H = hold_in_use[OF inv h] and D = frame_invD[OF inv hold_in_use(1)[OF inv h]]
  have g: "wg_frame g = f" "wg_txn g = None \<longleftrightarrow> wg_before g = None" "pg_at s f = wg_page_id g" using D(4)[OF h] H(4) by auto
  have L: "f < length (frames (ps_pool s))" using pool_invD(2)[OF inv] H(1) by simp
  show ?thesis
  proof (cases "wg_txn g = None \<or> \<not> wg_dirty g")
    case True
    then show ?thesis using l g by (auto simp: guard_log_def split: option.splits)
  next
    case False
    then obtain t b where t: "wg_txn g = Some t" "wg_dirty g" "wg_before g = Some b" using g(2) by fastforce
    have m: "frame_matches f (wg_page_id g) (ps_pool s)" using L g(3) by (simp add: frame_matches_def)
    obtain r where r: "RecordGuardUpdate f (wg_page_id g) (Some t) True b (ps_pool s) = (bp, c)" "g' = (if c \<noteq> Code_Ok then g\<lparr>wg_dirty := False\<rparr> else g)"
      using l t g(1) by (auto simp: guard_log_def split: prod.splits)
    show ?thesis
    proof (cases "log_manager_bound (ps_pool s)")
      case False
      then have "bp = upd_pool_txn t MarkFailed (upd_frame f (\<lambda>fr. fr\<lparr>frame_page := b\<rparr>) (ps_pool s))" "c = InvalidArgument"
        using r(1) m by (auto simp: RecordGuardUpdate_def restore_before_image_def)
      then show ?thesis using t r(2) by simp
    next
      case True
      let ?r = "update_record (wg_page_id g) b (frame_page (fr_at s f))"
      obtain lm y where a: "Append (?r\<lparr>rec_txn := t, rec_prev := txn_chain t (ps_pool s)\<rparr>) (log_manager (ps_pool s)) = (lm, y)" by fastforce
      show ?thesis
      proof (cases y)
        case (Inl err)
        have m': "frame_matches f (wg_page_id g) (ps_pool s\<lparr>log_manager := lm\<rparr>)" using m by (simp add: frame_matches_def)
        have "bp = upd_pool_txn t MarkFailed (upd_frame f (\<lambda>fr. fr\<lparr>frame_page := b\<rparr>) (ps_pool s\<lparr>log_manager := lm\<rparr>))" "c = IOError"
          using r(1) m m' True a Inl by (auto simp: RecordGuardUpdate_def restore_before_image_def append_for_def)
        then show ?thesis using t r(2) by (simp add: core_same_def upd_pool_txn_def upd_frame_def)
      next
        case (Inr lsn)
        let ?b = "upd_pool_txn t (SetLastLsn lsn) (ps_pool s\<lparr>log_manager := lm\<rparr>)"
        have m': "frame_matches f (wg_page_id g) ?b" using m by (simp add: frame_matches_def upd_pool_txn_def)
        have "bp = upd_frame f (\<lambda>fr. fr\<lparr>page_lsn := lsn\<rparr>) ?b" "c = Code_Ok"
          using r(1) m m' True a Inr by (auto simp: RecordGuardUpdate_def append_for_def)
        then show ?thesis using t r(2) True a Inr by (simp add: core_same_def upd_pool_txn_def upd_frame_def)
      qed
    qed
  qed
qed

lemma pool_inv_write_drop:
  assumes inv: "pool_inv s" and h: "ps_hold s f = xs @ H_Write g x # ys" and l: "guard_log g (ps_pool s) = (bp, g', c)"
  shows "pool_inv ((set_hold f (xs @ H_Done (wg_page_id g) (wg_dirty g') # ys) (set_pool bp s))
      \<lparr>ps_map := (if c = Code_Ok then ps_map s else (ps_map s)(wg_page_id g := x)), ps_log := lg\<rparr>)" (is "pool_inv ?s")
proof -
  have hm: "H_Write g x \<in> set (ps_hold s f)" using h by simp
  note H = hold_in_use[OF inv hm] and M = held_map[OF inv hm] and D = frame_invD[OF inv hold_in_use(1)[OF inv hm]]
  have len: "length (frame_page (fr_at s f)) = page_size" using page_length[OF inv H(1)] .
  have p: "pg_at s f = wg_page_id g" using H(4) by simp
  have e: "upd_frame f (\<lambda>fr. fr\<lparr>frame_page := frame_page (fr_at s f), page_lsn := l\<rparr>) (ps_pool s) =
      upd_frame f (\<lambda>fr. fr\<lparr>page_lsn := l\<rparr>) (ps_pool s)" "upd_frame f (\<lambda>fr. fr\<lparr>frame_page := b, page_lsn := page_lsn (fr_at s f)\<rparr>) (ps_pool s) =
      upd_frame f (\<lambda>fr. fr\<lparr>frame_page := b\<rparr>) (ps_pool s)" for l b by (simp_all add: upd_frame_def frame_at_def)
  have wok: "writers_ok (is_dirty (fr_at s f)) (xs @ H_Write g x # ys) (dp s (pg_at s f))" using D(7) h by simp
  from guard_log_cases[OF inv hm l] consider
      (same) "bp = ps_pool s" "g' = g" "c = Code_Ok"
    | (logged) lsn where "c = Code_Ok" "g' = g" "core_same (upd_frame f (\<lambda>fr. fr\<lparr>page_lsn := lsn\<rparr>) (ps_pool s)) bp"
    | (failed) b where "wg_before g = Some b" "c \<noteq> Code_Ok" "g' = g\<lparr>wg_dirty := False\<rparr>"
        "core_same (upd_frame f (\<lambda>fr. fr\<lparr>frame_page := b\<rparr>) (ps_pool s)) bp" by blast
  then show ?thesis
  proof cases
    case same
    show ?thesis
      by (rule pool_inv_hold[OF inv h, where b = "frame_page (fr_at s f)" and l = "page_lsn (fr_at s f)"])
        (use same len p M h writers_ok_other[OF wok, of "H_Done (wg_page_id g) (wg_dirty g)"] in auto)
  next
    case (logged lsn)
    show ?thesis
      by (rule pool_inv_hold[OF inv h, where b = "frame_page (fr_at s f)" and l = lsn])
        (use logged len p M h e writers_ok_other[OF wok, of "H_Done (wg_page_id g) (wg_dirty g)"] in auto)
  next
    case (failed b)
    have b: "length b = page_size" "x = Some k \<Longrightarrow> b = k" for k using D(4)[OF hm] failed(1) by auto
    show ?thesis
    proof (rule pool_inv_hold[OF inv h, where b = b and l = "page_lsn (fr_at s f)"])
      show "writers_ok (is_dirty (fr_at s f)) (xs @ H_Done (wg_page_id g) (wg_dirty g') # ys) (dp s (pg_at s f))"
        using writers_okD(1)[OF wok] by (intro writers_ok_none) simp
      show "b = k \<and> (\<not> is_dirty (fr_at s f) \<and> \<not> list_ex dirty_hold (xs @ H_Done (wg_page_id g) (wg_dirty g') # ys) \<longrightarrow> dp s (pg_at s f) = k)"
        if "ps_map ?s (pg_at s f) = Some k" for k
        using that failed(2,3) b p writers_okD(3)[OF wok, of k] by auto
    qed (use failed b p e in auto)
  qed
qed

subsection \<open>Giving pages back and writing them out\<close>

lemma writers_ok_drop:
  assumes "writers_ok e (xs @ H_Done p d # ys) b"
  shows "writers_ok (e \<or> d) (xs @ ys) b"
  unfolding writers_ok_def
proof (intro allI impI)
  fix us g x vs assume "xs @ ys = us @ H_Write g x # vs"
  then consider zs where "us = xs @ zs" "ys = zs @ H_Write g x # vs" | zs where "xs = us @ H_Write g x # zs" "vs = zs @ ys"
    by (auto simp: append_eq_append_conv2 Cons_eq_append_conv append_eq_Cons_conv)
  then show "\<not> list_ex is_write (us @ vs) \<and> \<not> list_ex is_read (us @ vs) \<and>
      (\<forall>c. x = Some c \<and> \<not> (e \<or> d) \<and> \<not> list_ex dirty_hold (us @ vs) \<longrightarrow> b = c)"
  proof cases
    case (1 zs)
    then show ?thesis using assms[unfolded writers_ok_def, rule_format, of "xs @ H_Done p d # zs" g x vs] by auto
  next
    case (2 zs)
    then show ?thesis using assms[unfolded writers_ok_def, rule_format, of us g x "zs @ H_Done p d # ys"] by auto
  qed
qed

lemma pool_inv_release:
  assumes inv: "pool_inv s" and h: "ps_hold s f = xs @ H_Done p d # ys" and r: "release_enter f p d (ps_pool s) = (bp, r)"
  shows "case r of RE_Return c \<Rightarrow> c = Code_Ok \<and> pool_inv (set_hold f (xs @ ys) (set_pool bp s))
    | RE_Flush \<Rightarrow> pool_inv (set_job f (Some (JThrough p)) (set_hold f (xs @ ys) (set_pool bp s)))"
proof -
  have hm: "H_Done p d \<in> set (ps_hold s f)" using h by simp
  note H = hold_in_use[OF inv hm] and M = held_map[OF inv hm] and D = frame_invD[OF inv hold_in_use(1)[OF inv hm]]
  note I = pool_invD[OF inv]
  have L: "length (frames (ps_pool s)) = n_of s" using I(2) .
  have p: "pg_at s f = p" using H(4) by simp
  let ?b1 = "upd_frame f (\<lambda>fr. fr\<lparr>is_dirty := is_dirty fr \<or> d\<rparr>) (ps_pool s)"
  have "frame_matches f p (ps_pool s)" using L H(1) p by (simp add: frame_matches_def)
  then have r': "release_frame f d (ps_pool s) = (bp, r)" using r H(3) by (simp add: release_enter_def)
  have st1: "frame_at ?b1 f = (fr_at s f)\<lparr>is_dirty := is_dirty (fr_at s f) \<or> d\<rparr>" using L H(1) by simp
  have J: "ps_job s f = None \<or> ps_job s f = Some (JDrain (pg_at s f)) \<and> st_at s f = FS_Flushing"
    using job_held[OF D(1)] h H(2) by auto
  have wok: "writers_ok (is_dirty (fr_at s f) \<or> d) (xs @ ys) (dp s p)" using writers_ok_drop[of _ xs p d ys] D(7) h p by simp
  have hs: "\<forall>k \<in> set (xs @ ys). hold_page k = p \<and> hold_ok f k" using D(3,4) h p by auto
  have len: "length (frame_page (fr_at s f)) = page_size" using page_length[OF inv H(1)] .
  have oc: "owns s f q \<longleftrightarrow> q = p" "contains s f q \<longleftrightarrow> q = p" for q
    using H(5,6) p J by (auto simp: owns_def contains_def)
  have mlen: "ps_map s q = Some c \<Longrightarrow> length c = page_size" for q c using I(11) by (auto simp: map_inv_def)
  show ?thesis
  proof (cases "st_at s f = FS_Valid \<and> flush_policy (ps_pool s) = WriteThrough \<and> (is_dirty (fr_at s f) \<or> d) \<and> pin_count (fr_at s f) = 1")
    case True
    then have e: "bp = upd_frame f (\<lambda>fr. fr\<lparr>frame_state := FS_Flushing\<rparr>) ?b1" "r = RE_Flush"
      using r' st1 by (auto simp: release_frame_def Let_def)
    let ?s = "set_job f (Some (JThrough p)) (set_hold f (xs @ ys) (set_pool bp s))"
    have st: "fr_at ?s f = (fr_at s f)\<lparr>is_dirty := is_dirty (fr_at s f) \<or> d, frame_state := FS_Flushing\<rparr>"
      using L H(1) by (simp add: e)
    have nil: "xs @ ys = []" using D(2) h True by (cases xs; cases ys) auto
    have sv: "st_at ?s f = FS_Flushing" "pg_at ?s f = p" "n_of ?s = n_of s" "ps_job ?s f = Some (JThrough p)" using p by (simp_all only: st) (simp_all add: e)
    have oc': "owns ?s f q \<longleftrightarrow> q = p" "contains ?s f q \<longleftrightarrow> q = p" for q
      unfolding owns_def contains_def occupied_def sv using H(1) by auto
    have "pool_inv ?s"
    proof (rule pool_inv_local[OF inv H(1)])
      show "frame_inv ?s f" unfolding frame_inv_def Let_def st using nil len M p True
        by (auto simp: bytes_ok_def e)
      show "rep_inv ?s" using I(10) idle_update[of ?s s f] L H(1,7) True by (simp add: rep_inv_idle e)
    qed (use I(1) L H(1,2) J oc oc' mlen in \<open>auto simp: e\<close>)
    then show ?thesis by (simp add: e)
  next
    case False
    let ?b2 = "upd_frame f (\<lambda>fr. fr\<lparr>pin_count := pin_count fr - 1\<rparr>) ?b1"
    have st2: "frame_at ?b2 f = (fr_at s f)\<lparr>is_dirty := is_dirty (fr_at s f) \<or> d, pin_count := pin_count (fr_at s f) - 1\<rparr>" using L H(1) by simp
    have R: "rep_ok (n_of s) (idle s) (pool_replacer ?b2)" using I(10) by (simp add: rep_inv_idle)
    have dp0: "st_at s f = FS_Flushing \<Longrightarrow> pin_count (fr_at s f) \<noteq> 1" using D(2) h by auto
    obtain rp where e: "bp = ?b2\<lparr>pool_replacer := rp\<rparr>" "r = RE_Return Code_Ok"
      and rp: "rep_ok (n_of s) (if st_at s f = FS_Valid \<and> pin_count (fr_at s f) = 1 then insert f (idle s) else idle s) rp"
    proof (cases "pin_count (fr_at s f) = 1 \<and> st_at s f \<noteq> FS_DeletePending")
      case True
      then have "st_at s f = FS_Valid" using H(2) dp0 by auto
      obtain rp where "call_replacer (Unpin f) ?b2 = (?b2\<lparr>pool_replacer := rp\<rparr>, Code_Ok)" "rep_ok (n_of s) (insert f (idle s)) rp"
        using call_unpin[OF R H(1,7)] by blast
      then show ?thesis using that[of rp] r' True False st1 st2 \<open>st_at s f = FS_Valid\<close> by (auto simp: release_frame_def Let_def)
    next
      case no: False
      have "bp = ?b2" "r = RE_Return Code_Ok" using r' False no st1 st2 H(3) by (auto simp: release_frame_def Let_def split: if_splits)
      then show ?thesis using that[of "pool_replacer (ps_pool s)"] no R by auto
    qed
    let ?s = "set_hold f (xs @ ys) (set_pool bp s)"
    have st: "fr_at ?s f = (fr_at s f)\<lparr>is_dirty := is_dirty (fr_at s f) \<or> d, pin_count := pin_count (fr_at s f) - 1\<rparr>" using st2 by (simp add: e)
    have sv: "st_at ?s f = st_at s f" "pg_at ?s f = p" "n_of ?s = n_of s" "ps_job ?s f = ps_job s f" using p by (simp_all only: st) (simp_all add: e)
    have oc': "owns ?s f q \<longleftrightarrow> q = p" "contains ?s f q \<longleftrightarrow> q = p" for q
      unfolding owns_def contains_def occupied_def sv using H(1,2) J by auto
    have "pool_inv ?s"
    proof (rule pool_inv_local[OF inv H(1)])
      have "pins_ok (fr_at ?s f) (xs @ ys) (st_at s f)" using D(2) h H(2) unfolding st by (cases "st_at s f") auto
      moreover have "job_ok f (fr_at ?s f) (xs @ ys) (ps_job s f)" using J D(1) unfolding st by auto
      moreover have "bytes_ok (fr_at ?s f) (xs @ ys) (ps_job s f) (ps_map s) (dp s)"
        unfolding st using len M p J h by (auto simp: bytes_ok_def)
      ultimately show "frame_inv ?s f" unfolding frame_inv_def Let_def st using hs wok D(6) p by (simp add: e)
      show "rep_inv ?s" using rp idle_update[of ?s s f] L H(1,3,7) st sv(1) by (auto simp: rep_inv_idle e idle_def split: if_splits)
    qed (use I(1) L H(1) oc oc' mlen sv in \<open>simp_all add: e\<close>)
    then show ?thesis by (simp add: e)
  qed
qed

text \<open>A frame a flush has reserved.\<close>

lemma flushing_facts:
  assumes inv: "pool_inv s" and j: "ps_job s f = Some jb" and jb: "jb \<in> {JThrough p, JWrite p, JFlushed p c}"
  shows "f < n_of s" "ps_hold s f = []" "st_at s f = FS_Flushing" "pin_count (fr_at s f) = 1" "pg_at s f = p"
    "owns s f q \<longleftrightarrow> q = p" "contains s f q \<longleftrightarrow> q = p" "p \<in> al_of s" "f \<notin> idle s"
proof -
  show f: "f < n_of s" using job_frame[OF inv j] .
  have J: "st_at s f = FS_Flushing" "pg_at s f = p" "ps_hold s f = []" using job_is[OF inv j] jb by auto
  show "ps_hold s f = []" "st_at s f = FS_Flushing" "pg_at s f = p" using J by auto
  show "pin_count (fr_at s f) = 1" using frame_invD(2)[OF inv f] J by simp
  show o: "owns s f q \<longleftrightarrow> q = p" "contains s f q \<longleftrightarrow> q = p" for q
    using J f j jb by (auto simp: owns_def contains_def occupied_def)
  show "p \<in> al_of s" using owns_facts(3)[OF inv, of f p] o(1) by simp
  show "f \<notin> idle s" using J by (simp add: idle_def)
qed

lemma pool_inv_flush_written:
  assumes inv: "pool_inv s" and j: "ps_job s f = Some jb" "jb = JThrough p \<or> jb = JWrite p"
    and w: "(if jb = JThrough p \<or> is_dirty (fr_at s f) then write_frame h f p (ps_pool s) else Some (ps_pool s, Code_Ok)) = Some (bp, c)"
  shows "pool_inv (set_job f (Some (JFlushed p c)) (set_pool bp s))" (is "pool_inv ?s")
proof -
  have "jb \<in> {JThrough p, JWrite p, JFlushed p c}" using j(2) by auto
  note F = flushing_facts[OF inv j(1) this] and I = pool_invD[OF inv] and D = frame_invD[OF inv F(1)]
  have "\<exists>lm dm. bp = ps_pool s\<lparr>log_manager := lm, disk_manager := dm\<rparr> \<and> disk_ok dm \<and> allocated dm = al_of s \<and>
    (\<forall>q \<in> al_of s. q \<noteq> p \<longrightarrow> disk_page dm q = dp s q) \<and>
    (if c = Code_Ok then (if jb = JThrough p \<or> is_dirty (fr_at s f) then disk_page dm p = frame_page (fr_at s f) else dm = dk s) else dm = dk s)"
  proof (cases "jb = JThrough p \<or> is_dirty (fr_at s f)")
    case True
    have "write_frame h f p (ps_pool s) = Some (bp, c)" using w by (simp only: True if_True)
    from write_frame_cases[OF inv F(1,8) this] show ?thesis by (simp only: True if_True)
  next
    case False
    then have "bp = ps_pool s \<and> c = Code_Ok" using w by auto
    then show ?thesis using False I(1) by (intro exI[of _ "log_manager (ps_pool s)"] exI[of _ "dk s"]) simp
  qed
  then obtain lm dm where bp: "bp = ps_pool s\<lparr>log_manager := lm, disk_manager := dm\<rparr>" and d: "disk_ok dm" "allocated dm = al_of s"
    "\<forall>q \<in> al_of s. q \<noteq> p \<longrightarrow> disk_page dm q = dp s q"
    "if c = Code_Ok then (if jb = JThrough p \<or> is_dirty (fr_at s f) then disk_page dm p = frame_page (fr_at s f) else dm = dk s) else dm = dk s"
    by blast
  have st: "fr_at ?s f = fr_at s f" by (simp add: bp frame_at_def)
  have oc: "owns ?s f q \<longleftrightarrow> q = p" "contains ?s f q \<longleftrightarrow> q = p" for q
    using F(1,3,5) by (auto simp: owns_def contains_def occupied_def bp)
  have nj: "\<not> loaded (Some jb)" "\<not> written (Some jb)" using j(2) by auto
  have B: "ps_map s p = Some x \<Longrightarrow> frame_page (fr_at s f) = x \<and> (\<not> is_dirty (fr_at s f) \<longrightarrow> dp s p = x)" for x
    using D(5) F(2,3,5) j(1) nj by (auto simp: bytes_ok_def)
  show ?thesis
  proof (rule pool_inv_local[OF inv F(1)])
    have "bytes_ok (fr_at s f) [] (Some (JFlushed p c)) (ps_map s) (disk_page dm)"
      using D(5) F(2,3,5) B d(4) by (auto simp: bytes_ok_def split: if_splits)
    then show "frame_inv ?s f" unfolding frame_inv_def Let_def st using D(2) F(2,3,5) by (simp add: bp)
    show "rep_inv ?s" using I(10) idle_update[of ?s s f] I(2) F(1,3,9) st by (simp add: rep_inv_idle bp)
    show "length x = page_size \<and> (contains ?s f q \<or> dp ?s q = x)" if "owns s f q" "ps_map ?s q = Some x" for q x
      using that F(6) oc I(11) by (auto simp: map_inv_def)
  qed (use d I(2) F j oc nj in \<open>auto simp: bp frame_at_def\<close>)
qed

lemma pool_inv_flushed:
  assumes inv: "pool_inv s" and j: "ps_job s f = Some (JFlushed p c)"
  shows "pool_inv (set_job f None (set_pool (flush_finish f c (ps_pool s)) s))" (is "pool_inv ?s")
proof -
  note F = flushing_facts[OF inv j, of p c] and I = pool_invD[OF inv]
  have f: "f < n_of s" using job_frame[OF inv j] .
  note D = frame_invD[OF inv f]
  define b1 where "b1 = (if c = Code_Ok then upd_frame f (\<lambda>fr. fr\<lparr>is_dirty := False, page_lsn := kInvalidLsn\<rparr>) (ps_pool s) else ps_pool s)"
  let ?b2 = "upd_frame f (\<lambda>fr. fr\<lparr>frame_state := FS_Valid, pin_count := pin_count fr - 1\<rparr>) b1"
  have L: "length (frames (ps_pool s)) = n_of s" using I(2) .
  have st2: "frame_at ?b2 f = (if c = Code_Ok then (fr_at s f)\<lparr>is_dirty := False, page_lsn := kInvalidLsn, frame_state := FS_Valid, pin_count := 0\<rparr>
      else (fr_at s f)\<lparr>frame_state := FS_Valid, pin_count := 0\<rparr>)"
    using L f F(4) by (simp add: b1_def)
  have R: "rep_ok (n_of s) (idle s) (pool_replacer ?b2)" using I(10) by (simp add: rep_inv_idle b1_def)
  obtain r where r: "call_replacer (Unpin f) ?b2 = (?b2\<lparr>pool_replacer := r\<rparr>, Code_Ok)" "rep_ok (n_of s) (insert f (idle s)) r"
    using call_unpin[OF R f] F(9) by auto
  have e: "flush_finish f c (ps_pool s) = ?b2\<lparr>pool_replacer := r\<rparr>"
    using r(1) st2 unfolding flush_finish_def Let_def b1_def[symmetric] by simp
  have st: "fr_at ?s f = (if c = Code_Ok then (fr_at s f)\<lparr>is_dirty := False, page_lsn := kInvalidLsn, frame_state := FS_Valid, pin_count := 0\<rparr>
      else (fr_at s f)\<lparr>frame_state := FS_Valid, pin_count := 0\<rparr>)" using st2 by (simp add: e)
  have sv: "st_at ?s f = FS_Valid" "pg_at ?s f = p" "n_of ?s = n_of s" "ps_job ?s f = None"
    using F(5) unfolding st by (simp_all add: e b1_def)
  have oc: "owns ?s f q \<longleftrightarrow> q = p" "contains ?s f q \<longleftrightarrow> q = p" for q
    unfolding owns_def contains_def occupied_def sv using f by auto
  have o: "owns s f q \<longleftrightarrow> q = p" for q using F(6) by simp
  have hs: "ps_hold s f = []" "st_at s f = FS_Flushing" "pg_at s f = p" using F(2,3,5) by auto
  have ot: "dp ?s = dp s" "al_of ?s = al_of s" "frame_at (ps_pool ?s) g = fr_at s g" if "g \<noteq> f" for g
    using that by (simp_all add: e b1_def)
  show ?thesis
  proof (rule pool_inv_local[OF inv f])
    show "frame_inv ?s f"
      unfolding frame_inv_def Let_def st using D(5) hs j by (auto simp: bytes_ok_def e b1_def)
    have pin: "pin_count (fr_at ?s f) = 0" unfolding st by simp
    have "fr_at ?s g = fr_at s g" if "g \<noteq> f" for g using that by (simp add: e b1_def)
    then have "idle ?s = insert f (idle s)" using idle_update[OF sv(3) _ f] unfolding sv(1) pin by simp
    then show "rep_inv ?s" using r(2) sv(3) by (simp add: rep_inv_idle e)
    show "length x = page_size \<and> (contains ?s f q \<or> dp ?s q = x)" if "owns s f q" "ps_map ?s q = Some x" for q x
      using that o oc I(11) by (auto simp: map_inv_def)
  qed (use I(1) L f j oc o hs sv in \<open>simp_all add: e b1_def\<close>)
qed

lemma flush_turn_cases:
  assumes "flush_turn p bp (bp', r)"
  obtains (valid) f where "page_table bp p = Some f" "frame_state (frame_at bp f) = FS_Valid" "page_flush_valid f bp = (bp', r)"
    | (same) "bp' = bp" "\<forall>f. r \<noteq> PE_Write f \<and> r \<noteq> PE_Drain f"
  using assms
  by (auto simp: flush_turn_def page_flush_enter_def page_flush_woken_def split: if_splits option.splits)

lemma pool_inv_flush_enter:
  assumes inv: "pool_inv s" and e: "flush_turn p (ps_pool s) (bp, r)"
  shows "case r of PE_Return c \<Rightarrow> pool_inv (set_pool bp s) | PE_Wait f \<Rightarrow> True
    | PE_Write f \<Rightarrow> pool_inv (set_job f (Some (JWrite p)) (set_pool bp s))
    | PE_Drain f \<Rightarrow> pool_inv (set_job f (Some (JDrain p)) (set_pool bp s))"
proof (cases "\<exists>f. page_table (ps_pool s) p = Some f \<and> st_at s f = FS_Valid \<and> page_flush_valid f (ps_pool s) = (bp, r)")
  case False
  from e show ?thesis
  proof (cases rule: flush_turn_cases)
    case same
    then show ?thesis using inv by (cases r) auto
  qed (use False in blast)
next
  case True
  then obtain f where t: "page_table (ps_pool s) p = Some f" and st: "st_at s f = FS_Valid" and v: "page_flush_valid f (ps_pool s) = (bp, r)" by blast
  note I = pool_invD[OF inv]
  have T: "pg_at s f = p" "f < n_of s" "owns s f p" "contains s f p" using table_state[OF inv t] st by auto
  note D = frame_invD[OF inv T(2)]
  have L: "length (frames (ps_pool s)) = n_of s" using I(2) .
  have J: "ps_job s f = None" using job_settled[OF D(1)] st by simp
  have R: "rep_ok (n_of s) (idle s) (pool_replacer (ps_pool s))" using I(10) by (simp add: rep_inv_idle)
  let ?fl = "\<lambda>b. upd_frame f (\<lambda>fr. fr\<lparr>frame_state := FS_Flushing, pin_count := pin_count fr + 1\<rparr>) b"
  obtain rp where rp: "(if pin_count (fr_at s f) = 0 then call_replacer (Pin f) (ps_pool s) else (ps_pool s, Code_Ok)) =
      (ps_pool s\<lparr>pool_replacer := rp\<rparr>, Code_Ok)" "rep_ok (n_of s) (idle s - {f}) rp"
  proof (cases "pin_count (fr_at s f) = 0")
    case True
    then show ?thesis using call_pin[OF R T(2)] that by auto
  next
    case False
    then have "f \<notin> idle s" by (simp add: idle_def)
    then show ?thesis using False R that[of "pool_replacer (ps_pool s)"] by simp
  qed
  let ?b = "?fl (ps_pool s\<lparr>pool_replacer := rp\<rparr>)"
  have fr: "frame_at ?b f = (fr_at s f)\<lparr>frame_state := FS_Flushing, pin_count := pin_count (fr_at s f) + 1\<rparr>" using L T(2) by simp
  have undo: "upd_frame f (\<lambda>fr. fr\<lparr>frame_state := FS_Valid, pin_count := pin_count fr - 1\<rparr>) ?b = ps_pool s\<lparr>pool_replacer := rp\<rparr>"
    using L T(2) st by (simp add: upd_frame_def frame_at_def list_update_same_conv)
  have "page_flush_valid f (ps_pool s) = (if \<not> is_dirty (fr_at s f) \<and> pin_count (fr_at s f) + 1 > 1 then (ps_pool s\<lparr>pool_replacer := rp\<rparr>, PE_Return Code_Ok)
      else if pin_count (fr_at s f) + 1 = 1 then (?b, PE_Write f) else (?b, PE_Drain f))"
    unfolding page_flush_valid_def rp(1) Let_def prod.case fr undo by simp
  with v consider (clean) "\<not> is_dirty (fr_at s f)" "pin_count (fr_at s f) > 0" "r = PE_Return Code_Ok" "bp = ps_pool s\<lparr>pool_replacer := rp\<rparr>"
    | (free) "pin_count (fr_at s f) = 0" "r = PE_Write f" "bp = ?b" | (drain) "pin_count (fr_at s f) > 0" "r = PE_Drain f" "bp = ?b"
    by (cases "pin_count (fr_at s f) = 0"; cases "is_dirty (fr_at s f)") simp_all
  then show ?thesis
  proof cases
    case clean
    have "f \<notin> idle s" using clean(2) by (simp add: idle_def)
    then have "core_same (ps_pool s) bp" using rp(2) R clean(4) by (auto simp: core_same_def rep_ok_def)
    then show ?thesis using pool_inv_set[OF inv] clean(3) by simp
  next
    case free
    let ?s = "set_job f (Some (JWrite p)) (set_pool bp s)"
    have sv: "fr_at ?s f = (fr_at s f)\<lparr>frame_state := FS_Flushing, pin_count := pin_count (fr_at s f) + 1\<rparr>" using fr by (simp add: free)
    have hs: "ps_hold s f = []" using D(2) st free(1) by simp
    have "pool_inv ?s"
    proof (rule pool_inv_local[OF inv T(2)])
      show "frame_inv ?s f" unfolding frame_inv_def Let_def sv using D(2,5) hs free(1) st T(1) J by (auto simp: bytes_ok_def free)
      show "rep_inv ?s" using rp(2) idle_update[of ?s s f] L T(2) sv by (simp add: rep_inv_idle free)
      show "length x = page_size \<and> (contains ?s f q \<or> dp ?s q = x)" if "owns s f q" "ps_map ?s q = Some x" for q x
        using that I(11) J st sv T(2) by (auto simp: map_inv_def owns_def contains_def occupied_def free)
    qed (use I(1) L T(2) J st sv in \<open>auto simp: free owns_def occupied_def\<close>)
    then show ?thesis by (simp add: free(2))
  next
    case drain
    let ?s = "set_job f (Some (JDrain p)) (set_pool bp s)"
    have sv: "fr_at ?s f = (fr_at s f)\<lparr>frame_state := FS_Flushing, pin_count := pin_count (fr_at s f) + 1\<rparr>" using fr by (simp add: drain)
    have "pool_inv ?s"
    proof (rule pool_inv_local[OF inv T(2)])
      show "frame_inv ?s f" unfolding frame_inv_def Let_def sv using D(2,3,4,5,7) st T(1) J by (auto simp: bytes_ok_def drain)
      show "rep_inv ?s" using rp(2) idle_update[of ?s s f] L T(2) sv by (simp add: rep_inv_idle drain)
      show "length x = page_size \<and> (contains ?s f q \<or> dp ?s q = x)" if "owns s f q" "ps_map ?s q = Some x" for q x
        using that I(11) J st sv T(2) by (auto simp: map_inv_def owns_def contains_def occupied_def drain)
    qed (use I(1) L T(2) J st sv in \<open>auto simp: drain owns_def occupied_def\<close>)
    then show ?thesis by (simp add: drain(2))
  qed
qed

lemma pool_inv_drained:
  assumes inv: "pool_inv s" and j: "ps_job s f = Some (JDrain p)" and d: "page_flush_drained f (ps_pool s) = Some (PE_Write f)"
  shows "pool_inv (set_job f (Some (JWrite p)) s)" (is "pool_inv ?s")
proof -
  have f: "f < n_of s" using job_frame[OF inv j] .
  note D = frame_invD[OF inv f] and I = pool_invD[OF inv]
  have J: "st_at s f = FS_Flushing" "pg_at s f = p" using job_is[OF inv j] by auto
  have hs: "ps_hold s f = []" using d D(2) J by (auto simp: page_flush_drained_def split: if_splits)
  show ?thesis
  proof (rule pool_inv_local[OF inv f])
    show "frame_inv ?s f" unfolding frame_inv_def Let_def using D(2,5) J hs j by (auto simp: bytes_ok_def)
    show "rep_inv ?s" using I(10) by (simp add: rep_inv_def)
    show "length x = page_size \<and> (contains ?s f q \<or> dp ?s q = x)" if "owns s f q" "ps_map ?s q = Some x" for q x
      using that I(11) J f j by (auto simp: map_inv_def owns_def contains_def occupied_def)
  qed (use I(1,2) f j J in \<open>auto simp: owns_def occupied_def\<close>)
qed

subsection \<open>Deleting pages\<close>

lemma pool_inv_pending:
  assumes inv: "pool_inv s" and P: "P \<subseteq> al_of s" "\<And>g p. new_page (ps_job s g) = Some p \<Longrightarrow> p \<notin> P"
    and d: "\<And>f. f < n_of s \<Longrightarrow> st_at s f = FS_DeletePending \<Longrightarrow> pg_at s f \<in> P"
  shows "pool_inv (set_pool (ps_pool s\<lparr>delete_pending_pages := P\<rparr>) s)" (is "pool_inv ?s")
proof -
  note I = pool_invD[OF inv]
  have o: "owns ?s = owns s" "in_pool ?s = in_pool s"
    by (simp_all add: owns_def occupied_def in_pool_def contains_def fun_eq_iff)
  have fi: "frame_inv ?s f" if "f < n_of s" for f using I(5)[OF that] d[OF that] by (simp add: frame_inv_def Let_def)
  have r: "free_inv ?s" "rep_inv ?s" "map_inv ?s" using I(9,10,11) o by (simp_all add: free_inv_def rep_inv_def map_inv_def)
  have nw: "new_inv ?s" using I(12) P(2) unfolding new_inv_def by simp
  show ?thesis using inv fi r nw P(1) unfolding pool_inv_def by (simp add: o)
qed

lemma pool_inv_begin_delete:
  assumes inv: "pool_inv s" and k: "known_page s p" and b: "BeginPageDeletion_pins p n (ps_pool s) = (bp, c)"
  shows "pool_inv (set_pool bp s)"
proof -
  note I = pool_invD[OF inv]
  let ?P = "insert p (delete_pending_pages (ps_pool s))" let ?b = "ps_pool s\<lparr>delete_pending_pages := ?P\<rparr>"
  have ins: "pool_inv (set_pool ?b s)"
  proof (rule pool_inv_pending[OF inv])
    show "?P \<subseteq> al_of s" using I(8) known_pageD[OF k] by auto
    show "q \<notin> ?P" if "new_page (ps_job s g) = Some q" for g q using that known_pageD[OF k] I(12) by (auto simp: new_inv_def)
    show "pg_at s f \<in> ?P" if "f < n_of s" "st_at s f = FS_DeletePending" for f using frame_invD(6)[OF inv that] by simp
  qed
  consider "bp = ps_pool s" | "bp = ?b" | f where "page_table (ps_pool s) p = Some f" "st_at s f = FS_Valid"
      "p \<notin> delete_pending_pages (ps_pool s)" "pin_count (fr_at s f) = n" "BeginPageDeletion_pins p n (ps_pool s) =
        (case call_replacer (Pin f) (ps_pool s) of (bp, pin_status) \<Rightarrow> if pin_status \<noteq> Code_Ok then (bp, pin_status)
         else (upd_frame f (\<lambda>fr. fr\<lparr>frame_state := FS_DeletePending\<rparr>)
                 (bp\<lparr>delete_pending_pages := insert p (delete_pending_pages bp)\<rparr>), Code_Ok))"
  proof (cases "page_table (ps_pool s) p")
    case None
    have "bp = ps_pool s \<or> bp = ?b" using b None unfolding BeginPageDeletion_pins_def Let_def
      by (simp split: if_splits)
    then show ?thesis using that by blast
  next
    case (Some f)
    have "bp = ps_pool s \<or> st_at s f = FS_Valid \<and> p \<notin> delete_pending_pages (ps_pool s) \<and> pin_count (fr_at s f) = n \<and>
        EnsureReadyUnlocked (ps_pool s) = Code_Ok \<and> ValidateDataPageId p = Code_Ok"
      using b Some unfolding BeginPageDeletion_pins_def Let_def by (simp split: if_splits)
    then show ?thesis
    proof (elim disjE conjE)
      assume v: "st_at s f = FS_Valid" "p \<notin> delete_pending_pages (ps_pool s)" "pin_count (fr_at s f) = n"
        "EnsureReadyUnlocked (ps_pool s) = Code_Ok" "ValidateDataPageId p = Code_Ok"
      show ?thesis
        by (rule that(3)[OF Some v(1-3)]) (simp add: BeginPageDeletion_pins_def Let_def Some v)
    qed (rule that(1))
  qed
  then show ?thesis
  proof cases
    case (3 f)
    have T: "pg_at s f = p" "f < n_of s" "owns s f p" "contains s f p" using table_state[OF inv 3(1)] 3(2) by auto
    have R: "rep_ok (n_of s) (idle s) (pool_replacer (ps_pool s))" using I(10) by (simp add: rep_inv_idle)
    obtain r where r: "call_replacer (Pin f) (ps_pool s) = (ps_pool s\<lparr>pool_replacer := r\<rparr>, Code_Ok)" "rep_ok (n_of s) (idle s - {f}) r"
      using call_pin[OF R T(2)] by blast
    have e: "bp = upd_frame f (\<lambda>fr. fr\<lparr>frame_state := FS_DeletePending\<rparr>) (ps_pool s\<lparr>pool_replacer := r, delete_pending_pages := ?P\<rparr>)"
      using b unfolding 3(5) by (simp add: r(1))
    have L: "length (frames (ps_pool s)) = n_of s" using I(2) .
    let ?s1 = "set_pool ?b s" let ?s = "set_pool bp ?s1"
    note I1 = pool_invD[OF ins] and D = frame_invD[OF inv T(2)] and D1 = frame_invD[OF ins, of f]
    have J: "ps_job s f = None" using job_settled[OF D(1)] 3(2) by simp
    have st: "fr_at ?s f = (fr_at s f)\<lparr>frame_state := FS_DeletePending\<rparr>" using L T(2) by (simp add: e)
    have "pool_inv ?s"
    proof (rule pool_inv_local[OF ins, of f])
      show "frame_inv ?s f" unfolding frame_inv_def Let_def st using D T(1) J 3(2) by (auto simp: bytes_ok_def e)
      have "idle ?s1 = idle s" by (simp add: idle_def)
      then show "rep_inv ?s" using r(2) idle_update[of ?s s f] L T(2) st by (simp add: rep_inv_idle e)
      show "length x = page_size \<and> (contains ?s f q \<or> dp ?s q = x)" if "owns ?s1 f q" "ps_map ?s q = Some x" for q x
        using that I(11) J T(2) 3(2) L by (auto simp: map_inv_def owns_def contains_def occupied_def e)
    qed (use I(1) L T(2) J 3(2) in \<open>auto simp: e owns_def occupied_def\<close>)
    then show ?thesis by simp
  qed (use inv ins in auto)
qed

lemma pool_inv_cancel_delete:
  assumes inv: "pool_inv s" and b: "CancelPageDeletion p (ps_pool s) = (bp, c)"
  shows "pool_inv (set_pool bp s)"
proof -
  note I = pool_invD[OF inv]
  have erase: "pool_inv (set_pool (ps_pool s'\<lparr>delete_pending_pages := delete_pending_pages (ps_pool s') - {p}\<rparr>) s')"
    if inv': "pool_inv s'" and n: "\<And>f. f < n_of s' \<Longrightarrow> st_at s' f = FS_DeletePending \<Longrightarrow> pg_at s' f \<noteq> p" for s'
  proof (rule pool_inv_pending[OF inv'])
    show "delete_pending_pages (ps_pool s') - {p} \<subseteq> al_of s'" using pool_invD(8)[OF inv'] by auto
    show "q \<notin> delete_pending_pages (ps_pool s') - {p}" if "new_page (ps_job s' g) = Some q" for g q
      using that pool_invD(12)[OF inv'] by (auto simp: new_inv_def)
    show "pg_at s' f \<in> delete_pending_pages (ps_pool s') - {p}" if "f < n_of s'" "st_at s' f = FS_DeletePending" for f
      using frame_invD(6)[OF inv' that] n[OF that] by simp
  qed
  have own: "page_table (ps_pool s) p = Some f" if "f < n_of s" "st_at s f = FS_DeletePending" "pg_at s f = p" for f
    using state_owns[OF that(1)] that I(6)[of p f] by simp
  consider "bp = ps_pool s" | "page_table (ps_pool s) p = None" "bp = ps_pool s\<lparr>delete_pending_pages := delete_pending_pages (ps_pool s) - {p}\<rparr>"
    | f where "page_table (ps_pool s) p = Some f" "st_at s f = FS_DeletePending" "pin_count (fr_at s f) = 0"
        "bp = (let b = fst (call_replacer (Unpin f) (upd_frame f (\<lambda>fr. fr\<lparr>frame_state := FS_Valid\<rparr>) (ps_pool s)))
               in b\<lparr>delete_pending_pages := delete_pending_pages b - {p}\<rparr>)"
  proof (cases "page_table (ps_pool s) p")
    case None
    have "bp = ps_pool s \<or> bp = ps_pool s\<lparr>delete_pending_pages := delete_pending_pages (ps_pool s) - {p}\<rparr>"
      using b None unfolding CancelPageDeletion_def Let_def by (simp split: if_splits)
    then show ?thesis by (elim disjE) (rule that(1), assumption, rule that(2)[OF None], assumption)
  next
    case (Some f)
    have "bp = ps_pool s \<or> st_at s f = FS_DeletePending \<and> pin_count (fr_at s f) = 0 \<and>
        bp = (let b = fst (call_replacer (Unpin f) (upd_frame f (\<lambda>fr. fr\<lparr>frame_state := FS_Valid\<rparr>) (ps_pool s)))
               in b\<lparr>delete_pending_pages := delete_pending_pages b - {p}\<rparr>)"
      using b Some unfolding CancelPageDeletion_def Let_def by (simp split: if_splits)
    then show ?thesis
      by (elim disjE conjE) (rule that(1), assumption, rule that(3)[OF Some], assumption+)
  qed
  then show ?thesis
  proof cases
    case 1
    then show ?thesis using inv by simp
  next
    case 2
    have "st_at s f = FS_DeletePending \<Longrightarrow> pg_at s f \<noteq> p" if "f < n_of s" for f using own[OF that] 2(1) by auto
    then show ?thesis using erase[OF inv] 2(2) by simp
  next
    case (3 f)
    have T: "pg_at s f = p" "f < n_of s" "owns s f p" "contains s f p" using table_state[OF inv 3(1)] 3(2) by auto
    have ni: "f \<notin> idle s" using 3(2) by (simp add: idle_def)
    have R: "rep_ok (n_of s) (idle s) (pool_replacer (upd_frame f (\<lambda>fr. fr\<lparr>frame_state := FS_Valid\<rparr>) (ps_pool s)))"
      using I(10) by (simp add: rep_inv_idle)
    let ?u = "upd_frame f (\<lambda>fr. fr\<lparr>frame_state := FS_Valid\<rparr>) (ps_pool s)"
    obtain r where r: "call_replacer (Unpin f) ?u = (?u\<lparr>pool_replacer := r\<rparr>, Code_Ok)" "rep_ok (n_of s) (insert f (idle s)) r"
      using call_unpin[OF R T(2) ni] by blast
    let ?s1 = "set_pool (?u\<lparr>pool_replacer := r\<rparr>) s"
    have L: "length (frames (ps_pool s)) = n_of s" using I(2) .
    note D = frame_invD[OF inv T(2)]
    have J: "ps_job s f = None" using job_settled[OF D(1)] 3(2) by simp
    have st: "fr_at ?s1 f = (fr_at s f)\<lparr>frame_state := FS_Valid\<rparr>" using L T(2) by simp
    have i1: "pool_inv ?s1"
    proof (rule pool_inv_local[OF inv T(2)])
      show "frame_inv ?s1 f" unfolding frame_inv_def Let_def st using D T(1) J 3(2) by (auto simp: bytes_ok_def)
      show "rep_inv ?s1" using r(2) idle_update[of ?s1 s f] L T(2) st 3(3) by (simp add: rep_inv_idle)
      show "length x = page_size \<and> (contains ?s1 f q \<or> dp ?s1 q = x)" if "owns s f q" "ps_map ?s1 q = Some x" for q x
        using that I(11) J T(2) 3(2) L by (auto simp: map_inv_def owns_def contains_def occupied_def)
    qed (use I(1) L T(2) J 3(2) in \<open>auto simp: owns_def occupied_def\<close>)
    have n: "pg_at ?s1 g \<noteq> p" if g: "g < n_of ?s1" "st_at ?s1 g = FS_DeletePending" for g
    proof -
      have "g \<noteq> f" using g(2) st by auto
      then show ?thesis using g own[of g] 3(1) by auto
    qed
    have bp: "bp = ?u\<lparr>pool_replacer := r, delete_pending_pages := delete_pending_pages (ps_pool s) - {p}\<rparr>" using 3(4) r(1) by simp
    show ?thesis using erase[OF i1 n] by (simp add: bp)
  qed
qed

text \<open>A page leaves the disk, and with it the frame \<open>f\<close> if it has it.\<close>

lemma pool_inv_free_page:
  assumes inv: "pool_inv s" and f: "f < n_of s" and n: "n_of s' = n_of s" "length (frames (ps_pool s')) = n_of s"
    and others: "\<And>g. g \<noteq> f \<Longrightarrow> fr_at s' g = fr_at s g \<and> ps_job s' g = ps_job s g \<and> ps_hold s' g = ps_hold s g"
    and p: "p \<in> delete_pending_pages (ps_pool s)" "page_table (ps_pool s) p = None \<or> page_table (ps_pool s) p = Some f"
    and table: "page_table (ps_pool s') = (page_table (ps_pool s))(p := None)" "\<And>q. owns s' f q \<longleftrightarrow> owns s f q \<and> q \<noteq> p"
    and c: "\<And>q. q \<noteq> p \<Longrightarrow> contains s' f q = contains s f q"
    and disk: "disk_ok (dk s')" "al_of s' = al_of s - {p}" "\<And>q. q \<in> al_of s \<Longrightarrow> q \<noteq> p \<Longrightarrow> dp s' q = dp s q"
    and pend: "delete_pending_pages (ps_pool s') = delete_pending_pages (ps_pool s) - {p}" and map: "ps_map s' = (ps_map s)(p := None)"
    and new: "new_page (ps_job s' f) = new_page (ps_job s f)"
    and here: "frame_inv s' f" and fr: "free_inv s'" and rep: "rep_inv s'"
  shows "pool_inv s'"
proof (rule pool_inv_update[OF inv f n others])
  note I = pool_invD[OF inv]
  have N: "q \<in> al_of s \<and> page_table (ps_pool s) q = None \<and> ps_map s q = None \<and> q \<notin> delete_pending_pages (ps_pool s)"
    "new_page (ps_job s h) = Some q \<Longrightarrow> h = g" if "new_page (ps_job s g) = Some q" for g q h
    using I(12) that unfolding new_inv_def by blast+
  have np: "new_page (ps_job s g) \<noteq> Some p" for g using N(1)[of g p] p(1) by auto
  show "page_table (ps_pool s') q =
      (if owns s' f q then Some f else if page_table (ps_pool s) q = Some f then None else page_table (ps_pool s) q)" for q
    using I(6)[of q f] table(2)[of q] p(2) by (auto simp: table(1))
  show "(page_table (ps_pool s) q = None \<or> page_table (ps_pool s) q = Some f) \<and> q \<in> al_of s' \<and>
      (\<forall>g. g \<noteq> f \<longrightarrow> new_page (ps_job s g) \<noteq> Some q)" if "owns s' f q" for q
  proof -
    have o: "owns s f q" "q \<noteq> p" using that table(2) by auto
    show ?thesis using owns_facts(2,3)[OF inv o(1)] owns_facts(7)[OF inv o(1)] o(2) disk(2) by simp
  qed
  show "(page_table (ps_pool s) q = None \<or> page_table (ps_pool s) q = Some f) \<and> ps_map s' q = None \<and>
      q \<notin> delete_pending_pages (ps_pool s') \<and> (\<forall>g. g \<noteq> f \<longrightarrow> new_page (ps_job s g) \<noteq> Some q)"
    if "q \<in> al_of s" "q \<notin> al_of s'" for q
    using that disk(2) p np map pend by auto
  show "q \<in> al_of s' \<and> (\<forall>g. g \<noteq> f \<longrightarrow> new_page (ps_job s g) \<noteq> Some q)" if "q \<in> delete_pending_pages (ps_pool s')" for q
    using that pend disk(2) I(8) N(1)[of _ q] by auto
  show "q \<in> delete_pending_pages (ps_pool s')" if "q \<in> delete_pending_pages (ps_pool s)" "page_table (ps_pool s) q = Some g" "g \<noteq> f" for q g
  proof -
    have "q \<noteq> p" using that(2,3) p(2) by auto
    then show ?thesis using that(1) pend by simp
  qed
  show "ps_map s' q = ps_map s q \<and> dp s' q = dp s q \<or> page_table (ps_pool s) q = None \<and> ps_map s' q = None"
    if "q \<in> al_of s" "page_table (ps_pool s) q \<noteq> Some f" for q
    using that disk(3)[of q] map p(2) by auto
  show "q \<in> al_of s' \<and> length x = page_size \<and> (contains s' f q \<or> dp s' q = x)"
    if "page_table (ps_pool s) q = Some f \<or> owns s' f q \<or> q \<notin> al_of s" "ps_map s' q = Some x" for q x
  proof -
    have q: "q \<noteq> p" "ps_map s q = Some x" using that(2) map by (auto split: if_splits)
    then have m: "q \<in> al_of s" "length x = page_size" using I(11) by (auto simp: map_inv_def)
    then have o: "owns s f q" using that(1) table(2)[of q] I(6)[of q f] by auto
    have "contains s f q \<or> dp s q = x" using map_disk[OF inv q(2)] o by blast
    then show ?thesis using m q(1) disk(2) disk(3)[OF m(1) q(1)] c[OF q(1)] by simp
  qed
  show "q \<in> al_of s' \<and> page_table (ps_pool s') q = None \<and> ps_map s' q = None \<and> q \<notin> delete_pending_pages (ps_pool s') \<and>
      (\<forall>g. g \<noteq> f \<longrightarrow> new_page (ps_job s g) \<noteq> Some q)" if "new_page (ps_job s' f) = Some q" for q
  proof -
    have q: "new_page (ps_job s f) = Some q" using that new by simp
    then have "q \<noteq> p" using np by auto
    then show ?thesis using N(1)[OF q] N(2)[OF q] disk(2) table(1) map pend by auto
  qed
  show "disk_ok (dk s')" "frame_inv s' f" "free_inv s'" "rep_inv s'" by (rule disk(1) here fr rep)+
qed

lemma pool_inv_finalize_absent:
  assumes inv: "pool_inv s" and p: "p \<in> delete_pending_pages (ps_pool s)" "page_table (ps_pool s) p = None"
    and e: "finalize_absent p (ps_pool s) = (bp, c)"
  shows "c = Code_Ok \<and> pool_inv ((set_pool bp s)\<lparr>ps_map := (ps_map s)(p := None), ps_base := b, ps_log := l\<rparr>)" (is "_ \<and> pool_inv ?s")
proof -
  note I = pool_invD[OF inv]
  have al: "p \<in> al_of s" using I(8) p(1) by auto
  obtain dm where dm: "DeallocatePage p (dk s) = (dm, Code_Ok)" "disk_ok dm" "allocated dm = al_of s - {p}"
    "\<forall>q \<in> al_of s - {p}. disk_page dm q = dp s q" using disk.fr_page[OF I(1) al] by auto
  have bp: "bp = ps_pool s\<lparr>disk_manager := dm, delete_pending_pages := delete_pending_pages (ps_pool s) - {p}\<rparr>" "c = Code_Ok"
    using e dm(1) by (auto simp: finalize_absent_def Let_def)
  have fr: "fr_at ?s = fr_at s" by (simp add: frame_at_def bp fun_eq_iff)
  have o: "owns ?s f q = owns s f q" "contains ?s f q = contains s f q" for f q
    using fr by (simp_all add: owns_def contains_def occupied_def bp)
  have ne: "owns s f q \<Longrightarrow> q \<noteq> p" for f q using p(2) I(6)[of q f] by auto
  have "frame_inv ?s 0"
  proof (rule frame_inv_cong[where g = 0, OF _ _ _ I(13) _ I(5)[OF I(13)]])
    show "(ps_map ?s q = ps_map s q \<or> ps_map ?s q = None) \<and> dp ?s q = dp s q \<and>
        (q \<in> delete_pending_pages (ps_pool s) \<longrightarrow> q \<in> delete_pending_pages (ps_pool ?s))" if "owns s 0 q" for q
      using that ne[OF that] owns_facts(3)[OF inv that] dm(4) by (simp add: bp)
  qed (simp_all add: bp frame_at_def)
  moreover have "free_inv ?s" using I(9) fr by (simp add: free_inv_def bp)
  moreover have "rep_inv ?s" using I(10) fr by (simp add: rep_inv_def bp)
  moreover have "page_table (ps_pool ?s) = (page_table (ps_pool s))(p := None)" using p(2) by (auto simp: bp)
  ultimately have "pool_inv ?s"
  proof (rule_tac pool_inv_free_page[OF inv I(13) _ _ _ p(1) disjI1[OF p(2)]])
    show "owns ?s 0 q \<longleftrightarrow> owns s 0 q \<and> q \<noteq> p" for q using o(1)[of 0 q] ne[of 0 q] by blast
    show "contains ?s 0 q = contains s 0 q" for q by (rule o(2))
    show "dp ?s q = dp s q" if "q \<in> al_of s" "q \<noteq> p" for q using that dm(4) by (simp add: bp)
  qed (use fr dm I(2) in \<open>simp_all add: bp\<close>)
  then show ?thesis using bp by simp
qed

lemma pool_inv_finalize_frame:
  assumes inv: "pool_inv s" and e: "finalize_enter p (ps_pool s) = (b0, FN_Frame f)" and io: "finalize_io h f p b0 = Some (b1, c1)"
    and fin: "finalize_finish f p c1 b1 = (bp, c)"
  shows "if c = Code_Ok then pool_inv ((set_pool bp s)\<lparr>ps_map := (ps_map s)(p := None), ps_base := b, ps_log := l\<rparr>) else pool_inv (set_pool bp s)"
proof -
  note I = pool_invD[OF inv]
  have E: "p \<in> delete_pending_pages (ps_pool s)" "page_table (ps_pool s) p = Some f" "st_at s f = FS_DeletePending" "pin_count (fr_at s f) = 0"
    "b0 = upd_frame f (\<lambda>fr. fr\<lparr>pin_count := 1\<rparr>) (ps_pool s)"
    using e by (auto simp: finalize_enter_def split: if_splits option.splits)
  have T: "pg_at s f = p" "f < n_of s" "owns s f p" "contains s f p" using table_state[OF inv E(2)] E(3) by auto
  note D = frame_invD[OF inv T(2)]
  have L: "length (frames (ps_pool s)) = n_of s" using I(2) .
  have J: "ps_job s f = None" using job_settled[OF D(1)] E(3) by simp
  have hs: "ps_hold s f = []" using D(2) E(3,4) by simp
  have al: "p \<in> al_of s" using I(8) E(1) by auto
  have len: "length (frame_page (fr_at s f)) = page_size" using page_length[OF inv T(2)] .
  have fr0: "frame_at b0 f = (fr_at s f)\<lparr>pin_count := 1\<rparr>" "disk_manager b0 = dk s" using L T(2) by (simp_all add: E(5))
  have "\<exists>lm dm w. (if is_dirty (frame_at b0 f) then write_frame h f p b0 else Some (b0, Code_Ok)) = Some (b0\<lparr>log_manager := lm, disk_manager := dm\<rparr>, w) \<and>
      disk_ok dm \<and> allocated dm = al_of s \<and> (\<forall>q \<in> al_of s. q \<noteq> p \<longrightarrow> disk_page dm q = dp s q) \<and> (w \<noteq> Code_Ok \<longrightarrow> dm = dk s \<and> w = IOError)"
  proof (cases "is_dirty (frame_at b0 f)")
    case False
    then show ?thesis using I(1) fr0 by (intro exI[of _ "log_manager b0"] exI[of _ "dk s"] exI[of _ Code_Ok]) auto
  next
    case True
    obtain bw w where w: "write_frame h f p b0 = Some (bw, w)" using io True
      by (auto simp: finalize_io_def split: option.splits)
    from disk.wr_page[OF I(1) al len] obtain dm where
      dm: "WritePage p (frame_page (fr_at s f)) (dk s) = (dm, Code_Ok)" "disk_ok dm" "allocated dm = al_of s"
        "\<forall>q \<in> al_of s. q \<noteq> p \<longrightarrow> disk_page dm q = dp s q" by blast
    have wr: "WritePage p (frame_page (frame_at b0 f)) (disk_manager b0) = (dm, Code_Ok)" using dm(1) fr0 by simp
    have ex: "\<exists>lm. bw = b0\<lparr>log_manager := lm, disk_manager := (if w = Code_Ok then dm else disk_manager b0)\<rparr> \<and> (w \<noteq> Code_Ok \<longrightarrow> w = IOError)"
    proof (cases "log_manager_bound b0 \<and> page_lsn (frame_at b0 f) \<noteq> kInvalidLsn")
      case True
      then show ?thesis using w wr unfolding write_frame_def FlushFrameToDisk_def Let_def
        by (auto split: if_splits option.splits prod.splits)
    next
      case False
      then show ?thesis using w wr unfolding write_frame_def FlushFrameToDisk_def Let_def
        by (intro exI[of _ "log_manager b0"]) auto
    qed
    obtain lm where bw: "bw = b0\<lparr>log_manager := lm, disk_manager := (if w = Code_Ok then dm else dk s)\<rparr>" "w \<noteq> Code_Ok \<longrightarrow> w = IOError"
      using ex unfolding fr0(2) by blast
    show ?thesis using True w dm I(1) bw(2) unfolding bw(1)
      by (intro exI[of _ lm] exI[of _ "if w = Code_Ok then dm else dk s"] exI[of _ w]) auto
  qed
  then obtain lm dm w where w: "(if is_dirty (frame_at b0 f) then write_frame h f p b0 else Some (b0, Code_Ok)) = Some (b0\<lparr>log_manager := lm, disk_manager := dm\<rparr>, w)"
    and d: "disk_ok dm" "allocated dm = al_of s" "\<forall>q \<in> al_of s. q \<noteq> p \<longrightarrow> disk_page dm q = dp s q" "w \<noteq> Code_Ok \<longrightarrow> dm = dk s \<and> w = IOError" by blast
  obtain dm2 where dm2: "DeallocatePage p dm = (dm2, Code_Ok)" "disk_ok dm2" "allocated dm2 = al_of s - {p}"
    "\<forall>q \<in> al_of s - {p}. disk_page dm2 q = disk_page dm q" using disk.fr_page[OF d(1), of p] al unfolding d(2) by blast
  show ?thesis
  proof (cases "w = Code_Ok")
    case False
    have "b1 = b0\<lparr>log_manager := lm, disk_manager := dk s\<rparr>" "c1 \<noteq> Code_Ok"
      using io w False d(4) by (auto simp: finalize_io_def Let_def split: if_splits)
    then have "bp = upd_frame f (\<lambda>fr. fr\<lparr>pin_count := 0, frame_state := FS_DeletePending\<rparr>) (b0\<lparr>log_manager := lm, disk_manager := dk s\<rparr>)" "c \<noteq> Code_Ok"
      using fin by (auto simp: finalize_finish_def)
    moreover from this have "core_same (ps_pool s) bp"
      using E(3,4) L T(2) by (simp add: core_same_def E(5) upd_frame_def frame_at_def list_update_same_conv)
    ultimately show ?thesis using pool_inv_set[OF inv] by simp
  next
    case True
    let ?b1 = "upd_frame f (\<lambda>fr. fr\<lparr>frame_page := empty_page\<rparr>) (b0\<lparr>log_manager := lm, disk_manager := dm2\<rparr>)"
    have b1: "b1 = ?b1" "c1 = Code_Ok" using io w True dm2(1) by (auto simp: finalize_io_def Let_def)
    let ?b2 = "upd_frame f (\<lambda>fr. fr\<lparr>frame_page_id := INVALID_PAGE_ID, pin_count := 0, is_dirty := False, frame_state := FS_Empty\<rparr>)
        (?b1\<lparr>page_table := (page_table (ps_pool s))(p := None)\<rparr>)\<lparr>delete_pending_pages := delete_pending_pages (ps_pool s) - {p}\<rparr>"
    have ni: "f \<notin> idle s" using E(3) by (simp add: idle_def)
    have R: "rep_ok (n_of s) (idle s) (pool_replacer ?b2)" using I(10) by (simp add: rep_inv_idle E(5))
    obtain r where r: "call_replacer (Remove f) ?b2 = (?b2\<lparr>pool_replacer := r\<rparr>, Code_Ok)" "rep_ok (n_of s) (idle s) r"
      using call_remove[OF R T(2)] ni by auto
    have ff: "f \<notin> free_frame_set (ps_pool s)" using I(9) E(3) by (auto simp: free_inv_def)
    have fr2: "frame_at (?b2\<lparr>pool_replacer := r\<rparr>) f = (fr_at s f)\<lparr>frame_page := empty_page, frame_page_id := INVALID_PAGE_ID, pin_count := 0,
        is_dirty := False, frame_state := FS_Empty\<rparr>" using L T(2) by (simp add: E(5))
    have bp: "bp = ?b2\<lparr>pool_replacer := r, free_frame_set := insert f (free_frame_set (ps_pool s)), free_frames := free_frames (ps_pool s) @ [f]\<rparr>"
      "c = Code_Ok"
      using fin return_free[of f "?b2\<lparr>pool_replacer := r\<rparr>"] fr2 L T(2) ff r(1) unfolding b1 by (simp_all add: finalize_finish_def Let_def E(5))
    let ?s = "(set_pool bp s)\<lparr>ps_map := (ps_map s)(p := None), ps_base := b, ps_log := l\<rparr>"
    have st: "fr_at ?s f = (fr_at s f)\<lparr>frame_page := empty_page, frame_page_id := INVALID_PAGE_ID, pin_count := 0, is_dirty := False, frame_state := FS_Empty\<rparr>"
      using fr2 by (simp add: bp)
    have sv: "st_at ?s f = FS_Empty" unfolding st by simp
    have o: "owns s f q \<longleftrightarrow> q = p" "contains s f q \<longleftrightarrow> q = p" "\<not> owns ?s f q" "\<not> contains ?s f q" for q
      unfolding owns_def contains_def occupied_def sv using T(1,2) E(3) J by auto
    have "pool_inv ?s"
    proof (rule pool_inv_free_page[OF inv T(2), where p = p])
      show "frame_inv ?s f" unfolding frame_inv_def Let_def st using hs J by (simp add: bytes_ok_def)
      show "free_inv ?s" using free_give[OF I(9), of ?s f] T(2) E(3) sv L by (simp add: bp E(5))
      show "rep_inv ?s" using r(2) idle_update[of ?s s f] T(2) ni sv by (simp add: rep_inv_idle bp E(5))
    qed (use E o dm2 d J L T(2) in \<open>auto simp: bp E(5)\<close>)
    then show ?thesis using bp(2) by simp
  qed
qed

lemma finalize_same:
  assumes "finalize_enter p bp = (bp', FN_Return c)"
  shows "bp' = bp \<and> (c \<noteq> Code_Ok)"
  using assms by (auto simp: finalize_enter_def split: if_splits option.splits)

lemma pool_inv_finalize:
  assumes inv: "pool_inv s" and e: "FinalizePageDeletion h p (ps_pool s) = Some (bp, c)"
  shows "if c = Code_Ok then pool_inv ((set_pool bp s)\<lparr>ps_map := (ps_map s)(p := None), ps_base := b, ps_log := l\<rparr>) else pool_inv (set_pool bp s)"
proof -
  obtain b0 r where f: "finalize_enter p (ps_pool s) = (b0, r)" by fastforce
  show ?thesis
  proof (cases r)
    case (FN_Return x)
    have "b0 = ps_pool s" "x \<noteq> Code_Ok" using finalize_same[of p "ps_pool s" b0 x] f FN_Return by auto
    moreover have "bp = b0" "c = x" using f e FN_Return by (simp_all add: FinalizePageDeletion_def)
    ultimately show ?thesis using inv by simp
  next
    case FN_Absent
    then have a: "b0 = ps_pool s" "p \<in> delete_pending_pages (ps_pool s)" "page_table (ps_pool s) p = None"
      using f by (auto simp: finalize_enter_def split: if_splits option.splits)
    have "finalize_absent p (ps_pool s) = (bp, c)" using e f FN_Absent a(1) by (simp add: FinalizePageDeletion_def)
    from pool_inv_finalize_absent[OF inv a(2,3) this] show ?thesis by simp
  next
    case (FN_Frame g)
    then obtain b1 c1 where io: "finalize_io h g p b0 = Some (b1, c1)" "finalize_finish g p c1 b1 = (bp, c)"
      using e f by (auto simp: FinalizePageDeletion_def split: option.splits)
    from pool_inv_finalize_frame[OF inv f[unfolded FN_Frame] io] show ?thesis .
  qed
qed

lemma restored_fields [simp]:
  "ps_pool (restored p b bp s) = bp" "ps_map (restored p b bp s) = (ps_map s)(p \<mapsto> b)" "ps_job (restored p b bp s) = ps_job s"
  "ps_hold (restored p b bp s) = ps_hold s" "ps_base (restored p b bp s) = (ps_base s)(p \<mapsto> b)"
  "ps_log (restored p b bp s) = filter (\<lambda>(q, l, c). q \<noteq> p) (ps_log s)"
  by (simp_all add: restored_def)

subsection \<open>Restoring a page image\<close>

text \<open>What a restore does when it runs to its end before other calls touch the pool: the page is on
  the disk, and in its frame, clean, when it has one.\<close>

lemma restore_page:
  assumes inv: "pool_inv s" and k: "known_page s p" and len: "length b = page_size"
    and e: "RestorePage p b True (ps_pool s) = (bp, Code_Ok)"
  shows "pool_inv (restored p b bp s) \<and> n_of (restored p b bp s) = n_of s \<and>
    log_manager bp = log_manager (ps_pool s) \<and> log_manager_bound bp = log_manager_bound (ps_pool s) \<and>
    allocated (disk_manager bp) = al_of s \<and> disk_page (disk_manager bp) p = b \<and>
    (\<forall>q \<in> al_of s. q \<noteq> p \<longrightarrow> disk_page (disk_manager bp) q = dp s q) \<and>
    (\<forall>f. \<not> owns s f p \<longrightarrow> frame_at bp f = fr_at s f) \<and>
    (\<forall>f. owns s f p \<longrightarrow> \<not> is_dirty (frame_at bp f) \<and> ps_hold s f = [] \<and> ps_job s f = None)"
proof -
  note K = known_pageD[OF k] and I = pool_invD[OF inv]
  have p: "p \<in> al_of s" and new: "new_page (ps_job s g) \<noteq> Some p" for g using K by auto
  from disk.wr_page[OF I(1) p len] obtain dm where
    dm: "WritePage p b (dk s) = (dm, Code_Ok)" "disk_ok dm" "allocated dm = al_of s" "disk_page dm p = b"
      "\<forall>q \<in> al_of s. q \<noteq> p \<longrightarrow> disk_page dm q = dp s q" by blast
  have L: "length (frames (ps_pool s)) = n_of s" using I(2) .
  show ?thesis
  proof (cases "page_table (ps_pool s) p")
    case None
    let ?b = "ps_pool s\<lparr>disk_manager := dm\<rparr>" let ?s = "restored p b ?b s"
    have r: "bp = ?b" using e None dm(1) by (auto simp: RestorePage_def restore_enter_def split: if_splits)
    have fr: "fr_at ?s = fr_at s" by (simp add: fun_eq_iff)
    have ne: "\<not> owns s g p" for g using None I(6)[of p g] by auto
    then have ne': "owns s g q \<Longrightarrow> q \<noteq> p" for g q by blast
    have o: "owns ?s g q = owns s g q" "contains ?s g q = contains s g q" for g q
      by (simp_all add: owns_def contains_def occupied_def)
    have fi: "frame_inv ?s g" if g: "g < n_of s" for g
    proof (rule frame_inv_cong[of _ g s, OF _ _ _ g _ I(5)[OF g]])
      show "(ps_map ?s q = ps_map s q \<or> ps_map ?s q = None) \<and> dp ?s q = dp s q \<and>
          (q \<in> delete_pending_pages (ps_pool s) \<longrightarrow> q \<in> delete_pending_pages (ps_pool ?s))" if "owns s g q" for q
        using ne'[OF that] owns_facts(3)[OF inv that] dm(5) by simp
    qed simp_all
    have ip: "in_pool ?s q = in_pool s q" for q using o(2) by (simp add: in_pool_def)
    have mi: "map_inv ?s"
      using I(11) p len dm(3-5) by (auto simp: map_inv_def ip)
    have "pool_inv ?s"
      unfolding pool_inv_def
    proof (intro conjI)
      show "\<forall>p f. (page_table (ps_pool ?s) p = Some f) = owns ?s f p" using I(6) o(1) by simp
      show "\<forall>p f. page_table (ps_pool ?s) p = Some f \<longrightarrow> p \<in> al_of ?s" using I(7) dm(3) by auto
      show "free_inv ?s" "rep_inv ?s" using I(9,10) by (simp_all add: free_inv_def rep_inv_def)
      show "new_inv ?s" using I(12) new dm(3) by (auto simp: new_inv_def)
    qed (use I(2,3,4,8,13) dm(2,3) fi mi in simp_all)
    then show ?thesis using dm ne r by simp
  next
    case (Some f)
    have st: "st_at s f = FS_Valid" "pin_count (fr_at s f) = 0" "EnsureReadyUnlocked (ps_pool s) = Code_Ok" "\<not> (p = INVALID_PAGE_ID \<or> p = 0)"
      using e Some by (auto simp: RestorePage_def restore_enter_def split: if_splits)
    have T: "pg_at s f = p" "f < n_of s" "owns s f p" using table_state[OF inv Some] st(1) by auto
    note D = frame_invD[OF inv T(2)]
    have J: "ps_job s f = None" using job_settled[OF D(1)] st(1) by simp
    have H: "ps_hold s f = []" using D(2) st(1,2) by simp
    have own: "owns s f q \<longleftrightarrow> q = p" for q using T J st(1) by (auto simp: owns_def occupied_def)
    have R: "rep_ok (n_of s) (idle s) (pool_replacer (ps_pool s))" using I(10) by (simp add: rep_inv_idle)
    obtain r1 where r1: "call_replacer (Pin f) (ps_pool s) = (ps_pool s\<lparr>pool_replacer := r1\<rparr>, Code_Ok)" "rep_ok (n_of s) (idle s - {f}) r1"
      using call_pin[OF R T(2)] by blast
    let ?b1 = "upd_frame f (\<lambda>fr. fr\<lparr>pin_count := 1\<rparr>) (ps_pool s\<lparr>pool_replacer := r1\<rparr>)"
    let ?b2 = "upd_frame f (\<lambda>fr. fr\<lparr>frame_page := b\<rparr>) (?b1\<lparr>disk_manager := dm\<rparr>)"
    let ?b3 = "upd_frame f (\<lambda>fr. fr\<lparr>pin_count := 0\<rparr>) (upd_frame f (\<lambda>fr. fr\<lparr>is_dirty := False, page_lsn := kInvalidLsn\<rparr>) ?b2)"
    have "rep_ok (n_of s) (idle s - {f}) (pool_replacer ?b3)" using r1(2) by simp
    from call_unpin[OF this T(2)] obtain r2 where
      r2: "call_replacer (Unpin f) ?b3 = (?b3\<lparr>pool_replacer := r2\<rparr>, Code_Ok)" "rep_ok (n_of s) (insert f (idle s - {f})) r2" by auto
    let ?b = "?b3\<lparr>pool_replacer := r2\<rparr>" let ?s = "restored p b ?b s"
    have r: "bp = ?b"
      using e Some st r1(1) dm(1) r2(1)
      by (simp add: RestorePage_def restore_enter_def restore_io_def restore_finish_def Let_def)
    have fr: "fr_at ?s f = (fr_at s f)\<lparr>frame_page := b, is_dirty := False, page_lsn := kInvalidLsn, pin_count := 0\<rparr>"
      using T(2) L by simp
    have fo: "fr_at ?s g = fr_at s g" if "g \<noteq> f" for g using that by simp
    have sv: "st_at ?s f = FS_Valid" unfolding fr using st(1) by simp
    have o: "owns ?s f q = owns s f q" "contains ?s f q = contains s f q" for q
      unfolding owns_def contains_def occupied_def fr by simp_all
    have "pool_inv ?s"
    proof (rule pool_inv_local[OF inv T(2)])
      show "frame_inv ?s f" unfolding frame_inv_def Let_def fr using st(1) T(1) J H len dm(4) by (simp add: bytes_ok_def)
      show "rep_inv ?s" using r2(2) idle_update[of ?s s f] T(2) fr st(1) by (simp add: rep_inv_idle insert_absorb)
      show "length c = page_size \<and> (contains ?s f q \<or> dp ?s q = c)" if "owns s f q" "ps_map ?s q = Some c" for q c
        using that own dm(4) len by simp
      show "dp ?s q = dp s q" if "q \<in> al_of s" "\<not> owns s f q" for q using that own dm(5) by simp
      show "ps_map ?s q = ps_map s q" if "\<not> owns s f q" for q using that own by auto
    qed (use fo o st(1) sv L dm T(2) in \<open>simp_all\<close>)
    moreover have "owns s g p \<longleftrightarrow> g = f" for g using owns_unique[OF inv T(3), of g] T(3) by blast
    moreover have "frame_at ?b g = fr_at s g" if "g \<noteq> f" for g using fo[OF that] by simp
    moreover have "\<not> is_dirty (frame_at ?b f)" using fr by simp
    ultimately show ?thesis unfolding r using dm(3-5) J H by simp
  qed
qed

lemma restore_failed:
  assumes inv: "pool_inv s" and k: "known_page s p" and len: "length b = page_size"
    and e: "RestorePage p b True (ps_pool s) = (bp, c)" "c \<noteq> Code_Ok"
  shows "bp = ps_pool s"
proof -
  note I = pool_invD[OF inv]
  from disk.wr_page[OF I(1) _ len, of p] known_pageD[OF k] obtain dm where dm: "WritePage p b (dk s) = (dm, Code_Ok)" by blast
  show ?thesis
  proof (cases "page_table (ps_pool s) p")
    case None
    then show ?thesis using e dm by (auto simp: RestorePage_def restore_enter_def split: if_splits)
  next
    case (Some f)
    show ?thesis
    proof (cases "st_at s f = FS_Valid")
      case True
      then have f: "f < n_of s" using table_state[OF inv Some] by simp
      have R: "rep_ok (n_of s) (idle s) (pool_replacer (ps_pool s))" using I(10) by (simp add: rep_inv_idle)
      from call_pin[OF R f] e Some dm show ?thesis
        by (auto simp: RestorePage_def restore_enter_def restore_io_def Let_def split: if_splits)
    qed (use e Some in \<open>auto simp: RestorePage_def restore_enter_def split: if_splits\<close>)
  qed
qed

subsection \<open>All steps\<close>

lemma pool_step_inv:
  assumes "pool_step strict s s'" "pool_inv s"
  shows "pool_inv s'"
  using assms
proof cases
  case (s_fetch_error p bp e)
  then show ?thesis using fetch_turn_fetched[OF assms(2), of p bp "FE_Error e"] by (simp add: fetched_def)
next
  case (s_fetch_wait p bp)
  then show ?thesis using fetch_turn_fetched[OF assms(2), of p bp "FE_Wait"] by (simp add: fetched_def)
next
  case (s_fetch_hit p bp f)
  then show ?thesis using fetch_turn_fetched[OF assms(2), of p bp "FE_Hit f"] by (simp add: fetched_def)
next
  case (s_fetch_load p bp sel old)
  then show ?thesis using fetch_turn_fetched[OF assms(2), of p bp "FE_Load sel old"] by (simp add: fetched_def)
next
  case (s_load_io f p sel old h bp c)
  then show ?thesis using pool_inv_load_io[OF assms(2)] by simp
next
  case (s_load_failed f p sel old c)
  then show ?thesis using pool_inv_load_failed[OF assms(2)] by simp
next
  case (s_load_done f p sel old)
  then show ?thesis using pool_inv_load_done[OF assms(2)] by simp
next
  case (s_new_error tp bp e)
  then show ?thesis using pool_inv_new_start[OF assms(2), of tp bp "Inl e"] by simp
next
  case (s_new tp bp sel old)
  then show ?thesis using pool_inv_new_start[OF assms(2), of tp bp "Inr (sel, old)"] by simp
next
  case (s_new_evict f tp sel old h bp c)
  then show ?thesis using pool_inv_new_evict[OF assms(2)] by simp
next
  case (s_new_allocate f tp sel old c bp r)
  from pool_inv_core[OF pool_inv_new_allocate[OF assms(2) s_new_allocate(2,3)]] show ?thesis
    unfolding s_new_allocate(1) by simp
next
  case (s_new_lock f tp sel old r bp r')
  then show ?thesis using pool_inv_new_lock[OF assms(2), of f tp sel old r bp "Some r'"] by simp
next
  case (s_new_wait f tp sel old p bp)
  then show ?thesis using pool_inv_new_lock[OF assms(2), of f tp sel old "Inr p" bp None] by simp
next
  case (s_new_granted f tp sel old p)
  then show ?thesis
    using pool_inv_new_stage[OF assms(2), of f tp sel old "N_LockWait p" "ps_pool s" "N_Locked (Inr p)"] by simp
next
  case (s_new_refused f t sel old p c bp r)
  then show ?thesis using pool_inv_new_refused[OF assms(2)] by simp
next
  case (s_new_log f tp sel old r bp r')
  then show ?thesis using pool_inv_new_log[OF assms(2)] by simp
next
  case (s_new_failed f tp sel old e)
  then show ?thesis using pool_inv_new_failed[OF assms(2)] by simp
next
  case (s_new_done f tp sel old p)
  then show ?thesis using pool_inv_new_done[OF assms(2)] by simp
next
  case (s_latch_read f xs p ys)
  then show ?thesis using pool_inv_latch_read[OF assms(2)] by simp
next
  case (s_latch_write f xs p ys tp bp g)
  then show ?thesis using pool_inv_latch_write[OF assms(2)] by simp
next
  case (s_write f xs g x ys bytes)
  then show ?thesis using pool_inv_write[OF assms(2)] by simp
next
  case (s_read_drop f xs p ys)
  then show ?thesis using pool_inv_read_drop[OF assms(2)] by simp
next
  case (s_write_drop f xs g x ys bp g' c)
  then show ?thesis using pool_inv_write_drop[OF assms(2)] by simp
next
  case (s_release f xs p d ys bp c)
  then show ?thesis using pool_inv_release[OF assms(2), of f xs p d ys bp "RE_Return c"] by simp
next
  case (s_release_through f xs p d ys bp)
  then show ?thesis using pool_inv_release[OF assms(2), of f xs p d ys bp RE_Flush] by simp
next
  case (s_through_io f p h bp c)
  then show ?thesis using pool_inv_flush_written[OF assms(2), of f "JThrough p" p h bp c] by simp
next
  case (s_flush_return p bp c)
  then show ?thesis using pool_inv_flush_enter[OF assms(2), of p bp "PE_Return c"] by simp
next
  case (s_flush_write p bp f)
  then show ?thesis using pool_inv_flush_enter[OF assms(2), of p bp "PE_Write f"] by simp
next
  case (s_flush_drain p bp f)
  then show ?thesis using pool_inv_flush_enter[OF assms(2), of p bp "PE_Drain f"] by simp
next
  case (s_drained f p)
  then show ?thesis using pool_inv_drained[OF assms(2)] by simp
next
  case (s_write_io f p h bp c)
  then show ?thesis using pool_inv_flush_written[OF assms(2), of f "JWrite p" p h bp c] by (simp add: page_flush_io_def)
next
  case (s_flushed f p c)
  then show ?thesis using pool_inv_flushed[OF assms(2)] by simp
next
  case (s_begin_delete p n bp c)
  then show ?thesis using pool_inv_begin_delete[OF assms(2)] by simp
next
  case (s_cancel_delete p bp c)
  then show ?thesis using pool_inv_cancel_delete[OF assms(2)] by simp
next
  case (s_finalize h p bp)
  then show ?thesis using pool_inv_finalize[OF assms(2), of h p bp Code_Ok] by simp
next
  case (s_finalize_failed h p bp c)
  then show ?thesis using pool_inv_finalize[OF assms(2), of h p bp c] by simp
next
  case (s_restore p b bp)
  from restore_page[OF assms(2) s_restore(2-4)] show ?thesis unfolding s_restore(1) by blast
next
  case (s_restore_failed p b bp c)
  from restore_failed[OF assms(2) s_restore_failed(2-5)] assms(2) show ?thesis unfolding s_restore_failed(1) by simp
next
  case (s_locks lm)
  then show ?thesis using pool_inv_set[OF assms(2)] by simp
next
  case (s_append r lm res)
  then show ?thesis using pool_inv_set[OF assms(2)] by simp
next
  case (s_flush_log l h lm c)
  then show ?thesis using pool_inv_set[OF assms(2)] by simp
qed

lemma pool_start_inv:
  assumes "fresh_pool bp"
  shows "pool_inv (pool_start bp)"
proof -
  obtain n policy flush dm lm locks b b' where n: "n \<noteq> 0" "disk_ok dm"
    and bp: "bp = (make_BufferPool n policy flush dm lm locks)\<lparr>log_manager_bound := b, lock_manager_bound := b'\<rparr>"
    using assms by (auto simp: fresh_pool_def)
  have fr: "frame_at bp f = empty_frame" if "f < n" for f using that by (simp add: bp make_BufferPool_def frame_at_def)
  have rep: "rep_ok n {} (make_replacer policy n)"
    by (cases policy) (simp_all add: rep_ok_def init_invs)
  let ?s = "pool_start bp"
  have f: "ps_pool ?s = bp" "n_of ?s = n" "ps_job ?s = Map.empty" "ps_hold ?s = (\<lambda>f. [])" "dk ?s = dm" "ps_map ?s = disk_contents dm"
    "length (frames bp) = n" "page_table bp = Map.empty" "delete_pending_pages bp = {}" "free_frames bp = [0..<n]"
    "free_frame_set bp = {..<n}" "pool_replacer bp = make_replacer policy n"
    by (simp_all add: pool_start_def bp make_BufferPool_def)
  have occ: "\<not> occupied ?s g" for g using fr[of g] f(1,2) by (auto simp: occupied_def empty_frame_def)
  have own: "\<not> owns ?s g p" "\<not> contains ?s g p" for g p using occ f(3) by (auto simp: owns_def contains_def)
  have "frame_inv ?s g" if "g < n" for g
    using fr[OF that] f by (simp add: frame_inv_def Let_def empty_frame_def bytes_ok_def)
  moreover have "free_inv ?s" using fr f by (auto simp: free_inv_def empty_frame_def)
  moreover have "rep_inv ?s"
  proof -
    have "idle ?s = {}" using fr f(1,2) by (auto simp: idle_def empty_frame_def)
    then show ?thesis using rep f by (simp add: rep_inv_idle)
  qed
  moreover have "map_inv ?s"
    unfolding map_inv_def f using disk.valid[OF n(2)] f by (auto simp: disk_contents_def split: if_splits)
  moreover have "new_inv ?s" using f by (simp add: new_inv_def)
  ultimately show ?thesis unfolding pool_inv_def using n own f by simp
qed

theorem pool_run_inv: "pool_run strict bp s \<Longrightarrow> pool_inv s"
  by (induction rule: pool_run.induct) (auto intro: pool_start_inv pool_step_inv)

end
