(* ===== verification/PoolSafety.thy ===== *)
theory PoolSafety
  imports PoolSteps
begin

text \<open>
  What the invariant of the buffer pool gives its clients, and write-ahead logging: when every writer is a
  transaction, each page on the disk is as it was when the page was allocated, or as a record of the durable part of the
  log says.
\<close>

subsection \<open>The durable part of the log\<close>

lemma Append_durable:
  assumes "Append r lm = (lm', x)"
  shows "durable_lsn lm' = durable_lsn lm \<and> (\<forall>l. x = Inr l \<longrightarrow> l = append_lsn lm + 1)"
proof (cases "Encode r (append_lsn lm + 1)")
  case (Inl e)
  then show ?thesis using assms by (auto simp: Append_def Let_def split: if_splits)
next
  case (Inr b)
  then show ?thesis using assms by (auto simp: Append_def Let_def split: if_splits)
qed

lemma Flush_durable:
  "Flush l h lm = Some (lm', c) \<Longrightarrow> durable_lsn lm \<le> durable_lsn lm' \<and> (c = Code_Ok \<longrightarrow> l \<le> durable_lsn lm')"
  by (auto simp: Flush_def flush_enter_def EnsureOpenUnlocked_def Let_def flush_take_def flush_io_def flush_publish_def
      le_max_iff_disj split: if_splits)

abbreviation durable :: "BufferPoolManager \<Rightarrow> lsn_t" where
  "durable bp \<equiv> durable_lsn (log_manager bp)"

lemma write_frame_wal:
  assumes "write_frame h f q bp = Some (bp', c)"
  shows "durable bp \<le> durable bp' \<and> frames bp' = frames bp \<and> log_manager_bound bp' = log_manager_bound bp \<and> pool_size bp' = pool_size bp \<and>
    (c = Code_Ok \<and> log_manager_bound bp \<and> page_lsn (frame_at bp f) \<noteq> kInvalidLsn \<longrightarrow> page_lsn (frame_at bp f) \<le> durable bp')"
proof (cases "log_manager_bound bp \<and> page_lsn (frame_at bp f) \<noteq> kInvalidLsn")
  case True
  then obtain lm w where w: "Flush (page_lsn (frame_at bp f)) h (log_manager bp) = Some (lm, w)"
    using assms unfolding write_frame_def FlushFrameToDisk_def Let_def by (auto split: option.splits)
  show ?thesis using assms True w Flush_durable[OF w] unfolding write_frame_def FlushFrameToDisk_def Let_def
    by (auto split: if_splits prod.splits)
next
  case False
  then show ?thesis using assms unfolding write_frame_def FlushFrameToDisk_def Let_def by (auto split: prod.splits)
qed

lemma evict_io_wal:
  assumes "evict_io h sel old bp = Some (bp', c)" "sel_frame sel = f" "f < length (frames bp)"
    "w \<longleftrightarrow> \<not> from_free_list sel \<and> is_dirty (frame_at bp f)"
  shows "durable bp \<le> durable bp' \<and> length (frames bp') = length (frames bp) \<and> log_manager_bound bp' = log_manager_bound bp \<and>
    pool_size bp' = pool_size bp \<and> (\<forall>g. g \<noteq> f \<longrightarrow> frame_at bp' g = frame_at bp g) \<and>
    frame_at bp' f = (frame_at bp f)\<lparr>page_lsn := if c = Code_Ok \<and> w then kInvalidLsn else page_lsn (frame_at bp f)\<rparr> \<and>
    (c = Code_Ok \<and> w \<and> log_manager_bound bp \<and> page_lsn (frame_at bp f) \<noteq> kInvalidLsn \<longrightarrow> page_lsn (frame_at bp f) \<le> durable bp')"
proof (cases w)
  case True
  obtain b0 where b: "write_frame h f old bp = Some (b0, c)"
    "bp' = (if c = Code_Ok then upd_frame f (\<lambda>fr. fr\<lparr>page_lsn := kInvalidLsn\<rparr>) b0 else b0)"
    using assms(1,2,4) True by (auto simp: evict_io_def Let_def split: option.splits)
  note W = write_frame_wal[OF b(1)]
  then have F: "frame_at b0 = frame_at bp" "length (frames b0) = length (frames bp)" by (auto simp: frame_at_def fun_eq_iff)
  show ?thesis using W b(2) True assms(3) F by (cases "c = Code_Ok") auto
next
  case False
  then show ?thesis using assms(1,2,4) by (auto simp: evict_io_def Let_def)
qed

subsection \<open>Steps that leave the contents of the frames alone\<close>

definition in_use :: "Frame \<Rightarrow> bool" where
  "in_use fr \<longleftrightarrow> frame_state fr \<in> {FS_Valid, FS_Flushing, FS_Evicting, FS_DeletePending}"

definition keeps :: "Frame \<Rightarrow> Frame \<Rightarrow> bool" where
  "keeps fr fr' \<longleftrightarrow> (in_use fr' \<longrightarrow> in_use fr \<and> frame_page_id fr' = frame_page_id fr \<and> frame_page fr' = frame_page fr \<and>
     page_lsn fr' = page_lsn fr \<and> is_dirty fr' = is_dirty fr)"

definition quiet :: "BufferPoolManager \<Rightarrow> BufferPoolManager \<Rightarrow> bool" where
  "quiet bp bp' \<longleftrightarrow> pool_size bp' = pool_size bp \<and> length (frames bp') = length (frames bp) \<and>
     log_manager_bound bp' = log_manager_bound bp \<and> durable bp \<le> durable bp' \<and>
     (\<forall>g < length (frames bp). keeps (frame_at bp g) (frame_at bp' g))"

lemma keeps_refl [simp]: "keeps fr fr"
  by (simp add: keeps_def)

lemma keeps_trans: "keeps fr fr' \<Longrightarrow> keeps fr' fr'' \<Longrightarrow> keeps fr fr''"
  by (simp add: keeps_def)

lemma quiet_refl [simp]: "quiet bp bp"
  by (simp add: quiet_def)

lemma quiet_trans: "quiet bp bp' \<Longrightarrow> quiet bp' bp'' \<Longrightarrow> quiet bp bp''"
proof -
  assume a: "quiet bp bp'" "quiet bp' bp''"
  have "keeps (frame_at bp g) (frame_at bp'' g)" if "g < length (frames bp)" for g
    using a that keeps_trans[of "frame_at bp g" "frame_at bp' g" "frame_at bp'' g"] by (simp add: quiet_def)
  then show ?thesis using a order_trans[of "durable bp" "durable bp'" "durable bp''"] by (simp add: quiet_def)
qed

lemma quiet_upd:
  assumes "quiet bp0 bp" "f < length (frames bp) \<Longrightarrow> keeps (frame_at bp f) (F (frame_at bp f))"
  shows "quiet bp0 (upd_frame f F bp)"
proof (rule quiet_trans[OF assms(1)])
  have "keeps (frame_at bp g) (frame_at (upd_frame f F bp) g)" if "g < length (frames bp)" for g
    using that assms(2) by (cases "g = f") auto
  then show "quiet bp (upd_frame f F bp)" by (simp add: quiet_def)
qed

lemma quiet_same:
  assumes "quiet bp0 bp" "pool_size bp' = pool_size bp" "frames bp' = frames bp" "log_manager_bound bp' = log_manager_bound bp"
    "durable bp \<le> durable bp'"
  shows "quiet bp0 bp'"
proof (rule quiet_trans[OF assms(1)])
  have "frame_at bp' = frame_at bp" using assms(3) by (simp add: frame_at_def fun_eq_iff)
  then show "quiet bp bp'" using assms by (simp add: quiet_def)
qed

lemma keeps_simps [simp]:
  "keeps fr (fr\<lparr>pin_count := n\<rparr>)" "keeps fr (fr\<lparr>frame_state := FS_Loading\<rparr>)" "keeps fr (fr\<lparr>frame_state := FS_Empty\<rparr>)"
  "in_use fr \<Longrightarrow> keeps fr (fr\<lparr>frame_state := st\<rparr>)" "in_use fr \<Longrightarrow> keeps fr (fr\<lparr>frame_state := st, pin_count := n\<rparr>)"
  "in_use fr \<Longrightarrow> keeps fr (fr\<lparr>pin_count := n, frame_state := st\<rparr>)"
  "keeps fr (fr\<lparr>frame_page_id := p, pin_count := n, is_dirty := d, frame_state := FS_Empty\<rparr>)"
  "frame_state fr = FS_Loading \<Longrightarrow> keeps fr (fr\<lparr>frame_page := b\<rparr>)"
  "frame_state fr = FS_Loading \<Longrightarrow> keeps fr (fr\<lparr>frame_page_id := p, pin_count := n\<rparr>)"
  by (simp_all add: keeps_def in_use_def)

lemma call_replacer_same: "call_replacer x bp = (bp', c) \<Longrightarrow> \<exists>r. bp' = bp\<lparr>pool_replacer := r\<rparr>"
  by (auto simp: call_replacer_def split: prod.splits rep_reply.splits)

lemma quiet_replacer: "quiet bp0 bp \<Longrightarrow> quiet bp0 (fst (call_replacer x bp))"
proof -
  assume q: "quiet bp0 bp"
  obtain bp' c where c: "call_replacer x bp = (bp', c)" by fastforce
  show ?thesis using quiet_same[OF q] call_replacer_same[OF c] c by auto
qed

lemma quiet_replacer': "quiet bp0 bp \<Longrightarrow> call_replacer x bp = (bp', c) \<Longrightarrow> quiet bp0 bp'"
  using quiet_replacer[of bp0 bp x] by simp

lemma core_quiet:
  assumes "core_same bp bp'" "log_manager_bound bp' = log_manager_bound bp" "durable bp \<le> durable bp'"
  shows "quiet bp bp'"
  by (rule quiet_same[OF quiet_refl]) (use assms in \<open>auto simp: core_same_def\<close>)

lemma quiet_select:
  assumes "SelectFrameUnlocked bp = (bp', r)"
  shows "quiet bp bp' \<and> (\<forall>sel. r = Inr sel \<and> from_free_list sel \<and> sel_frame sel < length (frames bp') \<longrightarrow>
    frame_state (frame_at bp' (sel_frame sel)) = FS_Loading)"
proof (cases "free_frames bp")
  case (Cons f rest)
  let ?b = "bp\<lparr>free_frames := rest, free_frame_set := free_frame_set bp - {f}\<rparr>"
  have q: "quiet bp ?b" by (rule quiet_same[OF quiet_refl]) simp_all
  have "quiet bp (upd_frame f (\<lambda>fr. fr\<lparr>frame_state := FS_Loading\<rparr>) ?b)" by (rule quiet_upd[OF q]) simp
  then show ?thesis using assms q Cons by (auto simp: SelectFrameUnlocked_def Let_def split: if_splits)
next
  case Nil
  obtain b v where v: "call_victim bp = (b, v)" by fastforce
  then obtain r' where b: "b = bp\<lparr>pool_replacer := r'\<rparr>" by (auto simp: call_victim_def split: prod.splits rep_reply.splits)
  have q: "quiet bp b" by (rule quiet_same[OF quiet_refl]) (simp_all add: b)
  have "quiet bp (upd_frame f (\<lambda>fr. fr\<lparr>frame_state := FS_Evicting, pin_count := pin_count fr + 1\<rparr>) b)"
    if "frame_state (frame_at b f) = FS_Valid" for f
    by (rule quiet_upd[OF q]) (use that in \<open>auto simp: in_use_def\<close>)
  then show ?thesis using assms q Nil v by (auto simp: SelectFrameUnlocked_def split: sum.splits if_splits)
qed

lemma quiet_hit:
  assumes "fetch_hit f bp = (bp', r)"
  shows "quiet bp bp'"
proof -
  obtain b1 c1 where 1: "call_replacer (Pin f) bp = (b1, c1)" by fastforce
  have q1: "quiet bp b1" using quiet_replacer'[OF quiet_refl 1] .
  let ?u = "upd_frame f (\<lambda>fr. fr\<lparr>pin_count := pin_count fr + 1\<rparr>) b1"
  have qu: "quiet bp ?u" by (rule quiet_upd[OF q1]) simp
  obtain b2 c2 where 2: "call_replacer (RecordAccess f) ?u = (b2, c2)" by fastforce
  have q2: "quiet bp b2" using quiet_replacer'[OF qu 2] .
  have q3: "quiet bp (b2\<lparr>hit_count := n\<rparr>)" for n by (rule quiet_same[OF q2]) simp_all
  have q4: "quiet bp (fst (call_replacer (Unpin f) (upd_frame f (\<lambda>fr. fr\<lparr>pin_count := pin_count fr - 1\<rparr>) b2)))"
    by (rule quiet_replacer, rule quiet_upd[OF q2]) simp
  show ?thesis using assms 1 2 q1 q3 q4 by (auto simp: fetch_hit_def split: if_splits)
qed

lemma quiet_miss:
  assumes "fetch_miss p bp = (bp', r)"
  shows "quiet bp bp'"
proof -
  let ?b = "bp\<lparr>miss_count := miss_count bp + 1\<rparr>"
  obtain b1 x where 1: "SelectFrameUnlocked ?b = (b1, x)" by fastforce
  have q: "quiet bp ?b" by (rule quiet_same[OF quiet_refl]) simp_all
  note S = quiet_select[OF 1]
  have q1: "quiet bp b1" using quiet_trans[OF q] S by blast
  show ?thesis
  proof (cases x)
    case (Inl e)
    then show ?thesis using assms 1 q1 by (auto simp: fetch_miss_def)
  next
    case (Inr sel)
    let ?f = "sel_frame sel"
    let ?u = "if from_free_list sel then upd_frame ?f (\<lambda>fr. fr\<lparr>frame_page_id := p, pin_count := 1\<rparr>) b1 else b1"
    have "quiet bp ?u" using q1 S Inr by (auto intro!: quiet_upd)
    then have "quiet bp (?u\<lparr>page_table := t\<rparr>)" for t by (rule quiet_same) simp_all
    then show ?thesis using assms 1 Inr by (auto simp: fetch_miss_def Let_def)
  qed
qed

lemma quiet_fetch_loop:
  assumes "fetch_loop p bp = (bp', r)"
  shows "quiet bp bp'"
  using assms quiet_same[OF quiet_refl] quiet_hit quiet_miss quiet_refl
  by (auto simp: fetch_loop_def split: if_splits option.splits)

lemma quiet_fetch:
  assumes "fetch_turn p bp (bp', r)"
  shows "quiet bp bp'"
proof -
  have same: "quiet bp (bp\<lparr>access_count := n\<rparr>)" "quiet bp (bp\<lparr>loading_waiters := lw\<rparr>)" "quiet bp (bp\<lparr>loading_waiters := lw, load_failures := lf\<rparr>)"
    for n lw lf by (rule quiet_same[OF quiet_refl]; simp)+
  consider tp where "fetch_enter p tp bp = (bp', r)" | "fetch_wake p bp = (bp', r)"
    using assms by (auto simp: fetch_turn_def)
  then show ?thesis
  proof cases
    case 1
    then have "bp' = bp \<or> fetch_loop p (bp\<lparr>access_count := access_count bp + 1\<rparr>) = (bp', r)"
      by (auto simp: fetch_enter_def split: if_splits)
    then show ?thesis using quiet_trans[OF same(1) quiet_fetch_loop] by auto
  next
    case 2
    show ?thesis
    proof (cases "load_failures bp p")
      case None
      then have "\<exists>lw. fetch_loop p (bp\<lparr>loading_waiters := lw\<rparr>) = (bp', r) \<or> fetch_loop p bp = (bp', r)"
        using 2 by (auto simp: fetch_wake_def split: option.splits if_splits)
      then show ?thesis using quiet_trans[OF same(2) quiet_fetch_loop] quiet_fetch_loop by blast
    next
      case (Some e)
      then show ?thesis using 2 same by (auto simp: fetch_wake_def split: option.splits if_splits)
    qed
  qed
qed

lemma quiet_give_back:
  assumes "quiet bp0 bp" "\<not> from_free_list sel \<Longrightarrow> in_use (frame_at bp (sel_frame sel))"
  shows "quiet bp0 (release_selection sel bp)"
proof -
  let ?f = "sel_frame sel"
  have r: "quiet bp0 (fst (ReturnFreeFrameUnlocked f b))" if "quiet bp0 b" for f b
    using quiet_same[OF that] that by (auto simp: ReturnFreeFrameUnlocked_def)
  have "quiet bp0 (upd_frame ?f (\<lambda>fr. fr\<lparr>frame_page_id := INVALID_PAGE_ID, pin_count := 0, is_dirty := False, frame_state := FS_Empty\<rparr>) bp)"
    by (rule quiet_upd[OF assms(1)]) simp
  moreover have "quiet bp0 (upd_frame ?f (\<lambda>fr. fr\<lparr>pin_count := 0, frame_state := FS_Valid\<rparr>) bp)" if "\<not> from_free_list sel"
    by (rule quiet_upd[OF assms(1)]) (use assms(2)[OF that] in simp)
  ultimately show ?thesis by (simp add: release_selection_def Let_def r quiet_replacer)
qed

lemma quiet_load_failed:
  assumes "c \<noteq> Code_Ok" "\<not> from_free_list sel \<Longrightarrow> in_use (frame_at bp (sel_frame sel))"
    "from_free_list sel \<Longrightarrow> frame_state (frame_at bp (sel_frame sel)) = FS_Loading"
  shows "quiet bp (fetch_finish p sel old c bp)"
proof -
  let ?f = "sel_frame sel"
  let ?b1 = "bp\<lparr>page_table := (page_table bp)(p := None)\<rparr>"
  have q1: "quiet bp ?b1" by (rule quiet_same[OF quiet_refl]) simp_all
  let ?b2 = "if from_free_list sel then upd_frame ?f (\<lambda>fr. fr\<lparr>frame_page := empty_page\<rparr>) ?b1 else ?b1"
  have "quiet bp ?b2" using q1 assms(3) by (auto intro!: quiet_upd)
  then have "quiet bp (release_selection sel ?b2)" using assms(2) by (intro quiet_give_back) auto
  then have "quiet bp ((release_selection sel ?b2)\<lparr>load_failures := lf\<rparr>)" for lf by (rule quiet_same) simp_all
  then show ?thesis using assms(1) by (simp add: fetch_finish_def Let_def)
qed

lemma quiet_new_enter:
  assumes "new_enter tp bp = (bp', r)"
  shows "quiet bp bp'"
proof -
  obtain b x where s: "SelectFrameUnlocked bp = (b, x)" by fastforce
  note S = quiet_select[OF s]
  have "quiet bp (upd_frame f (\<lambda>fr. fr\<lparr>pin_count := 1\<rparr>) b)" for f by (rule quiet_upd) (use S in auto)
  then show ?thesis using assms s S by (auto simp: new_enter_def Let_def split: if_splits sum.splits)
qed

lemma quiet_new_allocate:
  assumes "new_allocate sel (bp, c) = (bp', r)" "from_free_list sel \<Longrightarrow> frame_state (frame_at bp (sel_frame sel)) = FS_Loading"
  shows "quiet bp bp'"
proof -
  have q: "quiet bp (bp\<lparr>disk_manager := dm\<rparr>)" for dm by (rule quiet_same[OF quiet_refl]) simp_all
  have "quiet bp (upd_frame (sel_frame sel) (\<lambda>fr. fr\<lparr>frame_page := empty_page\<rparr>) (bp\<lparr>disk_manager := dm\<rparr>))"
    "quiet bp (upd_frame (sel_frame sel) (\<lambda>fr. fr\<lparr>frame_page := empty_page\<rparr>) bp)" if "from_free_list sel" for dm
    using assms(2)[OF that] q by (auto intro!: quiet_upd)
  then show ?thesis using assms(1) q by (auto simp: new_allocate_def Let_def split: if_splits prod.splits sum.splits)
qed

lemma quiet_append:
  assumes "append_for t r bp = (bp', x)"
  shows "quiet bp bp'"
proof -
  obtain lm y where a: "Append (r\<lparr>rec_txn := t, rec_prev := txn_chain t bp\<rparr>) (log_manager bp) = (lm, y)" by fastforce
  have "durable_lsn lm = durable bp" using Append_durable[OF a] by blast
  then have "quiet bp (bp\<lparr>log_manager := lm\<rparr>)" "quiet bp (upd_pool_txn t g (bp\<lparr>log_manager := lm\<rparr>))" for g
    by (auto intro!: quiet_same[OF quiet_refl] simp: upd_pool_txn_def)
  then show ?thesis using assms a by (auto simp: append_for_def split: sum.splits)
qed

lemma quiet_txn: "quiet bp0 bp \<Longrightarrow> quiet bp0 (upd_pool_txn t g bp)"
  by (rule quiet_same[where bp = bp]) (simp_all add: upd_pool_txn_def)

lemma quiet_drop: "drop_allocated p t c bp = (bp', r) \<Longrightarrow> quiet bp bp'"
  by (auto simp: drop_allocated_def split: prod.splits intro!: quiet_txn quiet_same[OF quiet_refl])

lemma quiet_new_lock:
  assumes "new_lock tp (bp, r) = (bp', x)"
  shows "quiet bp bp'"
proof (cases "\<exists>t p. tp = Some t \<and> r = Inr p")
  case False
  then show ?thesis using assms by (auto simp: new_lock_def split: option.splits sum.splits)
next
  case True
  then obtain t p where t: "tp = Some t" "r = Inr p" by blast
  obtain b res where a: "AcquirePageLock p tp L_X bp = (b, res)" by fastforce
  then have q: "quiet bp b" using acquire_lock[OF a] by (auto intro!: quiet_same[OF quiet_refl])
  show ?thesis
  proof (cases "\<exists>c. res = Returned c \<and> c \<noteq> Code_Ok")
    case True
    then obtain c where c: "res = Returned c" "c \<noteq> Code_Ok" by blast
    obtain b2 y where d: "drop_allocated p t c b = (b2, y)" by fastforce
    then have "bp' = b2" using assms a t c by (simp add: new_lock_def)
    then show ?thesis using quiet_trans[OF q quiet_drop[OF d]] by simp
  next
    case False
    then have "bp' = b" using assms a t by (auto simp: new_lock_def split: lock_outcome.splits if_splits)
    then show ?thesis using q by simp
  qed
qed

lemma quiet_new_log:
  assumes "new_log tp (bp, r) = (bp', x)"
  shows "quiet bp bp'"
proof (cases "\<exists>t p. tp = Some t \<and> r = Inr p")
  case False
  then show ?thesis using assms by (auto simp: new_log_def split: option.splits sum.splits)
next
  case True
  then obtain t p where t: "tp = Some t" "r = Inr p" by blast
  show ?thesis
  proof (cases "log_manager_bound bp")
    case False
    then show ?thesis using assms t
      by (auto simp: new_log_def split: prod.splits intro!: quiet_txn quiet_same[OF quiet_refl])
  next
    case True
    obtain b y where a: "append_for t (page_record L_PageAllocate p) bp = (b, y)" by fastforce
    note q = quiet_append[OF a]
    show ?thesis
    proof (cases y)
      case (Inl e)
      then have "drop_allocated p t e b = (bp', x)" using assms t True a by (simp add: new_log_def)
      then show ?thesis using quiet_trans[OF q quiet_drop] by blast
    next
      case (Inr l)
      then have "bp' = upd_pool_txn t (AddAllocatedPage p) b" using assms t True a by (simp add: new_log_def)
      then show ?thesis using quiet_txn[OF q] by simp
    qed
  qed
qed

lemma quiet_flush_enter:
  assumes "flush_turn p bp (bp', r)"
  shows "quiet bp bp'"
proof -
  have v: "quiet bp b'" if v: "page_flush_valid f bp = (b', r')" and st: "frame_state (frame_at bp f) = FS_Valid" for f b' r'
  proof -
    obtain b c where c: "(if pin_count (frame_at bp f) = 0 then call_replacer (Pin f) bp else (bp, Code_Ok)) = (b, c)" by fastforce
    then have q: "quiet bp b" using quiet_replacer'[OF quiet_refl] by (auto split: if_splits)
    have "frame_at b f = frame_at bp f" using c call_replacer_same[of "Pin f" bp b c] by (auto split: if_splits)
    then have iu: "in_use (frame_at b f)" using st by (simp add: in_use_def)
    let ?b1 = "upd_frame f (\<lambda>fr. fr\<lparr>frame_state := FS_Flushing, pin_count := pin_count fr + 1\<rparr>) b"
    have q1: "quiet bp ?b1" by (rule quiet_upd[OF q]) (use iu in simp)
    have "quiet bp (upd_frame f (\<lambda>fr. fr\<lparr>frame_state := FS_Valid, pin_count := pin_count fr - 1\<rparr>) ?b1)"
      by (rule quiet_upd[OF q1]) (simp add: in_use_def keeps_def)
    then show ?thesis using v c q q1 by (auto simp: page_flush_valid_def Let_def split: if_splits)
  qed
  from assms show ?thesis by (cases rule: flush_turn_cases) (use v quiet_refl in auto)
qed

lemma quiet_begin_delete:
  assumes "BeginPageDeletion_pins p n bp = (bp', c)"
  shows "quiet bp bp'"
proof (cases "page_table bp p")
  case None
  then show ?thesis using assms by (auto simp: BeginPageDeletion_pins_def Let_def split: if_splits intro!: quiet_same[OF quiet_refl])
next
  case (Some f)
  obtain b c1 where c: "call_replacer (Pin f) bp = (b, c1)" by fastforce
  note q = quiet_replacer'[OF quiet_refl c]
  have fr: "frame_at b f = frame_at bp f" using call_replacer_same[OF c] by auto
  have "quiet bp (b\<lparr>delete_pending_pages := d\<rparr>)" for d by (rule quiet_same[OF q]) simp_all
  then have "quiet bp (upd_frame f (\<lambda>fr. fr\<lparr>frame_state := FS_DeletePending\<rparr>) (b\<lparr>delete_pending_pages := d\<rparr>))"
    if "frame_state (frame_at bp f) = FS_Valid" for d by (rule quiet_upd) (use that fr in \<open>simp add: in_use_def\<close>)
  then show ?thesis using assms Some c q by (auto simp: BeginPageDeletion_pins_def Let_def split: if_splits)
qed

lemma quiet_cancel_delete:
  assumes "CancelPageDeletion p bp = (bp', c)"
  shows "quiet bp bp'"
proof (cases "page_table bp p")
  case None
  then show ?thesis using assms by (auto simp: CancelPageDeletion_def Let_def split: if_splits intro!: quiet_same[OF quiet_refl])
next
  case (Some f)
  have q: "quiet bp (fst (call_replacer (Unpin f) (upd_frame f (\<lambda>fr. fr\<lparr>frame_state := FS_Valid\<rparr>) bp)))"
    if "frame_state (frame_at bp f) = FS_DeletePending"
    by (rule quiet_replacer, rule quiet_upd[OF quiet_refl]) (use that in \<open>simp add: in_use_def\<close>)
  have "quiet bp (b\<lparr>delete_pending_pages := d\<rparr>)" if "quiet bp b" for b d by (rule quiet_same[OF that]) simp_all
  then show ?thesis using assms Some q by (auto simp: CancelPageDeletion_def Let_def split: if_splits)
qed

lemma quiet_finalize:
  assumes "FinalizePageDeletion h p bp = Some (bp', c)"
  shows "quiet bp bp'"
proof -
  obtain b0 r where f: "finalize_enter p bp = (b0, r)" by fastforce
  show ?thesis
  proof (cases r)
    case (FN_Return x)
    then have "bp' = bp" using f finalize_same[of p bp b0 x] assms by (simp add: FinalizePageDeletion_def)
    then show ?thesis by simp
  next
    case FN_Absent
    then have "b0 = bp" using f by (auto simp: finalize_enter_def split: if_splits option.splits)
    then show ?thesis using assms f FN_Absent
      by (auto simp: FinalizePageDeletion_def finalize_absent_def Let_def split: prod.splits if_splits intro!: quiet_same[OF quiet_refl])
  next
    case (FN_Frame g)
    then have g: "frame_state (frame_at bp g) = FS_DeletePending" "b0 = upd_frame g (\<lambda>fr. fr\<lparr>pin_count := 1\<rparr>) bp"
      using f by (auto simp: finalize_enter_def split: if_splits option.splits)
    obtain b1 c1 where io: "finalize_io h g p b0 = Some (b1, c1)" "finalize_finish g p c1 b1 = (bp', c)"
      using assms f FN_Frame by (auto simp: FinalizePageDeletion_def split: option.splits)
    have q0: "quiet bp b0" unfolding g(2) by (rule quiet_upd[OF quiet_refl]) simp
    obtain b2 w where w: "(if is_dirty (frame_at b0 g) then write_frame h g p b0 else Some (b0, Code_Ok)) = Some (b2, w)"
      using io(1) by (auto simp: finalize_io_def split: option.splits)
    have W: "pool_size b2 = pool_size b0" "frames b2 = frames b0" "log_manager_bound b2 = log_manager_bound b0" "durable b0 \<le> durable b2"
      using w write_frame_wal[of h g p b0 b2 w] by (auto split: if_splits)
    have q2: "quiet bp (b2\<lparr>disk_manager := dm\<rparr>)" for dm by (rule quiet_same[OF q0]) (use W in simp_all)
    show ?thesis
    proof (cases "c1 = Code_Ok")
      case False
      have "\<exists>dm. b1 = b2\<lparr>disk_manager := dm\<rparr>" using io(1) w False
        by (auto simp: finalize_io_def Let_def split: prod.splits if_splits)
      then obtain dm where b1: "b1 = b2\<lparr>disk_manager := dm\<rparr>" by blast
      have iu: "in_use (frame_at b1 g)" if "g < length (frames b1)"
        using that g W(2) by (simp add: b1 frame_at_def in_use_def upd_frame_def)
      have "quiet bp (upd_frame g (\<lambda>fr. fr\<lparr>pin_count := 0, frame_state := FS_DeletePending\<rparr>) b1)"
        by (rule quiet_upd) (use q2 b1 iu in auto)
      then show ?thesis using io(2) False by (simp add: finalize_finish_def)
    next
      case True
      then obtain dm where b1: "b1 = upd_frame g (\<lambda>fr. fr\<lparr>frame_page := empty_page\<rparr>) (b2\<lparr>disk_manager := dm\<rparr>)" using io(1) w
        by (auto simp: finalize_io_def Let_def split: prod.splits if_splits)
      let ?F = "\<lambda>fr. fr\<lparr>frame_page := empty_page, frame_page_id := INVALID_PAGE_ID, pin_count := 0, is_dirty := False, frame_state := FS_Empty\<rparr>"
      let ?b = "upd_frame g ?F (b2\<lparr>disk_manager := dm, page_table := (page_table b1)(p := None)\<rparr>)"
      have k: "keeps fr (?F fr)" for fr by (simp add: keeps_def in_use_def)
      have "quiet bp (b2\<lparr>disk_manager := dm, page_table := t\<rparr>)" for t by (rule quiet_same[OF q2[of dm]]) simp_all
      then have "quiet bp ?b" by (rule quiet_upd) (rule k)
      then have "quiet bp (?b\<lparr>delete_pending_pages := d\<rparr>)" for d by (rule quiet_same) simp_all
      then have q3: "quiet bp (fst (call_replacer (Remove g) (?b\<lparr>delete_pending_pages := d\<rparr>)))" for d by (rule quiet_replacer)
      have r: "quiet bp (fst (ReturnFreeFrameUnlocked f b))" if "quiet bp b" for f b
        using quiet_same[OF that] that by (auto simp: ReturnFreeFrameUnlocked_def)
      have eq: "upd_frame g (\<lambda>fr. fr\<lparr>frame_page_id := INVALID_PAGE_ID, pin_count := 0, is_dirty := False, frame_state := FS_Empty\<rparr>)
          (b1\<lparr>page_table := (page_table b1)(p := None)\<rparr>) = ?b" unfolding b1 by (simp add: upd_frame_def) (metis (no_types, lifting) list_update_overwrite list_update_beyond not_le nth_list_update_eq)
      have "bp' = fst (ReturnFreeFrameUnlocked g (fst (call_replacer (Remove g) (?b\<lparr>delete_pending_pages := delete_pending_pages b1 - {p}\<rparr>))))"
        using io(2) True eq by (simp add: finalize_finish_def Let_def)
      then show ?thesis using r[OF q3] by simp
    qed
  qed
qed

subsection \<open>Write-ahead logging\<close>

text \<open>A page image is covered: it was there when the page was allocated (or the pool was opened), the page was set back
  to it, or the durable log has a record of it.\<close>

definition covered :: "pool_state \<Rightarrow> page_id_t \<Rightarrow> byte list \<Rightarrow> bool" where
  "covered s p c \<longleftrightarrow> ps_base s p = Some c \<or> (\<exists>l. (p, l, c) \<in> set (ps_log s) \<and> l \<le> durable (ps_pool s))"

fun done_dirty :: "hold \<Rightarrow> bool" where
  "done_dirty (H_Done p d) = d"
| "done_dirty _ = False"

text \<open>The contents of a frame without the changes of a writer that has not logged them yet.\<close>

definition settled :: "Frame \<Rightarrow> hold list \<Rightarrow> byte list" where
  "settled fr hs = (case filter is_write hs of H_Write g x # _ \<Rightarrow> the (wg_before g) | _ \<Rightarrow> frame_page fr)"

text \<open>What would be written to the disk is in the log under the frame's number, or on the disk already.\<close>

definition stored :: "pool_state \<Rightarrow> page_id_t \<Rightarrow> lsn_t \<Rightarrow> byte list \<Rightarrow> bool" where
  "stored s p l c \<longleftrightarrow>
     (if l = kInvalidLsn then dp s p = c else log_manager_bound (ps_pool s) \<and> (p, l, c) \<in> set (ps_log s))"

definition frame_wal :: "pool_state \<Rightarrow> frame_id_t \<Rightarrow> bool" where
  "frame_wal s f \<longleftrightarrow>
     (\<forall>g x. H_Write g x \<in> set (ps_hold s f) \<longrightarrow>
        wg_txn g \<noteq> None \<and> (\<not> wg_dirty g \<longrightarrow> wg_before g = Some (frame_page (fr_at s f)))) \<and>
     (contains s f (pg_at s f) \<and> (is_dirty (fr_at s f) \<or> list_ex done_dirty (ps_hold s f)) \<longrightarrow>
        stored s (pg_at s f) (page_lsn (fr_at s f)) (settled (fr_at s f) (ps_hold s f))) \<and>
     ((\<exists>p. ps_job s f = Some (JThrough p)) \<longrightarrow> is_dirty (fr_at s f))"

definition wal_safe :: "pool_state \<Rightarrow> bool" where
  "wal_safe s \<longleftrightarrow> (\<forall>p \<in> al_of s. covered s p (dp s p)) \<and> (\<forall>f < n_of s. frame_wal s f)"

definition relevant :: "hold \<Rightarrow> bool" where
  "relevant h \<longleftrightarrow> is_write h \<or> done_dirty h"

lemma relevant_eq:
  assumes "filter relevant hs' = filter relevant hs"
  shows "settled fr hs' = settled fr hs" "list_ex done_dirty hs' = list_ex done_dirty hs" "H_Write g x \<in> set hs' \<longleftrightarrow> H_Write g x \<in> set hs"
proof -
  have w: "filter is_write hs = filter is_write (filter relevant hs)" for hs
    by (induction hs) (auto simp: relevant_def)
  show "settled fr hs' = settled fr hs" using assms w[of hs] w[of hs'] by (simp add: settled_def)
  have d: "list_ex done_dirty hs = list_ex done_dirty (filter relevant hs)" for hs
    by (induction hs) (auto simp: relevant_def)
  show "list_ex done_dirty hs' = list_ex done_dirty hs" using assms d[of hs] d[of hs'] by simp
  have m: "H_Write g x \<in> set hs \<longleftrightarrow> H_Write g x \<in> set (filter relevant hs)" for hs
    by (auto simp: relevant_def)
  show "H_Write g x \<in> set hs' \<longleftrightarrow> H_Write g x \<in> set hs" using assms m[of hs] m[of hs'] by simp
qed

lemma settled_cong: "frame_page fr = frame_page fr' \<Longrightarrow> settled fr hs = settled fr' hs"
  by (auto simp: settled_def split: list.splits hold.splits)

lemma frame_wal_keep:
  assumes wal: "frame_wal s f" and inv': "pool_inv s'" and f: "f < n_of s" and n: "n_of s' = n_of s"
    and k: "keeps (fr_at s f) (fr_at s' f)" and h: "filter relevant (ps_hold s' f) = filter relevant (ps_hold s f)"
    and b: "log_manager_bound (ps_pool s') = log_manager_bound (ps_pool s)"
    and j: "\<And>p. ps_job s' f = Some (JThrough p) \<Longrightarrow> ps_job s f = Some (JThrough p)"
    and c: "contains s' f (pg_at s' f) \<Longrightarrow> \<not> loaded (ps_job s f)"
    and d: "contains s' f (pg_at s' f) \<Longrightarrow> dp s' (pg_at s' f) = dp s (pg_at s' f) \<and> (\<forall>l x. (pg_at s' f, l, x) \<in> set (ps_log s) \<longrightarrow> (pg_at s' f, l, x) \<in> set (ps_log s'))"
  shows "frame_wal s' f"
proof -
  note R = relevant_eq[OF h]
  have keep: "in_use (fr_at s f)" "pg_at s' f = pg_at s f" "frame_page (fr_at s' f) = frame_page (fr_at s f)"
    "page_lsn (fr_at s' f) = page_lsn (fr_at s f)" "is_dirty (fr_at s' f) = is_dirty (fr_at s f)" if "in_use (fr_at s' f)"
    using k that by (auto simp: keeps_def)
  have set: "settled (fr_at s' f) (ps_hold s' f) = settled (fr_at s f) (ps_hold s f)" if "in_use (fr_at s' f)"
    using R(1)[of "fr_at s' f"] settled_cong[OF keep(3)[OF that], of "ps_hold s f"] by simp
  have W: "wg_txn g \<noteq> None \<and> (\<not> wg_dirty g \<longrightarrow> wg_before g = Some (frame_page (fr_at s' f)))" if m: "H_Write g x \<in> set (ps_hold s' f)" for g x
  proof -
    have "in_use (fr_at s' f)" using hold_in_use(2)[OF inv' m] by (auto simp: in_use_def)
    then show ?thesis using wal m R(3)[of g x] keep(3) by (auto simp: frame_wal_def)
  qed
  have C: "stored s' (pg_at s' f) (page_lsn (fr_at s' f)) (settled (fr_at s' f) (ps_hold s' f))"
    if cont: "contains s' f (pg_at s' f)" and dirty: "is_dirty (fr_at s' f) \<or> list_ex done_dirty (ps_hold s' f)"
  proof -
    have iu: "in_use (fr_at s' f)" using cont by (auto simp: contains_def occupied_def in_use_def)
    have "contains s f (pg_at s f)" using keep(1)[OF iu] c[OF cont] f by (auto simp: contains_def occupied_def in_use_def)
    then have "stored s (pg_at s f) (page_lsn (fr_at s f)) (settled (fr_at s f) (ps_hold s f))"
      using wal dirty keep(5)[OF iu] R(2) unfolding frame_wal_def by metis
    then show ?thesis using d[OF cont] keep(2,4)[OF iu] set[OF iu] b by (auto simp: stored_def split: if_splits)
  qed
  have T: "is_dirty (fr_at s' f)" if t: "ps_job s' f = Some (JThrough p)" for p
  proof -
    have "in_use (fr_at s' f)" using flushing_facts(3)[OF inv' t, of p] by (auto simp: in_use_def)
    then show ?thesis using wal j[OF t] keep(5) unfolding frame_wal_def by blast
  qed
  show ?thesis unfolding frame_wal_def using W C T by blast
qed

text \<open>A step that leaves the contents of the frames alone.\<close>

lemma wal_quiet:
  assumes inv: "pool_inv s" and wal: "wal_safe s" and inv': "pool_inv s'" and q: "quiet (ps_pool s) (ps_pool s')"
    and hold: "\<And>g. filter relevant (ps_hold s' g) = filter relevant (ps_hold s g)"
    and thr: "\<And>g p. ps_job s' g = Some (JThrough p) \<Longrightarrow> ps_job s g = Some (JThrough p)"
    and job: "\<And>g. contains s' g (pg_at s' g) \<Longrightarrow> \<not> loaded (ps_job s g)"
    and page: "\<And>p. p \<in> al_of s' \<Longrightarrow> p \<in> al_of s \<Longrightarrow> dp s' p = dp s p \<and> ps_base s' p = ps_base s p \<and> (\<forall>l c. (p, l, c) \<in> set (ps_log s) \<longrightarrow> (p, l, c) \<in> set (ps_log s'))"
    and new: "\<And>p. p \<in> al_of s' \<Longrightarrow> p \<notin> al_of s \<Longrightarrow> ps_base s' p = Some (dp s' p)"
  shows "wal_safe s'"
proof -
  have Q: "n_of s' = n_of s" "length (frames (ps_pool s)) = n_of s" "log_manager_bound (ps_pool s') = log_manager_bound (ps_pool s)"
    "durable (ps_pool s) \<le> durable (ps_pool s')" "\<And>g. g < n_of s \<Longrightarrow> keeps (fr_at s g) (fr_at s' g)"
    using q pool_invD(2)[OF inv] by (simp_all add: quiet_def)
  have al: "pg_at s' g \<in> al_of s' \<and> pg_at s' g \<in> al_of s" if "g < n_of s" "contains s' g (pg_at s' g)" for g
  proof -
    have "in_use (fr_at s' g)" using that(2) by (auto simp: contains_def occupied_def in_use_def)
    then have "in_use (fr_at s g)" "pg_at s' g = pg_at s g" using Q(5)[OF that(1)] by (auto simp: keeps_def)
    then show ?thesis using owns_facts(3)[OF inv state_owns[OF that(1)]] owns_facts(3)[OF inv' contains_owns[OF that(2)]]
      by (auto simp: in_use_def)
  qed
  have "frame_wal s' g" if g: "g < n_of s" for g
  proof (rule frame_wal_keep[OF _ inv' g Q(1) Q(5)[OF g] hold Q(3) thr])
    show "frame_wal s g" using wal g by (simp add: wal_safe_def)
    show "\<not> loaded (ps_job s g)" if "contains s' g (pg_at s' g)" using job[OF that] .
    show "dp s' (pg_at s' g) = dp s (pg_at s' g) \<and> (\<forall>l x. (pg_at s' g, l, x) \<in> set (ps_log s) \<longrightarrow> (pg_at s' g, l, x) \<in> set (ps_log s'))"
      if "contains s' g (pg_at s' g)" using page[of "pg_at s' g"] al[OF g that] by blast
  qed
  moreover have "covered s' p (dp s' p)" if p: "p \<in> al_of s'" for p
  proof (cases "p \<in> al_of s")
    case True
    then have "covered s p (dp s p)" using wal by (simp add: wal_safe_def)
    then show ?thesis using page[OF p True] Q(4) order_trans unfolding covered_def by fastforce
  next
    case False
    then show ?thesis using new[OF p] by (simp add: covered_def)
  qed
  ultimately show ?thesis using Q(1) by (simp add: wal_safe_def)
qed

text \<open>A step that changes one frame, and perhaps the disk page of that frame.\<close>

lemma wal_frame:
  assumes inv: "pool_inv s" and wal: "wal_safe s" and inv': "pool_inv s'" and f: "f < n_of s" and n: "n_of s' = n_of s"
    and others: "\<And>g. g \<noteq> f \<Longrightarrow> fr_at s' g = fr_at s g \<and> ps_job s' g = ps_job s g \<and> ps_hold s' g = ps_hold s g"
    and b: "log_manager_bound (ps_pool s') = log_manager_bound (ps_pool s)" and dur: "durable (ps_pool s) \<le> durable (ps_pool s')"
    and al: "al_of s' = al_of s" and base: "ps_base s' = ps_base s" and log: "set (ps_log s) \<subseteq> set (ps_log s')"
    and page: "\<And>p. p \<in> al_of s \<Longrightarrow> dp s' p = dp s p \<or> owns s f p \<and> covered s' p (dp s' p)"
    and here: "frame_wal s' f"
  shows "wal_safe s'"
proof -
  have "frame_wal s' g" if g: "g < n_of s" for g
  proof (cases "g = f")
    case False
    show ?thesis
    proof (rule frame_wal_keep[OF _ inv' g n _ _ b])
      show "ps_job s' g = Some (JThrough p) \<Longrightarrow> ps_job s g = Some (JThrough p)" for p using others[OF False] by simp
      show "frame_wal s g" using wal g by (simp add: wal_safe_def)
      show "keeps (fr_at s g) (fr_at s' g)" "filter relevant (ps_hold s' g) = filter relevant (ps_hold s g)" using others[OF False] by simp_all
      show "\<not> loaded (ps_job s g)" if "contains s' g (pg_at s' g)" using that others[OF False] by (simp add: contains_def)
      show "dp s' (pg_at s' g) = dp s (pg_at s' g) \<and> (\<forall>l x. (pg_at s' g, l, x) \<in> set (ps_log s) \<longrightarrow> (pg_at s' g, l, x) \<in> set (ps_log s'))"
        if c: "contains s' g (pg_at s' g)"
      proof -
        have o: "owns s g (pg_at s g)" using c others[OF False] n by (auto simp: contains_def owns_def occupied_def)
        then have "\<not> owns s f (pg_at s g)" using owns_unique[OF inv o] False by auto
        then show ?thesis using page[OF owns_facts(3)[OF inv o]] others[OF False] log by auto
      qed
    qed
  qed (use here in simp)
  moreover have "covered s' p (dp s' p)" if p: "p \<in> al_of s'" for p
  proof -
    have "covered s p (dp s p)" using wal p al by (simp add: wal_safe_def)
    then have "covered s' p (dp s p)" using base log dur order_trans unfolding covered_def by fastforce
    then show ?thesis using page[of p] p al by auto
  qed
  ultimately show ?thesis using n by (simp add: wal_safe_def)
qed

subsection \<open>Steps that leave the disk alone\<close>

lemma replacer_disk [simp]: "disk_manager (fst (call_replacer x bp)) = disk_manager bp"
  by (cases "call_replacer x bp") (auto dest: call_replacer_same)

lemma replacer_disk': "call_replacer x bp = (bp', c) \<Longrightarrow> disk_manager bp' = disk_manager bp"
  by (auto dest: call_replacer_same)

lemma select_disk: "SelectFrameUnlocked bp = (bp', r) \<Longrightarrow> disk_manager bp' = disk_manager bp"
  by (auto simp: SelectFrameUnlocked_def call_victim_def Let_def split: list.splits prod.splits sum.splits rep_reply.splits if_splits)

lemma hit_disk:
  assumes "fetch_hit f bp = (bp', r)"
  shows "disk_manager bp' = disk_manager bp"
  using assms by (auto simp: fetch_hit_def split: prod.splits if_splits dest!: replacer_disk')

lemma miss_disk:
  assumes "fetch_miss p bp = (bp', r)"
  shows "disk_manager bp' = disk_manager bp"
proof -
  obtain b1 x where s: "SelectFrameUnlocked (bp\<lparr>miss_count := miss_count bp + 1\<rparr>) = (b1, x)" by fastforce
  have "disk_manager b1 = disk_manager bp" using select_disk[OF s] by simp
  then show ?thesis using assms s by (auto simp: fetch_miss_def Let_def split: sum.splits)
qed

lemma loop_disk:
  assumes "fetch_loop p bp = (bp', r)"
  shows "disk_manager bp' = disk_manager bp"
  using assms hit_disk miss_disk by (auto simp: fetch_loop_def split: if_splits option.splits)

lemma fetch_disk:
  assumes "fetch_turn p bp (bp', r)"
  shows "disk_manager bp' = disk_manager bp"
  using fetch_turn_loop[OF assms] loop_disk by (auto simp: core_same_def)

lemma give_back_disk: "disk_manager (release_selection sel bp) = disk_manager bp"
  by (simp add: release_selection_def Let_def ReturnFreeFrameUnlocked_def)

lemma load_failed_disk: "c \<noteq> Code_Ok \<Longrightarrow> disk_manager (fetch_finish p sel old c bp) = disk_manager bp"
  by (simp add: fetch_finish_def Let_def give_back_disk)

lemma new_enter_disk: "new_enter tp bp = (bp', r) \<Longrightarrow> disk_manager bp' = disk_manager bp"
  by (auto simp: new_enter_def Let_def split: if_splits sum.splits prod.splits dest: select_disk)

lemma flush_enter_disk:
  assumes "flush_turn p bp (bp', r)"
  shows "disk_manager bp' = disk_manager bp"
proof -
  have "disk_manager b = disk_manager bp" if v: "page_flush_valid f bp = (b, r')" for f b r'
  proof -
    obtain b1 c1 where 1: "(if pin_count (frame_at bp f) = 0 then call_replacer (Pin f) bp else (bp, Code_Ok)) = (b1, c1)" by fastforce
    then have "disk_manager b1 = disk_manager bp" by (auto split: if_splits dest: replacer_disk')
    then show ?thesis using v 1 by (auto simp: page_flush_valid_def Let_def split: if_splits)
  qed
  with assms show ?thesis by (elim flush_turn_cases) auto
qed

lemma begin_delete_disk:
  assumes "BeginPageDeletion_pins p n bp = (bp', c)"
  shows "disk_manager bp' = disk_manager bp"
proof (cases "page_table bp p")
  case (Some f)
  obtain b c1 where 1: "call_replacer (Pin f) bp = (b, c1)" by fastforce
  then show ?thesis using assms Some replacer_disk'[OF 1] by (auto simp: BeginPageDeletion_pins_def Let_def split: if_splits)
qed (use assms in \<open>auto simp: BeginPageDeletion_pins_def Let_def split: if_splits\<close>)

lemma cancel_delete_disk: "CancelPageDeletion p bp = (bp', c) \<Longrightarrow> disk_manager bp' = disk_manager bp"
  by (auto simp: CancelPageDeletion_def Let_def split: if_splits option.splits)

lemma wal_same:
  assumes "pool_inv s" "wal_safe s" "pool_inv s'" "quiet (ps_pool s) (ps_pool s')" "dk s' = dk s" "ps_base s' = ps_base s" "ps_log s' = ps_log s"
    and hold: "\<And>g. filter relevant (ps_hold s' g) = filter relevant (ps_hold s g)"
    and job: "\<And>g. ps_job s' g = ps_job s g \<or> \<not> loaded (ps_job s g) \<and> (\<forall>p. ps_job s' g \<noteq> Some (JThrough p))"
  shows "wal_safe s'"
proof (rule wal_quiet[OF assms(1-4) hold])
  show "ps_job s' g = Some (JThrough p) \<Longrightarrow> ps_job s g = Some (JThrough p)" for g p using job[of g] by auto
  show "contains s' g (pg_at s' g) \<Longrightarrow> \<not> loaded (ps_job s g)" for g using job[of g] by (auto simp: contains_def)
qed (use assms in auto)

text \<open>The stages of a new page after its frame was chosen: the page may be given back.\<close>

lemma wal_stage:
  assumes inv: "pool_inv s" and wal: "wal_safe s" and inv': "pool_inv s'" and q: "quiet (ps_pool s) bp"
    and s': "s' = set_job f (Some (JNew tp sel old st')) (set_pool bp s)" and j: "ps_job s f = Some (JNew tp sel old st)"
    and d: "disk_manager bp = dk s \<or> (\<exists>p c. DeallocatePage p (dk s) = (disk_manager bp, c))"
  shows "wal_safe s'"
proof -
  have D: "p \<in> allocated (disk_manager bp) \<Longrightarrow> p \<in> al_of s \<and> disk_page (disk_manager bp) p = dp s p" for p
    using d
  proof (elim disjE exE)
    fix q c assume "p \<in> allocated (disk_manager bp)" "DeallocatePage q (dk s) = (disk_manager bp, c)"
    then show ?thesis by (auto elim!: disk.fr_cases[OF pool_invD(1)[OF inv]])
  qed simp
  show ?thesis
    by (rule wal_quiet[OF inv wal inv']) (use q j D in \<open>auto simp: s' contains_def loaded_def set_job_def set_pool_def split: if_splits\<close>)
qed

lemma drop_disk: "drop_allocated p t e bp = (bp', r) \<Longrightarrow> \<exists>c. DeallocatePage p (disk_manager bp) = (disk_manager bp', c)"
  by (auto simp: drop_allocated_def upd_pool_txn_def split: prod.splits)

lemma new_lock_disk:
  assumes "new_lock tp (bp, r) = (bp', x)"
  shows "disk_manager bp' = disk_manager bp \<or> (\<exists>p c. DeallocatePage p (disk_manager bp) = (disk_manager bp', c))"
proof (cases "\<exists>t p. tp = Some t \<and> r = Inr p")
  case True
  then obtain t p where t: "tp = Some t" "r = Inr p" by blast
  obtain b res where a: "AcquirePageLock p tp L_X bp = (b, res)" by fastforce
  then have b: "disk_manager b = disk_manager bp" using acquire_lock[OF a] by auto
  show ?thesis
  proof (cases "\<exists>c. res = Returned c \<and> c \<noteq> Code_Ok")
    case True
    then obtain c where c: "res = Returned c" "c \<noteq> Code_Ok" by blast
    obtain b2 y where d: "drop_allocated p t c b = (b2, y)" by fastforce
    then have "bp' = b2" using assms a t c by (simp add: new_lock_def)
    then show ?thesis using drop_disk[OF d] b by auto
  next
    case False
    then have "bp' = b" using assms a t by (auto simp: new_lock_def split: lock_outcome.splits if_splits)
    then show ?thesis using b by simp
  qed
qed (use assms in \<open>auto simp: new_lock_def split: option.splits sum.splits\<close>)

lemma new_log_disk:
  assumes "new_log tp (bp, r) = (bp', x)"
  shows "disk_manager bp' = disk_manager bp \<or> (\<exists>p c. DeallocatePage p (disk_manager bp) = (disk_manager bp', c))"
proof (cases "\<exists>t p. tp = Some t \<and> r = Inr p")
  case True
  then obtain t p where t: "tp = Some t" "r = Inr p" by blast
  show ?thesis
  proof (cases "log_manager_bound bp")
    case False
    then show ?thesis using assms t by (auto simp: new_log_def upd_pool_txn_def split: prod.splits)
  next
    case True
    obtain b y where a: "append_for t (page_record L_PageAllocate p) bp = (b, y)" by fastforce
    then have "disk_manager b = disk_manager bp" using append_core[OF a] by auto
    then show ?thesis using assms t True a drop_disk by (cases y) (auto simp: new_log_def upd_pool_txn_def, metis)
  qed
qed (use assms in \<open>auto simp: new_log_def split: option.splits sum.splits\<close>)

lemma wal_new_allocate:
  assumes inv: "pool_inv s" and wal: "wal_safe s" and j: "ps_job s f = Some (JNew tp sel old (N_Evicted c))"
    and a: "new_allocate sel (ps_pool s, c) = (bp, r)"
    and s': "s' = (set_job f (Some (JNew tp sel old (N_Allocated r))) (set_pool bp s))
      \<lparr>ps_base := (case r of Inl e \<Rightarrow> ps_base s | Inr p \<Rightarrow> (ps_base s)(p \<mapsto> disk_page (disk_manager bp) p))\<rparr>"
    and inv': "pool_inv s'"
  shows "wal_safe s'"
proof -
  have ch: "chosen_ok f sel INVALID_PAGE_ID old (fr_at s f)" using job_is[OF inv j] by simp
  have q: "quiet (ps_pool s) bp" using quiet_new_allocate[OF a] ch by (auto simp: chosen_ok_def split: if_splits)
  show ?thesis
  proof (cases r)
    case (Inl e)
    have d: "allocated (disk_manager bp) = al_of s \<and> disk_page (disk_manager bp) = dp s"
    proof (cases "c = Code_Ok")
      case True
      obtain dm y where al: "AllocatePage (dk s) = (dm, y)" by fastforce
      then have "y = Inl e" "disk_manager bp = dm" using a True Inl by (auto simp: new_allocate_def split: sum.splits if_splits)
      then show ?thesis using disk.al_fail[OF pool_invD(1)[OF inv]] al by simp
    qed (use a in \<open>auto simp: new_allocate_def split: if_splits\<close>)
    show ?thesis
      by (rule wal_quiet[OF inv wal inv']) (use q j d Inl in \<open>auto simp: s' contains_def loaded_def set_job_def set_pool_def split: if_splits\<close>)
  next
    case (Inr p)
    then have "AllocatePage (dk s) = (disk_manager bp, Inr p)"
      using a by (auto simp: new_allocate_def Let_def split: if_splits prod.splits sum.splits)
    from disk.al_page[OF pool_invD(1)[OF inv] this] have d: "p \<notin> al_of s" "allocated (disk_manager bp) = insert p (al_of s)"
      "\<forall>q \<in> al_of s. disk_page (disk_manager bp) q = dp s q" by auto
    show ?thesis
      by (rule wal_quiet[OF inv wal inv']) (use q j d Inr in \<open>auto simp: s' contains_def loaded_def set_job_def set_pool_def split: if_splits\<close>)
  qed
qed

subsection \<open>Steps that write a page\<close>

lemma settled_Nil [simp]: "settled fr [] = frame_page fr"
  by (simp add: settled_def)

lemma wal_stored:
  assumes "wal_safe s" "f < n_of s" "contains s f (pg_at s f)" "is_dirty (fr_at s f) \<or> list_ex done_dirty (ps_hold s f)"
  shows "stored s (pg_at s f) (page_lsn (fr_at s f)) (settled (fr_at s f) (ps_hold s f))"
  using assms unfolding wal_safe_def frame_wal_def by blast

lemma evict_wal:
  assumes inv: "pool_inv s" and wal: "wal_safe s" and f: "f < n_of s" and ch: "chosen_ok f sel p old (fr_at s f)"
    and j: "\<not> loaded (ps_job s f)" and e: "evict_io h sel old (ps_pool s) = Some (b0, c0)"
  shows "durable (ps_pool s) \<le> durable b0" "log_manager_bound b0 = log_manager_bound (ps_pool s)" "pool_size b0 = n_of s"
    "g \<noteq> f \<Longrightarrow> frame_at b0 g = fr_at s g" "allocated (disk_manager b0) = al_of s" "length (frames b0) = n_of s" "disk_ok (disk_manager b0)"
    "frame_at b0 f = (fr_at s f)\<lparr>page_lsn := page_lsn (frame_at b0 f)\<rparr>"
    "q \<in> al_of s \<Longrightarrow> disk_page (disk_manager b0) q = dp s q \<or>
      owns s f q \<and> (\<exists>l. (q, l, disk_page (disk_manager b0) q) \<in> set (ps_log s) \<and> l \<le> durable b0)"
    "\<not> from_free_list sel \<Longrightarrow> is_dirty (fr_at s f) \<Longrightarrow>
      (if page_lsn (frame_at b0 f) = kInvalidLsn then disk_page (disk_manager b0) old = frame_page (fr_at s f)
       else log_manager_bound (ps_pool s) \<and> (old, page_lsn (frame_at b0 f), frame_page (fr_at s f)) \<in> set (ps_log s))"
proof -
  note C = chosen_facts[OF inv f ch] and I = pool_invD[OF inv]
  define w where "w \<longleftrightarrow> \<not> from_free_list sel \<and> is_dirty (fr_at s f)"
  have L: "f < length (frames (ps_pool s))" using f I(2) by simp
  note W = evict_io_wal[OF e C(3) L w_def]
  from evict_io_cases[OF inv f C(3) _ e] C(8) obtain lm dm l where
    b0: "b0 = upd_frame f (\<lambda>fr. fr\<lparr>page_lsn := l\<rparr>) (ps_pool s\<lparr>log_manager := lm, disk_manager := dm\<rparr>)"
    and d: "disk_ok dm" "allocated dm = al_of s" "\<forall>p \<in> al_of s. p \<noteq> old \<or> \<not> w \<longrightarrow> disk_page dm p = dp s p"
      "c0 = Code_Ok \<and> w \<longrightarrow> disk_page dm old = frame_page (fr_at s f)" "c0 \<noteq> Code_Ok \<longrightarrow> dm = dk s"
    unfolding w_def by blast
  have dm: "disk_manager b0 = dm" by (simp add: b0)
  show "durable (ps_pool s) \<le> durable b0" "log_manager_bound b0 = log_manager_bound (ps_pool s)" "pool_size b0 = n_of s"
    "g \<noteq> f \<Longrightarrow> frame_at b0 g = fr_at s g" "length (frames b0) = n_of s" using W I(2) by auto
  show "allocated (disk_manager b0) = al_of s" "disk_ok (disk_manager b0)" using d dm by simp_all
  show "frame_at b0 f = (fr_at s f)\<lparr>page_lsn := page_lsn (frame_at b0 f)\<rparr>" using W by simp
  have S: "stored s old (page_lsn (fr_at s f)) (frame_page (fr_at s f)) \<and> owns s f old" if w
    using wal_stored[OF wal f] that C(1,8) j unfolding w_def by (simp add: contains_def)
  have lsn: "page_lsn (frame_at b0 f) = (if c0 = Code_Ok \<and> w then kInvalidLsn else page_lsn (fr_at s f))" using W by simp
  show "disk_page (disk_manager b0) q = dp s q \<or>
      owns s f q \<and> (\<exists>l. (q, l, disk_page (disk_manager b0) q) \<in> set (ps_log s) \<and> l \<le> durable b0)" if q: "q \<in> al_of s"
  proof (cases "q = old \<and> w \<and> c0 = Code_Ok")
    case True
    then show ?thesis using S d(4) W by (auto simp: stored_def dm split: if_splits)
  next
    case False
    then show ?thesis using d(3,5) q dm by auto
  qed
  show "if page_lsn (frame_at b0 f) = kInvalidLsn then disk_page (disk_manager b0) old = frame_page (fr_at s f)
       else log_manager_bound (ps_pool s) \<and> (old, page_lsn (frame_at b0 f), frame_page (fr_at s f)) \<in> set (ps_log s)"
    if "\<not> from_free_list sel" "is_dirty (fr_at s f)"
  proof -
    have w using that by (simp add: w_def)
    then show ?thesis using S d(4,5) lsn by (cases "c0 = Code_Ok") (auto simp: stored_def dm split: if_splits)
  qed
qed

lemma wal_load_io:
  assumes inv: "pool_inv s" and wal: "wal_safe s" and j: "ps_job s f = Some (JLoad p sel old)"
    and io: "fetch_io h p sel old (ps_pool s) = Some (bp, c)"
    and s': "s' = set_job f (Some (JLoaded p sel old c)) (set_pool bp s)" and inv': "pool_inv s'"
  shows "wal_safe s'"
proof -
  have f: "f < n_of s" using job_frame[OF inv j] .
  have ch: "chosen_ok f sel p old (fr_at s f)" using job_is[OF inv j] by simp
  have nl: "\<not> loaded (ps_job s f)" using j by (simp add: loaded_def)
  note C = chosen_facts[OF inv f ch] and I = pool_invD[OF inv]
  obtain b0 c0 where e: "evict_io h sel old (ps_pool s) = Some (b0, c0)" "load_io sel p (b0, c0) = (bp, c)"
    using io by (auto simp: fetch_io_def)
  note E = evict_wal[OF inv wal f ch nl e(1)]
  have R: "allocated dm = al_of s \<and> disk_page dm = disk_page (disk_manager b0)" if "ReadPage p (disk_manager b0) = (dm, y)" for dm y
    using disk.rd_same[OF E(7) that] E(5) by simp
  have "\<exists>dm x. bp = upd_frame f (\<lambda>fr. fr\<lparr>frame_page := x\<rparr>) (b0\<lparr>disk_manager := dm\<rparr>) \<and> allocated dm = al_of s \<and>
      disk_page dm = disk_page (disk_manager b0) \<and> (c = Code_Ok \<or> from_free_list sel \<or> x = frame_page (fr_at s f))"
  proof -
    have same: "b0\<lparr>disk_manager := dm\<rparr> = upd_frame f (\<lambda>fr. fr\<lparr>frame_page := frame_page (fr_at s f)\<rparr>) (b0\<lparr>disk_manager := dm\<rparr>)" for dm
      using upd_frame_same[of "\<lambda>fr. fr\<lparr>frame_page := frame_page (frame_at b0 f)\<rparr>" "b0\<lparr>disk_manager := dm\<rparr>" f]
        arg_cong[OF E(8), of frame_page] by (simp add: frame_at_def)
    have b0: "b0\<lparr>disk_manager := disk_manager b0\<rparr> = b0" by simp
    obtain dm y where r: "ReadPage p (disk_manager b0) = (dm, y)" by fastforce
    show ?thesis
    proof (cases "c0 = Code_Ok \<and> (\<exists>x. y = Inr x)")
      case True
      then obtain x where "c0 = Code_Ok" "y = Inr x" by blast
      then have "bp = upd_frame f (\<lambda>fr. fr\<lparr>frame_page := x\<rparr>) (b0\<lparr>disk_manager := dm\<rparr>)" "c = Code_Ok"
        using e(2) C(3) r by (simp_all add: load_io_def Let_def)
      then show ?thesis using R[OF r] by blast
    next
      case False
      define dm' where "dm' = (if c0 = Code_Ok then dm else disk_manager b0)"
      have "bp = (if from_free_list sel then upd_frame f (\<lambda>fr. fr\<lparr>frame_page := empty_page\<rparr>) (b0\<lparr>disk_manager := dm'\<rparr>) else b0\<lparr>disk_manager := dm'\<rparr>)"
        using e(2) C(3) r False by (cases y) (auto simp: load_io_def Let_def dm'_def split: if_splits)
      then have "bp = upd_frame f (\<lambda>fr. fr\<lparr>frame_page := (if from_free_list sel then empty_page else frame_page (fr_at s f))\<rparr>) (b0\<lparr>disk_manager := dm'\<rparr>)"
        using same by simp
      moreover have "allocated dm' = al_of s \<and> disk_page dm' = disk_page (disk_manager b0)" using R[OF r] E(5) by (simp add: dm'_def)
      ultimately show ?thesis
        by (intro exI[of _ dm'] exI[of _ "if from_free_list sel then empty_page else frame_page (fr_at s f)"]) simp
    qed
  qed
  then obtain dm x where bp: "bp = upd_frame f (\<lambda>fr. fr\<lparr>frame_page := x\<rparr>) (b0\<lparr>disk_manager := dm\<rparr>)"
    and d: "allocated dm = al_of s" "disk_page dm = disk_page (disk_manager b0)" and x: "c = Code_Ok \<or> from_free_list sel \<or> x = frame_page (fr_at s f)"
    by blast
  have fr: "fr_at s' f = (fr_at s f)\<lparr>frame_page := x, page_lsn := page_lsn (frame_at b0 f)\<rparr>"
  proof -
    have "fr_at s' f = (frame_at b0 f)\<lparr>frame_page := x\<rparr>" using f E(6) by (simp add: s' bp frame_at_def upd_frame_def)
    then show ?thesis using E(8) by (cases "fr_at s f"; cases "frame_at b0 f") simp
  qed
  have oth: "fr_at s' g = fr_at s g" if "g \<noteq> f" for g
    using E(4)[OF that] that by (simp add: s' bp frame_at_def upd_frame_def)
  show ?thesis
  proof (rule wal_frame[OF inv wal inv' f])
    show "frame_wal s' f"
      unfolding frame_wal_def
    proof (intro conjI impI allI)
      assume a: "contains s' f (pg_at s' f) \<and> (is_dirty (fr_at s' f) \<or> list_ex done_dirty (ps_hold s' f))"
      then have nf: "\<not> from_free_list sel" "c \<noteq> Code_Ok" using C(7) fr
        by (auto simp: s' contains_def occupied_def loaded_def bp E(3))
      have o: "pg_at s f = old" using C(8) nf by simp
      have h: "ps_hold s' f = []" using C(1) by (simp add: s')
      have "is_dirty (fr_at s f)" using a fr h by simp
      from E(10)[OF nf(1) this] show "stored s' (pg_at s' f) (page_lsn (fr_at s' f)) (settled (fr_at s' f) (ps_hold s' f))"
        unfolding h fr using x nf o E(2) by (simp add: stored_def s' bp d(2))
    qed (use C(1) in \<open>auto simp: s'\<close>)
    show "p \<in> al_of s \<Longrightarrow> dp s' p = dp s p \<or> owns s f p \<and> covered s' p (dp s' p)" for p
      using E(9)[of p] by (auto simp: s' covered_def bp d(2))
  qed (use E(1-6) d oth in \<open>auto simp: s' bp\<close>)
qed

lemma wal_new_evict:
  assumes inv: "pool_inv s" and wal: "wal_safe s" and j: "ps_job s f = Some (JNew tp sel old N_Start)"
    and e: "evict_io h sel old (ps_pool s) = Some (bp, c)"
    and s': "s' = set_job f (Some (JNew tp sel old (N_Evicted c))) (set_pool bp s)" and inv': "pool_inv s'"
  shows "wal_safe s'"
proof -
  have f: "f < n_of s" using job_frame[OF inv j] .
  have ch: "chosen_ok f sel INVALID_PAGE_ID old (fr_at s f)" using job_is[OF inv j] by simp
  have nl: "\<not> loaded (ps_job s f)" using j by (simp add: loaded_def)
  note C = chosen_facts[OF inv f ch] and E = evict_wal[OF inv wal f ch nl e]
  have fr: "fr_at s' f = (fr_at s f)\<lparr>page_lsn := page_lsn (frame_at bp f)\<rparr>" using E(8) by (simp add: s')
  show ?thesis
  proof (rule wal_frame[OF inv wal inv' f])
    show "frame_wal s' f"
      unfolding frame_wal_def
    proof (intro conjI impI allI)
      assume a: "contains s' f (pg_at s' f) \<and> (is_dirty (fr_at s' f) \<or> list_ex done_dirty (ps_hold s' f))"
      have "st_at s' f = st_at s f" "n_of s' = n_of s" unfolding fr by (simp_all add: s' E(3))
      then have nf: "\<not> from_free_list sel" using a C(7) unfolding contains_def occupied_def by metis
      have o: "pg_at s f = old" using C(8) nf by simp
      have h: "ps_hold s' f = []" using C(1) by (simp add: s')
      have "is_dirty (fr_at s f)" using a fr h by simp
      from E(10)[OF nf this] show "stored s' (pg_at s' f) (page_lsn (fr_at s' f)) (settled (fr_at s' f) (ps_hold s' f))"
        unfolding h fr using o E(2) by (simp add: stored_def s')
    qed (use C(1) in \<open>auto simp: s'\<close>)
    show "p \<in> al_of s \<Longrightarrow> dp s' p = dp s p \<or> owns s f p \<and> covered s' p (dp s' p)" for p
      using E(9)[of p] by (auto simp: s' covered_def)
  qed (use E(1-6) in \<open>auto simp: s'\<close>)
qed

text \<open>A clean frame that nobody writes to.\<close>

lemma wal_clean:
  assumes inv: "pool_inv s" and wal: "wal_safe s" and inv': "pool_inv s'" and f: "f < n_of s" and n: "n_of s' = n_of s"
    and others: "\<And>g. g \<noteq> f \<Longrightarrow> fr_at s' g = fr_at s g \<and> ps_job s' g = ps_job s g \<and> ps_hold s' g = ps_hold s g"
    and b: "log_manager_bound (ps_pool s') = log_manager_bound (ps_pool s)" and dur: "durable (ps_pool s) \<le> durable (ps_pool s')"
    and same: "dk s' = dk s" "ps_base s' = ps_base s" "ps_log s' = ps_log s"
    and clean: "\<not> is_dirty (fr_at s' f)" "\<not> list_ex done_dirty (ps_hold s' f)" "\<not> list_ex is_write (ps_hold s' f)"
    and job: "ps_job s' f = None"
  shows "wal_safe s'"
proof (rule wal_frame[OF inv wal inv' f n others b dur])
  show "frame_wal s' f" unfolding frame_wal_def using clean job by (auto simp: list_ex_iff)
qed (use same in auto)

lemma enter_replacer_same: "\<exists>r. enter_replacer f b = b\<lparr>pool_replacer := r\<rparr>"
proof -
  obtain b1 c1 b2 c2 where "call_replacer (Remove f) b = (b1, c1)" "call_replacer (RecordAccess f) b1 = (b2, c2)" by fastforce
  then show ?thesis using call_replacer_same[of "Remove f" b b1 c1] call_replacer_same[of "RecordAccess f" b1 b2 c2]
    by (auto simp: enter_replacer_def)
qed

lemma wal_load_done:
  assumes inv: "pool_inv s" and wal: "wal_safe s" and j: "ps_job s f = Some (JLoaded p sel old Code_Ok)"
    and s': "s' = add_hold f (H_Wait p) (set_job f None (set_pool (fetch_finish p sel old Code_Ok (ps_pool s)) s))" and inv': "pool_inv s'"
  shows "wal_safe s'"
proof -
  have f: "f < n_of s" using job_frame[OF inv j] .
  have ch: "chosen_ok f sel p old (fr_at s f)" using job_is[OF inv j] by simp
  note C = chosen_facts[OF inv f ch]
  obtain r b1 where e: "fetch_finish p sel old Code_Ok (ps_pool s) = (install_page f p b1)\<lparr>pool_replacer := r\<rparr>"
    and b1: "frames b1 = frames (ps_pool s)" "pool_size b1 = n_of s" "log_manager b1 = log_manager (ps_pool s)"
      "log_manager_bound b1 = log_manager_bound (ps_pool s)" "disk_manager b1 = dk s"
    using enter_replacer_same C(3) unfolding fetch_finish_def Let_def note_eviction_def
    by (cases "from_free_list sel"; cases "old = INVALID_PAGE_ID") fastforce+
  show ?thesis
    by (rule wal_clean[OF inv wal inv' f]) (use C(1) b1 f pool_invD(2)[OF inv] in \<open>auto simp: s' e install_page_def upd_frame_def frame_at_def\<close>)
qed

lemma wal_new_done:
  assumes inv: "pool_inv s" and wal: "wal_safe s" and j: "ps_job s f = Some (JNew tp sel old (N_Logged (Inr p)))"
    and s': "s' = add_hold f (H_Wait p) (set_job f None (set_pool (new_finish sel old (Inr p) (ps_pool s)) s))" and inv': "pool_inv s'"
  shows "wal_safe s'"
proof -
  have f: "f < n_of s" using job_frame[OF inv j] .
  have ch: "chosen_ok f sel INVALID_PAGE_ID old (fr_at s f)" using job_is[OF inv j] by simp
  note C = chosen_facts[OF inv f ch]
  obtain r b1 t where e: "new_finish sel old (Inr p) (ps_pool s) = (install_page f p b1)\<lparr>page_table := t, pool_replacer := r\<rparr>"
    and b1: "frames b1 = frames (upd_frame f (\<lambda>fr. fr\<lparr>frame_page := empty_page\<rparr>) (ps_pool s))" "pool_size b1 = n_of s" "log_manager b1 = log_manager (ps_pool s)"
      "log_manager_bound b1 = log_manager_bound (ps_pool s)" "disk_manager b1 = dk s"
    using enter_replacer_same C(3) unfolding new_finish_def Let_def note_eviction_def
    by (cases "from_free_list sel") fastforce+
  show ?thesis
    by (rule wal_clean[OF inv wal inv' f]) (use C(1) b1 f pool_invD(2)[OF inv] in \<open>auto simp: s' e install_page_def upd_frame_def frame_at_def\<close>)
qed

subsection \<open>Holders\<close>

lemma no_writers: "\<not> list_ex is_write hs \<Longrightarrow> filter is_write hs = [] \<and> H_Write g x \<notin> set hs"
  by (auto simp: filter_empty_conv list_ex_iff)

lemma settled_writer:
  assumes "\<not> list_ex is_write (xs @ ys)"
  shows "settled fr (xs @ H_Write g x # ys) = the (wg_before g)" "settled fr (xs @ ys) = frame_page fr"
    "\<not> is_write h \<Longrightarrow> settled fr (xs @ h # ys) = frame_page fr"
  using no_writers[of xs] no_writers[of ys] assms by (simp_all add: settled_def)

lemma sole_writer: "\<not> list_ex is_write (xs @ ys) \<Longrightarrow> H_Write g y \<in> set (xs @ h # ys) \<Longrightarrow> h = H_Write g y"
  using no_writers[of xs g y] no_writers[of ys g y] by auto

lemma holder_facts:
  assumes inv: "pool_inv s" and h: "ps_hold s f = xs @ H_Write g x # ys"
  shows "\<not> list_ex is_write (xs @ ys)" "f < n_of s" "wg_frame g = f" "wg_page_id g = pg_at s f" "contains s f (pg_at s f)"
    "\<And>p. ps_job s f \<noteq> Some (JThrough p)"
proof -
  have m: "H_Write g x \<in> set (ps_hold s f)" using h by simp
  note H = hold_in_use[OF inv m] and D = frame_invD[OF inv hold_in_use(1)[OF inv m]]
  show "\<not> list_ex is_write (xs @ ys)" using D(7) h unfolding writers_ok_def by blast
  show "f < n_of s" "contains s f (pg_at s f)" using H by simp_all
  show "wg_frame g = f" using D(4)[OF m] by simp
  show "wg_page_id g = pg_at s f" using H(4) by simp
  show "ps_job s f \<noteq> Some (JThrough p)" for p using flushing_facts(2)[OF inv, of f "JThrough p" p] h by auto
qed

lemma wal_latch_write:
  assumes inv: "pool_inv s" and wal: "wal_safe s" and h: "ps_hold s f = xs @ H_Wait p # ys"
    and nw: "\<not> list_ex is_write (xs @ ys)" and t: "tp \<noteq> None" and m: "make_WritePageGuard f p tp (ps_pool s) = (bp, g)"
    and s': "s' = set_hold f (xs @ H_Write g x # ys) (set_pool bp s)" and inv': "pool_inv s'"
  shows "wal_safe s'"
proof -
  have f: "f < n_of s" using hold_in_use(1)[OF inv, of "H_Wait p" f] h by simp
  obtain t' where t': "tp = Some t'" using t by blast
  have bp: "bp = upd_pool_txn t' AddActiveWriteGuard (ps_pool s)" and g: "wg_txn g = tp" "wg_dirty g = False" "wg_before g = Some (frame_page (fr_at s f))"
    using m t' by (auto simp: make_WritePageGuard_def Let_def)
  have fr: "frame_at bp = frame_at (ps_pool s)" by (simp add: bp upd_pool_txn_def frame_at_def fun_eq_iff)
  show ?thesis
  proof (rule wal_frame[OF inv wal inv' f])
    have F: "frame_wal s f" using wal f by (simp add: wal_safe_def)
    have c: "contains s' f q \<longleftrightarrow> contains s f q" for q by (simp add: s' contains_def occupied_def fr bp upd_pool_txn_def)
    have st: "settled (fr_at s' f) (ps_hold s' f) = settled (fr_at s f) (ps_hold s f)"
      using settled_writer[OF nw] g(3) h by (simp add: s')
    have d: "list_ex done_dirty (ps_hold s' f) = list_ex done_dirty (ps_hold s f)" using h by (simp add: s')
    have sto: "stored s' q l b = stored s q l b" for q l b by (simp add: stored_def s' bp upd_pool_txn_def)
    have W: "wg_txn g' \<noteq> None \<and> (\<not> wg_dirty g' \<longrightarrow> wg_before g' = Some (frame_page (fr_at s' f)))" if "H_Write g' y \<in> set (ps_hold s' f)" for g' y
      using sole_writer[OF nw, of g' y "H_Write g x"] that g t by (simp add: s' fr)
    show "frame_wal s' f" unfolding frame_wal_def using F W unfolding frame_wal_def c st d sto by (auto simp: s' fr)
  qed (auto simp: s' fr bp upd_pool_txn_def)
qed

lemma wal_write:
  assumes inv: "pool_inv s" and wal: "wal_safe s" and h: "ps_hold s f = xs @ H_Write g x # ys"
    and s': "s' = (set_hold f (xs @ H_Write (g\<lparr>wg_dirty := True\<rparr>) x # ys)
      (set_pool (upd_frame f (\<lambda>fr. fr\<lparr>frame_page := bytes\<rparr>) (ps_pool s)) s))\<lparr>ps_map := m\<rparr>" and inv': "pool_inv s'"
  shows "wal_safe s'"
proof -
  note H = holder_facts[OF inv h]
  have L: "f < length (frames (ps_pool s))" using H(2) pool_invD(2)[OF inv] by simp
  have F: "frame_wal s f" using wal H(2) by (simp add: wal_safe_def)
  show ?thesis
  proof (rule wal_frame[OF inv wal inv' H(2)])
    have fr: "fr_at s' f = (fr_at s f)\<lparr>frame_page := bytes\<rparr>" using L by (simp add: s')
    have c: "contains s' f q \<longleftrightarrow> contains s f q" for q using L by (simp add: s' contains_def occupied_def)
    have st: "settled (fr_at s' f) (ps_hold s' f) = settled (fr_at s f) (ps_hold s f)"
      using settled_writer[OF H(1)] h by (simp add: s')
    have d: "list_ex done_dirty (ps_hold s' f) = list_ex done_dirty (ps_hold s f)" using h by (simp add: s')
    have sto: "stored s' q l b = stored s q l b" for q l b by (simp add: stored_def s')
    have W: "wg_txn g' \<noteq> None \<and> (\<not> wg_dirty g' \<longrightarrow> wg_before g' = Some (frame_page (fr_at s' f)))" if "H_Write g' y \<in> set (ps_hold s' f)" for g' y
    proof -
      have "H_Write g x \<in> set (ps_hold s f)" using h by simp
      then have "wg_txn g \<noteq> None" using F unfolding frame_wal_def by blast
      then show ?thesis using sole_writer[OF H(1), of g' y "H_Write (g\<lparr>wg_dirty := True\<rparr>) x"] that by (auto simp: s')
    qed
    have J: "ps_job s' f \<noteq> Some (JThrough p)" for p using H(6) by (simp add: s')
    have D: "is_dirty (fr_at s' f) = is_dirty (fr_at s f)" "pg_at s' f = pg_at s f" "page_lsn (fr_at s' f) = page_lsn (fr_at s f)"
      unfolding fr by simp_all
    show "frame_wal s' f" unfolding frame_wal_def
    proof (intro conjI impI allI)
      assume "contains s' f (pg_at s' f) \<and> (is_dirty (fr_at s' f) \<or> list_ex done_dirty (ps_hold s' f))"
      then show "stored s' (pg_at s' f) (page_lsn (fr_at s' f)) (settled (fr_at s' f) (ps_hold s' f))"
        using F unfolding frame_wal_def c st d sto D by blast
    qed (use W J in blast)+
  qed (auto simp: s')
qed

lemma append_for_durable:
  assumes "append_for t r bp = (bp', x)"
  shows "durable bp' = durable bp \<and> log_manager_bound bp' = log_manager_bound bp"
proof -
  obtain lm y where a: "Append (r\<lparr>rec_txn := t, rec_prev := txn_chain t bp\<rparr>) (log_manager bp) = (lm, y)" by fastforce
  have "durable_lsn lm = durable bp" using Append_durable[OF a] by blast
  then show ?thesis using assms a by (auto simp: append_for_def upd_pool_txn_def split: sum.splits)
qed

lemma guard_log_durable:
  assumes "guard_log g bp = (bp', g', c)"
  shows "durable bp' = durable bp \<and> log_manager_bound bp' = log_manager_bound bp"
proof -
  have r: "durable b' = durable b \<and> log_manager_bound b' = log_manager_bound b"
    if R: "RecordGuardUpdate f p tp d x b = (b', c')" for f p tp d x b b' c'
  proof -
    have i: "restore_before_image f p x b0 = (b1, k) \<Longrightarrow> durable b1 = durable b0 \<and> log_manager_bound b1 = log_manager_bound b0" for b0 b1 k
      by (auto simp: restore_before_image_def upd_frame_def split: if_splits)
    show ?thesis using R
      by (auto simp: RecordGuardUpdate_def upd_pool_txn_def upd_frame_def split: option.splits if_splits prod.splits sum.splits
          dest!: append_for_durable i)
  qed
  show ?thesis using assms by (auto simp: guard_log_def split: option.splits if_splits prod.splits dest: r)
qed

lemma wal_write_drop:
  assumes inv: "pool_inv s" and wal: "wal_safe s" and h: "ps_hold s f = xs @ H_Write g x # ys"
    and l: "guard_log g (ps_pool s) = (bp, g', c)" and lsn: "append_lsn (log_manager (ps_pool s)) + 1 \<noteq> kInvalidLsn"
    and s': "s' = (set_hold f (xs @ H_Done (wg_page_id g) (wg_dirty g') # ys) (set_pool bp s))
      \<lparr>ps_map := m, ps_log := (if c = Code_Ok \<and> wg_txn g \<noteq> None \<and> wg_dirty g
         then ps_log s @ [(wg_page_id g, page_lsn (frame_at bp f), frame_page (frame_at bp f))] else ps_log s)\<rparr>"
    and inv': "pool_inv s'"
  shows "wal_safe s'"
proof -
  note H = holder_facts[OF inv h]
  have L: "f < length (frames (ps_pool s))" using H(2) pool_invD(2)[OF inv] by simp
  have F: "frame_wal s f" using wal H(2) by (simp add: wal_safe_def)
  have hm: "H_Write g x \<in> set (ps_hold s f)" using h by simp
  have Fg: "wg_txn g \<noteq> None" "\<not> wg_dirty g \<Longrightarrow> wg_before g = Some (frame_page (fr_at s f))"
    using F hm unfolding frame_wal_def by blast+
  have h': "ps_hold s' f = xs @ H_Done (wg_page_id g) (wg_dirty g') # ys" by (simp add: s')
  have set': "settled (fr_at s' f) (ps_hold s' f) = frame_page (fr_at s' f)" using settled_writer(3)[OF H(1)] h' by simp
  have set0: "settled (fr_at s f) (ps_hold s f) = the (wg_before g)" using settled_writer(1)[OF H(1)] h by simp
  have dd: "list_ex done_dirty (ps_hold s' f) \<longleftrightarrow> wg_dirty g' \<or> list_ex done_dirty (ps_hold s f)" using h h' by auto
  have W: "H_Write g'' y \<notin> set (ps_hold s' f)" for g'' y using sole_writer[OF H(1), of g'' y] h' by fastforce
  have J: "ps_job s' f \<noteq> Some (JThrough p)" for p using H(6) by (simp add: s')
  have other: "core_same (upd_frame f k (ps_pool s)) bp \<Longrightarrow> g \<noteq> f \<Longrightarrow> frame_at bp g = fr_at s g"
    "core_same (upd_frame f k (ps_pool s)) bp \<Longrightarrow> frame_at bp f = k (fr_at s f)"
    "core_same (upd_frame f k (ps_pool s)) bp \<Longrightarrow> disk_manager bp = dk s \<and> pool_size bp = n_of s" for k g
    using L by (auto simp: core_same_def frame_at_def upd_frame_def)
  have D: "durable bp = durable (ps_pool s)" "log_manager_bound bp = log_manager_bound (ps_pool s)" using guard_log_durable[OF l] by auto
  have cont: "contains s f (pg_at s f)" using H(5) .
  have old: "stored s (pg_at s f) (page_lsn (fr_at s f)) (the (wg_before g))" if "is_dirty (fr_at s f) \<or> list_ex done_dirty (ps_hold s f)"
    using wal_stored[OF wal H(2) cont that] set0 by simp
  from guard_log_cases[OF inv hm l] consider
    "bp = ps_pool s" "g' = g" "c = Code_Ok" "\<not> wg_dirty g"
    | t b lm l where "wg_txn g = Some t" "wg_dirty g" "c = Code_Ok" "g' = g" "log_manager_bound (ps_pool s)" "log_manager bp = lm"
      "Append (update_record (wg_page_id g) b (frame_page (fr_at s f))\<lparr>rec_txn := t, rec_prev := txn_chain t (ps_pool s)\<rparr>)
        (log_manager (ps_pool s)) = (lm, Inr l)" "core_same (upd_frame f (\<lambda>fr. fr\<lparr>page_lsn := l\<rparr>) (ps_pool s)) bp"
    | b where "wg_before g = Some b" "c \<noteq> Code_Ok" "\<not> wg_dirty g'" "core_same (upd_frame f (\<lambda>fr. fr\<lparr>frame_page := b\<rparr>) (ps_pool s)) bp"
    using Fg(1) by auto
  then have fw: "n_of s' = n_of s \<and> dk s' = dk s \<and> (\<forall>g. g \<noteq> f \<longrightarrow> fr_at s' g = fr_at s g) \<and> frame_wal s' f"
  proof cases
    case 1
    have "stored s' (pg_at s' f) (page_lsn (fr_at s' f)) (settled (fr_at s' f) (ps_hold s' f))"
      if "is_dirty (fr_at s' f) \<or> list_ex done_dirty (ps_hold s' f)"
      using old Fg(2) that dd unfolding set' by (simp add: stored_def s' 1)
    then show ?thesis unfolding frame_wal_def using W J by (simp add: s' 1)
  next
    case (2 t b lm l)
    have "l \<noteq> kInvalidLsn" using Append_durable[OF 2(7)] lsn by simp
    then have "stored s' (pg_at s' f) (page_lsn (fr_at s' f)) (settled (fr_at s' f) (ps_hold s' f))"
      unfolding set' using H(4) other(2)[OF 2(8)] Fg(1) D(2) by (simp add: stored_def s' 2)
    then show ?thesis unfolding frame_wal_def using W J other(1,3)[OF 2(8)] by (simp add: s')
  next
    case (3 b)
    have o: "fr_at s' f = (fr_at s f)\<lparr>frame_page := b\<rparr>" using other(2)[OF 3(4)] by (simp add: s')
    have "stored s' (pg_at s' f) (page_lsn (fr_at s' f)) (settled (fr_at s' f) (ps_hold s' f))"
      if "is_dirty (fr_at s' f) \<or> list_ex done_dirty (ps_hold s' f)"
    proof -
      have S: "settled (fr_at s' f) (ps_hold s' f) = b" using set' o by simp
      show ?thesis using old that dd other(3)[OF 3(4)] 3(1-3) D(2) unfolding S unfolding o by (simp add: stored_def s')
    qed
    then show ?thesis unfolding frame_wal_def using W J other(1,3)[OF 3(4)] by (simp add: s')
  qed
  show ?thesis
    by (rule wal_frame[OF inv wal inv' H(2)]) (use fw D in \<open>auto simp: s'\<close>)
qed

lemma release_at:
  assumes r: "release_enter f p d bp = (bp', r)" and m: "frame_matches f p bp" "pin_count (frame_at bp f) > 0"
  shows "\<exists>n st. frame_at bp' f = (frame_at bp f)\<lparr>pin_count := n, is_dirty := is_dirty (frame_at bp f) \<or> d, frame_state := st\<rparr> \<and>
      (st = frame_state (frame_at bp f) \<or> frame_state (frame_at bp f) = FS_Valid \<and> st = FS_Flushing)"
    "g \<noteq> f \<Longrightarrow> frame_at bp' g = frame_at bp g" "pool_size bp' = pool_size bp" "disk_manager bp' = disk_manager bp"
    "log_manager bp' = log_manager bp" "log_manager_bound bp' = log_manager_bound bp"
    "r = RE_Flush \<Longrightarrow> is_dirty (frame_at bp' f)"
proof -
  have L: "f < length (frames bp)" using m by (simp add: frame_matches_def)
  have R: "release_frame f d bp = (bp', r)" using r m by (simp add: release_enter_def)
  let ?u = "upd_frame f (\<lambda>fr. fr\<lparr>is_dirty := is_dirty fr \<or> d\<rparr>) bp"
  let ?v = "upd_frame f (\<lambda>fr. fr\<lparr>pin_count := pin_count fr - 1\<rparr>) ?u"
  obtain b2 c2 where c: "call_replacer (Unpin f) ?v = (b2, c2)" by fastforce
  obtain rp where b2: "b2 = ?v\<lparr>pool_replacer := rp\<rparr>" using call_replacer_same[OF c] by blast
  have "r = RE_Flush \<and> is_dirty (frame_at ?u f) \<and> frame_state (frame_at bp f) = FS_Valid \<and> bp' = upd_frame f (\<lambda>fr. fr\<lparr>frame_state := FS_Flushing\<rparr>) ?u \<or>
      r \<noteq> RE_Flush \<and> (bp' = ?v \<or> bp' = b2)"
    using R c L by (auto simp: release_frame_def Let_def split: if_splits)
  then show "\<exists>n st. frame_at bp' f = (frame_at bp f)\<lparr>pin_count := n, is_dirty := is_dirty (frame_at bp f) \<or> d, frame_state := st\<rparr> \<and>
      (st = frame_state (frame_at bp f) \<or> frame_state (frame_at bp f) = FS_Valid \<and> st = FS_Flushing)"
    "g \<noteq> f \<Longrightarrow> frame_at bp' g = frame_at bp g" "pool_size bp' = pool_size bp" "disk_manager bp' = disk_manager bp"
    "log_manager bp' = log_manager bp" "log_manager_bound bp' = log_manager_bound bp"
    "r = RE_Flush \<Longrightarrow> is_dirty (frame_at bp' f)"
    using L b2 by (cases "frame_at bp f"; auto; fail)+
qed

lemma wal_release:
  assumes inv: "pool_inv s" and wal: "wal_safe s" and h: "ps_hold s f = xs @ H_Done p d # ys"
    and r: "release_enter f p d (ps_pool s) = (bp, r)"
    and s': "s' = (case r of RE_Return c \<Rightarrow> set_hold f (xs @ ys) (set_pool bp s)
      | RE_Flush \<Rightarrow> set_job f (Some (JThrough p)) (set_hold f (xs @ ys) (set_pool bp s)))" and inv': "pool_inv s'"
  shows "wal_safe s'"
proof -
  have hm: "H_Done p d \<in> set (ps_hold s f)" using h by simp
  note H = hold_in_use[OF inv hm]
  have F: "frame_wal s f" using wal H(1) by (simp add: wal_safe_def)
  have m: "frame_matches f p (ps_pool s)" using pool_invD(2)[OF inv] H(1,4) by (simp add: frame_matches_def)
  note R = release_at[OF r m H(3)]
  obtain n st where fr: "frame_at bp f = (fr_at s f)\<lparr>pin_count := n, is_dirty := is_dirty (fr_at s f) \<or> d, frame_state := st\<rparr>"
    and st: "st = st_at s f \<or> st_at s f = FS_Valid \<and> st = FS_Flushing" using R(1) by blast
  have P: "ps_pool s' = bp" "ps_hold s' f = xs @ ys" "ps_log s' = ps_log s" "ps_base s' = ps_base s"
    "g \<noteq> f \<Longrightarrow> ps_job s' g = ps_job s g \<and> ps_hold s' g = ps_hold s g" for g by (cases r; simp add: s')+
  have D: "page_lsn (fr_at s' f) = page_lsn (fr_at s f)" "pg_at s' f = pg_at s f" "frame_page (fr_at s' f) = frame_page (fr_at s f)"
    "is_dirty (fr_at s' f) \<longleftrightarrow> is_dirty (fr_at s f) \<or> d" unfolding P(1) fr by simp_all
  have f: "filter is_write (ps_hold s' f) = filter is_write (ps_hold s f)" using h P(2) by simp
  have st: "settled (fr_at s' f) (ps_hold s' f) = settled (fr_at s f) (ps_hold s f)"
    using settled_cong[OF D(3), of "ps_hold s f"] f by (simp add: settled_def)
  have dd: "is_dirty (fr_at s' f) \<or> list_ex done_dirty (ps_hold s' f) \<longleftrightarrow> is_dirty (fr_at s f) \<or> list_ex done_dirty (ps_hold s f)"
    using D(4) h P(2) by auto
  have sto: "stored s' q l b = stored s q l b" for q l b by (simp add: stored_def P R)
  have J: "is_dirty (fr_at s' f)" if "ps_job s' f = Some (JThrough q)" for q
  proof (cases r)
    case RE_Flush
    then show ?thesis using R(7) P(1) by simp
  next
    case (RE_Return c)
    then have "ps_job s f = Some (JThrough q)" using that by (simp add: s')
    then show ?thesis using F D(4) unfolding frame_wal_def by blast
  qed
  show ?thesis
  proof (rule wal_frame[OF inv wal inv' H(1)])
    show "frame_wal s' f" unfolding frame_wal_def
    proof (intro conjI impI allI)
      assume "contains s' f (pg_at s' f) \<and> (is_dirty (fr_at s' f) \<or> list_ex done_dirty (ps_hold s' f))"
      then show "stored s' (pg_at s' f) (page_lsn (fr_at s' f)) (settled (fr_at s' f) (ps_hold s' f))"
        using F H(5) unfolding frame_wal_def st sto D(1,2) dd by blast
    next
      fix g x assume "H_Write g x \<in> set (ps_hold s' f)"
      then have "H_Write g x \<in> set (ps_hold s f)" using h P(2) by auto
      then show "wg_txn g \<noteq> None" "\<not> wg_dirty g \<Longrightarrow> wg_before g = Some (frame_page (fr_at s' f))"
        using F unfolding frame_wal_def D(3) by blast+
    qed (use J in blast)
  qed (use P R in auto)
qed

subsection \<open>Flushing\<close>

lemma wal_flush_written:
  assumes inv: "pool_inv s" and wal: "wal_safe s" and j: "ps_job s f = Some jb" "jb = JThrough p \<or> jb = JWrite p"
    and w: "(if jb = JThrough p \<or> is_dirty (fr_at s f) then write_frame h f p (ps_pool s) else Some (ps_pool s, Code_Ok)) = Some (bp, c)"
    and s': "s' = set_job f (Some (JFlushed p c)) (set_pool bp s)" and inv': "pool_inv s'"
  shows "wal_safe s'"
proof -
  have jbs: "jb \<in> {JThrough p, JWrite p, JFlushed p c}" using j(2) by auto
  note FF = flushing_facts[OF inv j(1) jbs]
  have F: "frame_wal s f" using wal FF(1) by (simp add: wal_safe_def)
  have cont: "contains s f (pg_at s f)" using FF(5,7) by simp
  have thr: "is_dirty (fr_at s f)" if "jb = JThrough p" using F j(1) that unfolding frame_wal_def by blast
  show ?thesis
  proof (cases "is_dirty (fr_at s f)")
    case False
    then have bp: "bp = ps_pool s" using w thr by (cases "jb = JThrough p") auto
    show ?thesis
      by (rule wal_frame[OF inv wal inv' FF(1)]) (use False FF(2) in \<open>auto simp: s' bp frame_wal_def\<close>)
  next
    case True
    then have w': "write_frame h f p (ps_pool s) = Some (bp, c)" using w by simp
    note W = write_frame_wal[OF w']
    from write_frame_cases[OF inv FF(1) FF(8) w'] obtain lm dm where
      bp: "bp = ps_pool s\<lparr>log_manager := lm, disk_manager := dm\<rparr>" and d: "allocated dm = al_of s"
        "\<forall>q \<in> al_of s. q \<noteq> p \<longrightarrow> disk_page dm q = dp s q" "if c = Code_Ok then disk_page dm p = frame_page (fr_at s f) else dm = dk s" by blast
    have fr: "frame_at bp = frame_at (ps_pool s)" by (simp add: bp frame_at_def fun_eq_iff)
    have S: "stored s p (page_lsn (fr_at s f)) (frame_page (fr_at s f))"
      using wal_stored[OF wal FF(1) cont] True FF(2,5) by simp
    have page: "dp s' q = dp s q \<or> owns s f q \<and> covered s' q (dp s' q)" if "q \<in> al_of s" for q
    proof (cases "q = p \<and> c = Code_Ok")
      case True
      then show ?thesis using S d(3) W FF(6) by (auto simp: stored_def s' bp covered_def split: if_splits)
    next
      case False
      then show ?thesis using d(2,3) that by (auto simp: s' bp split: if_splits)
    qed
    have "stored s' p (page_lsn (fr_at s f)) (frame_page (fr_at s f))"
      using S d(3) by (auto simp: stored_def s' bp split: if_splits)
    then have "frame_wal s' f" unfolding frame_wal_def using FF(2,5) by (simp add: s' fr)
    then show ?thesis
      by (intro wal_frame[OF inv wal inv' FF(1)]) (use page W d(1) in \<open>simp_all add: s' fr, simp_all add: bp\<close>)
  qed
qed

lemma wal_flushed:
  assumes inv: "pool_inv s" and wal: "wal_safe s" and j: "ps_job s f = Some (JFlushed p c)"
    and s': "s' = set_job f None (set_pool (flush_finish f c (ps_pool s)) s)" and inv': "pool_inv s'"
  shows "wal_safe s'"
proof -
  note FF = flushing_facts[OF inv j, of p c, simplified]
  have L: "f < length (frames (ps_pool s))" using FF(1) pool_invD(2)[OF inv] by simp
  define b1 where "b1 = (if c = Code_Ok then upd_frame f (\<lambda>fr. fr\<lparr>is_dirty := False, page_lsn := kInvalidLsn\<rparr>) (ps_pool s) else ps_pool s)"
  let ?b2 = "upd_frame f (\<lambda>fr. fr\<lparr>frame_state := FS_Valid, pin_count := pin_count fr - 1\<rparr>) b1"
  have q: "\<exists>r. flush_finish f c (ps_pool s) = ?b2\<lparr>pool_replacer := r\<rparr>"
  proof -
    obtain b3 c3 where c: "call_replacer (Unpin f) ?b2 = (b3, c3)" by fastforce
    obtain r where "b3 = ?b2\<lparr>pool_replacer := r\<rparr>" using call_replacer_same[OF c] by blast
    then show ?thesis using c by (cases "pin_count (frame_at ?b2 f) = 0") (auto simp: flush_finish_def b1_def Let_def intro: exI[of _ "pool_replacer ?b2"])
  qed
  then obtain r where r: "flush_finish f c (ps_pool s) = ?b2\<lparr>pool_replacer := r\<rparr>" by blast
  have P: "ps_pool s' = ?b2\<lparr>pool_replacer := r\<rparr>" "ps_hold s' = ps_hold s" "ps_job s' = (ps_job s)(f := None)"
    "ps_log s' = ps_log s" "ps_base s' = ps_base s" by (simp_all add: s' r set_job_def set_pool_def)
  show ?thesis
  proof (cases "c = Code_Ok")
    case True
    show ?thesis
      by (rule wal_clean[OF inv wal inv' FF(1)]) (use True FF(2) L in \<open>auto simp: P b1_def\<close>)
  next
    case False
    show ?thesis
    proof (rule wal_same[OF inv wal inv'])
      have "quiet (ps_pool s) ?b2" unfolding b1_def using False
        by (auto intro!: quiet_upd simp: keeps_def in_use_def FF(3))
      then show "quiet (ps_pool s) (ps_pool s')" by (simp add: P quiet_def)
      show "ps_job s' g = ps_job s g \<or> \<not> loaded (ps_job s g) \<and> (\<forall>p. ps_job s' g \<noteq> Some (JThrough p))" for g
        using j by (auto simp: P loaded_def)
    qed (simp_all add: P b1_def False)
  qed
qed

subsection \<open>All steps\<close>

lemma finalize_disk:
  assumes inv: "pool_inv s" and e: "FinalizePageDeletion h p (ps_pool s) = Some (bp, c)"
  shows "disk_manager bp = dk s \<and> c \<noteq> Code_Ok \<or>
    allocated (disk_manager bp) = al_of s - {p} \<and> (\<forall>q \<in> al_of s - {p}. disk_page (disk_manager bp) q = dp s q)"
proof -
  note I = pool_invD[OF inv]
  have free: "dm = d \<and> k \<noteq> Code_Ok \<or> k = Code_Ok \<and> allocated dm = allocated d - {p} \<and> (\<forall>q \<in> allocated d - {p}. disk_page dm q = disk_page d q)"
    if "disk_ok d" "DeallocatePage p d = (dm, k)" for d dm k
    using disk.fr_cases[OF that] by metis
  obtain b0 r where f: "finalize_enter p (ps_pool s) = (b0, r)" by fastforce
  show ?thesis
  proof (cases r)
    case (FN_Return x)
    then show ?thesis using f finalize_same[of p "ps_pool s" b0 x] e by (simp add: FinalizePageDeletion_def)
  next
    case FN_Absent
    then have "b0 = ps_pool s" "p \<in> al_of s" using f I(8) by (auto simp: finalize_enter_def split: if_splits option.splits)
    then show ?thesis using disk.fr_page[OF I(1), of p] e f FN_Absent by (auto simp: FinalizePageDeletion_def finalize_absent_def Let_def)
  next
    case (FN_Frame g)
    then have E: "page_table (ps_pool s) p = Some g" "st_at s g = FS_DeletePending" "b0 = upd_frame g (\<lambda>fr. fr\<lparr>pin_count := 1\<rparr>) (ps_pool s)"
      "p \<in> al_of s" using f I(8) by (auto simp: finalize_enter_def split: if_splits option.splits)
    have g: "g < n_of s" using table_state[OF inv E(1)] E(2) by auto
    have fp: "frame_page (frame_at b0 g) = frame_page (fr_at s g)" "disk_manager b0 = dk s" using g I(2) by (simp_all add: E(3))
    obtain b1 c1 where io: "finalize_io h g p b0 = Some (b1, c1)" "finalize_finish g p c1 b1 = (bp, c)"
      using e f FN_Frame by (auto simp: FinalizePageDeletion_def split: option.splits)
    obtain b2 w where w: "(if is_dirty (frame_at b0 g) then write_frame h g p b0 else Some (b0, Code_Ok)) = Some (b2, w)"
      using io(1) by (auto simp: finalize_io_def split: option.splits)
    from disk.wr_page[OF I(1) E(4) page_length[OF inv g]] obtain dm where dm: "WritePage p (frame_page (fr_at s g)) (dk s) = (dm, Code_Ok)"
      "disk_ok dm" "allocated dm = al_of s" "\<forall>q \<in> al_of s. q \<noteq> p \<longrightarrow> disk_page dm q = dp s q" by blast
    have wd: "disk_manager b2 = dk s \<and> (w = Code_Ok \<or> w = IOError) \<or> w = Code_Ok \<and> disk_manager b2 = dm"
    proof (cases "is_dirty (frame_at b0 g)")
      case True
      then show ?thesis using w dm(1) fp unfolding write_frame_def FlushFrameToDisk_def Let_def
        by (auto split: if_splits option.splits)
    next
      case False
      then show ?thesis using w fp by auto
    qed
    then have d2: "disk_ok (disk_manager b2)" "allocated (disk_manager b2) = al_of s" "\<forall>q \<in> al_of s - {p}. disk_page (disk_manager b2) q = dp s q"
      "w \<noteq> Code_Ok \<longrightarrow> disk_manager b2 = dk s" using dm I(1) by auto
    have b1: "w \<noteq> Code_Ok \<and> disk_manager b1 = dk s \<and> c1 \<noteq> Code_Ok \<or>
        c1 = Code_Ok \<and> allocated (disk_manager b1) = al_of s - {p} \<and> (\<forall>q \<in> al_of s - {p}. disk_page (disk_manager b1) q = dp s q)"
    proof (cases "w = Code_Ok")
      case True
      obtain d' where d': "DeallocatePage p (disk_manager b2) = (d', Code_Ok)" "allocated d' = al_of s - {p}"
        "\<forall>q \<in> al_of s - {p}. disk_page d' q = disk_page (disk_manager b2) q"
        using disk.fr_page[OF d2(1), of p] E(4) unfolding d2(2) by blast
      then have "disk_manager b1 = d'" "c1 = Code_Ok" using io(1) w True by (auto simp: finalize_io_def Let_def)
      then show ?thesis using d'(2,3) d2(3) by simp
    next
      case False
      then have "w = IOError" using wd by auto
      then have "disk_manager b1 = disk_manager b2" "c1 \<noteq> Code_Ok"
        using io(1)[unfolded finalize_io_def w] by auto
      then show ?thesis using d2(4) False by simp
    qed
    moreover have "disk_manager bp = disk_manager b1" "c1 \<noteq> Code_Ok \<Longrightarrow> c \<noteq> Code_Ok"
      using io(2) by (auto simp: finalize_finish_def Let_def ReturnFreeFrameUnlocked_def split: if_splits)
    ultimately show ?thesis by auto
  qed
qed

lemma wal_set:
  assumes "pool_inv s" "wal_safe s" "pool_inv (set_pool bp s)" "quiet (ps_pool s) bp" "disk_manager bp = dk s"
  shows "wal_safe (set_pool bp s)"
  by (rule wal_same[OF assms(1-3)]) (use assms(4,5) in auto)

lemma wal_hold:
  assumes "pool_inv s" "wal_safe s" "pool_inv (set_hold f hs s)" "filter relevant hs = filter relevant (ps_hold s f)"
  shows "wal_safe (set_hold f hs s)"
  by (rule wal_same[OF assms(1-3)]) (use assms(4) in \<open>auto simp: set_hold_def\<close>)

lemma wal_job:
  assumes "pool_inv s" "wal_safe s" "pool_inv (set_job f j (set_pool bp s))" "quiet (ps_pool s) bp" "disk_manager bp = dk s"
    "\<not> loaded (ps_job s f)" "\<And>p. j \<noteq> Some (JThrough p)"
  shows "wal_safe (set_job f j (set_pool bp s))"
  by (rule wal_same[OF assms(1-3)]) (use assms(4-7) in \<open>auto simp: set_job_def\<close>)

lemma wal_finalize:
  assumes inv: "pool_inv s" and wal: "wal_safe s" and e: "FinalizePageDeletion h p (ps_pool s) = Some (bp, Code_Ok)"
    and s': "s' = (set_pool bp s)\<lparr>ps_map := m, ps_base := (ps_base s)(p := None), ps_log := filter (\<lambda>(q, l, c). q \<noteq> p) (ps_log s)\<rparr>"
    and inv': "pool_inv s'"
  shows "wal_safe s'"
  by (rule wal_quiet[OF inv wal inv'])
    (use quiet_finalize[OF e] finalize_disk[OF inv e] in \<open>auto simp: s' contains_def\<close>)

lemma wal_restore:
  assumes inv: "pool_inv s" and wal: "wal_safe s" and k: "known_page s p" and len: "length b = page_size"
    and e: "RestorePage p b True (ps_pool s) = (bp, Code_Ok)"
  shows "wal_safe (restored p b bp s)" (is "wal_safe ?s")
proof -
  note E = restore_page[OF inv k len e]
  have "frame_wal ?s g" if g: "g < n_of s" for g
  proof (cases "owns s g p")
    case True
    then show ?thesis using E by (auto simp: frame_wal_def)
  next
    case False
    have fr: "fr_at ?s g = fr_at s g" using E False by simp
    have "contains ?s g (pg_at ?s g) \<Longrightarrow> owns s g (pg_at s g) \<and> \<not> loaded (ps_job s g)"
      using fr E by (auto simp: contains_def owns_def occupied_def)
    then have c: "contains ?s g (pg_at ?s g) \<Longrightarrow> pg_at s g \<noteq> p \<and> pg_at s g \<in> al_of s \<and> \<not> loaded (ps_job s g)"
      using False owns_facts(3)[OF inv] by metis
    show ?thesis
    proof (rule frame_wal_keep[OF _ _ g])
      show "frame_wal s g" using wal g by (simp add: wal_safe_def)
    qed (use E fr c in auto)
  qed
  moreover have "covered ?s q (dp ?s q)" if q: "q \<in> al_of ?s" for q
  proof (cases "q = p")
    case False
    then have "covered s q (dp s q)" using q E wal by (simp add: wal_safe_def)
    then show ?thesis using False q E by (auto simp: covered_def)
  qed (use E in \<open>simp add: covered_def\<close>)
  ultimately show ?thesis using E by (simp add: wal_safe_def)
qed

lemma not_loading:
  assumes "pool_inv s" "ps_job s f = Some (JLoaded p sel old c)"
  shows "\<not> from_free_list sel \<Longrightarrow> in_use (frame_at (ps_pool s) (sel_frame sel))"
    "from_free_list sel \<Longrightarrow> st_at s (sel_frame sel) = FS_Loading"
  using job_is[OF assms] by (auto simp: chosen_ok_def in_use_def)

lemma selected_free:
  assumes inv: "pool_inv s" and sel: "SelectFrameUnlocked bp0 = (bp, Inr sel)" and c: "core_same (ps_pool s) bp0"
  shows "ps_job s (sel_frame sel) = None"
proof -
  have "sel_frame sel < n_of s \<and> st_at s (sel_frame sel) \<in> {FS_Empty, FS_Valid}"
    using selection_cases[OF inv sel c] by (auto simp: idle_def)
  then show ?thesis using job_settled[OF frame_invD(1)[OF inv]] by auto
qed

lemma load_free:
  assumes inv: "pool_inv s" and t: "fetch_turn p (ps_pool s) (bp, FE_Load sel old)"
  shows "ps_job s (sel_frame sel) = None"
proof -
  obtain b0 where c: "core_same (ps_pool s) b0" "fetch_loop p b0 = (bp, FE_Load sel old)" using fetch_turn_loop[OF t] by auto
  have "fetch_hit f b0 \<noteq> (bp, FE_Load sel old)" for f by (auto simp: fetch_hit_def split: prod.splits if_splits)
  then have "fetch_miss p b0 = (bp, FE_Load sel old)" using c(2) by (auto simp: fetch_loop_def split: if_splits option.splits)
  then obtain b1 where "SelectFrameUnlocked (b0\<lparr>miss_count := miss_count b0 + 1\<rparr>) = (b1, Inr sel)"
    by (auto simp: fetch_miss_def Let_def split: prod.splits sum.splits)
  then show ?thesis by (rule selected_free[OF inv]) (use c(1) in \<open>auto simp: core_same_def\<close>)
qed

lemma new_free:
  assumes inv: "pool_inv s" and t: "new_enter tp (ps_pool s) = (bp, Inr (sel, old))"
  shows "ps_job s (sel_frame sel) = None"
proof -
  obtain b1 where "SelectFrameUnlocked (ps_pool s) = (b1, Inr sel)"
    using t by (auto simp: new_enter_def Let_def split: if_splits sum.splits prod.splits)
  then show ?thesis by (rule selected_free[OF inv]) simp
qed

lemma enter_free:
  assumes inv: "pool_inv s" and t: "flush_turn p (ps_pool s) (bp, r)" "r = PE_Write f \<or> r = PE_Drain f"
  shows "ps_job s f = None"
proof -
  have "page_flush_valid g b = (bp, r) \<Longrightarrow> g = f" for g b
    using t(2) by (auto simp: page_flush_valid_def Let_def split: prod.splits if_splits)
  with t have "page_table (ps_pool s) p = Some f \<and> st_at s f = FS_Valid"
    by (elim flush_turn_cases) auto
  then show ?thesis using job_settled[OF frame_invD(1)[OF inv, of f]] table_state[OF inv, of p f] by auto
qed

lemma pool_step_wal:
  assumes "pool_step True s s'" "pool_inv s" "wal_safe s"
  shows "wal_safe s'"
proof -
  have inv': "pool_inv s'" using pool_step_inv[OF assms(1,2)] .
  note I = assms(2) and W = assms(3)
  show ?thesis using assms(1)
  proof cases
    case (s_fetch_error p bp e)
    then show ?thesis using wal_set[OF I W] inv' quiet_fetch[OF s_fetch_error(2)] fetch_disk[OF s_fetch_error(2)] by simp
  next
    case (s_fetch_wait p bp)
    then show ?thesis using wal_set[OF I W] inv' quiet_fetch[OF s_fetch_wait(2)] fetch_disk[OF s_fetch_wait(2)] by simp
  next
    case (s_fetch_hit p bp f)
    show ?thesis
      by (rule wal_same[OF I W inv']) (use quiet_fetch[OF s_fetch_hit(2)] fetch_disk[OF s_fetch_hit(2)] in
        \<open>auto simp: s_fetch_hit(1) add_hold_def set_hold_def set_pool_def relevant_def\<close>)
  next
    case (s_fetch_load p bp sel old)
    then show ?thesis using wal_job[OF I W] inv' quiet_fetch[OF s_fetch_load(3)] fetch_disk[OF s_fetch_load(3)] load_free[OF I s_fetch_load(3)]
      by (simp add: loaded_def)
  next
    case (s_load_io f p sel old h bp c)
    then show ?thesis using wal_load_io[OF I W s_load_io(2,3) s_load_io(1) inv'] by simp
  next
    case (s_load_failed f p sel old c)
    then show ?thesis using wal_job[OF I W] inv' quiet_load_failed[OF s_load_failed(3), of sel "ps_pool s" p old] load_failed_disk
        not_loading[OF I s_load_failed(2)] by (simp add: loaded_def)
  next
    case (s_load_done f p sel old)
    then show ?thesis using wal_load_done[OF I W s_load_done(2) s_load_done(1) inv'] by simp
  next
    case (s_new_error tp bp e)
    then show ?thesis using wal_set[OF I W] inv' quiet_new_enter[OF s_new_error(2)] new_enter_disk[OF s_new_error(2)] by simp
  next
    case (s_new tp bp sel old)
    then show ?thesis using wal_job[OF I W] inv' quiet_new_enter[OF s_new(2)] new_enter_disk[OF s_new(2)] new_free[OF I s_new(2)]
      by (simp add: loaded_def)
  next
    case (s_new_evict f tp sel old h bp c)
    then show ?thesis using wal_new_evict[OF I W s_new_evict(2,3) s_new_evict(1) inv'] by simp
  next
    case (s_new_allocate f tp sel old c bp r)
    then show ?thesis using wal_new_allocate[OF I W s_new_allocate(2,3) s_new_allocate(1) inv'] by simp
  next
    case (s_new_lock f tp sel old r bp r')
    then show ?thesis using wal_stage[OF I W inv' quiet_new_lock[OF s_new_lock(3)] s_new_lock(1,2) new_lock_disk[OF s_new_lock(3)]] by simp
  next
    case (s_new_wait f tp sel old p bp)
    then show ?thesis using wal_stage[OF I W inv' quiet_new_lock[OF s_new_wait(3)] s_new_wait(1,2) new_lock_disk[OF s_new_wait(3)]] by simp
  next
    case (s_new_granted f tp sel old p)
    then show ?thesis using wal_job[OF I W, of f _ "ps_pool s"] inv' by (simp add: loaded_def)
  next
    case (s_new_refused f t sel old p c bp r)
    have "disk_manager bp = dk s \<or> (\<exists>q k. DeallocatePage q (dk s) = (disk_manager bp, k))" using drop_disk[OF s_new_refused(3)] by blast
    then show ?thesis using wal_stage[OF I W inv' quiet_drop[OF s_new_refused(3)] s_new_refused(1,2)] by simp
  next
    case (s_new_log f tp sel old r bp r')
    then show ?thesis using wal_stage[OF I W inv' quiet_new_log[OF s_new_log(3)] s_new_log(1,2) new_log_disk[OF s_new_log(3)]] by simp
  next
    case (s_new_failed f tp sel old e)
    have "quiet (ps_pool s) (release_selection sel (ps_pool s))"
      by (rule quiet_give_back) (use job_is[OF I s_new_failed(2)] in \<open>auto simp: chosen_ok_def in_use_def\<close>)
    then show ?thesis using wal_job[OF I W, of f None] inv' s_new_failed give_back_disk by (simp add: new_finish_def loaded_def Let_def)
  next
    case (s_new_done f tp sel old p)
    then show ?thesis using wal_new_done[OF I W s_new_done(2) s_new_done(1) inv'] by simp
  next
    case (s_latch_read f xs p ys)
    then show ?thesis using wal_hold[OF I W] inv' by (simp add: relevant_def)
  next
    case (s_latch_write f xs p ys tp bp g)
    then show ?thesis using wal_latch_write[OF I W s_latch_write(2,3) _ s_latch_write(6) s_latch_write(1) inv'] by simp
  next
    case (s_write f xs g x ys bytes)
    then show ?thesis using wal_write[OF I W s_write(2) s_write(1) inv'] by simp
  next
    case (s_read_drop f xs p ys)
    then show ?thesis using wal_hold[OF I W] inv' by (simp add: relevant_def)
  next
    case (s_write_drop f xs g x ys bp g' c)
    then show ?thesis using wal_write_drop[OF I W s_write_drop(2,3) _ s_write_drop(1) inv'] by simp
  next
    case (s_release f xs p d ys bp c)
    then show ?thesis using wal_release[OF I W s_release(2,3) _ inv'] by simp
  next
    case (s_release_through f xs p d ys bp)
    then show ?thesis using wal_release[OF I W s_release_through(2,3) _ inv'] by simp
  next
    case (s_through_io f p h bp c)
    then show ?thesis using wal_flush_written[OF I W s_through_io(2), of p h bp c s'] inv' by simp
  next
    case (s_flush_return p bp c)
    then show ?thesis using wal_set[OF I W] inv' quiet_flush_enter[OF s_flush_return(2)] flush_enter_disk[OF s_flush_return(2)] by simp
  next
    case (s_flush_write p bp f)
    then show ?thesis using wal_job[OF I W] inv' quiet_flush_enter[OF s_flush_write(2)] flush_enter_disk[OF s_flush_write(2)]
        enter_free[OF I s_flush_write(2), of f] by (simp add: loaded_def)
  next
    case (s_flush_drain p bp f)
    then show ?thesis using wal_job[OF I W] inv' quiet_flush_enter[OF s_flush_drain(2)] flush_enter_disk[OF s_flush_drain(2)]
        enter_free[OF I s_flush_drain(2), of f] by (simp add: loaded_def)
  next
    case (s_drained f p)
    then show ?thesis using wal_job[OF I W, of f _ "ps_pool s"] inv' by (simp add: loaded_def)
  next
    case (s_write_io f p h bp c)
    then show ?thesis using wal_flush_written[OF I W s_write_io(2), of p h bp c s'] inv' by (simp add: page_flush_io_def)
  next
    case (s_flushed f p c)
    then show ?thesis using wal_flushed[OF I W s_flushed(2) s_flushed(1) inv'] by simp
  next
    case (s_begin_delete p n bp c)
    then show ?thesis using wal_set[OF I W] inv' quiet_begin_delete[OF s_begin_delete(3)] begin_delete_disk[OF s_begin_delete(3)] by simp
  next
    case (s_cancel_delete p bp c)
    then show ?thesis using wal_set[OF I W] inv' quiet_cancel_delete[OF s_cancel_delete(2)] cancel_delete_disk[OF s_cancel_delete(2)] by simp
  next
    case (s_finalize h p bp)
    then show ?thesis using wal_finalize[OF I W s_finalize(2) s_finalize(1) inv'] by simp
  next
    case (s_finalize_failed h p bp c)
    show ?thesis
      by (rule wal_quiet[OF I W inv']) (use s_finalize_failed quiet_finalize[OF s_finalize_failed(2)] finalize_disk[OF I s_finalize_failed(2)] in
        \<open>auto simp: contains_def\<close>)
  next
    case (s_restore p b bp)
    from wal_restore[OF I W s_restore(2-4)] show ?thesis unfolding s_restore(1) .
  next
    case (s_restore_failed p b bp c)
    from restore_failed[OF I s_restore_failed(2-5)] W show ?thesis unfolding s_restore_failed(1) by simp
  next
    case (s_locks lm)
    have "quiet (ps_pool s) (ps_pool s\<lparr>lock_manager := lm\<rparr>)" by (rule quiet_same[OF quiet_refl]) simp_all
    then show ?thesis using s_locks wal_set[OF I W] inv' by simp
  next
    case (s_append r lm res)
    have "quiet (ps_pool s) (ps_pool s\<lparr>log_manager := lm\<rparr>)"
      by (rule quiet_same[OF quiet_refl]) (use Append_durable[OF s_append(2)] in simp_all)
    then show ?thesis using s_append wal_set[OF I W] inv' by simp
  next
    case (s_flush_log l h lm c)
    have "quiet (ps_pool s) (ps_pool s\<lparr>log_manager := lm\<rparr>)"
      by (rule quiet_same[OF quiet_refl]) (use Flush_durable[OF s_flush_log(2)] in simp_all)
    then show ?thesis using s_flush_log wal_set[OF I W] inv' by simp
  qed
qed

lemma pool_start_wal: "wal_safe (pool_start bp)" if "fresh_pool bp"
proof -
  have I: "pool_inv (pool_start bp)" using pool_start_inv[OF that] .
  have "\<not> contains (pool_start bp) f p" for f p
  proof
    assume c: "contains (pool_start bp) f p"
    have "page_table (ps_pool (pool_start bp)) p = None" using that by (auto simp: fresh_pool_def pool_start_def make_BufferPool_def)
    then show False using pool_invD(6)[OF I, of p f] contains_owns[OF c] by simp
  qed
  then show ?thesis by (auto simp: wal_safe_def frame_wal_def covered_def pool_start_def disk_contents_def)
qed

lemma pool_run_wal:
  assumes "pool_run True bp s"
  shows "wal_safe s"
  using assms
proof (induction rule: pool_run.induct)
  case (run_step s s')
  then show ?case using pool_step_wal[OF run_step(2)] pool_run_inv[OF run_step(1)] by blast
qed (rule pool_start_wal)

end
