(* ===== verification/PoolClients.thy ===== *)
theory PoolClients
  imports PoolSafety
begin

text \<open>
  What the callers of the buffer pool rely on, whatever other threads do: a page they hold is the page they asked for and
  stays in its frame, a page is what the last writer left, releasing a page cannot fail, and no page reaches the disk before
  its log record. The invariant of \<^verbatim>\<open>PoolInvariant\<close> and the logging invariant of
  \<^verbatim>\<open>PoolSafety\<close> give them directly.
\<close>

subsection \<open>A run for the examples\<close>

definition demo_store :: DiskManager where
  "demo_store = fst (ReadPage 1 demo_disk1)"

definition demo_pool :: BufferPoolManager where
  "demo_pool = (make_BufferPool 1 P_LRU WriteBack demo_store initial_log_manager (initial_lock_manager Map.empty))
     \<lparr>log_manager_bound := True, lock_manager_bound := False\<rparr>"

definition ones :: "byte list" where
  "ones = replicate page_size 1"

lemma demo_disk_ok: "disk_ok demo_store" "allocated demo_store = {1}"
proof -
  obtain b where "disk_run demo_store [1 \<mapsto> b]" using demo_disk1_run unfolding demo_store_def by blast
  then obtain fs where "disk_sim demo_store [1 \<mapsto> b] fs" using disk_run_sim by blast
  then show "disk_ok demo_store" "allocated demo_store = {1}" using sim_allocated by auto
qed

lemma demo_fetched: "\<exists>s. pool_run strict demo_pool s \<and> ps_hold s 0 = [H_Wait 1] \<and> 1 \<in> al_of s"
proof -
  let ?s = "pool_start demo_pool"
  have "fresh_pool demo_pool" unfolding fresh_pool_def demo_pool_def using demo_disk_ok(1) by (metis One_nat_def Suc_neq_Zero)
  then have r0: "pool_run strict demo_pool ?s" by (rule run_start)
  let ?sel = "\<lparr>sel_frame = 0, from_free_list = True\<rparr>"
  obtain bp1 where e: "fetch_enter 1 None (ps_pool ?s) = (bp1, FE_Load ?sel INVALID_PAGE_ID)" "disk_manager bp1 = demo_store"
    by (simp add: fetch_enter_def pool_start_def demo_pool_def make_BufferPool_def EnsureReadyUnlocked_def ValidateDataPageId_def
        fetch_loop_def fetch_miss_def SelectFrameUnlocked_def Let_def frame_at_def empty_frame_def upd_frame_def INVALID_PAGE_ID_def)
  define s1 where "s1 = set_job 0 (Some (JLoad 1 ?sel INVALID_PAGE_ID)) (set_pool bp1 ?s)"
  have k: "known_page ?s 1" using demo_disk_ok(2) by (simp add: known_page_def pool_start_def demo_pool_def make_BufferPool_def)
  have "pool_step strict ?s s1" using s_fetch_load[OF k, of bp1 ?sel INVALID_PAGE_ID strict] e(1) by (auto simp: fetch_turn_def s1_def)
  with r0 have r1: "pool_run strict demo_pool s1" by (rule run_step)
  obtain d' where d': "ReadPage 1 (disk_manager bp1) = (d', Inr (disk_page demo_store 1))"
    using disk.rd_page[OF demo_disk_ok(1), of 1] demo_disk_ok(2) e(2) by auto
  then obtain bp2 where io: "fetch_io True 1 ?sel INVALID_PAGE_ID (ps_pool s1) = Some (bp2, Code_Ok)"
    by (simp add: s1_def fetch_io_def evict_io_def load_io_def Let_def)
  define s2 where "s2 = set_job 0 (Some (JLoaded 1 ?sel INVALID_PAGE_ID Code_Ok)) (set_pool bp2 s1)"
  have "ps_job s1 0 = Some (JLoad 1 ?sel INVALID_PAGE_ID)" by (simp add: s1_def set_job_def)
  from s_load_io[OF this io] have r2: "pool_run strict demo_pool s2" using run_step[OF r1] by (simp add: s2_def)
  define s3 where "s3 = add_hold 0 (H_Wait 1) (set_job 0 None (set_pool (fetch_finish 1 ?sel INVALID_PAGE_ID Code_Ok (ps_pool s2)) s2))"
  have "ps_job s2 0 = Some (JLoaded 1 ?sel INVALID_PAGE_ID Code_Ok)" by (simp add: s2_def set_job_def)
  from s_load_done[OF this] have r3: "pool_run strict demo_pool s3" using run_step[OF r2] by (simp add: s3_def)
  have h: "ps_hold s3 0 = [H_Wait 1]"
    by (simp add: s3_def s2_def s1_def add_hold_def set_hold_def set_job_def set_pool_def pool_start_def)
  then have "1 \<in> al_of s3" using hold_in_use(4,6)[OF pool_run_inv[OF r3], of "H_Wait 1" 0] owns_facts(3)[OF pool_run_inv[OF r3], of 0 1] by simp
  with r3 h show ?thesis by blast
qed

lemma demo_written:
  "\<exists>s g x. pool_run strict demo_pool s \<and> ps_hold s 0 = [H_Write g x] \<and> wg_page_id g = 1 \<and> ps_map s 1 = Some ones \<and> 1 \<in> al_of s"
proof -
  obtain s where s: "pool_run strict demo_pool s" "ps_hold s 0 = [H_Wait 1]" "1 \<in> al_of s" using demo_fetched by blast
  obtain bp g where g: "make_WritePageGuard 0 1 (Some 7) (ps_pool s) = (bp, g)" by fastforce
  define s1 where "s1 = set_hold 0 [H_Write g (ps_map s 1)] (set_pool bp s)"
  have "pool_step strict s s1" using s_latch_write[of s 0 "[]" 1 "[]" strict "Some 7" bp g] s(2) g by (simp add: s1_def)
  with s(1) have r1: "pool_run strict demo_pool s1" by (rule run_step)
  have p: "wg_page_id g = 1" using g by (auto simp: make_WritePageGuard_def Let_def)
  have h1: "ps_hold s1 0 = [] @ H_Write g (ps_map s 1) # []" by (simp add: s1_def set_hold_def)
  have "length ones = page_size" by (simp add: ones_def)
  from s_write[OF h1 this] obtain s2 where st: "pool_step strict s1 s2"
    and s2: "s2 = (set_hold 0 [H_Write (g\<lparr>wg_dirty := True\<rparr>) (ps_map s 1)] (set_pool (upd_frame 0 (\<lambda>fr. fr\<lparr>frame_page := ones\<rparr>) (ps_pool s1)) s1))
      \<lparr>ps_map := (ps_map s1)(wg_page_id g \<mapsto> ones)\<rparr>" by simp
  have r2: "pool_run strict demo_pool s2" using run_step[OF r1 st] .
  have h2: "ps_hold s2 0 = [H_Write (g\<lparr>wg_dirty := True\<rparr>) (ps_map s 1)]" by (simp add: s2 set_hold_def)
  moreover have "ps_map s2 1 = Some ones" using p by (simp add: s2)
  moreover have "1 \<in> al_of s2"
    using hold_in_use(4,6)[OF pool_run_inv[OF r2], of "H_Write (g\<lparr>wg_dirty := True\<rparr>) (ps_map s 1)" 0]
      owns_facts(3)[OF pool_run_inv[OF r2], of 0 1] h2 p by simp
  moreover have "wg_page_id (g\<lparr>wg_dirty := True\<rparr>) = 1" using p by simp
  ultimately show ?thesis using r2 by blast
qed

lemma demo_done: "\<exists>s. pool_run strict demo_pool s \<and> ps_hold s 0 = [H_Done 1 False]"
proof -
  obtain s where s: "pool_run strict demo_pool s" "ps_hold s 0 = [H_Wait 1]" using demo_fetched by blast
  define s1 where "s1 = set_hold 0 [H_Read 1] s"
  have "pool_step strict s s1" using s_latch_read[of s 0 "[]" 1 "[]" strict] s(2) by (simp add: s1_def)
  with s(1) have r1: "pool_run strict demo_pool s1" by (rule run_step)
  have "ps_hold s1 0 = [] @ H_Read 1 # []" by (simp add: s1_def set_hold_def)
  from run_step[OF r1 s_read_drop[OF this]] show ?thesis
    by (intro exI[of _ "set_hold 0 ([] @ H_Done 1 False # []) s1"]) (simp add: set_hold_def)
qed

subsection \<open>What the callers get\<close>

text \<open>C3: Under every interleaving of the critical sections of fetches, page creations, reads, writes,
  releases, flushes, evictions, deletions and restores, the buffer pool loses no write: a page holds the contents its
  last writer left (the contents before, when the writer could not be logged) or \<^verbatim>\<open>RestorePage\<close> put there since, in its frame for every
  thread that holds it, and on the disk when it is not in the pool. The runs have three
  restrictions (the code has races outside the first two; \<^verbatim>\<open>PoolRaces\<close> shows two of them): \<^verbatim>\<open>FinalizePageDeletion\<close> and \<^verbatim>\<open>RestorePage\<close> run to
  their end before another call touches the pool, a \<^verbatim>\<open>FlushPage\<close> that had to wait goes on only if its frame,
  once valid, still holds its page, and the client loads, deletes and restores only allocated pages that it was handed.\<close>

theorem pool_keeps_contents:
  assumes "pool_run strict bp s" "ps_map s p = Some c"
  shows "(\<forall>f h. h \<in> set (ps_hold s f) \<and> hold_page h = p \<longrightarrow> frame_page (frame_at (ps_pool s) f) = c) \<and>
    (page_table (ps_pool s) p = None \<longrightarrow> disk_page (disk_manager (ps_pool s)) p = c)"
proof -
  have inv: "pool_inv s" using pool_run_inv[OF assms(1)] .
  have "frame_page (fr_at s f) = c" if "h \<in> set (ps_hold s f)" "hold_page h = p" for f h
    using held_map(1)[OF inv that(1)] hold_in_use(4)[OF inv that(1)] that(2) assms(2) by simp
  moreover have "dp s p = c" if "page_table (ps_pool s) p = None"
  proof -
    have "\<not> contains s f p" for f using that pool_invD(6)[OF inv, of p f] contains_owns[of s f p] by auto
    then show ?thesis using pool_invD(11)[OF inv] assms(2) by (auto simp: map_inv_def in_pool_def)
  qed
  ultimately show ?thesis by blast
qed

theorem pool_keeps_contents_witness:
  "\<exists>(s :: pool_state) h. h \<in> set (ps_hold s 0) \<and> hold_page h = 1 \<and> frame_page (frame_at (ps_pool s) 0) = ones \<and>
    (page_table (ps_pool s) 1 = None \<longrightarrow> disk_page (disk_manager (ps_pool s)) 1 = ones)"
proof -
  obtain s g x where s: "pool_run True demo_pool s" "ps_hold s 0 = [H_Write g x]" "wg_page_id g = 1" "ps_map s 1 = Some ones"
    using demo_written by blast
  have "H_Write g x \<in> set (ps_hold s 0)" "hold_page (H_Write g x) = 1" using s by simp_all
  moreover from this pool_keeps_contents[OF s(1,4)] have "frame_page (fr_at s 0) = ones" by blast
  ultimately show ?thesis using pool_keeps_contents[OF s(1,4)] by (intro exI[of _ s] exI[of _ "H_Write g x"]) simp
qed

text \<open>C5: A frame that a thread holds stays the frame of its page, under every interleaving of the critical
  sections of the pool's calls: the page table leads to it, its pin count counts the holders, and it is neither a victim of the replacer nor
  on the free list. The runs have three
  restrictions (the code has races outside the first two; \<^verbatim>\<open>PoolRaces\<close> shows two of them): \<^verbatim>\<open>FinalizePageDeletion\<close> and \<^verbatim>\<open>RestorePage\<close> run to
  their end before another call touches the pool, a \<^verbatim>\<open>FlushPage\<close> that had to wait goes on only if its frame,
  once valid, still holds its page, and the client loads, deletes and restores only allocated pages that it was handed.\<close>

theorem held_frame_stays:
  assumes "pool_run strict bp s" "h \<in> set (ps_hold s f)"
  shows "page_table (ps_pool s) (hold_page h) = Some f \<and> length (ps_hold s f) \<le> pin_count (frame_at (ps_pool s) f) \<and>
    \<not> any_evictable (pool_replacer (ps_pool s)) f \<and> f \<notin> set (free_frames (ps_pool s))"
proof -
  have inv: "pool_inv s" using pool_run_inv[OF assms(1)] .
  note H = hold_in_use[OF inv assms(2)]
  have "length (ps_hold s f) \<le> pin_count (fr_at s f)" using frame_invD(2)[OF inv H(1)] H(2) by (elim insertE) simp_all
  moreover have "\<not> any_evictable (pool_replacer (ps_pool s)) f"
  proof -
    have c: "any_inv (n_of s) (pool_replacer (ps_pool s))"
      "any_candidates (pool_replacer (ps_pool s)) = {f. f < n_of s \<and> st_at s f = FS_Valid \<and> pin_count (fr_at s f) = 0}"
      using pool_invD(10)[OF inv] by (simp_all add: rep_inv_def)
    show ?thesis unfolding pool_rep.evictable_cand[OF c(1)] c(2) using H(3) by simp
  qed
  moreover have "f \<notin> set (free_frames (ps_pool s))"
  proof -
    have "set (free_frames (ps_pool s)) = {f. f < n_of s \<and> st_at s f = FS_Empty}" using pool_invD(9)[OF inv] by (simp add: free_inv_def)
    then show ?thesis using H(2) by force
  qed
  ultimately show ?thesis using pool_invD(6)[OF inv] H(4,6) by simp
qed

theorem held_frame_stays_witness:
  "\<exists>s :: pool_state. page_table (ps_pool s) 1 = Some 0 \<and> 1 \<le> pin_count (frame_at (ps_pool s) 0) \<and>
    \<not> any_evictable (pool_replacer (ps_pool s)) 0 \<and> 0 \<notin> set (free_frames (ps_pool s))"
proof -
  obtain s where s: "pool_run True demo_pool s" "ps_hold s 0 = [H_Wait 1]" using demo_fetched by blast
  have "H_Wait 1 \<in> set (ps_hold s 0)" using s by simp
  from held_frame_stays[OF s(1) this] show ?thesis using s(2) by auto
qed

text \<open>A guard can always give its page back: \<^verbatim>\<open>ReleaseGuard\<close> finds the frame with
  its page and pinned, whatever other threads did to the pool, and returns no error of its own (it may go on to write the
  page through).\<close>

theorem release_never_fails:
  assumes "pool_run strict bp s" "H_Done p d \<in> set (ps_hold s f)"
  shows "snd (release_enter f p d (ps_pool s)) \<in> {RE_Return Code_Ok, RE_Flush}"
proof -
  have inv: "pool_inv s" using pool_run_inv[OF assms(1)] .
  obtain xs ys where h: "ps_hold s f = xs @ H_Done p d # ys" using assms(2) by (meson split_list)
  obtain bp' r where r: "release_enter f p d (ps_pool s) = (bp', r)" by fastforce
  show ?thesis using pool_inv_release[OF inv h r] r by (auto split: ReleaseEntry.splits)
qed

theorem release_never_fails_witness:
  "\<exists>s :: pool_state. ps_hold s 0 = [H_Done 1 False] \<and> snd (release_enter 0 1 False (ps_pool s)) \<in> {RE_Return Code_Ok, RE_Flush}"
proof -
  obtain s where s: "pool_run True demo_pool s" "ps_hold s 0 = [H_Done 1 False]" using demo_done by blast
  have "H_Done 1 False \<in> set (ps_hold s 0)" using s by simp
  from release_never_fails[OF s(1) this] show ?thesis using s(2) by blast
qed

text \<open>C4: Write-ahead logging: when every writer is a transaction, each allocated page on the disk is, at all times of
  every interleaving of the pool's critical sections, as it was when it was allocated or the pool was opened, as
  \<^verbatim>\<open>RestorePage\<close> set it since, or as a record of the durable part of the log says. So an image that a writer made and
  only an unflushed log record explains never reaches the disk, not by eviction, by write-through nor by a flush. The runs have three
  restrictions (the code has races outside the first two; \<^verbatim>\<open>PoolRaces\<close> shows two of them): \<^verbatim>\<open>FinalizePageDeletion\<close> and \<^verbatim>\<open>RestorePage\<close> run to
  their end before another call touches the pool, a \<^verbatim>\<open>FlushPage\<close> that had to wait goes on only if its frame,
  once valid, still holds its page, and the client loads, deletes and restores only allocated pages that it was handed.
  The log sequence numbers do not wrap around.\<close>

theorem pool_write_ahead:
  assumes "pool_run True bp s" "p \<in> allocated (disk_manager (ps_pool s))"
  shows "ps_base s p = Some (disk_page (disk_manager (ps_pool s)) p) \<or>
    (\<exists>l \<le> durable_lsn (log_manager (ps_pool s)). (p, l, disk_page (disk_manager (ps_pool s)) p) \<in> set (ps_log s))"
  using pool_run_wal[OF assms(1)] assms(2) by (auto simp: wal_safe_def covered_def)

theorem pool_write_ahead_witness:
  "\<exists>s :: pool_state. ps_map s 1 = Some ones \<and> (ps_base s 1 = Some (disk_page (disk_manager (ps_pool s)) 1) \<or>
    (\<exists>l \<le> durable_lsn (log_manager (ps_pool s)). (1, l, disk_page (disk_manager (ps_pool s)) 1) \<in> set (ps_log s)))"
proof -
  obtain s g x where s: "pool_run True demo_pool s" "ps_map s 1 = Some ones" "1 \<in> al_of s" using demo_written by blast
  from pool_write_ahead[OF s(1,3)] s(2) show ?thesis by blast
qed

end
