(* ===== verification/PoolRaces.thy ===== *)
theory PoolRaces
  imports PoolClients
begin

text \<open>
  Two calls that do not stand interference, on states that the protocol reaches: a \<^verbatim>\<open>FlushPage\<close> that waited for its
  frame goes on with that frame, whatever page it holds by then; and \<^verbatim>\<open>RestorePage\<close> sets the pin count to zero when it
  is done, whoever pinned the frame meanwhile.
\<close>

lemma any_step_frames: "call_replacer x bp = (bp', c) \<Longrightarrow>
    frame_at bp' = frame_at bp \<and> disk_manager bp' = disk_manager bp \<and> page_table bp' = page_table bp \<and>
    log_manager bp' = log_manager bp \<and> log_manager_bound bp' = log_manager_bound bp \<and> length (frames bp') = length (frames bp)"
  by (auto dest!: call_replacer_same simp: frame_at_def fun_eq_iff)

text \<open>\<^verbatim>\<open>FlushPage(p)\<close> saw page \<open>p\<close> in frame \<open>f\<close> and waited. By now \<open>p\<close> is in another frame, and \<open>f\<close> holds the changed page
  \<open>q\<close>: the wait ends, as the page table has an entry for \<open>p\<close> and \<open>f\<close> is valid, and the bytes of \<open>q\<close> are written to page
  \<open>p\<close> of the disk (\<open>h\<close>: the log's file can be flushed; it is, up to the number of the frame).\<close>

theorem FlushPage_woken_writes_wrong_page:
  assumes inv: "pool_inv s" and table: "page_table (ps_pool s) p = Some g" "page_table (ps_pool s) q = Some f" "p \<noteq> q"
    and valid: "st_at s f = FS_Valid" "pin_count (fr_at s f) = 0" "is_dirty (fr_at s f)"
    and woken: "page_flush_woken f p (ps_pool s) = (bp1, r)" and io: "page_flush_io h f p bp1 = Some (bp2, Code_Ok)"
  shows "page_flush_wakes f p (ps_pool s) \<and> r = PE_Write f \<and> f \<noteq> g \<and>
    disk_page (disk_manager bp2) p = frame_page (fr_at s f)"
proof -
  have f: "f < n_of s" "pg_at s f = q" using table_state[OF inv table(2)] valid(1) by auto
  have L: "f < length (frames (ps_pool s))" using f pool_invD(2)[OF inv] by simp
  have al: "p \<in> al_of s" using pool_invD(7)[OF inv table(1)] .
  have fg: "f \<noteq> g"
  proof
    assume "f = g"
    then have "owns s f p" "owns s f q" "ps_job s f = None"
      using table pool_invD(6)[OF inv] job_settled[OF frame_invD(1)[OF inv f(1)]] valid(1) by auto
    then show False using table(3) by (auto simp: owns_def)
  qed
  obtain b c where c: "call_replacer (Pin f) (ps_pool s) = (b, c)" by fastforce
  have R: "rep_ok (n_of s) (idle s) (pool_replacer (ps_pool s))" using pool_invD(10)[OF inv] by (simp add: rep_inv_idle)
  have ok: "c = Code_Ok" using call_pin[OF R f(1)] c by auto
  note B = any_step_frames[OF c]
  have e: "r = PE_Write f \<and> bp1 = upd_frame f (\<lambda>fr. fr\<lparr>frame_state := FS_Flushing, pin_count := pin_count fr + 1\<rparr>) b"
    using woken table(1) valid c ok B L by (auto simp: page_flush_woken_def page_flush_valid_def Let_def)
  have b1: "frame_page (frame_at bp1 f) = frame_page (fr_at s f)" "is_dirty (frame_at bp1 f)" "disk_manager bp1 = dk s"
    using e B L valid(3) by auto
  from disk.wr_page[OF pool_invD(1)[OF inv] al page_length[OF inv f(1)]] obtain dm where
    dm: "WritePage p (frame_page (fr_at s f)) (dk s) = (dm, Code_Ok)" "disk_page dm p = frame_page (fr_at s f)" by blast
  have "disk_manager bp2 = dm" using io b1 dm(1) unfolding page_flush_io_def write_frame_def FlushFrameToDisk_def Let_def
    by (auto split: if_splits option.splits)
  then show ?thesis using e fg dm(2) table(1) valid(1) by (simp add: page_flush_wakes_def)
qed

text \<open>\<^verbatim>\<open>RestorePage\<close> has pinned the frame and left the mutex; another thread fetches the page (a hit); \<^verbatim>\<open>RestorePage\<close>
  ends. The frame is a victim of the replacer although a guard holds it, and giving the guard back is an error.\<close>

theorem RestorePage_loses_pin:
  assumes inv: "pool_inv s" and enter: "restore_enter p wd (ps_pool s) = (bp1, RS_Frame f)"
    and hit: "fetch_hit f bp1 = (bp2, FE_Hit f)" and fin: "bp3 = restore_finish f c bp2"
  shows "any_evictable (pool_replacer bp3) f \<and> snd (release_enter f p d bp3) = RE_Return InvalidArgument"
proof -
  have t: "page_table (ps_pool s) p = Some f" "st_at s f = FS_Valid" "pin_count (fr_at s f) = 0"
    using enter by (auto simp: restore_enter_def split: if_splits option.splits prod.splits)
  have f: "f < n_of s" "pg_at s f = p" using table_state[OF inv t(1)] t(2) by auto
  have L: "f < length (frames (ps_pool s))" using f pool_invD(2)[OF inv] by simp
  have R: "rep_ok (n_of s) (idle s) (pool_replacer (ps_pool s))" using pool_invD(10)[OF inv] by (simp add: rep_inv_idle)
  obtain r1 where r1: "call_replacer (Pin f) (ps_pool s) = (ps_pool s\<lparr>pool_replacer := r1\<rparr>, Code_Ok)" "rep_ok (n_of s) (idle s - {f}) r1"
    using call_pin[OF R f(1)] by blast
  have b1: "bp1 = upd_frame f (\<lambda>fr. fr\<lparr>pin_count := 1\<rparr>) (ps_pool s\<lparr>pool_replacer := r1\<rparr>)"
    using enter t r1(1) by (auto simp: restore_enter_def split: if_splits)
  have "rep_ok (n_of s) (idle s - {f}) (pool_replacer bp1)" using r1(2) by (simp add: b1)
  from call_pin[OF this f(1)] obtain r2 where
    r2: "call_replacer (Pin f) bp1 = (bp1\<lparr>pool_replacer := r2\<rparr>, Code_Ok)" "rep_ok (n_of s) (idle s - {f}) r2" by auto
  let ?u = "upd_frame f (\<lambda>fr. fr\<lparr>pin_count := pin_count fr + 1\<rparr>) (bp1\<lparr>pool_replacer := r2\<rparr>)"
  have "rep_ok (n_of s) (idle s - {f}) (pool_replacer ?u)" using r2(2) by simp
  from call_access[OF this f(1)] obtain r3 where
    r3: "call_replacer (RecordAccess f) ?u = (?u\<lparr>pool_replacer := r3\<rparr>, Code_Ok)" "rep_ok (n_of s) (idle s - {f}) r3" by blast
  have b2: "bp2 = ?u\<lparr>pool_replacer := r3, hit_count := hit_count bp1 + 1\<rparr>"
    using hit r2(1) r3(1) by (auto simp: fetch_hit_def)
  let ?v = "upd_frame f (\<lambda>fr. fr\<lparr>pin_count := 0\<rparr>) (if c = Code_Ok then upd_frame f (\<lambda>fr. fr\<lparr>is_dirty := False, page_lsn := kInvalidLsn\<rparr>) bp2 else bp2)"
  have "rep_ok (n_of s) (idle s - {f}) (pool_replacer ?v)" using r3(2) by (simp add: b2)
  from call_unpin[OF this f(1)] obtain r4 where
    r4: "call_replacer (Unpin f) ?v = (?v\<lparr>pool_replacer := r4\<rparr>, Code_Ok)" "rep_ok (n_of s) (insert f (idle s - {f})) r4" by auto
  have b3: "bp3 = ?v\<lparr>pool_replacer := r4\<rparr>" using fin r4(1) by (simp add: restore_finish_def Let_def)
  have ev: "any_evictable (pool_replacer bp3) f"
    using r4(2) pool_rep.evictable_cand[of "n_of s" r4 f] by (auto simp: b3 rep_ok_def)
  have "frame_matches f p bp3" "pin_count (frame_at bp3 f) = 0" using L f(2) by (auto simp: b3 b2 b1 frame_matches_def)
  then show ?thesis using ev by (simp add: release_enter_def)
qed

end
