(* ===== verification/BTreePage.thy ===== *)
theory BTreePage
  imports PageBytes
begin

text \<open>
  The pages of the B+ tree (\<^verbatim>\<open>index/b_plus_tree_page.cpp\<close>): a header of five 32-bit fields and an array of entries of 16
  bytes, a key and a record id in a leaf, a key and a child page in an internal page. \<^verbatim>\<open>memcpy\<close> of an integer is
  read as on a little-endian host. \<open>is_leaf\<close> and \<open>is_internal\<close> say what a page holds; each operation is shown to be the
  corresponding change of that.
\<close>

subsection \<open>Fields\<close>

type_synonym index_key_t = "64 word"

definition load32 :: "byte list \<Rightarrow> nat \<Rightarrow> u32" where
  "load32 data off = le_word (get_bytes off 4 data)"

definition load64 :: "byte list \<Rightarrow> nat \<Rightarrow> u64" where
  "load64 data off = le_word (get_bytes off 8 data)"

definition store32 :: "byte list \<Rightarrow> nat \<Rightarrow> u32 \<Rightarrow> byte list" where
  "store32 data off v = put_bytes off (le_bytes 4 v) data"

definition store64 :: "byte list \<Rightarrow> nat \<Rightarrow> u64 \<Rightarrow> byte list" where
  "store64 data off v = put_bytes off (le_bytes 8 v) data"

definition kTypeOffset :: nat where "kTypeOffset = 0"
definition kSizeOffset :: nat where "kSizeOffset = 4"
definition kMaxSizeOffset :: nat where "kMaxSizeOffset = 8"
definition kParentOffset :: nat where "kParentOffset = 12"
definition kNextOffset :: nat where "kNextOffset = 16"
definition kHeaderSize :: nat where "kHeaderSize = 32"
definition kEntrySize :: nat where "kEntrySize = 16"
definition kLeafPageType :: u32 where "kLeafPageType = 0x42504C46"
definition kInternalPageType :: u32 where "kInternalPageType = 0x4250494E"

definition kPhysicalMaxSize :: u32 where
  "kPhysicalMaxSize = word_of_nat ((page_size - kHeaderSize) div kEntrySize)"

definition RidLess :: "RID \<Rightarrow> RID \<Rightarrow> bool" where
  "RidLess left right \<longleftrightarrow> rid_page_id left < rid_page_id right \<or>
     rid_page_id left = rid_page_id right \<and> rid_slot_id left < rid_slot_id right"

definition EntryLess :: "index_key_t \<times> RID \<Rightarrow> index_key_t \<times> RID \<Rightarrow> bool" where
  "EntryLess left right \<longleftrightarrow> sint (fst left) < sint (fst right) \<or>
     fst left = fst right \<and> RidLess (snd left) (snd right)"

text \<open>\<^verbatim>\<open>std::lower_bound\<close>: the first position whose element is not less (the list is sorted).\<close>

definition lower_bound :: "('a \<Rightarrow> 'a \<Rightarrow> bool) \<Rightarrow> 'a list \<Rightarrow> 'a \<Rightarrow> nat" where
  "lower_bound lt xs x = length (takeWhile (\<lambda>y. lt y x) xs)"

definition insert_at :: "nat \<Rightarrow> 'a \<Rightarrow> 'a list \<Rightarrow> 'a list" where
  "insert_at i x xs = take i xs @ x # drop i xs"

definition erase_at :: "nat \<Rightarrow> 'a list \<Rightarrow> 'a list" where
  "erase_at i xs = take i xs @ drop (Suc i) xs"

subsection \<open>Leaf pages\<close>

definition leaf_GetSize :: "byte list \<Rightarrow> u32" where "leaf_GetSize data = load32 data kSizeOffset"
definition leaf_GetMaxSize :: "byte list \<Rightarrow> u32" where "leaf_GetMaxSize data = load32 data kMaxSizeOffset"
definition leaf_GetParentPageId :: "byte list \<Rightarrow> page_id_t" where "leaf_GetParentPageId data = load32 data kParentOffset"
definition leaf_GetNextPageId :: "byte list \<Rightarrow> page_id_t" where "leaf_GetNextPageId data = load32 data kNextOffset"

definition leaf_SetParentPageId :: "page_id_t \<Rightarrow> byte list \<Rightarrow> byte list" where
  "leaf_SetParentPageId p data = store32 data kParentOffset p"

definition leaf_SetNextPageId :: "page_id_t \<Rightarrow> byte list \<Rightarrow> byte list" where
  "leaf_SetNextPageId p data = store32 data kNextOffset p"

definition leaf_KeyAt :: "byte list \<Rightarrow> nat \<Rightarrow> index_key_t" where
  "leaf_KeyAt data i = load64 data (kHeaderSize + i * kEntrySize)"

definition leaf_ValueAt :: "byte list \<Rightarrow> nat \<Rightarrow> RID" where
  "leaf_ValueAt data i =
     (let offset = kHeaderSize + i * kEntrySize + 8
      in \<lparr>rid_page_id = load32 data offset, rid_slot_id = load32 data (offset + 4)\<rparr>)"

definition leaf_Initialize :: "u32 \<Rightarrow> page_id_t \<Rightarrow> page_id_t \<Rightarrow> byte list Result" where
  "leaf_Initialize max_size parent next_page =
     (if max_size < 2 \<or> max_size > kPhysicalMaxSize then Inl InvalidArgument
      else
        (let data = replicate page_size 0;
             data = store32 data kTypeOffset kLeafPageType;
             data = store32 data kSizeOffset 0;
             data = store32 data kMaxSizeOffset max_size;
             data = store32 data kParentOffset parent
         in Inr (store32 data kNextOffset next_page)))"

definition leaf_Entries :: "byte list \<Rightarrow> (index_key_t \<times> RID) list" where
  "leaf_Entries data = map (\<lambda>i. (leaf_KeyAt data i, leaf_ValueAt data i)) [0..<unat (leaf_GetSize data)]"

definition leaf_Validate :: "byte list \<Rightarrow> ErrorCode" where
  "leaf_Validate data =
     (if load32 data kTypeOffset \<noteq> kLeafPageType then InternalError
      else
        (let max_size = leaf_GetMaxSize data in
         if max_size < 2 \<or> max_size > kPhysicalMaxSize \<or> leaf_GetSize data > max_size then InternalError
         else if \<exists>i \<in> set [1..<unat (leaf_GetSize data)].
              sint (leaf_KeyAt data i) < sint (leaf_KeyAt data (i - 1)) \<or>
              leaf_KeyAt data i = leaf_KeyAt data (i - 1) \<and> RidLess (leaf_ValueAt data i) (leaf_ValueAt data (i - 1))
         then InternalError
         else Code_Ok))"

function leaf_lower_loop :: "byte list \<Rightarrow> index_key_t \<Rightarrow> nat \<Rightarrow> nat \<Rightarrow> nat" where
  "leaf_lower_loop data key first count =
     (if count = 0 then first
      else
        (let step = count div 2; middle = first + step in
         if sint (leaf_KeyAt data middle) < sint key then leaf_lower_loop data key (middle + 1) (count - (step + 1))
         else leaf_lower_loop data key first step))"
  by pat_completeness auto
termination by (relation "measure (\<lambda>(data, key, first, count). count)") auto

definition leaf_LowerBound :: "byte list \<Rightarrow> index_key_t \<Rightarrow> nat" where
  "leaf_LowerBound data key = leaf_lower_loop data key 0 (unat (leaf_GetSize data))"

definition leaf_store_entry :: "byte list \<Rightarrow> nat \<Rightarrow> index_key_t \<times> RID \<Rightarrow> byte list" where
  "leaf_store_entry data i entry =
     (let offset = kHeaderSize + i * kEntrySize;
          data = store64 data offset (fst entry);
          data = store32 data (offset + 8) (rid_page_id (snd entry))
      in store32 data (offset + 8 + 4) (rid_slot_id (snd entry)))"

definition store_entries :: "(byte list \<Rightarrow> nat \<Rightarrow> 'e \<Rightarrow> byte list) \<Rightarrow> 'e list \<Rightarrow> byte list \<Rightarrow> byte list" where
  "store_entries store entries data = foldl (\<lambda>data i. store data i (entries ! i)) data [0..<length entries]"

definition leaf_Assign :: "(index_key_t \<times> RID) list \<Rightarrow> byte list \<Rightarrow> byte list Result" where
  "leaf_Assign entries data =
     (if length entries > unat (leaf_GetMaxSize data) then Inl OutOfSpace
      else Inr (store32 (store_entries leaf_store_entry entries data) kSizeOffset (word_of_nat (length entries))))"

definition leaf_Insert :: "index_key_t \<Rightarrow> RID \<Rightarrow> byte list \<Rightarrow> byte list Result" where
  "leaf_Insert key rid data =
     (let entries = leaf_Entries data; position = lower_bound EntryLess entries (key, rid) in
      if position < length entries \<and> entries ! position = (key, rid) then Inl AlreadyExists
      else if length entries \<ge> unat (leaf_GetMaxSize data) then Inl OutOfSpace
      else leaf_Assign (insert_at position (key, rid) entries) data)"

subsection \<open>Internal pages\<close>

definition internal_GetSize :: "byte list \<Rightarrow> u32" where "internal_GetSize data = load32 data kSizeOffset"
definition internal_GetMaxSize :: "byte list \<Rightarrow> u32" where "internal_GetMaxSize data = load32 data kMaxSizeOffset"
definition internal_GetParentPageId :: "byte list \<Rightarrow> page_id_t" where
  "internal_GetParentPageId data = load32 data kParentOffset"

definition internal_SetParentPageId :: "page_id_t \<Rightarrow> byte list \<Rightarrow> byte list" where
  "internal_SetParentPageId p data = store32 data kParentOffset p"

definition internal_KeyAt :: "byte list \<Rightarrow> nat \<Rightarrow> index_key_t" where
  "internal_KeyAt data i = load64 data (kHeaderSize + i * kEntrySize)"

definition internal_ChildAt :: "byte list \<Rightarrow> nat \<Rightarrow> page_id_t" where
  "internal_ChildAt data i = load32 data (kHeaderSize + i * kEntrySize + 8)"

definition internal_Initialize :: "u32 \<Rightarrow> page_id_t \<Rightarrow> byte list Result" where
  "internal_Initialize max_size parent =
     (if max_size < 3 \<or> max_size > kPhysicalMaxSize then Inl InvalidArgument
      else
        (let data = replicate page_size 0;
             data = store32 data kTypeOffset kInternalPageType;
             data = store32 data kSizeOffset 0;
             data = store32 data kMaxSizeOffset max_size
         in Inr (store32 data kParentOffset parent)))"

definition internal_Validate :: "byte list \<Rightarrow> ErrorCode" where
  "internal_Validate data =
     (if load32 data kTypeOffset \<noteq> kInternalPageType then InternalError
      else
        (let max_size = internal_GetMaxSize data in
         if max_size < 3 \<or> max_size > kPhysicalMaxSize \<or> internal_GetSize data > max_size then InternalError
         else if \<exists>i \<in> set [2..<unat (internal_GetSize data)]. sint (internal_KeyAt data i) < sint (internal_KeyAt data (i - 1))
         then InternalError
         else Code_Ok))"

function lookup_loop :: "byte list \<Rightarrow> index_key_t \<Rightarrow> nat \<Rightarrow> nat" where
  "lookup_loop data key child =
     (if child + 1 < unat (internal_GetSize data) \<and> sint (internal_KeyAt data (child + 1)) < sint key
      then lookup_loop data key (child + 1) else child)"
  by pat_completeness auto
termination by (relation "measure (\<lambda>(data, key, child). unat (internal_GetSize data) - child)") auto

definition internal_Lookup :: "byte list \<Rightarrow> index_key_t \<Rightarrow> page_id_t" where
  "internal_Lookup data key =
     (if internal_GetSize data = 0 then INVALID_PAGE_ID else internal_ChildAt data (lookup_loop data key 0))"

definition internal_Entries :: "byte list \<Rightarrow> (index_key_t \<times> page_id_t) list" where
  "internal_Entries data = map (\<lambda>i. (internal_KeyAt data i, internal_ChildAt data i)) [0..<unat (internal_GetSize data)]"

definition internal_store_entry :: "byte list \<Rightarrow> nat \<Rightarrow> index_key_t \<times> page_id_t \<Rightarrow> byte list" where
  "internal_store_entry data i entry =
     (let offset = kHeaderSize + i * kEntrySize in store32 (store64 data offset (fst entry)) (offset + 8) (snd entry))"

definition internal_Assign :: "(index_key_t \<times> page_id_t) list \<Rightarrow> byte list \<Rightarrow> byte list Result" where
  "internal_Assign entries data =
     (if length entries > unat (internal_GetMaxSize data) then Inl OutOfSpace
      else Inr (store32 (store_entries internal_store_entry entries data) kSizeOffset (word_of_nat (length entries))))"

declare leaf_lower_loop.simps [simp del] lookup_loop.simps [simp del]

subsection \<open>Reading after writing\<close>

lemma length_stores [simp]:
  "off + 4 \<le> length d \<Longrightarrow> length (store32 d off v) = length d" "off + 8 \<le> length d \<Longrightarrow> length (store64 d off w) = length d"
  by (simp_all add: store32_def store64_def length_put_bytes)

lemma get_store_other:
  "off + 4 \<le> length d \<Longrightarrow> p + n \<le> length d \<Longrightarrow> p + n \<le> off \<or> off + 4 \<le> p \<Longrightarrow> get_bytes p n (store32 d off v) = get_bytes p n d"
  "off + 8 \<le> length d \<Longrightarrow> p + n \<le> length d \<Longrightarrow> p + n \<le> off \<or> off + 8 \<le> p \<Longrightarrow> get_bytes p n (store64 d off w) = get_bytes p n d"
  by (simp_all add: store32_def store64_def get_put_disjoint)

lemma load_store_same [simp]:
  "off + 4 \<le> length d \<Longrightarrow> load32 (store32 d off v) off = v" "off + 8 \<le> length d \<Longrightarrow> load64 (store64 d off w) off = w"
  by (simp_all add: load32_def load64_def store32_def store64_def get_put_same)

lemma load_store_other:
  "off + 4 \<le> length d \<Longrightarrow> p + 4 \<le> length d \<Longrightarrow> p + 4 \<le> off \<or> off + 4 \<le> p \<Longrightarrow> load32 (store32 d off v) p = load32 d p"
  "off + 8 \<le> length d \<Longrightarrow> p + 4 \<le> length d \<Longrightarrow> p + 4 \<le> off \<or> off + 8 \<le> p \<Longrightarrow> load32 (store64 d off w) p = load32 d p"
  "off + 4 \<le> length d \<Longrightarrow> p + 8 \<le> length d \<Longrightarrow> p + 8 \<le> off \<or> off + 4 \<le> p \<Longrightarrow> load64 (store32 d off v) p = load64 d p"
  "off + 8 \<le> length d \<Longrightarrow> p + 8 \<le> length d \<Longrightarrow> p + 8 \<le> off \<or> off + 8 \<le> p \<Longrightarrow> load64 (store64 d off w) p = load64 d p"
  by (simp_all add: load32_def load64_def get_store_other)

lemma load32_cong: "get_bytes p 4 d = get_bytes p 4 d' \<Longrightarrow> load32 d p = load32 d' p"
  by (simp add: load32_def)

lemma load64_cong: "get_bytes p 8 d = get_bytes p 8 d' \<Longrightarrow> load64 d p = load64 d' p"
  by (simp add: load64_def)

lemmas page_consts = kTypeOffset_def kSizeOffset_def kMaxSizeOffset_def kParentOffset_def kNextOffset_def kHeaderSize_def kEntrySize_def

lemma physical_max [simp]: "unat kPhysicalMaxSize = 254"
  by (simp add: kPhysicalMaxSize_def page_size_def page_consts)

text \<open>A run of entries, stored one after the other in their slots.\<close>

lemma store_entries_facts:
  fixes rd :: "byte list \<Rightarrow> nat \<Rightarrow> 'e"
  assumes step: "\<And>d i. i < length es \<Longrightarrow> length d = page_size \<Longrightarrow> length (st d i (es ! i)) = page_size \<and> rd (st d i (es ! i)) i = es ! i \<and>
      (\<forall>j < length es. j \<noteq> i \<longrightarrow> rd (st d i (es ! i)) j = rd d j) \<and> (\<forall>p n. p + n \<le> 32 \<longrightarrow> get_bytes p n (st d i (es ! i)) = get_bytes p n d)"
    and len: "length d = page_size"
  shows "length (store_entries st es d) = page_size" "j < length es \<Longrightarrow> rd (store_entries st es d) j = es ! j"
    "p + n \<le> 32 \<Longrightarrow> get_bytes p n (store_entries st es d) = get_bytes p n d"
proof -
  let ?f = "\<lambda>k. foldl (\<lambda>d i. st d i (es ! i)) d [0..<k]"
  have "length (?f k) = page_size \<and> (\<forall>j < k. rd (?f k) j = es ! j) \<and> (\<forall>p n. p + n \<le> 32 \<longrightarrow> get_bytes p n (?f k) = get_bytes p n d)"
    if "k \<le> length es" for k
    using that
  proof (induction k)
    case (Suc k)
    then have IH: "length (?f k) = page_size" "\<forall>j < k. rd (?f k) j = es ! j" "\<forall>p n. p + n \<le> 32 \<longrightarrow> get_bytes p n (?f k) = get_bytes p n d"
      by auto
    have k: "k < length es" using Suc.prems by simp
    note S = step[OF k IH(1)]
    have "rd (st (?f k) k (es ! k)) j = es ! j" if "j < Suc k" for j
      using S IH(2) that Suc.prems by (cases "j = k") auto
    then show ?case using S IH(3) by simp
  qed (use len in simp)
  from this[OF order_refl] show "length (store_entries st es d) = page_size"
    "j < length es \<Longrightarrow> rd (store_entries st es d) j = es ! j" "p + n \<le> 32 \<Longrightarrow> get_bytes p n (store_entries st es d) = get_bytes p n d"
    by (simp_all add: store_entries_def)
qed

lemma entry_fits: "(i :: nat) < n \<Longrightarrow> n \<le> 254 \<Longrightarrow> i * 16 + 48 \<le> 4096"
  by simp

lemma slots_apart: "i \<noteq> j \<Longrightarrow> i * 16 + 16 \<le> j * 16 \<or> j * 16 + 16 \<le> (i :: nat) * 16"
  by arith

lemma leaf_store_step:
  assumes "i < n" "n \<le> 254" "length d = page_size"
  shows "length (leaf_store_entry d i e) = page_size \<and> (leaf_KeyAt (leaf_store_entry d i e) i, leaf_ValueAt (leaf_store_entry d i e) i) = e \<and>
      (\<forall>j < n. j \<noteq> i \<longrightarrow> (leaf_KeyAt (leaf_store_entry d i e) j, leaf_ValueAt (leaf_store_entry d i e) j) = (leaf_KeyAt d j, leaf_ValueAt d j)) \<and>
      (\<forall>p n. p + n \<le> 32 \<longrightarrow> get_bytes p n (leaf_store_entry d i e) = get_bytes p n d)"
proof -
  have L: "length d = 4096" "i * 16 + 48 \<le> 4096" using assms entry_fits by (simp_all add: page_size_def)
  have o: "leaf_KeyAt (leaf_store_entry d i e) j = leaf_KeyAt d j \<and> leaf_ValueAt (leaf_store_entry d i e) j = leaf_ValueAt d j" if "j < n" "j \<noteq> i" for j
  proof -
    have J: "j * 16 + 48 \<le> 4096" using that(1) assms(2) entry_fits by simp
    show ?thesis using slots_apart[OF that(2)] L J
      by (auto simp: leaf_store_entry_def leaf_KeyAt_def leaf_ValueAt_def Let_def page_consts load_store_other)
  qed
  show ?thesis using L o
    by (cases e) (auto simp: leaf_store_entry_def leaf_KeyAt_def leaf_ValueAt_def Let_def page_consts load_store_other get_store_other page_size_def)
qed

lemma internal_store_step:
  assumes "i < n" "n \<le> 254" "length d = page_size"
  shows "length (internal_store_entry d i e) = page_size \<and> (internal_KeyAt (internal_store_entry d i e) i, internal_ChildAt (internal_store_entry d i e) i) = e \<and>
      (\<forall>j < n. j \<noteq> i \<longrightarrow> (internal_KeyAt (internal_store_entry d i e) j, internal_ChildAt (internal_store_entry d i e) j) = (internal_KeyAt d j, internal_ChildAt d j)) \<and>
      (\<forall>p n. p + n \<le> 32 \<longrightarrow> get_bytes p n (internal_store_entry d i e) = get_bytes p n d)"
proof -
  have L: "length d = 4096" "i * 16 + 48 \<le> 4096" using assms entry_fits by (simp_all add: page_size_def)
  have o: "internal_KeyAt (internal_store_entry d i e) j = internal_KeyAt d j \<and> internal_ChildAt (internal_store_entry d i e) j = internal_ChildAt d j"
    if "j < n" "j \<noteq> i" for j
  proof -
    have J: "j * 16 + 48 \<le> 4096" using that(1) assms(2) entry_fits by simp
    show ?thesis using slots_apart[OF that(2)] L J
      by (auto simp: internal_store_entry_def internal_KeyAt_def internal_ChildAt_def Let_def page_consts load_store_other)
  qed
  show ?thesis using L o
    by (cases e) (auto simp: internal_store_entry_def internal_KeyAt_def internal_ChildAt_def Let_def page_consts load_store_other get_store_other page_size_def)
qed

subsection \<open>What a page holds\<close>

definition entry_le :: "index_key_t \<times> RID \<Rightarrow> index_key_t \<times> RID \<Rightarrow> bool" where
  "entry_le x y \<longleftrightarrow> \<not> EntryLess y x"

definition header_of :: "byte list \<Rightarrow> u32 \<Rightarrow> u32 \<Rightarrow> page_id_t \<Rightarrow> nat \<Rightarrow> bool" where
  "header_of data ty mx parent n \<longleftrightarrow> length data = page_size \<and> load32 data kTypeOffset = ty \<and> load32 data kMaxSizeOffset = mx \<and>
     load32 data kParentOffset = parent \<and> load32 data kSizeOffset = word_of_nat n \<and> n \<le> unat mx \<and> unat mx \<le> 254"

definition is_leaf :: "byte list \<Rightarrow> u32 \<Rightarrow> page_id_t \<Rightarrow> page_id_t \<Rightarrow> (index_key_t \<times> RID) list \<Rightarrow> bool" where
  "is_leaf data mx parent next_page es \<longleftrightarrow> header_of data kLeafPageType mx parent (length es) \<and> 2 \<le> unat mx \<and>
     load32 data kNextOffset = next_page \<and> leaf_Entries data = es \<and> sorted_wrt entry_le es"

definition is_internal :: "byte list \<Rightarrow> u32 \<Rightarrow> page_id_t \<Rightarrow> (index_key_t \<times> page_id_t) list \<Rightarrow> bool" where
  "is_internal data mx parent es \<longleftrightarrow> header_of data kInternalPageType mx parent (length es) \<and> 3 \<le> unat mx \<and>
     internal_Entries data = es \<and> sorted_wrt (\<lambda>x y. sint (fst x) \<le> sint (fst y)) (tl es)"

lemma sint_eq: "sint (x :: 'a::len word) = sint y \<longleftrightarrow> x = y"
  by (auto intro: signed_word_eqI)

lemma bex_from1: "(\<exists>i \<in> set [1..<n]. Q i) \<longleftrightarrow> (\<exists>i. Suc i < n \<and> Q (Suc i))"
proof
  assume "\<exists>i \<in> set [1..<n]. Q i"
  then obtain i where "1 \<le> i" "i < n" "Q i" by auto
  then show "\<exists>i. Suc i < n \<and> Q (Suc i)" by (intro exI[of _ "i - 1"]) simp
qed auto

lemma bex_from2: "(\<exists>i \<in> set [2..<n]. Q i) \<longleftrightarrow> (\<exists>i. Suc (Suc i) < n \<and> Q (Suc (Suc i)))"
proof
  assume "\<exists>i \<in> set [2..<n]. Q i"
  then obtain i where "2 \<le> i" "i < n" "Q i" by auto
  then show "\<exists>i. Suc (Suc i) < n \<and> Q (Suc (Suc i))" by (intro exI[of _ "i - 2"]) (simp add: numeral_2_eq_2 Suc_diff_Suc)
next
  assume "\<exists>i. Suc (Suc i) < n \<and> Q (Suc (Suc i))"
  then obtain i where "Suc (Suc i) < n" "Q (Suc (Suc i))" by blast
  then show "\<exists>i \<in> set [2..<n]. Q i" by (intro bexI[of _ "Suc (Suc i)"]) auto
qed

lemma entry_le_alt: "entry_le x y \<longleftrightarrow> sint (fst x) < sint (fst y) \<or> fst x = fst y \<and> \<not> RidLess (snd y) (snd x)"
  by (auto simp: entry_le_def EntryLess_def sint_eq dest: antisym[of "sint (fst x)" "sint (fst y)"] elim: order.antisym)

lemma RidLess_trans: "\<not> RidLess b a \<Longrightarrow> \<not> RidLess c b \<Longrightarrow> \<not> RidLess c a"
  by (auto simp: RidLess_def)

lemma RidLess_antisym: "\<not> RidLess b a \<Longrightarrow> \<not> RidLess a b \<Longrightarrow> a = b"
  by (cases a; cases b) (auto simp: RidLess_def)

lemma transp_entry_le: "transp entry_le"
  by (rule transpI) (auto simp: entry_le_alt dest: RidLess_trans)

lemma entry_le_trans: "entry_le x y \<Longrightarrow> entry_le y z \<Longrightarrow> entry_le x z"
  using transp_entry_le by (rule transpD)

lemma entry_le_refl [simp]: "entry_le x x"
  by (auto simp: entry_le_def EntryLess_def RidLess_def)

lemma entry_le_total: "entry_le x y \<or> entry_le y x"
  by (auto simp: entry_le_def EntryLess_def RidLess_def)

lemma entry_le_antisym: "entry_le x y \<Longrightarrow> entry_le y x \<Longrightarrow> x = y"
  using RidLess_antisym[of "snd x" "snd y"] by (cases x; cases y) (auto simp: entry_le_alt)

lemma entry_le_key: "entry_le x y \<Longrightarrow> sint (fst x) \<le> sint (fst y)"
  by (auto simp: entry_le_alt)

lemma EntryLess_iff: "EntryLess x y \<longleftrightarrow> \<not> entry_le y x"
  by (simp add: entry_le_def)

lemma size_word: "n \<le> 254 \<Longrightarrow> unat (word_of_nat n :: u32) = n"
  by (simp add: unat_word_of_nat_u32)

lemma header_size: "header_of d ty mx p n \<Longrightarrow> unat (load32 d kSizeOffset) = n"
  by (simp add: header_of_def size_word)

lemma length_leaf_Entries [simp]: "length (leaf_Entries d) = unat (leaf_GetSize d)"
  by (simp add: leaf_Entries_def)

lemma length_internal_Entries [simp]: "length (internal_Entries d) = unat (internal_GetSize d)"
  by (simp add: internal_Entries_def)

lemma leaf_Entries_nth: "i < unat (leaf_GetSize d) \<Longrightarrow> leaf_Entries d ! i = (leaf_KeyAt d i, leaf_ValueAt d i)"
  by (simp add: leaf_Entries_def)

lemma internal_Entries_nth: "i < unat (internal_GetSize d) \<Longrightarrow> internal_Entries d ! i = (internal_KeyAt d i, internal_ChildAt d i)"
  by (simp add: internal_Entries_def)

lemma leaf_get:
  assumes "is_leaf d mx p nx es"
  shows "leaf_GetMaxSize d = mx" "leaf_GetParentPageId d = p" "leaf_GetNextPageId d = nx" "leaf_Entries d = es"
    "unat (leaf_GetSize d) = length es" "length d = page_size" "sorted_wrt entry_le es" "length es \<le> unat mx" "2 \<le> unat mx" "unat mx \<le> 254"
  using assms header_size[of d kLeafPageType mx p "length es"]
  by (auto simp: is_leaf_def header_of_def leaf_GetMaxSize_def leaf_GetParentPageId_def leaf_GetNextPageId_def leaf_GetSize_def)

lemma internal_get:
  assumes "is_internal d mx p es"
  shows "internal_GetMaxSize d = mx" "internal_GetParentPageId d = p" "internal_Entries d = es"
    "unat (internal_GetSize d) = length es" "length d = page_size" "sorted_wrt (\<lambda>x y. sint (fst x) \<le> sint (fst y)) (tl es)"
    "length es \<le> unat mx" "3 \<le> unat mx" "unat mx \<le> 254"
  using assms header_size[of d kInternalPageType mx p "length es"]
  by (auto simp: is_internal_def header_of_def internal_GetMaxSize_def internal_GetParentPageId_def internal_GetSize_def)

lemma two_le_unat: "(w :: u32) < 2 \<longleftrightarrow> unat w < 2" "(w :: u32) < 3 \<longleftrightarrow> unat w < 3" "w > kPhysicalMaxSize \<longleftrightarrow> unat w > 254"
  by (simp_all add: word_less_nat_alt)

text \<open>\<^verbatim>\<open>Validate\<close> accepts exactly the well-formed pages.\<close>

lemma leaf_Validate_iff:
  assumes "length d = page_size"
  shows "leaf_Validate d = Code_Ok \<longleftrightarrow> (\<exists>mx p nx es. is_leaf d mx p nx es)"
proof -
  have "(\<exists>i \<in> set [1..<unat (leaf_GetSize d)]. sint (leaf_KeyAt d i) < sint (leaf_KeyAt d (i - 1)) \<or>
      leaf_KeyAt d i = leaf_KeyAt d (i - 1) \<and> RidLess (leaf_ValueAt d i) (leaf_ValueAt d (i - 1))) \<longleftrightarrow> \<not> sorted_wrt entry_le (leaf_Entries d)"
    (is "?L \<longleftrightarrow> _")
  proof -
    have "sorted_wrt entry_le (leaf_Entries d) \<longleftrightarrow>
        (\<forall>i. Suc i < unat (leaf_GetSize d) \<longrightarrow> entry_le (leaf_Entries d ! i) (leaf_Entries d ! Suc i))"
      by (simp add: sorted_wrt_iff_nth_Suc_transp[OF transp_entry_le])
    also have "\<dots> \<longleftrightarrow> (\<forall>i. Suc i < unat (leaf_GetSize d) \<longrightarrow> \<not> EntryLess (leaf_KeyAt d (Suc i), leaf_ValueAt d (Suc i)) (leaf_KeyAt d i, leaf_ValueAt d i))"
      by (simp add: leaf_Entries_nth entry_le_def)
    also have "\<dots> \<longleftrightarrow> \<not> ?L"
      unfolding bex_from1 by (simp add: EntryLess_def)
    finally show ?thesis by blast
  qed
  moreover have "(\<exists>mx p nx es. is_leaf d mx p nx es) \<longleftrightarrow>
      load32 d kTypeOffset = kLeafPageType \<and> \<not> leaf_GetMaxSize d < 2 \<and> \<not> leaf_GetMaxSize d > kPhysicalMaxSize \<and>
      \<not> leaf_GetSize d > leaf_GetMaxSize d \<and> sorted_wrt entry_le (leaf_Entries d)"
    using assms by (auto simp: is_leaf_def header_of_def leaf_GetMaxSize_def leaf_GetSize_def two_le_unat word_less_nat_alt size_word)
  ultimately show ?thesis by (auto simp: leaf_Validate_def Let_def)
qed

lemma internal_Validate_iff:
  assumes "length d = page_size"
  shows "internal_Validate d = Code_Ok \<longleftrightarrow> (\<exists>mx p es. is_internal d mx p es)"
proof -
  let ?le = "\<lambda>x y. sint (fst x) \<le> sint (fst y)"
  have tr: "transp (?le :: index_key_t \<times> page_id_t \<Rightarrow> _)" by (rule transpI) simp
  have "(\<exists>i \<in> set [2..<unat (internal_GetSize d)]. sint (internal_KeyAt d i) < sint (internal_KeyAt d (i - 1))) \<longleftrightarrow>
      \<not> sorted_wrt ?le (tl (internal_Entries d))" (is "?L \<longleftrightarrow> _")
  proof -
    have n: "tl (internal_Entries d) ! i = (internal_KeyAt d (Suc i), internal_ChildAt d (Suc i))" if "Suc i < unat (internal_GetSize d)" for i
      using that by (simp add: nth_tl internal_Entries_nth)
    have "sorted_wrt ?le (tl (internal_Entries d)) \<longleftrightarrow>
        (\<forall>i. Suc i < unat (internal_GetSize d) - 1 \<longrightarrow> ?le (tl (internal_Entries d) ! i) (tl (internal_Entries d) ! Suc i))"
      using sorted_wrt_iff_nth_Suc_transp[OF tr, of "tl (internal_Entries d)"] by simp
    also have "\<dots> \<longleftrightarrow> (\<forall>i. Suc (Suc i) < unat (internal_GetSize d) \<longrightarrow> \<not> sint (internal_KeyAt d (Suc (Suc i))) < sint (internal_KeyAt d (Suc i)))"
      using n by (auto simp: less_diff_conv)
    also have "\<dots> \<longleftrightarrow> \<not> ?L"
      unfolding bex_from2 by simp
    finally show ?thesis by blast
  qed
  moreover have "(\<exists>mx p es. is_internal d mx p es) \<longleftrightarrow>
      load32 d kTypeOffset = kInternalPageType \<and> \<not> internal_GetMaxSize d < 3 \<and> \<not> internal_GetMaxSize d > kPhysicalMaxSize \<and>
      \<not> internal_GetSize d > internal_GetMaxSize d \<and> sorted_wrt ?le (tl (internal_Entries d))"
    using assms by (auto simp: is_internal_def header_of_def internal_GetMaxSize_def internal_GetSize_def two_le_unat word_less_nat_alt size_word)
  ultimately show ?thesis by (auto simp: internal_Validate_def Let_def)
qed

lemma is_leaf_valid: "is_leaf d mx p nx es \<Longrightarrow> leaf_Validate d = Code_Ok"
  using leaf_Validate_iff[of d] leaf_get(6)[of d mx p nx es] by blast

lemma is_internal_valid: "is_internal d mx p es \<Longrightarrow> internal_Validate d = Code_Ok \<and> leaf_Validate d \<noteq> Code_Ok"
  using internal_Validate_iff[of d] internal_get(5)[of d mx p es]
  by (auto simp: leaf_Validate_def is_internal_def header_of_def kLeafPageType_def kInternalPageType_def)

subsection \<open>The operations on what a page holds\<close>

lemma header_store_other:
  assumes "header_of d ty mx p n" "length d' = page_size" "\<And>q k. q + k \<le> 32 \<Longrightarrow> get_bytes q k d' = get_bytes q k d"
  shows "header_of d' ty mx p n"
  using assms load32_cong[of _ d' d] by (auto simp: header_of_def page_consts)

lemma header_set_size:
  assumes "header_of d ty mx p n" "m \<le> unat mx"
  shows "header_of (store32 d kSizeOffset (word_of_nat m)) ty mx p m"
  using assms by (auto simp: header_of_def page_consts page_size_def load_store_other)

lemma header_set_parent:
  assumes "header_of d ty mx p n"
  shows "header_of (store32 d kParentOffset p') ty mx p' n"
  using assms by (auto simp: header_of_def page_consts page_size_def load_store_other)

lemma header_set_next:
  assumes "header_of d ty mx p n"
  shows "header_of (store32 d kNextOffset p') ty mx p n"
  using assms by (auto simp: header_of_def page_consts page_size_def load_store_other)

lemma leaf_entries_size:
  assumes "length d = page_size" "n \<le> 254" "\<And>j. j < n \<Longrightarrow> (leaf_KeyAt d j, leaf_ValueAt d j) = es ! j" "length es = n"
  shows "leaf_Entries (store32 d kSizeOffset (word_of_nat n)) = es"
proof (rule nth_equalityI)
  have sz: "unat (leaf_GetSize (store32 d kSizeOffset (word_of_nat n))) = n"
    using assms(1,2) by (simp add: leaf_GetSize_def page_consts page_size_def size_word)
  then show "length (leaf_Entries (store32 d kSizeOffset (word_of_nat n))) = length es" using assms(4) by simp
  fix j assume "j < length (leaf_Entries (store32 d kSizeOffset (word_of_nat n)))"
  then have j: "j < n" using sz by simp
  have "leaf_KeyAt (store32 d kSizeOffset (word_of_nat n)) j = leaf_KeyAt d j \<and> leaf_ValueAt (store32 d kSizeOffset (word_of_nat n)) j = leaf_ValueAt d j"
    using j assms(1,2) by (auto simp: leaf_KeyAt_def leaf_ValueAt_def page_consts page_size_def load_store_other Let_def)
  then show "leaf_Entries (store32 d kSizeOffset (word_of_nat n)) ! j = es ! j" using assms(3)[OF j] j sz by (simp add: leaf_Entries_nth)
qed

lemma internal_entries_size:
  assumes "length d = page_size" "n \<le> 254" "\<And>j. j < n \<Longrightarrow> (internal_KeyAt d j, internal_ChildAt d j) = es ! j" "length es = n"
  shows "internal_Entries (store32 d kSizeOffset (word_of_nat n)) = es"
proof (rule nth_equalityI)
  have sz: "unat (internal_GetSize (store32 d kSizeOffset (word_of_nat n))) = n"
    using assms(1,2) by (simp add: internal_GetSize_def page_consts page_size_def size_word)
  then show "length (internal_Entries (store32 d kSizeOffset (word_of_nat n))) = length es" using assms(4) by simp
  fix j assume "j < length (internal_Entries (store32 d kSizeOffset (word_of_nat n)))"
  then have j: "j < n" using sz by simp
  have "internal_KeyAt (store32 d kSizeOffset (word_of_nat n)) j = internal_KeyAt d j \<and> internal_ChildAt (store32 d kSizeOffset (word_of_nat n)) j = internal_ChildAt d j"
    using j assms(1,2) by (auto simp: internal_KeyAt_def internal_ChildAt_def page_consts page_size_def load_store_other Let_def)
  then show "internal_Entries (store32 d kSizeOffset (word_of_nat n)) ! j = es ! j" using assms(3)[OF j] j sz by (simp add: internal_Entries_nth)
qed

lemma leaf_Assign_ok:
  assumes d: "is_leaf d mx p nx es" and es: "sorted_wrt entry_le es'" "length es' \<le> unat mx"
  shows "\<exists>d'. leaf_Assign es' d = Inr d' \<and> is_leaf d' mx p nx es'"
proof -
  note G = leaf_get[OF d]
  have n: "length es' \<le> 254" using es(2) G(10) by simp
  note F = store_entries_facts[where rd = "\<lambda>d i. (leaf_KeyAt d i, leaf_ValueAt d i)" and st = leaf_store_entry and es = es' and d = d, OF leaf_store_step[OF _ n] G(6)]
  let ?s = "store_entries leaf_store_entry es' d"
  let ?d = "store32 ?s kSizeOffset (word_of_nat (length es'))"
  have H: "header_of ?s kLeafPageType mx p (length es)" by (rule header_store_other[OF _ F(1) F(3)]) (use d in \<open>simp add: is_leaf_def\<close>)
  have "load32 ?d kNextOffset = nx"
    using d F(1) load32_cong[OF F(3)[of 16 4]] by (simp add: is_leaf_def page_consts page_size_def load_store_other)
  moreover have "leaf_Entries ?d = es'" by (rule leaf_entries_size[OF F(1) n F(2) refl])
  moreover have "header_of ?d kLeafPageType mx p (length es')" using header_set_size[OF H es(2)] .
  moreover have "leaf_Assign es' d = Inr ?d" using es(2) G(1) by (simp add: leaf_Assign_def)
  ultimately show ?thesis using es(1) G(9) by (auto simp: is_leaf_def)
qed

lemma internal_Assign_ok:
  assumes d: "is_internal d mx p es" and es: "sorted_wrt (\<lambda>x y. sint (fst x) \<le> sint (fst y)) (tl es')" "length es' \<le> unat mx"
  shows "\<exists>d'. internal_Assign es' d = Inr d' \<and> is_internal d' mx p es'"
proof -
  note G = internal_get[OF d]
  have n: "length es' \<le> 254" using es(2) G(9) by simp
  note F = store_entries_facts[where rd = "\<lambda>d i. (internal_KeyAt d i, internal_ChildAt d i)" and st = internal_store_entry and es = es' and d = d, OF internal_store_step[OF _ n] G(5)]
  let ?s = "store_entries internal_store_entry es' d"
  let ?d = "store32 ?s kSizeOffset (word_of_nat (length es'))"
  have H: "header_of ?s kInternalPageType mx p (length es)" by (rule header_store_other[OF _ F(1) F(3)]) (use d in \<open>simp add: is_internal_def\<close>)
  have "internal_Entries ?d = es'" by (rule internal_entries_size[OF F(1) n F(2) refl])
  moreover have "header_of ?d kInternalPageType mx p (length es')" using header_set_size[OF H es(2)] .
  moreover have "internal_Assign es' d = Inr ?d" using es(2) G(1) by (simp add: internal_Assign_def)
  ultimately show ?thesis using es(1) G(8) by (auto simp: is_internal_def)
qed

lemma leaf_entries_cong:
  assumes "length d' = page_size" "unat (load32 d kSizeOffset) \<le> 254" "\<And>q k. 32 \<le> q \<Longrightarrow> q + k \<le> page_size \<Longrightarrow> get_bytes q k d' = get_bytes q k d"
    "load32 d' kSizeOffset = load32 d kSizeOffset"
  shows "leaf_Entries d' = leaf_Entries d" "internal_Entries d' = internal_Entries d"
proof -
  have c: "load32 d' q = load32 d q" if "32 \<le> q" "q + 4 \<le> page_size" for q using assms(3)[OF that] by (rule load32_cong)
  have c8: "load64 d' q = load64 d q" if "32 \<le> q" "q + 8 \<le> page_size" for q using assms(3)[OF that] by (rule load64_cong)
  have k: "leaf_KeyAt d' j = leaf_KeyAt d j \<and> leaf_ValueAt d' j = leaf_ValueAt d j \<and> internal_KeyAt d' j = internal_KeyAt d j \<and>
      internal_ChildAt d' j = internal_ChildAt d j" if "j < unat (load32 d kSizeOffset)" for j
    using that assms(2) by (auto simp: leaf_KeyAt_def leaf_ValueAt_def internal_KeyAt_def internal_ChildAt_def page_consts Let_def page_size_def intro!: c c8)
  show "leaf_Entries d' = leaf_Entries d" "internal_Entries d' = internal_Entries d"
    using k assms(4) by (simp_all add: leaf_Entries_def internal_Entries_def leaf_GetSize_def internal_GetSize_def)
qed

lemma leaf_set_ok:
  assumes "is_leaf d mx p nx es"
  shows "is_leaf (leaf_SetParentPageId p' d) mx p' nx es" "is_leaf (leaf_SetNextPageId nx' d) mx p nx' es"
proof -
  note G = leaf_get[OF assms] and H = assms[unfolded is_leaf_def]
  have e: "leaf_Entries (store32 d off v) = leaf_Entries d" if "off = kParentOffset \<or> off = kNextOffset" for off v
    by (rule leaf_entries_cong) (use that G(5,6,8,10) in \<open>auto simp: page_consts page_size_def get_store_other load_store_other leaf_GetSize_def\<close>)
  show "is_leaf (leaf_SetParentPageId p' d) mx p' nx es"
    using H header_set_parent[of d kLeafPageType mx p "length es" p'] e[of kParentOffset] G(6)
    by (simp add: is_leaf_def leaf_SetParentPageId_def page_consts page_size_def load_store_other)
  show "is_leaf (leaf_SetNextPageId nx' d) mx p nx' es"
    using H header_set_next[of d kLeafPageType mx p "length es" nx'] e[of kNextOffset] G(6)
    by (simp add: is_leaf_def leaf_SetNextPageId_def page_consts page_size_def)
qed

lemma internal_set_ok:
  assumes "is_internal d mx p es"
  shows "is_internal (internal_SetParentPageId p' d) mx p' es"
proof -
  note G = internal_get[OF assms] and H = assms[unfolded is_internal_def]
  have "internal_Entries (store32 d kParentOffset p') = internal_Entries d"
    by (rule leaf_entries_cong) (use G(4,5,7,9) in \<open>auto simp: page_consts page_size_def get_store_other load_store_other internal_GetSize_def\<close>)
  then show ?thesis
    using H header_set_parent[of d kInternalPageType mx p "length es" p'] by (simp add: is_internal_def internal_SetParentPageId_def)
qed

lemma leaf_Initialize_ok:
  assumes "2 \<le> unat mx" "unat mx \<le> 254"
  shows "\<exists>d. leaf_Initialize mx p nx = Inr d \<and> is_leaf d mx p nx []"
proof -
  have "\<not> (mx < 2 \<or> mx > kPhysicalMaxSize)" using assms by (simp add: two_le_unat)
  then show ?thesis using assms
    by (auto simp: leaf_Initialize_def Let_def is_leaf_def header_of_def page_consts page_size_def load_store_other leaf_Entries_def leaf_GetSize_def)
qed

lemma internal_Initialize_ok:
  assumes "3 \<le> unat mx" "unat mx \<le> 254"
  shows "\<exists>d. internal_Initialize mx p = Inr d \<and> is_internal d mx p []"
proof -
  have "\<not> (mx < 3 \<or> mx > kPhysicalMaxSize)" using assms by (simp add: two_le_unat)
  then show ?thesis using assms
    by (auto simp: internal_Initialize_def Let_def is_internal_def header_of_def page_consts page_size_def load_store_other internal_Entries_def internal_GetSize_def)
qed

text \<open>The child a key leads to: the last one whose separator is less than the key.\<close>

definition child_index :: "(index_key_t \<times> page_id_t) list \<Rightarrow> index_key_t \<Rightarrow> nat" where
  "child_index es key = length (takeWhile (\<lambda>e. sint (fst e) < sint key) (tl es))"

lemma lookup_loop_eq:
  assumes "c < unat (internal_GetSize d)"
  shows "lookup_loop d key c = c + length (takeWhile (\<lambda>e. sint (fst e) < sint key) (drop (Suc c) (internal_Entries d)))"
  using assms
proof (induction "unat (internal_GetSize d) - c" arbitrary: c)
  case (Suc n)
  show ?case
  proof (cases "c + 1 < unat (internal_GetSize d)")
    case True
    have "drop (Suc c) (internal_Entries d) = (internal_KeyAt d (Suc c), internal_ChildAt d (Suc c)) # drop (Suc (Suc c)) (internal_Entries d)"
      using True Cons_nth_drop_Suc[of "Suc c" "internal_Entries d"] internal_Entries_nth[of "Suc c" d] by simp
    moreover have "lookup_loop d key (Suc c) = Suc c + length (takeWhile (\<lambda>e. sint (fst e) < sint key) (drop (Suc (Suc c)) (internal_Entries d)))"
      using Suc.hyps(1)[of "Suc c"] Suc.hyps(2) True by simp
    ultimately show ?thesis using True by (subst lookup_loop.simps) simp
  next
    case False
    then show ?thesis by (subst lookup_loop.simps) simp
  qed
qed simp

lemma internal_Lookup_eq:
  assumes "is_internal d mx p es" "es \<noteq> []"
  shows "internal_Lookup d key = snd (es ! child_index es key)" "child_index es key < length es"
proof -
  note G = internal_get[OF assms(1)]
  have "length (takeWhile (\<lambda>e. sint (fst e) < sint key) (tl es)) \<le> length (tl es)" by (rule length_takeWhile_le)
  then show i: "child_index es key < length es" using assms(2) by (cases es) (auto simp: child_index_def)
  have z: "0 < unat (internal_GetSize d)" using G(4) assms(2) by simp
  then have "lookup_loop d key 0 = child_index es key" using lookup_loop_eq[OF z] G(3) by (simp add: child_index_def drop_Suc)
  moreover have "internal_ChildAt d (child_index es key) = snd (es ! child_index es key)"
    using internal_Entries_nth[of "child_index es key" d] G(3,4) i by simp
  moreover have "internal_GetSize d \<noteq> 0" using z by auto
  ultimately show "internal_Lookup d key = snd (es ! child_index es key)" by (simp add: internal_Lookup_def)
qed

end
