(* ===== verification/BTree.thy ===== *)
theory BTree
  imports BTreePage
begin

text \<open>
  The B+ tree (\<^verbatim>\<open>index/b_plus_tree.cpp\<close>) over the calls of the buffer pool, which are an argument: a call may fail at any
  time. \<open>call_fetch\<close> stands for \<^verbatim>\<open>FetchPage\<close> with the copying out of the page, \<open>call_fetch_write\<close> for
  \<^verbatim>\<open>FetchPageWrite\<close>, \<open>call_finalize\<close> for the change of the guard's bytes with \<^verbatim>\<open>MarkDirty\<close> and \<^verbatim>\<open>Release\<close>,
  \<open>call_new\<close> for \<^verbatim>\<open>NewPage\<close>. A status is a result with no value. A result \<open>None\<close> means that the function does
  not return; the theorems show where it does. Latches are not modelled here: one operation runs at a time.
\<close>

subsection \<open>The calls and their sequence\<close>

record 's pool_calls =
  call_fetch :: "txn_id_t option \<Rightarrow> page_id_t \<Rightarrow> 's \<Rightarrow> 's \<times> byte list Result"
  call_fetch_write :: "txn_id_t option \<Rightarrow> page_id_t \<Rightarrow> 's \<Rightarrow> 's \<times> byte list Result"
  call_finalize :: "txn_id_t option \<Rightarrow> page_id_t \<Rightarrow> byte list \<Rightarrow> 's \<Rightarrow> 's \<times> unit Result"
  call_new :: "txn_id_t option \<Rightarrow> 's \<Rightarrow> 's \<times> page_id_t Result"
  call_delete :: "txn_id_t option \<Rightarrow> page_id_t \<Rightarrow> 's \<Rightarrow> 's \<times> unit Result"

record BPlusTree =
  root_page_id :: page_id_t
  header_page_id :: page_id_t
  leaf_max_size :: u32
  internal_max_size :: u32
  tree_transaction :: "txn_id_t option"

type_synonym 's env = "BPlusTree \<times> 's"
type_synonym ('s, 'a) outcome = "('s \<times> 'a Result) option"
type_synonym entry = "index_key_t \<times> RID"
type_synonym child = "index_key_t \<times> page_id_t"

text \<open>One step after another, with a return at the first error.\<close>

definition andthen :: "('s, 'a) outcome \<Rightarrow> ('s \<Rightarrow> 'a \<Rightarrow> ('s, 'b) outcome) \<Rightarrow> ('s, 'b) outcome" where
  "andthen m k = (case m of None \<Rightarrow> None | Some (s, Inl err) \<Rightarrow> Some (s, Inl err) | Some (s, Inr a) \<Rightarrow> k s a)"

lemma andthen_mono [partial_function_mono]:
  assumes "mono_option m" "\<And>s a. mono_option (\<lambda>f. k f s a)"
  shows "mono_option (\<lambda>f. andthen (m f) (\<lambda>s a. k f s a))"
proof (rule monotoneI)
  fix f g :: "'a \<Rightarrow> 'b option" assume fg: "fun_ord option_ord f g"
  have m: "option_ord (m f) (m g)" and k: "option_ord (k f s a) (k g s a)" for s a
    using assms fg by (auto dest: monotoneD)
  show "option_ord (andthen (m f) (k f)) (andthen (m g) (k g))"
  proof (cases "m f")
    case None
    then show ?thesis by (simp add: andthen_def flat_ord_def)
  next
    case (Some p)
    then have "m g = Some p" using m by (auto simp: flat_ord_def)
    then show ?thesis using Some k by (cases p; cases "snd p") (auto simp: andthen_def flat_ord_def)
  qed
qed

definition fetch :: "'s pool_calls \<Rightarrow> txn_id_t option \<Rightarrow> page_id_t \<Rightarrow> 's env \<Rightarrow> ('s env, byte list) outcome" where
  "fetch ops tp p e = (case call_fetch ops tp p (snd e) of (s, r) \<Rightarrow> Some ((fst e, s), r))"

definition fetch_write :: "'s pool_calls \<Rightarrow> page_id_t \<Rightarrow> 's env \<Rightarrow> ('s env, byte list) outcome" where
  "fetch_write ops p e = (case call_fetch_write ops (tree_transaction (fst e)) p (snd e) of (s, r) \<Rightarrow> Some ((fst e, s), r))"

definition FinalizeWrite :: "'s pool_calls \<Rightarrow> page_id_t \<Rightarrow> byte list \<Rightarrow> 's env \<Rightarrow> ('s env, unit) outcome" where
  "FinalizeWrite ops p data e = (case call_finalize ops (tree_transaction (fst e)) p data (snd e) of (s, r) \<Rightarrow> Some ((fst e, s), r))"

definition new_page :: "'s pool_calls \<Rightarrow> 's env \<Rightarrow> ('s env, page_id_t) outcome" where
  "new_page ops e = (case call_new ops (tree_transaction (fst e)) (snd e) of (s, r) \<Rightarrow> Some ((fst e, s), r))"

definition delete_page :: "'s pool_calls \<Rightarrow> page_id_t \<Rightarrow> 's env \<Rightarrow> ('s env, unit) outcome" where
  "delete_page ops p e = (case call_delete ops (tree_transaction (fst e)) p (snd e) of (s, r) \<Rightarrow> Some ((fst e, s), r))"

text \<open>Both guards are finalized, also when the first fails.\<close>

definition FinalizeWrites ::
  "'s pool_calls \<Rightarrow> page_id_t \<Rightarrow> byte list \<Rightarrow> page_id_t \<Rightarrow> byte list \<Rightarrow> 's env \<Rightarrow> ('s env, unit) outcome" where
  "FinalizeWrites ops p data q data' e =
     (case FinalizeWrite ops p data e of
        None \<Rightarrow> None
      | Some (e, first) \<Rightarrow>
          (case FinalizeWrite ops q data' e of
             None \<Rightarrow> None
           | Some (e, second) \<Rightarrow> Some (e, case first of Inl err \<Rightarrow> Inl err | Inr _ \<Rightarrow> second)))"

definition return :: "'a \<Rightarrow> 's env \<Rightarrow> ('s env, 'a) outcome" where
  "return a e = Some (e, Inr a)"

definition fail :: "ErrorCode \<Rightarrow> 's env \<Rightarrow> ('s env, 'a) outcome" where
  "fail err e = Some (e, Inl err)"

definition lift_result :: "'a Result \<Rightarrow> 's env \<Rightarrow> ('s env, 'a) outcome" where
  "lift_result r e = Some (e, r)"

text \<open>\<^verbatim>\<open>std::find_if\<close> and \<^verbatim>\<open>std::sort\<close> by the order on entries, under which equal elements are the same.\<close>

fun position :: "('a \<Rightarrow> bool) \<Rightarrow> 'a list \<Rightarrow> nat option" where
  "position Q [] = None"
| "position Q (x # xs) = (if Q x then Some 0 else map_option Suc (position Q xs))"

fun insort_entry :: "entry \<Rightarrow> entry list \<Rightarrow> entry list" where
  "insort_entry x [] = [x]"
| "insort_entry x (y # ys) = (if EntryLess y x then y # insort_entry x ys else x # y # ys)"

definition sort_entries :: "entry list \<Rightarrow> entry list" where
  "sort_entries xs = foldr insort_entry xs []"

subsection \<open>The header page\<close>

definition kHeaderPageType :: u32 where "kHeaderPageType = 0x42504844"
definition kHeaderFormatVersion :: u32 where "kHeaderFormatVersion = 1"
definition kHeaderTypeOffset :: nat where "kHeaderTypeOffset = 0"
definition kHeaderVersionOffset :: nat where "kHeaderVersionOffset = 4"
definition kHeaderRootOffset :: nat where "kHeaderRootOffset = 8"
definition kHeaderLeafMaxOffset :: nat where "kHeaderLeafMaxOffset = 12"
definition kHeaderInternalMaxOffset :: nat where "kHeaderInternalMaxOffset = 16"

definition make_BPlusTree :: "page_id_t \<Rightarrow> u32 \<Rightarrow> u32 \<Rightarrow> txn_id_t option \<Rightarrow> BPlusTree" where
  "make_BPlusTree root leaf_max internal_max tp =
     \<lparr>root_page_id = root, header_page_id = INVALID_PAGE_ID, leaf_max_size = leaf_max, internal_max_size = internal_max,
      tree_transaction = tp\<rparr>"

definition capacities_ok :: "u32 \<Rightarrow> u32 \<Rightarrow> bool" where
  "capacities_ok leaf_max internal_max \<longleftrightarrow>
     \<not> (leaf_max < 2 \<or> leaf_max > kPhysicalMaxSize \<or> internal_max < 3 \<or> internal_max > kPhysicalMaxSize)"

definition header_page :: "page_id_t \<Rightarrow> u32 \<Rightarrow> u32 \<Rightarrow> byte list" where
  "header_page root leaf_max internal_max =
     (let data = replicate page_size 0;
          data = store32 data kHeaderTypeOffset kHeaderPageType;
          data = store32 data kHeaderVersionOffset kHeaderFormatVersion;
          data = store32 data kHeaderRootOffset root;
          data = store32 data kHeaderLeafMaxOffset leaf_max
      in store32 data kHeaderInternalMaxOffset internal_max)"

definition CreatePersistent ::
  "'s pool_calls \<Rightarrow> u32 \<Rightarrow> u32 \<Rightarrow> txn_id_t option \<Rightarrow> 's \<Rightarrow> ('s env, unit) outcome" where
  "CreatePersistent ops leaf_max internal_max tp s =
     (let tree = make_BPlusTree INVALID_PAGE_ID leaf_max internal_max tp in
      if \<not> capacities_ok leaf_max internal_max then fail InvalidArgument (tree, s)
      else
        andthen (new_page ops (tree, s)) (\<lambda>e p.
        andthen (FinalizeWrite ops p (header_page INVALID_PAGE_ID leaf_max internal_max) e) (\<lambda>e _.
        return () (fst e\<lparr>header_page_id := p\<rparr>, snd e))))"

definition OpenPersistent :: "'s pool_calls \<Rightarrow> page_id_t \<Rightarrow> txn_id_t option \<Rightarrow> 's \<Rightarrow> ('s env, unit) outcome" where
  "OpenPersistent ops header tp s =
     (let tree = make_BPlusTree INVALID_PAGE_ID 0 0 tp in
      if header = INVALID_PAGE_ID then fail InvalidArgument (tree, s)
      else
        andthen (fetch ops None header (tree, s)) (\<lambda>e data.
          if load32 data kHeaderTypeOffset \<noteq> kHeaderPageType \<or> load32 data kHeaderVersionOffset \<noteq> kHeaderFormatVersion
          then fail InternalError e
          else
            (let root = load32 data kHeaderRootOffset; leaf_max = load32 data kHeaderLeafMaxOffset;
                 internal_max = load32 data kHeaderInternalMaxOffset in
             if \<not> capacities_ok leaf_max internal_max then fail InternalError e
             else return () ((make_BPlusTree root leaf_max internal_max tp)\<lparr>header_page_id := header\<rparr>, snd e))))"

definition IsEmpty :: "'s env \<Rightarrow> bool" where
  "IsEmpty e \<longleftrightarrow> root_page_id (fst e) = INVALID_PAGE_ID"

definition set_root :: "page_id_t \<Rightarrow> 's env \<Rightarrow> 's env" where
  "set_root p e = (fst e\<lparr>root_page_id := p\<rparr>, snd e)"

definition PersistRootPageId :: "'s pool_calls \<Rightarrow> 's env \<Rightarrow> ('s env, unit) outcome" where
  "PersistRootPageId ops e =
     (if header_page_id (fst e) = INVALID_PAGE_ID then return () e
      else
        andthen (fetch_write ops (header_page_id (fst e)) e) (\<lambda>e data.
          if load32 data kHeaderTypeOffset \<noteq> kHeaderPageType \<or> load32 data kHeaderVersionOffset \<noteq> kHeaderFormatVersion
          then fail InternalError e
          else FinalizeWrite ops (header_page_id (fst e)) (store32 data kHeaderRootOffset (root_page_id (fst e))) e))"

subsection \<open>Searching\<close>

text \<open>The loop of \<^verbatim>\<open>FindLeaf\<close> with the guarded page's bytes; the path has the internal pages from the root down. The two
  ways of handing over the latch (\<^verbatim>\<open>latch_coupling\<close>) are the same here.\<close>

partial_function (option) find_loop ::
  "'s pool_calls \<Rightarrow> index_key_t \<Rightarrow> txn_id_t option \<Rightarrow> page_id_t \<Rightarrow> byte list \<Rightarrow> page_id_t list \<Rightarrow> 's env \<Rightarrow>
   ('s env, page_id_t \<times> page_id_t list) outcome" where
  "find_loop ops key tp current data path e =
     (if leaf_Validate data = Code_Ok then return (current, path) e
      else if internal_Validate data \<noteq> Code_Ok then fail (internal_Validate data) e
      else if internal_Lookup data key = INVALID_PAGE_ID then fail InternalError e
      else
        andthen (fetch ops tp (internal_Lookup data key) e) (\<lambda>e child.
          find_loop ops key tp (internal_Lookup data key) child (path @ [current]) e))"

definition FindLeaf ::
  "'s pool_calls \<Rightarrow> index_key_t \<Rightarrow> txn_id_t option \<Rightarrow> 's env \<Rightarrow> ('s env, page_id_t \<times> page_id_t list) outcome" where
  "FindLeaf ops key tp e =
     (if IsEmpty e then fail NotFound e
      else andthen (fetch ops tp (root_page_id (fst e)) e) (\<lambda>e data. find_loop ops key tp (root_page_id (fst e)) data [] e))"

fun scan_entries :: "index_key_t \<Rightarrow> index_key_t \<Rightarrow> entry list \<Rightarrow> entry list \<Rightarrow> entry list \<times> bool" where
  "scan_entries lower upper [] acc = (acc, False)"
| "scan_entries lower upper (x # xs) acc =
     (if sint (fst x) < sint lower then scan_entries lower upper xs acc
      else if sint (fst x) > sint upper then (acc, True)
      else scan_entries lower upper xs (acc @ [x]))"

partial_function (option) scan_leaves ::
  "'s pool_calls \<Rightarrow> index_key_t \<Rightarrow> index_key_t \<Rightarrow> txn_id_t option \<Rightarrow> byte list \<Rightarrow> entry list \<Rightarrow> 's env \<Rightarrow>
   ('s env, entry list) outcome" where
  "scan_leaves ops lower upper tp data acc e =
     (if leaf_Validate data \<noteq> Code_Ok then fail (leaf_Validate data) e
      else if snd (scan_entries lower upper (leaf_Entries data) acc)
      then return (sort_entries (fst (scan_entries lower upper (leaf_Entries data) acc))) e
      else if leaf_GetNextPageId data = INVALID_PAGE_ID
      then return (sort_entries (fst (scan_entries lower upper (leaf_Entries data) acc))) e
      else
        andthen (fetch ops tp (leaf_GetNextPageId data) e) (\<lambda>e next_data.
          scan_leaves ops lower upper tp next_data (fst (scan_entries lower upper (leaf_Entries data) acc)) e))"

definition RangeScan ::
  "'s pool_calls \<Rightarrow> index_key_t \<Rightarrow> index_key_t \<Rightarrow> txn_id_t option \<Rightarrow> 's env \<Rightarrow> ('s env, entry list) outcome" where
  "RangeScan ops lower upper tp e =
     (if sint lower > sint upper then fail InvalidArgument e
      else if IsEmpty e then return [] e
      else
        andthen (FindLeaf ops lower tp e) (\<lambda>e (leaf, _).
        andthen (fetch ops tp leaf e) (\<lambda>e data. scan_leaves ops lower upper tp data [] e)))"

definition GetValue :: "'s pool_calls \<Rightarrow> index_key_t \<Rightarrow> txn_id_t option \<Rightarrow> 's env \<Rightarrow> ('s env, RID list) outcome" where
  "GetValue ops key tp e = andthen (RangeScan ops key key tp e) (\<lambda>e range. return (map snd range) e)"

subsection \<open>Inserting\<close>

text \<open>A split hands the separator and the new right page to the level above; \<open>INVALID_PAGE_ID\<close>: there was none.\<close>

record SplitResult =
  separator :: index_key_t
  right_page_id :: page_id_t

definition InsertIntoLeaf :: "'s pool_calls \<Rightarrow> page_id_t \<Rightarrow> index_key_t \<Rightarrow> RID \<Rightarrow> 's env \<Rightarrow> ('s env, SplitResult) outcome" where
  "InsertIntoLeaf ops leaf key rid e =
     andthen (fetch_write ops leaf e) (\<lambda>e old.
       if leaf_Validate old \<noteq> Code_Ok then fail (leaf_Validate old) e
       else
         (let entries = leaf_Entries old; pos = lower_bound EntryLess entries (key, rid) in
          if pos < length entries \<and> entries ! pos = (key, rid) then fail AlreadyExists e
          else if length entries < unat (leaf_GetMaxSize old) then
            andthen (lift_result (leaf_Insert key rid old) e) (\<lambda>e new.
            andthen (FinalizeWrite ops leaf new e) (\<lambda>e _.
            return \<lparr>separator = 0, right_page_id = INVALID_PAGE_ID\<rparr> e))
          else
            (let entries = insert_at pos (key, rid) entries; split_at = length entries div 2;
                 left = take split_at entries; right = drop split_at entries in
             andthen (new_page ops e) (\<lambda>e new_id.
             andthen (lift_result (leaf_Initialize (leaf_GetMaxSize old) (leaf_GetParentPageId old) (leaf_GetNextPageId old)) e) (\<lambda>e new.
             andthen (lift_result (leaf_Assign left old) e) (\<lambda>e old.
             andthen (lift_result (leaf_Assign right new) e) (\<lambda>e new.
             andthen (FinalizeWrites ops leaf (leaf_SetNextPageId new_id old) new_id new e) (\<lambda>e _.
             return \<lparr>separator = fst (hd right), right_page_id = new_id\<rparr> e))))))))"

definition SetParent :: "'s pool_calls \<Rightarrow> page_id_t \<Rightarrow> page_id_t \<Rightarrow> 's env \<Rightarrow> ('s env, unit) outcome" where
  "SetParent ops child parent e =
     andthen (fetch_write ops child e) (\<lambda>e data.
       if leaf_Validate data = Code_Ok then FinalizeWrite ops child (leaf_SetParentPageId parent data) e
       else if internal_Validate data \<noteq> Code_Ok then fail (internal_Validate data) e
       else FinalizeWrite ops child (internal_SetParentPageId parent data) e)"

fun set_parents :: "'s pool_calls \<Rightarrow> page_id_t list \<Rightarrow> page_id_t \<Rightarrow> 's env \<Rightarrow> ('s env, unit) outcome" where
  "set_parents ops [] parent e = return () e"
| "set_parents ops (c # cs) parent e = andthen (SetParent ops c parent e) (\<lambda>e _. set_parents ops cs parent e)"

text \<open>The part of \<^verbatim>\<open>InsertIntoInternal\<close> under the guards: the new page (or none), the promoted key, the moved children.\<close>

definition insert_child ::
  "'s pool_calls \<Rightarrow> page_id_t \<Rightarrow> page_id_t \<Rightarrow> index_key_t \<Rightarrow> page_id_t \<Rightarrow> 's env \<Rightarrow>
   ('s env, page_id_t \<times> index_key_t \<times> page_id_t list) outcome" where
  "insert_child ops page left_child sep right_child e =
     andthen (fetch_write ops page e) (\<lambda>e old.
       if internal_Validate old \<noteq> Code_Ok then fail (internal_Validate old) e
       else
         (case position (\<lambda>x. snd x = left_child) (internal_Entries old) of
            None \<Rightarrow> fail InternalError e
          | Some left \<Rightarrow>
              (let entries = insert_at (Suc left) (sep, right_child) (internal_Entries old) in
               if length entries \<le> unat (internal_GetMaxSize old) then
                 andthen (lift_result (internal_Assign entries old) e) (\<lambda>e new.
                 andthen (FinalizeWrite ops page new e) (\<lambda>e _.
                 return (INVALID_PAGE_ID, 0, []) e))
               else
                 (let split_at = length entries div 2; promoted = fst (entries ! split_at);
                      left_entries = take split_at entries;
                      right_entries = (0, snd (entries ! split_at)) # drop (Suc split_at) entries in
                  andthen (new_page ops e) (\<lambda>e new_id.
                  andthen (lift_result (internal_Initialize (internal_GetMaxSize old) (internal_GetParentPageId old)) e) (\<lambda>e new.
                  andthen (lift_result (internal_Assign left_entries old) e) (\<lambda>e old.
                  andthen (lift_result (internal_Assign right_entries new) e) (\<lambda>e new.
                  andthen (FinalizeWrites ops page old new_id new e) (\<lambda>e _.
                  return (new_id, promoted, map snd right_entries) e)))))))))"

definition InsertIntoInternal ::
  "'s pool_calls \<Rightarrow> page_id_t \<Rightarrow> page_id_t \<Rightarrow> index_key_t \<Rightarrow> page_id_t \<Rightarrow> 's env \<Rightarrow> ('s env, SplitResult option) outcome" where
  "InsertIntoInternal ops page left_child sep right_child e =
     andthen (insert_child ops page left_child sep right_child e) (\<lambda>e (new_id, promoted, moved).
       if new_id = INVALID_PAGE_ID then andthen (SetParent ops right_child page e) (\<lambda>e _. return None e)
       else andthen (set_parents ops moved new_id e) (\<lambda>e _.
         return (Some \<lparr>separator = promoted, right_page_id = new_id\<rparr>) e))"

definition CreateNewRoot ::
  "'s pool_calls \<Rightarrow> page_id_t \<Rightarrow> index_key_t \<Rightarrow> page_id_t \<Rightarrow> 's env \<Rightarrow> ('s env, unit) outcome" where
  "CreateNewRoot ops left_child sep right_child e =
     andthen (new_page ops e) (\<lambda>e new_root.
     andthen (lift_result (internal_Initialize (internal_max_size (fst e)) INVALID_PAGE_ID) e) (\<lambda>e root.
     andthen (lift_result (internal_Assign [(0, left_child), (sep, right_child)] root) e) (\<lambda>e root.
     andthen (FinalizeWrite ops new_root root e) (\<lambda>e _.
     andthen (SetParent ops left_child new_root e) (\<lambda>e _.
     andthen (SetParent ops right_child new_root e) (\<lambda>e _.
     PersistRootPageId ops (set_root new_root e)))))))"

text \<open>The loop of \<^verbatim>\<open>Insert\<close> along the path, from the leaf's parent up.\<close>

fun insert_up :: "'s pool_calls \<Rightarrow> page_id_t list \<Rightarrow> page_id_t \<Rightarrow> SplitResult \<Rightarrow> 's env \<Rightarrow> ('s env, unit) outcome" where
  "insert_up ops [] left split e = CreateNewRoot ops left (separator split) (right_page_id split) e"
| "insert_up ops (parent # path) left split e =
     andthen (InsertIntoInternal ops parent left (separator split) (right_page_id split) e) (\<lambda>e r.
       case r of None \<Rightarrow> return () e | Some split \<Rightarrow> insert_up ops path parent split e)"

definition insert_first :: "'s pool_calls \<Rightarrow> index_key_t \<Rightarrow> RID \<Rightarrow> 's env \<Rightarrow> ('s env, unit) outcome" where
  "insert_first ops key rid e =
     andthen (new_page ops e) (\<lambda>e p.
     andthen (lift_result (leaf_Initialize (leaf_max_size (fst e)) INVALID_PAGE_ID INVALID_PAGE_ID) e) (\<lambda>e leaf.
     andthen (lift_result (leaf_Insert key rid leaf) e) (\<lambda>e leaf.
     andthen (FinalizeWrite ops p leaf (set_root p e)) (\<lambda>e _.
     PersistRootPageId ops e))))"

definition Insert :: "'s pool_calls \<Rightarrow> index_key_t \<Rightarrow> RID \<Rightarrow> 's env \<Rightarrow> ('s env, unit) outcome" where
  "Insert ops key rid e =
     (if \<not> capacities_ok (leaf_max_size (fst e)) (internal_max_size (fst e)) then fail InvalidArgument e
      else if IsEmpty e then insert_first ops key rid e
      else
        andthen (FindLeaf ops key None e) (\<lambda>e (leaf, path).
        andthen (InsertIntoLeaf ops leaf key rid e) (\<lambda>e split.
          if right_page_id split = INVALID_PAGE_ID then return () e else insert_up ops (rev path) leaf split e)))"

text \<open>The overloads with a transaction work on a copy of the tree and take over its root when all went well.\<close>

definition scoped :: "txn_id_t option \<Rightarrow> ('s env \<Rightarrow> ('s env, unit) outcome) \<Rightarrow> 's env \<Rightarrow> ('s env, unit) outcome" where
  "scoped tp operation e =
     (if tp = tree_transaction (fst e) then operation e
      else
        (case operation (fst e\<lparr>tree_transaction := tp\<rparr>, snd e) of
           None \<Rightarrow> None
         | Some ((tree, s), r) \<Rightarrow>
             Some ((case r of Inl _ \<Rightarrow> fst e | Inr _ \<Rightarrow> fst e\<lparr>root_page_id := root_page_id tree\<rparr>, s), r)))"

definition Insert_txn :: "'s pool_calls \<Rightarrow> index_key_t \<Rightarrow> RID \<Rightarrow> txn_id_t option \<Rightarrow> 's env \<Rightarrow> ('s env, unit) outcome" where
  "Insert_txn ops key rid tp = scoped tp (Insert ops key rid)"

subsection \<open>Removing\<close>

definition put_leaf :: "'s pool_calls \<Rightarrow> page_id_t \<Rightarrow> entry list \<Rightarrow> page_id_t option \<Rightarrow> 's env \<Rightarrow> ('s env, unit) outcome" where
  "put_leaf ops p entries next_page e =
     andthen (fetch_write ops p e) (\<lambda>e data.
     andthen (lift_result (leaf_Assign entries data) e) (\<lambda>e data.
     FinalizeWrite ops p (case next_page of None \<Rightarrow> data | Some q \<Rightarrow> leaf_SetNextPageId q data) e))"

definition put_internal :: "'s pool_calls \<Rightarrow> page_id_t \<Rightarrow> child list \<Rightarrow> 's env \<Rightarrow> ('s env, unit) outcome" where
  "put_internal ops p entries e =
     andthen (fetch_write ops p e) (\<lambda>e data.
     andthen (lift_result (internal_Assign entries data) e) (\<lambda>e data.
     FinalizeWrite ops p data e))"

fun put_internals :: "'s pool_calls \<Rightarrow> (page_id_t \<times> child list) list \<Rightarrow> 's env \<Rightarrow> ('s env, unit) outcome" where
  "put_internals ops [] e = return () e"
| "put_internals ops ((p, entries) # rest) e = andthen (put_internal ops p entries e) (\<lambda>e _. put_internals ops rest e)"

text \<open>The siblings of a child: the pages left and right of it in its parent, \<open>INVALID_PAGE_ID\<close> at the ends.\<close>

definition left_sibling :: "child list \<Rightarrow> nat \<Rightarrow> page_id_t" where
  "left_sibling entries i = (if i = 0 then INVALID_PAGE_ID else snd (entries ! (i - 1)))"

definition right_sibling :: "child list \<Rightarrow> nat \<Rightarrow> page_id_t" where
  "right_sibling entries i = (if i + 1 \<ge> length entries then INVALID_PAGE_ID else snd (entries ! (i + 1)))"

definition set_key :: "nat \<Rightarrow> index_key_t \<Rightarrow> child list \<Rightarrow> child list" where
  "set_key i key entries = entries[i := (key, snd (entries ! i))]"

partial_function (option) SubtreeMinimum :: "'s pool_calls \<Rightarrow> page_id_t \<Rightarrow> 's env \<Rightarrow> ('s env, index_key_t) outcome" where
  "SubtreeMinimum ops page e =
     (if page = INVALID_PAGE_ID then fail InternalError e
      else
        andthen (fetch ops None page e) (\<lambda>e data.
          if leaf_Validate data = Code_Ok then (if leaf_GetSize data = 0 then fail InternalError e else return (leaf_KeyAt data 0) e)
          else if internal_Validate data \<noteq> Code_Ok then fail (internal_Validate data) e
          else SubtreeMinimum ops (internal_ChildAt data 0) e))"

partial_function (option) PropagateMinimumChange :: "'s pool_calls \<Rightarrow> page_id_t \<Rightarrow> index_key_t \<Rightarrow> 's env \<Rightarrow> ('s env, unit) outcome" where
  "PropagateMinimumChange ops page new_minimum e =
     andthen (fetch ops None page e) (\<lambda>e data.
       if leaf_Validate data \<noteq> Code_Ok \<and> internal_Validate data \<noteq> Code_Ok then fail (internal_Validate data) e
       else
         (let parent_id = (if leaf_Validate data = Code_Ok then leaf_GetParentPageId data else internal_GetParentPageId data) in
          if parent_id = INVALID_PAGE_ID then return () e
          else
            andthen (fetch_write ops parent_id e) (\<lambda>e parent.
              case position (\<lambda>x. snd x = page) (internal_Entries parent) of
                None \<Rightarrow> fail InternalError e
              | Some i \<Rightarrow>
                  if i \<noteq> 0 then
                    andthen (lift_result (internal_Assign (set_key i new_minimum (internal_Entries parent)) parent) e) (\<lambda>e parent.
                    FinalizeWrite ops parent_id parent e)
                  else PropagateMinimumChange ops parent_id new_minimum e)))"

text \<open>One level of \<^verbatim>\<open>RebalanceInternal\<close>: \<open>Some q\<close> when it goes on with the page \<open>q\<close>.\<close>

definition collapse_root :: "'s pool_calls \<Rightarrow> page_id_t \<Rightarrow> child list \<Rightarrow> 's env \<Rightarrow> ('s env, page_id_t option) outcome" where
  "collapse_root ops page entries e =
     (if length entries \<ge> 2 then return None e
      else if entries = [] then fail InternalError e
      else
        andthen (SetParent ops (snd (hd entries)) INVALID_PAGE_ID e) (\<lambda>e _.
        andthen (PersistRootPageId ops (set_root (snd (hd entries)) e)) (\<lambda>e _.
        andthen (delete_page ops page e) (\<lambda>e _.
        return None e))))"

definition borrow_child_left ::
  "'s pool_calls \<Rightarrow> page_id_t \<Rightarrow> child list \<Rightarrow> page_id_t \<Rightarrow> child list \<Rightarrow> nat \<Rightarrow> page_id_t \<Rightarrow> child list \<Rightarrow> 's env \<Rightarrow> ('s env, unit) outcome" where
  "borrow_child_left ops page entries parent parent_entries i left_id left_entries e =
     (let borrowed = snd (last left_entries);
          entries = (0, borrowed) # set_key 0 (fst (parent_entries ! i)) entries in
      andthen (SubtreeMinimum ops borrowed e) (\<lambda>e minimum.
      andthen (put_internals ops [(left_id, butlast left_entries), (page, entries), (parent, set_key i minimum parent_entries)] e) (\<lambda>e _.
      SetParent ops borrowed page e)))"

definition borrow_child_right ::
  "'s pool_calls \<Rightarrow> page_id_t \<Rightarrow> child list \<Rightarrow> page_id_t \<Rightarrow> child list \<Rightarrow> nat \<Rightarrow> page_id_t \<Rightarrow> child list \<Rightarrow> 's env \<Rightarrow> ('s env, unit) outcome" where
  "borrow_child_right ops page entries parent parent_entries i right_id right_entries e =
     (let borrowed = snd (hd right_entries);
          entries = entries @ [(fst (parent_entries ! (i + 1)), borrowed)];
          rest = tl right_entries in
      andthen (SubtreeMinimum ops (snd (hd rest)) e) (\<lambda>e minimum.
      andthen (put_internals ops [(page, entries), (right_id, set_key 0 0 rest), (parent, set_key (i + 1) minimum parent_entries)] e) (\<lambda>e _.
      SetParent ops borrowed page e)))"

text \<open>The children of the right page move to the left page; the separator above becomes the key of the first of them.\<close>

definition merge_children ::
  "'s pool_calls \<Rightarrow> page_id_t \<Rightarrow> child list \<Rightarrow> page_id_t \<Rightarrow> child list \<Rightarrow> page_id_t \<Rightarrow> child list \<Rightarrow> nat \<Rightarrow> 's env \<Rightarrow> ('s env, page_id_t option) outcome" where
  "merge_children ops left left_entries right right_entries parent parent_entries right_index e =
     (let moved = map snd right_entries;
          entries = left_entries @ set_key 0 (fst (parent_entries ! right_index)) right_entries in
      andthen (put_internals ops [(left, entries), (parent, erase_at right_index parent_entries)] e) (\<lambda>e _.
      andthen (delete_page ops right e) (\<lambda>e _.
      andthen (set_parents ops moved left e) (\<lambda>e _.
      return (Some parent) e))))"

definition rebalance_children ::
  "'s pool_calls \<Rightarrow> page_id_t \<Rightarrow> child list \<Rightarrow> nat \<Rightarrow> page_id_t \<Rightarrow> child list \<Rightarrow> nat \<Rightarrow> 's env \<Rightarrow> ('s env, page_id_t option) outcome" where
  "rebalance_children ops page entries minimum_size parent parent_entries i e =
     (let left_id = left_sibling parent_entries i; right_id = right_sibling parent_entries i;
          try_merge_left = (\<lambda>e.
            if left_id = INVALID_PAGE_ID then fail InternalError e
            else
              andthen (fetch ops None left_id e) (\<lambda>e data.
                merge_children ops left_id (internal_Entries data) page entries parent parent_entries i e));
          try_right = (\<lambda>e.
            if right_id = INVALID_PAGE_ID then try_merge_left e
            else
              andthen (fetch ops None right_id e) (\<lambda>e data.
                if length (internal_Entries data) > minimum_size then
                  andthen (borrow_child_right ops page entries parent parent_entries i right_id (internal_Entries data) e) (\<lambda>e _. return None e)
                else if left_id = INVALID_PAGE_ID then
                  merge_children ops page entries right_id (internal_Entries data) parent parent_entries (i + 1) e
                else try_merge_left e)) in
      if left_id = INVALID_PAGE_ID then try_right e
      else
        andthen (fetch ops None left_id e) (\<lambda>e data.
          if length (internal_Entries data) > minimum_size then
            andthen (borrow_child_left ops page entries parent parent_entries i left_id (internal_Entries data) e) (\<lambda>e _. return None e)
          else try_right e))"

definition rebalance_step :: "'s pool_calls \<Rightarrow> page_id_t \<Rightarrow> 's env \<Rightarrow> ('s env, page_id_t option) outcome" where
  "rebalance_step ops page e =
     andthen (fetch ops None page e) (\<lambda>e data.
       if internal_Validate data \<noteq> Code_Ok then fail (internal_Validate data) e
       else
         (let entries = internal_Entries data; parent = internal_GetParentPageId data;
              minimum_size = unat ((internal_GetMaxSize data + 1) div 2) in
          if page = root_page_id (fst e) then collapse_root ops page entries e
          else if length entries \<ge> minimum_size then return None e
          else
            andthen (fetch ops None parent e) (\<lambda>e parent_data.
              case position (\<lambda>x. snd x = page) (internal_Entries parent_data) of
                None \<Rightarrow> fail InternalError e
              | Some i \<Rightarrow> rebalance_children ops page entries minimum_size parent (internal_Entries parent_data) i e)))"

partial_function (option) RebalanceInternal :: "'s pool_calls \<Rightarrow> page_id_t \<Rightarrow> 's env \<Rightarrow> ('s env, unit) outcome" where
  "RebalanceInternal ops page e =
     andthen (rebalance_step ops page e) (\<lambda>e r.
       case r of None \<Rightarrow> return () e | Some parent \<Rightarrow> RebalanceInternal ops parent e)"

definition borrow_entry_left ::
  "'s pool_calls \<Rightarrow> page_id_t \<Rightarrow> entry list \<Rightarrow> page_id_t \<Rightarrow> child list \<Rightarrow> nat \<Rightarrow> page_id_t \<Rightarrow> entry list \<Rightarrow> 's env \<Rightarrow> ('s env, unit) outcome" where
  "borrow_entry_left ops leaf entries parent parent_entries i left_id left_entries e =
     (let entries = sort_entries (last left_entries # entries) in
      andthen (put_leaf ops left_id (butlast left_entries) None e) (\<lambda>e _.
      andthen (put_leaf ops leaf entries None e) (\<lambda>e _.
      put_internal ops parent (set_key i (fst (hd entries)) parent_entries) e)))"

definition borrow_entry_right ::
  "'s pool_calls \<Rightarrow> page_id_t \<Rightarrow> entry list \<Rightarrow> page_id_t \<Rightarrow> child list \<Rightarrow> nat \<Rightarrow> page_id_t \<Rightarrow> entry list \<Rightarrow> 's env \<Rightarrow> ('s env, unit) outcome" where
  "borrow_entry_right ops leaf entries parent parent_entries i right_id right_entries e =
     (let entries = sort_entries (entries @ [hd right_entries]); right_entries = tl right_entries in
      andthen (put_leaf ops leaf entries None e) (\<lambda>e _.
      andthen (put_leaf ops right_id right_entries None e) (\<lambda>e _.
      put_internal ops parent (set_key (i + 1) (fst (hd right_entries)) parent_entries) e)))"

definition merge_leaves ::
  "'s pool_calls \<Rightarrow> page_id_t \<Rightarrow> entry list \<Rightarrow> page_id_t \<Rightarrow> entry list \<Rightarrow> page_id_t \<Rightarrow> page_id_t \<Rightarrow> child list \<Rightarrow> nat \<Rightarrow> 's env \<Rightarrow> ('s env, unit) outcome" where
  "merge_leaves ops left left_entries right right_entries next_page parent parent_entries right_index e =
     andthen (put_leaf ops left (sort_entries (left_entries @ right_entries)) (Some next_page) e) (\<lambda>e _.
     andthen (put_internal ops parent (erase_at right_index parent_entries) e) (\<lambda>e _.
     andthen (delete_page ops right e) (\<lambda>e _.
     RebalanceInternal ops parent e)))"

definition rebalance_entries ::
  "'s pool_calls \<Rightarrow> page_id_t \<Rightarrow> entry list \<Rightarrow> page_id_t \<Rightarrow> nat \<Rightarrow> page_id_t \<Rightarrow> child list \<Rightarrow> nat \<Rightarrow> 's env \<Rightarrow> ('s env, unit) outcome" where
  "rebalance_entries ops leaf entries leaf_next minimum_size parent parent_entries i e =
     (let left_id = left_sibling parent_entries i; right_id = right_sibling parent_entries i;
          try_merge_left = (\<lambda>e.
            if left_id = INVALID_PAGE_ID then fail InternalError e
            else
              andthen (fetch ops None left_id e) (\<lambda>e data.
                merge_leaves ops left_id (leaf_Entries data) leaf entries leaf_next parent parent_entries i e));
          try_right = (\<lambda>e.
            if right_id = INVALID_PAGE_ID then try_merge_left e
            else
              andthen (fetch ops None right_id e) (\<lambda>e data.
                if length (leaf_Entries data) > minimum_size then
                  borrow_entry_right ops leaf entries parent parent_entries i right_id (leaf_Entries data) e
                else if left_id = INVALID_PAGE_ID then
                  merge_leaves ops leaf entries right_id (leaf_Entries data) (leaf_GetNextPageId data) parent parent_entries (i + 1) e
                else try_merge_left e)) in
      if left_id = INVALID_PAGE_ID then try_right e
      else
        andthen (fetch ops None left_id e) (\<lambda>e data.
          if length (leaf_Entries data) > minimum_size then
            borrow_entry_left ops leaf entries parent parent_entries i left_id (leaf_Entries data) e
          else try_right e))"

definition RebalanceLeaf :: "'s pool_calls \<Rightarrow> page_id_t \<Rightarrow> 's env \<Rightarrow> ('s env, unit) outcome" where
  "RebalanceLeaf ops leaf e =
     andthen (fetch ops None leaf e) (\<lambda>e data.
       if leaf_Validate data \<noteq> Code_Ok then fail (leaf_Validate data) e
       else
         (let parent = leaf_GetParentPageId data; minimum_size = unat ((leaf_GetMaxSize data + 1) div 2) in
          andthen (fetch ops None parent e) (\<lambda>e parent_data.
            case position (\<lambda>x. snd x = leaf) (internal_Entries parent_data) of
              None \<Rightarrow> fail InternalError e
            | Some i \<Rightarrow>
                rebalance_entries ops leaf (leaf_Entries data) (leaf_GetNextPageId data) minimum_size parent
                  (internal_Entries parent_data) i e)))"

text \<open>The search for the leaf that has the pair, along the chain of leaves; \<open>INVALID_PAGE_ID\<close> when none has it.\<close>

partial_function (option) find_pair :: "'s pool_calls \<Rightarrow> index_key_t \<Rightarrow> RID \<Rightarrow> page_id_t \<Rightarrow> 's env \<Rightarrow> ('s env, page_id_t) outcome" where
  "find_pair ops key rid current e =
     (if current = INVALID_PAGE_ID then return INVALID_PAGE_ID e
      else
        andthen (fetch ops None current e) (\<lambda>e data.
          if leaf_Validate data \<noteq> Code_Ok then fail (leaf_Validate data) e
          else if (key, rid) \<in> set (leaf_Entries data) then return current e
          else if leaf_Entries data \<noteq> [] \<and> sint (fst (last (leaf_Entries data))) > sint key then return INVALID_PAGE_ID e
          else find_pair ops key rid (leaf_GetNextPageId data) e))"

definition RemoveFromLeaf :: "'s pool_calls \<Rightarrow> page_id_t \<Rightarrow> index_key_t \<Rightarrow> RID \<Rightarrow> 's env \<Rightarrow> ('s env, unit) outcome" where
  "RemoveFromLeaf ops target key rid e =
     andthen (fetch_write ops target e) (\<lambda>e data.
       case position (\<lambda>x. x = (key, rid)) (leaf_Entries data) of
         None \<Rightarrow> fail NotFound e
       | Some i \<Rightarrow>
           (let entries = erase_at i (leaf_Entries data) in
            andthen (lift_result (leaf_Assign entries data) e) (\<lambda>e data.
            andthen (FinalizeWrite ops target data e) (\<lambda>e _.
              if target = root_page_id (fst e) then
                (if entries \<noteq> [] then return () e
                 else
                   andthen (PersistRootPageId ops (set_root INVALID_PAGE_ID e)) (\<lambda>e _. delete_page ops target e))
              else if unat (leaf_GetSize data) \<ge> unat ((leaf_GetMaxSize data + 1) div 2) then
                (if i = 0 then PropagateMinimumChange ops target (fst (hd entries)) e else return () e)
              else RebalanceLeaf ops target e))))"

definition Remove :: "'s pool_calls \<Rightarrow> index_key_t \<Rightarrow> RID \<Rightarrow> 's env \<Rightarrow> ('s env, unit) outcome" where
  "Remove ops key rid e =
     (if IsEmpty e then fail NotFound e
      else
        andthen (FindLeaf ops key None e) (\<lambda>e (leaf, _).
        andthen (find_pair ops key rid leaf e) (\<lambda>e target.
          if target = INVALID_PAGE_ID then fail NotFound e else RemoveFromLeaf ops target key rid e)))"

definition Remove_txn :: "'s pool_calls \<Rightarrow> index_key_t \<Rightarrow> RID \<Rightarrow> txn_id_t option \<Rightarrow> 's env \<Rightarrow> ('s env, unit) outcome" where
  "Remove_txn ops key rid tp = scoped tp (Remove ops key rid)"

subsection \<open>Destroying the tree\<close>

text \<open>The pages still to visit are a stack with its top at the head.\<close>

partial_function (option) collect_pages ::
  "'s pool_calls \<Rightarrow> page_id_t list \<Rightarrow> page_id_t list \<Rightarrow> 's env \<Rightarrow> ('s env, page_id_t list) outcome" where
  "collect_pages ops pending pages e =
     (case pending of
        [] \<Rightarrow> return pages e
      | p # pending \<Rightarrow>
          andthen (fetch ops None p e) (\<lambda>e data.
            if leaf_Validate data = Code_Ok then collect_pages ops pending (pages @ [p]) e
            else if internal_Validate data \<noteq> Code_Ok then fail (internal_Validate data) e
            else collect_pages ops (rev (map snd (internal_Entries data)) @ pending) (pages @ [p]) e))"

fun delete_pages :: "'s pool_calls \<Rightarrow> page_id_t list \<Rightarrow> 's env \<Rightarrow> ('s env, unit) outcome" where
  "delete_pages ops [] e = return () e"
| "delete_pages ops (p # ps) e = andthen (delete_page ops p e) (\<lambda>e _. delete_pages ops ps e)"

definition Destroy :: "'s pool_calls \<Rightarrow> 's env \<Rightarrow> ('s env, unit) outcome" where
  "Destroy ops e =
     andthen (collect_pages ops (if IsEmpty e then [] else [root_page_id (fst e)]) [] e) (\<lambda>e pages.
     andthen (delete_pages ops (rev pages) (set_root INVALID_PAGE_ID e)) (\<lambda>e _.
       if header_page_id (fst e) = INVALID_PAGE_ID then return () e
       else delete_page ops (header_page_id (fst e)) (fst e\<lparr>header_page_id := INVALID_PAGE_ID\<rparr>, snd e)))"

end
