(* ===== verification/BTreeInv.thy ===== *)
theory BTreeInv
  imports BTree "HOL-Library.Multiset"
begin

text \<open>
  The tree that the pages hold: a ghost tree with the page of each node, the predicate \<open>rep\<close> that ties it to the contents
  of the pages (with parent pointers and the chain of leaves), the order on its keys, and the interface of the pool
  calls that the operations rely on.
\<close>

subsection \<open>Trees\<close>

datatype bt = Lf page_id_t "entry list" | Nd page_id_t "(index_key_t \<times> bt) list"

fun page_of :: "bt \<Rightarrow> page_id_t" where
  "page_of (Lf p es) = p"
| "page_of (Nd p cs) = p"

fun first_leaf :: "bt \<Rightarrow> page_id_t" where
  "first_leaf (Lf p es) = p"
| "first_leaf (Nd p []) = p"
| "first_leaf (Nd p (c # cs)) = first_leaf (snd c)"

fun pages :: "bt \<Rightarrow> page_id_t list" and pages_list :: "(index_key_t \<times> bt) list \<Rightarrow> page_id_t list" where
  "pages (Lf p es) = [p]"
| "pages (Nd p cs) = p # pages_list cs"
| "pages_list [] = []"
| "pages_list (c # cs) = pages (snd c) @ pages_list cs"

fun leaves :: "bt \<Rightarrow> (page_id_t \<times> entry list) list" and leaves_list :: "(index_key_t \<times> bt) list \<Rightarrow> (page_id_t \<times> entry list) list" where
  "leaves (Lf p es) = [(p, es)]"
| "leaves (Nd p cs) = leaves_list cs"
| "leaves_list [] = []"
| "leaves_list (c # cs) = leaves (snd c) @ leaves_list cs"

definition ents :: "bt \<Rightarrow> entry list" where
  "ents t = concat (map snd (leaves t))"

definition ents_list :: "(index_key_t \<times> bt) list \<Rightarrow> entry list" where
  "ents_list cs = concat (map snd (leaves_list cs))"

lemma ents_simps [simp]:
  "ents (Lf p es) = es" "ents (Nd p cs) = ents_list cs" "ents_list [] = []" "ents_list (c # cs) = ents (snd c) @ ents_list cs"
  by (simp_all add: ents_def ents_list_def)

definition first_of :: "(index_key_t \<times> bt) list \<Rightarrow> page_id_t \<Rightarrow> page_id_t" where
  "first_of cs nx = (case cs of [] \<Rightarrow> nx | c # _ \<Rightarrow> first_leaf (snd c))"

definition child_entries :: "(index_key_t \<times> bt) list \<Rightarrow> child list" where
  "child_entries cs = map (\<lambda>c. (fst c, page_of (snd c))) cs"

text \<open>What the pages hold: \<open>par\<close> is the parent of the root of \<open>t\<close>, \<open>nx\<close> the leaf after the last leaf of \<open>t\<close>, \<open>lm\<close> and \<open>im\<close>
  the capacities.\<close>

fun rep :: "(page_id_t \<rightharpoonup> byte list) \<Rightarrow> u32 \<Rightarrow> u32 \<Rightarrow> page_id_t \<Rightarrow> page_id_t \<Rightarrow> bt \<Rightarrow> bool"
  and reps :: "(page_id_t \<rightharpoonup> byte list) \<Rightarrow> u32 \<Rightarrow> u32 \<Rightarrow> page_id_t \<Rightarrow> page_id_t \<Rightarrow> (index_key_t \<times> bt) list \<Rightarrow> bool" where
  "rep C lm im par nx (Lf p es) = (\<exists>b. C p = Some b \<and> is_leaf b lm par nx es)"
| "rep C lm im par nx (Nd p cs) = ((\<exists>b. C p = Some b \<and> is_internal b im par (child_entries cs)) \<and> cs \<noteq> [] \<and> reps C lm im p nx cs)"
| "reps C lm im par nx [] = True"
| "reps C lm im par nx (c # cs) = (rep C lm im par (first_of cs nx) (snd c) \<and> reps C lm im par nx cs)"

text \<open>The keys: every separator bounds the subtrees on its two sides. The first key of an internal page is not used.\<close>

definition upper_of :: "(index_key_t \<times> bt) list \<Rightarrow> int \<Rightarrow> int" where
  "upper_of cs hi = (case cs of [] \<Rightarrow> hi | c # _ \<Rightarrow> sint (fst c))"

lemma upper_of_simps [simp]: "upper_of [] hi = hi" "upper_of (c # cs) hi = sint (fst c)" "upper_of (xs @ ys) hi = upper_of xs (upper_of ys hi)"
  by (simp_all add: upper_of_def split: list.splits)

fun keys_in :: "int \<Rightarrow> int \<Rightarrow> bt \<Rightarrow> bool" and kids_in :: "int \<Rightarrow> int \<Rightarrow> (index_key_t \<times> bt) list \<Rightarrow> bool" where
  "keys_in lo hi (Lf p es) = (\<forall>e \<in> set es. lo \<le> sint (fst e) \<and> sint (fst e) \<le> hi)"
| "keys_in lo hi (Nd p cs) = kids_in lo hi cs"
| "kids_in lo hi [] = True"
| "kids_in lo hi (c # cs) = (keys_in lo (upper_of cs hi) (snd c) \<and>
     (cs \<noteq> [] \<longrightarrow> lo \<le> upper_of cs hi \<and> upper_of cs hi \<le> hi \<and> kids_in (upper_of cs hi) hi cs))"

text \<open>All leaves at one depth; every node but the root at least half full.\<close>

fun balanced :: "nat \<Rightarrow> bt \<Rightarrow> bool" and balanced_list :: "nat \<Rightarrow> (index_key_t \<times> bt) list \<Rightarrow> bool" where
  "balanced n (Lf p es) = (n = 0)"
| "balanced n (Nd p cs) = (n \<noteq> 0 \<and> balanced_list (n - 1) cs)"
| "balanced_list n [] = True"
| "balanced_list n (c # cs) = (balanced n (snd c) \<and> balanced_list n cs)"

definition half :: "u32 \<Rightarrow> nat" where
  "half mx = unat ((mx + 1) div 2)"

fun filled :: "u32 \<Rightarrow> u32 \<Rightarrow> bt \<Rightarrow> bool" and filled_list :: "u32 \<Rightarrow> u32 \<Rightarrow> (index_key_t \<times> bt) list \<Rightarrow> bool" where
  "filled lm im (Lf p es) = (half lm \<le> length es)"
| "filled lm im (Nd p cs) = (half im \<le> length cs \<and> filled_list lm im cs)"
| "filled_list lm im [] = True"
| "filled_list lm im (c # cs) = (filled lm im (snd c) \<and> filled_list lm im cs)"

fun filled_root :: "u32 \<Rightarrow> u32 \<Rightarrow> bt \<Rightarrow> bool" where
  "filled_root lm im (Lf p es) = (es \<noteq> [])"
| "filled_root lm im (Nd p cs) = (2 \<le> length cs \<and> filled_list lm im cs)"

lemma list_forms:
  "balanced_list n cs \<longleftrightarrow> (\<forall>c \<in> set cs. balanced n (snd c))"
  "filled_list lm im cs \<longleftrightarrow> (\<forall>c \<in> set cs. filled lm im (snd c))"
  "pages_list cs = concat (map (\<lambda>c. pages (snd c)) cs)"
  "leaves_list cs = concat (map (\<lambda>c. leaves (snd c)) cs)"
  "ents_list cs = concat (map (\<lambda>c. ents (snd c)) cs)"
  by (induction cs) auto

lemma list_append [simp]:
  "pages_list (xs @ ys) = pages_list xs @ pages_list ys" "leaves_list (xs @ ys) = leaves_list xs @ leaves_list ys"
  "ents_list (xs @ ys) = ents_list xs @ ents_list ys"
  "balanced_list n (xs @ ys) \<longleftrightarrow> balanced_list n xs \<and> balanced_list n ys"
  "filled_list lm im (xs @ ys) \<longleftrightarrow> filled_list lm im xs \<and> filled_list lm im ys"
  by (simp_all add: list_forms ball_Un)

lemma half_le: "2 \<le> unat mx \<Longrightarrow> unat mx \<le> 254 \<Longrightarrow> half mx = (unat mx + 1) div 2"
  by (simp add: half_def unat_div unat_word_ariths)

lemma page_of_pages [simp]: "page_of t \<in> set (pages t)"
  by (cases t) auto

lemma set_pages_list: "set (pages_list cs) = (\<Union>c \<in> set cs. set (pages (snd c)))"
  by (induction cs) auto

lemma reps_append: "reps C lm im par nx (xs @ ys) \<longleftrightarrow> reps C lm im par (first_of ys nx) xs \<and> reps C lm im par nx ys"
  by (induction xs) (auto simp: first_of_def split: list.splits)

lemma first_of_simps [simp]: "first_of [] nx = nx" "first_of (c # cs) nx = first_leaf (snd c)"
  "first_of (xs @ ys) nx = first_of xs (first_of ys nx)"
  by (simp_all add: first_of_def split: list.splits)

text \<open>Only the pages of the tree matter.\<close>

lemma rep_cong:
  "(\<And>p. p \<in> set (pages t) \<Longrightarrow> C' p = C p) \<Longrightarrow> rep C' lm im par nx t = rep C lm im par nx t"
  "(\<And>p. p \<in> set (pages_list cs) \<Longrightarrow> C' p = C p) \<Longrightarrow> reps C' lm im par nx cs = reps C lm im par nx cs"
  by (induction C lm im par nx t and C lm im par nx cs rule: rep_reps.induct) auto

lemma rep_dom:
  "rep C lm im par nx t \<Longrightarrow> set (pages t) \<subseteq> dom C"
  "reps C lm im par nx cs \<Longrightarrow> set (pages_list cs) \<subseteq> dom C"
  by (induction C lm im par nx t and C lm im par nx cs rule: rep_reps.induct) auto

lemma first_leaf_pages: "rep C lm im par nx t \<Longrightarrow> first_leaf t \<in> set (pages t)"
  by (induction t arbitrary: par nx rule: first_leaf.induct) auto

text \<open>The chain of leaves.\<close>

fun chain :: "(page_id_t \<rightharpoonup> byte list) \<Rightarrow> u32 \<Rightarrow> page_id_t \<Rightarrow> (page_id_t \<times> entry list) list \<Rightarrow> bool" where
  "chain C lm nx [] = True"
| "chain C lm nx ((p, es) # ls) = ((\<exists>b par. C p = Some b \<and> is_leaf b lm par (case ls of [] \<Rightarrow> nx | (q, _) # _ \<Rightarrow> q) es) \<and> chain C lm nx ls)"

definition first_page :: "(page_id_t \<times> entry list) list \<Rightarrow> page_id_t \<Rightarrow> page_id_t" where
  "first_page ls nx = (case ls of [] \<Rightarrow> nx | (q, _) # _ \<Rightarrow> q)"

lemma chain_Cons: "chain C lm nx ((p, es) # ls) \<longleftrightarrow> (\<exists>b par. C p = Some b \<and> is_leaf b lm par (first_page ls nx) es) \<and> chain C lm nx ls"
  by (simp add: first_page_def)

lemma first_page_simps [simp]: "first_page [] nx = nx" "first_page (l # ls) nx = fst l" "first_page (xs @ ys) nx = first_page xs (first_page ys nx)"
  by (auto simp: first_page_def case_prod_beta split: list.splits)

declare chain.simps(2) [simp del] chain_Cons [simp]

lemma chain_append: "chain C lm nx (xs @ ys) \<longleftrightarrow> chain C lm (first_page ys nx) xs \<and> chain C lm nx ys"
proof (induction xs)
  case (Cons x xs)
  then show ?case by (cases x) simp
qed simp

lemma leaves_ne:
  "rep C lm im par nx t \<Longrightarrow> leaves t \<noteq> [] \<and> fst (hd (leaves t)) = first_leaf t"
  "reps C lm im par nx cs \<Longrightarrow> cs \<noteq> [] \<Longrightarrow> leaves_list cs \<noteq> [] \<and> fst (hd (leaves_list cs)) = first_leaf (snd (hd cs))"
proof (induction C lm im par nx t and C lm im par nx cs rule: rep_reps.induct)
  case (2 C lm im par nx p cs)
  then show ?case by (cases cs) auto
qed auto

lemma rep_chain:
  "rep C lm im par nx t \<Longrightarrow> chain C lm nx (leaves t)"
  "reps C lm im par nx cs \<Longrightarrow> chain C lm nx (leaves_list cs)"
proof (induction C lm im par nx t and C lm im par nx cs rule: rep_reps.induct)
  case (4 C lm im par nx c cs)
  have "first_page (leaves_list cs) nx = first_of cs nx"
  proof (cases cs)
    case (Cons d ds)
    then have "leaves_list cs \<noteq> [] \<and> fst (hd (leaves_list cs)) = first_leaf (snd d)" using leaves_ne(2)[of C lm im par nx cs] 4(3) by simp
    then show ?thesis using Cons by (cases "leaves_list cs") simp_all
  qed simp
  then show ?case using 4 by (simp add: chain_append)
qed auto

subsection \<open>Keys\<close>

lemma kids_append:
  "xs \<noteq> [] \<Longrightarrow> ys \<noteq> [] \<Longrightarrow> kids_in lo hi (xs @ ys) \<longleftrightarrow>
     kids_in lo (upper_of ys hi) xs \<and> lo \<le> upper_of ys hi \<and> upper_of ys hi \<le> hi \<and> kids_in (upper_of ys hi) hi ys"
proof (induction xs arbitrary: lo)
  case (Cons x xs)
  show ?case
  proof (cases "xs = []")
    case False
    then have u: "upper_of xs h = sint (fst (hd xs))" for h by (cases xs) simp_all
    show ?thesis unfolding append_Cons kids_in.simps upper_of_simps u using Cons.IH[OF False Cons.prems(2), of "sint (fst (hd xs))"] False by auto
  next
    case True
    obtain c cs where ys: "ys = c # cs" using Cons.prems by (cases ys) simp_all
    show ?thesis unfolding True ys by simp
  qed
qed simp

lemma keys_in_mono:
  "keys_in lo hi t \<Longrightarrow> lo' \<le> lo \<Longrightarrow> hi \<le> hi' \<Longrightarrow> keys_in lo' hi' t"
  "kids_in lo hi cs \<Longrightarrow> lo' \<le> lo \<Longrightarrow> hi \<le> hi' \<Longrightarrow> kids_in lo' hi' cs"
proof (induction lo hi t and lo hi cs arbitrary: lo' hi' and lo' hi' rule: keys_in_kids_in.induct)
  case (1 lo hi p es)
  then show ?case by force
next
  case (4 lo hi c cs)
  have u: "upper_of cs hi \<le> upper_of cs hi'" using 4(5) by (cases cs) simp_all
  show ?case
  proof (cases "cs = []")
    case False
    then have e: "upper_of cs hi' = upper_of cs hi" by (cases cs) simp_all
    then show ?thesis using 4(1)[of lo' "upper_of cs hi"] 4(2)[OF False, of "upper_of cs hi" hi'] 4(3-5) False by simp
  qed (use 4 in simp)
qed simp_all

lemma ents_in:
  "keys_in lo hi t \<Longrightarrow> \<forall>e \<in> set (ents t). lo \<le> sint (fst e) \<and> sint (fst e) \<le> hi"
  "kids_in lo hi cs \<Longrightarrow> \<forall>e \<in> set (ents_list cs). lo \<le> sint (fst e) \<and> sint (fst e) \<le> hi"
proof (induction lo hi t and lo hi cs rule: keys_in_kids_in.induct)
  case (4 lo hi c cs)
  show ?case
  proof (cases "cs = []")
    case False
    then have "lo \<le> upper_of cs hi" "upper_of cs hi \<le> hi" "\<forall>e \<in> set (ents (snd c)). lo \<le> sint (fst e) \<and> sint (fst e) \<le> upper_of cs hi"
      "\<forall>e \<in> set (ents_list cs). upper_of cs hi \<le> sint (fst e) \<and> sint (fst e) \<le> hi" using 4 by simp_all
    then show ?thesis unfolding ents_simps set_append by (meson UnE order_trans)
  qed (use 4 in simp)
qed simp_all

abbreviation key_le :: "entry \<Rightarrow> entry \<Rightarrow> bool" where
  "key_le x y \<equiv> sint (fst x) \<le> sint (fst y)"

lemma ents_sorted:
  "rep C lm im par nx t \<Longrightarrow> keys_in lo hi t \<Longrightarrow> sorted_wrt key_le (ents t)"
  "reps C lm im par nx cs \<Longrightarrow> kids_in lo hi cs \<Longrightarrow> sorted_wrt key_le (ents_list cs)"
proof (induction C lm im par nx t and C lm im par nx cs arbitrary: lo hi and lo hi rule: rep_reps.induct)
  case (1 C lm im par nx p es)
  then have "sorted_wrt entry_le es" using leaf_get(7) by auto
  then show ?case by (auto intro: sorted_wrt_mono_rel[OF _ \<open>sorted_wrt entry_le es\<close>] entry_le_key)
next
  case (4 C lm im par nx c cs)
  have "key_le x y" if "x \<in> set (ents (snd c))" "y \<in> set (ents_list cs)" for x y
  proof -
    have "cs \<noteq> []" using that by auto
    then have "keys_in lo (upper_of cs hi) (snd c)" "kids_in (upper_of cs hi) hi cs" using 4(4) by simp_all
    from ents_in(1)[OF this(1)] ents_in(2)[OF this(2)] that show ?thesis by (meson order_trans)
  qed
  moreover have "sorted_wrt key_le (ents (snd c))" using 4(1)[of lo "upper_of cs hi"] 4(3,4) by simp
  moreover have "sorted_wrt key_le (ents_list cs)" using 4(2)[of "upper_of cs hi" hi] 4(3,4) by (cases "cs = []") simp_all
  ultimately show ?case by (simp add: sorted_wrt_append)
qed auto

text \<open>The whole range of a 64-bit key.\<close>

lemma key_range: "- (2 ^ 63) \<le> sint (k :: index_key_t)" "sint (k :: index_key_t) \<le> 2 ^ 63 - 1"
  using sint_ge[of k] sint_lt[of k] by simp_all

end
