(* ===== verification/BTreeCalls.thy ===== *)
theory BTreeCalls
  imports BTreeInv
begin

text \<open>
  What the B+ tree relies on: the contract of the calls of the buffer pool, as a locale. \<open>ok\<close> is the provider's invariant,
  \<open>content\<close> what the pages hold, \<open>known\<close> the pages handed out so far; a call may always fail, and says so by \<open>failed\<close>, after which
  nothing is promised. \<open>good\<close> is the corresponding claim on a sequence of calls: it returns, and when no call failed, it
  ends well.
\<close>

definition good :: "('s \<Rightarrow> bool) \<Rightarrow> ('s \<Rightarrow> bool) \<Rightarrow> ('s env, 'a) outcome \<Rightarrow> ('s env \<Rightarrow> 'a \<Rightarrow> bool) \<Rightarrow> bool" where
  "good ok failed m Q \<longleftrightarrow> (\<exists>e r. m = Some (e, r) \<and> (case r of Inl _ \<Rightarrow> failed (snd e) | Inr a \<Rightarrow> ok (snd e) \<and> Q e a))"

lemma good_andthen:
  assumes "good ok failed m R" "\<And>e a. ok (snd e) \<Longrightarrow> R e a \<Longrightarrow> good ok failed (k e a) Q"
  shows "good ok failed (andthen m k) Q"
proof -
  obtain e r where m: "m = Some (e, r)" "case r of Inl _ \<Rightarrow> failed (snd e) | Inr a \<Rightarrow> ok (snd e) \<and> R e a"
    using assms(1) by (auto simp: good_def)
  show ?thesis
  proof (cases r)
    case (Inl x)
    then show ?thesis using m by (simp add: good_def andthen_def)
  next
    case (Inr a)
    then show ?thesis using m assms(2)[of e a] by (simp add: andthen_def)
  qed
qed

lemma good_weaken:
  assumes "good ok failed m R" "\<And>e a. ok (snd e) \<Longrightarrow> R e a \<Longrightarrow> Q e a"
  shows "good ok failed m Q"
proof -
  obtain e r where m: "m = Some (e, r)" "case r of Inl _ \<Rightarrow> failed (snd e) | Inr a \<Rightarrow> ok (snd e) \<and> R e a"
    using assms(1) by (auto simp: good_def)
  then show ?thesis using assms(2)[of e] by (cases r) (simp_all add: good_def)
qed

lemma good_return: "ok (snd e) \<Longrightarrow> Q e a \<Longrightarrow> good ok failed (return a e) Q"
  by (simp add: good_def return_def)

lemma good_lift: "ok (snd e) \<Longrightarrow> Q e a \<Longrightarrow> good ok failed (lift_result (Inr a) e) Q"
  by (simp add: good_def lift_result_def)

lemma andthen_return [simp]: "andthen (return a e) k = k e a"
  by (simp add: andthen_def return_def)

lemma andthen_lift [simp]: "andthen (lift_result (Inr a) e) k = k e a"
  by (simp add: andthen_def lift_result_def)

lemma andthen_fail [simp]: "andthen (fail err e) k = fail err e"
  by (simp add: andthen_def fail_def)

lemma andthen_assoc: "andthen (andthen m k) h = andthen m (\<lambda>e a. andthen (k e a) h)"
  by (auto simp: andthen_def split: option.splits sum.splits prod.splits)

text \<open>The header page of a persistent tree records the root and the capacities.\<close>

definition header_ok :: "(page_id_t \<rightharpoonup> byte list) \<Rightarrow> BPlusTree \<Rightarrow> bool" where
  "header_ok C tree \<longleftrightarrow> header_page_id tree = INVALID_PAGE_ID \<or>
     (\<exists>b. C (header_page_id tree) = Some b \<and> length b = page_size \<and> load32 b kHeaderTypeOffset = kHeaderPageType \<and>
        load32 b kHeaderVersionOffset = kHeaderFormatVersion \<and> load32 b kHeaderRootOffset = root_page_id tree \<and>
        load32 b kHeaderLeafMaxOffset = leaf_max_size tree \<and> load32 b kHeaderInternalMaxOffset = internal_max_size tree)"

text \<open>The pages hold a tree with the entries \<open>S\<close>: \<open>None\<close> is the empty tree, which has no pages.\<close>

fun holds_tree :: "(page_id_t \<rightharpoonup> byte list) \<Rightarrow> BPlusTree \<Rightarrow> bt option \<Rightarrow> bool" where
  "holds_tree C tree None \<longleftrightarrow> root_page_id tree = INVALID_PAGE_ID"
| "holds_tree C tree (Some t) \<longleftrightarrow> root_page_id tree = page_of t \<and> distinct (pages t) \<and> header_page_id tree \<notin> set (pages t) \<and>
     rep C (leaf_max_size tree) (internal_max_size tree) INVALID_PAGE_ID INVALID_PAGE_ID t \<and> keys_in (- (2 ^ 63)) (2 ^ 63 - 1) t \<and>
     (\<exists>n. balanced n t) \<and> filled_root (leaf_max_size tree) (internal_max_size tree) t"

definition tree_ok :: "(page_id_t \<rightharpoonup> byte list) \<Rightarrow> BPlusTree \<Rightarrow> entry multiset \<Rightarrow> bool" where
  "tree_ok C tree S \<longleftrightarrow> capacities_ok (leaf_max_size tree) (internal_max_size tree) \<and> header_ok C tree \<and>
     (\<exists>t. holds_tree C tree t \<and> S = (case t of None \<Rightarrow> {#} | Some t \<Rightarrow> mset (ents t)))"

text \<open>The same with the tree named: \<open>tree_holds C tree t\<close> says that the pages hold the tree \<open>t\<close>.\<close>

definition tree_holds :: "(page_id_t \<rightharpoonup> byte list) \<Rightarrow> BPlusTree \<Rightarrow> bt option \<Rightarrow> bool" where
  "tree_holds C tree t \<longleftrightarrow> capacities_ok (leaf_max_size tree) (internal_max_size tree) \<and> header_ok C tree \<and> holds_tree C tree t"

definition tree_entries :: "bt option \<Rightarrow> entry multiset" where
  "tree_entries t = (case t of None \<Rightarrow> {#} | Some t \<Rightarrow> mset (ents t))"

lemma tree_ok_holds: "tree_ok C tree S \<longleftrightarrow> (\<exists>t. tree_holds C tree t \<and> S = tree_entries t)"
  by (auto simp: tree_ok_def tree_holds_def tree_entries_def)

lemma capacities: "capacities_ok lm im \<longleftrightarrow> 2 \<le> unat lm \<and> unat lm \<le> 254 \<and> 3 \<le> unat im \<and> unat im \<le> 254"
  by (auto simp: capacities_ok_def two_le_unat)

locale page_calls =
  fixes ops :: "'s pool_calls" and ok failed :: "'s \<Rightarrow> bool" and content :: "'s \<Rightarrow> page_id_t \<rightharpoonup> byte list" and known :: "'s \<Rightarrow> page_id_t set"
  assumes content_known: "ok s \<Longrightarrow> dom (content s) \<subseteq> known s"
    and known_valid: "ok s \<Longrightarrow> INVALID_PAGE_ID \<notin> known s"
    and fetch_law: "ok s \<Longrightarrow> content s p = Some b \<Longrightarrow> call_fetch ops tp p s = (s', r) \<Longrightarrow>
      case r of Inl _ \<Rightarrow> failed s' | Inr b' \<Rightarrow> ok s' \<and> content s' = content s \<and> known s' = known s \<and> b' = b"
    and fetch_write_law: "ok s \<Longrightarrow> content s p = Some b \<Longrightarrow> call_fetch_write ops tp p s = (s', r) \<Longrightarrow>
      case r of Inl _ \<Rightarrow> failed s' | Inr b' \<Rightarrow> ok s' \<and> content s' = content s \<and> known s' = known s \<and> b' = b"
    and finalize_law: "ok s \<Longrightarrow> p \<in> known s \<Longrightarrow> length b = page_size \<Longrightarrow> call_finalize ops tp p b s = (s', ru) \<Longrightarrow>
      case ru of Inl _ \<Rightarrow> failed s' | Inr _ \<Rightarrow> ok s' \<and> content s' = (content s)(p \<mapsto> b) \<and> known s' = known s"
    and finalize_failed: "failed s \<Longrightarrow> failed (fst (call_finalize ops tp p b s))"
    and new_law: "ok s \<Longrightarrow> call_new ops tp s = (s', rp) \<Longrightarrow>
      case rp of Inl _ \<Rightarrow> failed s' | Inr p \<Rightarrow> ok s' \<and> content s' = content s \<and> known s' = insert p (known s) \<and> p \<notin> known s"
begin

definition at :: "'s env \<Rightarrow> BPlusTree \<Rightarrow> (page_id_t \<rightharpoonup> byte list) \<Rightarrow> page_id_t set \<Rightarrow> bool" where
  "at e tree C K \<longleftrightarrow> ok (snd e) \<and> fst e = tree \<and> content (snd e) = C \<and> known (snd e) = K"

abbreviation goodly :: "('s env, 'a) outcome \<Rightarrow> ('s env \<Rightarrow> 'a \<Rightarrow> bool) \<Rightarrow> bool" where
  "goodly \<equiv> good ok failed"

lemma at_facts:
  assumes "at e tree C K"
  shows "ok (snd e)" "fst e = tree" "dom C \<subseteq> K" "INVALID_PAGE_ID \<notin> K" "C p = Some b \<Longrightarrow> p \<noteq> INVALID_PAGE_ID"
proof -
  have e: "ok (snd e)" "fst e = tree" "content (snd e) = C" "known (snd e) = K" using assms by (simp_all add: at_def)
  then show "ok (snd e)" "fst e = tree" "dom C \<subseteq> K" "INVALID_PAGE_ID \<notin> K" using content_known known_valid by auto
  then show "C p = Some b \<Longrightarrow> p \<noteq> INVALID_PAGE_ID" by auto
qed

lemma fetch_ok: "at e tree C K \<Longrightarrow> C p = Some b \<Longrightarrow> goodly (fetch ops tp p e) (\<lambda>e b'. at e tree C K \<and> b' = b)"
  using fetch_law[of "snd e" p b tp] by (auto simp: good_def fetch_def at_def split: prod.splits sum.splits)

lemma fetch_write_ok: "at e tree C K \<Longrightarrow> C p = Some b \<Longrightarrow> goodly (fetch_write ops p e) (\<lambda>e b'. at e tree C K \<and> b' = b)"
  using fetch_write_law[of "snd e" p b "tree_transaction (fst e)"] by (auto simp: good_def fetch_write_def at_def split: prod.splits sum.splits)

lemma finalize_ok:
  "at e tree C K \<Longrightarrow> p \<in> K \<Longrightarrow> length b = page_size \<Longrightarrow> goodly (FinalizeWrite ops p b e) (\<lambda>e _. at e tree (C(p \<mapsto> b)) K)"
  using finalize_law[of "snd e" p b "tree_transaction (fst e)"] by (auto simp: good_def FinalizeWrite_def at_def split: prod.splits sum.splits)

lemma new_ok: "at e tree C K \<Longrightarrow> goodly (new_page ops e) (\<lambda>e p. at e tree C (insert p K) \<and> p \<notin> K)"
  using new_law[of "snd e" "tree_transaction (fst e)"] by (auto simp: good_def new_page_def at_def split: prod.splits sum.splits)

lemma finalizes_ok:
  assumes "at e tree C K" "p \<in> K" "length b = page_size" "q \<in> K" "length b' = page_size"
  shows "goodly (FinalizeWrites ops p b q b' e) (\<lambda>e _. at e tree (C(p \<mapsto> b, q \<mapsto> b')) K)"
proof -
  obtain s1 r1 where 1: "FinalizeWrite ops p b e = Some ((tree, s1), r1)" "call_finalize ops (tree_transaction tree) p b (snd e) = (s1, r1)"
    using assms(1) by (cases "call_finalize ops (tree_transaction tree) p b (snd e)") (auto simp: FinalizeWrite_def at_def)
  obtain s2 r2 where 2: "FinalizeWrite ops q b' (tree, s1) = Some ((tree, s2), r2)" "call_finalize ops (tree_transaction tree) q b' s1 = (s2, r2)"
    by (cases "call_finalize ops (tree_transaction tree) q b' s1") (auto simp: FinalizeWrite_def)
  have F: "FinalizeWrites ops p b q b' e = Some ((tree, s2), case r1 of Inl err \<Rightarrow> Inl err | Inr _ \<Rightarrow> r2)"
    by (simp add: FinalizeWrites_def 1 2)
  show ?thesis
  proof (cases r1)
    case (Inl x)
    then have "failed s1" using finalize_ok[OF assms(1-3)] 1 by (simp add: good_def)
    then show ?thesis using F Inl finalize_failed[of s1 "tree_transaction tree" q b'] 2 by (simp add: good_def)
  next
    case (Inr u)
    then have "at (tree, s1) tree (C(p \<mapsto> b)) K" using finalize_ok[OF assms(1-3)] 1 by (simp add: good_def)
    from finalize_ok[OF this assms(4,5)] F Inr 2 show ?thesis by (simp add: good_def)
  qed
qed

text \<open>The new root is recorded in the header page, if there is one; the other pages stay.\<close>

lemma persist_ok:
  assumes e: "at e tree C K" and h: "header_ok C (tree\<lparr>root_page_id := r\<rparr>)"
  shows "goodly (PersistRootPageId ops (set_root root e)) (\<lambda>e _. \<exists>C'. at e (tree\<lparr>root_page_id := root\<rparr>) C' K \<and>
    header_ok C' (tree\<lparr>root_page_id := root\<rparr>) \<and> (\<forall>p. p \<noteq> header_page_id tree \<longrightarrow> C' p = C p))"
proof (cases "header_page_id tree = INVALID_PAGE_ID")
  case True
  have "at (set_root root e) (tree\<lparr>root_page_id := root\<rparr>) C K" using e by (simp add: at_def set_root_def)
  moreover have "header_ok C (tree\<lparr>root_page_id := root\<rparr>)" using True by (simp add: header_ok_def)
  ultimately show ?thesis using True e
    by (auto simp: PersistRootPageId_def set_root_def at_def intro!: good_return)
next
  case False
  let ?t = "tree\<lparr>root_page_id := root\<rparr>" and ?h = "header_page_id tree"
  obtain b where b: "C ?h = Some b" "length b = page_size" "load32 b kHeaderTypeOffset = kHeaderPageType"
    "load32 b kHeaderVersionOffset = kHeaderFormatVersion" "load32 b kHeaderLeafMaxOffset = leaf_max_size tree"
    "load32 b kHeaderInternalMaxOffset = internal_max_size tree"
    using h False by (auto simp: header_ok_def)
  have at1: "at (set_root root e) ?t C K" using e by (simp add: at_def set_root_def)
  have K: "?h \<in> K" using at_facts(3)[OF e] b(1) by auto
  let ?b = "store32 b kHeaderRootOffset root"
  have l: "length ?b = page_size" using b(2) by (simp add: kHeaderRootOffset_def page_size_def)
  have ok: "header_ok (C(?h \<mapsto> ?b)) ?t" using b l
    by (simp add: header_ok_def kHeaderRootOffset_def kHeaderTypeOffset_def kHeaderVersionOffset_def kHeaderLeafMaxOffset_def
        kHeaderInternalMaxOffset_def load_store_other page_size_def)
  have r: "fst (set_root root e) = ?t" using at1 by (simp add: at_def)
  show ?thesis unfolding PersistRootPageId_def r
  proof (simp add: False, rule good_andthen[OF fetch_write_ok[OF at1 b(1)]])
    fix e1 d assume "at e1 ?t C K \<and> d = b"
    then have A: "at e1 ?t C K" "d = b" "fst e1 = ?t" by (simp_all add: at_def)
    show "goodly (if load32 d kHeaderTypeOffset = kHeaderPageType \<longrightarrow> load32 d kHeaderVersionOffset \<noteq> kHeaderFormatVersion
        then fail InternalError e1 else FinalizeWrite ops (header_page_id (fst e1)) (store32 d kHeaderRootOffset (root_page_id (fst e1))) e1)
      (\<lambda>e _. \<exists>C'. at e ?t C' K \<and> header_ok C' ?t \<and> (\<forall>p. p \<noteq> ?h \<longrightarrow> C' p = C p))"
      unfolding A(2,3) using b finalize_ok[OF A(1) K l] ok by (auto elim!: good_weaken)
  qed
qed

end

end
