(* ===== verification/BTreeSearch.thy ===== *)
theory BTreeSearch
  imports BTreeCalls
begin

text \<open>
  Searching the B+ tree. A place in a tree is given by the internal pages above it, each with the children on the two sides of the way
  down. \<open>FindLeaf\<close> reaches the first leaf that may hold the key, and the scan from there along the chain of leaves gives exactly
  the entries in the range, sorted.
\<close>

subsection \<open>Places in a tree\<close>

type_synonym level = "page_id_t \<times> (index_key_t \<times> bt) list \<times> index_key_t \<times> (index_key_t \<times> bt) list"

fun plug :: "level list \<Rightarrow> bt \<Rightarrow> bt" where
  "plug [] t = t"
| "plug ((p, ls, k, rs) # fs) t = Nd p (ls @ (k, plug fs t) # rs)"

fun left_leaves :: "level list \<Rightarrow> (page_id_t \<times> entry list) list" where
  "left_leaves [] = []"
| "left_leaves ((p, ls, k, rs) # fs) = leaves_list ls @ left_leaves fs"

fun right_leaves :: "level list \<Rightarrow> (page_id_t \<times> entry list) list" where
  "right_leaves [] = []"
| "right_leaves ((p, ls, k, rs) # fs) = right_leaves fs @ leaves_list rs"

lemma leaves_plug: "leaves (plug fs t) = left_leaves fs @ leaves t @ right_leaves fs"
  by (induction fs t rule: plug.induct) simp_all

definition guides :: "index_key_t \<Rightarrow> level \<Rightarrow> bool" where
  "guides key = (\<lambda>(p, ls, k, rs). (ls \<noteq> [] \<longrightarrow> sint k < sint key) \<and> (rs \<noteq> [] \<longrightarrow> sint key \<le> sint (fst (hd rs))))"

lemma kids_split:
  "kids_in lo hi (ls @ c # rs) \<longleftrightarrow> (ls \<noteq> [] \<longrightarrow> kids_in lo (sint (fst c)) ls \<and> lo \<le> sint (fst c) \<and> sint (fst c) \<le> hi) \<and>
     kids_in (if ls = [] then lo else sint (fst c)) hi (c # rs)"
  by (cases "ls = []") (simp_all add: kids_append)

lemma kids_child:
  "kids_in lo hi (ls @ c # rs) \<Longrightarrow> keys_in (if ls = [] then lo else sint (fst c)) (upper_of rs hi) (snd c)"
  by (simp add: kids_split)

lemma guides_bounds:
  assumes "guides key (p, ls, k, rs)" "lo \<le> sint key" "sint key \<le> hi"
  shows "(if ls = [] then lo else sint k) \<le> sint key" "sint key \<le> upper_of rs hi"
  using assms by (cases ls; cases rs; simp add: guides_def)+

text \<open>The entries of the one leaf to which the search for a key leads: at each internal page it goes to the last child whose
  separator is smaller than the key, so left of a separator that equals it.\<close>

fun search_leaf :: "index_key_t \<Rightarrow> bt \<Rightarrow> entry list" and search_kids :: "index_key_t \<Rightarrow> (index_key_t \<times> bt) list \<Rightarrow> entry list" where
  "search_leaf key (Lf p es) = es"
| "search_leaf key (Nd p cs) = search_kids key cs"
| "search_kids key [] = []"
| "search_kids key (c # cs) =
     (if cs \<noteq> [] \<and> sint (fst (hd cs)) < sint key then search_kids key cs else search_leaf key (snd c))"

definition search_entries :: "index_key_t \<Rightarrow> bt option \<Rightarrow> entry list" where
  "search_entries key t = (case t of None \<Rightarrow> [] | Some t \<Rightarrow> search_leaf key t)"

lemma search_kids_guided:
  assumes "kids_in lo hi (ls @ (k, t) # rs)" "guides key (p, ls, k, rs)"
  shows "search_kids key (ls @ (k, t) # rs) = search_leaf key t"
  using assms
proof (induction ls arbitrary: lo)
  case Nil
  then show ?case by (auto simp: guides_def)
next
  case (Cons c ls)
  have k: "sint k < sint key" using Cons.prems(2) by (simp add: guides_def)
  have K: "kids_in (upper_of (ls @ (k, t) # rs) hi) hi (ls @ (k, t) # rs)" using Cons.prems(1) by simp
  have "upper_of (ls @ (k, t) # rs) hi \<le> sint k" using K kids_split[of _ hi ls "(k, t)" rs] by (cases "ls = []") auto
  moreover have "upper_of (ls @ (k, t) # rs) hi = sint (fst (hd (ls @ (k, t) # rs)))" by (cases ls) simp_all
  ultimately show ?case using Cons.IH[OF K] Cons.prems(2) k by (simp add: guides_def)
qed

lemma search_leaf_plug:
  "keys_in lo hi (plug fs (Lf p es)) \<Longrightarrow> list_all (guides key) fs \<Longrightarrow> search_leaf key (plug fs (Lf p es)) = es"
proof (induction fs arbitrary: lo hi)
  case (Cons f fs)
  obtain q ls k rs where f: "f = (q, ls, k, rs)" by (cases f)
  have K: "kids_in lo hi (ls @ (k, plug fs (Lf p es)) # rs)" and g: "guides key (q, ls, k, rs)" using Cons.prems f by simp_all
  show ?case
    using search_kids_guided[OF K g] Cons.IH[OF kids_child[OF K, simplified]] Cons.prems(2) by (simp add: f)
qed simp

lemma left_less:
  assumes "keys_in lo hi (plug fs t)" "list_all (guides key) fs" "x \<in> set (concat (map snd (left_leaves fs)))"
  shows "sint (fst x) < sint key"
  using assms
proof (induction fs arbitrary: lo hi)
  case (Cons f fs)
  obtain p ls k rs where f: "f = (p, ls, k, rs)" by (cases f)
  have K: "kids_in lo hi (ls @ (k, plug fs t) # rs)" using Cons.prems(1) f by simp
  have "x \<in> set (ents_list ls) \<or> x \<in> set (concat (map snd (left_leaves fs)))" using Cons.prems(3) f by (auto simp: ents_list_def)
  then show ?case
  proof
    assume x: "x \<in> set (ents_list ls)"
    then have ls: "ls \<noteq> []" by auto
    then have "kids_in lo (sint k) ls" using K by (simp add: kids_split)
    from ents_in(2)[OF this] x ls Cons.prems(2) f show ?thesis by (auto simp: guides_def)
  next
    assume x: "x \<in> set (concat (map snd (left_leaves fs)))"
    show ?thesis using Cons.IH[OF kids_child[OF K, simplified] _ x] Cons.prems(2) by simp
  qed
qed simp

lemma child_index_facts:
  assumes "es \<noteq> []"
  shows "child_index es key < length es" "0 < child_index es key \<Longrightarrow> sint (fst (es ! child_index es key)) < sint key"
    "Suc (child_index es key) < length es \<Longrightarrow> sint key \<le> sint (fst (es ! Suc (child_index es key)))"
proof -
  let ?P = "\<lambda>e. sint (fst e) < sint key"
  obtain x xs where es: "es = x # xs" using assms by (cases es) simp_all
  have i: "child_index es key = length (takeWhile ?P xs)" by (simp add: child_index_def es)
  have le: "length (takeWhile ?P xs) \<le> length xs" by (rule length_takeWhile_le)
  show "child_index es key < length es" using i le es by simp
  show "Suc (child_index es key) < length es \<Longrightarrow> sint key \<le> sint (fst (es ! Suc (child_index es key)))"
    using nth_length_takeWhile[of ?P xs] i es by simp
  assume "0 < child_index es key"
  then obtain j where j: "child_index es key = Suc j" by (cases "child_index es key") simp_all
  then have "j < length (takeWhile ?P xs)" using i by simp
  then have "takeWhile ?P xs ! j \<in> set (takeWhile ?P xs)" "takeWhile ?P xs ! j = xs ! j" using takeWhile_nth by (auto intro: nth_mem)
  then have "?P (xs ! j)" using set_takeWhileD by metis
  then show "sint (fst (es ! child_index es key)) < sint key" using j by (simp add: es)
qed

subsection \<open>\<^verbatim>\<open>FindLeaf\<close>\<close>

context page_calls
begin

lemma find_loop_ok:
  assumes "at e tree C K" "rep C lm im par nx t" "C (page_of t) = Some data"
  shows "goodly (find_loop ops key tp (page_of t) data path e) (\<lambda>e r. at e tree C K \<and>
    (\<exists>fs p es. t = plug fs (Lf p es) \<and> r = (p, path @ map fst fs) \<and> list_all (guides key) fs))"
  using assms
proof (induction t arbitrary: e par nx data path)
  case (Lf p es)
  then have "leaf_Validate data = Code_Ok" using is_leaf_valid by auto
  then have "find_loop ops key tp (page_of (Lf p es)) data path e = return (p, path) e" by (simp add: find_loop.simps)
  then show ?case using Lf(1) at_facts(1)[OF Lf(1)] by (auto intro!: good_return exI[of _ "[]"])
next
  case (Nd p cs)
  have d: "is_internal data im par (child_entries cs)" "cs \<noteq> []" "reps C lm im p nx cs" using Nd(3,4) by auto
  let ?i = "child_index (child_entries cs) key"
  have ne: "child_entries cs \<noteq> []" using d(2) by (simp add: child_entries_def)
  note I = child_index_facts[OF ne, of key]
  have i: "?i < length cs" using I(1) by (simp add: child_entries_def)
  define ls c rs where lcr: "ls = take ?i cs" "c = cs ! ?i" "rs = drop (Suc ?i) cs"
  have cs: "cs = ls @ c # rs" unfolding lcr by (rule id_take_nth_drop[OF i])
  have look: "internal_Lookup data key = page_of (snd c)"
    using internal_Lookup_eq(1)[OF d(1) ne] i by (simp add: child_entries_def lcr)
  have c: "rep C lm im p (first_of rs nx) (snd c)" using d(3) by (simp add: cs reps_append)
  then obtain b where b: "C (page_of (snd c)) = Some b" by (cases "snd c") auto
  have g: "guides key (p, ls, fst c, rs)"
  proof -
    have "sint (fst c) < sint key" if "ls \<noteq> []"
      using I(2) that i by (auto simp: lcr child_entries_def)
    moreover have "sint key \<le> sint (fst (hd rs))" if "rs \<noteq> []"
    proof -
      have "Suc ?i < length cs" using that by (simp add: lcr)
      then show ?thesis using I(3) by (simp add: lcr child_entries_def hd_drop_conv_nth)
    qed
    ultimately show ?thesis by (simp add: guides_def)
  qed
  have step: "find_loop ops key tp p data path e = andthen (fetch ops tp (page_of (snd c)) e)
      (\<lambda>e child. find_loop ops key tp (page_of (snd c)) child (path @ [p]) e)"
    using is_internal_valid[OF d(1)] at_facts(5)[OF Nd(2) b] by (subst find_loop.simps) (simp add: look)
  have c_in: "c \<in> set cs" "snd c \<in> Basic_BNFs.snds c" by (simp_all add: cs snds.simps)
  have "goodly (find_loop ops key tp (page_of (snd c)) b (path @ [p]) e') (\<lambda>e r. at e tree C K \<and>
      (\<exists>fs q es. Nd p cs = plug fs (Lf q es) \<and> r = (q, path @ map fst fs) \<and> list_all (guides key) fs))" if "at e' tree C K" for e'
  proof (rule good_weaken[OF Nd(1)[OF c_in that c b]])
    fix e1 r assume "at e1 tree C K \<and> (\<exists>fs q es. snd c = plug fs (Lf q es) \<and> r = (q, (path @ [p]) @ map fst fs) \<and> list_all (guides key) fs)"
    then obtain fs q es where f: "at e1 tree C K" "snd c = plug fs (Lf q es)" "r = (q, path @ p # map fst fs)" "list_all (guides key) fs" by auto
    have "Nd p cs = plug ((p, ls, fst c, rs) # fs) (Lf q es)" unfolding cs plug.simps f(2)[symmetric] by simp
    then show "at e1 tree C K \<and> (\<exists>fs q es. Nd p cs = plug fs (Lf q es) \<and> r = (q, path @ map fst fs) \<and> list_all (guides key) fs)"
      using f g by (intro conjI exI[of _ "(p, ls, fst c, rs) # fs"]) auto
  qed
  then show ?case unfolding page_of.simps step
    by (intro good_andthen[OF fetch_ok[OF Nd(2) b]]) auto
qed

lemma FindLeaf_ok:
  assumes "at e tree C K" "holds_tree C tree (Some t)"
  shows "goodly (FindLeaf ops key tp e) (\<lambda>e r. at e tree C K \<and>
    (\<exists>fs p es. t = plug fs (Lf p es) \<and> r = (p, map fst fs) \<and> list_all (guides key) fs))"
proof -
  have t: "root_page_id tree = page_of t" "rep C (leaf_max_size tree) (internal_max_size tree) INVALID_PAGE_ID INVALID_PAGE_ID t"
    using assms(2) by simp_all
  obtain b where b: "C (page_of t) = Some b" using t(2) by (cases t) auto
  have f: "fst e = tree" and n: "\<not> IsEmpty e" using assms(1) at_facts(2,5)[OF assms(1)] b t(1) by (simp_all add: IsEmpty_def)
  have F: "FindLeaf ops key tp e = andthen (fetch ops tp (page_of t) e) (\<lambda>e data. find_loop ops key tp (root_page_id (fst e)) data [] e)"
    using n by (simp add: FindLeaf_def f t(1))
  show ?thesis unfolding F
  proof (rule good_andthen[OF fetch_ok[OF assms(1) b]])
    fix e1 d assume "at e1 tree C K \<and> d = b"
    then have "at e1 tree C K" "C (page_of t) = Some d" and r: "root_page_id (fst e1) = page_of t" using b t(1) by (simp_all add: at_def)
    from find_loop_ok[OF this(1) t(2) this(2), of key tp "[]"]
    show "goodly (find_loop ops key tp (root_page_id (fst e1)) d [] e1) (\<lambda>e r. at e tree C K \<and>
      (\<exists>fs p es. t = plug fs (Lf p es) \<and> r = (p, map fst fs) \<and> list_all (guides key) fs))"
      unfolding r by (rule good_weaken) auto
  qed
qed

end

subsection \<open>Scanning\<close>

definition in_range :: "index_key_t \<Rightarrow> index_key_t \<Rightarrow> entry \<Rightarrow> bool" where
  "in_range lower upper x \<longleftrightarrow> sint lower \<le> sint (fst x) \<and> sint (fst x) \<le> sint upper"

lemma scan_entries_eq:
  "sorted_wrt key_le es \<Longrightarrow> sint lower \<le> sint upper \<Longrightarrow> scan_entries lower upper es acc = (acc @ filter (in_range lower upper) es, \<exists>e \<in> set es. sint upper < sint (fst e))"
proof (induction lower upper es acc rule: scan_entries.induct)
  case (2 lower upper x xs acc)
  show ?case
  proof (cases "sint (fst x) > sint upper")
    case True
    then have "filter (in_range lower upper) xs = []" using 2(3) by (auto simp: in_range_def filter_empty_conv)
    moreover have "\<not> in_range lower upper x" using True by (simp add: in_range_def)
    ultimately show ?thesis using True 2(4) by simp
  next
    case False
    have "in_range lower upper x \<longleftrightarrow> \<not> sint (fst x) < sint lower" using False by (auto simp: in_range_def)
    then show ?thesis using 2 False by simp
  qed
qed simp

lemma insort_entry_facts: "mset (insort_entry x xs) = add_mset x (mset xs)"
    "sorted_wrt entry_le xs \<Longrightarrow> sorted_wrt entry_le (insort_entry x xs)"
proof -
  show m: "mset (insort_entry x xs) = add_mset x (mset xs)" for xs by (induction xs) auto
  show "sorted_wrt entry_le xs \<Longrightarrow> sorted_wrt entry_le (insort_entry x xs)"
  proof (induction xs)
    case (Cons y ys)
    have s: "set (insort_entry x ys) = insert x (set ys)" using m by (metis set_mset_add_mset_insert set_mset_mset)
    show ?case using Cons s entry_le_trans[of x y] entry_le_total[of x y] by (auto simp: EntryLess_iff)
  qed simp
qed

lemma sort_entries_facts: "mset (sort_entries xs) = mset xs" "sorted_wrt entry_le (sort_entries xs)"
  by (induction xs) (simp_all add: sort_entries_def insort_entry_facts)

text \<open>The order is total and antisymmetric, so the sorted list with given elements is unique.\<close>

lemma sorted_unique:
  "sorted_wrt entry_le xs \<Longrightarrow> sorted_wrt entry_le ys \<Longrightarrow> mset xs = mset ys \<Longrightarrow> xs = ys"
proof (induction xs arbitrary: ys)
  case (Cons x xs)
  obtain y ys' where ys: "ys = y # ys'" using Cons.prems(3) by (cases ys) auto
  have "x = y"
  proof (rule ccontr)
    assume n: "x \<noteq> y"
    have "set (x # xs) = set ys" using Cons.prems(3) by (rule mset_eq_setD)
    then have "y \<in> set xs" "x \<in> set ys'" using ys n by auto
    then show False using Cons.prems(1,2) ys n entry_le_antisym by simp
  qed
  then show ?case using Cons ys by simp
qed simp

lemma sort_entries_cong: "mset xs = mset ys \<Longrightarrow> sort_entries xs = sort_entries ys"
  by (rule sorted_unique) (simp_all add: sort_entries_facts)

context page_calls
begin

lemma scan_leaves_ok:
  assumes "at e tree C K" "chain C lm INVALID_PAGE_ID ((p, es) # ls)" "C p = Some data" "sint lower \<le> sint upper"
    "sorted_wrt key_le (concat (map snd ((p, es) # ls)))"
  shows "goodly (scan_leaves ops lower upper tp data acc e)
    (\<lambda>e r. at e tree C K \<and> r = sort_entries (acc @ filter (in_range lower upper) (concat (map snd ((p, es) # ls)))))"
  using assms
proof (induction ls arbitrary: e p es data acc)
  case Nil
  then obtain par where d: "is_leaf data lm par INVALID_PAGE_ID es" by auto
  have s: "sorted_wrt key_le es" using Nil(5) by simp
  show ?case using at_facts(1)[OF Nil(1)] Nil(1)
    by (subst scan_leaves.simps) (auto simp: is_leaf_valid[OF d] leaf_get[OF d] scan_entries_eq[OF s Nil(4)] intro!: good_return)
next
  case (Cons l ls)
  obtain q es' where l: "l = (q, es')" by (cases l)
  obtain par where d: "is_leaf data lm par q es" using Cons.prems(2,3) l by auto
  have ch: "chain C lm INVALID_PAGE_ID ((q, es') # ls)" using Cons.prems(2) l by simp
  then obtain b where b: "C q = Some b" by auto
  have s: "sorted_wrt key_le es" "sorted_wrt key_le (concat (map snd ((q, es') # ls)))" using Cons.prems(5) l by (simp_all add: sorted_wrt_append)
  have q: "q \<noteq> INVALID_PAGE_ID" using at_facts(5)[OF Cons.prems(1) b] .
  have k: "filter (in_range lower upper) (concat (map snd ((q, es') # ls))) = []" if "\<exists>x \<in> set es. sint upper < sint (fst x)"
  proof -
    from that obtain x where x: "x \<in> set es" "sint upper < sint (fst x)" by blast
    then have "\<forall>y \<in> set (concat (map snd ((q, es') # ls))). key_le x y" using Cons.prems(5) l by (simp add: sorted_wrt_append)
    then show ?thesis unfolding filter_empty_conv in_range_def using x(2) by fastforce
  qed
  show ?case
  proof (cases "\<exists>x \<in> set es. sint upper < sint (fst x)")
    case True
    then show ?thesis using at_facts(1)[OF Cons.prems(1)] Cons.prems(1) k[OF True]
      by (subst scan_leaves.simps) (auto simp: is_leaf_valid[OF d] leaf_get[OF d] scan_entries_eq[OF s(1) Cons.prems(4)] l intro!: good_return)
  next
    case False
    have e: "scan_leaves ops lower upper tp data acc e = andthen (fetch ops tp q e)
       (\<lambda>e d. scan_leaves ops lower upper tp d (acc @ filter (in_range lower upper) es) e)"
      using False q by (subst scan_leaves.simps) (simp add: is_leaf_valid[OF d] leaf_get[OF d] scan_entries_eq[OF s(1) Cons.prems(4)])
    show ?thesis unfolding e
    proof (rule good_andthen[OF fetch_ok[OF Cons.prems(1) b]])
      fix e1 d assume "at e1 tree C K \<and> d = b"
      then have "at e1 tree C K" "C q = Some d" using b by simp_all
      from Cons.IH[OF this(1) ch this(2) Cons.prems(4) s(2), of "acc @ filter (in_range lower upper) es"]
      show "goodly (scan_leaves ops lower upper tp d (acc @ filter (in_range lower upper) es) e1) (\<lambda>e r. at e tree C K \<and>
          r = sort_entries (acc @ filter (in_range lower upper) (concat (map snd ((p, es) # l # ls)))))" by (simp add: l)
    qed
  qed
qed

lemma RangeScan_ok:
  assumes e: "at e tree C K" and t: "tree_ok C tree S" and r: "sint lower \<le> sint upper"
  shows "goodly (RangeScan ops lower upper tp e)
    (\<lambda>e xs. at e tree C K \<and> sorted_wrt entry_le xs \<and> mset xs = filter_mset (in_range lower upper) S)"
proof -
  obtain t where t: "holds_tree C tree t" "S = (case t of None \<Rightarrow> {#} | Some t \<Rightarrow> mset (ents t))" using t by (auto simp: tree_ok_def)
  have f: "fst e = tree" using e by (simp add: at_def)
  show ?thesis
  proof (cases t)
    case None
    then have "RangeScan ops lower upper tp e = return [] e" using t r f by (simp add: RangeScan_def IsEmpty_def)
    then show ?thesis using e None t at_facts(1)[OF e] by (simp add: good_return)
  next
    case (Some u)
    have H: "holds_tree C tree (Some u)" using t(1) Some by simp
    then have u: "root_page_id tree = page_of u" "keys_in (- (2 ^ 63)) (2 ^ 63 - 1) u"
      "rep C (leaf_max_size tree) (internal_max_size tree) INVALID_PAGE_ID INVALID_PAGE_ID u" by simp_all
    obtain b where b: "C (page_of u) = Some b" using u(3) by (cases u) auto
    have ne: "\<not> IsEmpty e" using u(1) f at_facts(5)[OF e b] by (simp add: IsEmpty_def)
    have R: "RangeScan ops lower upper tp e = andthen (FindLeaf ops lower tp e) (\<lambda>e (leaf, _).
        andthen (fetch ops tp leaf e) (\<lambda>e data. scan_leaves ops lower upper tp data [] e))"
      using r ne by (simp add: RangeScan_def)
    show ?thesis unfolding R
    proof (rule good_andthen[OF FindLeaf_ok[OF e H]])
      fix e1 res assume "at e1 tree C K \<and> (\<exists>fs p es. u = plug fs (Lf p es) \<and> res = (p, map fst fs) \<and> list_all (guides lower) fs)"
      then obtain fs p es where a: "at e1 tree C K" "u = plug fs (Lf p es)" "list_all (guides lower) fs" and res: "res = (p, map fst fs)" by auto
      let ?L = "concat (map snd (left_leaves fs))" and ?R = "concat (map snd ((p, es) # right_leaves fs))"
      have lv: "leaves u = left_leaves fs @ (p, es) # right_leaves fs" unfolding a(2) leaves_plug by simp
      have ch: "chain C (leaf_max_size tree) INVALID_PAGE_ID ((p, es) # right_leaves fs)"
        using rep_chain(1)[OF u(3)] unfolding lv chain_append by blast
      have en: "ents u = ?L @ ?R" unfolding ents_def lv by simp
      have so: "sorted_wrt key_le ?R" using ents_sorted(1)[OF u(3,2)] unfolding en sorted_wrt_append by blast
      have "\<forall>x \<in> set ?L. \<not> in_range lower upper x"
        using left_less[of "- (2 ^ 63)" "2 ^ 63 - 1" fs "Lf p es" lower] u(2) a(2,3) by (fastforce simp: in_range_def)
      then have fl: "filter (in_range lower upper) (ents u) = filter (in_range lower upper) ?R" unfolding en by (simp add: filter_empty_conv)
      from arg_cong[OF fl, of mset] have fm: "filter_mset (in_range lower upper) (mset (ents u)) = filter_mset (in_range lower upper) (mset ?R)"
        by (simp only: mset_filter)
      obtain b where b: "C p = Some b" using ch by auto
      show "goodly (case res of (leaf, _) \<Rightarrow> andthen (fetch ops tp leaf e1) (\<lambda>e data. scan_leaves ops lower upper tp data [] e))
        (\<lambda>e xs. at e tree C K \<and> sorted_wrt entry_le xs \<and> mset xs = filter_mset (in_range lower upper) S)"
        unfolding res prod.case
      proof (rule good_andthen[OF fetch_ok[OF a(1) b]])
        fix e2 d assume "at e2 tree C K \<and> d = b"
        then have "at e2 tree C K" "C p = Some d" using b by simp_all
        from scan_leaves_ok[OF this(1) ch this(2) r so, of tp "[]"]
        show "goodly (scan_leaves ops lower upper tp d [] e2)
          (\<lambda>e xs. at e tree C K \<and> sorted_wrt entry_le xs \<and> mset xs = filter_mset (in_range lower upper) S)"
          by (rule good_weaken) (simp add: sort_entries_facts t(2) Some fm del: concat.simps list.map)
      qed
    qed
  qed
qed

end

subsection \<open>Creating and opening\<close>

lemma header_page_reads:
  "length (header_page root lm im) = page_size" "load32 (header_page root lm im) kHeaderTypeOffset = kHeaderPageType"
  "load32 (header_page root lm im) kHeaderVersionOffset = kHeaderFormatVersion" "load32 (header_page root lm im) kHeaderRootOffset = root"
  "load32 (header_page root lm im) kHeaderLeafMaxOffset = lm" "load32 (header_page root lm im) kHeaderInternalMaxOffset = im"
  by (simp_all add: header_page_def Let_def load_store_other page_size_def kHeaderTypeOffset_def kHeaderVersionOffset_def kHeaderRootOffset_def
      kHeaderLeafMaxOffset_def kHeaderInternalMaxOffset_def)

context page_calls
begin

lemma OpenPersistent_ok:
  assumes e: "at (tree, s) tree C K" and t: "tree_ok C tree S" and h: "header_page_id tree \<noteq> INVALID_PAGE_ID"
  shows "goodly (OpenPersistent ops (header_page_id tree) tp s) (\<lambda>e _. at e (tree\<lparr>tree_transaction := tp\<rparr>) C K)"
proof -
  obtain b where b: "C (header_page_id tree) = Some b" "load32 b kHeaderTypeOffset = kHeaderPageType"
    "load32 b kHeaderVersionOffset = kHeaderFormatVersion" "load32 b kHeaderRootOffset = root_page_id tree"
    "load32 b kHeaderLeafMaxOffset = leaf_max_size tree" "load32 b kHeaderInternalMaxOffset = internal_max_size tree"
    using t h unfolding tree_ok_def header_ok_def by blast
  have cap: "capacities_ok (leaf_max_size tree) (internal_max_size tree)" using t by (simp add: tree_ok_def)
  let ?t = "make_BPlusTree INVALID_PAGE_ID 0 0 tp"
  have e': "at (?t, s) ?t C K" using e by (simp add: at_def)
  have tr: "(make_BPlusTree (root_page_id tree) (leaf_max_size tree) (internal_max_size tree) tp)\<lparr>header_page_id := header_page_id tree\<rparr> =
      tree\<lparr>tree_transaction := tp\<rparr>" by (simp add: make_BPlusTree_def)
  show ?thesis unfolding OpenPersistent_def Let_def if_not_P[OF h]
  proof (rule good_andthen[OF fetch_ok[OF e' b(1)]])
    fix e1 d assume ok: "ok (snd e1)" and a: "at e1 ?t C K \<and> d = b"
    have "at (tree\<lparr>tree_transaction := tp\<rparr>, snd e1) (tree\<lparr>tree_transaction := tp\<rparr>) C K" using a by (simp add: at_def)
    then show "goodly (if load32 d kHeaderTypeOffset \<noteq> kHeaderPageType \<or> load32 d kHeaderVersionOffset \<noteq> kHeaderFormatVersion
        then fail InternalError e1
        else if \<not> capacities_ok (load32 d kHeaderLeafMaxOffset) (load32 d kHeaderInternalMaxOffset) then fail InternalError e1
        else return () ((make_BPlusTree (load32 d kHeaderRootOffset) (load32 d kHeaderLeafMaxOffset) (load32 d kHeaderInternalMaxOffset) tp)
          \<lparr>header_page_id := header_page_id tree\<rparr>, snd e1))
      (\<lambda>e _. at e (tree\<lparr>tree_transaction := tp\<rparr>) C K)"
      unfolding conjunct2[OF a] b(4-6) tr using b(2,3) cap ok by (simp add: good_return)
  qed
qed

lemma CreatePersistent_ok:
  assumes e: "at (tree, s) tree C K" and cap: "capacities_ok lm im"
  shows "goodly (CreatePersistent ops lm im tp s) (\<lambda>e _. \<exists>C' p. at e ((make_BPlusTree INVALID_PAGE_ID lm im tp)\<lparr>header_page_id := p\<rparr>) C' (insert p K) \<and>
    p \<notin> K \<and> tree_ok C' ((make_BPlusTree INVALID_PAGE_ID lm im tp)\<lparr>header_page_id := p\<rparr>) {#} \<and> (\<forall>q. q \<noteq> p \<longrightarrow> C' q = C q))"
    (is "goodly _ ?Q")
proof -
  let ?t = "make_BPlusTree INVALID_PAGE_ID lm im tp" and ?b = "header_page INVALID_PAGE_ID lm im"
  have e': "at (?t, s) ?t C K" using e by (simp add: at_def)
  have c: "\<not> \<not> capacities_ok lm im" using cap by simp
  note b = header_page_reads[of INVALID_PAGE_ID lm im]
  show ?thesis unfolding CreatePersistent_def Let_def if_not_P[OF c]
  proof (rule good_andthen[OF new_ok[OF e']])
    fix e1 p assume "at e1 ?t C (insert p K) \<and> p \<notin> K"
    then have e1: "at e1 ?t C (insert p K)" and p: "p \<notin> K" by simp_all
    show "goodly (andthen (FinalizeWrite ops p ?b e1) (\<lambda>e _. return () (fst e\<lparr>header_page_id := p\<rparr>, snd e))) ?Q"
    proof (rule good_andthen[OF finalize_ok[OF e1 _ b(1)]])
      fix e2 u assume ok: "ok (snd e2)" and e2: "at e2 ?t (C(p \<mapsto> ?b)) (insert p K)"
      have "at (fst e2\<lparr>header_page_id := p\<rparr>, snd e2) (?t\<lparr>header_page_id := p\<rparr>) (C(p \<mapsto> ?b)) (insert p K)" using e2 by (simp add: at_def)
      moreover have "tree_ok (C(p \<mapsto> ?b)) (?t\<lparr>header_page_id := p\<rparr>) {#}" unfolding tree_ok_def
        using b cap by (intro conjI exI[of _ None]) (simp_all add: make_BPlusTree_def header_ok_def)
      moreover have "\<forall>q. q \<noteq> p \<longrightarrow> (C(p \<mapsto> ?b)) q = C q" by simp
      ultimately show "goodly (return () (fst e2\<lparr>header_page_id := p\<rparr>, snd e2)) ?Q" using p ok
        by (intro good_return exI[of _ "C(p \<mapsto> ?b)"] exI[of _ p] conjI) simp_all
    qed simp
  qed
qed

end

end
