(* ===== verification/BTreeInsert.thy ===== *)
theory BTreeInsert
  imports BTreeSearch
begin

text \<open>
  Inserting into the B+ tree: the leaf step, the step of one internal page, and their composition along the path. Each
  gives back a tree, or two trees and a separator, that keep all invariants and have one more entry.
\<close>

subsection \<open>A sorted list of entries\<close>

lemma lower_bound_split:
  assumes "sorted_wrt entry_le es"
  shows "\<forall>y \<in> set (take (lower_bound EntryLess es x) es). EntryLess y x" "\<forall>y \<in> set (drop (lower_bound EntryLess es x) es). entry_le x y"
proof -
  let ?P = "\<lambda>y. EntryLess y x"
  have t: "take (lower_bound EntryLess es x) es = takeWhile ?P es" "drop (lower_bound EntryLess es x) es = dropWhile ?P es"
    by (simp_all add: lower_bound_def takeWhile_eq_take[symmetric] dropWhile_eq_drop[symmetric])
  show "\<forall>y \<in> set (take (lower_bound EntryLess es x) es). ?P y" unfolding t using set_takeWhileD by fastforce
  show "\<forall>y \<in> set (drop (lower_bound EntryLess es x) es). entry_le x y" unfolding t
  proof (cases "dropWhile ?P es")
    case (Cons z zs)
    have "entry_le x z" using hd_dropWhile[of ?P es] Cons by (simp add: entry_le_def)
    moreover have "sorted_wrt entry_le (z # zs)"
      using assms Cons takeWhile_dropWhile_id[of ?P es] sorted_wrt_append[of entry_le "takeWhile ?P es" "dropWhile ?P es"] by simp
    ultimately show "\<forall>y \<in> set (dropWhile ?P es). entry_le x y" using Cons entry_le_trans[of x z] by auto
  next
    case Nil
    show "\<forall>y \<in> set (dropWhile ?P es). entry_le x y" unfolding Nil by simp
  qed
qed

lemma insert_entry:
  assumes "sorted_wrt entry_le es" "pos = lower_bound EntryLess es x"
  shows "pos < length es \<and> es ! pos = x \<longleftrightarrow> x \<in> set es" "mset (insert_at pos x es) = add_mset x (mset es)"
    "sorted_wrt entry_le (insert_at pos x es)" "length (insert_at pos x es) = Suc (length es)"
proof -
  note L = lower_bound_split[OF assms(1), of x, folded assms(2)]
  have le: "pos \<le> length es" unfolding assms(2) lower_bound_def by (rule length_takeWhile_le)
  show "mset (insert_at pos x es) = add_mset x (mset es)" "length (insert_at pos x es) = Suc (length es)"
    using arg_cong[OF append_take_drop_id[of pos es], of mset] le unfolding mset_append by (simp_all add: insert_at_def)
  have s: "sorted_wrt entry_le (take pos es @ drop pos es)" using assms(1) by simp
  have "entry_le y x" if "y \<in> set (take pos es)" for y using L(1) that entry_le_total[of y x] by (auto simp: EntryLess_iff)
  then show "sorted_wrt entry_le (insert_at pos x es)" using s L(2) unfolding insert_at_def sorted_wrt_append by auto
  show "pos < length es \<and> es ! pos = x \<longleftrightarrow> x \<in> set es"
  proof
    assume "x \<in> set es"
    moreover have "x \<notin> set (take pos es)" using L(1) by (auto simp: EntryLess_iff)
    ultimately have d: "x \<in> set (drop pos es)" using set_append[of "take pos es" "drop pos es"] by auto
    then have n: "pos < length es" using not_less by fastforce
    then have "drop pos es = es ! pos # drop (Suc pos) es" by (simp add: Cons_nth_drop_Suc)
    then have "es ! pos = x \<or> entry_le (es ! pos) x" using s d by (auto simp: sorted_wrt_append)
    moreover have "entry_le x (es ! pos)" using L(2) \<open>drop pos es = _\<close> by simp
    ultimately show "pos < length es \<and> es ! pos = x" using n entry_le_antisym[of "es ! pos" x] by blast
  qed auto
qed

lemma half_split:
  assumes "2 \<le> unat mx" "unat mx \<le> 254" "n = Suc (unat mx)"
  shows "half mx \<le> n div 2" "half mx \<le> n - n div 2" "0 < n div 2" "n div 2 < n" "n div 2 \<le> unat mx" "n - n div 2 \<le> unat mx"
  using assms half_le[of mx] by auto

subsection \<open>The leaf\<close>

context page_calls
begin

definition stays :: "(page_id_t \<rightharpoonup> byte list) \<Rightarrow> page_id_t set \<Rightarrow> page_id_t set \<Rightarrow> (page_id_t \<rightharpoonup> byte list) \<Rightarrow> page_id_t set \<Rightarrow> bool" where
  "stays C K P C' K' \<longleftrightarrow> K \<subseteq> K' \<and> (\<forall>p \<in> K. p \<notin> P \<longrightarrow> C' p = C p)"

lemma InsertIntoLeaf_ok:
  assumes e: "at e tree C K" and d: "C p = Some d" "is_leaf d mx par nx es" and new: "(key, rid) \<notin> set es"
    and es': "es' = insert_at (lower_bound EntryLess es (key, rid)) (key, rid) es"
  shows "goodly (InsertIntoLeaf ops p key rid e) (\<lambda>e split.
    if right_page_id split = INVALID_PAGE_ID then \<exists>b. at e tree (C(p \<mapsto> b)) K \<and> is_leaf b mx par nx es'
    else \<exists>b b' left right. right_page_id split \<notin> K \<and> at e tree (C(p \<mapsto> b, right_page_id split \<mapsto> b')) (insert (right_page_id split) K) \<and>
      es' = left @ right \<and> half mx \<le> length left \<and> half mx \<le> length right \<and> right \<noteq> [] \<and> separator split = fst (hd right) \<and>
      is_leaf b mx par (right_page_id split) left \<and> is_leaf b' mx par nx right)"
    (is "goodly _ ?Q")
proof -
  note G = leaf_get[OF d(2)]
  let ?pos = "lower_bound EntryLess es (key, rid)"
  note I = insert_entry[OF G(7) refl, of "(key, rid)"]
  have nf: "\<not> (?pos < length es \<and> es ! ?pos = (key, rid))" using I(1) new by simp
  have pK: "p \<in> K" using at_facts(3)[OF e] d(1) by auto
  show ?thesis unfolding InsertIntoLeaf_def
  proof (rule good_andthen[OF fetch_write_ok[OF e d(1)]])
    fix e1 old assume "at e1 tree C K \<and> old = d"
    then have e1: "at e1 tree C K" and old: "old = d" by simp_all
    show "goodly (if leaf_Validate old \<noteq> Code_Ok then fail (leaf_Validate old) e1
       else let entries = leaf_Entries old; pos = lower_bound EntryLess entries (key, rid) in
          if pos < length entries \<and> entries ! pos = (key, rid) then fail AlreadyExists e1
          else if length entries < unat (leaf_GetMaxSize old) then
            andthen (lift_result (leaf_Insert key rid old) e1) (\<lambda>e new.
            andthen (FinalizeWrite ops p new e) (\<lambda>e _. return \<lparr>separator = 0, right_page_id = INVALID_PAGE_ID\<rparr> e))
          else let entries = insert_at pos (key, rid) entries; split_at = length entries div 2;
                 left = take split_at entries; right = drop split_at entries in
             andthen (new_page ops e1) (\<lambda>e new_id.
             andthen (lift_result (leaf_Initialize (leaf_GetMaxSize old) (leaf_GetParentPageId old) (leaf_GetNextPageId old)) e) (\<lambda>e new.
             andthen (lift_result (leaf_Assign left old) e) (\<lambda>e old.
             andthen (lift_result (leaf_Assign right new) e) (\<lambda>e new.
             andthen (FinalizeWrites ops p (leaf_SetNextPageId new_id old) new_id new e) (\<lambda>e _.
             return \<lparr>separator = fst (hd right), right_page_id = new_id\<rparr> e)))))) ?Q"
    proof (cases "length es < unat mx")
      case True
      have "length es' \<le> unat mx" using I(4) True es' by simp
      then obtain d' where d': "leaf_Assign es' d = Inr d'" "is_leaf d' mx par nx es'" using leaf_Assign_ok[OF d(2), of es'] I(3) es' by auto
      have li: "leaf_Insert key rid d = Inr d'" using nf True d'(1) by (simp add: leaf_Insert_def G(1,4) Let_def es')
      show ?thesis unfolding old Let_def G(1,4) li if_not_P[OF nf] andthen_lift using True is_leaf_valid[OF d(2)] d'(2)
        by (auto intro!: good_andthen[OF finalize_ok[OF e1 pK leaf_get(6)[OF d'(2)]]] good_return)
    next
      case False
      then have n: "length es' = Suc (unat mx)" using G(8) I(4) es' by simp
      let ?m = "length es' div 2"
      note H = half_split[OF G(9,10) n]
      have so: "sorted_wrt entry_le (take ?m es')" "sorted_wrt entry_le (drop ?m es')" using I(3) es' by (simp_all add: sorted_wrt_take sorted_wrt_drop)
      obtain d0 where d0: "leaf_Initialize mx par nx = Inr d0" "is_leaf d0 mx par nx []" using leaf_Initialize_ok[OF G(9,10)] by blast
      obtain d1 where d1: "leaf_Assign (take ?m es') d = Inr d1" "is_leaf d1 mx par nx (take ?m es')"
        using leaf_Assign_ok[OF d(2) so(1)] H(5) by auto
      obtain d2 where d2: "leaf_Assign (drop ?m es') d0 = Inr d2" "is_leaf d2 mx par nx (drop ?m es')"
        using leaf_Assign_ok[OF d0(2) so(2)] H(6) n by auto
      have nv: "\<not> leaf_Validate d \<noteq> Code_Ok" using is_leaf_valid[OF d(2)] by simp
      show ?thesis unfolding old Let_def G(1-4) if_not_P[OF nf] if_not_P[OF nv] if_not_P[OF False] es'[symmetric] d0 d1 d2 andthen_lift
      proof (rule good_andthen[OF new_ok[OF e1]])
        fix e2 q assume "at e2 tree C (insert q K) \<and> q \<notin> K"
        then have e2: "at e2 tree C (insert q K)" and q: "q \<notin> K" by simp_all
        have qv: "q \<noteq> INVALID_PAGE_ID" using at_facts(4)[OF e2] by auto
        note s1 = leaf_set_ok(2)[OF d1(2), of q]
        show "goodly (andthen (FinalizeWrites ops p (leaf_SetNextPageId q d1) q d2 e2)
             (\<lambda>e _. return \<lparr>separator = fst (hd (drop ?m es')), right_page_id = q\<rparr> e)) ?Q"
        proof (rule good_andthen[OF finalizes_ok[OF e2 _ leaf_get(6)[OF s1] _ leaf_get(6)[OF d2(2)]]])
          fix e3 u assume e3: "at e3 tree (C(p \<mapsto> leaf_SetNextPageId q d1, q \<mapsto> d2)) (insert q K)"
          have L: "half mx \<le> length (take ?m es')" "half mx \<le> length (drop ?m es')" "drop ?m es' \<noteq> []" using H n by auto
          show "goodly (return \<lparr>separator = fst (hd (drop ?m es')), right_page_id = q\<rparr> e3) ?Q"
            using at_facts(1)[OF e3]
          proof (rule good_return, simp only: SplitResult.simps qv if_False)
            show "\<exists>b b' left right. q \<notin> K \<and> at e3 tree (C(p \<mapsto> b, q \<mapsto> b')) (insert q K) \<and> es' = left @ right \<and>
              half mx \<le> length left \<and> half mx \<le> length right \<and> right \<noteq> [] \<and> fst (hd (drop ?m es')) = fst (hd right) \<and>
              is_leaf b mx par q left \<and> is_leaf b' mx par nx right"
              using q e3 L s1 d2(2)
              by (intro exI[of _ "leaf_SetNextPageId q d1"] exI[of _ d2] exI[of _ "take ?m es'"] exI[of _ "drop ?m es'"]) simp
          qed
        qed (use pK in auto)
      qed
    qed
  qed
qed

end

subsection \<open>Parent pointers\<close>

lemma pages_rep_cong:
  "rep C lm im par nx t \<Longrightarrow> (\<And>p. p \<in> set (pages t) \<Longrightarrow> C' p = C p) \<Longrightarrow> rep C' lm im par nx t"
  "reps C lm im par nx cs \<Longrightarrow> (\<And>p. p \<in> set (pages_list cs) \<Longrightarrow> C' p = C p) \<Longrightarrow> reps C' lm im par nx cs"
  using rep_cong by metis+

context page_calls
begin

lemma SetParent_ok:
  assumes e: "at e tree C K" and t: "rep C lm im par nx t" "distinct (pages t)"
  shows "goodly (SetParent ops (page_of t) par' e)
    (\<lambda>e _. \<exists>b. at e tree (C(page_of t \<mapsto> b)) K \<and> rep (C(page_of t \<mapsto> b)) lm im par' nx t)"
proof (cases t)
  case (Lf p es)
  obtain d where d: "C p = Some d" "is_leaf d lm par nx es" using t Lf by auto
  note s = leaf_set_ok(1)[OF d(2), of par']
  show ?thesis unfolding SetParent_def Lf page_of.simps
  proof (rule good_andthen[OF fetch_write_ok[OF e d(1)]])
    fix e1 data assume "at e1 tree C K \<and> data = d"
    then have e1: "at e1 tree C K" and data: "data = d" by simp_all
    have "p \<in> K" using at_facts(3)[OF e] d(1) by auto
    from finalize_ok[OF e1 this leaf_get(6)[OF s]] s
    show "goodly (if leaf_Validate data = Code_Ok then FinalizeWrite ops p (leaf_SetParentPageId par' data) e1
       else if internal_Validate data \<noteq> Code_Ok then fail (internal_Validate data) e1
       else FinalizeWrite ops p (internal_SetParentPageId par' data) e1)
      (\<lambda>e _. \<exists>b. at e tree (C(p \<mapsto> b)) K \<and> rep (C(p \<mapsto> b)) lm im par' nx (Lf p es))"
      unfolding data if_P[OF is_leaf_valid[OF d(2)]] by (auto elim!: good_weaken)
  qed
next
  case (Nd p cs)
  obtain d where d: "C p = Some d" "is_internal d im par (child_entries cs)" "cs \<noteq> []" "reps C lm im p nx cs" using t Nd by auto
  note s = internal_set_ok[OF d(2), of par']
  have np: "p \<notin> set (pages_list cs)" using t(2) Nd by simp
  have nl: "leaf_Validate d \<noteq> Code_Ok" "\<not> internal_Validate d \<noteq> Code_Ok" using is_internal_valid[OF d(2)] by simp_all
  show ?thesis unfolding SetParent_def Nd page_of.simps
  proof (rule good_andthen[OF fetch_write_ok[OF e d(1)]])
    fix e1 data assume "at e1 tree C K \<and> data = d"
    then have e1: "at e1 tree C K" and data: "data = d" by simp_all
    have "p \<in> K" using at_facts(3)[OF e] d(1) by auto
    note F = finalize_ok[OF e1 this internal_get(5)[OF s]]
    have "reps (C(p \<mapsto> internal_SetParentPageId par' d)) lm im p nx cs" by (rule pages_rep_cong(2)[OF d(4)]) (use np in auto)
    then have "rep (C(p \<mapsto> internal_SetParentPageId par' d)) lm im par' nx (Nd p cs)" using s d(3) by simp
    then show "goodly (if leaf_Validate data = Code_Ok then FinalizeWrite ops p (leaf_SetParentPageId par' data) e1
       else if internal_Validate data \<noteq> Code_Ok then fail (internal_Validate data) e1
       else FinalizeWrite ops p (internal_SetParentPageId par' data) e1)
      (\<lambda>e _. \<exists>b. at e tree (C(p \<mapsto> b)) K \<and> rep (C(p \<mapsto> b)) lm im par' nx (Nd p cs))"
      unfolding data if_not_P[OF nl(1)] if_not_P[OF nl(2)] using F by (blast intro: good_weaken)
  qed
qed

lemma set_parents_ok:
  assumes "at e tree C K" "reps C lm im par nx cs" "distinct (pages_list cs)"
  shows "goodly (set_parents ops (map (\<lambda>c. page_of (snd c)) cs) par' e)
    (\<lambda>e _. \<exists>C'. at e tree C' K \<and> reps C' lm im par' nx cs \<and> (\<forall>p. p \<notin> set (pages_list cs) \<longrightarrow> C' p = C p))"
  using assms
proof (induction cs arbitrary: e C)
  case Nil
  then show ?case using at_facts(1)[OF Nil(1)] by (auto intro!: good_return)
next
  case (Cons c cs)
  have c: "rep C lm im par (first_of cs nx) (snd c)" "distinct (pages (snd c))" "reps C lm im par nx cs" "distinct (pages_list cs)"
    "set (pages (snd c)) \<inter> set (pages_list cs) = {}" using Cons.prems by auto
  show ?case unfolding list.map set_parents.simps
  proof (rule good_andthen[OF SetParent_ok[OF Cons.prems(1) c(1,2)]])
    fix e1 u assume "\<exists>b. at e1 tree (C(page_of (snd c) \<mapsto> b)) K \<and> rep (C(page_of (snd c) \<mapsto> b)) lm im par' (first_of cs nx) (snd c)"
    then obtain b where b: "at e1 tree (C(page_of (snd c) \<mapsto> b)) K" "rep (C(page_of (snd c) \<mapsto> b)) lm im par' (first_of cs nx) (snd c)" by blast
    let ?C = "C(page_of (snd c) \<mapsto> b)"
    have np: "page_of (snd c) \<notin> set (pages_list cs)" using c(5) page_of_pages[of "snd c"] by blast
    have "reps ?C lm im par nx cs" by (rule pages_rep_cong(2)[OF c(3)]) (use np in auto)
    show "goodly (set_parents ops (map (\<lambda>c. page_of (snd c)) cs) par' e1)
      (\<lambda>e _. \<exists>C'. at e tree C' K \<and> reps C' lm im par' nx (c # cs) \<and> (\<forall>p. p \<notin> set (pages_list (c # cs)) \<longrightarrow> C' p = C p))"
    proof (rule good_weaken[OF Cons.IH[OF b(1) \<open>reps ?C lm im par nx cs\<close> c(4)]])
      fix e2 v assume "\<exists>C'. at e2 tree C' K \<and> reps C' lm im par' nx cs \<and> (\<forall>p. p \<notin> set (pages_list cs) \<longrightarrow> C' p = ?C p)"
      then obtain C' where C': "at e2 tree C' K" "reps C' lm im par' nx cs" "\<And>p. p \<notin> set (pages_list cs) \<Longrightarrow> C' p = ?C p" by blast
      have "rep C' lm im par' (first_of cs nx) (snd c)" using pages_rep_cong(1)[OF b(2), of C'] C'(3) c(5) by blast
      moreover have "C' p = C p" if "p \<notin> set (pages_list (c # cs))" for p
        using C'(3)[of p] that page_of_pages[of "snd c"] by (auto split: if_splits)
      ultimately show "\<exists>C'. at e2 tree C' K \<and> reps C' lm im par' nx (c # cs) \<and> (\<forall>p. p \<notin> set (pages_list (c # cs)) \<longrightarrow> C' p = C p)"
        using C'(1,2) by auto
    qed
  qed
qed

end

subsection \<open>One internal page\<close>

lemma child_entries_simps [simp]:
  "child_entries [] = []" "child_entries (c # cs) = (fst c, page_of (snd c)) # child_entries cs"
  "child_entries (xs @ ys) = child_entries xs @ child_entries ys" "length (child_entries cs) = length cs"
  "child_entries (take n cs) = take n (child_entries cs)" "child_entries (drop n cs) = drop n (child_entries cs)"
  "child_entries cs = [] \<longleftrightarrow> cs = []"
  by (simp_all add: child_entries_def take_map drop_map)

lemma kids_sorted:
  "kids_in lo hi cs \<Longrightarrow> sorted_wrt (\<lambda>x y. sint (fst x) \<le> sint (fst y)) (tl (child_entries cs)) \<and>
     (\<forall>x \<in> set (tl (child_entries cs)). lo \<le> sint (fst x))"
proof (induction cs arbitrary: lo)
  case (Cons c cs)
  show ?case
  proof (cases cs)
    case (Cons d ds)
    then have "lo \<le> sint (fst d)" "kids_in (sint (fst d)) hi cs" using Cons.prems by simp_all
    with Cons.IH[OF this(2)] Cons show ?thesis by auto
  qed simp
qed simp

lemma position_append: "Q x \<Longrightarrow> (\<forall>y \<in> set xs. \<not> Q y) \<Longrightarrow> position Q (xs @ x # ys) = Some (length xs)"
  by (induction xs) simp_all

lemma position_child:
  assumes "distinct (pages_list (ls @ c # rs))"
  shows "position (\<lambda>x. snd x = page_of (snd c)) (child_entries (ls @ c # rs)) = Some (length ls)"
proof -
  have "\<forall>y \<in> set ls. page_of (snd y) \<noteq> page_of (snd c)"
  proof
    fix y assume "y \<in> set ls"
    then have "page_of (snd y) \<in> set (pages_list ls)" unfolding set_pages_list using page_of_pages by blast
    moreover have "page_of (snd c) \<notin> set (pages_list ls)" using assms page_of_pages[of "snd c"] by auto
    ultimately show "page_of (snd y) \<noteq> page_of (snd c)" by metis
  qed
  then have "\<forall>y \<in> set (child_entries ls). snd y \<noteq> page_of (snd c)" by (auto simp: child_entries_def)
  then show ?thesis by (simp add: position_append)
qed

context page_calls
begin

lemma insert_child_ok:
  assumes e: "at e tree C K" and d: "C p = Some d" "is_internal d im par (child_entries (ls @ (k, t1) # rs))"
    and dis: "distinct (pages_list (ls @ (k, t1) # rs))" and cs: "cs = ls @ (k, t1) # (sep, t2) # rs" and so: "kids_in lo hi cs"
  shows "goodly (insert_child ops p (page_of t1) sep (page_of t2) e) (\<lambda>e (q, promoted, moved).
    if q = INVALID_PAGE_ID then \<exists>b. at e tree (C(p \<mapsto> b)) K \<and> is_internal b im par (child_entries cs)
    else \<exists>b b' xs u ys. q \<notin> K \<and> at e tree (C(p \<mapsto> b, q \<mapsto> b')) (insert q K) \<and> cs = xs @ (promoted, u) # ys \<and>
      half im \<le> length xs \<and> half im \<le> Suc (length ys) \<and> xs \<noteq> [] \<and> moved = map (\<lambda>c. page_of (snd c)) ((0, u) # ys) \<and>
      is_internal b im par (child_entries xs) \<and> is_internal b' im par (child_entries ((0, u) # ys)))"
    (is "goodly _ ?Q")
proof -
  note G = internal_get[OF d(2)]
  let ?es = "child_entries cs" and ?n = "length cs"
  have nv: "\<not> internal_Validate d \<noteq> Code_Ok" using is_internal_valid[OF d(2)] by simp
  have pos: "position (\<lambda>x. snd x = page_of t1) (child_entries (ls @ (k, t1) # rs)) = Some (length ls)"
    using position_child[OF dis] by simp
  have ins: "insert_at (Suc (length ls)) (sep, page_of t2) (child_entries (ls @ (k, t1) # rs)) = ?es"
    by (simp add: insert_at_def cs)
  have pK: "p \<in> K" using at_facts(3)[OF e] d(1) by auto
  note S = conjunct1[OF kids_sorted[OF so]]
  have n: "?n = Suc (length (child_entries (ls @ (k, t1) # rs)))" by (simp add: cs)
  show ?thesis unfolding insert_child_def
  proof (rule good_andthen[OF fetch_write_ok[OF e d(1)]])
    fix e1 old assume "at e1 tree C K \<and> old = d"
    then have e1: "at e1 tree C K" and old: "old = d" by simp_all
    show "goodly (if internal_Validate old \<noteq> Code_Ok then fail (internal_Validate old) e1
       else case position (\<lambda>x. snd x = page_of t1) (internal_Entries old) of None \<Rightarrow> fail InternalError e1
          | Some left \<Rightarrow> let entries = insert_at (Suc left) (sep, page_of t2) (internal_Entries old) in
               if length entries \<le> unat (internal_GetMaxSize old) then
                 andthen (lift_result (internal_Assign entries old) e1) (\<lambda>e new.
                 andthen (FinalizeWrite ops p new e) (\<lambda>e _. return (INVALID_PAGE_ID, 0, []) e))
               else
                 let split_at = length entries div 2; promoted = fst (entries ! split_at);
                      left_entries = take split_at entries;
                      right_entries = (0, snd (entries ! split_at)) # drop (Suc split_at) entries in
                  andthen (new_page ops e1) (\<lambda>e new_id.
                  andthen (lift_result (internal_Initialize (internal_GetMaxSize old) (internal_GetParentPageId old)) e) (\<lambda>e new.
                  andthen (lift_result (internal_Assign left_entries old) e) (\<lambda>e old.
                  andthen (lift_result (internal_Assign right_entries new) e) (\<lambda>e new.
                  andthen (FinalizeWrites ops p old new_id new e) (\<lambda>e _.
                  return (new_id, promoted, map snd right_entries) e)))))) ?Q"
    proof (cases "?n \<le> unat im")
      case True
      then have "length ?es \<le> unat im" by simp
      then obtain d' where d': "internal_Assign ?es d = Inr d'" "is_internal d' im par ?es" using internal_Assign_ok[OF d(2) S] by blast
      show ?thesis unfolding old G(1,3) pos option.case ins Let_def if_not_P[OF nv] if_P[OF \<open>length ?es \<le> unat im\<close>] d'(1) andthen_lift
        using d'(2) by (auto intro!: good_andthen[OF finalize_ok[OF e1 pK internal_get(5)[OF d'(2)]]] good_return)
    next
      case False
      then have nl: "\<not> length ?es \<le> unat im" by simp
      have n': "?n = Suc (unat im)" using False n G(7) by simp
      let ?m = "length ?es div 2"
      have im: "2 \<le> unat im" "unat im \<le> 254" using G(8,9) by simp_all
      note H = half_split[OF im n']
      have mn: "?m < ?n" using H(4) by simp
      define xs k' u ys where xu: "xs = take ?m cs" "k' = fst (cs ! ?m)" "u = snd (cs ! ?m)" "ys = drop (Suc ?m) cs"
      have cs': "cs = xs @ (k', u) # ys" using id_take_nth_drop[OF mn] by (simp add: xu)
      have es': "?es = child_entries xs @ (k', page_of u) # child_entries ys" by (simp add: cs')
      have lx: "length xs = ?m" using mn by (simp add: xu)
      have parts: "take ?m ?es = child_entries xs" "?es ! ?m = (k', page_of u)" "drop (Suc ?m) ?es = child_entries ys"
        using lx[symmetric] unfolding es' by (simp_all add: nth_append)
      have xne: "xs \<noteq> []" using lx H(3) by auto
      have S': "sorted_wrt (\<lambda>x y. sint (fst x) \<le> sint (fst y)) (tl (child_entries xs))" "sorted_wrt (\<lambda>x y. sint (fst x) \<le> sint (fst y)) (child_entries ys)"
        using S xne unfolding es' by (simp_all add: sorted_wrt_append)
      have len: "length (child_entries xs) \<le> unat im" "length ((0, page_of u) # child_entries ys) \<le> unat im" "half im \<le> length xs"
        "half im \<le> Suc (length ys)"
      proof -
        have "length xs = ?n div 2" using lx by simp
        moreover have "Suc (length ys) = ?n - ?n div 2" using mn by (simp add: xu)
        ultimately show "length (child_entries xs) \<le> unat im" "length ((0, page_of u) # child_entries ys) \<le> unat im" "half im \<le> length xs"
          "half im \<le> Suc (length ys)" using H(1,2,5,6) by simp_all
      qed
      obtain d0 where d0: "internal_Initialize im par = Inr d0" "is_internal d0 im par []" using internal_Initialize_ok[OF G(8,9)] by blast
      obtain d1 where d1: "internal_Assign (child_entries xs) d = Inr d1" "is_internal d1 im par (child_entries xs)"
        using internal_Assign_ok[OF d(2) S'(1) len(1)] by blast
      obtain d2 where d2: "internal_Assign ((0, page_of u) # child_entries ys) d0 = Inr d2" "is_internal d2 im par ((0, page_of u) # child_entries ys)"
        using internal_Assign_ok[OF d0(2) _ len(2)] S'(2) by auto
      show ?thesis unfolding old G(1-3) pos option.case ins Let_def if_not_P[OF nv] if_not_P[OF nl] parts fst_conv snd_conv d0 d1 d2 andthen_lift
      proof (rule good_andthen[OF new_ok[OF e1]])
        fix e2 q assume "at e2 tree C (insert q K) \<and> q \<notin> K"
        then have e2: "at e2 tree C (insert q K)" and q: "q \<notin> K" by simp_all
        have qv: "q \<noteq> INVALID_PAGE_ID" using at_facts(4)[OF e2] by auto
        show "goodly (andthen (FinalizeWrites ops p d1 q d2 e2)
             (\<lambda>e _. return (q, k', map snd ((0, page_of u) # child_entries ys)) e)) ?Q"
        proof (rule good_andthen[OF finalizes_ok[OF e2 _ internal_get(5)[OF d1(2)] _ internal_get(5)[OF d2(2)]]])
          fix e3 v assume e3: "at e3 tree (C(p \<mapsto> d1, q \<mapsto> d2)) (insert q K)"
          have mv: "map snd ((0, page_of u) # child_entries ys) = map (\<lambda>c. page_of (snd c)) ((0, u) # ys)"
            by (simp add: child_entries_def)
          show "goodly (return (q, k', map snd ((0, page_of u) # child_entries ys)) e3) ?Q"
            using at_facts(1)[OF e3]
          proof (rule good_return, simp only: prod.case qv if_False)
            show "\<exists>b b' xs' u' ys'. q \<notin> K \<and> at e3 tree (C(p \<mapsto> b, q \<mapsto> b')) (insert q K) \<and> cs = xs' @ (k', u') # ys' \<and>
              half im \<le> length xs' \<and> half im \<le> Suc (length ys') \<and> xs' \<noteq> [] \<and>
              map snd ((0, page_of u) # child_entries ys) = map (\<lambda>c. page_of (snd c)) ((0, u') # ys') \<and>
              is_internal b im par (child_entries xs') \<and> is_internal b' im par (child_entries ((0, u') # ys'))"
              using q e3 cs' len(3,4) xne d1(2) d2(2) mv
              by (intro exI[of _ d1] exI[of _ d2] exI[of _ xs] exI[of _ u] exI[of _ ys]) simp
          qed
        qed (use pK in auto)
      qed
    qed
  qed
qed

end

subsection \<open>The step on trees\<close>

fun below :: "u32 \<Rightarrow> u32 \<Rightarrow> bt \<Rightarrow> bool" where
  "below lm im (Lf p es) = True"
| "below lm im (Nd p cs) = filled_list lm im cs"

fun node_size :: "bt \<Rightarrow> nat" where
  "node_size (Lf p es) = length es"
| "node_size (Nd p cs) = length cs"

text \<open>\<open>C\<close>, \<open>K\<close> before and \<open>C'\<close>, \<open>K'\<close> after a change within the pages \<open>P\<close>, which now has the pages \<open>P'\<close>.\<close>

definition within :: "(page_id_t \<rightharpoonup> byte list) \<Rightarrow> page_id_t set \<Rightarrow> page_id_t set \<Rightarrow> (page_id_t \<rightharpoonup> byte list) \<Rightarrow> page_id_t set \<Rightarrow> page_id_t set \<Rightarrow> bool" where
  "within C K P C' K' P' \<longleftrightarrow> K \<subseteq> K' \<and> P' \<subseteq> P \<union> (K' - K) \<and> (\<forall>p. p \<in> K \<longrightarrow> p \<notin> P \<longrightarrow> C' p = C p)"

definition one_tree ::
  "(page_id_t \<rightharpoonup> byte list) \<Rightarrow> u32 \<Rightarrow> u32 \<Rightarrow> page_id_t \<Rightarrow> page_id_t \<Rightarrow> int \<Rightarrow> int \<Rightarrow> nat \<Rightarrow> entry \<Rightarrow> bt \<Rightarrow> bt \<Rightarrow> bool" where
  "one_tree C lm im par nx lo hi n x t t' \<longleftrightarrow> page_of t' = page_of t \<and> first_leaf t' = first_leaf t \<and> rep C lm im par nx t' \<and>
     keys_in lo hi t' \<and> balanced n t' \<and> below lm im t' \<and> node_size t \<le> node_size t' \<and> distinct (pages t') \<and>
     mset (ents t') = add_mset x (mset (ents t))"

definition two_trees ::
  "(page_id_t \<rightharpoonup> byte list) \<Rightarrow> u32 \<Rightarrow> u32 \<Rightarrow> page_id_t \<Rightarrow> page_id_t \<Rightarrow> int \<Rightarrow> int \<Rightarrow> nat \<Rightarrow> entry \<Rightarrow> bt \<Rightarrow> bt \<Rightarrow> int \<Rightarrow> bt \<Rightarrow> bool" where
  "two_trees C lm im par nx lo hi n x t t1 sep t2 \<longleftrightarrow> page_of t1 = page_of t \<and> first_leaf t1 = first_leaf t \<and>
     rep C lm im par (first_leaf t2) t1 \<and> rep C lm im par nx t2 \<and> keys_in lo sep t1 \<and> keys_in sep hi t2 \<and> lo \<le> sep \<and> sep \<le> hi \<and>
     balanced n t1 \<and> balanced n t2 \<and> filled lm im t1 \<and> filled lm im t2 \<and> distinct (pages t1 @ pages t2) \<and>
     mset (ents t1 @ ents t2) = add_mset x (mset (ents t))"

context page_calls
begin

definition inserted ::
  "BPlusTree \<Rightarrow> (page_id_t \<rightharpoonup> byte list) \<Rightarrow> page_id_t set \<Rightarrow> u32 \<Rightarrow> u32 \<Rightarrow> page_id_t \<Rightarrow> page_id_t \<Rightarrow> int \<Rightarrow> int \<Rightarrow> nat \<Rightarrow> entry \<Rightarrow> bt \<Rightarrow>
   's env \<Rightarrow> (page_id_t \<times> SplitResult) option \<Rightarrow> bool" where
  "inserted tree C K lm im par nx lo hi n x t e r \<longleftrightarrow> (\<exists>C' K'. at e tree C' K' \<and>
     (case r of
        None \<Rightarrow> (\<exists>t'. within C K (set (pages t)) C' K' (set (pages t')) \<and> one_tree C' lm im par nx lo hi n x t t')
      | Some (left, split) \<Rightarrow> left = page_of t \<and> (\<exists>t1 t2. within C K (set (pages t)) C' K' (set (pages t1) \<union> set (pages t2)) \<and>
          right_page_id split = page_of t2 \<and> two_trees C' lm im par nx lo hi n x t t1 (sint (separator split)) t2)))"

lemma leaf_step_ok:
  assumes e: "at e tree C K" and t: "rep C lm im par nx (Lf p es)" "keys_in lo hi (Lf p es)"
    and x: "(key, rid) \<notin> set es" "lo \<le> sint key" "sint key \<le> hi"
  shows "goodly (andthen (InsertIntoLeaf ops p key rid e) (\<lambda>e split.
      if right_page_id split = INVALID_PAGE_ID then return None e else return (Some (p, split)) e))
    (inserted tree C K lm im par nx lo hi 0 (key, rid) (Lf p es))"
proof -
  obtain d where d: "C p = Some d" "is_leaf d lm par nx es" using t by auto
  have pK: "p \<in> K" using at_facts(3)[OF e] d(1) by auto
  let ?es = "insert_at (lower_bound EntryLess es (key, rid)) (key, rid) es"
  note I = insert_entry[OF leaf_get(7)[OF d(2)] refl, of "(key, rid)"]
  have st: "set ?es = insert (key, rid) (set es)" using I(2) by (metis set_mset_add_mset_insert set_mset_mset)
  then have k: "\<forall>y \<in> set ?es. lo \<le> sint (fst y) \<and> sint (fst y) \<le> hi" using t(2) x by auto
  show ?thesis
  proof (rule good_andthen[OF InsertIntoLeaf_ok[OF e d x(1) refl]])
    fix e1 and split :: SplitResult
    assume ok: "ok (snd e1)" and A: "if right_page_id split = INVALID_PAGE_ID then \<exists>b. at e1 tree (C(p \<mapsto> b)) K \<and> is_leaf b lm par nx ?es
      else \<exists>b b' left right. right_page_id split \<notin> K \<and> at e1 tree (C(p \<mapsto> b, right_page_id split \<mapsto> b')) (insert (right_page_id split) K) \<and>
        ?es = left @ right \<and> half lm \<le> length left \<and> half lm \<le> length right \<and> right \<noteq> [] \<and> separator split = fst (hd right) \<and>
        is_leaf b lm par (right_page_id split) left \<and> is_leaf b' lm par nx right"
    show "goodly (if right_page_id split = INVALID_PAGE_ID then return None e1 else return (Some (p, split)) e1)
      (inserted tree C K lm im par nx lo hi 0 (key, rid) (Lf p es))"
    proof (cases "right_page_id split = INVALID_PAGE_ID")
      case True
      then obtain b where b: "at e1 tree (C(p \<mapsto> b)) K" "is_leaf b lm par nx ?es" using A by auto
      have "one_tree (C(p \<mapsto> b)) lm im par nx lo hi 0 (key, rid) (Lf p es) (Lf p ?es)" using b(2) k I by (simp add: one_tree_def)
      moreover have "within C K {p} (C(p \<mapsto> b)) K {p}" by (simp add: within_def)
      ultimately have "inserted tree C K lm im par nx lo hi 0 (key, rid) (Lf p es) e1 None" unfolding inserted_def option.case
        using b(1) by (intro exI[of _ "C(p \<mapsto> b)"] exI[of _ K] conjI exI[of _ "Lf p ?es"]) simp_all
      then show ?thesis using True ok by (simp add: good_return)
    next
      case False
      let ?q = "right_page_id split"
      obtain b b' left right where B: "?q \<notin> K" "at e1 tree (C(p \<mapsto> b, ?q \<mapsto> b')) (insert ?q K)" "?es = left @ right" "half lm \<le> length left"
        "half lm \<le> length right" "right \<noteq> []" "separator split = fst (hd right)" "is_leaf b lm par ?q left" "is_leaf b' lm par nx right"
        using A False by auto
      have pq: "p \<noteq> ?q" using pK B(1) by auto
      have so: "sorted_wrt entry_le (left @ right)" using I(3) B(3) by simp
      have l: "\<forall>y \<in> set left. sint (fst y) \<le> sint (separator split)" using so B(6,7) entry_le_key by (auto simp: sorted_wrt_append)
      have r: "\<forall>y \<in> set right. sint (separator split) \<le> sint (fst y)" using so B(6,7) entry_le_key
        by (cases right) (auto simp: sorted_wrt_append)
      have b: "lo \<le> sint (separator split)" "sint (separator split) \<le> hi" "\<forall>y \<in> set left. lo \<le> sint (fst y)" "\<forall>y \<in> set right. sint (fst y) \<le> hi"
        using k B(3,6,7) by auto
      have "two_trees (C(p \<mapsto> b, ?q \<mapsto> b')) lm im par nx lo hi 0 (key, rid) (Lf p es) (Lf p left) (sint (separator split)) (Lf ?q right)"
        using B(4,5,8,9) pq l r b I(2) B(3) by (simp add: two_trees_def)
      moreover have "within C K {p} (C(p \<mapsto> b, ?q \<mapsto> b')) (insert ?q K) ({p} \<union> {?q})" using B(1) by (auto simp: within_def)
      ultimately have "inserted tree C K lm im par nx lo hi 0 (key, rid) (Lf p es) e1 (Some (p, split))" unfolding inserted_def option.case prod.case
        using B(2) by (intro exI[of _ "C(p \<mapsto> b, ?q \<mapsto> b')"] exI[of _ "insert ?q K"] conjI exI[of _ "Lf p left"] exI[of _ "Lf ?q right"]) simp_all
      then show ?thesis using False ok by (simp add: good_return)
    qed
  qed
qed

lemma node_step_ok:
  assumes e: "at e tree C K" and d: "C p = Some d" "is_internal d im par (child_entries (ls @ (k, t1) # rs))"
    and cs: "cs = ls @ (k, t1) # (sep, t2) # rs" and r: "reps C lm im p nx cs" and k: "kids_in lo hi cs"
    and dis: "distinct (p # pages_list cs)"
  shows "goodly (InsertIntoInternal ops p (page_of t1) sep (page_of t2) e) (\<lambda>e res. \<exists>C' K'. at e tree C' K' \<and>
    (\<forall>q. q \<in> K \<longrightarrow> q \<notin> set (p # pages_list cs) \<longrightarrow> C' q = C q) \<and>
    (case res of
       None \<Rightarrow> K' = K \<and> rep C' lm im par nx (Nd p cs)
     | Some split \<Rightarrow> (\<exists>xs u ys q. right_page_id split = q \<and> q \<notin> K \<and> K' = insert q K \<and> cs = xs @ (separator split, u) # ys \<and>
         half im \<le> length xs \<and> half im \<le> Suc (length ys) \<and> xs \<noteq> [] \<and>
         rep C' lm im par (first_leaf u) (Nd p xs) \<and> rep C' lm im par nx (Nd q ((0, u) # ys)))))"
    (is "goodly _ ?Q")
proof -
  have dis1: "distinct (pages_list (ls @ (k, t1) # rs))" and p: "p \<notin> set (pages_list cs)" using dis cs by auto
  have KK: "set (pages_list cs) \<subseteq> K" using rep_dom(2)[OF r] at_facts(3)[OF e] by blast
  show ?thesis unfolding InsertIntoInternal_def
  proof (rule good_andthen[OF insert_child_ok[OF e d dis1 cs k]])
    fix e1 and res :: "page_id_t \<times> index_key_t \<times> page_id_t list"
    assume A: "case res of (q, promoted, moved) \<Rightarrow>
      if q = INVALID_PAGE_ID then \<exists>b. at e1 tree (C(p \<mapsto> b)) K \<and> is_internal b im par (child_entries cs)
      else \<exists>b b' xs u ys. q \<notin> K \<and> at e1 tree (C(p \<mapsto> b, q \<mapsto> b')) (insert q K) \<and> cs = xs @ (promoted, u) # ys \<and>
        half im \<le> length xs \<and> half im \<le> Suc (length ys) \<and> xs \<noteq> [] \<and> moved = map (\<lambda>c. page_of (snd c)) ((0, u) # ys) \<and>
        is_internal b im par (child_entries xs) \<and> is_internal b' im par (child_entries ((0, u) # ys))"
    obtain q promoted moved where res: "res = (q, promoted, moved)" by (cases res)
    show "goodly (case res of (new_id, promoted, moved) \<Rightarrow>
        if new_id = INVALID_PAGE_ID then andthen (SetParent ops (page_of t2) p e1) (\<lambda>e _. return None e)
        else andthen (set_parents ops moved new_id e1) (\<lambda>e _. return (Some \<lparr>separator = promoted, right_page_id = new_id\<rparr>) e)) ?Q"
    proof (cases "q = INVALID_PAGE_ID")
      case True
      then obtain b where b: "at e1 tree (C(p \<mapsto> b)) K" "is_internal b im par (child_entries cs)" using A res by auto
      let ?C = "C(p \<mapsto> b)"
      have r1: "reps ?C lm im p nx cs" by (rule pages_rep_cong(2)[OF r]) (use p in auto)
      have t2: "rep ?C lm im p (first_of rs nx) t2" "distinct (pages t2)" using r1 dis cs by (simp_all add: reps_append)
      show ?thesis unfolding res prod.case if_P[OF True]
      proof (rule good_andthen[OF SetParent_ok[OF b(1) t2]])
        fix e2 u assume ok: "ok (snd e2)" and
          "\<exists>b. at e2 tree (?C(page_of t2 \<mapsto> b)) K \<and> rep (?C(page_of t2 \<mapsto> b)) lm im p (first_of rs nx) t2"
        then obtain b2 where b2: "at e2 tree (?C(page_of t2 \<mapsto> b2)) K" "rep (?C(page_of t2 \<mapsto> b2)) lm im p (first_of rs nx) t2" by blast
        let ?C2 = "?C(page_of t2 \<mapsto> b2)"
        have pt: "page_of t2 \<in> set (pages_list cs)" "page_of t2 \<noteq> p" using cs p page_of_pages[of t2] by auto
        have o: "page_of t2 \<notin> set (pages_list ls)" "page_of t2 \<notin> set (pages t1)" "page_of t2 \<notin> set (pages_list rs)"
        proof -
          have "set (pages_list ls) \<inter> set (pages t2) = {}" "set (pages t1) \<inter> set (pages t2) = {}" "set (pages t2) \<inter> set (pages_list rs) = {}"
            using dis cs by auto
          then show "page_of t2 \<notin> set (pages_list ls)" "page_of t2 \<notin> set (pages t1)" "page_of t2 \<notin> set (pages_list rs)"
            using page_of_pages[of t2] by blast+
        qed
        have "reps ?C2 lm im p nx rs" "rep ?C2 lm im p (first_leaf t2) t1"
          "reps ?C2 lm im p (first_leaf t1) ls"
          by (rule pages_rep_cong[where C = ?C], use r1 cs o in \<open>auto simp: reps_append\<close>)+
        then have "reps ?C2 lm im p nx cs" using b2(2) by (simp add: cs reps_append)
        then have "rep ?C2 lm im par nx (Nd p cs)" using b(2) cs pt by auto
        moreover have "\<forall>q. q \<in> K \<longrightarrow> q \<notin> set (p # pages_list cs) \<longrightarrow> ?C2 q = C q" using pt by auto
        ultimately have "?Q e2 None" unfolding option.case using b2(1) by blast
        then show "goodly (return None e2) ?Q" using ok by (simp add: good_return)
      qed
    next
      case False
      then obtain b b' xs u ys where B: "q \<notin> K" "at e1 tree (C(p \<mapsto> b, q \<mapsto> b')) (insert q K)" "cs = xs @ (promoted, u) # ys"
        "half im \<le> length xs" "half im \<le> Suc (length ys)" "xs \<noteq> []" "moved = map (\<lambda>c. page_of (snd c)) ((0, u) # ys)"
        "is_internal b im par (child_entries xs)" "is_internal b' im par (child_entries ((0, u) # ys))"
        using A unfolding res prod.case if_not_P[OF False] by blast
      let ?C = "C(p \<mapsto> b, q \<mapsto> b')"
      have q: "q \<notin> set (pages_list cs)" using KK B(1) by auto
      have pq: "p \<noteq> q" using at_facts(3)[OF e] d(1) B(1) by auto
      have r1: "reps ?C lm im p nx cs" by (rule pages_rep_cong(2)[OF r]) (use p q in auto)
      then have r2: "reps ?C lm im p nx ((0, u) # ys)" "reps ?C lm im p (first_leaf u) xs" using B(3) by (simp_all add: reps_append)
      have dy: "distinct (pages_list ((0, u) # ys))" "set (pages_list xs) \<inter> set (pages_list ((0, u) # ys)) = {}"
        "p \<notin> set (pages_list ((0, u) # ys))" "q \<notin> set (pages_list ((0, u) # ys))" "set (pages_list ((0, u) # ys)) \<subseteq> set (pages_list cs)"
        using dis B(3) q by auto
      show ?thesis unfolding res prod.case if_not_P[OF False] B(7)
      proof (rule good_andthen[OF set_parents_ok[OF B(2) r2(1) dy(1)]])
        fix e2 v assume ok: "ok (snd e2)" and "\<exists>C'. at e2 tree C' (insert q K) \<and> reps C' lm im q nx ((0, u) # ys) \<and>
          (\<forall>p. p \<notin> set (pages_list ((0, u) # ys)) \<longrightarrow> C' p = ?C p)"
        then obtain C' where C': "at e2 tree C' (insert q K)" "reps C' lm im q nx ((0, u) # ys)"
          "\<And>p. p \<notin> set (pages_list ((0, u) # ys)) \<Longrightarrow> C' p = ?C p" by blast
        have "reps C' lm im p (first_leaf u) xs" by (rule pages_rep_cong(2)[OF r2(2)]) (use C'(3) dy(2) in blast)
        moreover have "C' p = Some b" "C' q = Some b'" using C'(3)[OF dy(3)] C'(3)[OF dy(4)] pq by simp_all
        ultimately have R: "rep C' lm im par (first_leaf u) (Nd p xs)" "rep C' lm im par nx (Nd q ((0, u) # ys))"
          using B(6,8,9) C'(2) by simp_all
        have "\<forall>a. a \<in> K \<longrightarrow> a \<notin> set (p # pages_list cs) \<longrightarrow> C' a = C a"
        proof (intro allI impI)
          fix a assume a: "a \<in> K" "a \<notin> set (p # pages_list cs)"
          then have "a \<notin> set (pages_list ((0, u) # ys))" "a \<noteq> p" "a \<noteq> q" using dy(5) B(1) by auto
          then show "C' a = C a" using C'(3) by simp
        qed
        then have "?Q e2 (Some \<lparr>separator = promoted, right_page_id = q\<rparr>)" unfolding option.case SplitResult.simps using C'(1) R B(1,3-6) by blast
        then show "goodly (return (Some \<lparr>separator = promoted, right_page_id = q\<rparr>) e2) ?Q" using ok by (simp add: good_return)
      qed
    qed
  qed
qed

end

subsection \<open>Along the path\<close>

fun insert_seg ::
  "'s pool_calls \<Rightarrow> page_id_t list \<Rightarrow> page_id_t \<Rightarrow> SplitResult \<Rightarrow> 's env \<Rightarrow> ('s env, (page_id_t \<times> SplitResult) option) outcome" where
  "insert_seg ops [] left split e = return (Some (left, split)) e"
| "insert_seg ops (p # path) left split e =
     andthen (InsertIntoInternal ops p left (separator split) (right_page_id split) e) (\<lambda>e r.
       case r of None \<Rightarrow> return None e | Some split \<Rightarrow> insert_seg ops path p split e)"

definition insert_below ::
  "'s pool_calls \<Rightarrow> page_id_t list \<Rightarrow> page_id_t \<Rightarrow> index_key_t \<Rightarrow> RID \<Rightarrow> 's env \<Rightarrow> ('s env, (page_id_t \<times> SplitResult) option) outcome" where
  "insert_below ops path leaf key rid e =
     andthen (InsertIntoLeaf ops leaf key rid e) (\<lambda>e split.
       if right_page_id split = INVALID_PAGE_ID then return None e else insert_seg ops (rev path) leaf split e)"

lemma andthen_cong: "(\<And>e a. k e a = k' e a) \<Longrightarrow> andthen m k = andthen m k'"
  by (simp add: andthen_def split: option.split sum.split)

lemma insert_up_append:
  "insert_up ops (xs @ ys) left split e = andthen (insert_seg ops xs left split e)
     (\<lambda>e r. case r of None \<Rightarrow> return () e | Some (left, split) \<Rightarrow> insert_up ops ys left split e)"
  by (induction xs arbitrary: left split e) (auto simp: andthen_assoc intro!: andthen_cong split: option.split)

lemma insert_seg_append:
  "insert_seg ops (xs @ ys) left split e = andthen (insert_seg ops xs left split e)
     (\<lambda>e r. case r of None \<Rightarrow> return None e | Some (left, split) \<Rightarrow> insert_seg ops ys left split e)"
  by (induction xs arbitrary: left split e) (auto simp: andthen_assoc intro!: andthen_cong split: option.split)

lemma insert_below_Cons:
  "insert_below ops (p # path) leaf key rid e = andthen (insert_below ops path leaf key rid e) (\<lambda>e r.
     case r of
       None \<Rightarrow> return None e
     | Some (left, split) \<Rightarrow>
         andthen (InsertIntoInternal ops p left (separator split) (right_page_id split) e) (\<lambda>e r.
           case r of None \<Rightarrow> return None e | Some split \<Rightarrow> return (Some (p, split)) e))"
  by (auto simp: insert_below_def andthen_assoc insert_seg_append intro!: andthen_cong split: option.split)

lemma insert_up_below:
  "andthen (InsertIntoLeaf ops leaf key rid e) (\<lambda>e split.
     if right_page_id split = INVALID_PAGE_ID then return () e else insert_up ops (rev path) leaf split e) =
   andthen (insert_below ops path leaf key rid e) (\<lambda>e r.
     case r of None \<Rightarrow> return () e | Some (left, split) \<Rightarrow> CreateNewRoot ops left (separator split) (right_page_id split) e)"
  using insert_up_append[of ops "rev path" "[]"]
  by (auto simp: insert_below_def andthen_assoc intro!: andthen_cong split: option.split)

lemma kids_replace:
  "kids_in lo hi (ls @ (k, c) # rs) \<Longrightarrow> keys_in (if ls = [] then lo else sint k) (upper_of rs hi) c' \<Longrightarrow> kids_in lo hi (ls @ (k, c') # rs)"
  unfolding kids_split by (cases "ls = []") simp_all

lemma kids_replace2:
  assumes "kids_in lo hi (ls @ (k, c) # rs)" "l = (if ls = [] then lo else sint k)" "keys_in l (sint sep) t1"
    "keys_in (sint sep) (upper_of rs hi) t2" "l \<le> sint sep" "sint sep \<le> upper_of rs hi"
  shows "kids_in lo hi (ls @ (k, t1) # (sep, t2) # rs)"
proof -
  have h: "upper_of rs hi \<le> hi" using assms(1) by (cases "rs = []") (simp_all add: kids_split)
  then have s: "sint sep \<le> hi" using assms(6) by simp
  have "rs \<noteq> [] \<Longrightarrow> kids_in (upper_of rs hi) hi rs" using assms(1) by (simp add: kids_split)
  then have "kids_in l hi ((k, t1) # (sep, t2) # rs)" using assms(3-6) h s by simp
  then show ?thesis using assms(1,2) unfolding kids_split[of lo hi ls] by (cases "ls = []") simp_all
qed

lemma filled_grows:
  "balanced n t \<Longrightarrow> balanced n t' \<Longrightarrow> node_size t \<le> node_size t' \<Longrightarrow> below lm im t' \<Longrightarrow> filled lm im t \<Longrightarrow> filled lm im t'"
  by (cases t; cases t') auto

lemma filled_below: "filled lm im t \<Longrightarrow> below lm im t"
  by (cases t) auto

text \<open>The children around the changed one keep their contents.\<close>

lemma around:
  assumes "reps C lm im p nx (ls @ (k, c) # rs)" "distinct (p # pages_list (ls @ (k, c) # rs))" "within C K (set (pages c)) C' K' P'"
    "dom C \<subseteq> K" "p \<in> K"
  shows "reps C' lm im p (first_leaf c) ls" "reps C' lm im p nx rs" "C' p = C p" "p \<notin> P'"
    "set (pages_list ls) \<inter> P' = {}" "set (pages_list rs) \<inter> P' = {}" "set (pages_list ls) \<union> set (pages_list rs) \<subseteq> K"
proof -
  have r: "reps C lm im p (first_leaf c) ls" "reps C lm im p nx rs" using assms(1) by (simp_all add: reps_append)
  have K: "set (pages_list ls) \<subseteq> K" "set (pages_list rs) \<subseteq> K" using rep_dom(2)[OF r(1)] rep_dom(2)[OF r(2)] assms(4) by blast+
  have d: "set (pages_list ls) \<inter> set (pages c) = {}" "set (pages_list rs) \<inter> set (pages c) = {}" "p \<notin> set (pages c)"
    using assms(2) by auto
  show "reps C' lm im p (first_leaf c) ls" by (rule pages_rep_cong(2)[OF r(1)]) (use assms(3) d K in \<open>unfold within_def, blast\<close>)
  show "reps C' lm im p nx rs" by (rule pages_rep_cong(2)[OF r(2)]) (use assms(3) d K in \<open>unfold within_def, blast\<close>)
  show "C' p = C p" "p \<notin> P'" "set (pages_list ls) \<inter> P' = {}" "set (pages_list rs) \<inter> P' = {}"
    "set (pages_list ls) \<union> set (pages_list rs) \<subseteq> K"
    using assms(3,5) d K unfolding within_def by blast+
qed

context page_calls
begin

lemma parent_keeps_child:
  assumes e: "at e tree C' K'" and t: "rep C lm im par nx (Nd q (ls @ (k, c) # rs))" and dom: "dom C \<subseteq> K"
    and dis: "distinct (q # pages_list (ls @ (k, c) # rs))" and k: "kids_in lo hi (ls @ (k, c) # rs)"
    and bf: "balanced_list n (ls @ (k, c) # rs)" "filled_list lm im (ls @ (k, c) # rs)"
    and w: "within C K (set (pages c)) C' K' (set (pages c'))"
    and o: "one_tree C' lm im q (first_of rs nx) (if ls = [] then lo else sint k) (upper_of rs hi) n x c c'"
  shows "within C K (set (pages (Nd q (ls @ (k, c) # rs)))) C' K' (set (pages (Nd q (ls @ (k, c') # rs))))"
    "one_tree C' lm im par nx lo hi (Suc n) x (Nd q (ls @ (k, c) # rs)) (Nd q (ls @ (k, c') # rs))"
proof -
  have r: "reps C lm im q nx (ls @ (k, c) # rs)" and d: "\<exists>d. C q = Some d \<and> is_internal d im par (child_entries (ls @ (k, c) # rs))"
    using t by auto
  have qK: "q \<in> K" using d dom by auto
  note A = around[OF r dis w dom qK]
  have O: "page_of c' = page_of c" "first_leaf c' = first_leaf c" "rep C' lm im q (first_of rs nx) c'"
    "keys_in (if ls = [] then lo else sint k) (upper_of rs hi) c'" "balanced n c'" "below lm im c'" "node_size c \<le> node_size c'"
    "distinct (pages c')" "mset (ents c') = add_mset x (mset (ents c))" using o by (simp_all add: one_tree_def)
  have "filled lm im c'" using filled_grows[OF _ O(5,7,6)] bf by simp
  moreover have "distinct (q # pages_list (ls @ (k, c') # rs))" using A(4-6) O(8) dis by auto
  moreover have "rep C' lm im par nx (Nd q (ls @ (k, c') # rs))" using A(1,2,3) O(1-3) d by (auto simp: reps_append)
  moreover have "first_leaf (Nd q (ls @ (k, c') # rs)) = first_leaf (Nd q (ls @ (k, c) # rs))" using O(2) by (cases ls) simp_all
  ultimately show "one_tree C' lm im par nx lo hi (Suc n) x (Nd q (ls @ (k, c) # rs)) (Nd q (ls @ (k, c') # rs))"
    using O kids_replace[OF k O(4)] bf by (simp add: one_tree_def)
  show "within C K (set (pages (Nd q (ls @ (k, c) # rs)))) C' K' (set (pages (Nd q (ls @ (k, c') # rs))))"
    using w unfolding within_def by auto
qed

lemma parent_takes_split:
  assumes e: "at e tree C1 K1" and t: "rep C lm im par nx (Nd q (ls @ (k, c) # rs))" and dom: "dom C \<subseteq> K"
    and dis: "distinct (q # pages_list (ls @ (k, c) # rs))" and ki: "kids_in lo hi (ls @ (k, c) # rs)"
    and bf: "balanced_list n (ls @ (k, c) # rs)" "filled_list lm im (ls @ (k, c) # rs)"
    and w: "within C K (set (pages c)) C1 K1 (set (pages t1) \<union> set (pages t2))"
    and o: "two_trees C1 lm im q (first_of rs nx) (if ls = [] then lo else sint k) (upper_of rs hi) n x c t1 (sint sep) t2"
  shows "goodly (andthen (InsertIntoInternal ops q (page_of c) sep (page_of t2) e) (\<lambda>e r.
      case r of None \<Rightarrow> return None e | Some split \<Rightarrow> return (Some (q, split)) e))
    (inserted tree C K lm im par nx lo hi (Suc n) x (Nd q (ls @ (k, c) # rs)))"
proof -
  let ?kids = "ls @ (k, c) # rs" and ?cs = "ls @ (k, t1) # (sep, t2) # rs"
  have r: "reps C lm im q nx ?kids" using t by auto
  obtain d where d: "C q = Some d" "is_internal d im par (child_entries ?kids)" using t by auto
  have qK: "q \<in> K" using d dom by auto
  note A = around[OF r dis w dom qK]
  have T: "page_of t1 = page_of c" "first_leaf t1 = first_leaf c" "rep C1 lm im q (first_leaf t2) t1" "rep C1 lm im q (first_of rs nx) t2"
    "keys_in (if ls = [] then lo else sint k) (sint sep) t1" "keys_in (sint sep) (upper_of rs hi) t2"
    "(if ls = [] then lo else sint k) \<le> sint sep" "sint sep \<le> upper_of rs hi" "balanced n t1" "balanced n t2" "filled lm im t1" "filled lm im t2"
    "distinct (pages t1 @ pages t2)" "mset (ents t1 @ ents t2) = add_mset x (mset (ents c))"
    using o by (simp_all add: two_trees_def)
  have d1: "C1 q = Some d" "is_internal d im par (child_entries (ls @ (k, t1) # rs))" using d A(3) T(1) by simp_all
  have r1: "reps C1 lm im q nx ?cs" using A(1,2) T(2-4) by (simp add: reps_append)
  have k1: "kids_in lo hi ?cs" by (rule kids_replace2[OF ki refl T(5-8)])
  have dis1: "distinct (q # pages_list ?cs)" using A(4-6) T(13) dis by auto
  have cs: "balanced_list n ?cs" "filled_list lm im ?cs" "mset (ents_list ?cs) = add_mset x (mset (ents_list ?kids))"
    using bf T(9-12,14) by simp_all
  have w1: "K \<subseteq> K1" "set (q # pages_list ?cs) \<subseteq> set (q # pages_list ?kids) \<union> (K1 - K)"
    "p \<in> K \<Longrightarrow> p \<notin> set (pages c) \<Longrightarrow> C1 p = C p" for p
    using w unfolding within_def by auto
  have pc: "set (pages c) \<subseteq> set (q # pages_list ?kids)" by auto
  show ?thesis unfolding T(1)[symmetric]
  proof (rule good_andthen[OF node_step_ok[OF e d1 refl r1 k1 dis1]])
    fix e2 and res :: "SplitResult option"
    assume ok: "ok (snd e2)" and "\<exists>C' K'. at e2 tree C' K' \<and> (\<forall>a. a \<in> K1 \<longrightarrow> a \<notin> set (q # pages_list ?cs) \<longrightarrow> C' a = C1 a) \<and>
      (case res of
         None \<Rightarrow> K' = K1 \<and> rep C' lm im par nx (Nd q ?cs)
       | Some split \<Rightarrow> (\<exists>xs u ys r. right_page_id split = r \<and> r \<notin> K1 \<and> K' = insert r K1 \<and> ?cs = xs @ (separator split, u) # ys \<and>
           half im \<le> length xs \<and> half im \<le> Suc (length ys) \<and> xs \<noteq> [] \<and>
           rep C' lm im par (first_leaf u) (Nd q xs) \<and> rep C' lm im par nx (Nd r ((0, u) # ys))))"
    then obtain C' K' where Q: "at e2 tree C' K'" "\<And>a. a \<in> K1 \<Longrightarrow> a \<notin> set (q # pages_list ?cs) \<Longrightarrow> C' a = C1 a"
      "case res of
         None \<Rightarrow> K' = K1 \<and> rep C' lm im par nx (Nd q ?cs)
       | Some split \<Rightarrow> (\<exists>xs u ys r. right_page_id split = r \<and> r \<notin> K1 \<and> K' = insert r K1 \<and> ?cs = xs @ (separator split, u) # ys \<and>
           half im \<le> length xs \<and> half im \<le> Suc (length ys) \<and> xs \<noteq> [] \<and>
           rep C' lm im par (first_leaf u) (Nd q xs) \<and> rep C' lm im par nx (Nd r ((0, u) # ys)))" by blast
    have keep: "C' a = C a" if "a \<in> K" "a \<notin> set (q # pages_list ?kids)" for a
    proof -
      have "a \<in> K1" "a \<notin> set (q # pages_list ?cs)" "a \<notin> set (pages c)" using that w1(1,2) pc by blast+
      then show ?thesis using Q(2) w1(3)[OF that(1)] by simp
    qed
    show "goodly (case res of None \<Rightarrow> return None e2 | Some split \<Rightarrow> return (Some (q, split)) e2)
      (inserted tree C K lm im par nx lo hi (Suc n) x (Nd q ?kids))"
    proof (cases res)
      case None
      then have "K' = K1" "rep C' lm im par nx (Nd q ?cs)" using Q(3) by simp_all
      then have "one_tree C' lm im par nx lo hi (Suc n) x (Nd q ?kids) (Nd q ?cs)"
        using k1 cs dis1 T(2) by (cases ls) (simp_all add: one_tree_def)
      moreover have "within C K (set (pages (Nd q ?kids))) C' K' (set (pages (Nd q ?cs)))"
        using w1(1,2) keep \<open>K' = K1\<close> unfolding within_def pages.simps by blast
      ultimately have "inserted tree C K lm im par nx lo hi (Suc n) x (Nd q ?kids) e2 None" unfolding inserted_def option.case
        using Q(1) by blast
      then show ?thesis using None ok by (simp add: good_return)
    next
      case (Some split)
      then obtain xs u ys r where S: "right_page_id split = r" "r \<notin> K1" "K' = insert r K1" "?cs = xs @ (separator split, u) # ys"
        "half im \<le> length xs" "half im \<le> Suc (length ys)" "xs \<noteq> []"
        "rep C' lm im par (first_leaf u) (Nd q xs)" "rep C' lm im par nx (Nd r ((0, u) # ys))"
        using Q(3) unfolding Some option.case by blast
      have kk: "kids_in lo (sint (separator split)) xs" "lo \<le> sint (separator split)" "sint (separator split) \<le> hi"
        "kids_in (sint (separator split)) hi ((0, u) # ys)"
        using k1 S(7) unfolding S(4) by (simp_all add: kids_append)
      have fl: "first_leaf (Nd q xs) = first_leaf (Nd q ?kids)"
        using S(4,7) T(2) by (cases xs; cases ls) auto
      have pg: "pages_list ?cs = pages_list xs @ pages u @ pages_list ys" unfolding S(4) by simp
      have K1: "set (q # pages_list ?cs) \<subseteq> K1" using rep_dom(2)[OF r1] at_facts(3)[OF e] d1(1) by auto
      have di: "distinct (pages (Nd q xs) @ pages (Nd r ((0, u) # ys)))" using dis1 K1 S(2) unfolding pg by auto
      have "mset (ents (Nd q xs) @ ents (Nd r ((0, u) # ys))) = add_mset x (mset (ents (Nd q ?kids)))"
        using cs(3) unfolding S(4) by simp
      then have "two_trees C' lm im par nx lo hi (Suc n) x (Nd q ?kids) (Nd q xs) (sint (separator split)) (Nd r ((0, u) # ys))"
        using S(5,6,8,9) kk fl di cs(1,2) unfolding two_trees_def S(4) by simp
      moreover have "within C K (set (pages (Nd q ?kids))) C' K' (set (pages (Nd q xs)) \<union> set (pages (Nd r ((0, u) # ys))))"
        using w1(1,2) keep S(2,3) unfolding within_def pg by auto
      ultimately have "inserted tree C K lm im par nx lo hi (Suc n) x (Nd q ?kids) e2 (Some (q, split))" unfolding inserted_def option.case prod.case
        using Q(1) S(1) by (metis page_of.simps(2))
      then show ?thesis using Some ok by (simp add: good_return)
    qed
  qed
qed

lemma insert_below_ok:
  assumes "at e tree C K" "rep C lm im par nx (plug fs (Lf p es))" "keys_in lo hi (plug fs (Lf p es))" "list_all (guides key) fs"
    "(key, rid) \<notin> set es" "lo \<le> sint key" "sint key \<le> hi" "balanced n (plug fs (Lf p es))" "below lm im (plug fs (Lf p es))"
    "distinct (pages (plug fs (Lf p es)))"
  shows "goodly (insert_below ops (map fst fs) p key rid e) (inserted tree C K lm im par nx lo hi n (key, rid) (plug fs (Lf p es)))"
  using assms
proof (induction fs arbitrary: par nx lo hi n)
  case Nil
  then have n: "n = 0" by simp
  have "insert_below ops [] p key rid e = andthen (InsertIntoLeaf ops p key rid e) (\<lambda>e split.
      if right_page_id split = INVALID_PAGE_ID then return None e else return (Some (p, split)) e)"
    by (auto simp: insert_below_def intro!: andthen_cong)
  then show ?case using leaf_step_ok[OF Nil(1) _ _ Nil(5-7), of lm im par nx p] Nil(2,3) n by simp
next
  case (Cons f fs)
  obtain q ls k rs where f: "f = (q, ls, k, rs)" by (cases f)
  let ?c = "plug fs (Lf p es)" and ?x = "(key, rid)"
  let ?kids = "ls @ (k, ?c) # rs"
  let ?l = "if ls = [] then lo else sint k" and ?u = "upper_of rs hi"
  have t: "plug (f # fs) (Lf p es) = Nd q ?kids" by (simp add: f)
  have R: "reps C lm im q nx ?kids" "\<exists>d. C q = Some d \<and> is_internal d im par (child_entries ?kids)"
    and RT: "rep C lm im par nx (Nd q ?kids)" using Cons.prems(2) unfolding t by auto
  have KI: "kids_in lo hi ?kids" using Cons.prems(3) unfolding t by simp
  have dis: "distinct (q # pages_list ?kids)" using Cons.prems(10) unfolding t by simp
  obtain m where m: "n = Suc m" "balanced_list m ?kids" using Cons.prems(8) unfolding t by (cases n) auto
  have fl: "filled_list lm im ?kids" using Cons.prems(9) unfolding t by simp
  have g: "guides key (q, ls, k, rs)" using Cons.prems(4) f by simp
  note B = guides_bounds[OF g Cons.prems(6,7)]
  have dom: "dom C \<subseteq> K" using at_facts(3)[OF Cons.prems(1)] .
  have IH: "goodly (insert_below ops (map fst fs) p key rid e) (inserted tree C K lm im q (first_of rs nx) ?l ?u m ?x ?c)"
  proof (rule Cons.IH)
    show "rep C lm im q (first_of rs nx) ?c" using R(1) by (simp add: reps_append)
    show "keys_in ?l ?u ?c" using kids_child[OF KI] unfolding fst_conv snd_conv .
    show "below lm im ?c" using fl filled_below by simp
  qed (use Cons.prems m dis B in \<open>simp_all\<close>)
  show ?case unfolding list.map f fst_conv insert_below_Cons t[unfolded f]
  proof (rule good_andthen[OF IH])
    fix e1 and r :: "(page_id_t \<times> SplitResult) option"
    assume ok: "ok (snd e1)" and I: "inserted tree C K lm im q (first_of rs nx) ?l ?u m ?x ?c e1 r"
    show "goodly (case r of None \<Rightarrow> return None e1 | Some (left, split) \<Rightarrow>
         andthen (InsertIntoInternal ops q left (separator split) (right_page_id split) e1) (\<lambda>e r.
           case r of None \<Rightarrow> return None e | Some split \<Rightarrow> return (Some (q, split)) e))
      (inserted tree C K lm im par nx lo hi n ?x (Nd q ?kids))"
    proof (cases r)
      case None
      then obtain C1 K1 c' where c': "at e1 tree C1 K1" "within C K (set (pages ?c)) C1 K1 (set (pages c'))"
        "one_tree C1 lm im q (first_of rs nx) ?l ?u m ?x ?c c'" using I by (auto simp: inserted_def)
      note P = parent_keeps_child[OF c'(1) RT dom dis KI m(2) fl c'(2,3)]
      have "inserted tree C K lm im par nx lo hi n ?x (Nd q ?kids) e1 None" unfolding inserted_def option.case
        using c'(1) P m(1) by blast
      then show ?thesis using None ok by (simp add: good_return)
    next
      case (Some a)
      obtain left split where a: "a = (left, split)" by (cases a)
      obtain C1 K1 t1 t2 where T: "left = page_of ?c" "at e1 tree C1 K1" "within C K (set (pages ?c)) C1 K1 (set (pages t1) \<union> set (pages t2))"
        "right_page_id split = page_of t2" "two_trees C1 lm im q (first_of rs nx) ?l ?u m ?x ?c t1 (sint (separator split)) t2"
        using I unfolding inserted_def Some a option.case prod.case by blast
      show ?thesis unfolding Some a option.case prod.case T(1,4) m(1)
        by (rule parent_takes_split[OF T(2) RT dom dis KI m(2) fl T(3,5)])
    qed
  qed
qed

text \<open>A new root over the two halves, recorded in the header page.\<close>

lemma CreateNewRoot_ok:
  assumes e: "at e tree C K" and lm: "leaf_max_size tree = lm" "internal_max_size tree = im" "3 \<le> unat im" "unat im \<le> 254"
    and h: "header_ok C tree" "header_page_id tree \<notin> set (pages t1) \<union> set (pages t2)"
    and t: "two_trees C lm im INVALID_PAGE_ID INVALID_PAGE_ID (- (2 ^ 63)) (2 ^ 63 - 1) n x t t1 (sint sep) t2"
  shows "goodly (CreateNewRoot ops (page_of t1) sep (page_of t2) e) (\<lambda>e _. \<exists>C' K' root. at e (tree\<lparr>root_page_id := root\<rparr>) C' K' \<and>
    header_ok C' (tree\<lparr>root_page_id := root\<rparr>) \<and> holds_tree C' (tree\<lparr>root_page_id := root\<rparr>) (Some (Nd root [(0, t1), (sep, t2)])))"
    (is "goodly _ ?Q")
proof -
  have T: "rep C lm im INVALID_PAGE_ID (first_leaf t2) t1" "rep C lm im INVALID_PAGE_ID INVALID_PAGE_ID t2" "distinct (pages t1)" "distinct (pages t2)"
    "set (pages t1) \<inter> set (pages t2) = {}" using t by (simp_all add: two_trees_def)
  have K: "set (pages t1) \<subseteq> K" "set (pages t2) \<subseteq> K" using rep_dom(1)[OF T(1)] rep_dom(1)[OF T(2)] at_facts(3)[OF e] by blast+
  have im: "internal_max_size (fst e) = im" if "at e tree C K" for e C K using that lm(2) by (simp add: at_def)
  obtain d0 where d0: "internal_Initialize im INVALID_PAGE_ID = Inr d0" "is_internal d0 im INVALID_PAGE_ID []" using internal_Initialize_ok[OF lm(3,4)] by blast
  have "sorted_wrt (\<lambda>x y. sint (fst x) \<le> sint (fst y)) (tl [(0 :: index_key_t, page_of t1), (sep, page_of t2)])"
    "length [(0 :: index_key_t, page_of t1), (sep, page_of t2)] \<le> unat im" using lm(3) by simp_all
  then obtain d where d: "internal_Assign [(0, page_of t1), (sep, page_of t2)] d0 = Inr d"
    "is_internal d im INVALID_PAGE_ID [(0, page_of t1), (sep, page_of t2)]" using internal_Assign_ok[OF d0(2)] by blast
  show ?thesis unfolding CreateNewRoot_def
  proof (rule good_andthen[OF new_ok[OF e]])
    fix e1 q assume "at e1 tree C (insert q K) \<and> q \<notin> K"
    then have e1: "at e1 tree C (insert q K)" and q: "q \<notin> K" by simp_all
    let ?K = "insert q K" and ?C = "C(q \<mapsto> d)"
    have qt: "q \<notin> set (pages t1)" "q \<notin> set (pages t2)" using q K by auto
    have r1: "rep ?C lm im INVALID_PAGE_ID (first_leaf t2) t1" by (rule pages_rep_cong(1)[OF T(1)]) (use qt in auto)
    have r2: "rep ?C lm im INVALID_PAGE_ID INVALID_PAGE_ID t2" by (rule pages_rep_cong(1)[OF T(2)]) (use qt in auto)
    have hq: "header_page_id tree \<noteq> q \<or> header_page_id tree = INVALID_PAGE_ID"
      using h(1) q at_facts(3)[OF e] by (auto simp: header_ok_def)
    show "goodly (andthen (lift_result (internal_Initialize (internal_max_size (fst e1)) INVALID_PAGE_ID) e1) (\<lambda>e root.
      andthen (lift_result (internal_Assign [(0, page_of t1), (sep, page_of t2)] root) e) (\<lambda>e root.
      andthen (FinalizeWrite ops q root e) (\<lambda>e _. andthen (SetParent ops (page_of t1) q e) (\<lambda>e _.
      andthen (SetParent ops (page_of t2) q e) (\<lambda>e _. PersistRootPageId ops (set_root q e))))))) ?Q"
      unfolding im[OF e1] d0(1) d(1) andthen_lift
    proof (rule good_andthen[OF finalize_ok[OF e1 _ internal_get(5)[OF d(2)]]])
      fix e2 u assume e2: "at e2 tree ?C ?K"
      show "goodly (andthen (SetParent ops (page_of t1) q e2) (\<lambda>e _. andthen (SetParent ops (page_of t2) q e) (\<lambda>e _.
        PersistRootPageId ops (set_root q e)))) ?Q"
      proof (rule good_andthen[OF SetParent_ok[OF e2 r1 T(3)]])
        fix e3 v assume "\<exists>b. at e3 tree (?C(page_of t1 \<mapsto> b)) ?K \<and> rep (?C(page_of t1 \<mapsto> b)) lm im q (first_leaf t2) t1"
        then obtain b1 where b1: "at e3 tree (?C(page_of t1 \<mapsto> b1)) ?K" "rep (?C(page_of t1 \<mapsto> b1)) lm im q (first_leaf t2) t1" by blast
        let ?C1 = "?C(page_of t1 \<mapsto> b1)"
        have p1: "page_of t1 \<notin> set (pages t2)" "page_of t1 \<noteq> q" using T(5) qt page_of_pages[of t1] by blast+
        have r2': "rep ?C1 lm im INVALID_PAGE_ID INVALID_PAGE_ID t2" by (rule pages_rep_cong(1)[OF r2]) (use p1 in auto)
        show "goodly (andthen (SetParent ops (page_of t2) q e3) (\<lambda>e _. PersistRootPageId ops (set_root q e))) ?Q"
        proof (rule good_andthen[OF SetParent_ok[OF b1(1) r2' T(4)]])
          fix e4 w assume "\<exists>b. at e4 tree (?C1(page_of t2 \<mapsto> b)) ?K \<and> rep (?C1(page_of t2 \<mapsto> b)) lm im q INVALID_PAGE_ID t2"
          then obtain b2 where b2: "at e4 tree (?C1(page_of t2 \<mapsto> b2)) ?K" "rep (?C1(page_of t2 \<mapsto> b2)) lm im q INVALID_PAGE_ID t2" by blast
          let ?C2 = "?C1(page_of t2 \<mapsto> b2)" and ?r = "Nd q [(0, t1), (sep, t2)]"
          have p2: "page_of t2 \<notin> set (pages t1)" "page_of t2 \<noteq> q" using T(5) qt page_of_pages[of t2] by blast+
          have r1': "rep ?C2 lm im q (first_leaf t2) t1" by (rule pages_rep_cong(1)[OF b1(2)]) (use p2 in auto)
          have hn: "header_page_id tree \<noteq> page_of t1" "header_page_id tree \<noteq> page_of t2" using h(2) page_of_pages[of t1] page_of_pages[of t2] by (metis UnI1, metis UnI2)
          have ho: "header_ok ?C2 (tree\<lparr>root_page_id := root_page_id tree\<rparr>)" using h(1) hq hn by (auto simp: header_ok_def)
          have R: "rep ?C2 lm im INVALID_PAGE_ID INVALID_PAGE_ID ?r" using r1' b2(2) d(2) p1 p2 by simp
          have "header_page_id tree \<notin> set (pages ?r)"
            using h(2) hq at_facts(4)[OF e1] by auto
          then have hp: "header_page_id (tree\<lparr>root_page_id := q\<rparr>) \<notin> set (pages ?r)" by simp
          have dr: "distinct (pages ?r)" using T(3-5) qt by auto
          have kr: "keys_in (- (2 ^ 63)) (2 ^ 63 - 1) ?r" "balanced (Suc n) ?r" "filled_root lm im ?r" using t by (simp_all add: two_trees_def)
          show "goodly (PersistRootPageId ops (set_root q e4)) ?Q"
          proof (rule good_weaken[OF persist_ok[OF b2(1) ho]])
            fix e5 z assume "\<exists>C'. at e5 (tree\<lparr>root_page_id := q\<rparr>) C' ?K \<and> header_ok C' (tree\<lparr>root_page_id := q\<rparr>) \<and>
              (\<forall>p. p \<noteq> header_page_id tree \<longrightarrow> C' p = ?C2 p)"
            then obtain C' where C': "at e5 (tree\<lparr>root_page_id := q\<rparr>) C' ?K" "header_ok C' (tree\<lparr>root_page_id := q\<rparr>)"
              "\<And>p. p \<noteq> header_page_id tree \<Longrightarrow> C' p = ?C2 p" by blast
            have "rep C' lm im INVALID_PAGE_ID INVALID_PAGE_ID ?r"
              by (rule pages_rep_cong(1)[OF R]) (use C'(3) \<open>header_page_id tree \<notin> set (pages ?r)\<close> in metis)
            moreover have sel: "root_page_id (tree\<lparr>root_page_id := q\<rparr>) = page_of ?r" "leaf_max_size (tree\<lparr>root_page_id := q\<rparr>) = lm"
              "internal_max_size (tree\<lparr>root_page_id := q\<rparr>) = im" using lm(1,2) by simp_all
            ultimately have "holds_tree C' (tree\<lparr>root_page_id := q\<rparr>) (Some ?r)"
              unfolding holds_tree.simps sel(2,3) using sel(1) hp dr kr by blast
            then show "?Q e5 z" using C'(1,2) by blast
          qed
        qed
      qed
    qed simp
  qed
qed

subsection \<open>\<^verbatim>\<open>Insert\<close>\<close>

lemma insert_first_ok:
  assumes e: "at e tree C K" and cap: "capacities_ok (leaf_max_size tree) (internal_max_size tree)" and h: "header_ok C tree"
  shows "goodly (insert_first ops key rid e) (\<lambda>e _. \<exists>C' K' root. at e (tree\<lparr>root_page_id := root\<rparr>) C' K' \<and>
    header_ok C' (tree\<lparr>root_page_id := root\<rparr>) \<and> holds_tree C' (tree\<lparr>root_page_id := root\<rparr>) (Some (Lf root [(key, rid)])))"
    (is "goodly _ ?Q")
proof -
  let ?lm = "leaf_max_size tree" and ?I = INVALID_PAGE_ID
  have c: "2 \<le> unat ?lm" "unat ?lm \<le> 254" using cap by (simp_all add: capacities)
  obtain d0 where d0: "leaf_Initialize ?lm ?I ?I = Inr d0" "is_leaf d0 ?lm ?I ?I []" using leaf_Initialize_ok[OF c] by blast
  obtain d where d: "leaf_Assign [(key, rid)] d0 = Inr d" "is_leaf d ?lm ?I ?I [(key, rid)]" using leaf_Assign_ok[OF d0(2), of "[(key, rid)]"] c by auto
  have li: "leaf_Insert key rid d0 = Inr d" using d(1) c leaf_get[OF d0(2)] by (simp add: leaf_Insert_def lower_bound_def insert_at_def)
  show ?thesis unfolding insert_first_def
  proof (rule good_andthen[OF new_ok[OF e]])
    fix e1 q assume "at e1 tree C (insert q K) \<and> q \<notin> K"
    then have e1: "at e1 tree C (insert q K)" and q: "q \<notin> K" by simp_all
    let ?t = "tree\<lparr>root_page_id := q\<rparr>"
    have lm: "leaf_max_size (fst e1) = ?lm" using e1 by (simp add: at_def)
    have e1': "at (set_root q e1) ?t C (insert q K)" using e1 by (simp add: at_def set_root_def)
    have hq: "header_page_id tree \<noteq> q" using h q at_facts(3,4)[OF e] at_facts(4)[OF e1] by (auto simp: header_ok_def)
    show "goodly (andthen (lift_result (leaf_Initialize (leaf_max_size (fst e1)) ?I ?I) e1) (\<lambda>e leaf.
      andthen (lift_result (leaf_Insert key rid leaf) e) (\<lambda>e leaf.
      andthen (FinalizeWrite ops q leaf (set_root q e)) (\<lambda>e _. PersistRootPageId ops e)))) ?Q"
      unfolding lm d0(1) andthen_lift li
    proof (rule good_andthen[OF finalize_ok[OF e1' _ leaf_get(6)[OF d(2)]]])
      fix e2 u assume e2: "at e2 ?t (C(q \<mapsto> d)) (insert q K)"
      have s: "set_root q e2 = e2" using e2 by (cases e2) (simp add: at_def set_root_def)
      have t: "?t\<lparr>root_page_id := q\<rparr> = ?t" "header_page_id ?t = header_page_id tree" by simp_all
      have "header_ok (C(q \<mapsto> d)) (?t\<lparr>root_page_id := root_page_id tree\<rparr>)" using h hq by (auto simp: header_ok_def)
      from persist_ok[OF e2 this, of q, unfolded s t]
      show "goodly (PersistRootPageId ops e2) ?Q"
      proof (rule good_weaken)
        fix e3 z assume "\<exists>C'. at e3 ?t C' (insert q K) \<and> header_ok C' ?t \<and> (\<forall>p. p \<noteq> header_page_id tree \<longrightarrow> C' p = (C(q \<mapsto> d)) p)"
        then obtain C' where C': "at e3 ?t C' (insert q K)" "header_ok C' ?t" "\<And>p. p \<noteq> header_page_id tree \<Longrightarrow> C' p = (C(q \<mapsto> d)) p" by blast
        have "C' q = Some d" using C'(3)[of q] hq by simp
        then have "holds_tree C' ?t (Some (Lf q [(key, rid)]))" using d(2) key_range[of key] hq by simp
        then show "?Q e3 z" using C'(1,2) by blast
      qed
    qed simp
  qed
qed

lemma Insert_ok:
  assumes e: "at e tree C K" and T: "tree_holds C tree t"
  shows "\<exists>e' r. Insert ops key rid e = Some (e', r) \<and> (case r of
      Inr _ \<Rightarrow> (key, rid) \<notin> set (search_entries key t) \<and>
        (\<exists>C' K' root. at e' (tree\<lparr>root_page_id := root\<rparr>) C' K' \<and> tree_ok C' (tree\<lparr>root_page_id := root\<rparr>) (add_mset (key, rid) (tree_entries t)))
    | Inl err \<Rightarrow> failed (snd e') \<or> err = AlreadyExists \<and> (key, rid) \<in> set (search_entries key t) \<and> (key, rid) \<in># tree_entries t \<and> at e' tree C K)"
proof -
  define S where "S = tree_entries t"
  let ?lm = "leaf_max_size tree" and ?im = "internal_max_size tree" and ?x = "(key, rid)" and ?I = INVALID_PAGE_ID
  have cap: "capacities_ok ?lm ?im" and h: "header_ok C tree" using T by (simp_all add: tree_holds_def)
  then have c: "3 \<le> unat ?im" "unat ?im \<le> 254" by (simp_all add: capacities)
  have f: "fst e = tree" using e by (simp add: at_def)
  have t: "holds_tree C tree t" "S = (case t of None \<Rightarrow> {#} | Some t \<Rightarrow> mset (ents t))" using T by (auto simp: tree_holds_def S_def tree_entries_def)
  have done_if: "?thesis" if g: "goodly (Insert ops key rid e) (\<lambda>e _. \<exists>C' K' root. at e (tree\<lparr>root_page_id := root\<rparr>) C' K' \<and>
      tree_ok C' (tree\<lparr>root_page_id := root\<rparr>) (add_mset ?x S))" and new: "?x \<notin> set (search_entries key t)"
  proof -
    obtain e' r where r: "Insert ops key rid e = Some (e', r)" "case r of Inl _ \<Rightarrow> failed (snd e') | Inr a \<Rightarrow> ok (snd e') \<and>
      (\<exists>C' K' root. at e' (tree\<lparr>root_page_id := root\<rparr>) C' K' \<and> tree_ok C' (tree\<lparr>root_page_id := root\<rparr>) (add_mset ?x S))"
      using g unfolding good_def by blast
    then show ?thesis using new by (cases r) (simp_all add: S_def)
  qed
  show ?thesis
  proof (cases t)
    case None
    then have I: "Insert ops key rid e = insert_first ops key rid e" using t f cap by (simp add: Insert_def IsEmpty_def)
    show ?thesis
    proof (rule done_if, unfold I, rule good_weaken[OF insert_first_ok[OF e cap h]])
      show "?x \<notin> set (search_entries key t)" using None by (simp add: search_entries_def)
    next
      fix e1 z assume "\<exists>C' K' root. at e1 (tree\<lparr>root_page_id := root\<rparr>) C' K' \<and>
        header_ok C' (tree\<lparr>root_page_id := root\<rparr>) \<and> holds_tree C' (tree\<lparr>root_page_id := root\<rparr>) (Some (Lf root [?x]))"
      then obtain C' K' root where A: "at e1 (tree\<lparr>root_page_id := root\<rparr>) C' K'" "header_ok C' (tree\<lparr>root_page_id := root\<rparr>)"
        "holds_tree C' (tree\<lparr>root_page_id := root\<rparr>) (Some (Lf root [?x]))" by blast
      have "tree_ok C' (tree\<lparr>root_page_id := root\<rparr>) (add_mset ?x S)" unfolding tree_ok_def
        using cap A(2,3) t None by (intro conjI exI[of _ "Some (Lf root [?x])"]) simp_all
      then show "\<exists>C' K' root. at e1 (tree\<lparr>root_page_id := root\<rparr>) C' K' \<and> tree_ok C' (tree\<lparr>root_page_id := root\<rparr>) (add_mset ?x S)"
        using A(1) by blast
    qed
  next
    case (Some u)
    have H: "holds_tree C tree (Some u)" using t(1) Some by simp
    have S: "S = mset (ents u)" using t(2) Some by simp
    have U: "root_page_id tree = page_of u" "distinct (pages u)" "header_page_id tree \<notin> set (pages u)"
      "rep C ?lm ?im ?I ?I u" "keys_in (- (2 ^ 63)) (2 ^ 63 - 1) u" "\<exists>n. balanced n u" "filled_root ?lm ?im u" using H by simp_all
    obtain n where n: "balanced n u" using U(6) by blast
    obtain b where b: "C (page_of u) = Some b" using U(4) by (cases u) auto
    have ne: "\<not> IsEmpty e" using U(1) f at_facts(5)[OF e b] by (simp add: IsEmpty_def)
    let ?rest = "\<lambda>path leaf e. andthen (InsertIntoLeaf ops leaf key rid e) (\<lambda>e split.
       if right_page_id split = ?I then return () e else insert_up ops (rev path) leaf split e)"
    have I: "Insert ops key rid e = andthen (FindLeaf ops key None e) (\<lambda>e (leaf, path). ?rest path leaf e)"
      using f cap ne by (simp add: Insert_def)
    obtain e1 r1 where F: "FindLeaf ops key None e = Some (e1, r1)" "case r1 of Inl _ \<Rightarrow> failed (snd e1) | Inr r \<Rightarrow> ok (snd e1) \<and>
        at e1 tree C K \<and> (\<exists>fs p es. u = plug fs (Lf p es) \<and> r = (p, map fst fs) \<and> list_all (guides key) fs)"
      using FindLeaf_ok[OF e H, of key None] unfolding good_def by blast
    show ?thesis
    proof (cases r1)
      case (Inl err)
      then have "Insert ops key rid e = Some (e1, Inl err)" unfolding I F(1) by (simp add: andthen_def)
      then show ?thesis using F(2) Inl by simp
    next
      case (Inr r)
      then obtain fs p es where P: "at e1 tree C K" "u = plug fs (Lf p es)" "r = (p, map fst fs)" "list_all (guides key) fs" using F(2) by auto
      have I2: "Insert ops key rid e = ?rest (map fst fs) p e1" unfolding I F(1) using Inr P(3) by (simp add: andthen_def)
      have se: "set es \<subseteq> set (ents u)" unfolding ents_def P(2) leaves_plug by auto
      have sl: "search_entries key t = es" using search_leaf_plug[OF U(5)[unfolded P(2)] P(4)] Some P(2) by (simp add: search_entries_def)
      show ?thesis
      proof (cases "?x \<in> set es")
        case True
        have "chain C ?lm ?I (leaves u)" using rep_chain(1)[OF U(4)] .
        then have "chain C ?lm ?I ((p, es) # right_leaves fs)" unfolding P(2) leaves_plug chain_append by simp
        then obtain d par nx where d: "C p = Some d" "is_leaf d ?lm par nx es" by auto
        note ins = insert_entry(1)[OF leaf_get(7)[OF d(2)] refl, of ?x]
        obtain s b where fw: "fetch_write ops p e1 = Some (s, b)" "case b of Inl _ \<Rightarrow> failed (snd s) | Inr a \<Rightarrow> ok (snd s) \<and> at s tree C K \<and> a = d"
          using fetch_write_ok[OF P(1) d(1)] unfolding good_def by blast
        have "InsertIntoLeaf ops p key rid e1 = (case b of Inl err \<Rightarrow> Some (s, Inl err) | Inr _ \<Rightarrow> fail AlreadyExists s)"
          using fw ins True leaf_get[OF d(2)] is_leaf_valid[OF d(2)]
          by (cases b) (simp_all add: InsertIntoLeaf_def andthen_def Let_def)
        then have "Insert ops key rid e = (case b of Inl err \<Rightarrow> Some (s, Inl err) | Inr _ \<Rightarrow> Some (s, Inl AlreadyExists))"
          unfolding I2 by (cases b) (simp_all add: andthen_def fail_def)
        then show ?thesis using fw(2) True se S sl by (cases b) (auto simp: S_def[symmetric])
      next
        case False
        have bel: "below ?lm ?im u" using U(7) by (cases u) simp_all
        note ib = insert_below_ok[OF P(1) U(4)[unfolded P(2)] U(5)[unfolded P(2)] P(4) False key_range n[unfolded P(2)] bel[unfolded P(2)]
            U(2)[unfolded P(2)], folded P(2)]
        show ?thesis
        proof (rule done_if, unfold I2 insert_up_below, rule good_andthen[OF ib])
          show "?x \<notin> set (search_entries key t)" using False sl by simp
        next
          fix e2 and r2 :: "(page_id_t \<times> SplitResult) option"
          assume ok: "ok (snd e2)" and "inserted tree C K ?lm ?im ?I ?I (- (2 ^ 63)) (2 ^ 63 - 1) n ?x u e2 r2"
          then obtain C1 K1 where A: "at e2 tree C1 K1" "case r2 of
              None \<Rightarrow> (\<exists>t'. within C K (set (pages u)) C1 K1 (set (pages t')) \<and> one_tree C1 ?lm ?im ?I ?I (- (2 ^ 63)) (2 ^ 63 - 1) n ?x u t')
            | Some (left, split) \<Rightarrow> left = page_of u \<and> (\<exists>t1 t2. within C K (set (pages u)) C1 K1 (set (pages t1) \<union> set (pages t2)) \<and>
                right_page_id split = page_of t2 \<and> two_trees C1 ?lm ?im ?I ?I (- (2 ^ 63)) (2 ^ 63 - 1) n ?x u t1 (sint (separator split)) t2)"
            unfolding inserted_def by blast
          have hd: "header_page_id tree \<in> K \<or> header_page_id tree = ?I" using h at_facts(3)[OF e] by (auto simp: header_ok_def)
          have head: "header_ok C1 tree" "header_page_id tree \<notin> P'" if "within C K (set (pages u)) C1 K1 P'" "P' \<subseteq> K1" for P'
          proof -
            show "header_page_id tree \<notin> P'" using hd that U(3) at_facts(4)[OF A(1)] unfolding within_def by (elim disjE) auto
            show "header_ok C1 tree"
            proof (cases "header_page_id tree = ?I")
              case False
              then have "C1 (header_page_id tree) = C (header_page_id tree)" using hd that(1) U(3) unfolding within_def by blast
              then show ?thesis using h by (simp add: header_ok_def)
            qed (simp add: header_ok_def)
          qed
          show "goodly (case r2 of None \<Rightarrow> return () e2 | Some (left, split) \<Rightarrow> CreateNewRoot ops left (separator split) (right_page_id split) e2)
            (\<lambda>e _. \<exists>C' K' root. at e (tree\<lparr>root_page_id := root\<rparr>) C' K' \<and> tree_ok C' (tree\<lparr>root_page_id := root\<rparr>) (add_mset ?x S))"
          proof (cases r2)
            case None
            then obtain t' where t': "within C K (set (pages u)) C1 K1 (set (pages t'))" "one_tree C1 ?lm ?im ?I ?I (- (2 ^ 63)) (2 ^ 63 - 1) n ?x u t'"
              using A(2) by auto
            have O: "page_of t' = page_of u" "rep C1 ?lm ?im ?I ?I t'" "keys_in (- (2 ^ 63)) (2 ^ 63 - 1) t'" "balanced n t'" "below ?lm ?im t'"
              "node_size u \<le> node_size t'" "distinct (pages t')" "mset (ents t') = add_mset ?x (mset (ents u))" using t'(2) by (simp_all add: one_tree_def)
            have "set (pages t') \<subseteq> K1" using rep_dom(1)[OF O(2)] at_facts(3)[OF A(1)] by blast
            note hh = head[OF t'(1) this]
            have "filled_root ?lm ?im t'" using U(7) n O(4-6) by (cases u; cases t') auto
            then have "holds_tree C1 tree (Some t')" using O U(1) hh(2) by auto
            then have "tree_ok C1 tree (add_mset ?x S)" unfolding tree_ok_def using cap hh(1) O(8) S by (intro conjI exI[of _ "Some t'"]) simp_all
            moreover have "tree\<lparr>root_page_id := root_page_id tree\<rparr> = tree" by simp
            ultimately have "\<exists>C' K' root. at e2 (tree\<lparr>root_page_id := root\<rparr>) C' K' \<and> tree_ok C' (tree\<lparr>root_page_id := root\<rparr>) (add_mset ?x S)"
              using A(1) by metis
            then show ?thesis using None ok by (simp add: good_return)
          next
            case (Some a)
            obtain left split where a: "a = (left, split)" by (cases a)
            obtain t1 t2 where W: "left = page_of u" "within C K (set (pages u)) C1 K1 (set (pages t1) \<union> set (pages t2))"
              "right_page_id split = page_of t2" "two_trees C1 ?lm ?im ?I ?I (- (2 ^ 63)) (2 ^ 63 - 1) n ?x u t1 (sint (separator split)) t2"
              using A(2) unfolding Some a option.case prod.case by blast
            have l: "left = page_of t1" and m: "mset (ents t1 @ ents t2) = add_mset ?x (mset (ents u))"
              and r12: "rep C1 ?lm ?im ?I (first_leaf t2) t1" "rep C1 ?lm ?im ?I ?I t2" using W(1,4) by (simp_all add: two_trees_def)
            have "set (pages t1) \<union> set (pages t2) \<subseteq> K1" using rep_dom(1)[OF r12(1)] rep_dom(1)[OF r12(2)] at_facts(3)[OF A(1)] by blast
            note hh = head[OF W(2) this]
            show ?thesis unfolding Some a option.case prod.case l W(3)
            proof (rule good_weaken[OF CreateNewRoot_ok[OF A(1) refl refl c hh W(4)]])
              fix e3 z assume "\<exists>C' K' root. at e3 (tree\<lparr>root_page_id := root\<rparr>) C' K' \<and> header_ok C' (tree\<lparr>root_page_id := root\<rparr>) \<and>
                holds_tree C' (tree\<lparr>root_page_id := root\<rparr>) (Some (Nd root [(0, t1), (separator split, t2)]))"
              then obtain C' K' root where R: "at e3 (tree\<lparr>root_page_id := root\<rparr>) C' K'" "header_ok C' (tree\<lparr>root_page_id := root\<rparr>)"
                "holds_tree C' (tree\<lparr>root_page_id := root\<rparr>) (Some (Nd root [(0, t1), (separator split, t2)]))" by blast
              have "tree_ok C' (tree\<lparr>root_page_id := root\<rparr>) (add_mset ?x S)" unfolding tree_ok_def
                using cap R(2,3) m S by (intro conjI exI[of _ "Some (Nd root [(0, t1), (separator split, t2)])"]) simp_all
              then show "\<exists>C' K' root. at e3 (tree\<lparr>root_page_id := root\<rparr>) C' K' \<and> tree_ok C' (tree\<lparr>root_page_id := root\<rparr>) (add_mset ?x S)"
                using R(1) by blast
            qed
          qed
        qed
      qed
    qed
  qed
qed

end

end
