(* ===== verification/PoolSerial.thy ===== *)
theory PoolSerial
  imports PoolSafety
begin

text \<open>
  The calls of the buffer pool when they run one after the other: each whole call is a sequence of steps of the protocol, from
  a state with no call under way and no page held to such a state. So the invariant says what a fetch returns and what a write
  leaves.
\<close>

definition at_rest :: "pool_state \<Rightarrow> bool" where
  "at_rest s \<longleftrightarrow> pool_inv s \<and> ps_job s = (\<lambda>_. None) \<and> ps_hold s = (\<lambda>_. [])"

definition holding :: "frame_id_t \<Rightarrow> hold \<Rightarrow> pool_state \<Rightarrow> bool" where
  "holding f h s \<longleftrightarrow> pool_inv s \<and> ps_job s = (\<lambda>_. None) \<and> ps_hold s = (\<lambda>_. [])(f := [h])"

lemma holding_hold: "holding f h s \<Longrightarrow> ps_hold s f = [] @ h # []"
  by (simp add: holding_def)

lemma fetch_io_allocated:
  assumes inv: "pool_inv s" and j: "ps_job s f = Some (JLoad p sel old)" and io: "fetch_io h p sel old (ps_pool s) = Some (bp, c)"
  shows "allocated (disk_manager bp) = al_of s"
proof -
  have f: "f < n_of s" using job_frame[OF inv j] .
  have "chosen_ok f sel p old (fr_at s f)" using job_is[OF inv j] by simp
  note C = chosen_facts[OF inv f this]
  obtain b0 c0 where e: "evict_io h sel old (ps_pool s) = Some (b0, c0)" "load_io sel p (b0, c0) = (bp, c)"
    using io by (auto simp: fetch_io_def)
  from evict_io_cases[OF inv f C(3) _ e(1)] C(8) have d: "disk_ok (disk_manager b0)" "allocated (disk_manager b0) = al_of s" by auto
  obtain dm r where rd: "ReadPage p (disk_manager b0) = (dm, r)" by fastforce
  have "allocated dm = al_of s" using disk.rd_same[OF d(1) rd] d(2) by simp
  then show ?thesis using e(2) rd d(2) by (cases r) (auto simp: load_io_def Let_def split: if_splits)
qed

lemma finish_disk: "disk_manager (fetch_finish p sel old Code_Ok bp) = disk_manager bp"
  by (simp add: fetch_finish_def Let_def enter_replacer_def install_page_def note_eviction_def)

lemma serial_fetch:
  assumes rest: "at_rest s" and p: "p \<in> al_of s" and r: "fetch_rest h p (fetch_enter p tp (ps_pool s)) = Some (bp, FR_Guard f)"
  shows "\<exists>s'. holding f (H_Wait p) s' \<and> ps_pool s' = bp \<and> ps_map s' = ps_map s \<and> al_of s' = al_of s"
proof -
  have R: "pool_inv s" "ps_job s = (\<lambda>_. None)" "ps_hold s = (\<lambda>_. [])" using rest by (simp_all add: at_rest_def)
  obtain b1 x where e: "fetch_enter p tp (ps_pool s) = (b1, x)" by fastforce
  have turn: "fetch_turn p (ps_pool s) (b1, x)" using e by (auto simp: fetch_turn_def)
  note F = fetch_turn_fetched[OF R(1) turn] and D = fetch_disk[OF turn]
  show ?thesis
  proof (cases x)
    case (FE_Hit g)
    then have "b1 = bp" "g = f" using r e by (simp_all add: fetch_rest_def)
    then show ?thesis using F D R(2,3) FE_Hit
      by (intro exI[of _ "add_hold f (H_Wait p) (set_pool bp s)"]) (simp add: holding_def fetched_def)
  next
    case (FE_Load sel old)
    let ?g = "sel_frame sel"
    define s1 where "s1 = set_job ?g (Some (JLoad p sel old)) (set_pool b1 s)"
    have "known_page s p" using p R(2) by (simp add: known_page_def)
    then have i1: "pool_inv s1" using F FE_Load by (simp add: fetched_def s1_def)
    have j1: "ps_job s1 ?g = Some (JLoad p sel old)" "ps_pool s1 = b1" by (simp_all add: s1_def)
    obtain b2 c where io: "fetch_io h p sel old b1 = Some (b2, c)" and c: "c = Code_Ok" and bp: "bp = fetch_finish p sel old Code_Ok b2" and g: "?g = f"
      using r e FE_Load by (auto simp: fetch_rest_def split: option.splits if_splits)
    note io' = io[folded j1(2), unfolded c]
    define s2 where "s2 = set_job ?g (Some (JLoaded p sel old Code_Ok)) (set_pool b2 s1)"
    have i2: "pool_inv s2" using pool_inv_load_io[OF i1 j1(1) io'] by (simp add: s2_def)
    have j2: "ps_job s2 ?g = Some (JLoaded p sel old Code_Ok)" "ps_pool s2 = b2" by (simp_all add: s2_def)
    have a2: "al_of s2 = al_of s" using fetch_io_allocated[OF i1 j1(1) io'] D by (simp add: j1(2) j2(2))
    let ?s = "add_hold ?g (H_Wait p) (set_job ?g None (set_pool bp s2))"
    have "pool_inv ?s" using pool_inv_load_done[OF i2 j2(1)] by (simp add: j2(2) bp)
    moreover have "ps_job ?s = (\<lambda>_. None)" "ps_hold ?s = (\<lambda>_. [])(f := [H_Wait p])" "ps_map ?s = ps_map s" "ps_pool ?s = bp"
      using R(2,3) by (auto simp: s2_def s1_def g)
    moreover have "al_of ?s = al_of s" using a2 by (simp add: bp finish_disk j2(2))
    ultimately show ?thesis unfolding g holding_def by blast
  qed (use r e in \<open>auto simp: fetch_rest_def\<close>)
qed

lemma serial_release:
  assumes hold: "holding f (H_Done p d) s" and r: "ReleaseGuard h f p d (ps_pool s) = Some (bp, c)"
  shows "\<exists>s'. at_rest s' \<and> ps_pool s' = bp \<and> ps_map s' = ps_map s \<and> al_of s' = al_of s"
proof -
  have R: "pool_inv s" "ps_job s = (\<lambda>_. None)" "ps_hold s = (\<lambda>_. [])(f := [H_Done p d])" using hold by (simp_all add: holding_def)
  have hm: "H_Done p d \<in> set (ps_hold s f)" using R(3) by simp
  note H = hold_in_use[OF R(1) hm] and I = pool_invD[OF R(1)]
  have m: "frame_matches f p (ps_pool s)" using I(2) H(1,4) by (simp add: frame_matches_def)
  obtain b1 x where e: "release_enter f p d (ps_pool s) = (b1, x)" by fastforce
  note P = pool_inv_release[OF R(1) holding_hold[OF hold] e] and D = release_at(4)[OF e m H(3)]
  show ?thesis
  proof (cases x)
    case (RE_Return c')
    then have b: "b1 = bp" using r e by (simp add: ReleaseGuard_def release_rest_def)
    have "at_rest (set_hold f [] (set_pool bp s))" using P RE_Return R b by (auto simp: at_rest_def)
    then show ?thesis using D b by (intro exI[of _ "set_hold f [] (set_pool bp s)"]) simp
  next
    case RE_Flush
    obtain b2 c2 where w: "write_frame h f p b1 = Some (b2, c2)" and bp: "bp = flush_finish f c2 b2"
      using r e RE_Flush by (auto simp: ReleaseGuard_def release_rest_def split: option.splits)
    define s1 where "s1 = set_job f (Some (JThrough p)) (set_hold f [] (set_pool b1 s))"
    have i1: "pool_inv s1" using P RE_Flush by (simp add: s1_def)
    have j1: "ps_job s1 f = Some (JThrough p)" "ps_pool s1 = b1" by (simp_all add: s1_def)
    define s2 where "s2 = set_job f (Some (JFlushed p c2)) (set_pool b2 s1)"
    have i2: "pool_inv s2" using pool_inv_flush_written[OF i1 j1(1), of p h b2 c2] w by (simp add: s2_def j1(2))
    have j2: "ps_job s2 f = Some (JFlushed p c2)" "ps_pool s2 = b2" by (simp_all add: s2_def)
    let ?s = "set_job f None (set_pool bp s2)"
    have i3: "pool_inv ?s" using pool_inv_flushed[OF i2 j2(1)] by (simp add: bp j2(2))
    have "at_rest ?s" using i3 R(2,3) by (auto simp: at_rest_def s2_def s1_def)
    moreover have "al_of ?s = al_of s"
    proof -
      have p: "p \<in> al_of s1" "f < n_of s1"
        using H(4) owns_facts(3)[OF R(1) H(6)] job_frame[OF i1 j1(1)] D by (simp_all add: s1_def)
      from write_frame_cases[OF i1 p(2,1), of h b2 c2] w j1(2) have "allocated (disk_manager b2) = al_of s1" by auto
      moreover have "disk_manager bp = disk_manager b2" by (simp add: bp flush_finish_def Let_def)
      ultimately show ?thesis using D by (simp add: s1_def)
    qed
    ultimately show ?thesis by (intro exI[of _ ?s]) (simp add: s2_def s1_def)
  qed
qed

text \<open>Reading a page: what the holder sees is the contents of the page.\<close>

lemma serial_read:
  assumes hold: "holding f (H_Wait p) s" and r: "ReadGuard_Reset h f p (ps_pool s) = Some bp"
  shows "ps_map s p = Some c \<Longrightarrow> frame_page (fr_at s f) = c" "\<exists>s'. at_rest s' \<and> ps_pool s' = bp \<and> ps_map s' = ps_map s \<and> al_of s' = al_of s"
proof -
  have R: "pool_inv s" "ps_job s = (\<lambda>_. None)" "ps_hold s = (\<lambda>_. [])(f := [H_Wait p])" using hold by (simp_all add: holding_def)
  have hm: "H_Wait p \<in> set (ps_hold s f)" using R(3) by simp
  show "ps_map s p = Some c \<Longrightarrow> frame_page (fr_at s f) = c" using held_map(1)[OF R(1) hm] hold_in_use(4)[OF R(1) hm] by simp
  obtain c where rel: "ReleaseGuard h f p False (ps_pool s) = Some (bp, c)" using r by (auto simp: ReadGuard_Reset_def)
  define s1 where "s1 = set_hold f [H_Read p] s"
  have i1: "pool_inv s1" using pool_inv_latch_read[OF R(1) holding_hold[OF hold]] by (simp add: s1_def)
  have h1: "ps_hold s1 f = [] @ H_Read p # []" by (simp add: s1_def)
  define s2 where "s2 = set_hold f [H_Done p False] s1"
  have i2: "pool_inv s2" using pool_inv_read_drop[OF i1 h1] by (simp add: s2_def)
  have "holding f (H_Done p False) s2" using i2 R(2,3) by (auto simp: holding_def s2_def s1_def)
  from serial_release[OF this, of h bp c] rel show "\<exists>s'. at_rest s' \<and> ps_pool s' = bp \<and> ps_map s' = ps_map s \<and> al_of s' = al_of s"
    by (simp add: s2_def s1_def)
qed

lemma serial_guard:
  assumes hold: "holding f (H_Wait p) s" and g: "make_WritePageGuard f p tp (ps_pool s) = (bp, g)"
  shows "\<exists>s'. holding f (H_Write g (ps_map s p)) s' \<and> ps_pool s' = bp \<and> ps_map s' = ps_map s \<and> al_of s' = al_of s"
    "wg_frame g = f" "wg_page_id g = p" "frame_page (frame_at bp f) = frame_page (fr_at s f)" "\<not> wg_dirty g"
proof -
  have R: "pool_inv s" "ps_job s = (\<lambda>_. None)" "ps_hold s = (\<lambda>_. [])(f := [H_Wait p])" using hold by (simp_all add: holding_def)
  have b: "core_same (ps_pool s) bp" using g by (auto simp: make_WritePageGuard_def Let_def split: option.splits)
  show "wg_frame g = f" "wg_page_id g = p" "\<not> wg_dirty g" "frame_page (frame_at bp f) = frame_page (fr_at s f)"
    using g core_sameD(8)[OF b] by (auto simp: make_WritePageGuard_def Let_def split: option.splits)
  let ?s = "set_hold f [H_Write g (ps_map s p)] (set_pool bp s)"
  have "pool_inv ?s" using pool_inv_latch_write[OF R(1) holding_hold[OF hold] _ _ g] by simp
  then have "holding f (H_Write g (ps_map s p)) ?s" using R(2,3) by (simp add: holding_def)
  then show "\<exists>s'. holding f (H_Write g (ps_map s p)) s' \<and> ps_pool s' = bp \<and> ps_map s' = ps_map s \<and> al_of s' = al_of s"
    using core_sameD(7)[OF b] by (intro exI[of _ ?s]) simp
qed

lemma serial_drop:
  assumes hold: "holding f (H_Write g x) s" and r: "WriteGuard_Reset h g (ps_pool s) = Some (bp, c)" and c: "c = Code_Ok \<or> \<not> wg_dirty g"
  shows "\<exists>s'. at_rest s' \<and> ps_pool s' = bp \<and> ps_map s' = ps_map s \<and> al_of s' = al_of s"
proof -
  have R: "pool_inv s" "ps_job s = (\<lambda>_. None)" "ps_hold s = (\<lambda>_. [])(f := [H_Write g x])" using hold by (simp_all add: holding_def)
  have hm: "H_Write g x \<in> set (ps_hold s f)" using R(3) by simp
  note G = frame_invD(4)[OF R(1) hold_in_use(1)[OF R(1) hm] hm]
  obtain b1 g1 c1 where l: "guard_log g (ps_pool s) = (b1, g1, c1)" by (cases "guard_log g (ps_pool s)") auto
  note L = guard_log_cases[OF R(1) hm l]
  have fr: "wg_frame g1 = f" "wg_page_id g1 = wg_page_id g" using L G by auto
  obtain b2 c2 where rel: "ReleaseGuard h f (wg_page_id g) (wg_dirty g1) b1 = Some (b2, c2)" and bp: "bp = guard_unregister g1 c2 b2"
    and cc: "c = (if c1 \<noteq> Code_Ok then c1 else c2)"
    using r l fr by (auto simp: WriteGuard_Reset_def split: option.splits)
  have ok: "c1 = Code_Ok" using L c cc by auto
  have D: "disk_manager b1 = dk s" using L core_sameD(7) by fastforce
  define s1 where "s1 = (set_hold f [H_Done (wg_page_id g) (wg_dirty g1)] (set_pool b1 s))\<lparr>ps_map := ps_map s, ps_log := ps_log s\<rparr>"
  have i1: "pool_inv s1" using pool_inv_write_drop[OF R(1) holding_hold[OF hold] l, of "ps_log s"] ok by (simp add: s1_def)
  have "holding f (H_Done (wg_page_id g) (wg_dirty g1)) s1" using i1 R(2,3) by (simp add: holding_def s1_def)
  from serial_release[OF this, of h b2 c2] rel obtain s2 where
    s2: "at_rest s2" "ps_pool s2 = b2" "ps_map s2 = ps_map s" "al_of s2 = al_of s" using D by (auto simp: s1_def)
  have u: "core_same b2 bp" unfolding bp guard_unregister_def
    using core_same_trans[OF core_same_fields(9) core_same_fields(9)] by (auto split: option.splits)
  then have "at_rest (set_pool bp s2)" using s2(1,2) pool_inv_set[of s2 bp] by (simp add: at_rest_def)
  then show ?thesis using s2 core_sameD(7)[OF u] by (intro exI[of _ "set_pool bp s2"]) simp
qed

text \<open>Writing a page and dropping its guard.\<close>

lemma serial_write:
  assumes hold: "holding f (H_Write g x) s" and len: "length bytes = page_size"
    and r: "WriteGuard_Reset h (g\<lparr>wg_dirty := True\<rparr>) (upd_frame f (\<lambda>fr. fr\<lparr>frame_page := bytes\<rparr>) (ps_pool s)) = Some (bp, Code_Ok)"
  shows "\<exists>s'. at_rest s' \<and> ps_pool s' = bp \<and> ps_map s' = (ps_map s)(wg_page_id g \<mapsto> bytes) \<and> al_of s' = al_of s"
proof -
  have R: "pool_inv s" "ps_job s = (\<lambda>_. None)" "ps_hold s = (\<lambda>_. [])(f := [H_Write g x])" using hold by (simp_all add: holding_def)
  let ?b = "upd_frame f (\<lambda>fr. fr\<lparr>frame_page := bytes\<rparr>) (ps_pool s)"
  define s1 where "s1 = (set_hold f [H_Write (g\<lparr>wg_dirty := True\<rparr>) x] (set_pool ?b s))\<lparr>ps_map := (ps_map s)(wg_page_id g \<mapsto> bytes)\<rparr>"
  have "pool_inv s1" using pool_inv_write[OF R(1) holding_hold[OF hold] len] by (simp add: s1_def)
  then have "holding f (H_Write (g\<lparr>wg_dirty := True\<rparr>) x) s1" using R(2,3) by (simp add: holding_def s1_def)
  from serial_drop[OF this, of h bp Code_Ok] r show ?thesis by (simp add: s1_def)
qed

text \<open>Creating a page: the page was free before, and it is held.\<close>

lemma new_lock_keeps: "new_lock tp (bp, r) = (bp', Some (Inr p)) \<Longrightarrow> r = Inr p \<and> disk_manager bp' = disk_manager bp"
proof (cases "\<exists>t p. tp = Some t \<and> r = Inr p")
  case True
  assume l: "new_lock tp (bp, r) = (bp', Some (Inr p))"
  obtain t q where t: "tp = Some t" "r = Inr q" using True by blast
  obtain b x where a: "AcquirePageLock q t' L_X bp = (b, x)" if "t' = tp" for t' by fastforce
  have "disk_manager b = disk_manager bp" using acquire_lock[OF a[OF refl]] by auto
  moreover have "drop_allocated q t c b = (bp', Inr p) \<Longrightarrow> False" for c by (auto simp: drop_allocated_def split: prod.splits)
  ultimately show ?thesis using l t a[OF refl] by (auto simp: new_lock_def apsnd_def map_prod_def split: lock_outcome.splits if_splits prod.splits)
qed (auto simp: new_lock_def split: option.splits sum.splits)

lemma new_log_keeps: "new_log tp (bp, r) = (bp', Inr p) \<Longrightarrow> r = Inr p \<and> disk_manager bp' = disk_manager bp"
proof (cases "\<exists>t p. tp = Some t \<and> r = Inr p")
  case True
  assume l: "new_log tp (bp, r) = (bp', Inr p)"
  obtain t q where t: "tp = Some t" "r = Inr q" using True by blast
  obtain b y where a: "append_for t (page_record L_PageAllocate q) bp = (b, y)" by fastforce
  have "disk_manager b = disk_manager bp" using append_core[OF a] by auto
  moreover have "drop_allocated q t c b = (bp', Inr p) \<Longrightarrow> False" for c by (auto simp: drop_allocated_def split: prod.splits)
  ultimately show ?thesis using l t a by (auto simp: new_log_def upd_pool_txn_def split: if_splits prod.splits sum.splits)
qed (auto simp: new_log_def split: option.splits sum.splits)

lemma new_finish_disk: "disk_manager (new_finish sel old (Inr p) bp) = disk_manager bp"
  by (simp add: new_finish_def Let_def enter_replacer_def install_page_def note_eviction_def)

lemma serial_new:
  assumes rest: "at_rest s" and r: "NewPage h tp (ps_pool s) = Some (bp, FR_Guard g)"
  shows "\<exists>s'. holding (wg_frame g) (H_Write g (ps_map s (wg_page_id g))) s' \<and> ps_pool s' = bp \<and> ps_map s' = ps_map s \<and>
    al_of s' = insert (wg_page_id g) (al_of s)" "wg_page_id g \<notin> al_of s" "\<not> wg_dirty g"
proof -
  have R: "pool_inv s" "ps_job s = (\<lambda>_. None)" "ps_hold s = (\<lambda>_. [])" using rest by (simp_all add: at_rest_def)
  obtain b1 sel old where e: "new_enter tp (ps_pool s) = (b1, Inr (sel, old))"
    using r by (auto simp: NewPage_def split: prod.splits sum.splits)
  obtain b2 c2 where ev: "evict_io h sel old b1 = Some (b2, c2)" using r e by (auto simp: NewPage_def split: option.splits)
  obtain b3 r3 where al: "new_allocate sel (b2, c2) = (b3, r3)" by fastforce
  obtain b4 r4 where lk: "new_lock tp (b3, r3) = (b4, Some r4)" using r e ev al by (auto simp: NewPage_def split: prod.splits option.splits)
  obtain b5 p where lg: "new_log tp (b4, r4) = (b5, Inr p)" using r e ev al lk by (auto simp: NewPage_def split: prod.splits sum.splits)
  let ?f = "sel_frame sel"
  have mk: "make_WritePageGuard ?f p tp (new_finish sel old (Inr p) b5) = (bp, g)"
    using r e ev al lk lg by (auto simp: NewPage_def split: prod.splits)
  note K = new_log_keeps[OF lg]
  have lk': "new_lock tp (b3, r3) = (b4, Some (Inr p))" using lk K by simp
  note K2 = new_lock_keeps[OF lk']
  define s1 where "s1 = set_job ?f (Some (JNew tp sel old N_Start)) (set_pool b1 s)"
  have i1: "pool_inv s1" using pool_inv_new_start[OF R(1) e] by (simp add: s1_def)
  have j1: "ps_job s1 ?f = Some (JNew tp sel old N_Start)" "ps_pool s1 = b1" by (simp_all add: s1_def)
  have f: "?f < n_of s1" using job_frame[OF i1 j1(1)] .
  have "chosen_ok ?f sel INVALID_PAGE_ID old (fr_at s1 ?f)" using job_is[OF i1 j1(1)] by simp
  note C = chosen_facts[OF i1 f this]
  from evict_io_cases[OF i1 f C(3), of old h b2 c2] C(8) ev j1(2) have a2: "disk_ok (disk_manager b2)" "allocated (disk_manager b2) = al_of s1" by auto
  have a1: "al_of s1 = al_of s" using new_enter_disk[OF e] by (simp add: s1_def)
  define s2 where "s2 = set_job ?f (Some (JNew tp sel old (N_Evicted c2))) (set_pool b2 s1)"
  have i2: "pool_inv s2" using pool_inv_new_evict[OF i1 j1(1)] ev j1(2) by (simp add: s2_def)
  have j2: "ps_job s2 ?f = Some (JNew tp sel old (N_Evicted c2))" "ps_pool s2 = b2" by (simp_all add: s2_def)
  have al': "new_allocate sel (b2, c2) = (b3, Inr p)" using al K2 by simp
  obtain dm where A: "AllocatePage (disk_manager b2) = (dm, Inr p)" "disk_manager b3 = dm"
    using al' by (cases "AllocatePage (disk_manager b2)") (auto simp: new_allocate_def split: if_splits sum.splits)
  from disk.al_page[OF a2(1) A(1)] have a3: "p \<notin> al_of s" "allocated (disk_manager b3) = insert p (al_of s)" using a1 a2(2) A(2) by auto
  define s3 where "s3 = set_job ?f (Some (JNew tp sel old (N_Allocated (Inr p)))) (set_pool b3 s2)"
  have i3: "pool_inv s3" using pool_inv_new_allocate[OF i2 j2(1)] al' j2(2) by (simp add: s3_def)
  have j3: "ps_job s3 ?f = Some (JNew tp sel old (N_Allocated (Inr p)))" "ps_pool s3 = b3" by (simp_all add: s3_def)
  define s4 where "s4 = set_job ?f (Some (JNew tp sel old (N_Locked (Inr p)))) (set_pool b4 s3)"
  have i4: "pool_inv s4" using pool_inv_new_lock[OF i3 j3(1), of b4 "Some (Inr p)"] lk' K2 j3(2) by (simp add: s4_def)
  have j4: "ps_job s4 ?f = Some (JNew tp sel old (N_Locked (Inr p)))" "ps_pool s4 = b4" by (simp_all add: s4_def)
  define s5 where "s5 = set_job ?f (Some (JNew tp sel old (N_Logged (Inr p)))) (set_pool b5 s4)"
  have i5: "pool_inv s5" using pool_inv_new_log[OF i4 j4(1), of b5 "Inr p"] lg K j4(2) by (simp add: s5_def)
  have j5: "ps_job s5 ?f = Some (JNew tp sel old (N_Logged (Inr p)))" "ps_pool s5 = b5" by (simp_all add: s5_def)
  define s6 where "s6 = add_hold ?f (H_Wait p) (set_job ?f None (set_pool (new_finish sel old (Inr p) b5) s5))"
  have i6: "pool_inv s6" using pool_inv_new_done[OF i5 j5(1)] by (simp add: s6_def j5(2))
  have h6: "holding ?f (H_Wait p) s6" using i6 R(2,3) by (auto simp: holding_def s6_def s5_def s4_def s3_def s2_def s1_def)
  have p6: "ps_pool s6 = new_finish sel old (Inr p) b5" "ps_map s6 = ps_map s" by (simp_all add: s6_def s5_def s4_def s3_def s2_def s1_def)
  have d6: "al_of s6 = insert p (al_of s)" using a3(2) K K2 by (simp add: p6 new_finish_disk)
  note G = serial_guard[OF h6, of tp bp g, unfolded p6(1), OF mk]
  show "wg_page_id g \<notin> al_of s" "\<not> wg_dirty g" using G(3,5) a3(1) by simp_all
  show "\<exists>s'. holding (wg_frame g) (H_Write g (ps_map s (wg_page_id g))) s' \<and> ps_pool s' = bp \<and> ps_map s' = ps_map s \<and>
      al_of s' = insert (wg_page_id g) (al_of s)"
    using G(1) unfolding G(2,3) p6(2) d6[unfolded p6(1)] .
qed

end
