(* ===== verification/BTreePool.thy ===== *)
theory BTreePool
  imports BTreeInsert PoolSerial PoolClients
begin

text \<open>
  The B+ tree over the buffer pool: the calls it makes are calls of the model of the pool, run one after the other, and meet the
  contract \<open>page_calls\<close>. So what was shown of the tree under the contract holds for the tree in the pool, through evictions, reloads,
  page locks and logging.
\<close>

text \<open>The pool as one client sees it, with the contents of the pages as it knows them, and whether a call of it has failed.
  A call that had to wait for another transaction counts as failed here. The pages keep their guards only within a call, and
  \<open>host_ok\<close> is the outcome of the host's log flush.\<close>

record pool_client =
  client_pool :: BufferPoolManager
  client_map :: "page_id_t \<rightharpoonup> byte list"
  client_failed :: bool

definition client_ok :: "pool_client \<Rightarrow> bool" where
  "client_ok c \<longleftrightarrow> (\<exists>s :: pool_state. at_rest s \<and> ps_pool s = client_pool c \<and> ps_map s = client_map c)"

definition client_known :: "pool_client \<Rightarrow> page_id_t set" where
  "client_known c = allocated (disk_manager (client_pool c))"

definition client_fails :: "ErrorCode \<Rightarrow> BufferPoolManager \<Rightarrow> pool_client \<Rightarrow> pool_client \<times> 'a Result" where
  "client_fails e bp c = (c\<lparr>client_pool := bp, client_failed := True\<rparr>, Inl e)"

definition client_fetch :: "bool \<Rightarrow> txn_id_t option \<Rightarrow> page_id_t \<Rightarrow> pool_client \<Rightarrow> pool_client \<times> byte list Result" where
  "client_fetch host_ok tp p c =
     (case FetchPage_txn host_ok p tp (client_pool c) of
        None \<Rightarrow> client_fails IOError (client_pool c) c
      | Some (bp, FR_Error e) \<Rightarrow> client_fails e bp c
      | Some (bp, FR_Blocked) \<Rightarrow> client_fails InternalError bp c
      | Some (bp, FR_Guard f) \<Rightarrow>
          (case ReadGuard_Reset host_ok f p bp of
             None \<Rightarrow> client_fails IOError bp c
           | Some bp' \<Rightarrow> (c\<lparr>client_pool := bp'\<rparr>, Inr (frame_page (frame_at bp f)))))"

definition client_write ::
  "bool \<Rightarrow> txn_id_t option \<Rightarrow> page_id_t \<Rightarrow> pool_client \<Rightarrow> (WritePageGuard \<Rightarrow> BufferPoolManager \<Rightarrow> pool_client \<times> 'a Result) \<Rightarrow> pool_client \<times> 'a Result" where
  "client_write host_ok tp p c k =
     (case FetchPageWrite host_ok p tp (client_pool c) of
        None \<Rightarrow> client_fails IOError (client_pool c) c
      | Some (bp, FR_Error e) \<Rightarrow> client_fails e bp c
      | Some (bp, FR_Blocked) \<Rightarrow> client_fails InternalError bp c
      | Some (bp, FR_Guard g) \<Rightarrow> k g bp)"

definition client_fetch_write :: "bool \<Rightarrow> txn_id_t option \<Rightarrow> page_id_t \<Rightarrow> pool_client \<Rightarrow> pool_client \<times> byte list Result" where
  "client_fetch_write host_ok tp p c = client_write host_ok tp p c (\<lambda>g bp.
     case WriteGuard_Reset host_ok g bp of
       None \<Rightarrow> client_fails IOError bp c
     | Some (bp', status) \<Rightarrow> (c\<lparr>client_pool := bp'\<rparr>, Inr (frame_page (frame_at bp (wg_frame g)))))"

definition client_finalize :: "bool \<Rightarrow> txn_id_t option \<Rightarrow> page_id_t \<Rightarrow> byte list \<Rightarrow> pool_client \<Rightarrow> pool_client \<times> unit Result" where
  "client_finalize host_ok tp p bytes c = client_write host_ok tp p c (\<lambda>g bp.
     case WriteGuard_Reset host_ok (g\<lparr>wg_dirty := True\<rparr>) (upd_frame (wg_frame g) (\<lambda>fr. fr\<lparr>frame_page := bytes\<rparr>) bp) of
       None \<Rightarrow> client_fails IOError bp c
     | Some (bp', status) \<Rightarrow>
         if status \<noteq> Code_Ok then client_fails status bp' c
         else (c\<lparr>client_pool := bp', client_map := (client_map c)(p \<mapsto> bytes)\<rparr>, Inr ()))"

definition client_new :: "bool \<Rightarrow> txn_id_t option \<Rightarrow> pool_client \<Rightarrow> pool_client \<times> page_id_t Result" where
  "client_new host_ok tp c =
     (case NewPage host_ok tp (client_pool c) of
        None \<Rightarrow> client_fails IOError (client_pool c) c
      | Some (bp, FR_Error e) \<Rightarrow> client_fails e bp c
      | Some (bp, FR_Blocked) \<Rightarrow> client_fails InternalError bp c
      | Some (bp, FR_Guard g) \<Rightarrow>
          (case WriteGuard_Reset host_ok g bp of
             None \<Rightarrow> client_fails IOError bp c
           | Some (bp', status) \<Rightarrow> (c\<lparr>client_pool := bp'\<rparr>, Inr (wg_page_id g))))"

definition client_delete :: "bool \<Rightarrow> txn_id_t option \<Rightarrow> page_id_t \<Rightarrow> pool_client \<Rightarrow> pool_client \<times> unit Result" where
  "client_delete host_ok tp p c =
     (case DeletePage_txn host_ok p tp (client_pool c) of
        Some (bp, Returned status) \<Rightarrow>
          if status \<noteq> Code_Ok then client_fails status bp c
          else (c\<lparr>client_pool := bp, client_map := (client_map c)(p := None)\<rparr>, Inr ())
      | Some (bp, Waiting) \<Rightarrow> client_fails InternalError bp c
      | None \<Rightarrow> client_fails IOError (client_pool c) c)"

definition client_calls :: "bool \<Rightarrow> pool_client pool_calls" where
  "client_calls host_ok = \<lparr>call_fetch = client_fetch host_ok, call_fetch_write = client_fetch_write host_ok,
     call_finalize = client_finalize host_ok, call_new = client_new host_ok, call_delete = client_delete host_ok\<rparr>"

subsection \<open>The contract holds\<close>

lemma client_okD:
  assumes "client_ok c"
  obtains s :: pool_state where "at_rest s" "ps_pool s = client_pool c" "ps_map s = client_map c" "al_of s = client_known c"
  using assms unfolding client_ok_def client_known_def by metis

lemma client_okI:
  "at_rest s \<Longrightarrow> ps_pool s = client_pool c \<Longrightarrow> ps_map s = client_map c \<Longrightarrow> client_ok c"
  unfolding client_ok_def by blast

lemma known_content:
  assumes "client_ok c"
  shows "dom (client_map c) \<subseteq> client_known c" "INVALID_PAGE_ID \<notin> client_known c"
proof -
  obtain s :: pool_state where s: "at_rest s" "ps_map s = client_map c" "al_of s = client_known c" using client_okD[OF assms] by metis
  have inv: "pool_inv s" using s(1) by (simp add: at_rest_def)
  show "dom (client_map c) \<subseteq> client_known c" using pool_invD(11)[OF inv] s(2,3) by (auto simp: map_inv_def)
  show "INVALID_PAGE_ID \<notin> client_known c" using disk.valid[OF pool_invD(1)[OF inv], of INVALID_PAGE_ID] s(3) by auto
qed

lemma locked_at_rest: "AcquirePageLock p tp mode (ps_pool s) = (bp, r) \<Longrightarrow> at_rest s \<Longrightarrow> at_rest (set_pool bp s) \<and> disk_manager bp = dk s"
  using acquire_lock[of p tp mode "ps_pool s" bp r] pool_inv_set[of s bp] by (auto simp: at_rest_def)

lemma client_fetch_law:
  assumes ok: "client_ok c" and m: "client_map c p = Some b" and f: "client_fetch h tp p c = (c', r)"
  shows "case r of Inl _ \<Rightarrow> client_failed c' | Inr b' \<Rightarrow> client_ok c' \<and> client_map c' = client_map c \<and> client_known c' = client_known c \<and> b' = b"
proof -
  obtain s :: pool_state where s: "at_rest s" "ps_pool s = client_pool c" "ps_map s = client_map c" "al_of s = client_known c" using client_okD[OF ok] .
  have p: "p \<in> client_known c" using known_content(1)[OF ok] m by auto
  show ?thesis
  proof (cases "\<exists>bp f bp'. FetchPage_txn h p tp (client_pool c) = Some (bp, FR_Guard f) \<and> ReadGuard_Reset h f p bp = Some bp'")
    case False
    then show ?thesis using f by (auto simp: client_fetch_def client_fails_def split: option.splits prod.splits FetchResult.splits)
  next
    case True
    then obtain bp g bp' where F: "FetchPage_txn h p tp (client_pool c) = Some (bp, FR_Guard g)" "ReadGuard_Reset h g p bp = Some bp'" by blast
    then have r: "c' = c\<lparr>client_pool := bp'\<rparr>" "r = Inr (frame_page (frame_at bp g))" using f by (simp_all add: client_fetch_def)
    obtain b1 res where l: "AcquirePageLock p tp L_S (client_pool c) = (b1, res)" by fastforce
    have fp: "fetch_rest h p (fetch_enter p None b1) = Some (bp, FR_Guard g)"
      using F(1) l by (auto simp: FetchPage_txn_def FetchPage_def split: lock_outcome.splits if_splits)
    have s1: "at_rest (set_pool b1 s)" "disk_manager b1 = dk s" using locked_at_rest[of p tp L_S s b1 res] l s(1,2) by auto
    obtain s2 where s2: "holding g (H_Wait p) s2" "ps_pool s2 = bp" "ps_map s2 = ps_map s" "al_of s2 = al_of s"
      using serial_fetch[OF s1(1), of p h None bp g] fp p s1(2) s(4) by auto
    note R = serial_read[OF s2(1), of h bp', unfolded s2(2), OF F(2)]
    obtain s3 where s3: "at_rest s3" "ps_pool s3 = bp'" "ps_map s3 = ps_map s" "al_of s3 = al_of s" using R(2) s2(2-4) by auto
    have "client_ok c'" using client_okI[OF s3(1)] s3(2,3) s(3) r(1) by simp
    moreover have "client_known c' = client_known c" using s3(2,4) s(4) r(1) by (simp add: client_known_def)
    moreover have "frame_page (frame_at bp g) = b" using R(1) m s2(2,3) s(3) by simp
    ultimately show ?thesis using r by simp
  qed
qed

text \<open>A write guard on a page: what follows is done holding it.\<close>

lemma client_write_cases:
  assumes ok: "client_ok c" and p: "p \<in> client_known c" and w: "client_write h tp p c k = (c', r)"
  shows "(\<exists>e. r = Inl e) \<and> client_failed c' \<or> (\<exists>s g. holding (wg_frame g) (H_Write g (client_map c p)) s \<and> wg_page_id g = p \<and> \<not> wg_dirty g \<and>
    ps_map s = client_map c \<and> al_of s = client_known c \<and> k g (ps_pool s) = (c', r))"
proof -
  obtain s :: pool_state where s: "at_rest s" "ps_pool s = client_pool c" "ps_map s = client_map c" "al_of s = client_known c" using client_okD[OF ok] .
  show ?thesis
  proof (cases "\<exists>bp g. FetchPageWrite h p tp (client_pool c) = Some (bp, FR_Guard g)")
    case False
    then show ?thesis using w by (auto simp: client_write_def client_fails_def split: option.splits prod.splits FetchResult.splits)
  next
    case True
    then obtain bp g where F: "FetchPageWrite h p tp (client_pool c) = Some (bp, FR_Guard g)" by blast
    obtain b1 res where l: "AcquirePageLock p tp L_X (client_pool c) = (b1, res)" by fastforce
    obtain b2 x where b2: "fetch_rest h p (fetch_enter p tp b1) = Some (b2, x)" "guarded p tp (b2, x) = (bp, FR_Guard g)"
      using F l by (auto simp: FetchPageWrite_def split: lock_outcome.splits if_splits)
    obtain f where fp: "fetch_rest h p (fetch_enter p tp b1) = Some (b2, FR_Guard f)" "make_WritePageGuard f p tp b2 = (bp, g)"
      using b2 by (cases x) (auto simp: guarded_def split: prod.splits)
    have s1: "at_rest (set_pool b1 s)" "disk_manager b1 = dk s" using locked_at_rest[of p tp L_X s b1 res] l s(1,2) by auto
    obtain s2 where s2: "holding f (H_Wait p) s2" "ps_pool s2 = b2" "ps_map s2 = ps_map s" "al_of s2 = al_of s"
      using serial_fetch[OF s1(1), of p h tp b2 f] fp p s1(2) s(4) by auto
    note G = serial_guard[OF s2(1), of tp bp g, unfolded s2(2), OF fp(2)]
    obtain s3 where "holding f (H_Write g (ps_map s2 p)) s3" "ps_pool s3 = bp" "ps_map s3 = ps_map s2" "al_of s3 = allocated (disk_manager b2)" using G(1) by blast
    then have "holding (wg_frame g) (H_Write g (client_map c p)) s3" "ps_pool s3 = bp" "ps_map s3 = client_map c" "al_of s3 = client_known c"
      using G(2) s2(2-4) s(3,4) by simp_all
    then show ?thesis using w F G(3,5) by (auto simp: client_write_def)
  qed
qed

lemma client_fetch_write_law:
  assumes ok: "client_ok c" and m: "client_map c p = Some b" and f: "client_fetch_write h tp p c = (c', r)"
  shows "case r of Inl _ \<Rightarrow> client_failed c' | Inr b' \<Rightarrow> client_ok c' \<and> client_map c' = client_map c \<and> client_known c' = client_known c \<and> b' = b"
proof -
  have p: "p \<in> client_known c" using known_content(1)[OF ok] m by auto
  from client_write_cases[OF ok p f[unfolded client_fetch_write_def]] show ?thesis
  proof (elim disjE exE conjE)
    fix s g assume g: "holding (wg_frame g) (H_Write g (client_map c p)) s" "wg_page_id g = p" "\<not> wg_dirty g" "ps_map s = client_map c"
      "al_of s = client_known c" and k: "(case WriteGuard_Reset h g (ps_pool s) of None \<Rightarrow> client_fails IOError (ps_pool s) c
       | Some (bp', status) \<Rightarrow> (c\<lparr>client_pool := bp'\<rparr>, Inr (frame_page (fr_at s (wg_frame g))))) = (c', r)"
    show ?thesis
    proof (cases "WriteGuard_Reset h g (ps_pool s)")
      case None
      then show ?thesis using k by (auto simp: client_fails_def)
    next
      case (Some a)
      obtain bp' st where a: "a = (bp', st)" by (cases a)
      from serial_drop[OF g(1) Some[unfolded a]] g(3) obtain s' where s': "at_rest s'" "ps_pool s' = bp'" "ps_map s' = ps_map s" "al_of s' = al_of s" by blast
      have hm: "H_Write g (client_map c p) \<in> set (ps_hold s (wg_frame g))" using g(1) by (simp add: holding_def)
      have inv: "pool_inv s" using g(1) by (simp add: holding_def)
      have "frame_page (fr_at s (wg_frame g)) = b" using held_map(1)[OF inv hm] hold_in_use(4)[OF inv hm] g(2,4) m by simp
      moreover have "client_ok (c\<lparr>client_pool := bp'\<rparr>)" using client_okI[OF s'(1)] s'(2,3) g(4) by simp
      moreover have "client_known (c\<lparr>client_pool := bp'\<rparr>) = client_known c" using s'(2,4) g(5) by (simp add: client_known_def)
      ultimately show ?thesis using k Some a by auto
    qed
  qed auto
qed

lemma client_finalize_law:
  assumes ok: "client_ok c" and p: "p \<in> client_known c" and len: "length b = page_size" and f: "client_finalize h tp p b c = (c', r)"
  shows "case r of Inl _ \<Rightarrow> client_failed c' | Inr _ \<Rightarrow> client_ok c' \<and> client_map c' = (client_map c)(p \<mapsto> b) \<and> client_known c' = client_known c"
proof -
  from client_write_cases[OF ok p f[unfolded client_finalize_def]] show ?thesis
  proof (elim disjE exE conjE)
    fix s g assume g: "holding (wg_frame g) (H_Write g (client_map c p)) s" "wg_page_id g = p" "\<not> wg_dirty g" "ps_map s = client_map c"
      "al_of s = client_known c" and k: "(case WriteGuard_Reset h (g\<lparr>wg_dirty := True\<rparr>) (upd_frame (wg_frame g) (\<lambda>fr. fr\<lparr>frame_page := b\<rparr>) (ps_pool s)) of
         None \<Rightarrow> client_fails IOError (ps_pool s) c
       | Some (bp', status) \<Rightarrow> if status \<noteq> Code_Ok then client_fails status bp' c
           else (c\<lparr>client_pool := bp', client_map := (client_map c)(p \<mapsto> b)\<rparr>, Inr ())) = (c', r)"
    show ?thesis
    proof (cases "\<exists>bp'. WriteGuard_Reset h (g\<lparr>wg_dirty := True\<rparr>) (upd_frame (wg_frame g) (\<lambda>fr. fr\<lparr>frame_page := b\<rparr>) (ps_pool s)) = Some (bp', Code_Ok)")
      case False
      then show ?thesis using k by (auto simp: client_fails_def split: option.splits if_splits)
    next
      case True
      then obtain bp' where w: "WriteGuard_Reset h (g\<lparr>wg_dirty := True\<rparr>) (upd_frame (wg_frame g) (\<lambda>fr. fr\<lparr>frame_page := b\<rparr>) (ps_pool s)) = Some (bp', Code_Ok)" by blast
      from serial_write[OF g(1) len w] g(2) obtain s' where
        s': "at_rest s'" "ps_pool s' = bp'" "ps_map s' = (ps_map s)(p \<mapsto> b)" "al_of s' = al_of s" by blast
      have "client_ok (c\<lparr>client_pool := bp', client_map := (client_map c)(p \<mapsto> b)\<rparr>)" using client_okI[OF s'(1)] s'(2,3) g(4) by simp
      moreover have "client_known (c\<lparr>client_pool := bp', client_map := (client_map c)(p \<mapsto> b)\<rparr>) = client_known c"
        using s'(2,4) g(5) by (simp add: client_known_def)
      ultimately show ?thesis using k w by auto
    qed
  qed auto
qed

lemma client_finalize_failed: "client_failed c \<Longrightarrow> client_failed (fst (client_finalize h tp p b c))"
  by (auto simp: client_finalize_def client_write_def client_fails_def split: option.splits prod.splits FetchResult.splits)

lemma client_new_law:
  assumes ok: "client_ok c" and n: "client_new h tp c = (c', r)"
  shows "case r of Inl _ \<Rightarrow> client_failed c'
    | Inr p \<Rightarrow> client_ok c' \<and> client_map c' = client_map c \<and> client_known c' = insert p (client_known c) \<and> p \<notin> client_known c"
proof -
  obtain s :: pool_state where s: "at_rest s" "ps_pool s = client_pool c" "ps_map s = client_map c" "al_of s = client_known c" using client_okD[OF ok] .
  show ?thesis
  proof (cases "\<exists>bp g bp' st. NewPage h tp (client_pool c) = Some (bp, FR_Guard g) \<and> WriteGuard_Reset h g bp = Some (bp', st)")
    case False
    then show ?thesis using n by (auto simp: client_new_def client_fails_def split: option.splits prod.splits FetchResult.splits)
  next
    case True
    then obtain bp g bp' st where N: "NewPage h tp (client_pool c) = Some (bp, FR_Guard g)" "WriteGuard_Reset h g bp = Some (bp', st)" by blast
    then have r: "c' = c\<lparr>client_pool := bp'\<rparr>" "r = Inr (wg_page_id g)" using n by (simp_all add: client_new_def)
    note S = serial_new[OF s(1), of h tp bp g, unfolded s(2), OF N(1)]
    obtain s1 where s1: "holding (wg_frame g) (H_Write g (ps_map s (wg_page_id g))) s1" "ps_pool s1 = bp" "ps_map s1 = ps_map s"
      "al_of s1 = insert (wg_page_id g) (al_of s)" using S(1) s(2) by auto
    from serial_drop[OF s1(1), of h bp' st] N(2) s1(2) S(3) obtain s2 where
      s2: "at_rest s2" "ps_pool s2 = bp'" "ps_map s2 = ps_map s1" "al_of s2 = al_of s1" by auto
    have "client_ok c'" using client_okI[OF s2(1)] s2(2,3) s1(3) s(3) r(1) by simp
    moreover have "client_known c' = insert (wg_page_id g) (client_known c)" using s2(2,4) s1(4) s(4) r(1) by (simp add: client_known_def)
    moreover have "wg_page_id g \<notin> client_known c" using S(2) s(2,4) by simp
    ultimately show ?thesis using r by simp
  qed
qed

interpretation pool_tree: page_calls "client_calls h" client_ok client_failed client_map client_known for h
  by unfold_locales
    (use known_content client_fetch_law client_fetch_write_law client_finalize_law client_finalize_failed client_new_law
      in \<open>auto simp: client_calls_def\<close>)

subsection \<open>A tree of one leaf for the examples\<close>

definition demo_rid :: RID where "demo_rid = \<lparr>rid_page_id = 7, rid_slot_id = 0\<rparr>"

definition demo_leaf :: "byte list" where
  "demo_leaf = (case leaf_Initialize 2 INVALID_PAGE_ID INVALID_PAGE_ID of Inl _ \<Rightarrow> []
     | Inr data \<Rightarrow> (case leaf_Assign [(5, demo_rid)] data of Inl _ \<Rightarrow> [] | Inr data \<Rightarrow> data))"

definition client_with :: "byte list \<Rightarrow> pool_client" where
  "client_with bytes = \<lparr>client_pool = demo_pool\<lparr>disk_manager := fst (WritePage 1 bytes demo_store)\<rparr>,
     client_map = disk_contents (fst (WritePage 1 bytes demo_store)), client_failed = False\<rparr>"

definition demo_client :: pool_client where "demo_client = client_with demo_leaf"

definition header_client :: pool_client where "header_client = client_with (header_page INVALID_PAGE_ID 2 3)"

definition header_tree :: BPlusTree where
  "header_tree = (make_BPlusTree INVALID_PAGE_ID 2 3 None)\<lparr>header_page_id := 1\<rparr>"

definition demo_tree :: BPlusTree where "demo_tree = make_BPlusTree 1 2 3 None"

lemma demo_leaf: "is_leaf demo_leaf 2 INVALID_PAGE_ID INVALID_PAGE_ID [(5, demo_rid)]"
proof -
  have n: "2 \<le> unat (2 :: u32)" "unat (2 :: u32) \<le> 254" by simp_all
  obtain d where d: "leaf_Initialize 2 INVALID_PAGE_ID INVALID_PAGE_ID = Inr d" "is_leaf d 2 INVALID_PAGE_ID INVALID_PAGE_ID []"
    using leaf_Initialize_ok[OF n] by blast
  obtain d' where "leaf_Assign [(5, demo_rid)] d = Inr d'" "is_leaf d' 2 INVALID_PAGE_ID INVALID_PAGE_ID [(5, demo_rid)]"
    using leaf_Assign_ok[OF d(2), of "[(5, demo_rid)]"] by auto
  then show ?thesis by (simp add: demo_leaf_def d(1))
qed

lemma client_with_ok:
  assumes "length bytes = page_size"
  shows "client_ok (client_with bytes)" "client_map (client_with bytes) 1 = Some bytes"
proof -
  obtain dm where dm: "WritePage 1 bytes demo_store = (dm, Code_Ok)" "disk_ok dm" "allocated dm = {1}" "disk_page dm 1 = bytes"
    using disk.wr_page[OF demo_disk_ok(1), of 1 bytes] demo_disk_ok(2) assms by auto
  let ?bp = "demo_pool\<lparr>disk_manager := dm\<rparr>"
  have bp: "?bp = (make_BufferPool 1 P_LRU WriteBack dm initial_log_manager (initial_lock_manager Map.empty))
     \<lparr>log_manager_bound := True, lock_manager_bound := False\<rparr>" by (simp add: demo_pool_def make_BufferPool_def)
  have "fresh_pool ?bp" unfolding fresh_pool_def bp using dm(2) by (metis One_nat_def Suc_neq_Zero)
  then have "at_rest (pool_start ?bp)" using pool_start_inv[of ?bp] by (simp add: at_rest_def) (simp add: pool_start_def)
  then show "client_ok (client_with bytes)" using client_okI[of "pool_start ?bp" "client_with bytes"] dm(1)
    by (simp add: client_with_def pool_start_def)
  show "client_map (client_with bytes) 1 = Some bytes" using dm by (simp add: client_with_def)
qed

lemma demo_client: "client_ok demo_client" "tree_ok (client_map demo_client) demo_tree {#(5, demo_rid)#}"
  "tree_holds (client_map demo_client) demo_tree (Some (Lf 1 [(5, demo_rid)]))"
proof -
  note W = client_with_ok[OF leaf_get(6)[OF demo_leaf], folded demo_client_def]
  show "client_ok demo_client" by (rule W(1))
  have "holds_tree (client_map demo_client) demo_tree (Some (Lf 1 [(5, demo_rid)]))"
    using W(2) demo_leaf by (simp add: demo_tree_def make_BPlusTree_def INVALID_PAGE_ID_def)
  then show t: "tree_holds (client_map demo_client) demo_tree (Some (Lf 1 [(5, demo_rid)]))" unfolding tree_holds_def
    by (simp add: demo_tree_def make_BPlusTree_def capacities header_ok_def)
  show "tree_ok (client_map demo_client) demo_tree {#(5, demo_rid)#}" unfolding tree_ok_holds
    by (rule exI[of _ "Some (Lf 1 [(5, demo_rid)])"]) (simp add: t tree_entries_def)
qed

lemma header_client: "client_ok header_client" "tree_ok (client_map header_client) header_tree {#}"
proof -
  note H = header_page_reads[of INVALID_PAGE_ID 2 3] and W = client_with_ok[OF header_page_reads(1)[of INVALID_PAGE_ID 2 3], folded header_client_def]
  show "client_ok header_client" by (rule W(1))
  show "tree_ok (client_map header_client) header_tree {#}" unfolding tree_ok_def
    by (intro conjI exI[of _ None]) (use H W(2) in \<open>simp_all add: header_tree_def make_BPlusTree_def capacities header_ok_def\<close>)
qed

subsection \<open>The tree in the pool\<close>

text \<open>C37: Inserting a pair into a B+ tree whose pages are in the buffer pool always returns. When no call of the pool failed, the
  pair is refused exactly when the one leaf to which the search for its key leads has it, and then nothing changes; else exactly the
  pair is added, and the pages still hold a search tree with all leaves at one depth, every page but the root at least half full, leaf
  chain, parent pointers and header page right. The search goes left of a separator that equals the key, so a pair that the tree has in a leaf
  further right is stored a second time.\<close>

theorem tree_insert_exact:
  assumes "client_ok c" "tree_holds (client_map c) tree t"
  shows "\<exists>tree' c' r. Insert (client_calls h) key rid (tree, c) = Some ((tree', c'), r) \<and> (case r of
      Inr _ \<Rightarrow> (key, rid) \<notin> set (search_entries key t) \<and> client_ok c' \<and>
        tree_ok (client_map c') tree' (add_mset (key, rid) (tree_entries t))
    | Inl err \<Rightarrow> client_failed c' \<or> err = AlreadyExists \<and> (key, rid) \<in> set (search_entries key t) \<and>
        (key, rid) \<in># tree_entries t \<and> client_ok c' \<and> client_map c' = client_map c \<and> tree' = tree)"
proof -
  have "pool_tree.at (tree, c) tree (client_map c) (client_known c)" using assms(1) by (simp add: pool_tree.at_def)
  from pool_tree.Insert_ok[OF this assms(2), of h key rid] obtain e' r where
    R: "Insert (client_calls h) key rid (tree, c) = Some (e', r)" "case r of
      Inr _ \<Rightarrow> (key, rid) \<notin> set (search_entries key t) \<and> (\<exists>C' K' root. pool_tree.at e' (tree\<lparr>root_page_id := root\<rparr>) C' K' \<and>
        tree_ok C' (tree\<lparr>root_page_id := root\<rparr>) (add_mset (key, rid) (tree_entries t)))
    | Inl err \<Rightarrow> client_failed (snd e') \<or> err = AlreadyExists \<and> (key, rid) \<in> set (search_entries key t) \<and>
        (key, rid) \<in># tree_entries t \<and> pool_tree.at e' tree (client_map c) (client_known c)" by blast
  then show ?thesis by (cases e'; cases r) (auto simp: pool_tree.at_def)
qed

theorem tree_insert_exact_witness:
  "\<exists>tree' c' r. Insert (client_calls True) 3 demo_rid (demo_tree, demo_client) = Some ((tree', c'), r) \<and> (case r of
      Inr _ \<Rightarrow> client_ok c' \<and> tree_ok (client_map c') tree' {#(3, demo_rid), (5, demo_rid)#}
    | Inl err \<Rightarrow> client_failed c')"
proof -
  have s: "search_entries 3 (Some (Lf 1 [(5, demo_rid)])) = [(5, demo_rid)]" "tree_entries (Some (Lf 1 [(5, demo_rid)])) = {#(5, demo_rid)#}"
    by (simp_all add: search_entries_def tree_entries_def)
  from tree_insert_exact[OF demo_client(1,3), of True 3 demo_rid, unfolded s] obtain tree' c' r where
    "Insert (client_calls True) 3 demo_rid (demo_tree, demo_client) = Some ((tree', c'), r)" "case r of
      Inr _ \<Rightarrow> client_ok c' \<and> tree_ok (client_map c') tree' {#(3, demo_rid), (5, demo_rid)#}
    | Inl err \<Rightarrow> client_failed c'" by (force split: sum.splits)
  then show ?thesis by blast
qed

text \<open>C38: A range scan of a B+ tree in the buffer pool, from a lower to an upper bound that is not below it, always returns. When no call of the pool failed, its result is exactly the pairs
  whose key is in the range, each as often as the tree has it, sorted by key and record id; and tree and contents are unchanged.\<close>

theorem tree_scan_exact:
  assumes "client_ok c" "tree_ok (client_map c) tree S" "sint lower \<le> sint upper"
  shows "\<exists>tree' c' r. RangeScan (client_calls h) lower upper tp (tree, c) = Some ((tree', c'), r) \<and> (case r of
      Inr xs \<Rightarrow> sorted_wrt entry_le xs \<and> mset xs = filter_mset (in_range lower upper) S \<and> client_ok c' \<and>
        client_map c' = client_map c \<and> tree' = tree
    | Inl err \<Rightarrow> client_failed c')"
proof -
  have "pool_tree.at (tree, c) tree (client_map c) (client_known c)" using assms(1) by (simp add: pool_tree.at_def)
  from pool_tree.RangeScan_ok[OF this assms(2,3), of h tp] obtain e' r where
    R: "RangeScan (client_calls h) lower upper tp (tree, c) = Some (e', r)" "case r of
      Inr xs \<Rightarrow> client_ok (snd e') \<and> pool_tree.at e' tree (client_map c) (client_known c) \<and> sorted_wrt entry_le xs \<and> mset xs = filter_mset (in_range lower upper) S
    | Inl err \<Rightarrow> client_failed (snd e')" unfolding good_def by blast
  then show ?thesis by (cases e'; cases r) (auto simp: pool_tree.at_def)
qed

theorem tree_scan_exact_witness:
  "\<exists>tree' c' r. RangeScan (client_calls True) 3 9 None (demo_tree, demo_client) = Some ((tree', c'), r) \<and> (case r of
      Inr xs \<Rightarrow> sorted_wrt entry_le xs \<and> mset xs = {#(5, demo_rid)#} \<and> client_ok c' \<and>
        client_map c' = client_map demo_client \<and> tree' = demo_tree
    | Inl err \<Rightarrow> client_failed c')"
proof -
  have k: "sint (3 :: index_key_t) = 3" "sint (5 :: index_key_t) = 5" "sint (9 :: index_key_t) = 9" by simp_all
  have f: "filter_mset (in_range 3 9) {#(5, demo_rid)#} = {#(5, demo_rid)#}" by (simp add: in_range_def k)
  have le: "sint (3 :: index_key_t) \<le> sint (9 :: index_key_t)" by simp
  show ?thesis using tree_scan_exact[OF demo_client(1,2) le, of True None, unfolded f] .
qed

text \<open>C39: A persistent tree is the same tree after it is opened again by the number of its header page, with its entries, as long as
  no call of the pool fails.\<close>

theorem tree_reopens:
  assumes "client_ok c" "tree_ok (client_map c) tree S" "header_page_id tree \<noteq> INVALID_PAGE_ID"
  shows "\<exists>tree' c' r. OpenPersistent (client_calls h) (header_page_id tree) tp c = Some ((tree', c'), r) \<and> (case r of
      Inr _ \<Rightarrow> tree' = tree\<lparr>tree_transaction := tp\<rparr> \<and> client_ok c' \<and> tree_ok (client_map c') tree' S
    | Inl err \<Rightarrow> client_failed c')"
proof -
  have "pool_tree.at (tree, c) tree (client_map c) (client_known c)" using assms(1) by (simp add: pool_tree.at_def)
  from pool_tree.OpenPersistent_ok[OF this assms(2,3), of h tp] obtain e' r where
    R: "OpenPersistent (client_calls h) (header_page_id tree) tp c = Some (e', r)" "case r of
      Inr _ \<Rightarrow> client_ok (snd e') \<and> pool_tree.at e' (tree\<lparr>tree_transaction := tp\<rparr>) (client_map c) (client_known c)
    | Inl err \<Rightarrow> client_failed (snd e')" unfolding good_def by blast
  have "holds_tree C (tree\<lparr>tree_transaction := tp\<rparr>) t = holds_tree C tree t" for C t by (cases t) simp_all
  then have "tree_ok (client_map c) (tree\<lparr>tree_transaction := tp\<rparr>) S" using assms(2) by (simp add: tree_ok_def header_ok_def)
  then show ?thesis using R by (cases e'; cases r) (auto simp: pool_tree.at_def)
qed

theorem tree_reopens_witness:
  "\<exists>tree' c' r. OpenPersistent (client_calls True) 1 (Some 9) header_client = Some ((tree', c'), r) \<and> (case r of
      Inr _ \<Rightarrow> tree' = header_tree\<lparr>tree_transaction := Some 9\<rparr> \<and> client_ok c' \<and> tree_ok (client_map c') tree' {#}
    | Inl err \<Rightarrow> client_failed c')"
proof -
  have "header_page_id header_tree \<noteq> INVALID_PAGE_ID" "header_page_id header_tree = 1" by (simp_all add: header_tree_def INVALID_PAGE_ID_def)
  then show ?thesis using tree_reopens[OF header_client, of True "Some 9"] by simp
qed

end
