(* ===== verification/TransactionManager.thy ===== *)
theory TransactionManager
  imports BufferPool Deadlock
begin

text \<open>
  \<^verbatim>\<open>transaction/transaction_manager.cpp\<close>: transactions are begun, committed and aborted here, over the log, the buffer
  pool and the lock manager. The manager points to the same log, disk and lock managers as the pool, so its state holds the pool,
  and a flag per pointer that may be null. A transaction object is known by its number, and lives in the lock
  manager's store. Outcomes of the host are arguments: \<open>host_ok\<close> of the flush of the log and \<open>pages_ok p\<close> of the flush before page
  \<open>p\<close> is written; a result \<open>None\<close> means that a flush waits for another thread.
\<close>

subsection \<open>State\<close>

record TransactionManager =
  tm_pool :: BufferPoolManager
  tm_log_set :: bool
  tm_log_path :: bool
  tm_pool_set :: bool
  tm_disk_set :: bool
  tm_locks_set :: bool
  next_txn_id :: txn_id_t
  active_transactions :: "txn_id_t set"
  starting_transactions :: "txn_id_t set"
  committed_cleanup_index :: "txn_id_t \<rightharpoonup> nat"
  legacy_active :: "txn_id_t option"
  detector_running :: bool
  detector_stop_requested :: bool

definition make_TransactionManager :: "BufferPoolManager \<Rightarrow> TransactionManager" where
  "make_TransactionManager bp =
     \<lparr>tm_pool = bp, tm_log_set = True, tm_log_path = True, tm_pool_set = True, tm_disk_set = True, tm_locks_set = True,
      next_txn_id = 1, active_transactions = {}, starting_transactions = {}, committed_cleanup_index = Map.empty,
      legacy_active = None, detector_running = False, detector_stop_requested = False\<rparr>"

text \<open>The object of a transaction, and a change of it.\<close>

definition txn_object :: "TransactionManager \<Rightarrow> txn_id_t \<Rightarrow> Transaction option" where
  "txn_object tm t = txn_store (lock_manager (tm_pool tm)) t"

definition upd_object :: "txn_id_t \<Rightarrow> (Transaction \<Rightarrow> Transaction) \<Rightarrow> TransactionManager \<Rightarrow> TransactionManager" where
  "upd_object t g tm = tm\<lparr>tm_pool := upd_pool_txn t g (tm_pool tm)\<rparr>"

definition object_state :: "TransactionManager \<Rightarrow> txn_id_t \<Rightarrow> TransactionState" where
  "object_state tm t = (case txn_object tm t of None \<Rightarrow> Aborted | Some x \<Rightarrow> txn_state x)"

definition log_of_tm :: "TransactionManager \<Rightarrow> LogManager" where
  "log_of_tm tm = log_manager (tm_pool tm)"

subsection \<open>Beginning\<close>

definition AppendFor :: "txn_id_t option \<Rightarrow> LogRecord \<Rightarrow> TransactionManager \<Rightarrow> TransactionManager \<times> lsn_t Result" where
  "AppendFor tp r tm =
     (case tp of
        None \<Rightarrow> (tm, Inl InvalidArgument)
      | Some t \<Rightarrow>
          if \<not> tm_log_set tm then (tm, Inl InvalidArgument)
          else (case append_for t r (tm_pool tm) of (bp, res) \<Rightarrow> (tm\<lparr>tm_pool := bp\<rparr>, res)))"

text \<open>The two critical sections of \<^verbatim>\<open>BeginInternal\<close>, around the Begin record.\<close>

definition begin_allocate :: "bool \<Rightarrow> TransactionManager \<Rightarrow> TransactionManager \<times> txn_id_t Result" where
  "begin_allocate explicit_transaction tm =
     (if next_txn_id tm = kInvalidTxnId then (tm, Inl OutOfSpace)
      else
        (let t = next_txn_id tm; lm = lock_manager (tm_pool tm) in
         (tm\<lparr>next_txn_id := (if t = -1 then kInvalidTxnId else t + 1),
             starting_transactions := insert t (starting_transactions tm),
             tm_pool := (tm_pool tm)\<lparr>lock_manager := lm\<lparr>txn_store := (txn_store lm)(t \<mapsto> make_Transaction t explicit_transaction)\<rparr>\<rparr>\<rparr>,
          Inr t)))"

definition begin_register :: "txn_id_t \<Rightarrow> lsn_t Result \<Rightarrow> TransactionManager \<Rightarrow> TransactionManager" where
  "begin_register t begin_lsn tm =
     tm\<lparr>starting_transactions := starting_transactions tm - {t},
        active_transactions := (case begin_lsn of Inl _ \<Rightarrow> active_transactions tm | Inr _ \<Rightarrow> insert t (active_transactions tm))\<rparr>"

definition BeginInternal :: "bool \<Rightarrow> TransactionManager \<Rightarrow> TransactionManager \<times> txn_id_t Result" where
  "BeginInternal explicit_transaction tm =
     (if \<not> tm_log_set tm \<or> \<not> tm_log_path tm then (tm, Inl InvalidArgument)
      else
        (case begin_allocate explicit_transaction tm of
           (tm, Inl err) \<Rightarrow> (tm, Inl err)
         | (tm, Inr t) \<Rightarrow>
             (case AppendFor (Some t) (LogRecord_default\<lparr>rec_type := L_Begin\<rparr>) tm of
                (tm, begin_lsn) \<Rightarrow>
                  (begin_register t begin_lsn tm, (case begin_lsn of Inl err \<Rightarrow> Inl err | Inr _ \<Rightarrow> Inr t)))))"

definition Begin :: "TransactionManager \<Rightarrow> TransactionManager \<times> txn_id_t Result" where
  "Begin tm = BeginInternal True tm"

definition BeginAutocommit :: "TransactionManager \<Rightarrow> TransactionManager \<times> txn_id_t Result" where
  "BeginAutocommit tm = BeginInternal False tm"

definition Begin_legacy :: "bool \<Rightarrow> TransactionManager \<Rightarrow> TransactionManager \<times> txn_id_t Result" where
  "Begin_legacy explicit_transaction tm =
     (if legacy_active tm \<noteq> None then (tm, Inl AlreadyExists)
      else
        (case BeginInternal explicit_transaction tm of
           (tm, Inl err) \<Rightarrow> (tm, Inl err)
         | (tm, Inr t) \<Rightarrow>
             (if legacy_active tm = None then tm\<lparr>legacy_active := Some t\<rparr> else tm, Inr t)))"

definition SetNextTxnId :: "txn_id_t \<Rightarrow> TransactionManager \<Rightarrow> TransactionManager \<times> ErrorCode" where
  "SetNextTxnId next_id tm =
     (if active_transactions tm \<noteq> {} \<or> starting_transactions tm \<noteq> {} then (tm, InvalidArgument)
      else if next_id = kInvalidTxnId then (tm, OutOfSpace)
      else (tm\<lparr>next_txn_id := next_id\<rparr>, Code_Ok))"

subsection \<open>Undoing\<close>

definition ApplyPageImage :: "page_id_t \<Rightarrow> byte list \<Rightarrow> TransactionManager \<Rightarrow> TransactionManager \<times> ErrorCode" where
  "ApplyPageImage page img tm =
     (if \<not> tm_disk_set tm \<or> length img \<noteq> page_size then (tm, InvalidArgument)
      else if tm_pool_set tm then
        (case RestorePage page img True (tm_pool tm) of (bp, status) \<Rightarrow> (tm\<lparr>tm_pool := bp\<rparr>, status))
      else
        (case WritePage page img (disk_manager (tm_pool tm)) of
           (dm, status) \<Rightarrow> (tm\<lparr>tm_pool := (tm_pool tm)\<lparr>disk_manager := dm\<rparr>\<rparr>, status)))"

text \<open>Freeing a page: through the pool (\<open>deleting\<close>) if there is one.\<close>

definition free_page ::
  "(BufferPoolManager \<Rightarrow> (BufferPoolManager \<times> ErrorCode) option) \<Rightarrow> page_id_t \<Rightarrow> TransactionManager \<Rightarrow>
   (TransactionManager \<times> ErrorCode) option" where
  "free_page deleting page tm =
     (if \<not> tm_pool_set tm then
        (case DeallocatePage page (disk_manager (tm_pool tm)) of
           (dm, status) \<Rightarrow> Some (tm\<lparr>tm_pool := (tm_pool tm)\<lparr>disk_manager := dm\<rparr>\<rparr>, status))
      else
        (case deleting (tm_pool tm) of
           None \<Rightarrow> None
         | Some (bp, status) \<Rightarrow> Some (tm\<lparr>tm_pool := bp\<rparr>, status)))"

text \<open>Undoing one record.\<close>

definition undo_change :: "(page_id_t \<Rightarrow> bool) \<Rightarrow> LogRecord \<Rightarrow> TransactionManager \<Rightarrow> (TransactionManager \<times> ErrorCode) option" where
  "undo_change pages_ok r tm =
     (if rec_type r = L_PageUpdate then Some (ApplyPageImage (rec_page r) (before_image r) tm)
      else if rec_type r = L_PageAllocate then
        (case free_page (DeletePage (pages_ok (rec_page r)) (rec_page r)) (rec_page r) tm of
           None \<Rightarrow> None
         | Some (tm, status) \<Rightarrow> Some (tm, if status = AlreadyExists then Code_Ok else status))
      else if rec_type r = L_PageFree \<and> tm_pool_set tm then
        (case CancelPageDeletion (rec_page r) (tm_pool tm) of
           (bp, status) \<Rightarrow> Some (tm\<lparr>tm_pool := bp\<rparr>, if status = NotFound then Code_Ok else status))
      else Some (tm, Code_Ok))"

text \<open>The loop of \<^verbatim>\<open>Undo\<close>. \<open>records\<close> are the records of the transaction; the priority queue \<open>pending\<close> is a list, whose
  greatest element is taken.\<close>

definition find_record :: "LogRecord list \<Rightarrow> lsn_t \<Rightarrow> LogRecord option" where
  "find_record records lsn = find (\<lambda>r. rec_lsn r = lsn) records"

lemma find_record_visit:
  assumes "find_record records l = Some r" "l \<notin> visited"
  shows "card (set (map rec_lsn records) - insert l visited) < card (set (map rec_lsn records) - visited)"
proof -
  let ?A = "set (map rec_lsn records)"
  have "r \<in> set records" "rec_lsn r = l" using assms(1) find_Some_iff_nth by (auto simp: find_record_def find_Some_iff)
  then have l: "l \<in> ?A - visited" using assms(2) by auto
  have e: "?A - insert l visited = (?A - visited) - {l}" by blast
  show ?thesis unfolding e by (rule card_Diff1_less[OF _ l]) simp
qed

lemma foldl_max_in: "foldl max p ps \<in> set (p # ps)" for p :: "'a :: linorder"
proof (induction ps arbitrary: p)
  case (Cons x xs)
  from Cons.IH[of "max p x"] show ?case by (auto simp: max_def split: if_splits)
qed simp

function undo_records ::
  "(page_id_t \<Rightarrow> bool) \<Rightarrow> LogRecord list \<Rightarrow> lsn_t set \<Rightarrow> lsn_t list \<Rightarrow> TransactionManager \<Rightarrow>
   (TransactionManager \<times> ErrorCode) option" where
  "undo_records pages_ok records visited [] tm = Some (tm, Code_Ok)"
| "undo_records pages_ok records visited (p # ps) tm =
     (let current = foldl max p ps; pending = remove1 current (p # ps) in
      if current \<in> visited then undo_records pages_ok records visited pending tm
      else
        (case find_record records current of
           None \<Rightarrow> Some (tm, IOError)
         | Some r \<Rightarrow>
             (case undo_change pages_ok r tm of
                None \<Rightarrow> None
              | Some (tm, status) \<Rightarrow>
                  if status \<noteq> Code_Ok then Some (tm, status)
                  else undo_records pages_ok records (insert current visited)
                         (if rec_prev r \<noteq> kInvalidLsn then rec_prev r # pending else pending) tm)))"
  by pat_completeness auto

termination
proof (relation "measures [\<lambda>(ok, records, visited, pending, tm). card (set (map rec_lsn records) - visited),
    \<lambda>(ok, records, visited, pending, tm). length pending]", goal_cases)
  case 1 then show ?case by simp
next
  case (2 ok records visited p ps tm current pending)
  have "current \<in> set (p # ps)" unfolding 2(1) by (rule foldl_max_in)
  then have "length (remove1 current (p # ps)) < length (p # ps)" by (simp only: length_remove1) simp
  then show ?case unfolding 2(2) by simp
next
  case (3 ok records visited p ps tm current pending r x tm' status)
  then show ?case using find_record_visit[of records current r visited] by simp
qed

declare undo_records.simps(2) [simp del]

definition Undo :: "(page_id_t \<Rightarrow> bool) \<Rightarrow> txn_id_t option \<Rightarrow> TransactionManager \<Rightarrow> (TransactionManager \<times> ErrorCode) option" where
  "Undo pages_ok tp tm =
     (case tp of
        None \<Rightarrow> Some (tm, InvalidArgument)
      | Some t \<Rightarrow>
          if \<not> tm_log_set tm then Some (tm, InvalidArgument)
          else
            (case Scan (log_of_tm tm) of
               Inl err \<Rightarrow> Some (tm, err)
             | Inr rs \<Rightarrow>
                 undo_records pages_ok (filter (\<lambda>r. rec_txn r = t) rs) {}
                   (if txn_chain t (tm_pool tm) \<noteq> kInvalidLsn then [txn_chain t (tm_pool tm)] else []) tm))"

subsection \<open>Finishing\<close>

definition OwnsTransaction :: "txn_id_t option \<Rightarrow> TransactionManager \<Rightarrow> bool" where
  "OwnsTransaction tp tm = (case tp of None \<Rightarrow> False | Some t \<Rightarrow> t \<in> active_transactions tm)"

definition RemoveTransaction :: "txn_id_t option \<Rightarrow> TransactionManager \<Rightarrow> TransactionManager" where
  "RemoveTransaction tp tm =
     (case tp of
        None \<Rightarrow> tm
      | Some t \<Rightarrow>
          tm\<lparr>active_transactions := active_transactions tm - {t},
             committed_cleanup_index := (committed_cleanup_index tm)(t := None),
             legacy_active := (if legacy_active tm = Some t then None else legacy_active tm)\<rparr>)"

definition GetTransaction :: "txn_id_t \<Rightarrow> TransactionManager \<Rightarrow> txn_id_t option" where
  "GetTransaction t tm = (if t \<in> active_transactions tm then Some t else None)"

text \<open>Releasing the locks, when there is a lock manager, and forgetting the transaction.\<close>

definition release_and_remove :: "txn_id_t \<Rightarrow> TransactionManager \<Rightarrow> TransactionManager \<times> ErrorCode" where
  "release_and_remove t tm =
     (if \<not> tm_locks_set tm then (RemoveTransaction (Some t) tm, Code_Ok)
      else
        (case UnlockAll (Some t) (lock_manager (tm_pool tm)) of
           (lm, status) \<Rightarrow>
             (let tm = tm\<lparr>tm_pool := (tm_pool tm)\<lparr>lock_manager := lm\<rparr>\<rparr> in
              if status \<noteq> Code_Ok then (tm, status) else (RemoveTransaction (Some t) tm, Code_Ok))))"

text \<open>The loop of \<^verbatim>\<open>FinalizeCommittedCleanup\<close> over the pages from \<open>position\<close> on.\<close>

fun cleanup_pages ::
  "(page_id_t \<Rightarrow> bool) \<Rightarrow> txn_id_t \<Rightarrow> nat \<Rightarrow> page_id_t list \<Rightarrow> TransactionManager \<Rightarrow>
   (TransactionManager \<times> ErrorCode) option" where
  "cleanup_pages pages_ok t position [] tm = Some (tm, Code_Ok)"
| "cleanup_pages pages_ok t position (page # pages) tm =
     (case free_page (FinalizePageDeletion (pages_ok page) page) page tm of
        None \<Rightarrow> None
      | Some (tm, status) \<Rightarrow>
          if status \<noteq> Code_Ok \<and> status \<noteq> AlreadyExists \<and> status \<noteq> NotFound then Some (tm, IOError)
          else cleanup_pages pages_ok t (Suc position) pages
                 (tm\<lparr>committed_cleanup_index := (committed_cleanup_index tm)(t \<mapsto> Suc position)\<rparr>))"

definition FinalizeCommittedCleanup ::
  "(page_id_t \<Rightarrow> bool) \<Rightarrow> txn_id_t option \<Rightarrow> TransactionManager \<Rightarrow> (TransactionManager \<times> ErrorCode) option" where
  "FinalizeCommittedCleanup pages_ok tp tm =
     (case tp of
        None \<Rightarrow> Some (tm, InvalidArgument)
      | Some t \<Rightarrow>
          if \<not> OwnsTransaction tp tm \<or> object_state tm t \<noteq> Committed then Some (tm, InvalidArgument)
          else
            (let pages = (case txn_object tm t of None \<Rightarrow> [] | Some x \<Rightarrow> deferred_free_pages x);
                 position = (case committed_cleanup_index tm t of None \<Rightarrow> 0 | Some n \<Rightarrow> n);
                 tm = tm\<lparr>committed_cleanup_index := (committed_cleanup_index tm)(t \<mapsto> position)\<rparr>
             in case cleanup_pages pages_ok t position (drop position pages) tm of
                  None \<Rightarrow> None
                | Some (tm, status) \<Rightarrow>
                    if status \<noteq> Code_Ok then Some (tm, status) else Some (release_and_remove t tm)))"

definition FinalizeCommittedCleanup_legacy ::
  "(page_id_t \<Rightarrow> bool) \<Rightarrow> TransactionManager \<Rightarrow> (TransactionManager \<times> ErrorCode) option" where
  "FinalizeCommittedCleanup_legacy pages_ok tm =
     (if legacy_active tm = None then Some (tm, NotFound) else FinalizeCommittedCleanup pages_ok (legacy_active tm) tm)"

subsection \<open>Committing\<close>

definition flush_log :: "bool \<Rightarrow> lsn_t \<Rightarrow> TransactionManager \<Rightarrow> (TransactionManager \<times> ErrorCode) option" where
  "flush_log host_ok lsn tm =
     (case Flush lsn host_ok (log_of_tm tm) of
        None \<Rightarrow> None
      | Some (lm, status) \<Rightarrow> Some (tm\<lparr>tm_pool := (tm_pool tm)\<lparr>log_manager := lm\<rparr>\<rparr>, status))"

text \<open>Making the commit record durable, and then cleaning up; otherwise the transaction is left in state \<open>unsure\<close>.\<close>

definition commit_flush ::
  "bool \<Rightarrow> (page_id_t \<Rightarrow> bool) \<Rightarrow> txn_id_t \<Rightarrow> lsn_t \<Rightarrow> TransactionManager \<Rightarrow> (TransactionManager \<times> ErrorCode) option" where
  "commit_flush host_ok pages_ok t lsn tm =
     (case flush_log host_ok lsn tm of
        None \<Rightarrow> None
      | Some (tm, status) \<Rightarrow>
          if status \<noteq> Code_Ok then Some (upd_object t (SetState CommitUncertain) tm, IOError)
          else FinalizeCommittedCleanup pages_ok (Some t) (upd_object t (SetState Committed) tm))"

definition Commit ::
  "bool \<Rightarrow> (page_id_t \<Rightarrow> bool) \<Rightarrow> txn_id_t option \<Rightarrow> TransactionManager \<Rightarrow> (TransactionManager \<times> ErrorCode) option" where
  "Commit host_ok pages_ok tp tm =
     (case tp of
        None \<Rightarrow> Some (tm, NotFound)
      | Some t \<Rightarrow>
          (case txn_object tm t of
             None \<Rightarrow> Some (tm, NotFound)
           | Some x \<Rightarrow>
               if \<not> OwnsTransaction tp tm then Some (tm, NotFound)
               else if txn_state x = Committed then FinalizeCommittedCleanup pages_ok tp tm
               else if txn_state x = CommitUncertain then
                 (if commit_lsn x = kInvalidLsn then Some (tm, InternalError)
                  else commit_flush host_ok pages_ok t (commit_lsn x) tm)
               else if txn_state x \<noteq> Active then Some (tm, InvalidArgument)
               else
                 (let tm = upd_object t (fst \<circ> TrySetState Active Committing) tm in
                  if active_write_guards x \<noteq> 0 then Some (upd_object t (SetState Active) tm, InvalidArgument)
                  else
                    (case AppendFor tp (LogRecord_default\<lparr>rec_type := L_Commit\<rparr>) tm of
                       (tm, Inl err) \<Rightarrow> Some (upd_object t (SetState Failed) tm, err)
                     | (tm, Inr lsn) \<Rightarrow> commit_flush host_ok pages_ok t lsn (upd_object t (SetCommitLsn lsn) tm)))))"

definition Commit_legacy :: "bool \<Rightarrow> (page_id_t \<Rightarrow> bool) \<Rightarrow> TransactionManager \<Rightarrow> (TransactionManager \<times> ErrorCode) option" where
  "Commit_legacy host_ok pages_ok tm =
     (if legacy_active tm = None then Some (tm, NotFound) else Commit host_ok pages_ok (legacy_active tm) tm)"

text \<open>The call with a raw pointer.\<close>

definition Commit_pointer ::
  "bool \<Rightarrow> (page_id_t \<Rightarrow> bool) \<Rightarrow> txn_id_t option \<Rightarrow> TransactionManager \<Rightarrow> (TransactionManager \<times> ErrorCode) option" where
  "Commit_pointer host_ok pages_ok tp tm =
     (case tp of
        None \<Rightarrow> Some (tm, InvalidArgument)
      | Some t \<Rightarrow>
          if GetTransaction t tm = None then Some (tm, NotFound) else Commit host_ok pages_ok (GetTransaction t tm) tm)"

subsection \<open>Aborting\<close>

text \<open>The Abort record, made durable; then the locks are released.\<close>

definition finish_abort :: "bool \<Rightarrow> txn_id_t \<Rightarrow> TransactionManager \<Rightarrow> (TransactionManager \<times> ErrorCode) option" where
  "finish_abort host_ok t tm =
     (case AppendFor (Some t) (LogRecord_default\<lparr>rec_type := L_Abort\<rparr>) tm of
        (tm, Inl err) \<Rightarrow> Some (upd_object t (SetState Failed) tm, err)
      | (tm, Inr lsn) \<Rightarrow>
          (case flush_log host_ok lsn tm of
             None \<Rightarrow> None
           | Some (tm, status) \<Rightarrow>
               if status \<noteq> Code_Ok then Some (upd_object t (SetState Failed) tm, IOError)
               else Some (release_and_remove t (upd_object t (SetState Aborted) tm))))"

definition Abort ::
  "bool \<Rightarrow> (page_id_t \<Rightarrow> bool) \<Rightarrow> txn_id_t option \<Rightarrow> TransactionManager \<Rightarrow> (TransactionManager \<times> ErrorCode) option" where
  "Abort host_ok pages_ok tp tm =
     (case tp of
        None \<Rightarrow> Some (tm, NotFound)
      | Some t \<Rightarrow>
          (case txn_object tm t of
             None \<Rightarrow> Some (tm, NotFound)
           | Some x \<Rightarrow>
               if \<not> OwnsTransaction tp tm then Some (tm, NotFound)
               else if txn_state x = Committed \<or> txn_state x = CommitUncertain then Some (tm, InvalidArgument)
               else if txn_state x = Aborted then Some (tm, InvalidArgument)
               else if active_write_guards x \<noteq> 0 then Some (tm, InvalidArgument)
               else if txn_state x = Committing \<or> txn_state x = Aborting then Some (tm, InvalidArgument)
               else
                 (case Undo pages_ok tp (upd_object t (fst \<circ> TrySetState (txn_state x) Aborting) tm) of
                    None \<Rightarrow> None
                  | Some (tm, status) \<Rightarrow>
                      if status \<noteq> Code_Ok then Some (upd_object t (SetState Failed) tm, IOError)
                      else finish_abort host_ok t tm)))"

definition Rollback :: "bool \<Rightarrow> (page_id_t \<Rightarrow> bool) \<Rightarrow> TransactionManager \<Rightarrow> (TransactionManager \<times> ErrorCode) option" where
  "Rollback host_ok pages_ok tm =
     (if legacy_active tm = None then Some (tm, NotFound) else Abort host_ok pages_ok (legacy_active tm) tm)"

definition Abort_pointer ::
  "bool \<Rightarrow> (page_id_t \<Rightarrow> bool) \<Rightarrow> txn_id_t option \<Rightarrow> TransactionManager \<Rightarrow> (TransactionManager \<times> ErrorCode) option" where
  "Abort_pointer host_ok pages_ok tp tm =
     (case tp of
        None \<Rightarrow> Some (tm, InvalidArgument)
      | Some t \<Rightarrow>
          if GetTransaction t tm = None then Some (tm, NotFound) else Abort host_ok pages_ok (GetTransaction t tm) tm)"

subsection \<open>Queries, checkpoints and deadlocks\<close>

definition HasActive :: "TransactionManager \<Rightarrow> bool" where
  "HasActive tm \<longleftrightarrow> legacy_active tm \<noteq> None"

definition ActiveTransactionCount :: "TransactionManager \<Rightarrow> nat" where
  "ActiveTransactionCount tm = card (active_transactions tm) + card (starting_transactions tm)"

definition HasAnyTransactionInProgress :: "TransactionManager \<Rightarrow> bool" where
  "HasAnyTransactionInProgress tm \<longleftrightarrow>
     starting_transactions tm \<noteq> {} \<or> active_transactions tm \<noteq> {} \<or> committed_cleanup_index tm \<noteq> Map.empty"

definition ValidateCheckpointAllowed :: "TransactionManager \<Rightarrow> ErrorCode" where
  "ValidateCheckpointAllowed tm =
     (if starting_transactions tm \<noteq> {} then InvalidArgument
      else if committed_cleanup_index tm \<noteq> Map.empty then InvalidArgument
      else if active_transactions tm \<noteq> {} then InvalidArgument
      else Code_Ok)"

fun abort_victims ::
  "bool \<Rightarrow> (page_id_t \<Rightarrow> bool) \<Rightarrow> txn_id_t list \<Rightarrow> TransactionManager \<Rightarrow> (TransactionManager \<times> ErrorCode) option" where
  "abort_victims host_ok pages_ok [] tm = Some (tm, Code_Ok)"
| "abort_victims host_ok pages_ok (t # ts) tm =
     (if GetTransaction t tm = None then Some (tm, NotFound)
      else
        (case Abort host_ok pages_ok (GetTransaction t tm) tm of
           None \<Rightarrow> None
         | Some (tm, status) \<Rightarrow>
             if status \<noteq> Code_Ok then Some (tm, IOError) else abort_victims host_ok pages_ok ts tm))"

text \<open>\<open>rehash\<close>: the growth of the hash table that the search of \<^verbatim>\<open>DetectDeadlocks\<close> iterates over.\<close>

definition ResolveDeadlocksOnce ::
  "(nat \<Rightarrow> bool) \<Rightarrow> bool \<Rightarrow> (page_id_t \<Rightarrow> bool) \<Rightarrow> TransactionManager \<Rightarrow> (TransactionManager \<times> ErrorCode) option" where
  "ResolveDeadlocksOnce rehash host_ok pages_ok tm =
     (if \<not> tm_locks_set tm then Some (tm, InvalidArgument)
      else
        (case DetectDeadlocks rehash (lock_manager (tm_pool tm)) of
           None \<Rightarrow> None
         | Some (lm, victims) \<Rightarrow>
             abort_victims host_ok pages_ok victims (tm\<lparr>tm_pool := (tm_pool tm)\<lparr>lock_manager := lm\<rparr>\<rparr>)))"

text \<open>The background thread: whether it runs, its wish to stop, and one turn of its loop after a wait of a tenth of a second
  or a notification (\<open>None\<close>: the thread ends).\<close>

definition StartDeadlockDetector :: "bool \<Rightarrow> TransactionManager \<Rightarrow> TransactionManager \<times> ErrorCode" where
  "StartDeadlockDetector thread_ok tm =
     (if detector_running tm then (tm, Code_Ok)
      else
        (let tm = tm\<lparr>detector_stop_requested := False\<rparr> in
         if \<not> thread_ok then (tm, IOError) else (tm\<lparr>detector_running := True\<rparr>, Code_Ok)))"

definition StopDeadlockDetector :: "TransactionManager \<Rightarrow> TransactionManager \<times> ErrorCode" where
  "StopDeadlockDetector tm =
     (if \<not> detector_running tm then (tm, Code_Ok)
      else (tm\<lparr>detector_stop_requested := True, detector_running := False\<rparr>, Code_Ok))"

definition DeadlockDetectorLoop_turn ::
  "(nat \<Rightarrow> bool) \<Rightarrow> bool \<Rightarrow> (page_id_t \<Rightarrow> bool) \<Rightarrow> TransactionManager \<Rightarrow> (TransactionManager \<times> ErrorCode) option option" where
  "DeadlockDetectorLoop_turn rehash host_ok pages_ok tm =
     (if detector_stop_requested tm then None else Some (ResolveDeadlocksOnce rehash host_ok pages_ok tm))"

end
