(* ===== verification/TransactionPool.thy ===== *)
theory TransactionPool
  imports TransactionManager PoolSerial
begin

text \<open>
  What the transaction manager does to the pool when no other call is under way: restoring a page, freeing one, keeping one
  after all. Each succeeds on a page of the right kind, and changes the contents of that page only.
\<close>

text \<open>No call is under way, the pool is open, and the log holds the records \<open>rs\<close> and can be flushed.\<close>

abbreviation pending_of :: "pool_state \<Rightarrow> page_id_t set" where
  "pending_of s \<equiv> delete_pending_pages (ps_pool s)"

definition settled_pool :: "LogRecord list \<Rightarrow> pool_state \<Rightarrow> bool" where
  "settled_pool rs s \<longleftrightarrow> at_rest s \<and> log_at rs (log_manager (ps_pool s)) \<and> \<not> fail_next_flush (log_manager (ps_pool s)) \<and>
     init_status (ps_pool s) = Code_Ok \<and> \<not> pool_closed (ps_pool s) \<and>
     (\<forall>f < n_of s. page_lsn (fr_at s f) \<le> last_lsn_of rs \<and> (st_at s f = FS_Valid \<longrightarrow> pg_at s f \<notin> pending_of s))"

lemma settledD:
  assumes "settled_pool rs s"
  shows "pool_inv s" "ps_job s = (\<lambda>_. None)" "ps_hold s = (\<lambda>_. [])" "log_at rs (log_manager (ps_pool s))"
    "\<not> fail_next_flush (log_manager (ps_pool s))" "EnsureReadyUnlocked (ps_pool s) = Code_Ok"
    "init_status (ps_pool s) = Code_Ok" "\<not> pool_closed (ps_pool s)"
    "f < n_of s \<Longrightarrow> page_lsn (fr_at s f) \<le> last_lsn_of rs" "f < n_of s \<Longrightarrow> st_at s f = FS_Valid \<Longrightarrow> pg_at s f \<notin> pending_of s"
  using assms by (simp_all add: settled_pool_def at_rest_def EnsureReadyUnlocked_def)

lemma settled_known: "settled_pool rs s \<Longrightarrow> p \<in> al_of s \<Longrightarrow> known_page s p"
  using settledD(2) by (simp add: known_page_def)

lemma settled_page: "settled_pool rs s \<Longrightarrow> p \<in> al_of s \<Longrightarrow> p \<noteq> 0 \<and> p \<noteq> INVALID_PAGE_ID"
  using disk.valid[OF pool_invD(1)[OF settledD(1)]] by blast

lemma settled_frame:
  assumes st: "settled_pool rs s" and t: "page_table (ps_pool s) p = Some f"
  shows "f < n_of s" "pg_at s f = p" "owns s f p" "contains s f p" "pin_count (fr_at s f) = 0" "f < length (frames (ps_pool s))"
    "st_at s f = (if p \<in> pending_of s then FS_DeletePending else FS_Valid)" "owns s f q \<longleftrightarrow> q = p"
proof -
  note S = settledD[OF st]
  have o: "owns s f p" using t pool_invD(6)[OF S(1)] by simp
  show f: "f < n_of s" using owns_less[OF S(1) o] .
  then show "f < length (frames (ps_pool s))" using pool_invD(2)[OF S(1)] by simp
  note D = frame_invD[OF S(1) f]
  have v: "st_at s f = FS_Valid \<or> st_at s f = FS_DeletePending"
    using o D(1) S(2) by (auto simp: owns_def occupied_def)
  then show p: "pg_at s f = p" "owns s f p" "contains s f p" using table_state[OF S(1) t] by auto
  show "pin_count (fr_at s f) = 0" using D(2) v S(3) by auto
  show "st_at s f = (if p \<in> pending_of s then FS_DeletePending else FS_Valid)" using v D(6) S(10)[OF f] p(1) by auto
  show "owns s f q \<longleftrightarrow> q = p" using p S(2) by (auto simp: owns_def)
qed

lemma settled_set:
  assumes st: "settled_pool rs s" and inv: "pool_inv s'" and same: "ps_job s' = ps_job s" "ps_hold s' = ps_hold s"
    and log: "log_at rs (log_manager (ps_pool s'))" "\<not> fail_next_flush (log_manager (ps_pool s'))"
    and ready: "init_status (ps_pool s') = init_status (ps_pool s)" "pool_closed (ps_pool s') = pool_closed (ps_pool s)" "n_of s' = n_of s"
    and fr: "\<And>f. f < n_of s \<Longrightarrow> fr_at s' f = fr_at s f \<and> (st_at s f = FS_Valid \<longrightarrow> pg_at s f \<in> pending_of s' \<longrightarrow> pg_at s f \<in> pending_of s) \<or>
      page_lsn (fr_at s' f) \<le> last_lsn_of rs \<and> (st_at s' f = FS_Valid \<longrightarrow> pg_at s' f \<notin> pending_of s')"
  shows "settled_pool rs s'"
proof -
  note S = settledD[OF st]
  have "page_lsn (fr_at s' f) \<le> last_lsn_of rs \<and> (st_at s' f = FS_Valid \<longrightarrow> pg_at s' f \<notin> pending_of s')" if "f < n_of s" for f
    using fr[OF that] S(9,10)[OF that] by auto
  then show ?thesis using S inv same log ready by (simp add: settled_pool_def at_rest_def)
qed

lemma Flush_settled:
  assumes "log_at rs lm" "\<not> fail_next_flush lm" "target \<le> last_lsn_of rs"
  shows "\<exists>lm'. Flush target True lm = Some (lm', Code_Ok) \<and> log_at rs lm' \<and> \<not> fail_next_flush lm' \<and> target \<le> durable_lsn lm' \<and>
    durable_lsn lm \<le> durable_lsn lm'"
  using assms
  by (auto simp: Flush_def flush_enter_def EnsureOpenUnlocked_def Let_def flush_take_def flush_io_def flush_publish_def
      le_max_iff_disj log_at_def split: if_splits)

subsection \<open>Restoring a page\<close>

definition map_page :: "page_id_t \<Rightarrow> byte list option \<Rightarrow> BufferPoolManager \<Rightarrow> pool_state \<Rightarrow> pool_state" where
  "map_page p c bp s = (set_pool bp s)\<lparr>ps_map := (ps_map s)(p := c)\<rparr>"

lemma map_page_fields [simp]:
  "ps_pool (map_page p c bp s) = bp" "ps_map (map_page p c bp s) = (ps_map s)(p := c)" "ps_job (map_page p c bp s) = ps_job s"
  "ps_hold (map_page p c bp s) = ps_hold s"
  by (simp_all add: map_page_def)

lemma settled_restore:
  assumes st: "settled_pool rs s" and p: "p \<in> al_of s" "p \<notin> pending_of s" and len: "length b = page_size"
  shows "\<exists>bp. RestorePage p b True (ps_pool s) = (bp, Code_Ok) \<and> settled_pool rs (map_page p (Some b) bp s) \<and>
    allocated (disk_manager bp) = al_of s \<and> delete_pending_pages bp = pending_of s \<and>
    lock_manager bp = lock_manager (ps_pool s) \<and> log_manager bp = log_manager (ps_pool s)"
proof -
  note S = settledD[OF st] and P = settled_page[OF st p(1)]
  note I = pool_invD[OF S(1)]
  from disk.wr_page[OF I(1) p(1) len] obtain dm where
    dm: "WritePage p b (dk s) = (dm, Code_Ok)" "disk_ok dm" "allocated dm = al_of s" "disk_page dm p = b"
      "\<forall>q \<in> al_of s. q \<noteq> p \<longrightarrow> disk_page dm q = dp s q" by blast
  show ?thesis
  proof (cases "page_table (ps_pool s) p")
    case None
    let ?b = "ps_pool s\<lparr>disk_manager := dm\<rparr>" let ?s = "map_page p (Some b) ?b s"
    have r: "RestorePage p b True (ps_pool s) = (?b, Code_Ok)"
      using None P S(6) dm(1) by (simp add: RestorePage_def restore_enter_def)
    have fr: "fr_at ?s = fr_at s" by (simp add: fun_eq_iff)
    have ne: "owns s g q \<Longrightarrow> q \<noteq> p" for g q using None I(6)[of q g] by auto
    have o: "owns ?s g q = owns s g q" "contains ?s g q = contains s g q" for g q
      by (simp_all add: owns_def contains_def occupied_def)
    have fi: "frame_inv ?s g" if g: "g < n_of s" for g
    proof (rule frame_inv_cong[of _ g s, OF _ _ _ g _ I(5)[OF g]])
      show "(ps_map ?s q = ps_map s q \<or> ps_map ?s q = None) \<and> dp ?s q = dp s q \<and>
          (q \<in> pending_of s \<longrightarrow> q \<in> pending_of ?s)" if "owns s g q" for q
        using ne[OF that] owns_facts(3)[OF S(1) that] dm(5) by simp
    qed simp_all
    have ip: "in_pool ?s q = in_pool s q" for q using o(2) by (simp add: in_pool_def)
    have mi: "map_inv ?s"
      unfolding map_inv_def
    proof (intro allI impI)
      fix q c assume c: "ps_map ?s q = Some c"
      show "q \<in> al_of ?s \<and> length c = page_size \<and> (\<not> in_pool ?s q \<longrightarrow> dp ?s q = c)"
      proof (cases "q = p")
        case True
        then show ?thesis using c p(1) dm(3,4) len by simp
      next
        case False
        then have "ps_map s q = Some c" using c by simp
        then show ?thesis using False I(11) dm(3,5) by (simp add: map_inv_def ip)
      qed
    qed
    have "pool_inv ?s"
      unfolding pool_inv_def
    proof (intro conjI)
      show "\<forall>p f. (page_table (ps_pool ?s) p = Some f) = owns ?s f p" using I(6) o(1) by simp
      show "\<forall>p f. page_table (ps_pool ?s) p = Some f \<longrightarrow> p \<in> al_of ?s" using I(7) dm(3) by auto
      show "free_inv ?s" "rep_inv ?s" using I(9,10) by (simp_all add: free_inv_def rep_inv_def)
      show "new_inv ?s" using S(2) by (simp add: new_inv_def)
    qed (use I(2,8,13) S(2,3) dm(2,3) fi mi in simp_all)
    then have "settled_pool rs ?s" using S by (intro settled_set[OF st]) (simp_all add: dm(3))
    then show ?thesis using r dm(3) by (intro exI[of _ ?b]) simp
  next
    case (Some f)
    note F = settled_frame[OF st Some]
    have v: "st_at s f = FS_Valid" using F(7) p(2) by simp
    have R: "rep_ok (n_of s) (idle s) (pool_replacer (ps_pool s))" using I(10) by (simp add: rep_inv_idle)
    obtain r1 where r1: "call_replacer (Pin f) (ps_pool s) = (ps_pool s\<lparr>pool_replacer := r1\<rparr>, Code_Ok)" "rep_ok (n_of s) (idle s - {f}) r1"
      using call_pin[OF R F(1)] by blast
    let ?b1 = "upd_frame f (\<lambda>fr. fr\<lparr>pin_count := 1\<rparr>) (ps_pool s\<lparr>pool_replacer := r1\<rparr>)"
    let ?b2 = "upd_frame f (\<lambda>fr. fr\<lparr>frame_page := b\<rparr>) (?b1\<lparr>disk_manager := dm\<rparr>)"
    let ?b3 = "upd_frame f (\<lambda>fr. fr\<lparr>pin_count := 0\<rparr>) (upd_frame f (\<lambda>fr. fr\<lparr>is_dirty := False, page_lsn := kInvalidLsn\<rparr>) ?b2)"
    have "rep_ok (n_of s) (idle s - {f}) (pool_replacer ?b3)" using r1(2) by simp
    from call_unpin[OF this F(1)] obtain r2 where
      r2: "call_replacer (Unpin f) ?b3 = (?b3\<lparr>pool_replacer := r2\<rparr>, Code_Ok)" "rep_ok (n_of s) (insert f (idle s - {f})) r2" by auto
    let ?b = "?b3\<lparr>pool_replacer := r2\<rparr>" let ?s = "map_page p (Some b) ?b s"
    have r: "RestorePage p b True (ps_pool s) = (?b, Code_Ok)"
      using Some P S(6) v F(5) r1(1) dm(1) r2(1)
      by (simp add: RestorePage_def restore_enter_def restore_io_def restore_finish_def Let_def)
    have fr: "fr_at ?s f = (fr_at s f)\<lparr>frame_page := b, is_dirty := False, page_lsn := kInvalidLsn, pin_count := 0\<rparr>"
      using F(6) by simp
    have fo: "fr_at ?s g = fr_at s g" if "g \<noteq> f" for g using that by simp
    have sv: "st_at ?s f = FS_Valid" unfolding fr using v by simp
    have o: "owns ?s f q = owns s f q" "contains ?s f q = contains s f q" for q
      unfolding owns_def contains_def occupied_def fr by simp_all
    have inv: "pool_inv ?s"
    proof (rule pool_inv_local[OF S(1) F(1)])
      show "frame_inv ?s f" unfolding frame_inv_def Let_def fr using v F(2) S(2,3) len dm(4) by (simp add: bytes_ok_def)
      show "rep_inv ?s" using r2(2) idle_update[of ?s s f] F(1) fr v by (simp add: rep_inv_idle insert_absorb) 
      show "length c = page_size \<and> (contains ?s f q \<or> dp ?s q = c)" if "owns s f q" "ps_map ?s q = Some c" for q c
        using that F(8) dm(4) len by simp
      show "dp ?s q = dp s q" if "q \<in> al_of s" "\<not> owns s f q" for q using that F(8) dm(5) by simp
      show "ps_map ?s q = ps_map s q" if "\<not> owns s f q" for q using that F(8) by auto
    qed (use fo o v sv I(2) dm F in \<open>simp_all\<close>)
    have lsn: "page_lsn (fr_at ?s f) \<le> last_lsn_of rs \<and> pg_at ?s f \<notin> pending_of ?s"
      unfolding fr using p(2) F(2) by (simp add: kInvalidLsn_def)
    have "settled_pool rs ?s"
    proof (rule settled_set[OF st inv])
      fix g assume g: "g < n_of s"
      show "fr_at ?s g = fr_at s g \<and> (st_at s g = FS_Valid \<longrightarrow> pg_at s g \<in> pending_of ?s \<longrightarrow> pg_at s g \<in> pending_of s) \<or>
          page_lsn (fr_at ?s g) \<le> last_lsn_of rs \<and> (st_at ?s g = FS_Valid \<longrightarrow> pg_at ?s g \<notin> pending_of ?s)"
        using fo[of g] lsn by (cases "g = f") (blast, simp)
    qed (use S in \<open>simp_all add: upd_frame_def\<close>)
    then show ?thesis using r dm(3) by (intro exI[of _ ?b]) simp
  qed
qed

subsection \<open>Freeing a page\<close>

lemma settled_cancel:
  assumes st: "settled_pool rs s" and p: "p \<in> pending_of s"
  shows "\<exists>bp. CancelPageDeletion p (ps_pool s) = (bp, Code_Ok) \<and> settled_pool rs (set_pool bp s) \<and>
    disk_manager bp = dk s \<and> delete_pending_pages bp = pending_of s - {p} \<and>
    lock_manager bp = lock_manager (ps_pool s) \<and> log_manager bp = log_manager (ps_pool s)"
proof -
  note S = settledD[OF st]
  note I = pool_invD[OF S(1)]
  show ?thesis
  proof (cases "page_table (ps_pool s) p")
    case None
    let ?b = "ps_pool s\<lparr>delete_pending_pages := pending_of s - {p}\<rparr>"
    have c: "CancelPageDeletion p (ps_pool s) = (?b, Code_Ok)" using None p by (simp add: CancelPageDeletion_def Let_def)
    have "settled_pool rs (set_pool ?b s)"
      using S pool_inv_cancel_delete[OF S(1) c] by (intro settled_set[OF st]) simp_all
    then show ?thesis using c by (intro exI[of _ ?b]) simp
  next
    case (Some f)
    note F = settled_frame[OF st Some]
    have v: "st_at s f = FS_DeletePending" using F(7) p by simp
    let ?b1 = "upd_frame f (\<lambda>fr. fr\<lparr>frame_state := FS_Valid\<rparr>) (ps_pool s)"
    have "rep_ok (n_of s) (idle s) (pool_replacer ?b1)" "f \<notin> idle s" using I(10) v by (simp_all add: rep_inv_idle idle_def)
    from call_unpin[OF this(1) F(1) this(2)] obtain r where r: "call_replacer (Unpin f) ?b1 = (?b1\<lparr>pool_replacer := r\<rparr>, Code_Ok)" by blast
    let ?b = "?b1\<lparr>pool_replacer := r, delete_pending_pages := pending_of s - {p}\<rparr>"
    have c: "CancelPageDeletion p (ps_pool s) = (?b, Code_Ok)" using Some p v F(5) r by (simp add: CancelPageDeletion_def Let_def)
    have "settled_pool rs (set_pool ?b s)"
    proof (rule settled_set[OF st pool_inv_cancel_delete[OF S(1) c]])
      fix g assume g: "g < n_of s"
      show "fr_at (set_pool ?b s) g = fr_at s g \<and> (st_at s g = FS_Valid \<longrightarrow> pg_at s g \<in> pending_of (set_pool ?b s) \<longrightarrow> pg_at s g \<in> pending_of s) \<or>
          page_lsn (fr_at (set_pool ?b s) g) \<le> last_lsn_of rs \<and>
          (st_at (set_pool ?b s) g = FS_Valid \<longrightarrow> pg_at (set_pool ?b s) g \<notin> pending_of (set_pool ?b s))"
        using S(9)[OF g] F(2,6) by (cases "g = f") simp_all
    qed (use S in \<open>simp_all add: upd_frame_def\<close>)
    then show ?thesis using c by (intro exI[of _ ?b]) simp
  qed
qed

lemma settled_begin_delete:
  assumes st: "settled_pool rs s" and p: "p \<in> al_of s" "p \<notin> pending_of s"
  shows "\<exists>bp. BeginPageDeletion p (ps_pool s) = (bp, Code_Ok) \<and> settled_pool rs (set_pool bp s) \<and>
    disk_manager bp = dk s \<and> delete_pending_pages bp = insert p (pending_of s) \<and>
    lock_manager bp = lock_manager (ps_pool s) \<and> log_manager bp = log_manager (ps_pool s)"
proof -
  note S = settledD[OF st] and P = settled_page[OF st p(1)] and K = settled_known[OF st p(1)]
  note I = pool_invD[OF S(1)]
  have V: "ValidateDataPageId p = Code_Ok" using P by (simp add: ValidateDataPageId_def)
  show ?thesis
  proof (cases "page_table (ps_pool s) p")
    case None
    let ?b = "ps_pool s\<lparr>delete_pending_pages := insert p (pending_of s)\<rparr>"
    have c: "BeginPageDeletion_pins p 0 (ps_pool s) = (?b, Code_Ok)"
      using None p S(6) V by (simp add: BeginPageDeletion_pins_def Let_def)
    have "settled_pool rs (set_pool ?b s)"
    proof (rule settled_set[OF st pool_inv_begin_delete[OF S(1) K c]])
      fix g assume g: "g < n_of s"
      have "pg_at s g \<noteq> p" if "st_at s g = FS_Valid"
        using state_owns[OF g] that I(6)[of p g] None by auto
      then show "fr_at (set_pool ?b s) g = fr_at s g \<and> (st_at s g = FS_Valid \<longrightarrow> pg_at s g \<in> pending_of (set_pool ?b s) \<longrightarrow> pg_at s g \<in> pending_of s) \<or>
          page_lsn (fr_at (set_pool ?b s) g) \<le> last_lsn_of rs \<and>
          (st_at (set_pool ?b s) g = FS_Valid \<longrightarrow> pg_at (set_pool ?b s) g \<notin> pending_of (set_pool ?b s))"
        by (simp add: frame_at_def)
    qed (use S in simp_all)
    then show ?thesis using c by (intro exI[of _ ?b]) (simp add: BeginPageDeletion_def)
  next
    case (Some f)
    note F = settled_frame[OF st Some]
    have v: "st_at s f = FS_Valid" using F(7) p by simp
    have R: "rep_ok (n_of s) (idle s) (pool_replacer (ps_pool s))" using I(10) by (simp add: rep_inv_idle)
    obtain r where r: "call_replacer (Pin f) (ps_pool s) = (ps_pool s\<lparr>pool_replacer := r\<rparr>, Code_Ok)" using call_pin[OF R F(1)] by blast
    let ?b = "upd_frame f (\<lambda>fr. fr\<lparr>frame_state := FS_DeletePending\<rparr>)
        (ps_pool s\<lparr>pool_replacer := r, delete_pending_pages := insert p (pending_of s)\<rparr>)"
    have c: "BeginPageDeletion_pins p 0 (ps_pool s) = (?b, Code_Ok)"
      using Some p v F(5) r S(6) V by (simp add: BeginPageDeletion_pins_def Let_def)
    have "settled_pool rs (set_pool ?b s)"
    proof (rule settled_set[OF st pool_inv_begin_delete[OF S(1) K c]])
      fix g assume g: "g < n_of s"
      have n: "pg_at s g \<noteq> p" if "st_at s g = FS_Valid" "g \<noteq> f"
        using state_owns[OF g] that I(6)[of p g] Some by auto
      show "fr_at (set_pool ?b s) g = fr_at s g \<and> (st_at s g = FS_Valid \<longrightarrow> pg_at s g \<in> pending_of (set_pool ?b s) \<longrightarrow> pg_at s g \<in> pending_of s) \<or>
          page_lsn (fr_at (set_pool ?b s) g) \<le> last_lsn_of rs \<and>
          (st_at (set_pool ?b s) g = FS_Valid \<longrightarrow> pg_at (set_pool ?b s) g \<notin> pending_of (set_pool ?b s))"
        using S(9)[OF g] n F(6) by (cases "g = f") (simp_all add: frame_at_def upd_frame_def)
    qed (use S in \<open>simp_all add: upd_frame_def\<close>)
    then show ?thesis using c by (intro exI[of _ ?b]) (simp add: BeginPageDeletion_def)
  qed
qed

lemma settled_write:
  assumes log: "log_at rs (log_manager bp)" "\<not> fail_next_flush (log_manager bp)" and l: "page_lsn (frame_at bp f) \<le> last_lsn_of rs"
    and w: "WritePage p (frame_page (frame_at bp f)) (disk_manager bp) = (dm, Code_Ok)"
  shows "\<exists>lm. write_frame True f p bp = Some (bp\<lparr>log_manager := lm, disk_manager := dm\<rparr>, Code_Ok) \<and> log_at rs lm \<and> \<not> fail_next_flush lm \<and>
    durable_lsn (log_manager bp) \<le> durable_lsn lm"
proof (cases "log_manager_bound bp \<and> page_lsn (frame_at bp f) \<noteq> kInvalidLsn")
  case True
  obtain lm where "Flush (page_lsn (frame_at bp f)) True (log_manager bp) = Some (lm, Code_Ok)" "log_at rs lm" "\<not> fail_next_flush lm"
    "durable_lsn (log_manager bp) \<le> durable_lsn lm"
    using Flush_settled[OF log l] by blast
  then show ?thesis using w True by (intro exI[of _ lm]) (simp add: write_frame_def FlushFrameToDisk_def Let_def)
next
  case False
  then show ?thesis using w log by (intro exI[of _ "log_manager bp"]) (auto simp: write_frame_def FlushFrameToDisk_def Let_def)
qed

lemma settled_finalize:
  assumes st: "settled_pool rs s" and p: "p \<in> pending_of s"
  shows "\<exists>bp. FinalizePageDeletion True p (ps_pool s) = Some (bp, Code_Ok) \<and> settled_pool rs (map_page p None bp s) \<and>
    allocated (disk_manager bp) = al_of s - {p} \<and> delete_pending_pages bp = pending_of s - {p} \<and>
    lock_manager bp = lock_manager (ps_pool s) \<and> durable_lsn (log_manager (ps_pool s)) \<le> durable_lsn (log_manager bp)"
proof -
  note S = settledD[OF st]
  note I = pool_invD[OF S(1)]
  have al: "p \<in> al_of s" using I(8) p by auto
  have inv: "pool_inv (map_page p None bp s)" if "FinalizePageDeletion True p (ps_pool s) = Some (bp, Code_Ok)" for bp
  proof -
    have "map_page p None bp s = (set_pool bp s)\<lparr>ps_map := (ps_map s)(p := None), ps_base := ps_base s, ps_log := ps_log s\<rparr>"
      by (simp add: map_page_def set_pool_def)
    then show ?thesis using pool_inv_finalize[OF S(1) that, of "ps_log s" "ps_base s"] by simp
  qed
  show ?thesis
  proof (cases "page_table (ps_pool s) p")
    case None
    obtain dm where dm: "DeallocatePage p (dk s) = (dm, Code_Ok)" "allocated dm = al_of s - {p}" using disk.fr_page[OF I(1) al] by auto
    let ?b = "ps_pool s\<lparr>disk_manager := dm, delete_pending_pages := pending_of s - {p}\<rparr>"
    have c: "FinalizePageDeletion True p (ps_pool s) = Some (?b, Code_Ok)"
      using None p S(6) dm(1) by (simp add: FinalizePageDeletion_def finalize_enter_def finalize_absent_def Let_def)
    have "settled_pool rs (map_page p None ?b s)" using S by (intro settled_set[OF st inv[OF c]]) (simp_all add: frame_at_def)
    then show ?thesis using c dm(2) by (intro exI[of _ ?b]) simp
  next
    case (Some f)
    note F = settled_frame[OF st Some]
    have v: "st_at s f = FS_DeletePending" using F(7) p by simp
    let ?b0 = "upd_frame f (\<lambda>fr. fr\<lparr>pin_count := 1\<rparr>) (ps_pool s)"
    have f0: "frame_at ?b0 f = (fr_at s f)\<lparr>pin_count := 1\<rparr>" using F(6) by simp
    have en: "finalize_enter p (ps_pool s) = (?b0, FN_Frame f)" using Some p S(6) v F(5) by (simp add: finalize_enter_def)
    have "\<exists>lm dm. (if is_dirty (frame_at ?b0 f) then write_frame True f p ?b0 else Some (?b0, Code_Ok)) = Some (?b0\<lparr>log_manager := lm, disk_manager := dm\<rparr>, Code_Ok) \<and>
        disk_ok dm \<and> allocated dm = al_of s \<and> log_at rs lm \<and> \<not> fail_next_flush lm \<and> durable_lsn (log_manager (ps_pool s)) \<le> durable_lsn lm"
    proof (cases "is_dirty (frame_at ?b0 f)")
      case True
      from disk.wr_page[OF I(1) al page_length[OF S(1) F(1)]] obtain dm where
        dm: "WritePage p (frame_page (fr_at s f)) (dk s) = (dm, Code_Ok)" "disk_ok dm" "allocated dm = al_of s" by blast
      have "\<exists>lm. write_frame True f p ?b0 = Some (?b0\<lparr>log_manager := lm, disk_manager := dm\<rparr>, Code_Ok) \<and> log_at rs lm \<and> \<not> fail_next_flush lm \<and>
          durable_lsn (log_manager ?b0) \<le> durable_lsn lm"
        by (rule settled_write) (use S f0 dm F(1) in simp_all)
      then show ?thesis using True dm by auto
    qed (use S I(1) in \<open>intro exI[of _ "log_manager ?b0"] exI[of _ "dk s"], simp\<close>)
    then obtain lm dm where w: "(if is_dirty (frame_at ?b0 f) then write_frame True f p ?b0 else Some (?b0, Code_Ok)) = Some (?b0\<lparr>log_manager := lm, disk_manager := dm\<rparr>, Code_Ok)"
      and d: "disk_ok dm" "allocated dm = al_of s" "log_at rs lm" "\<not> fail_next_flush lm" "durable_lsn (log_manager (ps_pool s)) \<le> durable_lsn lm" by blast
    obtain dm2 where dm2: "DeallocatePage p dm = (dm2, Code_Ok)" "allocated dm2 = al_of s - {p}"
      using disk.fr_page[OF d(1), of p] al unfolding d(2) by blast
    let ?b1 = "upd_frame f (\<lambda>fr. fr\<lparr>frame_page := empty_page\<rparr>) (?b0\<lparr>log_manager := lm, disk_manager := dm2\<rparr>)"
    have io: "finalize_io True f p ?b0 = Some (?b1, Code_Ok)" unfolding finalize_io_def w using dm2(1) by (simp add: Let_def)
    let ?b2 = "upd_frame f (\<lambda>fr. fr\<lparr>frame_page_id := INVALID_PAGE_ID, pin_count := 0, is_dirty := False, frame_state := FS_Empty\<rparr>)
        (?b1\<lparr>page_table := (page_table (ps_pool s))(p := None)\<rparr>)\<lparr>delete_pending_pages := pending_of s - {p}\<rparr>"
    have "rep_ok (n_of s) (idle s) (pool_replacer ?b2)" using I(10) by (simp add: rep_inv_idle)
    from call_remove[OF this F(1)] obtain r where r: "call_replacer (Remove f) ?b2 = (?b2\<lparr>pool_replacer := r\<rparr>, Code_Ok)" by blast
    have ff: "f \<notin> free_frame_set (ps_pool s)" using I(9) v by (auto simp: free_inv_def)
    have fr2: "frame_at (?b2\<lparr>pool_replacer := r\<rparr>) f = (fr_at s f)\<lparr>frame_page := empty_page, frame_page_id := INVALID_PAGE_ID, pin_count := 0,
        is_dirty := False, frame_state := FS_Empty\<rparr>" using F(6) by simp
    let ?b = "?b2\<lparr>pool_replacer := r, free_frame_set := insert f (free_frame_set (ps_pool s)), free_frames := free_frames (ps_pool s) @ [f]\<rparr>"
    have fin: "finalize_finish f p Code_Ok ?b1 = (?b, Code_Ok)"
      using return_free[of f "?b2\<lparr>pool_replacer := r\<rparr>"] fr2 F(6) ff r by (simp add: finalize_finish_def Let_def)
    have c: "FinalizePageDeletion True p (ps_pool s) = Some (?b, Code_Ok)" using en io fin by (simp add: FinalizePageDeletion_def)
    have "settled_pool rs (map_page p None ?b s)"
    proof (rule settled_set[OF st inv[OF c]])
      fix g assume g: "g < n_of s"
      have e: "frame_at ?b f = (fr_at s f)\<lparr>frame_page := empty_page, frame_page_id := INVALID_PAGE_ID, pin_count := 0,
          is_dirty := False, frame_state := FS_Empty\<rparr>" using fr2 by simp
      have "page_lsn (frame_at ?b f) \<le> last_lsn_of rs \<and> frame_state (frame_at ?b f) \<noteq> FS_Valid" unfolding e using S(9)[OF F(1)] by simp
      moreover have "g \<noteq> f \<Longrightarrow> frame_at ?b g = fr_at s g" by simp
      ultimately show "fr_at (map_page p None ?b s) g = fr_at s g \<and> (st_at s g = FS_Valid \<longrightarrow> pg_at s g \<in> pending_of (map_page p None ?b s) \<longrightarrow> pg_at s g \<in> pending_of s) \<or>
          page_lsn (fr_at (map_page p None ?b s) g) \<le> last_lsn_of rs \<and>
          (st_at (map_page p None ?b s) g = FS_Valid \<longrightarrow> pg_at (map_page p None ?b s) g \<notin> pending_of (map_page p None ?b s))"
        by (cases "g = f") simp_all
    qed (use S d in \<open>simp_all add: upd_frame_def\<close>)
    then show ?thesis using c dm2(2) d(5) by (intro exI[of _ ?b]) simp
  qed
qed

lemma settled_delete:
  assumes st: "settled_pool rs s" and p: "p \<in> al_of s" "p \<notin> pending_of s"
  shows "\<exists>bp. DeletePage True p (ps_pool s) = Some (bp, Code_Ok) \<and> settled_pool rs (map_page p None bp s) \<and>
    allocated (disk_manager bp) = al_of s - {p} \<and> delete_pending_pages bp = pending_of s \<and>
    lock_manager bp = lock_manager (ps_pool s)"
proof -
  obtain b1 where b: "BeginPageDeletion p (ps_pool s) = (b1, Code_Ok)" "settled_pool rs (set_pool b1 s)" "disk_manager b1 = dk s"
    "delete_pending_pages b1 = insert p (pending_of s)" "lock_manager b1 = lock_manager (ps_pool s)"
    using settled_begin_delete[OF st p] by blast
  have "map_page p None bp (set_pool b1 s) = map_page p None bp s" for bp by (simp add: map_page_def set_pool_def)
  then show ?thesis using settled_finalize[OF b(2), of p] b p by (auto simp: DeletePage_def)
qed

end
