(* ===== verification/TransactionSafety.thy ===== *)
theory TransactionSafety
  imports TransactionPool RecoverySafety
begin

text \<open>
  What aborting and committing achieve when no other call is under way: an abort takes back exactly the changes of the
  transaction, and a commit is durable before the transaction counts as committed and its locks are released.
\<close>

subsection \<open>The chain of a transaction's records\<close>

lemma of_txn_split: "of_txn t rs = xs @ r # ys \<Longrightarrow> \<exists>as bs. rs = as @ r # bs \<and> of_txn t as = xs \<and> of_txn t bs = ys \<and> rec_txn r = t"
proof (induction rs arbitrary: xs)
  case (Cons a rs)
  show ?case
  proof (cases "rec_txn a = t")
    case False
    then obtain as bs where "rs = as @ r # bs" "of_txn t as = xs" "of_txn t bs = ys" "rec_txn r = t"
      using Cons.IH[of xs] Cons.prems by (auto simp: of_txn_def)
    then show ?thesis using False by (intro exI[of _ "a # as"] exI[of _ bs]) (simp add: of_txn_def)
  next
    case True
    note a = True
    show ?thesis
    proof (cases xs)
      case Nil
      then show ?thesis using True Cons.prems by (intro exI[of _ "[]"] exI[of _ rs]) (simp add: of_txn_def)
    next
      case (Cons x xs')
      then obtain as bs where "rs = as @ r # bs" "of_txn t as = xs'" "of_txn t bs = ys" "rec_txn r = t" "x = a"
        using Cons.IH[of xs'] Cons.prems a by (auto simp: of_txn_def)
      then show ?thesis using Cons a by (intro exI[of _ "a # as"] exI[of _ bs]) (simp add: of_txn_def)
    qed
  qed
qed (simp add: of_txn_def)

lemma of_txn_prev:
  assumes ok: "log_ok rs" and t: "t \<noteq> kInvalidTxnId" and s: "of_txn t rs = xs @ r # ys"
  shows "rec_prev r = (if xs = [] then kInvalidLsn else rec_lsn (last xs))"
proof -
  obtain as bs where a: "rs = as @ r # bs" "of_txn t as = xs" "rec_txn r = t" using of_txn_split[OF s] by blast
  have "follows as r" using ok unfolding a(1) by (rule follows_split)
  then show ?thesis using a t prev_of_of_txn[of t as] by (simp add: follows_def)
qed

lemma of_txn_lsns:
  assumes ok: "log_ok rs"
  shows "distinct (map rec_lsn (of_txn t rs))" "r \<in> set (of_txn t rs) \<Longrightarrow> rec_lsn r \<noteq> kInvalidLsn"
proof -
  have "sorted_wrt (<) (map rec_lsn (of_txn t rs))"
    using log_ok_sorted[OF ok] by (simp add: of_txn_def sorted_wrt_map sorted_wrt_filter)
  then show "distinct (map rec_lsn (of_txn t rs))" by (simp add: strict_sorted_iff)
  show "rec_lsn r \<noteq> kInvalidLsn" if "r \<in> set (of_txn t rs)"
  proof -
    have "r \<in> set rs" using that by (simp add: of_txn_def)
    then obtain as bs where "rs = as @ r # bs" by (auto simp: in_set_conv_decomp)
    then have "follows as r" using ok follows_split by blast
    then show ?thesis by (simp add: follows_def)
  qed
qed

text \<open>So the loop visits the records from the last one backwards.\<close>

fun undo_list :: "(page_id_t \<Rightarrow> bool) \<Rightarrow> LogRecord list \<Rightarrow> TransactionManager \<Rightarrow> (TransactionManager \<times> ErrorCode) option" where
  "undo_list pages_ok [] tm = Some (tm, Code_Ok)"
| "undo_list pages_ok (r # rs) tm =
     (case undo_change pages_ok r tm of
        None \<Rightarrow> None
      | Some (tm, status) \<Rightarrow> if status \<noteq> Code_Ok then Some (tm, status) else undo_list pages_ok rs tm)"

lemma undo_records_list:
  assumes ok: "log_ok rs" and t: "t \<noteq> kInvalidTxnId" and s: "of_txn t rs = xs @ ys"
  shows "undo_records pages_ok (of_txn t rs) (rec_lsn ` set ys) (if xs = [] then [] else [rec_lsn (last xs)]) tm = undo_list pages_ok (rev xs) tm"
  using s
proof (induction xs arbitrary: ys tm rule: rev_induct)
  case (snoc r xs)
  note L = of_txn_lsns[OF ok, where t = t]
  have s: "of_txn t rs = xs @ r # ys" using snoc.prems by simp
  have n: "rec_lsn r \<notin> rec_lsn ` set ys" using L(1) unfolding s by auto
  have "find (\<lambda>x. rec_lsn x = rec_lsn r) (xs @ r # ys) = Some r"
  proof -
    have "rec_lsn r \<notin> rec_lsn ` set xs" using L(1) unfolding s by auto
    then have "\<forall>x \<in> set xs. rec_lsn x \<noteq> rec_lsn r" by (metis imageI)
    then show ?thesis by (induction xs) auto
  qed
  then have f: "find_record (of_txn t rs) (rec_lsn r) = Some r" by (simp add: find_record_def s)
  have p: "(if rec_prev r \<noteq> kInvalidLsn then rec_prev r # [] else []) = (if xs = [] then [] else [rec_lsn (last xs)])"
    using of_txn_prev[OF ok t s] L(2)[of "last xs"] s by simp
  have v: "insert (rec_lsn r) (rec_lsn ` set ys) = rec_lsn ` set (r # ys)" by simp
  have step: "undo_records pages_ok (of_txn t rs) (rec_lsn ` set ys) [rec_lsn r] tm =
      (case undo_change pages_ok r tm of None \<Rightarrow> None
       | Some (tm, status) \<Rightarrow> if status \<noteq> Code_Ok then Some (tm, status)
           else undo_records pages_ok (of_txn t rs) (insert (rec_lsn r) (rec_lsn ` set ys)) (if xs = [] then [] else [rec_lsn (last xs)]) tm)"
    using n f unfolding undo_records.simps(2) p[symmetric] by (simp only: foldl.simps remove1.simps Let_def if_False if_True option.case refl)
  have "undo_records pages_ok (of_txn t rs) (rec_lsn ` set ys) [rec_lsn r] tm = undo_list pages_ok (r # rev xs) tm"
    unfolding step v snoc.IH[OF s] undo_list.simps ..
  then show ?case by (simp only: rev_append rev.simps append.simps last_snoc append_is_Nil_conv if_False list.simps(3) simp_thms)
qed simp

subsection \<open>What undoing does\<close>

text \<open>The contents of the pages after the changes of the records, newest first, are taken back; and when that is possible:
  changed pages are there and not reserved for deletion, new pages are there, freed pages are reserved.\<close>

fun undo_pages :: "LogRecord list \<Rightarrow> (page_id_t \<rightharpoonup> byte list) \<Rightarrow> page_id_t \<rightharpoonup> byte list" where
  "undo_pages [] m = m"
| "undo_pages (r # rs) m = undo_pages rs
     (if rec_type r = L_PageUpdate then m(rec_page r \<mapsto> before_image r)
      else if rec_type r = L_PageAllocate then m(rec_page r := None) else m)"

fun undo_allocated :: "LogRecord list \<Rightarrow> page_id_t set \<Rightarrow> page_id_t set" where
  "undo_allocated [] al = al"
| "undo_allocated (r # rs) al = undo_allocated rs (if rec_type r = L_PageAllocate then al - {rec_page r} else al)"

fun undo_pending :: "LogRecord list \<Rightarrow> page_id_t set \<Rightarrow> page_id_t set" where
  "undo_pending [] pe = pe"
| "undo_pending (r # rs) pe = undo_pending rs (if rec_type r = L_PageFree then pe - {rec_page r} else pe)"

fun undo_fits :: "LogRecord list \<Rightarrow> page_id_t set \<Rightarrow> page_id_t set \<Rightarrow> bool" where
  "undo_fits [] al pe \<longleftrightarrow> True"
| "undo_fits (r # rs) al pe \<longleftrightarrow>
     (if rec_type r = L_PageUpdate then rec_page r \<in> al - pe \<and> length (before_image r) = page_size \<and> undo_fits rs al pe
      else if rec_type r = L_PageAllocate then rec_page r \<in> al - pe \<and> undo_fits rs (al - {rec_page r}) pe
      else if rec_type r = L_PageFree then rec_page r \<in> pe \<and> undo_fits rs al (pe - {rec_page r})
      else undo_fits rs al pe)"

text \<open>The manager at rest: its pool is settled, and all its parts are there.\<close>

definition tm_settled :: "LogRecord list \<Rightarrow> pool_state \<Rightarrow> TransactionManager \<Rightarrow> bool" where
  "tm_settled rs s tm \<longleftrightarrow> settled_pool rs s \<and> ps_pool s = tm_pool tm \<and> tm_log_set tm \<and> tm_log_path tm \<and> tm_pool_set tm \<and>
     tm_disk_set tm \<and> tm_locks_set tm"

text \<open>\<open>tm'\<close> differs from \<open>tm\<close> in the pool and the log only.\<close>

definition same_but_pages :: "TransactionManager \<Rightarrow> TransactionManager \<Rightarrow> bool" where
  "same_but_pages tm tm' \<longleftrightarrow> tm' = tm\<lparr>tm_pool := tm_pool tm'\<rparr> \<and> lock_manager (tm_pool tm') = lock_manager (tm_pool tm)"

lemma undo_change_ok:
  assumes st: "tm_settled rs s tm" and fits: "undo_fits [r] (al_of s) (pending_of s)"
  shows "\<exists>tm' s'. undo_change (\<lambda>_. True) r tm = Some (tm', Code_Ok) \<and> tm_settled rs s' tm' \<and> same_but_pages tm tm' \<and>
    ps_map s' = undo_pages [r] (ps_map s) \<and> al_of s' = undo_allocated [r] (al_of s) \<and> pending_of s' = undo_pending [r] (pending_of s)"
proof -
  have T: "settled_pool rs s" "tm_pool tm = ps_pool s" "tm_log_set tm" "tm_log_path tm" "tm_pool_set tm" "tm_disk_set tm" "tm_locks_set tm"
    using st by (simp_all add: tm_settled_def)
  let ?tm = "\<lambda>bp. tm\<lparr>tm_pool := bp\<rparr>"
  have same: "same_but_pages tm (?tm bp)" if "lock_manager bp = lock_manager (ps_pool s)" for bp
    using that T(2) by (simp add: same_but_pages_def)
  have set: "tm_settled rs s' (?tm bp)" if "settled_pool rs s'" "ps_pool s' = bp" for s' bp
    using that T by (simp add: tm_settled_def)
  have f: "rec_type r = L_PageUpdate \<Longrightarrow> rec_page r \<in> al_of s \<and> rec_page r \<notin> pending_of s \<and> length (before_image r) = page_size"
    "rec_type r = L_PageAllocate \<Longrightarrow> rec_page r \<in> al_of s \<and> rec_page r \<notin> pending_of s"
    "rec_type r = L_PageFree \<Longrightarrow> rec_page r \<in> pending_of s"
    using fits by simp_all
  consider "rec_type r = L_PageUpdate" | "rec_type r = L_PageAllocate" | "rec_type r = L_PageFree"
    | "rec_type r \<noteq> L_PageUpdate" "rec_type r \<noteq> L_PageAllocate" "rec_type r \<noteq> L_PageFree" by blast
  then show ?thesis
  proof cases
    case 1
    then obtain bp where b: "RestorePage (rec_page r) (before_image r) True (ps_pool s) = (bp, Code_Ok)"
      "settled_pool rs (map_page (rec_page r) (Some (before_image r)) bp s)" "allocated (disk_manager bp) = al_of s"
      "delete_pending_pages bp = pending_of s" "lock_manager bp = lock_manager (ps_pool s)"
      using settled_restore[OF T(1), of "rec_page r" "before_image r"] f 1 by auto
    have "undo_change (\<lambda>_. True) r tm = Some (?tm bp, Code_Ok)"
      using 1 b(1) T fits by (simp add: undo_change_def ApplyPageImage_def)
    then show ?thesis using 1 b same[OF b(5)] set[OF b(2)]
      by (intro exI[of _ "?tm bp"] exI[of _ "map_page (rec_page r) (Some (before_image r)) bp s"]) simp
  next
    case 2
    then obtain bp where b: "DeletePage True (rec_page r) (ps_pool s) = Some (bp, Code_Ok)"
      "settled_pool rs (map_page (rec_page r) None bp s)" "allocated (disk_manager bp) = al_of s - {rec_page r}"
      "delete_pending_pages bp = pending_of s" "lock_manager bp = lock_manager (ps_pool s)"
      using settled_delete[OF T(1), of "rec_page r"] f 2 by auto
    have "undo_change (\<lambda>_. True) r tm = Some (?tm bp, Code_Ok)"
      using 2 b(1) T by (simp add: undo_change_def free_page_def)
    then show ?thesis using 2 b same[OF b(5)] set[OF b(2)]
      by (intro exI[of _ "?tm bp"] exI[of _ "map_page (rec_page r) None bp s"]) simp
  next
    case 3
    then obtain bp where b: "CancelPageDeletion (rec_page r) (ps_pool s) = (bp, Code_Ok)"
      "settled_pool rs (set_pool bp s)" "disk_manager bp = dk s"
      "delete_pending_pages bp = pending_of s - {rec_page r}" "lock_manager bp = lock_manager (ps_pool s)"
      using settled_cancel[OF T(1), of "rec_page r"] f 3 by auto
    have "undo_change (\<lambda>_. True) r tm = Some (?tm bp, Code_Ok)"
      using 3 b(1) T by (simp add: undo_change_def)
    then show ?thesis using 3 b same[OF b(5)] set[OF b(2)]
      by (intro exI[of _ "?tm bp"] exI[of _ "set_pool bp s"]) simp
  next
    case 4
    then have "undo_change (\<lambda>_. True) r tm = Some (tm, Code_Ok)" by (simp add: undo_change_def)
    then show ?thesis using 4 st by (intro exI[of _ tm] exI[of _ s]) (simp add: same_but_pages_def)
  qed
qed

lemma undo_list_ok:
  assumes "tm_settled rs s tm" "undo_fits us (al_of s) (pending_of s)"
  shows "\<exists>tm' s'. undo_list (\<lambda>_. True) us tm = Some (tm', Code_Ok) \<and> tm_settled rs s' tm' \<and> same_but_pages tm tm' \<and>
    ps_map s' = undo_pages us (ps_map s) \<and> al_of s' = undo_allocated us (al_of s) \<and> pending_of s' = undo_pending us (pending_of s)"
  using assms
proof (induction us arbitrary: s tm)
  case Nil
  then show ?case by (intro exI[of _ tm] exI[of _ s]) (simp add: same_but_pages_def)
next
  case (Cons r us)
  have "undo_fits [r] (al_of s) (pending_of s)" using Cons.prems(2) by (auto split: if_splits)
  from undo_change_ok[OF Cons.prems(1) this] obtain tm1 s1 where
    c: "undo_change (\<lambda>_. True) r tm = Some (tm1, Code_Ok)" "tm_settled rs s1 tm1" "same_but_pages tm tm1"
      "ps_map s1 = undo_pages [r] (ps_map s)" "al_of s1 = undo_allocated [r] (al_of s)" "pending_of s1 = undo_pending [r] (pending_of s)" by blast
  have "undo_fits us (al_of s1) (pending_of s1)" using Cons.prems(2) c(5,6) by (auto split: if_splits)
  from Cons.IH[OF c(2) this] obtain tm2 s2 where
    d: "undo_list (\<lambda>_. True) us tm1 = Some (tm2, Code_Ok)" "tm_settled rs s2 tm2" "same_but_pages tm1 tm2"
      "ps_map s2 = undo_pages us (ps_map s1)" "al_of s2 = undo_allocated us (al_of s1)" "pending_of s2 = undo_pending us (pending_of s1)" by blast
  have "same_but_pages tm tm2" using c(3) d(3) by (cases tm; cases tm1; cases tm2) (simp add: same_but_pages_def)
  then show ?case using c d by (intro exI[of _ tm2] exI[of _ s2]) simp
qed

subsection \<open>The log and the locks\<close>

lemma settled_core:
  assumes st: "settled_pool rs s" and core: "core_same (ps_pool s) bp" and log: "log_at rs' (log_manager bp)" "\<not> fail_next_flush (log_manager bp)"
    and ready: "init_status bp = init_status (ps_pool s)" "pool_closed bp = pool_closed (ps_pool s)" and le: "last_lsn_of rs \<le> last_lsn_of rs'"
  shows "settled_pool rs' (set_pool bp s)"
proof -
  note S = settledD[OF st] and C = core_sameD[OF core]
  have "pool_inv (set_pool bp s)" by (rule pool_inv_set[OF S(1) core])
  moreover have "page_lsn (frame_at bp f) \<le> last_lsn_of rs' \<and> (frame_state (frame_at bp f) = FS_Valid \<longrightarrow> frame_page_id (frame_at bp f) \<notin> delete_pending_pages bp)"
    if "f < n_of s" for f using S(9,10)[OF that] order_trans[OF _ le] by (simp add: C(6,8))
  ultimately show ?thesis using S log ready C(1) by (simp add: settled_pool_def at_rest_def)
qed

definition end_record :: "LogRecordType \<Rightarrow> txn_id_t \<Rightarrow> LogRecord list \<Rightarrow> LogRecord" where
  "end_record type t rs = LogRecord_default\<lparr>rec_type := type, rec_txn := t, rec_prev := prev_of t rs, rec_lsn := last_lsn_of rs + 1\<rparr>"

lemma end_record_valid:
  "type = L_Commit \<or> type = L_Abort \<Longrightarrow> record_valid (end_record type t rs) \<and> normal_record (end_record type t rs) = end_record type t rs"
  by (auto simp: record_valid_def encode_checks_def end_record_def LogRecord_default_def normal_record_def kInvalidLsn_def)

lemma last_lsn_snoc [simp]: "last_lsn_of (rs @ [r]) = rec_lsn r"
  by (simp add: last_lsn_of_def)

lemma append_end:
  assumes tm: "tm_settled rs s tm" and ty: "type = L_Commit \<or> type = L_Abort" and t: "t \<noteq> kInvalidTxnId" "txn_chain t (tm_pool tm) = prev_of t rs"
    and room: "last_lsn_of rs \<noteq> -1"
  defines "r \<equiv> end_record type t rs"
  shows "\<exists>lm. AppendFor (Some t) (LogRecord_default\<lparr>rec_type := type\<rparr>) tm =
      (upd_object t (SetLastLsn (rec_lsn r)) (tm\<lparr>tm_pool := (tm_pool tm)\<lparr>log_manager := lm\<rparr>\<rparr>), Inr (rec_lsn r)) \<and>
    log_at (rs @ [r]) lm \<and> \<not> fail_next_flush lm"
proof -
  let ?r = "LogRecord_default\<lparr>rec_type := type, rec_txn := t, rec_prev := prev_of t rs\<rparr>"
  have S: "log_at rs (log_manager (tm_pool tm))" "\<not> fail_next_flush (log_manager (tm_pool tm))" "tm_log_set tm"
    using tm settledD(4,5)[of rs s] by (auto simp: tm_settled_def)
  have e: "?r\<lparr>rec_lsn := last_lsn_of rs + 1\<rparr> = r" by (simp add: r_def end_record_def)
  have v: "record_valid ?r" "normal_record ?r = ?r"
    using ty by (auto simp: record_valid_def encode_checks_def LogRecord_default_def normal_record_def kInvalidLsn_def)
  have "rec_txn ?r \<noteq> kInvalidTxnId" "rec_prev ?r = prev_of (rec_txn ?r) rs" using t(1) by simp_all
  from Append_log[OF S(1) v room this] obtain lm where
    lm: "Append ?r (log_manager (tm_pool tm)) = (lm, Inr (last_lsn_of rs + 1))" "log_at (rs @ [r]) lm" "\<not> fail_next_flush lm"
    using S(2) unfolding e by auto
  have "rec_lsn r = last_lsn_of rs + 1" by (simp add: r_def end_record_def)
  then show ?thesis using lm S(3) t(2) by (intro exI[of _ lm]) (simp add: AppendFor_def append_for_def upd_object_def)
qed

lemma tm_settled_logs:
  assumes tm: "tm_settled rs s tm" and pool: "tm_pool tm' = (tm_pool tm)\<lparr>log_manager := lm, lock_manager := lk\<rparr>"
    and flags: "tm_log_set tm' = tm_log_set tm" "tm_log_path tm' = tm_log_path tm" "tm_pool_set tm' = tm_pool_set tm"
      "tm_disk_set tm' = tm_disk_set tm" "tm_locks_set tm' = tm_locks_set tm"
    and log: "log_at rs' lm" "\<not> fail_next_flush lm" and le: "last_lsn_of rs \<le> last_lsn_of rs'"
  shows "tm_settled rs' (set_pool (tm_pool tm') s) tm'"
proof -
  have T: "settled_pool rs s" "ps_pool s = tm_pool tm" using tm by (simp_all add: tm_settled_def)
  have "settled_pool rs' (set_pool (tm_pool tm') s)"
    by (rule settled_core[OF T(1) _ _ _ _ _ le]) (use log T(2) in \<open>simp_all add: pool\<close>)
  then show ?thesis using tm flags by (simp add: tm_settled_def)
qed

lemma next_lsn_le: "last_lsn_of rs \<noteq> -1 \<Longrightarrow> last_lsn_of rs \<le> last_lsn_of rs + 1"
  by (simp add: word_less_succ less_imp_le)

lemma release_and_remove_eq:
  assumes "tm_locks_set tm"
  shows "release_and_remove t tm =
    (RemoveTransaction (Some t) (tm\<lparr>tm_pool := (tm_pool tm)\<lparr>lock_manager := fst (UnlockAll (Some t) (lock_manager (tm_pool tm)))\<rparr>\<rparr>), Code_Ok)"
  using assms by (cases "UnlockAll (Some t) (lock_manager (tm_pool tm))")
    (use UnlockAll_code[of t "lock_manager (tm_pool tm)"] in \<open>simp add: release_and_remove_def Let_def\<close>)

lemma RemoveTransaction_fields [simp]:
  "tm_pool (RemoveTransaction (Some t) tm) = tm_pool tm" "tm_log_set (RemoveTransaction (Some t) tm) = tm_log_set tm"
  "tm_log_path (RemoveTransaction (Some t) tm) = tm_log_path tm" "tm_pool_set (RemoveTransaction (Some t) tm) = tm_pool_set tm"
  "tm_disk_set (RemoveTransaction (Some t) tm) = tm_disk_set tm" "tm_locks_set (RemoveTransaction (Some t) tm) = tm_locks_set tm"
  "active_transactions (RemoveTransaction (Some t) tm) = active_transactions tm - {t}"
  by (simp_all add: RemoveTransaction_def)

lemma upd_object_fields [simp]:
  "tm_pool (upd_object t g tm) = upd_pool_txn t g (tm_pool tm)" "tm_log_set (upd_object t g tm) = tm_log_set tm"
  "tm_log_path (upd_object t g tm) = tm_log_path tm" "tm_pool_set (upd_object t g tm) = tm_pool_set tm"
  "tm_disk_set (upd_object t g tm) = tm_disk_set tm" "tm_locks_set (upd_object t g tm) = tm_locks_set tm"
  "active_transactions (upd_object t g tm) = active_transactions tm"
  "committed_cleanup_index (upd_object t g tm) = committed_cleanup_index tm"
  by (simp_all add: upd_object_def)

lemma finish_abort_ok:
  assumes tm: "tm_settled rs s tm" and t: "t \<noteq> kInvalidTxnId" "txn_chain t (tm_pool tm) = prev_of t rs" and room: "last_lsn_of rs \<noteq> -1"
  defines "r \<equiv> end_record L_Abort t rs"
  defines "lk \<equiv> upd_txn t (SetState Aborted) (upd_txn t (SetLastLsn (rec_lsn r)) (lock_manager (tm_pool tm)))"
  shows "\<exists>tm' lm. finish_abort True t tm = Some (tm', Code_Ok) \<and> log_at (rs @ [r]) lm \<and> rec_lsn r \<le> durable_lsn lm \<and>
    tm_pool tm' = (tm_pool tm)\<lparr>log_manager := lm, lock_manager := fst (UnlockAll (Some t) lk)\<rparr> \<and>
    active_transactions tm' = active_transactions tm - {t} \<and> tm_settled (rs @ [r]) (set_pool (tm_pool tm') s) tm'"
proof -
  obtain lm where a: "AppendFor (Some t) (LogRecord_default\<lparr>rec_type := L_Abort\<rparr>) tm =
      (upd_object t (SetLastLsn (rec_lsn r)) (tm\<lparr>tm_pool := (tm_pool tm)\<lparr>log_manager := lm\<rparr>\<rparr>), Inr (rec_lsn r))"
    "log_at (rs @ [r]) lm" "\<not> fail_next_flush lm"
    using append_end[OF tm _ t room, of L_Abort] unfolding r_def by blast
  obtain lm' where f: "Flush (rec_lsn r) True lm = Some (lm', Code_Ok)" "log_at (rs @ [r]) lm'" "\<not> fail_next_flush lm'" "rec_lsn r \<le> durable_lsn lm'"
    using Flush_settled[OF a(2,3), of "rec_lsn r"] by auto
  have l: "tm_locks_set tm" using tm by (simp add: tm_settled_def)
  let ?tm1 = "upd_object t (SetLastLsn (rec_lsn r)) (tm\<lparr>tm_pool := (tm_pool tm)\<lparr>log_manager := lm\<rparr>\<rparr>)"
  let ?tm2 = "upd_object t (SetState Aborted) (?tm1\<lparr>tm_pool := (tm_pool ?tm1)\<lparr>log_manager := lm'\<rparr>\<rparr>)"
  let ?tm = "fst (release_and_remove t ?tm2)"
  have e: "finish_abort True t tm = Some (?tm, Code_Ok)"
    using a(1) f(1) l by (simp add: finish_abort_def flush_log_def log_of_tm_def upd_pool_txn_def release_and_remove_eq)
  have p: "tm_pool ?tm = (tm_pool tm)\<lparr>log_manager := lm', lock_manager := fst (UnlockAll (Some t) lk)\<rparr>"
    using l by (simp add: release_and_remove_eq upd_pool_txn_def lk_def)
  have "rec_lsn r = last_lsn_of rs + 1" by (simp add: r_def end_record_def)
  then have "tm_settled (rs @ [r]) (set_pool (tm_pool ?tm) s) ?tm"
    using l next_lsn_le[OF room] by (intro tm_settled_logs[OF tm p _ _ _ _ _ f(2,3)]) (simp_all add: release_and_remove_eq)
  moreover have "active_transactions ?tm = active_transactions tm - {t}" using l by (simp add: release_and_remove_eq)
  ultimately show ?thesis using e p f by blast
qed

subsection \<open>Aborting\<close>

text \<open>The contents of a page before the transaction with the records \<open>us\<close> changed it; \<open>m\<close> has its present contents.\<close>

definition touches :: "page_id_t \<Rightarrow> LogRecord \<Rightarrow> bool" where
  "touches p r \<longleftrightarrow> rec_page r = p \<and> (rec_type r = L_PageUpdate \<or> rec_type r = L_PageAllocate)"

definition contents_before :: "LogRecord list \<Rightarrow> (page_id_t \<rightharpoonup> byte list) \<Rightarrow> page_id_t \<rightharpoonup> byte list" where
  "contents_before us m p =
     (case find (touches p) us of None \<Rightarrow> m p | Some r \<Rightarrow> if rec_type r = L_PageUpdate then Some (before_image r) else None)"

lemma undo_pages_append: "undo_pages (us @ vs) m = undo_pages vs (undo_pages us m)"
  by (induction us arbitrary: m) auto

lemma undo_pages_rev: "undo_pages (rev us) m = contents_before us m"
proof (induction us)
  case (Cons r us)
  show ?case
    by (rule ext) (auto simp: undo_pages_append Cons contents_before_def touches_def)
qed (simp add: contents_before_def fun_eq_iff)

lemma tm_settled_object: "tm_settled rs s tm \<Longrightarrow> tm_settled rs (set_pool (upd_pool_txn t g (tm_pool tm)) s) (upd_object t g tm)"
proof -
  assume tm: "tm_settled rs s tm"
  then have S: "log_at rs (log_manager (tm_pool tm))" "\<not> fail_next_flush (log_manager (tm_pool tm))"
    using settledD(4,5)[of rs s] by (auto simp: tm_settled_def)
  have p: "tm_pool (upd_object t g tm) = (tm_pool tm)\<lparr>log_manager := log_manager (tm_pool tm), lock_manager := upd_txn t g (lock_manager (tm_pool tm))\<rparr>"
    by (simp add: upd_pool_txn_def)
  show ?thesis using tm_settled_logs[OF tm p _ _ _ _ _ S order_refl] by simp
qed

lemma Undo_ok:
  assumes tm: "tm_settled rs s tm" and t: "t \<noteq> kInvalidTxnId" "txn_chain t (tm_pool tm) = prev_of t rs"
    and fits: "undo_fits (rev (of_txn t rs)) (al_of s) (pending_of s)"
  shows "\<exists>tm' s'. Undo (\<lambda>_. True) (Some t) tm = Some (tm', Code_Ok) \<and> tm_settled rs s' tm' \<and> same_but_pages tm tm' \<and>
    ps_map s' = contents_before (of_txn t rs) (ps_map s) \<and> al_of s' = undo_allocated (rev (of_txn t rs)) (al_of s) \<and>
    pending_of s' = undo_pending (rev (of_txn t rs)) (pending_of s)"
proof -
  have S: "log_at rs (log_manager (tm_pool tm))" "tm_log_set tm"
    using tm settledD(4)[of rs s] by (auto simp: tm_settled_def)
  then have ok: "log_ok rs" by (simp add: log_at_def)
  let ?start = "if of_txn t rs = [] then [] else [rec_lsn (last (of_txn t rs))]"
  have c: "(if txn_chain t (tm_pool tm) \<noteq> kInvalidLsn then [txn_chain t (tm_pool tm)] else []) = ?start"
    using of_txn_lsns(2)[OF ok, of "last (of_txn t rs)" t] by (simp add: t(2) prev_of_of_txn)
  have "Undo (\<lambda>_. True) (Some t) tm = undo_records (\<lambda>_. True) (of_txn t rs) {} ?start tm"
    unfolding Undo_def of_txn_def[symmetric] using S log_at_Scan[OF S(1)] by (simp add: log_of_tm_def c)
  also have "\<dots> = undo_list (\<lambda>_. True) (rev (of_txn t rs)) tm"
    using undo_records_list[OF ok t(1), of "of_txn t rs" "[]"] by simp
  finally show ?thesis using undo_list_ok[OF tm fits] unfolding undo_pages_rev by simp
qed

subsection \<open>A manager with one transaction\<close>

text \<open>Transaction 1 has changed page 1 and logged it.\<close>

definition demo_manager :: TransactionManager where
  "demo_manager = (make_TransactionManager ((make_BufferPool 1 P_LRU WriteBack demo_disk1 demo_wal
      (initial_lock_manager [1 \<mapsto> (make_Transaction 1 True)\<lparr>last_lsn := 2\<rparr>]))\<lparr>log_manager_bound := True, lock_manager_bound := True\<rparr>))
     \<lparr>active_transactions := {1}\<rparr>"

definition demo_resting :: pool_state where
  "demo_resting = pool_start (tm_pool demo_manager)"

lemma demo_allocated: "al_of demo_resting = {1}" "pending_of demo_resting = {}"
proof -
  have "p \<noteq> 0 \<and> p < 2 \<longleftrightarrow> p = 1" for p :: page_id_t
  proof
    assume "p \<noteq> 0 \<and> p < 2"
    then have "unat p \<noteq> 0" "unat p < 2" by (simp_all add: unat_eq_zero word_less_nat_alt)
    then have "unat p = unat (1 :: page_id_t)" by simp
    then show "p = 1" by (simp only: word_unat_eq_iff)
  qed (simp add: word_less_nat_alt)
  then show "al_of demo_resting = {1}" "pending_of demo_resting = {}"
    using demo_disk1_fits by (auto simp: demo_resting_def pool_start_def demo_manager_def make_TransactionManager_def make_BufferPool_def
      allocated_def disk_ok_with_def)
qed

lemma demo_manager_settled: "tm_settled demo_records demo_resting demo_manager"
proof -
  let ?bp = "tm_pool demo_manager"
  have "?bp = (make_BufferPool 1 P_LRU WriteBack demo_disk1 demo_wal (initial_lock_manager [1 \<mapsto> (make_Transaction 1 True)\<lparr>last_lsn := 2\<rparr>]))
     \<lparr>log_manager_bound := True, lock_manager_bound := True\<rparr>" by (simp add: demo_manager_def make_TransactionManager_def)
  moreover have "disk_ok demo_disk1" using demo_disk1_fits(3) by (auto simp: disk_ok_def)
  ultimately have "fresh_pool ?bp" unfolding fresh_pool_def by (metis One_nat_def Suc_neq_Zero)
  then have "at_rest (pool_start ?bp)" using pool_start_inv[of ?bp] by (simp add: at_rest_def) (simp add: pool_start_def)
  then show ?thesis using demo_wal_at
    by (simp add: tm_settled_def settled_pool_def demo_resting_def)
      (simp add: pool_start_def demo_manager_def make_TransactionManager_def make_BufferPool_def frame_at_def empty_frame_def kInvalidLsn_def)
qed

lemma demo_manager_facts:
  "txn_object demo_manager 1 = Some ((make_Transaction 1 True)\<lparr>last_lsn := 2\<rparr>)" "1 \<in> active_transactions demo_manager"
  "prev_of 1 demo_records = 2" "of_txn 1 demo_records = demo_records" "last_lsn_of demo_records \<noteq> -1" "(1 :: txn_id_t) \<noteq> kInvalidTxnId"
  "undo_fits (rev demo_records) (al_of demo_resting) (pending_of demo_resting)"
  "lm_reachable (lock_manager (tm_pool demo_manager)) (\<lambda>_. Map.empty)" "committed_cleanup_index demo_manager 1 = None"
  unfolding demo_allocated
  by (simp_all add: demo_manager_def make_TransactionManager_def make_BufferPool_def txn_object_def initial_lock_manager_def[abs_def] lm_init[unfolded initial_lock_manager_def]
    prev_of_def demo_records_def demo_update_def LogRecord_default_def of_txn_def last_lsn_of_def kInvalidTxnId_def)

text \<open>C10: Aborting an active or failed transaction succeeds when the host can flush the log, no call or page guard of any
  thread is under way in the pool, and no rollback of the transaction was begun before (\<open>undo_fits\<close>: going back through its log records, the
  pages it changed or allocated are still allocated and not reserved for deletion, and the pages it freed are still reserved). It gives every page
  that the transaction changed the contents from before its first change, frees the pages that the transaction allocated, keeps the pages that
  it had freed, and changes no other page; its abort record is durable, it holds no lock any more, and it is no longer active. Not covered is
  the repetition of an abort whose record could not be flushed: the code undoes a second time, and would write to pages that the first
  time has freed.\<close>

theorem Abort_restores_pages:
  assumes "tm_settled rs s tm" and "t \<noteq> kInvalidTxnId" "t \<in> active_transactions tm" and "last_lsn_of rs \<noteq> -1"
    and "txn_object tm t = Some x" "txn_state x = Active \<or> txn_state x = Failed" "active_write_guards x = 0" "last_lsn x = prev_of t rs"
    and "undo_fits (rev (of_txn t rs)) (al_of s) (pending_of s)" and "lm_reachable (lock_manager (tm_pool tm)) h"
  shows "\<exists>tm' s'. Abort True (\<lambda>_. True) (Some t) tm = Some (tm', Code_Ok) \<and> tm_settled (rs @ [end_record L_Abort t rs]) s' tm' \<and>
    ps_map s' = contents_before (of_txn t rs) (ps_map s) \<and> al_of s' = undo_allocated (rev (of_txn t rs)) (al_of s) \<and>
    pending_of s' = undo_pending (rev (of_txn t rs)) (pending_of s) \<and> rec_lsn (end_record L_Abort t rs) \<le> durable_lsn (log_of_tm tm') \<and>
    t \<notin> active_transactions tm' \<and> GetGrantedLocks t (lock_manager (tm_pool tm')) = []"
proof -
  let ?tm1 = "upd_object t (fst \<circ> TrySetState (txn_state x) Aborting) tm"
  let ?s1 = "set_pool (upd_pool_txn t (fst \<circ> TrySetState (txn_state x) Aborting) (tm_pool tm)) s"
  note U = tm_settled_object[OF assms(1), of t "fst \<circ> TrySetState (txn_state x) Aborting"]
  have c: "txn_chain t (tm_pool ?tm1) = prev_of t rs"
    using assms(5,8) by (simp add: txn_chain_def txn_object_def upd_pool_txn_def upd_txn_def TrySetState_def)
  have "al_of ?s1 = al_of s" "pending_of ?s1 = pending_of s"
    using assms(1) by (simp_all add: upd_pool_txn_def tm_settled_def)
  with Undo_ok[OF U assms(2) c] assms(9) obtain tm2 s2 where u: "Undo (\<lambda>_. True) (Some t) ?tm1 = Some (tm2, Code_Ok)" "tm_settled rs s2 tm2"
    "same_but_pages ?tm1 tm2" "ps_map s2 = contents_before (of_txn t rs) (ps_map s)" "al_of s2 = undo_allocated (rev (of_txn t rs)) (al_of s)"
    "pending_of s2 = undo_pending (rev (of_txn t rs)) (pending_of s)" by auto
  have lk: "lock_manager (tm_pool tm2) = lock_manager (tm_pool ?tm1)" "active_transactions tm2 = active_transactions tm"
    using u(3) by (simp_all add: same_but_pages_def upd_object_def) (cases tm2; simp)
  have c2: "txn_chain t (tm_pool tm2) = prev_of t rs" using c by (simp add: txn_chain_def lk)
  from finish_abort_ok[OF u(2) assms(2) c2 assms(4)] obtain tm' lm l where f: "finish_abort True t tm2 = Some (tm', Code_Ok)"
    "rec_lsn (end_record L_Abort t rs) \<le> durable_lsn lm" "active_transactions tm' = active_transactions tm2 - {t}"
    "tm_pool tm' = (tm_pool tm2)\<lparr>log_manager := lm, lock_manager := fst (UnlockAll (Some t) (upd_txn t (SetState Aborted) (upd_txn t (SetLastLsn l) (lock_manager (tm_pool tm2)))))\<rparr>"
    "tm_settled (rs @ [end_record L_Abort t rs]) (set_pool (tm_pool tm') s2) tm'" by blast
  have "\<exists>h. lm_reachable (upd_txn u g lm) h" if "lm_reachable lm h" for lm h u g
    using lm_run[OF that lm_transactions, of "(txn_store lm)(u := map_option g (txn_store lm u))"] unfolding upd_txn_def by blast
  then have "\<exists>h. lm_reachable (upd_txn t (SetState Aborted) (upd_txn t (SetLastLsn l) (lock_manager (tm_pool tm2)))) h"
    using assms(10) unfolding lk upd_object_fields upd_pool_txn_def by (metis (no_types, lifting) BufferPoolManager.select_convs(4) BufferPoolManager.surjective BufferPoolManager.update_convs(4))
  then have g: "GetGrantedLocks t (lock_manager (tm_pool tm')) = []" using UnlockAll_granted by (auto simp: f(4))
  have a: "Abort True (\<lambda>_. True) (Some t) tm = Some (tm', Code_Ok)"
    using assms(3,5,6,7) u(1) f(1) by (auto simp: Abort_def OwnsTransaction_def)
  have p: "disk_manager (tm_pool tm') = dk s2" "delete_pending_pages (tm_pool tm') = pending_of s2" "log_manager (tm_pool tm') = lm"
    using u(2) by (simp_all add: f(4) tm_settled_def)
  show ?thesis
    using a f(2,3,5) g u(4-6) p by (intro exI[of _ tm'] exI[of _ "set_pool (tm_pool tm') s2"]) (simp add: log_of_tm_def)
qed

theorem Abort_restores_pages_witness:
  "\<exists>tm' s'. Abort True (\<lambda>_. True) (Some 1) demo_manager = Some (tm', Code_Ok) \<and>
    tm_settled (demo_records @ [end_record L_Abort 1 demo_records]) s' tm' \<and>
    ps_map s' = contents_before demo_records (ps_map demo_resting) \<and> al_of s' = undo_allocated (rev demo_records) (al_of demo_resting) \<and>
    pending_of s' = undo_pending (rev demo_records) (pending_of demo_resting) \<and>
    rec_lsn (end_record L_Abort 1 demo_records) \<le> durable_lsn (log_of_tm tm') \<and>
    1 \<notin> active_transactions tm' \<and> GetGrantedLocks 1 (lock_manager (tm_pool tm')) = []"
  using Abort_restores_pages[OF demo_manager_settled demo_manager_facts(6,2,5,1), unfolded demo_manager_facts(4), OF _ _ _ demo_manager_facts(7,8)]
  by (simp add: make_Transaction_def demo_manager_facts(3))

subsection \<open>Committing\<close>

lemma write_frame_log:
  "write_frame h f p bp = Some (bp', c) \<Longrightarrow> durable bp \<le> durable bp' \<and> lock_manager bp' = lock_manager bp"
  by (auto simp: write_frame_def FlushFrameToDisk_def Let_def dest: Flush_durable split: if_splits option.splits prod.splits)

lemma return_free_log: "durable (fst (ReturnFreeFrameUnlocked f bp)) = durable bp" "lock_manager (fst (ReturnFreeFrameUnlocked f bp)) = lock_manager bp"
  by (simp_all add: ReturnFreeFrameUnlocked_def)

lemma call_replacer_log: "durable (fst (call_replacer x bp)) = durable bp" "lock_manager (fst (call_replacer x bp)) = lock_manager bp"
  by (auto simp: call_replacer_def split: prod.splits rep_reply.splits)

lemma finalize_log:
  assumes "FinalizePageDeletion h p bp = Some (bp', c)"
  shows "durable bp \<le> durable bp' \<and> lock_manager bp' = lock_manager bp"
proof -
  obtain b0 e where e: "finalize_enter p bp = (b0, e)" by fastforce
  have b0: "durable b0 = durable bp" "lock_manager b0 = lock_manager bp"
    using e by (auto simp: finalize_enter_def split: if_splits option.splits)
  show ?thesis
  proof (cases e)
    case (FN_Return x)
    then show ?thesis using assms e b0 by (simp add: FinalizePageDeletion_def)
  next
    case FN_Absent
    then have "finalize_absent p b0 = (bp', c)" using assms e by (simp add: FinalizePageDeletion_def)
    then show ?thesis using b0 by (auto simp: finalize_absent_def Let_def split: prod.splits if_splits)
  next
    case (FN_Frame f)
    then obtain b1 c1 where io: "finalize_io h f p b0 = Some (b1, c1)" and fin: "finalize_finish f p c1 b1 = (bp', c)"
      using assms e by (auto simp: FinalizePageDeletion_def split: option.splits)
    have "durable b0 \<le> durable b1 \<and> lock_manager b1 = lock_manager b0"
      using io by (auto simp: finalize_io_def Let_def dest: write_frame_log split: if_splits option.splits prod.splits)
    moreover have "durable bp' = durable b1 \<and> lock_manager bp' = lock_manager b1"
    proof (cases "c1 = Code_Ok")
      case False
      then show ?thesis using fin by (auto simp: finalize_finish_def)
    next
      case True
      have "bp' = fst (finalize_finish f p c1 b1)" using fin by simp
      then show ?thesis using True by (simp add: finalize_finish_def Let_def return_free_log call_replacer_log)
    qed
    ultimately show ?thesis using b0 by simp
  qed
qed

lemma free_page_log:
  assumes "free_page (FinalizePageDeletion h p) p tm = Some (tm', c)"
  shows "durable (tm_pool tm) \<le> durable (tm_pool tm') \<and> lock_manager (tm_pool tm') = lock_manager (tm_pool tm) \<and>
    active_transactions tm' = active_transactions tm"
  using assms finalize_log[of h p "tm_pool tm"] by (auto simp: free_page_def split: if_splits prod.splits option.splits)

lemma cleanup_log:
  "cleanup_pages ok t n pages tm = Some (tm', c) \<Longrightarrow>
   durable (tm_pool tm) \<le> durable (tm_pool tm') \<and> lock_manager (tm_pool tm') = lock_manager (tm_pool tm) \<and>
    active_transactions tm' = active_transactions tm"
proof (induction pages arbitrary: n tm)
  case (Cons p pages)
  from Cons.prems obtain tm1 c1 where f: "free_page (FinalizePageDeletion (ok p) p) p tm = Some (tm1, c1)"
    by (auto split: option.splits)
  note F = free_page_log[OF f]
  show ?case
  proof (cases "c1 \<noteq> Code_Ok \<and> c1 \<noteq> AlreadyExists \<and> c1 \<noteq> NotFound")
    case True
    then show ?thesis using Cons.prems f F by simp
  next
    case False
    let ?tm = "tm1\<lparr>committed_cleanup_index := (committed_cleanup_index tm1)(t \<mapsto> Suc n)\<rparr>"
    have "cleanup_pages ok t (Suc n) pages ?tm = Some (tm', c)" using Cons.prems f False by auto
    from Cons.IH[OF this] F show ?thesis by auto
  qed
qed simp

lemma cleanup_object:
  assumes c: "FinalizeCommittedCleanup ok (Some t) tm = Some (tm', c)" and x: "txn_object tm t = Some x"
  shows "\<exists>y. txn_object tm' t = Some y \<and> txn_state y = txn_state x \<and> commit_lsn y = commit_lsn x \<and> durable (tm_pool tm) \<le> durable (tm_pool tm')"
proof (cases "\<not> OwnsTransaction (Some t) tm \<or> object_state tm t \<noteq> Committed")
  case True
  then show ?thesis using c x by (auto simp: FinalizeCommittedCleanup_def)
next
  case False
  let ?n = "case committed_cleanup_index tm t of None \<Rightarrow> 0 | Some n \<Rightarrow> n"
  let ?tm = "tm\<lparr>committed_cleanup_index := (committed_cleanup_index tm)(t \<mapsto> ?n)\<rparr>"
  obtain tm1 c1 where l: "cleanup_pages ok t ?n (drop ?n (deferred_free_pages x)) ?tm = Some (tm1, c1)"
    using c x False by (auto simp: FinalizeCommittedCleanup_def Let_def split: option.splits)
  have r: "(tm', c) = (if c1 \<noteq> Code_Ok then (tm1, c1) else release_and_remove t tm1)"
    using c x False l by (auto simp: FinalizeCommittedCleanup_def Let_def)
  note L = cleanup_log[OF l]
  have x1: "txn_object tm1 t = Some x" using L x by (simp add: txn_object_def)
  have p: "tm_pool (fst (release_and_remove t tm1)) = tm_pool tm1 \<or>
      tm_pool (fst (release_and_remove t tm1)) = (tm_pool tm1)\<lparr>lock_manager := fst (UnlockAll (Some t) (lock_manager (tm_pool tm1)))\<rparr>"
    by (cases "tm_locks_set tm1") (simp_all add: release_and_remove_eq, simp add: release_and_remove_def)
  have "\<exists>y. txn_object (fst (release_and_remove t tm1)) t = Some y \<and> txn_state y = txn_state x \<and> commit_lsn y = commit_lsn x \<and>
      durable (tm_pool (fst (release_and_remove t tm1))) = durable (tm_pool tm1)"
    using p x1 by (auto simp: txn_object_def UnlockAll_txn ClearGrantedLocks_def)
  moreover have "tm' = tm1 \<or> tm' = fst (release_and_remove t tm1)" using r by (metis fst_conv)
  ultimately show ?thesis using L x1 by auto
qed

lemma commit_flush_object:
  assumes c: "commit_flush h ok t lsn tm = Some (tm', c)" and x: "txn_object tm t = Some x"
  shows "\<exists>y. txn_object tm' t = Some y \<and> commit_lsn y = commit_lsn x \<and>
    (if txn_state y = Committed then lsn \<le> durable (tm_pool tm')
     else queues_map (lock_manager (tm_pool tm')) = queues_map (lock_manager (tm_pool tm)) \<and> active_transactions tm' = active_transactions tm)"
proof -
  obtain lm st where f: "Flush lsn h (log_manager (tm_pool tm)) = Some (lm, st)"
    using c by (auto simp: commit_flush_def flush_log_def log_of_tm_def split: option.splits)
  let ?tm1 = "tm\<lparr>tm_pool := (tm_pool tm)\<lparr>log_manager := lm\<rparr>\<rparr>"
  show ?thesis
  proof (cases "st = Code_Ok")
    case False
    then have "tm' = upd_object t (SetState CommitUncertain) ?tm1" using c f by (simp add: commit_flush_def flush_log_def log_of_tm_def)
    then show ?thesis using x by (simp add: txn_object_def upd_pool_txn_def upd_txn_def SetState_def)
  next
    case True
    let ?tm2 = "upd_object t (SetState Committed) ?tm1"
    have e: "FinalizeCommittedCleanup ok (Some t) ?tm2 = Some (tm', c)" using c f True by (simp add: commit_flush_def flush_log_def log_of_tm_def)
    have x2: "txn_object ?tm2 t = Some (SetState Committed x)" using x by (simp add: txn_object_def upd_pool_txn_def upd_txn_def)
    have "lsn \<le> durable (tm_pool ?tm2)" using Flush_durable[OF f] True by (simp add: upd_pool_txn_def)
    then show ?thesis using cleanup_object[OF e x2] by (auto simp: SetState_def intro: order_trans)
  qed
qed

lemma cleanup_ok:
  assumes "tm_settled rs s tm" "distinct pages" "set pages \<subseteq> pending_of s"
  shows "\<exists>tm' s'. cleanup_pages (\<lambda>_. True) t n pages tm = Some (tm', Code_Ok) \<and> tm_settled rs s' tm' \<and>
    ps_map s' = (\<lambda>p. if p \<in> set pages then None else ps_map s p) \<and> al_of s' = al_of s - set pages \<and>
    pending_of s' = pending_of s - set pages"
  using assms
proof (induction pages arbitrary: n s tm)
  case Nil
  then show ?case by (intro exI[of _ tm] exI[of _ s]) simp
next
  case (Cons p pages)
  have T: "settled_pool rs s" "ps_pool s = tm_pool tm" "tm_pool_set tm" using Cons.prems(1) by (simp_all add: tm_settled_def)
  obtain bp where b: "FinalizePageDeletion True p (ps_pool s) = Some (bp, Code_Ok)" "settled_pool rs (map_page p None bp s)"
    "allocated (disk_manager bp) = al_of s - {p}" "delete_pending_pages bp = pending_of s - {p}"
    using settled_finalize[OF T(1), of p] Cons.prems(3) by auto
  let ?tm = "tm\<lparr>tm_pool := bp, committed_cleanup_index := (committed_cleanup_index tm)(t \<mapsto> Suc n)\<rparr>"
  have st: "tm_settled rs (map_page p None bp s) ?tm" using Cons.prems(1) b(2) by (simp add: tm_settled_def)
  have "set pages \<subseteq> pending_of (map_page p None bp s)" using Cons.prems(2,3) b(4) by auto
  from Cons.IH[OF st _ this, of "Suc n"] Cons.prems(2) obtain tm' s' where
    c: "cleanup_pages (\<lambda>_. True) t (Suc n) pages ?tm = Some (tm', Code_Ok)" "tm_settled rs s' tm'"
      "ps_map s' = (\<lambda>q. if q \<in> set pages then None else ps_map (map_page p None bp s) q)"
      "al_of s' = al_of s - {p} - set pages" "pending_of s' = pending_of s - {p} - set pages" using b by auto
  have "cleanup_pages (\<lambda>_. True) t n (p # pages) tm = Some (tm', Code_Ok)"
    using c(1) b(1) T by (simp add: free_page_def)
  moreover have "ps_map s' = (\<lambda>q. if q \<in> set (p # pages) then None else ps_map s q)" unfolding c(3) by (rule ext) simp
  moreover have "al_of s' = al_of s - set (p # pages)" "pending_of s' = pending_of s - set (p # pages)"
    unfolding c(4,5) by auto
  ultimately show ?case using c(2) by blast
qed

lemma release_settled:
  assumes tm: "tm_settled rs s tm"
  shows "\<exists>tm' s'. release_and_remove t tm = (tm', Code_Ok) \<and> tm_settled rs s' tm' \<and> ps_map s' = ps_map s \<and> al_of s' = al_of s \<and>
    pending_of s' = pending_of s \<and> active_transactions tm' = active_transactions tm - {t} \<and> log_of_tm tm' = log_of_tm tm \<and>
    lock_manager (tm_pool tm') = fst (UnlockAll (Some t) (lock_manager (tm_pool tm)))"
proof -
  let ?tm = "fst (release_and_remove t tm)"
  have l: "tm_locks_set tm" "ps_pool s = tm_pool tm" using tm by (simp_all add: tm_settled_def)
  have S: "log_at rs (log_manager (tm_pool tm))" "\<not> fail_next_flush (log_manager (tm_pool tm))"
    using tm settledD(4,5)[of rs s] by (auto simp: tm_settled_def)
  have p: "tm_pool ?tm = (tm_pool tm)\<lparr>log_manager := log_manager (tm_pool tm), lock_manager := fst (UnlockAll (Some t) (lock_manager (tm_pool tm)))\<rparr>"
    using l by (simp add: release_and_remove_eq)
  have "tm_settled rs (set_pool (tm_pool ?tm) s) ?tm"
    using l by (intro tm_settled_logs[OF tm p _ _ _ _ _ S]) (simp_all add: release_and_remove_eq)
  then show ?thesis using l p by (intro exI[of _ ?tm] exI[of _ "set_pool (tm_pool ?tm) s"]) (simp add: release_and_remove_eq log_of_tm_def)
qed

lemma reachable_txn: "lm_reachable lm h \<Longrightarrow> \<exists>h. lm_reachable (upd_txn u g lm) h"
  using lm_run[OF _ lm_transactions, of lm h "(txn_store lm)(u := map_option g (txn_store lm u))"] unfolding upd_txn_def by blast

lemma Commit_succeeds:
  assumes tm: "tm_settled rs s tm" and t: "t \<noteq> kInvalidTxnId" "t \<in> active_transactions tm" and room: "last_lsn_of rs \<noteq> -1"
    and x: "txn_object tm t = Some x" "txn_state x = Active" "active_write_guards x = 0" "last_lsn x = prev_of t rs"
    and pages: "distinct (deferred_free_pages x)" "set (deferred_free_pages x) \<subseteq> pending_of s" "committed_cleanup_index tm t = None"
    and reach: "lm_reachable (lock_manager (tm_pool tm)) h"
  shows "\<exists>tm' s'. Commit True (\<lambda>_. True) (Some t) tm = Some (tm', Code_Ok) \<and> tm_settled (rs @ [end_record L_Commit t rs]) s' tm' \<and>
    ps_map s' = (\<lambda>p. if p \<in> set (deferred_free_pages x) then None else ps_map s p) \<and>
    al_of s' = al_of s - set (deferred_free_pages x) \<and> pending_of s' = pending_of s - set (deferred_free_pages x) \<and>
    rec_lsn (end_record L_Commit t rs) \<le> durable_lsn (log_of_tm tm') \<and> object_state tm' t = Committed \<and>
    t \<notin> active_transactions tm' \<and> GetGrantedLocks t (lock_manager (tm_pool tm')) = []"
proof -
  let ?r = "end_record L_Commit t rs" and ?l = "rec_lsn (end_record L_Commit t rs)"
  let ?tm1 = "upd_object t (fst \<circ> TrySetState Active Committing) tm"
  let ?s1 = "set_pool (upd_pool_txn t (fst \<circ> TrySetState Active Committing) (tm_pool tm)) s"
  note U = tm_settled_object[OF tm, of t "fst \<circ> TrySetState Active Committing"]
  have c1: "txn_chain t (tm_pool ?tm1) = prev_of t rs"
    using x(1,4) by (simp add: txn_chain_def txn_object_def upd_pool_txn_def upd_txn_def TrySetState_def)
  obtain lm where a: "AppendFor (Some t) (LogRecord_default\<lparr>rec_type := L_Commit\<rparr>) ?tm1 =
      (upd_object t (SetLastLsn ?l) (?tm1\<lparr>tm_pool := (tm_pool ?tm1)\<lparr>log_manager := lm\<rparr>\<rparr>), Inr ?l)"
    "log_at (rs @ [?r]) lm" "\<not> fail_next_flush lm"
    using append_end[OF U _ t(1) c1 room, of L_Commit] by blast
  obtain lm' where f: "Flush ?l True lm = Some (lm', Code_Ok)" "log_at (rs @ [?r]) lm'" "\<not> fail_next_flush lm'" "?l \<le> durable_lsn lm'"
    using Flush_settled[OF a(2,3), of ?l] by auto
  let ?tm2 = "upd_object t (SetCommitLsn ?l) (upd_object t (SetLastLsn ?l) (?tm1\<lparr>tm_pool := (tm_pool ?tm1)\<lparr>log_manager := lm\<rparr>\<rparr>))"
  let ?tm3 = "upd_object t (SetState Committed) (?tm2\<lparr>tm_pool := (tm_pool ?tm2)\<lparr>log_manager := lm'\<rparr>\<rparr>)"
  let ?x3 = "SetState Committed (SetCommitLsn ?l (SetLastLsn ?l (fst (TrySetState Active Committing x))))"
  let ?lk = "upd_txn t (SetState Committed) (upd_txn t (SetCommitLsn ?l) (upd_txn t (SetLastLsn ?l)
      (upd_txn t (fst \<circ> TrySetState Active Committing) (lock_manager (tm_pool tm)))))"
  have p3: "tm_pool ?tm3 = (tm_pool tm)\<lparr>log_manager := lm', lock_manager := ?lk\<rparr>" by (simp add: upd_pool_txn_def)
  have "?l = last_lsn_of rs + 1" by (simp add: end_record_def)
  then have st3: "tm_settled (rs @ [?r]) (set_pool (tm_pool ?tm3) s) ?tm3"
    using next_lsn_le[OF room] by (intro tm_settled_logs[OF tm p3 _ _ _ _ _ f(2,3)]) simp_all
  have x3: "txn_object ?tm3 t = Some ?x3" using x(1) unfolding txn_object_def p3 by (simp add: upd_txn_def)
  have d3: "deferred_free_pages ?x3 = deferred_free_pages x" "txn_state ?x3 = Committed"
    by (simp_all add: SetState_def SetCommitLsn_def SetLastLsn_def TrySetState_def)
  have own: "OwnsTransaction (Some t) ?tm3" "object_state ?tm3 t = Committed" using t(2) x3 d3 by (simp_all add: OwnsTransaction_def object_state_def)
  let ?tm4 = "?tm3\<lparr>committed_cleanup_index := (committed_cleanup_index ?tm3)(t \<mapsto> 0)\<rparr>"
  have sp: "ps_pool s = tm_pool tm" using tm by (simp add: tm_settled_def)
  have pe: "pending_of (set_pool (tm_pool ?tm3) s) = pending_of s" "al_of (set_pool (tm_pool ?tm3) s) = al_of s" using sp unfolding state_fields p3 by simp_all
  have "tm_settled (rs @ [?r]) (set_pool (tm_pool ?tm3) s) ?tm4" using st3 by (simp add: tm_settled_def)
  from cleanup_ok[OF this pages(1), of t 0, unfolded pe state_fields(4), OF pages(2)] obtain tm5 s5 where
    k: "cleanup_pages (\<lambda>_. True) t 0 (deferred_free_pages x) ?tm4 = Some (tm5, Code_Ok)" "tm_settled (rs @ [?r]) s5 tm5"
      "ps_map s5 = (\<lambda>p. if p \<in> set (deferred_free_pages x) then None else ps_map s p)" "al_of s5 = al_of s - set (deferred_free_pages x)"
      "pending_of s5 = pending_of s - set (deferred_free_pages x)" by blast
  note L = cleanup_log[OF k(1)]
  obtain tm6 s6 where z: "release_and_remove t tm5 = (tm6, Code_Ok)" "tm_settled (rs @ [?r]) s6 tm6" "ps_map s6 = ps_map s5" "al_of s6 = al_of s5"
    "pending_of s6 = pending_of s5" "active_transactions tm6 = active_transactions tm5 - {t}" "log_of_tm tm6 = log_of_tm tm5"
    "lock_manager (tm_pool tm6) = fst (UnlockAll (Some t) (lock_manager (tm_pool tm5)))"
    using release_settled[OF k(2), of t] by blast
  have "FinalizeCommittedCleanup (\<lambda>_. True) (Some t) ?tm3 = Some (tm6, Code_Ok)"
    using own x3 d3 k(1) z(1) pages(3) by (simp add: FinalizeCommittedCleanup_def Let_def)
  then have "commit_flush True (\<lambda>_. True) t ?l ?tm2 = Some (tm6, Code_Ok)"
    using f(1) by (simp add: commit_flush_def flush_log_def log_of_tm_def upd_pool_txn_def)
  then have c: "Commit True (\<lambda>_. True) (Some t) tm = Some (tm6, Code_Ok)"
    using t(2) x a(1) by (simp add: Commit_def OwnsTransaction_def)
  have p4: "tm_pool ?tm4 = (tm_pool tm)\<lparr>log_manager := lm', lock_manager := ?lk\<rparr>" by (simp add: upd_pool_txn_def)
  have "lock_manager (tm_pool tm5) = ?lk" using L unfolding p4 by simp
  then have lk: "lock_manager (tm_pool tm6) = fst (UnlockAll (Some t) ?lk)" using z(8) by simp
  have "\<exists>h. lm_reachable ?lk h" using reach by (meson reachable_txn)
  then have "GetGrantedLocks t (lock_manager (tm_pool tm6)) = []" using UnlockAll_granted unfolding lk by blast
  moreover have "object_state tm6 t = Committed"
    using x(1) unfolding object_state_def txn_object_def lk UnlockAll_txn by (simp add: upd_txn_def ClearGrantedLocks_def SetState_def)
  moreover have "?l \<le> durable_lsn (log_of_tm tm6)" using f(4) L z(7) unfolding p4 log_of_tm_def by auto
  ultimately show ?thesis using c z k(3-5) by (intro exI[of _ tm6] exI[of _ s6]) simp
qed

text \<open>C11: Whatever the state of the program, a commit makes a transaction \<open>Committed\<close> only with its commit record durable; in every other outcome, errors and an
  unknown outcome of the flush included, the transaction stays active and every lock queue stays as it was.\<close>

theorem Commit_durable_before_unlock:
  assumes "Commit host_ok pages_ok (Some t) tm = Some (tm', c)" and "txn_object tm t = Some x" "txn_state x \<noteq> Committed"
  shows "\<exists>y. txn_object tm' t = Some y \<and>
    (if txn_state y = Committed then commit_lsn y \<le> durable_lsn (log_of_tm tm')
     else queues_map (lock_manager (tm_pool tm')) = queues_map (lock_manager (tm_pool tm)) \<and> active_transactions tm' = active_transactions tm)"
proof -
  let ?Q = "\<lambda>tm' y. if txn_state y = Committed then commit_lsn y \<le> durable_lsn (log_of_tm tm')
     else queues_map (lock_manager (tm_pool tm')) = queues_map (lock_manager (tm_pool tm)) \<and> active_transactions tm' = active_transactions tm"
  let ?tm1 = "upd_object t (fst \<circ> TrySetState Active Committing) tm"
  have x1: "txn_object ?tm1 t = Some (fst (TrySetState Active Committing x))"
    using assms(2) by (simp add: txn_object_def upd_pool_txn_def upd_txn_def)
  consider "tm' = tm" | "txn_state x = CommitUncertain" "commit_flush host_ok pages_ok t (commit_lsn x) tm = Some (tm', c)"
    | "txn_state x = Active" "tm' = upd_object t (SetState Active) ?tm1"
    | tm2 a where "txn_state x = Active" "AppendFor (Some t) (LogRecord_default\<lparr>rec_type := L_Commit\<rparr>) ?tm1 = (tm2, Inl a)"
        "tm' = upd_object t (SetState Failed) tm2"
    | tm2 lsn where "txn_state x = Active" "AppendFor (Some t) (LogRecord_default\<lparr>rec_type := L_Commit\<rparr>) ?tm1 = (tm2, Inr lsn)"
        "commit_flush host_ok pages_ok t lsn (upd_object t (SetCommitLsn lsn) tm2) = Some (tm', c)"
    using assms unfolding Commit_def Let_def by (auto split: if_splits prod.splits sum.splits)
  then show ?thesis
  proof cases
    case 1
    then show ?thesis using assms(2,3) by simp
  next
    case 2
    from commit_flush_object[OF 2(2) assms(2)] obtain y where "txn_object tm' t = Some y" "commit_lsn y = commit_lsn x"
      "if txn_state y = Committed then commit_lsn x \<le> durable (tm_pool tm')
       else queues_map (lock_manager (tm_pool tm')) = queues_map (lock_manager (tm_pool tm)) \<and> active_transactions tm' = active_transactions tm" by blast
    then show ?thesis by (intro exI[of _ y]) (simp add: log_of_tm_def)
  next
    case 3
    then show ?thesis using assms(2) by (simp add: txn_object_def upd_pool_txn_def upd_txn_def SetState_def TrySetState_def)
  next
    case 4
    have "queues_map (lock_manager (tm_pool tm2)) = queues_map (lock_manager (tm_pool tm)) \<and> active_transactions tm2 = active_transactions tm \<and>
        txn_object tm2 t = txn_object ?tm1 t"
      using 4(2) by (cases "tm_log_set ?tm1") (auto simp: AppendFor_def append_for_def txn_object_def upd_pool_txn_def upd_txn_def
        split: prod.splits sum.splits)
    then have q: "queues_map (lock_manager (tm_pool tm')) = queues_map (lock_manager (tm_pool tm))" "active_transactions tm' = active_transactions tm"
      "txn_object tm' t = map_option (SetState Failed) (txn_object ?tm1 t)"
      unfolding 4(3) by (simp_all add: txn_object_def upd_pool_txn_def upd_txn_def)
    then show ?thesis unfolding x1 by (simp add: SetState_def)
  next
    case 5
    obtain lm where a: "tm2 = upd_object t (SetLastLsn lsn) (?tm1\<lparr>tm_pool := (tm_pool ?tm1)\<lparr>log_manager := lm\<rparr>\<rparr>)"
      using 5(2) by (auto simp: AppendFor_def append_for_def upd_object_def split: if_splits prod.splits sum.splits)
    have "txn_object (upd_object t (SetCommitLsn lsn) tm2) t = Some (SetCommitLsn lsn (SetLastLsn lsn (fst (TrySetState Active Committing x))))"
      using assms(2) unfolding a by (simp add: txn_object_def upd_pool_txn_def upd_txn_def)
    from commit_flush_object[OF 5(3) this] obtain y where y: "txn_object tm' t = Some y" "commit_lsn y = lsn"
      "if txn_state y = Committed then lsn \<le> durable (tm_pool tm')
       else queues_map (lock_manager (tm_pool tm')) = queues_map (lock_manager (tm_pool (upd_object t (SetCommitLsn lsn) tm2))) \<and>
         active_transactions tm' = active_transactions (upd_object t (SetCommitLsn lsn) tm2)" by (auto simp: SetCommitLsn_def)
    have "queues_map (lock_manager (tm_pool (upd_object t (SetCommitLsn lsn) tm2))) = queues_map (lock_manager (tm_pool tm))"
      "active_transactions (upd_object t (SetCommitLsn lsn) tm2) = active_transactions tm"
      unfolding a by (simp_all add: upd_pool_txn_def upd_txn_def)
    with y show ?thesis by (intro exI[of _ y]) (simp add: log_of_tm_def)
  qed
qed

theorem Commit_durable_before_unlock_witness:
  "\<exists>tm' y. Commit True (\<lambda>_. True) (Some 1) demo_manager = Some (tm', Code_Ok) \<and> txn_object tm' 1 = Some y \<and>
    txn_state y = Committed \<and> commit_lsn y \<le> durable_lsn (log_of_tm tm')"
proof -
  let ?x = "(make_Transaction 1 True)\<lparr>last_lsn := 2\<rparr>"
  have x: "txn_state ?x = Active" "active_write_guards ?x = 0" "last_lsn ?x = prev_of 1 demo_records" "distinct (deferred_free_pages ?x)"
    "set (deferred_free_pages ?x) \<subseteq> pending_of demo_resting" "txn_state ?x \<noteq> Committed" by (simp_all add: make_Transaction_def demo_manager_facts(3))
  obtain tm' where c: "Commit True (\<lambda>_. True) (Some 1) demo_manager = Some (tm', Code_Ok)" "object_state tm' 1 = Committed"
    using Commit_succeeds[OF demo_manager_settled demo_manager_facts(6,2,5,1) x(1-5) demo_manager_facts(9,8)] by blast
  show ?thesis using Commit_durable_before_unlock[OF c(1) demo_manager_facts(1) x(6)] c by (auto simp: object_state_def)
qed

text \<open>C12: Committing an active transaction succeeds when the host can flush the log and no call or page guard of any thread is under way
  in the pool. Its commit record is the next record of the log and is
  durable; the pages it had freed are gone, every other page is as it was, it holds no lock any more, and it is no longer active.\<close>

theorem Commit_finishes:
  assumes "tm_settled rs s tm" and "t \<noteq> kInvalidTxnId" "t \<in> active_transactions tm" and "last_lsn_of rs \<noteq> -1"
    and "txn_object tm t = Some x" "txn_state x = Active" "active_write_guards x = 0" "last_lsn x = prev_of t rs"
    and "distinct (deferred_free_pages x)" "set (deferred_free_pages x) \<subseteq> pending_of s" "committed_cleanup_index tm t = None"
    and "lm_reachable (lock_manager (tm_pool tm)) h"
  shows "\<exists>tm' s'. Commit True (\<lambda>_. True) (Some t) tm = Some (tm', Code_Ok) \<and> tm_settled (rs @ [end_record L_Commit t rs]) s' tm' \<and>
    ps_map s' = (\<lambda>p. if p \<in> set (deferred_free_pages x) then None else ps_map s p) \<and>
    al_of s' = al_of s - set (deferred_free_pages x) \<and> pending_of s' = pending_of s - set (deferred_free_pages x) \<and>
    rec_lsn (end_record L_Commit t rs) \<le> durable_lsn (log_of_tm tm') \<and> object_state tm' t = Committed \<and>
    t \<notin> active_transactions tm' \<and> GetGrantedLocks t (lock_manager (tm_pool tm')) = []"
  using Commit_succeeds[OF assms] .

theorem Commit_finishes_witness:
  "\<exists>tm' s'. Commit True (\<lambda>_. True) (Some 1) demo_manager = Some (tm', Code_Ok) \<and>
    tm_settled (demo_records @ [end_record L_Commit 1 demo_records]) s' tm' \<and> ps_map s' = ps_map demo_resting \<and> al_of s' = {1} \<and>
    object_state tm' 1 = Committed \<and> 1 \<notin> active_transactions tm' \<and> GetGrantedLocks 1 (lock_manager (tm_pool tm')) = []"
proof -
  let ?x = "(make_Transaction 1 True)\<lparr>last_lsn := 2\<rparr>"
  have x: "txn_state ?x = Active" "active_write_guards ?x = 0" "last_lsn ?x = prev_of 1 demo_records" "distinct (deferred_free_pages ?x)"
    "set (deferred_free_pages ?x) \<subseteq> pending_of demo_resting" "deferred_free_pages ?x = []"
    by (simp_all add: make_Transaction_def demo_manager_facts(3))
  show ?thesis using Commit_finishes[OF demo_manager_settled demo_manager_facts(6,2,5,1) x(1-5) demo_manager_facts(9,8), unfolded x(6) demo_allocated(1)] by auto
qed

end
