(* ===== verification/Lexer.thy ===== *)
theory Lexer
  imports Common
begin

text \<open>
  \<^verbatim>\<open>parser/lexer.cpp\<close>: the tokens of a SQL text. The input is the list of characters that are still to be read, with the
  position of the first of them; characters are bytes, classified as in the C locale. The text of an error is dropped.
\<close>

subsection \<open>Tokens\<close>

datatype (plugins only: code size) TokenType =
    T_Identifier | T_Integer | T_String | T_True | T_False | T_Null
  | T_Comma | T_Dot | T_LeftParen | T_RightParen | T_Star | T_Equal | T_NotEqual | T_Greater | T_GreaterEqual | T_Less
  | T_LessEqual | T_Plus | T_Minus | T_Slash | T_And | T_Or | T_Not
  | T_Semicolon | T_Create | T_Table | T_Index | T_Unique | T_On | T_Insert | T_Into | T_Values | T_Select | T_Explain
  | T_Distinct | T_From | T_Where | T_Is | T_Between | T_In | T_Like | T_Group | T_Having | T_Order | T_By | T_Limit | T_Asc
  | T_Desc | T_As | T_Exists | T_Join | T_Inner | T_Left | T_Right | T_Full | T_Outer | T_Delete | T_Drop | T_Alter | T_Add
  | T_Column | T_Rename | T_To | T_Default | T_Primary | T_Key | T_Begin | T_Commit | T_Rollback | T_Update | T_Set | T_Int
  | T_Varchar | T_EndOfFile

record Position =
  pos_offset :: nat
  pos_line :: nat
  pos_column :: nat

record Token =
  tok_type :: TokenType
  lexeme :: string
  tok_start :: Position
  tok_end :: Position

subsection \<open>Characters\<close>

definition is_space :: "char \<Rightarrow> bool" where
  "is_space c \<longleftrightarrow> (let n = of_char c :: nat in n = 32 \<or> (9 \<le> n \<and> n \<le> 13))"

definition is_upper :: "char \<Rightarrow> bool" where
  "is_upper c \<longleftrightarrow> (let n = of_char c :: nat in 65 \<le> n \<and> n \<le> 90)"

definition is_alpha :: "char \<Rightarrow> bool" where
  "is_alpha c \<longleftrightarrow> is_upper c \<or> (let n = of_char c :: nat in 97 \<le> n \<and> n \<le> 122)"

definition is_digit :: "char \<Rightarrow> bool" where
  "is_digit c \<longleftrightarrow> (let n = of_char c :: nat in 48 \<le> n \<and> n \<le> 57)"

definition word_char :: "char \<Rightarrow> bool" where
  "word_char c \<longleftrightarrow> is_alpha c \<or> is_digit c \<or> c = CHR ''_''"

definition LowerAscii :: "char \<Rightarrow> char" where
  "LowerAscii c = (if is_upper c then char_of (of_char c + 32 :: nat) else c)"

definition keyword_table :: "(string \<times> TokenType) list" where
  "keyword_table =
    [(''create'', T_Create), (''table'', T_Table), (''index'', T_Index), (''unique'', T_Unique), (''on'', T_On),
     (''insert'', T_Insert), (''into'', T_Into), (''values'', T_Values), (''select'', T_Select), (''explain'', T_Explain),
     (''distinct'', T_Distinct), (''from'', T_From), (''where'', T_Where), (''is'', T_Is), (''between'', T_Between),
     (''in'', T_In), (''like'', T_Like), (''group'', T_Group), (''having'', T_Having), (''order'', T_Order), (''by'', T_By),
     (''limit'', T_Limit), (''asc'', T_Asc), (''desc'', T_Desc), (''as'', T_As), (''exists'', T_Exists), (''join'', T_Join),
     (''inner'', T_Inner), (''left'', T_Left), (''right'', T_Right), (''full'', T_Full), (''outer'', T_Outer),
     (''delete'', T_Delete), (''drop'', T_Drop), (''alter'', T_Alter), (''add'', T_Add), (''column'', T_Column),
     (''rename'', T_Rename), (''to'', T_To), (''default'', T_Default), (''primary'', T_Primary), (''key'', T_Key),
     (''begin'', T_Begin), (''commit'', T_Commit), (''rollback'', T_Rollback), (''update'', T_Update), (''set'', T_Set),
     (''int'', T_Int), (''varchar'', T_Varchar), (''and'', T_And), (''or'', T_Or), (''not'', T_Not), (''true'', T_True),
     (''false'', T_False), (''null'', T_Null)]"

definition KeywordType :: "string \<Rightarrow> TokenType" where
  "KeywordType word = (case map_of keyword_table word of Some ty \<Rightarrow> ty | None \<Rightarrow> T_Identifier)"

subsection \<open>Scanning\<close>

text \<open>The position after a character.\<close>

definition advance :: "char \<Rightarrow> Position \<Rightarrow> Position" where
  "advance c p =
     p\<lparr>pos_offset := pos_offset p + 1,
       pos_line := (if c = CHR 0x0A then pos_line p + 1 else pos_line p),
       pos_column := (if c = CHR 0x0A then 1 else pos_column p + 1)\<rparr>"

text \<open>Reading characters while they satisfy a condition: those read, those left, and the new position.\<close>

fun take_run :: "(char \<Rightarrow> bool) \<Rightarrow> string \<Rightarrow> Position \<Rightarrow> string \<times> string \<times> Position" where
  "take_run P [] p = ([], [], p)"
| "take_run P (c # cs) p =
     (if P c then (case take_run P cs (advance c p) of (w, rest, q) \<Rightarrow> (c # w, rest, q)) else ([], c # cs, p))"

text \<open>The rest of a block comment, and the rest of a string literal with its contents.\<close>

fun skip_block :: "string \<Rightarrow> Position \<Rightarrow> (string \<times> Position) option" where
  "skip_block [] p = None"
| "skip_block (c # cs) p =
     (if c = CHR ''*'' \<and> cs \<noteq> [] \<and> hd cs = CHR ''/'' then Some (tl cs, advance (hd cs) (advance c p))
      else skip_block cs (advance c p))"

definition quote :: char where "quote = CHR 0x27"

fun take_string :: "string \<Rightarrow> Position \<Rightarrow> (string \<times> string \<times> Position) option" where
  "take_string [] p = None"
| "take_string [c] p = (if c = quote then Some ([], [], advance c p) else None)"
| "take_string (c # d # cs) p =
     (if c = quote then
        (if d = quote then
           (case take_string cs (advance d (advance c p)) of
              None \<Rightarrow> None
            | Some (w, rest, q) \<Rightarrow> Some (quote # w, rest, q))
         else Some ([], d # cs, advance c p))
      else
        (case take_string (d # cs) (advance c p) of
           None \<Rightarrow> None
         | Some (w, rest, q) \<Rightarrow> Some (c # w, rest, q)))"

datatype lex_result =
    LexSkip string Position
  | LexToken TokenType string string Position
  | LexError

text \<open>A number: an optional sign, digits, and no fraction.\<close>

definition lex_number :: "char \<Rightarrow> string \<Rightarrow> Position \<Rightarrow> lex_result" where
  "lex_number c cs p =
     (case (if c = CHR ''-'' then take_run is_digit cs (advance c p) else take_run is_digit (c # cs) p) of
        (digits, rest, q) \<Rightarrow>
          if length rest > 1 \<and> rest ! 0 = CHR ''.'' \<and> is_digit (rest ! 1) then LexError
          else LexToken T_Integer (if c = CHR ''-'' then c # digits else digits) rest q)"

definition pair_operator :: "char \<Rightarrow> TokenType" where
  "pair_operator c =
     (if c = CHR ''>'' then T_GreaterEqual
      else if c = CHR ''<'' then T_LessEqual
      else if c = CHR ''!'' then T_NotEqual
      else T_Equal)"

definition punctuation :: "char \<Rightarrow> TokenType option" where
  "punctuation c =
     (if c = CHR '','' then Some T_Comma
      else if c = CHR ''.'' then Some T_Dot
      else if c = CHR ''('' then Some T_LeftParen
      else if c = CHR '')'' then Some T_RightParen
      else if c = CHR ''*'' then Some T_Star
      else if c = CHR ''='' then Some T_Equal
      else if c = CHR ''>'' then Some T_Greater
      else if c = CHR ''<'' then Some T_Less
      else if c = CHR ''!'' then Some T_NotEqual
      else if c = CHR ''+'' then Some T_Plus
      else if c = CHR ''-'' then Some T_Minus
      else if c = CHR ''/'' then Some T_Slash
      else if c = CHR '';'' then Some T_Semicolon
      else None)"

definition lex_operator :: "char \<Rightarrow> string \<Rightarrow> Position \<Rightarrow> lex_result" where
  "lex_operator c cs p =
     (if c \<in> set ''><!='' \<and> cs \<noteq> [] \<and> hd cs = CHR ''='' then
        LexToken (pair_operator c) [c, hd cs] (tl cs) (advance (hd cs) (advance c p))
      else if c = CHR ''<'' \<and> cs \<noteq> [] \<and> hd cs = CHR ''>'' then
        LexToken T_NotEqual ''<>'' (tl cs) (advance (hd cs) (advance c p))
      else
        (case punctuation c of
           None \<Rightarrow> LexError
         | Some ty \<Rightarrow> LexToken ty [c] cs (advance c p)))"

text \<open>One turn of the main loop, at the character \<open>c\<close>.\<close>

definition lex_step :: "char \<Rightarrow> string \<Rightarrow> Position \<Rightarrow> lex_result" where
  "lex_step c cs p =
     (if is_space c then LexSkip cs (advance c p)
      else if c = CHR ''-'' \<and> cs \<noteq> [] \<and> hd cs = CHR ''-'' then
        (case take_run (\<lambda>d. d \<noteq> CHR 0x0A \<and> d \<noteq> CHR 0x0D) (c # cs) p of (_, rest, q) \<Rightarrow> LexSkip rest q)
      else if c = CHR ''/'' \<and> cs \<noteq> [] \<and> hd cs = CHR ''*'' then
        (case skip_block (tl cs) (advance (hd cs) (advance c p)) of
           None \<Rightarrow> LexError
         | Some (rest, q) \<Rightarrow> LexSkip rest q)
      else if is_alpha c \<or> c = CHR ''_'' then
        (case take_run word_char (c # cs) p of
           (w, rest, q) \<Rightarrow> let word = map LowerAscii w in LexToken (KeywordType word) word rest q)
      else if is_digit c \<or> (c = CHR ''-'' \<and> cs \<noteq> [] \<and> is_digit (hd cs)) then lex_number c cs p
      else if c = quote then
        (case take_string cs (advance c p) of
           None \<Rightarrow> LexError
         | Some (w, rest, q) \<Rightarrow> LexToken T_String w rest q)
      else lex_operator c cs p)"

text \<open>Every turn reads at least one character, so the main loop ends.\<close>

lemma take_run_dropWhile:
  "take_run P cs p = (w, rest, q) \<Longrightarrow> w = takeWhile P cs \<and> rest = dropWhile P cs \<and> q = foldl (\<lambda>q c. advance c q) p w"
  by (induction P cs p arbitrary: w rest q rule: take_run.induct) (auto split: if_splits prod.splits)

lemma take_run_eq: "take_run P cs p = (takeWhile P cs, dropWhile P cs, foldl (\<lambda>q c. advance c q) p (takeWhile P cs))"
  by (cases "take_run P cs p") (auto dest: take_run_dropWhile)

lemma skip_block_shorter: "skip_block cs p = Some (rest, q) \<Longrightarrow> length rest < length cs"
  by (induction cs p rule: skip_block.induct) (auto split: if_splits)

lemma take_string_shorter: "take_string cs p = Some (w, rest, q) \<Longrightarrow> length rest < length cs"
  by (induction cs p arbitrary: w rest q rule: take_string.induct) (force split: if_splits option.splits)+

lemma length_dropWhile_Cons: "P c \<Longrightarrow> length (dropWhile P (c # cs)) \<le> length cs"
  by (simp add: length_dropWhile_le)

lemma lex_number_shorter: "lex_number c cs p = LexToken ty lx rest q \<Longrightarrow> c = CHR ''-'' \<or> is_digit c \<Longrightarrow> length rest \<le> length cs"
  by (auto simp: lex_number_def take_run_eq length_dropWhile_le split: if_splits)

lemma lex_operator_shorter: "lex_operator c cs p = LexToken ty lx rest q \<Longrightarrow> length rest \<le> length cs"
  by (auto simp: lex_operator_def split: if_splits option.splits)

lemma lex_number_no_skip: "lex_number c cs p \<noteq> LexSkip rest q"
  by (auto simp: lex_number_def take_run_eq)

lemma lex_operator_no_skip: "lex_operator c cs p \<noteq> LexSkip rest q"
  by (auto simp: lex_operator_def split: option.splits)

lemma lex_step_skip: "lex_step c cs p = LexSkip rest q \<Longrightarrow> length rest \<le> length cs"
  by (auto simp: lex_step_def take_run_eq Let_def lex_number_no_skip lex_operator_no_skip length_dropWhile_le
      split: if_splits option.splits prod.splits dest!: skip_block_shorter)

lemma lex_step_token: "lex_step c cs p = LexToken ty lx rest q \<Longrightarrow> length rest \<le> length cs"
  by (auto simp: lex_step_def take_run_eq Let_def length_dropWhile_le word_char_def
      split: if_splits option.splits prod.splits dest: lex_number_shorter lex_operator_shorter take_string_shorter)

function tokens_from :: "string \<Rightarrow> Position \<Rightarrow> Token list Result" where
  "tokens_from [] p = Inr [\<lparr>tok_type = T_EndOfFile, lexeme = [], tok_start = p, tok_end = p\<rparr>]"
| "tokens_from (c # cs) p =
     (case lex_step c cs p of
        LexError \<Rightarrow> Inl InvalidArgument
      | LexSkip rest q \<Rightarrow> tokens_from rest q
      | LexToken ty lx rest q \<Rightarrow>
          (case tokens_from rest q of
             Inl err \<Rightarrow> Inl err
           | Inr ts \<Rightarrow> Inr (\<lparr>tok_type = ty, lexeme = lx, tok_start = p, tok_end = q\<rparr> # ts)))"
  by pat_completeness auto
termination by (relation "measure (\<lambda>(cs, p). length cs)") (auto dest: lex_step_skip lex_step_token)

definition Tokenize :: "string \<Rightarrow> Token list Result" where
  "Tokenize sql = tokens_from sql \<lparr>pos_offset = 0, pos_line = 1, pos_column = 1\<rparr>"

end
