(* ===== verification/LexerSpec.thy ===== *)
theory LexerSpec
  imports Lexer
begin

text \<open>
  What the lexer promises: its tokens and the blanks between them make up the text, piece by piece, and each token carries its position.
  \<open>reads\<close> composes texts whose tokens are known.
\<close>

subsection \<open>Pieces of text\<close>

text \<open>The position after a text, in closed form.\<close>

definition text_position :: "string \<Rightarrow> Position" where
  "text_position s =
     \<lparr>pos_offset = length s, pos_line = 1 + length (filter (\<lambda>c. c = CHR 0x0A) s),
      pos_column = 1 + length (takeWhile (\<lambda>c. c \<noteq> CHR 0x0A) (rev s))\<rparr>"

lemma advance_text_position: "advance c (text_position s) = text_position (s @ [c])"
  by (simp add: advance_def text_position_def)

lemma foldl_text_position: "foldl (\<lambda>q c. advance c q) (text_position s) w = text_position (s @ w)"
  by (induction w arbitrary: s) (simp_all add: advance_text_position)

definition escape :: "string \<Rightarrow> string" where
  "escape s = concat (map (\<lambda>c. if c = quote then [quote, quote] else [c]) s)"

definition operators :: "(string \<times> TokenType) list" where
  "operators =
    [('','', T_Comma), (''.'', T_Dot), (''('', T_LeftParen), ('')'', T_RightParen), (''*'', T_Star), (''='', T_Equal),
     (''=='', T_Equal), (''!='', T_NotEqual), (''<>'', T_NotEqual), (''!'', T_NotEqual), (''>'', T_Greater), (''>='', T_GreaterEqual),
     (''<'', T_Less), (''<='', T_LessEqual), (''+'', T_Plus), (''-'', T_Minus), (''/'', T_Slash), ('';'', T_Semicolon)]"

definition is_word :: "string \<Rightarrow> bool" where
  "is_word w \<longleftrightarrow> w \<noteq> [] \<and> (is_alpha (hd w) \<or> hd w = CHR ''_'') \<and> list_all word_char w"

definition is_number :: "string \<Rightarrow> bool" where
  "is_number w \<longleftrightarrow> (w \<noteq> [] \<and> list_all is_digit w) \<or> (length w > 1 \<and> hd w = CHR ''-'' \<and> list_all is_digit (tl w))"

text \<open>The text of a token, and a blank piece of text: a space or a comment.\<close>

definition spells :: "TokenType \<Rightarrow> string \<Rightarrow> string \<Rightarrow> bool" where
  "spells ty lx w \<longleftrightarrow>
     (ty = T_String \<and> w = quote # escape lx @ [quote]) \<or>
     (is_word w \<and> lx = map LowerAscii w \<and> ty = KeywordType lx) \<or>
     (is_number w \<and> lx = w \<and> ty = T_Integer) \<or>
     (lx = w \<and> map_of operators w = Some ty)"

definition is_blank :: "string \<Rightarrow> bool" where
  "is_blank w \<longleftrightarrow>
     (\<exists>c. w = [c] \<and> is_space c) \<or>
     (\<exists>v. w = ''--'' @ v \<and> CHR 0x0A \<notin> set v \<and> CHR 0x0D \<notin> set v) \<or>
     (\<exists>v. w = ''/*'' @ v @ ''*/'')"

text \<open>The tokens of the text \<open>s\<close> that follows the text \<open>pre\<close>.\<close>

inductive tiles :: "string \<Rightarrow> string \<Rightarrow> Token list \<Rightarrow> bool" where
  tiles_end: "tiles pre [] [\<lparr>tok_type = T_EndOfFile, lexeme = [], tok_start = text_position pre, tok_end = text_position pre\<rparr>]"
| tiles_blank: "is_blank w \<Longrightarrow> tiles (pre @ w) s ts \<Longrightarrow> tiles pre (w @ s) ts"
| tiles_token: "spells ty lx w \<Longrightarrow> tiles (pre @ w) s ts \<Longrightarrow>
    tiles pre (w @ s) (\<lparr>tok_type = ty, lexeme = lx, tok_start = text_position pre, tok_end = text_position (pre @ w)\<rparr> # ts)"

subsection \<open>One turn of the lexer\<close>

lemma take_string_escape:
  "take_string cs p = Some (w, rest, q) \<Longrightarrow> cs = escape w @ quote # rest \<and> q = foldl (\<lambda>q c. advance c q) p (escape w @ [quote])"
  by (induction cs p arbitrary: w rest q rule: take_string.induct) (auto simp: escape_def split: if_splits option.splits)

lemma skip_block_text:
  "skip_block cs p = Some (rest, q) \<Longrightarrow> \<exists>v. cs = v @ ''*/'' @ rest \<and> q = foldl (\<lambda>q c. advance c q) p (v @ ''*/'')"
proof (induction cs p rule: skip_block.induct)
  case (2 c cs p)
  show ?case
  proof (cases "c = CHR ''*'' \<and> cs \<noteq> [] \<and> hd cs = CHR ''/''")
    case True then show ?thesis using 2(2) by (intro exI[of _ "[]"]) (cases cs; auto)
  next
    case False
    then obtain v where "cs = v @ ''*/'' @ rest" "q = foldl (\<lambda>q c. advance c q) (advance c p) (v @ ''*/'')" using 2 by auto
    then show ?thesis by (intro exI[of _ "c # v"]) simp
  qed
qed simp

definition piece :: "string \<Rightarrow> string \<Rightarrow> Position \<Rightarrow> Position \<Rightarrow> string \<Rightarrow> bool" where
  "piece s rest p q w \<longleftrightarrow> s = w @ rest \<and> q = foldl (\<lambda>q c. advance c q) p w"

lemma take_run_piece: "take_run P cs p = (w, rest, q) \<Longrightarrow> piece cs rest p q w \<and> list_all P w"
  by (auto simp: take_run_eq piece_def list_all_iff dest: set_takeWhileD)

lemma lex_number_piece:
  assumes "lex_number c cs p = LexToken ty lx rest q" "is_digit c \<or> (c = CHR ''-'' \<and> cs \<noteq> [] \<and> is_digit (hd cs))"
  shows "\<exists>w. piece (c # cs) rest p q w \<and> spells ty lx w"
proof (cases "c = CHR ''-''")
  case True
  then have d: "cs \<noteq> []" "is_digit (hd cs)" using assms(2) by (auto simp: is_digit_def)
  obtain w rest' q' where r: "take_run is_digit cs (advance c p) = (w, rest', q')" by (cases "take_run is_digit cs (advance c p)")
  have "w \<noteq> []" using r d by (cases cs) (auto simp: take_run_eq)
  then show ?thesis using assms(1) True take_run_piece[OF r] r
    by (intro exI[of _ "c # w"]) (auto simp: lex_number_def piece_def spells_def is_number_def split: if_splits)
next
  case False
  then have d: "is_digit c" using assms(2) by auto
  obtain w rest' q' where r: "take_run is_digit (c # cs) p = (w, rest', q')" by (cases "take_run is_digit (c # cs) p")
  have "w \<noteq> []" using r d by (auto simp: take_run_eq)
  then show ?thesis using assms(1) False take_run_piece[OF r] r
    by (intro exI[of _ w]) (auto simp: lex_number_def spells_def is_number_def simp del: take_run.simps split: if_splits)
qed

lemma lex_operator_piece:
  assumes "lex_operator c cs p = LexToken ty lx rest q"
  shows "\<exists>w. piece (c # cs) rest p q w \<and> spells ty lx w"
proof -
  consider d cs' where "cs = d # cs'" "lx = [c, d]" "rest = cs'" "q = advance d (advance c p)" "map_of operators [c, d] = Some ty"
    | "lx = [c]" "rest = cs" "q = advance c p" "map_of operators [c] = Some ty"
    using assms
    by (cases cs) (auto simp: lex_operator_def pair_operator_def punctuation_def operators_def split: if_splits)
  then show ?thesis
  proof cases
    case 1 then show ?thesis by (intro exI[of _ "[c, hd cs]"]) (simp add: piece_def spells_def)
  next
    case 2 then show ?thesis by (intro exI[of _ "[c]"]) (simp add: piece_def spells_def)
  qed
qed

lemma lex_step_piece:
  assumes "lex_step c cs p = LexToken ty lx rest q"
  shows "\<exists>w. piece (c # cs) rest p q w \<and> spells ty lx w"
proof -
  consider (word) w where "take_run word_char (c # cs) p = (w, rest, q)" "is_alpha c \<or> c = CHR ''_''" "lx = map LowerAscii w" "ty = KeywordType lx"
    | (number) "lex_number c cs p = LexToken ty lx rest q" "is_digit c \<or> (c = CHR ''-'' \<and> cs \<noteq> [] \<and> is_digit (hd cs))"
    | (string) "c = quote" "take_string cs (advance c p) = Some (lx, rest, q)" "ty = T_String"
    | (operator) "lex_operator c cs p = LexToken ty lx rest q"
    using assms unfolding lex_step_def Let_def by (auto split: if_splits option.splits prod.splits simp del: take_run.simps)
  then show ?thesis
  proof cases
    case word
    have "w \<noteq> []" "hd w = c" using word(1,2) by (auto simp: take_run_eq word_char_def)
    then show ?thesis using take_run_piece[OF word(1)] word by (intro exI[of _ w]) (simp add: spells_def is_word_def)
  next
    case number then show ?thesis by (rule lex_number_piece)
  next
    case string
    from take_string_escape[OF string(2)] show ?thesis using string
      by (intro exI[of _ "quote # escape lx @ [quote]"]) (simp add: spells_def piece_def)
  next
    case operator then show ?thesis by (rule lex_operator_piece)
  qed
qed

lemma lex_step_blank:
  assumes "lex_step c cs p = LexSkip rest q"
  shows "\<exists>w. piece (c # cs) rest p q w \<and> is_blank w"
proof -
  consider (space) "is_space c" "rest = cs" "q = advance c p"
    | (line) w where "c = CHR ''-''" "cs \<noteq> []" "hd cs = CHR ''-''" "take_run (\<lambda>d. d \<noteq> CHR 0x0A \<and> d \<noteq> CHR 0x0D) (c # cs) p = (w, rest, q)"
    | (block) "c = CHR ''/''" "cs \<noteq> []" "hd cs = CHR ''*''" "skip_block (tl cs) (advance (hd cs) (advance c p)) = Some (rest, q)"
    using assms lex_number_no_skip lex_operator_no_skip unfolding lex_step_def Let_def
    by (auto simp del: take_run.simps split: if_splits option.splits prod.splits)
  then show ?thesis
  proof cases
    case space then show ?thesis by (intro exI[of _ "[c]"]) (simp add: piece_def is_blank_def)
  next
    case line
    then obtain cs' where cs: "cs = CHR ''-'' # cs'" by (cases cs) auto
    have w: "w = ''--'' @ takeWhile (\<lambda>d. d \<noteq> CHR 0x0A \<and> d \<noteq> CHR 0x0D) cs'"
      using line(4) unfolding take_run_eq by (simp add: cs line(1))
    show ?thesis using take_run_piece[OF line(4)] w
      by (intro exI[of _ w]) (auto simp: is_blank_def dest: set_takeWhileD)
  next
    case block
    then obtain cs' where cs: "cs = CHR ''*'' # cs'" by (cases cs) auto
    from skip_block_text[OF block(4)] obtain v where "cs' = v @ ''*/'' @ rest"
      "q = foldl (\<lambda>q c. advance c q) (advance (CHR ''*'') (advance c p)) (v @ ''*/'')" by (auto simp: cs)
    then show ?thesis using block(1) cs by (intro exI[of _ "''/*'' @ v @ ''*/''"]) (simp add: piece_def is_blank_def)
  qed
qed

lemma tokens_from_tiles: "tokens_from s p = Inr ts \<Longrightarrow> p = text_position pre \<Longrightarrow> tiles pre s ts"
proof (induction s p arbitrary: pre ts rule: tokens_from.induct)
  case (1 p) then show ?case by (auto intro: tiles_end)
next
  case (2 c cs p)
  show ?case
  proof (cases "lex_step c cs p")
    case (LexSkip rest q)
    from lex_step_blank[OF this] obtain w where w: "piece (c # cs) rest p q w" "is_blank w" by blast
    then have "q = text_position (pre @ w)" using 2(4) by (simp add: piece_def foldl_text_position)
    then show ?thesis using 2(1)[OF LexSkip] 2(3) LexSkip w by (auto simp: piece_def intro: tiles_blank)
  next
    case (LexToken ty lx rest q)
    from lex_step_piece[OF this] obtain w where w: "piece (c # cs) rest p q w" "spells ty lx w" by blast
    then have q: "q = text_position (pre @ w)" using 2(4) by (simp add: piece_def foldl_text_position)
    obtain us where us: "tokens_from rest q = Inr us" "ts = \<lparr>tok_type = ty, lexeme = lx, tok_start = p, tok_end = q\<rparr> # us"
      using 2(3) LexToken by (auto split: sum.splits)
    from 2(2)[OF LexToken us(1) q] show ?thesis using w us(2) q 2(4) tiles_token[OF w(2)] by (simp add: piece_def foldl_text_position)
  qed (use 2 in simp)
qed

text \<open>C35: The lexer loses nothing: the tokens of a text, with the blanks and comments between them, are exactly the text. Each token has the type
  and the lexeme that its piece of the text spells, and its start and end are the true offset, line and column.\<close>

theorem Tokenize_tiles_text:
  assumes "Tokenize sql = Inr ts"
  shows "tiles [] sql ts"
  by (rule tokens_from_tiles[OF assms[unfolded Tokenize_def]]) (simp add: text_position_def)

lemmas lexer_eval = Tokenize_def lex_step_def is_space_def is_alpha_def is_upper_def is_digit_def word_char_def quote_def
  lex_number_def lex_operator_def pair_operator_def punctuation_def LowerAscii_def KeywordType_def keyword_table_def Let_def advance_def

theorem Tokenize_tiles_text_witness:
  "\<exists>ts. Tokenize ''a -- b'' = Inr ts \<and> map tok_type ts = [T_Identifier, T_EndOfFile] \<and> tiles [] ''a -- b'' ts"
proof -
  obtain ts where "Tokenize ''a -- b'' = Inr ts" "map tok_type ts = [T_Identifier, T_EndOfFile]"
    by (simp add: lexer_eval)
  then show ?thesis using Tokenize_tiles_text[of "''a -- b''" ts] by auto
qed

subsection \<open>Texts with known tokens\<close>

text \<open>\<open>reads w ks follows\<close>: the text \<open>w\<close> gives the tokens \<open>ks\<close> (type and lexeme) when the text after it satisfies \<open>follows\<close>.\<close>

abbreviation kind :: "Token \<Rightarrow> TokenType \<times> string" where
  "kind t \<equiv> (tok_type t, lexeme t)"

definition kinds :: "Token list Result \<Rightarrow> (TokenType \<times> string) list Result" where
  "kinds r = map_sum id (map kind) r"

definition reads :: "string \<Rightarrow> (TokenType \<times> string) list \<Rightarrow> (string \<Rightarrow> bool) \<Rightarrow> bool" where
  "reads w ks follows \<longleftrightarrow>
     (\<forall>rest p. follows rest \<longrightarrow> (\<exists>q. kinds (tokens_from (w @ rest) p) = map_sum id ((@) ks) (kinds (tokens_from rest q))))"

abbreviation anything :: "string \<Rightarrow> bool" where
  "anything \<equiv> \<lambda>_. True"

lemma map_sum_id: "map_sum id f r = (case r of Inl e \<Rightarrow> Inl e | Inr x \<Rightarrow> Inr (f x))"
  by (cases r) simp_all

lemma reads_append:
  assumes "reads v ks f" "reads w ls g" "\<And>rest. g rest \<Longrightarrow> f (w @ rest)"
  shows "reads (v @ w) (ks @ ls) g"
  unfolding reads_def
proof (intro allI impI)
  fix rest p assume g: "g rest"
  then obtain q where q: "kinds (tokens_from (v @ w @ rest) p) = map_sum id ((@) ks) (kinds (tokens_from (w @ rest) q))"
    using assms(1,3) unfolding reads_def by blast
  obtain r where "kinds (tokens_from (w @ rest) q) = map_sum id ((@) ls) (kinds (tokens_from rest r))"
    using assms(2) g unfolding reads_def by blast
  then show "\<exists>q. kinds (tokens_from ((v @ w) @ rest) p) = map_sum id ((@) (ks @ ls)) (kinds (tokens_from rest q))"
    using q by (intro exI[of _ r]) (simp add: map_sum_id split: sum.splits)
qed

lemma reads_tokenize:
  assumes "reads w ks f" "f []"
  shows "\<exists>ts. Tokenize w = Inr ts \<and> map kind ts = ks @ [(T_EndOfFile, [])]"
proof -
  obtain q where "kinds (tokens_from (w @ []) \<lparr>pos_offset = 0, pos_line = 1, pos_column = 1\<rparr>) = map_sum id ((@) ks) (kinds (tokens_from [] q))"
    using assms unfolding reads_def by blast
  then show ?thesis by (cases "tokens_from w \<lparr>pos_offset = 0, pos_line = 1, pos_column = 1\<rparr>") (auto simp: kinds_def Tokenize_def)
qed

lemma reads_skip:
  assumes "\<And>rest p. follows rest \<Longrightarrow> \<exists>q. lex_step c (w @ rest) p = LexSkip rest q"
  shows "reads (c # w) [] follows"
  unfolding reads_def
proof (intro allI impI)
  fix rest p assume "follows rest"
  then obtain q where "lex_step c (w @ rest) p = LexSkip rest q" using assms by blast
  then show "\<exists>q. kinds (tokens_from ((c # w) @ rest) p) = map_sum id ((@) []) (kinds (tokens_from rest q))"
    by (intro exI[of _ q]) (simp add: map_sum_id split: sum.splits)
qed

lemma reads_token:
  assumes "\<And>rest p. follows rest \<Longrightarrow> \<exists>q. lex_step c (w @ rest) p = LexToken ty lx rest q"
  shows "reads (c # w) [(ty, lx)] follows"
  unfolding reads_def
proof (intro allI impI)
  fix rest p assume "follows rest"
  then obtain q where "lex_step c (w @ rest) p = LexToken ty lx rest q" using assms by blast
  then show "\<exists>q. kinds (tokens_from ((c # w) @ rest) p) = map_sum id ((@) [(ty, lx)]) (kinds (tokens_from rest q))"
    by (intro exI[of _ q]) (simp add: kinds_def map_sum_id split: sum.splits)
qed

definition ends_word :: "string \<Rightarrow> bool" where
  "ends_word rest \<longleftrightarrow> rest = [] \<or> \<not> word_char (hd rest)"

definition ends_number :: "string \<Rightarrow> bool" where
  "ends_number rest \<longleftrightarrow> rest = [] \<or> \<not> is_digit (hd rest) \<and> hd rest \<noteq> CHR ''.''"

definition ends_string :: "string \<Rightarrow> bool" where
  "ends_string rest \<longleftrightarrow> rest = [] \<or> hd rest \<noteq> quote"

lemma take_run_append:
  "list_all P w \<Longrightarrow> rest = [] \<or> \<not> P (hd rest) \<Longrightarrow> take_run P (w @ rest) p = (w, rest, foldl (\<lambda>q c. advance c q) p w)"
  by (induction w arbitrary: p) (cases rest; auto)+

lemma char_facts:
  "is_alpha c \<or> c = CHR ''_'' \<Longrightarrow> \<not> is_space c \<and> c \<noteq> CHR ''-'' \<and> c \<noteq> CHR ''/'' \<and> c \<noteq> quote"
  "is_digit c \<Longrightarrow> \<not> is_space c \<and> c \<noteq> CHR ''-'' \<and> c \<noteq> CHR ''/'' \<and> c \<noteq> quote \<and> \<not> is_alpha c \<and> c \<noteq> CHR ''_'' \<and> c \<noteq> CHR ''.''"
  by (auto simp: is_space_def is_alpha_def is_upper_def is_digit_def quote_def Let_def)

lemma reads_word:
  assumes "is_word w" "map LowerAscii w = lx"
  shows "reads w [(KeywordType lx, lx)] ends_word"
proof -
  obtain c cs where w: "w = c # cs" using assms(1) by (cases w) (auto simp: is_word_def)
  have c: "is_alpha c \<or> c = CHR ''_''" "list_all word_char (c # cs)" using assms(1) w by (auto simp: is_word_def)
  have "\<exists>q. lex_step c (cs @ rest) p = LexToken (KeywordType lx) lx rest q" if "ends_word rest" for rest p
    using take_run_append[OF c(2), of rest p] char_facts(1)[OF c(1)] c(1) that assms(2) w
    by (simp add: lex_step_def ends_word_def Let_def del: take_run.simps)
  then show ?thesis unfolding w by (rule reads_token)
qed

lemma reads_number:
  assumes "is_number w"
  shows "reads w [(T_Integer, w)] ends_number"
proof -
  obtain c cs where w: "w = c # cs" using assms by (cases w) (auto simp: is_number_def)
  consider (digits) "list_all is_digit (c # cs)" | (negative) d ds where "c = CHR ''-''" "cs = d # ds" "list_all is_digit (d # ds)"
    using assms w by (cases cs) (auto simp: is_number_def)
  then show ?thesis
  proof cases
    case digits
    have c: "is_digit c" using digits by simp
    have "\<exists>q. lex_step c (cs @ rest) p = LexToken T_Integer w rest q" if "ends_number rest" for rest p
      using take_run_append[OF digits, of rest p] char_facts(2)[OF c] c that w
      by (cases rest) (simp_all add: lex_step_def lex_number_def ends_number_def Let_def del: take_run.simps)
    then show ?thesis unfolding w by (rule reads_token)
  next
    case negative
    have c: "is_digit d" using negative by simp
    have m: "\<not> is_space (CHR ''-'') \<and> \<not> is_alpha (CHR ''-'')" by (simp add: is_space_def is_alpha_def is_upper_def)
    have "\<exists>q. lex_step c (cs @ rest) p = LexToken T_Integer w rest q" if "ends_number rest" for rest p
      using take_run_append[OF negative(3), of rest "advance c p"] char_facts(2)[OF c] c that w m negative(1,2)
      by (cases rest) (simp_all add: lex_step_def lex_number_def ends_number_def Let_def del: take_run.simps)
    then show ?thesis unfolding w by (rule reads_token)
  qed
qed

lemma take_string_plain:
  "quote \<notin> set s \<Longrightarrow> ends_string rest \<Longrightarrow> \<exists>q. take_string (s @ quote # rest) p = Some (s, rest, q)"
proof (induction s arbitrary: p)
  case Nil then show ?case by (cases rest) (auto simp: ends_string_def)
next
  case (Cons c s)
  obtain d ds where "s @ quote # rest = d # ds" by (cases s) auto
  then show ?case using Cons.IH[of "advance c p"] Cons.prems by auto
qed

lemma reads_string:
  assumes "quote \<notin> set s"
  shows "reads (quote # s @ [quote]) [(T_String, s)] ends_string"
proof -
  have "\<not> is_space quote \<and> \<not> is_alpha quote \<and> \<not> is_digit quote" by (simp add: is_space_def is_alpha_def is_upper_def is_digit_def quote_def)
  then have "\<exists>q. lex_step quote ((s @ [quote]) @ rest) p = LexToken T_String s rest q" if "ends_string rest" for rest p
    using take_string_plain[OF assms that, of "advance quote p"] by (auto simp: lex_step_def quote_def)
  then show ?thesis by (rule reads_token)
qed

lemma reads_space: "reads '' '' [] anything"
  by (rule reads_skip) (simp add: lex_step_def is_space_def)

text \<open>An operator, before a text that does not go on with it.\<close>

definition ends_operator :: "string \<Rightarrow> string \<Rightarrow> bool" where
  "ends_operator op rest \<longleftrightarrow>
     rest = [] \<or> hd rest = CHR '' '' \<or> op \<in> {''('', '')'', '','', ''.'', '';''} \<or> (op = ''*'' \<and> hd rest = CHR '')'')"

lemma reads_operator:
  assumes "map_of operators op = Some ty"
  shows "reads op [(ty, op)] (ends_operator op)"
proof -
  have m: "(op, ty) \<in> set operators" by (rule map_of_SomeD[OF assms])
  then have ne: "op \<noteq> []" by (auto simp: operators_def)
  have "\<exists>q. lex_step (hd op) (tl op @ rest) p = LexToken ty op rest q" if "ends_operator op rest" for rest p
    using m unfolding operators_def list.set
    by (elim insertE emptyE Pair_inject; use that in \<open>cases rest; simp add: ends_operator_def lexer_eval\<close>)
  then have "reads (hd op # tl op) [(ty, op)] (ends_operator op)"
    by (intro reads_token) blast
  then show ?thesis using ne by simp
qed

end
