(* ===== verification/Parser.thy ===== *)
theory Parser
  imports Lexer ExpressionFold
begin

text \<open>
  \<^verbatim>\<open>parser/parser.cpp\<close> and the statements of \<^verbatim>\<open>ast/statement.h\<close>: a parser by recursive descent. It is a function of the tokens that
  are still to be read, which end with the token \<^verbatim>\<open>EOF\<close>. The functions for the levels of an expression get the two
  functions they call in a circle, those for a whole expression and for a SELECT, as arguments, and the circle is closed with
  fuel at the end; \<open>None\<close> means that the fuel ran out. The text of an error is dropped.
\<close>

subsection \<open>Statements\<close>

datatype OrderDirection = Order_Asc | Order_Desc

datatype JoinType = Join_Inner | Join_Left | Join_Right | Join_Full

record OrderKey =
  key_column :: string
  key_direction :: OrderDirection

record JoinCondition =
  left_table :: string
  left_column :: string
  right_table :: string
  right_column :: string

record JoinClause =
  join_type :: JoinType
  join_table :: string
  join_alias :: string
  join_condition :: JoinCondition
  join_location :: Position

datatype SelectStatement =
  SelectStatement
    (sel_table_name: string) (sel_table_alias: string) (sel_joins: "JoinClause list")
    (sel_projection: "string list") (sel_projection_expressions: "SelectStatement CompileExpr list")
    (sel_projection_aliases: "string list") (sel_select_all: bool)
    (sel_where: "Predicate option") (sel_compile_where: "SelectStatement CompileExpr")
    (sel_group_by: "string list") (sel_having: "SelectStatement CompileExpr") (sel_order_by: "OrderKey list")
    (sel_distinct: bool) (sel_limit: "nat option") (sel_location: Position)

type_synonym Expr = "SelectStatement CompileExpr"

record UpdateAssignment =
  asg_column :: string
  asg_expression :: Expr
  asg_value :: "Value option"

datatype AlterTableAction =
    RenameTable string
  | RenameColumn string string
  | AddColumn Column

datatype Statement =
    St_CreateTable string Schema Position
  | St_Insert string "string list" "Value list list" Position
  | St_Select SelectStatement
  | St_Delete string "Predicate option" Expr Position
  | St_DropTable string Position
  | St_CreateIndex string string string bool Position
  | St_DropIndex string Position
  | St_Explain SelectStatement Position
  | St_Update string "UpdateAssignment list" "Predicate option" Expr Position
  | St_AlterTable string AlterTableAction Position
  | St_Begin Position
  | St_Commit Position
  | St_Rollback Position

subsection \<open>The text of an expression\<close>

definition AggregateName :: "CompileAggregateKind \<Rightarrow> string" where
  "AggregateName kind =
     (case kind of
        Agg_Count \<Rightarrow> ''count'' | Agg_Sum \<Rightarrow> ''sum'' | Agg_Avg \<Rightarrow> ''avg'' | Agg_Max \<Rightarrow> ''max'' | Agg_Min \<Rightarrow> ''min'')"

definition JoinTypeName :: "JoinType \<Rightarrow> string" where
  "JoinTypeName ty =
     (case ty of Join_Inner \<Rightarrow> ''inner'' | Join_Left \<Rightarrow> ''left'' | Join_Right \<Rightarrow> ''right'' | Join_Full \<Rightarrow> ''full'')"

definition AggregateKindFromName :: "string \<Rightarrow> CompileAggregateKind option" where
  "AggregateKindFromName name =
     (if name = ''count'' then Some Agg_Count
      else if name = ''sum'' then Some Agg_Sum
      else if name = ''avg'' then Some Agg_Avg
      else if name = ''max'' then Some Agg_Max
      else if name = ''min'' then Some Agg_Min
      else None)"

fun join_with :: "string \<Rightarrow> string list \<Rightarrow> string" where
  "join_with sep [] = []"
| "join_with sep [x] = x"
| "join_with sep (x # y # xs) = x @ sep @ join_with sep (y # xs)"

definition quoted :: "string \<Rightarrow> string" where
  "quoted s = quote # s @ [quote]"

fun CompileExprText :: "'q CompileExpr \<Rightarrow> string" where
  "CompileExprText E_nullptr = ''<null>''"
| "CompileExprText (E_Column table_name name) = (if table_name = [] then name else table_name @ ''.'' @ name)"
| "CompileExprText (E_Literal kind integer text) =
     (if kind = LK_Int then int_to_string (sint integer)
      else if kind = LK_String then quoted text
      else if kind = LK_Null then ''NULL''
      else text)"
| "CompileExprText (E_Binary op left right) =
     ''('' @ CompileExprText left @ '' '' @ op @ '' '' @ CompileExprText right @ '')''"
| "CompileExprText (E_Unary op operand) = ''('' @ op @ '' '' @ CompileExprText operand @ '')''"
| "CompileExprText (E_IsNull operand negated) =
     ''('' @ CompileExprText operand @ (if negated then '' is not null)'' else '' is null)'')"
| "CompileExprText (E_Between operand lower upper negated) =
     ''('' @ CompileExprText operand @ '' '' @ (if negated then ''not between '' else ''between '') @
     CompileExprText lower @ '' and '' @ CompileExprText upper @ '')''"
| "CompileExprText (E_In operand options negated) =
     ''('' @ CompileExprText operand @ '' '' @ (if negated then ''not in ('' else ''in ('') @
     join_with '', '' (map CompileExprText options) @ ''))''"
| "CompileExprText (E_Subquery kind query operand negated) =
     (if kind = SQ_Exists then ''(exists (select ...))''
      else if kind = SQ_In then
        ''('' @ CompileExprText operand @ (if negated then '' not in (select ...))'' else '' in (select ...))'')
      else ''(select ...)'')"
| "CompileExprText (E_Aggregate kind star argument) =
     AggregateName kind @ ''('' @ (if star then ''*'' else CompileExprText argument) @ '')''"

subsection \<open>Reading tokens\<close>

type_synonym 'a parser = "Token list \<Rightarrow> ('a \<times> Token list) Result option"

definition preturn :: "'a \<Rightarrow> 'a parser" where
  "preturn x ts = Some (Inr (x, ts))"

definition pfail :: "ErrorCode \<Rightarrow> 'a parser" where
  "pfail err ts = Some (Inl err)"

definition pbind :: "'a parser \<Rightarrow> ('a \<Rightarrow> 'b parser) \<Rightarrow> 'b parser" where
  "pbind m f ts =
     (case m ts of
        None \<Rightarrow> None
      | Some (Inl err) \<Rightarrow> Some (Inl err)
      | Some (Inr (x, ts')) \<Rightarrow> f x ts')"

text \<open>Reading past the end of the tokens does not happen (\<open>ParseStatement_stays_inside\<close> in \<^verbatim>\<open>ParserSafety\<close>); the model would see \<^verbatim>\<open>EOF\<close> there.\<close>

definition PeekAt :: "nat \<Rightarrow> Token list \<Rightarrow> TokenType" where
  "PeekAt n ts = (if n < length ts then tok_type (ts ! n) else T_EndOfFile)"

definition PeekType :: "TokenType parser" where
  "PeekType ts = preturn (PeekAt 0 ts) ts"

definition Match :: "TokenType \<Rightarrow> bool parser" where
  "Match ty ts = (if PeekAt 0 ts \<noteq> ty then preturn False ts else preturn True (tl ts))"

definition Expect :: "TokenType \<Rightarrow> Token parser" where
  "Expect ty ts = (if PeekAt 0 ts \<noteq> ty then pfail InvalidArgument ts else preturn (hd ts) (tl ts))"

definition ExpectIdentifier :: "string parser" where
  "ExpectIdentifier = pbind (Expect T_Identifier) (\<lambda>token. preturn (lexeme token))"

text \<open>\<^verbatim>\<open>std::from_chars\<close> for a signed and for an unsigned 64-bit integer, which must use the whole text.\<close>

definition digits_value :: "string \<Rightarrow> nat" where
  "digits_value ds = foldl (\<lambda>n c. n * 10 + (of_char c - 48)) 0 ds"

definition from_chars_i64 :: "string \<Rightarrow> i64 option" where
  "from_chars_i64 s =
     (let negative = s \<noteq> [] \<and> hd s = CHR ''-'';
          digits = (if negative then tl s else s);
          v = (if negative then - int (digits_value digits) else int (digits_value digits))
      in if digits = [] \<or> \<not> list_all is_digit digits then None
         else if v < int64_min \<or> v > int64_max then None
         else Some (word_of_int v))"

definition from_chars_size :: "string \<Rightarrow> nat option" where
  "from_chars_size s =
     (if s = [] \<or> \<not> list_all is_digit s then None
      else if digits_value s \<ge> 2 ^ 64 then None
      else Some (digits_value s))"

text \<open>The integer of an \<^verbatim>\<open>Integer\<close> token that was just read.\<close>

definition integer_of :: "Token \<Rightarrow> i64 parser" where
  "integer_of token =
     (case from_chars_i64 (lexeme token) of None \<Rightarrow> pfail InvalidArgument | Some n \<Rightarrow> preturn n)"

definition ParseLiteral :: "Value parser" where
  "ParseLiteral =
     pbind PeekType (\<lambda>ty.
     if ty = T_Null then pbind (Expect T_Null) (\<lambda>_. preturn VNull)
     else if ty = T_String then pbind (Expect T_String) (\<lambda>token. preturn (VText (lexeme token)))
     else if ty = T_Integer then
       pbind (Expect T_Integer) (\<lambda>token. pbind (integer_of token) (\<lambda>n. preturn (VInt n)))
     else pfail InvalidArgument)"

text \<open>Items separated by commas; every turn of the loop reads a token, so the number of tokens bounds the turns.\<close>

fun comma_loop :: "nat \<Rightarrow> 'a parser \<Rightarrow> 'a list parser" where
  "comma_loop 0 item ts = None"
| "comma_loop (Suc n) item ts =
     pbind item (\<lambda>x.
     pbind (Match T_Comma) (\<lambda>more.
     if more then pbind (comma_loop n item) (\<lambda>xs. preturn (x # xs)) else preturn [x])) ts"

definition comma_list :: "'a parser \<Rightarrow> 'a list parser" where
  "comma_list item ts = comma_loop (Suc (length ts)) item ts"

subsection \<open>Expressions\<close>

definition IsComparisonType :: "TokenType \<Rightarrow> bool" where
  "IsComparisonType ty \<longleftrightarrow> ty \<in> {T_Equal, T_NotEqual, T_Greater, T_GreaterEqual, T_Less, T_LessEqual}"

definition IsAdditiveType :: "TokenType \<Rightarrow> bool" where
  "IsAdditiveType ty \<longleftrightarrow> ty \<in> {T_Plus, T_Minus}"

definition IsMultiplicativeType :: "TokenType \<Rightarrow> bool" where
  "IsMultiplicativeType ty \<longleftrightarrow> ty \<in> {T_Star, T_Slash}"

definition MakeLiteralExpr :: "Value \<Rightarrow> 'q CompileExpr" where
  "MakeLiteralExpr v =
     (case v of VNull \<Rightarrow> E_Literal LK_Null 0 [] | VInt i \<Rightarrow> E_Literal LK_Int i [] | VText t \<Rightarrow> E_Literal LK_String 0 t)"

definition ParseColumnRef :: "Expr parser" where
  "ParseColumnRef =
     pbind ExpectIdentifier (\<lambda>first.
     pbind (Match T_Dot) (\<lambda>dot.
     if \<not> dot then preturn (E_Column [] first)
     else pbind ExpectIdentifier (\<lambda>column. preturn (E_Column first column))))"

definition IsAggregateCall :: "Token list \<Rightarrow> bool" where
  "IsAggregateCall ts \<longleftrightarrow>
     PeekAt 0 ts = T_Identifier \<and> PeekAt 1 ts = T_LeftParen \<and> AggregateKindFromName (lexeme (hd ts)) \<noteq> None"

definition ParseAggregateExpr :: "Expr parser \<Rightarrow> Expr parser" where
  "ParseAggregateExpr expr =
     pbind ExpectIdentifier (\<lambda>name.
     case AggregateKindFromName name of
       None \<Rightarrow> pfail InvalidArgument
     | Some kind \<Rightarrow>
         pbind (Expect T_LeftParen) (\<lambda>_.
         pbind (Match T_Star) (\<lambda>star.
         pbind (if star then preturn E_nullptr else expr) (\<lambda>argument.
         pbind (Expect T_RightParen) (\<lambda>_. preturn (E_Aggregate kind star argument))))))"

definition ParseSubquery :: "SelectStatement parser \<Rightarrow> SelectStatement parser" where
  "ParseSubquery select = pbind PeekType (\<lambda>ty. if ty \<noteq> T_Select then pfail InvalidArgument else select)"

definition ParseCompilePrimary :: "Expr parser \<Rightarrow> SelectStatement parser \<Rightarrow> Expr parser" where
  "ParseCompilePrimary expr select ts =
     (let ty = PeekAt 0 ts in
      if ty = T_Null then preturn (MakeLiteralExpr VNull) (tl ts)
      else if ty = T_Exists then
        pbind (Expect T_LeftParen) (\<lambda>_.
        pbind (ParseSubquery select) (\<lambda>query.
        pbind (Expect T_RightParen) (\<lambda>_. preturn (E_Subquery SQ_Exists (Some query) E_nullptr False)))) (tl ts)
      else if ty = T_True then preturn (MakeBool True) (tl ts)
      else if ty = T_False then preturn (MakeBool False) (tl ts)
      else if ty = T_String then preturn (MakeLiteralExpr (VText (lexeme (hd ts)))) (tl ts)
      else if ty = T_Integer then pbind (integer_of (hd ts)) (\<lambda>n. preturn (MakeLiteralExpr (VInt n))) (tl ts)
      else if ty = T_Identifier then (if IsAggregateCall ts then ParseAggregateExpr expr ts else ParseColumnRef ts)
      else if ty = T_LeftParen then
        (if PeekAt 0 (tl ts) = T_Select then
           pbind (ParseSubquery select) (\<lambda>query.
           pbind (Expect T_RightParen) (\<lambda>_. preturn (E_Subquery SQ_Scalar (Some query) E_nullptr False))) (tl ts)
         else pbind expr (\<lambda>inner. pbind (Expect T_RightParen) (\<lambda>_. preturn inner)) (tl ts))
      else pfail InvalidArgument ts)"

text \<open>A level with a prefix operator, and one with left-associative binary operators.\<close>

definition pmap :: "('a \<Rightarrow> 'b) \<Rightarrow> ('a \<times> Token list) Result option \<Rightarrow> ('b \<times> Token list) Result option" where
  "pmap f r = (case r of None \<Rightarrow> None | Some (Inl err) \<Rightarrow> Some (Inl err) | Some (Inr (x, ts)) \<Rightarrow> Some (Inr (f x, ts)))"

fun prefix_level :: "TokenType \<Rightarrow> string \<Rightarrow> Expr parser \<Rightarrow> Expr parser" where
  "prefix_level ty op below [] = below []"
| "prefix_level ty op below (t # ts) =
     (if tok_type t = ty then pmap (E_Unary op) (prefix_level ty op below ts) else below (t # ts))"

fun operator_loop :: "nat \<Rightarrow> (TokenType \<Rightarrow> bool) \<Rightarrow> (Token \<Rightarrow> string) \<Rightarrow> Expr parser \<Rightarrow> Expr \<Rightarrow> Expr parser" where
  "operator_loop 0 is_op op_text operand left ts = None"
| "operator_loop (Suc n) is_op op_text operand left ts =
     pbind PeekType (\<lambda>ty.
     if is_op ty then
       pbind (Expect ty) (\<lambda>op. pbind operand (\<lambda>right. operator_loop n is_op op_text operand (E_Binary (op_text op) left right)))
     else preturn left) ts"

definition operator_level :: "(TokenType \<Rightarrow> bool) \<Rightarrow> (Token \<Rightarrow> string) \<Rightarrow> Expr parser \<Rightarrow> Expr parser" where
  "operator_level is_op op_text operand =
     pbind operand (\<lambda>left ts. operator_loop (Suc (length ts)) is_op op_text operand left ts)"

definition ParseCompileUnary :: "Expr parser \<Rightarrow> SelectStatement parser \<Rightarrow> Expr parser" where
  "ParseCompileUnary expr select = prefix_level T_Minus ''-'' (ParseCompilePrimary expr select)"

definition ParseCompileMultiplicative :: "Expr parser \<Rightarrow> SelectStatement parser \<Rightarrow> Expr parser" where
  "ParseCompileMultiplicative expr select = operator_level IsMultiplicativeType lexeme (ParseCompileUnary expr select)"

definition ParseCompileAdditive :: "Expr parser \<Rightarrow> SelectStatement parser \<Rightarrow> Expr parser" where
  "ParseCompileAdditive expr select = operator_level IsAdditiveType lexeme (ParseCompileMultiplicative expr select)"

text \<open>The NOT before BETWEEN, IN or LIKE.\<close>

definition match_negation :: "bool parser" where
  "match_negation ts =
     (if PeekAt 0 ts = T_Not \<and> PeekAt 1 ts \<in> {T_Between, T_In, T_Like} then preturn True (tl ts) else preturn False ts)"

definition comparison_operator :: "Expr parser \<Rightarrow> Expr \<Rightarrow> Expr parser" where
  "comparison_operator additive left =
     pbind PeekType (\<lambda>ty.
     if IsComparisonType ty then
       pbind (Expect ty) (\<lambda>op. pbind additive (\<lambda>right. preturn (E_Binary (lexeme op) left right)))
     else preturn left)"

definition in_list :: "Expr parser \<Rightarrow> SelectStatement parser \<Rightarrow> bool \<Rightarrow> Expr \<Rightarrow> Expr parser" where
  "in_list expr select negated left =
     pbind (Expect T_LeftParen) (\<lambda>_.
     pbind PeekType (\<lambda>ty.
     if ty = T_Select then
       pbind (ParseSubquery select) (\<lambda>query.
       pbind (Expect T_RightParen) (\<lambda>_. preturn (E_Subquery SQ_In (Some query) left negated)))
     else
       pbind (comma_list expr) (\<lambda>options.
       pbind (Expect T_RightParen) (\<lambda>_. preturn (E_In left options negated)))))"

definition ParseCompileComparison :: "Expr parser \<Rightarrow> SelectStatement parser \<Rightarrow> Expr parser" where
  "ParseCompileComparison expr select =
     (let additive = ParseCompileAdditive expr select in
      pbind additive (\<lambda>first.
      pbind (comparison_operator additive first) (\<lambda>left.
      pbind (Match T_Is) (\<lambda>is_test.
      if is_test then
        pbind (Match T_Not) (\<lambda>negated. pbind (Expect T_Null) (\<lambda>_. preturn (E_IsNull left negated)))
      else
        pbind match_negation (\<lambda>negated.
        pbind PeekType (\<lambda>ty.
        if ty = T_Between then
          pbind (Expect T_Between) (\<lambda>_.
          pbind additive (\<lambda>lower.
          pbind (Expect T_And) (\<lambda>_.
          pbind additive (\<lambda>upper. preturn (E_Between left lower upper negated)))))
        else if ty = T_In then pbind (Expect T_In) (\<lambda>_. in_list expr select negated left)
        else if ty = T_Like then
          pbind (Expect T_Like) (\<lambda>_.
          pbind additive (\<lambda>right. preturn (E_Binary (if negated then ''not like'' else ''like'') left right)))
        else preturn left))))))"

definition ParseCompileNot :: "Expr parser \<Rightarrow> SelectStatement parser \<Rightarrow> Expr parser" where
  "ParseCompileNot expr select = prefix_level T_Not ''not'' (ParseCompileComparison expr select)"

definition ParseCompileAnd :: "Expr parser \<Rightarrow> SelectStatement parser \<Rightarrow> Expr parser" where
  "ParseCompileAnd expr select = operator_level (\<lambda>ty. ty = T_And) (\<lambda>_. ''and'') (ParseCompileNot expr select)"

definition ParseCompileOr :: "Expr parser \<Rightarrow> SelectStatement parser \<Rightarrow> Expr parser" where
  "ParseCompileOr expr select = operator_level (\<lambda>ty. ty = T_Or) (\<lambda>_. ''or'') (ParseCompileAnd expr select)"

subsection \<open>SELECT\<close>

text \<open>An optional \<^verbatim>\<open>AS\<close> name; the empty string without one.\<close>

definition optional_alias :: "string parser" where
  "optional_alias = pbind (Match T_As) (\<lambda>has_alias. if has_alias then ExpectIdentifier else preturn [])"

definition ParseSelectItem :: "Expr parser \<Rightarrow> Expr parser" where
  "ParseSelectItem expr ts = (if IsAggregateCall ts then ParseAggregateExpr expr ts else expr ts)"

definition select_item :: "Expr parser \<Rightarrow> (Expr \<times> string) parser" where
  "select_item expr = pbind (ParseSelectItem expr) (\<lambda>item. pbind optional_alias (\<lambda>name. preturn (item, name)))"

text \<open>The keywords of a join: \<open>None\<close> when no join follows.\<close>

definition parse_join_type :: "JoinType option parser" where
  "parse_join_type =
     pbind PeekType (\<lambda>ty.
     if ty = T_Left then
       pbind (Expect T_Left) (\<lambda>_. pbind (Match T_Outer) (\<lambda>_. pbind (Expect T_Join) (\<lambda>_. preturn (Some Join_Left))))
     else if ty = T_Right then
       pbind (Expect T_Right) (\<lambda>_. pbind (Match T_Outer) (\<lambda>_. pbind (Expect T_Join) (\<lambda>_. preturn (Some Join_Right))))
     else if ty = T_Full then
       pbind (Expect T_Full) (\<lambda>_. pbind (Match T_Outer) (\<lambda>_. pbind (Expect T_Join) (\<lambda>_. preturn (Some Join_Full))))
     else if ty = T_Inner then
       pbind (Expect T_Inner) (\<lambda>_. pbind (Expect T_Join) (\<lambda>_. preturn (Some Join_Inner)))
     else if ty = T_Join then pbind (Expect T_Join) (\<lambda>_. preturn (Some Join_Inner))
     else preturn None)"

definition ExtractJoinCondition :: "Expr \<Rightarrow> JoinCondition option" where
  "ExtractJoinCondition e =
     (case e of
        E_Binary op (E_Column lt ln) (E_Column rt rn) \<Rightarrow>
          if op \<noteq> ''='' then None
          else Some \<lparr>left_table = lt, left_column = ln, right_table = rt, right_column = rn\<rparr>
      | _ \<Rightarrow> None)"

definition join_clause :: "Expr parser \<Rightarrow> JoinType \<Rightarrow> JoinClause parser" where
  "join_clause expr ty =
     pbind ExpectIdentifier (\<lambda>table.
     pbind optional_alias (\<lambda>name.
     pbind (Expect T_On) (\<lambda>on.
     pbind expr (\<lambda>condition.
     case ExtractJoinCondition (FoldCompileExpr condition) of
       None \<Rightarrow> pfail InvalidArgument
     | Some c \<Rightarrow>
         preturn \<lparr>join_type = ty, join_table = table, join_alias = name, join_condition = c, join_location = tok_start on\<rparr>))))"

fun join_loop :: "nat \<Rightarrow> Expr parser \<Rightarrow> JoinClause list parser" where
  "join_loop 0 expr ts = None"
| "join_loop (Suc n) expr ts =
     pbind parse_join_type (\<lambda>ty.
     case ty of
       None \<Rightarrow> preturn []
     | Some ty \<Rightarrow> pbind (join_clause expr ty) (\<lambda>c. pbind (join_loop n expr) (\<lambda>cs. preturn (c # cs)))) ts"

definition parse_joins :: "Expr parser \<Rightarrow> JoinClause list parser" where
  "parse_joins expr ts = join_loop (Suc (length ts)) expr ts"

definition ParseWhere :: "Expr parser \<Rightarrow> (Expr \<times> Predicate option) parser" where
  "ParseWhere expr =
     pbind expr (\<lambda>e. let folded = FoldCompileExpr e in preturn (folded, ExtractPredicateFromCompileExpr folded))"

definition optional_where :: "Expr parser \<Rightarrow> (Expr \<times> Predicate option) parser" where
  "optional_where expr =
     pbind (Match T_Where) (\<lambda>has_where. if has_where then ParseWhere expr else preturn (E_nullptr, None))"

definition optional_group_by :: "string list parser" where
  "optional_group_by =
     pbind (Match T_Group) (\<lambda>has_group.
     if has_group then pbind (Expect T_By) (\<lambda>_. comma_list ExpectIdentifier) else preturn [])"

definition optional_having :: "Expr parser \<Rightarrow> Expr parser" where
  "optional_having expr =
     pbind (Match T_Having) (\<lambda>has_having.
     if has_having then pbind expr (\<lambda>e. preturn (FoldCompileExpr e)) else preturn E_nullptr)"

definition order_key :: "OrderKey parser" where
  "order_key =
     pbind ExpectIdentifier (\<lambda>column.
     pbind (Match T_Desc) (\<lambda>descending.
     if descending then preturn \<lparr>key_column = column, key_direction = Order_Desc\<rparr>
     else pbind (Match T_Asc) (\<lambda>_. preturn \<lparr>key_column = column, key_direction = Order_Asc\<rparr>)))"

definition optional_order_by :: "OrderKey list parser" where
  "optional_order_by =
     pbind (Match T_Order) (\<lambda>has_order.
     if has_order then pbind (Expect T_By) (\<lambda>_. comma_list order_key) else preturn [])"

definition optional_limit :: "nat option parser" where
  "optional_limit =
     pbind (Match T_Limit) (\<lambda>has_limit.
     if has_limit then
       pbind (Expect T_Integer) (\<lambda>token.
       if lexeme token \<noteq> [] \<and> hd (lexeme token) = CHR ''-'' then pfail InvalidArgument
       else
         (case from_chars_size (lexeme token) of
            None \<Rightarrow> pfail InvalidArgument
          | Some limit \<Rightarrow> preturn (Some limit)))
     else preturn None)"

text \<open>The projection: \<open>None\<close> for a star.\<close>

definition select_list :: "Expr parser \<Rightarrow> (Expr \<times> string) list option parser" where
  "select_list expr =
     pbind (Match T_Star) (\<lambda>star.
     if star then preturn None else pbind (comma_list (select_item expr)) (\<lambda>items. preturn (Some items)))"

text \<open>A SELECT without the semicolon.\<close>

definition select_body :: "Expr parser \<Rightarrow> SelectStatement parser" where
  "select_body expr =
     pbind (Expect T_Select) (\<lambda>select.
     pbind (Match T_Distinct) (\<lambda>is_distinct.
     pbind (select_list expr) (\<lambda>items.
     pbind (Expect T_From) (\<lambda>_.
     pbind ExpectIdentifier (\<lambda>table.
     pbind optional_alias (\<lambda>name.
     pbind (parse_joins expr) (\<lambda>joins.
     pbind (optional_where expr) (\<lambda>(compile_where, predicate).
     pbind optional_group_by (\<lambda>group_by.
     pbind (optional_having expr) (\<lambda>having.
     pbind optional_order_by (\<lambda>order_by.
     pbind optional_limit (\<lambda>limit.
     let projection = (case items of None \<Rightarrow> [] | Some xs \<Rightarrow> xs) in
     preturn (SelectStatement table name joins (map (CompileExprText \<circ> fst) projection) (map fst projection)
       (map snd projection) (items = None) predicate compile_where group_by having order_by is_distinct limit
       (tok_start select))))))))))))))"

text \<open>The circle of expressions and subqueries, closed with fuel.\<close>

fun ParseCompileExpr :: "nat \<Rightarrow> Expr parser"
and ParseSelect :: "nat \<Rightarrow> SelectStatement parser" where
  "ParseCompileExpr 0 ts = None"
| "ParseCompileExpr (Suc n) ts = ParseCompileOr (ParseCompileExpr n) (ParseSelect n) ts"
| "ParseSelect 0 ts = None"
| "ParseSelect (Suc n) ts = select_body (ParseCompileExpr n) ts"

subsection \<open>The other statements\<close>

text \<open>The constraints of a column, in any order.\<close>

record Constraints =
  has_primary_key :: bool
  has_unique :: bool
  has_not_null :: bool
  column_default :: "Value option"

definition no_constraints :: Constraints where
  "no_constraints = \<lparr>has_primary_key = False, has_unique = False, has_not_null = False, column_default = None\<rparr>"

fun constraint_loop :: "nat \<Rightarrow> Constraints \<Rightarrow> Constraints parser" where
  "constraint_loop 0 k ts = None"
| "constraint_loop (Suc n) k ts =
     pbind PeekType (\<lambda>ty.
     if ty = T_Primary then
       pbind (Expect T_Primary) (\<lambda>_.
       if has_primary_key k then pfail AlreadyExists
       else
         pbind (Expect T_Key) (\<lambda>_.
         constraint_loop n (k\<lparr>has_primary_key := True, has_not_null := True, has_unique := True\<rparr>)))
     else if ty = T_Not then
       pbind (Expect T_Not) (\<lambda>_.
       pbind (Expect T_Null) (\<lambda>_.
       if has_not_null k then pfail AlreadyExists else constraint_loop n (k\<lparr>has_not_null := True\<rparr>)))
     else if ty = T_Unique then
       pbind (Expect T_Unique) (\<lambda>_.
       if has_unique k then pfail AlreadyExists else constraint_loop n (k\<lparr>has_unique := True\<rparr>))
     else if ty = T_Default then
       pbind (Expect T_Default) (\<lambda>_.
       if column_default k \<noteq> None then pfail AlreadyExists
       else pbind ParseLiteral (\<lambda>v. constraint_loop n (k\<lparr>column_default := Some v\<rparr>)))
     else preturn k) ts"

definition varchar_length :: "nat option parser" where
  "varchar_length =
     pbind (Match T_LeftParen) (\<lambda>has_length.
     if has_length then
       pbind (Expect T_Integer) (\<lambda>token.
       case from_chars_size (lexeme token) of
         None \<Rightarrow> pfail InvalidArgument
       | Some parsed_length \<Rightarrow>
           if parsed_length = 0 then pfail InvalidArgument
           else pbind (Expect T_RightParen) (\<lambda>_. preturn (Some parsed_length)))
     else preturn None)"

definition column_type :: "(DataType \<times> nat option) parser" where
  "column_type =
     pbind PeekType (\<lambda>ty.
     if ty = T_Int then pbind (Expect T_Int) (\<lambda>_. preturn (DT_Int, None))
     else if ty = T_Varchar then pbind (Expect T_Varchar) (\<lambda>_. pbind varchar_length (\<lambda>n. preturn (DT_Varchar, n)))
     else pfail InvalidArgument)"

definition ParseColumnDefinition :: "Column parser" where
  "ParseColumnDefinition =
     pbind ExpectIdentifier (\<lambda>name.
     pbind column_type (\<lambda>(ty, column_length).
     pbind (\<lambda>ts. constraint_loop (Suc (length ts)) no_constraints ts) (\<lambda>k.
     preturn (make_Column name ty column_length (\<not> has_not_null k) (has_primary_key k) (has_unique k) (column_default k)))))"

definition ParseCreateTable :: "Statement parser" where
  "ParseCreateTable =
     pbind (Expect T_Create) (\<lambda>create.
     pbind (Expect T_Table) (\<lambda>_.
     pbind ExpectIdentifier (\<lambda>table.
     pbind (Expect T_LeftParen) (\<lambda>_.
     pbind (comma_list ParseColumnDefinition) (\<lambda>columns.
     pbind (Expect T_RightParen) (\<lambda>_.
     pbind (Expect T_Semicolon) (\<lambda>_. preturn (St_CreateTable table columns (tok_start create)))))))))"

definition ParseCreateIndex :: "Statement parser" where
  "ParseCreateIndex =
     pbind (Expect T_Create) (\<lambda>create.
     pbind (Match T_Unique) (\<lambda>is_unique.
     pbind (Expect T_Index) (\<lambda>_.
     pbind ExpectIdentifier (\<lambda>index.
     pbind (Expect T_On) (\<lambda>_.
     pbind ExpectIdentifier (\<lambda>table.
     pbind (Expect T_LeftParen) (\<lambda>_.
     pbind ExpectIdentifier (\<lambda>column.
     pbind (Expect T_RightParen) (\<lambda>_.
     pbind (Expect T_Semicolon) (\<lambda>_. preturn (St_CreateIndex index table column is_unique (tok_start create))))))))))))"

definition ParseCreate :: "Statement parser" where
  "ParseCreate ts =
     (if PeekAt 1 ts = T_Table then ParseCreateTable ts
      else if PeekAt 1 ts = T_Index \<or> (PeekAt 1 ts = T_Unique \<and> PeekAt 2 ts = T_Index) then ParseCreateIndex ts
      else pfail InvalidArgument ts)"

definition insert_columns :: "string list parser" where
  "insert_columns =
     pbind (Match T_LeftParen) (\<lambda>has_columns.
     if has_columns then
       pbind (comma_list ExpectIdentifier) (\<lambda>columns. pbind (Expect T_RightParen) (\<lambda>_. preturn columns))
     else preturn [])"

definition insert_row :: "Value list parser" where
  "insert_row =
     pbind (Expect T_LeftParen) (\<lambda>_.
     pbind (comma_list ParseLiteral) (\<lambda>row. pbind (Expect T_RightParen) (\<lambda>_. preturn row)))"

definition ParseInsert :: "Statement parser" where
  "ParseInsert =
     pbind (Expect T_Insert) (\<lambda>insert_token.
     pbind (Expect T_Into) (\<lambda>_.
     pbind ExpectIdentifier (\<lambda>table.
     pbind insert_columns (\<lambda>columns.
     pbind (Expect T_Values) (\<lambda>_.
     pbind (comma_list insert_row) (\<lambda>rows.
     pbind (Expect T_Semicolon) (\<lambda>_. preturn (St_Insert table columns rows (tok_start insert_token)))))))))"

definition ParseSelectStatement :: "nat \<Rightarrow> Statement parser" where
  "ParseSelectStatement n =
     pbind (ParseSelect n) (\<lambda>select. pbind (Expect T_Semicolon) (\<lambda>_. preturn (St_Select select)))"

definition ParseDelete :: "Expr parser \<Rightarrow> Statement parser" where
  "ParseDelete expr =
     pbind (Expect T_Delete) (\<lambda>delete_token.
     pbind (Expect T_From) (\<lambda>_.
     pbind ExpectIdentifier (\<lambda>table.
     pbind (optional_where expr) (\<lambda>(compile_where, predicate).
     pbind (Expect T_Semicolon) (\<lambda>_. preturn (St_Delete table predicate compile_where (tok_start delete_token)))))))"

definition update_assignment :: "Expr parser \<Rightarrow> UpdateAssignment parser" where
  "update_assignment expr =
     pbind ExpectIdentifier (\<lambda>column.
     pbind (Expect T_Equal) (\<lambda>_.
     pbind expr (\<lambda>e.
     let folded = FoldCompileExpr e in
     preturn \<lparr>asg_column = column, asg_expression = folded, asg_value = ExtractLiteralValue folded\<rparr>)))"

definition ParseUpdate :: "Expr parser \<Rightarrow> Statement parser" where
  "ParseUpdate expr =
     pbind (Expect T_Update) (\<lambda>update_token.
     pbind ExpectIdentifier (\<lambda>table.
     pbind (Expect T_Set) (\<lambda>_.
     pbind (comma_list (update_assignment expr)) (\<lambda>assignments.
     pbind (optional_where expr) (\<lambda>(compile_where, predicate).
     pbind (Expect T_Semicolon) (\<lambda>_.
     preturn (St_Update table assignments predicate compile_where (tok_start update_token))))))))"

definition alter_action :: "AlterTableAction parser" where
  "alter_action =
     pbind (Match T_Rename) (\<lambda>rename.
     if rename then
       pbind (Match T_To) (\<lambda>to_table.
       if to_table then pbind ExpectIdentifier (\<lambda>new_name. preturn (RenameTable new_name))
       else
         pbind (Expect T_Column) (\<lambda>_.
         pbind ExpectIdentifier (\<lambda>old_name.
         pbind (Expect T_To) (\<lambda>_.
         pbind ExpectIdentifier (\<lambda>new_name. preturn (RenameColumn old_name new_name))))))
     else
       pbind (Expect T_Add) (\<lambda>_.
       pbind (Expect T_Column) (\<lambda>_.
       pbind ParseColumnDefinition (\<lambda>column. preturn (AddColumn column)))))"

definition ParseAlter :: "Statement parser" where
  "ParseAlter =
     pbind (Expect T_Alter) (\<lambda>alter.
     pbind (Expect T_Table) (\<lambda>_.
     pbind ExpectIdentifier (\<lambda>table.
     pbind alter_action (\<lambda>action.
     pbind (Expect T_Semicolon) (\<lambda>_. preturn (St_AlterTable table action (tok_start alter)))))))"

definition ParseTransaction :: "Statement parser" where
  "ParseTransaction ts =
     (let keyword = hd ts; location = tok_start keyword in
      pbind (Expect T_Semicolon) (\<lambda>_.
        if tok_type keyword = T_Begin then preturn (St_Begin location)
        else if tok_type keyword = T_Commit then preturn (St_Commit location)
        else if tok_type keyword = T_Rollback then preturn (St_Rollback location)
        else pfail InvalidArgument) (tl ts))"

definition ParseDrop :: "Statement parser" where
  "ParseDrop =
     pbind (Expect T_Drop) (\<lambda>drop_token.
     pbind (Match T_Table) (\<lambda>is_table.
     if is_table then
       pbind ExpectIdentifier (\<lambda>table.
       pbind (Expect T_Semicolon) (\<lambda>_. preturn (St_DropTable table (tok_start drop_token))))
     else
       pbind (Expect T_Index) (\<lambda>_.
       pbind ExpectIdentifier (\<lambda>index.
       pbind (Expect T_Semicolon) (\<lambda>_. preturn (St_DropIndex index (tok_start drop_token)))))))"

definition ParseExplain :: "nat \<Rightarrow> Statement parser" where
  "ParseExplain n =
     pbind (Expect T_Explain) (\<lambda>explain.
     pbind PeekType (\<lambda>ty.
     if ty \<noteq> T_Select then pfail InvalidArgument
     else
       pbind (ParseSelect n) (\<lambda>select.
       pbind (Expect T_Semicolon) (\<lambda>_. preturn (St_Explain select (tok_start explain))))))"

definition ParseStatement :: "nat \<Rightarrow> Statement parser" where
  "ParseStatement n ts =
     (let ty = PeekAt 0 ts in
      if ty = T_Create then ParseCreate ts
      else if ty = T_Insert then ParseInsert ts
      else if ty = T_Select then ParseSelectStatement n ts
      else if ty = T_Explain then ParseExplain n ts
      else if ty = T_Delete then ParseDelete (ParseCompileExpr n) ts
      else if ty = T_Drop then ParseDrop ts
      else if ty = T_Alter then ParseAlter ts
      else if ty \<in> {T_Begin, T_Commit, T_Rollback} then ParseTransaction ts
      else if ty = T_Update then ParseUpdate (ParseCompileExpr n) ts
      else pfail InvalidArgument ts)"

text \<open>The loop over the statements, and the parser with as much fuel as there are tokens.\<close>

fun statement_loop :: "nat \<Rightarrow> nat \<Rightarrow> Token list \<Rightarrow> Statement list Result option" where
  "statement_loop n 0 ts = None"
| "statement_loop n (Suc k) ts =
     (if PeekAt 0 ts = T_EndOfFile then Some (Inr [])
      else
        (case ParseStatement n ts of
           None \<Rightarrow> None
         | Some (Inl err) \<Rightarrow> Some (Inl err)
         | Some (Inr (statement, rest)) \<Rightarrow>
             (case statement_loop n k rest of
                None \<Rightarrow> None
              | Some (Inl err) \<Rightarrow> Some (Inl err)
              | Some (Inr statements) \<Rightarrow> Some (Inr (statement # statements)))))"

definition ParserImpl_Parse :: "Token list \<Rightarrow> Statement list Result option" where
  "ParserImpl_Parse ts =
     (case statement_loop (Suc (length ts)) (Suc (length ts)) ts of
        Some (Inr []) \<Rightarrow> Some (Inl InvalidArgument)
      | r \<Rightarrow> r)"

definition Parse :: "string \<Rightarrow> Statement list Result option" where
  "Parse sql = (case Tokenize sql of Inl err \<Rightarrow> Some (Inl err) | Inr ts \<Rightarrow> ParserImpl_Parse ts)"

subsection \<open>The text of a statement\<close>

definition QuoteValue :: "Value \<Rightarrow> string" where
  "QuoteValue v = (case v of VNull \<Rightarrow> ''NULL'' | VInt i \<Rightarrow> Value_ToString (VInt i) | VText t \<Rightarrow> quoted t)"

definition bracketed :: "string list \<Rightarrow> string" where
  "bracketed xs = ''['' @ join_with '','' xs @ '']''"

definition column_text :: "Column \<Rightarrow> string" where
  "column_text c =
     col_name c @ '':'' @ (if col_type c = DT_Int then ''INT'' else ''VARCHAR'') @
     (case col_length c of None \<Rightarrow> [] | Some n \<Rightarrow> ''('' @ nat_to_string n @ '')'')"

definition SchemaText :: "Schema \<Rightarrow> string" where
  "SchemaText schema = bracketed (map column_text schema)"

definition PredicateText :: "Predicate \<Rightarrow> string" where
  "PredicateText predicate =
     pred_column predicate @
     (case pred_kind predicate of
        PK_IsNull \<Rightarrow> '' is null''
      | PK_IsNotNull \<Rightarrow> '' is not null''
      | PK_Equal \<Rightarrow> ''='' @ QuoteValue (pred_value predicate))"

text \<open>The condition of a statement: the simple predicate if there is one, else the expression.\<close>

definition where_text :: "Predicate option \<Rightarrow> 'q CompileExpr \<Rightarrow> string" where
  "where_text predicate compile_where =
     (case predicate of
        Some p \<Rightarrow> '',where='' @ PredicateText p
      | None \<Rightarrow> if compile_where = E_nullptr then [] else '',where_expr='' @ CompileExprText compile_where)"

definition join_text :: "JoinClause \<Rightarrow> string" where
  "join_text j =
     JoinTypeName (join_type j) @ '':'' @ join_table j @ (if join_alias j = [] then [] else '' AS '' @ join_alias j) @ '' ON '' @
     left_table (join_condition j) @ ''.'' @ left_column (join_condition j) @ ''='' @
     right_table (join_condition j) @ ''.'' @ right_column (join_condition j)"

definition order_text :: "OrderKey \<Rightarrow> string" where
  "order_text k = key_column k @ (if key_direction k = Order_Desc then '' DESC'' else '' ASC'')"

definition select_text :: "SelectStatement \<Rightarrow> string" where
  "select_text s =
     ''SelectStatement(table='' @ sel_table_name s @
     (if sel_table_alias s = [] then [] else '',alias='' @ sel_table_alias s) @
     (if sel_joins s = [] then [] else '',joins='' @ bracketed (map join_text (sel_joins s))) @
     '',projection='' @ (if sel_select_all s then ''*'' else bracketed (sel_projection s)) @
     where_text (sel_where s) (sel_compile_where s) @
     (if sel_group_by s = [] then [] else '',group_by='' @ bracketed (sel_group_by s)) @
     (if sel_having s = E_nullptr then [] else '',having='' @ CompileExprText (sel_having s)) @
     (if sel_order_by s = [] then [] else '',order_by='' @ bracketed (map order_text (sel_order_by s))) @
     (if sel_distinct s then '',distinct=true'' else []) @
     (case sel_limit s of None \<Rightarrow> [] | Some n \<Rightarrow> '',limit='' @ nat_to_string n) @
     (if list_ex (\<lambda>a. a \<noteq> []) (sel_projection_aliases s) then '',aliases='' @ bracketed (sel_projection_aliases s) else []) @
     '')''"

definition insert_text :: "string \<Rightarrow> string list \<Rightarrow> Value list list \<Rightarrow> string" where
  "insert_text table columns rows =
     ''InsertStatement(table='' @ table @ '',columns='' @ (if columns = [] then ''*'' else bracketed columns) @
     '',rows='' @ bracketed (map (bracketed \<circ> map QuoteValue) rows) @ '')''"

definition alter_text :: "string \<Rightarrow> AlterTableAction \<Rightarrow> string" where
  "alter_text table action =
     ''AlterTableStatement(table='' @ table @ '',action='' @
     (case action of
        RenameTable new_name \<Rightarrow> ''rename_table,new_name='' @ new_name
      | RenameColumn old_name new_name \<Rightarrow> ''rename_column,column='' @ old_name @ '',new_name='' @ new_name
      | AddColumn column \<Rightarrow>
          ''add_column,column='' @ column_text column @
          (case default_value column of None \<Rightarrow> [] | Some v \<Rightarrow> '',default='' @ QuoteValue v)) @
     '')''"

definition assignment_text :: "UpdateAssignment \<Rightarrow> string" where
  "assignment_text a = asg_column a @ ''='' @ CompileExprText (asg_expression a)"

fun Statement_ToString :: "Statement \<Rightarrow> string" where
  "Statement_ToString (St_CreateTable table schema location) =
     ''CreateTableStatement(table='' @ table @ '',schema='' @ SchemaText schema @ '')''"
| "Statement_ToString (St_Insert table columns rows location) = insert_text table columns rows"
| "Statement_ToString (St_Select select) = select_text select"
| "Statement_ToString (St_Delete table predicate compile_where location) =
     ''DeleteStatement(table='' @ table @ where_text predicate compile_where @ '')''"
| "Statement_ToString (St_DropTable table location) = ''DropTableStatement(table='' @ table @ '')''"
| "Statement_ToString (St_CreateIndex index table column is_unique location) =
     ''CreateIndexStatement(index='' @ index @ '',table='' @ table @ '',column='' @ column @ '',unique='' @
     (if is_unique then ''true'' else ''false'') @ '')''"
| "Statement_ToString (St_DropIndex index location) = ''DropIndexStatement(index='' @ index @ '')''"
| "Statement_ToString (St_Explain select location) = ''ExplainStatement(select='' @ select_text select @ '')''"
| "Statement_ToString (St_Update table assignments predicate compile_where location) =
     ''UpdateStatement(table='' @ table @ '',assignments='' @ bracketed (map assignment_text assignments) @
     where_text predicate compile_where @ '')''"
| "Statement_ToString (St_AlterTable table action location) = alter_text table action"
| "Statement_ToString (St_Begin location) = ''BeginStatement()''"
| "Statement_ToString (St_Commit location) = ''CommitStatement()''"
| "Statement_ToString (St_Rollback location) = ''RollbackStatement()''"

end
