(* ===== verification/ParserSafety.thy ===== *)
theory ParserSafety
  imports Parser "HOL-Library.Sublist"
begin

text \<open>
  The parser ends and stays inside its tokens: \<open>progress k\<close> says of a result that the fuel sufficed and that at least \<open>k\<close> tokens were
  read, never the last one, \<^verbatim>\<open>EOF\<close>; \<open>good k m\<close> says so of a parser, for up to \<open>m\<close> tokens. Every function of the parser is good
  when the two it gets as arguments are, so the fuel given by \<^verbatim>\<open>Parse\<close> is enough.
\<close>

subsection \<open>Good parsers\<close>

definition ends_eof :: "Token list \<Rightarrow> bool" where
  "ends_eof ts \<longleftrightarrow> ts \<noteq> [] \<and> tok_type (last ts) = T_EndOfFile"

definition progress :: "nat \<Rightarrow> Token list \<Rightarrow> ('a \<times> Token list) Result option \<Rightarrow> bool" where
  "progress k ts r \<longleftrightarrow>
     (\<exists>res. r = Some res \<and> (\<forall>x rest. res = Inr (x, rest) \<longrightarrow> suffix rest ts \<and> ends_eof rest \<and> length rest + k \<le> length ts))"

definition good :: "nat \<Rightarrow> nat \<Rightarrow> 'a parser \<Rightarrow> bool" where
  "good k m p \<longleftrightarrow> (\<forall>ts. ends_eof ts \<longrightarrow> length ts \<le> m \<longrightarrow> progress k ts (p ts))"

lemma goodI: "(\<And>ts. ends_eof ts \<Longrightarrow> length ts \<le> m \<Longrightarrow> progress k ts (p ts)) \<Longrightarrow> good k m p"
  by (simp add: good_def)

lemma goodD: "good k m p \<Longrightarrow> ends_eof ts \<Longrightarrow> length ts \<le> m \<Longrightarrow> progress k ts (p ts)"
  by (simp add: good_def)

lemma progress_simps [simp]:
  "progress k ts (Some (Inl err))" "\<not> progress k ts None"
  "progress k ts (Some (Inr (x, rest))) \<longleftrightarrow> suffix rest ts \<and> ends_eof rest \<and> length rest + k \<le> length ts"
  by (auto simp: progress_def)

lemma progress_weaken: "progress k ts r \<Longrightarrow> j \<le> k \<Longrightarrow> progress j ts r"
  by (auto simp: progress_def)

lemma reader_weaken: "good k m p \<Longrightarrow> j \<le> k \<Longrightarrow> n \<le> m \<Longrightarrow> good j n p"
  by (auto intro!: goodI intro: progress_weaken dest: goodD)

lemma good_10: "good 1 m p \<Longrightarrow> good 0 m p"
  by (erule reader_weaken) simp_all

lemma progress_bind:
  assumes "progress k ts (m ts)"
    and "\<And>x rest. m ts = Some (Inr (x, rest)) \<Longrightarrow> ends_eof rest \<Longrightarrow> length rest + k \<le> length ts \<Longrightarrow> progress j rest (f x rest)"
  shows "progress (k + j) ts (pbind m f ts)"
proof -
  obtain res where r: "m ts = Some res" using assms(1) by (auto simp: progress_def)
  show ?thesis
  proof (cases res)
    case (Inl e) then show ?thesis using r by (simp add: pbind_def)
  next
    case (Inr p)
    obtain x rest where p: "p = (x, rest)" by (cases p)
    have a: "suffix rest ts" "ends_eof rest" "length rest + k \<le> length ts" using assms(1) r Inr p by auto
    have "progress j rest (f x rest)" using assms(2) r Inr p a by simp
    then show ?thesis using a r Inr p
      by (auto simp: pbind_def progress_def) (meson suffix_order.trans)
  qed
qed

lemma good_pbind:
  assumes "good k m p" "\<And>x. good j (m - k) (f x)"
  shows "good (k + j) m (pbind p f)"
proof (rule goodI)
  fix ts assume "ends_eof ts" "length ts \<le> m"
  then show "progress (k + j) ts (pbind p f ts)"
    by (intro progress_bind goodD[OF assms(1)] goodD[OF assms(2)]) simp_all
qed

lemma good_bind0: "good 0 m p \<Longrightarrow> (\<And>x. good j m (f x)) \<Longrightarrow> good j m (pbind p f)"
  using good_pbind[of 0 m p j f] by simp

lemma good_bind1: "good 1 (Suc m) p \<Longrightarrow> (\<And>x. good 0 m (f x)) \<Longrightarrow> good 1 (Suc m) (pbind p f)"
  using good_pbind[of 1 "Suc m" p 0 f] by simp

lemma good_bind1m: "good 1 m p \<Longrightarrow> (\<And>x. good 0 m (f x)) \<Longrightarrow> good 1 m (pbind p f)"
  using good_pbind[of 1 m p 0 f] by (simp add: reader_weaken[OF _ order_refl diff_le_self])

lemma good_preturn: "good 0 m (preturn x)"
  by (rule goodI) (simp add: preturn_def)

lemma good_pfail: "good k m (pfail err)"
  by (rule goodI) (simp add: pfail_def)

lemma ends_eof_tl: "ends_eof ts \<Longrightarrow> PeekAt 0 ts \<noteq> T_EndOfFile \<Longrightarrow> ends_eof (tl ts) \<and> suffix (tl ts) ts \<and> Suc (length (tl ts)) = length ts"
  by (cases ts) (auto simp: ends_eof_def PeekAt_def suffix_def split: if_splits)

lemma good_Match: "ty \<noteq> T_EndOfFile \<Longrightarrow> good 0 m (Match ty)"
  using ends_eof_tl by (intro goodI) (force simp: Match_def preturn_def)

lemma good_Expect: "ty \<noteq> T_EndOfFile \<Longrightarrow> good 1 m (Expect ty)"
  using ends_eof_tl by (intro goodI) (force simp: Expect_def preturn_def pfail_def)

lemma good_PeekType: "good 0 m PeekType"
  by (rule goodI) (simp add: PeekType_def preturn_def)

lemma good_if: "(b \<Longrightarrow> good k m p) \<Longrightarrow> (\<not> b \<Longrightarrow> good k m q) \<Longrightarrow> good k m (if b then p else q)"
  by simp

lemma good_option: "(\<And>x. r = Some x \<Longrightarrow> good k m (f x)) \<Longrightarrow> (r = None \<Longrightarrow> good k m p) \<Longrightarrow> good k m (case r of None \<Rightarrow> p | Some x \<Rightarrow> f x)"
  by (cases r) auto

lemma good_prod: "(\<And>x y. good k m (f x y)) \<Longrightarrow> good k m (case z of (x, y) \<Rightarrow> f x y)"
  by (cases z) auto

lemma progress_tl:
  assumes "ends_eof ts" "PeekAt 0 ts \<noteq> T_EndOfFile" "progress k (tl ts) r"
  shows "progress (Suc k) ts r"
  using assms(3) ends_eof_tl[OF assms(1,2)] by (auto simp: progress_def) (meson suffix_order.trans suffix_tl)

lemma good_Expect0: "ty \<noteq> T_EndOfFile \<Longrightarrow> good 0 m (Expect ty)"
  by (rule good_10[OF good_Expect])

lemmas good_step = good_bind0 good_Expect0 good_preturn good_pfail good_Match good_Expect good_PeekType good_if good_option good_prod

text \<open>The number of tokens is enough fuel for the loops.\<close>

lemma comma_loop_progress:
  assumes "good 1 m item"
  shows "ends_eof ts \<Longrightarrow> length ts \<le> m \<Longrightarrow> length ts < n \<Longrightarrow> progress 1 ts (comma_loop n item ts)"
proof (induction n arbitrary: ts)
  case (Suc n)
  have "progress (1 + 0) ts (comma_loop (Suc n) item ts)" unfolding comma_loop.simps
  proof (rule progress_bind)
    show "progress 1 ts (item ts)" using goodD[OF assms] Suc.prems by blast
    fix x rest assume r: "ends_eof rest" "length rest + 1 \<le> length ts"
    have "progress (0 + 0) rest (pbind (Match T_Comma) (\<lambda>more.
        if more then pbind (comma_loop n item) (\<lambda>xs. preturn (x # xs)) else preturn [x]) rest)"
    proof (rule progress_bind)
      show "progress 0 rest (Match T_Comma rest)" by (rule goodD[OF good_Match[where m = "length rest"]]) (use r in simp_all)
      fix more us assume u: "ends_eof us" "length us + 0 \<le> length rest"
      then have "progress 1 us (comma_loop n item us)" using Suc.IH[of us] Suc.prems r by simp
      then show "progress 0 us ((if more then pbind (comma_loop n item) (\<lambda>xs. preturn (x # xs)) else preturn [x]) us)"
        using progress_bind[of 1 us "comma_loop n item" 0 "\<lambda>xs. preturn (x # xs)"] u
        by (auto simp: preturn_def intro: progress_weaken)
    qed
    then show "progress 0 rest (pbind (Match T_Comma) (\<lambda>more.
        if more then pbind (comma_loop n item) (\<lambda>xs. preturn (x # xs)) else preturn [x]) rest)" by simp
  qed
  then show ?case by simp
qed simp

lemma good_comma_list: "good 1 m item \<Longrightarrow> good 1 m (comma_list item)"
  by (rule goodI, unfold comma_list_def, rule comma_loop_progress) simp_all


lemma good_comma_list0: "good 1 m item \<Longrightarrow> good 0 m (comma_list item)"
  by (rule good_10[OF good_comma_list])

lemma operator_loop_progress:
  assumes "good 1 m operand" "\<not> is_op T_EndOfFile"
  shows "ends_eof ts \<Longrightarrow> length ts \<le> m \<Longrightarrow> length ts < n \<Longrightarrow> progress 0 ts (operator_loop n is_op op_text operand left ts)"
proof (induction n arbitrary: ts left)
  case (Suc n)
  show ?case
  proof (cases "is_op (PeekAt 0 ts)")
    case False then show ?thesis using Suc.prems by (simp add: pbind_def PeekType_def preturn_def)
  next
    case True
    then have ty: "PeekAt 0 ts \<noteq> T_EndOfFile" using assms(2) by metis
    let ?f = "\<lambda>op. pbind operand (\<lambda>right. operator_loop n is_op op_text operand (E_Binary (op_text op) left right))"
    have "progress (1 + 0) ts (pbind (Expect (PeekAt 0 ts)) ?f ts)"
    proof (rule progress_bind)
      show "progress 1 ts (Expect (PeekAt 0 ts) ts)" by (rule goodD[OF good_Expect[OF ty] Suc.prems(1) order_refl])
      fix op rest assume r: "ends_eof rest" "length rest + 1 \<le> length ts"
      have "progress (1 + 0) rest (?f op rest)"
      proof (rule progress_bind)
        show "progress 1 rest (operand rest)" by (rule goodD[OF assms(1)]) (use r Suc.prems in simp_all)
        fix right us assume "ends_eof us" "length us + 1 \<le> length rest"
        then show "progress 0 us (operator_loop n is_op op_text operand (E_Binary (op_text op) left right) us)"
          by (intro Suc.IH) (use r Suc.prems in simp_all)
      qed
      then show "progress 0 rest (?f op rest)" by (rule progress_weaken) simp
    qed
    then show ?thesis using True by (simp add: pbind_def[of PeekType] PeekType_def preturn_def progress_weaken)
  qed
qed simp

lemma good_operator_level:
  assumes "good 1 m operand" "\<not> is_op T_EndOfFile"
  shows "good 1 m (operator_level is_op op_text operand)"
proof (rule goodI)
  fix ts assume ts: "ends_eof ts" "length ts \<le> m"
  have "progress (1 + 0) ts (operator_level is_op op_text operand ts)" unfolding operator_level_def
  proof (rule progress_bind)
    show "progress 1 ts (operand ts)" by (rule goodD[OF assms(1) ts])
    fix x rest assume "ends_eof rest" "length rest + 1 \<le> length ts"
    then show "progress 0 rest (operator_loop (Suc (length rest)) is_op op_text operand x rest)"
      by (intro operator_loop_progress[where m = m] assms) (use ts in simp_all)
  qed
  then show "progress 1 ts (operator_level is_op op_text operand ts)" by simp
qed

lemma progress_pmap: "progress k ts r \<Longrightarrow> progress k ts (pmap f r)"
  by (auto simp: progress_def pmap_def split: sum.splits)

lemma good_prefix_level:
  assumes "good 1 m below" "ty \<noteq> T_EndOfFile"
  shows "good 1 m (prefix_level ty op below)"
proof (rule goodI)
  fix ts assume "ends_eof ts" "length ts \<le> m"
  then show "progress 1 ts (prefix_level ty op below ts)"
  proof (induction ts)
    case (Cons t ts)
    show ?case
    proof (cases "tok_type t = ty")
      case True
      then have e: "PeekAt 0 (t # ts) \<noteq> T_EndOfFile" using assms(2) by (simp add: PeekAt_def)
      then have "progress 1 ts (prefix_level ty op below ts)" using Cons ends_eof_tl[OF Cons.prems(1) e] by simp
      then have "progress 1 (t # ts) (pmap (E_Unary op) (prefix_level ty op below ts))"
        using progress_tl[OF Cons.prems(1) e, of 1 "pmap (E_Unary op) (prefix_level ty op below ts)"]
        by (intro progress_weaken[of 2 "t # ts" _ 1]) (simp_all add: progress_pmap numeral_2_eq_2)
      then show ?thesis using True by simp
    qed (use goodD[OF assms(1) Cons.prems] in simp)
  qed (simp add: ends_eof_def)
qed

subsection \<open>Expressions\<close>

lemma good_ExpectIdentifier: "good 1 m ExpectIdentifier"
  unfolding ExpectIdentifier_def using good_pbind[OF good_Expect good_preturn, of T_Identifier m] by simp

lemma good_ExpectIdentifier0: "good 0 m ExpectIdentifier"
  by (rule good_10[OF good_ExpectIdentifier])

lemma good_integer_of: "good 0 m (integer_of token)"
  unfolding integer_of_def by (intro good_step)

lemma good_ParseColumnRef: "good 1 (Suc m) ParseColumnRef"
  unfolding ParseColumnRef_def by (intro good_bind1 good_ExpectIdentifier good_ExpectIdentifier0 good_step) simp_all

lemma good_ParseAggregateExpr: "good 1 m expr \<Longrightarrow> good 1 (Suc m) (ParseAggregateExpr expr)"
  unfolding ParseAggregateExpr_def
  by (intro good_bind1 good_ExpectIdentifier good_step) (simp_all add: reader_weaken)

lemma good_ParseSubquery: "good 1 m select \<Longrightarrow> good 1 m (ParseSubquery select)"
  unfolding ParseSubquery_def by (intro good_step)

lemma good_primary_rest:
  assumes "good 1 m expr" "good 1 m select"
  shows "good 0 m (pbind (Expect T_LeftParen) (\<lambda>_. pbind (ParseSubquery select) (\<lambda>query.
      pbind (Expect T_RightParen) (\<lambda>_. preturn (E_Subquery SQ_Exists (Some query) E_nullptr False)))))"
    and "good 0 m (pbind (ParseSubquery select) (\<lambda>query.
      pbind (Expect T_RightParen) (\<lambda>_. preturn (E_Subquery SQ_Scalar (Some query) E_nullptr False))))"
    and "good 0 m (pbind expr (\<lambda>inner. pbind (Expect T_RightParen) (\<lambda>_. preturn inner)))"
    and "good 0 m (pbind (integer_of t) (\<lambda>n. preturn (MakeLiteralExpr (VInt n))))"
  using good_10[OF assms(1)] good_10[OF good_ParseSubquery[OF assms(2)]]
  by (intro good_step good_integer_of; simp)+

lemma progress_head:
  assumes "ends_eof ts" "length ts \<le> Suc m" "PeekAt 0 ts \<noteq> T_EndOfFile" "good 0 m p"
  shows "progress 1 ts (p (tl ts))"
proof -
  have "progress 0 (tl ts) (p (tl ts))" using ends_eof_tl[OF assms(1,3)] assms(2) by (intro goodD[OF assms(4)]) simp_all
  from progress_tl[OF assms(1,3) this] show ?thesis by simp
qed

lemma good_ParseCompilePrimary:
  assumes "good 1 m expr" "good 1 m select"
  shows "good 1 (Suc m) (ParseCompilePrimary expr select)"
proof (rule goodI)
  fix ts assume ts: "ends_eof ts" "length ts \<le> Suc m"
  note head = progress_head[OF ts]
  note R = good_primary_rest[OF assms]
  show "progress 1 ts (ParseCompilePrimary expr select ts)"
    unfolding ParseCompilePrimary_def Let_def
    using goodD[OF good_ParseAggregateExpr[OF assms(1)] ts] goodD[OF good_ParseColumnRef ts]
      head[OF _ R(1)] head[OF _ R(2)] head[OF _ R(3)] head[OF _ R(4)] head[OF _ good_preturn]
    by (auto simp: pfail_def)
qed

lemma good_ParseCompileUnary: "good 1 m expr \<Longrightarrow> good 1 m select \<Longrightarrow> good 1 (Suc m) (ParseCompileUnary expr select)"
  unfolding ParseCompileUnary_def by (intro good_prefix_level good_ParseCompilePrimary) simp_all

lemma good_ParseCompileMultiplicative:
  "good 1 m expr \<Longrightarrow> good 1 m select \<Longrightarrow> good 1 (Suc m) (ParseCompileMultiplicative expr select)"
  unfolding ParseCompileMultiplicative_def
  by (intro good_operator_level good_ParseCompileUnary) (simp_all add: IsMultiplicativeType_def)

lemma good_ParseCompileAdditive:
  "good 1 m expr \<Longrightarrow> good 1 m select \<Longrightarrow> good 1 (Suc m) (ParseCompileAdditive expr select)"
  unfolding ParseCompileAdditive_def
  by (intro good_operator_level good_ParseCompileMultiplicative) (simp_all add: IsAdditiveType_def)

lemma good_match_negation: "good 0 m match_negation"
  using ends_eof_tl by (intro goodI) (force simp: match_negation_def preturn_def)

lemma good_comparison_operator: "good 0 m additive \<Longrightarrow> good 0 m (comparison_operator additive left)"
  unfolding comparison_operator_def by (intro good_step) (auto simp: IsComparisonType_def)

lemma good_in_list: "good 1 m expr \<Longrightarrow> good 1 m select \<Longrightarrow> good 0 m (in_list expr select negated left)"
  unfolding in_list_def
  by (intro good_step good_comma_list0 good_10[OF good_ParseSubquery]) simp_all

lemma good_ParseCompileComparison:
  assumes "good 1 m expr" "good 1 m select"
  shows "good 1 (Suc m) (ParseCompileComparison expr select)"
proof -
  have a: "good 1 (Suc m) (ParseCompileAdditive expr select)" by (rule good_ParseCompileAdditive[OF assms])
  have a0: "good 0 m (ParseCompileAdditive expr select)" by (rule reader_weaken[OF a]) simp_all
  show ?thesis unfolding ParseCompileComparison_def Let_def
    by (intro good_bind1 a good_step good_comparison_operator good_match_negation good_in_list a0 assms) simp_all
qed

lemma good_ParseCompileNot: "good 1 m expr \<Longrightarrow> good 1 m select \<Longrightarrow> good 1 (Suc m) (ParseCompileNot expr select)"
  unfolding ParseCompileNot_def by (intro good_prefix_level good_ParseCompileComparison) simp_all

lemma good_ParseCompileAnd: "good 1 m expr \<Longrightarrow> good 1 m select \<Longrightarrow> good 1 (Suc m) (ParseCompileAnd expr select)"
  unfolding ParseCompileAnd_def by (intro good_operator_level good_ParseCompileNot) simp_all

lemma good_ParseCompileOr: "good 1 m expr \<Longrightarrow> good 1 m select \<Longrightarrow> good 1 (Suc m) (ParseCompileOr expr select)"
  unfolding ParseCompileOr_def by (intro good_operator_level good_ParseCompileAnd) simp_all

subsection \<open>SELECT\<close>

lemma good_optional_alias: "good 0 m optional_alias"
  unfolding optional_alias_def by (intro good_step good_ExpectIdentifier0) simp_all

lemma good_select_item:
  assumes "good 1 m expr"
  shows "good 1 m (select_item expr)"
proof -
  have "good 1 m (ParseSelectItem expr)"
  proof (rule goodI)
    fix ts assume ts: "ends_eof ts" "length ts \<le> m"
    then obtain k where k: "m = Suc k" by (cases m) (auto simp: ends_eof_def)
    have "good 1 m (ParseAggregateExpr expr)" unfolding k
      by (intro good_ParseAggregateExpr reader_weaken[OF assms]) (simp_all add: k)
    then show "progress 1 ts (ParseSelectItem expr ts)"
      using goodD[OF _ ts] assms by (auto simp: ParseSelectItem_def)
  qed
  then show ?thesis unfolding select_item_def
    using good_pbind[of 1 m "ParseSelectItem expr" 0 "\<lambda>item. pbind optional_alias (\<lambda>name. preturn (item, name))"]
    by (simp add: good_bind0[OF good_optional_alias] good_preturn)
qed

lemma good_parse_join_type:
  assumes "ends_eof ts" "length ts \<le> Suc m"
  shows "progress 0 ts (parse_join_type ts)"
    and "parse_join_type ts = Some (Inr (Some ty, rest)) \<Longrightarrow> length rest < length ts"
proof -
  show "progress 0 ts (parse_join_type ts)" unfolding parse_join_type_def
    by (rule goodD[OF _ assms]) (intro good_step; simp)
  show "parse_join_type ts = Some (Inr (Some ty, rest)) \<Longrightarrow> length rest < length ts" using assms(1)
    by (cases ts) (auto simp: parse_join_type_def pbind_def PeekType_def preturn_def Expect_def Match_def pfail_def PeekAt_def ends_eof_def
        split: if_splits)
qed

lemma good_join_clause: "good 0 m expr \<Longrightarrow> good 0 m (join_clause expr ty)"
  unfolding join_clause_def by (intro good_step good_ExpectIdentifier0 good_optional_alias) simp_all

lemma join_loop_progress:
  assumes "good 0 m expr"
  shows "ends_eof ts \<Longrightarrow> length ts \<le> m \<Longrightarrow> length ts < n \<Longrightarrow> progress 0 ts (join_loop n expr ts)"
proof (induction n arbitrary: ts)
  case (Suc n)
  have m: "length ts \<le> Suc m" using Suc.prems by simp
  have "progress (0 + 0) ts (join_loop (Suc n) expr ts)" unfolding join_loop.simps
  proof (rule progress_bind)
    show "progress 0 ts (parse_join_type ts)" by (rule good_parse_join_type[OF Suc.prems(1) m])
    fix ty rest assume r: "parse_join_type ts = Some (Inr (ty, rest))" "ends_eof rest" "length rest + 0 \<le> length ts"
    show "progress 0 rest ((case ty of None \<Rightarrow> preturn [] | Some ty \<Rightarrow>
        pbind (join_clause expr ty) (\<lambda>c. pbind (join_loop n expr) (\<lambda>cs. preturn (c # cs)))) rest)"
    proof (cases ty)
      case None then show ?thesis using r by (simp add: preturn_def)
    next
      case (Some ty')
      have less: "length rest < length ts" using good_parse_join_type(2)[OF Suc.prems(1) m] r Some by blast
      have "progress (0 + 0) rest (pbind (join_clause expr ty') (\<lambda>c. pbind (join_loop n expr) (\<lambda>cs. preturn (c # cs))) rest)"
      proof (rule progress_bind)
        show "progress 0 rest (join_clause expr ty' rest)"
          by (rule goodD[OF good_join_clause[OF assms]]) (use r Suc.prems in simp_all)
        fix c us assume u: "ends_eof us" "length us + 0 \<le> length rest"
        have "progress 0 us (join_loop n expr us)" by (rule Suc.IH) (use u less Suc.prems in simp_all)
        then show "progress 0 us (pbind (join_loop n expr) (\<lambda>cs. preturn (c # cs)) us)"
          using progress_bind[of 0 us "join_loop n expr" 0 "\<lambda>cs. preturn (c # cs)"] by (simp add: preturn_def)
      qed
      then show ?thesis using Some by simp
    qed
  qed
  then show ?case by simp
qed simp

lemma good_parse_joins: "good 0 m expr \<Longrightarrow> good 0 m (parse_joins expr)"
  by (rule goodI, unfold parse_joins_def, rule join_loop_progress) simp_all

lemma good_optional_where: "good 0 m expr \<Longrightarrow> good 0 m (optional_where expr)"
  unfolding optional_where_def ParseWhere_def Let_def by (intro good_step) simp_all

lemma good_optional_group_by: "good 0 m optional_group_by"
  unfolding optional_group_by_def by (intro good_step good_comma_list0 good_ExpectIdentifier) simp_all

lemma good_optional_having: "good 0 m expr \<Longrightarrow> good 0 m (optional_having expr)"
  unfolding optional_having_def by (intro good_step) simp_all

lemma good_order_key: "good 1 m order_key"
  unfolding order_key_def by (intro good_bind1m good_ExpectIdentifier good_step) simp_all

lemma good_optional_order_by: "good 0 m optional_order_by"
  unfolding optional_order_by_def by (intro good_step good_comma_list0 good_order_key) simp_all

lemma good_optional_limit: "good 0 m optional_limit"
  unfolding optional_limit_def by (intro good_step) simp_all

lemma good_select_list: "good 1 m expr \<Longrightarrow> good 0 m (select_list expr)"
  unfolding select_list_def by (intro good_step good_comma_list0 good_select_item) simp_all

lemma good_select_body: "good 1 m expr \<Longrightarrow> good 1 (Suc m) (select_body expr)"
  unfolding select_body_def Let_def
  by (intro good_bind1 good_Expect good_step good_select_list good_ExpectIdentifier0 good_optional_alias good_parse_joins
      good_optional_where good_optional_group_by good_optional_having good_optional_order_by good_optional_limit) (simp_all add: good_10)

lemma good_ParseCompileExpr: "good 1 n (ParseCompileExpr n) \<and> good 1 n (ParseSelect n)"
proof (induction n)
  case 0 show ?case by (auto simp: good_def ends_eof_def)
next
  case (Suc n)
  then show ?case
    using good_ParseCompileOr[of n "ParseCompileExpr n" "ParseSelect n"] good_select_body[of n "ParseCompileExpr n"]
    by (simp add: good_def)
qed

subsection \<open>Statements\<close>

lemma good_ParseLiteral: "good 1 m ParseLiteral"
  unfolding ParseLiteral_def
  by (intro good_bind0[OF good_PeekType] good_if good_pfail good_bind1m good_Expect good_preturn good_bind0[OF good_integer_of]) simp_all

lemma good_ParseLiteral0: "good 0 m ParseLiteral"
  by (rule good_10[OF good_ParseLiteral])

lemma good_varchar_length: "good 0 m varchar_length"
  unfolding varchar_length_def by (intro good_step) simp_all

lemma good_column_type: "good 0 m column_type"
  unfolding column_type_def by (intro good_step good_varchar_length) simp_all

lemma constraint_loop_progress:
  "ends_eof ts \<Longrightarrow> length ts < n \<Longrightarrow> progress 0 ts (constraint_loop n k ts)"
proof (induction n arbitrary: ts k)
  case (Suc n)
  obtain m where m: "length ts = Suc m" using Suc.prems(1) by (cases ts) (auto simp: ends_eof_def)
  have IH: "good 0 m (constraint_loop n k')" for k'
    by (rule goodI, rule Suc.IH) (use Suc.prems m in simp_all)
  have one: "good 1 (Suc m) (pbind (Expect ty) f)" if "ty \<noteq> T_EndOfFile" "\<And>x. good 0 m (f x)" for ty f
    by (rule good_bind1[OF good_Expect[OF that(1)] that(2)])
  show ?case unfolding constraint_loop.simps
  proof (rule goodD[OF _ Suc.prems(1), where m = "Suc m"], rule good_bind0[OF good_PeekType], intro good_if)
  qed (rule good_preturn | (rule good_10[OF one], simp, intro good_step IH good_ParseLiteral0; simp) | simp add: m)+
qed simp


lemma good_ParseColumnDefinition: "good 1 m ParseColumnDefinition"
  unfolding ParseColumnDefinition_def
  by (intro good_bind1m good_ExpectIdentifier good_step good_column_type)
    (rule goodI, rule constraint_loop_progress, simp_all)

lemma good_ParseCreateTable: "good 1 m ParseCreateTable"
  unfolding ParseCreateTable_def
  by (intro good_bind1m good_Expect good_step good_ExpectIdentifier0 good_comma_list0 good_ParseColumnDefinition) simp_all

lemma good_ParseCreateIndex: "good 1 m ParseCreateIndex"
  unfolding ParseCreateIndex_def by (intro good_bind1m good_Expect good_step good_ExpectIdentifier0) simp_all

lemma good_ParseCreate: "good 1 m ParseCreate"
  using goodD[OF good_ParseCreateTable] goodD[OF good_ParseCreateIndex]
  by (auto intro!: goodI simp: ParseCreate_def pfail_def)

lemma good_insert_columns: "good 0 m insert_columns"
  unfolding insert_columns_def by (intro good_step good_comma_list0 good_ExpectIdentifier) simp_all

lemma good_insert_row: "good 1 m insert_row"
  unfolding insert_row_def by (intro good_bind1m good_Expect good_step good_comma_list0 good_ParseLiteral) simp_all

lemma good_ParseInsert: "good 1 m ParseInsert"
  unfolding ParseInsert_def
  by (intro good_bind1m good_Expect good_step good_ExpectIdentifier0 good_insert_columns good_comma_list0 good_insert_row) simp_all

lemma good_ParseDelete: "good 0 m expr \<Longrightarrow> good 1 m (ParseDelete expr)"
  unfolding ParseDelete_def
  by (intro good_bind1m good_Expect good_step good_ExpectIdentifier0 good_optional_where) simp_all

lemma good_update_assignment: "good 0 m expr \<Longrightarrow> good 1 m (update_assignment expr)"
  unfolding update_assignment_def Let_def by (intro good_bind1m good_ExpectIdentifier good_step) simp_all

lemma good_ParseUpdate: "good 0 m expr \<Longrightarrow> good 1 m (ParseUpdate expr)"
  unfolding ParseUpdate_def
  by (intro good_bind1m good_Expect good_step good_ExpectIdentifier0 good_optional_where good_comma_list0 good_update_assignment) simp_all

lemma good_ParseAlter: "good 1 m ParseAlter"
  unfolding ParseAlter_def alter_action_def
  by (intro good_bind1m good_Expect good_step good_ExpectIdentifier0 good_10[OF good_ParseColumnDefinition]) simp_all

lemma good_ParseDrop: "good 1 m ParseDrop"
  unfolding ParseDrop_def by (intro good_bind1m good_Expect good_step good_ExpectIdentifier0) simp_all

lemma good_ParseSelectStatement: "good 1 n (ParseSelectStatement n)"
  unfolding ParseSelectStatement_def using good_ParseCompileExpr[of n]
  by (intro good_bind1m good_step) simp_all

lemma good_ParseExplain: "good 1 n (ParseExplain n)"
  unfolding ParseExplain_def using good_10[of n "ParseSelect n"] good_ParseCompileExpr[of n]
  by (intro good_bind1m good_Expect good_step) simp_all

lemma ParseTransaction_progress:
  assumes "ends_eof ts" "length ts \<le> Suc m" "PeekAt 0 ts \<noteq> T_EndOfFile"
  shows "progress 1 ts (ParseTransaction ts)"
  unfolding ParseTransaction_def Let_def by (rule progress_head[OF assms]) (intro good_step; simp)

lemma good_ParseStatement: "good 1 n (ParseStatement n)"
proof (rule goodI)
  fix ts assume ts: "ends_eof ts" "length ts \<le> n"
  have e: "good 0 n (ParseCompileExpr n)" using good_ParseCompileExpr[of n] good_10 by blast
  have t: "progress 1 ts (ParseTransaction ts)" if "PeekAt 0 ts \<noteq> T_EndOfFile"
    by (rule ParseTransaction_progress[where m = n, OF ts(1) _ that]) (use ts in simp)
  note D = goodD[OF _ ts]
  show "progress 1 ts (ParseStatement n ts)"
    unfolding ParseStatement_def Let_def
    using D[OF good_ParseCreate] D[OF good_ParseInsert] D[OF good_ParseSelectStatement] D[OF good_ParseExplain]
      D[OF good_ParseDelete[OF e]] D[OF good_ParseDrop] D[OF good_ParseAlter] D[OF good_ParseUpdate[OF e]] t
    by (simp add: pfail_def)
qed

lemma statement_loop_returns:
  "ends_eof ts \<Longrightarrow> length ts \<le> n \<Longrightarrow> length ts < k \<Longrightarrow> \<exists>r. statement_loop n k ts = Some r"
proof (induction k arbitrary: ts)
  case (Suc k)
  from goodD[OF good_ParseStatement Suc.prems(1,2)] show ?case
    using Suc.IH Suc.prems by (auto simp: progress_def split: option.splits sum.splits prod.splits) (metis Suc_le_lessD dual_order.strict_trans2 less_Suc_eq_le option.distinct(1) order_less_imp_le)
qed simp

lemma tokens_from_eof: "tokens_from cs p = Inr ts \<Longrightarrow> ends_eof ts"
proof (induction cs p arbitrary: ts rule: tokens_from.induct)
  case (2 c cs p)
  then show ?case by (auto simp: ends_eof_def split: lex_result.splits sum.splits)
qed (auto simp: ends_eof_def)


lemma ends_eof_suffix: "ends_eof ts \<Longrightarrow> suffix us ts \<Longrightarrow> us \<noteq> [] \<Longrightarrow> ends_eof us"
  by (auto simp: ends_eof_def suffix_def)

text \<open>C36: Parsing ends for every text, with a list of statements or an error: no input makes the descent or one of its loops run on for ever.\<close>

theorem Parse_returns: "\<exists>r. Parse sql = Some r"
proof (cases "Tokenize sql")
  case (Inr ts)
  have "ends_eof ts" using Inr tokens_from_eof by (simp add: Tokenize_def)
  from statement_loop_returns[OF this, of "Suc (length ts)" "Suc (length ts)"]
  obtain r where "statement_loop (Suc (length ts)) (Suc (length ts)) ts = Some r" by auto
  then show ?thesis using Inr by (auto simp: Parse_def ParserImpl_Parse_def split: sum.splits list.splits)
qed (simp add: Parse_def)

text \<open>The parser stays inside the tokens of the lexer: wherever a statement starts, reading it uses up at least one token and never
  the last one, so every token the parser looks at exists.\<close>

theorem ParseStatement_stays_inside:
  assumes "Tokenize sql = Inr ts" "suffix us ts" "us \<noteq> []" "length us \<le> n" "ParseStatement n us = Some (Inr (st, rest))"
  shows "suffix rest us \<and> rest \<noteq> [] \<and> length rest < length us \<and> tok_type (last rest) = T_EndOfFile"
proof -
  have "ends_eof us" by (rule ends_eof_suffix[OF tokens_from_eof assms(2,3)]) (use assms(1) in \<open>simp add: Tokenize_def\<close>)
  from goodD[OF good_ParseStatement this assms(4)] show ?thesis using assms(5) by (auto simp: ends_eof_def)
qed

end
