(* ===== verification/ParserPrint.thy ===== *)
theory ParserPrint
  imports LexerSpec ParserSafety
begin

text \<open>
  The text of an expression (\<^verbatim>\<open>CompileExprText\<close>) is read back as that expression: first by the lexer, which finds the tokens
  \<open>expr_kinds\<close>, then by the levels of the parser.
\<close>

subsection \<open>Expressions with a text\<close>

definition is_name :: "string \<Rightarrow> bool" where
  "is_name w \<longleftrightarrow> is_word w \<and> map LowerAscii w = w \<and> KeywordType w = T_Identifier"

definition symbol_ops :: "string list" where
  "symbol_ops = [''+'', ''-'', ''*'', ''/'', ''='', ''=='', ''!='', ''<>'', ''!'', ''>'', ''>='', ''<'', ''<='']"

definition word_ops :: "string list" where
  "word_ops = [''and'', ''or'', ''like'', ''not like'']"

fun printable :: "'q CompileExpr \<Rightarrow> bool" where
  "printable E_nullptr = False"
| "printable (E_Column table_name name) = ((table_name = [] \<or> is_name table_name) \<and> is_name name)"
| "printable (E_Literal k integer text) =
     (case k of
        LK_Int \<Rightarrow> text = []
      | LK_String \<Rightarrow> integer = 0 \<and> quote \<notin> set text
      | LK_Bool \<Rightarrow> integer = 0 \<and> text \<in> {''true'', ''false''}
      | LK_Null \<Rightarrow> integer = 0 \<and> text = [])"
| "printable (E_Binary op left right) = (op \<in> set symbol_ops \<union> set word_ops \<and> printable left \<and> printable right)"
| "printable (E_Unary op operand) = (op \<in> {''-'', ''not''} \<and> printable operand)"
| "printable (E_IsNull operand negated) = printable operand"
| "printable (E_Between operand lower upper negated) = (printable operand \<and> printable lower \<and> printable upper)"
| "printable (E_In operand options negated) = (printable operand \<and> options \<noteq> [] \<and> list_all printable options)"
| "printable (E_Subquery sub query operand negated) = False"
| "printable (E_Aggregate agg star argument) = (if star then argument = E_nullptr else printable argument)"

definition op_kinds :: "string \<Rightarrow> (TokenType \<times> string) list" where
  "op_kinds op =
     (if op = ''and'' then [(T_And, op)]
      else if op = ''or'' then [(T_Or, op)]
      else if op = ''like'' then [(T_Like, op)]
      else if op = ''not like'' then [(T_Not, ''not''), (T_Like, ''like'')]
      else if op = ''not'' then [(T_Not, op)]
      else [(the (map_of operators op), op)])"

abbreviation not_kinds :: "bool \<Rightarrow> (TokenType \<times> string) list" where
  "not_kinds negated \<equiv> (if negated then [(T_Not, ''not'')] else [])"

fun comma_kinds :: "(TokenType \<times> string) list list \<Rightarrow> (TokenType \<times> string) list" where
  "comma_kinds [] = []"
| "comma_kinds [x] = x"
| "comma_kinds (x # y # xs) = x @ [(T_Comma, '','')] @ comma_kinds (y # xs)"

fun expr_kinds :: "'q CompileExpr \<Rightarrow> (TokenType \<times> string) list" where
  "expr_kinds E_nullptr = []"
| "expr_kinds (E_Column table_name name) =
     (if table_name = [] then [(T_Identifier, name)] else [(T_Identifier, table_name), (T_Dot, ''.''), (T_Identifier, name)])"
| "expr_kinds (E_Literal k integer text) =
     (case k of
        LK_Int \<Rightarrow> [(T_Integer, int_to_string (sint integer))]
      | LK_String \<Rightarrow> [(T_String, text)]
      | LK_Bool \<Rightarrow> [(if text = ''true'' then T_True else T_False, text)]
      | LK_Null \<Rightarrow> [(T_Null, ''null'')])"
| "expr_kinds (E_Binary op left right) =
     [(T_LeftParen, ''('')] @ expr_kinds left @ op_kinds op @ expr_kinds right @ [(T_RightParen, '')'')]"
| "expr_kinds (E_Unary op operand) = [(T_LeftParen, ''('')] @ op_kinds op @ expr_kinds operand @ [(T_RightParen, '')'')]"
| "expr_kinds (E_IsNull operand negated) =
     [(T_LeftParen, ''('')] @ expr_kinds operand @ [(T_Is, ''is'')] @ not_kinds negated @ [(T_Null, ''null''), (T_RightParen, '')'')]"
| "expr_kinds (E_Between operand lower upper negated) =
     [(T_LeftParen, ''('')] @ expr_kinds operand @ not_kinds negated @ [(T_Between, ''between'')] @ expr_kinds lower @
     [(T_And, ''and'')] @ expr_kinds upper @ [(T_RightParen, '')'')]"
| "expr_kinds (E_In operand options negated) =
     [(T_LeftParen, ''('')] @ expr_kinds operand @ not_kinds negated @ [(T_In, ''in''), (T_LeftParen, ''('')] @
     comma_kinds (map expr_kinds options) @ [(T_RightParen, '')''), (T_RightParen, '')'')]"
| "expr_kinds (E_Subquery sub query operand negated) = []"
| "expr_kinds (E_Aggregate agg star argument) =
     [(T_Identifier, AggregateName agg), (T_LeftParen, ''('')] @ (if star then [(T_Star, ''*'')] else expr_kinds argument) @
     [(T_RightParen, '')'')]"

subsection \<open>What the lexer reads\<close>

definition follows_expr :: "string \<Rightarrow> bool" where
  "follows_expr rest \<longleftrightarrow> rest = [] \<or> hd rest \<in> set '' ),;''"

lemma follows_expr_cases:
  assumes "follows_expr rest"
  shows "ends_word rest" "ends_number rest" "ends_string rest"
  using assms unfolding follows_expr_def ends_word_def ends_number_def ends_string_def
  by (auto simp: word_char_def is_alpha_def is_upper_def is_digit_def quote_def)

lemma reads_weaken: "reads w ks f \<Longrightarrow> (\<And>rest. g rest \<Longrightarrow> f rest) \<Longrightarrow> reads w ks g"
  by (auto simp: reads_def)

lemma reads_keyword:
  "w \<in> fst ` set keyword_table \<Longrightarrow> reads w [(KeywordType w, w)] ends_word"
  by (rule reads_word)
    (auto simp: keyword_table_def is_word_def word_char_def is_alpha_def is_upper_def is_digit_def LowerAscii_def)

definition ends_space :: "string \<Rightarrow> bool" where
  "ends_space rest \<longleftrightarrow> rest = [] \<or> hd rest = CHR '' ''"

lemma ends_space_cases: "ends_space rest \<Longrightarrow> ends_word rest \<and> ends_operator op rest"
  by (auto simp: ends_space_def ends_word_def ends_operator_def word_char_def is_alpha_def is_upper_def is_digit_def)

lemma reads_space_word: "w \<in> fst ` set keyword_table \<Longrightarrow> reads ('' '' @ w) [(KeywordType w, w)] ends_word"
  using reads_append[OF reads_space reads_keyword, of w] by simp

lemma keyword_types [simp]:
  "KeywordType ''and'' = T_And" "KeywordType ''or'' = T_Or" "KeywordType ''like'' = T_Like" "KeywordType ''not'' = T_Not"
  "KeywordType ''is'' = T_Is" "KeywordType ''null'' = T_Null" "KeywordType ''between'' = T_Between" "KeywordType ''in'' = T_In"
  "KeywordType ''true'' = T_True" "KeywordType ''false'' = T_False" "KeywordType ''select'' = T_Select"
  "KeywordType ''from'' = T_From" "KeywordType ''where'' = T_Where"
  by (simp_all add: KeywordType_def keyword_table_def)

lemma keyword_words [simp]:
  "''and'' \<in> fst ` set keyword_table" "''or'' \<in> fst ` set keyword_table" "''like'' \<in> fst ` set keyword_table"
  "''not'' \<in> fst ` set keyword_table" "''is'' \<in> fst ` set keyword_table" "''null'' \<in> fst ` set keyword_table"
  "''between'' \<in> fst ` set keyword_table" "''in'' \<in> fst ` set keyword_table" "''true'' \<in> fst ` set keyword_table"
  "''false'' \<in> fst ` set keyword_table" "''select'' \<in> fst ` set keyword_table" "''from'' \<in> fst ` set keyword_table"
  "''where'' \<in> fst ` set keyword_table"
  by (simp_all add: keyword_table_def)

lemma symbol_op_token: "op \<in> set symbol_ops \<Longrightarrow> map_of operators op = Some (the (map_of operators op)) \<and> op \<notin> set word_ops \<and> op \<noteq> ''not''"
  by (auto simp: symbol_ops_def word_ops_def operators_def)

lemma op_kinds_symbol: "op \<in> set symbol_ops \<Longrightarrow> op_kinds op = [(the (map_of operators op), op)]"
  using symbol_op_token by (auto simp: op_kinds_def word_ops_def)

lemma reads_op:
  assumes "op \<in> set symbol_ops \<union> set word_ops \<union> {''not''}"
  shows "reads op (op_kinds op) ends_space"
proof -
  have w: "reads w [(KeywordType w, w)] ends_space" if "w \<in> fst ` set keyword_table" for w
    by (rule reads_weaken[OF reads_keyword[OF that]]) (use ends_space_cases in blast)
  consider "op \<in> set symbol_ops" | "op = ''and''" | "op = ''or''" | "op = ''like''" | "op = ''not''" | "op = ''not like''"
    using assms by (auto simp: word_ops_def)
  then show ?thesis
  proof cases
    case 1
    then have "map_of operators op = Some (the (map_of operators op))" using symbol_op_token by blast
    from reads_weaken[OF reads_operator[OF this], of ends_space] show ?thesis
      using 1 ends_space_cases by (simp add: op_kinds_symbol)
  next
    case 6
    have "reads (''not'' @ '' like'') ([(T_Not, ''not'')] @ [(T_Like, ''like'')]) ends_space"
      using w[of "''like''"] reads_append[OF reads_space w[of "''like''"]] w[of "''not''"]
      by (intro reads_append[where f = ends_space]) (simp_all add: ends_space_def)
    then show ?thesis by (simp add: 6 op_kinds_def)
  qed (use w[of op] in \<open>simp_all add: op_kinds_def\<close>)
qed

lemma reads_parens: "reads ''('' [(T_LeftParen, ''('')] anything" "reads '')'' [(T_RightParen, '')'')] anything" "reads '','' [(T_Comma, '','')] anything"
  "reads ''.'' [(T_Dot, ''.'')] anything"
  by (rule reads_weaken[OF reads_operator]; simp add: operators_def ends_operator_def)+

lemma follows_heads [simp]: "follows_expr ('' '' @ rest)" "follows_expr ('')'' @ rest)" "follows_expr ('','' @ rest)"
  "ends_word ('' '' @ rest)" "ends_word ('')'' @ rest)" "ends_word (''.'' @ rest)" "ends_space ('' '' @ rest)" "ends_word (''('' @ rest)"
  by (simp_all add: follows_expr_def ends_word_def ends_space_def word_char_def is_alpha_def is_upper_def is_digit_def)

lemma digits_nat_to_string: "list_all is_digit (nat_to_string n) \<and> nat_to_string n \<noteq> []"
proof (induction n rule: nat_to_string.induct)
  case (1 n)
  have "of_char (char_of (48 + d) :: char) = 48 + d" if "d < 10" for d :: nat using that by (simp add: of_char_mod_256)
  then have "is_digit (char_of (48 + d))" if "d < 10" for d :: nat using that by (simp add: is_digit_def)
  then show ?case using 1 by (subst (1 2) nat_to_string.simps) (simp del: nat_to_string.simps)
qed

lemma is_number_int: "is_number (int_to_string i)"
  using digits_nat_to_string[of "nat (- i)"] digits_nat_to_string[of "nat i"]
  by (auto simp: is_number_def int_to_string_def neq_Nil_conv)

lemma is_name_reads: "is_name w \<Longrightarrow> reads w [(T_Identifier, w)] ends_word"
  using reads_word[of w w] by (simp add: is_name_def)

lemma aggregate_name: "is_name (AggregateName agg)"
  by (cases agg) (simp_all add: AggregateName_def is_name_def is_word_def word_char_def is_alpha_def is_upper_def is_digit_def LowerAscii_def
      KeywordType_def keyword_table_def)

text \<open>Putting texts together.\<close>

lemma reads_any: "reads v ks anything \<Longrightarrow> reads w ls g \<Longrightarrow> reads (v @ w) (ks @ ls) g"
  by (erule (1) reads_append) simp

lemma reads_then:
  "reads v ks follows_expr \<Longrightarrow> reads (c # w) ls g \<Longrightarrow> c \<in> set '' ),;'' \<Longrightarrow> reads (v @ c # w) (ks @ ls) g"
  "reads v ks ends_word \<Longrightarrow> reads (c # w) ls g \<Longrightarrow> \<not> word_char c \<Longrightarrow> reads (v @ c # w) (ks @ ls) g"
  "reads v ks ends_space \<Longrightarrow> reads (CHR '' '' # w) ls g \<Longrightarrow> reads (v @ CHR '' '' # w) (ks @ ls) g"
  by (erule (1) reads_append, simp add: follows_expr_def ends_word_def ends_space_def)+

lemma reads_Cons:
  "reads w ks g \<Longrightarrow> reads (CHR '' '' # w) ks g"
  "reads w ks g \<Longrightarrow> reads (CHR ''('' # w) ((T_LeftParen, ''('') # ks) g"
  "reads w ks g \<Longrightarrow> reads (CHR '')'' # w) ((T_RightParen, '')'') # ks) g"
  "reads w ks g \<Longrightarrow> reads (CHR '','' # w) ((T_Comma, '','') # ks) g"
  "reads w ks g \<Longrightarrow> reads (CHR ''.'' # w) ((T_Dot, ''.'') # ks) g"
  using reads_any[OF reads_space] reads_any[OF reads_parens(1)] reads_any[OF reads_parens(2)] reads_any[OF reads_parens(3)]
    reads_any[OF reads_parens(4)]
  by simp_all

lemma reads_Nil: "reads [] [] g"
  by (auto simp: reads_def map_sum_id split: sum.splits)

lemma keyword_then:
  "w \<in> fst ` set keyword_table \<Longrightarrow> reads (CHR '' '' # v) ks g \<Longrightarrow> reads (w @ CHR '' '' # v) ((KeywordType w, w) # ks) g"
  "w \<in> fst ` set keyword_table \<Longrightarrow> reads (CHR '')'' # v) ks g \<Longrightarrow> reads (w @ CHR '')'' # v) ((KeywordType w, w) # ks) g"
  "w \<in> fst ` set keyword_table \<Longrightarrow> reads (CHR ''('' # v) ks g \<Longrightarrow> reads (w @ CHR ''('' # v) ((KeywordType w, w) # ks) g"
  using reads_then(2)[OF reads_keyword]
  by (simp_all add: word_char_def is_alpha_def is_upper_def is_digit_def)

lemma reads_comma_list:
  assumes "\<And>x. x \<in> set xs \<Longrightarrow> reads (f x) (g x) follows_expr" "xs \<noteq> []"
  shows "reads (join_with '', '' (map f xs)) (comma_kinds (map g xs)) follows_expr"
  using assms
proof (induction xs rule: induct_list012)
  case (3 x y zs)
  have "reads (f x @ CHR '','' # CHR '' '' # join_with '', '' (map f (y # zs))) (g x @ (T_Comma, '','') # comma_kinds (map g (y # zs))) follows_expr"
    using 3 by (intro reads_then(1) reads_Cons) auto
  then show ?case by simp
qed simp_all

lemma reads_literal:
  assumes "printable (E_Literal k i t)"
  shows "reads (CompileExprText (E_Literal k i t)) (expr_kinds (E_Literal k i t)) follows_expr"
proof (cases k)
  case LK_Int
  then show ?thesis using reads_weaken[OF reads_number[OF is_number_int]] follows_expr_cases by simp
next
  case LK_String
  then show ?thesis using assms reads_weaken[OF reads_string[of t]] follows_expr_cases by (simp add: quoted_def)
next
  case LK_Bool
  have "reads t [(KeywordType t, t)] follows_expr"
    using assms LK_Bool by (intro reads_weaken[OF reads_keyword] follows_expr_cases) auto
  then show ?thesis using assms LK_Bool by auto
next
  case LK_Null
  have "reads ''NULL'' [(KeywordType ''null'', ''null'')] follows_expr"
    by (intro reads_weaken[OF reads_word] follows_expr_cases)
      (simp_all add: is_word_def word_char_def is_alpha_def is_upper_def is_digit_def LowerAscii_def char_of_def bit_0)
  then show ?thesis using LK_Null by simp
qed

lemma reads_column:
  assumes "printable (E_Column table name)"
  shows "reads (CompileExprText (E_Column table name)) (expr_kinds (E_Column table name)) follows_expr"
proof (cases "table = []")
  case True
  then show ?thesis using assms reads_weaken[OF is_name_reads] follows_expr_cases by simp
next
  case False
  have n: "reads name [(T_Identifier, name)] follows_expr" using assms reads_weaken[OF is_name_reads] follows_expr_cases by simp
  have "reads (table @ CHR ''.'' # name) ([(T_Identifier, table)] @ (T_Dot, ''.'') # [(T_Identifier, name)]) follows_expr"
    using assms False by (intro reads_then(2) is_name_reads reads_Cons n)
      (simp_all add: word_char_def is_alpha_def is_upper_def is_digit_def)
  then show ?thesis using False by simp
qed

lemma reads_suffixes:
  "reads '' is null)'' [(T_Is, ''is''), (T_Null, ''null''), (T_RightParen, '')'')] g"
  "reads '' is not null)'' [(T_Is, ''is''), (T_Not, ''not''), (T_Null, ''null''), (T_RightParen, '')'')] g"
  "reads w ks g \<Longrightarrow> reads (''between '' @ w) ((T_Between, ''between'') # ks) g"
  "reads w ks g \<Longrightarrow> reads (''not between '' @ w) ((T_Not, ''not'') # (T_Between, ''between'') # ks) g"
  "reads w ks g \<Longrightarrow> reads ('' and '' @ w) ((T_And, ''and'') # ks) g"
  "reads w ks g \<Longrightarrow> reads (''in ('' @ w) ((T_In, ''in'') # (T_LeftParen, ''('') # ks) g"
  "reads w ks g \<Longrightarrow> reads (''not in ('' @ w) ((T_Not, ''not'') # (T_In, ''in'') # (T_LeftParen, ''('') # ks) g"
proof -
  show "reads '' is null)'' [(T_Is, ''is''), (T_Null, ''null''), (T_RightParen, '')'')] g"
    using reads_Cons(1)[OF keyword_then(1)[of "''is''", OF _ reads_Cons(1)[OF keyword_then(2)[of "''null''", OF _ reads_Cons(3)[OF reads_Nil]]]]] by simp
  show "reads '' is not null)'' [(T_Is, ''is''), (T_Not, ''not''), (T_Null, ''null''), (T_RightParen, '')'')] g"
    using reads_Cons(1)[OF keyword_then(1)[of "''is''", OF _ reads_Cons(1)[OF keyword_then(1)[of "''not''",
      OF _ reads_Cons(1)[OF keyword_then(2)[of "''null''", OF _ reads_Cons(3)[OF reads_Nil]]]]]]] by simp
  assume w: "reads w ks g"
  show "reads (''between '' @ w) ((T_Between, ''between'') # ks) g"
    using keyword_then(1)[of "''between''", OF _ reads_Cons(1)[OF w]] by simp
  show "reads (''not between '' @ w) ((T_Not, ''not'') # (T_Between, ''between'') # ks) g"
    using keyword_then(1)[of "''not''", OF _ reads_Cons(1)[OF keyword_then(1)[of "''between''", OF _ reads_Cons(1)[OF w]]]] by simp
  show "reads ('' and '' @ w) ((T_And, ''and'') # ks) g"
    using reads_Cons(1)[OF keyword_then(1)[of "''and''", OF _ reads_Cons(1)[OF w]]] by simp
  show "reads (''in ('' @ w) ((T_In, ''in'') # (T_LeftParen, ''('') # ks) g"
    using keyword_then(1)[of "''in''", OF _ reads_Cons(1)[OF reads_Cons(2)[OF w]]] by simp
  show "reads (''not in ('' @ w) ((T_Not, ''not'') # (T_In, ''in'') # (T_LeftParen, ''('') # ks) g"
    using keyword_then(1)[of "''not''", OF _ reads_Cons(1)[OF keyword_then(1)[of "''in''", OF _ reads_Cons(1)[OF reads_Cons(2)[OF w]]]]] by simp
qed

lemma reads_expr: "printable e \<Longrightarrow> reads (CompileExprText e) (expr_kinds e) follows_expr"
proof (induction e rule: expr_kinds.induct)
  case (4 op left right)
  have o: "reads op (op_kinds op) ends_space" by (rule reads_op) (use 4 in auto)
  have "reads (CHR ''('' # CompileExprText left @ CHR '' '' # op @ CHR '' '' # CompileExprText right @ '')'')
      ((T_LeftParen, ''('') # expr_kinds left @ op_kinds op @ expr_kinds right @ [(T_RightParen, '')'')]) follows_expr"
    using 4 o by (intro reads_Cons reads_then reads_Nil) auto
  then show ?case by simp
next
  case (5 op operand)
  have o: "reads op (op_kinds op) ends_space" by (rule reads_op) (use 5 in \<open>auto simp: symbol_ops_def\<close>)
  have "reads (CHR ''('' # op @ CHR '' '' # CompileExprText operand @ '')'')
      ((T_LeftParen, ''('') # op_kinds op @ expr_kinds operand @ [(T_RightParen, '')'')]) follows_expr"
    using 5 o by (intro reads_Cons reads_then reads_Nil) auto
  then show ?case by simp
next
  case (6 operand negated)
  then show ?case
    using reads_Cons(2)[OF reads_then(1)[OF _ reads_suffixes(1)]] reads_Cons(2)[OF reads_then(1)[OF _ reads_suffixes(2)]] by simp
next
  case (7 operand lower upper negated)
  let ?u = "'' and '' @ CompileExprText upper @ '')''" and ?k = "(T_And, ''and'') # expr_kinds upper @ [(T_RightParen, '')'')]"
  have u: "reads ?u ?k follows_expr" using 7 by (intro reads_suffixes(5) reads_then reads_Cons reads_Nil) auto
  have l: "reads (CompileExprText lower @ ?u) (expr_kinds lower @ ?k) follows_expr"
    using 7 u reads_then(1)[of "CompileExprText lower" "expr_kinds lower" "CHR '' ''"] by simp
  have "reads ((if negated then ''not between '' else ''between '') @ CompileExprText lower @ ?u)
      (not_kinds negated @ (T_Between, ''between'') # expr_kinds lower @ ?k) follows_expr"
    using reads_suffixes(3)[OF l] reads_suffixes(4)[OF l] by simp
  from reads_Cons(2)[OF reads_then(1)[OF _ reads_Cons(1)[OF this]]] show ?case using 7 by simp
next
  case (8 operand options negated)
  let ?o = "join_with '', '' (map CompileExprText options) @ ''))''"
    and ?k = "comma_kinds (map expr_kinds options) @ [(T_RightParen, '')''), (T_RightParen, '')'')]"
  have "reads (join_with '', '' (map CompileExprText options)) (comma_kinds (map expr_kinds options)) follows_expr"
    using 8 by (intro reads_comma_list) (auto simp: list_all_iff)
  then have o: "reads ?o ?k follows_expr" by (intro reads_then reads_Cons reads_Nil) auto
  have "reads ((if negated then ''not in ('' else ''in ('') @ ?o) (not_kinds negated @ (T_In, ''in'') # (T_LeftParen, ''('') # ?k) follows_expr"
    using reads_suffixes(6)[OF o] reads_suffixes(7)[OF o] by simp
  from reads_Cons(2)[OF reads_then(1)[OF _ reads_Cons(1)[OF this]]] show ?case using 8 by simp
next
  case (10 agg star argument)
  have star: "reads ''*)'' [(T_Star, ''*''), (T_RightParen, '')'')] follows_expr"
    using reads_append[OF reads_operator[of "''*''"] reads_Cons(3)[OF reads_Nil], of T_Star] by (simp add: operators_def ends_operator_def)
  have "reads ((if star then ''*'' else CompileExprText argument) @ '')'')
      ((if star then [(T_Star, ''*'')] else expr_kinds argument) @ [(T_RightParen, '')'')]) follows_expr"
  proof (cases star)
    case False then show ?thesis using 10 by (simp add: reads_then(1)[OF _ reads_Cons(3)[OF reads_Nil]])
  qed (simp add: star)
  from reads_then(2)[OF is_name_reads[OF aggregate_name] reads_Cons(2)[OF this]] show ?case
    by (simp add: word_char_def is_alpha_def is_upper_def is_digit_def)
qed (simp_all del: CompileExprText.simps expr_kinds.simps printable.simps add: reads_column reads_literal, simp_all)

subsection \<open>What the parser reads\<close>

text \<open>The tokens \<open>ts\<close> begin with tokens of the kinds \<open>ks\<close>, and \<open>rest\<close> is left.\<close>

fun begins :: "Token list \<Rightarrow> (TokenType \<times> string) list \<Rightarrow> Token list \<Rightarrow> bool" where
  "begins ts [] rest = (ts = rest)"
| "begins ts (k # ks) rest = (case ts of [] \<Rightarrow> False | t # us \<Rightarrow> kind t = k \<and> begins us ks rest)"

lemma begins_append: "begins ts (ks @ ls) rest \<longleftrightarrow> (\<exists>us. begins ts ks us \<and> begins us ls rest)"
  by (induction ts ks rest rule: begins.induct) (auto split: list.splits)

lemma begins_Cons: "begins ts ((ty, lx) # ks) rest \<longleftrightarrow> (\<exists>t us. ts = t # us \<and> tok_type t = ty \<and> lexeme t = lx \<and> begins us ks rest)"
  by (auto split: list.splits)

declare begins.simps(2) [simp del] begins_Cons [simp]

lemma begins_map: "map kind ts = ks @ ls \<Longrightarrow> \<exists>us. begins ts ks us \<and> map kind us = ls"
  by (induction ks arbitrary: ts) (auto simp: Cons_eq_map_conv)

lemma PeekAt_Cons [simp]: "PeekAt 0 (t # ts) = tok_type t" "PeekAt (Suc n) (t # ts) = PeekAt n ts" "PeekAt n [] = T_EndOfFile"
  by (simp_all add: PeekAt_def)

lemma parse_steps [simp]:
  "pbind (preturn x) f ts = f x ts"
  "pbind PeekType h ts = h (PeekAt 0 ts) ts"
  "pbind (Expect ty) k (t # ts) = (if tok_type t = ty then k t ts else Some (Inl InvalidArgument))"
  "pbind (Match ty) g ts = (if PeekAt 0 ts = ty then g True (tl ts) else g False ts)"
  by (simp_all add: pbind_def preturn_def PeekType_def Expect_def Match_def pfail_def)

lemma pbind_returns: "m ts = Some (Inr (x, rest)) \<Longrightarrow> pbind m f ts = f x rest"
  by (simp add: pbind_def)

abbreviation primary_start :: "TokenType set" where
  "primary_start \<equiv> {T_Identifier, T_Integer, T_String, T_True, T_False, T_Null, T_LeftParen}"

lemma begins_expr_start:
  "printable e \<Longrightarrow> begins ts (expr_kinds e) rest \<Longrightarrow> PeekAt 0 ts \<in> primary_start"
  by (cases e) (auto simp: begins_append split: if_splits CompileLiteralKind.splits)

text \<open>A level returns what the level below it returned when no operator of its own follows.\<close>

lemma operator_level_stops:
  "operand ts = Some (Inr (x, rest)) \<Longrightarrow> \<not> is_op (PeekAt 0 rest) \<Longrightarrow> operator_level is_op f operand ts = Some (Inr (x, rest))"
  by (simp add: operator_level_def pbind_returns preturn_def)

lemma operator_level_applies:
  assumes "operand ts = Some (Inr (x, t # us))" "is_op (tok_type t)" "operand us = Some (Inr (y, rest))" "\<not> is_op (PeekAt 0 rest)"
  shows "operator_level is_op f operand ts = Some (Inr (E_Binary (f t) x y, rest))"
  using assms by (simp add: operator_level_def pbind_returns[where m = operand, OF assms(1)] pbind_returns[where m = operand, OF assms(3)] preturn_def)

lemma prefix_level_passes: "ts \<noteq> [] \<Longrightarrow> PeekAt 0 ts \<noteq> ty \<Longrightarrow> prefix_level ty op below ts = below ts"
  by (cases ts) simp_all

text \<open>The tokens at which every level stops, and what may follow an operand of each level.\<close>

abbreviation stops_multiplicative :: "TokenType \<Rightarrow> bool" where
  "stops_multiplicative ty \<equiv> \<not> IsMultiplicativeType ty"

abbreviation stops_additive :: "TokenType \<Rightarrow> bool" where
  "stops_additive ty \<equiv> stops_multiplicative ty \<and> \<not> IsAdditiveType ty"

abbreviation stops_comparison :: "TokenType \<Rightarrow> bool" where
  "stops_comparison ty \<equiv> stops_additive ty \<and> \<not> IsComparisonType ty \<and> ty \<notin> {T_Is, T_Not, T_Between, T_In, T_Like}"

lemma additive_of:
  "ParseCompileMultiplicative expr select ts = Some (Inr (e, rest)) \<Longrightarrow> \<not> IsAdditiveType (PeekAt 0 rest) \<Longrightarrow>
   ParseCompileAdditive expr select ts = Some (Inr (e, rest))"
  by (simp add: ParseCompileAdditive_def operator_level_stops)

lemma comparison_of:
  assumes "ParseCompileAdditive expr select ts = Some (Inr (e, rest))" "stops_comparison (PeekAt 0 rest)"
  shows "ParseCompileComparison expr select ts = Some (Inr (e, rest))"
  using assms
  by (simp add: ParseCompileComparison_def Let_def pbind_returns comparison_operator_def preturn_def pbind_def[of match_negation]
      match_negation_def)

lemma levels:
  assumes "ParseCompilePrimary expr select ts = Some (Inr (e, rest))" "PeekAt 0 ts \<in> primary_start"
  shows levels_unary: "ParseCompileUnary expr select ts = Some (Inr (e, rest))"
    and levels_multiplicative: "stops_multiplicative (PeekAt 0 rest) \<Longrightarrow> ParseCompileMultiplicative expr select ts = Some (Inr (e, rest))"
    and levels_additive: "stops_additive (PeekAt 0 rest) \<Longrightarrow> ParseCompileAdditive expr select ts = Some (Inr (e, rest))"
    and levels_comparison: "stops_comparison (PeekAt 0 rest) \<Longrightarrow> ParseCompileComparison expr select ts = Some (Inr (e, rest))"
proof -
  have ne: "ts \<noteq> []" using assms(2) by auto
  show u: "ParseCompileUnary expr select ts = Some (Inr (e, rest))"
    using assms ne by (auto simp: ParseCompileUnary_def prefix_level_passes)
  show m: "ParseCompileMultiplicative expr select ts = Some (Inr (e, rest))" if "stops_multiplicative (PeekAt 0 rest)"
    using u that by (simp add: ParseCompileMultiplicative_def operator_level_stops)
  show "ParseCompileAdditive expr select ts = Some (Inr (e, rest))" if "stops_additive (PeekAt 0 rest)"
    using m that additive_of by blast
  then show "ParseCompileComparison expr select ts = Some (Inr (e, rest))" if "stops_comparison (PeekAt 0 rest)"
    using that comparison_of by blast
qed

text \<open>From the levels of NOT and of comparisons to a whole expression.\<close>

lemma not_whole:
  assumes "ParseCompileNot expr select ts = Some (Inr (e, rest))" "PeekAt 0 rest \<notin> {T_And, T_Or}"
  shows "ParseCompileOr expr select ts = Some (Inr (e, rest))"
  using assms by (simp add: ParseCompileOr_def ParseCompileAnd_def operator_level_stops)

lemma not_of:
  "ParseCompileComparison expr select ts = Some (Inr (e, rest)) \<Longrightarrow> PeekAt 0 ts \<noteq> T_Not \<Longrightarrow> ts \<noteq> [] \<Longrightarrow>
   ParseCompileNot expr select ts = Some (Inr (e, rest))"
  by (simp add: ParseCompileNot_def prefix_level_passes)

lemma comparison_whole:
  "ParseCompileComparison expr select ts = Some (Inr (e, rest)) \<Longrightarrow> PeekAt 0 ts \<in> primary_start \<Longrightarrow> PeekAt 0 rest \<notin> {T_And, T_Or} \<Longrightarrow>
   ParseCompileOr expr select ts = Some (Inr (e, rest))"
  by (rule not_whole[OF not_of]) auto

text \<open>The operators, each at its level, before a token at which every level stops.\<close>

abbreviation closes :: "TokenType \<Rightarrow> bool" where
  "closes ty \<equiv> stops_comparison ty \<and> ty \<notin> {T_And, T_Or, T_Dot, T_LeftParen}"

lemma level_sets [simp]:
  "IsMultiplicativeType ty \<longleftrightarrow> ty = T_Star \<or> ty = T_Slash" "IsAdditiveType ty \<longleftrightarrow> ty = T_Plus \<or> ty = T_Minus"
  "IsComparisonType ty \<longleftrightarrow> ty \<in> {T_Equal, T_NotEqual, T_Greater, T_GreaterEqual, T_Less, T_LessEqual}"
  by (auto simp: IsMultiplicativeType_def IsAdditiveType_def IsComparisonType_def)

lemma symbol_op_type:
  "op \<in> set symbol_ops \<Longrightarrow> the (map_of operators op) \<in>
     {T_Plus, T_Minus, T_Star, T_Slash, T_Equal, T_NotEqual, T_Greater, T_GreaterEqual, T_Less, T_LessEqual}"
  by (auto simp: symbol_ops_def operators_def)

lemma binary_whole:
  assumes "ParseCompilePrimary expr select ts = Some (Inr (l, us))" "PeekAt 0 ts \<in> primary_start"
    and "begins us (op_kinds op) vs" "op \<in> set symbol_ops \<union> set word_ops"
    and "ParseCompilePrimary expr select vs = Some (Inr (r, rest))" "PeekAt 0 vs \<in> primary_start" "closes (PeekAt 0 rest)"
  shows "ParseCompileOr expr select ts = Some (Inr (E_Binary op l r, rest))"
proof -
  note L = levels[OF assms(1,2)] and R = levels[OF assms(5,6)]
  have vs: "vs \<noteq> []" "PeekAt 0 vs \<noteq> T_Not" using assms(6) by auto
  have ts: "ts \<noteq> []" "PeekAt 0 ts \<noteq> T_Not" using assms(2) by auto
  have close: "PeekAt 0 rest \<notin> {T_And, T_Or}" using assms(7) by auto
  consider (symbol) t where "us = t # vs" "tok_type t = the (map_of operators op)" "lexeme t = op" "op \<in> set symbol_ops"
    | (and_op) t where "us = t # vs" "tok_type t = T_And" "op = ''and''"
    | (or_op) t where "us = t # vs" "tok_type t = T_Or" "op = ''or''"
    | (like) t where "us = t # vs" "tok_type t = T_Like" "op = ''like''"
    | (not_like) t u where "us = t # u # vs" "tok_type t = T_Not" "tok_type u = T_Like" "op = ''not like''"
  proof (cases "op \<in> set symbol_ops")
    case True
    then show ?thesis using assms(3) symbol by (auto simp: op_kinds_symbol)
  next
    case False
    then show ?thesis using assms(3,4) that(2-5) by (auto simp: word_ops_def op_kinds_def)
  qed
  then show ?thesis
  proof cases
    case symbol
    from symbol_op_type[OF symbol(4)] consider (mul) "tok_type t \<in> {T_Star, T_Slash}" | (add) "tok_type t \<in> {T_Plus, T_Minus}"
      | (cmp) "IsComparisonType (tok_type t)" using symbol(2) by auto
    then show ?thesis
    proof cases
      case mul
      have "ParseCompileMultiplicative expr select ts = Some (Inr (E_Binary op l r, rest))"
        unfolding ParseCompileMultiplicative_def
        using operator_level_applies[of "ParseCompileUnary expr select" ts l t vs IsMultiplicativeType r rest lexeme] L(1) R(1) symbol mul assms(7) by auto
      then show ?thesis using additive_of comparison_of comparison_whole assms(2,7) by auto
    next
      case add
      have "ParseCompileAdditive expr select ts = Some (Inr (E_Binary op l r, rest))"
        unfolding ParseCompileAdditive_def
        using operator_level_applies[of "ParseCompileMultiplicative expr select" ts l t vs IsAdditiveType r rest lexeme] L(2) R(2) symbol add assms(7) by auto
      then show ?thesis using comparison_of comparison_whole assms(2,7) by auto
    next
      case cmp
      have "ParseCompileAdditive expr select ts = Some (Inr (l, t # vs))" "ParseCompileAdditive expr select vs = Some (Inr (r, rest))"
        using L(3) R(3) cmp symbol(1) assms(7) by auto
      then have "ParseCompileComparison expr select ts = Some (Inr (E_Binary op l r, rest))"
        using cmp assms(7) symbol(3)
        by (auto simp: ParseCompileComparison_def Let_def pbind_returns[where m = "ParseCompileAdditive expr select"] comparison_operator_def
            pbind_def[of "pbind PeekType _"] pbind_def[of match_negation] match_negation_def symbol(1) preturn_def)
      then show ?thesis using comparison_whole assms(2) close by blast
    qed
  next
    case and_op
    have "ParseCompileNot expr select ts = Some (Inr (l, t # vs))" "ParseCompileNot expr select vs = Some (Inr (r, rest))"
      using not_of L(4) R(4) and_op ts vs assms(7) by auto
    then have "ParseCompileAnd expr select ts = Some (Inr (E_Binary ''and'' l r, rest))"
      unfolding ParseCompileAnd_def using and_op close
        operator_level_applies[of "ParseCompileNot expr select" ts l t vs "\<lambda>ty. ty = T_And" r rest "\<lambda>_. ''and''"] by simp
    then show ?thesis using and_op close by (simp add: ParseCompileOr_def operator_level_stops)
  next
    case or_op
    have "ParseCompileAnd expr select ts = Some (Inr (l, t # vs))" "ParseCompileAnd expr select vs = Some (Inr (r, rest))"
      using not_of L(4) R(4) or_op ts vs assms(7) close by (auto simp: ParseCompileAnd_def operator_level_stops)
    then show ?thesis
      unfolding ParseCompileOr_def using or_op close
        operator_level_applies[of "ParseCompileAnd expr select" ts l t vs "\<lambda>ty. ty = T_Or" r rest "\<lambda>_. ''or''"] by simp
  next
    case like
    have "ParseCompileAdditive expr select ts = Some (Inr (l, t # vs))" "ParseCompileAdditive expr select vs = Some (Inr (r, rest))"
      using L(3) R(3) like assms(7) by auto
    then have "ParseCompileComparison expr select ts = Some (Inr (E_Binary op l r, rest))"
      using like by (simp add: ParseCompileComparison_def Let_def pbind_returns comparison_operator_def
          pbind_def[of match_negation] match_negation_def preturn_def)
    then show ?thesis using comparison_whole assms(2) close by blast
  next
    case not_like
    have "ParseCompileAdditive expr select ts = Some (Inr (l, t # u # vs))" "ParseCompileAdditive expr select vs = Some (Inr (r, rest))"
      using L(3) R(3) not_like assms(7) by auto
    then have "ParseCompileComparison expr select ts = Some (Inr (E_Binary op l r, rest))"
      using not_like by (simp add: ParseCompileComparison_def Let_def pbind_returns comparison_operator_def
          pbind_def[of match_negation] match_negation_def preturn_def)
    then show ?thesis using comparison_whole assms(2) close by blast
  qed
qed

subsection \<open>Numbers\<close>

lemma digits_value_append: "digits_value (ds @ [c]) = digits_value ds * 10 + (of_char c - 48)"
  by (simp add: digits_value_def)

lemma digits_value_nat: "digits_value (nat_to_string n) = n"
proof (induction n rule: nat_to_string.induct)
  case (1 n)
  have d: "of_char (char_of (48 + d) :: char) - 48 = d" if "d < 10" for d :: nat using that by (simp add: of_char_mod_256)
  show ?case
  proof (cases "n < 10")
    case True then show ?thesis using d[of n] by (subst nat_to_string.simps) (simp add: digits_value_def)
  next
    case False
    then show ?thesis using 1 d[of "n mod 10"] by (subst nat_to_string.simps) (simp add: digits_value_append)
  qed
qed

lemma from_chars_int: "from_chars_i64 (int_to_string (sint i)) = Some i"
proof -
  have b: "- (2 ^ 63) \<le> sint i" "sint i < 2 ^ 63" using sint_greater_eq[of i] sint_less[of i] by simp_all
  have h: "hd (nat_to_string n) \<noteq> CHR ''-''" for n using digits_nat_to_string[of n] by (cases "nat_to_string n") (auto simp: is_digit_def)
  have d: "list_all is_digit (nat_to_string n)" "nat_to_string n \<noteq> []" for n using digits_nat_to_string[of n] by auto
  show ?thesis
  proof (cases "sint i < 0")
    case True
    then show ?thesis using b d by (simp add: from_chars_i64_def int_to_string_def Let_def digits_value_nat int64_min_def int64_max_def)
  next
    case False
    then show ?thesis using b d h by (simp add: from_chars_i64_def int_to_string_def Let_def digits_value_nat int64_min_def int64_max_def)
  qed
qed

subsection \<open>The other forms\<close>

lemma unary_whole:
  assumes "begins ts (op_kinds op) us" "op \<in> {''-'', ''not''}"
    and "ParseCompilePrimary expr select us = Some (Inr (e, rest))" "PeekAt 0 us \<in> primary_start" "closes (PeekAt 0 rest)"
  shows "ParseCompileOr expr select ts = Some (Inr (E_Unary op e, rest))"
proof -
  note L = levels[OF assms(3,4)]
  have us: "us \<noteq> []" "PeekAt 0 us \<noteq> T_Not" using assms(4) by auto
  consider (minus) t where "ts = t # us" "tok_type t = T_Minus" "op = ''-''" | (negation) t where "ts = t # us" "tok_type t = T_Not" "op = ''not''"
    using assms(1,2) by (auto simp: op_kinds_def operators_def)
  then show ?thesis
  proof cases
    case minus
    have "ParseCompileUnary expr select ts = Some (Inr (E_Unary op e, rest))"
      using L(1) minus by (simp add: ParseCompileUnary_def pmap_def)
    then have "ParseCompileAdditive expr select ts = Some (Inr (E_Unary op e, rest))"
      using assms(5) by (auto simp: ParseCompileAdditive_def ParseCompileMultiplicative_def operator_level_stops)
    then have "ParseCompileComparison expr select ts = Some (Inr (E_Unary op e, rest))" using comparison_of assms(5) by blast
    then show ?thesis using not_whole[OF not_of] minus assms(5) by auto
  next
    case negation
    have "ParseCompileNot expr select us = Some (Inr (e, rest))" using not_of[OF L(4)] us assms(5) by blast
    then have "ParseCompileNot expr select ts = Some (Inr (E_Unary op e, rest))"
      using negation by (simp add: ParseCompileNot_def pmap_def)
    then show ?thesis using not_whole assms(5) by blast
  qed
qed

lemma comparison_first:
  assumes "ParseCompileAdditive expr select ts = Some (Inr (e, us))" "\<not> IsComparisonType (PeekAt 0 us)" "PeekAt 0 us \<noteq> T_Is"
    and "begins us (not_kinds negated @ [(ty, w)]) vs" "ty \<in> {T_Between, T_In, T_Like}"
  shows "ParseCompileComparison expr select ts =
    (if ty = T_Between then
       pbind (ParseCompileAdditive expr select) (\<lambda>lower. pbind (Expect T_And) (\<lambda>_.
         pbind (ParseCompileAdditive expr select) (\<lambda>upper. preturn (E_Between e lower upper negated)))) vs
     else if ty = T_In then in_list expr select negated e vs
     else pbind (ParseCompileAdditive expr select)
       (\<lambda>right. preturn (E_Binary (if negated then ''not like'' else ''like'') e right)) vs)"
proof -
  obtain t where t: "tok_type t = ty" "if negated then \<exists>n. us = n # t # vs \<and> tok_type n = T_Not else us = t # vs"
    using assms(4) by (auto split: if_splits)
  have m: "match_negation us = Some (Inr (negated, t # vs))"
    using t assms(5) by (cases negated) (auto simp: match_negation_def preturn_def)
  have ops: "comparison_operator (ParseCompileAdditive expr select) e us = Some (Inr (e, us))"
    using assms(2) by (simp add: comparison_operator_def preturn_def)
  show ?thesis
    unfolding ParseCompileComparison_def Let_def pbind_returns[where m = "ParseCompileAdditive expr select", OF assms(1)]
      pbind_returns[where m = "comparison_operator _ _", OF ops]
    using assms(3,5) t(1) by (auto simp add: pbind_returns[where m = match_negation, OF m])
qed

lemma comparison_is_null:
  assumes "ParseCompileAdditive expr select ts = Some (Inr (e, us))"
    and "begins us ([(T_Is, ''is'')] @ not_kinds negated @ [(T_Null, ''null'')]) rest"
  shows "ParseCompileComparison expr select ts = Some (Inr (E_IsNull e negated, rest))"
proof -
  have ops: "comparison_operator (ParseCompileAdditive expr select) e us = Some (Inr (e, us))"
    using assms(2) by (auto simp: comparison_operator_def preturn_def)
  show ?thesis
    unfolding ParseCompileComparison_def Let_def pbind_returns[where m = "ParseCompileAdditive expr select", OF assms(1)]
      pbind_returns[where m = "comparison_operator _ _", OF ops]
    using assms(2) by (auto simp: preturn_def split: if_splits)
qed

lemma is_null_whole:
  assumes "ParseCompilePrimary expr select ts = Some (Inr (e, us))" "PeekAt 0 ts \<in> primary_start"
    and "begins us ([(T_Is, ''is'')] @ not_kinds negated @ [(T_Null, ''null'')]) rest" "PeekAt 0 rest \<notin> {T_And, T_Or}"
  shows "ParseCompileOr expr select ts = Some (Inr (E_IsNull e negated, rest))"
proof -
  have t: "PeekAt 0 us = T_Is" using assms(3) by auto
  then have "ParseCompileAdditive expr select ts = Some (Inr (e, us))" by (intro levels_additive[OF assms(1,2)]) simp
  from comparison_is_null[OF this assms(3)] show ?thesis using comparison_whole assms(2,4) by simp
qed

lemma between_whole:
  assumes "ParseCompilePrimary expr select ts = Some (Inr (e, us))" "PeekAt 0 ts \<in> primary_start"
    and "begins us (not_kinds negated @ [(T_Between, ''between'')]) vs"
    and "ParseCompilePrimary expr select vs = Some (Inr (l, a # ws))" "PeekAt 0 vs \<in> primary_start" "tok_type a = T_And"
    and "ParseCompilePrimary expr select ws = Some (Inr (u, rest))" "PeekAt 0 ws \<in> primary_start" "closes (PeekAt 0 rest)"
  shows "ParseCompileOr expr select ts = Some (Inr (E_Between e l u negated, rest))"
proof -
  have t: "PeekAt 0 us \<in> {T_Not, T_Between}" using assms(3) by (auto split: if_splits)
  then have e: "ParseCompileAdditive expr select ts = Some (Inr (e, us))" by (intro levels_additive[OF assms(1,2)]) auto
  have l: "ParseCompileAdditive expr select vs = Some (Inr (l, a # ws))" by (rule levels_additive[OF assms(4,5)]) (simp add: assms(6))
  have u: "ParseCompileAdditive expr select ws = Some (Inr (u, rest))" by (rule levels_additive[OF assms(7,8)]) (use assms(9) in simp)
  have "\<not> IsComparisonType (PeekAt 0 us)" "PeekAt 0 us \<noteq> T_Is" using t by auto
  from comparison_first[OF e this assms(3)]
  have "ParseCompileComparison expr select ts = Some (Inr (E_Between e l u negated, rest))"
    using assms(6) by (simp add: pbind_returns[where m = "ParseCompileAdditive expr select", OF l]
        pbind_returns[where m = "ParseCompileAdditive expr select", OF u] preturn_def)
  then show ?thesis using comparison_whole assms(2,9) by auto
qed

text \<open>The options of IN.\<close>

lemma comma_loop_reads:
  assumes "\<And>x ts rest. x \<in> set xs \<Longrightarrow> begins ts (f x) rest \<Longrightarrow> PeekAt 0 rest \<in> {T_Comma, T_RightParen} \<Longrightarrow> p ts = Some (Inr (x, rest))"
  shows "xs \<noteq> [] \<Longrightarrow> begins ts (comma_kinds (map f xs)) rest \<Longrightarrow> PeekAt 0 rest = T_RightParen \<Longrightarrow> length xs \<le> n \<Longrightarrow>
    comma_loop n p ts = Some (Inr (xs, rest))"
  using assms
proof (induction xs arbitrary: ts n rule: induct_list012)
  case (2 x)
  then obtain m where n: "n = Suc m" by (cases n) auto
  have "p ts = Some (Inr (x, rest))" using 2 by auto
  then show ?case using 2 by (simp add: n pbind_returns[where m = p] preturn_def)
next
  case (3 x y zs)
  then obtain m where n: "n = Suc m" by (cases n) auto
  obtain us c vs where s: "begins ts (f x) us" "us = c # vs" "tok_type c = T_Comma" "begins vs (comma_kinds (map f (y # zs))) rest"
    using 3(4) by (auto simp: begins_append)
  have "comma_loop m p vs = Some (Inr (y # zs, rest))" using 3 s n by (intro 3(2)) auto
  moreover have "p ts = Some (Inr (x, us))" using 3(7) s by auto
  ultimately show ?case using s by (simp add: n pbind_returns[where m = p] pbind_returns[where m = "comma_loop m p"] preturn_def)
qed simp

subsection \<open>A whole expression\<close>

lemma parens_primary:
  assumes "ts = p # us" "tok_type p = T_LeftParen" "PeekAt 0 us \<noteq> T_Select"
    and "ParseCompileExpr n us = Some (Inr (e, r # rest))" "tok_type r = T_RightParen"
  shows "ParseCompilePrimary (ParseCompileExpr n) (ParseSelect n) ts = Some (Inr (e, rest))"
  using assms by (simp add: ParseCompilePrimary_def Let_def pbind_returns[where m = "ParseCompileExpr n", OF assms(4)] preturn_def)

lemma in_list_reads:
  assumes "xs \<noteq> []" "begins ts ((T_LeftParen, ''('') # comma_kinds (map f xs) @ [(T_RightParen, '')'')]) rest"
    and "\<And>x ts rest. x \<in> set xs \<Longrightarrow> begins ts (f x) rest \<Longrightarrow> PeekAt 0 rest \<in> {T_Comma, T_RightParen} \<Longrightarrow> expr ts = Some (Inr (x, rest))"
    and "\<And>x ts rest. x \<in> set xs \<Longrightarrow> begins ts (f x) rest \<Longrightarrow> PeekAt 0 ts \<noteq> T_Select"
  shows "in_list expr select negated e ts = Some (Inr (E_In e xs negated, rest))"
proof -
  obtain p us c where s: "ts = p # us" "tok_type p = T_LeftParen" "begins us (comma_kinds (map f xs)) (c # rest)" "tok_type c = T_RightParen"
    using assms(2) by (auto simp: begins_append)
  obtain x ys where x: "xs = x # ys" using assms(1) by (cases xs) auto
  have "PeekAt 0 us \<noteq> T_Select" using s(3) assms(4)[of x] x by (cases ys) (auto simp: begins_append)
  have len: "length xs \<le> Suc (length us)"
    using s(3)
  proof (induction xs arbitrary: us rule: induct_list012)
    case (3 a b zs)
    then obtain vs c' ws where "begins us (f a) vs" "vs = c' # ws" "begins ws (comma_kinds (map f (b # zs))) (c # rest)"
      by (auto simp: begins_append)
    moreover have "length vs \<le> length us" if "begins us ks vs" for ks us vs using that by (induction us ks vs rule: begins.induct) auto
    ultimately show ?case using 3(2)[of ws] by (metis Suc_le_mono le_trans length_Cons)
  qed simp_all
  have "comma_loop (Suc (length us)) expr us = Some (Inr (xs, c # rest))"
    by (rule comma_loop_reads[where f = f]) (use assms s len in auto)
  then have "comma_list expr us = Some (Inr (xs, c # rest))" by (simp add: comma_list_def del: comma_loop.simps)
  then show ?thesis using s \<open>PeekAt 0 us \<noteq> T_Select\<close>
    by (simp add: in_list_def pbind_returns[where m = "comma_list expr"] preturn_def)
qed

lemma in_whole:
  assumes "ParseCompilePrimary expr select ts = Some (Inr (e, us))" "PeekAt 0 ts \<in> primary_start"
    and "begins us (not_kinds negated @ [(T_In, ''in'')]) vs" "in_list expr select negated e vs = Some (Inr (x, rest))"
    and "PeekAt 0 rest \<notin> {T_And, T_Or}"
  shows "ParseCompileOr expr select ts = Some (Inr (x, rest))"
proof -
  have t: "PeekAt 0 us \<in> {T_Not, T_In}" using assms(3) by (auto split: if_splits)
  then have e: "ParseCompileAdditive expr select ts = Some (Inr (e, us))" by (intro levels_additive[OF assms(1,2)]) auto
  have "\<not> IsComparisonType (PeekAt 0 us)" "PeekAt 0 us \<noteq> T_Is" using t by auto
  from comparison_first[OF e this assms(3)] have "ParseCompileComparison expr select ts = Some (Inr (x, rest))" using assms(4) by simp
  then show ?thesis using comparison_whole assms(2,5) by blast
qed

lemma primary_whole:
  "ParseCompilePrimary expr select ts = Some (Inr (e, rest)) \<Longrightarrow> PeekAt 0 ts \<in> primary_start \<Longrightarrow> closes (PeekAt 0 rest) \<Longrightarrow>
   ParseCompileOr expr select ts = Some (Inr (e, rest))"
  by (rule comparison_whole[OF levels_comparison]) auto

lemma aggregate_kind: "AggregateKindFromName (AggregateName agg) = Some agg"
  by (cases agg) (simp_all add: AggregateKindFromName_def AggregateName_def)

lemma column_primary:
  assumes "printable (E_Column table name)" "begins ts (expr_kinds (E_Column table name)) rest" "PeekAt 0 rest \<notin> {T_Dot, T_LeftParen}"
  shows "ParseCompilePrimary expr select ts = Some (Inr (E_Column table name, rest))"
proof -
  have "\<not> IsAggregateCall ts" "PeekAt 0 ts = T_Identifier" using assms(2,3) by (auto simp: IsAggregateCall_def split: if_splits)
  moreover have "ParseColumnRef ts = Some (Inr (E_Column table name, rest))"
    using assms(2,3) by (auto simp: ParseColumnRef_def ExpectIdentifier_def pbind_def[of "pbind _ _"] preturn_def split: if_splits)
  ultimately show ?thesis by (simp add: ParseCompilePrimary_def Let_def)
qed

lemma literal_primary:
  assumes "printable (E_Literal k i t)" "begins ts (expr_kinds (E_Literal k i t)) rest"
  shows "ParseCompilePrimary expr select ts = Some (Inr (E_Literal k i t, rest))"
  using assms
  by (cases k)
    (auto simp: ParseCompilePrimary_def Let_def preturn_def MakeLiteralExpr_def MakeBool_def integer_of_def from_chars_int pbind_def)

lemma begins_parens: "begins ts ((T_LeftParen, ''('') # ks) rest \<Longrightarrow> \<exists>p us. ts = p # us \<and> tok_type p = T_LeftParen \<and> begins us ks rest"
  by auto

lemma op_start:
  assumes "begins us (op_kinds op) vs" "op \<in> set symbol_ops \<union> set word_ops"
  shows "PeekAt 0 us \<notin> {T_Dot, T_LeftParen}"
proof (cases "op \<in> set symbol_ops")
  case True
  then show ?thesis using assms(1) symbol_op_type[OF True] by (auto simp: op_kinds_symbol)
next
  case False
  then show ?thesis using assms by (auto simp: word_ops_def op_kinds_def)
qed

lemma expr_primary:
  "printable e \<Longrightarrow> begins ts (expr_kinds e) rest \<Longrightarrow> PeekAt 0 rest \<notin> {T_Dot, T_LeftParen} \<Longrightarrow> length (expr_kinds e) \<le> n \<Longrightarrow>
   ParseCompilePrimary (ParseCompileExpr n) (ParseSelect n) ts = Some (Inr (e, rest))"
proof (induction e arbitrary: ts rest n rule: expr_kinds.induct)
  case (2 table name)
  then show ?case by (intro column_primary)
next
  case (3 k i t)
  then show ?case by (intro literal_primary)
next
  case (4 op l r)
  obtain m where n: "n = Suc m" using 4 by (cases n) auto
  have op: "op \<in> set symbol_ops \<union> set word_ops" using 4 by auto
  note ops = op_start[OF _ op]
  obtain p us vs ws q where s: "ts = p # us" "tok_type p = T_LeftParen" "begins us (expr_kinds l) vs" "begins vs (op_kinds op) ws"
    "begins ws (expr_kinds r) (q # rest)" "tok_type q = T_RightParen" using 4 by (auto simp: begins_append)
  have l: "ParseCompilePrimary (ParseCompileExpr m) (ParseSelect m) us = Some (Inr (l, vs))" using 4 s ops[OF s(4)] n by (intro 4(1)) auto
  have r: "ParseCompilePrimary (ParseCompileExpr m) (ParseSelect m) ws = Some (Inr (r, q # rest))" using 4 s n by (intro 4(2)) auto
  have st: "PeekAt 0 us \<in> primary_start" "PeekAt 0 ws \<in> primary_start" using begins_expr_start 4(3) s(3,5) by auto
  have "ParseCompileExpr n us = Some (Inr (E_Binary op l r, q # rest))" unfolding n
    using binary_whole[OF l st(1) s(4) op r st(2)] s(6) by simp
  then show ?case using parens_primary[OF s(1,2)] st(1) s(6) by auto
next
  case (5 op e)
  obtain m where n: "n = Suc m" using 5 by (cases n) auto
  obtain p us vs q where s: "ts = p # us" "tok_type p = T_LeftParen" "begins us (op_kinds op) vs"
    "begins vs (expr_kinds e) (q # rest)" "tok_type q = T_RightParen" using 5 by (auto simp: begins_append)
  have e: "ParseCompilePrimary (ParseCompileExpr m) (ParseSelect m) vs = Some (Inr (e, q # rest))" using 5 s n by (intro 5(1)) auto
  have st: "PeekAt 0 vs \<in> primary_start" using begins_expr_start 5(2) s(4) by auto
  have "ParseCompileExpr n us = Some (Inr (E_Unary op e, q # rest))" unfolding n
    using unary_whole[OF s(3) _ e st] 5(2) s(5) by simp
  moreover have "PeekAt 0 us \<noteq> T_Select" using s(3) 5(2) by (auto simp: op_kinds_def operators_def)
  ultimately show ?case using parens_primary[OF s(1,2)] s(5) by auto
next
  case (6 e negated)
  obtain m where n: "n = Suc m" using 6 by (cases n) auto
  have b: "begins ts ([(T_LeftParen, ''('')] @ expr_kinds e @ ([(T_Is, ''is'')] @ not_kinds negated @ [(T_Null, ''null'')]) @ [(T_RightParen, '')'')]) rest"
    using 6(3) by simp
  obtain p us vs q where s: "ts = p # us" "tok_type p = T_LeftParen" "begins us (expr_kinds e) vs"
    "begins vs ([(T_Is, ''is'')] @ not_kinds negated @ [(T_Null, ''null'')]) (q # rest)" "tok_type q = T_RightParen"
    using b unfolding begins_append[where ks = "[(T_LeftParen, ''('')]"] begins_append[where ks = "expr_kinds e"]
      begins_append[where ls = "[(T_RightParen, '')'')]"] by auto
  have e: "ParseCompilePrimary (ParseCompileExpr m) (ParseSelect m) us = Some (Inr (e, vs))" using 6 s n by (intro 6(1)) (auto simp: begins_append)
  have st: "PeekAt 0 us \<in> primary_start" using begins_expr_start 6(2) s(3) by auto
  have "ParseCompileExpr n us = Some (Inr (E_IsNull e negated, q # rest))" unfolding n
    using is_null_whole[OF e st s(4)] s(5) by simp
  then show ?case using parens_primary[OF s(1,2)] st s(5) by auto
next
  case (7 e l u negated)
  obtain m where n: "n = Suc m" using 7 by (cases n) auto
  define nk where "nk = not_kinds negated @ [(T_Between, ''between'')]"
  have b: "begins ts ([(T_LeftParen, ''('')] @ expr_kinds e @ nk @ expr_kinds l @ [(T_And, ''and'')] @ expr_kinds u @ [(T_RightParen, '')'')]) rest"
    using 7(5) by (simp add: nk_def)
  obtain p us vs ws a xs q where s: "ts = p # us" "tok_type p = T_LeftParen" "begins us (expr_kinds e) vs"
    "begins vs nk ws" "begins ws (expr_kinds l) (a # xs)" "tok_type a = T_And"
    "begins xs (expr_kinds u) (q # rest)" "tok_type q = T_RightParen"
    using b by (auto simp: begins_append)
  note s = s(1-3) s(4)[unfolded nk_def] s(5-8)
  have t: "PeekAt 0 vs \<in> {T_Not, T_Between}" using s(4) by (auto split: if_splits)
  have e: "ParseCompilePrimary (ParseCompileExpr m) (ParseSelect m) us = Some (Inr (e, vs))" using 7 s n t by (intro 7(1)) auto
  have l: "ParseCompilePrimary (ParseCompileExpr m) (ParseSelect m) ws = Some (Inr (l, a # xs))" using 7 s n by (intro 7(2)) auto
  have u: "ParseCompilePrimary (ParseCompileExpr m) (ParseSelect m) xs = Some (Inr (u, q # rest))" using 7 s n by (intro 7(3)) auto
  have st: "PeekAt 0 us \<in> primary_start" "PeekAt 0 ws \<in> primary_start" "PeekAt 0 xs \<in> primary_start"
    using begins_expr_start 7(4) s(3,5,7) by auto
  have "ParseCompileExpr n us = Some (Inr (E_Between e l u negated, q # rest))" unfolding n
    using between_whole[OF e st(1) s(4) l st(2) s(6) u st(3)] s(8) by simp
  then show ?case using parens_primary[OF s(1,2)] st(1) s(8) by auto
next
  case (8 e xs negated)
  obtain m where n: "n = Suc m" using 8 by (cases n) auto
  define nk il where "nk = not_kinds negated @ [(T_In, ''in'')]" and
    "il = (T_LeftParen, ''('') # comma_kinds (map expr_kinds xs) @ [(T_RightParen, '')'')]"
  have b: "begins ts ([(T_LeftParen, ''('')] @ expr_kinds e @ nk @ il @ [(T_RightParen, '')'')]) rest"
    using 8(4) by (simp add: nk_def il_def)
  obtain p us vs ws q where s: "ts = p # us" "tok_type p = T_LeftParen" "begins us (expr_kinds e) vs"
    "begins vs nk ws" "begins ws il (q # rest)" "tok_type q = T_RightParen"
    using b by (auto simp: begins_append)
  note s = s(1-3) s(4)[unfolded nk_def] s(5)[unfolded il_def] s(6)
  have t: "PeekAt 0 vs \<in> {T_Not, T_In}" using s(4) by (auto split: if_splits)
  have e: "ParseCompilePrimary (ParseCompileExpr m) (ParseSelect m) us = Some (Inr (e, vs))" using 8 s n t by (intro 8(1)) auto
  have st: "PeekAt 0 us \<in> primary_start" using begins_expr_start 8(3) s(3) by auto
  have shorter: "length (expr_kinds x) \<le> length (comma_kinds (map expr_kinds xs))" if "x \<in> set xs" for x
    using that by (induction xs rule: induct_list012) auto
  obtain k where k: "m = Suc k" using 8 n by (cases m) auto
  have x: "ParseCompileExpr m ts = Some (Inr (x, rest))" "PeekAt 0 ts \<noteq> T_Select"
    if "x \<in> set xs" "begins ts (expr_kinds x) rest" "PeekAt 0 rest \<in> {T_Comma, T_RightParen}" for x ts rest
  proof -
    have "ParseCompilePrimary (ParseCompileExpr k) (ParseSelect k) ts = Some (Inr (x, rest))"
      using that 8(3,6) n k shorter[OF that(1)] by (intro 8(2)) (auto simp: list_all_iff)
    moreover have "PeekAt 0 ts \<in> primary_start" using begins_expr_start[of x ts rest] that 8(3) by (auto simp: list_all_iff)
    ultimately show "ParseCompileExpr m ts = Some (Inr (x, rest))" "PeekAt 0 ts \<noteq> T_Select"
      using primary_whole[of _ _ ts x rest] that(3) by (auto simp: k)
  qed
  have sel: "PeekAt 0 ts \<noteq> T_Select" if "x \<in> set xs" "begins ts (expr_kinds x) rest" for x ts rest
    using begins_expr_start[of x ts rest] that 8(3) by (auto simp: list_all_iff)
  have i: "in_list (ParseCompileExpr m) (ParseSelect m) negated e ws = Some (Inr (E_In e xs negated, q # rest))"
    by (rule in_list_reads[OF _ s(5)]) (use 8(3) x sel in auto)
  have "ParseCompileExpr n us = Some (Inr (E_In e xs negated, q # rest))" unfolding n
    using in_whole[OF e st s(4) i] s(6) by simp
  then show ?case using parens_primary[OF s(1,2)] st s(6) by auto
next
  case (10 agg star argument)
  obtain t p us q where s: "ts = t # p # us" "tok_type t = T_Identifier" "lexeme t = AggregateName agg" "tok_type p = T_LeftParen"
    "begins us (if star then [(T_Star, ''*'')] else expr_kinds argument) (q # rest)" "tok_type q = T_RightParen"
    using 10 by (auto simp: begins_append)
  obtain m where n: "n = Suc m" using 10 by (cases n) auto
  have a: "(if star then preturn E_nullptr else ParseCompileExpr n) (if star then tl us else us) = Some (Inr (argument, q # rest))"
  proof (cases star)
    case True then show ?thesis using 10(2) s(5) by (auto simp: preturn_def)
  next
    case False
    have "ParseCompilePrimary (ParseCompileExpr m) (ParseSelect m) us = Some (Inr (argument, q # rest))"
      using False 10(2,5) s n by (intro 10(1)) auto
    then show ?thesis using False primary_whole begins_expr_start[of argument us "q # rest"] 10(2) s(5,6) by (auto simp: n)
  qed
  have st: "(PeekAt 0 us = T_Star) = star"
    using s(5) 10(2) begins_expr_start[of argument us "q # rest"] by (cases star) auto
  have "IsAggregateCall ts" using s by (simp add: IsAggregateCall_def aggregate_kind)
  moreover have "ParseAggregateExpr (ParseCompileExpr n) ts = Some (Inr (E_Aggregate agg star argument, rest))"
    using s st a
    by (cases star) (auto simp: ParseAggregateExpr_def ExpectIdentifier_def pbind_def[of "pbind _ _"] aggregate_kind preturn_def
        pbind_returns[where m = "ParseCompileExpr n"])
  ultimately show ?case using s by (simp add: ParseCompilePrimary_def Let_def)
qed simp_all

subsection \<open>A statement with an expression\<close>

lemma pbind_assoc [simp]: "pbind (pbind m f) g = pbind m (\<lambda>x. pbind (f x) g)"
  by (rule ext) (auto simp: pbind_def split: option.splits sum.splits)

lemma reads_star: "reads w ks g \<Longrightarrow> reads (CHR ''*'' # CHR '' '' # w) ((T_Star, ''*'') # ks) g"
  using reads_append[OF reads_operator[of "''*''" T_Star] reads_Cons(1), of w ks g] by (simp add: operators_def ends_operator_def)

lemma reads_end: "reads '';'' [(T_Semicolon, '';'')] anything"
  by (rule reads_weaken[OF reads_operator]) (simp_all add: operators_def ends_operator_def)

lemma reads_select_where:
  assumes "printable e" "is_name t"
  shows "reads (''select * from '' @ t @ '' where '' @ CompileExprText e @ '';'')
    ([(T_Select, ''select''), (T_Star, ''*''), (T_From, ''from''), (T_Identifier, t), (T_Where, ''where'')] @ expr_kinds e @
     [(T_Semicolon, '';'')]) anything"
proof -
  have e: "reads (CompileExprText e @ '';'') (expr_kinds e @ [(T_Semicolon, '';'')]) anything"
    using reads_then(1)[OF reads_expr[OF assms(1)] reads_end] by simp
  let ?w = "''where '' @ CompileExprText e @ '';''" and ?k = "(T_Where, ''where'') # expr_kinds e @ [(T_Semicolon, '';'')]"
  have w: "reads (CHR '' '' # ?w) ?k anything"
    using reads_Cons(1)[OF keyword_then(1)[of "''where''", OF _ reads_Cons(1)[OF e]]] by simp
  have nw: "\<not> word_char (CHR '' '')" by (simp add: word_char_def is_alpha_def is_upper_def is_digit_def)
  have t: "reads (t @ CHR '' '' # ?w) ([(T_Identifier, t)] @ ?k) anything" by (rule reads_then(2)[OF is_name_reads[OF assms(2)] w nw])
  have "reads (''select'' @ CHR '' '' # CHR ''*'' # CHR '' '' # ''from'' @ CHR '' '' # t @ CHR '' '' # ?w)
      ((KeywordType ''select'', ''select'') # (T_Star, ''*'') # (KeywordType ''from'', ''from'') # [(T_Identifier, t)] @ ?k) anything"
    by (intro keyword_then(1) reads_Cons(1) reads_star t) (simp_all only: keyword_words)
  then show ?thesis by (simp only: keyword_types append_Cons append_Nil)
qed

lemma whole_expr:
  assumes "printable e" "begins ts (expr_kinds e) rest" "closes (PeekAt 0 rest)" "length (expr_kinds e) < n"
  shows "ParseCompileExpr n ts = Some (Inr (e, rest))"
proof -
  obtain m where n: "n = Suc m" using assms(4) by (cases n) auto
  have "ParseCompilePrimary (ParseCompileExpr m) (ParseSelect m) ts = Some (Inr (e, rest))"
    using assms n by (intro expr_primary) auto
  then show ?thesis using primary_whole begins_expr_start[OF assms(1,2)] assms(3) n by auto
qed

lemma begins_length: "begins ts ks rest \<Longrightarrow> length ts = length ks + length rest"
  by (induction ts ks rest rule: begins.induct) auto

lemma reads_sql:
  assumes "reads w ks anything"
  obtains ts eof where "Tokenize w = Inr ts" "begins ts ks [eof]" "tok_type eof = T_EndOfFile"
proof -
  from reads_tokenize[OF assms TrueI] obtain ts where ts: "Tokenize w = Inr ts" "map kind ts = ks @ [(T_EndOfFile, [])]"
    by (elim exE conjE)
  from begins_map[OF ts(2)] obtain us where "begins ts ks us" "map kind us = [(T_EndOfFile, [])]" by (elim exE conjE)
  then show ?thesis using that ts(1) by (cases us) auto
qed

text \<open>C34: The text that the program prints for a \<open>printable\<close> expression is read back as that expression: a SELECT whose condition is the text of \<open>e\<close> is
  parsed as the SELECT whose condition is \<open>e\<close>, folded, with the simple predicate that is extracted from it. So the lexer and every level of
  the parser agree with the printer, for every nesting of the operators. Printable are the expressions without subqueries, which are printed as
  \<open>(select ...)\<close>, and without a quote in a string literal, which is printed without an escape; neither of these is read back. Their
  names are identifiers and no keywords, the lists of IN are not empty, the operators are those of the parser, an aggregate of \<open>*\<close> has no
  argument, and literals have the fields that the parser sets for their kind.\<close>

theorem Parse_reads_printed_expression:
  assumes "printable e" "is_name t"
  shows "\<exists>location. Parse (''select * from '' @ t @ '' where '' @ CompileExprText e @ '';'') =
    Some (Inr [St_Select (SelectStatement t [] [] [] [] [] True (ExtractPredicateFromCompileExpr (FoldCompileExpr e)) (FoldCompileExpr e)
      [] E_nullptr [] False None location)])"
proof -
  let ?sql = "''select * from '' @ t @ '' where '' @ CompileExprText e @ '';''"
  obtain ts eof where ts: "Tokenize ?sql = Inr ts" "begins ts ([(T_Select, ''select''), (T_Star, ''*''), (T_From, ''from''), (T_Identifier, t),
      (T_Where, ''where'')] @ expr_kinds e @ [(T_Semicolon, '';'')]) [eof]" "tok_type eof = T_EndOfFile"
    by (rule reads_sql[OF reads_select_where[OF assms]])
  then obtain a1 a2 a3 a4 a5 us semi where s: "ts = a1 # a2 # a3 # a4 # a5 # us" "tok_type a1 = T_Select" "tok_type a2 = T_Star"
    "tok_type a3 = T_From" "tok_type a4 = T_Identifier" "lexeme a4 = t" "tok_type a5 = T_Where" "begins us (expr_kinds e) [semi, eof]"
    "tok_type semi = T_Semicolon" "tok_type eof = T_EndOfFile" by (auto simp: begins_append)
  have e: "ParseCompileExpr (length ts) us = Some (Inr (e, [semi, eof]))"
    using begins_length[OF s(8)] s(1,9) by (intro whole_expr[OF assms(1) s(8)]) auto
  have "ParseSelect (Suc (length ts)) ts = Some (Inr (SelectStatement t [] [] [] [] [] True
      (ExtractPredicateFromCompileExpr (FoldCompileExpr e)) (FoldCompileExpr e) [] E_nullptr [] False None (tok_start a1), [semi, eof]))"
    using s(2-7,9,10) e
    by (simp add: s(1) select_body_def select_list_def ExpectIdentifier_def optional_alias_def parse_joins_def parse_join_type_def
        optional_where_def ParseWhere_def optional_group_by_def optional_having_def optional_order_by_def optional_limit_def Let_def
        pbind_returns[where m = "ParseCompileExpr _"] pbind_def[of "parse_joins _"] preturn_def)
  then have "ParserImpl_Parse ts = Some (Inr [St_Select (SelectStatement t [] [] [] [] [] True
      (ExtractPredicateFromCompileExpr (FoldCompileExpr e)) (FoldCompileExpr e) [] E_nullptr [] False None (tok_start a1))])"
    using s(1,2,9,10)
    by (simp add: ParserImpl_Parse_def ParseStatement_def ParseSelectStatement_def Let_def pbind_returns[where m = "ParseSelect _"]
        preturn_def del: ParseSelect.simps ParseCompileExpr.simps)
  then show ?thesis using ts(1) by (auto simp: Parse_def)
qed

lemma demo_names: "is_name ''a''" "is_name ''t''" "is_name ''b''"
  by (simp_all add: is_name_def is_word_def word_char_def is_alpha_def is_upper_def is_digit_def LowerAscii_def KeywordType_def keyword_table_def)

theorem Parse_reads_printed_expression_witness:
  "\<exists>location. Parse ''select * from t where ((a = 'x') or (not (t.b is not null)));'' =
    Some (Inr [St_Select (SelectStatement ''t'' [] [] [] [] [] True None
      (E_Binary ''or'' (E_Binary ''='' (E_Column [] ''a'') (E_Literal LK_String 0 ''x'')) (E_Unary ''not'' (E_IsNull (E_Column ''t'' ''b'') True)))
      [] E_nullptr [] False None location)])"
proof -
  let ?e = "E_Binary ''or'' (E_Binary ''='' (E_Column [] ''a'') (E_Literal LK_String 0 ''x'')) (E_Unary ''not'' (E_IsNull (E_Column ''t'' ''b'') True)) :: Expr"
  have p: "printable ?e" by (simp add: demo_names symbol_ops_def word_ops_def quote_def)
  have t: "CompileExprText ?e = ''((a = 'x') or (not (t.b is not null)))''" by (simp add: quoted_def quote_def)
  have f: "FoldCompileExpr ?e = ?e" "ExtractPredicateFromCompileExpr ?e = None"
    by (simp_all add: fold_binary_def fold_unary_def fold_is_null_def IsLit_def SameLiteralKind_def ExtractPredicateFromCompileExpr_def)
  show ?thesis using Parse_reads_printed_expression[OF p demo_names(2)] unfolding t f by simp
qed

text \<open>C31: A subtraction of a number is not recognised without a space before the number: the lexer takes the minus for the sign of the
  number, and the parser then finds two operands without an operator.\<close>

theorem Parse_rejects_subtraction:
  assumes "is_name x" "is_name t"
  shows "Parse (''select '' @ x @ ''-'' @ nat_to_string k @ '' from '' @ t @ '';'') = Some (Inl InvalidArgument)"
proof -
  let ?n = "CHR ''-'' # nat_to_string k" and ?t = "t @ '';''" and ?k = "[(T_Identifier, t)] @ [(T_Semicolon, '';'')]"
  have n: "is_number ?n" using digits_nat_to_string[of k] by (simp add: is_number_def)
  have nw: "\<not> word_char (CHR '' '')" "\<not> word_char (CHR ''-'')" "\<not> word_char (CHR '';'')"
    by (simp_all add: word_char_def is_alpha_def is_upper_def is_digit_def)
  have t: "reads ?t ?k anything" by (rule reads_then(2)[OF is_name_reads[OF assms(2)] reads_end nw(3)])
  have f: "reads (CHR '' '' # ''from'' @ CHR '' '' # ?t) ((KeywordType ''from'', ''from'') # ?k) anything"
    by (intro keyword_then(1) reads_Cons(1) t keyword_words)
  have "reads (?n @ CHR '' '' # ''from'' @ CHR '' '' # ?t) ([(T_Integer, ?n)] @ (KeywordType ''from'', ''from'') # ?k) anything"
    by (rule reads_append[OF reads_number[OF n] f]) (simp add: ends_number_def is_digit_def)
  then have "reads (CHR ''-'' # nat_to_string k @ CHR '' '' # ''from'' @ CHR '' '' # ?t) ([(T_Integer, ?n)] @ (KeywordType ''from'', ''from'') # ?k) anything"
    by simp
  from reads_then(2)[OF is_name_reads[OF assms(1)] this nw(2)]
  have "reads (''select'' @ CHR '' '' # x @ CHR ''-'' # nat_to_string k @ CHR '' '' # ''from'' @ CHR '' '' # ?t)
      ((KeywordType ''select'', ''select'') # [(T_Identifier, x)] @ [(T_Integer, ?n)] @ (KeywordType ''from'', ''from'') # ?k) anything"
    by (intro keyword_then(1) reads_Cons(1) keyword_words)
  then obtain ts eof where ts: "Tokenize (''select'' @ CHR '' '' # x @ CHR ''-'' # nat_to_string k @ CHR '' '' # ''from'' @ CHR '' '' # ?t) = Inr ts"
    "begins ts ((KeywordType ''select'', ''select'') # [(T_Identifier, x)] @ [(T_Integer, ?n)] @ (KeywordType ''from'', ''from'') # ?k) [eof]"
    by (rule reads_sql)
  then obtain a b c d us where s: "ts = a # b # c # d # us" "tok_type a = T_Select" "tok_type b = T_Identifier" "lexeme b = x"
    "tok_type c = T_Integer" by auto
  have b: "begins (b # c # d # us) (expr_kinds (E_Column [] x)) (c # d # us)" using s by simp
  have e: "ParseCompileExpr (length ts) (b # c # d # us) = Some (Inr (E_Column [] x, c # d # us))"
    by (rule whole_expr[OF _ b]) (use s assms in auto)
  have "comma_list (select_item (ParseCompileExpr (length ts))) (b # c # d # us) = Some (Inr ([(E_Column [] x, [])], c # d # us))"
    using e s by (simp add: comma_list_def select_item_def ParseSelectItem_def IsAggregateCall_def optional_alias_def preturn_def
        pbind_def[of "ParseSelectItem _"] del: ParseCompileExpr.simps)
  then have "ParseSelect (Suc (length ts)) ts = Some (Inl InvalidArgument)"
    using s by (simp add: select_body_def select_list_def pbind_def[of "comma_list _"])
  then have "ParserImpl_Parse ts = Some (Inl InvalidArgument)"
    using s by (simp add: ParserImpl_Parse_def ParseStatement_def ParseSelectStatement_def Let_def pbind_def[of "ParseSelect _"]
        del: ParseSelect.simps ParseCompileExpr.simps)
  then show ?thesis using ts(1) by (simp add: Parse_def)
qed

theorem Parse_rejects_subtraction_witness: "Parse ''select a-7 from t;'' = Some (Inl InvalidArgument)"
  using Parse_rejects_subtraction[OF demo_names(1,2), of 7] by (simp add: nat_to_string.simps char_of_def bit_0)

end
