(* ===== verification/Plan.thy ===== *)
theory Plan
  imports Parser Complex_Main
begin

text \<open>
  Logical plans (\<^verbatim>\<open>plan/plan.h\<close>), what the planner reads of the catalog (\<^verbatim>\<open>catalog/catalog.h\<close>), and the text of a plan
  (end of \<^verbatim>\<open>planner/planner.cpp\<close>). A null \<^verbatim>\<open>PlanNode\<close> pointer is a constructor of its own; nodes are never changed in place, so the
  sharing of the pointers is not visible.
\<close>

subsection \<open>The catalog as the planner sees it\<close>

record TableMetadata =
  tab_name :: string
  tab_schema :: Schema
  first_data_page_id :: "32 word"

record IndexMetadata =
  idx_name :: string
  idx_table_name :: string
  idx_column_name :: string
  idx_root_page_id :: "32 word"
  idx_is_unique :: bool

text \<open>The two virtual functions of \<^verbatim>\<open>CatalogView\<close>; \<open>Inr None\<close> is a successful result that holds a null pointer.\<close>

record CatalogView =
  FindTable :: "string \<Rightarrow> TableMetadata option Result"
  ListTableIndexes :: "string \<Rightarrow> IndexMetadata list"

subsection \<open>Plans\<close>

datatype PlanValueType = PV_Int | PV_Varchar | PV_Bool | PV_Null

datatype PlanNode =
    N_nullptr
  | N_SeqScan string
  | N_IndexScan string string string Value
  | N_Filter PlanNode Predicate Expr
  | N_Join PlanNode PlanNode JoinType string string string string "nat option" "nat option"
  | N_GroupBy PlanNode "string list"
  | N_OrderBy PlanNode "OrderKey list"
  | N_Project PlanNode "string list" bool "nat list"

record SelectPlan =
  sp_table_name :: string
  sp_root :: PlanNode
  sp_distinct :: bool
  sp_limit :: "nat option"
  sp_projection_aliases :: "string list"
  sp_table_alias :: string
  sp_projection_expressions :: "Expr list"
  sp_having :: Expr
  sp_has_aggregates :: bool
  sp_output_types :: "PlanValueType list"

datatype Plan =
    P_CreateTable string Schema
  | P_Insert string "string list" "Row list"
  | P_Select SelectPlan
  | P_Delete string "Predicate option"
  | P_DropTable string
  | P_CreateIndex string string string bool
  | P_DropIndex string
  | P_Explain SelectPlan
  | P_Update string "UpdateAssignment list" "Predicate option"
  | P_AlterTable string AlterTableAction
  | P_Begin
  | P_Commit
  | P_Rollback

subsection \<open>The text of a plan\<close>

definition value_text :: "Value \<Rightarrow> string" where
  "value_text v = (if IsNull v then ''NULL'' else if IsInt v then Value_ToString v else quoted (the (AsVarchar v)))"

definition plan_PredicateText :: "Predicate \<Rightarrow> string" where
  "plan_PredicateText p =
     (if pred_kind p = PK_IsNull then pred_column p @ '' is null''
      else if pred_kind p = PK_IsNotNull then pred_column p @ '' is not null''
      else if IsNull (pred_value p) then pred_column p @ ''=NULL''
      else pred_column p @ ''='' @ (if IsInt (pred_value p) then Value_ToString (pred_value p) else quoted (the (AsVarchar (pred_value p)))))"

text \<open>The planner prints an expression as the parser does, but leaves the qualifier of a column out.\<close>

fun plan_CompileExprText :: "'q CompileExpr \<Rightarrow> string" where
  "plan_CompileExprText E_nullptr = ''<null>''"
| "plan_CompileExprText (E_Column table_name name) = name"
| "plan_CompileExprText (E_Literal kind integer text) =
     (if kind = LK_Int then int_to_string (sint integer)
      else if kind = LK_String then quoted text
      else if kind = LK_Null then ''NULL''
      else text)"
| "plan_CompileExprText (E_Binary op left right) =
     ''('' @ plan_CompileExprText left @ '' '' @ op @ '' '' @ plan_CompileExprText right @ '')''"
| "plan_CompileExprText (E_Unary op operand) = ''('' @ op @ '' '' @ plan_CompileExprText operand @ '')''"
| "plan_CompileExprText (E_IsNull operand negated) =
     ''('' @ plan_CompileExprText operand @ (if negated then '' is not null)'' else '' is null)'')"
| "plan_CompileExprText (E_Between operand lower upper negated) =
     ''('' @ plan_CompileExprText operand @ '' '' @ (if negated then ''not between '' else ''between '') @
     plan_CompileExprText lower @ '' and '' @ plan_CompileExprText upper @ '')''"
| "plan_CompileExprText (E_In operand options negated) =
     ''('' @ plan_CompileExprText operand @ '' '' @ (if negated then ''not in ('' else ''in ('') @
     join_with '', '' (map plan_CompileExprText options) @ ''))''"
| "plan_CompileExprText (E_Subquery kind query operand negated) =
     (if kind = SQ_Exists then ''(exists (select ...))''
      else if kind = SQ_In then
        ''('' @ plan_CompileExprText operand @ (if negated then '' not in (select ...))'' else '' in (select ...))'')
      else ''(select ...)'')"
| "plan_CompileExprText (E_Aggregate kind star argument) =
     AggregateName kind @ ''('' @ (if star then ''*'' else plan_CompileExprText argument) @ '')''"

definition index_text :: "string \<Rightarrow> nat option \<Rightarrow> string" where
  "index_text label index = (case index of None \<Rightarrow> [] | Some i \<Rightarrow> label @ nat_to_string i)"

definition order_key_text :: "OrderKey \<Rightarrow> string" where
  "order_key_text key = key_column key @ (if key_direction key = Order_Desc then '' DESC'' else '' ASC'')"

fun NodeText :: "PlanNode \<Rightarrow> string" where
  "NodeText N_nullptr = ''<null>''"
| "NodeText (N_SeqScan table_name) = ''SeqScanPlan(table='' @ table_name @ '')''"
| "NodeText (N_IndexScan table_name index_name column_name key) =
     ''IndexScanPlan(table='' @ table_name @ '',index='' @ index_name @ '',column='' @ column_name @
     '',key='' @ Value_ToString key @ '')''"
| "NodeText (N_Filter child predicate expression) =
     ''FilterPlan(predicate='' @ plan_PredicateText predicate @ '',child='' @ NodeText child @ '')''"
| "NodeText (N_Join left right ty ltab lcol rtab rcol left_index right_index) =
     ''JoinPlan(type='' @ JoinTypeName ty @ '',left_table='' @ ltab @ '',left_column='' @ lcol @
     index_text '',left_index='' left_index @ '',right_table='' @ rtab @ '',right_column='' @ rcol @
     index_text '',right_index='' right_index @ '',left='' @ NodeText left @ '',right='' @ NodeText right @ '')''"
| "NodeText (N_GroupBy child columns) =
     ''GroupByPlan(columns=['' @ join_with '','' columns @ ''],child='' @ NodeText child @ '')''"
| "NodeText (N_OrderBy child order_keys) =
     ''OrderByPlan(keys=['' @ join_with '','' (map order_key_text order_keys) @ ''],child='' @ NodeText child @ '')''"
| "NodeText (N_Project child columns select_all input_indexes) =
     ''ProjectPlan(columns='' @ (if select_all then ''*'' else ''['' @ join_with '','' columns @ '']'') @
     '',child='' @ NodeText child @ '')''"

definition type_text :: "Column \<Rightarrow> string" where
  "type_text column = (if col_type column = DT_Int then ''INT'' else ''VARCHAR'')"

definition plan_column_text :: "Column \<Rightarrow> string" where
  "plan_column_text column =
     col_name column @ '':'' @ type_text column @
     (case col_length column of None \<Rightarrow> [] | Some n \<Rightarrow> ''('' @ nat_to_string n @ '')'')"

definition select_plan_text :: "SelectPlan \<Rightarrow> string" where
  "select_plan_text sp =
     ''SelectPlan(table='' @ sp_table_name sp @ '',root='' @ NodeText (sp_root sp) @
     (if sp_table_alias sp \<noteq> [] then '',alias='' @ sp_table_alias sp else []) @
     (if sp_distinct sp then '',distinct=true'' else []) @
     (case sp_limit sp of None \<Rightarrow> [] | Some n \<Rightarrow> '',limit='' @ nat_to_string n) @
     (if list_ex (\<lambda>alias. alias \<noteq> []) (sp_projection_aliases sp)
      then '',aliases=['' @ join_with '','' (sp_projection_aliases sp) @ '']'' else []) @
     (if sp_has_aggregates sp then '',aggregates=true'' else []) @
     (if sp_having sp \<noteq> E_nullptr then '',having='' @ plan_CompileExprText (sp_having sp) else []) @ '')''"

definition alter_plan_text :: "AlterTableAction \<Rightarrow> string" where
  "alter_plan_text action =
     (case action of
        RenameTable new_name \<Rightarrow> '',action=rename_table,new_name='' @ new_name
      | RenameColumn column_name new_name \<Rightarrow>
          '',action=rename_column,column='' @ column_name @ '',new_name='' @ new_name
      | AddColumn column \<Rightarrow>
          '',action=add_column,column='' @ col_name column @ '':'' @ type_text column @
          (case default_value column of None \<Rightarrow> [] | Some v \<Rightarrow> '',default='' @ value_text v))"

fun Plan_ToString :: "Plan \<Rightarrow> string" where
  "Plan_ToString (P_CreateTable table_name schema) =
     ''CreateTablePlan(table='' @ table_name @ '',schema=['' @ join_with '','' (map plan_column_text schema) @ ''])''"
| "Plan_ToString (P_Insert table_name columns rows) =
     ''InsertPlan(table='' @ table_name @ '',columns='' @
     (if columns = [] then ''*'' else ''['' @ join_with '','' columns @ '']'') @ '',rows=['' @
     join_with '','' (map (\<lambda>row. ''['' @ join_with '','' (map value_text row) @ '']'') rows) @ ''])''"
| "Plan_ToString (P_Select sp) = select_plan_text sp"
| "Plan_ToString (P_Delete table_name condition) =
     ''DeletePlan(table='' @ table_name @
     (case condition of None \<Rightarrow> [] | Some p \<Rightarrow> '',where='' @ plan_PredicateText p) @ '')''"
| "Plan_ToString (P_DropTable table_name) = ''DropTablePlan(table='' @ table_name @ '')''"
| "Plan_ToString (P_AlterTable table_name action) =
     ''AlterTablePlan(table='' @ table_name @ alter_plan_text action @ '')''"
| "Plan_ToString P_Begin = ''BeginPlan()''"
| "Plan_ToString P_Commit = ''CommitPlan()''"
| "Plan_ToString P_Rollback = ''RollbackPlan()''"
| "Plan_ToString (P_CreateIndex index_name table_name column_name is_unique) =
     ''CreateIndexPlan(index='' @ index_name @ '',table='' @ table_name @ '',column='' @ column_name @
     '',unique='' @ (if is_unique then ''true'' else ''false'') @ '')''"
| "Plan_ToString (P_DropIndex index_name) = ''DropIndexPlan(index='' @ index_name @ '')''"
| "Plan_ToString (P_Explain sp) = ''ExplainPlan(select='' @ select_plan_text sp @ '')''"
| "Plan_ToString (P_Update table_name assignments condition) =
     ''UpdatePlan(table='' @ table_name @ '',assignments=['' @
     join_with '','' (map (\<lambda>a. asg_column a @ ''='' @ plan_CompileExprText (asg_expression a)) assignments) @ '']'' @
     (case condition of None \<Rightarrow> [] | Some p \<Rightarrow> '',where='' @ plan_PredicateText p) @ '')''"

end
