(* ===== verification/Optimizer.thy ===== *)
theory Optimizer
  imports Plan
begin

text \<open>
  The plan rewriting of \<^verbatim>\<open>optimizer/optimizer.cpp\<close>: the removal of an inner projection (R1), the choice of an index scan for an
  equality (R2), their repetition up to a fixed point, and the choice by cost (R3).
\<close>

subsection \<open>The shape the executor understands\<close>

fun IsJoinSource :: "PlanNode \<Rightarrow> bool" where
  "IsJoinSource (N_SeqScan table_name) = True"
| "IsJoinSource (N_Join left right ty ltab lcol rtab rcol left_index right_index) =
     (left \<noteq> N_nullptr \<and> right \<noteq> N_nullptr \<and> IsJoinSource left \<and> IsJoinSource right)"
| "IsJoinSource node = False"

fun skip_ordering :: "PlanNode \<Rightarrow> PlanNode" where
  "skip_ordering (N_OrderBy child order_keys) = skip_ordering child"
| "skip_ordering (N_GroupBy child columns) = skip_ordering child"
| "skip_ordering node = node"

fun is_scan :: "PlanNode \<Rightarrow> bool" where
  "is_scan (N_SeqScan table_name) = True"
| "is_scan (N_IndexScan table_name index_name column_name key) = True"
| "is_scan node = False"

definition IsFrozenSelectShape :: "PlanNode \<Rightarrow> bool" where
  "IsFrozenSelectShape node =
     (case node of
        N_Project child columns select_all input_indexes \<Rightarrow>
          if child = N_nullptr then False
          else
            (case skip_ordering child of
               N_nullptr \<Rightarrow> False
             | N_Join left right ty ltab lcol rtab rcol left_index right_index \<Rightarrow>
                 IsJoinSource (skip_ordering child)
             | N_Filter source predicate expression \<Rightarrow> source \<noteq> N_nullptr \<and> is_scan source
             | current \<Rightarrow> is_scan current)
      | _ \<Rightarrow> False)"

text \<open>The inner projection (its columns and whether it keeps all) has what the outer one needs.\<close>

definition ProjectionCovers :: "string list \<Rightarrow> bool \<Rightarrow> string list \<Rightarrow> bool \<Rightarrow> bool" where
  "ProjectionCovers inner_columns inner_all outer_columns outer_all =
     (if outer_all then inner_all
      else if inner_all then True
      else list_all (\<lambda>outer_column. list_ex (\<lambda>inner_column. outer_column = inner_column) inner_columns) outer_columns)"

subsection \<open>The rules\<close>

definition rule_R1 :: "PlanNode \<Rightarrow> PlanNode option" where
  "rule_R1 tree =
     (case tree of
        N_Project (N_Project child inner_columns inner_all inner_indexes) columns select_all input_indexes \<Rightarrow>
          if ProjectionCovers inner_columns inner_all columns select_all
          then Some (N_Project child columns select_all input_indexes) else None
      | _ \<Rightarrow> None)"

definition rule_R2 :: "IndexMetadata list \<Rightarrow> PlanNode \<Rightarrow> PlanNode option" where
  "rule_R2 indexes tree =
     (case tree of
        N_Project (N_Filter (N_SeqScan table_name) predicate expression) columns select_all input_indexes \<Rightarrow>
          if pred_kind predicate = PK_Equal \<and> IsInt (pred_value predicate) then
            (case find (\<lambda>index. idx_table_name index = table_name \<and> idx_column_name index = pred_column predicate) indexes of
               None \<Rightarrow> None
             | Some index \<Rightarrow>
                 Some (N_Project
                   (N_Filter (N_IndexScan table_name (idx_name index) (idx_column_name index) (pred_value predicate)) predicate expression)
                   columns select_all input_indexes))
          else None
      | _ \<Rightarrow> None)"

record OptimizationStats =
  passes :: nat
  rule_hits :: "string \<Rightarrow> nat"

definition no_stats :: OptimizationStats where
  "no_stats = \<lparr>passes = 0, rule_hits = (\<lambda>_. 0)\<rparr>"

definition hit :: "string \<Rightarrow> OptimizationStats \<Rightarrow> OptimizationStats" where
  "hit rule stats = stats\<lparr>rule_hits := (rule_hits stats)(rule := rule_hits stats rule + 1)\<rparr>"

text \<open>One pass: R1, then R2 on its result; the flag says whether a rule applied.\<close>

definition apply_rule :: "string \<Rightarrow> (PlanNode \<Rightarrow> PlanNode option) \<Rightarrow> PlanNode \<times> OptimizationStats \<times> bool \<Rightarrow>
    PlanNode \<times> OptimizationStats \<times> bool" where
  "apply_rule name rule = (\<lambda>(tree, stats, changed).
     case rule tree of None \<Rightarrow> (tree, stats, changed) | Some tree' \<Rightarrow> (tree', hit name stats, True))"

definition optimize_pass :: "IndexMetadata list \<Rightarrow> PlanNode \<Rightarrow> OptimizationStats \<Rightarrow> PlanNode \<times> OptimizationStats \<times> bool" where
  "optimize_pass indexes tree stats =
     apply_rule ''R2'' (rule_R2 indexes) (apply_rule ''R1'' rule_R1 (tree, stats\<lparr>passes := passes stats + 1\<rparr>, False))"

text \<open>A rule removes a projection or a sequential scan, so the passes end.\<close>

fun plan_weight :: "PlanNode \<Rightarrow> nat" where
  "plan_weight N_nullptr = 0"
| "plan_weight (N_SeqScan table_name) = 1"
| "plan_weight (N_IndexScan table_name index_name column_name key) = 0"
| "plan_weight (N_Filter child predicate expression) = plan_weight child"
| "plan_weight (N_Join left right ty ltab lcol rtab rcol left_index right_index) =
     plan_weight left + plan_weight right"
| "plan_weight (N_GroupBy child columns) = plan_weight child"
| "plan_weight (N_OrderBy child order_keys) = plan_weight child"
| "plan_weight (N_Project child columns select_all input_indexes) = Suc (plan_weight child)"

lemma rule_weight:
  "rule_R1 tree = Some tree' \<Longrightarrow> plan_weight tree' < plan_weight tree"
  "rule_R2 indexes tree = Some tree' \<Longrightarrow> plan_weight tree' < plan_weight tree"
  by (auto simp: rule_R1_def rule_R2_def split: PlanNode.splits if_splits option.splits)

lemma apply_rule_weight:
  assumes "apply_rule name rule (tree, stats, changed) = (tree', stats', changed')"
    and "\<And>node node'. rule node = Some node' \<Longrightarrow> plan_weight node' < plan_weight node"
  shows "plan_weight tree' \<le> plan_weight tree \<and> (changed' \<longrightarrow> changed \<or> plan_weight tree' < plan_weight tree)"
  using assms by (auto simp: apply_rule_def split: option.splits dest!: less_imp_le_nat)

lemma optimize_pass_weight:
  assumes "optimize_pass indexes tree stats = (tree', stats', True)"
  shows "plan_weight tree' < plan_weight tree"
proof -
  obtain tree1 stats1 changed1 where first: "apply_rule ''R1'' rule_R1 (tree, stats\<lparr>passes := passes stats + 1\<rparr>, False) = (tree1, stats1, changed1)"
    by (metis prod_cases3)
  from apply_rule_weight[OF first rule_weight(1)]
  have "plan_weight tree1 \<le> plan_weight tree" "changed1 \<Longrightarrow> plan_weight tree1 < plan_weight tree" by auto
  moreover have "apply_rule ''R2'' (rule_R2 indexes) (tree1, stats1, changed1) = (tree', stats', True)"
    using assms first by (simp add: optimize_pass_def)
  from apply_rule_weight[OF this rule_weight(2)]
  have "plan_weight tree' \<le> plan_weight tree1" "changed1 \<or> plan_weight tree' < plan_weight tree1" by auto
  ultimately show ?thesis by auto
qed

function optimize_loop :: "IndexMetadata list \<Rightarrow> PlanNode \<Rightarrow> OptimizationStats \<Rightarrow> PlanNode \<times> OptimizationStats" where
  "optimize_loop indexes tree stats =
     (case optimize_pass indexes tree stats of
        (tree', stats', changed) \<Rightarrow> if \<not> changed then (tree', stats') else optimize_loop indexes tree' stats')"
  by auto
termination
  by (relation "measure (\<lambda>(indexes, tree, stats). plan_weight tree)") (auto dest: optimize_pass_weight[OF sym])

declare optimize_loop.simps [simp del]

definition OptimizeWithStats :: "Plan \<Rightarrow> IndexMetadata list \<Rightarrow> (Plan \<times> OptimizationStats) Result" where
  "OptimizeWithStats plan indexes =
     (case plan of
        P_Select sp \<Rightarrow>
          if sp_root sp = N_nullptr then Inl InvalidArgument
          else
            (case optimize_loop indexes (sp_root sp) no_stats of
               (tree, stats) \<Rightarrow>
                 if \<not> IsFrozenSelectShape tree then Inl InternalError
                 else Inr (P_Select (sp\<lparr>sp_root := tree\<rparr>), stats))
      | _ \<Rightarrow> Inr (plan, no_stats\<lparr>passes := 1\<rparr>))"

definition Optimize :: "Plan \<Rightarrow> IndexMetadata list \<Rightarrow> Plan Result" where
  "Optimize plan indexes =
     (case OptimizeWithStats plan indexes of Inl err \<Rightarrow> Inl err | Inr (plan', stats) \<Rightarrow> Inr plan')"

subsection \<open>The choice by cost\<close>

record IndexScanCostEstimate =
  est_index_name :: string
  est_key :: i64
  total_entries :: nat
  matching_entries :: nat
  seq_scan_cost :: real
  index_scan_cost :: real

fun ApplyIndexCost :: "IndexScanCostEstimate \<Rightarrow> bool \<Rightarrow> PlanNode \<Rightarrow> bool \<Rightarrow> PlanNode \<times> bool" where
  "ApplyIndexCost estimate use_seq_scan N_nullptr matched = (N_nullptr, matched)"
| "ApplyIndexCost estimate use_seq_scan (N_IndexScan table_name index_name column_name key) matched =
     (if index_name \<noteq> est_index_name estimate \<or> \<not> IsInt key \<or> AsInt key \<noteq> Some (est_key estimate)
      then (N_IndexScan table_name index_name column_name key, matched)
      else (if use_seq_scan then N_SeqScan table_name else N_IndexScan table_name index_name column_name key, True))"
| "ApplyIndexCost estimate use_seq_scan (N_Filter child predicate expression) matched =
     (case ApplyIndexCost estimate use_seq_scan child matched of (child', m) \<Rightarrow> (N_Filter child' predicate expression, m))"
| "ApplyIndexCost estimate use_seq_scan (N_Project child columns select_all input_indexes) matched =
     (case ApplyIndexCost estimate use_seq_scan child matched of
        (child', m) \<Rightarrow> (N_Project child' columns select_all input_indexes, m))"
| "ApplyIndexCost estimate use_seq_scan (N_GroupBy child columns) matched =
     (case ApplyIndexCost estimate use_seq_scan child matched of (child', m) \<Rightarrow> (N_GroupBy child' columns, m))"
| "ApplyIndexCost estimate use_seq_scan (N_OrderBy child order_keys) matched =
     (case ApplyIndexCost estimate use_seq_scan child matched of (child', m) \<Rightarrow> (N_OrderBy child' order_keys, m))"
| "ApplyIndexCost estimate use_seq_scan node matched = (node, matched)"

definition apply_cost :: "IndexScanCostEstimate \<Rightarrow> bool \<Rightarrow> SelectPlan \<Rightarrow> SelectPlan \<times> bool" where
  "apply_cost estimate use_seq_scan sp =
     (if sp_root sp = N_nullptr then (sp, False)
      else (case ApplyIndexCost estimate use_seq_scan (sp_root sp) False of (tree, m) \<Rightarrow> (sp\<lparr>sp_root := tree\<rparr>, m)))"

definition OptimizeWithCost :: "Plan \<Rightarrow> IndexScanCostEstimate \<Rightarrow> (Plan \<times> OptimizationStats) Result" where
  "OptimizeWithCost plan estimate =
     (let use_seq_scan = total_entries estimate \<ge> 32 \<and> seq_scan_cost estimate \<le> index_scan_cost estimate;
          (plan', matched) =
            (case plan of
               P_Select sp \<Rightarrow> (case apply_cost estimate use_seq_scan sp of (sp', m) \<Rightarrow> (P_Select sp', m))
             | P_Explain sp \<Rightarrow> (case apply_cost estimate use_seq_scan sp of (sp', m) \<Rightarrow> (P_Explain sp', m))
             | _ \<Rightarrow> (plan, False));
          stats = no_stats\<lparr>passes := 1\<rparr>
      in Inr (plan', if matched then hit (if use_seq_scan then ''R3:SeqScan'' else ''R3:IndexScan'') stats else stats))"

end
