(* ===== verification/Planner.thy ===== *)
theory Planner
  imports Optimizer
begin

text \<open>
  The semantic analysis of \<^verbatim>\<open>planner/planner.cpp\<close>: it checks a statement against the catalog and builds its plan. A \<open>Status\<close> is its
  error code, without its text. The planner calls itself for the
  SELECT inside a subquery; the checks get that call as an argument, and \<open>build\<close> below closes the circle.
\<close>

subsection \<open>Results\<close>

definition rbind :: "'a Result \<Rightarrow> ('a \<Rightarrow> 'b Result) \<Rightarrow> 'b Result" where
  "rbind r f = (case r of Inl err \<Rightarrow> Inl err | Inr x \<Rightarrow> f x)"

definition require :: "ErrorCode \<Rightarrow> 'b Result \<Rightarrow> 'b Result" where
  "require status r = (if status \<noteq> Code_Ok then Inl status else r)"

fun map_result :: "('a \<Rightarrow> 'b Result) \<Rightarrow> 'a list \<Rightarrow> 'b list Result" where
  "map_result f [] = Inr []"
| "map_result f (x # xs) = rbind (f x) (\<lambda>y. rbind (map_result f xs) (\<lambda>ys. Inr (y # ys)))"

fun first_error :: "('a \<Rightarrow> ErrorCode) \<Rightarrow> 'a list \<Rightarrow> ErrorCode" where
  "first_error f [] = Code_Ok"
| "first_error f (x # xs) = (if f x \<noteq> Code_Ok then f x else first_error f xs)"

lemma rbind_Inr: "rbind r f = Inr y \<longleftrightarrow> (\<exists>x. r = Inr x \<and> f x = Inr y)"
  by (cases r) (auto simp: rbind_def)

lemma require_Inr: "require status r = Inr y \<longleftrightarrow> status = Code_Ok \<and> r = Inr y"
  by (simp add: require_def)

lemma map_result_Inr: "map_result f xs = Inr ys \<longleftrightarrow> list_all2 (\<lambda>x y. f x = Inr y) xs ys"
proof (induction xs arbitrary: ys)
  case (Cons x xs)
  then show ?case by (cases ys) (auto simp: rbind_Inr)
qed auto

lemma first_error_Ok: "first_error f xs = Code_Ok \<longleftrightarrow> (\<forall>x\<in>set xs. f x = Code_Ok)"
  by (induction xs) auto

lemma first_error_cases: "first_error f xs = err \<Longrightarrow> err \<noteq> Code_Ok \<Longrightarrow> \<exists>x\<in>set xs. f x = err"
  by (induction xs) (auto split: if_splits)

lemmas result_simps = rbind_Inr require_Inr map_result_Inr first_error_Ok

text \<open>\<^verbatim>\<open>WithLocation\<close> rebuilds a status with a longer text and knows every code but \<open>RecordTooLarge\<close>. Only an error of the catalog
  could have that one, so it appears below where such an error is passed on.\<close>

definition WithLocation :: "ErrorCode \<Rightarrow> ErrorCode" where
  "WithLocation code = (if code = RecordTooLarge then InternalError else code)"

subsection \<open>Schemas and values\<close>

text \<open>A text that is longer than its column; the callers have compared the types before.\<close>

definition too_long :: "Value \<Rightarrow> Column \<Rightarrow> bool" where
  "too_long v column \<longleftrightarrow>
     col_type column = DT_Varchar \<and>
     (case (col_length column, AsVarchar v) of (Some n, Some s) \<Rightarrow> length s > n | _ \<Rightarrow> False)"

definition CheckPredicate :: "Predicate \<Rightarrow> Schema \<Rightarrow> ErrorCode" where
  "CheckPredicate predicate schema =
     (case FindColumn schema (pred_column predicate) of
        Inl _ \<Rightarrow> NotFound
      | Inr column \<Rightarrow>
          if pred_kind predicate = PK_IsNull \<or> pred_kind predicate = PK_IsNotNull then Code_Ok
          else if IsNull (pred_value predicate) then InvalidArgument
          else if col_type column \<noteq> Value_type (pred_value predicate) then TypeMismatch
          else if too_long (pred_value predicate) column then InvalidArgument
          else Code_Ok)"

definition check_default :: "Column \<Rightarrow> ErrorCode" where
  "check_default column =
     (case default_value column of
        None \<Rightarrow> Code_Ok
      | Some v \<Rightarrow>
          if IsNull v then (if \<not> nullable column then InvalidArgument else Code_Ok)
          else if Value_type v \<noteq> col_type column then TypeMismatch
          else if too_long v column then InvalidArgument
          else Code_Ok)"

fun check_columns :: "string list \<Rightarrow> nat \<Rightarrow> Column list \<Rightarrow> ErrorCode" where
  "check_columns names primary_key_count [] = (if primary_key_count > 1 then InvalidArgument else Code_Ok)"
| "check_columns names primary_key_count (column # columns) =
     (if col_name column = [] then InvalidArgument
      else if col_name column \<in> set names then AlreadyExists
      else if col_type column = DT_Int \<and> col_length column \<noteq> None then InvalidArgument
      else if col_type column = DT_Varchar \<and> col_length column = Some 0 then InvalidArgument
      else if primary_key column \<and> nullable column then InvalidArgument
      else if check_default column \<noteq> Code_Ok then check_default column
      else check_columns (col_name column # names)
             (if primary_key column then primary_key_count + 1 else primary_key_count) columns)"

definition CheckSchema :: "Schema \<Rightarrow> ErrorCode" where
  "CheckSchema schema = (if schema = [] then InvalidArgument else check_columns [] 0 schema)"

definition RequireTable :: "CatalogView \<Rightarrow> string \<Rightarrow> TableMetadata Result" where
  "RequireTable catalog table_name =
     (case FindTable catalog table_name of
        Inl _ \<Rightarrow> Inl NotFound
      | Inr None \<Rightarrow> Inl InternalError
      | Inr (Some table) \<Rightarrow> Inr table)"

definition CheckInsertValue :: "Value \<Rightarrow> Column \<Rightarrow> ErrorCode" where
  "CheckInsertValue v column =
     (if IsNull v then (if \<not> nullable column then InvalidArgument else Code_Ok)
      else if Value_type v \<noteq> col_type column then TypeMismatch
      else if too_long v column then InvalidArgument
      else Code_Ok)"

subsection \<open>The rows of an INSERT\<close>

fun named_targets :: "Schema \<Rightarrow> string list \<Rightarrow> string list \<Rightarrow> nat list Result" where
  "named_targets schema seen [] = Inr []"
| "named_targets schema seen (column_name # columns) =
     (if column_name \<in> set seen then Inl AlreadyExists
      else
        (case FindColumnIndex schema column_name of
           Inl _ \<Rightarrow> Inl NotFound
         | Inr index \<Rightarrow>
             rbind (named_targets schema (column_name # seen) columns) (\<lambda>indexes. Inr (index # indexes))))"

definition target_indexes :: "Schema \<Rightarrow> string list \<Rightarrow> nat list Result" where
  "target_indexes schema columns =
     (if columns = [] then Inr [0..<length schema] else named_targets schema [] columns)"

text \<open>The values of one row go to their columns; \<open>provided\<close> marks the columns that got one.\<close>

fun place_values :: "Schema \<Rightarrow> (nat \<times> Value) list \<Rightarrow> Row \<Rightarrow> bool list \<Rightarrow> (Row \<times> bool list) Result" where
  "place_values schema [] normalized provided = Inr (normalized, provided)"
| "place_values schema ((index, v) # values) normalized provided =
     require (CheckInsertValue v (schema ! index))
       (place_values schema values (normalized[index := v]) (provided[index := True]))"

text \<open>The other columns get their default, or NULL where they allow it.\<close>

definition fill_column :: "Column \<times> Value \<times> bool \<Rightarrow> Value Result" where
  "fill_column = (\<lambda>(column, v, provided).
     if provided then Inr v
     else
       (case default_value column of
          Some d \<Rightarrow> Inr d
        | None \<Rightarrow> if nullable column then Inr VNull else Inl InvalidArgument))"

definition normalize_row :: "Schema \<Rightarrow> nat list \<Rightarrow> Row \<Rightarrow> Row Result" where
  "normalize_row schema targets row =
     (if length row \<noteq> length targets then Inl InvalidArgument
      else
        rbind (place_values schema (zip targets row) (replicate (length schema) VNull) (replicate (length schema) False))
          (\<lambda>(normalized, provided). map_result fill_column (zip schema (zip normalized provided))))"

definition NormalizeInsertRows :: "Row list \<Rightarrow> string list \<Rightarrow> Schema \<Rightarrow> Row list Result" where
  "NormalizeInsertRows rows columns schema =
     (if rows = [] then Inl InvalidArgument
      else rbind (target_indexes schema columns) (\<lambda>targets. map_result (normalize_row schema targets) rows))"

subsection \<open>The types of expressions\<close>

datatype CompileType = CT_Int | CT_Varchar | CT_Bool | CT_Null | CT_Invalid

definition CompileTypeName :: "CompileType \<Rightarrow> string" where
  "CompileTypeName ty =
     (case ty of
        CT_Int \<Rightarrow> ''INT'' | CT_Varchar \<Rightarrow> ''VARCHAR'' | CT_Bool \<Rightarrow> ''BOOL'' | CT_Null \<Rightarrow> ''NULL'' | CT_Invalid \<Rightarrow> ''INVALID'')"

definition ToPlanValueType :: "CompileType \<Rightarrow> PlanValueType" where
  "ToPlanValueType ty =
     (if ty = CT_Int then PV_Int else if ty = CT_Varchar then PV_Varchar else if ty = CT_Null then PV_Null else PV_Bool)"

definition column_plan_type :: "DataType \<Rightarrow> PlanValueType" where
  "column_plan_type ty = (if ty = DT_Int then PV_Int else PV_Varchar)"

definition check_literal :: "CompileLiteralKind \<Rightarrow> CompileType" where
  "check_literal kind =
     (if kind = LK_Int then CT_Int else if kind = LK_String then CT_Varchar else if kind = LK_Null then CT_Null else CT_Bool)"

definition check_unary :: "string \<Rightarrow> CompileType \<Rightarrow> CompileType Result" where
  "check_unary op operand =
     (if operand = CT_Null then Inr CT_Null
      else if op = ''not'' then (if operand \<noteq> CT_Bool then Inl TypeMismatch else Inr CT_Bool)
      else if op = ''-'' then (if operand \<noteq> CT_Int then Inl TypeMismatch else Inr CT_Int)
      else Inl InvalidArgument)"

definition check_between :: "CompileType \<Rightarrow> CompileType \<Rightarrow> CompileType \<Rightarrow> CompileType Result" where
  "check_between operand lower upper =
     (if operand \<noteq> CT_Null \<and> lower \<noteq> CT_Null \<and> upper \<noteq> CT_Null \<and> (operand \<noteq> lower \<or> operand \<noteq> upper)
      then Inl TypeMismatch else Inr CT_Bool)"

fun check_options :: "CompileType \<Rightarrow> CompileType Result list \<Rightarrow> CompileType Result" where
  "check_options operand [] = Inr CT_Bool"
| "check_options operand (option # options) =
     rbind option (\<lambda>ty.
       if ty \<noteq> CT_Null \<and> operand \<noteq> CT_Null \<and> ty \<noteq> operand then Inl TypeMismatch
       else check_options operand options)"

definition comparison_ops :: "string list" where
  "comparison_ops = [''>'', ''>='', ''<'', ''<='', ''='', ''!='', ''<>'']"

definition check_binary :: "string \<Rightarrow> CompileType \<Rightarrow> CompileType \<Rightarrow> CompileType Result" where
  "check_binary op left right =
     (let some_null = left = CT_Null \<or> right = CT_Null in
      if op = ''and'' \<or> op = ''or'' then
        (if some_null then Inr CT_Null
         else if left \<noteq> CT_Bool \<or> right \<noteq> CT_Bool then Inl TypeMismatch else Inr CT_Bool)
      else if op = ''+'' \<or> op = ''-'' \<or> op = ''*'' \<or> op = ''/'' then
        (if some_null then Inr CT_Null
         else if left \<noteq> CT_Int \<or> right \<noteq> CT_Int then Inl TypeMismatch else Inr CT_Int)
      else if op = ''like'' \<or> op = ''not like'' then
        (if some_null then Inr CT_Null
         else if left \<noteq> CT_Varchar \<or> right \<noteq> CT_Varchar then Inl TypeMismatch else Inr CT_Bool)
      else if op \<in> set comparison_ops then
        (if op = ''='' \<and> some_null then Inl InvalidArgument
         else if some_null then Inr CT_Bool
         else if left \<noteq> right then Inl TypeMismatch else Inr CT_Bool)
      else Inl InvalidArgument)"

text \<open>An aggregate over an argument of the given type.\<close>

definition check_aggregate :: "CompileAggregateKind \<Rightarrow> CompileType \<Rightarrow> CompileType Result" where
  "check_aggregate kind argument =
     (if kind = Agg_Count then Inr CT_Int
      else if kind = Agg_Sum \<or> kind = Agg_Avg then (if argument \<noteq> CT_Int then Inl TypeMismatch else Inr CT_Int)
      else if argument = CT_Bool then Inl TypeMismatch
      else Inr argument)"

text \<open>The type that a planned subquery gives to its expression, before the operand of IN is looked at.\<close>

definition subquery_type :: "CompileSubqueryKind \<Rightarrow> Plan \<Rightarrow> CompileType Result" where
  "subquery_type kind plan =
     (case plan of
        P_Select sp \<Rightarrow>
          if kind = SQ_Exists then Inr CT_Bool
          else if length (sp_output_types sp) \<noteq> 1 then Inl InvalidArgument
          else if hd (sp_output_types sp) = PV_Bool then Inl TypeMismatch
          else
            Inr (case hd (sp_output_types sp) of PV_Int \<Rightarrow> CT_Int | PV_Null \<Rightarrow> CT_Null | _ \<Rightarrow> CT_Varchar)
      | _ \<Rightarrow> Inl InternalError)"

text \<open>The type of an expression over a row of \<open>schema\<close>. \<open>planner\<close> is the planner applied to the catalog, \<open>None\<close> without a catalog.\<close>

fun CheckCompileExpr :: "'q CompileExpr \<Rightarrow> Schema \<Rightarrow> bool \<Rightarrow> ('q \<Rightarrow> Plan Result) option \<Rightarrow> CompileType Result" where
  "CheckCompileExpr E_nullptr schema allow_aggregates planner = Inl InvalidArgument"
| "CheckCompileExpr (E_Column table_name name) schema allow_aggregates planner =
     (case FindColumn schema name of
        Inl _ \<Rightarrow> Inl NotFound
      | Inr column \<Rightarrow> Inr (if col_type column = DT_Int then CT_Int else CT_Varchar))"
| "CheckCompileExpr (E_Literal kind integer text) schema allow_aggregates planner = Inr (check_literal kind)"
| "CheckCompileExpr (E_Unary op operand) schema allow_aggregates planner =
     rbind (CheckCompileExpr operand schema allow_aggregates planner) (check_unary op)"
| "CheckCompileExpr (E_IsNull operand negated) schema allow_aggregates planner =
     rbind (CheckCompileExpr operand schema allow_aggregates planner) (\<lambda>_. Inr CT_Bool)"
| "CheckCompileExpr (E_Between operand lower upper negated) schema allow_aggregates planner =
     rbind (CheckCompileExpr operand schema allow_aggregates planner) (\<lambda>t.
     rbind (CheckCompileExpr lower schema allow_aggregates planner) (\<lambda>l.
     rbind (CheckCompileExpr upper schema allow_aggregates planner) (\<lambda>u. check_between t l u)))"
| "CheckCompileExpr (E_In operand options negated) schema allow_aggregates planner =
     (if options = [] then Inl InvalidArgument
      else
        rbind (CheckCompileExpr operand schema allow_aggregates planner) (\<lambda>t.
        check_options t (map (\<lambda>option. CheckCompileExpr option schema allow_aggregates planner) options)))"
| "CheckCompileExpr (E_Subquery kind query operand negated) schema allow_aggregates planner =
     (case query of
        None \<Rightarrow> Inl InvalidArgument
      | Some q \<Rightarrow>
          (case planner of
             None \<Rightarrow> Inl InternalError
           | Some build \<Rightarrow>
               rbind (rbind (build q) (subquery_type kind)) (\<lambda>ty.
               if kind = SQ_In then
                 rbind (CheckCompileExpr operand schema allow_aggregates planner) (\<lambda>t.
                 if t \<noteq> CT_Null \<and> ty \<noteq> CT_Null \<and> t \<noteq> ty then Inl TypeMismatch else Inr CT_Bool)
               else Inr ty)))"
| "CheckCompileExpr (E_Aggregate kind star argument) schema allow_aggregates planner =
     (if \<not> allow_aggregates then Inl InvalidArgument
      else if star then (if kind \<noteq> Agg_Count then Inl InvalidArgument else Inr CT_Int)
      else if argument = E_nullptr then Inl InvalidArgument
      else rbind (CheckCompileExpr argument schema False planner) (check_aggregate kind))"
| "CheckCompileExpr (E_Binary op left right) schema allow_aggregates planner =
     rbind (CheckCompileExpr left schema allow_aggregates planner) (\<lambda>l.
     rbind (CheckCompileExpr right schema allow_aggregates planner) (\<lambda>r. check_binary op l r))"

text \<open>Only the subqueries of an expression are planned.\<close>

lemma CheckCompileExpr_cong:
  assumes "\<And>q. q \<in> set_CompileExpr e \<Longrightarrow> f q = g q"
  shows "CheckCompileExpr e schema allow_aggregates (Some f) = CheckCompileExpr e schema allow_aggregates (Some g)"
  using assms
proof (induction e arbitrary: allow_aggregates)
  case (E_In operand options negated)
  have "map (\<lambda>option. CheckCompileExpr option schema allow_aggregates (Some f)) options =
      map (\<lambda>option. CheckCompileExpr option schema allow_aggregates (Some g)) options"
    by (intro map_cong[OF refl] E_In.IH(2)) (use E_In.prems in auto)
  moreover have "CheckCompileExpr operand schema allow_aggregates (Some f) = CheckCompileExpr operand schema allow_aggregates (Some g)"
    by (rule E_In.IH(1)) (use E_In.prems in auto)
  ultimately show ?case by (simp only: CheckCompileExpr.simps)
qed (auto simp: rbind_def split: option.splits sum.splits)

subsection \<open>Scopes and groups\<close>

text \<open>Every qualifier names the only table, by its name or its alias.\<close>

fun CheckSingleTableQualifiers :: "'q CompileExpr \<Rightarrow> string \<Rightarrow> string \<Rightarrow> ErrorCode" where
  "CheckSingleTableQualifiers E_nullptr table_name table_alias = Code_Ok"
| "CheckSingleTableQualifiers (E_Column qualifier name) table_name table_alias =
     (if qualifier \<noteq> [] \<and> qualifier \<noteq> table_name \<and> qualifier \<noteq> table_alias then NotFound else Code_Ok)"
| "CheckSingleTableQualifiers (E_Literal kind integer text) table_name table_alias = Code_Ok"
| "CheckSingleTableQualifiers (E_Subquery kind query operand negated) table_name table_alias =
     CheckSingleTableQualifiers operand table_name table_alias"
| "CheckSingleTableQualifiers (E_Unary op operand) table_name table_alias =
     CheckSingleTableQualifiers operand table_name table_alias"
| "CheckSingleTableQualifiers (E_IsNull operand negated) table_name table_alias =
     CheckSingleTableQualifiers operand table_name table_alias"
| "CheckSingleTableQualifiers (E_Aggregate kind star argument) table_name table_alias =
     CheckSingleTableQualifiers argument table_name table_alias"
| "CheckSingleTableQualifiers (E_Binary op left right) table_name table_alias =
     (let status = CheckSingleTableQualifiers left table_name table_alias in
      if status = Code_Ok then CheckSingleTableQualifiers right table_name table_alias else status)"
| "CheckSingleTableQualifiers (E_Between operand lower upper negated) table_name table_alias =
     (let status = CheckSingleTableQualifiers operand table_name table_alias in
      if status \<noteq> Code_Ok then status
      else
        (let status = CheckSingleTableQualifiers lower table_name table_alias in
         if status = Code_Ok then CheckSingleTableQualifiers upper table_name table_alias else status))"
| "CheckSingleTableQualifiers (E_In operand options negated) table_name table_alias =
     (let status = CheckSingleTableQualifiers operand table_name table_alias in
      if status \<noteq> Code_Ok then status
      else first_error id (map (\<lambda>option. CheckSingleTableQualifiers option table_name table_alias) options))"

fun ContainsAggregate :: "'q CompileExpr \<Rightarrow> bool" where
  "ContainsAggregate E_nullptr = False"
| "ContainsAggregate (E_Aggregate kind star argument) = True"
| "ContainsAggregate (E_Column table_name name) = False"
| "ContainsAggregate (E_Literal kind integer text) = False"
| "ContainsAggregate (E_Unary op operand) = ContainsAggregate operand"
| "ContainsAggregate (E_IsNull operand negated) = ContainsAggregate operand"
| "ContainsAggregate (E_Binary op left right) = (ContainsAggregate left \<or> ContainsAggregate right)"
| "ContainsAggregate (E_Between operand lower upper negated) =
     (ContainsAggregate operand \<or> ContainsAggregate lower \<or> ContainsAggregate upper)"
| "ContainsAggregate (E_Subquery kind query operand negated) = False"
| "ContainsAggregate (E_In operand options negated) =
     (ContainsAggregate operand \<or> list_ex ContainsAggregate options)"

fun CheckGroupedExpr :: "'q CompileExpr \<Rightarrow> string list \<Rightarrow> ErrorCode" where
  "CheckGroupedExpr E_nullptr group_columns = Code_Ok"
| "CheckGroupedExpr (E_Column table_name name) group_columns =
     (if name \<notin> set group_columns then InvalidArgument else Code_Ok)"
| "CheckGroupedExpr (E_Literal kind integer text) group_columns = Code_Ok"
| "CheckGroupedExpr (E_Aggregate kind star argument) group_columns = Code_Ok"
| "CheckGroupedExpr (E_Unary op operand) group_columns = CheckGroupedExpr operand group_columns"
| "CheckGroupedExpr (E_IsNull operand negated) group_columns = CheckGroupedExpr operand group_columns"
| "CheckGroupedExpr (E_Binary op left right) group_columns =
     (let status = CheckGroupedExpr left group_columns in
      if status \<noteq> Code_Ok then status else CheckGroupedExpr right group_columns)"
| "CheckGroupedExpr (E_Between operand lower upper negated) group_columns =
     (let status = CheckGroupedExpr operand group_columns in
      if status \<noteq> Code_Ok then status
      else
        (let status = CheckGroupedExpr lower group_columns in
         if status \<noteq> Code_Ok then status else CheckGroupedExpr upper group_columns))"
| "CheckGroupedExpr (E_Subquery kind query operand negated) group_columns = Code_Ok"
| "CheckGroupedExpr (E_In operand options negated) group_columns =
     (let status = CheckGroupedExpr operand group_columns in
      if status \<noteq> Code_Ok then status
      else first_error id (map (\<lambda>option. CheckGroupedExpr option group_columns) options))"

subsection \<open>Joins\<close>

record BoundTable =
  bt_table :: TableMetadata
  bt_name :: string
  bt_alias :: string
  column_offset :: nat

definition VisibleName :: "BoundTable \<Rightarrow> string" where
  "VisibleName b = (if bt_alias b = [] then bt_name b else bt_alias b)"

definition bound_schema :: "BoundTable \<Rightarrow> Schema" where
  "bound_schema b = tab_schema (bt_table b)"

fun resolve_qualified :: "string \<Rightarrow> string \<Rightarrow> nat \<Rightarrow> (nat \<times> nat) option \<Rightarrow> BoundTable list \<Rightarrow> (nat \<times> nat) Result" where
  "resolve_qualified qualifier name table_index resolved [] =
     (case resolved of None \<Rightarrow> Inl NotFound | Some r \<Rightarrow> Inr r)"
| "resolve_qualified qualifier name table_index resolved (b # bs) =
     (if qualifier \<noteq> VisibleName b then resolve_qualified qualifier name (Suc table_index) resolved bs
      else if resolved \<noteq> None then Inl InvalidArgument
      else
        (case FindColumnIndex (bound_schema b) name of
           Inl _ \<Rightarrow> Inl NotFound
         | Inr column_index \<Rightarrow>
             resolve_qualified qualifier name (Suc table_index) (Some (table_index, column_index)) bs))"

fun resolve_plain :: "string \<Rightarrow> nat \<Rightarrow> (nat \<times> nat) option \<Rightarrow> BoundTable list \<Rightarrow> (nat \<times> nat) Result" where
  "resolve_plain name table_index resolved [] = (case resolved of None \<Rightarrow> Inl NotFound | Some r \<Rightarrow> Inr r)"
| "resolve_plain name table_index resolved (b # bs) =
     (case FindColumnIndex (bound_schema b) name of
        Inl _ \<Rightarrow> resolve_plain name (Suc table_index) resolved bs
      | Inr column_index \<Rightarrow>
          if resolved \<noteq> None then Inl InvalidArgument
          else resolve_plain name (Suc table_index) (Some (table_index, column_index)) bs)"

text \<open>The table and the column that a reference means, among the tables bound so far.\<close>

definition ResolveTableColumn :: "string \<Rightarrow> string \<Rightarrow> BoundTable list \<Rightarrow> (nat \<times> nat) Result" where
  "ResolveTableColumn qualifier name tables =
     (if qualifier \<noteq> [] then resolve_qualified qualifier name 0 None tables else resolve_plain name 0 None tables)"

record JoinState =
  js_tables :: "BoundTable list"
  visible_names :: "string list"
  js_root :: PlanNode
  next_column_offset :: nat

definition join_step :: "CatalogView \<Rightarrow> JoinState \<Rightarrow> JoinClause \<Rightarrow> JoinState Result" where
  "join_step catalog js clause =
     rbind (RequireTable catalog (join_table clause)) (\<lambda>right_table.
     let binding = \<lparr>bt_table = right_table, bt_name = join_table clause, bt_alias = join_alias clause,
                    column_offset = next_column_offset js\<rparr>;
         tables = js_tables js @ [binding];
         right_index = length tables - 1;
         condition = join_condition clause
     in
       if VisibleName binding \<in> set (visible_names js) then Inl AlreadyExists
       else
         rbind (ResolveTableColumn (left_table condition) (left_column condition) tables) (\<lambda>l.
         rbind (ResolveTableColumn (JoinCondition.right_table condition) (right_column condition) tables) (\<lambda>r.
         let left_is_new = fst l = right_index;
             right_is_new = fst r = right_index;
             prior = (if left_is_new then r else l);
             new = (if left_is_new then l else r);
             prior_schema_column = bound_schema (tables ! fst prior) ! snd prior;
             new_schema_column = bound_schema binding ! snd new
         in
           if left_is_new = right_is_new then Inl InvalidArgument
           else if col_type prior_schema_column \<noteq> col_type new_schema_column then Inl TypeMismatch
           else
             Inr \<lparr>js_tables = tables, visible_names = VisibleName binding # visible_names js,
                  js_root = N_Join (js_root js) (N_SeqScan (join_table clause)) (join_type clause)
                    (VisibleName (tables ! fst prior)) (col_name prior_schema_column)
                    (VisibleName binding) (col_name new_schema_column)
                    (Some (column_offset (tables ! fst prior) + snd prior)) (Some (snd new)),
                  next_column_offset = next_column_offset js + length (bound_schema binding)\<rparr>)))"

fun join_steps :: "CatalogView \<Rightarrow> JoinState \<Rightarrow> JoinClause list \<Rightarrow> JoinState Result" where
  "join_steps catalog js [] = Inr js"
| "join_steps catalog js (clause # clauses) = rbind (join_step catalog js clause) (\<lambda>js'. join_steps catalog js' clauses)"

text \<open>The columns that a join delivers: their names, types and places in the joined row. A projection is never a null pointer
  here, since the parser fills the list with expressions it has read.\<close>

fun join_columns :: "BoundTable list \<Rightarrow> string list \<Rightarrow> nat \<Rightarrow> string list \<Rightarrow> 'q CompileExpr list \<Rightarrow>
    (string \<times> PlanValueType \<times> nat) list Result" where
  "join_columns tables aliases i projected [] = Inr []"
| "join_columns tables aliases i projected (e # es) =
     (case e of
        E_Column qualifier name \<Rightarrow>
          rbind (ResolveTableColumn qualifier name tables) (\<lambda>(table_index, column_index).
          let output_name = (if i < length aliases \<and> aliases ! i \<noteq> [] then aliases ! i else name);
              output_column = bound_schema (tables ! table_index) ! column_index
          in
            if output_name \<in> set projected then Inl AlreadyExists
            else
              rbind (join_columns tables aliases (Suc i) (output_name # projected) es) (\<lambda>rest.
              Inr ((output_name, column_plan_type (col_type output_column),
                    column_offset (tables ! table_index) + column_index) # rest)))
      | _ \<Rightarrow> Inl NotImplemented)"

definition all_join_columns :: "BoundTable list \<Rightarrow> (string \<times> PlanValueType \<times> nat) list" where
  "all_join_columns tables =
     (let columns = concat (map bound_schema tables)
      in map (\<lambda>i. (col_name (columns ! i), column_plan_type (col_type (columns ! i)), i)) [0..<length columns])"

definition join_start :: "TableMetadata \<Rightarrow> SelectStatement \<Rightarrow> JoinState" where
  "join_start table s =
     (let first = \<lparr>bt_table = table, bt_name = sel_table_name s, bt_alias = sel_table_alias s, column_offset = 0\<rparr>
      in \<lparr>js_tables = [first], visible_names = [VisibleName first], js_root = N_SeqScan (sel_table_name s),
          next_column_offset = length (tab_schema table)\<rparr>)"

definition join_result :: "SelectStatement \<Rightarrow> JoinState \<Rightarrow> (string \<times> PlanValueType \<times> nat) list \<Rightarrow> SelectPlan" where
  "join_result s js columns =
     \<lparr>sp_table_name = sel_table_name s,
      sp_root = N_Project (js_root js) (map fst columns) (sel_select_all s) (map (\<lambda>c. snd (snd c)) columns),
      sp_distinct = sel_distinct s, sp_limit = sel_limit s, sp_projection_aliases = sel_projection_aliases s,
      sp_table_alias = sel_table_alias s, sp_projection_expressions = sel_projection_expressions s,
      sp_having = E_nullptr, sp_has_aggregates = False, sp_output_types = map (\<lambda>c. fst (snd c)) columns\<rparr>"

definition build_join :: "CatalogView \<Rightarrow> TableMetadata \<Rightarrow> SelectStatement \<Rightarrow> SelectPlan Result" where
  "build_join catalog table s =
     (if \<not> sel_select_all s \<and> length (sel_projection_expressions s) \<noteq> length (sel_projection s) then Inl InvalidArgument
      else if sel_where s \<noteq> None \<or> sel_compile_where s \<noteq> E_nullptr \<or> sel_group_by s \<noteq> [] \<or> sel_having s \<noteq> E_nullptr \<or>
              sel_order_by s \<noteq> [] then Inl NotImplemented
      else
        rbind (join_steps catalog (join_start table s) (sel_joins s)) (\<lambda>js.
        rbind (if sel_select_all s then Inr (all_join_columns (js_tables js))
               else join_columns (js_tables js) (sel_projection_aliases s) 0 [] (sel_projection_expressions s)) (\<lambda>columns.
        Inr (join_result s js columns))))"

subsection \<open>SELECT over one table\<close>

text \<open>The condition of a WHERE or a HAVING: its type has to be BOOL.\<close>

definition check_condition :: "('q \<Rightarrow> Plan Result) \<Rightarrow> Schema \<Rightarrow> bool \<Rightarrow> 'q CompileExpr \<Rightarrow> ErrorCode" where
  "check_condition planner schema allow_aggregates e =
     (case CheckCompileExpr e schema allow_aggregates (Some planner) of
        Inl err \<Rightarrow> err
      | Inr ty \<Rightarrow> if ty \<noteq> CT_Bool then TypeMismatch else Code_Ok)"

definition check_where :: "('q \<Rightarrow> Plan Result) \<Rightarrow> Schema \<Rightarrow> 'q CompileExpr \<Rightarrow> ErrorCode" where
  "check_where planner schema e = (if e \<noteq> E_nullptr then check_condition planner schema False e else Code_Ok)"

text \<open>The projections in order, each a new name with an expression; their types.\<close>

fun check_projection :: "('q \<Rightarrow> Plan Result) \<Rightarrow> Schema \<Rightarrow> string \<Rightarrow> string \<Rightarrow> string list \<Rightarrow> (string \<times> 'q CompileExpr) list \<Rightarrow>
    PlanValueType list Result" where
  "check_projection planner schema table_name table_alias projected [] = Inr []"
| "check_projection planner schema table_name table_alias projected ((name, e) # items) =
     (if name \<in> set projected then Inl AlreadyExists
      else if e = E_nullptr then Inl InvalidArgument
      else
        require (CheckSingleTableQualifiers e table_name table_alias)
          (rbind (CheckCompileExpr e schema True (Some planner)) (\<lambda>ty.
           rbind (check_projection planner schema table_name table_alias (name # projected) items) (\<lambda>tys.
           Inr (ToPlanValueType ty # tys)))))"

definition check_having :: "(SelectStatement \<Rightarrow> Plan Result) \<Rightarrow> Schema \<Rightarrow> SelectStatement \<Rightarrow> ErrorCode" where
  "check_having planner schema s =
     (if sel_having s = E_nullptr then Code_Ok
      else if sel_group_by s = [] then InvalidArgument
      else
        (let status = CheckSingleTableQualifiers (sel_having s) (sel_table_name s) (sel_table_alias s) in
         if status \<noteq> Code_Ok then status else check_condition planner schema True (sel_having s)))"

definition column_exists :: "Schema \<Rightarrow> string \<Rightarrow> ErrorCode" where
  "column_exists schema name = (case FindColumn schema name of Inl _ \<Rightarrow> NotFound | Inr _ \<Rightarrow> Code_Ok)"

definition check_predicate :: "Predicate option \<Rightarrow> Schema \<Rightarrow> ErrorCode" where
  "check_predicate condition schema = (case condition of None \<Rightarrow> Code_Ok | Some p \<Rightarrow> CheckPredicate p schema)"

definition no_predicate :: Predicate where
  "no_predicate = \<lparr>pred_kind = PK_Equal, pred_column = [], pred_value = VNull\<rparr>"

definition projection_indexes :: "Schema \<Rightarrow> 'q CompileExpr list \<Rightarrow> nat list" where
  "projection_indexes schema es =
     (case map_result (\<lambda>e. case e of E_Column qualifier name \<Rightarrow> FindColumnIndex schema name | _ \<Rightarrow> Inl NotFound) es of
        Inl _ \<Rightarrow> []
      | Inr indexes \<Rightarrow> indexes)"

text \<open>From the leaf to the root: scan, filter, grouping, ordering, projection.\<close>

definition select_tree :: "Schema \<Rightarrow> SelectStatement \<Rightarrow> PlanNode" where
  "select_tree schema s =
     (let scan = N_SeqScan (sel_table_name s);
          filtered = (if sel_compile_where s \<noteq> E_nullptr
            then N_Filter scan (case sel_where s of None \<Rightarrow> no_predicate | Some p \<Rightarrow> p) (sel_compile_where s) else scan);
          grouped = (if sel_group_by s \<noteq> [] then N_GroupBy filtered (sel_group_by s) else filtered);
          ordered = (if sel_order_by s \<noteq> [] then N_OrderBy grouped (sel_order_by s) else grouped)
      in N_Project ordered (sel_projection s) (sel_select_all s)
           (if sel_select_all s then [] else projection_indexes schema (sel_projection_expressions s)))"

definition projection_items :: "SelectStatement \<Rightarrow> (string \<times> Expr) list" where
  "projection_items s =
     zip (sel_projection s)
       (if sel_projection_expressions s = [] then replicate (length (sel_projection s)) E_nullptr else sel_projection_expressions s)"

definition has_aggregates :: "SelectStatement \<Rightarrow> bool" where
  "has_aggregates s \<longleftrightarrow>
     list_ex (\<lambda>item. ContainsAggregate (snd item)) (projection_items s) \<or> ContainsAggregate (sel_having s)"

definition check_grouping :: "SelectStatement \<Rightarrow> ErrorCode" where
  "check_grouping s =
     (if has_aggregates s \<or> sel_group_by s \<noteq> [] \<or> sel_having s \<noteq> E_nullptr then
        (let status = first_error (\<lambda>e. CheckGroupedExpr e (sel_group_by s)) (sel_projection_expressions s) in
         if status \<noteq> Code_Ok then status else CheckGroupedExpr (sel_having s) (sel_group_by s))
      else Code_Ok)"

definition build_single :: "(SelectStatement \<Rightarrow> Plan Result) \<Rightarrow> TableMetadata \<Rightarrow> SelectStatement \<Rightarrow> SelectPlan Result" where
  "build_single planner table s =
     (let schema = tab_schema table in
      if sel_projection_aliases s \<noteq> [] \<and> length (sel_projection_aliases s) \<noteq> length (sel_projection s) then Inl InvalidArgument
      else if sel_projection_expressions s \<noteq> [] \<and> length (sel_projection_expressions s) \<noteq> length (sel_projection s)
      then Inl InvalidArgument
      else
        require (CheckSingleTableQualifiers (sel_compile_where s) (sel_table_name s) (sel_table_alias s))
        (require (check_where planner schema (sel_compile_where s))
        (if sel_select_all s \<and> sel_projection s \<noteq> [] then Inl InvalidArgument
         else
           rbind (check_projection planner schema (sel_table_name s) (sel_table_alias s) [] (projection_items s)) (\<lambda>types.
           require (first_error (column_exists schema) (sel_group_by s))
           (require (first_error (column_exists schema) (map key_column (sel_order_by s)))
           (require (check_predicate (sel_where s) schema)
           (require (check_having planner schema s)
           (require (check_grouping s)
           (Inr \<lparr>sp_table_name = sel_table_name s, sp_root = select_tree schema s, sp_distinct = sel_distinct s,
                 sp_limit = sel_limit s, sp_projection_aliases = sel_projection_aliases s,
                 sp_table_alias = sel_table_alias s, sp_projection_expressions = sel_projection_expressions s,
                 sp_having = sel_having s, sp_has_aggregates = has_aggregates s,
                 sp_output_types =
                   (if sel_select_all s then map (\<lambda>c. column_plan_type (col_type c)) schema else []) @ types\<rparr>))))))))) "

definition build_select :: "(SelectStatement \<Rightarrow> Plan Result) \<Rightarrow> CatalogView \<Rightarrow> SelectStatement \<Rightarrow> Plan Result" where
  "build_select planner catalog s =
     rbind (RequireTable catalog (sel_table_name s)) (\<lambda>table.
     rbind (if sel_joins s \<noteq> [] then build_join catalog table s else build_single planner table s) (\<lambda>sp. Inr (P_Select sp)))"

text \<open>The optimizer gets the indexes of the table of a SELECT.\<close>

definition finish_plan :: "CatalogView \<Rightarrow> Plan \<Rightarrow> Plan Result" where
  "finish_plan catalog plan =
     Optimize plan (case plan of P_Select sp \<Rightarrow> ListTableIndexes catalog (sp_table_name sp) | _ \<Rightarrow> [])"

subsection \<open>Subqueries\<close>

definition subqueries :: "SelectStatement \<Rightarrow> SelectStatement set" where
  "subqueries s =
     \<Union> (set_CompileExpr ` (set (sel_projection_expressions s) \<union> {sel_compile_where s, sel_having s}))"

lemma check_condition_cong:
  "(\<And>q. q \<in> set_CompileExpr e \<Longrightarrow> f q = g q) \<Longrightarrow>
   check_condition f schema allow e = check_condition g schema allow e"
  by (simp add: check_condition_def CheckCompileExpr_cong[of e f g])

lemma check_projection_cong:
  "(\<And>q. q \<in> \<Union> ((\<lambda>item. set_CompileExpr (snd item)) ` set items) \<Longrightarrow> f q = g q) \<Longrightarrow>
   check_projection f schema table_name table_alias projected items =
   check_projection g schema table_name table_alias projected items"
proof (induction items arbitrary: projected)
  case (Cons item items)
  have "CheckCompileExpr (snd item) schema True (Some f) = CheckCompileExpr (snd item) schema True (Some g)"
    by (rule CheckCompileExpr_cong) (use Cons.prems in auto)
  then show ?case using Cons by (cases item) auto
qed simp

lemma build_select_cong [fundef_cong]:
  assumes "catalog = catalog'" "s = s'" "\<And>q. q \<in> subqueries s' \<Longrightarrow> f q = g q"
  shows "build_select f catalog s = build_select g catalog' s'"
proof -
  have items: "snd item = E_nullptr \<or> snd item \<in> set (sel_projection_expressions s)" if "item \<in> set (projection_items s)" for item
    using that set_zip_rightD[of "fst item" "snd item"] by (auto simp: projection_items_def split: if_splits) (metis in_set_replicate)+
  have "check_projection f schema n a p (projection_items s) = check_projection g schema n a p (projection_items s)" for schema n a p
    by (rule check_projection_cong) (use assms(2,3) items in \<open>fastforce simp: subqueries_def\<close>)
  moreover have "check_where f schema (sel_compile_where s) = check_where g schema (sel_compile_where s)" for schema
    using assms(2,3) by (auto simp: check_where_def subqueries_def intro!: check_condition_cong)
  moreover have "check_having f schema s = check_having g schema s" for schema
    using assms(2,3) by (auto simp: check_having_def subqueries_def Let_def intro!: check_condition_cong)
  ultimately have "build_single f table s = build_single g table s" for table
    by (simp only: build_single_def)
  then have "(\<lambda>table. if sel_joins s \<noteq> [] then build_join catalog table s else build_single f table s) =
      (\<lambda>table. if sel_joins s \<noteq> [] then build_join catalog table s else build_single g table s)"
    by (intro ext) (simp only: )
  then show ?thesis unfolding build_select_def assms(1,2)[symmetric] by metis
qed

lemma size_set_CompileExpr: "q \<in> set_CompileExpr e \<Longrightarrow> f q < size_CompileExpr f e"
proof (induction e)
  case (E_In operand options negated)
  then show ?case using size_list_estimation[of _ options "f q" "size_CompileExpr f"] by fastforce
next
  case (E_Subquery kind query operand negated)
  then show ?case by (cases query) auto
qed auto

lemma subqueries_size: "q \<in> subqueries s \<Longrightarrow> size q < size s"
proof (cases s)
  case (SelectStatement a b c d es g h i w k v l m n p)
  assume "q \<in> subqueries s"
  then consider e where "e \<in> set es" "q \<in> set_CompileExpr e" | "q \<in> set_CompileExpr w" | "q \<in> set_CompileExpr v"
    by (auto simp: subqueries_def SelectStatement)
  then show "size q < size s"
  proof cases
    case 1
    then have "size q < size_CompileExpr size e" "size_CompileExpr size e \<le> size_list (size_CompileExpr size) es"
      using size_set_CompileExpr size_list_estimation'[of e es "size_CompileExpr size e"] by auto
    then show ?thesis by (simp add: SelectStatement)
  qed (use size_set_CompileExpr[of q _ size] in \<open>fastforce simp: SelectStatement\<close>)+
qed

function PlanSelect :: "CatalogView \<Rightarrow> SelectStatement \<Rightarrow> Plan Result" where
  "PlanSelect catalog s = rbind (build_select (PlanSelect catalog) catalog s) (finish_plan catalog)"
  by auto
termination
  by (relation "measure (\<lambda>(catalog, s). size s)") (simp_all add: subqueries_size)

declare PlanSelect.simps [simp del]

subsection \<open>All statements\<close>

definition check_alter :: "CatalogView \<Rightarrow> Schema \<Rightarrow> AlterTableAction \<Rightarrow> ErrorCode" where
  "check_alter catalog schema action =
     (case action of
        RenameTable new_name \<Rightarrow>
          if new_name = [] then InvalidArgument
          else (case FindTable catalog new_name of Inr _ \<Rightarrow> AlreadyExists | Inl err \<Rightarrow> if err \<noteq> NotFound then WithLocation err else Code_Ok)
      | RenameColumn column_name new_name \<Rightarrow>
          if column_exists schema column_name \<noteq> Code_Ok then NotFound
          else if new_name = [] then InvalidArgument
          else if column_exists schema new_name = Code_Ok then AlreadyExists
          else Code_Ok
      | AddColumn column \<Rightarrow>
          if col_name column = [] then InvalidArgument
          else if column_exists schema (col_name column) = Code_Ok then AlreadyExists
          else if CheckSchema [column] \<noteq> Code_Ok then CheckSchema [column]
          else (case default_value column of None \<Rightarrow> Code_Ok | Some v \<Rightarrow> CheckInsertValue v column))"

text \<open>DELETE and UPDATE accept only a condition that was reduced to a predicate.\<close>

definition check_simple_where ::
  "(SelectStatement \<Rightarrow> Plan Result) \<Rightarrow> Schema \<Rightarrow> Predicate option \<Rightarrow> Expr \<Rightarrow> ErrorCode" where
  "check_simple_where planner schema condition e =
     (if check_where planner schema e \<noteq> Code_Ok then check_where planner schema e
      else if e \<noteq> E_nullptr \<and> condition = None then NotImplemented
      else Code_Ok)"

fun check_assignments :: "(SelectStatement \<Rightarrow> Plan Result) \<Rightarrow> Schema \<Rightarrow> string list \<Rightarrow> UpdateAssignment list \<Rightarrow> ErrorCode" where
  "check_assignments planner schema updated [] = Code_Ok"
| "check_assignments planner schema updated (a # as) =
     (if asg_column a \<in> set updated then AlreadyExists
      else
        (case FindColumn schema (asg_column a) of
           Inl _ \<Rightarrow> NotFound
         | Inr column \<Rightarrow>
             (case CheckCompileExpr (asg_expression a) schema False (Some planner) of
                Inl err \<Rightarrow> err
              | Inr ty \<Rightarrow>
                  if ty \<noteq> (if col_type column = DT_Int then CT_Int else CT_Varchar) then TypeMismatch
                  else if (case asg_value a of None \<Rightarrow> False | Some v \<Rightarrow> too_long v column) then InvalidArgument
                  else check_assignments planner schema (asg_column a # updated) as)))"

definition build_statement :: "CatalogView \<Rightarrow> Statement \<Rightarrow> Plan Result" where
  "build_statement catalog statement =
     (case statement of
        St_Begin location \<Rightarrow> Inr P_Begin
      | St_Commit location \<Rightarrow> Inr P_Commit
      | St_Rollback location \<Rightarrow> Inr P_Rollback
      | St_CreateTable table_name schema location \<Rightarrow>
          require (CheckSchema schema)
            (case FindTable catalog table_name of
               Inr _ \<Rightarrow> Inl AlreadyExists
             | Inl err \<Rightarrow> if err \<noteq> NotFound then Inl (WithLocation err) else Inr (P_CreateTable table_name schema))
      | St_Insert table_name columns rows location \<Rightarrow>
          rbind (RequireTable catalog table_name) (\<lambda>table.
          rbind (NormalizeInsertRows rows columns (tab_schema table)) (\<lambda>rows'. Inr (P_Insert table_name columns rows')))
      | St_Select s \<Rightarrow> build_select (PlanSelect catalog) catalog s
      | St_Delete table_name condition e location \<Rightarrow>
          rbind (RequireTable catalog table_name) (\<lambda>table.
          require (check_simple_where (PlanSelect catalog) (tab_schema table) condition e)
          (require (check_predicate condition (tab_schema table)) (Inr (P_Delete table_name condition))))
      | St_DropTable table_name location \<Rightarrow>
          rbind (RequireTable catalog table_name) (\<lambda>table. Inr (P_DropTable table_name))
      | St_AlterTable table_name action location \<Rightarrow>
          rbind (RequireTable catalog table_name) (\<lambda>table.
          require (check_alter catalog (tab_schema table) action) (Inr (P_AlterTable table_name action)))
      | St_CreateIndex index_name table_name column_name is_unique location \<Rightarrow>
          rbind (RequireTable catalog table_name) (\<lambda>table.
          (case FindColumn (tab_schema table) column_name of
             Inl _ \<Rightarrow> Inl NotFound
           | Inr column \<Rightarrow>
               if col_type column \<noteq> DT_Int then Inl TypeMismatch
               else Inr (P_CreateIndex index_name table_name column_name is_unique)))
      | St_DropIndex index_name location \<Rightarrow> Inr (P_DropIndex index_name)
      | St_Explain s location \<Rightarrow>
          rbind (PlanSelect catalog s) (\<lambda>plan. case plan of P_Select sp \<Rightarrow> Inr (P_Explain sp) | _ \<Rightarrow> Inl InternalError)
      | St_Update table_name assignments condition e location \<Rightarrow>
          rbind (RequireTable catalog table_name) (\<lambda>table.
          require (check_simple_where (PlanSelect catalog) (tab_schema table) condition e)
          (require (check_assignments (PlanSelect catalog) (tab_schema table) [] assignments)
          (require (check_predicate condition (tab_schema table)) (Inr (P_Update table_name assignments condition))))))"

definition Build :: "CatalogView \<Rightarrow> Statement \<Rightarrow> Plan Result" where
  "Build catalog statement = rbind (build_statement catalog statement) (finish_plan catalog)"

lemma Build_select: "Build catalog (St_Select s) = PlanSelect catalog s"
  by (simp add: Build_def build_statement_def PlanSelect.simps[of catalog s])

end
