(* ===== verification/Executor.thy ===== *)
theory Executor
  imports Planner
begin

text \<open>
  The execution of a SELECT (\<^verbatim>\<open>execution/executor.cpp\<close>): the operators, the construction of the pipeline of a plan, and the subqueries. An
  operator is pulled row by row; it is modelled by what it delivers, a list of rows that ends early at the first error, since every
  consumer stops there. What the operators read of the tables and indexes is an argument: the catalog, the scan of
  a table, the lookup in an index and the row at an address.
\<close>

type_synonym RowEntry = "RID \<times> Row"
type_synonym RowSource = "RowEntry Result list"

record Database = CatalogView +
  BeginScan :: "TableMetadata \<Rightarrow> RowSource Result"
  FindIndex :: "string \<Rightarrow> IndexMetadata Result"
  Lookup :: "string \<Rightarrow> i64 \<Rightarrow> RID list Result"
  GetRow :: "TableMetadata \<Rightarrow> RID \<Rightarrow> Row Result"

subsection \<open>Operators\<close>

lemma FilterSource_Next_shorter:
  "FilterSource_Next column_index predicate expression schema runner child = (child', Inr (Some entry)) \<Longrightarrow>
   length child' < length child"
  by (induction child) (auto split: sum.splits if_splits)

text \<open>The rows that a filter delivers when it is pulled to the end.\<close>

function FilterSource :: "nat \<Rightarrow> Predicate \<Rightarrow> 'q CompileExpr \<Rightarrow> Schema \<Rightarrow> 'q SubqueryRunner option \<Rightarrow> RowSource \<Rightarrow> RowSource" where
  "FilterSource column_index predicate expression schema runner child =
     (case FilterSource_Next column_index predicate expression schema runner child of
        (child', Inl err) \<Rightarrow> [Inl err]
      | (child', Inr None) \<Rightarrow> []
      | (child', Inr (Some entry)) \<Rightarrow> Inr entry # FilterSource column_index predicate expression schema runner child')"
  by auto
termination
  by (relation "measure (\<lambda>(column_index, predicate, expression, schema, runner, child). length child)")
    (auto dest: FilterSource_Next_shorter[OF sym])

declare FilterSource.simps [simp del]

text \<open>An operator that changes each row on its own.\<close>

fun map_source :: "(RowEntry \<Rightarrow> RowEntry Result) \<Rightarrow> RowSource \<Rightarrow> RowSource" where
  "map_source f [] = []"
| "map_source f (Inl err # child) = [Inl err]"
| "map_source f (Inr entry # child) =
     (case f entry of Inl err \<Rightarrow> [Inl err] | Inr entry' \<Rightarrow> Inr entry' # map_source f child)"

definition project_expressions ::
  "'q CompileExpr list \<Rightarrow> Schema \<Rightarrow> 'q SubqueryRunner option \<Rightarrow> Row list option \<Rightarrow> Row \<Rightarrow> Row Result" where
  "project_expressions expressions schema runner members row =
     map_result (\<lambda>e. rbind (EvaluateExpression e row schema members runner) ToStorageValue) expressions"

definition ExpressionProjectSource :: "'q CompileExpr list \<Rightarrow> Schema \<Rightarrow> 'q SubqueryRunner option \<Rightarrow> RowSource \<Rightarrow> RowSource" where
  "ExpressionProjectSource expressions schema runner =
     map_source (\<lambda>(rid, row). rbind (project_expressions expressions schema runner None row) (\<lambda>row'. Inr (rid, row')))"

definition ProjectSource :: "nat list \<Rightarrow> Schema \<Rightarrow> RowSource \<Rightarrow> RowSource" where
  "ProjectSource indexes schema =
     map_source (\<lambda>(rid, row).
       if length row \<noteq> length schema then Inl InvalidArgument else Inr (rid, map (\<lambda>index. row ! index) indexes))"

fun LimitSource :: "nat \<Rightarrow> RowSource \<Rightarrow> RowSource" where
  "LimitSource 0 child = []"
| "LimitSource (Suc n) [] = []"
| "LimitSource (Suc n) (Inl err # child) = [Inl err]"
| "LimitSource (Suc n) (Inr entry # child) = Inr entry # LimitSource n child"

fun DistinctSource :: "Row list \<Rightarrow> RowSource \<Rightarrow> RowSource" where
  "DistinctSource seen [] = []"
| "DistinctSource seen (Inl err # child) = [Inl err]"
| "DistinctSource seen (Inr entry # child) =
     (if list_ex (\<lambda>row. row = snd entry) seen then DistinctSource seen child
      else Inr entry # DistinctSource (seen @ [snd entry]) child)"

fun Materialize :: "RowSource \<Rightarrow> RowEntry list Result" where
  "Materialize [] = Inr []"
| "Materialize (Inl err # child) = Inl err"
| "Materialize (Inr entry # child) = rbind (Materialize child) (\<lambda>rows. Inr (entry # rows))"

abbreviation MaterializedSource :: "RowEntry list \<Rightarrow> RowSource" where
  "MaterializedSource rows \<equiv> map Inr rows"

subsection \<open>Joins\<close>

definition join_matches :: "nat \<Rightarrow> nat \<Rightarrow> Row \<Rightarrow> Row \<Rightarrow> bool" where
  "join_matches left_index right_index left right \<longleftrightarrow>
     (let lhs = left ! left_index; rhs = right ! right_index in \<not> (IsNull lhs \<or> IsNull rhs \<or> lhs \<noteq> rhs))"

text \<open>One row of the left side against all rows of the right side: the joined rows, the updated marks of the right rows, and whether it matched.\<close>

fun join_rights :: "nat \<Rightarrow> nat \<Rightarrow> RowEntry \<Rightarrow> RowEntry list \<Rightarrow> bool list \<Rightarrow> RowEntry list \<times> bool list \<times> bool" where
  "join_rights left_index right_index left (right # rights) (mark # marks) =
     (case join_rights left_index right_index left rights marks of
        (output, marks', matched) \<Rightarrow>
          if join_matches left_index right_index (snd left) (snd right)
          then ((fst left, snd left @ snd right) # output, True # marks', True)
          else (output, mark # marks', matched))"
| "join_rights left_index right_index left rights marks = ([], marks, False)"

text \<open>\<^verbatim>\<open>Row::resize\<close> fills up with NULL and cuts off what is too much.\<close>

definition resize_row :: "nat \<Rightarrow> Row \<Rightarrow> Row" where
  "resize_row n row = take n row @ replicate (n - length row) VNull"

fun join_lefts :: "JoinType \<Rightarrow> nat \<Rightarrow> nat \<Rightarrow> nat \<Rightarrow> RowEntry list \<Rightarrow> RowEntry list \<Rightarrow> bool list \<Rightarrow> RowEntry list \<times> bool list" where
  "join_lefts ty left_index right_index width [] rights marks = ([], marks)"
| "join_lefts ty left_index right_index width (left # lefts) rights marks =
     (case join_rights left_index right_index left rights marks of
        (output, marks', matched) \<Rightarrow>
          (case join_lefts ty left_index right_index width lefts rights marks' of
             (output', marks'') \<Rightarrow>
               (output @ (if \<not> matched \<and> (ty = Join_Left \<or> ty = Join_Full) then [(fst left, resize_row width (snd left))] else []) @ output',
                marks'')))"

definition unmatched_rights :: "nat \<Rightarrow> RowEntry list \<Rightarrow> bool list \<Rightarrow> RowEntry list" where
  "unmatched_rights left_width rights marks =
     map (\<lambda>(right, mark). (fst right, replicate left_width VNull @ snd right)) (filter (\<lambda>(right, mark). \<not> mark) (zip rights marks))"

definition BuildJoinSource ::
  "RowSource \<Rightarrow> RowSource \<Rightarrow> JoinType \<Rightarrow> nat option \<Rightarrow> nat option \<Rightarrow> nat \<Rightarrow> nat \<Rightarrow> RowSource Result" where
  "BuildJoinSource left right ty left_index right_index left_width right_width =
     rbind (Materialize left) (\<lambda>lefts.
     rbind (Materialize right) (\<lambda>rights.
     (case (left_index, right_index) of
        (Some li, Some ri) \<Rightarrow>
          if li \<ge> left_width \<or> ri \<ge> right_width then Inl InvalidArgument
          else
            (case join_lefts ty li ri (left_width + right_width) lefts rights (replicate (length rights) False) of
               (output, marks) \<Rightarrow>
                 Inr (MaterializedSource
                   (output @ (if ty = Join_Right \<or> ty = Join_Full then unmatched_rights left_width rights marks else []))))
      | _ \<Rightarrow> Inl InvalidArgument)))"

subsection \<open>Sorting and grouping\<close>

text \<open>NULL is before every value; a column has values of one type, so the last case, where the code would throw, is not reached.\<close>

definition CompareValue :: "Value \<Rightarrow> Value \<Rightarrow> int" where
  "CompareValue left right =
     (if IsNull left \<or> IsNull right then (if IsNull left = IsNull right then 0 else if IsNull left then -1 else 1)
      else
        (case (left, right) of
           (VInt a, VInt b) \<Rightarrow> if sint a < sint b then -1 else if sint a > sint b then 1 else 0
         | (VText a, VText b) \<Rightarrow> if string_less a b then -1 else if string_less b a then 1 else 0
         | _ \<Rightarrow> 0))"

definition SameGroup :: "nat list \<Rightarrow> Row \<Rightarrow> Row \<Rightarrow> bool" where
  "SameGroup indexes left right \<longleftrightarrow> list_all (\<lambda>index. left ! index = right ! index) indexes"

text \<open>\<^verbatim>\<open>std::stable_sort\<close>: insertion before the first element that is not less.\<close>

fun insert_stable :: "('a \<Rightarrow> 'a \<Rightarrow> bool) \<Rightarrow> 'a \<Rightarrow> 'a list \<Rightarrow> 'a list" where
  "insert_stable before x [] = [x]"
| "insert_stable before x (y # ys) = (if before y x then y # insert_stable before x ys else x # y # ys)"

definition stable_sort :: "('a \<Rightarrow> 'a \<Rightarrow> bool) \<Rightarrow> 'a list \<Rightarrow> 'a list" where
  "stable_sort before xs = foldr (insert_stable before) xs []"

fun row_before :: "(nat \<times> OrderDirection) list \<Rightarrow> Row \<Rightarrow> Row \<Rightarrow> bool" where
  "row_before [] left right = False"
| "row_before ((index, direction) # order_keys) left right =
     (let comparison = CompareValue (left ! index) (right ! index) in
      if comparison = 0 then row_before order_keys left right
      else if direction = Order_Asc then comparison < 0 else comparison > 0)"

definition order_indexes :: "Schema \<Rightarrow> OrderKey list \<Rightarrow> (nat \<times> OrderDirection) list Result" where
  "order_indexes schema order_keys =
     map_result (\<lambda>key. rbind (FindColumnIndex schema (key_column key)) (\<lambda>index. Inr (index, key_direction key))) order_keys"

definition OrderByExecutor :: "OrderKey list \<Rightarrow> RowSource \<Rightarrow> Schema \<Rightarrow> RowSource Result" where
  "OrderByExecutor order_keys child schema =
     rbind (order_indexes schema order_keys) (\<lambda>indexes.
     rbind (Materialize child) (\<lambda>rows.
     if list_ex (\<lambda>entry. length (snd entry) \<noteq> length schema) rows then Inl InvalidArgument
     else Inr (MaterializedSource (stable_sort (\<lambda>left right. row_before indexes (snd left) (snd right)) rows))))"

text \<open>Grouping without aggregates keeps the first row of each group.\<close>

fun first_rows :: "Schema \<Rightarrow> nat list \<Rightarrow> RowEntry list \<Rightarrow> RowEntry list \<Rightarrow> RowEntry list Result" where
  "first_rows schema indexes groups [] = Inr groups"
| "first_rows schema indexes groups (entry # entries) =
     (if length (snd entry) \<noteq> length schema then Inl InvalidArgument
      else if list_ex (\<lambda>grp. SameGroup indexes (snd grp) (snd entry)) groups then first_rows schema indexes groups entries
      else first_rows schema indexes (groups @ [entry]) entries)"

definition GroupByExecutor :: "string list \<Rightarrow> RowSource \<Rightarrow> Schema \<Rightarrow> RowSource Result" where
  "GroupByExecutor columns child schema =
     rbind (map_result (FindColumnIndex schema) columns) (\<lambda>indexes.
     rbind (Materialize child) (\<lambda>rows.
     rbind (first_rows schema indexes [] rows) (\<lambda>groups. Inr (MaterializedSource groups))))"

subsection \<open>Scans, filters and projections\<close>

definition RequireMetadata :: "'a CatalogView_scheme \<Rightarrow> string \<Rightarrow> TableMetadata Result" where
  "RequireMetadata db table_name =
     rbind (FindTable db table_name) (\<lambda>metadata. case metadata of None \<Rightarrow> Inl InternalError | Some table \<Rightarrow> Inr table)"

record SourcePlan =
  src_source :: RowSource
  src_column_names :: "string list"
  src_schema :: Schema

definition FilterExecutor ::
  "Predicate \<Rightarrow> 'q CompileExpr \<Rightarrow> RowSource \<Rightarrow> Schema \<Rightarrow> 'q SubqueryRunner option \<Rightarrow> RowSource Result" where
  "FilterExecutor predicate expression child schema runner =
     rbind (if expression = E_nullptr then FindColumnIndex schema (pred_column predicate) else Inr 0) (\<lambda>column_index.
     if expression = E_nullptr \<and> pred_kind predicate = PK_Equal \<and>
        col_type (schema ! column_index) \<noteq> Value_type (pred_value predicate) then Inl TypeMismatch
     else Inr (FilterSource column_index predicate expression schema runner child))"

definition ProjectExecutor :: "string list \<Rightarrow> bool \<Rightarrow> nat list \<Rightarrow> RowSource \<Rightarrow> Schema \<Rightarrow> RowSource Result" where
  "ProjectExecutor columns select_all input_indexes child schema =
     rbind
       (if input_indexes \<noteq> [] then
          (if list_ex (\<lambda>index. index \<ge> length schema) input_indexes then Inl InvalidArgument else Inr input_indexes)
        else if select_all then Inr [0..<length schema]
        else map_result (FindColumnIndex schema) columns)
       (\<lambda>indexes. Inr (ProjectSource indexes schema child))"

definition SeqScanExecutor :: "Database \<Rightarrow> string \<Rightarrow> RowSource Result" where
  "SeqScanExecutor db table_name = rbind (RequireMetadata db table_name) (BeginScan db)"

definition index_scan :: "Database \<Rightarrow> string \<Rightarrow> string \<Rightarrow> string \<Rightarrow> Value \<Rightarrow> SourcePlan Result" where
  "index_scan db table_name index_name column_name key =
     (case AsInt key of
        None \<Rightarrow> Inl TypeMismatch
      | Some k \<Rightarrow>
          rbind (FindIndex db index_name) (\<lambda>index.
          if idx_table_name index \<noteq> table_name \<or> idx_column_name index \<noteq> column_name then Inl InvalidArgument
          else
            rbind (Lookup db index_name k) (\<lambda>rids.
            rbind (RequireMetadata db table_name) (\<lambda>metadata.
            rbind (map_result (\<lambda>rid. rbind (GetRow db metadata rid) (\<lambda>row. Inr (rid, row))) rids) (\<lambda>rows.
            Inr \<lparr>src_source = MaterializedSource rows, src_column_names = map col_name (tab_schema metadata),
                 src_schema = tab_schema metadata\<rparr>)))))"

text \<open>A column that the executor makes up: only its name and type are set.\<close>

definition output_column :: "string \<Rightarrow> PlanValueType list \<Rightarrow> nat \<Rightarrow> Column" where
  "output_column name output_types i =
     make_Column name (if i < length output_types \<and> output_types ! i = PV_Varchar then DT_Varchar else DT_Int)
       None True False False None"

text \<open>The schema of a projection of columns. The executor has resolved the names before, so \<^verbatim>\<open>value()\<close> does not throw.\<close>

definition projected_column :: "Schema \<Rightarrow> string list \<Rightarrow> nat list \<Rightarrow> nat \<Rightarrow> Column Result" where
  "projected_column schema columns indexes i =
     rbind (if i < length indexes then Inr (indexes ! i) else FindColumnIndex schema (columns ! i)) (\<lambda>index.
     Inr ((schema ! index)\<lparr>col_name := columns ! i\<rparr>))"

definition project_node :: "SelectPlan \<Rightarrow> SelectStatement SubqueryRunner \<Rightarrow> SourcePlan \<Rightarrow> string list \<Rightarrow> bool \<Rightarrow> nat list \<Rightarrow>
    SourcePlan Result" where
  "project_node plan runner child columns select_all input_indexes =
     (let schema = src_schema child;
          expression_projection =
            \<not> select_all \<and> input_indexes = [] \<and> length (sp_projection_expressions plan) = length columns
      in
        rbind
          (if expression_projection
           then Inr (ExpressionProjectSource (sp_projection_expressions plan) schema (Some runner) (src_source child))
           else ProjectExecutor columns select_all input_indexes (src_source child) schema)
          (\<lambda>source.
        rbind
          (if select_all then Inr schema
           else if expression_projection
             then Inr (map (\<lambda>i. output_column (columns ! i) (sp_output_types plan) i) [0..<length columns])
           else map_result (projected_column schema columns input_indexes) [0..<length columns])
          (\<lambda>schema'.
        Inr \<lparr>src_source = source, src_column_names = (if select_all then src_column_names child else columns),
             src_schema = schema'\<rparr>)))"

fun build_node :: "Database \<Rightarrow> SelectPlan \<Rightarrow> SelectStatement SubqueryRunner \<Rightarrow> PlanNode \<Rightarrow> SourcePlan Result" where
  "build_node db plan runner N_nullptr = Inl InvalidArgument"
| "build_node db plan runner (N_SeqScan table_name) =
     rbind (SeqScanExecutor db table_name) (\<lambda>source.
     rbind (RequireMetadata db table_name) (\<lambda>metadata.
     Inr \<lparr>src_source = source, src_column_names = map col_name (tab_schema metadata), src_schema = tab_schema metadata\<rparr>))"
| "build_node db plan runner (N_IndexScan table_name index_name column_name key) =
     index_scan db table_name index_name column_name key"
| "build_node db plan runner (N_Filter child predicate expression) =
     rbind (build_node db plan runner child) (\<lambda>c.
     rbind (FilterExecutor predicate expression (src_source c) (src_schema c) (Some runner)) (\<lambda>source.
     Inr (c\<lparr>src_source := source\<rparr>)))"
| "build_node db plan runner (N_GroupBy child columns) =
     rbind (build_node db plan runner child) (\<lambda>c.
     rbind (GroupByExecutor columns (src_source c) (src_schema c)) (\<lambda>source. Inr (c\<lparr>src_source := source\<rparr>)))"
| "build_node db plan runner (N_OrderBy child order_keys) =
     rbind (build_node db plan runner child) (\<lambda>c.
     rbind (OrderByExecutor order_keys (src_source c) (src_schema c)) (\<lambda>source. Inr (c\<lparr>src_source := source\<rparr>)))"
| "build_node db plan runner (N_Join left right ty ltab lcol rtab rcol left_index right_index) =
     rbind (build_node db plan runner left) (\<lambda>l.
     rbind (build_node db plan runner right) (\<lambda>r.
     rbind (BuildJoinSource (src_source l) (src_source r) ty left_index right_index
         (length (src_schema l)) (length (src_schema r))) (\<lambda>source.
     Inr \<lparr>src_source = source, src_column_names = src_column_names l @ src_column_names r,
          src_schema = src_schema l @ src_schema r\<rparr>)))"
| "build_node db plan runner (N_Project child columns select_all input_indexes) =
     rbind (build_node db plan runner child) (\<lambda>c. project_node plan runner c columns select_all input_indexes)"

subsection \<open>Aggregates\<close>

text \<open>Each row joins the first group it agrees with, or starts a new one.\<close>

fun add_to_groups :: "nat list \<Rightarrow> RowEntry list list \<Rightarrow> RowEntry \<Rightarrow> RowEntry list list" where
  "add_to_groups indexes [] entry = [[entry]]"
| "add_to_groups indexes (grp # groups) entry =
     (if grp \<noteq> [] \<and> SameGroup indexes (snd (hd grp)) (snd entry) then (grp @ [entry]) # groups
      else grp # add_to_groups indexes groups entry)"

definition group_rows :: "nat list \<Rightarrow> RowEntry list \<Rightarrow> RowEntry list list" where
  "group_rows indexes rows =
     (let groups = foldl (add_to_groups indexes) [] rows in if groups = [] \<and> indexes = [] then [[]] else groups)"

definition group_before :: "(nat \<times> OrderDirection) list \<Rightarrow> RowEntry list \<Rightarrow> RowEntry list \<Rightarrow> bool" where
  "group_before order_keys left right \<longleftrightarrow> left \<noteq> [] \<and> right \<noteq> [] \<and> row_before order_keys (snd (hd left)) (snd (hd right))"

text \<open>The output of the groups in order: HAVING decides whether a group is shown. The address of an empty group is the default one.\<close>

definition group_row :: "Schema \<Rightarrow> RowEntry list \<Rightarrow> Row" where
  "group_row schema grp = (if grp = [] then replicate (length schema) VNull else snd (hd grp))"

fun aggregate_groups ::
  "SelectPlan \<Rightarrow> Schema \<Rightarrow> SelectStatement SubqueryRunner \<Rightarrow> RowEntry list list \<Rightarrow> RowEntry list Result" where
  "aggregate_groups plan schema runner [] = Inr []"
| "aggregate_groups plan schema runner (grp # groups) =
     (let representative = group_row schema grp; members = Some (map snd grp) in
      rbind
        (if sp_having plan = E_nullptr then Inr True
         else rbind (EvaluateExpression (sp_having plan) representative schema members (Some runner))
           (\<lambda>v. Inr (ev_kind v = K_Bool \<and> ev_boolean v)))
        (\<lambda>shown.
      if \<not> shown then aggregate_groups plan schema runner groups
      else
        rbind (project_expressions (sp_projection_expressions plan) schema (Some runner) members representative) (\<lambda>row.
        rbind (aggregate_groups plan schema runner groups) (\<lambda>rest.
        Inr ((if grp = [] then \<lparr>rid_page_id = 0, rid_slot_id = 0\<rparr> else fst (hd grp), row) # rest)))))"

definition aliased :: "string list \<Rightarrow> string list \<Rightarrow> nat \<Rightarrow> string" where
  "aliased names aliases i = (if i < length aliases \<and> aliases ! i \<noteq> [] then aliases ! i else names ! i)"

text \<open>The ordering and the grouping at the top of a tree, and what is below.\<close>

definition take_order :: "PlanNode \<Rightarrow> OrderKey list option \<times> PlanNode" where
  "take_order node = (case node of N_OrderBy child order_keys \<Rightarrow> (Some order_keys, child) | _ \<Rightarrow> (None, node))"

definition take_group :: "PlanNode \<Rightarrow> string list option \<times> PlanNode" where
  "take_group node = (case node of N_GroupBy child columns \<Rightarrow> (Some columns, child) | _ \<Rightarrow> (None, node))"

definition aggregate_source :: "Database \<Rightarrow> SelectPlan \<Rightarrow> SelectStatement SubqueryRunner \<Rightarrow> PlanNode \<Rightarrow> string list \<Rightarrow> SourcePlan Result" where
  "aggregate_source db plan runner child columns =
     (let order = fst (take_order child);
          group_by = fst (take_group (snd (take_order child)));
          cursor = snd (take_group (snd (take_order child)))
      in
        if cursor = N_nullptr then Inl InvalidArgument
        else
          rbind (build_node db plan runner cursor) (\<lambda>input.
          rbind (Materialize (src_source input)) (\<lambda>rows.
          rbind (map_result (FindColumnIndex (src_schema input)) (case group_by of None \<Rightarrow> [] | Some names \<Rightarrow> names)) (\<lambda>indexes.
          rbind (case order of
                   None \<Rightarrow> Inr (group_rows indexes rows)
                 | Some order_keys \<Rightarrow>
                     rbind (order_indexes (src_schema input) order_keys) (\<lambda>sort_keys.
                     Inr (stable_sort (group_before sort_keys) (group_rows indexes rows)))) (\<lambda>groups.
          rbind (aggregate_groups plan (src_schema input) runner groups) (\<lambda>output.
          let names = map (aliased columns (sp_projection_aliases plan)) [0..<length columns] in
          Inr \<lparr>src_source = MaterializedSource output, src_column_names = names,
               src_schema = map (\<lambda>i. output_column (names ! i) (sp_output_types plan) i) [0..<length names]\<rparr>))))))"

subsection \<open>SELECT\<close>

text \<open>The pipeline of a plan, with DISTINCT and LIMIT on top.\<close>

definition BuildSource :: "Database \<Rightarrow> SelectPlan \<Rightarrow> SelectStatement SubqueryRunner \<Rightarrow> SourcePlan Result" where
  "BuildSource db plan runner =
     (case sp_root plan of
        N_nullptr \<Rightarrow> Inl InvalidArgument
      | N_Project child columns select_all input_indexes \<Rightarrow>
          rbind
            (if sp_has_aggregates plan \<or> sp_having plan \<noteq> E_nullptr then aggregate_source db plan runner child columns
             else
               rbind (build_node db plan runner (sp_root plan)) (\<lambda>built.
               Inr (built\<lparr>src_column_names :=
                 map (aliased (src_column_names built) (sp_projection_aliases plan)) [0..<length (src_column_names built)]\<rparr>)))
            (\<lambda>result.
             let distinct_source = (if sp_distinct plan then DistinctSource [] (src_source result) else src_source result);
                 limited = (case sp_limit plan of None \<Rightarrow> distinct_source | Some n \<Rightarrow> LimitSource n distinct_source)
             in Inr (result\<lparr>src_source := limited\<rparr>))
      | _ \<Rightarrow> Inl InvalidArgument)"

definition ExecuteSelect :: "Database \<Rightarrow> SelectPlan \<Rightarrow> SelectStatement SubqueryRunner \<Rightarrow> ExecutionResult Result" where
  "ExecuteSelect db plan runner =
     rbind (BuildSource db plan runner) (\<lambda>source.
     rbind (Materialize (src_source source)) (\<lambda>entries.
     Inr \<lparr>column_names = src_column_names source, result_rows = map snd entries\<rparr>))"

subsection \<open>Subqueries\<close>

text \<open>The expressions of a plan, and the statements of the subqueries in them.\<close>

fun node_expressions :: "PlanNode \<Rightarrow> Expr set" where
  "node_expressions N_nullptr = {}"
| "node_expressions (N_SeqScan table_name) = {}"
| "node_expressions (N_IndexScan table_name index_name column_name key) = {}"
| "node_expressions (N_Filter child predicate expression) = insert expression (node_expressions child)"
| "node_expressions (N_Join left right ty ltab lcol rtab rcol left_index right_index) =
     node_expressions left \<union> node_expressions right"
| "node_expressions (N_GroupBy child columns) = node_expressions child"
| "node_expressions (N_OrderBy child order_keys) = node_expressions child"
| "node_expressions (N_Project child columns select_all input_indexes) = node_expressions child"

definition plan_expressions :: "SelectPlan \<Rightarrow> Expr set" where
  "plan_expressions plan =
     node_expressions (sp_root plan) \<union> set (sp_projection_expressions plan) \<union> {sp_having plan}"

definition plan_subqueries :: "SelectPlan \<Rightarrow> SelectStatement set" where
  "plan_subqueries plan = \<Union> (set_CompileExpr ` plan_expressions plan)"

text \<open>Two runners that agree on the subqueries of an expression give it the same value.\<close>

lemma EvaluateExpression_cong:
  assumes "\<And>q. q \<in> set_CompileExpr e \<Longrightarrow> f q = g q"
  shows "EvaluateExpression e row schema grp (Some f) = EvaluateExpression e row schema grp (Some g)"
  using assms
proof (induction e arbitrary: row grp)
  case (E_In operand options negated)
  have "map (\<lambda>e. EvaluateExpression e row schema grp (Some f)) options = map (\<lambda>e. EvaluateExpression e row schema grp (Some g)) options"
    by (intro map_cong[OF refl] E_In.IH(2)) (use E_In.prems in auto)
  moreover have "EvaluateExpression operand row schema grp (Some f) = EvaluateExpression operand row schema grp (Some g)"
    by (rule E_In.IH(1)) (use E_In.prems in auto)
  ultimately show ?case by (simp only: EvaluateExpression.simps)
next
  case (E_Subquery kind query operand negated)
  have "EvaluateExpression operand row schema grp (Some f) = EvaluateExpression operand row schema grp (Some g)"
    by (rule E_Subquery.IH) (use E_Subquery.prems in auto)
  then show ?case using E_Subquery.prems by (auto simp: eval_subquery_def split: option.splits)
next
  case (E_Aggregate kind star argument)
  have "EvaluateExpression argument item schema None (Some f) = EvaluateExpression argument item schema None (Some g)" for item
    by (rule E_Aggregate.IH) (use E_Aggregate.prems in auto)
  then show ?case by (simp only: EvaluateExpression.simps)
qed auto

definition agree :: "Expr set \<Rightarrow> SelectStatement SubqueryRunner \<Rightarrow> SelectStatement SubqueryRunner \<Rightarrow> bool" where
  "agree es f g \<longleftrightarrow> (\<forall>e\<in>es. \<forall>q\<in>set_CompileExpr e. f q = g q)"

lemma agree_eval: "agree es f g \<Longrightarrow> e \<in> es \<Longrightarrow> EvaluateExpression e row schema grp (Some f) = EvaluateExpression e row schema grp (Some g)"
  by (rule EvaluateExpression_cong) (auto simp: agree_def)

lemma agree_subset: "agree es f g \<Longrightarrow> es' \<subseteq> es \<Longrightarrow> agree es' f g"
  by (auto simp: agree_def)

lemma FilterSource_cong:
  assumes "agree {e} f g"
  shows "FilterSource i p e schema (Some f) child = FilterSource i p e schema (Some g) child"
proof -
  have m: "filter_matches i p e schema (Some f) row = filter_matches i p e schema (Some g) row" for row
    using agree_eval[OF assms, of e] by (simp add: filter_matches_def)
  have "FilterSource_Next i p e schema (Some f) xs = FilterSource_Next i p e schema (Some g) xs" for xs
    by (induction xs) (auto simp: m split: sum.splits)
  then show ?thesis
    by (induction child rule: length_induct)
      (subst (1 2) FilterSource.simps, auto split: prod.splits sum.splits option.splits dest: FilterSource_Next_shorter)
qed

lemma map_result_cong: "(\<And>x. x \<in> set xs \<Longrightarrow> f x = g x) \<Longrightarrow> map_result f xs = map_result g xs"
  by (induction xs) auto

lemma project_expressions_cong:
  "agree (set es) f g \<Longrightarrow> project_expressions es schema (Some f) members row = project_expressions es schema (Some g) members row"
  unfolding project_expressions_def by (rule map_result_cong) (simp only: agree_eval)

lemma project_node_cong:
  "agree (set (sp_projection_expressions plan)) f g \<Longrightarrow>
   project_node plan f c columns all idx = project_node plan g c columns all idx"
  by (simp only: project_node_def ExpressionProjectSource_def project_expressions_cong)

lemma build_node_cong:
  "agree (node_expressions node \<union> set (sp_projection_expressions plan)) f g \<Longrightarrow>
   build_node db plan f node = build_node db plan g node"
proof (induction node)
  case (N_Filter child p e)
  have "build_node db plan f child = build_node db plan g child"
    by (rule N_Filter.IH) (rule agree_subset[OF N_Filter.prems], auto)
  moreover have "FilterSource i p e schema (Some f) c = FilterSource i p e schema (Some g) c" for i schema c
    by (rule FilterSource_cong) (rule agree_subset[OF N_Filter.prems], auto)
  ultimately show ?case by (simp only: build_node.simps FilterExecutor_def)
next
  case (N_Join left right ty a b c d i j)
  have "build_node db plan f left = build_node db plan g left" "build_node db plan f right = build_node db plan g right"
    by (rule N_Join.IH, rule agree_subset[OF N_Join.prems], auto)+
  then show ?case by (simp only: build_node.simps)
next
  case (N_Project child columns all idx)
  have "build_node db plan f child = build_node db plan g child"
    by (rule N_Project.IH) (rule agree_subset[OF N_Project.prems], auto)
  moreover have "project_node plan f c columns all idx = project_node plan g c columns all idx" for c
    by (rule project_node_cong) (rule agree_subset[OF N_Project.prems], auto)
  ultimately show ?case by (simp only: build_node.simps)
qed auto

lemma aggregate_groups_cong:
  assumes "agree (insert (sp_having plan) (set (sp_projection_expressions plan))) f g"
  shows "aggregate_groups plan schema f groups = aggregate_groups plan schema g groups"
proof (induction groups)
  case (Cons grp groups)
  have "project_expressions (sp_projection_expressions plan) schema (Some f) m r =
      project_expressions (sp_projection_expressions plan) schema (Some g) m r" for m r
    by (rule project_expressions_cong) (rule agree_subset[OF assms], auto)
  moreover have "EvaluateExpression (sp_having plan) r schema m (Some f) = EvaluateExpression (sp_having plan) r schema m (Some g)" for r m
    by (rule agree_eval[OF assms]) simp
  ultimately show ?case by (simp only: aggregate_groups.simps Cons.IH)
qed simp

lemma aggregate_source_cong:
  assumes "agree (insert (sp_having plan) (node_expressions child \<union> set (sp_projection_expressions plan))) f g"
  shows "aggregate_source db plan f child columns = aggregate_source db plan g child columns"
proof -
  have "agree (insert (sp_having plan) (set (sp_projection_expressions plan))) f g" by (rule agree_subset[OF assms]) auto
  note groups = aggregate_groups_cong[OF this]
  have "node_expressions (snd (take_order n)) \<subseteq> node_expressions n" "node_expressions (snd (take_group n)) \<subseteq> node_expressions n" for n
    by (cases n; simp add: take_order_def take_group_def)+
  then have "node_expressions (snd (take_group (snd (take_order child)))) \<subseteq> node_expressions child" by blast
  then have "agree (node_expressions (snd (take_group (snd (take_order child)))) \<union> set (sp_projection_expressions plan)) f g"
    by (intro agree_subset[OF assms]) auto
  note node = build_node_cong[OF this, of db]
  show ?thesis by (simp only: aggregate_source_def Let_def groups node)
qed

end
