(* ===== verification/PlannerTypes.thy ===== *)
theory PlannerTypes
  imports Planner
begin

text \<open>
  What the planner's type check (\<^verbatim>\<open>CheckCompileExpr\<close>) means for the evaluator (\<^verbatim>\<open>EvaluateExpression\<close>): a checked expression evaluates to
  a value of its type or to NULL, and never fails for a wrong type or a missing column.
\<close>

subsection \<open>Values of a type\<close>

definition kind_of_type :: "CompileType \<Rightarrow> EvalKind" where
  "kind_of_type ty = (case ty of CT_Int \<Rightarrow> K_Int | CT_Varchar \<Rightarrow> K_String | CT_Bool \<Rightarrow> K_Bool | _ \<Rightarrow> K_Null)"

definition of_type :: "CompileType \<Rightarrow> EvalValue \<Rightarrow> bool" where
  "of_type ty v \<longleftrightarrow> EvalIsNull v \<or> ev_kind v = kind_of_type ty"

definition value_fits :: "DataType \<Rightarrow> Value \<Rightarrow> bool" where
  "value_fits ty v \<longleftrightarrow> v = VNull \<or> Value_type v = (if ty = DT_Int then DT_Int else DT_Varchar)"

definition row_fits :: "Schema \<Rightarrow> Row \<Rightarrow> bool" where
  "row_fits schema row \<longleftrightarrow> list_all2 (\<lambda>column v. value_fits (col_type column) v) schema row"

definition output_fits :: "PlanValueType \<Rightarrow> Value \<Rightarrow> bool" where
  "output_fits ty v \<longleftrightarrow> v = VNull \<or> ty = PV_Int \<and> IsInt v \<or> ty = PV_Varchar \<and> IsVarchar v"

text \<open>What a subquery of one column delivers is what its plan announces.\<close>

definition answer_fits :: "Plan Result \<Rightarrow> ExecutionResult Result \<Rightarrow> bool" where
  "answer_fits plan answer \<longleftrightarrow>
     (\<forall>sp result ty. plan = Inr (P_Select sp) \<and> answer = Inr result \<and> sp_output_types sp = [ty] \<and>
        length (column_names result) = 1 \<longrightarrow>
        (\<forall>row\<in>set (result_rows result). \<exists>v. row = [v] \<and> output_fits ty v))"

text \<open>No operand of AND or OR is typed as NULL. Their type is then NULL as well, although the result can be TRUE or FALSE.\<close>

fun logic_typed :: "'q CompileExpr \<Rightarrow> Schema \<Rightarrow> bool \<Rightarrow> ('q \<Rightarrow> Plan Result) \<Rightarrow> bool" where
  "logic_typed E_nullptr schema allow planner = True"
| "logic_typed (E_Column table_name name) schema allow planner = True"
| "logic_typed (E_Literal kind integer text) schema allow planner = True"
| "logic_typed (E_Unary op operand) schema allow planner = logic_typed operand schema allow planner"
| "logic_typed (E_IsNull operand negated) schema allow planner = logic_typed operand schema allow planner"
| "logic_typed (E_Between operand lower upper negated) schema allow planner =
     (logic_typed operand schema allow planner \<and> logic_typed lower schema allow planner \<and> logic_typed upper schema allow planner)"
| "logic_typed (E_In operand options negated) schema allow planner =
     (logic_typed operand schema allow planner \<and> list_all (\<lambda>e. logic_typed e schema allow planner) options)"
| "logic_typed (E_Subquery kind query operand negated) schema allow planner = logic_typed operand schema allow planner"
| "logic_typed (E_Aggregate kind star argument) schema allow planner = logic_typed argument schema False planner"
| "logic_typed (E_Binary op left right) schema allow planner =
     (logic_typed left schema allow planner \<and> logic_typed right schema allow planner \<and>
      (op \<in> {''and'', ''or''} \<longrightarrow> CheckCompileExpr left schema allow (Some planner) \<noteq> Inr CT_Null \<and>
         CheckCompileExpr right schema allow (Some planner) \<noteq> Inr CT_Null))"

subsection \<open>Each operation keeps the types\<close>

text \<open>A result of the type, or an error of \<open>errs\<close>.\<close>

definition sound :: "ErrorCode set \<Rightarrow> CompileType \<Rightarrow> EvalValue Result \<Rightarrow> bool" where
  "sound errs ty r \<longleftrightarrow> (case r of Inl err \<Rightarrow> err \<in> errs | Inr v \<Rightarrow> of_type ty v)"

lemma sound_simps [simp]:
  "sound errs ty (Inl err) \<longleftrightarrow> err \<in> errs" "sound errs ty (Inr v) \<longleftrightarrow> of_type ty v"
  by (simp_all add: sound_def)

lemma sound_mono: "sound errs ty r \<Longrightarrow> errs \<subseteq> errs' \<Longrightarrow> sound errs' ty r"
  by (auto simp: sound_def split: sum.splits)

lemma of_type_values [simp]:
  "of_type ty EvalNull" "of_type CT_Int (EvalInt i)" "of_type CT_Varchar (EvalString s)" "of_type CT_Bool (EvalBool b)"
  by (simp_all add: of_type_def EvalIsNull_def EvalNull_def EvalInt_def EvalString_def EvalBool_def kind_of_type_def)

lemma of_type_null: "of_type CT_Null v \<longleftrightarrow> EvalIsNull v"
  by (auto simp: of_type_def EvalIsNull_def kind_of_type_def)

lemma of_type_kind: "of_type ty v \<Longrightarrow> \<not> EvalIsNull v \<Longrightarrow> ev_kind v = kind_of_type ty \<and> ty \<noteq> CT_Null"
  by (auto simp: of_type_def EvalIsNull_def kind_of_type_def)

lemma kind_of_type_simps [simp]:
  "kind_of_type CT_Int = K_Int" "kind_of_type CT_Varchar = K_String" "kind_of_type CT_Bool = K_Bool"
  by (simp_all add: kind_of_type_def)

lemma compare_total: "ev_kind l = ev_kind r \<Longrightarrow> \<not> EvalIsNull l \<Longrightarrow> \<exists>c. CompareEval l r = Inr c"
  by (auto simp: CompareEval_def)

lemma of_type_FromValue: "value_fits ty v \<Longrightarrow> of_type (if ty = DT_Int then CT_Int else CT_Varchar) (FromValue v)"
  by (cases v) (auto simp: value_fits_def FromValue_def split: if_splits)

lemma sound_unary:
  assumes "sound errs t r" "check_unary op t = Inr ty" "InvalidArgument \<in> errs"
  shows "sound errs ty (eval_unary op r)"
proof (cases r)
  case (Inr v)
  then have v: "of_type t v" using assms(1) by simp
  show ?thesis
  proof (cases "EvalIsNull v")
    case False
    from of_type_kind[OF v this] show ?thesis
      using assms(2,3) Inr False by (auto simp: check_unary_def eval_unary_def split: if_splits)
  qed (simp add: Inr eval_unary_def of_type_def)
qed (use assms(1) in \<open>simp add: eval_unary_def\<close>)

lemma sound_between:
  assumes "sound errs t x" "sound errs tw l" "sound errs tz u" "check_between t tw tz = Inr ty"
  shows "sound errs ty (eval_between negated x l u)"
proof (cases "\<exists>v w z. x = Inr v \<and> l = Inr w \<and> u = Inr z \<and> \<not> EvalIsNull v \<and> \<not> EvalIsNull w \<and> \<not> EvalIsNull z")
  case True
  then obtain v w z where r: "x = Inr v" "l = Inr w" "u = Inr z" "\<not> EvalIsNull v" "\<not> EvalIsNull w" "\<not> EvalIsNull z" by blast
  have "ev_kind v = kind_of_type t" "t \<noteq> CT_Null" "ev_kind w = kind_of_type tw" "tw \<noteq> CT_Null" "ev_kind z = kind_of_type tz" "tz \<noteq> CT_Null"
    using of_type_kind[of t v] of_type_kind[of tw w] of_type_kind[of tz z] assms(1-3) r by auto
  moreover have "ty = CT_Bool" using assms(4) by (auto simp: check_between_def split: if_splits)
  ultimately have "\<exists>a. CompareEval v w = Inr a" "\<exists>b. CompareEval v z = Inr b"
    using compare_total[of v w] compare_total[of v z] assms(4) r(4) by (auto simp: check_between_def split: if_splits)
  then show ?thesis using r \<open>ty = CT_Bool\<close> by (auto simp: eval_between_def Let_def)
next
  case False
  then show ?thesis using assms(1-3) by (auto simp: eval_between_def split: sum.splits)
qed

lemma check_options_Inr:
  "check_options t rs = Inr ty \<Longrightarrow>
   ty = CT_Bool \<and> (\<forall>r\<in>set rs. \<exists>u. r = Inr u \<and> (u = CT_Null \<or> t = CT_Null \<or> u = t))"
  by (induction rs) (auto simp: rbind_Inr split: if_splits)

lemma sound_in:
  assumes "of_type t v" "\<not> EvalIsNull v" "\<forall>r\<in>set rs. \<exists>u. sound errs u r \<and> (u = CT_Null \<or> u = t)"
  shows "sound errs CT_Bool (eval_in v negated saw_null rs)"
  using assms(3)
proof (induction rs arbitrary: saw_null)
  case (Cons r rs)
  obtain u where u: "sound errs u r" "u = CT_Null \<or> u = t" using Cons.prems by auto
  show ?case
  proof (cases r)
    case (Inr w)
    have "\<exists>c. CompareEval v w = Inr c" if "\<not> EvalIsNull w"
    proof -
      have w: "ev_kind w = kind_of_type u" "u \<noteq> CT_Null" using of_type_kind[of u w] u(1) Inr that by auto
      have "ev_kind v = kind_of_type t" using of_type_kind[OF assms(1,2)] by simp
      with w u(2) show ?thesis by (intro compare_total assms(2)) auto
    qed
    then show ?thesis using Cons Inr by (auto split: sum.splits)
  qed (use u(1) in simp)
qed simp

lemma sound_count: "\<forall>r\<in>set rs. sound errs t r \<Longrightarrow> sound errs CT_Int (eval_count n rs)"
  by (induction rs arbitrary: n) (auto split: sum.splits)

lemma sound_aggregate:
  assumes "\<forall>r\<in>set rs. sound errs t r" "check_aggregate kind t = Inr ty" "kind \<noteq> Agg_Count" "InvalidArgument \<in> errs"
    and "\<forall>a. accumulated = Some a \<longrightarrow> of_type t a \<and> \<not> EvalIsNull a"
  shows "sound errs ty (eval_aggregate kind accumulated count rs)"
  using assms(1,5)
proof (induction rs arbitrary: accumulated count)
  case Nil
  have "t = ty" using assms(2,3) by (auto simp: check_aggregate_def split: if_splits)
  then show ?case using Nil by (auto simp: of_type_def EvalIsNull_def split: option.splits)
next
  case (Cons r rs)
  show ?case
  proof (cases r)
    case (Inr w)
    have w: "of_type t w" using Cons.prems(1) Inr by simp
    have compare: "\<exists>c. CompareEval w a = Inr c" if "accumulated = Some a" "\<not> EvalIsNull w" for a
      using of_type_kind[OF w that(2)] of_type_kind[of t a] Cons.prems(2) that by (intro compare_total) auto
    have rest: "\<forall>r\<in>set rs. sound errs t r" using Cons.prems(1) by simp
    show ?thesis
    proof (cases "EvalIsNull w \<or> accumulated = None")
      case True
      have "sound errs ty (eval_aggregate kind (Some w) (count + 1) rs)" if "\<not> EvalIsNull w"
        by (rule Cons.IH[OF rest]) (use w that in auto)
      moreover have "sound errs ty (eval_aggregate kind accumulated count rs)"
        by (rule Cons.IH[OF rest Cons.prems(2)])
      ultimately show ?thesis using True Inr by (auto split: option.splits)
    next
      case False
      then obtain a where a: "accumulated = Some a" "\<not> EvalIsNull w" by auto
      have at: "of_type t a" "\<not> EvalIsNull a" using Cons.prems(2) a(1) by auto
      have "sound errs ty (eval_aggregate kind (Some (a\<lparr>ev_integer := i\<rparr>)) (count + 1) rs)" for i
        by (rule Cons.IH[OF rest]) (use at in \<open>auto simp: of_type_def EvalIsNull_def\<close>)
      moreover have "sound errs ty (eval_aggregate kind (Some (if P then w else a)) (count + 1) rs)" for P
        by (rule Cons.IH[OF rest]) (use at w a(2) in auto)
      ultimately show ?thesis using compare[OF a] a Inr assms(4) by auto
    qed
  qed (use Cons.prems in simp)
qed

lemma sound_binary:
  assumes "sound errs tx x" "sound errs tz z" "check_binary op tx tz = Inr ty" "InvalidArgument \<in> errs"
    and "op \<in> {''and'', ''or''} \<longrightarrow> tx \<noteq> CT_Null \<and> tz \<noteq> CT_Null"
  shows "sound errs ty (eval_binary op x z)"
proof (cases "\<exists>l r. x = Inr l \<and> z = Inr r")
  case True
  then obtain l r where r: "x = Inr l" "z = Inr r" by blast
  then have t: "of_type tx l" "of_type tz r" using assms(1,2) by auto
  show ?thesis
  proof (cases "op \<in> {''and'', ''or''}")
    case True
    then have "tx = CT_Bool" "tz = CT_Bool" "ty = CT_Bool" using assms(3,5) by (auto simp: check_binary_def split: if_splits)
    then show ?thesis using True t of_type_kind[of tx l] of_type_kind[of tz r] r by (auto simp: eval_binary_def)
  next
    case logic: False
    show ?thesis
    proof (cases "EvalIsNull l \<or> EvalIsNull r")
      case True
      then show ?thesis using logic r by (auto simp: eval_binary_def)
    next
      case False
      then have k: "ev_kind l = kind_of_type tx" "tx \<noteq> CT_Null" "ev_kind r = kind_of_type tz" "tz \<noteq> CT_Null"
        using of_type_kind[of tx l] of_type_kind[of tz r] t by auto
      have arith: "ty = CT_Int" if "op \<in> {''+'', ''-'', ''*'', ''/''}"
        using that assms(3) k by (auto simp: check_binary_def split: if_splits)
      have like: "ty = CT_Bool" if "op \<in> {''like'', ''not like''}"
        using that assms(3) k by (auto simp: check_binary_def split: if_splits)
      have compare: "ty = CT_Bool \<and> tx = tz" if "op \<notin> {''like'', ''not like'', ''+'', ''-'', ''*'', ''/''}"
        using that logic assms(3) k by (auto simp: check_binary_def split: if_splits)
      have "\<exists>c. CompareEval l r = Inr c" if "op \<notin> {''like'', ''not like'', ''+'', ''-'', ''*'', ''/''}"
        using compare[OF that] k False by (intro compare_total) auto
      with arith like compare show ?thesis
        using logic False r assms(4) by (auto simp: eval_binary_def Let_def split: option.splits)
    qed
  qed
next
  case False
  have l: "of_type ty (EvalBool b)" if "op = ''and'' \<or> op = ''or''" for b
  proof -
    have "ty = CT_Bool" using assms(3,5) that by (auto simp: check_binary_def split: if_splits)
    then show ?thesis by simp
  qed
  show ?thesis
  proof (cases x)
    case (Inr v)
    then obtain err where "z = Inl err" using False by (cases z) auto
    then show ?thesis using Inr assms(2) l by (simp add: eval_binary_def)
  qed (use assms(1) in \<open>simp add: eval_binary_def\<close>)
qed

lemma output_fits_type:
  "output_fits ty v \<Longrightarrow> ty \<noteq> PV_Bool \<Longrightarrow> of_type (case ty of PV_Int \<Rightarrow> CT_Int | PV_Null \<Rightarrow> CT_Null | _ \<Rightarrow> CT_Varchar) (FromValue v)"
  by (cases v; cases ty) (auto simp: output_fits_def FromValue_def IsInt_def IsVarchar_def)

lemma sound_subquery:
  assumes "answer_fits (planner q) (run q)" "rbind (planner q) (subquery_type kind) = Inr tz" "\<And>err. run q = Inl err \<Longrightarrow> err \<in> errs"
    and "kind = SQ_In \<longrightarrow> sound errs t x \<and> (t = CT_Null \<or> tz = CT_Null \<or> t = tz)" "InvalidArgument \<in> errs"
  shows "sound errs (if kind = SQ_In then CT_Bool else tz) (eval_subquery kind (Some q) negated (Some run) x)"
proof -
  obtain sp where sp: "planner q = Inr (P_Select sp)" "subquery_type kind (P_Select sp) = Inr tz"
  proof -
    obtain plan where "planner q = Inr plan" "subquery_type kind plan = Inr tz" using assms(2) by (auto simp: rbind_Inr)
    then show ?thesis using that by (cases plan) (simp_all add: subquery_type_def)
  qed
  show ?thesis
  proof (cases "run q")
    case (Inr result)
    show ?thesis
    proof (cases "kind = SQ_Exists \<or> length (column_names result) \<noteq> 1")
      case True
      then show ?thesis using Inr sp(2) assms(5) by (auto simp: eval_subquery_def subquery_type_def Let_def split: if_splits)
    next
      case False
      then obtain ot where ot: "sp_output_types sp = [ot]"
        using sp(2) by (auto simp: subquery_type_def length_Suc_conv split: if_splits)
      then have tz: "ot \<noteq> PV_Bool" "tz = (case ot of PV_Int \<Rightarrow> CT_Int | PV_Null \<Rightarrow> CT_Null | _ \<Rightarrow> CT_Varchar)"
        using sp(2) False by (auto simp: subquery_type_def split: if_splits)
      have row: "row \<noteq> [] \<and> of_type tz (FromValue (hd row))" if "row \<in> set (result_rows result)" for row
        using assms(1) sp(1) Inr False that ot output_fits_type[of ot "hd row"] tz by (force simp: answer_fits_def)
      show ?thesis
      proof (cases "kind = SQ_In")
        case True
        have options: "\<forall>r\<in>set (subquery_options (result_rows result)). \<exists>u. sound errs u r \<and> (u = CT_Null \<or> u = t)"
          if "x = Inr v" "\<not> EvalIsNull v" for v
        proof -
          have "t \<noteq> CT_Null" using of_type_kind[of t v] assms(4) True that by auto
          then have "tz = CT_Null \<or> tz = t" using assms(4) True by auto
          then show ?thesis using row by (auto simp: subquery_options_def)
        qed
        then have "sound errs CT_Bool (eval_in v negated False (subquery_options (result_rows result)))"
          if "x = Inr v" "\<not> EvalIsNull v" for v
          using sound_in[of t v _ errs] assms(4) True that by auto
        then show ?thesis using True False Inr assms(4) by (auto simp: eval_subquery_def split: sum.splits)
      next
        case scalar: False
        then have "kind = SQ_Scalar" using False by (cases kind) auto
        then show ?thesis using False Inr assms(5) row by (auto simp: eval_subquery_def)
      qed
    qed
  qed (use assms(3) in \<open>simp add: eval_subquery_def\<close>)
qed

subsection \<open>Checked expressions\<close>

abbreviation run_errors :: "'q SubqueryRunner \<Rightarrow> 'q CompileExpr \<Rightarrow> ErrorCode set" where
  "run_errors run e \<equiv> insert InvalidArgument {err. \<exists>q\<in>set_CompileExpr e. run q = Inl err}"

lemma FindColumn_row:
  assumes "FindColumn schema name = Inr column" "row_fits schema row"
  obtains i where "FindColumnIndex schema name = Inr i" "i < length row" "value_fits (col_type column) (row ! i)"
proof -
  obtain i where i: "FindColumnIndex schema name = Inr i" "column = schema ! i"
    using assms(1) by (auto simp: FindColumn_def split: sum.splits)
  have "i < length schema" using i(1) by (auto simp: FindColumnIndex_def find_column_from_Inr)
  then show ?thesis using that i assms(2) by (auto simp: row_fits_def list_all2_conv_all_nth)
qed

lemma checked_expression_sound:
  fixes e :: "'q CompileExpr"
  assumes "CheckCompileExpr e schema allow (Some planner) = Inr ty" "logic_typed e schema allow planner" "row_fits schema row"
    and "\<forall>rows. grp = Some rows \<longrightarrow> (\<forall>r\<in>set rows. row_fits schema r)"
    and "\<forall>q\<in>set_CompileExpr e. answer_fits (planner q) (run q)"
  shows "sound (run_errors run e) ty (EvaluateExpression e row schema grp (Some run))"
  using assms
proof (induction e arbitrary: allow ty grp row)
  case (E_Column table_name name)
  then obtain column where c: "FindColumn schema name = Inr column" "ty = (if col_type column = DT_Int then CT_Int else CT_Varchar)"
    by (auto split: sum.splits)
  from FindColumn_row[OF c(1) E_Column.prems(3)] obtain i where
    "FindColumnIndex schema name = Inr i" "i < length row" "value_fits (col_type column) (row ! i)" .
  then show ?case using of_type_FromValue c(2) by auto
next
  case (E_Literal kind integer str)
  then show ?case by (cases kind) (auto simp: check_literal_def eval_literal_def)
next
  case (E_Binary op left right)
  then obtain tx tz where t: "CheckCompileExpr left schema allow (Some planner) = Inr tx"
    "CheckCompileExpr right schema allow (Some planner) = Inr tz" "check_binary op tx tz = Inr ty" by (auto simp: rbind_Inr)
  have "sound (run_errors run (E_Binary op left right)) tx (EvaluateExpression left row schema grp (Some run))"
    by (rule sound_mono[OF E_Binary.IH(1)[OF t(1)]]) (use E_Binary.prems in auto)
  moreover have "sound (run_errors run (E_Binary op left right)) tz (EvaluateExpression right row schema grp (Some run))"
    by (rule sound_mono[OF E_Binary.IH(2)[OF t(2)]]) (use E_Binary.prems in auto)
  ultimately show ?case using sound_binary[OF _ _ t(3)] t E_Binary.prems(2) by simp
next
  case (E_Unary op operand)
  then obtain t where t: "CheckCompileExpr operand schema allow (Some planner) = Inr t" "check_unary op t = Inr ty"
    by (auto simp: rbind_Inr)
  then show ?case using sound_unary[OF E_Unary.IH[OF t(1)] t(2)] E_Unary.prems by simp
next
  case (E_IsNull operand negated)
  then obtain t where t: "CheckCompileExpr operand schema allow (Some planner) = Inr t" "ty = CT_Bool" by (auto simp: rbind_Inr)
  have "sound (run_errors run operand) t (EvaluateExpression operand row schema grp (Some run))"
    by (rule E_IsNull.IH[OF t(1)]) (use E_IsNull.prems in auto)
  then show ?case using t(2) by (cases "EvaluateExpression operand row schema grp (Some run)") (auto simp: Let_def)
next
  case (E_Between operand lower upper negated)
  then obtain t tw tz where t: "CheckCompileExpr operand schema allow (Some planner) = Inr t"
    "CheckCompileExpr lower schema allow (Some planner) = Inr tw" "CheckCompileExpr upper schema allow (Some planner) = Inr tz"
    "check_between t tw tz = Inr ty" by (auto simp: rbind_Inr)
  let ?E = "run_errors run (E_Between operand lower upper negated)"
  have "sound ?E t (EvaluateExpression operand row schema grp (Some run))"
    by (rule sound_mono[OF E_Between.IH(1)[OF t(1)]]) (use E_Between.prems in auto)
  moreover have "sound ?E tw (EvaluateExpression lower row schema grp (Some run))"
    by (rule sound_mono[OF E_Between.IH(2)[OF t(2)]]) (use E_Between.prems in auto)
  moreover have "sound ?E tz (EvaluateExpression upper row schema grp (Some run))"
    by (rule sound_mono[OF E_Between.IH(3)[OF t(3)]]) (use E_Between.prems in auto)
  ultimately show ?case using sound_between[OF _ _ _ t(4)] by simp
next
  case (E_In operand options negated)
  let ?E = "run_errors run (E_In operand options negated)"
  let ?eval = "\<lambda>e. EvaluateExpression e row schema grp (Some run)"
  obtain t where t: "CheckCompileExpr operand schema allow (Some planner) = Inr t"
    "check_options t (map (\<lambda>e. CheckCompileExpr e schema allow (Some planner)) options) = Inr ty"
    using E_In.prems(1) by (auto simp: rbind_Inr split: if_splits)
  note c = check_options_Inr[OF t(2)]
  have operand: "sound ?E t (?eval operand)"
    by (rule sound_mono[OF E_In.IH(1)[OF t(1)]]) (use E_In.prems in auto)
  have options: "\<forall>r\<in>set (map ?eval options). \<exists>u. sound ?E u r \<and> (u = CT_Null \<or> u = t)" if nt: "t \<noteq> CT_Null"
  proof
    fix r assume "r \<in> set (map ?eval options)"
    then obtain e where e: "e \<in> set options" "r = ?eval e" by auto
    then obtain u where u: "CheckCompileExpr e schema allow (Some planner) = Inr u" "u = CT_Null \<or> u = t" using c nt by auto
    have "sound ?E u r" unfolding e(2)
      by (rule sound_mono[OF E_In.IH(2)[OF e(1) u(1)]]) (use E_In.prems e(1) in \<open>auto simp: list_all_iff\<close>)
    then show "\<exists>u. sound ?E u r \<and> (u = CT_Null \<or> u = t)" using u(2) by blast
  qed
  show ?case
  proof (cases "?eval operand")
    case (Inr v)
    have "sound ?E CT_Bool (eval_in v negated False (map ?eval options))" if "\<not> EvalIsNull v"
      using sound_in[of t v "map ?eval options" ?E] options operand Inr of_type_kind[of t v] that by auto
    then show ?thesis using Inr c by auto
  qed (use operand in simp)
next
  case (E_Subquery kind query operand negated)
  then obtain q tz where q: "query = Some q" "rbind (planner q) (subquery_type kind) = Inr tz" "kind \<noteq> SQ_In \<Longrightarrow> ty = tz"
    by (auto simp: rbind_Inr split: option.splits if_splits)
  have fits: "answer_fits (planner q) (run q)" using E_Subquery.prems(5) q(1) by simp
  let ?E = "run_errors run (E_Subquery kind query operand negated)"
  show ?case
  proof (cases "kind = SQ_In")
    case True
    then obtain t where t: "CheckCompileExpr operand schema allow (Some planner) = Inr t" "ty = CT_Bool" "t = CT_Null \<or> tz = CT_Null \<or> t = tz"
      using E_Subquery.prems(1) q by (auto simp: rbind_Inr split: if_splits)
    have "sound ?E t (EvaluateExpression operand row schema grp (Some run))"
      by (rule sound_mono[OF E_Subquery.IH[OF t(1)]]) (use E_Subquery.prems in auto)
    then show ?thesis using sound_subquery[where planner = planner and run = run and q = q and errs = ?E and t = t, OF fits q(2)] t True q(1) by auto
  next
    case False
    then show ?thesis using sound_subquery[where planner = planner and run = run and q = q and errs = ?E, OF fits q(2)] q by auto
  qed
next
  case (E_Aggregate kind star argument)
  then have allow: "allow" by (auto split: if_splits)
  show ?case
  proof (cases grp)
    case (Some rows)
    then have rows: "\<forall>r\<in>set rows. row_fits schema r" using E_Aggregate.prems(4) by blast
    show ?thesis
    proof (cases star)
      case True
      then show ?thesis using E_Aggregate.prems(1) allow Some by (auto simp: Let_def split: if_splits)
    next
      case False
      then obtain t where t: "CheckCompileExpr argument schema False (Some planner) = Inr t" "check_aggregate kind t = Inr ty"
        using E_Aggregate.prems(1) allow by (auto simp: rbind_Inr split: if_splits)
      let ?rs = "map (\<lambda>r. EvaluateExpression argument r schema None (Some run)) rows"
      have rs: "\<forall>r\<in>set ?rs. sound (run_errors run argument) t r"
        using E_Aggregate.IH[OF t(1)] E_Aggregate.prems(2,5) rows by auto
      then have "ty = CT_Int \<and> sound (run_errors run argument) CT_Int (eval_count 0 ?rs)" if "kind = Agg_Count"
        using sound_count[OF rs] t(2) that by (auto simp: check_aggregate_def)
      moreover have "sound (run_errors run argument) ty (eval_aggregate kind None 0 ?rs)" if "kind \<noteq> Agg_Count"
        by (rule sound_aggregate[OF rs t(2) that]) auto
      ultimately show ?thesis using Some False by (auto simp: Let_def)
    qed
  qed simp
qed simp

definition demo_users :: Schema where
  "demo_users = [make_Column ''id'' DT_Int None True False False None, make_Column ''name'' DT_Varchar (Some 8) True False False None]"

definition demo_check :: Expr where
  "demo_check = E_Binary ''and'' (E_Binary ''>'' (E_Binary ''*'' (E_Column [] ''id'') (E_Literal LK_Int 3 [])) (E_Literal LK_Int 10 []))
     (E_Binary ''like'' (E_Column ''u'' ''name'') (E_Literal LK_String 0 ''a%''))"

lemmas check_eval = rbind_def check_binary_def check_unary_def check_between_def check_literal_def comparison_ops_def FindColumn_def
  FindColumnIndex_def

text \<open>C40: With a NULL-typed operand the check is not sound: AND is then typed as NULL, but FALSE AND NULL is FALSE. So
  \<open>(id = 0 AND NULL) + 1\<close> passes the check as NULL and evaluates to the number 1 on every row whose \<open>id\<close> is not 0, and
  the condition \<open>(id = 0 AND NULL) < 1\<close> passes as BOOL and stops the query with a type mismatch.\<close>

theorem null_logic_escapes_types:
  fixes e :: "'q CompileExpr"
  assumes "e = E_Binary ''and'' (E_Binary ''='' (E_Column [] ''id'') (E_Literal LK_Int 0 [])) (E_Literal LK_Null 0 [])"
    and "FindColumnIndex schema ''id'' = Inr i" "col_type (schema ! i) = DT_Int" "i < length row" "row ! i = VInt n" "n \<noteq> 0"
  shows "CheckCompileExpr (E_Binary ''+'' e (E_Literal LK_Int 1 [])) schema False planner = Inr CT_Null \<and>
    EvaluateExpression (E_Binary ''+'' e (E_Literal LK_Int 1 [])) row schema None run = Inr (EvalInt 1) \<and>
    CheckCompileExpr (E_Binary ''<'' e (E_Literal LK_Int 1 [])) schema False planner = Inr CT_Bool \<and>
    EvaluateExpression (E_Binary ''<'' e (E_Literal LK_Int 1 [])) row schema None run = Inl TypeMismatch"
proof -
  have "EvaluateExpression (E_Binary ''='' (E_Column [] ''id'') (E_Literal LK_Int 0 [])) row schema None run = Inr (EvalBool False)"
    using assms(2-) by (auto simp: eval_binary_def eval_literal_def FromValue_def EvalInt_def EvalIsNull_def CompareEval_def signed_0
        dest: signed_word_eqI[of n 0, simplified])
  then have "EvaluateExpression e row schema None run = Inr (EvalBool False)"
    unfolding assms(1) by (simp add: eval_binary_def EvalBool_def)
  moreover have "CheckCompileExpr e schema False planner = Inr CT_Null"
    using assms(1-3) by (simp add: check_eval)
  ultimately show ?thesis
    by (simp add: check_eval eval_binary_def eval_literal_def EvalBool_def EvalInt_def EvalIsNull_def CompareEval_def
        eval_arith_def int64_max_def int64_min_def)
qed

lemma null_logic_escapes_types_witness:
  "\<exists>e :: Expr. CheckCompileExpr e demo_users False None = Inr CT_Null \<and>
     EvaluateExpression e [VInt 7, VNull] demo_users None None = Inr (EvalInt 1)"
proof -
  have "FindColumnIndex demo_users ''id'' = Inr 0" "col_type (demo_users ! 0) = DT_Int" "0 < length [VInt 7, VNull]"
    "[VInt 7, VNull] ! 0 = VInt 7" "(7 :: i64) \<noteq> 0"
    by (simp_all add: demo_users_def make_Column_def FindColumnIndex_def)
  note * = null_logic_escapes_types[OF refl this, of None None]
  show ?thesis by (rule exI, rule conjI[OF *[THEN conjunct1] *[THEN conjunct2, THEN conjunct1]])
qed

end
