(* ===== verification/PlannerSafety.thy ===== *)
theory PlannerSafety
  imports PlannerTypes RowCodec
begin

text \<open>
  What the plans of \<^verbatim>\<open>Planner::Build\<close> promise the executor: the rows of an INSERT can be stored, and the tree of a SELECT has the
  shape that the executor understands, also after the optimizer.
\<close>

subsection \<open>The rows of an INSERT\<close>

text \<open>A value that the planner accepts for a column is one that the row codec can store there.\<close>

definition small_value :: "Value \<Rightarrow> bool" where
  "small_value v \<longleftrightarrow> (case v of VText s \<Rightarrow> length s < 2 ^ 32 | _ \<Rightarrow> True)"

definition fallback :: "Column \<Rightarrow> Value" where
  "fallback column = (case default_value column of Some d \<Rightarrow> d | None \<Rightarrow> VNull)"

lemma insert_value_storable: "CheckInsertValue v column = Code_Ok \<Longrightarrow> small_value v \<Longrightarrow> field_ok column v"
  by (cases v)
    (auto simp: CheckInsertValue_def field_ok_def small_value_def too_long_def IsNull_def AsVarchar_def split: if_splits option.splits)

lemma default_storable:
  "check_default column = Code_Ok \<Longrightarrow> default_value column = Some d \<Longrightarrow> small_value d \<Longrightarrow> field_ok column d"
  by (cases d)
    (auto simp: check_default_def field_ok_def small_value_def too_long_def IsNull_def AsVarchar_def split: if_splits option.splits)

lemma check_columns_Ok:
  "check_columns names n columns = Code_Ok \<Longrightarrow>
   distinct (map col_name columns) \<and> set (map col_name columns) \<inter> set names = {} \<and> (\<forall>c\<in>set columns. check_default c = Code_Ok)"
proof (induction columns arbitrary: names n)
  case (Cons c columns)
  have step: "col_name c \<notin> set names" "check_default c = Code_Ok"
    "\<exists>m. check_columns (col_name c # names) m columns = Code_Ok"
    using Cons.prems by (auto split: if_splits)
  then obtain m where "check_columns (col_name c # names) m columns = Code_Ok" by blast
  from Cons.IH[OF this] step(1,2) show ?case by auto
qed simp

lemma CheckSchema_Ok:
  "CheckSchema schema = Code_Ok \<Longrightarrow> distinct (map col_name schema) \<and> (\<forall>c\<in>set schema. check_default c = Code_Ok)"
  by (auto simp: CheckSchema_def dest: check_columns_Ok split: if_splits)

lemma FindColumnIndex_name: "FindColumnIndex schema name = Inr i \<Longrightarrow> i < length schema \<and> col_name (schema ! i) = name"
  by (auto simp: FindColumnIndex_def find_column_from_Inr)

lemma named_targets_Inr:
  "named_targets schema seen columns = Inr targets \<Longrightarrow>
   list_all2 (\<lambda>name i. FindColumnIndex schema name = Inr i) columns targets \<and> distinct columns \<and> set columns \<inter> set seen = {}"
proof (induction columns arbitrary: seen targets)
  case (Cons name columns)
  then obtain i rest where step: "name \<notin> set seen" "FindColumnIndex schema name = Inr i"
    "named_targets schema (name # seen) columns = Inr rest" "targets = i # rest"
    by (auto simp: result_simps split: if_splits sum.splits)
  from Cons.IH[OF step(3)] step(1,2,4) show ?case by auto
qed simp

lemma target_indexes_Inr:
  assumes "target_indexes schema columns = Inr targets"
  shows "distinct targets \<and> (\<forall>i\<in>set targets. i < length schema)"
proof (cases "columns = []")
  case False
  then have t: "list_all2 (\<lambda>name i. FindColumnIndex schema name = Inr i) columns targets" "distinct columns"
    using assms named_targets_Inr by (auto simp: target_indexes_def)
  then have "map (\<lambda>i. col_name (schema ! i)) targets = columns"
    by (auto simp: list_all2_conv_all_nth FindColumnIndex_name intro!: nth_equalityI)
  then have "distinct targets" using t(2) distinct_map by blast
  then show ?thesis using t(1) FindColumnIndex_name by (fastforce simp: list_all2_conv_all_nth in_set_conv_nth)
qed (use assms in \<open>auto simp: target_indexes_def\<close>)

lemma place_values_Inr:
  assumes "place_values schema kvs normalized provided = Inr (normalized', provided')"
    and "distinct (map fst kvs)" "length normalized = length schema" "length provided = length schema"
  shows "length normalized' = length schema \<and> length provided' = length schema \<and>
    (\<forall>(i, v)\<in>set kvs. CheckInsertValue v (schema ! i) = Code_Ok) \<and>
    (\<forall>c<length schema. normalized' ! c = (case map_of kvs c of Some v \<Rightarrow> v | None \<Rightarrow> normalized ! c) \<and>
       (provided' ! c \<longleftrightarrow> provided ! c \<or> c \<in> fst ` set kvs))"
  using assms
proof (induction kvs arbitrary: normalized provided)
  case (Cons kv kvs)
  obtain i v where kv: "kv = (i, v)" by fastforce
  have step: "CheckInsertValue v (schema ! i) = Code_Ok"
    "place_values schema kvs (normalized[i := v]) (provided[i := True]) = Inr (normalized', provided')"
    using Cons.prems(1) by (auto simp: kv result_simps)
  have "map_of kvs i = None" using Cons.prems(2) kv by (simp add: map_of_eq_None_iff)
  with Cons.IH[OF step(2)] Cons.prems(2-) step(1) show ?case
    by (auto simp: kv nth_list_update split: option.splits)
qed auto

lemma normalize_row_Inr:
  assumes "normalize_row schema targets row = Inr row'" "distinct targets"
  shows "length row = length targets \<and> length row' = length schema \<and>
    (\<forall>(i, v)\<in>set (zip targets row). CheckInsertValue v (schema ! i) = Code_Ok) \<and>
    (\<forall>c<length schema. (\<forall>v. map_of (zip targets row) c = Some v \<longrightarrow> row' ! c = v) \<and>
       (map_of (zip targets row) c = None \<longrightarrow>
          row' ! c = fallback (schema ! c) \<and> (default_value (schema ! c) = None \<longrightarrow> nullable (schema ! c))))"
proof -
  have len: "length row = length targets" using assms(1) by (auto simp: normalize_row_def split: if_splits)
  obtain n p where n: "place_values schema (zip targets row) (replicate (length schema) VNull) (replicate (length schema) False) = Inr (n, p)"
    "map_result fill_column (zip schema (zip n p)) = Inr row'"
    using assms(1) len by (auto simp: normalize_row_def result_simps split: prod.splits)
  from place_values_Inr[OF n(1)] assms(2) len
  have l: "length n = length schema" "length p = length schema"
    and checks: "\<forall>(i, v)\<in>set (zip targets row). CheckInsertValue v (schema ! i) = Code_Ok"
    and at: "\<forall>c<length schema. n ! c = (case map_of (zip targets row) c of Some v \<Rightarrow> v | None \<Rightarrow> VNull) \<and>
       (p ! c \<longleftrightarrow> c \<in> fst ` set (zip targets row))"
    by (auto split: option.splits)
  have fill: "list_all2 (\<lambda>x y. fill_column x = Inr y) (zip schema (zip n p)) row'" using n(2) by (simp add: map_result_Inr)
  have "(\<forall>v. map_of (zip targets row) c = Some v \<longrightarrow> row' ! c = v) \<and>
       (map_of (zip targets row) c = None \<longrightarrow>
          row' ! c = fallback (schema ! c) \<and> (default_value (schema ! c) = None \<longrightarrow> nullable (schema ! c)))"
    if "c < length schema" for c
  proof -
    have "fill_column (schema ! c, n ! c, p ! c) = Inr (row' ! c)"
      using fill that l by (auto simp: list_all2_conv_all_nth)
    moreover have "p ! c \<longleftrightarrow> map_of (zip targets row) c \<noteq> None" using at that by (simp add: map_of_eq_None_iff)
    ultimately show ?thesis using at that by (auto simp: fill_column_def fallback_def split: option.splits if_splits)
  qed
  then show ?thesis using len l checks fill by (auto simp: list_all2_lengthD[OF fill, symmetric])
qed

text \<open>The row that an INSERT stores for the values \<open>row\<close> of the columns \<open>columns\<close>.\<close>

definition inserted_row :: "Schema \<Rightarrow> string list \<Rightarrow> Row \<Rightarrow> Row \<Rightarrow> bool" where
  "inserted_row schema columns row row' \<longleftrightarrow>
     (if columns = [] then row' = row
      else length row = length columns \<and> length row' = length schema \<and>
        (\<forall>k<length columns. \<exists>c. FindColumnIndex schema (columns ! k) = Inr c \<and> row' ! c = row ! k) \<and>
        (\<forall>c<length schema. col_name (schema ! c) \<notin> set columns \<longrightarrow> row' ! c = fallback (schema ! c)))"

lemma normalize_row_inserted:
  assumes "normalize_row schema targets row = Inr row'" "target_indexes schema columns = Inr targets"
  shows "inserted_row schema columns row row'"
proof -
  note t = target_indexes_Inr[OF assms(2)]
  note n = normalize_row_Inr[OF assms(1) t[THEN conjunct1]]
  have at: "row' ! (targets ! k) = row ! k" if "k < length targets" for k
  proof -
    have "map_of (zip targets row) (targets ! k) = Some (row ! k)"
      using n t that by (metis map_of_zip_nth)
    moreover have "targets ! k < length schema" using t that by simp
    ultimately show ?thesis using n by blast
  qed
  show ?thesis
  proof (cases "columns = []")
    case True
    then have "targets = [0..<length schema]" using assms(2) by (simp add: target_indexes_def)
    then have "row' = row" using n at by (intro nth_equalityI) auto
    then show ?thesis using True by (simp add: inserted_row_def)
  next
    case False
    then have l: "list_all2 (\<lambda>name i. FindColumnIndex schema name = Inr i) columns targets"
      using assms(2) named_targets_Inr by (auto simp: target_indexes_def)
    have "row' ! c = fallback (schema ! c)" if "c < length schema" "col_name (schema ! c) \<notin> set columns" for c
    proof -
      have "c \<notin> set targets"
      proof
        assume "c \<in> set targets"
        then obtain k where k: "k < length columns" "targets ! k = c" using l by (auto simp: in_set_conv_nth list_all2_lengthD)
        then have "col_name (schema ! c) = columns ! k"
          using FindColumnIndex_name[of schema "columns ! k" c] l by (auto simp: list_all2_conv_all_nth)
        then show False using that(2) k(1) by simp
      qed
      then have "map_of (zip targets row) c = None" by (auto simp: map_of_eq_None_iff dest: set_zip_leftD)
      then show ?thesis using n that(1) by blast
    qed
    then show ?thesis using False l at n by (auto simp: inserted_row_def list_all2_conv_all_nth)
  qed
qed

lemma normalize_row_storable:
  assumes "normalize_row schema targets row = Inr row'" "target_indexes schema columns = Inr targets"
    and "\<forall>c\<in>set schema. check_default c = Code_Ok \<and> (\<forall>d. default_value c = Some d \<longrightarrow> small_value d)"
    and "\<forall>v\<in>set row. small_value v"
  shows "list_all2 field_ok schema row'"
proof -
  note n = normalize_row_Inr[OF assms(1) target_indexes_Inr[OF assms(2), THEN conjunct1]]
  have "field_ok (schema ! c) (row' ! c)" if c: "c < length schema" for c
  proof (cases "map_of (zip targets row) c")
    case None
    then have "row' ! c = fallback (schema ! c)" "default_value (schema ! c) = None \<longrightarrow> nullable (schema ! c)"
      using n c by blast+
    moreover have "check_default (schema ! c) = Code_Ok" "\<And>d. default_value (schema ! c) = Some d \<Longrightarrow> small_value d"
      using assms(3) nth_mem[OF c] by blast+
    ultimately show ?thesis using default_storable[of "schema ! c"]
      by (cases "default_value (schema ! c)") (simp_all add: fallback_def field_ok_def)
  next
    case (Some v)
    then have v: "(c, v) \<in> set (zip targets row)" by (rule map_of_SomeD)
    then have "CheckInsertValue v (schema ! c) = Code_Ok" "v \<in> set row" using n by (auto dest: set_zip_rightD)
    then show ?thesis using insert_value_storable assms(4) Some n c by fastforce
  qed
  then show ?thesis using n by (simp add: list_all2_conv_all_nth)
qed

text \<open>C16: An INSERT that the planner accepts can be stored. The plan has one row for each row of VALUES, in the order of the schema: the
  given values at the named columns, and the default or NULL at the others. Every one of these rows passes the checks of the row
  codec, which encodes it. The table's own schema passes \<^verbatim>\<open>CheckSchema\<close>, as every schema of CREATE TABLE does, and
  the texts of the statement and of the defaults are shorter than 4 GB, the limit of the codec.\<close>

theorem inserted_rows_storable:
  assumes "Build catalog (St_Insert t columns rows location) = Inr plan" "FindTable catalog t = Inr (Some table)"
    and "CheckSchema (tab_schema table) = Code_Ok"
    and "\<forall>c\<in>set (tab_schema table). \<forall>d. default_value c = Some d \<longrightarrow> small_value d" "\<forall>row\<in>set rows. \<forall>v\<in>set row. small_value v"
  shows "\<exists>rows'. plan = P_Insert t columns rows' \<and> list_all2 (inserted_row (tab_schema table) columns) rows rows' \<and>
    (\<forall>row'\<in>set rows'. RowCodec_Encode (tab_schema table) row' = Inr (row_bytes row'))"
proof -
  let ?schema = "tab_schema table"
  obtain targets rows' where r: "target_indexes ?schema columns = Inr targets" "map_result (normalize_row ?schema targets) rows = Inr rows'"
    and plan: "plan = P_Insert t columns rows'"
    using assms(1,2) by (auto simp: Build_def build_statement_def result_simps RequireTable_def NormalizeInsertRows_def finish_plan_def
        Optimize_def OptimizeWithStats_def simp del: map_result_Inr split: if_splits)
  have defaults: "\<forall>c\<in>set ?schema. check_default c = Code_Ok \<and> (\<forall>d. default_value c = Some d \<longrightarrow> small_value d)"
    using CheckSchema_Ok[OF assms(3), THEN conjunct2] assms(4) by (simp only: ball_conj_distrib simp_thms)
  have each: "list_all2 (\<lambda>row row'. normalize_row ?schema targets row = Inr row') rows rows'" using r(2) by (simp add: map_result_Inr)
  have "list_all2 (inserted_row ?schema columns) rows rows'"
    by (rule list_all2_mono[OF each]) (rule normalize_row_inserted[OF _ r(1)])
  moreover have "RowCodec_Encode ?schema row' = Inr (row_bytes row')" if mem: "row' \<in> set rows'" for row'
  proof -
    obtain k where k: "k < length rows'" "rows' ! k = row'" using mem by (auto simp: in_set_conv_nth)
    then have row: "rows ! k \<in> set rows" "normalize_row ?schema targets (rows ! k) = Inr row'"
      using list_all2_lengthD[OF each] list_all2_nthD2[OF each k(1)] by auto
    have "list_all2 field_ok ?schema row'"
      by (rule normalize_row_storable[OF row(2) r(1) defaults bspec[OF assms(5) row(1)]])
    then show ?thesis by (simp add: Encode_Inr_iff row_ok_def)
  qed
  ultimately show ?thesis using plan by blast
qed

definition demo_catalog :: CatalogView where
  "demo_catalog =
     \<lparr>FindTable = (\<lambda>name. if name = ''users'' then Inr (Some \<lparr>tab_name = name, tab_schema = demo_users, first_data_page_id = 1\<rparr>)
                        else Inl NotFound),
      ListTableIndexes = (\<lambda>name. if name = ''users'' then
         [\<lparr>idx_name = ''by_id'', idx_table_name = name, idx_column_name = ''id'', idx_root_page_id = 2, idx_is_unique = True\<rparr>] else [])\<rparr>"

definition demo_location :: Position where
  "demo_location = \<lparr>pos_offset = 0, pos_line = 1, pos_column = 1\<rparr>"

lemma inserted_rows_storable_witness:
  "\<exists>rows'. P_Insert ''users'' [''name''] [[VNull, VText ''ann'']] = P_Insert ''users'' [''name''] rows' \<and>
     list_all2 (inserted_row demo_users [''name'']) [[VText ''ann'']] rows' \<and>
     (\<forall>row'\<in>set rows'. RowCodec_Encode demo_users row' = Inr (row_bytes row'))"
proof -
  have c: "CheckSchema demo_users = Code_Ok"
    by (simp add: CheckSchema_def demo_users_def make_Column_def check_default_def)
  have b: "Build demo_catalog (St_Insert ''users'' [''name''] [[VText ''ann'']] demo_location) =
      Inr (P_Insert ''users'' [''name''] [[VNull, VText ''ann'']])"
    by (simp add: Build_def build_statement_def rbind_def require_def RequireTable_def NormalizeInsertRows_def target_indexes_def
        normalize_row_def finish_plan_def Optimize_def OptimizeWithStats_def demo_catalog_def demo_users_def make_Column_def FindColumnIndex_def
        CheckInsertValue_def too_long_def IsNull_def AsVarchar_def fill_column_def)
  have t: "FindTable demo_catalog ''users'' = Inr (Some \<lparr>tab_name = ''users'', tab_schema = demo_users, first_data_page_id = 1\<rparr>)"
    by (simp add: demo_catalog_def)
  have d: "\<forall>c\<in>set demo_users. \<forall>d. default_value c = Some d \<longrightarrow> small_value d"
    "\<forall>row\<in>set [[VText ''ann'']]. \<forall>v\<in>set row. small_value v"
    by (simp_all add: demo_users_def make_Column_def small_value_def)
  from inserted_rows_storable[OF b t _ _ d(2)] c d(1) show ?thesis by (simp only: TableMetadata.simps)
qed

subsection \<open>The tree of a SELECT\<close>

lemma join_steps_source:
  "join_steps catalog js clauses = Inr js' \<Longrightarrow> IsJoinSource (js_root js) \<and> js_root js \<noteq> N_nullptr \<Longrightarrow>
   IsJoinSource (js_root js') \<and> js_root js' \<noteq> N_nullptr \<and> (js' = js \<or> (\<exists>l r ty a b c d i j. js_root js' = N_Join l r ty a b c d i j))"
proof (induction clauses arbitrary: js)
  case (Cons clause clauses)
  then obtain js1 where step: "join_step catalog js clause = Inr js1" "join_steps catalog js1 clauses = Inr js'"
    by (auto simp: rbind_Inr)
  have "\<exists>r ty a b c d i j. js_root js1 = N_Join (js_root js) (N_SeqScan r) ty a b c d i j"
    using step(1) by (auto simp: join_step_def rbind_Inr Let_def split: if_splits)
  then have "IsJoinSource (js_root js1) \<and> js_root js1 \<noteq> N_nullptr" "js1 = js' \<Longrightarrow> \<exists>l r ty a b c d i j. js_root js' = N_Join l r ty a b c d i j"
    using Cons.prems(2) by auto
  with Cons.IH[OF step(2)] show ?case by blast
qed simp

text \<open>The trees that the planner builds: never a projection below a projection.\<close>

definition planned_tree :: "PlanNode \<Rightarrow> bool" where
  "planned_tree tree \<longleftrightarrow>
     IsFrozenSelectShape tree \<and> (\<exists>child columns all idx. tree = N_Project child columns all idx \<and> (\<forall>c cs a i. child \<noteq> N_Project c cs a i))"

lemma build_join_Inr:
  "build_join catalog table s = Inr sp \<Longrightarrow>
   \<exists>js columns. join_steps catalog (join_start table s) (sel_joins s) = Inr js \<and> sp = join_result s js columns"
  by (auto simp: build_join_def rbind_Inr split: if_splits)

lemma build_join_tree:
  assumes "build_join catalog table s = Inr sp" "sel_joins s \<noteq> []"
  shows "planned_tree (sp_root sp)"
proof -
  obtain js columns where js: "join_steps catalog (join_start table s) (sel_joins s) = Inr js" "sp = join_result s js columns"
    using build_join_Inr[OF assms(1)] by blast
  have start: "IsJoinSource (js_root (join_start table s)) \<and> js_root (join_start table s) \<noteq> N_nullptr"
    by (simp add: join_start_def Let_def)
  obtain clause clauses where c: "sel_joins s = clause # clauses" using assms(2) by (cases "sel_joins s") auto
  then obtain js1 where step: "join_step catalog (join_start table s) clause = Inr js1" "join_steps catalog js1 clauses = Inr js"
    using js(1) by (auto simp: rbind_Inr)
  have "\<exists>l r ty a b c d i j. js_root js1 = N_Join l r ty a b c d i j" "IsJoinSource (js_root js1) \<and> js_root js1 \<noteq> N_nullptr"
    using step(1) start by (auto simp: join_step_def rbind_Inr Let_def split: if_splits)
  with join_steps_source[OF step(2)]
  obtain l r ty a b c d i j where "js_root js = N_Join l r ty a b c d i j" "IsJoinSource (js_root js)" by blast
  then show ?thesis by (auto simp: planned_tree_def IsFrozenSelectShape_def js(2) join_result_def)
qed

lemma build_single_tree: "build_single planner table s = Inr sp \<Longrightarrow> sp_root sp = select_tree (tab_schema table) s"
  by (auto simp: build_single_def Let_def result_simps split: if_splits)

lemma select_tree_planned: "planned_tree (select_tree schema s)"
  by (simp add: planned_tree_def IsFrozenSelectShape_def select_tree_def Let_def)

lemma build_select_tree: "build_select planner catalog s = Inr (P_Select sp) \<Longrightarrow> planned_tree (sp_root sp)"
  by (auto simp: build_select_def rbind_Inr build_join_tree build_single_tree select_tree_planned split: if_splits)

text \<open>The change that R2 makes: the scan below the filter becomes the index scan for the predicate of the filter.\<close>

definition uses_index :: "IndexMetadata list \<Rightarrow> PlanNode \<Rightarrow> PlanNode \<Rightarrow> bool" where
  "uses_index indexes tree tree' \<longleftrightarrow>
     (\<exists>t p e columns all idx index. tree = N_Project (N_Filter (N_SeqScan t) p e) columns all idx \<and> index \<in> set indexes \<and>
        idx_table_name index = t \<and> idx_column_name index = pred_column p \<and> pred_kind p = PK_Equal \<and> IsInt (pred_value p) \<and>
        tree' = N_Project (N_Filter (N_IndexScan t (idx_name index) (pred_column p) (pred_value p)) p e) columns all idx)"

lemma find_Some: "find P xs = Some x \<Longrightarrow> x \<in> set xs \<and> P x"
  by (auto simp: find_Some_iff)

lemma rule_R2_uses_index: "rule_R2 indexes tree = Some tree' \<Longrightarrow> uses_index indexes tree tree'"
  by (auto simp: rule_R2_def uses_index_def split: PlanNode.splits if_splits option.splits dest: find_Some)

lemma optimize_planned:
  assumes "planned_tree tree"
  shows "\<exists>tree' stats. optimize_loop indexes tree no_stats = (tree', stats) \<and> passes stats \<le> 2 \<and> IsFrozenSelectShape tree' \<and>
    (tree' = tree \<or> uses_index indexes tree tree')"
proof -
  obtain child columns all idx where t: "tree = N_Project child columns all idx" "\<And>c cs a i. child \<noteq> N_Project c cs a i"
    using assms by (auto simp: planned_tree_def)
  have r1: "rule_R1 tree = None" using t(2) by (auto simp: rule_R1_def t(1) split: PlanNode.splits)
  show ?thesis
  proof (cases "rule_R2 indexes tree")
    case None
    then have "optimize_loop indexes tree no_stats = (tree, no_stats\<lparr>passes := 1\<rparr>)"
      using r1 by (subst optimize_loop.simps) (simp add: optimize_pass_def apply_rule_def no_stats_def)
    then show ?thesis using assms by (auto simp: planned_tree_def)
  next
    case (Some tree')
    from rule_R2_uses_index[OF Some] have u: "uses_index indexes tree tree'" .
    have done2: "rule_R1 tree' = None" "rule_R2 indexes tree' = None" "IsFrozenSelectShape tree'"
      using u by (auto simp: uses_index_def rule_R1_def rule_R2_def IsFrozenSelectShape_def)
    define st where "st = hit ''R2'' (no_stats\<lparr>passes := 1\<rparr>)"
    have "optimize_loop indexes tree no_stats = optimize_loop indexes tree' st"
      using r1 Some by (subst optimize_loop.simps) (simp add: optimize_pass_def apply_rule_def no_stats_def st_def)
    also have "\<dots> = (tree', st\<lparr>passes := passes st + 1\<rparr>)"
      using done2 by (subst optimize_loop.simps) (simp add: optimize_pass_def apply_rule_def)
    finally show ?thesis using done2(3) u by (auto simp: st_def hit_def)
  qed
qed

lemma build_select_name: "build_select planner catalog s = Inr (P_Select sp) \<Longrightarrow> sp_table_name sp = sel_table_name s"
  by (auto simp: build_select_def build_single_def join_result_def rbind_Inr require_Inr Let_def dest!: build_join_Inr split: if_splits)

lemma finish_select:
  assumes "build_select planner catalog s = Inr (P_Select sp)"
  shows "\<exists>tree. finish_plan catalog (P_Select sp) = Inr (P_Select (sp\<lparr>sp_root := tree\<rparr>)) \<and> IsFrozenSelectShape tree \<and>
    (tree = sp_root sp \<or> uses_index (ListTableIndexes catalog (sel_table_name s)) (sp_root sp) tree)"
proof -
  obtain tree stats where t: "optimize_loop (ListTableIndexes catalog (sel_table_name s)) (sp_root sp) no_stats = (tree, stats)"
    "IsFrozenSelectShape tree" "tree = sp_root sp \<or> uses_index (ListTableIndexes catalog (sel_table_name s)) (sp_root sp) tree"
    using optimize_planned[OF build_select_tree[OF assms]] by blast
  have "sp_root sp \<noteq> N_nullptr" using build_select_tree[OF assms] by (auto simp: planned_tree_def)
  then have "finish_plan catalog (P_Select sp) = Inr (P_Select (sp\<lparr>sp_root := tree\<rparr>))"
    using t(1,2) by (simp add: finish_plan_def Optimize_def OptimizeWithStats_def build_select_name[OF assms])
  then show ?thesis using t(2,3) by blast
qed

text \<open>What \<open>PlanSelect\<close> returns: the built plan with the optimized tree.\<close>

lemma PlanSelect_Inr:
  assumes "PlanSelect catalog s = Inr plan"
  shows "\<exists>sp tree. build_select (PlanSelect catalog) catalog s = Inr (P_Select sp) \<and> plan = P_Select (sp\<lparr>sp_root := tree\<rparr>) \<and>
    (tree = sp_root sp \<or> uses_index (ListTableIndexes catalog (sel_table_name s)) (sp_root sp) tree)"
proof -
  obtain built where b: "build_select (PlanSelect catalog) catalog s = Inr built" "finish_plan catalog built = Inr plan"
    using assms by (subst (asm) PlanSelect.simps) (auto simp: rbind_Inr)
  then obtain sp where "built = P_Select sp" by (auto simp: build_select_def rbind_Inr)
  with b finish_select[of "PlanSelect catalog" catalog s sp] show ?thesis by auto
qed

text \<open>C17: The optimizer never refuses what the planner builds: every SELECT that passes the checks of the planner gets a plan, whose tree has
  the shape the executor needs. It is the tree that was built, or that tree with its scan replaced by a scan of an index that the
  catalog lists for the table, on the column and the key of the equality in WHERE.\<close>

theorem select_plan_shape:
  assumes "build_select (PlanSelect catalog) catalog s = Inr (P_Select sp)"
  shows "\<exists>tree. Build catalog (St_Select s) = Inr (P_Select (sp\<lparr>sp_root := tree\<rparr>)) \<and> IsFrozenSelectShape tree \<and>
    (tree = sp_root sp \<or> uses_index (ListTableIndexes catalog (sel_table_name s)) (sp_root sp) tree)"
  using finish_select[OF assms] assms by (auto simp: Build_select PlanSelect.simps[of catalog s] rbind_def)

definition demo_select :: SelectStatement where
  "demo_select =
     SelectStatement ''users'' [] [] [] [] [] True (Some (equal_predicate ''id'' (VInt 7)))
       (E_Binary ''='' (E_Column [] ''id'') (E_Literal LK_Int 7 [])) [] E_nullptr [] False None demo_location"

lemma demo_select_builds: "\<exists>sp. build_select (PlanSelect demo_catalog) demo_catalog demo_select = Inr (P_Select sp)"
  by (simp add: build_select_def build_single_def demo_select_def demo_catalog_def demo_users_def make_Column_def RequireTable_def
      check_eval require_def check_where_def check_condition_def check_having_def check_predicate_def CheckPredicate_def
      check_grouping_def has_aggregates_def projection_items_def equal_predicate_def IsNull_def too_long_def)

lemma select_plan_shape_witness:
  "\<exists>sp tree. Build demo_catalog (St_Select demo_select) = Inr (P_Select (sp\<lparr>sp_root := tree\<rparr>)) \<and> IsFrozenSelectShape tree"
proof -
  obtain sp where "build_select (PlanSelect demo_catalog) demo_catalog demo_select = Inr (P_Select sp)" using demo_select_builds by blast
  from select_plan_shape[OF this] show ?thesis by blast
qed

end
