(* ===== verification/Query.thy ===== *)
theory Query
  imports Executor PlannerSafety
begin

text \<open>
  Running a SELECT: it is planned, and its plan is executed with a runner that does the same for the subqueries
  (\<^verbatim>\<open>ExecutionEngine::Execute\<close> and its \<open>SubqueryRunner\<close>). The planner and the executor are composed here, and the main properties of a
  whole query are shown.
\<close>

subsection \<open>The runner\<close>

lemma rbind_cong [fundef_cong]: "r = r' \<Longrightarrow> (\<And>x. r' = Inr x \<Longrightarrow> f x = g x) \<Longrightarrow> rbind r f = rbind r' g"
  by (cases r') (simp_all add: rbind_def)

lemma BuildSource_cong:
  assumes "agree (plan_expressions plan) f g"
  shows "BuildSource db plan f = BuildSource db plan g"
proof (cases "sp_root plan")
  case (N_Project child columns all idx)
  have "agree (insert (sp_having plan) (node_expressions child \<union> set (sp_projection_expressions plan))) f g"
    "agree (node_expressions (sp_root plan) \<union> set (sp_projection_expressions plan)) f g"
    by (rule agree_subset[OF assms], auto simp: plan_expressions_def N_Project)+
  then have "aggregate_source db plan f child columns = aggregate_source db plan g child columns"
    "build_node db plan f (sp_root plan) = build_node db plan g (sp_root plan)"
    using aggregate_source_cong build_node_cong by blast+
  then show ?thesis by (simp only: BuildSource_def N_Project PlanNode.case)
qed (simp_all add: BuildSource_def)

lemma ExecuteSelect_cong [fundef_cong]:
  assumes "db = db'" "plan = plan'" "\<And>q. q \<in> plan_subqueries plan' \<Longrightarrow> f q = g q"
  shows "ExecuteSelect db plan f = ExecuteSelect db' plan' g"
proof -
  have "agree (plan_expressions plan) f g" using assms(2,3) by (auto simp: agree_def plan_subqueries_def)
  then show ?thesis using assms(1,2) by (simp only: ExecuteSelect_def BuildSource_cong)
qed

lemma uses_index_expressions: "uses_index indexes tree tree' \<Longrightarrow> node_expressions tree' = node_expressions tree"
  by (auto simp: uses_index_def)

text \<open>The expressions of a plan come from its statement.\<close>

lemma join_steps_expressions: "join_steps catalog js clauses = Inr js' \<Longrightarrow> node_expressions (js_root js') = node_expressions (js_root js)"
  by (induction clauses arbitrary: js) (auto simp: rbind_Inr join_step_def Let_def split: if_splits)

lemma built_expressions:
  assumes "build_select planner catalog s = Inr (P_Select sp)"
  shows "plan_expressions sp \<subseteq> insert E_nullptr (set (sel_projection_expressions s) \<union> {sel_compile_where s, sel_having s})"
proof -
  obtain table where t: "(if sel_joins s \<noteq> [] then build_join catalog table s else build_single planner table s) = Inr sp"
    using assms by (auto simp: build_select_def rbind_Inr)
  show ?thesis
  proof (cases "sel_joins s = []")
    case True
    then show ?thesis using t
      by (auto simp: build_single_def result_simps Let_def plan_expressions_def select_tree_def split: if_splits)
  next
    case False
    then obtain js columns where "join_steps catalog (join_start table s) (sel_joins s) = Inr js" "sp = join_result s js columns"
      using t build_join_Inr[of catalog table s sp] by auto
    then show ?thesis using join_steps_expressions
      by (fastforce simp: plan_expressions_def join_result_def join_start_def Let_def)
  qed
qed

lemma planned_subqueries:
  assumes "PlanSelect catalog s = Inr (P_Select sp)"
  shows "plan_subqueries sp \<subseteq> subqueries s"
proof -
  obtain sp0 tree where b: "build_select (PlanSelect catalog) catalog s = Inr (P_Select sp0)" "sp = sp0\<lparr>sp_root := tree\<rparr>"
    "tree = sp_root sp0 \<or> uses_index (ListTableIndexes catalog (sel_table_name s)) (sp_root sp0) tree"
    using PlanSelect_Inr[OF assms] by auto
  then have "plan_expressions sp = plan_expressions sp0"
    using uses_index_expressions by (auto simp: plan_expressions_def)
  then show ?thesis using built_expressions[OF b(1)] by (fastforce simp: plan_subqueries_def subqueries_def)
qed

abbreviation catalog_of :: "Database \<Rightarrow> CatalogView" where
  "catalog_of db \<equiv> CatalogView.truncate db"

function RunSelect :: "Database \<Rightarrow> SelectStatement \<Rightarrow> ExecutionResult Result" where
  "RunSelect db s =
     rbind (PlanSelect (catalog_of db) s) (\<lambda>plan.
     case plan of P_Select sp \<Rightarrow> ExecuteSelect db sp (RunSelect db) | _ \<Rightarrow> Inl InternalError)"
  by auto
termination
proof (relation "measure (\<lambda>(db, s). size s)")
  fix db s plan sp q
  assume "PlanSelect (catalog_of db) s = Inr plan" "plan = P_Select sp" "q \<in> plan_subqueries sp"
  then have "q \<in> subqueries s" using planned_subqueries by blast
  then show "((db, q), db, s) \<in> measure (\<lambda>(db, s). size s)" using subqueries_size by simp
qed simp

declare RunSelect.simps [simp del]

end
