(* ===== verification/AccessPaths.thy ===== *)
theory AccessPaths
  imports Query "HOL-Library.Multiset"
begin

text \<open>
  The two ways to find the rows of a WHERE: reading the whole table, or looking the key up in an index and reading the rows at the
  addresses found. The optimizer takes the second when it can. The filter stays above the scan in both, and they give the
  same rows as long as the index has exactly the addresses of the rows with the key.
\<close>

subsection \<open>Operators over rows without errors\<close>

lemma FilterSource_rows:
  assumes "\<And>entry. entry \<in> set entries \<Longrightarrow> filter_matches i p e schema runner (snd entry) = Inr (keep (snd entry))"
  shows "FilterSource i p e schema runner (MaterializedSource entries) = MaterializedSource (filter (\<lambda>entry. keep (snd entry)) entries)"
  using assms
proof (induction entries)
  case Nil
  show ?case by (subst FilterSource.simps) simp
next
  case (Cons entry entries)
  have m: "filter_matches i p e schema runner (snd entry) = Inr (keep (snd entry))" using Cons.prems by simp
  show ?case
  proof (cases "keep (snd entry)")
    case True
    have "FilterSource i p e schema runner (MaterializedSource (entry # entries)) =
        Inr entry # FilterSource i p e schema runner (MaterializedSource entries)"
      by (subst FilterSource.simps) (simp add: m True)
    then show ?thesis using Cons True by simp
  next
    case False
    have "FilterSource i p e schema runner (MaterializedSource (entry # entries)) =
        FilterSource i p e schema runner (MaterializedSource entries)"
      by (subst (1 2) FilterSource.simps) (simp add: m False)
    then show ?thesis using Cons False by simp
  qed
qed

lemma Materialize_map: "Materialize (map_source f (MaterializedSource entries)) = map_result f entries"
  by (induction entries) (auto simp: rbind_def split: sum.splits)

lemma Materialize_rows [simp]: "Materialize (MaterializedSource entries) = Inr entries"
  by (induction entries) (simp_all add: rbind_def)

fun first_of_each :: "Row list \<Rightarrow> RowEntry list \<Rightarrow> RowEntry list" where
  "first_of_each seen [] = []"
| "first_of_each seen (entry # entries) =
     (if snd entry \<in> set seen then first_of_each seen entries else entry # first_of_each (seen @ [snd entry]) entries)"

lemma Materialize_distinct: "Materialize (DistinctSource seen source) = rbind (Materialize source) (\<lambda>rows. Inr (first_of_each seen rows))"
proof (induction seen source rule: DistinctSource.induct)
  case (3 seen entry child)
  have "list_ex (\<lambda>row. row = snd entry) seen \<longleftrightarrow> snd entry \<in> set seen" by (auto simp: list_ex_iff)
  then show ?case using 3 by (auto simp: rbind_def split: sum.splits)
qed (simp_all add: rbind_def)

lemma first_of_each_rows: "mset (map snd (first_of_each seen entries)) = mset_set (snd ` set entries - set seen)"
proof (induction entries arbitrary: seen)
  case (Cons entry entries)
  show ?case
  proof (cases "snd entry \<in> set seen")
    case True
    then have "snd ` set (entry # entries) - set seen = snd ` set entries - set seen" by auto
    then show ?thesis using Cons True by simp
  next
    case False
    then have e: "snd ` set (entry # entries) - set seen = insert (snd entry) (snd ` set entries - set (seen @ [snd entry]))" by auto
    show ?thesis unfolding e using False Cons.IH[of "seen @ [snd entry]"] by (subst mset_set.insert) simp_all
  qed
qed simp

text \<open>The order of the input only changes the order of the output.\<close>

lemma map_result_total: "map_result f xs = Inr ys \<Longrightarrow> ys = map (\<lambda>x. projr (f x)) xs \<and> (\<forall>x\<in>set xs. \<exists>y. f x = Inr y)"
  by (induction xs arbitrary: ys) (auto simp: rbind_Inr)

lemma map_result_of_total: "\<forall>x\<in>set xs. \<exists>y. f x = Inr y \<Longrightarrow> map_result f xs = Inr (map (\<lambda>x. projr (f x)) xs)"
  by (induction xs) (auto simp: rbind_def)

lemma map_result_permuted:
  assumes "mset xs = mset xs'"
  shows "case map_result f xs of Inr ys \<Rightarrow> \<exists>ys'. map_result f xs' = Inr ys' \<and> mset ys' = mset ys | Inl err \<Rightarrow> \<exists>err'. map_result f xs' = Inl err'"
proof (cases "map_result f xs")
  case (Inl err)
  have "\<not> (\<forall>x\<in>set xs. \<exists>y. f x = Inr y)" using Inl map_result_of_total[of xs f] by auto
  then have "\<not> (\<forall>x\<in>set xs'. \<exists>y. f x = Inr y)" using assms by (metis set_mset_mset)
  then show ?thesis using Inl map_result_total[of f xs'] by (cases "map_result f xs'") auto
next
  case (Inr ys)
  note T = map_result_total[OF Inr]
  then have "\<forall>x\<in>set xs'. \<exists>y. f x = Inr y" using assms by (metis set_mset_mset)
  then have "map_result f xs' = Inr (map (\<lambda>x. projr (f x)) xs')" by (rule map_result_of_total)
  moreover have "mset (map (\<lambda>x. projr (f x)) xs') = mset ys"
    by (simp only: conjunct1[OF T] mset_map assms)
  ultimately show ?thesis using Inr by simp
qed

definition delivered :: "bool \<Rightarrow> (RowEntry \<Rightarrow> RowEntry Result) \<Rightarrow> RowEntry list \<Rightarrow> Row list Result" where
  "delivered distinct_rows f entries =
     rbind (Materialize (let source = map_source f (MaterializedSource entries) in if distinct_rows then DistinctSource [] source else source))
       (\<lambda>rows. Inr (map snd rows))"

lemma delivered_permuted:
  assumes "mset entries = mset entries'"
  shows "case delivered d f entries of Inr rows \<Rightarrow> \<exists>rows'. delivered d f entries' = Inr rows' \<and> mset rows' = mset rows
    | Inl err \<Rightarrow> \<exists>err'. delivered d f entries' = Inl err'"
proof -
  have D: "delivered d f es = rbind (map_result f es) (\<lambda>rows. Inr (map snd (if d then first_of_each [] rows else rows)))" for es
    by (simp add: delivered_def Let_def Materialize_map Materialize_distinct) (simp add: rbind_def split: sum.splits)
  note P = map_result_permuted[OF assms, of f]
  show ?thesis
  proof (cases "map_result f entries")
    case (Inl err)
    then show ?thesis using P by (auto simp: D rbind_def)
  next
    case (Inr rows)
    then obtain rows' where r: "map_result f entries' = Inr rows'" "mset rows' = mset rows" using P by auto
    have "set rows' = set rows" using r(2) by (metis set_mset_mset)
    then have "mset (map snd (first_of_each [] rows')) = mset (map snd (first_of_each [] rows))"
      by (simp only: first_of_each_rows)
    moreover have "mset (map snd rows') = mset (map snd rows)" using r(2) by simp
    ultimately show ?thesis using Inr r(1) by (auto simp: D rbind_def)
  qed
qed

text \<open>A projection changes each row on its own; its columns do not depend on the rows.\<close>

lemma project_node_rows:
  "(\<exists>err. \<forall>rows. project_node plan run \<lparr>src_source = rows, src_column_names = names, src_schema = schema\<rparr> columns all idx = Inl err) \<or>
   (\<exists>f out. \<forall>rows. project_node plan run \<lparr>src_source = rows, src_column_names = names, src_schema = schema\<rparr> columns all idx =
      Inr (out\<lparr>src_source := map_source f rows\<rparr>))"
proof -
  let ?c = "\<lambda>rows. \<lparr>src_source = rows, src_column_names = names, src_schema = schema\<rparr>"
  let ?exp = "\<not> all \<and> idx = [] \<and> length (sp_projection_expressions plan) = length columns"
  let ?src = "\<lambda>rows. if ?exp then Inr (ExpressionProjectSource (sp_projection_expressions plan) schema (Some run) rows)
    else ProjectExecutor columns all idx rows schema"
  let ?cols = "if all then Inr schema else if ?exp then Inr (map (\<lambda>i. output_column (columns ! i) (sp_output_types plan) i) [0..<length columns])
    else map_result (projected_column schema columns idx) [0..<length columns]"
  have P: "project_node plan run (?c rows) columns all idx = rbind (?src rows) (\<lambda>source. rbind ?cols (\<lambda>schema'.
      Inr \<lparr>src_source = source, src_column_names = (if all then names else columns), src_schema = schema'\<rparr>))" for rows
    by (simp add: project_node_def Let_def)
  have src: "(\<exists>err. \<forall>rows. ?src rows = Inl err) \<or> (\<exists>f. \<forall>rows. ?src rows = Inr (map_source f rows))"
  proof (cases ?exp)
    case True
    then show ?thesis by (auto simp: ExpressionProjectSource_def)
  next
    case False
    then have "?src rows = rbind
       (if idx \<noteq> [] then (if list_ex (\<lambda>index. index \<ge> length schema) idx then Inl InvalidArgument else Inr idx)
        else if all then Inr [0..<length schema] else map_result (FindColumnIndex schema) columns)
       (\<lambda>indexes. Inr (ProjectSource indexes schema rows))" for rows
      unfolding ProjectExecutor_def by (simp only: if_False)
    then show ?thesis
      by (cases "if idx \<noteq> [] then (if list_ex (\<lambda>index. index \<ge> length schema) idx then Inl InvalidArgument else Inr idx)
        else if all then Inr [0..<length schema] else map_result (FindColumnIndex schema) columns")
        (auto simp only: rbind_def sum.case ProjectSource_def)
  qed
  show ?thesis
  proof (cases "\<exists>err. \<forall>rows. ?src rows = Inl err")
    case True
    then show ?thesis by (intro disjI1) (auto simp only: P rbind_def sum.case)
  next
    case False
    then obtain f where f: "\<And>rows. ?src rows = Inr (map_source f rows)" using src by blast
    show ?thesis
    proof (cases ?cols)
      case (Inl err)
      then show ?thesis by (intro disjI1 exI[of _ err] allI) (simp only: P f rbind_def sum.case)
    next
      case (Inr schema')
      then show ?thesis
        by (intro disjI2 exI[of _ f] exI[of _ "\<lparr>src_source = [], src_column_names = (if all then names else columns), src_schema = schema'\<rparr>"] allI)
          (simp only: P f rbind_def sum.case SourcePlan.simps)
    qed
  qed
qed

text \<open>A SELECT with one scan and one filter, without aggregates and LIMIT.\<close>

definition plain_plan :: "SelectPlan \<Rightarrow> bool" where
  "plain_plan plan \<longleftrightarrow> \<not> sp_has_aggregates plan \<and> sp_having plan = E_nullptr \<and> sp_limit plan = None"

lemma ExecuteSelect_filtered:
  assumes "plain_plan plan" "sp_root plan = N_Project (N_Filter scan p e) columns all idx" "e \<noteq> E_nullptr"
    and scan: "build_node db plan run scan = Inr \<lparr>src_source = MaterializedSource entries, src_column_names = names, src_schema = schema\<rparr>"
    and keep: "\<And>entry. entry \<in> set entries \<Longrightarrow> filter_matches 0 p e schema (Some run) (snd entry) = Inr (keep (snd entry))"
  shows "ExecuteSelect db plan run =
    (case project_node plan run \<lparr>src_source = MaterializedSource (filter (\<lambda>entry. keep (snd entry)) entries),
         src_column_names = names, src_schema = schema\<rparr> columns all idx of
       Inl err \<Rightarrow> Inl err
     | Inr out \<Rightarrow> rbind (Materialize (if sp_distinct plan then DistinctSource [] (src_source out) else src_source out))
         (\<lambda>rows. Inr \<lparr>column_names = map (aliased (src_column_names out) (sp_projection_aliases plan)) [0..<length (src_column_names out)],
            result_rows = map snd rows\<rparr>))"
proof -
  have "FilterSource 0 p e schema (Some run) (MaterializedSource entries) = MaterializedSource (filter (\<lambda>entry. keep (snd entry)) entries)"
    by (rule FilterSource_rows[OF keep])
  then have "build_node db plan run (sp_root plan) =
      project_node plan run \<lparr>src_source = MaterializedSource (filter (\<lambda>entry. keep (snd entry)) entries),
         src_column_names = names, src_schema = schema\<rparr> columns all idx"
    using assms(3) by (simp add: assms(2) scan rbind_def FilterExecutor_def)
  then show ?thesis using assms(1)
    by (auto simp: ExecuteSelect_def BuildSource_def assms(2) plain_plan_def rbind_def Let_def split: sum.splits)
qed

text \<open>Two scans whose rows pass the filter equally often give the same answer.\<close>

definition same_answer :: "ExecutionResult Result \<Rightarrow> ExecutionResult Result \<Rightarrow> bool" where
  "same_answer r r' \<longleftrightarrow>
     (case r of
        Inr answer \<Rightarrow> \<exists>answer'. r' = Inr answer' \<and> column_names answer' = column_names answer \<and>
          mset (result_rows answer') = mset (result_rows answer)
      | Inl err \<Rightarrow> \<exists>err'. r' = Inl err')"

lemma ExecuteSelect_same:
  assumes plain: "plain_plan plan" and e: "e \<noteq> E_nullptr"
    and root: "sp_root plan = N_Project (N_Filter scan p e) columns all idx"
    and scan: "build_node db plan run scan = Inr \<lparr>src_source = MaterializedSource entries, src_column_names = names, src_schema = schema\<rparr>"
    and scan': "build_node db plan run scan' = Inr \<lparr>src_source = MaterializedSource entries', src_column_names = names, src_schema = schema\<rparr>"
    and keep: "\<And>entry. entry \<in> set entries \<union> set entries' \<Longrightarrow> filter_matches 0 p e schema (Some run) (snd entry) = Inr (keep (snd entry))"
    and same: "mset (filter (\<lambda>entry. keep (snd entry)) entries) = mset (filter (\<lambda>entry. keep (snd entry)) entries')"
  shows "same_answer (ExecuteSelect db plan run) (ExecuteSelect db (plan\<lparr>sp_root := N_Project (N_Filter scan' p e) columns all idx\<rparr>) run)"
proof -
  let ?plan = "plan\<lparr>sp_root := N_Project (N_Filter scan' p e) columns all idx\<rparr>"
  let ?kept = "filter (\<lambda>entry. keep (snd entry))"
  have fields: "sp_projection_expressions ?plan = sp_projection_expressions plan" "sp_output_types ?plan = sp_output_types plan"
    "sp_distinct ?plan = sp_distinct plan" "sp_projection_aliases ?plan = sp_projection_aliases plan"
    "sp_root ?plan = N_Project (N_Filter scan' p e) columns all idx" "plain_plan ?plan" using plain by (simp_all add: plain_plan_def)
  have proj: "project_node ?plan run = project_node plan run"
    unfolding project_node_def fields ..
  have node: "build_node db ?plan run n = build_node db plan run n" for n
    by (induction n) (simp_all only: build_node.simps proj)
  note E = ExecuteSelect_filtered[OF plain root e scan, of keep]
  have E': "ExecuteSelect db ?plan run =
    (case project_node plan run \<lparr>src_source = MaterializedSource (?kept entries'), src_column_names = names, src_schema = schema\<rparr> columns all idx of
       Inl err \<Rightarrow> Inl err
     | Inr out \<Rightarrow> rbind (Materialize (if sp_distinct plan then DistinctSource [] (src_source out) else src_source out))
         (\<lambda>rows. Inr \<lparr>column_names = map (aliased (src_column_names out) (sp_projection_aliases plan)) [0..<length (src_column_names out)],
            result_rows = map snd rows\<rparr>))"
    using ExecuteSelect_filtered[OF fields(6,5) e, of db run entries' names schema keep] scan' keep
    unfolding node proj fields(3,4) by simp
  consider (err) err where "\<And>rows. project_node plan run \<lparr>src_source = rows, src_column_names = names, src_schema = schema\<rparr> columns all idx = Inl err"
    | (out) f out where "\<And>rows. project_node plan run \<lparr>src_source = rows, src_column_names = names, src_schema = schema\<rparr> columns all idx =
        Inr (out\<lparr>src_source := map_source f rows\<rparr>)"
    using project_node_rows by metis
  then show ?thesis
  proof cases
    case err
    then show ?thesis using keep by (simp add: E E' same_answer_def)
  next
    case out
    define ns where "ns = map (aliased (src_column_names out) (sp_projection_aliases plan)) [0..<length (src_column_names out)]"
    have D: "rbind (Materialize (if d then DistinctSource [] (map_source f (MaterializedSource es)) else map_source f (MaterializedSource es)))
        (\<lambda>rows. Inr \<lparr>column_names = ns, result_rows = map snd rows\<rparr>) =
      rbind (delivered d f es) (\<lambda>rows. Inr \<lparr>column_names = ns, result_rows = rows\<rparr>)" for d es
      by (simp add: delivered_def Let_def rbind_def split: sum.splits)
    have "ExecuteSelect db plan run = rbind (delivered (sp_distinct plan) f (?kept entries)) (\<lambda>rows. Inr \<lparr>column_names = ns, result_rows = rows\<rparr>)"
      "ExecuteSelect db ?plan run = rbind (delivered (sp_distinct plan) f (?kept entries')) (\<lambda>rows. Inr \<lparr>column_names = ns, result_rows = rows\<rparr>)"
      using keep D[of True] D[of False] by (simp_all add: E E' out flip: ns_def)
    then show ?thesis using delivered_permuted[OF same, of "sp_distinct plan" f]
      by (cases "delivered (sp_distinct plan) f (?kept entries)") (auto simp: same_answer_def rbind_def)
  qed
qed

subsection \<open>Tables and their indexes\<close>

text \<open>The index has, for every key, the addresses of exactly the rows with that key.\<close>

definition index_complete :: "Database \<Rightarrow> TableMetadata \<Rightarrow> RowEntry list \<Rightarrow> IndexMetadata \<Rightarrow> bool" where
  "index_complete db table entries index \<longleftrightarrow>
     (\<exists>found. FindIndex db (idx_name index) = Inr found \<and> idx_table_name found = idx_table_name index \<and>
        idx_column_name found = idx_column_name index) \<and>
     (\<forall>i k. FindColumnIndex (tab_schema table) (idx_column_name index) = Inr i \<longrightarrow>
        (\<exists>rids. Lookup db (idx_name index) k = Inr rids \<and>
           mset rids = mset (map fst (filter (\<lambda>entry. snd entry ! i = VInt k) entries))))"

text \<open>The table can be read in both ways: its scan delivers the rows, and each row is found at its address.\<close>

definition table_readable :: "Database \<Rightarrow> string \<Rightarrow> TableMetadata \<Rightarrow> RowEntry list \<Rightarrow> bool" where
  "table_readable db table_name table entries \<longleftrightarrow>
     FindTable db table_name = Inr (Some table) \<and> BeginScan db table = Inr (MaterializedSource entries) \<and>
     (\<forall>entry\<in>set entries. row_fits (tab_schema table) (snd entry) \<and> GetRow db table (fst entry) = Inr (snd entry)) \<and>
     (\<forall>index\<in>set (ListTableIndexes db table_name). index_complete db table entries index)"

lemma build_seq_scan:
  assumes "table_readable db table_name table entries"
  shows "build_node db plan run (N_SeqScan table_name) =
    Inr \<lparr>src_source = MaterializedSource entries, src_column_names = map col_name (tab_schema table), src_schema = tab_schema table\<rparr>"
  using assms by (simp add: table_readable_def SeqScanExecutor_def RequireMetadata_def rbind_def)

lemma rbind_value: "rbind (Inr x) f = f x"
  by (simp add: rbind_def)

lemma build_index_scan:
  assumes t: "table_readable db table_name table entries" and index: "index \<in> set (ListTableIndexes db table_name)"
    "idx_table_name index = table_name" "FindColumnIndex (tab_schema table) (idx_column_name index) = Inr i"
  obtains rows where "mset rows = mset (filter (\<lambda>entry. snd entry ! i = VInt k) entries)"
    "build_node db plan run (N_IndexScan table_name (idx_name index) (idx_column_name index) (VInt k)) =
      Inr \<lparr>src_source = MaterializedSource rows, src_column_names = map col_name (tab_schema table), src_schema = tab_schema table\<rparr>"
proof -
  let ?sel = "filter (\<lambda>entry. snd entry ! i = VInt k) entries"
  have c: "index_complete db table entries index" using t index(1) by (simp add: table_readable_def)
  then obtain found where found: "FindIndex db (idx_name index) = Inr found" "idx_table_name found = table_name"
    "idx_column_name found = idx_column_name index" using index(2) by (auto simp: index_complete_def)
  obtain rids where rids: "Lookup db (idx_name index) k = Inr rids" "mset rids = mset (map fst ?sel)"
    using c index(3) unfolding index_complete_def by blast
  let ?get = "\<lambda>rid. rbind (GetRow db table rid) (\<lambda>row. Inr (rid, row))"
  have "map_result ?get (map fst es) = Inr es" if "set es \<subseteq> set entries" for es
    using that t by (induction es) (auto simp: table_readable_def rbind_def)
  then have "map_result ?get (map fst ?sel) = Inr ?sel" by simp
  then obtain rows where rows: "map_result ?get rids = Inr rows" "mset rows = mset ?sel"
    using map_result_permuted[OF rids(2)[symmetric], of ?get] by auto
  have "build_node db plan run (N_IndexScan table_name (idx_name index) (idx_column_name index) (VInt k)) =
      Inr \<lparr>src_source = MaterializedSource rows, src_column_names = map col_name (tab_schema table), src_schema = tab_schema table\<rparr>"
    using t by (simp add: index_scan_def AsInt_def found rids(1) rows(1) RequireMetadata_def table_readable_def rbind_value)
  with rows(2) show ?thesis using that by blast
qed

text \<open>The filter of an equality keeps the rows with the key.\<close>

lemma equality_filter:
  assumes "ExtractPredicateFromCompileExpr e = Some p" "pred_kind p = PK_Equal" "pred_value p = VInt k"
    and "CheckPredicate p schema = Code_Ok" "FindColumnIndex schema (pred_column p) = Inr i" "row_fits schema row"
  shows "filter_matches j q e schema runner row = Inr (row ! i = VInt k)"
proof -
  have i: "i < length schema" using assms(5) by (auto simp: FindColumnIndex_def find_column_from_Inr)
  have len: "length row = length schema" using assms(6) by (auto simp: row_fits_def dest: list_all2_lengthD)
  have "FindColumn schema (pred_column p) = Inr (schema ! i)" using assms(5) i by (simp add: FindColumn_def)
  then have "col_type (schema ! i) = DT_Int" using assms(2-4) by (simp add: CheckPredicate_def split: if_splits)
  then have "value_fits DT_Int (row ! i)" using assms(6) i by (auto simp: row_fits_def list_all2_conv_all_nth)
  then have fit: "row ! i = VNull \<or> Value_type (row ! i) = Value_type (pred_value p)" by (simp add: value_fits_def assms(3))
  have "filter_matches j q e schema runner row = filter_matches i p E_nullptr schema runner row"
    by (rule extracted_predicate_agrees[symmetric]) (use assms(1,5) len fit in auto)
  also have "\<dots> = Inr (row ! i = VInt k)" using len assms(2,3) by (auto simp: filter_matches_def IsNull_def Let_def)
  finally show "filter_matches j q e schema runner row = Inr (row ! i = VInt k)" .
qed

lemma extracted_not_null: "ExtractPredicateFromCompileExpr e = Some p \<Longrightarrow> e \<noteq> E_nullptr"
  by (auto simp: ExtractPredicateFromCompileExpr_def)

text \<open>A plan whose tree has a filter above a table scan is for one table, and the filter is the WHERE of the statement.\<close>

lemma filtered_select:
  assumes "build_select planner catalog s = Inr (P_Select sp)" "sp_root sp = N_Project (N_Filter (N_SeqScan t) p e) columns all idx"
  shows "\<exists>table. FindTable catalog (sel_table_name s) = Inr (Some table) \<and> check_predicate (sel_where s) (tab_schema table) = Code_Ok \<and>
    t = sel_table_name s \<and> e = sel_compile_where s \<and> p = (case sel_where s of None \<Rightarrow> no_predicate | Some p \<Rightarrow> p)"
proof -
  obtain table where t: "FindTable catalog (sel_table_name s) = Inr (Some table)"
    "(if sel_joins s \<noteq> [] then build_join catalog table s else build_single planner table s) = Inr sp"
    using assms(1) by (auto simp: build_select_def rbind_Inr RequireTable_def split: if_splits sum.splits option.splits)
  show ?thesis
  proof (cases "sel_joins s = []")
    case True
    then have b: "build_single planner table s = Inr sp" using t(2) by simp
    then have "check_predicate (sel_where s) (tab_schema table) = Code_Ok"
      by (auto simp: build_single_def Let_def result_simps split: if_splits)
    moreover have "select_tree (tab_schema table) s = N_Project (N_Filter (N_SeqScan t) p e) columns all idx"
      using build_single_tree[OF b] assms(2) by simp
    ultimately show ?thesis using t(1)
      by (auto simp: select_tree_def Let_def split: if_splits option.splits)
  next
    case False
    then have b: "build_join catalog table s = Inr sp" using t(2) by simp
    obtain js cs where js: "join_steps catalog (join_start table s) (sel_joins s) = Inr js" "sp = join_result s js cs"
      using build_join_Inr[OF b] by blast
    have "IsJoinSource (js_root js)" using join_steps_source[OF js(1)] by (simp add: join_start_def Let_def)
    then show ?thesis using assms(2) js(2) by (simp add: join_result_def Let_def)
  qed
qed

text \<open>C18: Using an index does not change the answer. For a SELECT on one table without aggregates and LIMIT, whose predicate is the one the parser
  takes from its WHERE, running it gives the same column names and the same rows, each equally often, as executing the plan that was built,
  before the optimizer put index scans in place of table scans; or both fail. The table is read without errors and its rows
  fit the schema; each of its indexes has the addresses of exactly the rows with a key.\<close>

theorem index_scan_same_answer:
  assumes built: "build_select (PlanSelect (catalog_of db)) (catalog_of db) s = Inr (P_Select sp)"
    and table: "table_readable db (sel_table_name s) table entries"
    and extracted: "sel_where s = ExtractPredicateFromCompileExpr (sel_compile_where s)"
    and plain: "plain_plan sp"
  shows "same_answer (ExecuteSelect db sp (RunSelect db)) (RunSelect db s)"
proof -
  let ?cat = "catalog_of db"
  obtain tree where tree: "finish_plan ?cat (P_Select sp) = Inr (P_Select (sp\<lparr>sp_root := tree\<rparr>))"
    "tree = sp_root sp \<or> uses_index (ListTableIndexes ?cat (sel_table_name s)) (sp_root sp) tree"
    using finish_select[OF built] by blast
  have run: "RunSelect db s = ExecuteSelect db (sp\<lparr>sp_root := tree\<rparr>) (RunSelect db)"
    by (subst RunSelect.simps) (simp add: PlanSelect.simps[of ?cat s] built tree(1) rbind_def)
  from tree(2) show ?thesis
  proof
    assume "tree = sp_root sp"
    then have "RunSelect db s = ExecuteSelect db sp (RunSelect db)" using run by simp
    then show ?thesis by (auto simp: same_answer_def split: sum.splits)
  next
    assume "uses_index (ListTableIndexes ?cat (sel_table_name s)) (sp_root sp) tree"
    then obtain t p e columns all idx index where u0: "sp_root sp = N_Project (N_Filter (N_SeqScan t) p e) columns all idx"
      "index \<in> set (ListTableIndexes db (sel_table_name s))" "idx_table_name index = t" "idx_column_name index = pred_column p"
      "pred_kind p = PK_Equal" "IsInt (pred_value p)"
      "tree = N_Project (N_Filter (N_IndexScan t (idx_name index) (pred_column p) (pred_value p)) p e) columns all idx"
      by (auto simp: uses_index_def CatalogView.truncate_def)
    obtain k where "pred_value p = VInt k" using u0(6) by (cases "pred_value p") (simp_all add: IsInt_def)
    with u0 have u: "sp_root sp = N_Project (N_Filter (N_SeqScan t) p e) columns all idx"
      "index \<in> set (ListTableIndexes db (sel_table_name s))" "idx_table_name index = t" "idx_column_name index = pred_column p"
      "pred_kind p = PK_Equal" "pred_value p = VInt k"
      "tree = N_Project (N_Filter (N_IndexScan t (idx_name index) (idx_column_name index) (VInt k)) p e) columns all idx"
      by simp_all
    note single = filtered_select[OF built u(1)]
    have p: "ExtractPredicateFromCompileExpr e = Some p" "t = sel_table_name s" "CheckPredicate p (tab_schema table) = Code_Ok"
      using single u(6) extracted table by (auto simp: table_readable_def CatalogView.truncate_def no_predicate_def check_predicate_def split: option.splits)
    obtain i where i: "FindColumnIndex (tab_schema table) (pred_column p) = Inr i"
      using p(3) by (auto simp: CheckPredicate_def FindColumn_def split: sum.splits)
    obtain rows where rows: "mset rows = mset (filter (\<lambda>entry. snd entry ! i = VInt k) entries)"
      "build_node db sp (RunSelect db) (N_IndexScan t (idx_name index) (idx_column_name index) (VInt k)) =
        Inr \<lparr>src_source = MaterializedSource rows, src_column_names = map col_name (tab_schema table), src_schema = tab_schema table\<rparr>"
      using build_index_scan[OF table u(2), of i] u(3,4) i p(2) by metis
    have "set rows \<subseteq> set entries" using rows(1) by (metis filter_is_subset set_mset_mset)
    then have fits: "row_fits (tab_schema table) (snd entry)" if "entry \<in> set entries \<union> set rows" for entry
      using that table by (auto simp: table_readable_def)
    note keep = equality_filter[OF p(1) u(5,6) p(3) i fits]
    have "mset (filter (\<lambda>entry. snd entry ! i = VInt k) entries) = mset (filter (\<lambda>entry. snd entry ! i = VInt k) rows)"
      using rows(1) by (simp add: filter_filter_mset)
    from ExecuteSelect_same[OF plain extracted_not_null[OF p(1)] u(1) build_seq_scan[OF table, folded p(2)] rows(2) keep this]
    have "same_answer (ExecuteSelect db sp (RunSelect db)) (ExecuteSelect db (sp\<lparr>sp_root := tree\<rparr>) (RunSelect db))"
      by (simp only: u(7))
    then show ?thesis by (simp only: run)
  qed
qed

lemma demo_select_plain: "\<exists>sp. build_select (PlanSelect demo_catalog) demo_catalog demo_select = Inr (P_Select sp) \<and> plain_plan sp"
  by (simp add: build_select_def build_single_def demo_select_def demo_catalog_def demo_users_def make_Column_def RequireTable_def
      check_eval require_def check_where_def check_condition_def check_having_def check_predicate_def CheckPredicate_def
      check_grouping_def has_aggregates_def projection_items_def equal_predicate_def IsNull_def too_long_def plain_plan_def)

definition demo_rows :: "RowEntry list" where
  "demo_rows = [(\<lparr>rid_page_id = 1, rid_slot_id = 0\<rparr>, [VInt 5, VText ''bob'']), (\<lparr>rid_page_id = 1, rid_slot_id = 1\<rparr>, [VInt 7, VText ''ann''])]"

definition demo_database :: Database where
  "demo_database = CatalogView.extend demo_catalog
     \<lparr>BeginScan = (\<lambda>table. Inr (MaterializedSource demo_rows)),
      FindIndex = (\<lambda>name. if name = ''by_id'' then Inr (hd (ListTableIndexes demo_catalog ''users'')) else Inl NotFound),
      Lookup = (\<lambda>name k. Inr (map fst (filter (\<lambda>entry. hd (snd entry) = VInt k) demo_rows))),
      GetRow = (\<lambda>table rid. case map_of demo_rows rid of None \<Rightarrow> Inl NotFound | Some row \<Rightarrow> Inr row)\<rparr>"

lemma index_scan_same_answer_witness:
  "\<exists>sp. build_select (PlanSelect demo_catalog) demo_catalog demo_select = Inr (P_Select sp) \<and>
     same_answer (ExecuteSelect demo_database sp (RunSelect demo_database)) (RunSelect demo_database demo_select)"
proof -
  have cat: "catalog_of demo_database = demo_catalog"
    by (simp add: demo_database_def CatalogView.truncate_def CatalogView.extend_def demo_catalog_def)
  obtain sp where sp: "build_select (PlanSelect demo_catalog) demo_catalog demo_select = Inr (P_Select sp)" "plain_plan sp"
    using demo_select_plain by blast
  have "table_readable demo_database (sel_table_name demo_select) \<lparr>tab_name = ''users'', tab_schema = demo_users, first_data_page_id = 1\<rparr> demo_rows"
    by (simp add: table_readable_def index_complete_def demo_database_def CatalogView.extend_def demo_catalog_def demo_select_def demo_rows_def
        row_fits_def value_fits_def demo_users_def make_Column_def FindColumnIndex_def)
  moreover have "sel_where demo_select = ExtractPredicateFromCompileExpr (sel_compile_where demo_select)"
    by (simp add: demo_select_def ExtractPredicateFromCompileExpr_def plain_column_def ExtractLiteralValue_def equal_predicate_def)
  ultimately show ?thesis using index_scan_same_answer[of demo_database demo_select sp] sp unfolding cat by blast
qed

end
