(* ===== verification/Relational.thy ===== *)
theory Relational
  imports Executor PlannerTypes "HOL-Library.Multiset"
begin

text \<open>
  What the operators of the executor mean: a join is the pairs of rows that match, filled up for the outer joins; ORDER BY gives the
  sorted permutation of its rows that keeps the order of equal ones; grouping cuts the rows into the classes of
  equal keys.
\<close>

subsection \<open>Joins\<close>

text \<open>The join as a query on two lists of rows. The address of a joined row is that of its left row, where it has one.\<close>

definition partners :: "nat \<Rightarrow> nat \<Rightarrow> RowEntry \<Rightarrow> RowEntry \<Rightarrow> bool" where
  "partners li ri left right \<longleftrightarrow> snd left ! li \<noteq> VNull \<and> snd left ! li = snd right ! ri"

lemma join_matches_partners [simp]: "join_matches li ri (snd left) (snd right) \<longleftrightarrow> partners li ri left right"
  by (auto simp: join_matches_def partners_def IsNull_def Let_def split: Value.splits)

definition joined_with :: "nat \<Rightarrow> nat \<Rightarrow> RowEntry list \<Rightarrow> RowEntry \<Rightarrow> RowEntry list" where
  "joined_with li ri rights left =
     map (\<lambda>right. (fst left, snd left @ snd right)) (filter (\<lambda>right. partners li ri left right) rights)"

definition alone :: "nat \<Rightarrow> nat \<Rightarrow> RowEntry list \<Rightarrow> RowEntry \<Rightarrow> bool" where
  "alone li ri rights left \<longleftrightarrow> (\<forall>right\<in>set rights. \<not> partners li ri left right)"

definition join_spec :: "JoinType \<Rightarrow> nat \<Rightarrow> nat \<Rightarrow> nat \<Rightarrow> nat \<Rightarrow> RowEntry list \<Rightarrow> RowEntry list \<Rightarrow> RowEntry list" where
  "join_spec ty li ri left_width right_width lefts rights =
     concat (map (\<lambda>left. joined_with li ri rights left @
       (if alone li ri rights left \<and> ty \<in> {Join_Left, Join_Full} then [(fst left, snd left @ replicate right_width VNull)] else [])) lefts) @
     (if ty \<in> {Join_Right, Join_Full}
      then map (\<lambda>right. (fst right, replicate left_width VNull @ snd right))
        (filter (\<lambda>right. \<forall>left\<in>set lefts. \<not> partners li ri left right) rights)
      else [])"

lemma join_rights_eq:
  "length marks = length rights \<Longrightarrow> join_rights li ri left rights marks =
     (joined_with li ri rights left, map2 (\<lambda>right mark. mark \<or> partners li ri left right) rights marks,
      \<not> alone li ri rights left)"
proof (induction li ri left rights marks rule: join_rights.induct)
  case (1 li ri left right rights mark marks)
  then show ?case by (auto simp: joined_with_def alone_def)
qed (simp_all add: joined_with_def alone_def)

lemma join_lefts_eq:
  assumes "length marks = length rights" "\<forall>left\<in>set lefts. length (snd left) = left_width"
  shows "join_lefts ty li ri (left_width + right_width) lefts rights marks =
    (concat (map (\<lambda>left. joined_with li ri rights left @
       (if alone li ri rights left \<and> ty \<in> {Join_Left, Join_Full} then [(fst left, snd left @ replicate right_width VNull)] else [])) lefts),
     map2 (\<lambda>right mark. mark \<or> (\<exists>left\<in>set lefts. partners li ri left right)) rights marks)"
  using assms
proof (induction lefts arbitrary: marks)
  case Nil
  then show ?case by (induction rights marks rule: list_induct2') auto
next
  case (Cons left lefts)
  let ?marks = "map2 (\<lambda>right mark. mark \<or> partners li ri left right) rights marks"
  have l: "length ?marks = length rights" "length (snd left) = left_width" using Cons.prems by simp_all
  have pad: "resize_row (left_width + right_width) (snd left) = snd left @ replicate right_width VNull"
    using l(2) by (simp add: resize_row_def)
  have m: "map2 (\<lambda>right mark. mark \<or> (\<exists>left\<in>set lefts. partners li ri left right)) rights ?marks =
      map2 (\<lambda>right mark. mark \<or> (\<exists>left\<in>set (left # lefts). partners li ri left right)) rights marks"
    using Cons.prems(1) by (induction rights marks rule: list_induct2') auto
  have IH: "join_lefts ty li ri (left_width + right_width) lefts rights ?marks =
    (concat (map (\<lambda>left. joined_with li ri rights left @
       (if alone li ri rights left \<and> ty \<in> {Join_Left, Join_Full} then [(fst left, snd left @ replicate right_width VNull)] else [])) lefts),
     map2 (\<lambda>right mark. mark \<or> (\<exists>left\<in>set lefts. partners li ri left right)) rights ?marks)"
    by (rule Cons.IH[OF l(1)]) (use Cons.prems(2) in simp)
  show ?case unfolding join_lefts.simps join_rights_eq[OF Cons.prems(1)] prod.case IH m pad by simp
qed

lemma unmatched_eq:
  "unmatched_rights w rights (map2 (\<lambda>right mark. mark \<or> P right) rights (replicate (length rights) False)) =
   map (\<lambda>right. (fst right, replicate w VNull @ snd right)) (filter (\<lambda>right. \<not> P right) rights)"
  by (induction rights) (simp_all add: unmatched_rights_def)

lemma Materialize_Inr: "Materialize source = Inr rows \<longleftrightarrow> source = MaterializedSource rows"
proof (induction source arbitrary: rows rule: Materialize.induct)
  case (3 entry child)
  then show ?case by (cases rows) (auto simp: rbind_Inr)
qed (auto)

text \<open>C19: The executor's join is the join: for rows of the widths of the two schemas and columns within them, the result of the nested loops is,
  for each left row in turn, its pairs with the right rows of an equal value that is not NULL, or the row filled up with NULL
  when there is none and the join is a left or full one; then, for a right or full join, the right rows without a partner, filled up on the left.\<close>

theorem join_is_relational:
  assumes "\<forall>left\<in>set lefts. length (snd left) = left_width" "li < left_width" "ri < right_width"
  shows "BuildJoinSource (MaterializedSource lefts) (MaterializedSource rights) ty (Some li) (Some ri) left_width right_width =
    Inr (MaterializedSource (join_spec ty li ri left_width right_width lefts rights))"
proof -
  have m: "Materialize (MaterializedSource rows) = Inr rows" for rows by (simp add: Materialize_Inr)
  note L = join_lefts_eq[of "replicate (length rights) False" rights lefts left_width ty li ri right_width, OF _ assms(1)]
  note U = unmatched_eq[of left_width rights "\<lambda>right. \<exists>left\<in>set lefts. partners li ri left right"]
  show ?thesis using assms(2,3) by (simp add: BuildJoinSource_def m rbind_def L U join_spec_def)
qed

definition demo_at :: "slot_id_t \<Rightarrow> RID" where
  "demo_at slot = \<lparr>rid_page_id = 1, rid_slot_id = slot\<rparr>"

theorem join_is_relational_witness:
  "BuildJoinSource (MaterializedSource [(demo_at 0, [VInt 1]), (demo_at 1, [VNull])]) (MaterializedSource [(demo_at 2, [VInt 1, VText ''x''])])
     Join_Full (Some 0) (Some 0) 1 2 =
   Inr [Inr (demo_at 0, [VInt 1, VInt 1, VText ''x'']), Inr (demo_at 1, [VNull, VNull, VNull])]"
proof -
  have "join_spec Join_Full 0 0 1 2 [(demo_at 0, [VInt 1]), (demo_at 1, [VNull])] [(demo_at 2, [VInt 1, VText ''x''])] =
      [(demo_at 0, [VInt 1, VInt 1, VText ''x'']), (demo_at 1, [VNull, VNull, VNull])]"
    by (simp add: join_spec_def joined_with_def alone_def partners_def numeral_2_eq_2)
  then show ?thesis using join_is_relational[of "[(demo_at 0, [VInt 1]), (demo_at 1, [VNull])]" 1 0 0 2 "[(demo_at 2, [VInt 1, VText ''x''])]" Join_Full] by simp
qed

subsection \<open>Sorting\<close>

text \<open>The order of the sort: irreflexive in both directions, and its complement is transitive, on the elements that occur.\<close>

locale weak_order_on =
  fixes R :: "'a set" and before :: "'a \<Rightarrow> 'a \<Rightarrow> bool"
  assumes asym: "x \<in> R \<Longrightarrow> y \<in> R \<Longrightarrow> before x y \<Longrightarrow> \<not> before y x"
    and negative_trans: "x \<in> R \<Longrightarrow> y \<in> R \<Longrightarrow> z \<in> R \<Longrightarrow> \<not> before x y \<Longrightarrow> \<not> before y z \<Longrightarrow> \<not> before x z"
begin

definition tie :: "'a \<Rightarrow> 'a \<Rightarrow> bool" where
  "tie x y \<longleftrightarrow> \<not> before x y \<and> \<not> before y x"

lemma insert_stable_mset: "mset (insert_stable before x ys) = add_mset x (mset ys)"
  by (induction ys) auto

lemma insert_stable_set: "set (insert_stable before x ys) = insert x (set ys)"
  by (metis insert_stable_mset set_mset_add_mset_insert set_mset_mset)

lemma insert_stable_sorted:
  "x \<in> R \<Longrightarrow> set ys \<subseteq> R \<Longrightarrow> sorted_wrt (\<lambda>a b. \<not> before b a) ys \<Longrightarrow> sorted_wrt (\<lambda>a b. \<not> before b a) (insert_stable before x ys)"
proof (induction ys)
  case (Cons y ys)
  show ?case
  proof (cases "before y x")
    case True
    then show ?thesis using Cons asym by (auto simp: insert_stable_set)
  next
    case False
    have "\<not> before z x" if "z \<in> set ys" for z
      using negative_trans[of z y x] False that Cons.prems by auto
    then show ?thesis using False Cons.prems by auto
  qed
qed simp

lemma insert_stable_ties:
  "z \<in> R \<Longrightarrow> x \<in> R \<Longrightarrow> set ys \<subseteq> R \<Longrightarrow> filter (tie z) (insert_stable before x ys) = filter (tie z) (x # ys)"
proof (induction ys)
  case (Cons y ys)
  have "\<not> (tie z x \<and> tie z y)" if "before y x"
    using that negative_trans[of y z x] Cons.prems by (auto simp: tie_def)
  then show ?case using Cons by auto
qed simp

lemma stable_sort_mset: "mset (stable_sort before xs) = mset xs"
  unfolding stable_sort_def by (induction xs) (simp_all add: insert_stable_mset)

lemma stable_sort_set: "set (stable_sort before xs) = set xs"
  by (metis stable_sort_mset set_mset_mset)

lemma stable_sort_sorted:
  assumes "set xs \<subseteq> R"
  shows "sorted_wrt (\<lambda>a b. \<not> before b a) (stable_sort before xs)"
  using assms
proof (induction xs)
  case (Cons x xs)
  then show ?case using insert_stable_sorted[of x "stable_sort before xs"] stable_sort_set[of xs] by (simp add: stable_sort_def)
qed (simp add: stable_sort_def)

lemma stable_sort_ties:
  assumes "z \<in> R" "set xs \<subseteq> R"
  shows "filter (tie z) (stable_sort before xs) = filter (tie z) xs"
  using assms(2)
proof (induction xs)
  case (Cons x xs)
  then show ?case using insert_stable_ties[OF assms(1), of x "stable_sort before xs"] stable_sort_set[of xs] by (simp add: stable_sort_def)
qed (simp add: stable_sort_def)

end

text \<open>Values of one type are ordered by \<^verbatim>\<open>CompareValue\<close>, with NULL first.\<close>

lemma string_less_trans: "string_less a b \<Longrightarrow> string_less b c \<Longrightarrow> string_less a c"
proof (induction a b arbitrary: c rule: string_less.induct)
  case (2 b bs)
  then show ?case by (cases c) auto
next
  case (3 a as b bs)
  then show ?case by (cases c) (auto dest: order_less_trans)
qed simp

lemma compare_ints: "CompareValue (VInt i) (VInt j) = (if sint i < sint j then -1 else if sint j < sint i then 1 else 0)"
  and compare_texts: "CompareValue (VText v) (VText w) = (if string_less v w then -1 else if string_less w v then 1 else 0)"
  and compare_nulls: "CompareValue VNull x = (if x = VNull then 0 else -1)" "CompareValue x VNull = (if x = VNull then 0 else 1)"
  by (simp_all add: CompareValue_def IsNull_def split: Value.splits)

lemma fitting_pair:
  assumes "value_fits ty a" "value_fits ty b"
  obtains "a = VNull" | "b = VNull" | i j where "a = VInt i" "b = VInt j" | v w where "a = VText v" "b = VText w"
  using assms by (cases a; cases b) (auto simp: value_fits_def split: if_splits)

lemma CompareValue_order:
  assumes "value_fits ty a" "value_fits ty b"
  shows "CompareValue b a = - CompareValue a b \<and> (CompareValue a b = 0 \<longleftrightarrow> a = b)"
  using assms
proof (cases rule: fitting_pair)
  case (3 i j)
  have "sint j = sint i \<longleftrightarrow> i = j" by (metis signed_word_eqI)
  then show ?thesis using 3 by (auto simp: compare_ints)
next
  case (4 v w)
  then show ?thesis using string_less_asym[of v w] string_less_total[of v w] by (auto simp: compare_texts)
qed (auto simp: compare_nulls)

lemma CompareValue_trans:
  assumes "value_fits ty a" "value_fits ty b" "value_fits ty c" "CompareValue a b < 0" "CompareValue b c < 0"
  shows "CompareValue a c < 0"
  using assms(1,2)
proof (cases rule: fitting_pair)
  case (3 i j)
  then obtain k where "c = VInt k" using assms(2,3,5) by (cases c) (auto simp: compare_nulls value_fits_def split: if_splits)
  then show ?thesis using 3 assms(4,5) by (auto simp: compare_ints split: if_splits)
next
  case (4 v w)
  then obtain u where "c = VText u" using assms(2,3,5) by (cases c) (auto simp: compare_nulls value_fits_def split: if_splits)
  then show ?thesis using 4 assms(4,5) string_less_trans[of v w u] by (auto simp: compare_texts split: if_splits)
qed (use assms(4,5) in \<open>auto simp: compare_nulls split: if_splits\<close>)

text \<open>The rows on which an order by keys makes sense: the columns of the keys have values of one type each.\<close>

definition comparable :: "(nat \<Rightarrow> DataType) \<Rightarrow> (nat \<times> OrderDirection) list \<Rightarrow> Row set" where
  "comparable ty order_keys = {row. \<forall>key\<in>set order_keys. value_fits (ty (fst key)) (row ! fst key)}"

lemma row_before_asym:
  "x \<in> comparable ty ks \<Longrightarrow> y \<in> comparable ty ks \<Longrightarrow> row_before ks x y \<Longrightarrow> \<not> row_before ks y x"
proof (induction ks)
  case (Cons k ks)
  obtain i d where k: "k = (i, d)" by fastforce
  have f: "value_fits (ty i) (x ! i)" "value_fits (ty i) (y ! i)" using Cons.prems(1,2) by (auto simp: comparable_def k)
  have "x \<in> comparable ty ks" "y \<in> comparable ty ks" using Cons.prems(1,2) by (auto simp: comparable_def)
  then show ?case using Cons.IH Cons.prems(3) CompareValue_order[OF f]
    by (auto simp: k Let_def split: if_splits)
qed simp

lemma row_before_negative_trans:
  "x \<in> comparable ty ks \<Longrightarrow> y \<in> comparable ty ks \<Longrightarrow> z \<in> comparable ty ks \<Longrightarrow>
   \<not> row_before ks x y \<Longrightarrow> \<not> row_before ks y z \<Longrightarrow> \<not> row_before ks x z"
proof (induction ks)
  case (Cons k ks)
  obtain i d where k: "k = (i, d)" by fastforce
  have f: "value_fits (ty i) (x ! i)" "value_fits (ty i) (y ! i)" "value_fits (ty i) (z ! i)"
    using Cons.prems(1-3) by (auto simp: comparable_def k)
  have r: "x \<in> comparable ty ks" "y \<in> comparable ty ks" "z \<in> comparable ty ks" using Cons.prems(1-3) by (auto simp: comparable_def)
  note xy = CompareValue_order[OF f(1,2)] and yz = CompareValue_order[OF f(2,3)] and xz = CompareValue_order[OF f(1,3)]
  show ?case
  proof (cases "x ! i = y ! i \<or> y ! i = z ! i")
    case True
    then show ?thesis using Cons.IH[OF r] Cons.prems(4,5) xy yz xz by (auto simp: k Let_def split: if_splits)
  next
    case False
    then have n: "CompareValue (x ! i) (y ! i) \<noteq> 0" "CompareValue (y ! i) (z ! i) \<noteq> 0" using xy yz by auto
    show ?thesis
    proof (cases "d = Order_Asc")
      case True
      then have "CompareValue (y ! i) (x ! i) < 0" "CompareValue (z ! i) (y ! i) < 0"
        using n Cons.prems(4,5) xy yz by (auto simp: k Let_def split: if_splits)
      then have "CompareValue (z ! i) (x ! i) < 0" using CompareValue_trans[OF f(3,2,1)] by blast
      then show ?thesis using True xz by (simp add: k Let_def)
    next
      case d: False
      then have "CompareValue (x ! i) (y ! i) < 0" "CompareValue (y ! i) (z ! i) < 0"
        using n Cons.prems(4,5) by (auto simp: k Let_def split: if_splits)
      then have "CompareValue (x ! i) (z ! i) < 0" using CompareValue_trans[OF f(1,2,3)] by blast
      then show ?thesis using d by (simp add: k Let_def)
    qed
  qed
qed simp

interpretation row_order: weak_order_on "{entry :: RowEntry. snd entry \<in> comparable ty ks}" "\<lambda>left right. row_before ks (snd left) (snd right)" for ty ks
  by unfold_locales (use row_before_asym row_before_negative_trans in blast)+

interpretation group_order: weak_order_on "{grp. grp \<noteq> [] \<and> snd (hd grp) \<in> comparable ty ks}" "group_before ks" for ty ks
  by (unfold_locales; simp add: group_before_def) (use row_before_asym row_before_negative_trans in blast)+

text \<open>The order that ORDER BY asks for: by the first key on which the rows differ, NULL before every value.\<close>

fun precedes :: "Value \<Rightarrow> Value \<Rightarrow> bool" where
  "precedes a VNull \<longleftrightarrow> False"
| "precedes VNull b \<longleftrightarrow> True"
| "precedes (VInt i) (VInt j) \<longleftrightarrow> sint i < sint j"
| "precedes (VText v) (VText w) \<longleftrightarrow> string_less v w"
| "precedes a b \<longleftrightarrow> False"

definition comes_first :: "(nat \<times> OrderDirection) list \<Rightarrow> RowEntry \<Rightarrow> RowEntry \<Rightarrow> bool" where
  "comes_first ks a b \<longleftrightarrow> (\<exists>n<length ks. (\<forall>m<n. snd a ! fst (ks ! m) = snd b ! fst (ks ! m)) \<and>
     (let x = snd a ! fst (ks ! n); y = snd b ! fst (ks ! n) in if snd (ks ! n) = Order_Asc then precedes x y else precedes y x))"

lemma precedes_compare:
  assumes "value_fits ty a" "value_fits ty b"
  shows "precedes a b \<longleftrightarrow> CompareValue a b < 0"
  using assms
proof (cases rule: fitting_pair)
  case 1
  then show ?thesis by (cases b) (simp_all add: compare_nulls)
next
  case 2
  then show ?thesis by (simp add: compare_nulls)
qed (simp_all add: compare_ints compare_texts)

lemma ex_less_Suc: "(\<exists>n<Suc k. P n) \<longleftrightarrow> P 0 \<or> (\<exists>n<k. P (Suc n))"
  by (metis less_Suc_eq_0_disj)

lemma all_less_Suc: "(\<forall>n<Suc k. P n) \<longleftrightarrow> P 0 \<and> (\<forall>n<k. P (Suc n))"
  by (metis less_Suc_eq_0_disj)

lemma comes_first_Cons:
  "comes_first (k # ks) a b \<longleftrightarrow>
     (if snd k = Order_Asc then precedes (snd a ! fst k) (snd b ! fst k) else precedes (snd b ! fst k) (snd a ! fst k)) \<or>
     snd a ! fst k = snd b ! fst k \<and> comes_first ks a b"
  by (simp add: comes_first_def ex_less_Suc all_less_Suc Let_def) blast

lemma precedes_irrefl: "\<not> precedes a a"
  by (cases a) auto

lemma row_before_comes_first:
  assumes "snd a \<in> comparable ty ks" "snd b \<in> comparable ty ks"
  shows "row_before ks (snd a) (snd b) \<longleftrightarrow> comes_first ks a b"
  using assms
proof (induction ks)
  case Nil
  then show ?case by (simp add: comes_first_def)
next
  case (Cons k ks)
  obtain i d where k: "k = (i, d)" by fastforce
  have f: "value_fits (ty i) (snd a ! i)" "value_fits (ty i) (snd b ! i)" using Cons.prems by (auto simp: comparable_def k)
  have "row_before ks (snd a) (snd b) \<longleftrightarrow> comes_first ks a b" by (rule Cons.IH) (use Cons.prems in \<open>auto simp: comparable_def\<close>)
  moreover note CompareValue_order[OF f] precedes_compare[OF f] precedes_compare[OF f(2,1)] precedes_irrefl[of "snd a ! i"]
  ultimately show ?case by (auto simp: comes_first_Cons k Let_def)
qed

text \<open>C20: ORDER BY sorts. Rows that fit the schema come out as the same rows, in the order of the keys (column by column, each in its direction, NULL
  before every value), and rows that agree on all keys stay in the order in which they came.\<close>

theorem order_by_sorts:
  assumes "OrderByExecutor order_keys (MaterializedSource rows) schema = Inr source"
    and "\<forall>entry\<in>set rows. row_fits schema (snd entry)"
  shows "\<exists>ks out. order_indexes schema order_keys = Inr ks \<and> source = MaterializedSource out \<and> mset out = mset rows \<and>
    sorted_wrt (\<lambda>a b. \<not> comes_first ks b a) out \<and>
    (\<forall>entry\<in>set rows. let ties = filter (\<lambda>x. \<not> comes_first ks entry x \<and> \<not> comes_first ks x entry) in ties out = ties rows)"
proof -
  obtain ks where ks: "order_indexes schema order_keys = Inr ks"
    "source = MaterializedSource (stable_sort (\<lambda>left right. row_before ks (snd left) (snd right)) rows)"
    using assms(1) by (auto simp: OrderByExecutor_def rbind_Inr Materialize_Inr split: if_splits)
  have i: "fst k < length schema" if "k \<in> set ks" for k
    using ks(1) that by (auto simp: order_indexes_def map_result_Inr list_all2_conv_all_nth rbind_Inr in_set_conv_nth FindColumnIndex_def find_column_from_Inr)
      (metis fst_conv)
  have R: "set rows \<subseteq> {entry. snd entry \<in> comparable (\<lambda>i. col_type (schema ! i)) ks}"
    using assms(2) i by (auto simp: comparable_def row_fits_def list_all2_conv_all_nth)
  let ?out = "stable_sort (\<lambda>left right. row_before ks (snd left) (snd right)) rows"
  note S = row_order.stable_sort_mset[of ks rows] row_order.stable_sort_sorted[OF R] row_order.stable_sort_ties[OF _ R, unfolded row_order.tie_def]
  have sub: "set ?out = set rows" using row_order.stable_sort_set[of ks rows] .
  have cf: "row_before ks (snd a) (snd b) \<longleftrightarrow> comes_first ks a b" if "a \<in> set rows" "b \<in> set rows" for a b
    using row_before_comes_first[of a _ ks b] that R by blast
  have sorted: "sorted_wrt (\<lambda>a b. \<not> comes_first ks b a) ?out"
    by (rule sorted_wrt_mono_rel[OF _ S(2)]) (simp add: sub cf)
  have ties: "filter (\<lambda>x. \<not> comes_first ks entry x \<and> \<not> comes_first ks x entry) ?out =
      filter (\<lambda>x. \<not> comes_first ks entry x \<and> \<not> comes_first ks x entry) rows" if "entry \<in> set rows" for entry
  proof -
    have "filter (\<lambda>x. \<not> comes_first ks entry x \<and> \<not> comes_first ks x entry) xs =
        filter (\<lambda>x. \<not> row_before ks (snd entry) (snd x) \<and> \<not> row_before ks (snd x) (snd entry)) xs" if "set xs = set rows" for xs
      by (rule filter_cong[OF refl]) (use that \<open>entry \<in> set rows\<close> cf in auto)
    then show ?thesis using S(3)[of entry] that R sub by auto
  qed
  show ?thesis using ks S(1) sorted ties by (intro exI[of _ ks] exI[of _ ?out]) (simp add: Let_def)
qed

definition demo_people :: Schema where
  "demo_people = [make_Column ''age'' DT_Int None True False False None, make_Column ''name'' DT_Varchar None True False False None]"

theorem order_by_sorts_witness:
  "\<exists>source ks out. OrderByExecutor [\<lparr>key_column = ''age'', key_direction = Order_Desc\<rparr>]
      (MaterializedSource [(demo_at 0, [VInt 3, VText ''a'']), (demo_at 1, [VNull, VText ''b'']), (demo_at 2, [VInt 9, VNull])]) demo_people = Inr source \<and>
    order_indexes demo_people [\<lparr>key_column = ''age'', key_direction = Order_Desc\<rparr>] = Inr ks \<and> source = MaterializedSource out \<and>
    sorted_wrt (\<lambda>a b. \<not> comes_first ks b a) out"
proof -
  let ?keys = "[\<lparr>key_column = ''age'', key_direction = Order_Desc\<rparr>]"
  let ?rows = "[(demo_at 0, [VInt 3, VText ''a'']), (demo_at 1, [VNull, VText ''b'']), (demo_at 2, [VInt 9, VNull])]"
  have "order_indexes demo_people ?keys = Inr [(0, Order_Desc)]"
    by (simp add: order_indexes_def demo_people_def make_Column_def FindColumnIndex_def rbind_def)
  then obtain source where s: "OrderByExecutor ?keys (MaterializedSource ?rows) demo_people = Inr source"
    by (simp add: OrderByExecutor_def rbind_def demo_people_def)
  have "\<forall>entry\<in>set ?rows. row_fits demo_people (snd entry)"
    by (simp add: row_fits_def value_fits_def demo_people_def make_Column_def)
  from order_by_sorts[OF s this] s show ?thesis by blast
qed

subsection \<open>Grouping\<close>

definition group_key :: "nat list \<Rightarrow> RowEntry \<Rightarrow> Row" where
  "group_key indexes entry = map (\<lambda>index. snd entry ! index) indexes"

lemma SameGroup_key: "SameGroup indexes (snd a) (snd b) \<longleftrightarrow> group_key indexes a = group_key indexes b"
  by (auto simp: SameGroup_def group_key_def list_all_iff)

text \<open>The first row of each key.\<close>

fun leaders :: "nat list \<Rightarrow> RowEntry list \<Rightarrow> RowEntry list" where
  "leaders indexes [] = []"
| "leaders indexes (entry # entries) =
     entry # filter (\<lambda>e. group_key indexes e \<noteq> group_key indexes entry) (leaders indexes entries)"

lemma leaders_keys: "group_key indexes ` set (leaders indexes entries) = group_key indexes ` set entries"
  by (induction entries) (auto 4 3)

lemma leaders_distinct: "distinct (map (group_key indexes) (leaders indexes entries))"
  by (induction entries) (auto simp: distinct_map inj_on_def)

lemma leaders_snoc:
  "leaders indexes (entries @ [e]) =
   leaders indexes entries @ (if group_key indexes e \<in> group_key indexes ` set entries then [] else [e])"
  by (induction entries) auto

lemma leader_first: "lead \<in> set (leaders indexes entries) \<Longrightarrow>
   \<exists>rest. filter (\<lambda>e. group_key indexes e = group_key indexes lead) entries = lead # rest"
  by (induction entries) auto

lemma add_to_groups_classes:
  assumes "list_all (\<lambda>lead. P lead \<noteq> [] \<and> group_key indexes (hd (P lead)) = group_key indexes lead) leads" "distinct (map (group_key indexes) leads)"
  shows "add_to_groups indexes (map P leads) e =
    map (\<lambda>lead. if group_key indexes lead = group_key indexes e then P lead @ [e] else P lead) leads @
    (if group_key indexes e \<in> group_key indexes ` set leads then [] else [[e]])"
  using assms
proof (induction leads)
  case (Cons lead leads)
  then show ?case
    by (cases "group_key indexes lead = group_key indexes e") (auto simp: SameGroup_key image_iff intro!: map_cong)
qed simp

text \<open>C21: Grouping cuts the rows into classes: there is one group for each key that occurs, in the order of first occurrence, and it has
  exactly the rows with this key, in their order. Without GROUP BY columns there is one group of all rows, also when there is no row.\<close>

theorem groups_are_classes:
  "group_rows indexes rows =
     (if rows = [] \<and> indexes = [] then [[]]
      else map (\<lambda>lead. filter (\<lambda>e. group_key indexes e = group_key indexes lead) rows) (leaders indexes rows)) \<and>
   distinct (map (group_key indexes) (leaders indexes rows)) \<and>
   group_key indexes ` set (leaders indexes rows) = group_key indexes ` set rows"
proof -
  have "foldl (add_to_groups indexes) [] rows =
      map (\<lambda>lead. filter (\<lambda>e. group_key indexes e = group_key indexes lead) rows) (leaders indexes rows)"
  proof (induction rows rule: rev_induct)
    case (snoc e rows)
    let ?P = "\<lambda>lead. filter (\<lambda>e. group_key indexes e = group_key indexes lead) rows"
    have a: "list_all (\<lambda>lead. ?P lead \<noteq> [] \<and> group_key indexes (hd (?P lead)) = group_key indexes lead) (leaders indexes rows)"
      using leader_first[of _ indexes rows] by (fastforce simp: list_all_iff)
    have "?P e = []" if "group_key indexes e \<notin> group_key indexes ` set rows"
      using that by (auto simp: filter_empty_conv image_iff)
    then show ?case using add_to_groups_classes[OF a leaders_distinct, of e] snoc.IH
      by (auto simp: leaders_snoc leaders_keys)
  qed simp
  then show ?thesis using leaders_keys[of indexes rows] leaders_distinct[of indexes rows]
    by (cases rows) (auto simp: group_rows_def Let_def)
qed

end
