(* ===== verification/QueryTypes.thy ===== *)
theory QueryTypes
  imports AccessPaths Relational
begin

text \<open>
  The types of a query. The rows that a SELECT delivers have the types that its plan announces (\<^verbatim>\<open>output_types\<close>), when no
  operand of AND or OR in its projections is typed as NULL; so the type check of expressions is sound also for the subqueries
  in them, which the evaluator runs through planner and executor again.
\<close>

subsection \<open>The data\<close>

definition source_fits :: "Schema \<Rightarrow> RowSource \<Rightarrow> bool" where
  "source_fits schema source \<longleftrightarrow> (\<forall>rid row. Inr (rid, row) \<in> set source \<longrightarrow> row_fits schema row)"

text \<open>The stored rows are rows of their tables.\<close>

definition database_fits :: "Database \<Rightarrow> bool" where
  "database_fits db \<longleftrightarrow>
     (\<forall>name table. RequireMetadata db name = Inr table \<longrightarrow>
        (\<forall>source. BeginScan db table = Inr source \<longrightarrow> source_fits (tab_schema table) source) \<and>
        (\<forall>rid row. GetRow db table rid = Inr row \<longrightarrow> row_fits (tab_schema table) row))"

lemma row_fits_append: "row_fits s r \<Longrightarrow> row_fits s' r' \<Longrightarrow> row_fits (s @ s') (r @ r')"
  by (simp add: row_fits_def list_all2_appendI)

lemma row_fits_length: "row_fits s r \<Longrightarrow> length r = length s"
  by (simp add: row_fits_def list_all2_lengthD)

lemma row_fits_nulls: "row_fits s (replicate (length s) VNull)"
  by (simp add: row_fits_def list_all2_conv_all_nth value_fits_def)

lemma row_fits_output: "row_fits s r \<Longrightarrow> i < length s \<Longrightarrow> output_fits (column_plan_type (col_type (s ! i))) (r ! i)"
  by (cases "r ! i") (auto simp: row_fits_def list_all2_conv_all_nth value_fits_def output_fits_def column_plan_type_def IsInt_def
      IsVarchar_def split: if_splits)

lemma rbind_InrE: "rbind r f = Inr y \<Longrightarrow> (\<And>x. r = Inr x \<Longrightarrow> f x = Inr y \<Longrightarrow> P) \<Longrightarrow> P"
  by (auto simp: rbind_Inr)

lemma error_if: "(if c then Inl err else r) = Inr y \<longleftrightarrow> \<not> c \<and> r = Inr y"
  by simp

subsection \<open>Operators\<close>

lemma FilterSource_Next_mem:
  "FilterSource_Next i p e schema run child = (child', Inr (Some entry)) \<Longrightarrow> Inr entry \<in> set child \<and> set child' \<subseteq> set child"
  by (induction child) (auto split: sum.splits if_splits)

lemma FilterSource_mem: "Inr x \<in> set (FilterSource i p e schema run child) \<Longrightarrow> Inr x \<in> set child"
proof (induction child rule: length_induct)
  case (1 child)
  obtain child' r where n: "FilterSource_Next i p e schema run child = (child', r)" by fastforce
  show ?case
  proof (cases r)
    case (Inr found)
    show ?thesis
    proof (cases found)
      case (Some entry)
      note n' = n[unfolded Inr Some]
      have "x = entry \<or> Inr x \<in> set (FilterSource i p e schema run child')"
        using "1.prems" by (subst (asm) FilterSource.simps) (simp add: n')
      then show ?thesis using "1.IH" FilterSource_Next_shorter[OF n'] FilterSource_Next_mem[OF n'] by blast
    qed (use "1.prems" n Inr in \<open>subst (asm) FilterSource.simps, simp\<close>)
  qed (use "1.prems" n in \<open>subst (asm) FilterSource.simps, simp\<close>)
qed

lemma LimitSource_mem: "Inr x \<in> set (LimitSource n child) \<Longrightarrow> Inr x \<in> set child"
  by (induction n child rule: LimitSource.induct) auto

lemma DistinctSource_mem: "Inr x \<in> set (DistinctSource seen child) \<Longrightarrow> Inr x \<in> set child"
  by (induction seen child rule: DistinctSource.induct) (auto split: if_splits)

lemma map_source_mem: "Inr y \<in> set (map_source f child) \<Longrightarrow> \<exists>x. Inr x \<in> set child \<and> f x = Inr y"
  by (induction f child rule: map_source.induct) (auto split: sum.splits)

lemma sorted_members: "set (stable_sort before xs) = set xs"
proof -
  have "set (insert_stable before x ys) = insert x (set ys)" for x :: 'a and ys by (induction ys) auto
  then show ?thesis by (induction xs) (simp_all add: stable_sort_def)
qed

lemma first_rows_mem: "first_rows schema indexes groups entries = Inr rows \<Longrightarrow> set rows \<subseteq> set groups \<union> set entries"
  by (induction schema indexes groups entries rule: first_rows.induct) (auto split: if_splits)

definition rows_fit :: "Schema \<Rightarrow> RowEntry list \<Rightarrow> bool" where
  "rows_fit schema rows \<longleftrightarrow> (\<forall>entry\<in>set rows. row_fits schema (snd entry))"

lemma rows_fit_simps [simp]:
  "rows_fit schema []" "rows_fit schema (entry # rows) \<longleftrightarrow> row_fits schema (snd entry) \<and> rows_fit schema rows"
  "rows_fit schema (rows @ rows') \<longleftrightarrow> rows_fit schema rows \<and> rows_fit schema rows'"
  by (auto simp: rows_fit_def)

lemma rows_fit_subset: "rows_fit schema rows \<Longrightarrow> set rows' \<subseteq> set rows \<Longrightarrow> rows_fit schema rows'"
  by (auto simp: rows_fit_def)

lemma source_fits_map: "source_fits schema (MaterializedSource rows) \<longleftrightarrow> rows_fit schema rows"
  by (force simp: source_fits_def rows_fit_def)

lemma join_rights_fits:
  "join_rights li ri left rights marks = (out, marks', matched) \<Longrightarrow> row_fits sl (snd left) \<Longrightarrow> rows_fit sr rights \<Longrightarrow>
   rows_fit (sl @ sr) out"
  by (induction li ri left rights marks arbitrary: out marks' matched rule: join_rights.induct)
    (auto split: prod.splits if_splits intro: row_fits_append)

lemma resize_row_fits: "row_fits sl row \<Longrightarrow> row_fits (sl @ sr) (resize_row (length sl + length sr) row)"
  using row_fits_length[of sl row] row_fits_append[OF _ row_fits_nulls, of sl row sr] by (simp add: resize_row_def)

lemma join_lefts_fits:
  "join_lefts ty li ri (length sl + length sr) lefts rights marks = (out, marks') \<Longrightarrow> rows_fit sl lefts \<Longrightarrow> rows_fit sr rights \<Longrightarrow>
   rows_fit (sl @ sr) out"
proof (induction lefts arbitrary: marks out marks')
  case (Cons left lefts)
  obtain o1 m1 matched where r: "join_rights li ri left rights marks = (o1, m1, matched)" by (cases "join_rights li ri left rights marks")
  obtain o2 m2 where l: "join_lefts ty li ri (length sl + length sr) lefts rights m1 = (o2, m2)" by fastforce
  have "rows_fit (sl @ sr) o1" using join_rights_fits[OF r] Cons.prems(2,3) by simp
  moreover have "rows_fit (sl @ sr) o2" using Cons.IH[OF l] Cons.prems(2,3) by simp
  ultimately show ?case using Cons.prems r l resize_row_fits[of sl "snd left" sr] by auto
qed simp

lemma unmatched_rights_fits: "rows_fit sr rights \<Longrightarrow> rows_fit (sl @ sr) (unmatched_rights (length sl) rights marks)"
  by (force simp: unmatched_rights_def rows_fit_def dest: set_zip_leftD intro!: row_fits_append[OF row_fits_nulls])

lemma join_source_fits:
  assumes "BuildJoinSource l r ty li ri (length sl) (length sr) = Inr source" "source_fits sl l" "source_fits sr r"
  shows "source_fits (sl @ sr) source"
proof -
  obtain lefts rights i j where m: "l = MaterializedSource lefts" "r = MaterializedSource rights" "li = Some i" "ri = Some j"
    using assms(1) by (auto simp: BuildJoinSource_def rbind_Inr Materialize_Inr split: option.splits)
  obtain out marks where o: "join_lefts ty i j (length sl + length sr) lefts rights (replicate (length rights) False) = (out, marks)"
    by fastforce
  have f: "rows_fit sl lefts" "rows_fit sr rights" using assms(2,3) by (simp_all add: m source_fits_map)
  have "Materialize (MaterializedSource xs) = Inr xs" for xs by (simp add: Materialize_Inr)
  then have "source = MaterializedSource (out @ (if ty = Join_Right \<or> ty = Join_Full then unmatched_rights (length sl) rights marks else []))"
    using assms(1) o by (auto simp: BuildJoinSource_def rbind_def m split: if_splits)
  then show ?thesis using join_lefts_fits[OF o f] unmatched_rights_fits[OF f(2)] by (simp only: source_fits_map rows_fit_simps) simp
qed

subsection \<open>The pipeline below the projection\<close>

text \<open>The columns that a tree of scans, joins, filters, groups and orderings delivers: those of its tables.\<close>

fun node_schema :: "'a CatalogView_scheme \<Rightarrow> PlanNode \<Rightarrow> Schema Result" where
  "node_schema db (N_SeqScan table_name) = rbind (RequireMetadata db table_name) (\<lambda>table. Inr (tab_schema table))"
| "node_schema db (N_IndexScan table_name index_name column_name key) =
     rbind (RequireMetadata db table_name) (\<lambda>table. Inr (tab_schema table))"
| "node_schema db (N_Filter child predicate expression) = node_schema db child"
| "node_schema db (N_GroupBy child columns) = node_schema db child"
| "node_schema db (N_OrderBy child order_keys) = node_schema db child"
| "node_schema db (N_Join left right ty ltab lcol rtab rcol left_index right_index) =
     rbind (node_schema db left) (\<lambda>l. rbind (node_schema db right) (\<lambda>r. Inr (l @ r)))"
| "node_schema db node = Inl InvalidArgument"

lemma GetRow_fits:
  "map_result (\<lambda>rid. rbind (GetRow db table rid) (\<lambda>row. Inr (rid, row))) rids = Inr rows \<Longrightarrow>
   \<forall>rid row. GetRow db table rid = Inr row \<longrightarrow> row_fits schema row \<Longrightarrow> rows_fit schema rows"
  by (induction rids arbitrary: rows) (auto simp: rbind_Inr)

lemma index_scan_fits:
  assumes "database_fits db" "index_scan db table_name index_name column_name key = Inr c" "RequireMetadata db table_name = Inr table"
  shows "src_schema c = tab_schema table \<and> source_fits (tab_schema table) (src_source c)"
proof -
  obtain rids rows where r: "map_result (\<lambda>rid. rbind (GetRow db table rid) (\<lambda>row. Inr (rid, row))) rids = Inr rows"
    "src_schema c = tab_schema table" "src_source c = MaterializedSource rows"
    using assms(2,3) by (auto simp: index_scan_def rbind_Inr split: option.splits if_splits)
  have "\<forall>rid row. GetRow db table rid = Inr row \<longrightarrow> row_fits (tab_schema table) row"
    using assms(1,3) by (auto simp: database_fits_def)
  from GetRow_fits[OF r(1) this] r(2,3) show ?thesis by (simp add: source_fits_map)
qed

lemma source_fits_subset:
  "source_fits schema source \<Longrightarrow> (\<And>x. Inr x \<in> set source' \<Longrightarrow> Inr x \<in> set source) \<Longrightarrow> source_fits schema source'"
  by (auto simp: source_fits_def)

lemma node_fits:
  assumes "database_fits db"
  shows "build_node db plan run node = Inr c \<Longrightarrow> node_schema db node = Inr schema \<Longrightarrow>
    src_schema c = schema \<and> source_fits schema (src_source c)"
proof (induction node arbitrary: c schema)
  case (N_SeqScan t)
  then obtain table where "RequireMetadata db t = Inr table" "schema = tab_schema table" by (auto simp: rbind_Inr)
  then show ?case using N_SeqScan assms by (auto simp: rbind_Inr SeqScanExecutor_def database_fits_def)
next
  case (N_IndexScan t index column key)
  then obtain table where "RequireMetadata db t = Inr table" "schema = tab_schema table" by (auto simp: rbind_Inr)
  then show ?case using N_IndexScan index_scan_fits[OF assms] by auto
next
  case (N_Filter child p e)
  then obtain c' i where c': "build_node db plan run child = Inr c'"
    "c = c'\<lparr>src_source := FilterSource i p e (src_schema c') (Some run) (src_source c')\<rparr>"
    by (auto simp: rbind_Inr FilterExecutor_def split: if_splits)
  then show ?case using N_Filter.IH[OF c'(1)] N_Filter.prems(2) by (auto elim: source_fits_subset dest: FilterSource_mem)
next
  case (N_GroupBy child columns)
  then obtain c' indexes rows groups where c': "build_node db plan run child = Inr c'" "src_source c' = MaterializedSource rows"
    "first_rows (src_schema c') indexes [] rows = Inr groups" "c = c'\<lparr>src_source := MaterializedSource groups\<rparr>"
    by (auto simp: rbind_Inr GroupByExecutor_def Materialize_Inr)
  then show ?case using N_GroupBy.IH[OF c'(1)] N_GroupBy.prems(2) first_rows_mem[OF c'(3)]
    by (auto simp: source_fits_map elim: rows_fit_subset)
next
  case (N_OrderBy child order_keys)
  then obtain c' before rows where c': "build_node db plan run child = Inr c'" "src_source c' = MaterializedSource rows"
    "c = c'\<lparr>src_source := MaterializedSource (stable_sort before rows)\<rparr>"
    by (auto simp: rbind_Inr OrderByExecutor_def Materialize_Inr split: if_splits)
  then show ?case using N_OrderBy.IH[OF c'(1)] N_OrderBy.prems(2)
    by (auto simp: source_fits_map sorted_members elim!: rows_fit_subset)
next
  case (N_Join left right ty a b c d i j)
  then obtain l r sl sr source where lr: "build_node db plan run left = Inr l" "build_node db plan run right = Inr r"
    "node_schema db left = Inr sl" "node_schema db right = Inr sr" "schema = sl @ sr"
    "BuildJoinSource (src_source l) (src_source r) ty i j (length (src_schema l)) (length (src_schema r)) = Inr source"
    "src_source c = source" "src_schema c = src_schema l @ src_schema r"
    by (auto simp: rbind_Inr)
  then show ?case using N_Join.IH(1)[OF lr(1,3)] N_Join.IH(2)[OF lr(2,4)] join_source_fits by auto
qed simp_all

subsection \<open>Typed rows\<close>

definition typed_rows :: "PlanValueType list \<Rightarrow> Row list \<Rightarrow> bool" where
  "typed_rows types rows \<longleftrightarrow> (\<forall>row\<in>set rows. list_all2 output_fits types row)"

text \<open>An expression with the given type, whose subqueries keep the types of their plans.\<close>

definition typed_expression ::
  "('q \<Rightarrow> Plan Result) \<Rightarrow> 'q SubqueryRunner \<Rightarrow> Schema \<Rightarrow> 'q CompileExpr \<Rightarrow> PlanValueType \<Rightarrow> bool" where
  "typed_expression planner run schema e ty \<longleftrightarrow>
     (\<exists>ct. CheckCompileExpr e schema True (Some planner) = Inr ct \<and> ty = ToPlanValueType ct) \<and>
     logic_typed e schema True planner \<and> (\<forall>q\<in>set_CompileExpr e. answer_fits (planner q) (run q))"

lemma stored_output_fits: "of_type ct v \<Longrightarrow> ToStorageValue v = Inr w \<Longrightarrow> output_fits (ToPlanValueType ct) w"
  by (cases ct)
    (auto simp: of_type_def EvalIsNull_def kind_of_type_def ToStorageValue_def ToPlanValueType_def output_fits_def IsInt_def IsVarchar_def
      split: if_splits)

lemma typed_expression_output:
  assumes "typed_expression planner run schema e ty" "row_fits schema row" "\<forall>rows. members = Some rows \<longrightarrow> (\<forall>r\<in>set rows. row_fits schema r)"
    and "rbind (EvaluateExpression e row schema members (Some run)) ToStorageValue = Inr w"
  shows "output_fits ty w"
proof -
  obtain ct where ct: "CheckCompileExpr e schema True (Some planner) = Inr ct" "ty = ToPlanValueType ct"
    using assms(1) by (auto simp: typed_expression_def)
  obtain v where v: "EvaluateExpression e row schema members (Some run) = Inr v" "ToStorageValue v = Inr w"
    using assms(4) by (auto simp: rbind_Inr)
  have "sound (run_errors run e) ct (EvaluateExpression e row schema members (Some run))"
    by (rule checked_expression_sound[OF ct(1)]) (use assms in \<open>auto simp: typed_expression_def\<close>)
  then show ?thesis using stored_output_fits v ct(2) by simp
qed

lemma project_expressions_typed:
  assumes "list_all2 (typed_expression planner run schema) es types" "row_fits schema row"
    "\<forall>rows. members = Some rows \<longrightarrow> (\<forall>r\<in>set rows. row_fits schema r)"
    and "project_expressions es schema (Some run) members row = Inr out"
  shows "list_all2 output_fits types out"
  using assms(1,4) unfolding project_expressions_def map_result_Inr
proof (induction es types arbitrary: out rule: list_all2_induct)
  case (Cons e es ty types)
  then show ?case using typed_expression_output[OF Cons.hyps(1) assms(2,3)] by (auto simp: list_all2_Cons1)
qed simp

text \<open>The projections that the planner accepts.\<close>

lemma check_projection_typed:
  "check_projection planner schema table_name table_alias projected items = Inr types \<Longrightarrow>
   list_all2 (\<lambda>item ty. snd item \<noteq> E_nullptr \<and> (\<exists>ct. CheckCompileExpr (snd item) schema True (Some planner) = Inr ct \<and> ty = ToPlanValueType ct))
     items types"
  by (induction planner schema table_name table_alias projected items arbitrary: types rule: check_projection.induct)
    (auto simp: result_simps split: if_splits)

lemma projected_columns_typed:
  assumes "projection_indexes schema es = indexes" "indexes \<noteq> []" "list_all2 (typed_expression planner run schema) es types"
    "row_fits schema row"
  shows "list_all2 output_fits types (map (\<lambda>i. row ! i) indexes)"
proof -
  have "list_all2 (\<lambda>e i. (case e of E_Column qualifier name \<Rightarrow> FindColumnIndex schema name | _ \<Rightarrow> Inl NotFound) = Inr i) es indexes"
    using assms(1,2) by (auto simp: projection_indexes_def map_result_Inr split: sum.splits)
  then show ?thesis using assms(3)
  proof (induction es indexes arbitrary: types rule: list_all2_induct)
    case (Cons e es i indexes)
    obtain qualifier name where e: "e = E_Column qualifier name" "FindColumnIndex schema name = Inr i"
      using Cons.hyps(1) by (cases e) auto
    obtain ty tys where t: "types = ty # tys" "typed_expression planner run schema e ty" "list_all2 (typed_expression planner run schema) es tys"
      using Cons.prems by (auto simp: list_all2_Cons1)
    have i: "i < length schema" using e(2) by (auto simp: FindColumnIndex_def find_column_from_Inr)
    have "ty = column_plan_type (col_type (schema ! i))"
      using t(2) e by (auto simp: typed_expression_def FindColumn_def ToPlanValueType_def column_plan_type_def)
    then show ?case using row_fits_output[OF assms(4) i] Cons.IH[OF t(3)] t(1) by simp
  qed simp
qed

definition source_typed :: "PlanValueType list \<Rightarrow> RowSource \<Rightarrow> bool" where
  "source_typed types source \<longleftrightarrow> (\<forall>rid row. Inr (rid, row) \<in> set source \<longrightarrow> list_all2 output_fits types row)"

lemma source_typed_subset:
  "source_typed types source \<Longrightarrow> (\<And>x. Inr x \<in> set source' \<Longrightarrow> Inr x \<in> set source) \<Longrightarrow> source_typed types source'"
  by (auto simp: source_typed_def)

lemma all_columns_typed:
  "row_fits schema row \<Longrightarrow> list_all2 output_fits (map (\<lambda>c. column_plan_type (col_type c)) schema) (map (\<lambda>i. row ! i) [0..<length schema])"
  using row_fits_output by (simp add: list_all2_conv_all_nth)

text \<open>The projection of a SELECT without aggregates.\<close>

lemma project_node_typed:
  assumes "project_node plan run c columns all idx = Inr c'" "source_fits (src_schema c) (src_source c)"
    and "all \<Longrightarrow> idx = [] \<and> types = map (\<lambda>c. column_plan_type (col_type c)) (src_schema c)"
    and "\<not> all \<Longrightarrow> idx = projection_indexes (src_schema c) (sp_projection_expressions plan) \<and>
      length (sp_projection_expressions plan) = length columns \<and>
      list_all2 (typed_expression planner run (src_schema c)) (sp_projection_expressions plan) types"
  shows "source_typed types (src_source c')"
proof (cases "\<not> all \<and> idx = []")
  case True
  then have "src_source c' = ExpressionProjectSource (sp_projection_expressions plan) (src_schema c) (Some run) (src_source c)"
    using assms(1,4) by (auto simp: project_node_def rbind_Inr)
  moreover have "list_all2 output_fits types out" if "Inr (rid, row) \<in> set (src_source c)"
    "project_expressions (sp_projection_expressions plan) (src_schema c) (Some run) None row = Inr out" for rid row out
    by (rule project_expressions_typed[OF _ _ _ that(2), of planner types]) (use assms(2,4) True that(1) in \<open>auto simp: source_fits_def\<close>)
  ultimately show ?thesis
    by (auto simp: source_typed_def ExpressionProjectSource_def rbind_Inr dest!: map_source_mem)
next
  case False
  then obtain indexes where i: "src_source c' = ProjectSource indexes (src_schema c) (src_source c)"
    "indexes = (if all then [0..<length (src_schema c)] else idx)"
    using assms(1,3,4) by (auto simp: project_node_def rbind_Inr ProjectExecutor_def Let_def split: if_splits)
  have "list_all2 output_fits types (map (\<lambda>i. row ! i) indexes)" if "row_fits (src_schema c) row" for row
  proof (cases all)
    case True
    then show ?thesis using all_columns_typed[OF that] assms(3) i(2) by simp
  next
    case nall: False
    note a = assms(4)[OF nall]
    have "idx \<noteq> []" using False nall by simp
    from projected_columns_typed[OF a[THEN conjunct1, symmetric] this a[THEN conjunct2, THEN conjunct2] that] nall i(2) show ?thesis by simp
  qed
  then show ?thesis using assms(2) i(1)
    by (auto simp: source_typed_def ProjectSource_def source_fits_def dest!: map_source_mem split: if_splits)
qed

text \<open>The rows of the groups of a SELECT with aggregates.\<close>

lemma add_to_groups_members: "\<Union> (set ` set (add_to_groups indexes groups entry)) \<subseteq> insert entry (\<Union> (set ` set groups))"
  by (induction groups) auto

lemma group_rows_members: "\<Union> (set ` set (group_rows indexes rows)) \<subseteq> set rows"
proof -
  have "\<Union> (set ` set (foldl (add_to_groups indexes) groups rows)) \<subseteq> set rows \<union> \<Union> (set ` set groups)" for groups
  proof (induction rows arbitrary: groups)
    case (Cons entry rows)
    show ?case using Cons.IH[of "add_to_groups indexes groups entry"] add_to_groups_members[of indexes groups entry] by auto
  qed simp
  from this[of "[]"] show ?thesis by (auto simp: group_rows_def Let_def)
qed

lemma aggregate_groups_typed:
  assumes "list_all2 (typed_expression planner run schema) (sp_projection_expressions plan) types"
  shows "aggregate_groups plan schema run groups = Inr out \<Longrightarrow> \<forall>grp\<in>set groups. rows_fit schema grp \<Longrightarrow>
    source_typed types (MaterializedSource out)"
proof (induction groups arbitrary: out)
  case (Cons grp groups)
  have fits: "row_fits schema (group_row schema grp)" "\<forall>r\<in>set (map snd grp). row_fits schema r"
    using Cons.prems(2) row_fits_nulls by (cases grp; auto simp: group_row_def rows_fit_def)+
  from Cons.prems(1) consider "aggregate_groups plan schema run groups = Inr out"
    | rid row rest where "project_expressions (sp_projection_expressions plan) schema (Some run) (Some (map snd grp)) (group_row schema grp) = Inr row"
      "aggregate_groups plan schema run groups = Inr rest" "out = (rid, row) # rest"
    by (auto simp: Let_def rbind_Inr split: if_splits)
  then show ?case
  proof cases
    case 2
    have "list_all2 output_fits types row" by (rule project_expressions_typed[OF assms fits(1) _ 2(1)]) (use fits(2) in simp)
    then show ?thesis using Cons.IH[OF 2(2)] Cons.prems(2) 2(3) by (auto simp: source_typed_def)
  qed (use Cons in simp)
qed (simp add: source_typed_def)

lemma node_schema_cursor: "node_schema db (snd (take_group (snd (take_order child)))) = node_schema db child"
proof -
  have "node_schema db (snd (take_order n)) = node_schema db n" "node_schema db (snd (take_group n)) = node_schema db n" for n
    by (cases n; simp add: take_order_def take_group_def)+
  then show ?thesis by simp
qed

lemma aggregate_source_typed:
  assumes "database_fits db" "aggregate_source db plan run child columns = Inr c" "node_schema db child = Inr schema"
    and "list_all2 (typed_expression planner run schema) (sp_projection_expressions plan) types"
  shows "source_typed types (src_source c) \<and> length (src_column_names c) = length columns"
proof -
  obtain input rows indexes groups out where a: "build_node db plan run (snd (take_group (snd (take_order child)))) = Inr input"
    "src_source input = MaterializedSource rows"
    "(case fst (take_order child) of None \<Rightarrow> Inr (group_rows indexes rows)
      | Some order_keys \<Rightarrow> rbind (order_indexes (src_schema input) order_keys) (\<lambda>sort_keys.
          Inr (stable_sort (group_before sort_keys) (group_rows indexes rows)))) = Inr groups"
    "aggregate_groups plan (src_schema input) run groups = Inr out" "src_source c = MaterializedSource out"
    "length (src_column_names c) = length columns"
    using assms(2) unfolding aggregate_source_def Let_def
    by (simp split: if_splits) (elim rbind_InrE, rule that, assumption, erule Materialize_Inr[THEN iffD1], assumption, assumption, auto)
  have g: "set groups \<subseteq> set (group_rows indexes rows)"
    using a(3) by (auto simp: rbind_Inr sorted_members split: option.splits)
  have s: "src_schema input = schema" "rows_fit schema rows"
    using node_fits[OF assms(1) a(1)] assms(3) a(2) by (simp_all add: node_schema_cursor source_fits_map)
  have "\<forall>grp\<in>set groups. rows_fit schema grp"
    using s(2) g group_rows_members[of indexes rows] by (fastforce simp: rows_fit_def)
  from aggregate_groups_typed[OF assms(4) a(4)[unfolded s(1)] this] a(5,6) show ?thesis by simp
qed

subsection \<open>SELECT over one table\<close>

lemma single_projection:
  assumes "check_projection planner schema table_name table_alias [] (projection_items s) = Inr types"
    and "sel_projection_expressions s \<noteq> [] \<longrightarrow> length (sel_projection_expressions s) = length (sel_projection s)"
    and "\<forall>e\<in>set (sel_projection_expressions s). logic_typed e schema True planner \<and> (\<forall>q\<in>set_CompileExpr e. answer_fits (planner q) (run q))"
  shows "length (sel_projection_expressions s) = length (sel_projection s) \<and>
    list_all2 (typed_expression planner run schema) (sel_projection_expressions s) types"
proof -
  note c = check_projection_typed[OF assms(1)]
  have len: "length (sel_projection_expressions s) = length (sel_projection s)"
  proof (cases "sel_projection_expressions s = []")
    case True
    then have "sel_projection s = []" using c by (cases "sel_projection s") (auto simp: projection_items_def list_all2_Cons1)
    then show ?thesis using True by simp
  qed (use assms(2) in simp)
  have "map snd (projection_items s) = sel_projection_expressions s"
    using len by (auto simp: projection_items_def)
  moreover have "list_all2 (\<lambda>e ty. \<exists>ct. CheckCompileExpr e schema True (Some planner) = Inr ct \<and> ty = ToPlanValueType ct)
      (map snd (projection_items s)) types"
    using c by (auto simp: list_all2_map1 elim: list_all2_mono)
  ultimately have "list_all2 (\<lambda>e ty. \<exists>ct. CheckCompileExpr e schema True (Some planner) = Inr ct \<and> ty = ToPlanValueType ct)
      (sel_projection_expressions s) types" by simp
  then show ?thesis using len assms(3) by (auto simp: list_all2_conv_all_nth typed_expression_def)
qed

lemma select_tree_schema:
  assumes "RequireMetadata db (sel_table_name s) = Inr table"
  shows "\<exists>child. select_tree (tab_schema table) s = N_Project child (sel_projection s) (sel_select_all s)
      (if sel_select_all s then [] else projection_indexes (tab_schema table) (sel_projection_expressions s)) \<and>
    node_schema db child = Inr (tab_schema table)"
  using assms by (auto simp: select_tree_def Let_def rbind_def)

text \<open>The optimizer keeps the projection and the tables.\<close>

lemma optimized_root:
  assumes "built = N_Project child columns all idx" "tree = built \<or> uses_index indexes built tree"
  shows "\<exists>child'. tree = N_Project child' columns all idx \<and> node_schema db child' = node_schema db child"
  using assms by (auto simp: uses_index_def)

lemma BuildSource_rows:
  assumes "ExecuteSelect db plan run = Inr result" "sp_root plan = N_Project child columns all idx"
  shows "\<exists>c. (if sp_has_aggregates plan \<or> sp_having plan \<noteq> E_nullptr then aggregate_source db plan run child columns = Inr c
      else build_node db plan run (sp_root plan) = Inr c) \<and>
    length (column_names result) = length (src_column_names c) \<and>
    (source_typed types (src_source c) \<longrightarrow> typed_rows types (result_rows result))"
proof -
  obtain source entries where e: "BuildSource db plan run = Inr source" "src_source source = MaterializedSource entries"
    "result = \<lparr>column_names = src_column_names source, result_rows = map snd entries\<rparr>"
    using assms(1) by (auto simp: ExecuteSelect_def rbind_Inr Materialize_Inr)
  let ?aggregates = "sp_has_aggregates plan \<or> sp_having plan \<noteq> E_nullptr"
  let ?names = "\<lambda>built. map (aliased (src_column_names built) (sp_projection_aliases plan)) [0..<length (src_column_names built)]"
  obtain res where r: "(if ?aggregates then aggregate_source db plan run child columns
      else rbind (build_node db plan run (sp_root plan)) (\<lambda>built. Inr (built\<lparr>src_column_names := ?names built\<rparr>))) = Inr res"
    "source = res\<lparr>src_source := (let d = (if sp_distinct plan then DistinctSource [] (src_source res) else src_source res)
       in case sp_limit plan of None \<Rightarrow> d | Some n \<Rightarrow> LimitSource n d)\<rparr>"
    using e(1)[unfolded BuildSource_def assms(2) PlanNode.case, folded assms(2)]
    by (elim rbind_InrE) (rule that, assumption, simp add: Let_def)
  obtain c where c: "if ?aggregates then aggregate_source db plan run child columns = Inr c else build_node db plan run (sp_root plan) = Inr c"
    "length (src_column_names res) = length (src_column_names c)" "src_source res = src_source c"
  proof (cases ?aggregates)
    case True
    then show ?thesis using that[of res] r(1) by (simp only: if_True)
  next
    case False
    from r(1) obtain c where "build_node db plan run (sp_root plan) = Inr c" "res = c\<lparr>src_column_names := ?names c\<rparr>"
      unfolding if_not_P[OF False] by (elim rbind_InrE) simp
    then show ?thesis using that[of c] by (simp only: if_not_P[OF False]) simp
  qed
  have "Inr x \<in> set (src_source source) \<Longrightarrow> Inr x \<in> set (src_source c)" for x
    unfolding r(2) c(3)[symmetric] by (auto simp: Let_def split: option.splits if_splits dest: LimitSource_mem DistinctSource_mem)
  then have "source_typed types (src_source c) \<Longrightarrow> source_typed types (MaterializedSource entries)"
    unfolding e(2)[symmetric] by (blast intro: source_typed_subset)
  then have "source_typed types (src_source c) \<longrightarrow> typed_rows types (result_rows result)"
    unfolding e(3) typed_rows_def source_typed_def by force
  then show ?thesis using c(1,2) e(3) r(2) by (intro exI[of _ c]) simp
qed

lemma single_typed:
  assumes db: "database_fits db" "RequireMetadata db (sel_table_name s) = Inr table"
    and built: "build_single planner table s = Inr sp" "tree = sp_root sp \<or> uses_index indexes (sp_root sp) tree"
    and run: "ExecuteSelect db (sp\<lparr>sp_root := tree\<rparr>) run = Inr result" "length (column_names result) = length (sp_output_types sp)"
    and projections: "\<forall>e\<in>set (sel_projection_expressions s). logic_typed e (tab_schema table) True planner \<and>
       (\<forall>q\<in>set_CompileExpr e. answer_fits (planner q) (run q))"
  shows "typed_rows (sp_output_types sp) (result_rows result)"
proof -
  let ?schema = "tab_schema table"
  obtain types where t: "check_projection planner ?schema (sel_table_name s) (sel_table_alias s) [] (projection_items s) = Inr types"
    "sp_output_types sp = (if sel_select_all s then map (\<lambda>c. column_plan_type (col_type c)) ?schema else []) @ types"
    "sel_select_all s \<Longrightarrow> sel_projection s = []" "sp_projection_expressions sp = sel_projection_expressions s"
    "sel_projection_expressions s \<noteq> [] \<longrightarrow> length (sel_projection_expressions s) = length (sel_projection s)"
    using built(1) by (auto simp: build_single_def Let_def result_simps split: if_splits)
  note p = single_projection[OF t(1,5) projections]
  have all: "types = []" if "sel_select_all s" using p t(3)[OF that] by auto
  obtain child where child: "tree = N_Project child (sel_projection s) (sel_select_all s)
      (if sel_select_all s then [] else projection_indexes ?schema (sel_projection_expressions s))" "node_schema db child = Inr ?schema"
    using select_tree_schema[OF db(2)] optimized_root[OF _ built(2), of _ _ _ _ db] build_single_tree[OF built(1)] by metis
  let ?plan = "sp\<lparr>sp_root := tree\<rparr>"
  have root: "sp_root ?plan = N_Project child (sel_projection s) (sel_select_all s)
      (if sel_select_all s then [] else projection_indexes ?schema (sel_projection_expressions s))" using child(1) by simp
  obtain c where c: "if sp_has_aggregates ?plan \<or> sp_having ?plan \<noteq> E_nullptr then aggregate_source db ?plan run child (sel_projection s) = Inr c
      else build_node db ?plan run (sp_root ?plan) = Inr c" "length (column_names result) = length (src_column_names c)"
    "source_typed (sp_output_types sp) (src_source c) \<Longrightarrow> typed_rows (sp_output_types sp) (result_rows result)"
    using BuildSource_rows[OF run(1) root] by blast
  have "source_typed (sp_output_types sp) (src_source c)"
  proof (cases "sp_has_aggregates ?plan \<or> sp_having ?plan \<noteq> E_nullptr")
    case True
    then have a: "aggregate_source db ?plan run child (sel_projection s) = Inr c" using c(1) by (simp only: if_True)
    have "list_all2 (typed_expression planner run ?schema) (sp_projection_expressions ?plan) types" using p t(4) by simp
    from aggregate_source_typed[OF db(1) a child(2) this]
    have r: "source_typed types (src_source c)" "length (src_column_names c) = length (sel_projection s)" by simp_all
    have "sp_output_types sp = types"
    proof (cases "sel_select_all s")
      case True
      then have "sp_output_types sp = []" using r(2) c(2) run(2) t(3) by simp
      then show ?thesis using all[OF True] by simp
    qed (simp add: t(2))
    with r(1) show ?thesis by simp
  next
    case False
    then have "build_node db ?plan run tree = Inr c" using c(1) by simp
    then obtain c0 where n: "build_node db ?plan run child = Inr c0"
      "project_node ?plan run c0 (sel_projection s) (sel_select_all s)
         (if sel_select_all s then [] else projection_indexes ?schema (sel_projection_expressions s)) = Inr c"
      using child(1) by (auto simp: rbind_Inr)
    note f = node_fits[OF db(1) n(1) child(2)]
    show ?thesis
      by (rule project_node_typed[where planner = planner, OF n(2)]) (use f p t(2,4) all in auto)
  qed
  then show ?thesis by (rule c(3))
qed

subsection \<open>Joins\<close>

lemma RequireTable_metadata: "RequireTable (catalog_of db) name = Inr table \<Longrightarrow> RequireMetadata db name = Inr table"
  by (auto simp: RequireTable_def RequireMetadata_def rbind_def CatalogView.truncate_def split: sum.splits option.splits)

text \<open>The columns of the joined row: those of the tables, one after the other.\<close>

definition joined_schema :: "BoundTable list \<Rightarrow> Schema" where
  "joined_schema tables = concat (map bound_schema tables)"

definition offsets_ok :: "BoundTable list \<Rightarrow> bool" where
  "offsets_ok tables \<longleftrightarrow> (\<forall>t<length tables. column_offset (tables ! t) = length (joined_schema (take t tables)))"

lemma offsets_ok_snoc: "offsets_ok tables \<Longrightarrow> column_offset b = length (joined_schema tables) \<Longrightarrow> offsets_ok (tables @ [b])"
  by (auto simp: offsets_ok_def nth_append less_Suc_eq)

lemma joined_column:
  assumes "offsets_ok tables" "t < length tables" "c < length (bound_schema (tables ! t))"
  shows "column_offset (tables ! t) + c < length (joined_schema tables) \<and>
    joined_schema tables ! (column_offset (tables ! t) + c) = bound_schema (tables ! t) ! c"
proof -
  have "joined_schema tables = joined_schema (take t tables) @ bound_schema (tables ! t) @ joined_schema (drop (Suc t) tables)"
    unfolding joined_schema_def using id_take_nth_drop[OF assms(2)]
    by (metis (no_types, opaque_lifting) concat.simps(2) concat_append list.simps(9) map_append)
  then show ?thesis using assms by (simp add: offsets_ok_def nth_append)
qed

lemma resolve_qualified_range:
  "resolve_qualified qualifier name k found bs = Inr (t, c) \<Longrightarrow> found = Some (t, c) \<or> k \<le> t \<and> t - k < length bs \<and> c < length (bound_schema (bs ! (t - k)))"
proof (induction qualifier name k found bs rule: resolve_qualified.induct)
  case (2 qualifier name k found b bs)
  show ?case
  proof (cases "qualifier \<noteq> VisibleName b")
    case True
    then have "found = Some (t, c) \<or> Suc k \<le> t \<and> t - Suc k < length bs \<and> c < length (bound_schema (bs ! (t - Suc k)))"
      using 2 by simp
    then show ?thesis by (auto simp: nth_Cons' diff_Suc split: nat.splits)
  next
    case False
    then obtain i where i: "FindColumnIndex (bound_schema b) name = Inr i" "found = None"
      "resolve_qualified qualifier name (Suc k) (Some (k, i)) bs = Inr (t, c)"
      using 2(3) by (cases found) (auto split: if_splits sum.splits)
    then have "(k, i) = (t, c) \<or> Suc k \<le> t \<and> t - Suc k < length bs \<and> c < length (bound_schema (bs ! (t - Suc k)))"
      using 2(2)[OF _ _ i(1)] False by simp
    then show ?thesis using FindColumnIndex_name[OF i(1)] by (auto simp: nth_Cons' diff_Suc split: nat.splits)
  qed
qed (simp split: option.splits)

lemma resolve_plain_range:
  "resolve_plain name k found bs = Inr (t, c) \<Longrightarrow> found = Some (t, c) \<or> k \<le> t \<and> t - k < length bs \<and> c < length (bound_schema (bs ! (t - k)))"
proof (induction name k found bs rule: resolve_plain.induct)
  case (2 name k found b bs)
  show ?case
  proof (cases "FindColumnIndex (bound_schema b) name")
    case (Inl err)
    then have "found = Some (t, c) \<or> Suc k \<le> t \<and> t - Suc k < length bs \<and> c < length (bound_schema (bs ! (t - Suc k)))"
      using 2(1)[OF Inl] 2(3) by simp
    then show ?thesis by (auto simp: nth_Cons' diff_Suc split: nat.splits)
  next
    case (Inr i)
    then have f: "found = None" "resolve_plain name (Suc k) (Some (k, i)) bs = Inr (t, c)" using 2(3) by (cases found; auto split: if_splits)+
    then have "(k, i) = (t, c) \<or> Suc k \<le> t \<and> t - Suc k < length bs \<and> c < length (bound_schema (bs ! (t - Suc k)))"
      using 2(2)[OF Inr] by simp
    then show ?thesis using FindColumnIndex_name[OF Inr] by (auto simp: nth_Cons' diff_Suc split: nat.splits)
  qed
qed (simp split: option.splits)

lemma ResolveTableColumn_range:
  "ResolveTableColumn qualifier name tables = Inr (t, c) \<Longrightarrow> t < length tables \<and> c < length (bound_schema (tables ! t))"
  using resolve_qualified_range[of qualifier name 0 None tables t c] resolve_plain_range[of name 0 None tables t c]
  by (auto simp: ResolveTableColumn_def split: if_splits)

definition column_typed :: "Schema \<Rightarrow> string \<times> PlanValueType \<times> nat \<Rightarrow> bool" where
  "column_typed schema column \<longleftrightarrow>
     snd (snd column) < length schema \<and> fst (snd column) = column_plan_type (col_type (schema ! snd (snd column)))"

lemma join_columns_typed:
  assumes "offsets_ok tables"
  shows "join_columns tables aliases i projected es = Inr columns \<Longrightarrow>
    length columns = length es \<and> (\<forall>column\<in>set columns. column_typed (joined_schema tables) column)"
proof (induction es arbitrary: i projected columns)
  case (Cons e es)
  then obtain qualifier name t c j p rest nm where e: "e = E_Column qualifier name" "ResolveTableColumn qualifier name tables = Inr (t, c)"
    "join_columns tables aliases j p es = Inr rest"
    "columns = (nm, column_plan_type (col_type (bound_schema (tables ! t) ! c)), column_offset (tables ! t) + c) # rest"
    by (cases e) (auto simp: rbind_Inr Let_def split: if_splits)
  show ?case using Cons.IH[OF e(3)] joined_column[OF assms] ResolveTableColumn_range[OF e(2)] by (auto simp: e(4) column_typed_def)
qed simp

lemma all_join_columns_typed:
  "length (all_join_columns tables) = length (joined_schema tables) \<and>
   (\<forall>column\<in>set (all_join_columns tables). column_typed (joined_schema tables) column)"
  by (auto simp: all_join_columns_def joined_schema_def column_typed_def Let_def)

definition join_state_ok :: "Database \<Rightarrow> JoinState \<Rightarrow> bool" where
  "join_state_ok db js \<longleftrightarrow> node_schema db (js_root js) = Inr (joined_schema (js_tables js)) \<and> offsets_ok (js_tables js) \<and>
     next_column_offset js = length (joined_schema (js_tables js))"

lemma join_step_ok:
  assumes "join_state_ok db js" "join_step (catalog_of db) js clause = Inr js'"
  shows "join_state_ok db js'"
proof -
  obtain table where t: "RequireTable (catalog_of db) (join_table clause) = Inr table"
    using assms(2) by (auto simp: join_step_def rbind_Inr)
  define binding where "binding = \<lparr>bt_table = table, bt_name = join_table clause, bt_alias = join_alias clause, column_offset = next_column_offset js\<rparr>"
  have "js_tables js' = js_tables js @ [binding] \<and> next_column_offset js' = next_column_offset js + length (bound_schema binding) \<and>
      (\<exists>ty a b c d i j. js_root js' = N_Join (js_root js) (N_SeqScan (join_table clause)) ty a b c d i j)"
    using assms(2) unfolding join_step_def t rbind_value Let_def binding_def[symmetric]
    by (auto simp: rbind_Inr split: if_splits)
  moreover have "RequireMetadata db (join_table clause) = Inr table" by (rule RequireTable_metadata[OF t])
  moreover have "bound_schema binding = tab_schema table" "column_offset binding = next_column_offset js"
    by (simp_all add: binding_def bound_schema_def)
  ultimately show ?thesis using assms(1) offsets_ok_snoc[of "js_tables js" binding]
    by (auto simp: join_state_ok_def joined_schema_def rbind_value)
qed

lemma join_steps_ok: "join_steps (catalog_of db) js clauses = Inr js' \<Longrightarrow> join_state_ok db js \<Longrightarrow> join_state_ok db js'"
  by (induction clauses arbitrary: js) (auto simp: rbind_Inr dest: join_step_ok)

lemma join_start_ok: "RequireMetadata db (sel_table_name s) = Inr table \<Longrightarrow> join_state_ok db (join_start table s)"
  by (simp add: join_state_ok_def join_start_def joined_schema_def offsets_ok_def bound_schema_def Let_def rbind_value)

lemma join_project_typed:
  assumes "project_node plan run c names all (map (\<lambda>column. snd (snd column)) columns) = Inr c'" "source_fits schema (src_source c)"
    "src_schema c = schema" "\<forall>column\<in>set columns. column_typed schema column"
    and "all \<Longrightarrow> length columns = length schema" "length names = length columns"
    "\<not> all \<Longrightarrow> length (sp_projection_expressions plan) = length columns"
  shows "source_typed (map (\<lambda>column. fst (snd column)) columns) (src_source c')"
proof (cases "columns = []")
  case True
  have "\<exists>f. src_source c' = map_source f (src_source c) \<and> (\<forall>x y. f x = Inr y \<longrightarrow> snd y = [])"
  proof (cases all)
    case True
    then have "schema = []" using assms(5) \<open>columns = []\<close> by simp
    then have "src_source c' = ProjectSource [] schema (src_source c)"
      using assms(1,3) True \<open>columns = []\<close> by (auto simp: project_node_def rbind_Inr ProjectExecutor_def)
    then show ?thesis unfolding ProjectSource_def by (intro exI conjI) (auto split: if_splits)
  next
    case False
    then have "src_source c' = ExpressionProjectSource [] schema (Some run) (src_source c)"
      using assms(1,3,6,7) \<open>columns = []\<close> by (auto simp: project_node_def rbind_Inr)
    then show ?thesis unfolding ExpressionProjectSource_def
      by (intro exI conjI) (auto simp: project_expressions_def rbind_Inr)
  qed
  then show ?thesis using True by (auto simp: source_typed_def dest!: map_source_mem)
next
  case False
  let ?idx = "map (\<lambda>column. snd (snd column)) columns"
  have "src_source c' = ProjectSource ?idx schema (src_source c)"
    using assms(1,3) False by (auto simp: project_node_def rbind_Inr ProjectExecutor_def Let_def split: if_splits)
  moreover have "list_all2 output_fits (map (\<lambda>column. fst (snd column)) columns) (map (\<lambda>i. row ! i) ?idx)" if "row_fits schema row" for row
    using assms(4) row_fits_output[OF that] by (simp add: list_all2_conv_all_nth column_typed_def)
  ultimately show ?thesis using assms(2)
    by (auto simp: source_typed_def ProjectSource_def source_fits_def dest!: map_source_mem split: if_splits)
qed

lemma join_typed:
  assumes db: "database_fits db" "RequireMetadata db (sel_table_name s) = Inr table"
    and built: "build_join (catalog_of db) table s = Inr sp" "tree = sp_root sp \<or> uses_index indexes (sp_root sp) tree"
    and run: "ExecuteSelect db (sp\<lparr>sp_root := tree\<rparr>) run = Inr result"
  shows "typed_rows (sp_output_types sp) (result_rows result)"
proof -
  obtain js columns where j: "join_steps (catalog_of db) (join_start table s) (sel_joins s) = Inr js" "sp = join_result s js columns"
    "(if sel_select_all s then Inr (all_join_columns (js_tables js))
      else join_columns (js_tables js) (sel_projection_aliases s) 0 [] (sel_projection_expressions s)) = Inr columns"
    using built(1) unfolding build_join_def error_if
    by (elim rbind_InrE conjE) (rule that, assumption, erule sum.inject(2)[THEN iffD1, symmetric], assumption)
  have ok: "join_state_ok db js" by (rule join_steps_ok[OF j(1) join_start_ok[OF db(2)]])
  let ?schema = "joined_schema (js_tables js)"
  have typed: "\<forall>column\<in>set columns. column_typed ?schema column" "sel_select_all s \<Longrightarrow> length columns = length ?schema"
    "\<not> sel_select_all s \<Longrightarrow> length (sel_projection_expressions s) = length columns"
    using j(3) all_join_columns_typed[of "js_tables js"] ok
      join_columns_typed[of "js_tables js" "sel_projection_aliases s" 0 "[]" "sel_projection_expressions s" columns]
    by (cases "sel_select_all s"; force simp: join_state_ok_def)+
  obtain child where child: "tree = N_Project child (map fst columns) (sel_select_all s) (map (\<lambda>column. snd (snd column)) columns)"
    "node_schema db child = Inr ?schema"
    using optimized_root[OF _ built(2), of "js_root js" "map fst columns" "sel_select_all s" "map (\<lambda>column. snd (snd column)) columns" db] ok
    by (auto simp: j(2) join_result_def join_state_ok_def)
  let ?plan = "sp\<lparr>sp_root := tree\<rparr>"
  have plan: "\<not> (sp_has_aggregates ?plan \<or> sp_having ?plan \<noteq> E_nullptr)" "sp_output_types sp = map (\<lambda>column. fst (snd column)) columns"
    "sp_projection_expressions ?plan = sel_projection_expressions s" "sp_root ?plan = tree"
    by (simp_all add: j(2) join_result_def)
  obtain c where c: "build_node db ?plan run tree = Inr c"
    "source_typed (sp_output_types sp) (src_source c) \<Longrightarrow> typed_rows (sp_output_types sp) (result_rows result)"
    using BuildSource_rows[OF run, of child "map fst columns" "sel_select_all s" "map (\<lambda>column. snd (snd column)) columns" "sp_output_types sp"]
    unfolding if_not_P[OF plan(1)] plan(4) using child(1) by blast
  then obtain c0 where n: "build_node db ?plan run child = Inr c0"
    "project_node ?plan run c0 (map fst columns) (sel_select_all s) (map (\<lambda>column. snd (snd column)) columns) = Inr c"
    using child(1) by (auto simp: rbind_Inr)
  note f = node_fits[OF db(1) n(1) child(2)]
  have "source_typed (sp_output_types sp) (src_source c)" unfolding plan(2)
    by (rule join_project_typed[OF n(2)]) (use f typed plan(3) in auto)
  then show ?thesis by (rule c(2))
qed

subsection \<open>All queries\<close>

text \<open>No operand of AND or OR is typed as NULL in the projections of a statement, nor in those of their subqueries.\<close>

function projections_typed :: "CatalogView \<Rightarrow> SelectStatement \<Rightarrow> bool" where
  "projections_typed catalog s \<longleftrightarrow>
     (\<forall>e\<in>set (sel_projection_expressions s).
        (case RequireTable catalog (sel_table_name s) of
           Inl _ \<Rightarrow> True
         | Inr table \<Rightarrow> logic_typed e (tab_schema table) True (PlanSelect catalog)) \<and>
        (\<forall>q\<in>set_CompileExpr e. projections_typed catalog q))"
  by auto
termination
proof (relation "measure (\<lambda>(catalog, s). size s)")
  fix catalog s e q
  assume "e \<in> set (sel_projection_expressions s)" "q \<in> set_CompileExpr e"
  then have "q \<in> subqueries s" by (auto simp: subqueries_def)
  then show "((catalog, q), catalog, s) \<in> measure (\<lambda>(catalog, s). size s)" using subqueries_size by simp
qed simp

declare projections_typed.simps [simp del]

text \<open>A query delivers rows of the types that its plan announces.\<close>

lemma RunSelect_typed:
  assumes "database_fits db"
  shows "projections_typed (catalog_of db) s \<Longrightarrow> PlanSelect (catalog_of db) s = Inr (P_Select plan) \<Longrightarrow> RunSelect db s = Inr result \<Longrightarrow>
    length (column_names result) = length (sp_output_types plan) \<Longrightarrow> typed_rows (sp_output_types plan) (result_rows result)"
proof (induction "size s" arbitrary: s plan result rule: less_induct)
  case less
  let ?catalog = "catalog_of db"
  obtain sp tree where p: "build_select (PlanSelect ?catalog) ?catalog s = Inr (P_Select sp)" "plan = sp\<lparr>sp_root := tree\<rparr>"
    "tree = sp_root sp \<or> uses_index (ListTableIndexes ?catalog (sel_table_name s)) (sp_root sp) tree"
    using PlanSelect_Inr[OF less.prems(2)] by auto
  have run: "ExecuteSelect db (sp\<lparr>sp_root := tree\<rparr>) (RunSelect db) = Inr result"
    using less.prems(3) by (subst (asm) RunSelect.simps) (simp add: less.prems(2) p(2) rbind_value)
  obtain table where t: "RequireTable ?catalog (sel_table_name s) = Inr table"
    "(if sel_joins s \<noteq> [] then build_join ?catalog table s else build_single (PlanSelect ?catalog) table s) = Inr sp"
    using p(1) by (auto simp: build_select_def rbind_Inr)
  note m = RequireTable_metadata[OF t(1)]
  show ?case
  proof (cases "sel_joins s = []")
    case True
    have answers: "answer_fits (PlanSelect ?catalog q) (RunSelect db q)"
      if "e \<in> set (sel_projection_expressions s)" "q \<in> set_CompileExpr e" for e q
    proof -
      have "q \<in> subqueries s" using that by (auto simp: subqueries_def)
      then have small: "size q < size s" by (rule subqueries_size)
      have "projections_typed ?catalog q" using less.prems(1) that by (subst (asm) projections_typed.simps) blast
      note ih = less.hyps[OF small this]
      show ?thesis unfolding answer_fits_def
      proof (intro allI impI)
        fix sq answer ty
        assume a: "PlanSelect ?catalog q = Inr (P_Select sq) \<and> RunSelect db q = Inr answer \<and> sp_output_types sq = [ty] \<and>
          length (column_names answer) = 1"
        then have "typed_rows [ty] (result_rows answer)" using ih[of sq answer] by simp
        then show "\<forall>row\<in>set (result_rows answer). \<exists>v. row = [v] \<and> output_fits ty v"
          by (auto simp: typed_rows_def list_all2_Cons1)
      qed
    qed
    have b: "build_single (PlanSelect ?catalog) table s = Inr sp" using t(2) True by simp
    have "typed_rows (sp_output_types sp) (result_rows result)"
      by (rule single_typed[OF assms m b p(3) run])
        (use less.prems(1,4) answers t(1) p(2) in \<open>auto simp: projections_typed.simps[of _ s]\<close>)
    then show ?thesis using p(2) by simp
  next
    case False
    then have b: "build_join ?catalog table s = Inr sp" using t(2) by simp
    from join_typed[OF assms m b p(3) run] show ?thesis using p(2) by simp
  qed
qed

lemma RunSelect_answer_fits:
  assumes "database_fits db" "projections_typed (catalog_of db) q"
  shows "answer_fits (PlanSelect (catalog_of db) q) (RunSelect db q)"
  using RunSelect_typed[OF assms] by (fastforce simp: answer_fits_def typed_rows_def list_all2_Cons1)

text \<open>C15: The type check of the planner is sound for the evaluator, subqueries included: when \<^verbatim>\<open>CheckCompileExpr\<close> gives an expression a type,
  then on every row that fits the schema, and every group of such rows, the expression evaluates to NULL or to a value of that
  type. The only errors left are \<open>InvalidArgument\<close> (an arithmetic overflow or division by zero, an aggregate without a group, a scalar
  subquery with more than one row) and those with which a subquery of the expression fails as a query; never a wrong type or a missing column in the
  expression itself. Its subqueries are planned and executed by the planner and the executor of the same database. Assumed are: the
  rows that the database delivers from a table fit the schema of the table; and no operand of AND or OR is typed as NULL, neither in the
  expression (\<open>logic_typed\<close>) nor, at any depth, in the projections of its subqueries (\<open>projections_typed\<close>), since there the
  check is not sound.\<close>

theorem checked_expression_evaluates:
  assumes "CheckCompileExpr e schema allow (Some (PlanSelect (catalog_of db))) = Inr ty"
    and "logic_typed e schema allow (PlanSelect (catalog_of db))" "\<forall>q\<in>set_CompileExpr e. projections_typed (catalog_of db) q"
    and "database_fits db" "row_fits schema row" "\<And>rows. grp = Some rows \<Longrightarrow> \<forall>r\<in>set rows. row_fits schema r"
  shows "case EvaluateExpression e row schema grp (Some (RunSelect db)) of
      Inr v \<Rightarrow> EvalIsNull v \<or> ev_kind v = kind_of_type ty
    | Inl err \<Rightarrow> err = InvalidArgument \<or> (\<exists>q\<in>set_CompileExpr e. RunSelect db q = Inl err)"
proof -
  have "sound (run_errors (RunSelect db) e) ty (EvaluateExpression e row schema grp (Some (RunSelect db)))"
    by (rule checked_expression_sound[OF assms(1,2,5)]) (use assms(3,4,6) RunSelect_answer_fits in blast)+
  then show ?thesis
    by (cases "EvaluateExpression e row schema grp (Some (RunSelect db))") (auto simp: of_type_def)
qed

text \<open>\<open>id * 3 > 10 AND u.name LIKE 'a%' AND id IN (SELECT id FROM users)\<close> on a row of the table.\<close>

definition demo_subquery :: SelectStatement where
  "demo_subquery = SelectStatement ''users'' [] [] [''id''] [E_Column [] ''id''] [] False None E_nullptr [] E_nullptr [] False None demo_location"

definition demo_membership :: Expr where
  "demo_membership = E_Binary ''and'' demo_check (E_Subquery SQ_In (Some demo_subquery) (E_Column [] ''id'') False)"

lemma demo_subquery_type: "rbind (PlanSelect demo_catalog demo_subquery) (subquery_type SQ_In) = Inr CT_Int"
proof -
  obtain sp where sp: "build_select (PlanSelect demo_catalog) demo_catalog demo_subquery = Inr (P_Select sp)" "sp_output_types sp = [PV_Int]"
    by (simp add: build_select_def build_single_def demo_subquery_def demo_catalog_def demo_users_def make_Column_def RequireTable_def
        check_eval require_def check_where_def check_having_def check_predicate_def check_grouping_def has_aggregates_def projection_items_def
        ToPlanValueType_def)
  obtain tree where "finish_plan demo_catalog (P_Select sp) = Inr (P_Select (sp\<lparr>sp_root := tree\<rparr>))" using finish_select[OF sp(1)] by blast
  then have "PlanSelect demo_catalog demo_subquery = Inr (P_Select (sp\<lparr>sp_root := tree\<rparr>))"
    using sp(1) by (subst PlanSelect.simps) (simp add: rbind_value)
  then show ?thesis using sp(2) by (simp add: rbind_value subquery_type_def)
qed

lemma demo_database_fits: "database_fits demo_database"
proof -
  have row: "row_fits demo_users row" if "(rid, row) \<in> set demo_rows" for rid row
    using that by (auto simp: demo_rows_def row_fits_def value_fits_def demo_users_def make_Column_def)
  have f: "FindTable demo_database = FindTable demo_catalog" "BeginScan demo_database = (\<lambda>table. Inr (MaterializedSource demo_rows))"
    "GetRow demo_database = (\<lambda>table rid. case map_of demo_rows rid of None \<Rightarrow> Inl NotFound | Some row \<Rightarrow> Inr row)"
    by (simp_all add: demo_database_def CatalogView.extend_def demo_catalog_def)
  have table: "tab_schema table = demo_users" if "RequireMetadata demo_database name = Inr table" for name table
    using that by (auto simp: RequireMetadata_def rbind_Inr f demo_catalog_def split: if_splits)
  have "row_fits demo_users row" if "GetRow demo_database table rid = Inr row" for table rid row
    using that row[OF map_of_SomeD] by (simp add: f split: option.splits)
  moreover have "source_fits demo_users (MaterializedSource demo_rows)" using row by (auto simp: source_fits_def)
  ultimately show ?thesis using table by (simp add: database_fits_def f)
qed

lemma demo_subquery_typed: "projections_typed catalog demo_subquery"
  by (subst projections_typed.simps) (simp add: demo_subquery_def split: sum.splits)

lemma checked_expression_evaluates_witness:
  "case EvaluateExpression demo_membership [VInt 7, VText ''ann''] demo_users None (Some (RunSelect demo_database)) of
      Inr v \<Rightarrow> EvalIsNull v \<or> ev_kind v = kind_of_type CT_Bool
    | Inl err \<Rightarrow> err = InvalidArgument \<or> (\<exists>q\<in>set_CompileExpr demo_membership. RunSelect demo_database q = Inl err)"
proof (rule checked_expression_evaluates)
  have cat: "catalog_of demo_database = demo_catalog"
    by (simp add: demo_database_def CatalogView.truncate_def CatalogView.extend_def demo_catalog_def)
  show "CheckCompileExpr demo_membership demo_users False (Some (PlanSelect (catalog_of demo_database))) = Inr CT_Bool"
    unfolding cat demo_membership_def CheckCompileExpr.simps option.case demo_subquery_type
    by (simp add: demo_check_def demo_users_def make_Column_def check_eval)
  show "logic_typed demo_membership demo_users False (PlanSelect (catalog_of demo_database))"
    unfolding cat demo_membership_def logic_typed.simps CheckCompileExpr.simps option.case demo_subquery_type
    by (simp add: demo_check_def demo_users_def make_Column_def check_eval)
  show "\<forall>q\<in>set_CompileExpr demo_membership. projections_typed (catalog_of demo_database) q"
    by (simp add: demo_membership_def demo_check_def demo_subquery_typed)
  show "row_fits demo_users [VInt 7, VText ''ann'']" by (simp add: row_fits_def value_fits_def demo_users_def make_Column_def)
qed (simp_all add: demo_database_fits)

end
