(* ===== verification/Spec2Isabelle.thy ===== *)
theory Spec2Isabelle
  imports RowCodec LockProtocol Deadlock SlottedPage Replacer LogProtocol Disk ExpressionFold Like RecoverySafety PoolRaces BTreePool TransactionSafety ParserPrint AccessPaths Relational QueryTypes
begin

text \<open>
  A verification library for OurSQL, a small relational database in C++: a SQL front end, a planner
  and an executor over pages, a buffer pool, a write-ahead log and a lock manager. The library models
  the parts that carry its correctness, function by function, and proves what they promise.

  \<^bold>\<open>How the parts interact.\<close> Rows are encoded (\<^verbatim>\<open>storage/row_codec.cpp\<close>) and stored as records of slotted
  pages (\<^verbatim>\<open>storage/storage.cpp\<close>). Pages live in a file under the disk manager and in frames chosen by a
  replacement policy (both \<^verbatim>\<open>storage/storage.cpp\<close>). Changes are logged first (\<^verbatim>\<open>storage/log_manager.cpp\<close>).
  Transactions (\<^verbatim>\<open>transaction/transaction.cpp\<close>, begun and ended by
  \<^verbatim>\<open>transaction/transaction_manager.cpp\<close>) lock tables, pages and keys through the lock manager
  (\<^verbatim>\<open>transaction/lock_manager.cpp\<close>), which also looks for deadlocks. Statements are read by
  \<^verbatim>\<open>parser/lexer.cpp\<close> and \<^verbatim>\<open>parser/parser.cpp\<close>, checked and turned into plans by \<^verbatim>\<open>planner/planner.cpp\<close>, rewritten by
  \<^verbatim>\<open>optimizer/optimizer.cpp\<close> (plans) and \<^verbatim>\<open>optimizer/expression_optimizer.cpp\<close> (expressions), and run by
  \<^verbatim>\<open>execution/executor.cpp\<close>, which evaluates their expressions over rows.

  \<^bold>\<open>Theories and sources\<close> (paths under \<^verbatim>\<open>src/src\<close>, with the headers under \<^verbatim>\<open>src/include/oursql\<close>).
    \<^item> \<^verbatim>\<open>Base\<close>: byte and word lemmas, error codes and results (\<^verbatim>\<open>common/status.h\<close>, \<^verbatim>\<open>common/types.h\<close>);
      \<^verbatim>\<open>Codec\<close>: the interfaces of record formats; \<^verbatim>\<open>Common\<close>: statuses, values, columns
      (\<^verbatim>\<open>common/*.cpp\<close>).
    \<^item> \<^verbatim>\<open>RowCodec\<close>: \<^verbatim>\<open>storage/row_codec.cpp\<close>. The codec is a canonical codec: decoding inverts encoding
      and nothing else decodes.
    \<^item> \<^verbatim>\<open>LockTypes\<close>, \<^verbatim>\<open>Transaction\<close>, \<^verbatim>\<open>LockManager\<close>: modes, transactions and every operation of the lock
      manager. A call that blocks in the source ends here with \<open>Waiting\<close>, and \<open>lock_loop_body\<close> is one turn
      of its waiting loop. \<^verbatim>\<open>LockSafety\<close> shows that each operation changes each queue by
      the steps \<open>arrive\<close>, \<open>settle\<close>, cancel and release, and what these do to the
      holders; \<^verbatim>\<open>LockProtocol\<close> has the step relation over all interleavings, its invariant and the
      properties: mutual exclusion of conflicting modes, refinement of a table of holders, fairness, release and progress.
      \<^verbatim>\<open>Deadlock\<close>: the wait-for graph and the search for a cycle, with the entries that the search inserts into the
      hash map it iterates over; which insertions rebuild the table of the map is a parameter (\<open>rehash\<close>), and going on after one
      is undefined behaviour (\<open>None\<close>).
    \<^item> \<^verbatim>\<open>PageBytes\<close>, \<^verbatim>\<open>SlottedPage\<close>: the slotted page over the page's bytes, proved to refine a partial
      map from slots to records. \<^verbatim>\<open>Replacer\<close>: the policies FIFO, LRU and CLOCK, instances of one interface.
    \<^item> \<^verbatim>\<open>Wal\<close>, \<^verbatim>\<open>LogFile\<close>, \<^verbatim>\<open>LogProtocol\<close>: log records and their bytes, the log manager, and the
      interleavings of appends and flushes with crashes. \<^verbatim>\<open>Disk\<close>: the disk manager, proved to
      be a store of pages that survives reopening. \<^verbatim>\<open>Recovery\<close>, \<^verbatim>\<open>RecoverySafety\<close>
      (\<^verbatim>\<open>recovery/recovery_manager.cpp\<close>): restart recovery over the models of the log and of the disk, proved to
      restore the committed pages, also when it is itself cut short and run again.
    \<^item> \<^verbatim>\<open>BufferPool\<close>: frames, page table and guards (\<^verbatim>\<open>storage/storage.cpp\<close>), each call cut
      where it gives up the pool's mutex or waits. \<^verbatim>\<open>PageStore\<close> is the interface of the disk that the pool relies on, with the
      disk manager as its instance. \<^verbatim>\<open>PoolProtocol\<close> has the step relation over all interleavings of these pieces,
      \<^verbatim>\<open>PoolInvariant\<close> and \<^verbatim>\<open>PoolSteps\<close> its invariant, \<^verbatim>\<open>PoolSafety\<close>
      write-ahead logging, \<^verbatim>\<open>PoolClients\<close> what the callers get from both, and \<^verbatim>\<open>PoolRaces\<close> two
      calls that do not stand interference. The protocol restricts them: \<^verbatim>\<open>RestorePage\<close>, and likewise \<^verbatim>\<open>FinalizePageDeletion\<close>, is one
      step, a \<^verbatim>\<open>FlushPage\<close> that had to wait goes on only if its frame still has its page, and the client loads, deletes and
      restores only allocated pages that it was handed.
    \<^item> \<^verbatim>\<open>TransactionManager\<close>: beginning, committing and aborting (\<^verbatim>\<open>transaction/transaction_manager.cpp\<close>), over
      the log, the pool and the lock manager. \<^verbatim>\<open>TransactionPool\<close> has the state between calls of the pool, in which no
      guard is held and no call waits (\<open>settled_pool\<close>), and what each pool call used by the manager does to the pages there;
      \<^verbatim>\<open>TransactionSafety\<close> composes them: an abort gives back every page of the transaction, a commit is durable before
      its locks are released.
    \<^item> \<^verbatim>\<open>BTreePage\<close>, \<^verbatim>\<open>BTree\<close>: the B+ tree (\<^verbatim>\<open>index/b_plus_tree.cpp\<close>, \<^verbatim>\<open>index/b_plus_tree_page.cpp\<close>) over the
      calls of the pool, which are an argument. \<^verbatim>\<open>BTreeInv\<close> ties the pages to a ghost tree; \<^verbatim>\<open>BTreeCalls\<close> has the
      contract \<open>page_calls\<close> that the pool promises; under it \<^verbatim>\<open>BTreeSearch\<close> and \<^verbatim>\<open>BTreeInsert\<close> treat
      searching, scanning, opening and inserting. \<^verbatim>\<open>PoolSerial\<close> runs whole calls of the pool one after the other,
      and \<^verbatim>\<open>BTreePool\<close> shows that they meet the contract, so the properties hold of the tree in the pool.
    \<^item> \<^verbatim>\<open>Lexer\<close>, \<^verbatim>\<open>Parser\<close>: from the text of a script to its statements (\<^verbatim>\<open>parser/lexer.cpp\<close>,
      \<^verbatim>\<open>parser/parser.cpp\<close>). The parser is a state function on the list of remaining tokens, one definition per
      production. \<^verbatim>\<open>LexerSpec\<close> shows that the tokens tile the text, \<^verbatim>\<open>ParserSafety\<close> that parsing ends and stays
      inside the tokens, \<^verbatim>\<open>ParserPrint\<close> that the printed form of an expression is read back.
    \<^item> \<^verbatim>\<open>Expression\<close>, \<^verbatim>\<open>ExpressionFold\<close>, \<^verbatim>\<open>Like\<close>: the evaluator, constant folding with the extraction
      of simple predicates, and pattern matching.
    \<^item> \<^verbatim>\<open>Plan\<close>, \<^verbatim>\<open>Optimizer\<close>, \<^verbatim>\<open>Planner\<close>: plans and their printing (\<^verbatim>\<open>plan/plan.h\<close>), the rewriting of plans
      (\<^verbatim>\<open>optimizer/optimizer.cpp\<close>), and \<open>Build\<close> (\<^verbatim>\<open>planner/planner.cpp\<close>), which checks a statement against the
      catalog and makes its plan. \<^verbatim>\<open>PlannerTypes\<close> relates the types of the planner to the evaluator (\<^verbatim>\<open>QueryTypes\<close> does it for whole queries), \<^verbatim>\<open>PlannerSafety\<close> shows
      that accepted rows can be stored and that the plans have the shape the executor needs.
    \<^item> \<^verbatim>\<open>Executor\<close>, \<^verbatim>\<open>Query\<close>: the operators of SELECT (\<^verbatim>\<open>execution/executor.cpp\<close>). A row source is the list of results that
      its calls of \<^verbatim>\<open>Next\<close> would give; tables and indexes are functions of the record \<open>Database\<close>. \<open>RunSelect\<close> ties planner and
      executor together over nested subqueries. \<^verbatim>\<open>Relational\<close> shows that joins, ORDER BY and grouping are what they are named
      after, \<^verbatim>\<open>AccessPaths\<close> that the use of an index does not change an answer, and \<^verbatim>\<open>QueryTypes\<close> that a query delivers rows of the types
      that its plan announces, so the type check of expressions is sound with subqueries.

  \<^bold>\<open>Conventions.\<close> SQL integers are 64-bit words read by \<open>sint\<close>; page numbers and file fields are 32-bit
  words; sizes and offsets that the source keeps in \<^verbatim>\<open>size_t\<close> are \<open>nat\<close> where they cannot wrap. A failing
  status is an error code; its message is kept only where statuses themselves are modelled. A hash map
  is a partial map, or an association list where its iteration order matters. A function whose body runs under
  one mutex is one function on the state; one that releases its mutex is cut there.

  \<^bold>\<open>Bounds and fuel.\<close> The depth-first search of the deadlock detector gets the number of
  graph nodes plus edges as fuel, and \<^verbatim>\<open>DetectDeadlocks_complete\<close> shows it suffices. A flush that runs
  undisturbed writes one batch (\<^verbatim>\<open>Flush_outcome\<close>). The CLOCK scan has the source's bound of twice the capacity.
  The undo loop of recovery is a partial function; the theorems on \<open>Recover\<close> show that it ends on every
  well-formed log. The loops of the B+ tree are partial functions too, and its theorems show that they end on every tree. The descent of the parser through expressions and subqueries, and each of its loops, gets the number of tokens as
  fuel; \<^verbatim>\<open>Parse_returns\<close> shows that it never runs out. All other loops terminate by a measure: the undo loop of
  the transaction manager by the records not yet visited, the log scan by the bytes left, the walk along the free list by
  the pages not yet seen, the planner and the executor, which call each other for a subquery, by the size of the statement.

  \<^bold>\<open>Not modelled.\<close> Host file calls other than the flush succeed. Error texts, event capture formatting
  for the demonstrations, and I/O timing are left out. The executors of INSERT, UPDATE and DELETE, the heap table, the index
  manager, the catalog, the engine that dispatches statements and the web front end are not modelled. The write
  of one page is atomic, and recovery visits its hash sets of transactions in the order of the log.
\<close>

end
